(* ===== verification/Prelude.thy ===== *)
theory Prelude
  imports Complex_Main "HOL-Library.Multiset" "HOL-Library.Word" "HOL-Library.AList"
begin

text \<open>
  Shared vocabulary of the development: the types that stand for Go's \<open>time.Time\<close> and
  \<open>time.Duration\<close>, the collections that the component theories fill and hand to the
  simplifier, and the generic facts on lists, options and finite maps that several components use.

  Instants and durations are \<open>int\<close> counts of nanoseconds, as Go's \<open>UnixNano\<close> and
  \<open>Duration\<close> are; the zero instant \<open>time.Time{}\<close>, which the code tests with
  \<open>IsZero\<close>, is \<open>None\<close> of \<open>instant option\<close> wherever a field may hold it.
  A section of Go code under one mutex, or one atomic compare-and-swap, is one step of the model.
\<close>

named_theorems go_defs \<open>definitions of straight-line operations, unfolded on demand\<close>
named_theorems inv_intros \<open>invariant preservation of the operations\<close>

section \<open>Time\<close>

type_synonym duration = int
type_synonym instant = int

abbreviation go_millisecond :: duration where "go_millisecond \<equiv> 1000000"
abbreviation go_second :: duration where "go_second \<equiv> 1000000000"
abbreviation go_minute :: duration where "go_minute \<equiv> 60000000000"

text \<open>Go's integer division truncates towards zero.\<close>

definition go_quot :: "int \<Rightarrow> int \<Rightarrow> int" where
  "go_quot a b = sgn a * sgn b * (\<bar>a\<bar> div \<bar>b\<bar>)"

lemma go_quot_nonneg [simp]: "0 \<le> a \<Longrightarrow> 0 < b \<Longrightarrow> go_quot a b = a div b"
  by (cases "a = 0") (auto simp: go_quot_def sgn_if)

section \<open>Strings\<close>

text \<open>
  \<open>strings.TrimSpace\<close> and \<open>strings.EqualFold\<close> on ASCII text: the white space is tab to
  carriage return and blank, the case folding is that of the 26 letters.
\<close>

definition isSpace :: "char \<Rightarrow> bool" where
  "isSpace c \<longleftrightarrow> (let n = (of_char c :: nat) in n = 32 \<or> (9 \<le> n \<and> n \<le> 13))"

definition trimSpace :: "string \<Rightarrow> string" where
  "trimSpace s = rev (dropWhile isSpace (rev (dropWhile isSpace s)))"

definition asciiLower :: "char \<Rightarrow> char" where
  "asciiLower c = (let n = (of_char c :: nat) in if 65 \<le> n \<and> n \<le> 90 then char_of (n + 32) else c)"

definition equalFold :: "string \<Rightarrow> string \<Rightarrow> bool" where
  "equalFold s t \<longleftrightarrow> map asciiLower s = map asciiLower t"

lemma trimSpace_Nil [simp]: "trimSpace [] = []"
  by (simp add: trimSpace_def)

section \<open>Lists\<close>

lemma distinct_map_filter: "distinct (map f xs) \<Longrightarrow> distinct (map f (filter P xs))"
  by (induction xs) auto

lemma count_list_distinct: "distinct xs \<Longrightarrow> x \<in> set xs \<Longrightarrow> count_list xs x = 1"
  by (induction xs) auto

text \<open>An association list with distinct keys has as many entries as its map has keys.\<close>

lemma card_dom_map_of: "distinct (map fst al) \<Longrightarrow> card (dom (map_of al)) = length al"
  by (metis distinct_card dom_map_of_conv_image_fst length_map list.set_map)

lemma length_filter_map_of:
  assumes "distinct (map fst al)"
  shows "length (filter (\<lambda>(i, e). P e) al) = card {i. \<exists>e. map_of al i = Some e \<and> P e}"
proof -
  let ?ps = "filter (\<lambda>(i, e). P e) al"
  have "{i. \<exists>e. map_of al i = Some e \<and> P e} = set (map fst ?ps)"
    using assms by (auto simp: map_of_eq_Some_iff image_iff)
  moreover have "distinct (map fst ?ps)" using assms by (rule distinct_map_filter)
  ultimately show ?thesis using distinct_card [of "map fst ?ps"] by (simp del: set_map)
qed

lemma map_of_filter_distinct:
  "distinct (map fst al) \<Longrightarrow> map_of (filter P al) k = (case map_of al k of None \<Rightarrow> None | Some v \<Rightarrow> if P (k, v) then Some v else None)"
proof (induction al)
  case (Cons kv al)
  then have "map_of al (fst kv) = None" by (simp add: map_of_eq_None_iff)
  then show ?case using Cons by (cases kv) (auto split: option.splits)
qed simp

section \<open>Maps with finitely many keys\<close>

lemma finite_dom_upd [simp, intro]: "finite (dom m) \<Longrightarrow> finite (dom (m(k \<mapsto> v)))"
  by simp

lemma finite_dom_del [simp, intro]: "finite (dom m) \<Longrightarrow> finite (dom (m(k := None)))"
  by simp

lemma card_dom_upd_new: "finite (dom m) \<Longrightarrow> m k = None \<Longrightarrow> card (dom (m(k \<mapsto> v))) = Suc (card (dom m))"
  by (simp add: domIff)

lemma card_dom_upd_old: "m k = Some u \<Longrightarrow> card (dom (m(k \<mapsto> v))) = card (dom m)"
proof -
  assume "m k = Some u"
  then have "insert k (dom m) = dom m" by auto
  then show ?thesis by simp
qed

section \<open>Runs and simulation\<close>

text \<open>
  A run performs a list of operations and collects what they return. A component refines its
  specification when one step of the specification on the abstract state is the abstraction of one
  step of the code; then every run agrees in its outputs.
\<close>

fun run_ops :: "('op \<Rightarrow> 's \<Rightarrow> 'out \<times> 's) \<Rightarrow> 'op list \<Rightarrow> 's \<Rightarrow> 'out list \<times> 's" where
  "run_ops step [] s = ([], s)"
| "run_ops step (x # xs) s =
     (case step x s of (y, s') \<Rightarrow> case run_ops step xs s' of (ys, s'') \<Rightarrow> (y # ys, s''))"

lemma length_run_ops: "length (fst (run_ops step xs s)) = length xs"
proof (induction xs arbitrary: s)
  case (Cons x xs)
  then show ?case by (simp split: prod.splits) (metis fst_conv)
qed simp

lemma nth_run_ops:
  "i < length xs \<Longrightarrow> fst (run_ops step xs s) ! i = fst (step (xs ! i) (snd (run_ops step (List.take i xs) s)))"
proof (induction xs arbitrary: i s)
  case (Cons x xs)
  obtain y s' where y: "step x s = (y, s')" by (metis surj_pair)
  show ?case
  proof (cases i)
    case (Suc j)
    then show ?thesis using Cons y by (simp add: case_prod_beta)
  qed (simp add: y case_prod_beta)
qed simp

lemma inv_run_ops:
  assumes "\<And>e s. I s \<Longrightarrow> I (snd (step e s))"
  shows "I s \<Longrightarrow> I (snd (run_ops step es s))"
  using assms by (induction es arbitrary: s) (auto split: prod.splits, metis snd_conv)

locale simulation =
  fixes inv :: "'c \<Rightarrow> bool" and abs :: "'c \<Rightarrow> 'a"
    and cstep :: "'op \<Rightarrow> 'c \<Rightarrow> 'out \<times> 'c" and astep :: "'op \<Rightarrow> 'a \<Rightarrow> 'out \<times> 'a"
  assumes inv_step: "inv c \<Longrightarrow> inv (snd (cstep x c))"
    and abs_step: "inv c \<Longrightarrow> astep x (abs c) = map_prod id abs (cstep x c)"
begin

lemma inv_run: "inv c \<Longrightarrow> inv (snd (run_ops cstep xs c))"
proof (induction xs arbitrary: c)
  case (Cons x xs)
  then show ?case using inv_step [of c x] by (auto split: prod.splits) (metis snd_conv)
qed simp

lemma run_refines: "inv c \<Longrightarrow> run_ops astep xs (abs c) = map_prod id abs (run_ops cstep xs c)"
proof (induction xs arbitrary: c)
  case (Cons x xs)
  then show ?case using inv_step [of c x] abs_step [of c x] by (auto split: prod.splits)
qed simp

end

end
