(* ===== verification/SlidingWindow.thy ===== *)
theory SlidingWindow
  imports Prelude
begin

text \<open>
  The in-process rate limiter, \<open>ratelimit/sliding.go\<close>, and the gateway-wide gate,
  \<open>ratelimit/gate.go\<close>. A limiter is a list of 16 shards, each with its RPM windows and its
  TPM windows by key. \<open>time.Now().UnixMilli()\<close> is the argument \<open>ms\<close>; the \<open>float64\<close>
  seconds the code derives from it are exact real numbers here (rounding can only matter for an
  entry that is exactly sixty seconds old). The interface \<open>RPMLimiter\<close> is the locale
  \<open>rpm_limiter\<close>.
\<close>

unbundle bit_operations_syntax

definition rpmShardCount :: nat where "rpmShardCount = 16"

record tokenEntry =
  te_ts :: real
  te_tokens :: int

record rpmShard =
  windows :: "int \<rightharpoonup> real list"
  tokenWins :: "int \<rightharpoonup> tokenEntry list"

record slidingWindowLimiter =
  shards :: "rpmShard list"

definition emptyShard :: rpmShard where
  "emptyShard = \<lparr>windows = Map.empty, tokenWins = Map.empty\<rparr>"

definition NewSlidingWindowLimiter :: slidingWindowLimiter where
  "NewSlidingWindowLimiter = \<lparr>shards = replicate rpmShardCount emptyShard\<rparr>"

text \<open>\<open>uint(uintptr(keyID)) & (rpmShardCount-1)\<close> on a 64-bit platform.\<close>

definition shardIndex :: "int \<Rightarrow> nat" where
  "shardIndex keyID = unat ((word_of_int keyID :: 64 word) AND 15)"

definition nowSeconds :: "int \<Rightarrow> real" where
  "nowSeconds ms = real_of_int ms / 1000"

definition CheckRPM :: "slidingWindowLimiter \<Rightarrow> int \<Rightarrow> int \<Rightarrow> int \<Rightarrow> bool \<times> slidingWindowLimiter" where
  "CheckRPM l ms keyID limit =
     (if limit \<le> 0 then (True, l)
      else let i = shardIndex keyID;
               s = shards l ! i;
               now = nowSeconds ms;
               cutoff = now - 60;
               w = (case windows s keyID of None \<Rightarrow> [] | Some ts \<Rightarrow> ts);
               filtered = filter (\<lambda>t. cutoff < t) w
           in if limit \<le> int (length filtered)
              then (False, l\<lparr>shards := (shards l)[i := s\<lparr>windows := (windows s)(keyID \<mapsto> filtered)\<rparr>]\<rparr>)
              else (True, l\<lparr>shards := (shards l)[i := s\<lparr>windows := (windows s)(keyID \<mapsto> filtered @ [now])\<rparr>]\<rparr>))"

definition CheckTPM :: "slidingWindowLimiter \<Rightarrow> int \<Rightarrow> int \<Rightarrow> int \<Rightarrow> int \<Rightarrow> bool \<times> slidingWindowLimiter" where
  "CheckTPM l ms keyID estimatedTokens limit =
     (if limit \<le> 0 then (True, l)
      else let i = shardIndex keyID;
               s = shards l ! i;
               now = nowSeconds ms;
               cutoff = now - 60;
               w = (case tokenWins s keyID of None \<Rightarrow> [] | Some es \<Rightarrow> es);
               filtered = filter (\<lambda>e. cutoff < te_ts e) w;
               currentTotal = sum_list (map te_tokens filtered)
           in if limit < currentTotal + estimatedTokens
              then (False, l\<lparr>shards := (shards l)[i := s\<lparr>tokenWins := (tokenWins s)(keyID \<mapsto> filtered)\<rparr>]\<rparr>)
              else (True, l\<lparr>shards := (shards l)[i := s\<lparr>tokenWins := (tokenWins s)(keyID \<mapsto>
                      filtered @ [\<lparr>te_ts = now, te_tokens = estimatedTokens\<rparr>])\<rparr>]\<rparr>))"

definition RPMStatus :: "slidingWindowLimiter \<Rightarrow> int \<Rightarrow> int \<Rightarrow> int \<Rightarrow> int \<times> int" where
  "RPMStatus l ms keyID limit =
     (if limit \<le> 0 then (0, -1)
      else let s = shards l ! shardIndex keyID;
               cutoff = nowSeconds ms - 60
           in case windows s keyID of
                None \<Rightarrow> (0, limit)
              | Some w \<Rightarrow>
                 let count = int (length (filter (\<lambda>t. cutoff < t) w));
                     rem = limit - count
                 in (count, if rem < 0 then 0 else rem))"

definition Stop_limiter :: "slidingWindowLimiter \<Rightarrow> slidingWindowLimiter" where
  "Stop_limiter l = l\<lparr>shards := map (\<lambda>_. emptyShard) (shards l)\<rparr>"

text \<open>
  The gate: the atomic flag and the registered handlers (identified by numbers). Setting it
  returns the handler calls it makes.
\<close>

record gate =
  gate_enabled :: bool
  gate_handlers :: "nat list"

definition SetRateLimitEnabled :: "gate \<Rightarrow> bool \<Rightarrow> (nat \<times> bool) list \<times> gate" where
  "SetRateLimitEnabled g v =
     (let prev = gate_enabled g; g' = g\<lparr>gate_enabled := v\<rparr>
      in if prev = v then ([], g') else (map (\<lambda>h. (h, v)) (gate_handlers g'), g'))"

definition RegisterTransitionHandler :: "gate \<Rightarrow> nat \<Rightarrow> gate" where
  "RegisterTransitionHandler g h = g\<lparr>gate_handlers := gate_handlers g @ [h]\<rparr>"

section \<open>Runs of the limiter\<close>

definition limiter_wf :: "slidingWindowLimiter \<Rightarrow> bool" where
  "limiter_wf l \<longleftrightarrow> length (shards l) = rpmShardCount"

definition rpmWindowOf :: "slidingWindowLimiter \<Rightarrow> int \<Rightarrow> real list" where
  "rpmWindowOf l k = (case windows (shards l ! shardIndex k) k of None \<Rightarrow> [] | Some w \<Rightarrow> w)"

definition tpmWindowOf :: "slidingWindowLimiter \<Rightarrow> int \<Rightarrow> tokenEntry list" where
  "tpmWindowOf l k = (case tokenWins (shards l ! shardIndex k) k of None \<Rightarrow> [] | Some w \<Rightarrow> w)"

text \<open>A run of \<open>CheckRPM\<close> calls \<open>(ms, key)\<close> under one limit; the result lists the admitted calls.\<close>

fun rpm_run :: "int \<Rightarrow> slidingWindowLimiter \<Rightarrow> (int \<times> int) list \<Rightarrow> (int \<times> int) list" where
  "rpm_run limit l [] = []"
| "rpm_run limit l ((ms, k) # evs) =
     (let (ok, l') = CheckRPM l ms k limit
      in if ok then (ms, k) # rpm_run limit l' evs else rpm_run limit l' evs)"

definition admitted_in :: "(int \<times> int) list \<Rightarrow> int \<Rightarrow> real \<Rightarrow> nat" where
  "admitted_in adm k T = length (filter (\<lambda>(ms, k'). k' = k \<and> T - 60 < nowSeconds ms \<and> nowSeconds ms \<le> T) adm)"

section \<open>Lemmas\<close>

lemma shardIndex_bound [simp]: "shardIndex k < rpmShardCount"
proof -
  have "unat ((word_of_int k :: 64 word) AND 15) \<le> unat (15 :: 64 word)"
    by (rule word_and_le1 [THEN word_le_nat_alt [THEN iffD1]])
  then show ?thesis by (simp add: shardIndex_def rpmShardCount_def)
qed

lemma shardIndex_mod: "shardIndex k = nat (k mod 16)"
proof -
  let ?w = "word_of_int k :: 64 word"
  have "?w AND 15 = take_bit 4 ?w" by (simp add: take_bit_eq_mask mask_eq_exp_minus_1)
  then have "uint (?w AND 15) = take_bit 4 (uint ?w)" by (simp only: unsigned_take_bit_eq)
  also have "uint ?w = take_bit 64 k" by (simp only: uint_word_of_int_eq len_bit0 len_num1) simp
  also have "take_bit 4 (take_bit 64 k) = k mod 16" by (simp add: take_bit_take_bit take_bit_eq_mod [of 4])
  finally show ?thesis by (simp add: shardIndex_def unat_eq_nat_uint)
qed

lemma limiter_wf_new [simp]: "limiter_wf NewSlidingWindowLimiter"
  by (simp add: limiter_wf_def NewSlidingWindowLimiter_def)

lemma limiter_wf_CheckRPM [inv_intros]: "limiter_wf l \<Longrightarrow> limiter_wf (snd (CheckRPM l ms k limit))"
  by (simp add: limiter_wf_def CheckRPM_def Let_def)

lemma limiter_wf_CheckTPM [inv_intros]: "limiter_wf l \<Longrightarrow> limiter_wf (snd (CheckTPM l ms k n limit))"
  by (simp add: limiter_wf_def CheckTPM_def Let_def)

lemma rpmWindowOf_new [simp]: "rpmWindowOf NewSlidingWindowLimiter k = []"
  using shardIndex_bound [of k]
  by (simp add: rpmWindowOf_def NewSlidingWindowLimiter_def emptyShard_def rpmShardCount_def)

lemma CheckRPM_accepts:
  "fst (CheckRPM l ms k limit) \<longleftrightarrow>
   limit \<le> 0 \<or> int (length (filter (\<lambda>t. nowSeconds ms - 60 < t) (rpmWindowOf l k))) < limit"
  by (simp add: CheckRPM_def Let_def rpmWindowOf_def)

lemma CheckRPM_window:
  assumes "limiter_wf l" "0 < limit"
  shows "rpmWindowOf (snd (CheckRPM l ms k limit)) k' =
    (if k' = k then filter (\<lambda>t. nowSeconds ms - 60 < t) (rpmWindowOf l k) @
        (if fst (CheckRPM l ms k limit) then [nowSeconds ms] else [])
     else rpmWindowOf l k')"
  using assms shardIndex_bound [of k] shardIndex_bound [of k']
  by (auto simp: rpmWindowOf_def CheckRPM_def Let_def limiter_wf_def nth_list_update)

lemma RPMStatus_window:
  "0 < limit \<Longrightarrow> RPMStatus l ms k limit =
    (let count = int (length (filter (\<lambda>t. nowSeconds ms - 60 < t) (rpmWindowOf l k)))
     in (count, max 0 (limit - count)))"
  by (auto simp: RPMStatus_def rpmWindowOf_def Let_def split: option.splits)

lemma CheckTPM_window:
  assumes "limiter_wf l" "0 < limit"
  shows "tpmWindowOf (snd (CheckTPM l ms k n limit)) k' =
    (if k' = k then filter (\<lambda>e. nowSeconds ms - 60 < te_ts e) (tpmWindowOf l k) @
        (if fst (CheckTPM l ms k n limit) then [\<lparr>te_ts = nowSeconds ms, te_tokens = n\<rparr>] else [])
     else tpmWindowOf l k')"
  using assms shardIndex_bound [of k] shardIndex_bound [of k']
  by (auto simp: tpmWindowOf_def CheckTPM_def Let_def limiter_wf_def nth_list_update)

lemma CheckTPM_accepts:
  "fst (CheckTPM l ms k n limit) \<longleftrightarrow> limit \<le> 0 \<or>
     sum_list (map te_tokens (filter (\<lambda>e. nowSeconds ms - 60 < te_ts e) (tpmWindowOf l k))) + n \<le> limit"
  by (auto simp: CheckTPM_def Let_def tpmWindowOf_def)

lemma CheckRPM_tpmWindowOf:
  "limiter_wf l \<Longrightarrow> tpmWindowOf (snd (CheckRPM l ms k limit)) j = tpmWindowOf l j"
  using shardIndex_bound [of k]
  by (simp add: tpmWindowOf_def CheckRPM_def Let_def limiter_wf_def nth_list_update)

lemma CheckTPM_rpmWindowOf:
  "limiter_wf l \<Longrightarrow> rpmWindowOf (snd (CheckTPM l ms k n limit)) j = rpmWindowOf l j"
  using shardIndex_bound [of k]
  by (simp add: rpmWindowOf_def CheckTPM_def Let_def limiter_wf_def nth_list_update)

lemma nowSeconds_mono: "a \<le> b \<Longrightarrow> nowSeconds a \<le> nowSeconds b"
  by (simp add: nowSeconds_def divide_right_mono)

text \<open>
  The window of a key holds at least every admission of the last minute. The state of a run is
  related to the list \<open>adm\<close> of admissions so far, all made no later than \<open>ms\<close>.
\<close>

definition run_rel :: "int \<Rightarrow> slidingWindowLimiter \<Rightarrow> (int \<times> int) list \<Rightarrow> bool" where
  "run_rel ms l adm \<longleftrightarrow> limiter_wf l \<and> (\<forall>e \<in> set adm. fst e \<le> ms) \<and>
     (\<forall>k. \<forall>ms' \<ge> ms. filter (\<lambda>t. nowSeconds ms' - 60 < t) (rpmWindowOf l k) =
        filter (\<lambda>t. nowSeconds ms' - 60 < t) (map (nowSeconds \<circ> fst) (filter (\<lambda>e. snd e = k) adm)))"

lemma run_rel_mono: "run_rel ms l adm \<Longrightarrow> ms \<le> ms' \<Longrightarrow> run_rel ms' l adm"
  unfolding run_rel_def by (meson order_trans)

lemma filter_cutoff_mono:
  "(c :: real) \<le> c' \<Longrightarrow> filter (\<lambda>t. c < t \<and> c' < t) xs = filter (\<lambda>t. c' < t) xs"
  by (rule filter_cong) auto

lemma run_rel_step:
  assumes R: "run_rel ms l adm" and lim: "0 < limit"
  shows "run_rel ms (snd (CheckRPM l ms k limit))
     (adm @ (if fst (CheckRPM l ms k limit) then [(ms, k)] else []))"
  unfolding run_rel_def
proof (intro conjI allI impI ballI)
  show "limiter_wf (snd (CheckRPM l ms k limit))" using R by (auto simp: run_rel_def intro: inv_intros)
next
  fix e assume "e \<in> set (adm @ (if fst (CheckRPM l ms k limit) then [(ms, k)] else []))"
  then show "fst e \<le> ms" using R by (auto simp: run_rel_def split: if_splits)
next
  fix k' ms' assume le: "ms \<le> ms'"
  have wf: "limiter_wf l" using R by (simp add: run_rel_def)
  have "nowSeconds ms - 60 \<le> nowSeconds ms' - 60" using nowSeconds_mono [OF le] by simp
  note fm = filter_cutoff_mono [OF this]
  have "filter (\<lambda>t. nowSeconds ms' - 60 < t) (rpmWindowOf l k') =
      filter (\<lambda>t. nowSeconds ms' - 60 < t) (map (nowSeconds \<circ> fst) (filter (\<lambda>e. snd e = k') adm))"
    using R le by (auto simp: run_rel_def)
  then show "filter (\<lambda>t. nowSeconds ms' - 60 < t) (rpmWindowOf (snd (CheckRPM l ms k limit)) k') =
      filter (\<lambda>t. nowSeconds ms' - 60 < t) (map (nowSeconds \<circ> fst)
        (filter (\<lambda>e. snd e = k') (adm @ (if fst (CheckRPM l ms k limit) then [(ms, k)] else []))))"
    by (cases "k' = k") (simp_all add: CheckRPM_window [OF wf lim] fm)
qed

lemma admitted_in_append:
  "admitted_in (adm @ [(ms, k')]) k T =
   admitted_in adm k T + (if k' = k \<and> T - 60 < nowSeconds ms \<and> nowSeconds ms \<le> T then 1 else 0)"
  by (simp add: admitted_in_def)

lemma admitted_in_window_le:
  assumes R: "run_rel ms l adm" and T: "nowSeconds ms \<le> T"
  shows "admitted_in adm k T \<le> length (filter (\<lambda>t. nowSeconds ms - 60 < t) (rpmWindowOf l k))"
proof -
  have "length (filter (\<lambda>t. nowSeconds ms - 60 < t) (rpmWindowOf l k)) =
      length (filter (\<lambda>e. snd e = k \<and> nowSeconds ms - 60 < nowSeconds (fst e)) adm)"
    using R by (auto simp: run_rel_def filter_map o_def conj_commute)
  moreover have "admitted_in adm k T \<le> \<dots>"
    unfolding admitted_in_def using T
    by (induction adm) auto
  ultimately show ?thesis by simp
qed

lemma rpm_run_bound:
  assumes "0 < limit" "sorted (map fst evs)" "\<forall>e \<in> set evs. ms \<le> fst e" "run_rel ms l adm"
    "\<forall>T. int (admitted_in adm k T) \<le> limit"
  shows "int (admitted_in (adm @ rpm_run limit l evs) k T) \<le> limit"
  using assms(2-)
proof (induction evs arbitrary: ms l adm)
  case Nil
  then show ?case by simp
next
  case (Cons e evs)
  obtain ms1 k1 where e: "e = (ms1, k1)" by (cases e)
  define ok l' where "ok = fst (CheckRPM l ms1 k1 limit)" and "l' = snd (CheckRPM l ms1 k1 limit)"
  define adm' where "adm' = adm @ (if ok then [(ms1, k1)] else [])"
  have R: "run_rel ms1 l adm" using Cons.prems run_rel_mono e by auto
  have R': "run_rel ms1 l' adm'"
    using run_rel_step [OF R assms(1)] by (simp add: adm'_def ok_def l'_def)
  have bound: "int (admitted_in adm' k T) \<le> limit" for T
  proof (cases "ok \<and> k1 = k \<and> T - 60 < nowSeconds ms1 \<and> nowSeconds ms1 \<le> T")
    case True
    then have "int (admitted_in adm k T) < limit"
      using admitted_in_window_le [OF R, of T k] assms(1) by (auto simp: ok_def CheckRPM_accepts)
    then show ?thesis using True by (simp add: adm'_def admitted_in_append)
  next
    case False
    then show ?thesis using Cons.prems(4) by (auto simp: adm'_def admitted_in_append)
  qed
  have "adm @ rpm_run limit l (e # evs) = adm' @ rpm_run limit l' evs"
    by (simp add: e adm'_def ok_def l'_def split_beta)
  moreover have "int (admitted_in (adm' @ rpm_run limit l' evs) k T) \<le> limit"
    using Cons.prems(1) R' bound e by (intro Cons.IH) auto
  ultimately show ?case by simp
qed

section \<open>The interface \<open>RPMLimiter\<close>\<close>

locale rpm_limiter =
  fixes check :: "'l \<Rightarrow> int \<Rightarrow> int \<Rightarrow> int \<Rightarrow> bool \<times> 'l"
    and status :: "'l \<Rightarrow> int \<Rightarrow> int \<Rightarrow> int \<Rightarrow> int \<times> int"
    and wf :: "'l \<Rightarrow> bool"
  assumes check_unlimited: "limit \<le> 0 \<Longrightarrow> check l ms k limit = (True, l)"
    and check_status: "wf l \<Longrightarrow> 0 < limit \<Longrightarrow> fst (check l ms k limit) \<longleftrightarrow> 0 < snd (status l ms k limit)"
    and status_after: "wf l \<Longrightarrow> 0 < limit \<Longrightarrow> fst (check l ms k limit) \<Longrightarrow>
      fst (status (snd (check l ms k limit)) ms k limit) = fst (status l ms k limit) + 1"
    and status_refused: "wf l \<Longrightarrow> 0 < limit \<Longrightarrow> \<not> fst (check l ms k limit) \<Longrightarrow>
      status (snd (check l ms k limit)) ms k limit = status l ms k limit"
    and status_other: "wf l \<Longrightarrow> k' \<noteq> k \<Longrightarrow> status (snd (check l ms k limit)) ms' k' limit' = status l ms' k' limit'"
    and status_shape: "wf l \<Longrightarrow> 0 < limit \<Longrightarrow> snd (status l ms k limit) = max 0 (limit - fst (status l ms k limit))"
    and check_wf: "wf l \<Longrightarrow> wf (snd (check l ms k limit))"
begin

fun burst :: "'l \<Rightarrow> int \<Rightarrow> int \<Rightarrow> int \<Rightarrow> nat \<Rightarrow> nat" where
  "burst l ms k limit 0 = 0"
| "burst l ms k limit (Suc n) =
     (let (ok, l') = check l ms k limit in (if ok then 1 else 0) + burst l' ms k limit n)"

lemma burst_admits:
  assumes "wf l" "0 < limit"
  shows "int (burst l ms k limit n) = min (int n) (snd (status l ms k limit))"
  using assms(1)
proof (induction n arbitrary: l)
  case 0
  then show ?case using assms(2) status_shape by simp
next
  case (Suc n)
  let ?l = "snd (check l ms k limit)"
  have wf: "wf ?l" using Suc.prems by (rule check_wf)
  show ?case
  proof (cases "fst (check l ms k limit)")
    case True
    have "snd (status ?l ms k limit) = max 0 (limit - (fst (status l ms k limit) + 1))"
      using status_shape [OF wf assms(2)] status_after [OF Suc.prems assms(2) True] by simp
    moreover have "0 < snd (status l ms k limit)" using check_status [OF Suc.prems assms(2)] True by simp
    ultimately have "snd (status ?l ms k limit) = snd (status l ms k limit) - 1"
      using status_shape [OF Suc.prems assms(2)] by simp
    with True \<open>0 < snd (status l ms k limit)\<close> show ?thesis
      using Suc.IH [OF wf] by (simp add: split_beta)
  next
    case False
    then have "\<not> 0 < snd (status l ms k limit)" using check_status [OF Suc.prems assms(2)] by simp
    moreover have "0 \<le> snd (status l ms k limit)" using status_shape [OF Suc.prems assms(2)] by simp
    ultimately show ?thesis
      using Suc.IH [OF wf] status_refused [OF Suc.prems assms(2) False] False by (simp add: split_beta)
  qed
qed

end

interpretation sliding: rpm_limiter CheckRPM RPMStatus limiter_wf
proof
  fix l ms k limit assume wf: "limiter_wf l" and lim: "0 < (limit :: int)"
  show "fst (CheckRPM l ms k limit) = (0 < snd (RPMStatus l ms k limit))"
    using lim by (auto simp: CheckRPM_accepts RPMStatus_window Let_def)
  show "snd (RPMStatus l ms k limit) = max 0 (limit - fst (RPMStatus l ms k limit))"
    using lim by (simp add: RPMStatus_window Let_def)
  {
    assume "fst (CheckRPM l ms k limit)"
    then show "fst (RPMStatus (snd (CheckRPM l ms k limit)) ms k limit) = fst (RPMStatus l ms k limit) + 1"
      using lim by (simp add: RPMStatus_window CheckRPM_window [OF wf lim] Let_def)
  }
  {
    assume "\<not> fst (CheckRPM l ms k limit)"
    then show "RPMStatus (snd (CheckRPM l ms k limit)) ms k limit = RPMStatus l ms k limit"
      using lim by (simp add: RPMStatus_window CheckRPM_window [OF wf lim] Let_def)
  }
next
  fix l k' k ms limit ms' limit' assume wf: "limiter_wf l" and ne: "k' \<noteq> (k :: int)"
  have "windows (shards (snd (CheckRPM l ms k limit)) ! shardIndex k') k' = windows (shards l ! shardIndex k') k'"
    using ne shardIndex_bound [of k] shardIndex_bound [of k'] wf
    by (auto simp: CheckRPM_def Let_def nth_list_update limiter_wf_def)
  then show "RPMStatus (snd (CheckRPM l ms k limit)) ms' k' limit' = RPMStatus l ms' k' limit'"
    by (simp add: RPMStatus_def)
qed (auto simp: CheckRPM_def limiter_wf_def Let_def)

lemma burst_rpm_run: "sliding.burst l ms k limit n = length (rpm_run limit l (replicate n (ms, k)))"
  by (induction n arbitrary: l) (auto simp: split_beta)

section \<open>Properties\<close>

text \<open>
  Sliding-window safety: along any run of \<open>CheckRPM\<close> calls with a clock that never steps
  back, for any keys in any order, the calls admitted for a key in any interval of sixty seconds
  number at most its limit.
\<close>

theorem rpm_window_never_exceeded:
  assumes "0 < limit" "sorted (map fst evs)"
  shows "int (admitted_in (rpm_run limit NewSlidingWindowLimiter evs) k T) \<le> limit"
proof -
  define ms where "ms = (case evs of [] \<Rightarrow> 0 | e # _ \<Rightarrow> fst e)"
  have "\<forall>e \<in> set evs. ms \<le> fst e" using assms(2) by (cases evs) (auto simp: ms_def)
  moreover have "run_rel ms NewSlidingWindowLimiter []" by (simp add: run_rel_def)
  moreover have "\<forall>T. int (admitted_in [] k T) \<le> limit" using assms(1) by (simp add: admitted_in_def)
  ultimately show ?thesis using rpm_run_bound [OF assms, of ms _ "[]"] by simp
qed

theorem rpm_window_never_exceeded_witness:
  "sorted (map fst [(0 :: int, 7 :: int), (10000, 7), (20000, 7), (60001, 7)]) \<and>
   rpm_run 2 NewSlidingWindowLimiter [(0, 7), (10000, 7), (20000, 7), (60001, 7)] = [(0, 7), (10000, 7), (60001, 7)] \<and>
   int (admitted_in (rpm_run 2 NewSlidingWindowLimiter [(0, 7), (10000, 7), (20000, 7), (60001, 7)]) 7 20) \<le> 2"
proof -
  have i: "shardIndex 7 = 7" by (simp add: shardIndex_mod)
  have "rpm_run 2 NewSlidingWindowLimiter [(0, 7), (10000, 7), (20000, 7), (60001, 7)] = [(0, 7), (10000, 7), (60001, 7)]"
    by (simp add: CheckRPM_def i NewSlidingWindowLimiter_def rpmShardCount_def emptyShard_def nowSeconds_def Let_def nth_list_update numeral_eq_Suc)
  then show ?thesis
    using rpm_window_never_exceeded [of 2 "[(0, 7), (10000, 7), (20000, 7), (60001, 7)]" 7 20] by simp
qed

text \<open>
  \<open>RPMStatus\<close> tells the truth: \<open>n\<close> back-to-back calls for one key at one instant are
  admitted exactly up to the reported remainder, whatever the state of the limiter.
\<close>

theorem rpm_status_predicts:
  assumes "limiter_wf l" "0 < limit"
  shows "int (length (rpm_run limit l (replicate n (ms, k)))) = min (int n) (snd (RPMStatus l ms k limit))"
  using sliding.burst_admits [OF assms] by (simp add: burst_rpm_run)

theorem rpm_status_predicts_witness:
  "limiter_wf NewSlidingWindowLimiter \<and>
   int (length (rpm_run 3 NewSlidingWindowLimiter (replicate 5 (1000, 9)))) = 3"
proof -
  have "RPMStatus NewSlidingWindowLimiter 1000 9 3 = (0, 3)" by (simp add: RPMStatus_window)
  then show ?thesis using rpm_status_predicts [of NewSlidingWindowLimiter 3 5 1000 9] by simp
qed

text \<open>
  Keys are isolated: a check for one key, RPM or TPM, leaves the windows of every other key
  as they were, also when both keys share a shard, and the shard of a key is its residue modulo 16
  even for negative (hashed) keys.
\<close>

theorem limiter_key_isolation:
  assumes "limiter_wf l" "k' \<noteq> k"
  shows "rpmWindowOf (snd (CheckRPM l ms k limit)) k' = rpmWindowOf l k' \<and>
    tpmWindowOf (snd (CheckTPM l ms k n limit)) k' = tpmWindowOf l k' \<and>
    tpmWindowOf (snd (CheckRPM l ms k limit)) j = tpmWindowOf l j \<and>
    rpmWindowOf (snd (CheckTPM l ms k n limit)) j = rpmWindowOf l j \<and>
    int (shardIndex k) = k mod 16"
proof (intro conjI)
  show "rpmWindowOf (snd (CheckRPM l ms k limit)) k' = rpmWindowOf l k'"
    using assms by (cases "0 < limit") (simp_all add: CheckRPM_window, simp add: CheckRPM_def)
  show "tpmWindowOf (snd (CheckTPM l ms k n limit)) k' = tpmWindowOf l k'"
    using assms by (cases "0 < limit") (simp_all add: CheckTPM_window, simp add: CheckTPM_def)
qed (use assms(1) in \<open>simp_all add: CheckRPM_tpmWindowOf CheckTPM_rpmWindowOf shardIndex_mod\<close>)

theorem limiter_key_isolation_witness:
  "limiter_wf NewSlidingWindowLimiter \<and> shardIndex (-3) = shardIndex 13 \<and>
   rpmWindowOf (snd (CheckRPM NewSlidingWindowLimiter 0 (-3) 5)) 13 = []"
  using limiter_key_isolation [of NewSlidingWindowLimiter 13 "-3"] by (simp add: shardIndex_mod)

text \<open>
  Token budget: when \<open>CheckTPM\<close> admits a call, the tokens charged to the key within the
  last minute, this call included, stay within the limit; a refused call charges nothing.
\<close>

theorem tpm_budget_respected:
  assumes "limiter_wf l" "0 < limit"
  shows "sum_list (map te_tokens (tpmWindowOf (snd (CheckTPM l ms k n limit)) k)) =
      sum_list (map te_tokens (filter (\<lambda>e. nowSeconds ms - 60 < te_ts e) (tpmWindowOf l k))) +
      (if fst (CheckTPM l ms k n limit) then n else 0) \<and>
    (fst (CheckTPM l ms k n limit) \<longrightarrow>
      sum_list (map te_tokens (tpmWindowOf (snd (CheckTPM l ms k n limit)) k)) \<le> limit)"
  using assms by (auto simp: CheckTPM_window CheckTPM_accepts)

theorem tpm_budget_respected_witness:
  "fst (CheckTPM NewSlidingWindowLimiter 0 4 100 150) \<and>
   sum_list (map te_tokens (tpmWindowOf (snd (CheckTPM NewSlidingWindowLimiter 0 4 100 150)) 4)) \<le> 150"
proof -
  have "tpmWindowOf NewSlidingWindowLimiter 4 = []"
    using shardIndex_bound [of 4]
    by (simp add: tpmWindowOf_def NewSlidingWindowLimiter_def emptyShard_def rpmShardCount_def)
  then have "fst (CheckTPM NewSlidingWindowLimiter 0 4 100 150)" by (simp add: CheckTPM_accepts)
  then show ?thesis using tpm_budget_respected [of NewSlidingWindowLimiter 150 0 4 100] by simp
qed

text \<open>
  The gate runs every registered handler exactly once, in registration order and with the new
  state, on a transition, and none when the flag does not change.
\<close>

theorem gate_transition_handlers:
  "fst (SetRateLimitEnabled g v) =
     (if gate_enabled g = v then [] else map (\<lambda>h. (h, v)) (gate_handlers g)) \<and>
   gate_enabled (snd (SetRateLimitEnabled g v)) = v \<and>
   fst (SetRateLimitEnabled (RegisterTransitionHandler g h) (\<not> gate_enabled g)) =
     fst (SetRateLimitEnabled g (\<not> gate_enabled g)) @ [(h, \<not> gate_enabled g)] \<and>
   fst (SetRateLimitEnabled (snd (SetRateLimitEnabled g v)) v) = []"
  by (auto simp: SetRateLimitEnabled_def RegisterTransitionHandler_def Let_def)

end
