(* ===== verification/MinuteBucket.thy ===== *)
theory MinuteBucket
  imports Prelude
begin

text \<open>
  Fixed-window admission with a FIFO waiting room, \<open>ratelimit/minute_bucket.go\<close>. A waiter
  (the pointer \<open>*queuedRequest\<close>) is a fresh number; its fields \<open>queued\<close> and
  \<open>ready\<close> (channel closed) are maps of the admission state. Each section under \<open>a.mu\<close> is
  one operation, with the clock readings it makes as arguments: \<open>admit_enter\<close> is \<open>admit\<close>
  up to the first unlock, \<open>admit_wait\<close> one round of its \<open>select\<close> loop. Times are
  nanoseconds since the epoch.
\<close>

datatype admitError = ErrMinuteBucketFull | ErrQueueBudgetExceeded | ErrMinuteBucketWaitTimeout | ErrContextDone

record admissionResult =
  Admitted :: bool
  Waiting :: bool
  Position :: int
  Limit :: int
  Remaining :: int
  QueueRemaining :: int
  EstimatedWaitSec :: int

definition zeroResult :: admissionResult where
  "zeroResult = \<lparr>Admitted = False, Waiting = False, Position = 0, Limit = 0, Remaining = 0,
     QueueRemaining = 0, EstimatedWaitSec = 0\<rparr>"

record minuteBucket =
  mb_count :: int
  mb_start :: instant

type_synonym waiter = nat

record minuteBucketAdmission =
  mba_window :: duration
  mba_current :: "int \<rightharpoonup> minuteBucket"
  mba_queues :: "int \<rightharpoonup> waiter list"
  mba_queued :: "waiter \<Rightarrow> bool"
  mba_ready :: "waiter \<Rightarrow> bool"
  mba_next :: waiter

definition maxMinuteBucketWait :: duration where "maxMinuteBucketWait = 2 * go_minute"

definition NewMinuteBucketAdmission :: minuteBucketAdmission where
  "NewMinuteBucketAdmission = \<lparr>mba_window = go_minute, mba_current = Map.empty, mba_queues = Map.empty,
     mba_queued = (\<lambda>_. False), mba_ready = (\<lambda>_. False), mba_next = 0\<rparr>"

definition bucketStart :: "instant \<Rightarrow> duration \<Rightarrow> instant" where
  "bucketStart t window = go_quot t window * window"

definition sameWindow :: "instant \<Rightarrow> instant \<Rightarrow> duration \<Rightarrow> bool" where
  "sameWindow a b window \<longleftrightarrow> bucketStart a window = bucketStart b window"

definition timeUntilNextBucket :: "minuteBucketAdmission \<Rightarrow> instant \<Rightarrow> duration" where
  "timeUntilNextBucket a now =
     (let elapsed = now - bucketStart now (mba_window a);
          remaining = mba_window a - elapsed
      in if remaining \<le> 0 then go_millisecond else remaining)"

definition estimateWaitLocked :: "minuteBucketAdmission \<Rightarrow> instant \<Rightarrow> int \<Rightarrow> int \<Rightarrow> duration" where
  "estimateWaitLocked a now position limit =
     (if position \<le> 1 then timeUntilNextBucket a now
      else let windowsAhead = go_quot (position - 1 + limit - 1) limit
           in timeUntilNextBucket a now + (windowsAhead - 1) * mba_window a)"

text \<open>\<open>int(d.Round(time.Second) / time.Second)\<close> for the non-negative \<open>d\<close> that occur.\<close>

definition roundSeconds :: "duration \<Rightarrow> int" where
  "roundSeconds d =
     (let r = d mod go_second
      in if 2 * r < go_second then (d - r) div go_second else (d + go_second - r) div go_second)"

definition queueOf :: "minuteBucketAdmission \<Rightarrow> int \<Rightarrow> waiter list" where
  "queueOf a k = (case mba_queues a k of None \<Rightarrow> [] | Some q \<Rightarrow> q)"

text \<open>
  The loop of \<open>releaseWaitersLocked\<close>: the waiters taken off the queue, the rest, the new count.
\<close>

fun releaseLoop :: "int \<Rightarrow> int \<Rightarrow> waiter list \<Rightarrow> waiter list \<times> waiter list \<times> int" where
  "releaseLoop limit cnt [] = ([], [], cnt)"
| "releaseLoop limit cnt (w # queue) =
     (if cnt < limit
      then let (released, rest, c) = releaseLoop limit (cnt + 1) queue in (w # released, rest, c)
      else ([], w # queue, cnt))"

definition releaseWaitersLocked :: "minuteBucketAdmission \<Rightarrow> int \<Rightarrow> int \<Rightarrow> minuteBucketAdmission" where
  "releaseWaitersLocked a keyID limit =
     (case mba_current a keyID of
        None \<Rightarrow> a
      | Some bucket \<Rightarrow>
        let (released, rest, c) = releaseLoop limit (mb_count bucket) (queueOf a keyID)
        in a\<lparr>mba_current := (mba_current a)(keyID \<mapsto> bucket\<lparr>mb_count := c\<rparr>),
             mba_queues := (if rest = [] then (mba_queues a)(keyID := None) else (mba_queues a)(keyID \<mapsto> rest)),
             mba_queued := (\<lambda>w. if w \<in> set released then False else mba_queued a w),
             mba_ready := (\<lambda>w. if w \<in> set released then True else mba_ready a w)\<rparr>)"

text \<open>The step that opens a new bucket, shared by \<open>admit\<close>'s entry and its timer branch.\<close>

definition refreshBucket :: "minuteBucketAdmission \<Rightarrow> instant \<Rightarrow> int \<Rightarrow> int \<Rightarrow> minuteBucketAdmission" where
  "refreshBucket a now keyID limit =
     (if (case mba_current a keyID of None \<Rightarrow> True | Some b \<Rightarrow> \<not> sameWindow (mb_start b) now (mba_window a))
      then releaseWaitersLocked
        (a\<lparr>mba_current := (mba_current a)(keyID \<mapsto>
             \<lparr>mb_count = 0, mb_start = bucketStart now (mba_window a)\<rparr>)\<rparr>) keyID limit
      else a)"

datatype admitOutcome =
  Returned admissionResult "admitError option"
| Queued waiter admissionResult

definition admit_enter :: "minuteBucketAdmission \<Rightarrow> instant \<Rightarrow> instant \<Rightarrow> int \<Rightarrow> int \<Rightarrow> duration \<Rightarrow>
    admitOutcome \<times> minuteBucketAdmission" where
  "admit_enter a now now' keyID limit maxWait =
     (if limit \<le> 0 then (Returned (zeroResult\<lparr>Admitted := True\<rparr>) None, a)
      else
        let a1 = refreshBucket a now keyID limit;
            bucket = the (mba_current a1 keyID);
            queue = queueOf a1 keyID
        in if queue = [] \<and> mb_count bucket < limit
           then (Returned (zeroResult\<lparr>Admitted := True, Limit := limit, Remaining := limit - (mb_count bucket + 1)\<rparr>) None,
                 a1\<lparr>mba_current := (mba_current a1)(keyID \<mapsto> bucket\<lparr>mb_count := mb_count bucket + 1\<rparr>)\<rparr>)
           else if limit \<le> int (length queue)
           then (Returned (zeroResult\<lparr>Limit := limit\<rparr>) (Some ErrMinuteBucketFull), a1)
           else
             let position = int (length queue) + 1;
                 estimatedWait = estimateWaitLocked a1 now' position limit
             in if 0 < maxWait \<and> maxWait < estimatedWait
                then (Returned (zeroResult\<lparr>Limit := limit, Position := position,
                        QueueRemaining := limit - int (length queue) - 1,
                        EstimatedWaitSec := roundSeconds estimatedWait\<rparr>) (Some ErrQueueBudgetExceeded), a1)
                else
                  let w = mba_next a1
                  in (Queued w (zeroResult\<lparr>Waiting := True, Position := position, Limit := limit,
                        QueueRemaining := limit - int (length queue) - 1,
                        EstimatedWaitSec := roundSeconds estimatedWait\<rparr>),
                      a1\<lparr>mba_queues := (mba_queues a1)(keyID \<mapsto> queue @ [w]),
                         mba_queued := (mba_queued a1)(w := True),
                         mba_ready := (mba_ready a1)(w := False),
                         mba_next := Suc w\<rparr>))"

definition cancel :: "minuteBucketAdmission \<Rightarrow> int \<Rightarrow> waiter \<Rightarrow> minuteBucketAdmission" where
  "cancel a keyID w =
     (if \<not> mba_queued a w then a
      else if w \<in> set (queueOf a keyID)
      then a\<lparr>mba_queues := (mba_queues a)(keyID \<mapsto> remove1 w (queueOf a keyID)),
             mba_queued := (mba_queued a)(w := False)\<rparr>
      else a)"

datatype waitEvent = EvReady | EvCtxDone | EvTimer

text \<open>
  One round of the \<open>select\<close> loop of waiter \<open>w\<close> with initial result \<open>r\<close>: \<open>before\<close> is
  the clock when the timer is armed, \<open>now\<close> the clock in the timer branch. The \<open>ready\<close>
  branch is possible only when the channel is closed; otherwise the waiter keeps waiting.
\<close>

definition admit_wait :: "minuteBucketAdmission \<Rightarrow> waitEvent \<Rightarrow> instant \<Rightarrow> instant \<Rightarrow> int \<Rightarrow> int \<Rightarrow> waiter \<Rightarrow>
    admissionResult \<Rightarrow> admitOutcome \<times> minuteBucketAdmission" where
  "admit_wait a ev before now keyID limit w r =
     (let wait0 = timeUntilNextBucket a before;
          wait = (if maxMinuteBucketWait < wait0 then maxMinuteBucketWait else wait0)
      in case ev of
           EvReady \<Rightarrow> (if mba_ready a w then (Returned (zeroResult\<lparr>Admitted := True, Limit := limit\<rparr>) None, a)
                       else (Queued w r, a))
         | EvCtxDone \<Rightarrow> (Returned (zeroResult\<lparr>Waiting := True, Position := Position r, Limit := limit\<rparr>) (Some ErrContextDone),
                         cancel a keyID w)
         | EvTimer \<Rightarrow>
             if wait = maxMinuteBucketWait then (Returned r (Some ErrMinuteBucketWaitTimeout), cancel a keyID w)
             else if mba_queued a w then (Queued w r, refreshBucket a now keyID limit)
             else (Queued w r, a))"

section \<open>Runs\<close>

datatype mbEvent =
  Arrive int duration
| Round waiter int waitEvent admissionResult

text \<open>
  A run under one limit, one event per clock reading. The log records each admission as
  \<open>(key, start of its bucket)\<close>: a direct one, or a waiter released from the queue.
\<close>

definition mb_step :: "int \<Rightarrow> minuteBucketAdmission \<Rightarrow> instant \<Rightarrow> mbEvent \<Rightarrow> (int \<times> instant) list \<times> minuteBucketAdmission" where
  "mb_step limit a now ev =
     (case ev of
        Arrive k maxWait \<Rightarrow>
          let a1 = refreshBucket a now k limit;
              (out, a') = admit_enter a now now k limit maxWait;
              released = length (queueOf a k) - length (queueOf a1 k);
              direct = (case out of Returned r e \<Rightarrow> (if Admitted r then 1 else 0) | Queued w r \<Rightarrow> 0)
          in (replicate (released + direct) (k, bucketStart now (mba_window a)), a')
      | Round w k e r \<Rightarrow>
          let (out, a') = admit_wait a e now now k limit w r;
              released = (if e = EvTimer \<and> mba_queued a w then length (queueOf a k) - length (queueOf a' k) else 0)
          in (replicate released (k, bucketStart now (mba_window a)), a'))"

fun mb_run :: "int \<Rightarrow> minuteBucketAdmission \<Rightarrow> (instant \<times> mbEvent) list \<Rightarrow> (int \<times> instant) list \<times> minuteBucketAdmission" where
  "mb_run limit a [] = ([], a)"
| "mb_run limit a ((now, ev) # evs) =
     (let (adm, a1) = mb_step limit a now ev; (adm', a2) = mb_run limit a1 evs in (adm @ adm', a2))"

definition mb_inv :: "int \<Rightarrow> minuteBucketAdmission \<Rightarrow> bool" where
  "mb_inv limit a \<longleftrightarrow>
     mba_window a = go_minute \<and>
     (\<forall>k b. mba_current a k = Some b \<longrightarrow> 0 \<le> mb_count b \<and> mb_count b \<le> limit) \<and>
     (\<forall>k. int (length (queueOf a k)) \<le> limit) \<and>
     (\<forall>k. mba_current a k = None \<longrightarrow> queueOf a k = []) \<and>
     (\<forall>k. distinct (queueOf a k) \<and> (\<forall>w \<in> set (queueOf a k). mba_queued a w \<and> w < mba_next a)) \<and>
     (\<forall>k k'. k \<noteq> k' \<longrightarrow> set (queueOf a k) \<inter> set (queueOf a k') = {})"

section \<open>Lemmas\<close>

lemma releaseLoop_spec:
  "releaseLoop limit c q =
    (take (nat (limit - c)) q, drop (nat (limit - c)) q, c + int (length (take (nat (limit - c)) q)))"
proof (induction q arbitrary: c)
  case Nil
  then show ?case by simp
next
  case (Cons w q)
  show ?case
  proof (cases "c < limit")
    case True
    then obtain m where m: "nat (limit - c) = Suc m" by (cases "nat (limit - c)") auto
    then have "nat (limit - (c + 1)) = m" by linarith
    with m show ?thesis using Cons True by simp
  qed simp
qed

lemma bucketStart_nonneg: "0 \<le> t \<Longrightarrow> 0 < w \<Longrightarrow> bucketStart t w = t div w * w"
  by (simp add: bucketStart_def)

lemma bucketStart_mono: "0 \<le> s \<Longrightarrow> s \<le> t \<Longrightarrow> 0 < w \<Longrightarrow> bucketStart s w \<le> bucketStart t w"
  by (simp add: bucketStart_nonneg zdiv_mono1 mult_right_mono)

lemma bucketStart_idem: "0 \<le> t \<Longrightarrow> 0 < w \<Longrightarrow> bucketStart (bucketStart t w) w = bucketStart t w"
  by (simp add: bucketStart_nonneg pos_imp_zdiv_nonneg_iff)


text \<open>Opening a bucket, spelled out on every field.\<close>

definition bucket_stale :: "minuteBucketAdmission \<Rightarrow> instant \<Rightarrow> int \<Rightarrow> bool" where
  "bucket_stale a now k \<longleftrightarrow>
     (case mba_current a k of None \<Rightarrow> True | Some b \<Rightarrow> \<not> sameWindow (mb_start b) now (mba_window a))"

lemma refreshBucket_fresh: "\<not> bucket_stale a now k \<Longrightarrow> refreshBucket a now k limit = a"
  by (simp add: refreshBucket_def bucket_stale_def)

lemma refreshBucket_stale:
  assumes "bucket_stale a now k"
  shows "mba_current (refreshBucket a now k limit) = (mba_current a)(k \<mapsto>
      \<lparr>mb_count = int (length (take (nat limit) (queueOf a k))), mb_start = bucketStart now (mba_window a)\<rparr>)"
    and "queueOf (refreshBucket a now k limit) k' = (if k' = k then drop (nat limit) (queueOf a k) else queueOf a k')"
    and "mba_queued (refreshBucket a now k limit) w = (mba_queued a w \<and> w \<notin> set (take (nat limit) (queueOf a k)))"
    and "mba_ready (refreshBucket a now k limit) w = (mba_ready a w \<or> w \<in> set (take (nat limit) (queueOf a k)))"
    and "mba_next (refreshBucket a now k limit) = mba_next a"
    and "mba_window (refreshBucket a now k limit) = mba_window a"
  using assms
  by (auto simp: refreshBucket_def bucket_stale_def releaseWaitersLocked_def releaseLoop_spec queueOf_def
      split: option.splits)

lemma refreshBucket_window [simp]: "mba_window (refreshBucket a now k limit) = mba_window a"
  by (cases "bucket_stale a now k") (simp_all add: refreshBucket_fresh refreshBucket_stale)

lemma refreshBucket_next [simp]: "mba_next (refreshBucket a now k limit) = mba_next a"
  by (cases "bucket_stale a now k") (simp_all add: refreshBucket_fresh refreshBucket_stale)

lemma refreshBucket_defined: "\<exists>b. mba_current (refreshBucket a now k limit) k = Some b"
  by (cases "bucket_stale a now k")
    (auto simp: refreshBucket_fresh refreshBucket_stale bucket_stale_def split: option.splits)

lemma refreshBucket_sameWindow:
  assumes "mba_window a = go_minute" "0 \<le> now"
  shows "sameWindow (mb_start (the (mba_current (refreshBucket a now k limit) k))) now go_minute"
  using assms
  by (cases "bucket_stale a now k")
    (auto simp: refreshBucket_fresh refreshBucket_stale sameWindow_def bucketStart_idem bucket_stale_def split: option.splits)

lemma mb_inv_queue_len: "mb_inv limit a \<Longrightarrow> length (queueOf a k) \<le> nat limit"
proof -
  assume "mb_inv limit a"
  then have "int (length (queueOf a k)) \<le> limit" unfolding mb_inv_def by blast
  then show ?thesis by linarith
qed

lemma mb_inv_disjoint: "mb_inv limit a \<Longrightarrow> k \<noteq> k' \<Longrightarrow> w \<in> set (queueOf a k) \<Longrightarrow> w \<notin> set (queueOf a k')"
  unfolding mb_inv_def by blast

lemma mb_inv_queue_take: "mb_inv limit a \<Longrightarrow> take (nat limit) (queueOf a k) = queueOf a k"
  by (rule take_all) (rule mb_inv_queue_len)

lemma mb_inv_refreshBucket [inv_intros]:
  assumes inv: "mb_inv limit a" and lim: "0 \<le> limit"
  shows "mb_inv limit (refreshBucket a now k limit)"
proof (cases "bucket_stale a now k")
  case True
  have d: "drop (nat limit) (queueOf a k) = []"
    using mb_inv_queue_len [OF inv] by simp
  note r = refreshBucket_stale [OF True, of limit, unfolded mb_inv_queue_take [OF inv] d]
  have "w \<notin> set (queueOf a k)" if "w \<in> set (queueOf a k')" "k' \<noteq> k" for w k'
    using mb_inv_disjoint [OF inv] that by blast
  then show ?thesis using inv lim by (auto simp: mb_inv_def r)
next
  case False
  then show ?thesis using inv by (simp add: refreshBucket_fresh)
qed

lemma mb_inv_new [simp]: "0 \<le> limit \<Longrightarrow> mb_inv limit NewMinuteBucketAdmission"
  by (simp add: mb_inv_def NewMinuteBucketAdmission_def queueOf_def)

lemma mb_inv_cancel [inv_intros]: "mb_inv limit a \<Longrightarrow> mb_inv limit (cancel a k w)"
proof -
  assume inv: "mb_inv limit a"
  show ?thesis
  proof (cases "mba_queued a w \<and> w \<in> set (queueOf a k)")
    case True
    have q: "queueOf (cancel a k w) k' = (if k' = k then remove1 w (queueOf a k) else queueOf a k')" for k'
      using True by (simp add: cancel_def queueOf_def)
    have nw: "w \<notin> set (queueOf a k')" if "k' \<noteq> k" for k'
      using mb_inv_disjoint [OF inv] True that by blast
    have dk: "distinct (queueOf a k')" for k' using inv by (simp add: mb_inv_def)
    have sub: "set (queueOf (cancel a k w) k') \<subseteq> set (queueOf a k') - {w}" for k'
      using nw dk by (auto simp: q)
    have len: "length (queueOf (cancel a k w) k') \<le> length (queueOf a k')" for k'
      by (simp add: q length_remove1)
    have same: "mba_current (cancel a k w) = mba_current a" "mba_next (cancel a k w) = mba_next a"
      "mba_window (cancel a k w) = mba_window a" "mba_queued (cancel a k w) = (mba_queued a)(w := False)"
      using True by (auto simp: cancel_def)
    have "int (length (queueOf (cancel a k w) k')) \<le> limit" for k'
      using len [of k'] inv by (meson mb_inv_def of_nat_mono order_trans)
    moreover have "queueOf (cancel a k w) k' = []" if "mba_current a k' = None" for k'
      using len [of k'] inv that by (simp add: mb_inv_def)
    moreover have "set (queueOf (cancel a k w) i) \<inter> set (queueOf (cancel a k w) j) = {}" if "i \<noteq> j" for i j
      using sub [of i] sub [of j] inv that unfolding mb_inv_def by blast
    moreover have "distinct (queueOf (cancel a k w) k')" for k' using dk by (simp add: q)
    moreover have "mba_queued (cancel a k w) v \<and> v < mba_next a" if "v \<in> set (queueOf (cancel a k w) k')" for v k'
      using sub [of k'] inv that by (auto simp: mb_inv_def same)
    ultimately show ?thesis using inv unfolding mb_inv_def same(1-3) by blast
  next
    case False
    then show ?thesis using inv by (auto simp: cancel_def)
  qed
qed

lemma mb_inv_count:
  assumes "mb_inv limit a" "mba_current a k = Some b" "mb_count b < limit"
  shows "mb_inv limit (a\<lparr>mba_current := (mba_current a)(k \<mapsto> b\<lparr>mb_count := mb_count b + 1\<rparr>)\<rparr>)"
proof -
  have "0 \<le> mb_count b" using assms(1,2) unfolding mb_inv_def by blast
  then show ?thesis using assms by (auto simp: mb_inv_def queueOf_def)
qed

lemma mb_inv_enqueue:
  fixes a :: minuteBucketAdmission
  assumes inv: "mb_inv limit a" and b: "mba_current a k = Some b" and len: "int (length (queueOf a k)) < limit"
  defines "a' \<equiv> a\<lparr>mba_queues := (mba_queues a)(k \<mapsto> queueOf a k @ [mba_next a]),
      mba_queued := (mba_queued a)(mba_next a := True), mba_ready := (mba_ready a)(mba_next a := False),
      mba_next := Suc (mba_next a)\<rparr>"
  shows "mb_inv limit a'"
proof -
  have q: "queueOf a' k' = (if k' = k then queueOf a k @ [mba_next a] else queueOf a k')" for k'
    by (simp add: a'_def queueOf_def)
  have old: "w < mba_next a" "mba_queued a w" if "w \<in> set (queueOf a k')" for w k'
    using inv that unfolding mb_inv_def by blast+
  have same: "mba_current a' = mba_current a" "mba_window a' = mba_window a" "mba_next a' = Suc (mba_next a)"
    "mba_queued a' = (mba_queued a)(mba_next a := True)" by (simp_all add: a'_def)
  have fresh: "mba_next a \<notin> set (queueOf a k')" for k' using old(1) by blast
  have "int (length (queueOf a' k')) \<le> limit" for k' using inv len by (auto simp: q mb_inv_def)
  moreover have "queueOf a' k' = []" if "mba_current a k' = None" for k' using inv b that by (auto simp: q mb_inv_def)
  moreover have "distinct (queueOf a' k')" for k' using inv fresh by (auto simp: q mb_inv_def)
  moreover have "mba_queued a' w \<and> w < Suc (mba_next a)" if "w \<in> set (queueOf a' k')" for w k'
    using old that by (fastforce simp: q same split: if_splits)
  moreover have "set (queueOf a' i) \<inter> set (queueOf a' j) = {}" if "i \<noteq> j" for i j
    using mb_inv_disjoint [OF inv] fresh that by (auto simp: q)
  ultimately show ?thesis using inv unfolding mb_inv_def same(1-3) by blast
qed

lemma mb_inv_admit_enter [inv_intros]:
  assumes inv: "mb_inv limit a" and lim: "0 < limit"
  shows "mb_inv limit (snd (admit_enter a now now' k limit maxWait))"
proof -
  let ?a1 = "refreshBucket a now k limit"
  obtain b where b: "mba_current ?a1 k = Some b" using refreshBucket_defined by blast
  have i1: "mb_inv limit ?a1" using inv lim by (auto intro: inv_intros)
  show ?thesis
    using lim mb_inv_count [OF i1 b] mb_inv_enqueue [OF i1 b] i1
    by (simp add: admit_enter_def Let_def b)
qed

lemma mb_inv_admit_wait [inv_intros]:
  "mb_inv limit a \<Longrightarrow> 0 < limit \<Longrightarrow> mb_inv limit (snd (admit_wait a ev t now k limit w r))"
  by (cases ev) (auto simp: admit_wait_def Let_def intro: inv_intros)

text \<open>The wait a timer is armed with is always below the two-minute cap.\<close>

lemma timeUntilNextBucket_bounds:
  assumes "mba_window a = go_minute"
  shows "0 < timeUntilNextBucket a now" "timeUntilNextBucket a now < maxMinuteBucketWait"
proof -
  have "bucketStart now go_minute = (if 0 \<le> now then now div go_minute * go_minute else - ((- now) div go_minute * go_minute))"
    by (auto simp: bucketStart_def go_quot_def sgn_if)
  moreover have "0 \<le> now mod go_minute" "now mod go_minute < go_minute"
    "0 \<le> (- now) mod go_minute" "(- now) mod go_minute < go_minute" by simp_all
  moreover have "now = now div go_minute * go_minute + now mod go_minute"
    "- now = (- now) div go_minute * go_minute + (- now) mod go_minute" by simp_all
  ultimately have "- go_minute < now - bucketStart now go_minute" "now - bucketStart now go_minute < go_minute"
    by (auto split: if_splits)
  then show "0 < timeUntilNextBucket a now" "timeUntilNextBucket a now < maxMinuteBucketWait"
    using assms by (auto simp: timeUntilNextBucket_def Let_def maxMinuteBucketWait_def)
qed

lemma estimateWait_within_limit:
  assumes "1 \<le> position" "position \<le> limit"
  shows "estimateWaitLocked a now position limit = timeUntilNextBucket a now"
proof (cases "position \<le> 1")
  case False
  then have "go_quot (position - 1 + limit - 1) limit = (position - 1 + limit - 1) div limit"
    using assms by (intro go_quot_nonneg) auto
  also have "\<dots> = 1"
    using assms False by (intro div_pos_geq [THEN trans]) (auto simp: div_pos_pos_trivial)
  finally show ?thesis using False by (simp add: estimateWaitLocked_def)
qed (simp add: estimateWaitLocked_def)

text \<open>How the log of a run is related to the state: the count of the current bucket of a key is the
  number of logged admissions in it, and every older bucket is closed.\<close>

definition bucket_rel :: "instant \<Rightarrow> (int \<times> instant) list \<Rightarrow> int \<Rightarrow> minuteBucket option \<Rightarrow> bool" where
  "bucket_rel t adm k ob \<longleftrightarrow>
     (case ob of None \<Rightarrow> (\<forall>e \<in> set adm. fst e \<noteq> k)
      | Some b \<Rightarrow> int (count_list adm (k, mb_start b)) = mb_count b \<and>
          (\<exists>t0. 0 \<le> t0 \<and> t0 \<le> t \<and> mb_start b = bucketStart t0 go_minute) \<and>
          (\<forall>e \<in> set adm. fst e = k \<longrightarrow> snd e \<le> mb_start b))"

definition log_rel :: "int \<Rightarrow> instant \<Rightarrow> minuteBucketAdmission \<Rightarrow> (int \<times> instant) list \<Rightarrow> bool" where
  "log_rel limit t a adm \<longleftrightarrow> 0 \<le> t \<and> mb_inv limit a \<and>
     (\<forall>k s. int (count_list adm (k, s)) \<le> limit) \<and> (\<forall>k. bucket_rel t adm k (mba_current a k))"

lemma count_list_replicate_eq [simp]: "count_list (replicate n x) y = (if x = y then n else 0)"
  by (induction n) auto

lemma bucket_rel_mono: "bucket_rel t adm k ob \<Longrightarrow> t \<le> t' \<Longrightarrow> bucket_rel t' adm k ob"
  by (fastforce simp: bucket_rel_def split: option.splits)

lemma log_rel_mono: "log_rel limit t a adm \<Longrightarrow> t \<le> t' \<Longrightarrow> log_rel limit t' a adm"
  using bucket_rel_mono by (fastforce simp: log_rel_def)

lemma bucket_rel_other: "k' \<noteq> k \<Longrightarrow> bucket_rel t (adm @ replicate n (k, s)) k' ob = bucket_rel t adm k' ob"
  by (cases ob) (auto simp: bucket_rel_def)

text \<open>A stale bucket is strictly older than the bucket of the present instant.\<close>

lemma stale_start_less:
  assumes "bucket_rel t adm k (Some b)" "0 \<le> t" "t \<le> now" "\<not> sameWindow (mb_start b) now go_minute"
  shows "mb_start b < bucketStart now go_minute"
proof -
  obtain t0 where t0: "0 \<le> t0" "t0 \<le> t" "mb_start b = bucketStart t0 go_minute"
    using assms(1) by (auto simp: bucket_rel_def)
  then have "mb_start b \<noteq> bucketStart now go_minute"
    using assms(4) by (auto simp: sameWindow_def bucketStart_idem)
  moreover have "mb_start b \<le> bucketStart now go_minute"
    using t0 assms(3) bucketStart_mono [of t0 now go_minute] by simp
  ultimately show ?thesis by simp
qed

lemma no_entry_in_new_bucket:
  assumes "bucket_rel t adm k ob" "0 \<le> t" "t \<le> now"
    "case ob of None \<Rightarrow> True | Some b \<Rightarrow> \<not> sameWindow (mb_start b) now go_minute"
  shows "count_list adm (k, bucketStart now go_minute) = 0"
    and "\<forall>e \<in> set adm. fst e = k \<longrightarrow> snd e \<le> bucketStart now go_minute"
proof -
  have lt: "snd e < bucketStart now go_minute" if "e \<in> set adm" "fst e = k" for e
  proof (cases ob)
    case None
    then show ?thesis using assms(1) that by (auto simp: bucket_rel_def)
  next
    case (Some b)
    then have "mb_start b < bucketStart now go_minute"
      using stale_start_less [of t adm k b now] assms by simp
    moreover have "snd e \<le> mb_start b" using assms(1) Some that by (auto simp: bucket_rel_def)
    ultimately show ?thesis by simp
  qed
  then have "(k, bucketStart now go_minute) \<notin> set adm" by fastforce
  then show "count_list adm (k, bucketStart now go_minute) = 0" by (simp add: count_list_0_iff)
  show "\<forall>e \<in> set adm. fst e = k \<longrightarrow> snd e \<le> bucketStart now go_minute" using lt by fastforce
qed

lemma log_rel_refresh:
  fixes k :: int
  assumes R: "log_rel limit t a adm" and t: "t \<le> now" and lim: "0 < limit"
  defines "a1 \<equiv> refreshBucket a now k limit"
  shows "log_rel limit now a1
    (adm @ replicate (length (queueOf a k) - length (queueOf a1 k)) (k, bucketStart now go_minute))"
proof (cases "bucket_stale a now k")
  case False
  then show ?thesis using log_rel_mono [OF R t] by (simp add: a1_def refreshBucket_fresh)
next
  case True
  have inv: "mb_inv limit a" and t0: "0 \<le> t" and win: "mba_window a = go_minute"
    using R by (simp_all add: log_rel_def mb_inv_def)
  have d: "drop (nat limit) (queueOf a k) = []" using mb_inv_queue_len [OF inv] by simp
  note r = refreshBucket_stale [OF True, of limit, folded a1_def, unfolded mb_inv_queue_take [OF inv] d win]
  let ?s = "bucketStart now go_minute"
  let ?adm = "adm @ replicate (length (queueOf a k)) (k, ?s)"
  have bk: "bucket_rel t adm k (mba_current a k)" using R by (simp add: log_rel_def)
  have "case mba_current a k of None \<Rightarrow> True | Some b \<Rightarrow> \<not> sameWindow (mb_start b) now go_minute"
    using True unfolding bucket_stale_def win .
  note ne = no_entry_in_new_bucket [OF bk t0 t this]
  have len: "int (length (queueOf a k)) \<le> limit" using inv unfolding mb_inv_def by blast
  have "int (count_list ?adm (k', s)) \<le> limit" for k' s
    using R len ne(1) by (auto simp: log_rel_def)
  moreover have "bucket_rel now ?adm k' (mba_current a1 k')" for k'
  proof (cases "k' = k")
    case True
    have "\<exists>t0\<ge>0. t0 \<le> now \<and> ?s = bucketStart t0 go_minute"
      using t0 t by (intro exI [of _ now]) simp
    then show ?thesis using True ne by (auto simp: r bucket_rel_def)
  next
    case False
    then show ?thesis
      using R bucket_rel_mono [OF _ t] by (simp add: bucket_rel_other r log_rel_def)
  qed
  moreover have "mb_inv limit a1" unfolding a1_def using inv lim by (auto intro: inv_intros)
  ultimately show ?thesis using t0 t by (simp add: log_rel_def r)
qed

lemma log_rel_direct:
  assumes R: "log_rel limit now a adm" and b: "mba_current a k = Some b" "mb_count b < limit"
    and same: "sameWindow (mb_start b) now go_minute"
  shows "log_rel limit now (a\<lparr>mba_current := (mba_current a)(k \<mapsto> b\<lparr>mb_count := mb_count b + 1\<rparr>)\<rparr>)
    (adm @ [(k, bucketStart now go_minute)])"
proof -
  let ?s = "bucketStart now go_minute"
  have bk: "bucket_rel now adm k (Some b)" using R b by (metis log_rel_def)
  then have s: "mb_start b = ?s"
    using same by (auto simp: bucket_rel_def sameWindow_def bucketStart_idem)
  have c: "int (count_list adm (k, ?s)) = mb_count b" using bk s by (simp add: bucket_rel_def)
  have "mb_inv limit (a\<lparr>mba_current := (mba_current a)(k \<mapsto> b\<lparr>mb_count := mb_count b + 1\<rparr>)\<rparr>)"
    using R b mb_inv_count by (simp add: log_rel_def)
  moreover have "int (count_list (adm @ [(k, ?s)]) (k', s')) \<le> limit" for k' s'
    using R b(2) c by (auto simp: log_rel_def)
  moreover have "bucket_rel now (adm @ [(k, ?s)]) k' (((mba_current a)(k \<mapsto> b\<lparr>mb_count := mb_count b + 1\<rparr>)) k')" for k'
    using R bk c s bucket_rel_other [of k' k now adm 1 ?s] by (auto simp: log_rel_def bucket_rel_def)
  ultimately show ?thesis using R by (simp add: log_rel_def)
qed

lemma log_rel_current:
  "log_rel limit t a adm \<Longrightarrow> mba_current a' = mba_current a \<Longrightarrow> mb_inv limit a' \<Longrightarrow> log_rel limit t a' adm"
  by (simp add: log_rel_def)

lemma admit_enter_current:
  assumes "0 < limit" "fst (admit_enter a now now' k limit maxWait) = out"
    "case out of Returned r e \<Rightarrow> \<not> Admitted r | Queued w r \<Rightarrow> True"
  shows "mba_current (snd (admit_enter a now now' k limit maxWait)) = mba_current (refreshBucket a now k limit)"
  using assms by (auto simp: admit_enter_def Let_def zeroResult_def split: if_splits)

lemma admit_enter_direct:
  assumes "0 < limit" "fst (admit_enter a now now' k limit maxWait) = Returned r e" "Admitted r"
  shows "queueOf (refreshBucket a now k limit) k = []"
    and "mb_count (the (mba_current (refreshBucket a now k limit) k)) < limit"
    and "snd (admit_enter a now now' k limit maxWait) =
      (let a1 = refreshBucket a now k limit; b = the (mba_current a1 k)
       in a1\<lparr>mba_current := (mba_current a1)(k \<mapsto> b\<lparr>mb_count := mb_count b + 1\<rparr>)\<rparr>)"
  using assms by (auto simp: admit_enter_def Let_def zeroResult_def split: if_splits)

lemma log_rel_arrive:
  assumes R: "log_rel limit t a adm" and t: "t \<le> now" and lim: "0 < limit"
    and st: "mb_step limit a now (Arrive k maxWait) = (new, a')"
  shows "log_rel limit now a' (adm @ new)"
proof -
  let ?a1 = "refreshBucket a now k limit"
  let ?s = "bucketStart now go_minute"
  let ?rel = "length (queueOf a k) - length (queueOf ?a1 k)"
  obtain out where ent: "admit_enter a now now k limit maxWait = (out, a')"
    using st by (auto simp: mb_step_def Let_def split: prod.splits)
  have win: "mba_window a = go_minute" "0 \<le> now" using R t by (auto simp: log_rel_def mb_inv_def)
  have R1: "log_rel limit now ?a1 (adm @ replicate ?rel (k, ?s))" by (rule log_rel_refresh [OF R t lim])
  have inv': "mb_inv limit a'"
    using mb_inv_admit_enter [of limit a now now k maxWait] R lim ent by (simp add: log_rel_def)
  show ?thesis
  proof (cases "\<exists>r e. out = Returned r e \<and> Admitted r")
    case True
    then obtain r e where o: "out = Returned r e" "Admitted r" by blast
    obtain b where b: "mba_current ?a1 k = Some b" using refreshBucket_defined by blast
    have fo: "fst (admit_enter a now now k limit maxWait) = Returned r e" using ent o by simp
    have "new = replicate ?rel (k, ?s) @ [(k, ?s)]"
      using st ent o win by (simp add: mb_step_def Let_def replicate_append_same)
    moreover have "mb_count b < limit" "a' = ?a1\<lparr>mba_current := (mba_current ?a1)(k \<mapsto> b\<lparr>mb_count := mb_count b + 1\<rparr>)\<rparr>"
      using admit_enter_direct [OF lim fo o(2)] b ent by (simp_all add: Let_def)
    moreover have "sameWindow (mb_start b) now go_minute"
      using refreshBucket_sameWindow [OF win, of k limit] b by simp
    ultimately show ?thesis using log_rel_direct [OF R1 b] by simp
  next
    case False
    then have nd: "case out of Returned r e \<Rightarrow> \<not> Admitted r | Queued w r \<Rightarrow> True"
      by (cases out) auto
    then have "new = replicate ?rel (k, ?s)"
      using st ent win by (cases out) (simp_all add: mb_step_def Let_def)
    moreover have "mba_current a' = mba_current ?a1"
      using admit_enter_current [OF lim refl, of a now now k maxWait] nd ent by simp
    ultimately show ?thesis using log_rel_current [OF R1 _ inv'] by simp
  qed
qed

lemma log_rel_round:
  assumes R: "log_rel limit t a adm" and t: "t \<le> now" and lim: "0 < limit"
    and st: "mb_step limit a now (Round w k e r) = (new, a')"
  shows "log_rel limit now a' (adm @ new)"
proof -
  have inv: "mb_inv limit a" and win: "mba_window a = go_minute" using R by (auto simp: log_rel_def mb_inv_def)
  obtain out where ent: "admit_wait a e now now k limit w r = (out, a')"
    using st by (auto simp: mb_step_def Let_def split: prod.splits)
  have inv': "mb_inv limit a'" using mb_inv_admit_wait [OF inv lim, of e now now k w r] ent by simp
  show ?thesis
  proof (cases "e = EvTimer \<and> mba_queued a w")
    case True
    then have a': "a' = refreshBucket a now k limit"
      using ent timeUntilNextBucket_bounds(2) [OF win, of now] by (auto simp: admit_wait_def Let_def)
    then have "new = replicate (length (queueOf a k) - length (queueOf a' k)) (k, bucketStart now go_minute)"
      using st ent True win by (simp add: mb_step_def)
    then show ?thesis using log_rel_refresh [OF R t lim] a' by simp
  next
    case False
    then have "new = []" using st ent by (auto simp: mb_step_def)
    moreover have "mba_current a' = mba_current a"
      using ent False timeUntilNextBucket_bounds(2) [OF win, of now]
      by (cases e) (auto simp: admit_wait_def Let_def cancel_def split: if_splits)
    ultimately show ?thesis using log_rel_current [OF log_rel_mono [OF R t] _ inv'] by simp
  qed
qed

lemma log_rel_run:
  assumes "0 < limit" "sorted (map fst evs)" "\<forall>e \<in> set evs. t \<le> fst e" "log_rel limit t a adm"
  shows "\<exists>t'. log_rel limit t' (snd (mb_run limit a evs)) (adm @ fst (mb_run limit a evs))"
  using assms(2-)
proof (induction evs arbitrary: t a adm)
  case Nil
  then show ?case by auto
next
  case (Cons e evs)
  obtain now ev where e: "e = (now, ev)" by (cases e)
  obtain new a1 where st: "mb_step limit a now ev = (new, a1)" by (cases "mb_step limit a now ev")
  have "log_rel limit now a1 (adm @ new)"
    using log_rel_arrive log_rel_round Cons.prems(2,3) assms(1) st e by (cases ev) auto
  then show ?case
    using Cons.IH [of now a1 "adm @ new"] Cons.prems e st by (simp add: split_beta)
qed

section \<open>Properties\<close>

text \<open>
  Fixed-window safety: along any run of arrivals, timer ticks and cancellations with a clock
  that never steps back, at most \<open>limit\<close> requests of a key are admitted per one-minute bucket,
  counting both direct admissions and waiters released from the queue.
\<close>

theorem minute_bucket_never_exceeded:
  assumes "0 < limit" "sorted (map fst evs)" "\<forall>e \<in> set evs. 0 \<le> fst e"
  shows "int (count_list (fst (mb_run limit NewMinuteBucketAdmission evs)) (k, s)) \<le> limit"
proof -
  have "log_rel limit 0 NewMinuteBucketAdmission []"
    using assms(1) by (simp add: log_rel_def bucket_rel_def) (simp add: NewMinuteBucketAdmission_def)
  from log_rel_run [OF assms(1,2,3) this] show ?thesis by (auto simp: log_rel_def)
qed

text \<open>The waiter number 0 queues behind two admissions and is released by its timer in the next minute.\<close>

definition demo_mb_events :: "(instant \<times> mbEvent) list" where
  "demo_mb_events = [(0, Arrive 1 0), (1, Arrive 1 0), (2, Arrive 1 0),
     (go_minute, Round 0 1 EvTimer zeroResult), (go_minute, Arrive 1 0)]"

lemma demo_mb_run:
  "fst (mb_run 2 NewMinuteBucketAdmission demo_mb_events) = [(1, 0), (1, 0), (1, go_minute), (1, go_minute)]"
  by code_simp

theorem minute_bucket_never_exceeded_witness:
  "sorted (map fst demo_mb_events) \<and>
   int (count_list (fst (mb_run 2 NewMinuteBucketAdmission demo_mb_events)) (1, go_minute)) \<le> 2"
proof -
  have "sorted (map fst demo_mb_events)" "\<forall>e \<in> set demo_mb_events. 0 \<le> fst e"
    by (simp_all add: demo_mb_events_def)
  then show ?thesis using minute_bucket_never_exceeded [of 2 demo_mb_events 1 go_minute] by simp
qed

text \<open>
  No starvation in the waiting room: the first time a key's bucket is opened in a new window,
  every waiter queued for that key is released, in queue order, so none waits past one more window;
  and the wait estimated for any request that can still be queued is the time to the next bucket.
\<close>

theorem waiters_released_next_window:
  assumes "mb_inv limit a" "0 < limit" "mba_current a k = Some b"
    "\<not> sameWindow (mb_start b) now (mba_window a)"
  shows "queueOf (refreshBucket a now k limit) k = [] \<and>
    (\<forall>w \<in> set (queueOf a k). mba_ready (refreshBucket a now k limit) w \<and> \<not> mba_queued (refreshBucket a now k limit) w) \<and>
    mb_count (the (mba_current (refreshBucket a now k limit) k)) = int (length (queueOf a k)) \<and>
    (int (length (queueOf a k)) < limit \<longrightarrow>
      estimateWaitLocked a now (int (length (queueOf a k)) + 1) limit = timeUntilNextBucket a now)"
proof -
  have st: "bucket_stale a now k" using assms(3,4) by (simp add: bucket_stale_def)
  have d: "drop (nat limit) (queueOf a k) = []" using mb_inv_queue_len [OF assms(1)] by simp
  note r = refreshBucket_stale [OF st, of limit, unfolded mb_inv_queue_take [OF assms(1)] d]
  show ?thesis using estimateWait_within_limit by (auto simp: r)
qed

definition demo_mb :: minuteBucketAdmission where
  "demo_mb = snd (mb_run 2 NewMinuteBucketAdmission [(0, Arrive 1 0), (1, Arrive 1 0), (2, Arrive 1 0)])"

lemma demo_mb_inv: "mb_inv 2 demo_mb"
  unfolding demo_mb_def
  by (simp add: mb_step_def split_beta Let_def mb_inv_admit_enter)

theorem waiters_released_next_window_witness:
  "queueOf demo_mb 1 = [0] \<and> mba_ready (refreshBucket demo_mb go_minute 1 2) 0"
proof -
  have q: "queueOf demo_mb 1 = [0]" by code_simp
  have b: "mba_current demo_mb 1 = Some \<lparr>mb_count = 2, mb_start = 0\<rparr>" by code_simp
  have n: "\<not> sameWindow 0 go_minute (mba_window demo_mb)" by code_simp
  have "0 < (2 :: int)" by simp
  from waiters_released_next_window [OF demo_mb_inv this b] n q show ?thesis by simp
qed

text \<open>
  Admission decides by the queue and the bucket alone: with an empty queue and room in the
  bucket the request is admitted at once; a full queue is refused with \<open>ErrMinuteBucketFull\<close>; a
  request whose wait would exceed its budget is refused without being queued; otherwise it is
  appended at the tail. The two-minute timeout of a waiter can never fire, because a timer is always
  armed for less than that.
\<close>

theorem admit_enter_cases:
  fixes k :: int and now :: instant
  assumes "0 < limit" "mba_window a = go_minute"
  defines "a1 \<equiv> refreshBucket a now k limit"
  shows "fst (admit_enter a now now' k limit maxWait) =
     (if queueOf a1 k = [] \<and> mb_count (the (mba_current a1 k)) < limit
      then Returned (zeroResult\<lparr>Admitted := True, Limit := limit,
             Remaining := limit - mb_count (the (mba_current a1 k)) - 1\<rparr>) None
      else if limit \<le> int (length (queueOf a1 k)) then Returned (zeroResult\<lparr>Limit := limit\<rparr>) (Some ErrMinuteBucketFull)
      else let r = zeroResult\<lparr>Limit := limit, Position := int (length (queueOf a1 k)) + 1,
             QueueRemaining := limit - int (length (queueOf a1 k)) - 1,
             EstimatedWaitSec := roundSeconds (timeUntilNextBucket a1 now')\<rparr>
        in if 0 < maxWait \<and> maxWait < timeUntilNextBucket a1 now' then Returned r (Some ErrQueueBudgetExceeded)
           else Queued (mba_next a1) (r\<lparr>Waiting := True\<rparr>)) \<and>
   (\<forall>r'. fst (admit_wait a EvTimer before' now k limit w r) \<noteq> Returned r' (Some ErrMinuteBucketWaitTimeout)) \<and>
   queueOf (snd (admit_enter a now now' k limit maxWait)) k =
     queueOf a1 k @ (case fst (admit_enter a now now' k limit maxWait) of Queued w r \<Rightarrow> [w] | Returned r e \<Rightarrow> [])"
proof -
  have "estimateWaitLocked a1 now' (int (length (queueOf a1 k)) + 1) limit = timeUntilNextBucket a1 now'"
    if "\<not> limit \<le> int (length (queueOf a1 k))"
    using that by (intro estimateWait_within_limit) auto
  moreover have "\<not> maxMinuteBucketWait < timeUntilNextBucket a before'" "timeUntilNextBucket a before' \<noteq> maxMinuteBucketWait"
    using timeUntilNextBucket_bounds(2) [OF assms(2), of before'] by auto
  ultimately show ?thesis
    using assms(1) by (auto simp: admit_enter_def admit_wait_def Let_def a1_def zeroResult_def queueOf_def)
qed

theorem admit_enter_cases_witness:
  "(\<exists>r. fst (admit_enter demo_mb 3 3 1 2 go_second) = Returned r (Some ErrQueueBudgetExceeded)) \<and>
   mba_window demo_mb = go_minute"
proof -
  have w: "mba_window demo_mb = go_minute" by code_simp
  have f: "refreshBucket demo_mb 3 1 2 = demo_mb" by (rule refreshBucket_fresh) code_simp
  have q: "queueOf demo_mb 1 = [0]" by code_simp
  have t: "timeUntilNextBucket demo_mb 3 = go_minute - 3" by code_simp
  have "0 < (2 :: int)" by simp
  from admit_enter_cases [OF this w, where k = 1 and now = 3 and now' = 3 and maxWait = go_second] show ?thesis
    by (simp add: f q t w Let_def)
qed

end
