(* ===== verification/GoHeap.thy ===== *)
theory GoHeap
  imports Prelude
begin

text \<open>
  The binary heap of Go's standard package \<open>container/heap\<close>, as the code of the repository
  uses it through \<open>heap.Push\<close> and \<open>heap.Pop\<close>: the slice is a list, \<open>up\<close> and
  \<open>down\<close> are the library's two loops. The locale \<open>heap_order\<close> is the contract of
  \<open>heap.Interface\<close>: a strict weak order \<open>lt\<close>. Inside it, pushing and popping keep the
  heap shape and the multiset of elements, and the popped element is a minimum.
\<close>

definition swap :: "'a list \<Rightarrow> nat \<Rightarrow> nat \<Rightarrow> 'a list" where
  "swap xs i j = xs[i := xs ! j, j := xs ! i]"

function heap_up :: "('a \<Rightarrow> 'a \<Rightarrow> bool) \<Rightarrow> 'a list \<Rightarrow> nat \<Rightarrow> 'a list" where
  "heap_up lt xs j =
     (let i = (j - 1) div 2
      in if i = j \<or> \<not> lt (xs ! j) (xs ! i) then xs
         else heap_up lt (swap xs i j) i)"
  by pat_completeness auto
termination
  by (relation "measure (\<lambda>(lt, xs, j). j)") auto

function heap_down :: "('a \<Rightarrow> 'a \<Rightarrow> bool) \<Rightarrow> 'a list \<Rightarrow> nat \<Rightarrow> nat \<Rightarrow> 'a list" where
  "heap_down lt xs i n =
     (let j1 = 2 * i + 1
      in if n \<le> j1 then xs
         else let j2 = j1 + 1;
                  j = (if j2 < n \<and> lt (xs ! j2) (xs ! j1) then j2 else j1)
              in if \<not> lt (xs ! j) (xs ! i) then xs
                 else heap_down lt (swap xs i j) j n)"
  by pat_completeness auto
termination
  by (relation "measure (\<lambda>(lt, xs, i, n). n - i)") auto

declare heap_up.simps [simp del] heap_down.simps [simp del]

definition heap_push :: "('a \<Rightarrow> 'a \<Rightarrow> bool) \<Rightarrow> 'a \<Rightarrow> 'a list \<Rightarrow> 'a list" where
  "heap_push lt x xs = heap_up lt (xs @ [x]) (length xs)"

text \<open>\<open>heap.Pop\<close> on an empty heap panics in Go; every caller guards it with \<open>Len() > 0\<close>.\<close>

definition heap_pop :: "('a \<Rightarrow> 'a \<Rightarrow> bool) \<Rightarrow> 'a list \<Rightarrow> 'a \<times> 'a list" where
  "heap_pop lt xs =
     (let n = length xs - 1; ys = heap_down lt (swap xs 0 n) 0 n
      in (last ys, butlast ys))"

lemma length_swap [simp]: "length (swap xs i j) = length xs"
  by (simp add: swap_def)

lemma length_heap_down [simp]: "length (heap_down lt xs i n) = length xs"
  by (induction lt xs i n rule: heap_down.induct) (subst heap_down.simps, simp add: Let_def)

lemma length_heap_pop [simp]: "length (snd (heap_pop lt xs)) = length xs - 1"
  by (simp add: heap_pop_def Let_def)

text \<open>Popping until the heap is empty, the loop \<open>for h.Len() > 0 { heap.Pop(h) }\<close>.\<close>

function heap_drain :: "('a \<Rightarrow> 'a \<Rightarrow> bool) \<Rightarrow> 'a list \<Rightarrow> 'a list" where
  "heap_drain lt xs =
     (if xs = [] then []
      else fst (heap_pop lt xs) # heap_drain lt (snd (heap_pop lt xs)))"
  by pat_completeness auto
termination
  by (relation "measure (\<lambda>(lt, xs). length xs)")
    (auto simp: diff_less)

declare heap_drain.simps [simp del]

definition is_heap :: "('a \<Rightarrow> 'a \<Rightarrow> bool) \<Rightarrow> 'a list \<Rightarrow> bool" where
  "is_heap lt xs \<longleftrightarrow> (\<forall>k < length xs. 0 < k \<longrightarrow> \<not> lt (xs ! k) (xs ! ((k - 1) div 2)))"

section \<open>Swapping\<close>

lemma mset_swap_list [simp]: "i < length xs \<Longrightarrow> j < length xs \<Longrightarrow> mset (swap xs i j) = mset xs"
  by (simp add: swap_def mset_swap)

lemma nth_swap:
  "i < length xs \<Longrightarrow> j < length xs \<Longrightarrow> k < length xs \<Longrightarrow>
   swap xs i j ! k = (if k = j then xs ! i else if k = i then xs ! j else xs ! k)"
  by (simp add: swap_def nth_list_update)

lemma length_heap_up [simp]: "length (heap_up lt xs j) = length xs"
  by (induction lt xs j rule: heap_up.induct) (subst heap_up.simps, simp add: Let_def)

lemma mset_heap_up: "j < length xs \<Longrightarrow> mset (heap_up lt xs j) = mset xs"
proof (induction lt xs j rule: heap_up.induct)
  case (1 lt xs j)
  have "(j - 1) div 2 < length xs" using "1.prems" by linarith
  then show ?case
    using 1 by (subst heap_up.simps) (simp add: Let_def)
qed

lemma mset_heap_down:
  "n \<le> length xs \<Longrightarrow> mset (heap_down lt xs i n) = mset xs"
proof (induction lt xs i n rule: heap_down.induct)
  case (1 lt xs i n)
  then show ?case
    by (subst heap_down.simps) (simp add: Let_def)
qed

text \<open>Positions at or beyond the bound \<open>n\<close> are left alone.\<close>

lemma nth_heap_down_beyond:
  "n \<le> length xs \<Longrightarrow> n \<le> k \<Longrightarrow> k < length xs \<Longrightarrow> heap_down lt xs i n ! k = xs ! k"
proof (induction lt xs i n rule: heap_down.induct)
  case (1 lt xs i n)
  then show ?case
    by (subst heap_down.simps) (simp add: Let_def nth_swap)
qed

section \<open>The contract of \<open>heap.Interface\<close>\<close>

locale heap_order =
  fixes lt :: "'a \<Rightarrow> 'a \<Rightarrow> bool"
  assumes lt_asym: "lt a b \<Longrightarrow> \<not> lt b a"
    and not_lt_trans: "\<not> lt b a \<Longrightarrow> \<not> lt c b \<Longrightarrow> \<not> lt c a"
begin

definition except_up :: "'a list \<Rightarrow> nat \<Rightarrow> bool" where
  "except_up xs j \<longleftrightarrow> (\<forall>k < length xs. 0 < k \<longrightarrow>
     (k \<noteq> j \<longrightarrow> \<not> lt (xs ! k) (xs ! ((k - 1) div 2))) \<and>
     ((k - 1) div 2 = j \<longrightarrow> 0 < j \<longrightarrow> \<not> lt (xs ! k) (xs ! ((j - 1) div 2))))"

definition except_down :: "'a list \<Rightarrow> nat \<Rightarrow> nat \<Rightarrow> bool" where
  "except_down xs i n \<longleftrightarrow> (\<forall>k < n. 0 < k \<longrightarrow>
     ((k - 1) div 2 \<noteq> i \<longrightarrow> \<not> lt (xs ! k) (xs ! ((k - 1) div 2))) \<and>
     ((k - 1) div 2 = i \<longrightarrow> 0 < i \<longrightarrow> \<not> lt (xs ! k) (xs ! ((i - 1) div 2))))"

lemma except_up_swap:
  assumes ex: "except_up xs j" and j: "j < length xs" "0 < j"
    and ltp: "lt (xs ! j) (xs ! ((j - 1) div 2))"
  shows "except_up (swap xs ((j - 1) div 2) j) ((j - 1) div 2)"
proof -
  let ?i = "(j - 1) div 2"
  have i: "?i < j" using j by linarith
  show ?thesis
    unfolding except_up_def length_swap
  proof (intro allI impI conjI)
    fix k assume k: "k < length xs" "0 < k"
    let ?p = "(k - 1) div 2"
    have p: "?p < k" using k by linarith
    {
      assume ki: "k \<noteq> ?i"
      show "\<not> lt (swap xs ?i j ! k) (swap xs ?i j ! ?p)"
      proof (cases "k = j")
        case True
        then show ?thesis using lt_asym [OF ltp] i j by (simp add: nth_swap)
      next
        case kj: False
        have kp: "\<not> lt (xs ! k) (xs ! ?p)" using ex k kj by (auto simp: except_up_def)
        show ?thesis
        proof (cases "?p = j")
          case True
          then have "\<not> lt (xs ! k) (xs ! ?i)" using ex k j by (auto simp: except_up_def)
          then show ?thesis using True k i j ki kj by (simp add: nth_swap)
        next
          case pj: False
          show ?thesis
          proof (cases "?p = ?i")
            case True
            then have "\<not> lt (xs ! k) (xs ! j)"
              using kp ltp lt_asym not_lt_trans by metis
            then show ?thesis using True k i j ki kj pj by (simp add: nth_swap)
          next
            case False
            then show ?thesis using kp k p i j ki kj pj by (simp add: nth_swap)
          qed
        qed
      qed
    }
    {
      assume pi: "?p = ?i" and i0: "0 < ?i"
      have gi: "(?i - 1) div 2 < ?i" using i0 by linarith
      have ip: "\<not> lt (xs ! ?i) (xs ! ((?i - 1) div 2))"
        using ex i j i0 by (auto simp: except_up_def)
      show "\<not> lt (swap xs ?i j ! k) (swap xs ?i j ! ((?i - 1) div 2))"
      proof (cases "k = j")
        case True
        then show ?thesis using ip gi i j by (simp add: nth_swap)
      next
        case False
        have "\<not> lt (xs ! k) (xs ! ?i)" using ex k False pi by (auto simp: except_up_def)
        then have "\<not> lt (xs ! k) (xs ! ((?i - 1) div 2))"
          using ip not_lt_trans by blast
        moreover have "k \<noteq> ?i" using p pi by simp
        ultimately show ?thesis using False gi i j k by (simp add: nth_swap)
      qed
    }
  qed
qed

lemma heap_up_is_heap: "except_up xs j \<Longrightarrow> j < length xs \<Longrightarrow> is_heap lt (heap_up lt xs j)"
proof (induction j arbitrary: xs rule: less_induct)
  case (less j)
  let ?i = "(j - 1) div 2"
  show ?case
  proof (cases "?i = j \<or> \<not> lt (xs ! j) (xs ! ?i)")
    case True
    then have "j = 0 \<or> \<not> lt (xs ! j) (xs ! ?i)" by linarith
    then have "is_heap lt xs"
      using less.prems(1) by (auto simp: except_up_def is_heap_def)
    with True show ?thesis by (subst heap_up.simps) (simp add: Let_def)
  next
    case False
    then have j: "0 < j" "?i < j" by (cases j, simp, linarith)+
    from False less.prems j have "except_up (swap xs ?i j) ?i"
      by (intro except_up_swap) auto
    then have "is_heap lt (heap_up lt (swap xs ?i j) ?i)"
      using j less.prems(2) by (intro less.IH) auto
    with False show ?thesis by (subst heap_up.simps) (simp add: Let_def)
  qed
qed

lemma except_down_swap:
  assumes ex: "except_down xs i n" and n: "n \<le> length xs" and j: "j < n" "(j - 1) div 2 = i" "0 < j"
    and ltp: "lt (xs ! j) (xs ! i)"
    and smallest: "\<And>k. k < n \<Longrightarrow> 0 < k \<Longrightarrow> (k - 1) div 2 = i \<Longrightarrow> \<not> lt (xs ! k) (xs ! j)"
  shows "except_down (swap xs i j) j n"
proof -
  have i: "i < j" using j by linarith
  have il: "i < length xs" "j < length xs" using i j n by auto
  show ?thesis
    unfolding except_down_def
  proof (intro allI impI conjI)
    fix k assume k: "k < n" "0 < k"
    let ?p = "(k - 1) div 2"
    have p: "?p < k" using k by linarith
    have kl: "k < length xs" "?p < length xs" using k p n by auto
    {
      assume pj: "?p \<noteq> j"
      show "\<not> lt (swap xs i j ! k) (swap xs i j ! ?p)"
      proof (cases "?p = i")
        case True
        then have "k \<noteq> i" using p by simp
        then show ?thesis
          using True smallest [OF k True] lt_asym [OF ltp] i il kl by (simp add: nth_swap)
      next
        case pi: False
        have kp: "\<not> lt (xs ! k) (xs ! ?p)" using ex k pi by (auto simp: except_down_def)
        have kj: "k \<noteq> j" using pi j by auto
        show ?thesis
        proof (cases "k = i")
          case True
          then have "\<not> lt (xs ! j) (xs ! ?p)" using ex j k by (auto simp: except_down_def)
          then show ?thesis using True pi pj kj il kl by (simp add: nth_swap)
        next
          case False
          then show ?thesis using kp pi pj kj il kl by (simp add: nth_swap)
        qed
      qed
    }
    {
      assume pj: "?p = j"
      have "\<not> lt (xs ! k) (xs ! j)" using ex k pj i by (auto simp: except_down_def)
      moreover have "k \<noteq> i" "k \<noteq> j" using p pj i by auto
      ultimately show "\<not> lt (swap xs i j ! k) (swap xs i j ! ((j - 1) div 2))"
        using j i il kl by (simp add: nth_swap)
    }
  qed
qed

lemma child_cases:
  fixes k i :: nat
  shows "0 < k \<Longrightarrow> (k - 1) div 2 = i \<Longrightarrow> k = 2 * i + 1 \<or> k = 2 * i + 2"
  by linarith

lemma heap_down_parent_le:
  "except_down xs i n \<Longrightarrow> n \<le> length xs \<Longrightarrow>
   \<forall>k < n. 0 < k \<longrightarrow> \<not> lt (heap_down lt xs i n ! k) (heap_down lt xs i n ! ((k - 1) div 2))"
proof (induction "n - i" arbitrary: xs i rule: less_induct)
  case less
  let ?j1 = "2 * i + 1"
  show ?case
  proof (cases "n \<le> ?j1")
    case True
    then have "\<forall>k < n. 0 < k \<longrightarrow> (k - 1) div 2 \<noteq> i" using child_cases by fastforce
    then have "\<forall>k < n. 0 < k \<longrightarrow> \<not> lt (xs ! k) (xs ! ((k - 1) div 2))"
      using less.prems(1) by (simp add: except_down_def)
    with True show ?thesis by (subst (1 2) heap_down.simps) simp
  next
    case False
    define j where "j = (if ?j1 + 1 < n \<and> lt (xs ! (?j1 + 1)) (xs ! ?j1) then ?j1 + 1 else ?j1)"
    have jn: "j < n" and ji: "(j - 1) div 2 = i" "0 < j" "i < j"
      using False by (auto simp: j_def)
    have step: "heap_down lt xs i n = (if lt (xs ! j) (xs ! i) then heap_down lt (swap xs i j) j n else xs)"
      using False by (subst heap_down.simps) (simp add: Let_def j_def)
    have smallest: "\<not> lt (xs ! k) (xs ! j)" if k: "k < n" "0 < k" "(k - 1) div 2 = i" for k
    proof -
      have "k = ?j1 \<or> k = ?j1 + 1" using child_cases [OF k(2,3)] by auto
      then show ?thesis using k(1) lt_asym by (auto simp: j_def split: if_splits)
    qed
    show ?thesis
    proof (cases "lt (xs ! j) (xs ! i)")
      case True
      have ex: "except_down (swap xs i j) j n"
        by (rule except_down_swap [OF less.prems jn ji(1,2) True smallest])
      show ?thesis
        using less.hyps [OF _ ex] less.prems(2) jn ji(3) True by (simp add: step)
    next
      case noswap: False
      have "\<not> lt (xs ! k) (xs ! ((k - 1) div 2))" if k: "k < n" "0 < k" for k
      proof (cases "(k - 1) div 2 = i")
        case True
        then show ?thesis using smallest [OF k True] noswap not_lt_trans by metis
      next
        case False
        then show ?thesis using less.prems(1) k by (simp add: except_down_def)
      qed
      with noswap show ?thesis by (simp add: step)
    qed
  qed
qed

lemma lt_irrefl [simp]: "\<not> lt a a"
  using lt_asym by blast

lemma is_heap_root_min: "is_heap lt xs \<Longrightarrow> k < length xs \<Longrightarrow> \<not> lt (xs ! k) (xs ! 0)"
proof (induction k rule: less_induct)
  case (less k)
  show ?case
  proof (cases "k = 0")
    case False
    let ?p = "(k - 1) div 2"
    have p: "?p < k" using False by linarith
    then have "\<not> lt (xs ! ?p) (xs ! 0)" using less by simp
    moreover have "\<not> lt (xs ! k) (xs ! ?p)" using less.prems False by (auto simp: is_heap_def)
    ultimately show ?thesis using not_lt_trans by blast
  qed simp
qed

lemma heap_push_is_heap: "is_heap lt xs \<Longrightarrow> is_heap lt (heap_push lt x xs)"
proof -
  assume h: "is_heap lt xs"
  have "except_up (xs @ [x]) (length xs)"
    unfolding except_up_def
  proof (intro allI impI conjI)
    fix k assume k: "k < length (xs @ [x])" "0 < k"
    have p: "(k - 1) div 2 < k" using k by linarith
    show "\<not> lt ((xs @ [x]) ! k) ((xs @ [x]) ! ((k - 1) div 2))" if "k \<noteq> length xs"
      using h k p that by (auto simp: is_heap_def nth_append)
    show "\<not> lt ((xs @ [x]) ! k) ((xs @ [x]) ! ((length xs - 1) div 2))"
      if "(k - 1) div 2 = length xs"
      using k p that by simp
  qed
  then show ?thesis by (simp add: heap_push_def heap_up_is_heap)
qed

lemma heap_pop_correct:
  assumes h: "is_heap lt xs" and ne: "xs \<noteq> []"
  shows heap_pop_fst: "fst (heap_pop lt xs) = xs ! 0"
    and heap_pop_is_heap: "is_heap lt (snd (heap_pop lt xs))"
    and mset_heap_pop: "mset xs = add_mset (fst (heap_pop lt xs)) (mset (snd (heap_pop lt xs)))"
proof -
  let ?n = "length xs - 1"
  let ?ys = "heap_down lt (swap xs 0 ?n) 0 ?n"
  have n: "?n < length xs" "0 < length xs" using ne by (cases xs; simp)+
  have len: "length ?ys = Suc ?n" using n by simp
  have ne': "?ys \<noteq> []" using len by (metis list.size(3) nat.distinct(1))
  have ex: "except_down (swap xs 0 ?n) 0 ?n"
    unfolding except_down_def
  proof (intro allI impI conjI)
    fix k assume k: "k < ?n" "0 < k"
    have p: "(k - 1) div 2 < k" using k by linarith
    show "\<not> lt (swap xs 0 ?n ! k) (swap xs 0 ?n ! ((k - 1) div 2))" if "(k - 1) div 2 \<noteq> 0"
      using h k p n that by (auto simp: is_heap_def nth_swap)
  qed auto
  have last: "last ?ys = xs ! 0"
  proof -
    have "last ?ys = ?ys ! ?n" using len ne' by (simp add: last_conv_nth)
    also have "\<dots> = swap xs 0 ?n ! ?n" using n by (intro nth_heap_down_beyond) auto
    finally show ?thesis using n by (simp add: nth_swap)
  qed
  show "fst (heap_pop lt xs) = xs ! 0" using last by (simp add: heap_pop_def Let_def)
  show "is_heap lt (snd (heap_pop lt xs))"
    using heap_down_parent_le [OF ex] n len
    by (auto simp: is_heap_def heap_pop_def Let_def nth_butlast)
  have "mset xs = mset ?ys" using n by (simp add: mset_heap_down)
  also have "\<dots> = mset (butlast ?ys @ [last ?ys])" using ne' by simp
  finally show "mset xs = add_mset (fst (heap_pop lt xs)) (mset (snd (heap_pop lt xs)))"
    by (simp add: heap_pop_def Let_def)
qed

lemma heap_pop_min:
  assumes "is_heap lt xs" "xs \<noteq> []" "y \<in> set xs"
  shows "\<not> lt y (fst (heap_pop lt xs))"
proof -
  obtain k where "k < length xs" "y = xs ! k" using assms(3) by (auto simp: in_set_conv_nth)
  then show ?thesis using assms is_heap_root_min by (simp add: heap_pop_fst)
qed

lemma set_heap_pop:
  "is_heap lt xs \<Longrightarrow> xs \<noteq> [] \<Longrightarrow> set xs = insert (fst (heap_pop lt xs)) (set (snd (heap_pop lt xs)))"
  by (metis mset_heap_pop set_mset_add_mset_insert set_mset_mset)

lemma heap_drain_sorted:
  "is_heap lt xs \<Longrightarrow> mset (heap_drain lt xs) = mset xs \<and> sorted_wrt (\<lambda>a b. \<not> lt b a) (heap_drain lt xs)"
proof (induction "length xs" arbitrary: xs rule: less_induct)
  case less
  show ?case
  proof (cases "xs = []")
    case True
    then show ?thesis by (subst (1 2) heap_drain.simps) simp
  next
    case False
    let ?r = "snd (heap_pop lt xs)"
    have IH: "mset (heap_drain lt ?r) = mset ?r" "sorted_wrt (\<lambda>a b. \<not> lt b a) (heap_drain lt ?r)"
      using less.hyps [of ?r] heap_pop_is_heap [OF less.prems False] False by auto
    have "set (heap_drain lt ?r) = set ?r" using IH(1) by (metis set_mset_mset)
    then have "\<not> lt y (fst (heap_pop lt xs))" if "y \<in> set (heap_drain lt ?r)" for y
      using heap_pop_min [OF less.prems False] set_heap_pop [OF less.prems False] that by blast
    with IH show ?thesis
      using False mset_heap_pop [OF less.prems False] by (subst (1 2) heap_drain.simps) simp
  qed
qed

end

lemma length_heap_push [simp]: "length (heap_push lt x xs) = Suc (length xs)"
  by (simp add: heap_push_def)

lemma mset_heap_push [simp]: "mset (heap_push lt x xs) = add_mset x (mset xs)"
  by (simp add: heap_push_def mset_heap_up)

lemma set_heap_push [simp]: "set (heap_push lt x xs) = insert x (set xs)"
  by (metis mset_heap_push set_mset_add_mset_insert set_mset_mset)

lemma is_heap_Nil [simp]: "is_heap lt []"
  by (simp add: is_heap_def)

end
