(* ===== verification/RetrySchedule.thy ===== *)
theory RetrySchedule
  imports GoHeap
begin

text \<open>
  Timed retry scheduling, \<open>domains/dispatch/retry_schedule.go\<close>: the backoff ladder, the
  jitter, and \<open>HeapRetryScheduler\<close>, the min-heap of parked requests ordered by
  \<open>(retryAt, sequence)\<close> with its picker. A request is an element of the type variable
  \<open>'q\<close> (the code only stores the pointer); \<open>qr == nil\<close> is \<open>None\<close>. The receiver
  is never nil in the model. Every critical section of \<open>s.mu\<close> is one operation; the picker
  goroutine and the callers of \<open>Schedule\<close> and \<open>Close\<close> interleave in
  \<open>sched_step\<close>.
\<close>

section \<open>Backoff ladder and jitter\<close>

definition retryBaseDelay :: duration where "retryBaseDelay = 5 * go_second"
definition retryMaxDelay :: duration where "retryMaxDelay = 120 * go_second"

definition clampDuration :: "duration \<Rightarrow> duration \<Rightarrow> duration \<Rightarrow> duration" where
  "clampDuration d lo hi = (if d < lo then lo else if hi < d then hi else d)"

text \<open>The loop \<open>for i := 1; i < retrySeq; i++\<close> with \<open>k\<close> iterations left.\<close>

fun retryLadder :: "nat \<Rightarrow> duration \<Rightarrow> duration" where
  "retryLadder 0 delay = clampDuration delay retryBaseDelay retryMaxDelay"
| "retryLadder (Suc k) delay =
     (let delay' = delay * 2
      in if retryMaxDelay \<le> delay' then retryMaxDelay else retryLadder k delay')"

definition NextRetryDelay :: "int \<Rightarrow> duration \<Rightarrow> duration" where
  "NextRetryDelay retrySeq retryAfter =
     (if 0 < retryAfter then clampDuration retryAfter retryBaseDelay retryMaxDelay
      else let s = (if retrySeq < 1 then 1 else retrySeq) in retryLadder (nat (s - 1)) retryBaseDelay)"

text \<open>
  Conversion of a float to \<open>Duration\<close> truncates towards zero. Floating-point products are
  exact real products here; \<open>r\<close> is the value the random source returned.
\<close>

definition go_trunc :: "real \<Rightarrow> int" where
  "go_trunc x = (if 0 \<le> x then \<lfloor>x\<rfloor> else \<lceil>x\<rceil>)"

definition ApplyRetryJitterAlways :: "duration \<Rightarrow> real \<Rightarrow> duration" where
  "ApplyRetryJitterAlways d r =
     (if d \<le> 0 then d
      else let factor = 1 + 2 / 10 * (2 * r - 1);
               jittered = go_trunc (real_of_int d * factor)
           in if jittered < 0 then 0 else jittered)"

definition ApplyRetryJitter :: "bool \<Rightarrow> duration \<Rightarrow> real \<Rightarrow> duration" where
  "ApplyRetryJitter retryJitterEnabled d r =
     (if \<not> retryJitterEnabled then d else ApplyRetryJitterAlways d r)"

section \<open>The scheduler\<close>

record 'q retryHeapItem =
  item_qr :: 'q
  item_retryAt :: instant
  item_sequence :: int

definition retryLess :: "'q retryHeapItem \<Rightarrow> 'q retryHeapItem \<Rightarrow> bool" where
  "retryLess a b =
     (if item_retryAt a \<noteq> item_retryAt b then item_retryAt a < item_retryAt b
      else item_sequence a < item_sequence b)"

record 'q heapRetryScheduler =
  sched_items :: "'q retryHeapItem list"
  sched_nextSeq :: int
  sched_closed :: bool
  sched_maxItems :: int
  sched_hasOnClose :: bool
  sched_notify :: bool
  sched_cancelled :: bool

definition NewHeapRetryScheduler :: "bool \<Rightarrow> int \<Rightarrow> 'q heapRetryScheduler" where
  "NewHeapRetryScheduler onClose maxItems =
     \<lparr>sched_items = [], sched_nextSeq = 0, sched_closed = False, sched_maxItems = maxItems,
      sched_hasOnClose = onClose, sched_notify = False, sched_cancelled = False\<rparr>"

definition Schedule :: "'q heapRetryScheduler \<Rightarrow> 'q option \<Rightarrow> instant \<Rightarrow> bool \<times> 'q heapRetryScheduler" where
  "Schedule s qr retryAt =
     (case qr of None \<Rightarrow> (False, s)
      | Some q \<Rightarrow>
        if sched_closed s then (False, s)
        else if 0 < sched_maxItems s \<and> sched_maxItems s \<le> int (length (sched_items s)) then (False, s)
        else let n = sched_nextSeq s + 1;
                 item = \<lparr>item_qr = q, item_retryAt = retryAt, item_sequence = n\<rparr>
             in (True, s\<lparr>sched_nextSeq := n,
                         sched_items := heap_push retryLess item (sched_items s),
                         sched_notify := True\<rparr>))"

definition sched_Len :: "'q heapRetryScheduler \<Rightarrow> nat" where
  "sched_Len s = length (sched_items s)"

text \<open>
  \<open>closeOnce\<close> runs its body once; \<open>closed\<close> is set only there, so the flag also says
  whether the body already ran. The result is the sequence of requests given to \<open>onClose\<close>.
\<close>

definition Close :: "'q heapRetryScheduler \<Rightarrow> 'q list \<times> 'q heapRetryScheduler" where
  "Close s =
     (if sched_closed s then ([], s)
      else let pending = map item_qr (heap_drain retryLess (sched_items s));
               s' = s\<lparr>sched_closed := True, sched_items := [], sched_cancelled := True\<rparr>
           in (if sched_hasOnClose s then pending else [], s'))"

definition nextWait :: "'q heapRetryScheduler \<Rightarrow> instant \<Rightarrow> duration option" where
  "nextWait s now =
     (case sched_items s of [] \<Rightarrow> None
      | x # _ \<Rightarrow> Some (if now < item_retryAt x then item_retryAt x - now else 0))"

text \<open>One critical section of the loop in \<open>fireDue\<close>: \<open>None\<close> is its \<open>return\<close>.\<close>

definition fireOne :: "'q heapRetryScheduler \<Rightarrow> instant \<Rightarrow> ('q retryHeapItem \<times> 'q heapRetryScheduler) option" where
  "fireOne s now =
     (case sched_items s of [] \<Rightarrow> None
      | x # _ \<Rightarrow>
        if sched_closed s \<or> now < item_retryAt x then None
        else let (y, rest) = heap_pop retryLess (sched_items s)
             in Some (y, s\<lparr>sched_items := rest\<rparr>))"

lemma fireOne_shrinks:
  "fireOne s now = Some (x, s') \<Longrightarrow> length (sched_items s') < length (sched_items s)"
  by (auto simp: fireOne_def split_beta split: list.splits if_splits)

text \<open>The whole loop, with the requests it hands to \<open>pick\<close>, in order.\<close>

function fireDue :: "'q heapRetryScheduler \<Rightarrow> instant \<Rightarrow> 'q retryHeapItem list \<times> 'q heapRetryScheduler" where
  "fireDue s now =
     (case fireOne s now of
        None \<Rightarrow> ([], s)
      | Some (x, s') \<Rightarrow> (let (fired, s'') = fireDue s' now in (x # fired, s'')))"
  by pat_completeness auto
termination
  by (relation "measure (\<lambda>(s, now). length (sched_items s))") (auto dest: fireOne_shrinks)

declare fireDue.simps [simp del]

datatype 'q run_outcome =
  RunExit
| RunBlocked
| RunFired "'q retryHeapItem list" "'q heapRetryScheduler"

text \<open>
  One iteration of \<open>run\<close>: \<open>now\<close> is the clock before and \<open>now'\<close> after the sleep.
  \<open>RunBlocked\<close> is the wait on \<open>notify\<close> or \<open>ctx.Done\<close> with an empty heap.
\<close>

definition run_iteration :: "'q heapRetryScheduler \<Rightarrow> instant \<Rightarrow> instant \<Rightarrow> 'q run_outcome" where
  "run_iteration s now now' =
     (if sched_cancelled s then RunExit
      else case nextWait s now of
        None \<Rightarrow> RunBlocked
      | Some wait \<Rightarrow> (let (fired, s') = fireDue s now' in RunFired fired s'))"

text \<open>Any interleaving of callers and the picker.\<close>

inductive sched_step :: "'q heapRetryScheduler \<Rightarrow> 'q heapRetryScheduler \<Rightarrow> bool" where
  step_schedule: "Schedule s qr t = (b, s') \<Longrightarrow> sched_step s s'"
| step_fire: "fireOne s now = Some (x, s') \<Longrightarrow> sched_step s s'"
| step_close: "Close s = (qs, s') \<Longrightarrow> sched_step s s'"
| step_notified: "sched_notify s \<Longrightarrow> sched_step s (s\<lparr>sched_notify := False\<rparr>)"

inductive sched_reach :: "bool \<Rightarrow> int \<Rightarrow> 'q heapRetryScheduler \<Rightarrow> bool" for onClose maxItems where
  reach_new: "sched_reach onClose maxItems (NewHeapRetryScheduler onClose maxItems)"
| reach_step: "sched_reach onClose maxItems s \<Longrightarrow> sched_step s s' \<Longrightarrow> sched_reach onClose maxItems s'"

inductive_cases sched_stepE: "sched_step s s'"

definition sched_inv :: "'q heapRetryScheduler \<Rightarrow> bool" where
  "sched_inv s \<longleftrightarrow>
     is_heap retryLess (sched_items s) \<and>
     distinct (map item_sequence (sched_items s)) \<and>
     (\<forall>x \<in> set (sched_items s). item_sequence x \<le> sched_nextSeq s) \<and>
     (0 < sched_maxItems s \<longrightarrow> int (length (sched_items s)) \<le> sched_maxItems s) \<and>
     (sched_closed s \<longrightarrow> sched_items s = []) \<and>
     sched_cancelled s = sched_closed s"

definition dueItem :: "instant \<Rightarrow> 'q retryHeapItem \<Rightarrow> bool" where
  "dueItem now x \<longleftrightarrow> item_retryAt x \<le> now"

section \<open>Lemmas\<close>

interpretation retry_heap: heap_order retryLess
  by unfold_locales (auto simp: retryLess_def split: if_splits)

lemma distinct_seq_mset:
  "mset xs = mset ys \<Longrightarrow> distinct (map item_sequence xs) = distinct (map item_sequence ys)"
  by (rule mset_eq_imp_distinct_iff) (simp add: mset_map)

lemma sched_inv_new [simp, intro]: "sched_inv (NewHeapRetryScheduler b m)"
  by (simp add: sched_inv_def NewHeapRetryScheduler_def)

lemma sched_inv_Schedule [inv_intros]:
  assumes "sched_inv s" "Schedule s qr t = (b, s')"
  shows "sched_inv s'"
proof (cases "b")
  case False
  then show ?thesis using assms by (auto simp: Schedule_def Let_def split: option.splits if_splits)
next
  case True
  let ?n = "sched_nextSeq s + 1"
  from assms(2) True obtain q where s':
    "s' = s\<lparr>sched_nextSeq := ?n, sched_items := heap_push retryLess
        \<lparr>item_qr = q, item_retryAt = t, item_sequence = ?n\<rparr> (sched_items s), sched_notify := True\<rparr>"
    and open': "\<not> sched_closed s" "\<not> (0 < sched_maxItems s \<and> sched_maxItems s \<le> int (length (sched_items s)))"
    by (auto simp: Schedule_def Let_def split: option.splits if_splits)
  let ?x = "\<lparr>item_qr = q, item_retryAt = t, item_sequence = ?n\<rparr>"
  have "distinct (map item_sequence (heap_push retryLess ?x (sched_items s)))"
  proof -
    have "mset (heap_push retryLess ?x (sched_items s)) = mset (?x # sched_items s)" by simp
    moreover have "distinct (map item_sequence (?x # sched_items s))"
      using assms(1) by (fastforce simp: sched_inv_def)
    ultimately show ?thesis using distinct_seq_mset by blast
  qed
  then show ?thesis
    using assms(1) open' s' retry_heap.heap_push_is_heap by (fastforce simp: sched_inv_def)
qed

lemma fireOne_SomeD:
  assumes "fireOne s now = Some (x, s')"
  shows "sched_items s \<noteq> []" "\<not> sched_closed s" "item_retryAt (sched_items s ! 0) \<le> now"
    "x = fst (heap_pop retryLess (sched_items s))"
    "s' = s\<lparr>sched_items := snd (heap_pop retryLess (sched_items s))\<rparr>"
  using assms by (auto simp: fireOne_def split_beta split: list.splits if_splits)

lemma sched_inv_fireOne [inv_intros]:
  assumes inv: "sched_inv s" and f: "fireOne s now = Some (x, s')"
  shows "sched_inv s'"
proof -
  note d = fireOne_SomeD [OF f]
  have h: "is_heap retryLess (sched_items s)" using inv by (simp add: sched_inv_def)
  have "mset (sched_items s) = mset (x # sched_items s')"
    using retry_heap.mset_heap_pop [OF h d(1)] d(4,5) by simp
  then have "distinct (map item_sequence (x # sched_items s'))"
    using inv distinct_seq_mset by (metis sched_inv_def)
  moreover have "set (sched_items s') \<subseteq> set (sched_items s)"
    using retry_heap.set_heap_pop [OF h d(1)] d(5) by auto
  moreover have "length (sched_items s') \<le> length (sched_items s)"
    using fireOne_shrinks [OF f] by simp
  ultimately show ?thesis
    using inv d retry_heap.heap_pop_is_heap [OF h d(1)] by (auto simp: sched_inv_def)
qed

lemma sched_inv_Close [inv_intros]: "sched_inv s \<Longrightarrow> Close s = (qs, s') \<Longrightarrow> sched_inv s'"
  by (auto simp: sched_inv_def Close_def Let_def split: if_splits)

lemma sched_inv_step: "sched_step s s' \<Longrightarrow> sched_inv s \<Longrightarrow> sched_inv s'"
proof (induction rule: sched_step.induct)
  case (step_notified s)
  then show ?case by (simp add: sched_inv_def)
qed (auto intro: inv_intros)

lemma sched_step_maxItems: "sched_step s s' \<Longrightarrow> sched_maxItems s' = sched_maxItems s"
  by (elim sched_stepE)
    (auto simp: Schedule_def Close_def Let_def dest: fireOne_SomeD(5) split: option.splits if_splits)

lemma sched_reach_inv: "sched_reach b m s \<Longrightarrow> sched_inv s \<and> sched_maxItems s = m"
proof (induction rule: sched_reach.induct)
  case reach_new
  then show ?case by (simp add: sched_inv_new) (simp add: NewHeapRetryScheduler_def)
next
  case (reach_step s s')
  then show ?case using sched_inv_step sched_step_maxItems by blast
qed

lemma retryLess_neq: "item_sequence a \<noteq> item_sequence b \<Longrightarrow> \<not> retryLess b a \<Longrightarrow> retryLess a b"
  by (auto simp: retryLess_def split: if_splits)

lemma not_retryLess_due: "\<not> retryLess y x \<Longrightarrow> dueItem now y \<Longrightarrow> dueItem now x"
  by (auto simp: retryLess_def dueItem_def split: if_splits)

lemma fireOne_None_not_due:
  assumes inv: "sched_inv s" and f: "fireOne s now = None" and y: "y \<in> set (sched_items s)"
  shows "\<not> dueItem now y"
proof -
  obtain k where k: "k < length (sched_items s)" "y = sched_items s ! k"
    using y by (auto simp: in_set_conv_nth)
  then have "\<not> retryLess y (sched_items s ! 0)"
    using inv retry_heap.is_heap_root_min by (auto simp: sched_inv_def)
  moreover have "\<not> dueItem now (sched_items s ! 0)"
    using f y inv by (cases "sched_items s") (auto simp: fireOne_def dueItem_def sched_inv_def split_beta split: if_splits)
  ultimately show ?thesis using not_retryLess_due by blast
qed

lemma fireDue_spec:
  "sched_inv s \<Longrightarrow> fireDue s now = (fired, s') \<Longrightarrow>
   mset fired = filter_mset (dueItem now) (mset (sched_items s)) \<and>
   mset (sched_items s') = filter_mset (\<lambda>x. \<not> dueItem now x) (mset (sched_items s)) \<and>
   sorted_wrt retryLess fired \<and> sched_inv s'"
proof (induction s now arbitrary: fired rule: fireDue.induct)
  case (1 s now)
  show ?case
  proof (cases "fireOne s now")
    case None
    then have "fired = []" "s' = s" using "1.prems"(2) by (subst (asm) fireDue.simps, simp)+
    moreover have "filter_mset (dueItem now) (mset (sched_items s)) = {#}"
      "filter_mset (\<lambda>x. \<not> dueItem now x) (mset (sched_items s)) = mset (sched_items s)"
      using fireOne_None_not_due [OF "1.prems"(1) None]
      by (auto simp flip: mset_filter intro: arg_cong [where f = mset] filter_True)
    ultimately show ?thesis using "1.prems"(1) by simp
  next
    case (Some p)
    obtain x s1 where p: "p = (x, s1)" by (cases p)
    note f = Some [unfolded p]
    note d = fireOne_SomeD [OF f]
    obtain fs where fs: "fireDue s1 now = (fs, s')" "fired = x # fs"
      using "1.prems"(2) f by (subst (asm) fireDue.simps) (auto split: prod.splits)
    have inv1: "sched_inv s1" using sched_inv_fireOne [OF "1.prems"(1) f] .
    have IH: "mset fs = filter_mset (dueItem now) (mset (sched_items s1))"
      "mset (sched_items s') = filter_mset (\<lambda>x. \<not> dueItem now x) (mset (sched_items s1))"
      "sorted_wrt retryLess fs" "sched_inv s'"
      using "1.IH" [OF f refl inv1 fs(1)] by auto
    have h: "is_heap retryLess (sched_items s)" using "1.prems"(1) by (simp add: sched_inv_def)
    have ms: "mset (sched_items s) = add_mset x (mset (sched_items s1))"
      using retry_heap.mset_heap_pop [OF h d(1)] d(4,5) by simp
    have due: "dueItem now x" using d(3,4) retry_heap.heap_pop_fst [OF h d(1)] by (simp add: dueItem_def)
    have "retryLess x y" if "y \<in> set fs" for y
    proof -
      have y: "y \<in> set (sched_items s1)"
        using that IH(1) by (metis filter_mset_eq_conv in_multiset_in_set mset_subset_eqD multiset_filter_subset)
      then have "y \<in> set (sched_items s)" using ms by (metis insert_iff set_mset_add_mset_insert set_mset_mset)
      then have "\<not> retryLess y x" using retry_heap.heap_pop_min [OF h d(1)] d(4) by simp
      moreover have "distinct (map item_sequence (x # sched_items s1))"
        using "1.prems"(1) ms distinct_seq_mset [of "sched_items s" "x # sched_items s1"]
        by (simp add: sched_inv_def)
      then have "item_sequence x \<noteq> item_sequence y" using y by (metis distinct.simps(2) image_eqI list.set_map list.simps(9))
      ultimately show ?thesis by (simp add: retryLess_neq)
    qed
    then show ?thesis using IH ms due fs(2) by simp
  qed
qed

lemma retryLadder_closed:
  "retryBaseDelay \<le> d \<Longrightarrow> d < retryMaxDelay \<Longrightarrow> retryLadder k d = min retryMaxDelay (d * 2 ^ k)"
proof (induction k arbitrary: d)
  case 0
  then show ?case by (simp add: clampDuration_def)
next
  case (Suc k)
  show ?case
  proof (cases "retryMaxDelay \<le> d * 2")
    case True
    have "0 < d" using Suc.prems(1) by (simp add: retryBaseDelay_def)
    then have "d * 2 \<le> d * 2 ^ Suc k" by simp
    with True have "retryMaxDelay \<le> d * 2 ^ Suc k" by linarith
    with True show ?thesis by (simp add: Let_def min_def)
  next
    case False
    moreover have "retryBaseDelay \<le> d * 2" using Suc.prems(1) by (simp add: retryBaseDelay_def)
    ultimately show ?thesis using Suc.IH [of "d * 2"] by (simp add: Let_def mult.assoc)
  qed
qed

lemma NextRetryDelay_closed:
  "NextRetryDelay n 0 = min retryMaxDelay (retryBaseDelay * 2 ^ nat (n - 1))"
  by (simp add: NextRetryDelay_def Let_def retryLadder_closed retryBaseDelay_def retryMaxDelay_def)

section \<open>Properties\<close>

text \<open>
  The picker fires exactly the requests whose retry time has come, each once, ordered by
  retry time and, at equal retry times, in the order they were scheduled; what stays parked is
  exactly what is not yet due, and the scheduler's invariant (heap order, unique increasing
  sequence numbers, the \<open>maxItems\<close> bound) is kept.
\<close>

theorem fireDue_exact:
  assumes "sched_inv s" and "fireDue s now = (fired, s')"
  shows "mset fired = filter_mset (dueItem now) (mset (sched_items s)) \<and>
    mset (sched_items s') = filter_mset (\<lambda>x. \<not> dueItem now x) (mset (sched_items s)) \<and>
    sorted_wrt retryLess fired \<and> sched_inv s'"
  using assms by (rule fireDue_spec)

definition demo_sched :: "nat heapRetryScheduler" where
  "demo_sched = snd (Schedule (snd (Schedule (snd (Schedule
     (NewHeapRetryScheduler True 4) (Some 1) 30)) (Some 2) 10)) (Some 3) 10)"

lemma demo_sched_inv: "sched_inv demo_sched"
  unfolding demo_sched_def by (metis prod.collapse sched_inv_Schedule sched_inv_new)

theorem fireDue_exact_witness:
  "sched_inv demo_sched \<and> map item_qr (fst (fireDue demo_sched 20)) = [2, 3] \<and>
   mset (fst (fireDue demo_sched 20)) = filter_mset (dueItem 20) (mset (sched_items demo_sched))"
proof -
  have "map item_qr (fst (fireDue demo_sched 20)) = [2, 3]" by code_simp
  then show ?thesis
    using fireDue_exact [OF demo_sched_inv, of 20 "fst (fireDue demo_sched 20)" "snd (fireDue demo_sched 20)"]
      demo_sched_inv by simp
qed

text \<open>
  In every state reachable by any interleaving of \<open>Schedule\<close>, the picker and
  \<open>Close\<close>, a positive \<open>maxItems\<close> bounds the number of parked requests, and a closed
  scheduler parks nothing.
\<close>

theorem sched_reach_bounded:
  assumes "sched_reach onClose maxItems s"
  shows "(0 < maxItems \<longrightarrow> int (sched_Len s) \<le> maxItems) \<and> (sched_closed s \<longrightarrow> sched_Len s = 0)"
  using sched_reach_inv [OF assms] by (auto simp: sched_inv_def sched_Len_def)

lemma sched_reach_Schedule: "sched_reach b m s \<Longrightarrow> sched_reach b m (snd (Schedule s qr t))"
  by (rule reach_step, assumption, rule step_schedule, rule prod.collapse [symmetric])

theorem sched_reach_bounded_witness:
  "sched_reach True 4 demo_sched \<and> int (sched_Len demo_sched) \<le> 4 \<and> sched_Len demo_sched = 3"
proof -
  have r: "sched_reach True 4 demo_sched"
    unfolding demo_sched_def by (intro sched_reach_Schedule reach_new)
  have "sched_Len demo_sched = 3" by code_simp
  then show ?thesis using r sched_reach_bounded [OF r] by simp
qed

text \<open>
  Closing hands every parked request to the close handler exactly once, earliest retry first,
  and afterwards neither \<open>Schedule\<close> nor the picker can park or fire anything.
\<close>

theorem Close_hands_over:
  assumes "sched_inv s" "\<not> sched_closed s" "sched_hasOnClose s" "Close s = (qs, s')"
  shows "mset qs = mset (map item_qr (sched_items s)) \<and>
    (\<exists>xs. qs = map item_qr xs \<and> sorted_wrt (\<lambda>a b. \<not> retryLess b a) xs) \<and>
    Close s' = ([], s') \<and> Schedule s' qr t = (False, s') \<and> fireOne s' now = None"
proof -
  have h: "is_heap retryLess (sched_items s)" using assms(1) by (simp add: sched_inv_def)
  let ?xs = "heap_drain retryLess (sched_items s)"
  have qs: "qs = map item_qr ?xs"
    and s': "s' = s\<lparr>sched_closed := True, sched_items := [], sched_cancelled := True\<rparr>"
    using assms(2-4) by (auto simp: Close_def Let_def)
  have "Close s' = ([], s') \<and> Schedule s' qr t = (False, s') \<and> fireOne s' now = None"
    by (simp add: s' Close_def Schedule_def fireOne_def split: option.splits)
  then show ?thesis
    using retry_heap.heap_drain_sorted [OF h] qs by (auto simp: mset_map)
qed

theorem Close_hands_over_witness:
  "fst (Close demo_sched) = [2, 3, 1] \<and> mset (fst (Close demo_sched)) = mset (map item_qr (sched_items demo_sched)) \<and>
   fireOne (snd (Close demo_sched)) 100 = None"
proof -
  have o: "\<not> sched_closed demo_sched" "sched_hasOnClose demo_sched" "fst (Close demo_sched) = [2, 3, 1]"
    by code_simp+
  show ?thesis
    using Close_hands_over [OF demo_sched_inv o(1,2) prod.collapse [symmetric], of None 0 100] o(3)
    by simp
qed

text \<open>
  Without an upstream hint the \<open>n\<close>-th retry waits \<open>min 120s (5s * 2^(n-1))\<close>; with
  one, the hint clamped to the same window. The delay always lies in \<open>[5s, 120s]\<close> and never
  decreases from one retry to the next.
\<close>

theorem NextRetryDelay_ladder:
  "NextRetryDelay n 0 = min retryMaxDelay (retryBaseDelay * 2 ^ nat (n - 1)) \<and>
   retryBaseDelay \<le> NextRetryDelay n ra \<and> NextRetryDelay n ra \<le> retryMaxDelay \<and>
   NextRetryDelay n ra \<le> NextRetryDelay (n + 1) ra"
proof (cases "0 < ra")
  case True
  then have "retryBaseDelay \<le> NextRetryDelay n ra \<and> NextRetryDelay n ra \<le> retryMaxDelay \<and>
     NextRetryDelay n ra \<le> NextRetryDelay (n + 1) ra"
    by (simp add: NextRetryDelay_def clampDuration_def retryBaseDelay_def retryMaxDelay_def)
  then show ?thesis using NextRetryDelay_closed by simp
next
  case False
  then have eq: "NextRetryDelay m ra = NextRetryDelay m 0" for m by (simp add: NextRetryDelay_def)
  have "(2::int) ^ nat (n - 1) \<le> 2 ^ nat (n + 1 - 1)" by (rule power_increasing) auto
  moreover have "(1::int) \<le> 2 ^ nat (n - 1)" by simp
  ultimately show ?thesis
    unfolding eq NextRetryDelay_closed retryBaseDelay_def retryMaxDelay_def
    by (intro conjI refl) linarith+
qed

text \<open>
  Jitter moves a positive delay by at most one fifth either way (up to the truncation of less
  than a nanosecond), never below zero, and is the identity when the gate is off.
\<close>

theorem ApplyRetryJitter_bounds:
  assumes "0 < d" "0 \<le> r" "r < 1"
  shows "4 / 5 * real_of_int d - 1 < real_of_int (ApplyRetryJitter True d r) \<and>
    real_of_int (ApplyRetryJitter True d r) \<le> 6 / 5 * real_of_int d \<and>
    0 \<le> ApplyRetryJitter True d r \<and> ApplyRetryJitter False d r = d"
proof -
  let ?x = "real_of_int d * (1 + 2 / 10 * (2 * r - 1))"
  have d: "0 < real_of_int d" using assms(1) by simp
  have lo: "4 / 5 * real_of_int d \<le> ?x" using d assms(2) by (simp add: algebra_simps)
  have hi: "?x \<le> 6 / 5 * real_of_int d"
    using mult_left_mono [of r 1 "real_of_int d"] d assms(3) by (simp add: algebra_simps)
  have x0: "0 \<le> ?x" using lo d by (smt (verit) divide_pos_pos mult_pos_pos)
  have J: "ApplyRetryJitter True d r = \<lfloor>?x\<rfloor>"
    using x0 assms(1) by (simp add: ApplyRetryJitter_def ApplyRetryJitterAlways_def go_trunc_def Let_def)
  have "real_of_int \<lfloor>?x\<rfloor> \<le> ?x" "?x - 1 < real_of_int \<lfloor>?x\<rfloor>" "0 \<le> \<lfloor>?x\<rfloor>"
    using x0 by linarith+
  then have "4 / 5 * real_of_int d - 1 < real_of_int \<lfloor>?x\<rfloor>" "real_of_int \<lfloor>?x\<rfloor> \<le> 6 / 5 * real_of_int d"
    using lo hi by linarith+
  then show ?thesis using J \<open>0 \<le> \<lfloor>?x\<rfloor>\<close> by (simp add: ApplyRetryJitter_def)
qed

theorem ApplyRetryJitter_bounds_witness:
  "ApplyRetryJitter True 1000 (1/2) = 1000 \<and> 0 \<le> ApplyRetryJitter True 1000 (1/2)"
proof -
  have "ApplyRetryJitter True 1000 (1/2) = 1000"
    by (simp add: ApplyRetryJitter_def ApplyRetryJitterAlways_def go_trunc_def)
  then show ?thesis using ApplyRetryJitter_bounds [of 1000 "1/2"] by simp
qed

text \<open>
  No parked retry is lost: while the scheduler is open, one iteration of the picker whose clock
  has passed an item's retry time fires that item.
\<close>

theorem run_iteration_fires:
  assumes "sched_inv s" "\<not> sched_closed s" "x \<in> set (sched_items s)" "dueItem now' x"
  shows "\<exists>fired s'. run_iteration s now now' = RunFired fired s' \<and> x \<in> set fired"
proof -
  obtain fired s' where f: "fireDue s now' = (fired, s')" by (cases "fireDue s now'")
  have "x \<in># filter_mset (dueItem now') (mset (sched_items s))" using assms(3,4) by simp
  then have "x \<in> set fired" using fireDue_spec [OF assms(1) f] by (metis set_mset_mset)
  moreover have "nextWait s now \<noteq> None" using assms(3) by (auto simp: nextWait_def split: list.splits)
  ultimately show ?thesis
    using f assms(1,2) by (auto simp: run_iteration_def sched_inv_def)
qed

theorem run_iteration_fires_witness:
  "\<exists>fired s'. run_iteration demo_sched 0 20 = RunFired fired s' \<and> sched_items demo_sched ! 0 \<in> set fired"
proof -
  have "\<not> sched_closed demo_sched" "length (sched_items demo_sched) = 3" "dueItem 20 (sched_items demo_sched ! 0)"
    by code_simp+
  then show ?thesis using run_iteration_fires [OF demo_sched_inv] by simp
qed

end
