(* ===== verification/NodeHealth.thy ===== *)
theory NodeHealth
  imports Prelude
begin

text \<open>
  The outcome reducer, \<open>domains/nodehealth/reducer.go\<close>: request and probe outcomes of a
  credential/model node become one health status, a list of effects for the adapters, and an entry
  of the bounded deduplication history. The history is the map \<open>seen\<close> plus the ring
  \<open>seenRing\<close> with its head index, both as in the code. The Go string types \<open>Phase\<close>,
  \<open>ErrorKind\<close> and \<open>Outcome\<close> are datatypes with a constructor for any other string. The
  receiver is not nil; \<open>r.now()\<close> is the argument \<open>now\<close>; the adapter is an argument that
  returns an error or not.
\<close>

datatype phase = PhaseRequest | PhaseDirectProbe | PhaseGatewayProbe | PhaseOther string

datatype nhErrorKind =
  NHNone | NHNetwork | NHTimeout | NHUpstream | NHRateLimit | NHAuth | NHQuota | NHModelBinding
| NHModelUnavailable | NHNoAvailableChannel | NHEmptyResponse | NHRequest | NHOther string

datatype outcome = OutcomeSuccess | OutcomeFailure | OutcomeCanceled | OutcomeOther string

datatype healthStatus = Healthy | Suspect | Degraded | Recovering | Quarantined

record nodeKey =
  nk_TenantID :: string
  nk_ProviderID :: int
  nk_CredentialID :: int
  nk_Model :: string

record observation =
  ob_Node :: nodeKey
  ob_AttemptID :: string
  ob_Phase :: phase
  ob_Outcome :: outcome
  ob_ErrorKind :: nhErrorKind
  ob_HTTPStatus :: int
  ob_RequestID :: string
  ob_BillingMode :: string
  ob_LatencyMs :: int
  ob_ErrorDetail :: string

datatype effectKind =
  EffectPersistNodeStatus | EffectRecordCircuitFailure | EffectRecoverCircuit
| EffectSetBindingUnavailable | EffectRestoreBinding | EffectSetCredentialUnavailable
| EffectUpdateURSM | EffectInvalidateCandidateCache | EffectScheduleProbe
| EffectCancelProbeBackoff | EffectQuarantine

record decision =
  de_Node :: nodeKey
  de_AttemptID :: string
  de_Phase :: phase
  de_Outcome :: outcome
  de_Accepted :: bool
  de_Duplicate :: bool
  de_PreviousStatus :: healthStatus
  de_Status :: healthStatus
  de_ConsecutiveFailures :: int
  de_ErrorKind :: nhErrorKind
  de_HTTPStatus :: int
  de_RequestID :: string
  de_BillingMode :: string
  de_LatencyMs :: int
  de_ErrorDetail :: string
  de_Effects :: "effectKind list"

record nodeState =
  ns_status :: healthStatus
  ns_consecutiveFailures :: int

record eventKey =
  ek_node :: nodeKey
  ek_attemptID :: string
  ek_phase :: phase

record seenEntry =
  se_key :: eventKey
  se_at :: instant
  se_active :: bool

record outcomeReducer =
  or_nodes :: "nodeKey \<rightharpoonup> nodeState"
  or_seen :: "eventKey \<rightharpoonup> decision"
  or_seenRing :: "seenEntry list"
  or_seenHead :: nat
  or_maxSeen :: int
  or_seenTTL :: duration

datatype nhError = ErrNodeRequired | ErrAttemptPhaseRequired | ErrInvalidOutcome outcome | ErrKindRequired
  | ErrApply string

definition DefaultSeenCapacity :: int where "DefaultSeenCapacity = 100000"
definition DefaultSeenTTL :: duration where "DefaultSeenTTL = 15 * go_minute"

definition NewOutcomeReducerWithConfig :: "int \<Rightarrow> duration \<Rightarrow> outcomeReducer" where
  "NewOutcomeReducerWithConfig seenCapacity seenTTL =
     \<lparr>or_nodes = Map.empty, or_seen = Map.empty, or_seenRing = [], or_seenHead = 0,
      or_maxSeen = (if seenCapacity < 1 then DefaultSeenCapacity else seenCapacity),
      or_seenTTL = (if seenTTL \<le> 0 then DefaultSeenTTL else seenTTL)\<rparr>"

definition phaseString :: "phase \<Rightarrow> string" where
  "phaseString p = (case p of PhaseRequest \<Rightarrow> ''request'' | PhaseDirectProbe \<Rightarrow> ''direct_probe''
     | PhaseGatewayProbe \<Rightarrow> ''gateway_probe'' | PhaseOther s \<Rightarrow> s)"

definition kindEmpty :: "nhErrorKind \<Rightarrow> bool" where
  "kindEmpty k \<longleftrightarrow> k = NHNone \<or> k = NHOther []"

definition validate :: "observation \<Rightarrow> nhError option" where
  "validate ob =
     (if nk_CredentialID (ob_Node ob) \<le> 0 \<or> trimSpace (nk_Model (ob_Node ob)) = [] then Some ErrNodeRequired
      else if trimSpace (ob_AttemptID ob) = [] \<or> trimSpace (phaseString (ob_Phase ob)) = [] then Some ErrAttemptPhaseRequired
      else if ob_Outcome ob \<noteq> OutcomeSuccess \<and> ob_Outcome ob \<noteq> OutcomeFailure \<and> ob_Outcome ob \<noteq> OutcomeCanceled
      then Some (ErrInvalidOutcome (ob_Outcome ob))
      else if ob_Outcome ob = OutcomeFailure \<and> kindEmpty (ob_ErrorKind ob) then Some ErrKindRequired
      else None)"

definition circuitFailureThreshold :: "string \<Rightarrow> int" where
  "circuitFailureThreshold billingMode = (if equalFold (trimSpace billingMode) ''free'' then 6 else 3)"

definition isPermanent :: "nhErrorKind \<Rightarrow> bool" where
  "isPermanent kind \<longleftrightarrow> kind = NHAuth \<or> kind = NHQuota \<or> kind = NHModelBinding"

definition isBindingScoped :: "observation \<Rightarrow> bool" where
  "isBindingScoped ob =
     (case ob_ErrorKind ob of
        NHModelBinding \<Rightarrow> True
      | NHModelUnavailable \<Rightarrow> True
      | NHNoAvailableChannel \<Rightarrow> 400 \<le> ob_HTTPStatus ob \<and> ob_HTTPStatus ob < 500
      | _ \<Rightarrow> False)"

definition effectsFor :: "observation \<Rightarrow> decision \<Rightarrow> effectKind list" where
  "effectsFor ob d =
     (if ob_Outcome ob = OutcomeCanceled \<or> ob_ErrorKind ob = NHRequest then []
      else if ob_Outcome ob = OutcomeFailure \<and> ob_ErrorKind ob = NHEmptyResponse then [EffectUpdateURSM]
      else if ob_Outcome ob = OutcomeSuccess
      then if ob_Phase ob = PhaseDirectProbe \<or> de_Status d \<noteq> Healthy then [EffectPersistNodeStatus]
           else [EffectPersistNodeStatus, EffectRecoverCircuit, EffectRestoreBinding, EffectUpdateURSM,
                 EffectInvalidateCandidateCache, EffectCancelProbeBackoff]
      else [EffectPersistNodeStatus, EffectUpdateURSM] @
        (if isBindingScoped ob
         then [EffectSetBindingUnavailable, EffectInvalidateCandidateCache, EffectScheduleProbe]
         else if isPermanent (ob_ErrorKind ob) \<or> circuitFailureThreshold (ob_BillingMode ob) \<le> de_ConsecutiveFailures d
         then [EffectRecordCircuitFailure, EffectSetBindingUnavailable, EffectSetCredentialUnavailable,
               EffectInvalidateCandidateCache, EffectScheduleProbe]
         else []) @
        (if de_Status d = Quarantined then [EffectQuarantine] else []))"

definition defaultsLocked :: "outcomeReducer \<Rightarrow> outcomeReducer" where
  "defaultsLocked r = r\<lparr>or_maxSeen := (if or_maxSeen r < 1 then DefaultSeenCapacity else or_maxSeen r),
     or_seenTTL := (if or_seenTTL r \<le> 0 then DefaultSeenTTL else or_seenTTL r)\<rparr>"

definition compactSeenLocked :: "outcomeReducer \<Rightarrow> outcomeReducer" where
  "compactSeenLocked r =
     (if or_seenHead r = 0 then r
      else if length (or_seenRing r) \<le> or_seenHead r then r\<lparr>or_seenRing := [], or_seenHead := 0\<rparr>
      else if length (or_seenRing r) div 2 \<le> or_seenHead r
      then r\<lparr>or_seenRing := drop (or_seenHead r) (or_seenRing r), or_seenHead := 0\<rparr>
      else r)"

definition rememberLocked :: "outcomeReducer \<Rightarrow> eventKey \<Rightarrow> decision \<Rightarrow> instant \<Rightarrow> outcomeReducer" where
  "rememberLocked r key d now =
     (let r1 = (if or_maxSeen r \<le> int (length (or_seenRing r)) - int (or_seenHead r)
                then r\<lparr>or_seen := (or_seen r)(se_key (or_seenRing r ! or_seenHead r) := None),
                       or_seenHead := Suc (or_seenHead r)\<rparr>
                else r);
          r2 = r1\<lparr>or_seenRing := or_seenRing r1 @ [\<lparr>se_key = key, se_at = now, se_active = True\<rparr>],
                  or_seen := (or_seen r1)(key \<mapsto> d)\<rparr>
      in compactSeenLocked r2)"

text \<open>The loop of \<open>reclaimSeenLocked\<close>.\<close>

function reclaimLoop :: "instant \<Rightarrow> outcomeReducer \<Rightarrow> outcomeReducer" where
  "reclaimLoop deadline r =
     (if or_seenHead r < length (or_seenRing r) \<and> se_at (or_seenRing r ! or_seenHead r) < deadline
      then let entry = or_seenRing r ! or_seenHead r;
               r1 = (if se_active entry then r\<lparr>or_seen := (or_seen r)(se_key entry := None)\<rparr> else r)
           in reclaimLoop deadline (r1\<lparr>or_seenHead := Suc (or_seenHead r)\<rparr>)
      else r)"
  by pat_completeness auto
termination
  by (relation "measure (\<lambda>(deadline, r). length (or_seenRing r) - or_seenHead r)") (auto simp: Let_def)

declare reclaimLoop.simps [simp del]

definition reclaimSeenLocked :: "outcomeReducer \<Rightarrow> instant \<Rightarrow> outcomeReducer" where
  "reclaimSeenLocked r now = compactSeenLocked (reclaimLoop (now - or_seenTTL r) r)"

definition eventKeyOf :: "observation \<Rightarrow> eventKey" where
  "eventKeyOf ob = \<lparr>ek_node = ob_Node ob, ek_attemptID = ob_AttemptID ob, ek_phase = ob_Phase ob\<rparr>"

definition directProbeSucceeded :: "outcomeReducer \<Rightarrow> observation \<Rightarrow> bool" where
  "directProbeSucceeded r ob =
     (case or_seen r \<lparr>ek_node = ob_Node ob, ek_attemptID = ob_AttemptID ob, ek_phase = PhaseDirectProbe\<rparr> of
        None \<Rightarrow> False | Some direct \<Rightarrow> de_Outcome direct = OutcomeSuccess)"

text \<open>The \<open>switch observation.Outcome\<close> of \<open>Reduce\<close>, on the node's state.\<close>

definition reduceState :: "outcomeReducer \<Rightarrow> observation \<Rightarrow> nodeState \<Rightarrow> nodeState" where
  "reduceState r ob st =
     (case ob_Outcome ob of
        OutcomeSuccess \<Rightarrow>
          if ob_Phase ob = PhaseDirectProbe then st\<lparr>ns_status := Recovering\<rparr>
          else if ob_Phase ob = PhaseGatewayProbe \<and> \<not> directProbeSucceeded r ob then st\<lparr>ns_status := Suspect\<rparr>
          else st\<lparr>ns_consecutiveFailures := 0, ns_status := Healthy\<rparr>
      | OutcomeFailure \<Rightarrow>
          if ob_ErrorKind ob = NHRequest \<or> ob_ErrorKind ob = NHEmptyResponse then st
          else let n = ns_consecutiveFailures st + 1
               in if isPermanent (ob_ErrorKind ob) then st\<lparr>ns_consecutiveFailures := n, ns_status := Quarantined\<rparr>
                  else let n' = (if ob_Phase ob = PhaseGatewayProbe \<and> n < 2 then 2 else n)
                       in st\<lparr>ns_consecutiveFailures := n',
                             ns_status := (if n' < circuitFailureThreshold (ob_BillingMode ob) then Suspect else Degraded)\<rparr>
      | _ \<Rightarrow> st)"

text \<open>The decision \<open>Reduce\<close> builds from the state before and after the switch.\<close>

definition newDecision :: "observation \<Rightarrow> nodeState \<Rightarrow> nodeState \<Rightarrow> decision" where
  "newDecision ob state state' =
     (let d = \<lparr>de_Node = ob_Node ob, de_AttemptID = ob_AttemptID ob, de_Phase = ob_Phase ob, de_Outcome = ob_Outcome ob,
           de_Accepted = True, de_Duplicate = False, de_PreviousStatus = ns_status state, de_Status = ns_status state',
           de_ConsecutiveFailures = ns_consecutiveFailures state', de_ErrorKind = ob_ErrorKind ob,
           de_HTTPStatus = ob_HTTPStatus ob, de_RequestID = ob_RequestID ob, de_BillingMode = ob_BillingMode ob,
           de_LatencyMs = ob_LatencyMs ob, de_ErrorDetail = ob_ErrorDetail ob, de_Effects = []\<rparr>
      in d\<lparr>de_Effects := effectsFor ob d\<rparr>)"

definition Reduce :: "outcomeReducer \<Rightarrow> observation \<Rightarrow> instant \<Rightarrow> (nhError + decision) \<times> outcomeReducer" where
  "Reduce r ob now =
     (case validate ob of Some e \<Rightarrow> (Inl e, r)
      | None \<Rightarrow>
        let r1 = reclaimSeenLocked (defaultsLocked r) now;
            key = eventKeyOf ob
        in case or_seen r1 key of
             Some previous \<Rightarrow> (Inr (previous\<lparr>de_Accepted := False, de_Duplicate := True, de_Effects := []\<rparr>), r1)
           | None \<Rightarrow>
             let state = (case or_nodes r1 (ob_Node ob) of None \<Rightarrow> \<lparr>ns_status = Healthy, ns_consecutiveFailures = 0\<rparr> | Some st \<Rightarrow> st);
                 state' = reduceState r1 ob state;
                 d = newDecision ob state state';
                 r2 = r1\<lparr>or_nodes := (or_nodes r1)(ob_Node ob \<mapsto> state')\<rparr>
             in (Inr d, rememberLocked r2 key d now))"

text \<open>
  Deactivating the newest active ring entry with the key: the backwards scan of \<open>forgetSeen\<close>
  over the live part of the ring.
\<close>

fun deactivateLast :: "eventKey \<Rightarrow> seenEntry list \<Rightarrow> seenEntry list" where
  "deactivateLast key [] = []"
| "deactivateLast key (e # es) =
     (if (\<exists>e' \<in> set es. se_active e' \<and> se_key e' = key) then e # deactivateLast key es
      else if se_active e \<and> se_key e = key then e\<lparr>se_active := False\<rparr> # es
      else e # es)"

definition forgetSeen :: "outcomeReducer \<Rightarrow> observation \<Rightarrow> outcomeReducer" where
  "forgetSeen r ob =
     (let key = eventKeyOf ob; h = or_seenHead r
      in r\<lparr>or_seen := (or_seen r)(key := None),
           or_seenRing := take h (or_seenRing r) @ deactivateLast key (drop h (or_seenRing r))\<rparr>)"

definition ReduceAndApply :: "(decision \<Rightarrow> string option) option \<Rightarrow> outcomeReducer \<Rightarrow> observation \<Rightarrow> instant \<Rightarrow>
    (nhError option \<times> decision option) \<times> outcomeReducer" where
  "ReduceAndApply adapter r ob now =
     (case Reduce r ob now of
        (Inl e, r') \<Rightarrow> ((Some e, None), r')
      | (Inr d, r') \<Rightarrow>
        (case adapter of None \<Rightarrow> ((None, Some d), r')
         | Some apply \<Rightarrow>
           if \<not> de_Accepted d then ((None, Some d), r')
           else case apply d of
                  None \<Rightarrow> ((None, Some d), r')
                | Some err \<Rightarrow> ((Some (ErrApply err), Some d),
                    if de_ErrorKind d = NHEmptyResponse then forgetSeen r' ob else r')))"

section \<open>Invariant of the deduplication history\<close>

abbreviation liveRing :: "outcomeReducer \<Rightarrow> seenEntry list" where
  "liveRing r \<equiv> drop (or_seenHead r) (or_seenRing r)"

definition activeKeys :: "seenEntry list \<Rightarrow> eventKey set" where
  "activeKeys es = se_key ` {e \<in> set es. se_active e}"

definition seen_inv :: "outcomeReducer \<Rightarrow> bool" where
  "seen_inv r \<longleftrightarrow>
     or_seenHead r \<le> length (or_seenRing r) \<and>
     length (or_seenRing r) - or_seenHead r \<le> nat (or_maxSeen r) \<and>
     length (or_seenRing r) \<le> 2 * (length (or_seenRing r) - or_seenHead r) \<and>
     1 \<le> or_maxSeen r \<and> 0 < or_seenTTL r \<and>
     dom (or_seen r) \<subseteq> activeKeys (liveRing r)"

text \<open>The part of the invariant that every step of a loop keeps; compaction restores the rest.\<close>

definition seen_pre :: "outcomeReducer \<Rightarrow> bool" where
  "seen_pre r \<longleftrightarrow>
     or_seenHead r \<le> length (or_seenRing r) \<and>
     length (or_seenRing r) - or_seenHead r \<le> nat (or_maxSeen r) \<and> 1 \<le> or_maxSeen r \<and> 0 < or_seenTTL r \<and>
     dom (or_seen r) \<subseteq> activeKeys (liveRing r)"

section \<open>Lemmas\<close>

lemma activeKeys_simps [simp]:
  "activeKeys [] = {}"
  "activeKeys (e # es) = (if se_active e then insert (se_key e) (activeKeys es) else activeKeys es)"
  "activeKeys (es @ es') = activeKeys es \<union> activeKeys es'"
  by (auto simp: activeKeys_def)

lemma seen_inv_pre: "seen_inv r \<Longrightarrow> seen_pre r"
  unfolding seen_inv_def seen_pre_def by blast

lemma compact_live [simp]: "liveRing (compactSeenLocked r) = liveRing r"
  by (simp add: compactSeenLocked_def)

lemma compact_fields [simp]:
  "or_seen (compactSeenLocked r) = or_seen r" "or_nodes (compactSeenLocked r) = or_nodes r"
  "or_maxSeen (compactSeenLocked r) = or_maxSeen r" "or_seenTTL (compactSeenLocked r) = or_seenTTL r"
  by (simp_all add: compactSeenLocked_def)

lemma compact_shape:
  assumes "or_seenHead r \<le> length (or_seenRing r)"
  defines "r' \<equiv> compactSeenLocked r"
  shows "or_seenHead r' \<le> length (or_seenRing r')"
    "length (or_seenRing r') - or_seenHead r' = length (or_seenRing r) - or_seenHead r"
    "length (or_seenRing r') \<le> 2 * (length (or_seenRing r') - or_seenHead r')"
  using assms(1) by (auto simp: r'_def compactSeenLocked_def)

lemma seen_inv_compact: "seen_pre r \<Longrightarrow> seen_inv (compactSeenLocked r)"
  unfolding seen_inv_def seen_pre_def compact_live compact_fields using compact_shape [of r] by simp

lemma seen_inv_defaults [inv_intros]: "seen_inv r \<Longrightarrow> seen_inv (defaultsLocked r)"
  by (auto simp: seen_inv_def defaultsLocked_def)

lemma defaults_id: "seen_inv r \<Longrightarrow> defaultsLocked r = r"
  by (simp add: seen_inv_def defaultsLocked_def)

lemma live_Cons:
  "or_seenHead r < length (or_seenRing r) \<Longrightarrow>
   liveRing r = or_seenRing r ! or_seenHead r # drop (Suc (or_seenHead r)) (or_seenRing r)"
  by (simp add: Cons_nth_drop_Suc)

lemma seen_pre_advance:
  assumes pre: "seen_pre r" and lt: "or_seenHead r < length (or_seenRing r)"
    and del: "dom seen' \<subseteq> dom (or_seen r)"
      "se_active (or_seenRing r ! or_seenHead r) \<longrightarrow> se_key (or_seenRing r ! or_seenHead r) \<notin> dom seen'"
  shows "seen_pre (r\<lparr>or_seen := seen', or_seenHead := Suc (or_seenHead r)\<rparr>)"
proof -
  have "dom (or_seen r) \<subseteq> activeKeys (or_seenRing r ! or_seenHead r # drop (Suc (or_seenHead r)) (or_seenRing r))"
    using pre live_Cons [OF lt] by (simp add: seen_pre_def)
  then have "dom seen' \<subseteq> activeKeys (drop (Suc (or_seenHead r)) (or_seenRing r))"
    using del by (auto split: if_splits)
  moreover have "length (or_seenRing r) - Suc (or_seenHead r) \<le> nat (or_maxSeen r)"
    using pre unfolding seen_pre_def by linarith
  ultimately show ?thesis using pre lt by (simp add: seen_pre_def)
qed

lemma seen_pre_reclaimLoop: "seen_pre r \<Longrightarrow> seen_pre (reclaimLoop deadline r)"
proof (induction deadline r rule: reclaimLoop.induct)
  case (1 deadline r)
  let ?e = "or_seenRing r ! or_seenHead r"
  let ?s = "if se_active ?e then (or_seen r)(se_key ?e := None) else or_seen r"
  show ?case
  proof (cases "or_seenHead r < length (or_seenRing r) \<and> se_at ?e < deadline")
    case True
    have "seen_pre (r\<lparr>or_seen := ?s, or_seenHead := Suc (or_seenHead r)\<rparr>)"
      using True by (intro seen_pre_advance [OF "1.prems"]) auto
    with True show ?thesis
      using "1.IH" [OF True refl refl] by (subst reclaimLoop.simps) (auto simp: Let_def)
  next
    case False
    then show ?thesis using "1.prems" by (subst reclaimLoop.simps) auto
  qed
qed

lemma reclaimLoop_nodes [simp]: "or_nodes (reclaimLoop deadline r) = or_nodes r"
  by (induction deadline r rule: reclaimLoop.induct) (subst reclaimLoop.simps, simp add: Let_def)

lemma seen_inv_reclaim [inv_intros]: "seen_inv r \<Longrightarrow> seen_inv (reclaimSeenLocked r now)"
  unfolding reclaimSeenLocked_def by (intro seen_inv_compact seen_pre_reclaimLoop seen_inv_pre)

lemma reclaim_nodes [simp]: "or_nodes (reclaimSeenLocked r now) = or_nodes r"
  by (simp add: reclaimSeenLocked_def)

lemma defaults_nodes [simp]: "or_nodes (defaultsLocked r) = or_nodes r"
  by (simp add: defaultsLocked_def)

lemma seen_inv_nodes [simp]: "seen_inv (r\<lparr>or_nodes := ns\<rparr>) = seen_inv r"
  by (simp add: seen_inv_def)

lemma seen_pre_append:
  assumes "seen_pre r" "length (or_seenRing r) - or_seenHead r < nat (or_maxSeen r)"
  shows "seen_pre (r\<lparr>or_seenRing := or_seenRing r @ [\<lparr>se_key = key, se_at = now, se_active = True\<rparr>],
     or_seen := (or_seen r)(key \<mapsto> d)\<rparr>)"
  using assms by (auto simp: seen_pre_def)

lemma seen_inv_remember [inv_intros]:
  assumes inv: "seen_inv r"
  shows "seen_inv (rememberLocked r key d now)"
proof (cases "or_maxSeen r \<le> int (length (or_seenRing r)) - int (or_seenHead r)")
  case True
  then have lt: "or_seenHead r < length (or_seenRing r)" using inv by (auto simp: seen_inv_def)
  let ?r1 = "r\<lparr>or_seen := (or_seen r)(se_key (or_seenRing r ! or_seenHead r) := None),
      or_seenHead := Suc (or_seenHead r)\<rparr>"
  have "seen_pre ?r1" using lt by (intro seen_pre_advance seen_inv_pre [OF inv]) auto
  moreover have "length (or_seenRing ?r1) - or_seenHead ?r1 < nat (or_maxSeen ?r1)"
    using inv lt by (auto simp: seen_inv_def)
  ultimately have "seen_inv (compactSeenLocked (?r1\<lparr>or_seenRing := or_seenRing ?r1 @
      [\<lparr>se_key = key, se_at = now, se_active = True\<rparr>], or_seen := (or_seen ?r1)(key \<mapsto> d)\<rparr>))"
    by (intro seen_inv_compact seen_pre_append)
  then show ?thesis using True by (simp add: rememberLocked_def Let_def)
next
  case False
  then have "length (or_seenRing r) - or_seenHead r < nat (or_maxSeen r)"
    using inv by (auto simp: seen_inv_def)
  then show ?thesis
    using False seen_inv_compact [OF seen_pre_append [OF seen_inv_pre [OF inv]]]
    by (simp add: rememberLocked_def Let_def)
qed

lemma length_deactivateLast [simp]: "length (deactivateLast key es) = length es"
  by (induction es) auto

lemma activeKeys_deactivateLast: "activeKeys es - {key} \<subseteq> activeKeys (deactivateLast key es)"
  by (induction es) auto

lemma seen_inv_forget [inv_intros]:
  assumes inv: "seen_inv r"
  shows "seen_inv (forgetSeen r ob)"
proof -
  have live: "liveRing (forgetSeen r ob) = deactivateLast (eventKeyOf ob) (liveRing r)"
    using inv by (simp add: forgetSeen_def Let_def seen_inv_def)
  have "dom (or_seen (forgetSeen r ob)) \<subseteq> activeKeys (liveRing r) - {eventKeyOf ob}"
    using inv by (auto simp: forgetSeen_def Let_def seen_inv_def split: if_splits)
  then have "dom (or_seen (forgetSeen r ob)) \<subseteq> activeKeys (liveRing (forgetSeen r ob))"
    unfolding live using activeKeys_deactivateLast by blast
  then show ?thesis using inv unfolding seen_inv_def by (simp add: forgetSeen_def Let_def)
qed

lemma seen_inv_Reduce [inv_intros]: "seen_inv r \<Longrightarrow> seen_inv (snd (Reduce r ob now))"
  by (auto simp: Reduce_def Let_def intro!: inv_intros split: option.splits)

lemma seen_inv_ReduceAndApply [inv_intros]: "seen_inv r \<Longrightarrow> seen_inv (snd (ReduceAndApply ad r ob now))"
proof -
  assume "seen_inv r"
  then have "seen_inv (snd (Reduce r ob now))" by (rule inv_intros)
  then show ?thesis
    by (auto simp: ReduceAndApply_def intro: inv_intros split: prod.splits sum.splits option.splits)
qed

lemma seen_inv_new [simp]: "seen_inv (NewOutcomeReducerWithConfig c ttl)"
  by (auto simp: seen_inv_def NewOutcomeReducerWithConfig_def DefaultSeenCapacity_def DefaultSeenTTL_def)

lemma seen_inv_bound:
  assumes "seen_inv r"
  shows "finite (dom (or_seen r))" "int (card (dom (or_seen r))) \<le> or_maxSeen r"
    "int (length (or_seenRing r)) \<le> 2 * or_maxSeen r"
proof -
  have sub: "dom (or_seen r) \<subseteq> set (map se_key (liveRing r))"
    using assms unfolding seen_inv_def by (auto simp: activeKeys_def)
  then show "finite (dom (or_seen r))" using finite_subset by blast
  have "card (dom (or_seen r)) \<le> card (set (map se_key (liveRing r)))" using sub by (intro card_mono) auto
  also have "\<dots> \<le> length (or_seenRing r) - or_seenHead r" using card_length [of "map se_key (liveRing r)"] by simp
  also have "\<dots> \<le> nat (or_maxSeen r)" using assms by (simp add: seen_inv_def)
  finally show "int (card (dom (or_seen r))) \<le> or_maxSeen r" using assms by (simp add: seen_inv_def nat_le_iff le_nat_iff)
  show "int (length (or_seenRing r)) \<le> 2 * or_maxSeen r"
    using assms unfolding seen_inv_def by linarith
qed


lemma reclaimLoop_step:
  "or_seenHead r < length (or_seenRing r) \<Longrightarrow> se_at (or_seenRing r ! or_seenHead r) < deadline \<Longrightarrow>
   reclaimLoop deadline r =
     reclaimLoop deadline (r\<lparr>or_seen := (if se_active (or_seenRing r ! or_seenHead r)
         then (or_seen r)(se_key (or_seenRing r ! or_seenHead r) := None) else or_seen r),
       or_seenHead := Suc (or_seenHead r)\<rparr>)"
  by (subst reclaimLoop.simps) (simp add: Let_def)

text \<open>Reclamation drops exactly the expired prefix of the live ring and the keys of its active entries.\<close>

lemma reclaimLoop_spec:
  "liveRing (reclaimLoop deadline r) = dropWhile (\<lambda>e. se_at e < deadline) (liveRing r) \<and>
   or_seen (reclaimLoop deadline r) =
     (\<lambda>k. if k \<in> activeKeys (takeWhile (\<lambda>e. se_at e < deadline) (liveRing r)) then None else or_seen r k) \<and>
   or_maxSeen (reclaimLoop deadline r) = or_maxSeen r \<and> or_seenTTL (reclaimLoop deadline r) = or_seenTTL r"
proof (induction deadline r rule: reclaimLoop.induct)
  case (1 deadline r)
  let ?e = "or_seenRing r ! or_seenHead r"
  show ?case
  proof (cases "or_seenHead r < length (or_seenRing r)")
    case lt: True
    show ?thesis
    proof (cases "se_at ?e < deadline")
      case True
      show ?thesis
        using "1.IH" [OF conjI [OF lt True] refl refl]
        unfolding live_Cons [OF lt] reclaimLoop_step [OF lt True]
        by (cases "se_active ?e") (simp_all add: True fun_eq_iff)
    next
      case False
      then have "reclaimLoop deadline r = r" by (subst reclaimLoop.simps) simp
      then show ?thesis using False by (simp add: live_Cons [OF lt])
    qed
  next
    case False
    then have "reclaimLoop deadline r = r" by (subst reclaimLoop.simps) simp
    then show ?thesis using False by simp
  qed
qed

lemma reclaim_spec:
  "liveRing (reclaimSeenLocked r now) = dropWhile (\<lambda>e. se_at e < now - or_seenTTL r) (liveRing r)"
  "or_seen (reclaimSeenLocked r now) =
     (\<lambda>k. if k \<in> activeKeys (takeWhile (\<lambda>e. se_at e < now - or_seenTTL r) (liveRing r)) then None else or_seen r k)"
  "or_maxSeen (reclaimSeenLocked r now) = or_maxSeen r" "or_seenTTL (reclaimSeenLocked r now) = or_seenTTL r"
  unfolding reclaimSeenLocked_def compact_live compact_fields by (simp_all add: reclaimLoop_spec)

text \<open>Remembering appends one entry, after dropping the oldest one when the history is full.\<close>

definition evicted :: "outcomeReducer \<Rightarrow> seenEntry list" where
  "evicted r = (if or_maxSeen r \<le> int (length (or_seenRing r)) - int (or_seenHead r) then take 1 (liveRing r) else [])"

lemma remember_config [simp]:
  "or_maxSeen (rememberLocked r key d now) = or_maxSeen r" "or_seenTTL (rememberLocked r key d now) = or_seenTTL r"
  "or_nodes (rememberLocked r key d now) = or_nodes r"
  by (simp_all add: rememberLocked_def Let_def)

lemma remember_spec:
  assumes "seen_inv r"
  shows "liveRing (rememberLocked r key d now) =
      drop (length (evicted r)) (liveRing r) @ [\<lparr>se_key = key, se_at = now, se_active = True\<rparr>]"
    "or_seen (rememberLocked r key d now) =
      (\<lambda>k. if k = key then Some d else if k \<in> se_key ` set (evicted r) then None else or_seen r k)"
proof -
  have full: "or_seenHead r < length (or_seenRing r)"
    if "or_maxSeen r \<le> int (length (or_seenRing r)) - int (or_seenHead r)"
    using that assms by (auto simp: seen_inv_def)
  have le: "or_seenHead r \<le> length (or_seenRing r)" using assms by (simp add: seen_inv_def)
  show "liveRing (rememberLocked r key d now) =
      drop (length (evicted r)) (liveRing r) @ [\<lparr>se_key = key, se_at = now, se_active = True\<rparr>]"
    unfolding rememberLocked_def Let_def compact_live using full le
    by (auto simp: evicted_def live_Cons add.commute min_def not_less_eq_eq)
  show "or_seen (rememberLocked r key d now) =
      (\<lambda>k. if k = key then Some d else if k \<in> se_key ` set (evicted r) then None else or_seen r k)"
    unfolding rememberLocked_def Let_def compact_fields using full
    by (auto simp: evicted_def live_Cons fun_eq_iff)
qed


text \<open>
  The history is clean for a key when the ring holds it at most once, and exactly when the map does.
  Every operation keeps it that does not forget the key; forgetting other keys is harmless.
\<close>

abbreviation keyCount :: "eventKey \<Rightarrow> seenEntry list \<Rightarrow> nat" where
  "keyCount k es \<equiv> count_list (map se_key es) k"

definition cleanKey :: "eventKey \<Rightarrow> outcomeReducer \<Rightarrow> bool" where
  "cleanKey k r \<longleftrightarrow> seen_inv r \<and> keyCount k (liveRing r) = (if or_seen r k = None then 0 else 1)"

lemma cleanKey_inv: "cleanKey k r \<Longrightarrow> seen_inv r"
  by (simp add: cleanKey_def)

lemma activeKeys_count: "k \<in> activeKeys es \<Longrightarrow> 1 \<le> keyCount k es"
  by (induction es) (auto split: if_splits)

lemma seen_active: "seen_inv r \<Longrightarrow> or_seen r k = Some d \<Longrightarrow> k \<in> activeKeys (liveRing r)"
  by (auto simp: seen_inv_def)

lemma cleanKey_reclaim:
  assumes "cleanKey k r"
  shows "cleanKey k (reclaimSeenLocked r now)"
proof -
  let ?P = "\<lambda>e. se_at e < now - or_seenTTL r"
  let ?old = "takeWhile ?P (liveRing r)" and ?kept = "dropWhile ?P (liveRing r)"
  have "keyCount k (?old @ ?kept) = (if or_seen r k = None then 0 else 1)"
    using assms by (simp add: cleanKey_def)
  then have sum: "keyCount k ?old + keyCount k ?kept = (if or_seen r k = None then 0 else 1)"
    by (simp del: takeWhile_dropWhile_id)
  have act: "k \<in> activeKeys ?old \<or> k \<in> activeKeys ?kept" if "or_seen r k \<noteq> None"
    using seen_active [OF cleanKey_inv [OF assms], of k] that activeKeys_simps(3) [of ?old ?kept] by auto
  have "keyCount k ?kept = (if k \<in> activeKeys ?old \<or> or_seen r k = None then 0 else 1)"
    using sum act activeKeys_count [of k ?old] activeKeys_count [of k ?kept] by (auto split: if_splits)
  then show ?thesis
    unfolding cleanKey_def reclaim_spec using seen_inv_reclaim [OF cleanKey_inv [OF assms]] by simp
qed

lemma evicted_cases: "evicted r = [] \<or> (\<exists>e. liveRing r = e # drop 1 (liveRing r) \<and> evicted r = [e])"
  by (cases "liveRing r") (auto simp: evicted_def)

lemma dom_remember:
  "dom (\<lambda>k. if k = key then Some d else if k \<in> A then None else m k) = insert key (dom m - A)"
  by (auto split: if_splits)

lemma evicted_split: "liveRing r = evicted r @ drop (length (evicted r)) (liveRing r)"
  using evicted_cases [of r] by auto

lemma cleanKey_remember:
  assumes cl: "cleanKey k r" and new: "or_seen r key = None"
  shows "cleanKey k (rememberLocked r key d now)"
proof -
  have inv: "seen_inv r" by (rule cleanKey_inv [OF cl])
  let ?kept = "drop (length (evicted r)) (liveRing r)"
  have "keyCount k (evicted r @ ?kept) = (if or_seen r k = None then 0 else 1)"
    using cl evicted_split [of r] unfolding cleanKey_def by metis
  then have sum: "keyCount k (evicted r) + keyCount k ?kept = (if or_seen r k = None then 0 else 1)" by simp
  have ev: "keyCount k (evicted r) = (if k \<in> se_key ` set (evicted r) then 1 else 0)"
    using evicted_cases [of r] by auto
  show ?thesis
    unfolding cleanKey_def remember_spec [OF inv]
    using seen_inv_remember [OF inv] sum ev new by (auto split: if_splits)
qed

lemma Reduce_unfold:
  fixes r now
  assumes "validate ob = None"
  defines "r1 \<equiv> reclaimSeenLocked (defaultsLocked r) now"
  shows "or_seen r1 (eventKeyOf ob) = Some p \<Longrightarrow>
      Reduce r ob now = (Inr (p\<lparr>de_Accepted := False, de_Duplicate := True, de_Effects := []\<rparr>), r1)"
    "or_seen r1 (eventKeyOf ob) = None \<Longrightarrow>
      \<exists>d st. de_Accepted d \<and> Reduce r ob now =
        (Inr d, rememberLocked (r1\<lparr>or_nodes := (or_nodes r1)(ob_Node ob \<mapsto> st)\<rparr>) (eventKeyOf ob) d now)"
  using assms by (auto simp: Reduce_def Let_def newDecision_def)

lemma cleanKey_nodes [simp]: "cleanKey k (r\<lparr>or_nodes := ns\<rparr>) = cleanKey k r"
  by (simp add: cleanKey_def)

lemma cleanKey_Reduce: "cleanKey k r \<Longrightarrow> cleanKey k (snd (Reduce r ob now))"
proof (cases "validate ob")
  case None
  assume cl: "cleanKey k r"
  then have def: "defaultsLocked r = r" by (simp add: cleanKey_def defaults_id)
  note red = Reduce_unfold [OF None, of r now, unfolded def] and cl1 = cleanKey_reclaim [OF cl, of now]
  show ?thesis
  proof (cases "or_seen (reclaimSeenLocked r now) (eventKeyOf ob)")
    case (Some p)
    then show ?thesis using red(1) [OF Some] cl1 by simp
  next
    case new: None
    then show ?thesis using red(2) [OF new] cl1 by (auto intro!: cleanKey_remember)
  qed
qed (simp add: Reduce_def)

lemma deactivateLast_keys [simp]: "map se_key (deactivateLast key es) = map se_key es"
  by (induction es) auto

lemma forget_live: "seen_inv r \<Longrightarrow> liveRing (forgetSeen r ob) = deactivateLast (eventKeyOf ob) (liveRing r)"
  by (simp add: forgetSeen_def Let_def seen_inv_def)

lemma forget_seen: "or_seen (forgetSeen r ob) = (or_seen r)(eventKeyOf ob := None)"
  by (simp add: forgetSeen_def Let_def)

lemma cleanKey_forget: "cleanKey k r \<Longrightarrow> eventKeyOf ob \<noteq> k \<Longrightarrow> cleanKey k (forgetSeen r ob)"
  using seen_inv_forget [of r ob] by (simp add: cleanKey_def forget_live forget_seen)

text \<open>
  A key that the history still holds: its entry was written at time \<open>t\<close> and at most \<open>n\<close>
  entries are newer.
\<close>

abbreviation entryOf :: "eventKey \<Rightarrow> instant \<Rightarrow> seenEntry" where
  "entryOf k t \<equiv> \<lparr>se_key = k, se_at = t, se_active = True\<rparr>"

definition tracked :: "eventKey \<Rightarrow> decision \<Rightarrow> instant \<Rightarrow> nat \<Rightarrow> outcomeReducer \<Rightarrow> bool" where
  "tracked k d t n r \<longleftrightarrow> cleanKey k r \<and> or_seen r k = Some d \<and>
     (\<exists>pre post. liveRing r = pre @ entryOf k t # post \<and> length post \<le> n)"

lemma tracked_inv: "tracked k d t n r \<Longrightarrow> seen_inv r"
  by (simp add: tracked_def cleanKey_def)

lemma tracked_nodes [simp]: "tracked k d t n (r\<lparr>or_nodes := ns\<rparr>) = tracked k d t n r"
  by (simp add: tracked_def)

lemma tracked_mono: "tracked k d t n r \<Longrightarrow> n \<le> m \<Longrightarrow> tracked k d t m r"
  unfolding tracked_def using le_trans by blast

lemma tracked_pre:
  assumes "tracked k d t n r" "liveRing r = pre @ entryOf k t # post"
  shows "k \<notin> se_key ` set pre"
proof -
  have "keyCount k (pre @ entryOf k t # post) = 1" using assms by (auto simp: tracked_def cleanKey_def)
  then have "keyCount k pre = 0" by simp
  then show ?thesis by (simp add: count_list_0_iff)
qed

lemma tracked_reclaim:
  assumes tr: "tracked k d t n r" and ttl: "now - t \<le> or_seenTTL r"
  shows "tracked k d t n (reclaimSeenLocked r now)"
proof -
  let ?P = "\<lambda>e. se_at e < now - or_seenTTL r"
  from tr obtain pre post where live: "liveRing r = pre @ entryOf k t # post" and n: "length post \<le> n"
    by (auto simp: tracked_def)
  have "\<not> ?P (entryOf k t)" using ttl by simp
  then have dw: "\<exists>pre'. dropWhile ?P (liveRing r) = pre' @ entryOf k t # post" and tw: "set (takeWhile ?P (liveRing r)) \<subseteq> set pre"
    unfolding live by (auto simp: dropWhile_append takeWhile_append dest: set_takeWhileD)
  have "k \<notin> activeKeys (takeWhile ?P (liveRing r))" using tracked_pre [OF tr live] tw by (auto simp: activeKeys_def)
  then show ?thesis
    using tr dw n cleanKey_reclaim [of k r now] unfolding tracked_def reclaim_spec by auto
qed

lemma tracked_remember:
  assumes tr: "tracked k d t n r" and room: "int n + 1 < or_maxSeen r" and new: "or_seen r key = None"
  shows "tracked k d t (Suc n) (rememberLocked r key d' now)"
proof -
  have cl: "cleanKey k r" and inv: "seen_inv r" using tr by (auto simp: tracked_def cleanKey_def)
  from tr obtain pre post where live: "liveRing r = pre @ entryOf k t # post" and n: "length post \<le> n"
    by (auto simp: tracked_def)
  have ne: "key \<noteq> k" using tr new by (auto simp: tracked_def)
  have ev: "evicted r = [] \<or> (\<exists>e pre'. pre = e # pre' \<and> evicted r = [e])"
  proof (cases pre)
    case Nil
    have "length (liveRing r) = length (or_seenRing r) - or_seenHead r" by simp
    then have "int (length (or_seenRing r)) - int (or_seenHead r) < or_maxSeen r"
      using live Nil n room inv unfolding seen_inv_def by simp
    then show ?thesis by (simp add: evicted_def)
  qed (auto simp: evicted_def live)
  have "or_seen (rememberLocked r key d' now) k = Some d"
    using ev ne tr tracked_pre [OF tr live] unfolding remember_spec [OF inv] by (auto simp: tracked_def)
  moreover have "\<exists>pre'. liveRing (rememberLocked r key d' now) = pre' @ entryOf k t # (post @ [entryOf key now])"
    unfolding remember_spec [OF inv] live using ev by auto
  ultimately show ?thesis
    using cleanKey_remember [OF cl new] n unfolding tracked_def by fastforce
qed

lemma tracked_Reduce:
  assumes tr: "tracked k d t n r" and ttl: "now - t \<le> or_seenTTL r" and room: "int n + 1 < or_maxSeen r"
  shows "tracked k d t (Suc n) (snd (Reduce r ob now))"
proof (cases "validate ob")
  case None
  have def: "defaultsLocked r = r" using tracked_inv [OF tr] by (rule defaults_id)
  note red = Reduce_unfold [OF None, of r now, unfolded def]
  have tr1: "tracked k d t n (reclaimSeenLocked r now)" by (rule tracked_reclaim [OF tr ttl])
  show ?thesis
  proof (cases "or_seen (reclaimSeenLocked r now) (eventKeyOf ob)")
    case (Some p)
    with tr1 red(1) [OF Some] show ?thesis using tracked_mono [of k d t n _ "Suc n"] by simp
  next
    case new: None
    with tr1 red(2) [OF new] room show ?thesis by (auto intro!: tracked_remember simp: reclaim_spec)
  qed
next
  case (Some e)
  with tr show ?thesis using tracked_mono [of k d t n r "Suc n"] by (simp add: Reduce_def)
qed

lemma deactivateLast_other:
  "se_key e \<noteq> key \<Longrightarrow> \<exists>pre' post'. deactivateLast key (pre @ e # post) = pre' @ e # post' \<and> length post' = length post"
proof (induction pre)
  case Nil
  then show ?case by (intro exI [of _ "[]"] exI [of _ "tl (deactivateLast key (e # post))"]) simp
next
  case (Cons x pre)
  then obtain pre' post' where ih: "deactivateLast key (pre @ e # post) = pre' @ e # post'" "length post' = length post" by blast
  have cons: "\<exists>p' q'. x # ys = p' @ e # q' \<and> length q' = length post" if "\<exists>p q. ys = p @ e # q \<and> length q = length post" for x ys
    using that by (metis append_Cons)
  have "\<exists>p' q'. x # pre' @ e # post' = p' @ e # q' \<and> length q' = length post"
    "\<exists>p' q'. x # pre @ e # post = p' @ e # q' \<and> length q' = length post"
    "\<exists>p' q'. x\<lparr>se_active := False\<rparr> # pre @ e # post = p' @ e # q' \<and> length q' = length post"
    using ih(2) by (intro cons; blast)+
  moreover have "deactivateLast key ((x # pre) @ e # post)
      \<in> {x # pre' @ e # post', x # pre @ e # post, x\<lparr>se_active := False\<rparr> # pre @ e # post}" using ih(1) by simp
  ultimately show ?case by (metis insertE singletonD)
qed

lemma tracked_forget:
  assumes tr: "tracked k d t n r" and ne: "eventKeyOf ob \<noteq> k"
  shows "tracked k d t n (forgetSeen r ob)"
proof -
  from tr obtain pre post where live: "liveRing r = pre @ entryOf k t # post" and n: "length post \<le> n"
    by (auto simp: tracked_def)
  obtain pre' post' where "liveRing (forgetSeen r ob) = pre' @ entryOf k t # post'" "length post' = length post"
    using deactivateLast_other [of "entryOf k t" "eventKeyOf ob" pre post] ne
    unfolding forget_live [OF tracked_inv [OF tr]] live by auto
  then have "\<exists>pre post. liveRing (forgetSeen r ob) = pre @ entryOf k t # post \<and> length post \<le> n" using n by metis
  then show ?thesis
    using tr cleanKey_forget [of k r ob] ne unfolding tracked_def by (simp add: forget_seen)
qed

lemma Reduce_config:
  assumes "seen_inv r"
  shows "or_maxSeen (snd (Reduce r ob now)) = or_maxSeen r" "or_seenTTL (snd (Reduce r ob now)) = or_seenTTL r"
  using assms by (auto simp: Reduce_def Let_def defaults_id reclaim_spec split: option.splits)

lemma cleanKey_new [simp]: "cleanKey k (NewOutcomeReducerWithConfig c ttl)"
  using seen_inv_new [of c ttl] by (simp add: cleanKey_def NewOutcomeReducerWithConfig_def)

lemma accepted_tracked:
  assumes cl: "cleanKey (eventKeyOf ob) r" and red: "Reduce r ob now = (Inr d, r')" and acc: "de_Accepted d"
  shows "tracked (eventKeyOf ob) d now 0 r'"
proof -
  have v: "validate ob = None" using red by (auto simp: Reduce_def split: option.splits)
  have def: "defaultsLocked r = r" using cl by (simp add: cleanKey_def defaults_id)
  note unf = Reduce_unfold [OF v, of r now, unfolded def]
  let ?r1 = "reclaimSeenLocked r now"
  have new: "or_seen ?r1 (eventKeyOf ob) = None"
    using unf(1) red acc by (cases "or_seen ?r1 (eventKeyOf ob)") auto
  from unf(2) [OF this] red obtain st
    where r': "r' = rememberLocked (?r1\<lparr>or_nodes := (or_nodes ?r1)(ob_Node ob \<mapsto> st)\<rparr>) (eventKeyOf ob) d now"
    by auto
  let ?r2 = "?r1\<lparr>or_nodes := (or_nodes ?r1)(ob_Node ob \<mapsto> st)\<rparr>"
  have cl2: "cleanKey (eventKeyOf ob) ?r2" by (simp only: cleanKey_nodes cleanKey_reclaim [OF cl])
  have "cleanKey (eventKeyOf ob) r'" unfolding r' using cl2 new by (intro cleanKey_remember) auto
  then show ?thesis unfolding tracked_def r' remember_spec [OF cleanKey_inv [OF cl2]] by auto
qed

lemma Reduce_errorKind: "Reduce r ob now = (Inr d, r') \<Longrightarrow> de_Accepted d \<Longrightarrow> de_ErrorKind d = ob_ErrorKind ob"
  by (auto simp: Reduce_def Let_def newDecision_def split: option.splits)

text \<open>\<open>ReduceAndApply\<close> is its \<open>Reduce\<close>, then at most the forgetting of an accepted empty response.\<close>

lemma ReduceAndApply_state:
  "snd (ReduceAndApply ad r ob now) = snd (Reduce r ob now) \<or>
   ad \<noteq> None \<and> ob_ErrorKind ob = NHEmptyResponse \<and> snd (ReduceAndApply ad r ob now) = forgetSeen (snd (Reduce r ob now)) ob"
  using Reduce_errorKind [of r ob now]
  by (auto simp: ReduceAndApply_def split: prod.splits sum.splits option.splits)

section \<open>Properties\<close>

text \<open>
  A run of calls as their critical sections: a \<open>Reduce\<close>, a whole \<open>ReduceAndApply\<close>
  whose adapter answers at once, and the \<open>forgetSeen\<close> of a \<open>ReduceAndApply\<close> whose
  adapter failed after other calls went through the lock.
\<close>

datatype nhOp = OpReduce observation instant | OpApply "(decision \<Rightarrow> string option) option" observation instant
  | OpForget observation

definition nh_apply :: "nhOp \<Rightarrow> outcomeReducer \<Rightarrow> outcomeReducer" where
  "nh_apply op r = (case op of OpReduce ob now \<Rightarrow> snd (Reduce r ob now)
     | OpApply ad ob now \<Rightarrow> snd (ReduceAndApply ad r ob now) | OpForget ob \<Rightarrow> forgetSeen r ob)"

lemma seen_inv_nh_run: "seen_inv r \<Longrightarrow> seen_inv (fold nh_apply ops r)"
  by (induction ops arbitrary: r) (auto simp: nh_apply_def intro!: inv_intros split: nhOp.splits)

lemma forget_config [simp]: "or_maxSeen (forgetSeen r ob) = or_maxSeen r" "or_seenTTL (forgetSeen r ob) = or_seenTTL r"
  by (simp_all add: forgetSeen_def Let_def)

lemma nh_apply_config:
  "seen_inv r \<Longrightarrow> or_maxSeen (nh_apply op r) = or_maxSeen r \<and> or_seenTTL (nh_apply op r) = or_seenTTL r"
proof (cases op)
  case (OpApply ad ob now)
  assume "seen_inv r"
  then show ?thesis
    using OpApply ReduceAndApply_state [of ad r ob now] Reduce_config [of r ob now] by (auto simp: nh_apply_def)
qed (simp_all add: nh_apply_def Reduce_config)

lemma nh_run_config:
  "seen_inv r \<Longrightarrow> or_maxSeen (fold nh_apply ops r) = or_maxSeen r \<and> or_seenTTL (fold nh_apply ops r) = or_seenTTL r"
proof (induction ops arbitrary: r)
  case (Cons op ops)
  have "seen_inv (nh_apply op r)" using seen_inv_nh_run [of r "[op]"] Cons.prems by simp
  then show ?case using Cons.IH nh_apply_config [OF Cons.prems] by simp
qed simp

text \<open>The operations that may forget a key, and the instant of an operation that reads the clock.\<close>

fun mayForget :: "eventKey \<Rightarrow> nhOp \<Rightarrow> bool" where
  "mayForget k (OpReduce ob now) = False"
| "mayForget k (OpApply ad ob now) = (eventKeyOf ob = k \<and> ad \<noteq> None \<and> ob_ErrorKind ob = NHEmptyResponse)"
| "mayForget k (OpForget ob) = (eventKeyOf ob = k)"

fun opBy :: "instant \<Rightarrow> nhOp \<Rightarrow> bool" where
  "opBy T (OpReduce ob now) = (now \<le> T)" | "opBy T (OpApply ad ob now) = (now \<le> T)" | "opBy T (OpForget ob) = True"

lemma cleanKey_apply: "cleanKey k r \<Longrightarrow> \<not> mayForget k op \<Longrightarrow> cleanKey k (nh_apply op r)"
proof (cases op)
  case (OpApply ad ob now)
  assume "cleanKey k r" "\<not> mayForget k op"
  then show ?thesis using OpApply ReduceAndApply_state [of ad r ob now] cleanKey_Reduce [of k r ob now] cleanKey_forget [of k "snd (Reduce r ob now)" ob]
    by (auto simp: nh_apply_def)
qed (auto simp: nh_apply_def cleanKey_Reduce cleanKey_forget)

lemma cleanKey_run: "cleanKey k r \<Longrightarrow> \<forall>op \<in> set ops. \<not> mayForget k op \<Longrightarrow> cleanKey k (fold nh_apply ops r)"
  by (induction ops arbitrary: r) (auto simp: cleanKey_apply)

lemma tracked_apply:
  assumes tr: "tracked k d t n r" and op: "\<not> mayForget k op" "opBy (t + or_seenTTL r) op" and room: "int n + 1 < or_maxSeen r"
  shows "tracked k d t (Suc n) (nh_apply op r)"
proof (cases op)
  case (OpReduce ob now)
  then show ?thesis using tracked_Reduce [OF tr _ room, of now ob] op by (simp add: nh_apply_def)
next
  case (OpApply ad ob now)
  then have "tracked k d t (Suc n) (snd (Reduce r ob now))" using tracked_Reduce [OF tr _ room, of now ob] op by simp
  then show ?thesis using OpApply op ReduceAndApply_state [of ad r ob now] tracked_forget [of k d t "Suc n" "snd (Reduce r ob now)" ob]
    by (auto simp: nh_apply_def)
next
  case (OpForget ob)
  then show ?thesis using tracked_mono [OF tracked_forget [OF tr, of ob], of "Suc n"] op by (simp add: nh_apply_def)
qed

lemma tracked_run:
  assumes "tracked k d t n r" "\<forall>op \<in> set ops. \<not> mayForget k op \<and> opBy (t + or_seenTTL r) op"
    "int n + int (length ops) < or_maxSeen r"
  shows "tracked k d t (n + length ops) (fold nh_apply ops r)"
  using assms
proof (induction ops arbitrary: n r)
  case (Cons op ops)
  have "tracked k d t (Suc n) (nh_apply op r)" using Cons.prems by (intro tracked_apply) auto
  then have "tracked k d t (Suc n + length ops) (fold nh_apply ops (nh_apply op r))"
    using Cons.prems nh_apply_config [OF tracked_inv [OF Cons.prems(1)], of op] by (intro Cons.IH) auto
  then show ?case by simp
qed simp

text \<open>
  The deduplication history is bounded: after any sequence of \<open>Reduce\<close>,
  \<open>ReduceAndApply\<close> and \<open>forgetSeen\<close> calls on a fresh reducer, whatever the clock reads and the adapters answer,
  the map holds at most the configured capacity of decisions and the ring, slots already skipped
  included, at most twice that.
\<close>
theorem seen_history_bounded:
  fixes capacity ttl ops
  defines "r \<equiv> fold nh_apply ops (NewOutcomeReducerWithConfig capacity ttl)"
    and "bound \<equiv> (if capacity < 1 then DefaultSeenCapacity else capacity)"
  shows "finite (dom (or_seen r)) \<and> int (card (dom (or_seen r))) \<le> bound \<and> int (length (or_seenRing r)) \<le> 2 * bound"
proof -
  have "seen_inv r" unfolding r_def by (intro seen_inv_nh_run) simp
  moreover have "or_maxSeen r = bound"
    unfolding r_def by (simp add: nh_run_config) (simp add: NewOutcomeReducerWithConfig_def bound_def)
  ultimately show ?thesis using seen_inv_bound by metis
qed


text \<open>
  C16.
  Replay suppression: take any history of calls on a fresh reducer, failed adapters included, in
  which no call forgot the event key of an observation that is then accepted at time \<open>t\<close>. As
  long as fewer further calls than the capacity went through, none of them forgot that key, and the
  clock is within the TTL of \<open>t\<close>, a valid observation with the same node, attempt and phase
  handed to \<open>ReduceAndApply\<close> is a duplicate whatever the adapter: it is not accepted, nothing
  is applied, it repeats the recorded status and leaves every node's state as it was.
\<close>
theorem replay_is_suppressed:
  fixes capacity ttl history
  defines "r \<equiv> fold nh_apply history (NewOutcomeReducerWithConfig capacity ttl)"
  assumes first: "Reduce r ob t = (Inr d, r')" and acc: "de_Accepted d"
    and keep: "\<forall>op \<in> set (history @ between). \<not> mayForget (eventKeyOf ob) op"
    and room: "int (length between) < or_maxSeen r"
    and time: "\<forall>op \<in> set between. opBy (t + or_seenTTL r) op" "t' \<le> t + or_seenTTL r"
    and replay: "validate ob' = None" "eventKeyOf ob' = eventKeyOf ob"
  shows "\<exists>d' r''. ReduceAndApply adapter (fold nh_apply between r') ob' t' = ((None, Some d'), r'') \<and>
           de_Duplicate d' \<and> \<not> de_Accepted d' \<and> de_Effects d' = [] \<and> de_Status d' = de_Status d \<and>
           or_nodes r'' = or_nodes (fold nh_apply between r')"
proof -
  have cl: "cleanKey (eventKeyOf ob) r" unfolding r_def using keep by (intro cleanKey_run) auto
  have tr: "tracked (eventKeyOf ob) d t 0 r'" by (rule accepted_tracked [OF cl first acc])
  have cfg: "or_maxSeen r' = or_maxSeen r" "or_seenTTL r' = or_seenTTL r"
    using Reduce_config [OF cleanKey_inv [OF cl], of ob t] first by simp_all
  let ?s = "fold nh_apply between r'"
  have trs: "tracked (eventKeyOf ob) d t (0 + length between) ?s"
    using tr room time(1) keep by (intro tracked_run) (auto simp: cfg)
  have "or_seenTTL ?s = or_seenTTL r" using nh_run_config [OF tracked_inv [OF tr]] cfg by simp
  then have tr2: "tracked (eventKeyOf ob) d t (0 + length between) (reclaimSeenLocked ?s t')"
    using time(2) by (intro tracked_reclaim [OF trs]) simp
  have "or_seen (reclaimSeenLocked (defaultsLocked ?s) t') (eventKeyOf ob') = Some d"
    using tr2 defaults_id [OF tracked_inv [OF trs]] replay(2) by (simp add: tracked_def)
  from Reduce_unfold(1) [OF replay(1) this] show ?thesis
    by (simp add: ReduceAndApply_def split: option.splits)
qed

abbreviation demoNode :: nodeKey where
  "demoNode \<equiv> \<lparr>nk_TenantID = ''t'', nk_ProviderID = 1, nk_CredentialID = 7, nk_Model = ''m''\<rparr>"

abbreviation demoObs :: "string \<Rightarrow> outcome \<Rightarrow> nhErrorKind \<Rightarrow> observation" where
  "demoObs attempt oc kind \<equiv> \<lparr>ob_Node = demoNode, ob_AttemptID = attempt, ob_Phase = PhaseRequest, ob_Outcome = oc,
     ob_ErrorKind = kind, ob_HTTPStatus = 502, ob_RequestID = ''r'', ob_BillingMode = ''paid'', ob_LatencyMs = 10,
     ob_ErrorDetail = []\<rparr>"

lemmas nh_eval = Reduce_def newDecision_def validate_def kindEmpty_def trimSpace_def isSpace_def phaseString_def Let_def defaultsLocked_def
  reclaimSeenLocked_def reclaimLoop.simps compactSeenLocked_def eventKeyOf_def reduceState_def isPermanent_def
  isBindingScoped_def circuitFailureThreshold_def equalFold_def asciiLower_def effectsFor_def rememberLocked_def
  NewOutcomeReducerWithConfig_def

text \<open>
  At the witness an earlier empty response was forgotten by its failed adapter, and between the
  accepted failure and its replay another adapter fails.
\<close>

theorem replay_is_suppressed_witness:
  fixes a0 a1 a2 bad r0
  defines "a0 \<equiv> demoObs ''a0'' OutcomeFailure NHEmptyResponse" and "a1 \<equiv> demoObs ''a1'' OutcomeFailure NHNetwork"
    and "a2 \<equiv> demoObs ''a2'' OutcomeFailure NHEmptyResponse" and "bad \<equiv> Some (\<lambda>d. Some ''db down'')"
  defines "r0 \<equiv> fold nh_apply [OpApply bad a0 5] (NewOutcomeReducerWithConfig 2 50)"
  shows "\<exists>d r d' r''. Reduce r0 a1 10 = (Inr d, r) \<and> de_Accepted d \<and>
      ReduceAndApply bad (fold nh_apply [OpApply bad a2 20] r) a1 60 = ((None, Some d'), r'') \<and> de_Duplicate d' \<and>
      \<not> de_Accepted d' \<and> de_Effects d' = [] \<and> de_Status d' = de_Status d \<and>
      or_nodes r'' = or_nodes (fold nh_apply [OpApply bad a2 20] r)"
proof -
  let ?H = "[OpApply bad a0 5]" and ?B = "[OpApply bad a2 20]"
  have v: "validate a1 = None" by (simp add: a1_def nh_eval)
  have "seen_inv r0" unfolding r0_def by (intro seen_inv_nh_run) simp
  have cfg: "or_maxSeen r0 = 2 \<and> or_seenTTL r0 = 50"
    unfolding r0_def using nh_run_config [OF seen_inv_new, of ?H 2 50] by (simp add: NewOutcomeReducerWithConfig_def)
  have "cleanKey (eventKeyOf a1) r0" unfolding r0_def by (intro cleanKey_run) (simp_all add: a0_def a1_def eventKeyOf_def)
  have "or_seen r0 = Map.empty"
    by (simp add: r0_def nh_apply_def ReduceAndApply_def a0_def bad_def nh_eval forgetSeen_def)
  then have "or_seen (reclaimSeenLocked (defaultsLocked r0) 10) (eventKeyOf a1) = None"
    using defaults_id [OF \<open>seen_inv r0\<close>] by (simp add: reclaim_spec)
  from Reduce_unfold(2) [OF v this] obtain d r where d: "Reduce r0 a1 10 = (Inr d, r)" "de_Accepted d" by blast
  show ?thesis
    using d replay_is_suppressed [of ?H 2 50 a1 10 d r ?B 60 a1 bad, folded r0_def] v cfg
    by (fastforce simp: a0_def a1_def a2_def eventKeyOf_def)
qed

definition nodeStateOf :: "outcomeReducer \<Rightarrow> nodeKey \<Rightarrow> nodeState" where
  "nodeStateOf r k = (case or_nodes r k of None \<Rightarrow> \<lparr>ns_status = Healthy, ns_consecutiveFailures = 0\<rparr> | Some st \<Rightarrow> st)"

lemma effectsFor_Effects [simp]: "effectsFor ob (d\<lparr>de_Effects := es\<rparr>) = effectsFor ob d"
  by (simp add: effectsFor_def)

lemma newDecision_simps [simp]:
  "de_Accepted (newDecision ob st st')" "\<not> de_Duplicate (newDecision ob st st')"
  "de_Status (newDecision ob st st') = ns_status st'"
  "de_ConsecutiveFailures (newDecision ob st st') = ns_consecutiveFailures st'"
  "de_Effects (newDecision ob st st') = effectsFor ob (newDecision ob st st')"
  unfolding newDecision_def Let_def effectsFor_Effects by simp_all

lemma Reduce_accepted:
  assumes "Reduce r ob now = (Inr d, r')" "de_Accepted d"
  shows "validate ob = None"
    "de_Effects d = effectsFor ob d"
    "nodeStateOf r' (ob_Node ob) = reduceState (reclaimSeenLocked (defaultsLocked r) now) ob (nodeStateOf r (ob_Node ob))"
    "de_Status d = ns_status (nodeStateOf r' (ob_Node ob))"
    "de_ConsecutiveFailures d = ns_consecutiveFailures (nodeStateOf r' (ob_Node ob))"
    "\<And>k. k \<noteq> ob_Node ob \<Longrightarrow> or_nodes r' k = or_nodes r k"
  using assms
  by (auto simp: Reduce_def Let_def nodeStateOf_def split: option.splits)

text \<open>
  Status ladder and circuit agree. An accepted failure that is neither binding scoped nor a
  request or empty-response error records a circuit failure, together with making the credential
  unavailable, exactly when the node ends up degraded or quarantined, that is at three consecutive
  failures (six for free credentials) or at once for a permanent error; binding-scoped failures
  never touch the circuit or the credential.
\<close>
theorem circuit_follows_status:
  assumes "Reduce r ob now = (Inr d, r')" "de_Accepted d" "ob_Outcome ob = OutcomeFailure"
    "ob_ErrorKind ob \<noteq> NHRequest" "ob_ErrorKind ob \<noteq> NHEmptyResponse"
  shows "(EffectRecordCircuitFailure \<in> set (de_Effects d) \<longleftrightarrow>
            \<not> isBindingScoped ob \<and> de_Status d \<in> {Degraded, Quarantined}) \<and>
         (EffectSetCredentialUnavailable \<in> set (de_Effects d) \<longleftrightarrow> EffectRecordCircuitFailure \<in> set (de_Effects d)) \<and>
         (de_Status d = Degraded \<longrightarrow> circuitFailureThreshold (ob_BillingMode ob) \<le> de_ConsecutiveFailures d) \<and>
         (de_Status d = Quarantined \<longleftrightarrow> EffectQuarantine \<in> set (de_Effects d)) \<and>
         EffectUpdateURSM \<in> set (de_Effects d)"
  using Reduce_accepted [OF assms(1,2)] assms(3-)
  by (auto simp: effectsFor_def reduceState_def Let_def split: if_splits)

lemma circuit_follows_status_witness:
  defines "a1 \<equiv> demoObs ''a1'' OutcomeFailure NHAuth"
  shows "\<exists>d r'. Reduce (NewOutcomeReducerWithConfig 2 50) a1 10 = (Inr d, r') \<and> de_Accepted d \<and>
     EffectRecordCircuitFailure \<in> set (de_Effects d) \<and> EffectSetCredentialUnavailable \<in> set (de_Effects d)"
proof -
  have "\<exists>d r. Reduce (NewOutcomeReducerWithConfig 2 50) a1 10 = (Inr d, r) \<and> de_Accepted d \<and> de_Status d = Quarantined"
    by (simp add: a1_def nh_eval)
  then obtain d r where d: "Reduce (NewOutcomeReducerWithConfig 2 50) a1 10 = (Inr d, r)" "de_Accepted d"
    "de_Status d = Quarantined" by blast
  have "\<not> isBindingScoped a1" by (simp add: a1_def nh_eval)
  then show ?thesis using circuit_follows_status [OF d(1,2)] d by (fastforce simp: a1_def)
qed

lemma effectsFor_recovery:
  assumes "eff \<in> {EffectRecoverCircuit, EffectRestoreBinding, EffectCancelProbeBackoff}" "eff \<in> set (effectsFor ob d)"
  shows "ob_Outcome ob = OutcomeSuccess \<and> ob_Phase ob \<noteq> PhaseDirectProbe \<and> de_Status d = Healthy"
  using assms unfolding effectsFor_def by (auto split: if_splits)

text \<open>
  Recovery needs evidence. An accepted observation recovers the circuit, restores the binding
  or cancels the probe backoff only when it is a success that leaves the node healthy with no
  consecutive failures, and never on a direct probe; on a gateway probe only when the history holds
  a successful direct probe of the same node and attempt.
\<close>
theorem recovery_needs_evidence:
  assumes "Reduce r ob now = (Inr d, r')" "de_Accepted d"
    "eff \<in> {EffectRecoverCircuit, EffectRestoreBinding, EffectCancelProbeBackoff}" "eff \<in> set (de_Effects d)"
  shows "ob_Outcome ob = OutcomeSuccess \<and> ob_Phase ob \<noteq> PhaseDirectProbe \<and> de_Status d = Healthy \<and>
    nodeStateOf r' (ob_Node ob) = \<lparr>ns_status = Healthy, ns_consecutiveFailures = 0\<rparr> \<and>
    (ob_Phase ob \<noteq> PhaseGatewayProbe \<or> directProbeSucceeded (reclaimSeenLocked (defaultsLocked r) now) ob)"
proof -
  note acc = Reduce_accepted [OF assms(1,2)]
  have succ: "ob_Outcome ob = OutcomeSuccess \<and> ob_Phase ob \<noteq> PhaseDirectProbe \<and> de_Status d = Healthy"
    using assms(3,4) by (intro effectsFor_recovery) (auto simp: acc(2))
  moreover have "ns_status (reduceState (reclaimSeenLocked (defaultsLocked r) now) ob (nodeStateOf r (ob_Node ob))) = Healthy"
    using succ acc(3,4) by simp
  then have "nodeStateOf r' (ob_Node ob) = \<lparr>ns_status = Healthy, ns_consecutiveFailures = 0\<rparr> \<and>
    (ob_Phase ob \<noteq> PhaseGatewayProbe \<or> directProbeSucceeded (reclaimSeenLocked (defaultsLocked r) now) ob)"
    using succ unfolding acc(3) by (auto simp: reduceState_def split: if_splits)
  ultimately show ?thesis by blast
qed

lemma recovery_needs_evidence_witness:
  defines "dp \<equiv> (demoObs ''p'' OutcomeSuccess NHNone)\<lparr>ob_Phase := PhaseDirectProbe\<rparr>"
    and "gp \<equiv> (demoObs ''p'' OutcomeSuccess NHNone)\<lparr>ob_Phase := PhaseGatewayProbe\<rparr>"
  shows "\<exists>d r'. Reduce (snd (Reduce (NewOutcomeReducerWithConfig 4 50) dp 5)) gp 10 = (Inr d, r') \<and>
     EffectRecoverCircuit \<in> set (de_Effects d) \<and> de_Status d = Healthy"
proof -
  have "\<exists>d r'. Reduce (snd (Reduce (NewOutcomeReducerWithConfig 4 50) dp 5)) gp 10 = (Inr d, r') \<and> de_Accepted d \<and>
     EffectRecoverCircuit \<in> set (de_Effects d)"
    by (simp add: dp_def gp_def nh_eval directProbeSucceeded_def)
  then show ?thesis using recovery_needs_evidence [of _ gp 10] by blast
qed

text \<open>
  Isolation of nodes: whatever the observation, \<open>Reduce\<close> changes the state of the observed
  node only, and a cancellation, a request error or an empty response leaves that one unchanged
  too, so its status and failure count are what they were.
\<close>
theorem reduce_isolates_nodes:
  assumes "Reduce r ob now = (Inr d, r')"
  shows "(\<forall>k. k = ob_Node ob \<or> or_nodes r' k = or_nodes r k) \<and>
    (ob_Outcome ob = OutcomeCanceled \<or>
       ob_Outcome ob = OutcomeFailure \<and> ob_ErrorKind ob \<in> {NHRequest, NHEmptyResponse} \<longrightarrow>
     nodeStateOf r' (ob_Node ob) = nodeStateOf r (ob_Node ob))"
proof (cases "de_Accepted d")
  case True
  then show ?thesis using Reduce_accepted [OF assms] by (auto simp: reduceState_def)
next
  case False
  then have "or_nodes r' = or_nodes r" using assms by (auto simp: Reduce_def Let_def split: option.splits)
  then show ?thesis by (simp add: nodeStateOf_def)
qed

lemma reduce_isolates_nodes_witness:
  defines "a1 \<equiv> demoObs ''a1'' OutcomeCanceled NHNone"
  shows "\<exists>d r'. Reduce (NewOutcomeReducerWithConfig 2 50) a1 10 = (Inr d, r') \<and>
     nodeStateOf r' (ob_Node a1) = nodeStateOf (NewOutcomeReducerWithConfig 2 50) (ob_Node a1)"
proof -
  have "\<exists>d r. Reduce (NewOutcomeReducerWithConfig 2 50) a1 10 = (Inr d, r)" by (simp add: a1_def nh_eval)
  then show ?thesis using reduce_isolates_nodes [of _ a1 10] by (fastforce simp: a1_def)
qed

text \<open>
  A replay can slip through after a failed apply. With capacity two, an empty response whose
  adapter fails is forgotten and its ring slot deactivated; the replay is accepted; the next new
  observation evicts the deactivated slot by capacity, and with it the decision of the replay, so
  that a second replay at the same instant is accepted again although its entry is the newest but one.
\<close>
theorem capacity_eviction_drops_replayed:
  defines "k \<equiv> demoObs ''k'' OutcomeFailure NHEmptyResponse" and "j \<equiv> demoObs ''j'' OutcomeFailure NHNetwork"
    and "bad \<equiv> (\<lambda>d. Some ''db down'')"
  shows "let r1 = snd (ReduceAndApply (Some bad) (NewOutcomeReducerWithConfig 2 50) k 10);
      (x2, r2) = Reduce r1 k 10;
      r3 = snd (Reduce r2 j 10);
      (x4, r4) = Reduce r3 k 10
    in (case x2 of Inl e \<Rightarrow> False | Inr d2 \<Rightarrow> de_Accepted d2) \<and>
       (case x4 of Inl e \<Rightarrow> False | Inr d4 \<Rightarrow> de_Accepted d4 \<and> \<not> de_Duplicate d4) \<and>
       map (\<lambda>e. (ek_attemptID (se_key e), se_active e)) (liveRing r3) = [(''k'', True), (''j'', True)] \<and>
       or_seen r3 (eventKeyOf k) = None"
proof -
  let ?st = "\<lparr>ns_status = Healthy, ns_consecutiveFailures = 0\<rparr>"
    and ?sj = "\<lparr>ns_status = Suspect, ns_consecutiveFailures = 1\<rparr>"
  let ?dk = "newDecision k ?st ?st" and ?dj = "newDecision j ?st ?sj"
  let ?e = "\<lambda>ob b. \<lparr>se_key = eventKeyOf ob, se_at = 10, se_active = b\<rparr>"
  let ?r1 = "\<lparr>or_nodes = [demoNode \<mapsto> ?st], or_seen = Map.empty, or_seenRing = [?e k False], or_seenHead = 0,
      or_maxSeen = 2, or_seenTTL = 50\<rparr>"
  let ?r2 = "?r1\<lparr>or_seen := [eventKeyOf k \<mapsto> ?dk], or_seenRing := [?e k False, ?e k True]\<rparr>"
  let ?r3 = "?r1\<lparr>or_nodes := [demoNode \<mapsto> ?sj], or_seen := [eventKeyOf j \<mapsto> ?dj], or_seenRing := [?e k True, ?e j True]\<rparr>"
  note step = Reduce_def validate_def kindEmpty_def trimSpace_def isSpace_def phaseString_def Let_def defaultsLocked_def
    reclaimSeenLocked_def reclaimLoop.simps compactSeenLocked_def reduceState_def isPermanent_def rememberLocked_def
    circuitFailureThreshold_def equalFold_def asciiLower_def
  have 1: "snd (ReduceAndApply (Some bad) (NewOutcomeReducerWithConfig 2 50) k 10) = ?r1"
    by (simp add: ReduceAndApply_def forgetSeen_def NewOutcomeReducerWithConfig_def k_def bad_def step newDecision_def)
  have 2: "Reduce ?r1 k 10 = (Inr ?dk, ?r2)" by (simp add: step k_def)
  have ne: "eventKeyOf j \<noteq> eventKeyOf k" by (simp add: k_def j_def eventKeyOf_def)
  have 3: "snd (Reduce ?r2 j 10) = ?r3" using ne by (simp add: step j_def k_def)
  have 4: "fst (Reduce ?r3 k 10) = Inr (newDecision k ?sj ?sj)" using ne by (simp add: step k_def j_def)
  have "ek_attemptID (eventKeyOf k) = ''k''" "ek_attemptID (eventKeyOf j) = ''j''"
    by (simp_all add: k_def j_def eventKeyOf_def)
  moreover obtain r4 where 5: "Reduce ?r3 k 10 = (Inr (newDecision k ?sj ?sj), r4)" using 4 by (metis prod.collapse)
  ultimately show ?thesis unfolding Let_def 1 2 prod.case 3 5 using ne by simp
qed

end
