(* ===== verification/ErrorKinds.thy ===== *)
theory ErrorKinds
  imports NodeHealth
begin

text \<open>
  The error taxonomy of \<open>errorsx\<close>: the kinds of \<open>classify.go\<close> and \<open>restclasses.go\<close> as one
  datatype (with \<open>KindNone\<close> for the empty string and \<open>KindOther\<close> for a label outside the
  taxonomy; \<open>KindFirstByteTimeout\<close>, \<open>KindReplyLoop\<close> and \<open>KindAccountRestricted\<close> are those of
  \<open>restclasses.go\<close>), the status-only classifiers, the penalty matrix of \<open>penalty.go\<close>, the recovery
  projection of \<open>recovery_projection.go\<close>, the automatic probe policy of
  \<open>automatic_probe_policy.go\<close>, and the translation of a kind to the node-health reducer and back
  (\<open>executor_nodehealth.go\<close>). The classifiers that match regular expressions against a body are
  not part of it.
\<close>

datatype errorKind =
  KindTransient | KindTimeout | KindNetwork | KindRateLimit | KindAuth | KindQuota | KindUpstreamDown
| KindCanceled | KindClientBug | KindRequestRejected | KindModelUnavailable | KindConcurrent | KindAuthRevoked
| KindQuotaPeriodic | KindQuotaBalance | KindQuotaPermanent | KindModelNotFound | KindStreamTimeout
| KindToolCallIdMismatch | KindContextLength | KindUnsupportedFeature | KindModelDeprecated | KindContentFilter
| KindEmptyResponse | KindConversion | KindUpstreamContextLoss | KindUpstreamOverloaded | KindNoAvailableChannel
| KindCircuitOpen | KindFpSlotSaturated | KindFirstByteTimeout | KindReplyLoop | KindAccountRestricted
| KindNone | KindOther string

definition kindString :: "errorKind \<Rightarrow> string" where
  "kindString k = (case k of
     KindTransient \<Rightarrow> ''transient'' | KindTimeout \<Rightarrow> ''timeout'' | KindNetwork \<Rightarrow> ''network''
   | KindRateLimit \<Rightarrow> ''rate_limit'' | KindAuth \<Rightarrow> ''auth'' | KindQuota \<Rightarrow> ''quota''
   | KindUpstreamDown \<Rightarrow> ''upstream_down'' | KindCanceled \<Rightarrow> ''canceled'' | KindClientBug \<Rightarrow> ''client_bug''
   | KindRequestRejected \<Rightarrow> ''request_rejected'' | KindModelUnavailable \<Rightarrow> ''model_unavailable''
   | KindConcurrent \<Rightarrow> ''concurrent'' | KindAuthRevoked \<Rightarrow> ''auth_revoked''
   | KindQuotaPeriodic \<Rightarrow> ''quota_periodic'' | KindQuotaBalance \<Rightarrow> ''quota_balance''
   | KindQuotaPermanent \<Rightarrow> ''quota_permanent'' | KindModelNotFound \<Rightarrow> ''model_not_found''
   | KindStreamTimeout \<Rightarrow> ''stream_timeout'' | KindToolCallIdMismatch \<Rightarrow> ''tool_call_id_mismatch''
   | KindContextLength \<Rightarrow> ''context_length_exceeded'' | KindUnsupportedFeature \<Rightarrow> ''unsupported_feature''
   | KindModelDeprecated \<Rightarrow> ''model_deprecated'' | KindContentFilter \<Rightarrow> ''content_filter''
   | KindEmptyResponse \<Rightarrow> ''empty_response'' | KindConversion \<Rightarrow> ''conversion_error''
   | KindUpstreamContextLoss \<Rightarrow> ''upstream_context_loss'' | KindUpstreamOverloaded \<Rightarrow> ''upstream_overloaded''
   | KindNoAvailableChannel \<Rightarrow> ''no_available_channel'' | KindCircuitOpen \<Rightarrow> ''circuit_open''
   | KindFpSlotSaturated \<Rightarrow> ''fp_slot_saturated'' | KindFirstByteTimeout \<Rightarrow> ''first_byte_timeout''
   | KindReplyLoop \<Rightarrow> ''reply_loop'' | KindAccountRestricted \<Rightarrow> ''account_restricted''
   | KindNone \<Rightarrow> [] | KindOther s \<Rightarrow> s)"

definition AllErrorKinds :: "errorKind list" where
  "AllErrorKinds =
     [KindTransient, KindTimeout, KindNetwork, KindRateLimit, KindAuth, KindQuota, KindUpstreamDown,
      KindCanceled, KindClientBug, KindRequestRejected, KindModelUnavailable, KindConcurrent, KindAuthRevoked,
      KindQuotaPeriodic, KindQuotaBalance, KindQuotaPermanent, KindModelNotFound, KindStreamTimeout,
      KindToolCallIdMismatch, KindContextLength, KindUnsupportedFeature, KindModelDeprecated, KindContentFilter,
      KindEmptyResponse, KindConversion, KindUpstreamContextLoss, KindUpstreamOverloaded, KindNoAvailableChannel,
      KindCircuitOpen, KindFpSlotSaturated, KindFirstByteTimeout, KindReplyLoop, KindAccountRestricted]"

section \<open>Classification by status (classify.go)\<close>

definition isRequestRejectionStatus :: "int \<Rightarrow> bool" where
  "isRequestRejectionStatus status \<longleftrightarrow> status \<in> {400, 404, 413, 414, 422}"

definition overloadKindForStatus :: "int \<Rightarrow> errorKind" where
  "overloadKindForStatus status = (if status = 500 \<or> status = 502 then KindUpstreamOverloaded else KindConcurrent)"

definition HTTPStatusForKind :: "errorKind \<Rightarrow> int" where
  "HTTPStatusForKind kind =
     (if kind \<in> {KindRateLimit, KindQuota, KindQuotaPeriodic, KindQuotaBalance, KindQuotaPermanent} then 429
      else if kind \<in> {KindConcurrent, KindUpstreamOverloaded} then 503
      else if kind \<in> {KindTimeout, KindStreamTimeout} then 504
      else 502)"

definition ClassifyResponseStatus :: "int \<Rightarrow> errorKind" where
  "ClassifyResponseStatus status =
     (if status = 429 then KindRateLimit
      else if status = 503 \<or> status = 529 then KindConcurrent
      else if status = 401 \<or> status = 403 then KindAuth
      else if status = 402 then KindQuota
      else if 500 \<le> status then KindUpstreamDown
      else KindTransient)"

definition classifyStatusFallback :: "int \<Rightarrow> errorKind" where
  "classifyStatusFallback status =
     (if status = 408 then KindTimeout
      else if status \<in> {405, 406, 409, 411, 412, 415, 416, 417, 418, 421, 423, 424, 425, 426, 428, 431}
      then KindUnsupportedFeature
      else if status \<in> {400, 413, 414, 422} then KindRequestRejected
      else if status = 404 then KindModelUnavailable
      else ClassifyResponseStatus status)"

definition IsRetryable :: "errorKind \<Rightarrow> bool" where
  "IsRetryable kind \<longleftrightarrow> kind \<in> {KindTransient, KindTimeout, KindNetwork, KindUpstreamDown,
     KindUpstreamOverloaded, KindConcurrent, KindStreamTimeout}"

definition IsContentFilter :: "errorKind \<Rightarrow> bool" where "IsContentFilter kind \<longleftrightarrow> kind = KindContentFilter"

definition IsCredentialFatal :: "errorKind \<Rightarrow> bool" where
  "IsCredentialFatal kind \<longleftrightarrow> kind \<in> {KindAuth, KindAuthRevoked, KindQuota, KindQuotaPeriodic,
     KindQuotaBalance, KindQuotaPermanent}"

definition IsClientBug :: "errorKind \<Rightarrow> bool" where
  "IsClientBug kind \<longleftrightarrow> kind \<in> {KindClientBug, KindToolCallIdMismatch, KindUnsupportedFeature, KindCanceled}"

definition IsRequestSideError :: "errorKind \<Rightarrow> bool" where
  "IsRequestSideError kind \<longleftrightarrow> IsClientBug kind \<or> kind = KindRequestRejected"

section \<open>Penalty matrix (penalty.go)\<close>

datatype penaltyTarget = PenaltyNone | PenaltyBinding | PenaltyCredential | PenaltyProvider

record penalty =
  pe_Target :: penaltyTarget
  pe_Fuse :: bool
  pe_Permanent :: bool

abbreviation penaltyOn :: "penaltyTarget \<Rightarrow> bool \<Rightarrow> bool \<Rightarrow> penalty" where
  "penaltyOn t f p \<equiv> \<lparr>pe_Target = t, pe_Fuse = f, pe_Permanent = p\<rparr>"

definition PenaltyOf :: "errorKind \<Rightarrow> penalty" where
  "PenaltyOf kind =
     (if kind \<in> {KindClientBug, KindToolCallIdMismatch, KindContextLength, KindContentFilter, KindUnsupportedFeature,
          KindConversion, KindCanceled, KindCircuitOpen, KindFpSlotSaturated} then penaltyOn PenaltyNone False False
      else if kind = KindRequestRejected then penaltyOn PenaltyNone False False
      else if kind = KindModelUnavailable then penaltyOn PenaltyBinding False False
      else if kind = KindFirstByteTimeout then penaltyOn PenaltyNone False False
      else if kind = KindReplyLoop then penaltyOn PenaltyBinding False False
      else if kind \<in> {KindModelNotFound, KindModelDeprecated} then penaltyOn PenaltyBinding False False
      else if kind \<in> {KindRateLimit, KindConcurrent, KindUpstreamOverloaded, KindNoAvailableChannel, KindTransient,
          KindTimeout, KindNetwork, KindStreamTimeout, KindEmptyResponse, KindUpstreamContextLoss}
      then penaltyOn PenaltyBinding False False
      else if kind = KindAuth then penaltyOn PenaltyCredential True True
      else if kind = KindAuthRevoked then penaltyOn PenaltyCredential True True
      else if kind = KindQuotaPermanent then penaltyOn PenaltyCredential True True
      else if kind \<in> {KindQuota, KindQuotaBalance} then penaltyOn PenaltyCredential True True
      else if kind = KindQuotaPeriodic then penaltyOn PenaltyCredential True False
      else if kind = KindAccountRestricted then penaltyOn PenaltyCredential True False
      else if kind = KindUpstreamDown then penaltyOn PenaltyProvider True False
      else penaltyOn PenaltyBinding False False)"

datatype penaltySeverity = SeverityNone | SeverityRequestSide | SeverityBinding | SeverityCredential

definition SeverityOf :: "errorKind \<Rightarrow> penaltySeverity" where
  "SeverityOf kind =
     (if kind = KindNone \<or> kind = KindOther [] then SeverityNone
      else if IsRequestSideError kind \<or> IsContentFilter kind \<or> kind = KindContextLength \<or> kind = KindCanceled
      then SeverityRequestSide
      else if kind \<in> {KindModelNotFound, KindModelDeprecated, KindModelUnavailable} then SeverityBinding
      else SeverityCredential)"

definition IsNodeFaultPenalty :: "errorKind \<Rightarrow> bool" where
  "IsNodeFaultPenalty kind \<longleftrightarrow> SeverityOf kind = SeverityCredential"

datatype failoverScope = ScopeNone | ScopeModel | ScopeCredential

definition FailoverScopeOf :: "penalty \<Rightarrow> failoverScope" where
  "FailoverScopeOf p = (case pe_Target p of PenaltyNone \<Rightarrow> ScopeNone | PenaltyBinding \<Rightarrow> ScopeModel
     | PenaltyCredential \<Rightarrow> ScopeCredential | PenaltyProvider \<Rightarrow> ScopeCredential)"

section \<open>Recovery projection (recovery\_projection.go)\<close>

datatype recoveryAction = RecoveryActionCandidateFailover | RecoveryActionGenericRetry | RecoveryActionTerminal

record recoveryProjection =
  rp_GenericRetryable :: bool
  rp_CandidateFailover :: bool
  rp_TransparentResume :: bool
  rp_EffectiveAction :: recoveryAction
  rp_Reason :: string

record recoveryProjectionExclusion =
  rx_kind :: errorKind
  rx_reason :: string

text \<open>
  The two registered exclusions. The reasons are not-empty Chinese sentences in the source; their
  text plays no part, so English renderings stand for them.
\<close>

definition recoveryProjectionExcludedKinds :: "recoveryProjectionExclusion list" where
  "recoveryProjectionExcludedKinds =
     [\<lparr>rx_kind = KindRequestRejected, rx_reason = ''request-side error: resending the same request fails again''\<rparr>,
      \<lparr>rx_kind = KindAuth, rx_reason = ''credential unavailable: the gateway changes the credential, not the request''\<rparr>]"

definition recoveryProjectionExclusionEligible :: "errorKind \<Rightarrow> bool" where
  "recoveryProjectionExclusionEligible kind \<longleftrightarrow> IsRequestSideError kind \<or> pe_Target (PenaltyOf kind) = PenaltyCredential"

fun recoveryProjectionExclusionReasonIn :: "recoveryProjectionExclusion list \<Rightarrow> errorKind \<Rightarrow> string option" where
  "recoveryProjectionExclusionReasonIn [] kind = None"
| "recoveryProjectionExclusionReasonIn (entry # registry) kind =
     (if rx_kind entry \<noteq> kind then recoveryProjectionExclusionReasonIn registry kind
      else if rx_reason entry = [] then None
      else if \<not> recoveryProjectionExclusionEligible kind then None
      else Some (rx_reason entry))"

definition RecoveryProjectionExclusionReason :: "errorKind \<Rightarrow> string option" where
  "RecoveryProjectionExclusionReason kind = recoveryProjectionExclusionReasonIn recoveryProjectionExcludedKinds kind"

definition ProjectRecovery :: "errorKind \<Rightarrow> recoveryProjection" where
  "ProjectRecovery kind =
     (let p = \<lparr>rp_GenericRetryable = IsRetryable kind, rp_CandidateFailover = False, rp_TransparentResume = False,
               rp_EffectiveAction = RecoveryActionTerminal, rp_Reason = ''not_recoverable''\<rparr>
      in if RecoveryProjectionExclusionReason kind \<noteq> None
         then p\<lparr>rp_GenericRetryable := False, rp_CandidateFailover := False, rp_TransparentResume := False,
                rp_EffectiveAction := RecoveryActionTerminal, rp_Reason := ''not_recoverable''\<rparr>
         else if kind = KindEmptyResponse \<or> kind = KindNoAvailableChannel \<or> kind = KindModelUnavailable
         then p\<lparr>rp_CandidateFailover := True, rp_TransparentResume := True,
                rp_EffectiveAction := RecoveryActionCandidateFailover,
                rp_Reason := (if kind = KindEmptyResponse then ''empty_response_candidate_failover''
                  else if kind = KindNoAvailableChannel then ''no_available_channel_candidate_failover''
                  else ''model_unavailable_candidate_failover'')\<rparr>
         else if kind = KindCircuitOpen \<or> kind = KindFpSlotSaturated
         then p\<lparr>rp_EffectiveAction := RecoveryActionTerminal, rp_Reason := ''gateway_admission_rejection''\<rparr>
         else if rp_GenericRetryable p
         then p\<lparr>rp_TransparentResume := True, rp_EffectiveAction := RecoveryActionGenericRetry,
                rp_Reason := ''generic_retryable_upstream_failure''\<rparr>
         else p)"

definition EffectiveRetryable :: "errorKind \<Rightarrow> bool" where
  "EffectiveRetryable kind \<longleftrightarrow> rp_GenericRetryable (ProjectRecovery kind) \<or> rp_CandidateFailover (ProjectRecovery kind)"

section \<open>Automatic probes (automatic\_probe\_policy.go)\<close>

datatype automaticProbeScope = AutomaticProbeNone | AutomaticProbeModel | AutomaticProbeCredential

record automaticProbePolicy =
  ap_Enabled :: bool
  ap_Scope :: automaticProbeScope
  ap_Interval :: duration
  ap_Fixed :: bool

definition AutomaticProbePolicyFor :: "errorKind \<Rightarrow> automaticProbePolicy" where
  "AutomaticProbePolicyFor kind =
     (let pol = (\<lambda>s i f. \<lparr>ap_Enabled = True, ap_Scope = s, ap_Interval = i, ap_Fixed = f\<rparr>)
      in if kind = KindQuotaPeriodic then pol AutomaticProbeCredential (5 * go_minute) True
         else if kind \<in> {KindQuotaBalance, KindQuotaPermanent, KindQuota} then pol AutomaticProbeCredential (2 * go_minute) True
         else if kind = KindRateLimit then pol AutomaticProbeModel (3 * go_minute) False
         else if kind = KindConcurrent then pol AutomaticProbeModel (5 * go_minute) False
         else if kind = KindNoAvailableChannel then pol AutomaticProbeModel (15 * go_minute) False
         else if kind \<in> {KindTransient, KindTimeout, KindNetwork, KindUpstreamDown, KindStreamTimeout,
             KindUpstreamOverloaded, KindEmptyResponse, KindUpstreamContextLoss}
         then pol AutomaticProbeModel (5 * go_second) False
         else \<lparr>ap_Enabled = False, ap_Scope = AutomaticProbeNone, ap_Interval = 0, ap_Fixed = False\<rparr>)"

definition IsAutomaticProbeEligible :: "errorKind \<Rightarrow> bool" where
  "IsAutomaticProbeEligible kind \<longleftrightarrow> ap_Enabled (AutomaticProbePolicyFor kind)"

section \<open>Translation to and from the node-health reducer (executor\_nodehealth.go)\<close>

definition nodeHealthErrorKind :: "errorKind \<Rightarrow> nhErrorKind" where
  "nodeHealthErrorKind kind =
     (if IsRequestSideError kind \<or> IsContentFilter kind \<or> kind = KindContextLength \<or> kind = KindCanceled then NHRequest
      else if kind = KindNetwork then NHNetwork
      else if kind \<in> {KindTimeout, KindStreamTimeout} then NHTimeout
      else if kind \<in> {KindRateLimit, KindConcurrent} then NHRateLimit
      else if kind \<in> {KindAuth, KindAuthRevoked} then NHAuth
      else if kind \<in> {KindQuota, KindQuotaBalance, KindQuotaPeriodic, KindQuotaPermanent} then NHQuota
      else if kind \<in> {KindModelNotFound, KindModelDeprecated} then NHModelBinding
      else if kind = KindNoAvailableChannel then NHNoAvailableChannel
      else if kind = KindModelUnavailable then NHModelUnavailable
      else if kind = KindEmptyResponse then NHEmptyResponse
      else NHUpstream)"

definition errorKindFromNodeHealth :: "nhErrorKind \<Rightarrow> int \<Rightarrow> errorKind" where
  "errorKindFromNodeHealth kind httpStatus =
     (case kind of NHNetwork \<Rightarrow> KindNetwork | NHTimeout \<Rightarrow> KindTimeout | NHRateLimit \<Rightarrow> KindRateLimit
      | NHAuth \<Rightarrow> KindAuth | NHQuota \<Rightarrow> KindQuotaPermanent | NHModelBinding \<Rightarrow> KindModelNotFound
      | NHNoAvailableChannel \<Rightarrow> if 400 \<le> httpStatus \<and> httpStatus < 500 then KindNoAvailableChannel else KindTransient
      | NHModelUnavailable \<Rightarrow> KindModelUnavailable | NHEmptyResponse \<Rightarrow> KindEmptyResponse
      | NHRequest \<Rightarrow> KindClientBug | _ \<Rightarrow> KindTransient)"

definition isCredentialWideNodeHealthEffect :: "effectKind \<Rightarrow> bool" where
  "isCredentialWideNodeHealthEffect kind \<longleftrightarrow> kind = EffectRecordCircuitFailure \<or> kind = EffectSetCredentialUnavailable"

lemmas kind_defs = IsRetryable_def IsContentFilter_def IsCredentialFatal_def IsClientBug_def IsRequestSideError_def
  PenaltyOf_def SeverityOf_def

section \<open>Properties\<close>

text \<open>
  \<open>AllErrorKinds\<close> lists each kind of the taxonomy exactly once, and the wire labels tell them apart.
\<close>
lemma error_kinds_closed:
  "distinct AllErrorKinds \<and> set AllErrorKinds = {k. k \<noteq> KindNone \<and> (\<forall>s. k \<noteq> KindOther s)} \<and>
   distinct (map kindString AllErrorKinds)"
proof (intro conjI)
  show "distinct AllErrorKinds" by (simp add: AllErrorKinds_def)
  show "distinct (map kindString AllErrorKinds)" by (simp add: AllErrorKinds_def kindString_def)
  show "set AllErrorKinds = {k. k \<noteq> KindNone \<and> (\<forall>s. k \<noteq> KindOther s)}" (is "?A = ?B")
  proof (rule set_eqI)
    show "k \<in> ?A \<longleftrightarrow> k \<in> ?B" for k by (cases k) (simp_all add: AllErrorKinds_def)
  qed
qed


text \<open>
  Attribution by status. A status that rejects the request is blamed on the request or on the
  (credential, model) pair, never on the credential, and is not blindly retried; every 5xx status
  and every 429 is blamed on the credential; 401, 402 and 403 are the credential-fatal statuses
  below 500, and they are the only ones.
\<close>
theorem status_attribution:
  assumes "400 \<le> status"
  shows "(isRequestRejectionStatus status \<longrightarrow>
            SeverityOf (classifyStatusFallback status) \<in> {SeverityRequestSide, SeverityBinding} \<and>
            \<not> IsRetryable (classifyStatusFallback status) \<and> \<not> IsCredentialFatal (classifyStatusFallback status)) \<and>
         (500 \<le> status \<longrightarrow> IsNodeFaultPenalty (classifyStatusFallback status) \<and> IsRetryable (classifyStatusFallback status)) \<and>
         (IsCredentialFatal (classifyStatusFallback status) \<longleftrightarrow> status \<in> {401, 402, 403})"
proof (intro conjI)
  show "isRequestRejectionStatus status \<longrightarrow>
      SeverityOf (classifyStatusFallback status) \<in> {SeverityRequestSide, SeverityBinding} \<and>
      \<not> IsRetryable (classifyStatusFallback status) \<and> \<not> IsCredentialFatal (classifyStatusFallback status)"
    by (auto simp: isRequestRejectionStatus_def classifyStatusFallback_def kind_defs)
  show "500 \<le> status \<longrightarrow> IsNodeFaultPenalty (classifyStatusFallback status) \<and> IsRetryable (classifyStatusFallback status)"
    by (auto simp: IsNodeFaultPenalty_def classifyStatusFallback_def ClassifyResponseStatus_def kind_defs)
  show "IsCredentialFatal (classifyStatusFallback status) \<longleftrightarrow> status \<in> {401, 402, 403}"
    by (auto simp: classifyStatusFallback_def ClassifyResponseStatus_def kind_defs)
qed

lemma status_attribution_witness:
  "SeverityOf (classifyStatusFallback 404) = SeverityBinding \<and> \<not> IsRetryable (classifyStatusFallback 404) \<and>
   IsRetryable (classifyStatusFallback 502) \<and> IsCredentialFatal (classifyStatusFallback 402)"
  using status_attribution [of 404] status_attribution [of 502] status_attribution [of 402]
  by (simp add: isRequestRejectionStatus_def classifyStatusFallback_def kind_defs)

text \<open>
  The severity scale agrees with what the reducer does. For an accepted request failure whose
  kind was translated by \<open>nodeHealthErrorKind\<close>: a request-side kind produces no effect and leaves
  the node's failure count alone; a binding-level kind never produces a credential-wide effect; any
  other kind, the two with a rule of their own apart (\<open>empty_response\<close>, and
  \<open>no_available_channel\<close> with a 4xx status), becomes credential-wide once the node has reached
  the failure threshold.
\<close>
theorem severity_matches_reducer:
  assumes red: "Reduce r ob now = (Inr d, r')" and acc: "de_Accepted d" and fail: "ob_Outcome ob = OutcomeFailure"
    and kind: "ob_ErrorKind ob = nodeHealthErrorKind k"
  shows "(SeverityOf k = SeverityRequestSide \<longrightarrow> de_Effects d = [] \<and> nodeStateOf r' (ob_Node ob) = nodeStateOf r (ob_Node ob)) \<and>
    (SeverityOf k = SeverityBinding \<longrightarrow> (\<forall>e \<in> set (de_Effects d). \<not> isCredentialWideNodeHealthEffect e)) \<and>
    (SeverityOf k = SeverityCredential \<and> k \<noteq> KindEmptyResponse \<and>
       \<not> (k = KindNoAvailableChannel \<and> 400 \<le> ob_HTTPStatus ob \<and> ob_HTTPStatus ob < 500) \<and>
       circuitFailureThreshold (ob_BillingMode ob) \<le> de_ConsecutiveFailures d \<longrightarrow>
     EffectRecordCircuitFailure \<in> set (de_Effects d) \<and> EffectSetCredentialUnavailable \<in> set (de_Effects d))"
proof (intro conjI impI)
  note acc = Reduce_accepted [OF red acc]
  assume sev: "SeverityOf k = SeverityRequestSide"
  then have "ob_ErrorKind ob = NHRequest"
    unfolding kind by (auto simp: SeverityOf_def nodeHealthErrorKind_def split: if_splits)
  then show "de_Effects d = []" "nodeStateOf r' (ob_Node ob) = nodeStateOf r (ob_Node ob)"
    using acc fail by (simp_all add: effectsFor_def reduceState_def)
next
  note acc = Reduce_accepted [OF red acc]
  assume "SeverityOf k = SeverityBinding"
  then have "isBindingScoped ob" "ob_ErrorKind ob \<noteq> NHEmptyResponse"
    using kind by (auto simp: SeverityOf_def isBindingScoped_def nodeHealthErrorKind_def kind_defs split: if_splits)
  then show "\<forall>e \<in> set (de_Effects d). \<not> isCredentialWideNodeHealthEffect e"
    unfolding acc(2) using fail by (auto simp: effectsFor_def isCredentialWideNodeHealthEffect_def)
next
  note acc = Reduce_accepted [OF red acc]
  assume h: "SeverityOf k = SeverityCredential \<and> k \<noteq> KindEmptyResponse \<and>
       \<not> (k = KindNoAvailableChannel \<and> 400 \<le> ob_HTTPStatus ob \<and> ob_HTTPStatus ob < 500) \<and>
       circuitFailureThreshold (ob_BillingMode ob) \<le> de_ConsecutiveFailures d"
  then have "\<not> isBindingScoped ob" "ob_ErrorKind ob \<noteq> NHRequest" "ob_ErrorKind ob \<noteq> NHEmptyResponse"
    using kind by (auto simp: SeverityOf_def isBindingScoped_def nodeHealthErrorKind_def split: if_splits)
  then show "EffectRecordCircuitFailure \<in> set (de_Effects d)" "EffectSetCredentialUnavailable \<in> set (de_Effects d)"
    unfolding acc(2) using fail h by (simp_all add: effectsFor_def)
qed

lemma severity_matches_reducer_witness:
  defines "ob \<equiv> demoObs ''a1'' OutcomeFailure (nodeHealthErrorKind KindModelUnavailable)"
  shows "\<exists>d r'. Reduce (NewOutcomeReducerWithConfig 2 50) ob 10 = (Inr d, r') \<and> de_Accepted d \<and>
     EffectSetBindingUnavailable \<in> set (de_Effects d) \<and> \<not> list_ex isCredentialWideNodeHealthEffect (de_Effects d)"
proof -
  have "nodeHealthErrorKind KindModelUnavailable = NHModelUnavailable" by (simp add: nodeHealthErrorKind_def kind_defs)
  then have "\<exists>d r'. Reduce (NewOutcomeReducerWithConfig 2 50) ob 10 = (Inr d, r') \<and> de_Accepted d \<and>
     EffectSetBindingUnavailable \<in> set (de_Effects d)"
    by (simp add: ob_def nh_eval)
  moreover have "SeverityOf KindModelUnavailable = SeverityBinding" by (simp add: kind_defs)
  ultimately show ?thesis
    using severity_matches_reducer [of _ ob 10 _ _ KindModelUnavailable] by (fastforce simp: ob_def list_ex_iff)
qed

text \<open>
  The exclusion registry cannot let a kind through that does not qualify: whatever the registry
  holds, a kind that is neither request side nor penalised on the credential is not excluded; and a
  kind the shipped registry excludes is projected as terminal and not retryable.
\<close>
theorem exclusion_needs_eligibility:
  "(recoveryProjectionExclusionReasonIn registry k = Some why \<longrightarrow>
      why \<noteq> [] \<and> \<lparr>rx_kind = k, rx_reason = why\<rparr> \<in> set registry \<and> recoveryProjectionExclusionEligible k) \<and>
   (RecoveryProjectionExclusionReason k \<noteq> None \<longrightarrow>
      \<not> EffectiveRetryable k \<and> rp_EffectiveAction (ProjectRecovery k) = RecoveryActionTerminal)"
proof
  show "recoveryProjectionExclusionReasonIn registry k = Some why \<longrightarrow>
      why \<noteq> [] \<and> \<lparr>rx_kind = k, rx_reason = why\<rparr> \<in> set registry \<and> recoveryProjectionExclusionEligible k"
    by (induction registry) auto
  show "RecoveryProjectionExclusionReason k \<noteq> None \<longrightarrow>
      \<not> EffectiveRetryable k \<and> rp_EffectiveAction (ProjectRecovery k) = RecoveryActionTerminal"
    by (simp add: EffectiveRetryable_def ProjectRecovery_def)
qed

lemma exclusion_needs_eligibility_witness:
  "RecoveryProjectionExclusionReason KindAuth \<noteq> None \<and> \<not> EffectiveRetryable KindAuth"
proof -
  have "RecoveryProjectionExclusionReason KindAuth \<noteq> None"
    by (simp add: RecoveryProjectionExclusionReason_def recoveryProjectionExcludedKinds_def
        recoveryProjectionExclusionEligible_def kind_defs)
  then show ?thesis using exclusion_needs_eligibility [of "[]" KindAuth] by blast
qed

end
