(* ===== verification/ActionPolicy.thy ===== *)
theory ActionPolicy
  imports ErrorKinds
begin

text \<open>
  The request-level error policy, \<open>errorsx/action_policy.go\<close>: \<open>DecideNextAction\<close> with the history
  checks it rests on. A \<open>DecisionContext\<close> and an \<open>ActionDecision\<close> are records with the source's
  fields; the commit states are ordered as their integer values are.
\<close>

datatype actionPhase = PhaseUpstream | PhaseStreaming | PhaseSettlement | ActionPhaseOther string

datatype actionCommitState =
  ActionCommitNone | ActionCommitMetadata | ActionCommitContent | ActionCommitToolCall | ActionCommitTerminal

primrec commitRank :: "actionCommitState \<Rightarrow> nat" where
  "commitRank ActionCommitNone = 0"
| "commitRank ActionCommitMetadata = 1"
| "commitRank ActionCommitContent = 2"
| "commitRank ActionCommitToolCall = 3"
| "commitRank ActionCommitTerminal = 4"

lemma commitRank_inj: "commitRank a = commitRank b \<Longrightarrow> a = b"
  by (cases a; cases b) simp_all

instantiation actionCommitState :: linorder
begin

definition less_eq_actionCommitState :: "actionCommitState \<Rightarrow> actionCommitState \<Rightarrow> bool" where
  "less_eq_actionCommitState a b \<longleftrightarrow> commitRank a \<le> commitRank b"

definition less_actionCommitState :: "actionCommitState \<Rightarrow> actionCommitState \<Rightarrow> bool" where
  "less_actionCommitState a b \<longleftrightarrow> commitRank a < commitRank b"

instance
  by standard (auto simp: less_eq_actionCommitState_def less_actionCommitState_def intro: commitRank_inj)

end

datatype nextAction =
  ActionRetrySameNode | ActionSwitchNode | ActionWaitRecovery | ActionResumeBlocked | ActionFailTerminal
| ActionClientCanceled | ActionFailClosed | ActionEmpty

record actionNode =
  an_Model :: string
  an_ProviderID :: int
  an_CredentialID :: int

record priorAttempt =
  pa_Seq :: int
  pa_AttemptNo :: int
  pa_Model :: string
  pa_ProviderID :: int
  pa_CredentialID :: int
  pa_Kind :: errorKind
  pa_Action :: nextAction
  pa_RetryAfter :: duration
  pa_Committed :: bool
  pa_ClientDisconnected :: bool

record decisionHistory =
  dh_PriorAttempts :: "priorAttempt list"
  dh_TriedNodes :: "actionNode list"
  dh_TriedModels :: "string list"
  dh_Terminal :: bool
  dh_LastSeq :: int

record decisionContext =
  dc_RequestID :: string
  dc_TenantID :: string
  dc_SessionID :: string
  dc_ClientProtocol :: string
  dc_Phase :: actionPhase
  dc_AttemptNo :: int
  dc_SameNodeRetryCount :: int
  dc_MaxSameNodeRetries :: int
  dc_RemainingAttempts :: int
  dc_ProviderID :: int
  dc_CredentialID :: int
  dc_ResolvedModel :: string
  dc_HasAlternateNode :: bool
  dc_AllowProviderChange :: bool
  dc_AllowModelChange :: bool
  dc_History :: decisionHistory
  dc_CommitState :: actionCommitState
  dc_SemanticOutputVisible :: bool
  dc_ClientDisconnected :: bool
  dc_Kind :: errorKind
  dc_HTTPStatus :: int
  dc_RetryAfter :: duration

record actionDecision =
  ad_Action :: nextAction
  ad_Kind :: errorKind
  ad_ReasonCode :: string
  ad_HistorySeq :: int
  ad_LoopDetected :: bool
  ad_AlreadyAttempted :: bool
  ad_ExhaustedSameNodeBudget :: bool
  ad_ExhaustedCandidateSpace :: bool
  ad_AvoidCurrentNode :: bool
  ad_RetryAfter :: duration
  ad_PreserveClientConnection :: bool
  ad_RequiresUncommittedOutput :: bool
  ad_RecordProviderFailure :: bool
  ad_RecordCredentialFailure :: bool
  ad_RecordCredentialState :: bool
  ad_RequestID :: string
  ad_TenantID :: string
  ad_SessionID :: string
  ad_ClientProtocol :: string
  ad_Phase :: actionPhase
  ad_AttemptNo :: int
  ad_ProviderID :: int
  ad_CredentialID :: int
  ad_ResolvedModel :: string

text \<open>The zero \<open>ActionDecision\<close>; the context fields are overwritten by \<open>withContext\<close>.\<close>

definition zeroDecision :: actionDecision where
  "zeroDecision = \<lparr>ad_Action = ActionEmpty, ad_Kind = KindNone, ad_ReasonCode = [], ad_HistorySeq = 0,
     ad_LoopDetected = False, ad_AlreadyAttempted = False, ad_ExhaustedSameNodeBudget = False,
     ad_ExhaustedCandidateSpace = False, ad_AvoidCurrentNode = False, ad_RetryAfter = 0,
     ad_PreserveClientConnection = False, ad_RequiresUncommittedOutput = False, ad_RecordProviderFailure = False,
     ad_RecordCredentialFailure = False, ad_RecordCredentialState = False, ad_RequestID = [], ad_TenantID = [],
     ad_SessionID = [], ad_ClientProtocol = [], ad_Phase = ActionPhaseOther [], ad_AttemptNo = 0, ad_ProviderID = 0,
     ad_CredentialID = 0, ad_ResolvedModel = []\<rparr>"

definition withContext :: "actionDecision \<Rightarrow> decisionContext \<Rightarrow> actionDecision" where
  "withContext d ctx = d\<lparr>ad_RequestID := dc_RequestID ctx, ad_TenantID := dc_TenantID ctx,
     ad_SessionID := dc_SessionID ctx, ad_ClientProtocol := dc_ClientProtocol ctx, ad_Phase := dc_Phase ctx,
     ad_AttemptNo := dc_AttemptNo ctx, ad_ProviderID := dc_ProviderID ctx, ad_CredentialID := dc_CredentialID ctx,
     ad_ResolvedModel := dc_ResolvedModel ctx, ad_Kind := dc_Kind ctx\<rparr>"

fun seqMonotonic :: "int \<Rightarrow> priorAttempt list \<Rightarrow> bool" where
  "seqMonotonic previous [] = True"
| "seqMonotonic previous (entry # es) =
     (if pa_Seq entry > 0 \<and> pa_Seq entry \<le> previous then False
      else seqMonotonic (if pa_Seq entry > 0 then pa_Seq entry else previous) es)"

definition validateDecisionHistory :: "decisionHistory \<Rightarrow> string" where
  "validateDecisionHistory history =
     (if dh_LastSeq history < 0 then ''invalid_history_seq''
      else if \<not> seqMonotonic 0 (dh_PriorAttempts history) then ''history_seq_not_monotonic''
      else if list_ex (\<lambda>node. an_Model node = [] \<or> an_CredentialID node \<le> 0) (dh_TriedNodes history)
      then ''invalid_history_node''
      else [])"

definition historyContainsTriedNode :: "decisionHistory \<Rightarrow> actionNode \<Rightarrow> bool" where
  "historyContainsTriedNode history node \<longleftrightarrow> node \<in> set (dh_TriedNodes history)"

definition sameNode :: "priorAttempt \<Rightarrow> actionNode \<Rightarrow> bool" where
  "sameNode prior node \<longleftrightarrow> pa_Model prior = an_Model node \<and> pa_ProviderID prior = an_ProviderID node \<and>
     pa_CredentialID prior = an_CredentialID node"

definition historyContainsNode :: "decisionHistory \<Rightarrow> actionNode \<Rightarrow> bool" where
  "historyContainsNode history node =
     (if an_Model node = [] \<or> an_CredentialID node \<le> 0 then False
      else node \<in> set (dh_TriedNodes history) \<or> list_ex (\<lambda>prior. sameNode prior node) (dh_PriorAttempts history))"

definition historyNodeRetryCount :: "decisionHistory \<Rightarrow> actionNode \<Rightarrow> int" where
  "historyNodeRetryCount history node =
     int (length (filter (\<lambda>prior. sameNode prior node \<and> pa_Action prior = ActionRetrySameNode) (dh_PriorAttempts history)))"

definition retryableActionKind :: "errorKind \<Rightarrow> bool" where
  "retryableActionKind kind \<longleftrightarrow> kind \<in> {KindEmptyResponse, KindTransient, KindTimeout, KindNetwork, KindStreamTimeout,
     KindConcurrent, KindUpstreamOverloaded, KindUpstreamDown}"

definition terminalActionKind :: "errorKind \<Rightarrow> bool" where
  "terminalActionKind kind \<longleftrightarrow> kind \<in> {KindAuthRevoked, KindQuotaPermanent, KindModelNotFound, KindModelDeprecated,
     KindContextLength, KindUnsupportedFeature, KindContentFilter, KindConversion, KindUpstreamContextLoss,
     KindToolCallIdMismatch, KindClientBug, KindCircuitOpen, KindFpSlotSaturated}"

definition defaultRecoveryDelay :: "errorKind \<Rightarrow> duration" where
  "defaultRecoveryDelay kind =
     (if kind = KindRateLimit then 30 * go_second
      else if kind \<in> {KindConcurrent, KindUpstreamOverloaded} then 5 * go_second
      else if kind = KindNoAvailableChannel then 15 * go_minute
      else 2 * go_second)"

definition currentNode :: "decisionContext \<Rightarrow> actionNode" where
  "currentNode ctx = \<lparr>an_Model = dc_ResolvedModel ctx, an_ProviderID = dc_ProviderID ctx, an_CredentialID = dc_CredentialID ctx\<rparr>"

definition committed :: "decisionContext \<Rightarrow> bool" where
  "committed ctx \<longleftrightarrow> dc_CommitState ctx \<ge> ActionCommitContent \<or> dc_SemanticOutputVisible ctx"

definition effectiveRetryCount :: "decisionContext \<Rightarrow> int" where
  "effectiveRetryCount ctx =
     (let h = historyNodeRetryCount (dc_History ctx) (currentNode ctx)
      in if h > dc_SameNodeRetryCount ctx then h else dc_SameNodeRetryCount ctx)"

text \<open>The final \<open>switch ctx.Kind\<close> of \<open>DecideNextAction\<close> with the alternate-node check after it.\<close>

definition decideByKind :: "decisionContext \<Rightarrow> actionDecision \<Rightarrow> actionDecision" where
  "decideByKind ctx base =
     (let k = dc_Kind ctx;
          delay = (if dc_RetryAfter ctx \<le> 0 then defaultRecoveryDelay k else dc_RetryAfter ctx);
          d = (if k = KindRequestRejected
               then if dc_RemainingAttempts ctx \<le> 0
                    then base\<lparr>ad_Action := ActionFailTerminal, ad_ReasonCode := ''no_attempt_budget:upstream_request_rejected''\<rparr>
                    else base\<lparr>ad_Action := ActionSwitchNode, ad_ReasonCode := ''upstream_request_rejected''\<rparr>
               else if k = KindModelUnavailable
               then if dc_RemainingAttempts ctx \<le> 0
                    then base\<lparr>ad_Action := ActionFailTerminal, ad_ReasonCode := ''no_attempt_budget:upstream_model_unavailable''\<rparr>
                    else base\<lparr>ad_Action := ActionSwitchNode, ad_ReasonCode := ''upstream_model_unavailable''\<rparr>
               else if k = KindAuth
               then base\<lparr>ad_Action := ActionSwitchNode, ad_ReasonCode := ''credential_auth_failed'',
                      ad_RecordCredentialFailure := True, ad_RecordCredentialState := True\<rparr>
               else if k \<in> {KindQuota, KindQuotaPeriodic, KindQuotaBalance}
               then base\<lparr>ad_Action := ActionWaitRecovery, ad_ReasonCode := ''credential_quota_exhausted'',
                      ad_RecordCredentialFailure := True, ad_RecordCredentialState := True, ad_RetryAfter := delay\<rparr>
               else if k \<in> {KindRateLimit, KindUpstreamDown, KindNoAvailableChannel}
               then base\<lparr>ad_Action := ActionWaitRecovery, ad_ReasonCode := kindString k, ad_RecordProviderFailure := True,
                      ad_PreserveClientConnection := True, ad_RetryAfter := delay\<rparr>
               else base\<lparr>ad_Action := ActionFailClosed, ad_ReasonCode := ''unmapped_kind:'' @ kindString k\<rparr>)
      in if ad_Action d = ActionSwitchNode \<and> \<not> dc_HasAlternateNode ctx
         then d\<lparr>ad_Action := ActionFailTerminal, ad_ReasonCode := ''no_alternate_node:'' @ ad_ReasonCode d\<rparr>
         else d)"

text \<open>The branch for retryable kinds before output is committed.\<close>

definition decideRetryable :: "decisionContext \<Rightarrow> actionDecision \<Rightarrow> actionDecision" where
  "decideRetryable ctx base0 =
     (let base = base0\<lparr>ad_PreserveClientConnection := True, ad_RequiresUncommittedOutput := True,
            ad_RecordProviderFailure := True\<rparr>
      in if \<not> ad_LoopDetected base \<and> effectiveRetryCount ctx < dc_MaxSameNodeRetries ctx \<and> dc_RemainingAttempts ctx > 0
         then base\<lparr>ad_Action := ActionRetrySameNode, ad_ReasonCode := ''precommit_transient_retry'',
                ad_RetryAfter := (if dc_RetryAfter ctx > 0 then dc_RetryAfter ctx else ad_RetryAfter base)\<rparr>
         else if dc_HasAlternateNode ctx \<and> dc_RemainingAttempts ctx > 0
         then base\<lparr>ad_Action := ActionSwitchNode, ad_ReasonCode := ''node_retry_budget_exhausted''\<rparr>
         else base\<lparr>ad_Action := ActionFailTerminal, ad_ReasonCode := ''recovery_exhausted''\<rparr>)"

text \<open>The decision as it stands after the history checks passed: context, history flags, no action yet.\<close>

definition decisionBase :: "decisionContext \<Rightarrow> actionDecision" where
  "decisionBase ctx =
     (let base = (withContext zeroDecision ctx)\<lparr>ad_HistorySeq := dh_LastSeq (dc_History ctx),
            ad_AlreadyAttempted := historyContainsNode (dc_History ctx) (currentNode ctx)\<rparr>
      in if historyContainsTriedNode (dc_History ctx) (currentNode ctx) \<and> dc_Kind ctx \<noteq> KindCanceled \<and>
            dc_CommitState ctx < ActionCommitContent \<and> \<not> dc_SemanticOutputVisible ctx
         then base\<lparr>ad_LoopDetected := True, ad_AvoidCurrentNode := True\<rparr> else base)"

definition DecideNextAction :: "decisionContext \<Rightarrow> actionDecision" where
  "DecideNextAction ctx =
     (let base0 = (withContext zeroDecision ctx)\<lparr>ad_HistorySeq := dh_LastSeq (dc_History ctx)\<rparr>;
          err = validateDecisionHistory (dc_History ctx);
          base = decisionBase ctx
      in if err \<noteq> [] then base0\<lparr>ad_Action := ActionFailClosed, ad_ReasonCode := err, ad_LoopDetected := True\<rparr>
         else if dh_Terminal (dc_History ctx)
         then base0\<lparr>ad_Action := ActionFailClosed, ad_ReasonCode := ''history_terminal'', ad_LoopDetected := True\<rparr>
         else if dc_ClientDisconnected ctx \<or> dc_Kind ctx = KindCanceled
         then base\<lparr>ad_Action := ActionClientCanceled, ad_ReasonCode := ''client_canceled''\<rparr>
         else if dc_Kind ctx = KindNone \<or> dc_Kind ctx = KindOther []
         then base\<lparr>ad_Action := ActionFailClosed, ad_ReasonCode := ''missing_error_kind''\<rparr>
         else if committed ctx \<and> (retryableActionKind (dc_Kind ctx) \<or> dc_Kind ctx = KindRateLimit \<or>
                dc_Kind ctx = KindConcurrent \<or> dc_Kind ctx = KindUpstreamDown \<or> dc_Kind ctx = KindUpstreamOverloaded)
         then base\<lparr>ad_Action := ActionResumeBlocked, ad_ReasonCode := ''committed_output'',
                ad_RequiresUncommittedOutput := True, ad_RecordProviderFailure := True\<rparr>
         else if terminalActionKind (dc_Kind ctx)
         then base\<lparr>ad_Action := ActionFailTerminal, ad_ReasonCode := kindString (dc_Kind ctx)\<rparr>
         else if retryableActionKind (dc_Kind ctx) then decideRetryable ctx base
         else decideByKind ctx base)"

section \<open>The action as a decision table\<close>

definition actionTable :: "decisionContext \<Rightarrow> nextAction" where
  "actionTable ctx =
     (let k = dc_Kind ctx
      in if validateDecisionHistory (dc_History ctx) \<noteq> [] \<or> dh_Terminal (dc_History ctx) then ActionFailClosed
         else if dc_ClientDisconnected ctx \<or> k = KindCanceled then ActionClientCanceled
         else if k = KindNone \<or> k = KindOther [] then ActionFailClosed
         else if committed ctx \<and> (retryableActionKind k \<or> k = KindRateLimit) then ActionResumeBlocked
         else if terminalActionKind k then ActionFailTerminal
         else if retryableActionKind k
         then if \<not> historyContainsTriedNode (dc_History ctx) (currentNode ctx) \<and>
                 effectiveRetryCount ctx < dc_MaxSameNodeRetries ctx \<and> dc_RemainingAttempts ctx > 0
              then ActionRetrySameNode
              else if dc_HasAlternateNode ctx \<and> dc_RemainingAttempts ctx > 0 then ActionSwitchNode
              else ActionFailTerminal
         else if k = KindRequestRejected \<or> k = KindModelUnavailable
         then if dc_RemainingAttempts ctx > 0 \<and> dc_HasAlternateNode ctx then ActionSwitchNode else ActionFailTerminal
         else if k = KindAuth then if dc_HasAlternateNode ctx then ActionSwitchNode else ActionFailTerminal
         else if k \<in> {KindQuota, KindQuotaPeriodic, KindQuotaBalance, KindRateLimit, KindNoAvailableChannel}
         then ActionWaitRecovery
         else ActionFailClosed)"

lemma decideByKind_action:
  "\<not> retryableActionKind (dc_Kind ctx) \<Longrightarrow> ad_Action (decideByKind ctx base) =
     (if dc_Kind ctx = KindRequestRejected \<or> dc_Kind ctx = KindModelUnavailable
      then if dc_RemainingAttempts ctx > 0 \<and> dc_HasAlternateNode ctx then ActionSwitchNode else ActionFailTerminal
      else if dc_Kind ctx = KindAuth then if dc_HasAlternateNode ctx then ActionSwitchNode else ActionFailTerminal
      else if dc_Kind ctx \<in> {KindQuota, KindQuotaPeriodic, KindQuotaBalance, KindRateLimit, KindNoAvailableChannel}
      then ActionWaitRecovery
      else ActionFailClosed)"
  by (simp add: decideByKind_def Let_def retryableActionKind_def)

lemma decideRetryable_action:
  "ad_Action (decideRetryable ctx base) =
     (if \<not> ad_LoopDetected base \<and> effectiveRetryCount ctx < dc_MaxSameNodeRetries ctx \<and> dc_RemainingAttempts ctx > 0
      then ActionRetrySameNode
      else if dc_HasAlternateNode ctx \<and> dc_RemainingAttempts ctx > 0 then ActionSwitchNode
      else ActionFailTerminal)"
  by (simp add: decideRetryable_def Let_def)

lemma decisionBase_simps [simp]:
  "ad_RecordProviderFailure (decisionBase ctx) = False" "ad_RecordCredentialFailure (decisionBase ctx) = False"
  "ad_RecordCredentialState (decisionBase ctx) = False" "ad_RetryAfter (decisionBase ctx) = 0"
  "ad_LoopDetected (decisionBase ctx) \<longleftrightarrow> historyContainsTriedNode (dc_History ctx) (currentNode ctx) \<and>
     dc_Kind ctx \<noteq> KindCanceled \<and> \<not> committed ctx"
  by (auto simp: decisionBase_def withContext_def zeroDecision_def Let_def committed_def not_less)

lemma committed_kinds:
  "(retryableActionKind k \<or> k = KindRateLimit \<or> k = KindConcurrent \<or> k = KindUpstreamDown \<or> k = KindUpstreamOverloaded) =
   (retryableActionKind k \<or> k = KindRateLimit)"
  by (auto simp: retryableActionKind_def)

lemma Decide_action: "ad_Action (DecideNextAction ctx) = actionTable ctx"
  unfolding DecideNextAction_def actionTable_def Let_def committed_kinds
  by (simp add: decideByKind_action decideRetryable_action)


lemmas kind_sets = retryableActionKind_def terminalActionKind_def

lemma retryable_kind:
  assumes "retryableActionKind k"
  shows "\<not> terminalActionKind k" "k \<noteq> KindCanceled" "k \<noteq> KindNone" "k \<noteq> KindOther s"
  using assms by (auto simp: kind_sets)

text \<open>The flags that ask the owning layer to write shared provider or credential state.\<close>

definition recordsFailure :: "actionDecision \<Rightarrow> bool" where
  "recordsFailure d \<longleftrightarrow> ad_RecordProviderFailure d \<or> ad_RecordCredentialFailure d \<or> ad_RecordCredentialState d"

lemma decideByKind_records:
  "recordsFailure (decideByKind ctx (decisionBase ctx)) \<longleftrightarrow>
     dc_Kind ctx \<in> {KindAuth, KindQuota, KindQuotaPeriodic, KindQuotaBalance, KindRateLimit, KindUpstreamDown, KindNoAvailableChannel}"
  by (auto simp: decideByKind_def recordsFailure_def Let_def)

lemma Decide_records:
  "recordsFailure (DecideNextAction ctx) \<Longrightarrow>
     retryableActionKind (dc_Kind ctx) \<or>
     dc_Kind ctx \<in> {KindAuth, KindQuota, KindQuotaPeriodic, KindQuotaBalance, KindRateLimit, KindNoAvailableChannel}"
  using decideByKind_records [of ctx] unfolding DecideNextAction_def Let_def
  by (auto simp: recordsFailure_def withContext_def zeroDecision_def retryableActionKind_def split: if_split_asm)

section \<open>Driving the policy\<close>

text \<open>
  A caller that obeys \<open>retry_same_node\<close>: it spends one attempt and journals the retry under the
  next sequence number, and asks again if the attempt fails with the same kind. The recursion ends
  because each retry is counted by \<open>historyNodeRetryCount\<close>.
\<close>

definition journalRetry :: "decisionContext \<Rightarrow> decisionContext" where
  "journalRetry ctx =
     (let h = dc_History ctx;
          entry = \<lparr>pa_Seq = dh_LastSeq h + 1, pa_AttemptNo = dc_AttemptNo ctx, pa_Model = dc_ResolvedModel ctx,
            pa_ProviderID = dc_ProviderID ctx, pa_CredentialID = dc_CredentialID ctx, pa_Kind = dc_Kind ctx,
            pa_Action = ActionRetrySameNode, pa_RetryAfter = dc_RetryAfter ctx, pa_Committed = False,
            pa_ClientDisconnected = False\<rparr>
      in ctx\<lparr>dc_History := h\<lparr>dh_PriorAttempts := dh_PriorAttempts h @ [entry], dh_LastSeq := dh_LastSeq h + 1\<rparr>,
             dc_AttemptNo := dc_AttemptNo ctx + 1, dc_RemainingAttempts := dc_RemainingAttempts ctx - 1\<rparr>)"

lemma journalRetry_simps [simp]:
  "currentNode (journalRetry ctx) = currentNode ctx"
  "dc_MaxSameNodeRetries (journalRetry ctx) = dc_MaxSameNodeRetries ctx"
  "dc_SameNodeRetryCount (journalRetry ctx) = dc_SameNodeRetryCount ctx"
  "dc_RemainingAttempts (journalRetry ctx) = dc_RemainingAttempts ctx - 1"
  "dc_Kind (journalRetry ctx) = dc_Kind ctx" "dc_HasAlternateNode (journalRetry ctx) = dc_HasAlternateNode ctx"
  "committed (journalRetry ctx) = committed ctx" "dc_ClientDisconnected (journalRetry ctx) = dc_ClientDisconnected ctx"
  "dh_TriedNodes (dc_History (journalRetry ctx)) = dh_TriedNodes (dc_History ctx)"
  "dh_Terminal (dc_History (journalRetry ctx)) = dh_Terminal (dc_History ctx)"
  "dh_LastSeq (dc_History (journalRetry ctx)) = dh_LastSeq (dc_History ctx) + 1"
  by (simp_all add: journalRetry_def Let_def currentNode_def committed_def)

lemma journalRetry_count [simp]:
  "historyNodeRetryCount (dc_History (journalRetry ctx)) (currentNode ctx) =
     historyNodeRetryCount (dc_History ctx) (currentNode ctx) + 1"
  by (simp add: historyNodeRetryCount_def journalRetry_def Let_def sameNode_def currentNode_def)

lemma retry_budget:
  assumes "ad_Action (DecideNextAction ctx) = ActionRetrySameNode"
  shows "historyNodeRetryCount (dc_History ctx) (currentNode ctx) < dc_MaxSameNodeRetries ctx"
    "dc_SameNodeRetryCount ctx < dc_MaxSameNodeRetries ctx" "0 < dc_RemainingAttempts ctx"
    "currentNode ctx \<notin> set (dh_TriedNodes (dc_History ctx))" "retryableActionKind (dc_Kind ctx)" "\<not> committed ctx"
    "\<not> dc_ClientDisconnected ctx" "validateDecisionHistory (dc_History ctx) = []" "\<not> dh_Terminal (dc_History ctx)"
  using assms unfolding Decide_action
  by (auto simp: actionTable_def effectiveRetryCount_def Let_def historyContainsTriedNode_def split: if_splits)

function driveRetries :: "decisionContext \<Rightarrow> nat" where
  "driveRetries ctx =
     (if ad_Action (DecideNextAction ctx) = ActionRetrySameNode then Suc (driveRetries (journalRetry ctx)) else 0)"
  by pat_completeness auto
termination
proof (relation "measure (\<lambda>ctx. nat (dc_MaxSameNodeRetries ctx - historyNodeRetryCount (dc_History ctx) (currentNode ctx)))")
  fix ctx
  assume "ad_Action (DecideNextAction ctx) = ActionRetrySameNode"
  from retry_budget(1) [OF this]
  show "(journalRetry ctx, ctx) \<in> measure (\<lambda>ctx. nat (dc_MaxSameNodeRetries ctx - historyNodeRetryCount (dc_History ctx) (currentNode ctx)))"
    by simp
qed simp

declare driveRetries.simps [simp del]

text \<open>A history whose sequence numbers stay below \<open>LastSeq\<close>, as the dispatch journal writes them.\<close>

definition wellSequenced :: "decisionHistory \<Rightarrow> bool" where
  "wellSequenced h \<longleftrightarrow> validateDecisionHistory h = [] \<and> (\<forall>p \<in> set (dh_PriorAttempts h). pa_Seq p \<le> dh_LastSeq h)"

lemma seqMonotonic_snoc:
  "seqMonotonic prev es \<Longrightarrow> \<forall>p \<in> set es. pa_Seq p < pa_Seq e \<Longrightarrow> prev < pa_Seq e \<Longrightarrow> seqMonotonic prev (es @ [e])"
  by (induction prev es rule: seqMonotonic.induct) (auto split: if_splits)

lemma wellSequenced_journal:
  assumes "wellSequenced (dc_History ctx)"
  shows "wellSequenced (dc_History (journalRetry ctx))"
proof -
  let ?h = "dc_History ctx"
  have "0 \<le> dh_LastSeq ?h" "seqMonotonic 0 (dh_PriorAttempts ?h)"
    "\<not> list_ex (\<lambda>node. an_Model node = [] \<or> an_CredentialID node \<le> 0) (dh_TriedNodes ?h)"
    "\<forall>p \<in> set (dh_PriorAttempts ?h). pa_Seq p \<le> dh_LastSeq ?h"
    using assms by (auto simp: wellSequenced_def validateDecisionHistory_def split: if_splits)
  then show ?thesis
    unfolding wellSequenced_def validateDecisionHistory_def journalRetry_def Let_def
    by (auto intro!: seqMonotonic_snoc)
qed

lemma driveRetries_exact:
  assumes "wellSequenced (dc_History ctx)" "\<not> dh_Terminal (dc_History ctx)" "\<not> dc_ClientDisconnected ctx"
    "retryableActionKind (dc_Kind ctx)" "\<not> committed ctx" "currentNode ctx \<notin> set (dh_TriedNodes (dc_History ctx))"
    "dc_SameNodeRetryCount ctx \<le> historyNodeRetryCount (dc_History ctx) (currentNode ctx)"
  shows "driveRetries ctx =
    nat (min (dc_MaxSameNodeRetries ctx - historyNodeRetryCount (dc_History ctx) (currentNode ctx)) (dc_RemainingAttempts ctx))"
  using assms
proof (induction ctx rule: driveRetries.induct)
  case (1 ctx)
  let ?c = "historyNodeRetryCount (dc_History ctx) (currentNode ctx)"
  have act: "ad_Action (DecideNextAction ctx) = ActionRetrySameNode \<longleftrightarrow> ?c < dc_MaxSameNodeRetries ctx \<and> 0 < dc_RemainingAttempts ctx"
    using "1.prems" retryable_kind [OF "1.prems"(4)] unfolding Decide_action
    by (simp add: actionTable_def effectiveRetryCount_def Let_def historyContainsTriedNode_def wellSequenced_def)
  show ?case
  proof (cases "?c < dc_MaxSameNodeRetries ctx \<and> 0 < dc_RemainingAttempts ctx")
    case True
    with act have a: "ad_Action (DecideNextAction ctx) = ActionRetrySameNode" by blast
    have "driveRetries (journalRetry ctx) = nat (min (dc_MaxSameNodeRetries ctx - (?c + 1)) (dc_RemainingAttempts ctx - 1))"
      using "1.IH" [OF a] "1.prems" wellSequenced_journal by simp
    moreover have "Suc (nat (min (dc_MaxSameNodeRetries ctx - (?c + 1)) (dc_RemainingAttempts ctx - 1))) =
        nat (min (dc_MaxSameNodeRetries ctx - ?c) (dc_RemainingAttempts ctx))"
      using True by linarith
    ultimately show ?thesis using a by (subst driveRetries.simps) simp
  next
    case False
    then show ?thesis using act by (subst driveRetries.simps) auto
  qed
qed


section \<open>Properties\<close>

abbreviation demoCtx :: "errorKind \<Rightarrow> actionCommitState \<Rightarrow> int \<Rightarrow> int \<Rightarrow> decisionContext" where
  "demoCtx k cs budget remaining \<equiv> \<lparr>dc_RequestID = ''r'', dc_TenantID = ''t'', dc_SessionID = ''s'', dc_ClientProtocol = ''openai'',
     dc_Phase = PhaseUpstream, dc_AttemptNo = 1, dc_SameNodeRetryCount = 0, dc_MaxSameNodeRetries = budget,
     dc_RemainingAttempts = remaining, dc_ProviderID = 1, dc_CredentialID = 7, dc_ResolvedModel = ''m'',
     dc_HasAlternateNode = True, dc_AllowProviderChange = False, dc_AllowModelChange = False,
     dc_History = \<lparr>dh_PriorAttempts = [], dh_TriedNodes = [], dh_TriedModels = [], dh_Terminal = False, dh_LastSeq = 0\<rparr>,
     dc_CommitState = cs, dc_SemanticOutputVisible = False, dc_ClientDisconnected = False, dc_Kind = k,
     dc_HTTPStatus = 502, dc_RetryAfter = 0\<rparr>"

lemma demo_history [simp]:
  "validateDecisionHistory \<lparr>dh_PriorAttempts = [], dh_TriedNodes = [], dh_TriedModels = [], dh_Terminal = b, dh_LastSeq = 0\<rparr> = []"
  by (simp add: validateDecisionHistory_def)

text \<open>
  C9.
  Committed output is never replayed on the same node and never replayed blindly: once content
  is visible to the client, \<open>DecideNextAction\<close> returns \<open>retry_same_node\<close> for no kind, and
  for the retryable kinds and rate limits it answers \<open>resume_blocked\<close> (unless the history is
  invalid or the client is gone). A switch of node can come only from \<open>request_rejected\<close>,
  \<open>model_unavailable\<close> and \<open>auth\<close>.
\<close>
theorem committed_output_not_retried:
  assumes com: "committed ctx"
  defines "act \<equiv> ad_Action (DecideNextAction ctx)"
  shows "act \<noteq> ActionRetrySameNode \<and>
    (act = ActionSwitchNode \<longrightarrow> dc_Kind ctx \<in> {KindRequestRejected, KindModelUnavailable, KindAuth}) \<and>
    (retryableActionKind (dc_Kind ctx) \<or> dc_Kind ctx = KindRateLimit \<longrightarrow>
       act \<in> {ActionResumeBlocked, ActionClientCanceled, ActionFailClosed})"
  unfolding act_def Decide_action using com by (auto simp: actionTable_def Let_def split: if_split_asm)

lemma committed_output_not_retried_witness:
  "committed (demoCtx KindNetwork ActionCommitToolCall 3 5) \<and>
   ad_Action (DecideNextAction (demoCtx KindNetwork ActionCommitToolCall 3 5)) = ActionResumeBlocked"
proof -
  let ?ctx = "demoCtx KindNetwork ActionCommitToolCall 3 5"
  have com: "committed ?ctx" by (simp add: committed_def less_eq_actionCommitState_def)
  have "ad_Action (DecideNextAction ?ctx) \<notin> {ActionClientCanceled, ActionFailClosed}"
    using com unfolding Decide_action by (simp add: actionTable_def kind_sets)
  then show ?thesis using committed_output_not_retried [OF com] com by (simp add: retryableActionKind_def)
qed

text \<open>
  Same-node retries are exactly the budget. A caller that obeys \<open>retry_same_node\<close> on an
  uncommitted request whose attempts keep failing with a retryable kind gets exactly as many
  same-node retries as both the node budget not yet used by the journal and the remaining attempts
  allow, and then none.
\<close>
theorem same_node_retries_exact:
  assumes "wellSequenced (dc_History ctx)" "\<not> dh_Terminal (dc_History ctx)" "\<not> dc_ClientDisconnected ctx"
    "retryableActionKind (dc_Kind ctx)" "\<not> committed ctx" "currentNode ctx \<notin> set (dh_TriedNodes (dc_History ctx))"
    "dc_SameNodeRetryCount ctx \<le> historyNodeRetryCount (dc_History ctx) (currentNode ctx)"
  shows "driveRetries ctx =
    nat (min (dc_MaxSameNodeRetries ctx - historyNodeRetryCount (dc_History ctx) (currentNode ctx)) (dc_RemainingAttempts ctx))"
  using assms by (rule driveRetries_exact)

lemma same_node_retries_exact_witness:
  "driveRetries (demoCtx KindTimeout ActionCommitMetadata 2 9) = 2"
  by (subst same_node_retries_exact)
    (simp_all add: wellSequenced_def kind_sets committed_def less_eq_actionCommitState_def historyNodeRetryCount_def)

text \<open>
  A same-node retry is decided only when it is allowed: the history is valid and not terminal,
  the node is not in the tried set, the journal and the caller both count fewer retries than the
  budget, an attempt is left, nothing is committed, the client is there and the kind is retryable.
  When one of the budgets is spent, the policy moves on: to another node if one exists and an
  attempt is left, and to a terminal failure otherwise, never to a wait.
\<close>
theorem retry_only_within_budget:
  "(ad_Action (DecideNextAction ctx) = ActionRetrySameNode \<longrightarrow>
      validateDecisionHistory (dc_History ctx) = [] \<and> \<not> dh_Terminal (dc_History ctx) \<and>
      currentNode ctx \<notin> set (dh_TriedNodes (dc_History ctx)) \<and>
      historyNodeRetryCount (dc_History ctx) (currentNode ctx) < dc_MaxSameNodeRetries ctx \<and>
      dc_SameNodeRetryCount ctx < dc_MaxSameNodeRetries ctx \<and> 0 < dc_RemainingAttempts ctx \<and>
      \<not> committed ctx \<and> \<not> dc_ClientDisconnected ctx \<and> retryableActionKind (dc_Kind ctx)) \<and>
   (retryableActionKind (dc_Kind ctx) \<and> \<not> committed ctx \<and> \<not> dc_ClientDisconnected ctx \<and>
    validateDecisionHistory (dc_History ctx) = [] \<and> \<not> dh_Terminal (dc_History ctx) \<and>
    (currentNode ctx \<in> set (dh_TriedNodes (dc_History ctx)) \<or>
     dc_MaxSameNodeRetries ctx \<le> historyNodeRetryCount (dc_History ctx) (currentNode ctx) \<or> dc_RemainingAttempts ctx \<le> 0) \<longrightarrow>
    ad_Action (DecideNextAction ctx) =
      (if dc_HasAlternateNode ctx \<and> 0 < dc_RemainingAttempts ctx then ActionSwitchNode else ActionFailTerminal))"
proof
  show "ad_Action (DecideNextAction ctx) = ActionRetrySameNode \<longrightarrow>
      validateDecisionHistory (dc_History ctx) = [] \<and> \<not> dh_Terminal (dc_History ctx) \<and>
      currentNode ctx \<notin> set (dh_TriedNodes (dc_History ctx)) \<and>
      historyNodeRetryCount (dc_History ctx) (currentNode ctx) < dc_MaxSameNodeRetries ctx \<and>
      dc_SameNodeRetryCount ctx < dc_MaxSameNodeRetries ctx \<and> 0 < dc_RemainingAttempts ctx \<and>
      \<not> committed ctx \<and> \<not> dc_ClientDisconnected ctx \<and> retryableActionKind (dc_Kind ctx)"
    using retry_budget by blast
next
  show "retryableActionKind (dc_Kind ctx) \<and> \<not> committed ctx \<and> \<not> dc_ClientDisconnected ctx \<and>
    validateDecisionHistory (dc_History ctx) = [] \<and> \<not> dh_Terminal (dc_History ctx) \<and>
    (currentNode ctx \<in> set (dh_TriedNodes (dc_History ctx)) \<or>
     dc_MaxSameNodeRetries ctx \<le> historyNodeRetryCount (dc_History ctx) (currentNode ctx) \<or> dc_RemainingAttempts ctx \<le> 0) \<longrightarrow>
    ad_Action (DecideNextAction ctx) =
      (if dc_HasAlternateNode ctx \<and> 0 < dc_RemainingAttempts ctx then ActionSwitchNode else ActionFailTerminal)"
  proof
    assume h: "retryableActionKind (dc_Kind ctx) \<and> \<not> committed ctx \<and> \<not> dc_ClientDisconnected ctx \<and>
      validateDecisionHistory (dc_History ctx) = [] \<and> \<not> dh_Terminal (dc_History ctx) \<and>
      (currentNode ctx \<in> set (dh_TriedNodes (dc_History ctx)) \<or>
       dc_MaxSameNodeRetries ctx \<le> historyNodeRetryCount (dc_History ctx) (currentNode ctx) \<or> dc_RemainingAttempts ctx \<le> 0)"
    then have kinds: "\<not> terminalActionKind (dc_Kind ctx)" "dc_Kind ctx \<noteq> KindCanceled" "dc_Kind ctx \<noteq> KindNone"
      "dc_Kind ctx \<noteq> KindOther []" using retryable_kind by blast+
    have "\<not> (\<not> historyContainsTriedNode (dc_History ctx) (currentNode ctx) \<and>
        effectiveRetryCount ctx < dc_MaxSameNodeRetries ctx \<and> dc_RemainingAttempts ctx > 0)"
      using h by (auto simp: effectiveRetryCount_def historyContainsTriedNode_def Let_def)
    then show "ad_Action (DecideNextAction ctx) =
      (if dc_HasAlternateNode ctx \<and> 0 < dc_RemainingAttempts ctx then ActionSwitchNode else ActionFailTerminal)"
      unfolding Decide_action actionTable_def Let_def using h kinds by (simp; blast)
  qed
qed

lemma retry_only_within_budget_witness:
  "retryableActionKind KindTimeout \<and>
   ad_Action (DecideNextAction (demoCtx KindTimeout ActionCommitNone 0 9)) = ActionSwitchNode"
proof -
  let ?ctx = "demoCtx KindTimeout ActionCommitNone 0 9"
  have "retryableActionKind KindTimeout" by (simp add: kind_sets)
  moreover have "\<not> committed ?ctx" by (simp add: committed_def less_eq_actionCommitState_def)
  moreover have "dc_MaxSameNodeRetries ?ctx \<le> historyNodeRetryCount (dc_History ?ctx) (currentNode ?ctx)"
    by (simp add: historyNodeRetryCount_def)
  ultimately show ?thesis using retry_only_within_budget [of ?ctx] by simp
qed

text \<open>
  The policy fails closed exactly on a broken or terminal history, on a missing kind, and on the
  kinds it has no rule for: labels outside the taxonomy and the three kinds \<open>first_byte_timeout\<close>,
  \<open>reply_loop\<close> and \<open>account_restricted\<close>.
\<close>
theorem fails_closed_exactly:
  "ad_Action (DecideNextAction ctx) = ActionFailClosed \<longleftrightarrow>
     validateDecisionHistory (dc_History ctx) \<noteq> [] \<or> dh_Terminal (dc_History ctx) \<or>
     \<not> dc_ClientDisconnected ctx \<and>
       dc_Kind ctx \<in> {KindNone, KindFirstByteTimeout, KindReplyLoop, KindAccountRestricted} \<union> range KindOther"
proof -
  have "actionTable ctx = ActionFailClosed \<longleftrightarrow>
     validateDecisionHistory (dc_History ctx) \<noteq> [] \<or> dh_Terminal (dc_History ctx) \<or>
     \<not> dc_ClientDisconnected ctx \<and>
       dc_Kind ctx \<in> {KindNone, KindFirstByteTimeout, KindReplyLoop, KindAccountRestricted} \<union> range KindOther"
    by (cases "dc_Kind ctx") (simp_all add: actionTable_def kind_sets image_iff Let_def)
  then show ?thesis by (simp only: Decide_action)
qed

lemma fails_closed_exactly_witness:
  "ad_Action (DecideNextAction (demoCtx KindReplyLoop ActionCommitNone 1 1)) = ActionFailClosed"
  using fails_closed_exactly [of "demoCtx KindReplyLoop ActionCommitNone 1 1"] by simp

text \<open>
  A request-side error never touches shared state, whichever policy is asked: it carries no
  penalty, is no node fault, is neither retryable nor automatically probed, is reported as not
  recoverable, maps to the reducer's request kind, and \<open>DecideNextAction\<close> sets none of the
  failure-recording flags in any context.
\<close>
theorem request_side_never_penalised:
  assumes "IsRequestSideError (dc_Kind ctx)"
  shows "pe_Target (PenaltyOf (dc_Kind ctx)) = PenaltyNone \<and> \<not> IsNodeFaultPenalty (dc_Kind ctx) \<and>
    \<not> IsRetryable (dc_Kind ctx) \<and> \<not> IsAutomaticProbeEligible (dc_Kind ctx) \<and> \<not> EffectiveRetryable (dc_Kind ctx) \<and>
    nodeHealthErrorKind (dc_Kind ctx) = NHRequest \<and> \<not> recordsFailure (DecideNextAction ctx) \<and>
    ad_Action (DecideNextAction ctx) \<noteq> ActionRetrySameNode"
proof (intro conjI)
  have kinds: "dc_Kind ctx \<in> {KindClientBug, KindToolCallIdMismatch, KindUnsupportedFeature, KindCanceled, KindRequestRejected}"
    using assms by (auto simp: IsRequestSideError_def IsClientBug_def)
  then show "pe_Target (PenaltyOf (dc_Kind ctx)) = PenaltyNone" "\<not> IsNodeFaultPenalty (dc_Kind ctx)"
    "\<not> IsRetryable (dc_Kind ctx)" "\<not> IsAutomaticProbeEligible (dc_Kind ctx)" "nodeHealthErrorKind (dc_Kind ctx) = NHRequest"
    by (auto simp: IsNodeFaultPenalty_def kind_defs IsAutomaticProbeEligible_def AutomaticProbePolicyFor_def nodeHealthErrorKind_def)
  show "\<not> EffectiveRetryable (dc_Kind ctx)"
    using kinds by (auto simp: EffectiveRetryable_def ProjectRecovery_def IsRetryable_def Let_def)
  show "\<not> recordsFailure (DecideNextAction ctx)"
    using kinds Decide_records [of ctx] by (auto simp: kind_sets)
  show "ad_Action (DecideNextAction ctx) \<noteq> ActionRetrySameNode"
    using kinds retry_budget(5) [of ctx] by (auto simp: kind_sets)
qed

lemma request_side_never_penalised_witness:
  "\<not> recordsFailure (DecideNextAction (demoCtx KindRequestRejected ActionCommitNone 3 9)) \<and>
   \<not> EffectiveRetryable KindRequestRejected"
  using request_side_never_penalised [of "demoCtx KindRequestRejected ActionCommitNone 3 9"]
  by (simp add: IsRequestSideError_def)

text \<open>
  The recovery projection tells the client what the gateway does. If the policy ever retries or
  switches node for a kind, the kind is reported as retryable unless it is one of the registered
  exclusions; and a kind reported as retryable is one the policy retries, switches or waits for in
  a fresh context with budget.
\<close>
theorem projection_matches_policy:
  "(ad_Action (DecideNextAction ctx) \<in> {ActionRetrySameNode, ActionSwitchNode} \<longrightarrow>
      EffectiveRetryable (dc_Kind ctx) \<or> RecoveryProjectionExclusionReason (dc_Kind ctx) \<noteq> None) \<and>
   (EffectiveRetryable k \<longrightarrow>
      ad_Action (DecideNextAction (demoCtx k ActionCommitNone 1 1)) \<in> {ActionRetrySameNode, ActionSwitchNode, ActionWaitRecovery})"
proof
  have excl: "RecoveryProjectionExclusionReason k \<noteq> None \<longleftrightarrow> k = KindRequestRejected \<or> k = KindAuth" for k
    by (simp add: RecoveryProjectionExclusionReason_def recoveryProjectionExcludedKinds_def
        recoveryProjectionExclusionEligible_def kind_defs)
  have eff: "EffectiveRetryable k \<longleftrightarrow> retryableActionKind k \<or> k = KindNoAvailableChannel \<or> k = KindModelUnavailable" for k
    unfolding EffectiveRetryable_def ProjectRecovery_def Let_def excl
    by (cases k) (simp_all add: IsRetryable_def retryableActionKind_def)
  show "ad_Action (DecideNextAction ctx) \<in> {ActionRetrySameNode, ActionSwitchNode} \<longrightarrow>
      EffectiveRetryable (dc_Kind ctx) \<or> RecoveryProjectionExclusionReason (dc_Kind ctx) \<noteq> None"
    unfolding eff excl Decide_action actionTable_def Let_def by (auto split: if_split_asm)
  have "\<not> committed (demoCtx k ActionCommitNone 1 1)" by (simp add: committed_def less_eq_actionCommitState_def)
  then show "EffectiveRetryable k \<longrightarrow>
      ad_Action (DecideNextAction (demoCtx k ActionCommitNone 1 1)) \<in> {ActionRetrySameNode, ActionSwitchNode, ActionWaitRecovery}"
    unfolding eff Decide_action by (cases k) (simp_all add: actionTable_def kind_sets)
qed

lemma projection_matches_policy_witness:
  "EffectiveRetryable KindNetwork \<and>
   ad_Action (DecideNextAction (demoCtx KindNetwork ActionCommitNone 1 1)) \<in> {ActionRetrySameNode, ActionSwitchNode, ActionWaitRecovery}"
proof -
  have "EffectiveRetryable KindNetwork"
    by (simp add: EffectiveRetryable_def ProjectRecovery_def IsRetryable_def RecoveryProjectionExclusionReason_def
        recoveryProjectionExcludedKinds_def)
  then show ?thesis using projection_matches_policy by blast
qed

end
