(* ===== verification/Planner.thy ===== *)
theory Planner
  imports ActionPolicy
begin

text \<open>
  The request state of the dispatch pipeline and the pure planner over it: \<open>queued_request.go\<close>,
  \<open>journal.go\<close>, the attempt bookkeeping of \<open>journey.go\<close>, \<open>planner.go\<close> and
  \<open>capacity_aware_sort.go\<close> of \<open>domains/dispatch\<close>. A \<open>QueuedRequest\<close> is a record with the fields the
  failover ladder reads or writes (contexts, channels, transport callbacks, stage timestamps and
  vendor labels for metrics are left out); the tried sets are lists without repetition, in
  insertion order. \<open>errorsx.ClassifyError\<close>, which matches regular expressions against error
  texts, is the argument \<open>classify\<close>. Error values are a datatype; \<open>rootErr\<close> is what
  \<open>errors.Is\<close> sees through the wrapping \<open>ExhaustedError\<close>. A label of \<open>ErrorKind\<close> outside
  the taxonomy is \<open>KindOther\<close>.
\<close>

section \<open>Data\<close>

datatype nextActionKind =
  NextActionRetrySameCred | NextActionSwitchCred | NextActionSwitchModel | NextActionCapacityWait
| NextActionScheduledWait | NextActionCompleted | NextActionFailed | NextActionCanceled

record credentialRef =
  cr_CredentialID :: int
  cr_ProviderID :: int
  cr_ConcurrencyMode :: string
  cr_ConcurrencyLimit :: int
  cr_RPMLimit :: int
  cr_TPMLimit :: int
  cr_MaxQueueDepth :: int
  cr_MaxQueueWaitMS :: int
  cr_Vendor :: string

record exhaustionAttempt =
  xa_Model :: string
  xa_ProviderID :: int
  xa_CredentialID :: int
  xa_Reason :: errorKind

datatype dispErr =
  CtxCanceled | CtxDeadlineExceeded | ErrShutdown | ErrPaceTimeout | ErrCapacitySaturated | ErrNoRoute
| OverflowError string duration | ErrGovernorUnavailable | OtherErr string
| ExhaustedError dispErr "exhaustionAttempt list"

fun rootErr :: "dispErr \<Rightarrow> dispErr" where
  "rootErr (ExhaustedError cause attempts) = rootErr cause"
| "rootErr e = e"

record forwardOutcome =
  fo_Result :: string
  fo_BytesSent :: bool
  fo_FatalCredential :: bool
  fo_ErrorKind :: errorKind
  fo_RetryAfter :: duration
  fo_HTTPStatus :: int
  fo_Err :: "dispErr option"

definition errOutcome :: "dispErr \<Rightarrow> forwardOutcome" where
  "errOutcome e = \<lparr>fo_Result = [], fo_BytesSent = False, fo_FatalCredential = False, fo_ErrorKind = KindNone,
     fo_RetryAfter = 0, fo_HTTPStatus = 0, fo_Err = Some e\<rparr>"

record actionCounts =
  ac_Retries :: int
  ac_NodeSwitches :: int
  ac_ModelSwitches :: int
  ac_CapacityWaits :: int
  ac_ScheduledWaits :: int

record journalEntry =
  je_Seq :: int
  je_At :: "instant option"
  je_Model :: string
  je_CredentialID :: int
  je_ProviderID :: int
  je_Vendor :: string
  je_Action :: nextActionKind
  je_ErrorKind :: errorKind
  je_HTTPStatus :: int
  je_Attempt :: int
  je_Counts :: actionCounts
  je_FromModel :: string
  je_ToModel :: string
  je_FromCredentialID :: int
  je_ToCredentialID :: int
  je_FromProviderID :: int
  je_ToProviderID :: int

definition zeroCounts :: actionCounts where
  "zeroCounts = \<lparr>ac_Retries = 0, ac_NodeSwitches = 0, ac_ModelSwitches = 0, ac_CapacityWaits = 0, ac_ScheduledWaits = 0\<rparr>"

definition newEntry :: "nextActionKind \<Rightarrow> journalEntry" where
  "newEntry a = \<lparr>je_Seq = 0, je_At = None, je_Model = [], je_CredentialID = 0, je_ProviderID = 0, je_Vendor = [],
     je_Action = a, je_ErrorKind = KindNone, je_HTTPStatus = 0, je_Attempt = 0, je_Counts = zeroCounts, je_FromModel = [],
     je_ToModel = [], je_FromCredentialID = 0, je_ToCredentialID = 0, je_FromProviderID = 0, je_ToProviderID = 0\<rparr>"

record failoverMarker =
  fm_ErrorKind :: errorKind
  fm_HTTPStatus :: int
  fm_Model :: string
  fm_CredentialID :: int
  fm_Vendor :: string
  fm_NextAction :: "nextActionKind option"
  fm_Attempt :: int
  fm_StampedAt :: "instant option"

record attemptRef =
  ar_AttemptID :: string
  ar_AttemptNo :: int
  ar_Model :: string
  ar_ProviderID :: int
  ar_Provider :: string
  ar_CredentialID :: int

record dispatchAttempt =
  da_ref :: attemptRef
  da_startedAt :: "instant option"
  da_endedAt :: "instant option"
  da_errorKind :: errorKind

record queuedRequest =
  qr_ID :: string
  qr_TenantID :: string
  qr_SessionID :: string
  qr_RequestedModel :: string
  qr_ResolvedModel :: string
  qr_AllowModelChange :: bool
  qr_AllowProviderChange :: bool
  qr_RetryPerCredential :: int
  qr_ModelAlternatives :: "string list"
  qr_InitialProviderID :: int
  qr_SelectedCred :: credentialRef
  qr_LastFailover :: failoverMarker
  qr_AttemptJournal :: "journalEntry list"
  qr_Counts :: actionCounts
  qr_journalSeq :: int
  qr_TriedCredentials :: "int list"
  qr_TriedModels :: "string list"
  qr_CredRetryCount :: int
  qr_CapacityRetryCount :: int
  qr_AttemptCount :: int
  qr_attempts :: "dispatchAttempt list"
  qr_currentAttempt :: "dispatchAttempt option"
  qr_ResultCh :: "forwardOutcome list"
  qr_completed :: bool
  qr_abandoned :: bool

record dispatchConfig =
  cfg_MaxQueueDepth :: int
  cfg_MaxQueueWaitMS :: int
  cfg_RetryPerCredential :: int
  cfg_RetryBudgetPercent :: int
  cfg_RetryBudgetFloor :: int
  cfg_RetryBudgetEnforce :: bool
  cfg_RetryJitterEnabled :: bool

definition zeroCred :: credentialRef where
  "zeroCred = \<lparr>cr_CredentialID = 0, cr_ProviderID = 0, cr_ConcurrencyMode = [], cr_ConcurrencyLimit = 0, cr_RPMLimit = 0,
     cr_TPMLimit = 0, cr_MaxQueueDepth = 0, cr_MaxQueueWaitMS = 0, cr_Vendor = []\<rparr>"

definition zeroMarker :: failoverMarker where
  "zeroMarker = \<lparr>fm_ErrorKind = KindNone, fm_HTTPStatus = 0, fm_Model = [], fm_CredentialID = 0, fm_Vendor = [],
     fm_NextAction = None, fm_Attempt = 0, fm_StampedAt = None\<rparr>"

definition NewQueuedRequest :: "string \<Rightarrow> string \<Rightarrow> string \<Rightarrow> queuedRequest" where
  "NewQueuedRequest reqID tenantID model = \<lparr>qr_ID = reqID, qr_TenantID = tenantID, qr_SessionID = [],
     qr_RequestedModel = model, qr_ResolvedModel = [], qr_AllowModelChange = False, qr_AllowProviderChange = False,
     qr_RetryPerCredential = -1, qr_ModelAlternatives = [], qr_InitialProviderID = 0, qr_SelectedCred = zeroCred,
     qr_LastFailover = zeroMarker, qr_AttemptJournal = [], qr_Counts = zeroCounts, qr_journalSeq = 0,
     qr_TriedCredentials = [], qr_TriedModels = [], qr_CredRetryCount = 0, qr_CapacityRetryCount = 0, qr_AttemptCount = 0,
     qr_attempts = [], qr_currentAttempt = None, qr_ResultCh = [], qr_completed = False, qr_abandoned = False\<rparr>"

definition MaxNodeFailures :: int where "MaxNodeFailures = 3"
definition maxAttempts :: int where "maxAttempts = 100"
definition maxRetryBudget :: int where "maxRetryBudget = 2 ^ 30"
definition journalCapacity :: nat where "journalCapacity = 128"
definition capacityRetryDelay :: duration where "capacityRetryDelay = 5 * go_second"
definition maxCapacityRetries :: int where "maxCapacityRetries = 12"

definition reasonAttemptCap :: errorKind where "reasonAttemptCap = KindOther ''attempt_cap''"

section \<open>Request state (queued\_request.go, journal.go, journey.go)\<close>

definition markTriedCredential :: "int \<Rightarrow> queuedRequest \<Rightarrow> queuedRequest" where
  "markTriedCredential credID qr = qr\<lparr>qr_TriedCredentials := List.insert credID (qr_TriedCredentials qr)\<rparr>"

definition markTriedModel :: "string \<Rightarrow> queuedRequest \<Rightarrow> queuedRequest" where
  "markTriedModel model qr = (if model = [] then qr else qr\<lparr>qr_TriedModels := List.insert model (qr_TriedModels qr)\<rparr>)"

definition hasTriedCredential :: "queuedRequest \<Rightarrow> int \<Rightarrow> bool" where
  "hasTriedCredential qr credID \<longleftrightarrow> credID \<in> set (qr_TriedCredentials qr)"

definition classifyError :: "dispErr option \<Rightarrow> errorKind" where
  "classifyError err = (case err of None \<Rightarrow> KindNone
     | Some e \<Rightarrow> (case rootErr e of CtxCanceled \<Rightarrow> KindCanceled | CtxDeadlineExceeded \<Rightarrow> KindOther ''deadline_exceeded''
        | ErrShutdown \<Rightarrow> KindOther ''shutdown'' | ErrPaceTimeout \<Rightarrow> KindOther ''pace_timeout''
        | ErrNoRoute \<Rightarrow> KindOther ''no_route'' | OverflowError r d \<Rightarrow> KindOther ''overflow''
        | _ \<Rightarrow> KindOther ''upstream_error''))"

definition firstNonEmpty :: "errorKind \<Rightarrow> errorKind \<Rightarrow> errorKind" where
  "firstNonEmpty a b = (if a = KindNone \<or> a = KindOther [] then b else a)"

definition isTerminalAction :: "nextActionKind \<Rightarrow> bool" where
  "isTerminalAction a \<longleftrightarrow> a \<in> {NextActionCompleted, NextActionFailed, NextActionCanceled}"

definition countAction :: "nextActionKind \<Rightarrow> actionCounts \<Rightarrow> actionCounts" where
  "countAction a c = (case a of NextActionRetrySameCred \<Rightarrow> c\<lparr>ac_Retries := ac_Retries c + 1\<rparr>
     | NextActionSwitchCred \<Rightarrow> c\<lparr>ac_NodeSwitches := ac_NodeSwitches c + 1\<rparr>
     | NextActionSwitchModel \<Rightarrow> c\<lparr>ac_ModelSwitches := ac_ModelSwitches c + 1\<rparr>
     | NextActionCapacityWait \<Rightarrow> c\<lparr>ac_CapacityWaits := ac_CapacityWaits c + 1\<rparr>
     | NextActionScheduledWait \<Rightarrow> c\<lparr>ac_ScheduledWaits := ac_ScheduledWaits c + 1\<rparr>
     | _ \<Rightarrow> c)"

definition recordDecision :: "instant \<Rightarrow> journalEntry \<Rightarrow> queuedRequest \<Rightarrow> queuedRequest" where
  "recordDecision now entry qr =
     (if qr_completed qr \<and> \<not> isTerminalAction (je_Action entry) then qr
      else
        let seq = qr_journalSeq qr + 1;
            counts = countAction (je_Action entry) (qr_Counts qr);
            e = entry\<lparr>je_Seq := seq, je_At := (if je_At entry = None then Some now else je_At entry), je_Counts := counts\<rparr>;
            journal = qr_AttemptJournal qr @ [e];
            journal' = (if journalCapacity < length journal then drop (length journal - journalCapacity) journal else journal);
            qr1 = qr\<lparr>qr_journalSeq := seq, qr_Counts := counts, qr_AttemptJournal := journal'\<rparr>
        in if isTerminalAction (je_Action e) then qr1
           else qr1\<lparr>qr_LastFailover := \<lparr>fm_ErrorKind = je_ErrorKind e, fm_HTTPStatus = je_HTTPStatus e, fm_Model = je_Model e,
                  fm_CredentialID = je_CredentialID e, fm_Vendor = je_Vendor e, fm_NextAction = Some (je_Action e),
                  fm_Attempt = je_Attempt e, fm_StampedAt = je_At e\<rparr>\<rparr>)"

definition terminalActionOf :: "forwardOutcome \<Rightarrow> nextActionKind" where
  "terminalActionOf out = (case fo_Err out of None \<Rightarrow> NextActionCompleted
     | Some e \<Rightarrow> if rootErr e = CtxCanceled \<or> rootErr e = CtxDeadlineExceeded then NextActionCanceled else NextActionFailed)"

text \<open>
  \<open>complete\<close> of \<open>pipeline.go\<close> as far as the request goes: the compare-and-swap, the terminal
  journal entry, and the send into the result channel of capacity one unless the caller left.
  Registry, mirror, metrics and sinks are written in between and do not flow back.
\<close>

definition complete :: "instant \<Rightarrow> forwardOutcome \<Rightarrow> queuedRequest \<Rightarrow> queuedRequest" where
  "complete now out qr =
     (if qr_completed qr then qr
      else
        let cred = qr_SelectedCred qr;
            qr1 = recordDecision now ((newEntry (terminalActionOf out))\<lparr>je_Model := qr_ResolvedModel qr,
                    je_CredentialID := cr_CredentialID cred, je_ProviderID := cr_ProviderID cred, je_Vendor := cr_Vendor cred,
                    je_ErrorKind := firstNonEmpty (fo_ErrorKind out) (classifyError (fo_Err out)),
                    je_HTTPStatus := fo_HTTPStatus out, je_Attempt := qr_AttemptCount qr\<rparr>) (qr\<lparr>qr_completed := True\<rparr>)
        in if qr_abandoned qr1 \<or> qr_ResultCh qr1 \<noteq> [] then qr1 else qr1\<lparr>qr_ResultCh := [out]\<rparr>)"

definition journalTailIsTerminal :: "queuedRequest \<Rightarrow> bool" where
  "journalTailIsTerminal qr \<longleftrightarrow>
     qr_AttemptJournal qr \<noteq> [] \<and> isTerminalAction (je_Action (last (qr_AttemptJournal qr)))"

text \<open>Attempt bookkeeping: reserve, commit (which counts the attempt), start, finish.\<close>

definition reserveAttempt :: "string \<Rightarrow> credentialRef \<Rightarrow> queuedRequest \<Rightarrow> queuedRequest" where
  "reserveAttempt uuid cred qr = qr\<lparr>qr_currentAttempt := Some \<lparr>da_ref = \<lparr>ar_AttemptID = uuid,
     ar_AttemptNo = qr_AttemptCount qr + 1, ar_Model = qr_ResolvedModel qr, ar_ProviderID = cr_ProviderID cred,
     ar_Provider = cr_Vendor cred, ar_CredentialID = cr_CredentialID cred\<rparr>, da_startedAt = None, da_endedAt = None,
     da_errorKind = KindNone\<rparr>\<rparr>"

definition abandonReservedAttempt :: "string \<Rightarrow> queuedRequest \<Rightarrow> queuedRequest" where
  "abandonReservedAttempt attemptID qr = (case qr_currentAttempt qr of
     Some cur \<Rightarrow> if ar_AttemptID (da_ref cur) = attemptID \<and> da_startedAt cur = None then qr\<lparr>qr_currentAttempt := None\<rparr> else qr
   | None \<Rightarrow> qr)"

definition commitReservedAttempt :: "string \<Rightarrow> queuedRequest \<Rightarrow> bool \<times> queuedRequest" where
  "commitReservedAttempt attemptID qr = (case qr_currentAttempt qr of
     Some cur \<Rightarrow> if ar_AttemptID (da_ref cur) \<noteq> attemptID \<or> ar_AttemptNo (da_ref cur) \<noteq> qr_AttemptCount qr + 1 then (False, qr)
       else (True, qr\<lparr>qr_AttemptCount := qr_AttemptCount qr + 1\<rparr>)
   | None \<Rightarrow> (False, qr))"

definition startAllocatedAttempt :: "instant \<Rightarrow> queuedRequest \<Rightarrow> bool \<times> queuedRequest" where
  "startAllocatedAttempt now qr = (case qr_currentAttempt qr of
     Some cur \<Rightarrow> if da_startedAt cur \<noteq> None then (False, qr)
       else let cur' = cur\<lparr>da_startedAt := Some now\<rparr>
            in (True, qr\<lparr>qr_currentAttempt := Some cur', qr_attempts := qr_attempts qr @ [cur']\<rparr>)
   | None \<Rightarrow> (False, qr))"

text \<open>
  The attempt that runs is the last element of \<open>qr_attempts\<close> and is shared by pointer with
  \<open>currentAttempt\<close>; finishing writes its end and its kind through that pointer.
\<close>

definition finishAttempt :: "instant \<Rightarrow> string \<Rightarrow> forwardOutcome \<Rightarrow> queuedRequest \<Rightarrow> bool \<times> queuedRequest" where
  "finishAttempt now attemptID out qr = (case qr_currentAttempt qr of
     Some cur \<Rightarrow> if ar_AttemptID (da_ref cur) \<noteq> attemptID \<or> da_startedAt cur = None \<or> da_endedAt cur \<noteq> None then (False, qr)
       else let kind = firstNonEmpty (fo_ErrorKind out) (classifyError (fo_Err out));
                cur' = cur\<lparr>da_endedAt := Some now, da_errorKind := kind\<rparr>
            in (True, qr\<lparr>qr_currentAttempt := None, qr_attempts := butlast (qr_attempts qr) @ [cur']\<rparr>)
   | None \<Rightarrow> (False, qr))"

definition exhaustionAttempts :: "queuedRequest \<Rightarrow> exhaustionAttempt list" where
  "exhaustionAttempts qr = map (\<lambda>a. \<lparr>xa_Model = ar_Model (da_ref a), xa_ProviderID = ar_ProviderID (da_ref a),
     xa_CredentialID = ar_CredentialID (da_ref a),
     xa_Reason = firstNonEmpty (da_errorKind a) (KindOther ''upstream_error'')\<rparr>) (qr_attempts qr)"

section \<open>Planner (planner.go)\<close>

record planDecision =
  pd_Action :: "nextActionKind option"
  pd_NextModel :: string
  pd_RetryAt :: "instant option"
  pd_Reason :: string

definition planOf :: "nextActionKind option \<Rightarrow> string \<Rightarrow> planDecision" where
  "planOf a reason = \<lparr>pd_Action = a, pd_NextModel = [], pd_RetryAt = None, pd_Reason = reason\<rparr>"

definition AttemptBudgetLeft :: "queuedRequest \<Rightarrow> int" where
  "AttemptBudgetLeft qr = maxAttempts - qr_AttemptCount qr"

definition retryBudgetOf :: "queuedRequest \<Rightarrow> dispatchConfig \<Rightarrow> int" where
  "retryBudgetOf qr cfg =
     (if 0 \<le> qr_RetryPerCredential qr then qr_RetryPerCredential qr
      else if 0 \<le> cfg_RetryPerCredential cfg then cfg_RetryPerCredential cfg else 0)"

definition centralAction :: "nextActionKind \<Rightarrow> nextAction" where
  "centralAction action = (case action of NextActionRetrySameCred \<Rightarrow> ActionRetrySameNode
     | NextActionSwitchCred \<Rightarrow> ActionSwitchNode | NextActionSwitchModel \<Rightarrow> ActionSwitchNode
     | NextActionCompleted \<Rightarrow> ActionFailTerminal | NextActionCanceled \<Rightarrow> ActionClientCanceled
     | NextActionFailed \<Rightarrow> ActionFailTerminal | _ \<Rightarrow> ActionEmpty)"

definition priorOf :: "journalEntry \<Rightarrow> priorAttempt" where
  "priorOf e = \<lparr>pa_Seq = je_Seq e, pa_AttemptNo = je_Attempt e, pa_Model = je_Model e, pa_ProviderID = je_ProviderID e,
     pa_CredentialID = je_CredentialID e, pa_Kind = je_ErrorKind e, pa_Action = centralAction (je_Action e),
     pa_RetryAfter = 0, pa_Committed = False, pa_ClientDisconnected = False\<rparr>"

definition decisionHistoryOf :: "queuedRequest \<Rightarrow> decisionHistory" where
  "decisionHistoryOf qr =
     (let snapshot = qr_AttemptJournal qr; prior = map priorOf snapshot
      in \<lparr>dh_PriorAttempts = prior,
          dh_TriedNodes = map (\<lambda>credentialID. \<lparr>an_Model = qr_ResolvedModel qr,
             an_ProviderID = cr_ProviderID (qr_SelectedCred qr), an_CredentialID = credentialID\<rparr>) (qr_TriedCredentials qr),
          dh_TriedModels = qr_TriedModels qr,
          dh_Terminal = (prior \<noteq> [] \<and> pa_Action (last prior) \<in> {ActionFailTerminal, ActionClientCanceled}),
          dh_LastSeq = int (length snapshot)\<rparr>)"

definition isCentralPolicyKind :: "errorKind \<Rightarrow> bool" where
  "isCentralPolicyKind kind \<longleftrightarrow> kind \<in> {KindTransient, KindTimeout, KindNetwork, KindRateLimit, KindAuth, KindQuota,
     KindUpstreamDown, KindCanceled, KindClientBug, KindRequestRejected, KindModelUnavailable, KindConcurrent,
     KindAuthRevoked, KindQuotaPeriodic, KindQuotaBalance, KindQuotaPermanent, KindModelNotFound, KindStreamTimeout,
     KindToolCallIdMismatch, KindContextLength, KindUnsupportedFeature, KindModelDeprecated, KindContentFilter,
     KindEmptyResponse, KindConversion, KindUpstreamContextLoss, KindUpstreamOverloaded, KindNoAvailableChannel,
     KindCircuitOpen, KindFpSlotSaturated}"

text \<open>The kind \<open>PlanAfterFailure\<close> hands to the central policy.\<close>

definition plannerKind :: "(dispErr \<Rightarrow> errorKind) \<Rightarrow> forwardOutcome \<Rightarrow> errorKind" where
  "plannerKind classify out =
     (let kind1 = (if fo_ErrorKind out = KindOther ''deadline_exceeded'' then KindTimeout else fo_ErrorKind out);
          kind2 = (if kind1 \<noteq> KindNone \<and> kind1 \<noteq> KindOther [] \<and> \<not> isCentralPolicyKind kind1 then KindTransient else kind1)
      in if kind2 = KindNone \<or> kind2 = KindOther []
         then (case fo_Err out of None \<Rightarrow> KindTransient | Some e \<Rightarrow> classify e)
         else kind2)"

definition plannerContext :: "(dispErr \<Rightarrow> errorKind) \<Rightarrow> queuedRequest \<Rightarrow> forwardOutcome \<Rightarrow> dispatchConfig \<Rightarrow> decisionContext" where
  "plannerContext classify qr out cfg = \<lparr>dc_RequestID = qr_ID qr, dc_TenantID = qr_TenantID qr, dc_SessionID = qr_SessionID qr,
     dc_ClientProtocol = [], dc_Phase = PhaseUpstream, dc_AttemptNo = qr_AttemptCount qr,
     dc_SameNodeRetryCount = qr_CredRetryCount qr, dc_MaxSameNodeRetries = retryBudgetOf qr cfg,
     dc_RemainingAttempts = AttemptBudgetLeft qr, dc_ProviderID = cr_ProviderID (qr_SelectedCred qr),
     dc_CredentialID = cr_CredentialID (qr_SelectedCred qr), dc_ResolvedModel = qr_ResolvedModel qr, dc_HasAlternateNode = True,
     dc_AllowProviderChange = False, dc_AllowModelChange = False, dc_History = decisionHistoryOf qr,
     dc_CommitState = ActionCommitNone, dc_SemanticOutputVisible = False, dc_ClientDisconnected = False,
     dc_Kind = plannerKind classify out, dc_HTTPStatus = 0, dc_RetryAfter = fo_RetryAfter out\<rparr>"

definition PlanAfterFailure :: "(dispErr \<Rightarrow> errorKind) \<Rightarrow> queuedRequest \<Rightarrow> forwardOutcome \<Rightarrow> dispatchConfig \<Rightarrow> planDecision" where
  "PlanAfterFailure classify qr out cfg =
     (if fo_FatalCredential out then planOf None ''cred_fatal''
      else if maxAttempts \<le> qr_AttemptCount qr then planOf (Some NextActionFailed) ''attempt_cap''
      else let action = DecideNextAction (plannerContext classify qr out cfg)
           in case ad_Action action of
                ActionFailClosed \<Rightarrow> planOf (Some NextActionFailed) (ad_ReasonCode action)
              | ActionClientCanceled \<Rightarrow> planOf (Some NextActionFailed) (ad_ReasonCode action)
              | ActionRetrySameNode \<Rightarrow> planOf (Some NextActionRetrySameCred) (ad_ReasonCode action)
              | ActionWaitRecovery \<Rightarrow> planOf None (ad_ReasonCode action)
              | ActionFailTerminal \<Rightarrow> planOf (Some NextActionFailed) (ad_ReasonCode action)
              | ActionResumeBlocked \<Rightarrow> planOf (Some NextActionFailed) (ad_ReasonCode action)
              | _ \<Rightarrow> planOf None (ad_ReasonCode action))"

definition providerSwitchAllowed :: "queuedRequest \<Rightarrow> int \<Rightarrow> bool" where
  "providerSwitchAllowed qr providerID =
     (if qr_InitialProviderID qr = 0 \<or> providerID = 0 then True
      else if providerID = qr_InitialProviderID qr then True
      else qr_AllowProviderChange qr)"

fun PlanSwitchCred :: "queuedRequest \<Rightarrow> credentialRef list \<Rightarrow> credentialRef option \<times> int list" where
  "PlanSwitchCred qr [] = (None, [])"
| "PlanSwitchCred qr (ref # refs) =
     (if hasTriedCredential qr (cr_CredentialID ref) then PlanSwitchCred qr refs
      else if \<not> providerSwitchAllowed qr (cr_ProviderID ref)
      then let (next, scoped) = PlanSwitchCred qr refs in (next, cr_CredentialID ref # scoped)
      else (Some ref, []))"

definition PlanNoRoute :: "queuedRequest \<Rightarrow> bool \<Rightarrow> planDecision" where
  "PlanNoRoute qr modelChangeEnabled =
     (if modelChangeEnabled \<and> qr_AllowModelChange qr then planOf None ''model_change''
      else planOf (Some NextActionFailed) ''model_change_disabled'')"

definition PlanModelChange :: "queuedRequest \<Rightarrow> string list \<Rightarrow> planDecision" where
  "PlanModelChange qr alts = (case List.find (\<lambda>a. a \<notin> set (qr_TriedModels qr)) alts of
     Some a \<Rightarrow> (planOf (Some NextActionSwitchModel) ''no_node'')\<lparr>pd_NextModel := a\<rparr>
   | None \<Rightarrow> planOf None ''no_alternative'')"

definition PlanCapacityWait :: "queuedRequest \<Rightarrow> instant \<Rightarrow> planDecision" where
  "PlanCapacityWait qr now =
     (if maxCapacityRetries \<le> qr_CapacityRetryCount qr then planOf None ''capacity_saturated''
      else (planOf (Some NextActionCapacityWait) ''capacity_saturated'')\<lparr>pd_RetryAt := Some (now + capacityRetryDelay)\<rparr>)"

definition terminalErr :: "dispErr option \<Rightarrow> dispErr" where
  "terminalErr err = (case err of None \<Rightarrow> ErrNoRoute | Some e \<Rightarrow> e)"

definition exhaustedTerminal :: "queuedRequest \<Rightarrow> dispErr \<Rightarrow> dispErr" where
  "exhaustedTerminal qr cause = (if qr_AttemptCount qr = 0 then cause else ExhaustedError cause (exhaustionAttempts qr))"

definition attemptCapOutcome :: "queuedRequest \<Rightarrow> forwardOutcome \<Rightarrow> forwardOutcome" where
  "attemptCapOutcome qr out = out\<lparr>fo_ErrorKind := reasonAttemptCap,
     fo_Err := Some (exhaustedTerminal qr (terminalErr (fo_Err out)))\<rparr>"

section \<open>Capacity-aware order (capacity\_aware\_sort.go)\<close>

datatype snapshotState = SnapshotStateReady | SnapshotStateQueueFull | SnapshotStateGovernorSaturated | SnapshotStateUnknown

definition shouldKeep :: "snapshotState \<Rightarrow> bool" where
  "shouldKeep st \<longleftrightarrow> st \<noteq> SnapshotStateQueueFull \<and> st \<noteq> SnapshotStateGovernorSaturated"

text \<open>The loop of \<open>ApplySoftPenalty\<close> over the candidates, with the two buckets as accumulators.\<close>

fun partitionCandidates :: "(int \<Rightarrow> snapshotState option) \<Rightarrow> credentialRef list \<Rightarrow> credentialRef list \<Rightarrow> credentialRef list \<Rightarrow>
    credentialRef list \<times> credentialRef list" where
  "partitionCandidates snapFn keep demote [] = (keep, demote)"
| "partitionCandidates snapFn keep demote (c # cs) =
     (case snapFn (cr_CredentialID c) of
        None \<Rightarrow> partitionCandidates snapFn (keep @ [c]) demote cs
      | Some st \<Rightarrow> if shouldKeep st then partitionCandidates snapFn (keep @ [c]) demote cs
                   else partitionCandidates snapFn keep (demote @ [c]) cs)"

definition ApplySoftPenalty :: "credentialRef list \<Rightarrow> (int \<Rightarrow> snapshotState option) option \<Rightarrow> credentialRef list" where
  "ApplySoftPenalty candidates snapFn =
     (if candidates = [] then []
      else case snapFn of None \<Rightarrow> candidates
           | Some f \<Rightarrow> (let (keep, demote) = partitionCandidates f [] [] candidates
                        in if demote = [] then keep else keep @ demote))"


section \<open>Journal invariant\<close>

definition journal_inv :: "queuedRequest \<Rightarrow> bool" where
  "journal_inv qr \<longleftrightarrow>
     0 \<le> qr_journalSeq qr \<and> length (qr_AttemptJournal qr) \<le> journalCapacity \<and>
     int (length (qr_AttemptJournal qr)) \<le> qr_journalSeq qr \<and>
     map je_Seq (qr_AttemptJournal qr) = [qr_journalSeq qr - int (length (qr_AttemptJournal qr)) + 1 .. qr_journalSeq qr] \<and>
     (\<forall>e \<in> set (butlast (qr_AttemptJournal qr)). \<not> isTerminalAction (je_Action e)) \<and>
     (qr_completed qr \<longleftrightarrow> journalTailIsTerminal qr) \<and>
     length (qr_ResultCh qr) \<le> 1 \<and> (qr_ResultCh qr \<noteq> [] \<longrightarrow> qr_completed qr)"

lemma butlast_drop_subset: "set (butlast (drop k xs)) \<subseteq> set (butlast xs)"
  by (metis butlast_drop set_drop_subset)

lemma drop_upto: "a - 1 + int k \<le> b \<Longrightarrow> drop k [a .. b :: int] = [a + int k .. b]"
proof (induction k arbitrary: a)
  case (Suc k)
  then have "a \<le> b" by simp
  then have "drop (Suc k) [a .. b] = drop k [a + 1 .. b]" by (simp add: upto_rec1)
  then show ?case using Suc.IH [of "a + 1"] Suc.prems by (simp add: algebra_simps)
qed simp

text \<open>Appending one entry with the next number and trimming to capacity keeps the numbers consecutive.\<close>

lemma append_trim_seq:
  fixes js e c
  assumes "map je_Seq js = [n - int (length js) + 1 .. n]" "int (length js) \<le> n" "je_Seq e = n + 1"
  defines "js' \<equiv> (if c < length (js @ [e]) then drop (length (js @ [e]) - c) (js @ [e]) else js @ [e])"
  shows "map je_Seq js' = [(n + 1) - int (length js') + 1 .. n + 1]"
proof -
  have full: "map je_Seq (js @ [e]) = [n - int (length js) + 1 .. n + 1]"
    using assms(1-3) by (simp add: upto_rec2 [of _ "n + 1"])
  show ?thesis
  proof (cases "c < length (js @ [e])")
    case True
    have "map je_Seq js' = drop (length js + 1 - c) [n - int (length js) + 1 .. n + 1]"
      using True full by (simp add: js'_def drop_map [symmetric] del: drop_append)
    also have "\<dots> = [n - int (length js) + 1 + int (length js + 1 - c) .. n + 1]"
      by (intro drop_upto) simp
    finally have "map je_Seq js' = [n + 2 - int c .. n + 1]" using True by (simp add: of_nat_diff algebra_simps)
    moreover have "length js' = c" using True by (simp add: js'_def del: drop_append)
    ultimately show ?thesis by (simp add: algebra_simps)
  next
    case False
    then show ?thesis using full by (simp add: js'_def)
  qed
qed

lemma terminalActionOf_terminal [simp]: "isTerminalAction (terminalActionOf out)"
  by (auto simp: terminalActionOf_def isTerminalAction_def split: option.split)

lemma newEntry_action [simp]: "je_Action (newEntry a) = a"
  by (simp add: newEntry_def)


definition stampedEntry :: "instant \<Rightarrow> journalEntry \<Rightarrow> queuedRequest \<Rightarrow> journalEntry" where
  "stampedEntry now entry qr = entry\<lparr>je_Seq := qr_journalSeq qr + 1,
     je_At := (if je_At entry = None then Some now else je_At entry),
     je_Counts := countAction (je_Action entry) (qr_Counts qr)\<rparr>"

definition appendTrim :: "journalEntry \<Rightarrow> journalEntry list \<Rightarrow> journalEntry list" where
  "appendTrim e js = (if journalCapacity < length (js @ [e])
     then drop (length (js @ [e]) - journalCapacity) (js @ [e]) else js @ [e])"

lemma recordDecision_skip: "qr_completed qr \<Longrightarrow> \<not> isTerminalAction (je_Action e) \<Longrightarrow> recordDecision now e qr = qr"
  by (simp add: recordDecision_def)

lemma recordDecision_fields:
  assumes "\<not> (qr_completed qr \<and> \<not> isTerminalAction (je_Action e))"
  shows "qr_AttemptJournal (recordDecision now e qr) = appendTrim (stampedEntry now e qr) (qr_AttemptJournal qr)"
    "qr_journalSeq (recordDecision now e qr) = qr_journalSeq qr + 1"
    "qr_Counts (recordDecision now e qr) = countAction (je_Action e) (qr_Counts qr)"
  using assms by (auto simp: recordDecision_def Let_def stampedEntry_def appendTrim_def)

lemma recordDecision_frame [simp]:
  "qr_completed (recordDecision now e qr) = qr_completed qr" "qr_abandoned (recordDecision now e qr) = qr_abandoned qr"
  "qr_ResultCh (recordDecision now e qr) = qr_ResultCh qr" "qr_AttemptCount (recordDecision now e qr) = qr_AttemptCount qr"
  "qr_TriedCredentials (recordDecision now e qr) = qr_TriedCredentials qr"
  "qr_TriedModels (recordDecision now e qr) = qr_TriedModels qr" "qr_SelectedCred (recordDecision now e qr) = qr_SelectedCred qr"
  "qr_ResolvedModel (recordDecision now e qr) = qr_ResolvedModel qr"
  "qr_InitialProviderID (recordDecision now e qr) = qr_InitialProviderID qr"
  "qr_AllowProviderChange (recordDecision now e qr) = qr_AllowProviderChange qr"
  "qr_AllowModelChange (recordDecision now e qr) = qr_AllowModelChange qr"
  "qr_CredRetryCount (recordDecision now e qr) = qr_CredRetryCount qr"
  "qr_CapacityRetryCount (recordDecision now e qr) = qr_CapacityRetryCount qr"
  "qr_attempts (recordDecision now e qr) = qr_attempts qr" "qr_currentAttempt (recordDecision now e qr) = qr_currentAttempt qr"
  "qr_RetryPerCredential (recordDecision now e qr) = qr_RetryPerCredential qr"
  by (auto simp: recordDecision_def Let_def)

lemma stampedEntry_simps [simp]:
  "je_Seq (stampedEntry now e qr) = qr_journalSeq qr + 1" "je_Action (stampedEntry now e qr) = je_Action e"
  by (simp_all add: stampedEntry_def)

lemma appendTrim_last [simp]: "appendTrim e js \<noteq> []" "last (appendTrim e js) = e"
  by (auto simp: appendTrim_def journalCapacity_def last_drop)

lemma length_appendTrim: "length (appendTrim e js) = min journalCapacity (Suc (length js))"
  by (simp add: appendTrim_def min_def del: drop_append)

lemma butlast_appendTrim: "set (butlast (appendTrim e js)) \<subseteq> set js"
  using butlast_drop_subset [of "length (js @ [e]) - journalCapacity" "js @ [e]"]
  unfolding appendTrim_def by auto

lemma journal_seq_step:
  assumes "map je_Seq js = [n - int (length js) + 1 .. n]" "int (length js) \<le> n" "je_Seq e = n + 1"
  shows "map je_Seq (appendTrim e js) = [n + 1 - int (length (appendTrim e js)) + 1 .. n + 1]"
  unfolding appendTrim_def by (rule append_trim_seq [OF assms])

lemma journal_inv_append:
  assumes inv: "journal_inv qr" and open': "\<not> qr_completed qr"
    and completed: "qr_completed qr' \<longleftrightarrow> isTerminalAction (je_Action e)"
    and fields: "qr_AttemptJournal qr' = appendTrim (stampedEntry now e qr) (qr_AttemptJournal qr)"
      "qr_journalSeq qr' = qr_journalSeq qr + 1"
    and ch: "length (qr_ResultCh qr') \<le> 1" "qr_ResultCh qr' \<noteq> [] \<longrightarrow> qr_completed qr'"
  shows "journal_inv qr'"
proof -
  let ?js = "qr_AttemptJournal qr" and ?n = "qr_journalSeq qr"
  have seq: "map je_Seq (qr_AttemptJournal qr') = [?n + 1 - int (length (qr_AttemptJournal qr')) + 1 .. ?n + 1]"
    unfolding fields using inv by (intro journal_seq_step) (auto simp: journal_inv_def)
  have "\<forall>x \<in> set ?js. \<not> isTerminalAction (je_Action x)"
  proof (cases "?js = []")
    case False
    then have "set ?js = insert (last ?js) (set (butlast ?js))"
      by (metis append_butlast_last_id list.set(1,2) set_append Un_insert_right sup_bot.right_neutral)
    then show ?thesis using inv open' False by (auto simp: journal_inv_def journalTailIsTerminal_def)
  qed simp
  then have "\<forall>x \<in> set (butlast (qr_AttemptJournal qr')). \<not> isTerminalAction (je_Action x)"
    unfolding fields using butlast_appendTrim by blast
  moreover have "qr_completed qr' \<longleftrightarrow> journalTailIsTerminal qr'"
    using completed by (simp add: journalTailIsTerminal_def fields)
  moreover have "length (qr_AttemptJournal qr') \<le> journalCapacity" "int (length (qr_AttemptJournal qr')) \<le> qr_journalSeq qr'"
    "0 \<le> qr_journalSeq qr'"
    using inv by (auto simp: fields length_appendTrim journal_inv_def)
  ultimately show ?thesis using seq ch unfolding journal_inv_def fields(2) by blast
qed

lemma journal_inv_record [inv_intros]:
  assumes "journal_inv qr" "\<not> isTerminalAction (je_Action e)"
  shows "journal_inv (recordDecision now e qr)"
proof (cases "qr_completed qr")
  case True
  then show ?thesis using assms by (simp add: recordDecision_skip)
next
  case False
  have ch: "length (qr_ResultCh qr) \<le> 1" "qr_ResultCh qr = []" using assms(1) False by (auto simp: journal_inv_def)
  show ?thesis
    by (rule journal_inv_append [OF assms(1) False, where e = e and now = now])
      (use False assms(2) ch recordDecision_fields [of qr e now] in \<open>simp_all\<close>)
qed

lemma journal_inv_complete [inv_intros]:
  assumes inv: "journal_inv qr"
  shows "journal_inv (complete now out qr)"
proof (cases "qr_completed qr")
  case True
  then show ?thesis using inv by (simp add: complete_def)
next
  case False
  let ?e = "(newEntry (terminalActionOf out))\<lparr>je_Model := qr_ResolvedModel qr,
      je_CredentialID := cr_CredentialID (qr_SelectedCred qr), je_ProviderID := cr_ProviderID (qr_SelectedCred qr),
      je_Vendor := cr_Vendor (qr_SelectedCred qr),
      je_ErrorKind := firstNonEmpty (fo_ErrorKind out) (classifyError (fo_Err out)),
      je_HTTPStatus := fo_HTTPStatus out, je_Attempt := qr_AttemptCount qr\<rparr>"
  let ?qr1 = "recordDecision now ?e (qr\<lparr>qr_completed := True\<rparr>)"
  have ch: "qr_ResultCh qr = []" using inv False by (auto simp: journal_inv_def)
  have comp: "complete now out qr = (if qr_abandoned qr then ?qr1 else ?qr1\<lparr>qr_ResultCh := [out]\<rparr>)"
    using False ch by (simp add: complete_def Let_def)
  have trm: "isTerminalAction (je_Action ?e)" by simp
  have stamp: "stampedEntry now ?e (qr\<lparr>qr_completed := True\<rparr>) = stampedEntry now ?e qr" by (simp add: stampedEntry_def)
  have fields: "qr_AttemptJournal ?qr1 = appendTrim (stampedEntry now ?e qr) (qr_AttemptJournal qr)"
    "qr_journalSeq ?qr1 = qr_journalSeq qr + 1"
    using recordDecision_fields [of "qr\<lparr>qr_completed := True\<rparr>" ?e now] trm unfolding stamp by simp_all
  show ?thesis
    unfolding comp
    by (rule journal_inv_append [OF inv False, where e = ?e and now = now]) (use ch fields in \<open>simp_all\<close>)
qed

lemma complete_sets [simp]: "qr_completed (complete now out qr)"
  by (auto simp: complete_def Let_def)


lemma journal_inv_new [simp]: "journal_inv (NewQueuedRequest reqID tenant model)"
  by (simp add: journal_inv_def NewQueuedRequest_def journalTailIsTerminal_def)

lemma seqMonotonic_increasing:
  "sorted_wrt (<) (prev # map pa_Seq ps) \<Longrightarrow> seqMonotonic prev ps"
  by (induction prev ps rule: seqMonotonic.induct) auto

text \<open>A request whose tried credentials are real ones under a resolved model.\<close>

definition tried_ok :: "queuedRequest \<Rightarrow> bool" where
  "tried_ok qr \<longleftrightarrow> (\<forall>c \<in> set (qr_TriedCredentials qr). 0 < c) \<and> (qr_TriedCredentials qr = [] \<or> qr_ResolvedModel qr \<noteq> [])"

lemma map_pa_Seq [simp]: "map pa_Seq (map priorOf js) = map je_Seq js"
  by (simp add: priorOf_def)

lemma decisionHistory_valid:
  assumes "journal_inv qr" "tried_ok qr"
  shows "validateDecisionHistory (decisionHistoryOf qr) = []"
proof -
  have "sorted_wrt (<) (0 # map je_Seq (qr_AttemptJournal qr))"
    using assms(1) sorted_wrt_upto unfolding journal_inv_def by auto
  then have "seqMonotonic 0 (map priorOf (qr_AttemptJournal qr))"
    by (intro seqMonotonic_increasing) (simp only: map_pa_Seq)
  moreover have "\<not> list_ex (\<lambda>node. an_Model node = [] \<or> an_CredentialID node \<le> 0) (dh_TriedNodes (decisionHistoryOf qr))"
    using assms(2) by (force simp: decisionHistoryOf_def Let_def list_ex_iff tried_ok_def)
  ultimately show ?thesis by (simp add: validateDecisionHistory_def decisionHistoryOf_def Let_def)
qed

lemma centralAction_terminal [simp]:
  "centralAction a \<in> {ActionFailTerminal, ActionClientCanceled} \<longleftrightarrow> isTerminalAction a"
  by (cases a) (simp_all add: centralAction_def isTerminalAction_def)

lemma decisionHistory_terminal: "dh_Terminal (decisionHistoryOf qr) \<longleftrightarrow> journalTailIsTerminal qr"
  using centralAction_terminal [of "je_Action (last (qr_AttemptJournal qr))"]
  by (auto simp: decisionHistoryOf_def Let_def journalTailIsTerminal_def last_map priorOf_def)

text \<open>Same-credential retries of the selected node that the journal still holds.\<close>

definition journalRetries :: "queuedRequest \<Rightarrow> int" where
  "journalRetries qr = int (length (filter (\<lambda>e. je_Action e = NextActionRetrySameCred \<and> je_Model e = qr_ResolvedModel qr \<and>
     je_ProviderID e = cr_ProviderID (qr_SelectedCred qr) \<and> je_CredentialID e = cr_CredentialID (qr_SelectedCred qr))
     (qr_AttemptJournal qr)))"

lemma centralAction_retry [simp]: "centralAction a = ActionRetrySameNode \<longleftrightarrow> a = NextActionRetrySameCred"
  by (cases a) (simp_all add: centralAction_def)

lemma plannerContext_simps [simp]:
  "historyNodeRetryCount (dc_History (plannerContext cl qr out cfg)) (currentNode (plannerContext cl qr out cfg)) = journalRetries qr"
  "currentNode (plannerContext cl qr out cfg) \<in> set (dh_TriedNodes (dc_History (plannerContext cl qr out cfg))) \<longleftrightarrow>
     cr_CredentialID (qr_SelectedCred qr) \<in> set (qr_TriedCredentials qr)"
  "committed (plannerContext cl qr out cfg) = False"
  "dc_Kind (plannerContext cl qr out cfg) = plannerKind cl out"
  "dc_MaxSameNodeRetries (plannerContext cl qr out cfg) = retryBudgetOf qr cfg"
  "dc_SameNodeRetryCount (plannerContext cl qr out cfg) = qr_CredRetryCount qr"
  "dc_RemainingAttempts (plannerContext cl qr out cfg) = AttemptBudgetLeft qr"
  "dc_ClientDisconnected (plannerContext cl qr out cfg) = False"
  "dc_HasAlternateNode (plannerContext cl qr out cfg) = True"
  "dc_History (plannerContext cl qr out cfg) = decisionHistoryOf qr"
  by (auto simp: plannerContext_def currentNode_def decisionHistoryOf_def Let_def historyNodeRetryCount_def journalRetries_def
      filter_map o_def sameNode_def priorOf_def committed_def less_eq_actionCommitState_def image_iff
      intro!: arg_cong [where f = length] filter_cong)

lemma planOf_simps [simp]: "pd_Action (planOf a r) = a" "pd_Reason (planOf a r) = r"
  by (simp_all add: planOf_def)

lemma PlanAfterFailure_action:
  "pd_Action (PlanAfterFailure cl qr out cfg) =
     (if fo_FatalCredential out then None
      else if maxAttempts \<le> qr_AttemptCount qr then Some NextActionFailed
      else case ad_Action (DecideNextAction (plannerContext cl qr out cfg)) of
         ActionRetrySameNode \<Rightarrow> Some NextActionRetrySameCred
       | ActionWaitRecovery \<Rightarrow> None | ActionSwitchNode \<Rightarrow> None | ActionEmpty \<Rightarrow> None | _ \<Rightarrow> Some NextActionFailed)"
  by (simp add: PlanAfterFailure_def Let_def split: nextAction.split)

section \<open>Properties\<close>

datatype journalOp = JRecord instant journalEntry | JComplete instant forwardOutcome

definition journal_apply :: "journalOp \<Rightarrow> queuedRequest \<Rightarrow> queuedRequest" where
  "journal_apply op qr = (case op of JRecord now e \<Rightarrow> recordDecision now e qr | JComplete now out \<Rightarrow> complete now out qr)"

definition requeueOp :: "journalOp \<Rightarrow> bool" where
  "requeueOp op \<longleftrightarrow> (case op of JRecord now e \<Rightarrow> \<not> isTerminalAction (je_Action e) | JComplete now out \<Rightarrow> True)"

lemma journal_inv_run: "journal_inv qr \<Longrightarrow> list_all requeueOp ops \<Longrightarrow> journal_inv (fold journal_apply ops qr)"
proof (induction ops arbitrary: qr)
  case (Cons op ops)
  have "journal_inv (journal_apply op qr)"
    using Cons.prems by (cases op) (auto simp: journal_apply_def requeueOp_def intro: inv_intros)
  then show ?case using Cons by simp
qed simp

lemma journal_frozen:
  "qr_completed qr \<Longrightarrow> list_all requeueOp ops \<Longrightarrow> fold journal_apply ops qr = qr"
proof (induction ops)
  case (Cons op ops)
  then have "journal_apply op qr = qr"
    by (cases op) (auto simp: journal_apply_def requeueOp_def recordDecision_skip complete_def)
  then show ?case using Cons by simp
qed simp

text \<open>
  The execution trace of a request. After any interleaving of requeue decisions and
  completions: the journal holds at most 128 entries, numbered consecutively up to the last number
  given out; a terminal entry can only be the last one, and is there exactly when the request is
  completed; at most one result was delivered; and once completed, neither later decisions nor later
  completions change anything.
\<close>
theorem journal_trace:
  fixes reqID tenant model ops later
  defines "qr \<equiv> fold journal_apply ops (NewQueuedRequest reqID tenant model)"
  assumes ops: "list_all requeueOp ops" "list_all requeueOp later"
  shows "length (qr_AttemptJournal qr) \<le> 128 \<and>
    map je_Seq (qr_AttemptJournal qr) = [qr_journalSeq qr - int (length (qr_AttemptJournal qr)) + 1 .. qr_journalSeq qr] \<and>
    list_all (\<lambda>e. \<not> isTerminalAction (je_Action e)) (butlast (qr_AttemptJournal qr)) \<and>
    (qr_completed qr \<longleftrightarrow> journalTailIsTerminal qr) \<and> length (qr_ResultCh qr) \<le> 1 \<and>
    (qr_completed qr \<longrightarrow> fold journal_apply later qr = qr)"
proof -
  have "journal_inv qr" unfolding qr_def by (intro journal_inv_run ops) simp
  then show ?thesis
    using journal_frozen [OF _ ops(2)] by (simp add: journal_inv_def journalCapacity_def list_all_iff)
qed

lemma journal_trace_witness:
  defines "qr \<equiv> complete 9 (errOutcome ErrNoRoute)
     (recordDecision 5 (newEntry NextActionSwitchCred) (NewQueuedRequest ''r'' ''t'' ''m''))"
  shows "qr_completed qr \<and> journalTailIsTerminal qr \<and> complete 11 (errOutcome ErrShutdown) qr = qr"
proof -
  let ?ops = "[JRecord 5 (newEntry NextActionSwitchCred), JComplete 9 (errOutcome ErrNoRoute)]"
  have qr: "qr = fold journal_apply ?ops (NewQueuedRequest ''r'' ''t'' ''m'')" by (simp add: qr_def journal_apply_def)
  have "list_all requeueOp ?ops" "list_all requeueOp [JComplete 11 (errOutcome ErrShutdown)]"
    by (simp_all add: requeueOp_def isTerminalAction_def)
  from journal_trace [OF this, of "''r''" "''t''" "''m''", folded qr] show ?thesis
    by (simp add: qr_def journal_apply_def)
qed

text \<open>
  When the ladder retries on the same credential. For a live request with a well-formed trace,
  \<open>PlanAfterFailure\<close> retries the same credential exactly when the failure is not fatal for the
  credential, its kind is retryable, fewer than 100 attempts were made, the credential is not in the
  tried set, and both the retry counter and the retries the journal holds for this node are below the
  budget.
\<close>
theorem plan_retry_iff:
  assumes inv: "journal_inv qr" and live: "\<not> qr_completed qr" and tried: "tried_ok qr"
  shows "pd_Action (PlanAfterFailure cl qr out cfg) = Some NextActionRetrySameCred \<longleftrightarrow>
    \<not> fo_FatalCredential out \<and> retryableActionKind (plannerKind cl out) \<and> qr_AttemptCount qr < maxAttempts \<and>
    cr_CredentialID (qr_SelectedCred qr) \<notin> set (qr_TriedCredentials qr) \<and>
    qr_CredRetryCount qr < retryBudgetOf qr cfg \<and> journalRetries qr < retryBudgetOf qr cfg"
proof -
  have ok: "validateDecisionHistory (decisionHistoryOf qr) = []" "\<not> dh_Terminal (decisionHistoryOf qr)"
    using decisionHistory_valid [OF inv tried] inv live by (auto simp: decisionHistory_terminal journal_inv_def)
  have tried': "historyContainsTriedNode (decisionHistoryOf qr) (currentNode (plannerContext cl qr out cfg)) \<longleftrightarrow>
      cr_CredentialID (qr_SelectedCred qr) \<in> set (qr_TriedCredentials qr)"
    using plannerContext_simps(2) [of cl qr out cfg] by (simp add: historyContainsTriedNode_def)
  have eff: "effectiveRetryCount (plannerContext cl qr out cfg) < retryBudgetOf qr cfg \<longleftrightarrow>
      qr_CredRetryCount qr < retryBudgetOf qr cfg \<and> journalRetries qr < retryBudgetOf qr cfg"
    using plannerContext_simps(1) [of cl qr out cfg] by (auto simp: effectiveRetryCount_def Let_def)
  have "ad_Action (DecideNextAction (plannerContext cl qr out cfg)) = ActionRetrySameNode \<longleftrightarrow>
      retryableActionKind (plannerKind cl out) \<and> 0 < AttemptBudgetLeft qr \<and>
      cr_CredentialID (qr_SelectedCred qr) \<notin> set (qr_TriedCredentials qr) \<and>
      qr_CredRetryCount qr < retryBudgetOf qr cfg \<and> journalRetries qr < retryBudgetOf qr cfg"
    unfolding Decide_action actionTable_def Let_def plannerContext_simps
    using ok tried' eff retryable_kind [of "plannerKind cl out"] by (auto split: if_split_asm)
  then show ?thesis
    unfolding PlanAfterFailure_action by (auto simp: AttemptBudgetLeft_def split: nextAction.splits if_split_asm)
qed


abbreviation demoCred :: "int \<Rightarrow> int \<Rightarrow> credentialRef" where
  "demoCred c p \<equiv> zeroCred\<lparr>cr_CredentialID := c, cr_ProviderID := p\<rparr>"

abbreviation demoConfig :: dispatchConfig where
  "demoConfig \<equiv> \<lparr>cfg_MaxQueueDepth = 300, cfg_MaxQueueWaitMS = 0, cfg_RetryPerCredential = 2, cfg_RetryBudgetPercent = 25,
     cfg_RetryBudgetFloor = 10, cfg_RetryBudgetEnforce = False, cfg_RetryJitterEnabled = True\<rparr>"

abbreviation demoRequest :: queuedRequest where
  "demoRequest \<equiv> (NewQueuedRequest ''r'' ''t'' ''m'')\<lparr>qr_ResolvedModel := ''m'', qr_SelectedCred := demoCred 7 1,
     qr_AttemptCount := 1\<rparr>"

abbreviation demoFailure :: "errorKind \<Rightarrow> forwardOutcome" where
  "demoFailure k \<equiv> (errOutcome (OtherErr ''upstream''))\<lparr>fo_ErrorKind := k\<rparr>"

lemma demoRequest_ok [simp]: "journal_inv demoRequest" "\<not> qr_completed demoRequest" "tried_ok demoRequest"
  by (simp_all add: journal_inv_def NewQueuedRequest_def journalTailIsTerminal_def tried_ok_def)

lemma plan_retry_iff_witness:
  "pd_Action (PlanAfterFailure (\<lambda>e. KindTransient) demoRequest (demoFailure KindTimeout) demoConfig) = Some NextActionRetrySameCred"
proof -
  have "plannerKind (\<lambda>e. KindTransient) (demoFailure KindTimeout) = KindTimeout"
    by (simp add: plannerKind_def isCentralPolicyKind_def)
  moreover have "retryBudgetOf demoRequest demoConfig = 2" "journalRetries demoRequest = 0"
    "qr_CredRetryCount demoRequest = 0" "qr_TriedCredentials demoRequest = []"
    by (simp_all add: retryBudgetOf_def NewQueuedRequest_def journalRetries_def)
  ultimately show ?thesis
    by (subst plan_retry_iff [OF demoRequest_ok])
      (simp add: errOutcome_def maxAttempts_def kind_sets)
qed

definition eligibleCred :: "queuedRequest \<Rightarrow> credentialRef \<Rightarrow> bool" where
  "eligibleCred qr ref \<longleftrightarrow> \<not> hasTriedCredential qr (cr_CredentialID ref) \<and> providerSwitchAllowed qr (cr_ProviderID ref)"

lemma PlanSwitchCred_spec:
  "(case fst (PlanSwitchCred qr refs) of
      None \<Rightarrow> \<not> list_ex (eligibleCred qr) refs \<and>
        snd (PlanSwitchCred qr refs) = map cr_CredentialID (filter (\<lambda>r. \<not> hasTriedCredential qr (cr_CredentialID r)) refs)
    | Some ref \<Rightarrow> \<exists>pre post. refs = pre @ ref # post \<and> eligibleCred qr ref \<and> \<not> list_ex (eligibleCred qr) pre \<and>
        snd (PlanSwitchCred qr refs) = map cr_CredentialID (filter (\<lambda>r. \<not> hasTriedCredential qr (cr_CredentialID r)) pre))"
proof (induction refs)
  case (Cons r refs)
  show ?case
  proof (cases "eligibleCred qr r")
    case True
    then have "PlanSwitchCred qr (r # refs) = (Some r, [])" by (simp add: eligibleCred_def)
    moreover have "\<exists>pre post. r # refs = pre @ r # post \<and> eligibleCred qr r \<and> \<not> list_ex (eligibleCred qr) pre \<and>
        [] = map cr_CredentialID (filter (\<lambda>r. \<not> hasTriedCredential qr (cr_CredentialID r)) pre)"
      using True by (intro exI [of _ "[]"] exI [of _ refs]) simp
    ultimately show ?thesis by simp
  next
    case False
    then have rec: "fst (PlanSwitchCred qr (r # refs)) = fst (PlanSwitchCred qr refs)"
      "snd (PlanSwitchCred qr (r # refs)) = (if hasTriedCredential qr (cr_CredentialID r) then [] else [cr_CredentialID r]) @ snd (PlanSwitchCred qr refs)"
      by (auto simp: eligibleCred_def split: prod.split)
    show ?thesis
    proof (cases "fst (PlanSwitchCred qr refs)")
      case None
      then show ?thesis using Cons.IH False unfolding rec by simp
    next
      case (Some ref)
      then obtain pre post where "refs = pre @ ref # post" "eligibleCred qr ref" "\<not> list_ex (eligibleCred qr) pre"
        "snd (PlanSwitchCred qr refs) = map cr_CredentialID (filter (\<lambda>r. \<not> hasTriedCredential qr (cr_CredentialID r)) pre)"
        using Cons.IH by auto
      note split = this
      show ?thesis
        unfolding rec Some option.case
        by (intro exI [of _ "r # pre"] exI [of _ post]) (use split False in simp)
    qed
  qed
qed simp

text \<open>
  Choice of the sibling credential. \<open>PlanSwitchCred\<close> returns the first candidate in priority
  order that was not tried and whose provider the request may use, reports exactly the untried
  candidates it passed over for provider scope, and returns none exactly when no candidate is
  eligible. The chosen credential is never a tried one and never crosses providers without leave.
\<close>
theorem switch_picks_first_eligible:
  "(case PlanSwitchCred qr refs of
      (None, scoped) \<Rightarrow> \<not> list_ex (eligibleCred qr) refs \<and>
        scoped = map cr_CredentialID (filter (\<lambda>r. \<not> hasTriedCredential qr (cr_CredentialID r)) refs)
    | (Some ref, scoped) \<Rightarrow> (\<exists>pre post. refs = pre @ ref # post \<and> \<not> list_ex (eligibleCred qr) pre \<and>
        scoped = map cr_CredentialID (filter (\<lambda>r. \<not> hasTriedCredential qr (cr_CredentialID r)) pre)) \<and>
        cr_CredentialID ref \<notin> set (qr_TriedCredentials qr) \<and>
        (qr_InitialProviderID qr = 0 \<or> cr_ProviderID ref = 0 \<or> cr_ProviderID ref = qr_InitialProviderID qr \<or>
         qr_AllowProviderChange qr))"
proof (cases "fst (PlanSwitchCred qr refs)")
  case None
  then show ?thesis using PlanSwitchCred_spec [of qr refs] by (auto split: prod.splits)
next
  case (Some ref)
  then have "(\<exists>pre post. refs = pre @ ref # post \<and> \<not> list_ex (eligibleCred qr) pre \<and>
        snd (PlanSwitchCred qr refs) = map cr_CredentialID (filter (\<lambda>r. \<not> hasTriedCredential qr (cr_CredentialID r)) pre)) \<and>
      eligibleCred qr ref"
    using PlanSwitchCred_spec [of qr refs] by auto
  moreover have "cr_CredentialID ref \<notin> set (qr_TriedCredentials qr) \<and>
      (qr_InitialProviderID qr = 0 \<or> cr_ProviderID ref = 0 \<or> cr_ProviderID ref = qr_InitialProviderID qr \<or>
       qr_AllowProviderChange qr)"
    if "eligibleCred qr ref"
    using that by (auto simp: eligibleCred_def hasTriedCredential_def providerSwitchAllowed_def split: if_split_asm)
  ultimately show ?thesis using Some by (cases "PlanSwitchCred qr refs") simp
qed

lemma partitionCandidates_filter:
  defines "good \<equiv> \<lambda>f c. case f (cr_CredentialID c) of None \<Rightarrow> True | Some st \<Rightarrow> shouldKeep st"
  shows "partitionCandidates f keep demote cs = (keep @ filter (good f) cs, demote @ filter (\<lambda>c. \<not> good f c) cs)"
  by (induction cs arbitrary: keep demote) (auto simp: good_def split: option.splits)

text \<open>
  The capacity-aware order is a stable soft penalty: \<open>ApplySoftPenalty\<close> drops and invents no
  candidate, puts those whose queue is full or whose governor is saturated behind all others, and
  keeps the relative order within both groups; without snapshots the order is unchanged.
\<close>
theorem soft_penalty_stable:
  fixes candidates f
  defines "demoted \<equiv> \<lambda>c. f (cr_CredentialID c) = Some SnapshotStateQueueFull \<or> f (cr_CredentialID c) = Some SnapshotStateGovernorSaturated"
  shows "mset (ApplySoftPenalty candidates (Some f)) = mset candidates \<and>
    ApplySoftPenalty candidates (Some f) = filter (\<lambda>c. \<not> demoted c) candidates @ filter demoted candidates \<and>
    ApplySoftPenalty candidates None = candidates"
proof -
  have good: "(case f (cr_CredentialID c) of None \<Rightarrow> True | Some st \<Rightarrow> shouldKeep st) \<longleftrightarrow> \<not> demoted c" for c
    by (auto simp: demoted_def shouldKeep_def split: option.split)
  have eq: "ApplySoftPenalty candidates (Some f) = filter (\<lambda>c. \<not> demoted c) candidates @ filter demoted candidates"
    by (simp add: ApplySoftPenalty_def partitionCandidates_filter good)
  then show ?thesis by (simp add: ApplySoftPenalty_def add.commute)
qed

end
