(* ===== verification/Failover.thy ===== *)
theory Failover
  imports Planner RetrySchedule
begin

text \<open>
  The failover ladder of the dispatch pipeline: the executor side of \<open>failover.go\<close> and
  \<open>dispatcher.go\<close> over the request state of theory \<open>Planner\<close>. What the ladder asks of
  the rest of the pipeline is the record \<open>dispatchEnv\<close>: what the router, the model resolver and
  the recommender answer, which Tier-1 and Tier-2 queues accept a request, whether the retry
  scheduler takes it, the clock, the configuration and the counters behind the retry budget. Each
  operation returns the request and where it went (\<open>ladderOutcome\<close>). Notices, observations,
  metrics and the live-action stream are left out; they do not flow back into decisions.
\<close>

section \<open>Environment\<close>

record dispatchEnv =
  ev_now :: instant
  ev_cfg :: dispatchConfig
  ev_classify :: "dispErr \<Rightarrow> errorKind"
  ev_route :: "queuedRequest \<Rightarrow> credentialRef list \<times> bool"
  ev_cancelInRoute :: "forwardOutcome option"
  ev_enqueueCred :: "int \<Rightarrow> bool"
  ev_hasCapacity :: "int \<Rightarrow> bool"
  ev_enqueueModel :: "string \<Rightarrow> bool"
  ev_modelChange :: bool
  ev_modelResolve :: "string \<Rightarrow> string list \<Rightarrow> (string \<times> string list) option"
  ev_modelRecommend :: "(queuedRequest \<Rightarrow> string list \<Rightarrow> string list option) option"
  ev_scheduler :: "bool option"
  ev_ctxErr :: "dispErr option"
  ev_shutdown :: bool
  ev_inFlight :: int
  ev_parked :: int
  ev_rand :: real

datatype ladderOutcome = LIgnored | LScheduled instant | LEnqueuedCred credentialRef | LEnqueuedModel string
  | LCompleted forwardOutcome

type_synonym ladderResult = "queuedRequest \<times> ladderOutcome"

definition finish :: "dispatchEnv \<Rightarrow> forwardOutcome \<Rightarrow> queuedRequest \<Rightarrow> ladderResult" where
  "finish env out qr = (complete (ev_now env) out qr, LCompleted out)"

definition isAutoModel :: "string \<Rightarrow> bool" where
  "isAutoModel m \<longleftrightarrow> length m = 4 \<and> map asciiLower m = ''auto''"

definition queueKeyFor :: "string \<Rightarrow> string" where
  "queueKeyFor requested = (if requested = [] then ''auto'' else if isAutoModel requested then ''auto'' else requested)"

definition DefaultOverflowRetryAfter :: duration where "DefaultOverflowRetryAfter = 1 * go_second"

definition selectCredential :: "credentialRef \<Rightarrow> queuedRequest \<Rightarrow> queuedRequest" where
  "selectCredential ref qr = qr\<lparr>qr_SelectedCred := ref,
     qr_InitialProviderID := (if qr_InitialProviderID qr = 0 then cr_ProviderID ref else qr_InitialProviderID qr)\<rparr>"

definition terminateOnAttemptCap :: "dispatchEnv \<Rightarrow> forwardOutcome \<Rightarrow> queuedRequest \<Rightarrow> ladderResult" where
  "terminateOnAttemptCap env out qr = finish env (attemptCapOutcome qr out) qr"

section \<open>Model change (dispatcher.go)\<close>

definition modelChangeCandidates :: "dispatchEnv \<Rightarrow> queuedRequest \<Rightarrow> string list" where
  "modelChangeCandidates env qr =
     (case ev_modelRecommend env of
        Some recommend \<Rightarrow> (case recommend qr (qr_TriedModels qr) of None \<Rightarrow> [] | Some alts \<Rightarrow> alts)
      | None \<Rightarrow> if qr_ModelAlternatives qr \<noteq> [] then qr_ModelAlternatives qr
                else case ev_modelResolve env (qr_RequestedModel qr) (qr_TriedModels qr) of
                       None \<Rightarrow> [] | Some (resolved, alts) \<Rightarrow> alts)"

definition completeCause :: "dispatchEnv \<Rightarrow> forwardOutcome \<Rightarrow> queuedRequest \<Rightarrow> ladderResult" where
  "completeCause env outcome qr = finish env (outcome\<lparr>fo_Err := Some (exhaustedTerminal qr (terminalErr (fo_Err outcome)))\<rparr>) qr"

definition switchModel :: "dispatchEnv \<Rightarrow> string \<Rightarrow> queuedRequest \<Rightarrow> queuedRequest" where
  "switchModel env chosen qr =
     (let fromModel = qr_ResolvedModel qr; last = qr_LastFailover qr;
          qr1 = recordDecision (ev_now env) ((newEntry NextActionSwitchModel)\<lparr>je_Model := fromModel, je_Vendor := fm_Vendor last,
                  je_ErrorKind := fm_ErrorKind last, je_HTTPStatus := fm_HTTPStatus last, je_Attempt := qr_AttemptCount qr,
                  je_At := Some (ev_now env), je_FromModel := fromModel, je_ToModel := chosen\<rparr>) qr
      in qr1\<lparr>qr_ResolvedModel := chosen, qr_TriedCredentials := [], qr_CredRetryCount := 0, qr_InitialProviderID := 0\<rparr>)"

definition tryModelChangeOutcome :: "dispatchEnv \<Rightarrow> forwardOutcome \<Rightarrow> queuedRequest \<Rightarrow> ladderResult" where
  "tryModelChangeOutcome env outcome qr =
     (if pd_Action (PlanNoRoute qr (ev_modelChange env)) = Some NextActionFailed then completeCause env outcome qr
      else
        let qr1 = markTriedModel (qr_ResolvedModel qr) qr;
            d = PlanModelChange qr1 (modelChangeCandidates env qr1)
        in if pd_Action d \<noteq> Some NextActionSwitchModel then completeCause env outcome qr1
           else if AttemptBudgetLeft qr1 \<le> 0 then terminateOnAttemptCap env outcome qr1
           else let chosen = pd_NextModel d; qr2 = switchModel env chosen qr1
                in if ev_enqueueModel env (queueKeyFor chosen) then (qr2, LEnqueuedModel chosen)
                   else if ev_shutdown env then finish env (errOutcome ErrShutdown) qr2
                   else finish env (errOutcome (OverflowError ''model_queue_full'' DefaultOverflowRetryAfter)) qr2)"

definition tryModelChange :: "dispatchEnv \<Rightarrow> dispErr \<Rightarrow> queuedRequest \<Rightarrow> ladderResult" where
  "tryModelChange env cause qr = tryModelChangeOutcome env (errOutcome cause) qr"

section \<open>Dispatch of a request to a credential (dispatcher.go)\<close>

definition scheduleCapacityRetry :: "dispatchEnv \<Rightarrow> queuedRequest \<Rightarrow> ladderResult" where
  "scheduleCapacityRetry env qr =
     (let d = PlanCapacityWait qr (ev_now env)
      in case pd_RetryAt d of
           None \<Rightarrow> tryModelChange env ErrCapacitySaturated qr
         | Some retryAt \<Rightarrow>
           let qr1 = qr\<lparr>qr_CapacityRetryCount := qr_CapacityRetryCount qr + 1\<rparr>
           in if ev_scheduler env = Some True \<and> ev_ctxErr env = None
              then (recordDecision (ev_now env) ((newEntry NextActionCapacityWait)\<lparr>je_Model := qr_ResolvedModel qr1,
                      je_Attempt := qr_AttemptCount qr1, je_At := Some (ev_now env)\<rparr>) qr1, LScheduled retryAt)
              else tryModelChange env ErrCapacitySaturated qr1)"

text \<open>The loop of \<open>selectAndEnqueue\<close>: the request, and the credential that accepted it.\<close>

fun selectLoop :: "dispatchEnv \<Rightarrow> credentialRef list \<Rightarrow> queuedRequest \<Rightarrow> queuedRequest \<times> credentialRef option" where
  "selectLoop env [] qr = (qr, None)"
| "selectLoop env (ref # refs) qr =
     (if hasTriedCredential qr (cr_CredentialID ref) then selectLoop env refs qr
      else if \<not> providerSwitchAllowed qr (cr_ProviderID ref)
      then selectLoop env refs (markTriedCredential (cr_CredentialID ref) qr)
      else if \<not> ev_hasCapacity env (cr_CredentialID ref) then selectLoop env refs qr
      else let qr1 = (selectCredential ref qr)\<lparr>qr_CapacityRetryCount := 0\<rparr>
           in if ev_enqueueCred env (cr_CredentialID ref) then (qr1, Some ref) else selectLoop env refs qr1)"

text \<open>\<open>selectAndEnqueue\<close> and the three-way branch of \<open>dispatch\<close> on its result.\<close>

definition dispatchResolved :: "dispatchEnv \<Rightarrow> queuedRequest \<Rightarrow> ladderResult" where
  "dispatchResolved env qr =
     (let (refs, routeErr) = ev_route env qr
      in if routeErr \<or> refs = [] then tryModelChange env ErrNoRoute qr
         else case selectLoop env refs qr of
                (qr1, Some ref) \<Rightarrow> (qr1, LEnqueuedCred ref)
              | (qr1, None) \<Rightarrow> scheduleCapacityRetry env qr1)"

definition dispatch :: "dispatchEnv \<Rightarrow> queuedRequest \<Rightarrow> ladderResult" where
  "dispatch env qr =
     (if qr_completed qr \<or> qr_abandoned qr then (qr, LIgnored)
      else if qr_ResolvedModel qr = []
      then case ev_modelResolve env (qr_RequestedModel qr) [] of
             None \<Rightarrow> finish env (errOutcome ErrNoRoute) qr
           | Some (resolved, alts) \<Rightarrow>
             if resolved = [] then finish env (errOutcome ErrNoRoute) qr
             else dispatchResolved env (qr\<lparr>qr_ResolvedModel := resolved,
               qr_ModelAlternatives := (if qr_ModelAlternatives qr = [] \<and> alts \<noteq> [] then alts else qr_ModelAlternatives qr)\<rparr>)
      else dispatchResolved env qr)"

section \<open>The ladder (failover.go)\<close>

definition observeRetryBudget :: "dispatchEnv \<Rightarrow> bool" where
  "observeRetryBudget env =
     (let cfg = ev_cfg env
      in if cfg_RetryBudgetPercent cfg \<le> 0 then True
         else let budget = go_quot (ev_inFlight env * cfg_RetryBudgetPercent cfg) 100 + cfg_RetryBudgetFloor cfg
              in if ev_parked env < budget then True
                 else if cfg_RetryBudgetEnforce cfg then False else True)"

text \<open>\<open>None\<close>: the request did not leave the mover.\<close>

definition scheduleSameCredRetry :: "dispatchEnv \<Rightarrow> forwardOutcome \<Rightarrow> queuedRequest \<Rightarrow> ladderOutcome option" where
  "scheduleSameCredRetry env out qr =
     (let cred = qr_SelectedCred qr;
          direct = (if ev_enqueueCred env (cr_CredentialID cred) then Some (LEnqueuedCred cred) else None)
      in case ev_scheduler env of
           Some accepts \<Rightarrow>
             if ev_ctxErr env = None
             then if \<not> observeRetryBudget env then None
                  else let retryAt = ev_now env + ApplyRetryJitter (cfg_RetryJitterEnabled (ev_cfg env))
                             (NextRetryDelay (qr_CredRetryCount qr) (fo_RetryAfter out)) (ev_rand env)
                       in if accepts then Some (LScheduled retryAt) else direct
             else direct
         | None \<Rightarrow> direct)"

text \<open>
  The switch loop of \<open>move\<close>. The first pass also writes the journal entry of the round, with
  the planned target; later passes plan again after the refused credential was marked tried.
\<close>

definition switchEntry :: "journalEntry option \<Rightarrow> credentialRef option \<Rightarrow> instant \<Rightarrow> queuedRequest \<Rightarrow> queuedRequest" where
  "switchEntry first next now qr = (case first of None \<Rightarrow> qr
     | Some e \<Rightarrow> recordDecision now (case next of None \<Rightarrow> e
         | Some ref \<Rightarrow> e\<lparr>je_ToCredentialID := cr_CredentialID ref, je_ToProviderID := cr_ProviderID ref\<rparr>) qr)"

lemma PlanSwitchCred_Some:
  "PlanSwitchCred qr refs = (Some ref, scoped) \<Longrightarrow> ref \<in> set refs \<and> \<not> hasTriedCredential qr (cr_CredentialID ref)"
  using PlanSwitchCred_spec [of qr refs] by (auto simp: eligibleCred_def)

lemma fold_markTried_frame [simp]:
  "qr_TriedCredentials (fold markTriedCredential ids qr) = fold List.insert ids (qr_TriedCredentials qr)"
  "qr_completed (fold markTriedCredential ids qr) = qr_completed qr"
  by (induction ids arbitrary: qr) (simp_all add: markTriedCredential_def)

lemma set_fold_insert [simp]: "set (fold List.insert ids xs) = set ids \<union> set xs"
  by (induction ids arbitrary: xs) auto

lemma switchEntry_tried [simp]: "qr_TriedCredentials (switchEntry first next now qr) = qr_TriedCredentials qr"
  by (simp add: switchEntry_def split: option.split)

lemma selectCredential_tried [simp]: "qr_TriedCredentials (selectCredential ref qr) = qr_TriedCredentials qr"
  by (simp add: selectCredential_def)

definition untried :: "credentialRef list \<Rightarrow> queuedRequest \<Rightarrow> nat" where
  "untried refs qr = length (filter (\<lambda>r. \<not> hasTriedCredential qr (cr_CredentialID r)) refs)"

lemma untried_decreases:
  assumes "ref \<in> set refs" "\<not> hasTriedCredential qr (cr_CredentialID ref)"
    "set (qr_TriedCredentials qr) \<subseteq> set (qr_TriedCredentials qr')" "hasTriedCredential qr' (cr_CredentialID ref)"
  shows "untried refs qr' < untried refs qr"
proof -
  have eq: "filter (\<lambda>r. \<not> hasTriedCredential qr' (cr_CredentialID r)) refs =
      filter (\<lambda>r. \<not> hasTriedCredential qr' (cr_CredentialID r)) (filter (\<lambda>r. \<not> hasTriedCredential qr (cr_CredentialID r)) refs)"
    using assms(3) by (auto simp: hasTriedCredential_def intro!: filter_cong)
  show ?thesis
    unfolding untried_def
    by (subst eq, rule length_filter_less [of ref]) (use assms in auto)
qed

function switchLoop :: "dispatchEnv \<Rightarrow> forwardOutcome \<Rightarrow> credentialRef list \<Rightarrow> journalEntry option \<Rightarrow> queuedRequest \<Rightarrow> ladderResult" where
  "switchLoop env out refs first qr =
     (case PlanSwitchCred qr refs of
        (None, scoped) \<Rightarrow>
          tryModelChangeOutcome env out (switchEntry first None (ev_now env) (fold markTriedCredential scoped qr))
      | (Some ref, scoped) \<Rightarrow>
          let qr1 = switchEntry first (Some ref) (ev_now env) (fold markTriedCredential scoped qr)
          in if AttemptBudgetLeft qr1 \<le> 0 then terminateOnAttemptCap env out qr1
             else let qr2 = selectCredential ref qr1
                  in if ev_enqueueCred env (cr_CredentialID ref) then (qr2, LEnqueuedCred ref)
                     else switchLoop env out refs None (markTriedCredential (cr_CredentialID ref) qr2))"
  by pat_completeness auto
termination
proof (relation "measure (\<lambda>(env, out, refs, first, qr). untried refs qr)")
  fix env out refs first qr x y ref scoped qr1 qr2
  assume "(x, y) = PlanSwitchCred qr refs" "x = Some ref" and
    q: "qr1 = switchEntry first (Some ref) (ev_now env) (fold markTriedCredential y qr)" "qr2 = selectCredential ref qr1"
  then have "ref \<in> set refs \<and> \<not> hasTriedCredential qr (cr_CredentialID ref)" by (metis PlanSwitchCred_Some)
  moreover have "set (qr_TriedCredentials (markTriedCredential (cr_CredentialID ref) qr2)) =
      insert (cr_CredentialID ref) (set y \<union> set (qr_TriedCredentials qr))"
    by (simp add: q markTriedCredential_def)
  ultimately show "((env, out, refs, None, markTriedCredential (cr_CredentialID ref) qr2), (env, out, refs, first, qr)) \<in>
      measure (\<lambda>(env, out, refs, first, qr). untried refs qr)"
    by (simp, intro untried_decreases [of ref]) (auto simp: hasTriedCredential_def)
qed simp

declare switchLoop.simps [simp del]

text \<open>Step 2 and 3 of \<open>move\<close>, from marking the current credential tried.\<close>

definition moveSwitch :: "dispatchEnv \<Rightarrow> forwardOutcome \<Rightarrow> queuedRequest \<Rightarrow> ladderResult" where
  "moveSwitch env out qr =
     (let cred = qr_SelectedCred qr;
          qr1 = (markTriedCredential (cr_CredentialID cred) qr)\<lparr>qr_CredRetryCount := 0\<rparr>;
          refs = fst (ev_route env qr1)
      in case ev_cancelInRoute env of
           Some o' \<Rightarrow> (complete (ev_now env) o' qr1, LIgnored)
         | None \<Rightarrow> switchLoop env out refs (Some ((newEntry NextActionSwitchCred)\<lparr>je_Model := qr_ResolvedModel qr,
             je_CredentialID := cr_CredentialID cred, je_ProviderID := cr_ProviderID cred, je_Vendor := cr_Vendor cred,
             je_ErrorKind := firstNonEmpty (fo_ErrorKind out) (classifyError (fo_Err out)), je_HTTPStatus := fo_HTTPStatus out,
             je_Attempt := qr_AttemptCount qr, je_FromCredentialID := cr_CredentialID cred,
             je_FromProviderID := cr_ProviderID cred\<rparr>)) qr1)"

definition move :: "dispatchEnv \<Rightarrow> forwardOutcome \<Rightarrow> queuedRequest \<Rightarrow> ladderResult" where
  "move env out qr =
     (if qr_completed qr \<or> qr_abandoned qr then (qr, LIgnored)
      else
        let cred = qr_SelectedCred qr; d = PlanAfterFailure (ev_classify env) qr out (ev_cfg env)
        in if pd_Action d = Some NextActionFailed then terminateOnAttemptCap env out qr
           else if pd_Action d = Some NextActionRetrySameCred
           then let qr1 = qr\<lparr>qr_CredRetryCount := qr_CredRetryCount qr + 1\<rparr>;
                    qr2 = recordDecision (ev_now env) ((newEntry NextActionRetrySameCred)\<lparr>je_Model := qr_ResolvedModel qr,
                      je_CredentialID := cr_CredentialID cred, je_ProviderID := cr_ProviderID cred, je_Vendor := cr_Vendor cred,
                      je_ErrorKind := firstNonEmpty (fo_ErrorKind out) (classifyError (fo_Err out)),
                      je_HTTPStatus := fo_HTTPStatus out, je_Attempt := qr_AttemptCount qr1\<rparr>) qr1
                in case scheduleSameCredRetry env out qr2 of
                     Some l \<Rightarrow> (qr2, l)
                   | None \<Rightarrow> moveSwitch env out qr2
           else moveSwitch env out qr)"

definition onRetryDue :: "dispatchEnv \<Rightarrow> queuedRequest \<Rightarrow> ladderResult" where
  "onRetryDue env qr =
     (if qr_completed qr \<or> qr_abandoned qr then (qr, LIgnored)
      else if ev_shutdown env then finish env (errOutcome ErrShutdown) qr
      else case ev_ctxErr env of
             Some e \<Rightarrow> finish env (errOutcome e) qr
           | None \<Rightarrow>
             if 0 < qr_CapacityRetryCount qr then dispatch env qr
             else if ev_enqueueCred env (cr_CredentialID (qr_SelectedCred qr)) then (qr, LEnqueuedCred (qr_SelectedCred qr))
             else finish env (errOutcome (OverflowError ''cred_queue_full'' DefaultOverflowRetryAfter)) qr)"


section \<open>What every operation of the ladder leaves behind\<close>

definition live :: "queuedRequest \<Rightarrow> bool" where
  "live qr \<longleftrightarrow> journal_inv qr \<and> \<not> qr_completed qr \<and> \<not> qr_abandoned qr"

text \<open>
  The result of a ladder operation on a live request with \<open>n\<close> attempts: either it is still
  live and on its way, or it is completed and the caller has exactly the outcome that was decided.
\<close>

definition ladder_post :: "int \<Rightarrow> ladderResult \<Rightarrow> bool" where
  "ladder_post n r \<longleftrightarrow> qr_AttemptCount (fst r) = n \<and> journal_inv (fst r) \<and> \<not> qr_abandoned (fst r) \<and>
     (case snd r of LCompleted out \<Rightarrow> qr_completed (fst r) \<and> qr_ResultCh (fst r) = [out]
      | LIgnored \<Rightarrow> qr_completed (fst r)
      | _ \<Rightarrow> \<not> qr_completed (fst r))"

lemma live_cong:
  assumes "live qr" "qr_AttemptJournal qr' = qr_AttemptJournal qr" "qr_journalSeq qr' = qr_journalSeq qr"
    "qr_ResultCh qr' = qr_ResultCh qr" "qr_completed qr' = qr_completed qr" "qr_abandoned qr' = qr_abandoned qr"
  shows "live qr'"
  using assms unfolding live_def journal_inv_def journalTailIsTerminal_def by auto

lemma live_updates [simp]:
  "live qr \<Longrightarrow> live (markTriedCredential c qr)" "live qr \<Longrightarrow> live (markTriedModel m qr)"
  "live qr \<Longrightarrow> live (selectCredential ref qr)"
  "live qr \<Longrightarrow> live (qr\<lparr>qr_CredRetryCount := k\<rparr>)" "live qr \<Longrightarrow> live (qr\<lparr>qr_CapacityRetryCount := k\<rparr>)"
  "live qr \<Longrightarrow> live (qr\<lparr>qr_ResolvedModel := m\<rparr>)"
  "live qr \<Longrightarrow> live (qr\<lparr>qr_ResolvedModel := m, qr_ModelAlternatives := alts\<rparr>)"
  "live qr \<Longrightarrow> live (qr\<lparr>qr_ResolvedModel := m, qr_TriedCredentials := ids, qr_CredRetryCount := k, qr_InitialProviderID := p\<rparr>)"
  by (erule live_cong; simp add: markTriedCredential_def markTriedModel_def selectCredential_def)+

lemma live_record [simp]: "live qr \<Longrightarrow> \<not> isTerminalAction (je_Action e) \<Longrightarrow> live (recordDecision now e qr)"
  by (simp add: live_def journal_inv_record)

lemma live_fold_mark [simp]: "live qr \<Longrightarrow> live (fold markTriedCredential ids qr)"
  by (induction ids arbitrary: qr) simp_all

lemma attempts_updates [simp]:
  "qr_AttemptCount (markTriedCredential c qr) = qr_AttemptCount qr" "qr_AttemptCount (markTriedModel m qr) = qr_AttemptCount qr"
  "qr_AttemptCount (selectCredential ref qr) = qr_AttemptCount qr"
  "qr_AttemptCount (switchModel env m qr) = qr_AttemptCount qr"
  "qr_AttemptCount (switchEntry first next now qr) = qr_AttemptCount qr"
  by (simp_all add: markTriedCredential_def markTriedModel_def selectCredential_def switchModel_def Let_def switchEntry_def
      split: option.split)

lemma attempts_fold_mark [simp]: "qr_AttemptCount (fold markTriedCredential ids qr) = qr_AttemptCount qr"
  by (induction ids arbitrary: qr) simp_all

lemma requeue_actions [simp]:
  "\<not> isTerminalAction NextActionSwitchModel" "\<not> isTerminalAction NextActionSwitchCred"
  "\<not> isTerminalAction NextActionRetrySameCred" "\<not> isTerminalAction NextActionCapacityWait"
  by (simp_all add: isTerminalAction_def)

lemma live_switchModel [simp]: "live qr \<Longrightarrow> live (switchModel env m qr)"
  by (simp add: switchModel_def Let_def)

lemma live_switchEntry [simp]:
  "live qr \<Longrightarrow> (\<And>e. first = Some e \<Longrightarrow> \<not> isTerminalAction (je_Action e)) \<Longrightarrow> live (switchEntry first next now qr)"
  by (simp add: switchEntry_def split: option.split)

lemma complete_live:
  assumes "live qr"
  shows "qr_ResultCh (complete now out qr) = [out]" "qr_AttemptCount (complete now out qr) = qr_AttemptCount qr"
    "\<not> qr_abandoned (complete now out qr)" "journal_inv (complete now out qr)"
proof -
  have "qr_ResultCh qr = []" "\<not> qr_completed qr" "\<not> qr_abandoned qr" using assms by (auto simp: live_def journal_inv_def)
  then show "qr_ResultCh (complete now out qr) = [out]" "qr_AttemptCount (complete now out qr) = qr_AttemptCount qr"
    "\<not> qr_abandoned (complete now out qr)"
    by (simp_all add: complete_def Let_def)
  show "journal_inv (complete now out qr)" using assms by (simp add: live_def journal_inv_complete)
qed

lemma finish_post [inv_intros]: "live qr \<Longrightarrow> qr_AttemptCount qr = n \<Longrightarrow> ladder_post n (finish env out qr)"
  by (simp add: ladder_post_def finish_def complete_live)

lemma terminate_post [inv_intros]: "live qr \<Longrightarrow> qr_AttemptCount qr = n \<Longrightarrow> ladder_post n (terminateOnAttemptCap env out qr)"
  by (simp add: terminateOnAttemptCap_def finish_post)

lemma goesOn_post [inv_intros]:
  "live qr \<Longrightarrow> qr_AttemptCount qr = n \<Longrightarrow> ladder_post n (qr, LEnqueuedCred ref)"
  "live qr \<Longrightarrow> qr_AttemptCount qr = n \<Longrightarrow> ladder_post n (qr, LEnqueuedModel m)"
  "live qr \<Longrightarrow> qr_AttemptCount qr = n \<Longrightarrow> ladder_post n (qr, LScheduled t)"
  by (simp_all add: ladder_post_def live_def)

lemma tryModelChangeOutcome_post [inv_intros]:
  "live qr \<Longrightarrow> qr_AttemptCount qr = n \<Longrightarrow> ladder_post n (tryModelChangeOutcome env out qr)"
  by (auto simp: tryModelChangeOutcome_def completeCause_def Let_def intro!: inv_intros)

lemma tryModelChange_post [inv_intros]: "live qr \<Longrightarrow> qr_AttemptCount qr = n \<Longrightarrow> ladder_post n (tryModelChange env cause qr)"
  by (simp add: tryModelChange_def tryModelChangeOutcome_post)

lemma scheduleCapacityRetry_post [inv_intros]:
  "live qr \<Longrightarrow> qr_AttemptCount qr = n \<Longrightarrow> ladder_post n (scheduleCapacityRetry env qr)"
  by (auto simp: scheduleCapacityRetry_def Let_def intro!: inv_intros split: option.split)

lemma selectLoop_frame:
  "live qr \<Longrightarrow> live (fst (selectLoop env refs qr)) \<and> qr_AttemptCount (fst (selectLoop env refs qr)) = qr_AttemptCount qr"
  by (induction env refs qr rule: selectLoop.induct) (auto simp: Let_def)

lemma dispatchResolved_post [inv_intros]:
  "live qr \<Longrightarrow> qr_AttemptCount qr = n \<Longrightarrow> ladder_post n (dispatchResolved env qr)"
  using selectLoop_frame [of qr env "fst (ev_route env qr)"]
  by (auto simp: dispatchResolved_def Let_def intro!: inv_intros split: prod.split option.split)

lemma live_open: "live qr \<Longrightarrow> \<not> (qr_completed qr \<or> qr_abandoned qr)"
  by (simp add: live_def)

lemma dispatch_post [inv_intros]: "live qr \<Longrightarrow> qr_AttemptCount qr = n \<Longrightarrow> ladder_post n (dispatch env qr)"
  using live_open [of qr] by (auto simp: dispatch_def intro!: inv_intros split: option.split)

lemma switchLoop_post:
  "live qr \<Longrightarrow> qr_AttemptCount qr = n \<Longrightarrow> (\<And>e. first = Some e \<Longrightarrow> \<not> isTerminalAction (je_Action e)) \<Longrightarrow>
   ladder_post n (switchLoop env out refs first qr)"
proof (induction env out refs first qr rule: switchLoop.induct)
  case (1 env out refs first qr)
  obtain next' scoped where plan: "PlanSwitchCred qr refs = (next', scoped)" by force
  show ?case
  proof (cases next')
    case None
    then show ?thesis using "1.prems" by (subst switchLoop.simps) (auto simp: plan intro!: inv_intros)
  next
    case (Some ref)
    let ?qr1 = "switchEntry first (Some ref) (ev_now env) (fold markTriedCredential scoped qr)"
    have l1: "live ?qr1" using "1.prems" by simp
    have n1: "qr_AttemptCount ?qr1 = n" using "1.prems" by simp
    show ?thesis
      using "1.IH" [OF plan [symmetric] Some refl _ refl] "1.prems" l1 n1
      by (subst switchLoop.simps) (auto simp: plan Some Let_def intro!: inv_intros)
  qed
qed


lemma ignored_post: "live qr \<Longrightarrow> qr_AttemptCount qr = n \<Longrightarrow> ladder_post n (complete now out qr, LIgnored)"
  by (simp add: ladder_post_def complete_live)

lemma moveSwitch_post [inv_intros]: "live qr \<Longrightarrow> qr_AttemptCount qr = n \<Longrightarrow> ladder_post n (moveSwitch env out qr)"
  by (auto simp: moveSwitch_def Let_def intro!: ignored_post switchLoop_post split: option.split)

lemma scheduleSameCredRetry_goes:
  "scheduleSameCredRetry env out qr = Some l \<Longrightarrow> (\<exists>t. l = LScheduled t) \<or> l = LEnqueuedCred (qr_SelectedCred qr)"
  by (auto simp: scheduleSameCredRetry_def Let_def split: option.splits if_splits)

lemma move_post [inv_intros]: "live qr \<Longrightarrow> qr_AttemptCount qr = n \<Longrightarrow> ladder_post n (move env out qr)"
  using live_open [of qr]
  by (auto simp: move_def Let_def intro!: inv_intros split: option.split dest!: scheduleSameCredRetry_goes)

lemma onRetryDue_post [inv_intros]: "live qr \<Longrightarrow> qr_AttemptCount qr = n \<Longrightarrow> ladder_post n (onRetryDue env qr)"
  using live_open [of qr] by (auto simp: onRetryDue_def intro!: inv_intros split: option.split)

text \<open>The ladder lets a failed request go on only while attempts are left.\<close>

definition goesOn :: "ladderOutcome \<Rightarrow> bool" where
  "goesOn l \<longleftrightarrow> (case l of LIgnored \<Rightarrow> False | LCompleted out \<Rightarrow> False | _ \<Rightarrow> True)"

lemma goesOn_simps [simp]:
  "\<not> goesOn LIgnored" "\<not> goesOn (LCompleted out)" "goesOn (LScheduled t)" "goesOn (LEnqueuedCred ref)" "goesOn (LEnqueuedModel m)"
  by (simp_all add: goesOn_def)

lemma snd_finish [simp]: "snd (finish env out qr) = LCompleted out" "snd (terminateOnAttemptCap env out qr) = LCompleted (attemptCapOutcome qr out)"
  by (simp_all add: finish_def terminateOnAttemptCap_def)

lemma tryModelChangeOutcome_goesOn:
  "goesOn (snd (tryModelChangeOutcome env out qr)) \<Longrightarrow> qr_AttemptCount qr < maxAttempts"
  by (auto simp: tryModelChangeOutcome_def completeCause_def Let_def AttemptBudgetLeft_def split: if_split_asm)

lemma switchLoop_goesOn:
  "goesOn (snd (switchLoop env out refs first qr)) \<Longrightarrow> qr_AttemptCount qr < maxAttempts"
proof (induction env out refs first qr rule: switchLoop.induct)
  case (1 env out refs first qr)
  obtain next' scoped where plan: "PlanSwitchCred qr refs = (next', scoped)" by force
  show ?case
  proof (cases next')
    case None
    then show ?thesis using "1.prems" tryModelChangeOutcome_goesOn by (subst (asm) switchLoop.simps) (fastforce simp: plan)
  next
    case (Some ref)
    then show ?thesis
      using "1.prems" by (subst (asm) switchLoop.simps) (auto simp: plan Let_def AttemptBudgetLeft_def split: if_split_asm)
  qed
qed

lemma moveSwitch_goesOn: "goesOn (snd (moveSwitch env out qr)) \<Longrightarrow> qr_AttemptCount qr < maxAttempts"
  by (auto simp: moveSwitch_def Let_def dest!: switchLoop_goesOn split: option.splits)

lemma move_goesOn:
  assumes "goesOn (snd (move env out qr))"
  shows "qr_AttemptCount qr < maxAttempts"
proof (cases "fo_FatalCredential out \<or> qr_AttemptCount qr < maxAttempts")
  case False
  then have "pd_Action (PlanAfterFailure (ev_classify env) qr out (ev_cfg env)) = Some NextActionFailed"
    by (simp add: PlanAfterFailure_action)
  then show ?thesis using assms by (auto simp: move_def Let_def split: if_split_asm)
next
  case True
  moreover have "pd_Action (PlanAfterFailure (ev_classify env) qr out (ev_cfg env)) = None" if "fo_FatalCredential out"
    using that by (simp add: PlanAfterFailure_action)
  ultimately show ?thesis
    using assms moveSwitch_goesOn [of env out qr] by (auto simp: move_def Let_def split: if_split_asm)
qed

section \<open>The life of a request\<close>

text \<open>
  A forward attempt that came to its end, and a governor that gave up or returned another error:
  the bookkeeping of \<open>acquire\<close> and \<open>attempt\<close> in \<open>forwarder.go\<close> before the request
  is completed or reaches the mover.
\<close>

definition failedForward :: "string \<Rightarrow> instant \<Rightarrow> forwardOutcome \<Rightarrow> queuedRequest \<Rightarrow> queuedRequest" where
  "failedForward uuid now out qr =
     snd (finishAttempt now uuid out (snd (startAllocatedAttempt now (snd (commitReservedAttempt uuid
       (reserveAttempt uuid (qr_SelectedCred qr) qr))))))"

definition pacedOut :: "string \<Rightarrow> queuedRequest \<Rightarrow> queuedRequest" where
  "pacedOut uuid qr =
     (markTriedCredential (cr_CredentialID (qr_SelectedCred qr))
       (abandonReservedAttempt uuid (reserveAttempt uuid (qr_SelectedCred qr) qr)))\<lparr>qr_CredRetryCount := maxRetryBudget\<rparr>"

definition refusedAcquire :: "string \<Rightarrow> queuedRequest \<Rightarrow> queuedRequest" where
  "refusedAcquire uuid qr = abandonReservedAttempt uuid (reserveAttempt uuid (qr_SelectedCred qr) qr)"

text \<open>
  \<open>life qr n\<close>: the request can be in state \<open>qr\<close> after \<open>n\<close> forward attempts, whatever the
  environment answers at each step: first dispatch, promotion of a parked retry, a forward that
  failed before the first byte, one that succeeded or failed after it, a pacing timeout, another error
  of the governor, a terminal delivery, or a caller that left.
\<close>

inductive life :: "queuedRequest \<Rightarrow> nat \<Rightarrow> bool" where
  life_new: "life ((NewQueuedRequest reqID tenant model)\<lparr>qr_AllowModelChange := am, qr_AllowProviderChange := ap,
      qr_RetryPerCredential := rp, qr_ModelAlternatives := alts, qr_InitialProviderID := p\<rparr>) 0"
| life_dispatch: "life qr n \<Longrightarrow> life (fst (dispatch env qr)) n"
| life_retryDue: "life qr n \<Longrightarrow> life (fst (onRetryDue env qr)) n"
| life_forward: "life qr n \<Longrightarrow> \<not> qr_completed qr \<Longrightarrow> life (fst (move env out (failedForward uuid now out qr))) (Suc n)"
| life_delivered: "life qr n \<Longrightarrow> \<not> qr_completed qr \<Longrightarrow> life (complete now' out (failedForward uuid now out qr)) (Suc n)"
| life_refused: "life qr n \<Longrightarrow> \<not> qr_completed qr \<Longrightarrow> life (fst (move env (errOutcome e) (refusedAcquire uuid qr))) n"
| life_paced: "life qr n \<Longrightarrow> \<not> qr_completed qr \<Longrightarrow> life (fst (move env (errOutcome ErrPaceTimeout) (pacedOut uuid qr))) n"
| life_complete: "life qr n \<Longrightarrow> life (complete now out qr) n"
| life_leave: "life qr n \<Longrightarrow> life (complete now out (qr\<lparr>qr_abandoned := True\<rparr>)) n"

inductive_cases life_cases [elim]: "life qr n"

lemma failedForward_frame:
  "qr_AttemptCount (failedForward uuid now out qr) = qr_AttemptCount qr + 1"
  "live qr \<Longrightarrow> live (failedForward uuid now out qr)"
proof -
  have f: "failedForward uuid now out qr = qr\<lparr>qr_AttemptCount := qr_AttemptCount qr + 1, qr_currentAttempt := None,
      qr_attempts := qr_attempts (failedForward uuid now out qr)\<rparr>"
    by (simp add: failedForward_def finishAttempt_def startAllocatedAttempt_def commitReservedAttempt_def reserveAttempt_def Let_def)
  show "qr_AttemptCount (failedForward uuid now out qr) = qr_AttemptCount qr + 1" by (subst f) simp
  show "live qr \<Longrightarrow> live (failedForward uuid now out qr)" by (subst f) (erule live_cong, simp_all)
qed

lemma pacedOut_frame:
  "qr_AttemptCount (pacedOut uuid qr) = qr_AttemptCount qr" "live qr \<Longrightarrow> live (pacedOut uuid qr)"
proof -
  show "qr_AttemptCount (pacedOut uuid qr) = qr_AttemptCount qr"
    by (simp add: pacedOut_def reserveAttempt_def abandonReservedAttempt_def)
  show "live qr \<Longrightarrow> live (pacedOut uuid qr)"
    by (erule live_cong) (simp_all add: pacedOut_def reserveAttempt_def abandonReservedAttempt_def markTriedCredential_def)
qed

lemma refusedAcquire_frame:
  "qr_AttemptCount (refusedAcquire uuid qr) = qr_AttemptCount qr" "live qr \<Longrightarrow> live (refusedAcquire uuid qr)"
proof -
  show "qr_AttemptCount (refusedAcquire uuid qr) = qr_AttemptCount qr"
    by (simp add: refusedAcquire_def reserveAttempt_def abandonReservedAttempt_def)
  show "live qr \<Longrightarrow> live (refusedAcquire uuid qr)"
    by (erule live_cong) (simp_all add: refusedAcquire_def reserveAttempt_def abandonReservedAttempt_def)
qed

definition life_inv :: "queuedRequest \<Rightarrow> nat \<Rightarrow> bool" where
  "life_inv qr n \<longleftrightarrow> journal_inv qr \<and> qr_AttemptCount qr = int n \<and> int n \<le> maxAttempts \<and>
     (qr_completed qr \<or> live qr \<and> int n < maxAttempts)"

lemma life_inv_post:
  assumes "ladder_post (int n) r" "int n \<le> maxAttempts" "goesOn (snd r) \<Longrightarrow> int n < maxAttempts"
  shows "life_inv (fst r) n"
  using assms unfolding ladder_post_def life_inv_def live_def by (cases "snd r") auto

lemma frozen_ops:
  assumes "qr_completed qr"
  shows "fst (dispatch env qr) = qr" "fst (onRetryDue env qr) = qr" "complete now out qr = qr"
    "complete now out (qr\<lparr>qr_abandoned := True\<rparr>) = qr\<lparr>qr_abandoned := True\<rparr>"
  using assms by (simp_all add: dispatch_def onRetryDue_def complete_def)

lemma complete_attempts [simp]: "qr_AttemptCount (complete now out qr) = qr_AttemptCount qr"
  by (simp add: complete_def Let_def)

lemma journal_inv_abandon [simp]: "journal_inv (qr\<lparr>qr_abandoned := b\<rparr>) = journal_inv qr"
  by (simp add: journal_inv_def journalTailIsTerminal_def)

lemma life_invariant: "life qr n \<Longrightarrow> life_inv qr n"
proof (induction rule: life.induct)
  case (life_new reqID tenant model am ap rp alts p)
  then show ?case
    by (simp add: life_inv_def live_def journal_inv_def NewQueuedRequest_def journalTailIsTerminal_def maxAttempts_def)
next
  case (life_dispatch qr n env)
  show ?case
  proof (cases "qr_completed qr")
    case False
    with life_dispatch.IH have "live qr" "qr_AttemptCount qr = int n" "int n < maxAttempts" by (auto simp: life_inv_def)
    then show ?thesis by (intro life_inv_post dispatch_post) auto
  qed (use life_dispatch.IH in \<open>simp add: frozen_ops\<close>)
next
  case (life_retryDue qr n env)
  show ?case
  proof (cases "qr_completed qr")
    case False
    with life_retryDue.IH have "live qr" "qr_AttemptCount qr = int n" "int n < maxAttempts" by (auto simp: life_inv_def)
    then show ?thesis by (intro life_inv_post onRetryDue_post) auto
  qed (use life_retryDue.IH in \<open>simp add: frozen_ops\<close>)
next
  case (life_forward qr n env out uuid now)
  then have lv: "live qr" "qr_AttemptCount qr = int n" "int n < maxAttempts" by (auto simp: life_inv_def)
  let ?qr = "failedForward uuid now out qr"
  have "live ?qr" "qr_AttemptCount ?qr = int (Suc n)" using failedForward_frame lv by auto
  then show ?case
    using lv(3) move_goesOn [of env out ?qr] by (intro life_inv_post move_post) auto
next
  case (life_delivered qr n now' out uuid now)
  then have lv: "live qr" "qr_AttemptCount qr = int n" "int n < maxAttempts" by (auto simp: life_inv_def)
  then have "live (failedForward uuid now out qr)" "qr_AttemptCount (failedForward uuid now out qr) = int (Suc n)"
    using failedForward_frame by auto
  moreover have "qr_completed (complete now' out (failedForward uuid now out qr))" by (simp add: complete_def Let_def)
  ultimately show ?case using lv(3) by (auto simp: life_inv_def live_def journal_inv_complete)
next
  case (life_refused qr n env e uuid)
  then have lv: "live qr" "qr_AttemptCount qr = int n" "int n < maxAttempts" by (auto simp: life_inv_def)
  then have "live (refusedAcquire uuid qr)" "qr_AttemptCount (refusedAcquire uuid qr) = int n" using refusedAcquire_frame by auto
  then show ?case using lv(3) by (intro life_inv_post move_post) auto
next
  case (life_paced qr n env uuid)
  then have lv: "live qr" "qr_AttemptCount qr = int n" "int n < maxAttempts" by (auto simp: life_inv_def)
  then have "live (pacedOut uuid qr)" "qr_AttemptCount (pacedOut uuid qr) = int n" using pacedOut_frame by auto
  then show ?case using lv(3) by (intro life_inv_post move_post) auto
next
  case (life_complete qr n now out)
  then show ?case by (auto simp: life_inv_def journal_inv_complete)
next
  case (life_leave qr n now out)
  then show ?case by (auto simp: life_inv_def journal_inv_complete)
qed


section \<open>Properties\<close>

text \<open>
  C3.
  The attempt cap holds over the whole life of a request. Whatever the router, the queues, the
  governors, the scheduler and the upstreams do, a request is forwarded at most 100 times, and one
  that was not yet completed fewer than 100 times; the attempt counter is the number of forwards;
  the caller gets at most one result; and the request is completed exactly when its trace ends in a
  terminal entry.
\<close>
theorem attempts_bounded:
  assumes "life qr n"
  shows "n \<le> 100 \<and> qr_AttemptCount qr = int n \<and> (qr_completed qr \<or> n < 100) \<and> length (qr_ResultCh qr) \<le> 1 \<and>
    (qr_completed qr \<longleftrightarrow> journalTailIsTerminal qr)"
  using life_invariant [OF assms] by (auto simp: life_inv_def journal_inv_def maxAttempts_def)

lemma attempts_bounded_witness:
  "\<exists>qr. life qr 0 \<and> qr_AttemptCount qr = 0 \<and> \<not> journalTailIsTerminal qr"
proof -
  let ?qr = "(NewQueuedRequest ''r'' ''t'' ''m'')\<lparr>qr_AllowModelChange := False, qr_AllowProviderChange := False,
      qr_RetryPerCredential := -1, qr_ModelAlternatives := [], qr_InitialProviderID := 0\<rparr>"
  have l: "life ?qr 0" by (rule life_new)
  have "\<not> qr_completed ?qr" by (simp add: NewQueuedRequest_def)
  then show ?thesis using l attempts_bounded [OF l] by auto
qed

text \<open>
  C4.
  The ladder loses no request. After a dispatch, a failed attempt or a due retry, a live request
  is either completed, with exactly the decided outcome delivered to its caller, or still open and
  handed to a queue or to the scheduler; its attempt count is unchanged and its trace well formed.
\<close>
theorem ladder_never_loses:
  assumes "live qr" "r \<in> {dispatch env qr, move env out qr, onRetryDue env qr}"
  shows "qr_AttemptCount (fst r) = qr_AttemptCount qr \<and> journal_inv (fst r) \<and>
    (case snd r of LCompleted o' \<Rightarrow> qr_completed (fst r) \<and> qr_ResultCh (fst r) = [o']
     | LIgnored \<Rightarrow> qr_completed (fst r)
     | _ \<Rightarrow> live (fst r))"
proof -
  have "ladder_post (qr_AttemptCount qr) r" using assms by (auto intro: inv_intros)
  then show ?thesis by (auto simp: ladder_post_def live_def split: ladderOutcome.splits)
qed

abbreviation demoEnv :: "credentialRef list \<Rightarrow> (int \<Rightarrow> bool) \<Rightarrow> dispatchEnv" where
  "demoEnv refs accepts \<equiv> \<lparr>ev_now = 1000, ev_cfg = demoConfig, ev_classify = (\<lambda>e. KindTransient),
     ev_route = (\<lambda>qr. (refs, False)), ev_cancelInRoute = None, ev_enqueueCred = accepts, ev_hasCapacity = (\<lambda>c. True),
     ev_enqueueModel = (\<lambda>m. True), ev_modelChange = False, ev_modelResolve = (\<lambda>m tried. Some (''m'', [])),
     ev_modelRecommend = None, ev_scheduler = Some True, ev_ctxErr = None, ev_shutdown = False, ev_inFlight = 4,
     ev_parked = 0, ev_rand = 0\<rparr>"

lemma demoRequest_live [simp]: "live demoRequest"
  using demoRequest_ok by (simp add: live_def NewQueuedRequest_def)

lemma ladder_never_loses_witness:
  "live (fst (dispatch (demoEnv [demoCred 7 1] (\<lambda>c. True)) demoRequest))"
proof -
  let ?env = "demoEnv [demoCred 7 1] (\<lambda>c. True)"
  have "snd (dispatch ?env demoRequest) = LEnqueuedCred (demoCred 7 1)"
    by (simp add: dispatch_def dispatchResolved_def NewQueuedRequest_def hasTriedCredential_def providerSwitchAllowed_def
        selectCredential_def Let_def)
  then show ?thesis
    using ladder_never_loses [OF demoRequest_live, of "dispatch ?env demoRequest" ?env "errOutcome ErrNoRoute"] by simp
qed

lemma switchLoop_sound:
  "snd (switchLoop env out refs first qr) = LEnqueuedCred ref \<Longrightarrow>
   ref \<in> set refs \<and> cr_CredentialID ref \<notin> set (qr_TriedCredentials qr) \<and> ev_enqueueCred env (cr_CredentialID ref) \<and>
   (qr_InitialProviderID qr \<noteq> 0 \<longrightarrow> providerSwitchAllowed qr (cr_ProviderID ref))"
proof (induction env out refs first qr rule: switchLoop.induct)
  case (1 env out refs first qr)
  obtain next' scoped where plan: "PlanSwitchCred qr refs = (next', scoped)" by force
  have frame: "qr_InitialProviderID (fold markTriedCredential ids q) = qr_InitialProviderID q"
    "qr_AllowProviderChange (fold markTriedCredential ids q) = qr_AllowProviderChange q" for ids q
    by (induction ids arbitrary: q) (simp_all add: markTriedCredential_def)
  show ?case
  proof (cases next')
    case None
    then show ?thesis
      using "1.prems"
      by (subst (asm) switchLoop.simps)
        (auto simp: plan tryModelChangeOutcome_def completeCause_def Let_def split: if_split_asm)
  next
    case (Some r)
    let ?qr1 = "switchEntry first (Some r) (ev_now env) (fold markTriedCredential scoped qr)"
    let ?qr2 = "selectCredential r ?qr1"
    have elig: "eligibleCred qr r" "r \<in> set refs"
      using PlanSwitchCred_spec [of qr refs] plan Some by auto
    show ?thesis
    proof (cases "ev_enqueueCred env (cr_CredentialID r)")
      case True
      then show ?thesis
        using "1.prems" elig
        by (subst (asm) switchLoop.simps) (auto simp: plan Some Let_def eligibleCred_def hasTriedCredential_def split: if_split_asm)
    next
      case False
      let ?qr3 = "markTriedCredential (cr_CredentialID r) ?qr2"
      have budget: "\<not> AttemptBudgetLeft ?qr1 \<le> 0" and rest: "snd (switchLoop env out refs None ?qr3) = LEnqueuedCred ref"
        using "1.prems" False
        by (subst (asm) switchLoop.simps, auto simp: plan Some Let_def split: if_split_asm)+
      have init: "qr_InitialProviderID qr \<noteq> 0 \<Longrightarrow> qr_InitialProviderID ?qr3 = qr_InitialProviderID qr"
        "qr_AllowProviderChange ?qr3 = qr_AllowProviderChange qr"
        by (auto simp: markTriedCredential_def selectCredential_def switchEntry_def frame split: option.split)
      have tried: "set (qr_TriedCredentials qr) \<subseteq> set (qr_TriedCredentials ?qr3)"
        by (auto simp: markTriedCredential_def)
      from "1.IH" [OF plan [symmetric] Some refl budget refl False rest] show ?thesis
        using tried init by (auto simp: providerSwitchAllowed_def split: if_split_asm)
    qed
  qed
qed

text \<open>
  A switch after a failure goes to a fresh credential within scope: when the planner does not
  choose a same-credential retry, a credential that \<open>move\<close> enqueues the request on is one of the
  routed candidates, is neither the failed credential nor one tried before, was accepted by its
  queue, and belongs to the request's provider unless provider changes are allowed.
\<close>
theorem switch_goes_to_fresh_credential:
  assumes "snd (move env out qr) = LEnqueuedCred ref" "qr_InitialProviderID qr \<noteq> 0"
    "pd_Action (PlanAfterFailure (ev_classify env) qr out (ev_cfg env)) \<noteq> Some NextActionRetrySameCred"
  shows "cr_CredentialID ref \<noteq> cr_CredentialID (qr_SelectedCred qr) \<and>
    cr_CredentialID ref \<notin> set (qr_TriedCredentials qr) \<and> ev_enqueueCred env (cr_CredentialID ref) \<and>
    providerSwitchAllowed qr (cr_ProviderID ref)"
proof -
  have "snd (moveSwitch env out qr) = LEnqueuedCred ref"
    using assms by (auto simp: move_def Let_def split: if_split_asm)
  then obtain refs first where
    "snd (switchLoop env out refs first ((markTriedCredential (cr_CredentialID (qr_SelectedCred qr)) qr)\<lparr>qr_CredRetryCount := 0\<rparr>)) =
      LEnqueuedCred ref"
    by (auto simp: moveSwitch_def Let_def split: option.splits)
  from switchLoop_sound [OF this] assms(2) show ?thesis
    by (auto simp: markTriedCredential_def providerSwitchAllowed_def split: if_split_asm)
qed

lemma switch_goes_to_fresh_credential_witness:
  "\<exists>ref. snd (move (demoEnv [demoCred 7 1, demoCred 8 1] (\<lambda>c. True)) (demoFailure KindAuth) (demoRequest\<lparr>qr_InitialProviderID := 1\<rparr>)) =
     LEnqueuedCred ref \<and> cr_CredentialID ref \<noteq> 7"
proof -
  let ?env = "demoEnv [demoCred 7 1, demoCred 8 1] (\<lambda>c. True)" and ?qr = "demoRequest\<lparr>qr_InitialProviderID := 1\<rparr>"
  have kind: "plannerKind (\<lambda>e. KindTransient) (demoFailure KindAuth) = KindAuth"
    by (simp add: plannerKind_def isCentralPolicyKind_def)
  have valid: "journal_inv ?qr" "tried_ok ?qr" "\<not> qr_completed ?qr"
    by (simp_all add: journal_inv_def NewQueuedRequest_def journalTailIsTerminal_def tried_ok_def)
  have hist: "validateDecisionHistory (decisionHistoryOf ?qr) = []" "\<not> dh_Terminal (decisionHistoryOf ?qr)"
    using decisionHistory_valid [OF valid(1,2)] valid by (auto simp: decisionHistory_terminal journal_inv_def)
  have plan: "pd_Action (PlanAfterFailure (\<lambda>e. KindTransient) ?qr (demoFailure KindAuth) demoConfig) = None"
    unfolding PlanAfterFailure_action Decide_action actionTable_def Let_def plannerContext_simps kind
    using hist by (simp add: errOutcome_def maxAttempts_def kind_sets)
  have "snd (move ?env (demoFailure KindAuth) ?qr) = LEnqueuedCred (demoCred 8 1)"
    using plan valid(3)
    by (simp add: move_def Let_def moveSwitch_def)
      (subst switchLoop.simps, simp add: NewQueuedRequest_def markTriedCredential_def hasTriedCredential_def
        providerSwitchAllowed_def zeroCred_def switchEntry_def AttemptBudgetLeft_def maxAttempts_def)
  then show ?thesis
    using switch_goes_to_fresh_credential [of ?env "demoFailure KindAuth" ?qr "demoCred 8 1"] plan by auto
qed


text \<open>
  A terminal verdict is reported as an attempt cap. For a live request whose failure has a
  terminal kind (content filter, context length, model not found, a client bug) the ladder stops at
  once, but the outcome delivered to the caller carries the kind \<open>attempt_cap\<close> in place of the
  actual kind, whatever the number of attempts made; the same happens at the cap itself without the
  router being asked whether any candidate is left.
\<close>
theorem terminal_verdict_reported_as_cap:
  assumes lv: "live qr" and tried: "tried_ok qr" and nf: "\<not> fo_FatalCredential out"
    and why: "terminalActionKind (plannerKind (ev_classify env) out) \<or> maxAttempts \<le> qr_AttemptCount qr"
  shows "snd (move env out qr) = LCompleted (attemptCapOutcome qr out) \<and>
    qr_ResultCh (fst (move env out qr)) = [attemptCapOutcome qr out] \<and>
    fo_ErrorKind (attemptCapOutcome qr out) = KindOther ''attempt_cap''"
proof -
  let ?k = "plannerKind (ev_classify env) out"
  have inv: "journal_inv qr" "\<not> qr_completed qr" using lv by (auto simp: live_def)
  have hist: "validateDecisionHistory (decisionHistoryOf qr) = []" "\<not> dh_Terminal (decisionHistoryOf qr)"
    using decisionHistory_valid [OF inv(1) tried] inv by (auto simp: decisionHistory_terminal journal_inv_def)
  have act: "ad_Action (DecideNextAction (plannerContext (ev_classify env) qr out (ev_cfg env))) = ActionFailTerminal"
    if "terminalActionKind ?k"
    unfolding Decide_action actionTable_def Let_def plannerContext_simps using hist that by (auto simp: kind_sets)
  have "pd_Action (PlanAfterFailure (ev_classify env) qr out (ev_cfg env)) = Some NextActionFailed"
    unfolding PlanAfterFailure_action using nf why act by (auto split: if_split_asm)
  then have m: "move env out qr = terminateOnAttemptCap env out qr"
    using live_open [OF lv] by (simp add: move_def Let_def)
  have "fo_ErrorKind (attemptCapOutcome qr out) = KindOther ''attempt_cap''"
    by (simp add: attemptCapOutcome_def reasonAttemptCap_def)
  then show ?thesis using complete_live(1) [OF lv] unfolding m by (simp add: terminateOnAttemptCap_def finish_def)
qed

lemma terminal_verdict_reported_as_cap_witness:
  "snd (move (demoEnv [] (\<lambda>c. False)) (demoFailure KindContentFilter) demoRequest) =
     LCompleted (attemptCapOutcome demoRequest (demoFailure KindContentFilter)) \<and> qr_AttemptCount demoRequest = 1"
proof -
  have "plannerKind (ev_classify (demoEnv [] (\<lambda>c. False))) (demoFailure KindContentFilter) = KindContentFilter"
    by (simp add: plannerKind_def isCentralPolicyKind_def)
  then show ?thesis
    using terminal_verdict_reported_as_cap [OF demoRequest_live demoRequest_ok(3), of "demoFailure KindContentFilter" "demoEnv [] (\<lambda>c. False)"]
    by (simp add: errOutcome_def kind_sets)
qed

lemma selectLoop_saturated:
  "\<forall>r \<in> set refs. \<not> ev_hasCapacity env (cr_CredentialID r) \<and> providerSwitchAllowed qr (cr_ProviderID r) \<Longrightarrow>
   selectLoop env refs qr = (qr, None)"
  by (induction refs) auto

text \<open>
  Waiting for capacity is bounded when the queues are full. While every routed credential is
  within scope and reports no capacity, each dispatch parks the request for five seconds and counts
  one round; after the twelfth round it escalates to the model change instead.
\<close>
theorem capacity_wait_escalates:
  assumes lv: "live qr" and model: "qr_ResolvedModel qr \<noteq> []" and route: "ev_route env qr = (refs, False)" "refs \<noteq> []"
    and full: "\<forall>r \<in> set refs. \<not> ev_hasCapacity env (cr_CredentialID r) \<and> providerSwitchAllowed qr (cr_ProviderID r)"
    and sched: "ev_scheduler env = Some True" "ev_ctxErr env = None"
  shows "if qr_CapacityRetryCount qr < 12
    then snd (dispatch env qr) = LScheduled (ev_now env + 5 * go_second) \<and>
         qr_CapacityRetryCount (fst (dispatch env qr)) = qr_CapacityRetryCount qr + 1
    else dispatch env qr = tryModelChange env ErrCapacitySaturated qr"
  using live_open [OF lv] model route selectLoop_saturated [OF full] sched
  by (simp add: dispatch_def dispatchResolved_def scheduleCapacityRetry_def Let_def PlanCapacityWait_def planOf_def
      maxCapacityRetries_def capacityRetryDelay_def)

lemma capacity_wait_escalates_witness:
  "snd (dispatch ((demoEnv [demoCred 7 1] (\<lambda>c. True))\<lparr>ev_hasCapacity := (\<lambda>c. False)\<rparr>) demoRequest) = LScheduled 5000001000"
proof -
  let ?env = "(demoEnv [demoCred 7 1] (\<lambda>c. True))\<lparr>ev_hasCapacity := (\<lambda>c. False)\<rparr>"
  have "qr_CapacityRetryCount demoRequest = 0" "qr_ResolvedModel demoRequest \<noteq> []" "providerSwitchAllowed demoRequest 1"
    by (simp_all add: NewQueuedRequest_def providerSwitchAllowed_def)
  then show ?thesis using capacity_wait_escalates [OF demoRequest_live, of ?env "[demoCred 7 1]"] by simp
qed

text \<open>
  Waiting for capacity is not bounded when a credential reports capacity but its queue refuses
  the request, as a cluster lane does that is full elsewhere. The round counter is reset by every
  selection, so the request is parked again after any number of rounds and never escalates.
\<close>
theorem capacity_wait_unbounded:
  assumes lv: "live qr" and model: "qr_ResolvedModel qr \<noteq> []" and route: "\<forall>q. ev_route env q = ([ref], False)"
    and fresh: "cr_CredentialID ref \<notin> set (qr_TriedCredentials qr)" "providerSwitchAllowed qr (cr_ProviderID ref)"
    and queue: "ev_hasCapacity env (cr_CredentialID ref)" "\<not> ev_enqueueCred env (cr_CredentialID ref)"
    and sched: "ev_scheduler env = Some True" "ev_ctxErr env = None" "\<not> ev_shutdown env"
  defines "again \<equiv> \<lambda>q. fst (onRetryDue env q)"
  shows "snd (onRetryDue env ((again ^^ rounds) (fst (dispatch env qr)))) = LScheduled (ev_now env + 5 * go_second) \<and>
    qr_CapacityRetryCount ((again ^^ rounds) (fst (dispatch env qr))) = 1"
proof -
  define stuck where "stuck q \<longleftrightarrow> live q \<and> qr_ResolvedModel q \<noteq> [] \<and> cr_CredentialID ref \<notin> set (qr_TriedCredentials q) \<and>
    providerSwitchAllowed q (cr_ProviderID ref)" for q
  have step: "stuck (fst (dispatch env q)) \<and> qr_CapacityRetryCount (fst (dispatch env q)) = 1 \<and>
      snd (dispatch env q) = LScheduled (ev_now env + 5 * go_second)" if "stuck q" for q
  proof -
    let ?q1 = "(selectCredential ref q)\<lparr>qr_CapacityRetryCount := 0\<rparr>"
    let ?q2 = "recordDecision (ev_now env) ((newEntry NextActionCapacityWait)\<lparr>je_Model := qr_ResolvedModel ?q1,
        je_Attempt := qr_AttemptCount ?q1, je_At := Some (ev_now env)\<rparr>) (?q1\<lparr>qr_CapacityRetryCount := 1\<rparr>)"
    have d: "dispatch env q = (?q2, LScheduled (ev_now env + 5 * go_second))"
      using that live_open [of q] route queue sched
      by (simp add: stuck_def dispatch_def dispatchResolved_def Let_def hasTriedCredential_def scheduleCapacityRetry_def
          PlanCapacityWait_def planOf_def maxCapacityRetries_def capacityRetryDelay_def)
    have "live ?q2" using that by (simp add: stuck_def)
    moreover have "providerSwitchAllowed ?q2 (cr_ProviderID ref)"
      using that by (auto simp: stuck_def providerSwitchAllowed_def selectCredential_def)
    ultimately show ?thesis unfolding d using that by (simp add: stuck_def selectCredential_def)
  qed
  have due: "onRetryDue env q = dispatch env q" if "stuck q" "qr_CapacityRetryCount q = 1" for q
    using that live_open [of q] sched by (simp add: stuck_def onRetryDue_def)
  have "stuck ((again ^^ k) (fst (dispatch env qr))) \<and> qr_CapacityRetryCount ((again ^^ k) (fst (dispatch env qr))) = 1" for k
  proof (induction k)
    case 0
    then show ?case using step [of qr] lv model fresh by (simp add: stuck_def [of qr])
  next
    case (Suc k)
    then show ?case using step due by (simp add: again_def)
  qed
  then show ?thesis using step due by simp
qed

lemma capacity_wait_unbounded_witness:
  "snd (onRetryDue (demoEnv [demoCred 7 1] (\<lambda>c. False))
     (((\<lambda>q. fst (onRetryDue (demoEnv [demoCred 7 1] (\<lambda>c. False)) q)) ^^ 1000)
       (fst (dispatch (demoEnv [demoCred 7 1] (\<lambda>c. False)) demoRequest)))) = LScheduled 5000001000"
proof -
  let ?env = "demoEnv [demoCred 7 1] (\<lambda>c. False)"
  have "qr_ResolvedModel demoRequest \<noteq> []" "7 \<notin> set (qr_TriedCredentials demoRequest)" "providerSwitchAllowed demoRequest 1"
    by (simp_all add: NewQueuedRequest_def providerSwitchAllowed_def)
  then show ?thesis
    using capacity_wait_unbounded [OF demoRequest_live, of ?env "demoCred 7 1" 1000] by simp
qed


text \<open>
  A refused selection pins the provider. On the first dispatch of a request that may not change
  provider, a candidate whose queue refuses the request has already fixed the provider scope, so the
  next candidate, of another provider, is marked as tried and the request is parked, although
  nothing was sent yet and that candidate's queue would have taken it.
\<close>
theorem refused_selection_pins_provider:
  assumes lv: "live qr" and model: "qr_ResolvedModel qr \<noteq> []" and route: "ev_route env qr = ([a, b], False)"
    and scope: "qr_InitialProviderID qr = 0" "\<not> qr_AllowProviderChange qr" "cr_ProviderID a \<noteq> 0" "cr_ProviderID b \<noteq> 0"
      "cr_ProviderID b \<noteq> cr_ProviderID a"
    and fresh: "qr_TriedCredentials qr = []" and refused: "ev_hasCapacity env (cr_CredentialID a)" "\<not> ev_enqueueCred env (cr_CredentialID a)"
    and sched: "ev_scheduler env = Some True" "ev_ctxErr env = None"
  shows "snd (dispatch env qr) = LScheduled (ev_now env + 5 * go_second) \<and>
    cr_CredentialID b \<in> set (qr_TriedCredentials (fst (dispatch env qr)))"
  using live_open [OF lv] assms(2-)
  by (simp add: dispatch_def dispatchResolved_def Let_def hasTriedCredential_def providerSwitchAllowed_def selectCredential_def
      markTriedCredential_def scheduleCapacityRetry_def PlanCapacityWait_def planOf_def maxCapacityRetries_def capacityRetryDelay_def)

lemma refused_selection_pins_provider_witness:
  "8 \<in> set (qr_TriedCredentials (fst (dispatch (demoEnv [demoCred 7 1, demoCred 8 2] (\<lambda>c. c = 8)) demoRequest))) \<and>
   ev_enqueueCred (demoEnv [demoCred 7 1, demoCred 8 2] (\<lambda>c. c = 8)) 8"
proof -
  let ?env = "demoEnv [demoCred 7 1, demoCred 8 2] (\<lambda>c. c = 8)"
  have "qr_ResolvedModel demoRequest \<noteq> []" "qr_InitialProviderID demoRequest = 0" "\<not> qr_AllowProviderChange demoRequest"
    "qr_TriedCredentials demoRequest = []"
    by (simp_all add: NewQueuedRequest_def)
  then show ?thesis
    using refused_selection_pins_provider [OF demoRequest_live, of ?env "demoCred 7 1" "demoCred 8 2"] by simp
qed

end
