(* ===== verification/Governor.thy ===== *)
theory Governor
  imports Planner
begin

text \<open>
  The per-credential governors, \<open>domains/dispatch/governor.go\<close> and \<open>local_backend.go\<close>: the
  in-flight cap, the requests-per-minute and the tokens-per-minute token buckets, the governor that
  admits everything, the choice between them, and the pacing budget of \<open>forwarder.go\<close>. A blocking
  \<open>Acquire\<close> is the sequence of its loop iterations; one iteration is one operation here, with the
  clock readings it makes as arguments, and iterations of concurrent requests interleave freely.
  Token counts are \<open>float64\<close> in the code and exact reals here.
\<close>

definition go_floor_pos :: "real \<Rightarrow> int" where
  "go_floor_pos r = (if 0 \<le> r then \<lfloor>r\<rfloor> else \<lceil>r\<rceil>)"

section \<open>Pacing budget\<close>

definition waitWithinBudget :: "instant \<Rightarrow> instant \<Rightarrow> duration \<Rightarrow> instant option \<Rightarrow> duration option" where
  "waitWithinBudget now now' wait giveUp =
     (case giveUp of
        None \<Rightarrow> if wait \<le> 0 then None else Some wait
      | Some g \<Rightarrow>
          if g \<le> now then None
          else let deadline = g - now'; wait' = (if deadline < wait then deadline else wait)
               in if wait' \<le> 0 then None else Some wait')"

definition queueWaitBudget :: "dispatchConfig \<Rightarrow> credentialRef \<Rightarrow> duration" where
  "queueWaitBudget cfg cred =
     (let ms = (if cr_MaxQueueWaitMS cred \<le> 0 then cfg_MaxQueueWaitMS cfg else cr_MaxQueueWaitMS cred)
      in if ms \<le> 0 then 0 else ms * go_millisecond)"

section \<open>Governors\<close>

datatype govMode = ModeConcurrency | ModeRPM | ModeTPM | ModeDisabled

record concurrencyGovernor =
  cg_cap :: int
  cg_used :: int

record rpmGovernor =
  rg_tokens :: real
  rg_rpm :: int
  rg_last :: instant
  rg_interval :: duration

record tpmGovernor =
  tg_tokens :: real
  tg_tpm :: int
  tg_last :: instant
  tg_perSec :: real

datatype governor = GConcurrency concurrencyGovernor | GRPM rpmGovernor | GTPM tpmGovernor | GNoop

datatype acquireResult = AcqOk | AcqErr dispErr | AcqWait duration

definition newConcurrencyGovernor :: "int \<Rightarrow> concurrencyGovernor" where
  "newConcurrencyGovernor capacity = \<lparr>cg_cap = capacity, cg_used = 0\<rparr>"

definition newRPMGovernor :: "int \<Rightarrow> instant \<Rightarrow> rpmGovernor" where
  "newRPMGovernor rpm now = \<lparr>rg_tokens = of_int rpm, rg_rpm = rpm, rg_last = now,
     rg_interval = go_floor_pos (of_int go_second * 60 / of_int rpm)\<rparr>"

definition newTPMGovernor :: "int \<Rightarrow> instant \<Rightarrow> tpmGovernor" where
  "newTPMGovernor tpm now = \<lparr>tg_tokens = of_int tpm, tg_tpm = tpm, tg_last = now, tg_perSec = of_int tpm / 60\<rparr>"

definition newGovernor :: "credentialRef \<Rightarrow> instant \<Rightarrow> governor" where
  "newGovernor ref now =
     (if cr_ConcurrencyMode ref = ''rpm''
      then if cr_RPMLimit ref \<le> 0 then GNoop else GRPM (newRPMGovernor (cr_RPMLimit ref) now)
      else if cr_ConcurrencyMode ref = ''tpm''
      then if cr_TPMLimit ref \<le> 0 then GNoop else GTPM (newTPMGovernor (cr_TPMLimit ref) now)
      else if cr_ConcurrencyMode ref = ''disabled'' then GNoop
      else if cr_ConcurrencyLimit ref \<le> 0 then GNoop
      else GConcurrency (newConcurrencyGovernor (cr_ConcurrencyLimit ref)))"

definition Mode :: "governor \<Rightarrow> govMode" where
  "Mode g = (case g of GConcurrency c \<Rightarrow> ModeConcurrency | GRPM r \<Rightarrow> ModeRPM | GTPM t \<Rightarrow> ModeTPM | GNoop \<Rightarrow> ModeDisabled)"

text \<open>
  One iteration of the loop of each \<open>Acquire\<close>. \<open>casWon\<close> tells whether the compare-and-swap on the
  in-flight counter won against concurrent requests; \<open>ctxErr\<close> is what \<open>ctx.Err()\<close> or the cancelled
  \<open>select\<close> returns, \<open>AcqWait\<close> the sleep before the next iteration.
\<close>

definition concAcquire :: "concurrencyGovernor \<Rightarrow> instant \<Rightarrow> instant option \<Rightarrow> dispErr option \<Rightarrow> bool \<Rightarrow>
    acquireResult \<times> concurrencyGovernor" where
  "concAcquire g now giveUp ctxErr casWon =
     (if cg_used g < cg_cap g \<and> casWon then (AcqOk, g\<lparr>cg_used := cg_used g + 1\<rparr>)
      else case ctxErr of
             Some e \<Rightarrow> (AcqErr e, g)
           | None \<Rightarrow> (case giveUp of
                 Some t \<Rightarrow> if t \<le> now then (AcqErr ErrPaceTimeout, g) else (AcqWait (2 * go_millisecond), g)
               | None \<Rightarrow> (AcqWait (2 * go_millisecond), g)))"

definition concRelease :: "concurrencyGovernor \<Rightarrow> concurrencyGovernor" where
  "concRelease g = (if cg_used g \<le> 0 then g else g\<lparr>cg_used := cg_used g - 1\<rparr>)"

definition rpmRefill :: "rpmGovernor \<Rightarrow> instant \<Rightarrow> rpmGovernor" where
  "rpmRefill g now =
     (let refill = of_int (now - rg_last g) / of_int (rg_interval g) :: real
      in if 0 < refill
         then g\<lparr>rg_tokens := (if of_int (rg_rpm g) < rg_tokens g + refill then of_int (rg_rpm g) else rg_tokens g + refill),
                rg_last := now\<rparr>
         else g)"

definition rpmAcquire :: "rpmGovernor \<Rightarrow> instant \<Rightarrow> instant \<Rightarrow> instant option \<Rightarrow> dispErr option \<Rightarrow>
    acquireResult \<times> rpmGovernor" where
  "rpmAcquire g0 now now' giveUp ctxErr =
     (let g = rpmRefill g0 now
      in if 1 \<le> rg_tokens g then (AcqOk, g\<lparr>rg_tokens := rg_tokens g - 1\<rparr>)
         else let wait = go_floor_pos ((1 - rg_tokens g) * of_int (rg_interval g))
              in case waitWithinBudget now now' wait giveUp of
                   None \<Rightarrow> (AcqErr ErrPaceTimeout, g)
                 | Some w \<Rightarrow> (case ctxErr of Some e \<Rightarrow> (AcqErr e, g) | None \<Rightarrow> (AcqWait w, g)))"

definition rpmRecordExtraCall :: "rpmGovernor \<Rightarrow> rpmGovernor" where
  "rpmRecordExtraCall g = g\<lparr>rg_tokens := max (rg_tokens g - 1) (- of_int (rg_rpm g))\<rparr>"

definition defaultTokenEstimate :: int where "defaultTokenEstimate = 800"

definition tokenCost :: "int \<Rightarrow> int" where
  "tokenCost estimatedTokens = (if estimatedTokens \<le> 0 then defaultTokenEstimate else estimatedTokens)"

definition tpmRefill :: "tpmGovernor \<Rightarrow> instant \<Rightarrow> tpmGovernor" where
  "tpmRefill g now =
     (let elapsed = of_int (now - tg_last g) / of_int go_second :: real
      in if 0 < elapsed
         then g\<lparr>tg_tokens := (if of_int (tg_tpm g) < tg_tokens g + elapsed * tg_perSec g then of_int (tg_tpm g)
                              else tg_tokens g + elapsed * tg_perSec g),
                tg_last := now\<rparr>
         else g)"

definition tpmAcquire :: "tpmGovernor \<Rightarrow> int \<Rightarrow> instant \<Rightarrow> instant \<Rightarrow> instant option \<Rightarrow> dispErr option \<Rightarrow>
    acquireResult \<times> tpmGovernor" where
  "tpmAcquire g0 estimatedTokens now now' giveUp ctxErr =
     (let cost = of_int (tokenCost estimatedTokens) :: real; g = tpmRefill g0 now
      in if cost \<le> tg_tokens g then (AcqOk, g\<lparr>tg_tokens := tg_tokens g - cost\<rparr>)
         else let wait = go_floor_pos (((cost - tg_tokens g) / tg_perSec g) * of_int go_second)
              in case waitWithinBudget now now' wait giveUp of
                   None \<Rightarrow> (AcqErr ErrPaceTimeout, g)
                 | Some w \<Rightarrow> (case ctxErr of Some e \<Rightarrow> (AcqErr e, g) | None \<Rightarrow> (AcqWait w, g)))"

definition tpmRecordExtraCall :: "tpmGovernor \<Rightarrow> int \<Rightarrow> tpmGovernor" where
  "tpmRecordExtraCall g estimatedTokens =
     g\<lparr>tg_tokens := max (tg_tokens g - of_int (tokenCost estimatedTokens)) (- of_int (tg_tpm g))\<rparr>"

definition Acquire :: "governor \<Rightarrow> int \<Rightarrow> instant \<Rightarrow> instant \<Rightarrow> instant option \<Rightarrow> dispErr option \<Rightarrow> bool \<Rightarrow>
    acquireResult \<times> governor" where
  "Acquire gov estimatedTokens now now' giveUp ctxErr casWon =
     (case gov of
        GConcurrency g \<Rightarrow> map_prod id GConcurrency (concAcquire g now giveUp ctxErr casWon)
      | GRPM g \<Rightarrow> map_prod id GRPM (rpmAcquire g now now' giveUp ctxErr)
      | GTPM g \<Rightarrow> map_prod id GTPM (tpmAcquire g estimatedTokens now now' giveUp ctxErr)
      | GNoop \<Rightarrow> (AcqOk, GNoop))"

definition Release :: "governor \<Rightarrow> governor" where
  "Release gov = (case gov of GConcurrency g \<Rightarrow> GConcurrency (concRelease g) | _ \<Rightarrow> gov)"

definition RecordExtraCall :: "governor \<Rightarrow> int \<Rightarrow> governor" where
  "RecordExtraCall gov estimatedTokens = (case gov of GRPM g \<Rightarrow> GRPM (rpmRecordExtraCall g)
     | GTPM g \<Rightarrow> GTPM (tpmRecordExtraCall g estimatedTokens) | _ \<Rightarrow> gov)"

definition acquireGiveUp :: "dispatchConfig \<Rightarrow> credentialRef \<Rightarrow> governor \<Rightarrow> instant \<Rightarrow> instant option" where
  "acquireGiveUp cfg cred gov now =
     (let budget = queueWaitBudget cfg cred
      in if 0 < budget then Some (now + budget)
         else if Mode gov = ModeConcurrency then None else Some now)"

section \<open>In-process backend (local\_backend.go)\<close>

record localBackend =
  lb_openCount :: int
  lb_opened :: bool
  lb_closed :: bool

definition NewLocalBackend :: localBackend where
  "NewLocalBackend = \<lparr>lb_openCount = 0, lb_opened = False, lb_closed = False\<rparr>"

definition lb_Open :: "localBackend \<Rightarrow> localBackend" where
  "lb_Open b = (let b1 = (if lb_closed b then b\<lparr>lb_closed := False, lb_openCount := 0\<rparr> else b)
     in if lb_opened b1 then b1 else b1\<lparr>lb_opened := True, lb_openCount := lb_openCount b1 + 1\<rparr>)"

definition lb_Close :: "localBackend \<Rightarrow> localBackend" where
  "lb_Close b = (if \<not> lb_opened b then b else b\<lparr>lb_opened := False, lb_closed := True\<rparr>)"

section \<open>Token buckets\<close>

text \<open>
  A run of a bucket: \<open>Inl (c, t)\<close> tries to take \<open>c\<close> at instant \<open>t\<close>, \<open>Inr c\<close> charges \<open>c\<close> for an
  extra call. It returns the sum that was admitted.
\<close>

fun bucket_run :: "('c \<Rightarrow> real) \<Rightarrow> ('s \<Rightarrow> 'c \<Rightarrow> instant \<Rightarrow> bool \<times> 's) \<Rightarrow> ('s \<Rightarrow> 'c \<Rightarrow> 's) \<Rightarrow> 's \<Rightarrow>
    (('c \<times> instant) + 'c) list \<Rightarrow> real \<times> 's" where
  "bucket_run cost take' charge s [] = (0, s)"
| "bucket_run cost take' charge s (Inl (c, t) # ops) =
     (case take' s c t of (admitted, s') \<Rightarrow>
        (case bucket_run cost take' charge s' ops of (got, s'') \<Rightarrow> ((if admitted then cost c else 0) + got, s'')))"
| "bucket_run cost take' charge s (Inr c # ops) = bucket_run cost take' charge (charge s c) ops"

text \<open>
  What a token bucket promises, for a state \<open>'s\<close> with a token level, the instant of the last
  refill and the two operations. The laws bound the level after an operation by the refill since the
  last one; the client's theorem bounds what any sequence of operations can admit.
\<close>

locale token_bucket =
  fixes level :: "'s \<Rightarrow> real" and refilled :: "'s \<Rightarrow> instant" and ok :: "'s \<Rightarrow> bool"
    and cost :: "'c \<Rightarrow> real" and take' :: "'s \<Rightarrow> 'c \<Rightarrow> instant \<Rightarrow> bool \<times> 's" and charge :: "'s \<Rightarrow> 'c \<Rightarrow> 's"
    and rate :: real and burst :: real
  assumes rate_nonneg: "0 \<le> rate" and burst_nonneg: "0 \<le> burst"
    and take_ok: "ok s \<Longrightarrow> ok (snd (take' s c t))"
    and charge_ok: "ok s \<Longrightarrow> ok (charge s c)"
    and ok_burst: "ok s \<Longrightarrow> level s \<le> burst"
    and take_refilled: "ok s \<Longrightarrow> refilled (snd (take' s c t)) = max (refilled s) t"
    and take_level: "ok s \<Longrightarrow> level (snd (take' s c t)) \<le>
      level s + rate * of_int (max (refilled s) t - refilled s) - (if fst (take' s c t) then cost c else 0)"
    and take_nonneg: "ok s \<Longrightarrow> fst (take' s c t) \<Longrightarrow> 0 \<le> level (snd (take' s c t))"
    and charge_refilled: "ok s \<Longrightarrow> refilled (charge s c) = refilled s"
    and charge_level: "ok s \<Longrightarrow> level (charge s c) \<le> level s"
begin

lemma bucket_run_bound:
  assumes "ok s" "\<forall>op \<in> set ops. case op of Inl (c, t) \<Rightarrow> t \<le> tend | Inr c \<Rightarrow> True" "refilled s \<le> tend"
  shows "fst (bucket_run cost take' charge s ops) \<le> max 0 (level s + rate * of_int (tend - refilled s))"
  using assms
proof (induction ops arbitrary: s)
  case (Cons op ops)
  show ?case
  proof (cases op)
    case (Inl p)
    obtain c t where p: "p = (c, t)" by force
    obtain a s' where tk: "take' s c t = (a, s')" by force
    let ?r = "rate * of_int (tend - max (refilled s) t)"
    have le: "max (refilled s) t \<le> tend" using Cons.prems Inl p by auto
    have r': "refilled s' = max (refilled s) t" and ok': "ok s'"
      using take_refilled [of s c t] take_ok [of s c t] Cons.prems tk by auto
    have ih: "fst (bucket_run cost take' charge s' ops) \<le> max 0 (level s' + ?r)"
      using Cons.IH [OF ok'] r' le Cons.prems(2) by simp
    have lvl: "level s' + ?r + (if a then cost c else 0) \<le> level s + rate * of_int (tend - refilled s)"
      using take_level [of s c t] Cons.prems(1) tk by (simp add: algebra_simps)
    have "0 \<le> ?r" using rate_nonneg le by simp
    moreover have "a \<Longrightarrow> 0 \<le> level s'" using take_nonneg [of s c t] Cons.prems(1) tk by simp
    ultimately have "(if a then cost c else 0) + fst (bucket_run cost take' charge s' ops) \<le> max 0 (level s + rate * of_int (tend - refilled s))"
      using ih lvl by (cases a) auto
    then show ?thesis by (cases "bucket_run cost take' charge s' ops") (auto simp: Inl p tk)
  next
    case (Inr c)
    have "fst (bucket_run cost take' charge (charge s c) ops) \<le> max 0 (level (charge s c) + rate * of_int (tend - refilled (charge s c)))"
      using Cons.IH [of "charge s c"] Cons.prems Inr charge_ok charge_refilled by simp
    also have "\<dots> \<le> max 0 (level s + rate * of_int (tend - refilled s))"
      using charge_level [of s c] Cons.prems Inr charge_refilled by (simp add: max.coboundedI2)
    finally show ?thesis by (simp add: Inr)
  qed
qed simp

lemma admitted_bound:
  assumes "ok s" "\<forall>op \<in> set ops. case op of Inl (c, t) \<Rightarrow> t \<le> tend | Inr c \<Rightarrow> True" "refilled s \<le> tend"
  shows "fst (bucket_run cost take' charge s ops) \<le> burst + rate * of_int (tend - refilled s)"
proof -
  have "0 \<le> burst + rate * of_int (tend - refilled s)" using rate_nonneg burst_nonneg assms(3) by simp
  then show ?thesis using bucket_run_bound [OF assms] ok_burst [OF assms(1)] by linarith
qed

end


text \<open>The two rate governors as buckets: an iteration of \<open>Acquire\<close> that succeeds takes, an extra call charges.\<close>

type_synonym rpmCall = "instant \<times> instant option \<times> dispErr option"

definition rpmTake :: "rpmGovernor \<Rightarrow> rpmCall \<Rightarrow> instant \<Rightarrow> bool \<times> rpmGovernor" where
  "rpmTake g call now = (case call of (now', giveUp, ctxErr) \<Rightarrow>
     (fst (rpmAcquire g now now' giveUp ctxErr) = AcqOk, snd (rpmAcquire g now now' giveUp ctxErr)))"

definition tpmTake :: "tpmGovernor \<Rightarrow> int \<times> rpmCall \<Rightarrow> instant \<Rightarrow> bool \<times> tpmGovernor" where
  "tpmTake g call now = (case call of (est, now', giveUp, ctxErr) \<Rightarrow>
     (fst (tpmAcquire g est now now' giveUp ctxErr) = AcqOk, snd (tpmAcquire g est now now' giveUp ctxErr)))"

definition rpm_ok :: "int \<Rightarrow> duration \<Rightarrow> rpmGovernor \<Rightarrow> bool" where
  "rpm_ok n i g \<longleftrightarrow> 0 < n \<and> 0 < i \<and> rg_rpm g = n \<and> rg_interval g = i \<and> - of_int n \<le> rg_tokens g \<and> rg_tokens g \<le> of_int n"

definition tpm_ok :: "int \<Rightarrow> tpmGovernor \<Rightarrow> bool" where
  "tpm_ok n g \<longleftrightarrow> 0 < n \<and> tg_tpm g = n \<and> tg_perSec g = of_int n / 60 \<and> - of_int n \<le> tg_tokens g \<and> tg_tokens g \<le> of_int n"

lemma rpmAcquire_snd:
  "snd (rpmAcquire g now now' giveUp ctxErr) =
     (if 1 \<le> rg_tokens (rpmRefill g now) then (rpmRefill g now)\<lparr>rg_tokens := rg_tokens (rpmRefill g now) - 1\<rparr> else rpmRefill g now)"
  "fst (rpmAcquire g now now' giveUp ctxErr) = AcqOk \<longleftrightarrow> 1 \<le> rg_tokens (rpmRefill g now)"
  by (auto simp: rpmAcquire_def Let_def split: option.split)

lemma tpmAcquire_snd:
  "snd (tpmAcquire g est now now' giveUp ctxErr) =
     (if of_int (tokenCost est) \<le> tg_tokens (tpmRefill g now)
      then (tpmRefill g now)\<lparr>tg_tokens := tg_tokens (tpmRefill g now) - of_int (tokenCost est)\<rparr> else tpmRefill g now)"
  "fst (tpmAcquire g est now now' giveUp ctxErr) = AcqOk \<longleftrightarrow> of_int (tokenCost est) \<le> tg_tokens (tpmRefill g now)"
  by (auto simp: tpmAcquire_def Let_def split: option.split)

text \<open>Adding a non-negative refill and capping at the burst.\<close>

lemma capped_refill:
  fixes tokens x n :: real
  assumes "0 \<le> x" "- n \<le> tokens" "tokens \<le> n"
  defines "t \<equiv> (if n < tokens + x then n else tokens + x)"
  shows "- n \<le> t" "t \<le> n" "t \<le> tokens + x" "tokens \<le> t"
  using assms by (auto simp: t_def)

lemma rpmRefill_props:
  assumes ok: "rpm_ok n i g"
  shows "rpm_ok n i (rpmRefill g now) \<and> rg_last (rpmRefill g now) = max (rg_last g) now \<and>
    rg_tokens (rpmRefill g now) \<le> rg_tokens g + 1 / of_int i * of_int (max (rg_last g) now - rg_last g) \<and>
    rg_tokens g \<le> rg_tokens (rpmRefill g now)"
proof -
  let ?x = "real_of_int (now - rg_last g) / real_of_int i"
  have pos: "0 < ?x \<longleftrightarrow> rg_last g < now" using ok by (simp add: rpm_ok_def zero_less_divide_iff)
  show ?thesis
  proof (cases "rg_last g < now")
    case True
    define T where "T = (if of_int n < rg_tokens g + ?x then of_int n else rg_tokens g + ?x)"
    have T: "- of_int n \<le> T" "T \<le> of_int n" "T \<le> rg_tokens g + ?x" "rg_tokens g \<le> T"
      unfolding T_def using ok pos True by (intro capped_refill; simp add: rpm_ok_def)+
    have eq: "rpmRefill g now = g\<lparr>rg_tokens := T, rg_last := now\<rparr>"
      using ok pos True by (simp add: rpmRefill_def rpm_ok_def T_def)
    show ?thesis unfolding eq using ok T True by (simp add: rpm_ok_def)
  next
    case False
    then have "rpmRefill g now = g" using ok pos by (simp add: rpmRefill_def rpm_ok_def)
    then show ?thesis using ok False by simp
  qed
qed

lemma tpmRefill_props:
  assumes ok: "tpm_ok n g"
  shows "tpm_ok n (tpmRefill g now) \<and> tg_last (tpmRefill g now) = max (tg_last g) now \<and>
    tg_tokens (tpmRefill g now) \<le> tg_tokens g + of_int n / of_int (60 * go_second) * of_int (max (tg_last g) now - tg_last g) \<and>
    tg_tokens g \<le> tg_tokens (tpmRefill g now)"
proof -
  let ?x = "real_of_int (now - tg_last g) / real_of_int go_second"
  have pos: "0 < ?x \<longleftrightarrow> tg_last g < now" by (simp add: zero_less_divide_iff)
  have fields: "tg_tpm g = n" "tg_perSec g = of_int n / 60" using ok by (auto simp: tpm_ok_def)
  show ?thesis
  proof (cases "tg_last g < now")
    case True
    define T where "T = (if of_int n < tg_tokens g + ?x * (of_int n / 60) then of_int n else tg_tokens g + ?x * (of_int n / 60))"
    have "0 \<le> ?x * (of_int n / 60)" using ok True by (simp add: tpm_ok_def)
    then have T: "- of_int n \<le> T" "T \<le> of_int n" "T \<le> tg_tokens g + ?x * (of_int n / 60)" "tg_tokens g \<le> T"
      unfolding T_def using ok by (intro capped_refill; simp add: tpm_ok_def)+
    have eq: "tpmRefill g now = g\<lparr>tg_tokens := T, tg_last := now\<rparr>"
      unfolding tpmRefill_def Let_def fields T_def using pos True by (simp only: if_True)
    have "?x * (of_int n / 60) = of_int n / of_int (60 * go_second) * of_int (now - tg_last g)" by simp
    then show ?thesis unfolding eq using ok T True by (simp add: tpm_ok_def mult.commute)
  next
    case False
    then have "tpmRefill g now = g" using ok pos by (simp add: tpmRefill_def tpm_ok_def)
    then show ?thesis using ok False by simp
  qed
qed

interpretation rpm_bucket: token_bucket rg_tokens rg_last "rpm_ok n i" "\<lambda>_. 1" rpmTake "\<lambda>g _. rpmRecordExtraCall g"
    "1 / of_int (max 1 i)" "of_int (max 0 n)" for n i
proof
  fix g :: rpmGovernor and c :: rpmCall and t :: instant
  assume ok: "rpm_ok n i g"
  note p = rpmRefill_props [OF ok, of t]
  note props = p [THEN conjunct1] p [THEN conjunct2, THEN conjunct1] p [THEN conjunct2, THEN conjunct2, THEN conjunct1]
  obtain now' giveUp ctxErr where c: "c = (now', giveUp, ctxErr)" by (cases c)
  have i: "max 1 i = i" "max 0 n = n" using ok by (auto simp: rpm_ok_def)
  show "rg_tokens g \<le> of_int (max 0 n)" using ok i by (simp add: rpm_ok_def)
  show "rpm_ok n i (rpmRecordExtraCall g)" using ok by (auto simp: rpm_ok_def rpmRecordExtraCall_def)
  show "rg_last (rpmRecordExtraCall g) = rg_last g" by (simp add: rpmRecordExtraCall_def)
  show "rg_tokens (rpmRecordExtraCall g) \<le> rg_tokens g" using ok by (auto simp: rpm_ok_def rpmRecordExtraCall_def)
  show "rpm_ok n i (snd (rpmTake g c t))" using props(1) by (auto simp: c rpmTake_def rpmAcquire_snd rpm_ok_def)
  show "rg_last (snd (rpmTake g c t)) = max (rg_last g) t" using props(2) by (simp add: c rpmTake_def rpmAcquire_snd)
  show "rg_tokens (snd (rpmTake g c t)) \<le> rg_tokens g + 1 / of_int (max 1 i) * of_int (max (rg_last g) t - rg_last g) -
      (if fst (rpmTake g c t) then 1 else 0)"
    using props(3) i by (simp add: c rpmTake_def rpmAcquire_snd)
  show "fst (rpmTake g c t) \<Longrightarrow> 0 \<le> rg_tokens (snd (rpmTake g c t))" by (simp add: c rpmTake_def rpmAcquire_snd)
qed simp_all

interpretation tpm_bucket: token_bucket tg_tokens tg_last "tpm_ok n" "\<lambda>(est, _). of_int (tokenCost est)" tpmTake
    "\<lambda>g (est, _). tpmRecordExtraCall g est" "of_int (max 0 n) / of_int (60 * go_second)" "of_int (max 0 n)" for n
proof
  fix g :: tpmGovernor and c :: "int \<times> rpmCall" and t :: instant
  assume ok: "tpm_ok n g"
  note p = tpmRefill_props [OF ok, of t]
  note props = p [THEN conjunct1] p [THEN conjunct2, THEN conjunct1] p [THEN conjunct2, THEN conjunct2, THEN conjunct1]
  obtain est now' giveUp ctxErr where c: "c = (est, now', giveUp, ctxErr)" by (cases c)
  have i: "max 0 n = n" using ok by (auto simp: tpm_ok_def)
  have cost: "0 \<le> real_of_int (tokenCost est)" by (simp add: tokenCost_def defaultTokenEstimate_def)
  show "tg_tokens g \<le> of_int (max 0 n)" using ok i by (simp add: tpm_ok_def)
  show "tpm_ok n ((\<lambda>(est, _). tpmRecordExtraCall g est) c)"
    using ok cost by (auto simp: c tpm_ok_def tpmRecordExtraCall_def)
  show "tg_last ((\<lambda>(est, _). tpmRecordExtraCall g est) c) = tg_last g" by (simp add: c tpmRecordExtraCall_def)
  show "tg_tokens ((\<lambda>(est, _). tpmRecordExtraCall g est) c) \<le> tg_tokens g"
    using ok cost by (auto simp: c tpm_ok_def tpmRecordExtraCall_def)
  show "tpm_ok n (snd (tpmTake g c t))"
    using props(1) cost by (auto simp: c tpmTake_def tpmAcquire_snd tpm_ok_def)
  show "tg_last (snd (tpmTake g c t)) = max (tg_last g) t" using props(2) by (simp add: c tpmTake_def tpmAcquire_snd)
  show "tg_tokens (snd (tpmTake g c t)) \<le> tg_tokens g + of_int (max 0 n) / of_int (60 * go_second) * of_int (max (tg_last g) t - tg_last g) -
      (if fst (tpmTake g c t) then (\<lambda>(est, _). of_int (tokenCost est)) c else 0)"
    using props(3) i by (simp add: c tpmTake_def tpmAcquire_snd)
  show "fst (tpmTake g c t) \<Longrightarrow> 0 \<le> tg_tokens (snd (tpmTake g c t))" by (simp add: c tpmTake_def tpmAcquire_snd)
qed simp_all

section \<open>Bounds of the rate governors\<close>

text \<open>
  Requests per minute: from a fresh governor with limit \<open>rpm\<close> (at least one token per nanosecond
  interval), any interleaving of \<open>Acquire\<close> iterations and extra-call charges up to \<open>tend\<close> admits at
  most \<open>rpm\<close> plus one request per refill interval elapsed.
\<close>

theorem rpm_admissions_bounded:
  assumes "0 < rpm" "rpm \<le> 60 * go_second" "t0 \<le> tend"
    and "\<forall>op \<in> set ops. case op of Inl (c, t) \<Rightarrow> t \<le> tend | Inr c \<Rightarrow> True"
  shows "fst (bucket_run (\<lambda>_. 1) rpmTake (\<lambda>g _. rpmRecordExtraCall g) (newRPMGovernor rpm t0) ops)
    \<le> of_int rpm + of_int (tend - t0) / of_int (rg_interval (newRPMGovernor rpm t0))"
proof -
  let ?g = "newRPMGovernor rpm t0"
  have "1 \<le> real_of_int (60 * go_second) / of_int rpm" using assms(1,2) by (simp add: field_simps)
  then have i: "1 \<le> rg_interval ?g" using assms(1) by (simp add: newRPMGovernor_def go_floor_pos_def le_floor_iff)
  have "rpm_ok rpm (rg_interval ?g) ?g" using assms(1) i by (simp add: rpm_ok_def newRPMGovernor_def)
  from rpm_bucket.admitted_bound [OF this assms(4)] show ?thesis
    using assms i by (simp add: newRPMGovernor_def max_def)
qed

theorem rpm_admissions_bounded_witness:
  "fst (bucket_run (\<lambda>_. 1) rpmTake (\<lambda>g _. rpmRecordExtraCall g) (newRPMGovernor 1 0)
      [Inl ((0, Some 0, None), 0), Inl ((0, Some 0, None), 0), Inr (0, None, None), Inl ((0, None, None), 60 * go_second)])
    \<le> of_int 1 + of_int (60 * go_second - 0) / of_int (rg_interval (newRPMGovernor 1 0))"
  by (rule rpm_admissions_bounded) simp_all

text \<open>
  Tokens per minute: whatever the sequence of admissions and extra-call charges, the estimated
  tokens admitted up to \<open>tend\<close> never exceed the limit plus its share of the elapsed time.
\<close>

theorem tpm_admissions_bounded:
  assumes "0 < tpm" "t0 \<le> tend"
    and "\<forall>op \<in> set ops. case op of Inl (c, t) \<Rightarrow> t \<le> tend | Inr c \<Rightarrow> True"
  shows "fst (bucket_run (\<lambda>(est, _). of_int (tokenCost est)) tpmTake (\<lambda>g (est, _). tpmRecordExtraCall g est)
      (newTPMGovernor tpm t0) ops)
    \<le> of_int tpm + of_int tpm / of_int (60 * go_second) * of_int (tend - t0)"
proof -
  have "tpm_ok tpm (newTPMGovernor tpm t0)" using assms(1) by (simp add: tpm_ok_def newTPMGovernor_def)
  from tpm_bucket.admitted_bound [OF this assms(3)] show ?thesis
    using assms by (simp add: newTPMGovernor_def max_def)
qed

theorem tpm_admissions_bounded_witness:
  "fst (bucket_run (\<lambda>(est, _). of_int (tokenCost est)) tpmTake (\<lambda>g (est, _). tpmRecordExtraCall g est)
      (newTPMGovernor 1000 0) [Inl ((300, 0, None, None), 0), Inr (0, 0, None, None), Inl ((900, 0, None, None), 60 * go_second)])
    \<le> of_int 1000 + of_int 1000 / of_int (60 * go_second) * of_int (60 * go_second - 0)"
  by (rule tpm_admissions_bounded) simp_all

text \<open>
  A request whose token estimate (800 when unknown) exceeds the credential's TPM limit is refused at
  every iteration, however long it waits: the bucket never holds more than the limit.
\<close>

theorem tpm_oversized_never_admitted:
  assumes "tpm_ok tpm g" "tpm < tokenCost est"
  shows "fst (tpmAcquire g est now now' giveUp ctxErr) \<noteq> AcqOk"
proof -
  have "tg_tokens (tpmRefill g now) \<le> of_int tpm"
    using tpmRefill_props [OF assms(1), of now] by (simp add: tpm_ok_def)
  then have "\<not> of_int (tokenCost est) \<le> tg_tokens (tpmRefill g now)" using assms(2) by linarith
  then show ?thesis by (simp add: tpmAcquire_snd)
qed

theorem tpm_oversized_never_admitted_witness:
  "tpm_ok 600 (newTPMGovernor 600 0) \<and> (\<forall>now now' giveUp. fst (tpmAcquire (newTPMGovernor 600 0) 0 now now' giveUp None) \<noteq> AcqOk)"
proof -
  have "tpm_ok 600 (newTPMGovernor 600 0)" by (simp add: tpm_ok_def newTPMGovernor_def)
  then show ?thesis
    using tpm_oversized_never_admitted [of 600 "newTPMGovernor 600 0" 0] by (simp add: tokenCost_def defaultTokenEstimate_def)
qed

text \<open>
  The truncated wait: while less than one nanosecond of refill is missing, the RPM governor's wait
  rounds down to zero, which \<open>waitWithinBudget\<close> treats as an exhausted budget, so the request fails
  with a pace timeout even when no deadline was given.
\<close>

theorem rpm_truncated_wait_times_out:
  assumes "rg_interval g = i" "0 < i" "now = rg_last g" "1 - 1 / of_int i < rg_tokens g" "rg_tokens g < 1"
  shows "rpmAcquire g now now' giveUp ctxErr = (AcqErr ErrPaceTimeout, g)"
proof -
  have r: "rpmRefill g now = g" using assms by (simp add: rpmRefill_def)
  have "1 - rg_tokens g < 1 / of_int i" using assms by linarith
  then have "(1 - rg_tokens g) * of_int i < 1" using assms(2) by (simp add: field_simps)
  moreover have "0 \<le> (1 - rg_tokens g) * of_int i" using assms by simp
  ultimately have "go_floor_pos ((1 - rg_tokens g) * of_int (rg_interval g)) = 0"
    using assms(1) by (simp add: go_floor_pos_def floor_eq_iff)
  then show ?thesis using assms(5) r
    by (auto simp: rpmAcquire_def Let_def waitWithinBudget_def split: option.split)
qed

theorem rpm_truncated_wait_times_out_witness:
  "rpmAcquire \<lparr>rg_tokens = 17142857143 / 17142857144, rg_rpm = 7, rg_last = 5, rg_interval = 8571428571\<rparr> 5 5 None None =
     (AcqErr ErrPaceTimeout, \<lparr>rg_tokens = 17142857143 / 17142857144, rg_rpm = 7, rg_last = 5, rg_interval = 8571428571\<rparr>)"
  by (rule rpm_truncated_wait_times_out [where i = 8571428571]) (simp_all add: field_simps)

section \<open>In-flight cap\<close>

datatype concOp = CTry instant "instant option" "dispErr option" bool | CRelease

text \<open>A run counts the admissions and the releases it performs.\<close>

fun conc_run :: "concurrencyGovernor \<Rightarrow> concOp list \<Rightarrow> int \<times> int \<times> concurrencyGovernor" where
  "conc_run g [] = (0, 0, g)"
| "conc_run g (CTry now giveUp ctxErr casWon # ops) =
     (case conc_run (snd (concAcquire g now giveUp ctxErr casWon)) ops of (a, r, g') \<Rightarrow>
        ((if fst (concAcquire g now giveUp ctxErr casWon) = AcqOk then a + 1 else a), r, g'))"
| "conc_run g (CRelease # ops) = (case conc_run (concRelease g) ops of (a, r, g') \<Rightarrow> (a, r + 1, g'))"

lemma concAcquire_cases:
  "concAcquire g now giveUp ctxErr casWon =
     (if cg_used g < cg_cap g \<and> casWon then (AcqOk, g\<lparr>cg_used := cg_used g + 1\<rparr>)
      else (fst (concAcquire g now giveUp ctxErr casWon), g))"
  "fst (concAcquire g now giveUp ctxErr casWon) = AcqOk \<longleftrightarrow> cg_used g < cg_cap g \<and> casWon"
  by (auto simp: concAcquire_def split: option.split)

lemma conc_run_bounds:
  assumes "0 \<le> cg_used g" "cg_used g \<le> cg_cap g"
  shows "case conc_run g ops of (a, r, g') \<Rightarrow>
    cg_cap g' = cg_cap g \<and> 0 \<le> cg_used g' \<and> cg_used g' \<le> cg_cap g \<and> cg_used g + a - r \<le> cg_used g'"
  using assms
proof (induction g ops rule: conc_run.induct)
  case (2 g now giveUp ctxErr casWon ops)
  show ?case
  proof (cases "cg_used g < cg_cap g \<and> casWon")
    case True
    then show ?thesis using 2 concAcquire_cases [of g now giveUp ctxErr casWon] by (auto split: prod.splits)
  next
    case False
    then have "snd (concAcquire g now giveUp ctxErr casWon) = g" "fst (concAcquire g now giveUp ctxErr casWon) \<noteq> AcqOk"
      using concAcquire_cases [of g now giveUp ctxErr casWon] by (metis snd_conv, blast)
    then show ?thesis using 2 by (auto split: prod.splits)
  qed
next
  case (3 g ops)
  then show ?case by (auto simp: concRelease_def split: prod.splits if_splits)
qed simp

text \<open>
  The in-flight cap: under any interleaving of attempts (won or lost compare-and-swaps) and
  releases, admissions minus releases never exceed the credential's concurrency limit, and the
  counter stays between zero and the limit.
\<close>

theorem concurrency_cap_respected:
  assumes "0 < limit" "conc_run (newConcurrencyGovernor limit) ops = (admitted, released, g)"
  shows "admitted - released \<le> limit \<and> 0 \<le> cg_used g \<and> cg_used g \<le> limit"
  using conc_run_bounds [of "newConcurrencyGovernor limit" ops] assms by (simp add: newConcurrencyGovernor_def)

theorem concurrency_cap_respected_witness:
  "conc_run (newConcurrencyGovernor 1) [CTry 0 None None True, CTry 0 None None True, CRelease, CTry 0 None None True] =
     (2, 1, \<lparr>cg_cap = 1, cg_used = 1\<rparr>) \<and> (2::int) - 1 \<le> 1"
proof -
  have run: "conc_run (newConcurrencyGovernor 1) [CTry 0 None None True, CTry 0 None None True, CRelease, CTry 0 None None True] =
     (2, 1, \<lparr>cg_cap = 1, cg_used = 1\<rparr>)"
    by (simp add: newConcurrencyGovernor_def concAcquire_def concRelease_def)
  then show ?thesis using concurrency_cap_respected [OF _ run] by simp
qed

end
