(* ===== verification/Registry.thy ===== *)
theory Registry
  imports Prelude
begin

text \<open>
  The request lifecycle registry, \<open>domains/dispatch/registry.go\<close>: the table of requests in the
  states pending, in flight and completed, with FIFO eviction of completed entries by watermark and
  capacity and refusal of admission at the unfinished limit. The Go map is an association list
  (its size is observed, its order is not); every method is one critical section. The eviction
  hook gets the list that each operation returns. \<open>registry_refines\<close> shows that the loops
  implement the specification \<open>specStep\<close>: a set of active requests and a queue of completed
  ones trimmed once, by a closed formula.
\<close>

section \<open>Data\<close>

datatype lifecycleState = LifecyclePending | LifecycleInFlight | LifecycleCompleted

record registryEntry =
  re_RequestID :: string
  re_State :: lifecycleState
  re_RetryAt :: "instant option"
  re_EnqueuedAt :: instant
  re_StartedAt :: "instant option"
  re_CompletedAt :: "instant option"
  re_RequestedModel :: string
  re_ResolvedModel :: string

record registrySnapshot =
  rs_Total :: nat
  rs_Unfinished :: nat
  rs_Pending :: nat
  rs_InFlight :: nat
  rs_Completed :: nat
  rs_Entries :: "registryEntry list"

record lifecycleRegistry =
  lr_capacity :: int
  lr_completedWatermark :: int
  lr_unfinishedLimit :: int
  lr_entries :: "(string \<times> registryEntry) list"
  lr_completedOrder :: "string list"
  lr_unfinishedCount :: int

definition DefaultRegistryCapacity :: int where "DefaultRegistryCapacity = 1000"
definition DefaultCompletedWatermark :: int where "DefaultCompletedWatermark = 50"

definition NewLifecycleRegistry :: "int \<Rightarrow> int \<Rightarrow> int \<Rightarrow> lifecycleRegistry" where
  "NewLifecycleRegistry capacity completedWatermark unfinishedLimit =
     \<lparr>lr_capacity = (if capacity \<le> 0 then DefaultRegistryCapacity else capacity),
      lr_completedWatermark = (if completedWatermark < 0 then DefaultCompletedWatermark else completedWatermark),
      lr_unfinishedLimit = unfinishedLimit, lr_entries = [], lr_completedOrder = [], lr_unfinishedCount = 0\<rparr>"

section \<open>Eviction\<close>

text \<open>The closure \<open>drop\<close> of \<open>evictLocked\<close>: remove the oldest completed entry that is still in the table.\<close>

function dropOldest :: "lifecycleRegistry \<Rightarrow> registryEntry option \<times> lifecycleRegistry" where
  "dropOldest r =
     (case lr_completedOrder r of
        [] \<Rightarrow> (None, r)
      | i # rest \<Rightarrow>
        (case map_of (lr_entries r) i of
           None \<Rightarrow> dropOldest (r\<lparr>lr_completedOrder := rest\<rparr>)
         | Some entry \<Rightarrow> (Some entry, r\<lparr>lr_completedOrder := rest, lr_entries := AList.delete i (lr_entries r)\<rparr>)))"
  by pat_completeness auto
termination by (relation "measure (\<lambda>r. length (lr_completedOrder r))") auto

declare dropOldest.simps [simp del]

lemma dropOldest_shrinks:
  "dropOldest r = (Some e, r') \<Longrightarrow> length (lr_completedOrder r') < length (lr_completedOrder r)"
  by (induction r rule: dropOldest.induct)
    (subst (asm) (2) dropOldest.simps, auto split: list.splits option.splits simp: less_SucI)

text \<open>A loop that drops while a condition on the registry holds; both loops of \<open>evictLocked\<close> are instances.\<close>

function evictWhile :: "(lifecycleRegistry \<Rightarrow> bool) \<Rightarrow> lifecycleRegistry \<Rightarrow> registryEntry list \<times> lifecycleRegistry" where
  "evictWhile cond r =
     (if cond r
      then case dropOldest r of
             (None, r') \<Rightarrow> ([], r')
           | (Some entry, r') \<Rightarrow> (case evictWhile cond r' of (evicted, r'') \<Rightarrow> (entry # evicted, r''))
      else ([], r))"
  by pat_completeness auto
termination
  by (relation "measure (\<lambda>(cond, r). length (lr_completedOrder r))") (auto dest!: dropOldest_shrinks [OF sym])

declare evictWhile.simps [simp del]

definition evictLocked :: "lifecycleRegistry \<Rightarrow> registryEntry list \<times> lifecycleRegistry" where
  "evictLocked r =
     (case (if 0 \<le> lr_completedWatermark r
            then evictWhile (\<lambda>r. lr_completedWatermark r < int (length (lr_completedOrder r))) r else ([], r)) of
        (evicted, r1) \<Rightarrow>
          (case evictWhile (\<lambda>r. lr_capacity r < int (length (lr_entries r))) r1 of
             (evicted', r2) \<Rightarrow> (evicted @ evicted', r2)))"

section \<open>Operations\<close>

definition removeCompletedLocked :: "string \<Rightarrow> lifecycleRegistry \<Rightarrow> lifecycleRegistry" where
  "removeCompletedLocked requestID r = r\<lparr>lr_completedOrder := remove1 requestID (lr_completedOrder r)\<rparr>"

text \<open>The pointer \<open>entry\<close> is the table's entry under its own \<open>RequestID\<close>.\<close>

definition resetToPendingLocked :: "registryEntry \<Rightarrow> instant \<Rightarrow> lifecycleRegistry \<Rightarrow> lifecycleRegistry" where
  "resetToPendingLocked entry now r =
     (let r1 = (if re_State entry = LifecycleCompleted
                then (removeCompletedLocked (re_RequestID entry) r)\<lparr>lr_unfinishedCount := lr_unfinishedCount r + 1\<rparr> else r)
      in r1\<lparr>lr_entries := AList.update (re_RequestID entry)
             (entry\<lparr>re_State := LifecyclePending, re_RetryAt := None, re_EnqueuedAt := now\<rparr>) (lr_entries r1)\<rparr>)"

definition UpdateLimits :: "int \<Rightarrow> int \<Rightarrow> int \<Rightarrow> lifecycleRegistry \<Rightarrow> registryEntry list \<times> lifecycleRegistry" where
  "UpdateLimits capacity completedWatermark unfinishedLimit r =
     evictLocked (r\<lparr>lr_capacity := capacity, lr_completedWatermark := completedWatermark, lr_unfinishedLimit := unfinishedLimit\<rparr>)"

definition RegisterPending :: "string \<Rightarrow> string \<Rightarrow> instant \<Rightarrow> lifecycleRegistry \<Rightarrow> (bool \<times> registryEntry list) \<times> lifecycleRegistry" where
  "RegisterPending requestID requestedModel now r =
     (if requestID = [] then ((True, []), r)
      else
        let found = map_of (lr_entries r) requestID;
            admit = (case found of
                Some existing \<Rightarrow> resetToPendingLocked existing now r
              | None \<Rightarrow> r\<lparr>lr_entries := AList.update requestID \<lparr>re_RequestID = requestID, re_State = LifecyclePending, re_RetryAt = None,
                    re_EnqueuedAt = now, re_StartedAt = None, re_CompletedAt = None, re_RequestedModel = requestedModel,
                    re_ResolvedModel = []\<rparr> (lr_entries r), lr_unfinishedCount := lr_unfinishedCount r + 1\<rparr>);
            refused = (0 < lr_unfinishedLimit r \<and> lr_unfinishedLimit r \<le> lr_unfinishedCount r)
        in case found of
             Some existing \<Rightarrow>
               if re_State existing \<noteq> LifecycleCompleted then ((True, []), resetToPendingLocked existing now r)
               else if refused then ((False, []), r) else apfst (Pair True) (evictLocked admit)
           | None \<Rightarrow> if refused then ((False, []), r) else apfst (Pair True) (evictLocked admit))"

definition MarkInFlight :: "string \<Rightarrow> instant \<Rightarrow> lifecycleRegistry \<Rightarrow> lifecycleRegistry" where
  "MarkInFlight requestID now r =
     (if requestID = [] then r
      else case map_of (lr_entries r) requestID of
             None \<Rightarrow> r
           | Some entry \<Rightarrow>
             if re_State entry = LifecycleCompleted then r
             else r\<lparr>lr_entries := AList.update requestID (entry\<lparr>re_State := LifecycleInFlight, re_RetryAt := None,
                    re_StartedAt := (if re_StartedAt entry = None then Some now else re_StartedAt entry)\<rparr>) (lr_entries r)\<rparr>)"

definition MarkCompleted :: "string \<Rightarrow> instant \<Rightarrow> lifecycleRegistry \<Rightarrow> registryEntry list \<times> lifecycleRegistry" where
  "MarkCompleted requestID now r =
     (if requestID = [] then ([], r)
      else case map_of (lr_entries r) requestID of
             None \<Rightarrow> ([], r)
           | Some entry \<Rightarrow>
             if re_State entry = LifecycleCompleted then ([], r)
             else evictLocked (r\<lparr>lr_entries := AList.update requestID (entry\<lparr>re_State := LifecycleCompleted, re_RetryAt := None,
                    re_CompletedAt := Some now\<rparr>) (lr_entries r),
                    lr_unfinishedCount := (if lr_unfinishedCount r - 1 < 0 then 0 else lr_unfinishedCount r - 1),
                    lr_completedOrder := lr_completedOrder r @ [requestID]\<rparr>))"

definition MarkRetryScheduled :: "string \<Rightarrow> instant \<Rightarrow> lifecycleRegistry \<Rightarrow> lifecycleRegistry" where
  "MarkRetryScheduled requestID retryAt r =
     (if requestID = [] then r
      else case map_of (lr_entries r) requestID of
             None \<Rightarrow> r
           | Some entry \<Rightarrow>
             if re_State entry = LifecycleCompleted then r
             else r\<lparr>lr_entries := AList.update requestID (entry\<lparr>re_State := LifecyclePending, re_RetryAt := Some retryAt\<rparr>) (lr_entries r)\<rparr>)"

definition Get :: "lifecycleRegistry \<Rightarrow> string \<Rightarrow> registryEntry option" where
  "Get r requestID = (if requestID = [] then None else map_of (lr_entries r) requestID)"

definition countState :: "lifecycleState \<Rightarrow> lifecycleRegistry \<Rightarrow> nat" where
  "countState st r = length (filter (\<lambda>(i, e). re_State e = st) (lr_entries r))"

definition Snapshot :: "lifecycleState list \<Rightarrow> lifecycleRegistry \<Rightarrow> registrySnapshot" where
  "Snapshot states r =
     \<lparr>rs_Total = length (lr_entries r),
      rs_Unfinished = countState LifecyclePending r + countState LifecycleInFlight r,
      rs_Pending = countState LifecyclePending r, rs_InFlight = countState LifecycleInFlight r,
      rs_Completed = countState LifecycleCompleted r,
      rs_Entries = filter (\<lambda>e. states = [] \<or> re_State e \<in> set states) (map snd (lr_entries r))\<rparr>"

section \<open>Invariant\<close>

declare map_of_eq_Some_iff [simp del] Some_eq_map_of_iff [simp del]

definition unfinishedIDs :: "lifecycleRegistry \<Rightarrow> string set" where
  "unfinishedIDs r = {i. \<exists>e. map_of (lr_entries r) i = Some e \<and> re_State e \<noteq> LifecycleCompleted}"

definition completedIDs :: "lifecycleRegistry \<Rightarrow> string set" where
  "completedIDs r = {i. \<exists>e. map_of (lr_entries r) i = Some e \<and> re_State e = LifecycleCompleted}"

definition reg_inv :: "lifecycleRegistry \<Rightarrow> bool" where
  "reg_inv r \<longleftrightarrow> distinct (map fst (lr_entries r)) \<and> distinct (lr_completedOrder r) \<and>
     set (lr_completedOrder r) = completedIDs r \<and> lr_unfinishedCount r = int (card (unfinishedIDs r)) \<and>
     (\<forall>i e. map_of (lr_entries r) i = Some e \<longrightarrow> re_RequestID e = i \<and> i \<noteq> [])"

lemmas reg_ids = unfinishedIDs_def completedIDs_def

lemma finite_unfinished [simp]: "finite (unfinishedIDs r)"
  by (rule finite_subset [OF _ finite_dom_map_of [of "lr_entries r"]]) (auto simp: unfinishedIDs_def)

lemma entries_split:
  assumes "reg_inv r"
  shows "length (lr_entries r) = card (unfinishedIDs r) + length (lr_completedOrder r)"
proof -
  have "dom (map_of (lr_entries r)) = unfinishedIDs r \<union> set (lr_completedOrder r)"
    using assms by (auto simp: reg_inv_def reg_ids)
  moreover have "unfinishedIDs r \<inter> set (lr_completedOrder r) = {}" using assms by (auto simp: reg_inv_def reg_ids)
  ultimately show ?thesis
    using assms card_dom_map_of [of "lr_entries r"]
    by (metis List.finite_set card_Un_disjoint distinct_card finite_unfinished reg_inv_def)
qed

section \<open>Eviction in closed form\<close>

text \<open>Dropping the \<open>n\<close> oldest completed entries.\<close>

fun dropN :: "nat \<Rightarrow> lifecycleRegistry \<Rightarrow> registryEntry list \<times> lifecycleRegistry" where
  "dropN 0 r = ([], r)"
| "dropN (Suc n) r = (case lr_completedOrder r of [] \<Rightarrow> ([], r)
     | i # rest \<Rightarrow> apfst ((#) (the (map_of (lr_entries r) i)))
         (dropN n (r\<lparr>lr_completedOrder := rest, lr_entries := AList.delete i (lr_entries r)\<rparr>)))"

text \<open>One drop on a consistent registry: the head of the queue is found.\<close>

lemma dropOldest_Cons:
  assumes "reg_inv r" "lr_completedOrder r = i # rest"
  shows "dropOldest r = (Some (the (map_of (lr_entries r) i)),
      r\<lparr>lr_completedOrder := rest, lr_entries := AList.delete i (lr_entries r)\<rparr>)"
proof -
  have "i \<in> completedIDs r" using assms by (auto simp: reg_inv_def)
  then show ?thesis using assms(2) by (auto simp: dropOldest.simps [of r] completedIDs_def)
qed

lemma drop_head_inv:
  assumes "reg_inv r" "lr_completedOrder r = i # rest"
  defines "r' \<equiv> r\<lparr>lr_completedOrder := rest, lr_entries := AList.delete i (lr_entries r)\<rparr>"
  shows "reg_inv r'" "unfinishedIDs r' = unfinishedIDs r" "length (lr_entries r') = length (lr_entries r) - 1"
    "map_of (lr_entries r') = (map_of (lr_entries r))(i := None)"
proof -
  have i: "i \<in> completedIDs r" "i \<notin> set rest" "set rest = completedIDs r - {i}" using assms by (auto simp: reg_inv_def)
  show m: "map_of (lr_entries r') = (map_of (lr_entries r))(i := None)" by (simp add: r'_def AList.delete_conv')
  have u: "unfinishedIDs r' = unfinishedIDs r" "completedIDs r' = completedIDs r - {i}"
    using i(1) by (auto simp: reg_ids m)
  then show "unfinishedIDs r' = unfinishedIDs r" by simp
  have flds: "lr_completedOrder r' = rest" "lr_unfinishedCount r' = lr_unfinishedCount r"
    "distinct (map fst (lr_entries r'))"
    using assms(1) by (simp_all add: r'_def reg_inv_def AList.distinct_delete)
  have keys: "re_RequestID e = j \<and> j \<noteq> []" if "map_of (lr_entries r') j = Some e" for j e
    using that assms(1) unfolding m reg_inv_def by (metis fun_upd_apply option.distinct(1))
  show inv: "reg_inv r'"
    using assms(1,2) i(3) keys unfolding reg_inv_def flds u by (metis distinct.simps(2) flds(3))
  show "length (lr_entries r') = length (lr_entries r) - 1"
    using entries_split [OF inv] entries_split [OF assms(1)] assms(2) u(1) by (simp add: r'_def)
qed

lemma dropN_props:
  assumes "reg_inv r"
  shows "reg_inv (snd (dropN n r)) \<and> unfinishedIDs (snd (dropN n r)) = unfinishedIDs r \<and>
    lr_completedOrder (snd (dropN n r)) = drop n (lr_completedOrder r) \<and>
    map re_RequestID (fst (dropN n r)) = take n (lr_completedOrder r) \<and>
    (\<forall>e \<in> set (fst (dropN n r)). re_State e = LifecycleCompleted) \<and>
    lr_capacity (snd (dropN n r)) = lr_capacity r \<and> lr_completedWatermark (snd (dropN n r)) = lr_completedWatermark r \<and>
    lr_unfinishedLimit (snd (dropN n r)) = lr_unfinishedLimit r \<and>
    (\<forall>i \<in> unfinishedIDs r. map_of (lr_entries (snd (dropN n r))) i = map_of (lr_entries r) i)"
  using assms
proof (induction n r rule: dropN.induct)
  case (2 n r)
  show ?case
  proof (cases "lr_completedOrder r")
    case (Cons i rest)
    have i: "i \<in> completedIDs r" using "2.prems" Cons by (auto simp: reg_inv_def)
    then have e: "re_RequestID (the (map_of (lr_entries r) i)) = i" "re_State (the (map_of (lr_entries r) i)) = LifecycleCompleted"
      "i \<notin> unfinishedIDs r"
      using "2.prems" by (auto simp: reg_ids reg_inv_def)
    show ?thesis using "2.IH" [OF Cons] drop_head_inv [OF "2.prems" Cons] Cons e by (auto simp: split_beta)
  qed (use "2.prems" in simp)
qed simp

lemma evictWhile_dropN:
  assumes "reg_inv r" and mono: "\<And>n. n \<le> length (lr_completedOrder r) \<Longrightarrow> cond (snd (dropN n r)) \<longleftrightarrow> n < k"
  shows "evictWhile cond r = dropN k r"
  using assms
proof (induction k arbitrary: r)
  case 0
  then show ?case using 0(2) [of 0] by (simp add: evictWhile.simps)
next
  case (Suc k)
  have c: "cond r" using Suc.prems(2) [of 0] by simp
  show ?case
  proof (cases "lr_completedOrder r")
    case Nil
    then show ?thesis using c by (simp add: evictWhile.simps [of cond r] dropOldest.simps [of r])
  next
    case (Cons i rest)
    let ?r = "r\<lparr>lr_completedOrder := rest, lr_entries := AList.delete i (lr_entries r)\<rparr>"
    have step: "cond (snd (dropN n ?r)) \<longleftrightarrow> n < k" if "n \<le> length (lr_completedOrder ?r)" for n
      using Suc.prems(2) [of "Suc n"] that Cons by (simp add: split_beta)
    have "evictWhile cond ?r = dropN k ?r"
      by (rule Suc.IH) (use Suc.prems(1) Cons step drop_head_inv(1) in simp_all)
    then show ?thesis
      using c Cons dropOldest_Cons [OF Suc.prems(1) Cons]
      by (simp add: evictWhile.simps [of cond r] split_beta apfst_def map_prod_def)
  qed
qed

lemma dropN_add:
  "snd (dropN (n + m) r) = snd (dropN m (snd (dropN n r)))"
  "fst (dropN (n + m) r) = fst (dropN n r) @ fst (dropN m (snd (dropN n r)))"
proof (induction n r rule: dropN.induct)
  case (2 n r)
  case 1
  show ?case using "2.IH"(1) by (cases "lr_completedOrder r"; cases m) (simp_all add: split_beta)
  case 2
  show ?case using "2.IH"(2) by (cases "lr_completedOrder r"; cases m) (simp_all add: split_beta)
qed simp_all

text \<open>How many entries \<open>evictLocked\<close> drops: the excess over the watermark, or over the capacity as far as completed entries go.\<close>

definition evictCount :: "lifecycleRegistry \<Rightarrow> nat" where
  "evictCount r = max (if 0 \<le> lr_completedWatermark r then nat (int (length (lr_completedOrder r)) - lr_completedWatermark r) else 0)
     (nat (int (length (lr_entries r)) - lr_capacity r))"

lemma dropN_entries:
  assumes "reg_inv r" "n \<le> length (lr_completedOrder r)"
  shows "length (lr_entries (snd (dropN n r))) = length (lr_entries r) - n"
    "length (lr_completedOrder (snd (dropN n r))) = length (lr_completedOrder r) - n"
  using entries_split [OF assms(1)] entries_split [of "snd (dropN n r)"] dropN_props [OF assms(1), of n] assms(2) by auto

lemma evictLocked_eq:
  assumes inv: "reg_inv r"
  shows "evictLocked r = dropN (evictCount r) r"
proof -
  define k1 where "k1 = (if 0 \<le> lr_completedWatermark r then nat (int (length (lr_completedOrder r)) - lr_completedWatermark r) else 0)"
  define k2 where "k2 = nat (int (length (lr_entries r)) - lr_capacity r) - k1"
  let ?r1 = "snd (dropN k1 r)"
  note p1 = dropN_props [OF inv, of k1]
  have k1: "k1 \<le> length (lr_completedOrder r)" by (simp add: k1_def nat_le_iff)
  have e1: "(if 0 \<le> lr_completedWatermark r
      then evictWhile (\<lambda>r. lr_completedWatermark r < int (length (lr_completedOrder r))) r else ([], r)) = dropN k1 r"
  proof (cases "0 \<le> lr_completedWatermark r")
    case True
    have "evictWhile (\<lambda>r. lr_completedWatermark r < int (length (lr_completedOrder r))) r = dropN k1 r"
    proof (rule evictWhile_dropN [OF inv])
      fix n assume "n \<le> length (lr_completedOrder r)"
      then show "lr_completedWatermark (snd (dropN n r)) < int (length (lr_completedOrder (snd (dropN n r)))) \<longleftrightarrow> n < k1"
        using True dropN_props [OF inv, of n] by (auto simp: k1_def)
    qed
    then show ?thesis using True by simp
  qed (simp add: k1_def)
  have e2: "evictWhile (\<lambda>r. lr_capacity r < int (length (lr_entries r))) ?r1 = dropN k2 ?r1"
  proof (rule evictWhile_dropN)
    show inv1: "reg_inv ?r1" using p1 by simp
    fix n assume n: "n \<le> length (lr_completedOrder ?r1)"
    have "length (lr_entries (snd (dropN n ?r1))) = length (lr_entries r) - k1 - n"
      using dropN_entries(1) [OF inv1 n] dropN_entries(1) [OF inv k1] by simp
    moreover have "k1 + n \<le> length (lr_entries r)" using n dropN_entries(2) [OF inv k1] entries_split [OF inv] k1 by linarith
    ultimately show "lr_capacity (snd (dropN n ?r1)) < int (length (lr_entries (snd (dropN n ?r1)))) \<longleftrightarrow> n < k2"
      using dropN_props [OF inv1, of n] p1 by (auto simp: k2_def)
  qed
  have "k1 + k2 = evictCount r" by (simp add: k2_def evictCount_def k1_def)
  then show ?thesis
    unfolding evictLocked_def e1 using e2 dropN_add [of k1 k2 r] by (simp add: split_beta prod_eq_iff)
qed

section \<open>Specification\<close>

text \<open>
  The contract of the registry: the active requests with their state and retry time, and the
  completed ones in order of completion. Completed requests are trimmed from the old end, and only they.
\<close>

record specRegistry =
  sp_active :: "string \<rightharpoonup> lifecycleState \<times> instant option"
  sp_done :: "string list"
  sp_capacity :: int
  sp_watermark :: int
  sp_limit :: int

definition specTrim :: "specRegistry \<Rightarrow> string list \<times> specRegistry" where
  "specTrim s =
     (let k = max (if 0 \<le> sp_watermark s then nat (int (length (sp_done s)) - sp_watermark s) else 0)
                (nat (int (card (dom (sp_active s)) + length (sp_done s)) - sp_capacity s))
      in (take k (sp_done s), s\<lparr>sp_done := drop k (sp_done s)\<rparr>))"

datatype regOp = OpRegister string string instant | OpInFlight string instant | OpComplete string instant
  | OpRetry string instant | OpLimits int int int

definition specStep :: "regOp \<Rightarrow> specRegistry \<Rightarrow> (bool \<times> string list) \<times> specRegistry" where
  "specStep op s = (case op of
     OpRegister i model now \<Rightarrow>
       if i = [] then ((True, []), s)
       else if i \<in> dom (sp_active s) then ((True, []), s\<lparr>sp_active := (sp_active s)(i \<mapsto> (LifecyclePending, None))\<rparr>)
       else if 0 < sp_limit s \<and> sp_limit s \<le> int (card (dom (sp_active s))) then ((False, []), s)
       else apfst (Pair True) (specTrim (s\<lparr>sp_active := (sp_active s)(i \<mapsto> (LifecyclePending, None)), sp_done := remove1 i (sp_done s)\<rparr>))
   | OpInFlight i now \<Rightarrow>
       ((True, []), if i \<in> dom (sp_active s) then s\<lparr>sp_active := (sp_active s)(i \<mapsto> (LifecycleInFlight, None))\<rparr> else s)
   | OpComplete i now \<Rightarrow>
       if i \<in> dom (sp_active s)
       then apfst (Pair True) (specTrim (s\<lparr>sp_active := (sp_active s)(i := None), sp_done := sp_done s @ [i]\<rparr>)) else ((True, []), s)
   | OpRetry i at' \<Rightarrow>
       ((True, []), if i \<in> dom (sp_active s) then s\<lparr>sp_active := (sp_active s)(i \<mapsto> (LifecyclePending, Some at'))\<rparr> else s)
   | OpLimits c w u \<Rightarrow> apfst (Pair True) (specTrim (s\<lparr>sp_capacity := c, sp_watermark := w, sp_limit := u\<rparr>)))"

definition regStep :: "regOp \<Rightarrow> lifecycleRegistry \<Rightarrow> (bool \<times> string list) \<times> lifecycleRegistry" where
  "regStep op r = (case op of
     OpRegister i model now \<Rightarrow> apfst (apsnd (map re_RequestID)) (RegisterPending i model now r)
   | OpInFlight i now \<Rightarrow> ((True, []), MarkInFlight i now r)
   | OpComplete i now \<Rightarrow> apfst (\<lambda>ev. (True, map re_RequestID ev)) (MarkCompleted i now r)
   | OpRetry i at' \<Rightarrow> ((True, []), MarkRetryScheduled i at' r)
   | OpLimits c w u \<Rightarrow> apfst (\<lambda>ev. (True, map re_RequestID ev)) (UpdateLimits c w u r))"

definition activeOf :: "registryEntry option \<Rightarrow> (lifecycleState \<times> instant option) option" where
  "activeOf found = (case found of None \<Rightarrow> None
     | Some e \<Rightarrow> if re_State e = LifecycleCompleted then None else Some (re_State e, re_RetryAt e))"

definition reg_abs :: "lifecycleRegistry \<Rightarrow> specRegistry" where
  "reg_abs r = \<lparr>sp_active = (\<lambda>i. activeOf (map_of (lr_entries r) i)), sp_done = lr_completedOrder r,
     sp_capacity = lr_capacity r, sp_watermark = lr_completedWatermark r, sp_limit = lr_unfinishedLimit r\<rparr>"

lemma activeOf_simps [simp]:
  "activeOf None = None"
  "activeOf (Some e) = (if re_State e = LifecycleCompleted then None else Some (re_State e, re_RetryAt e))"
  by (simp_all add: activeOf_def)

lemma activeOf_None: "activeOf found = None \<longleftrightarrow> (case found of None \<Rightarrow> True | Some e \<Rightarrow> re_State e = LifecycleCompleted)"
  by (cases found) auto

lemma dom_active [simp]: "dom (sp_active (reg_abs r)) = unfinishedIDs r"
  by (auto simp: reg_abs_def unfinishedIDs_def activeOf_def dom_def split: option.splits if_splits)

lemma trim_simulates:
  assumes "reg_inv r"
  shows "specTrim (reg_abs r) = (map re_RequestID (fst (evictLocked r)), reg_abs (snd (evictLocked r)))"
    "reg_inv (snd (evictLocked r))"
proof -
  let ?r = "snd (dropN (evictCount r) r)"
  note p = dropN_props [OF assms, of "evictCount r"]
  have "activeOf (map_of (lr_entries ?r) i) = activeOf (map_of (lr_entries r) i)" for i
  proof (cases "i \<in> unfinishedIDs r")
    case False
    then have "i \<notin> unfinishedIDs ?r" using p by simp
    with False show ?thesis by (auto simp: unfinishedIDs_def activeOf_def split: option.splits)
  qed (use p in simp)
  then have "reg_abs ?r = (reg_abs r)\<lparr>sp_done := drop (evictCount r) (sp_done (reg_abs r))\<rparr>"
    using p by (simp add: reg_abs_def)
  moreover have "specTrim (reg_abs r) = (take (evictCount r) (lr_completedOrder r),
      (reg_abs r)\<lparr>sp_done := drop (evictCount r) (sp_done (reg_abs r))\<rparr>)"
    unfolding specTrim_def dom_active Let_def using entries_split [OF assms] by (simp add: evictCount_def reg_abs_def)
  ultimately show "specTrim (reg_abs r) = (map re_RequestID (fst (evictLocked r)), reg_abs (snd (evictLocked r)))"
    using p by (simp add: evictLocked_eq [OF assms])
  show "reg_inv (snd (evictLocked r))" using p by (simp add: evictLocked_eq [OF assms])
qed

section \<open>Updates of one entry\<close>

lemma update_active:
  "map_of (AList.update i e al) = (map_of al)(i \<mapsto> e)" "distinct (map fst al) \<Longrightarrow> distinct (map fst (AList.update i e al))"
  by (simp_all add: AList.update_conv' AList.distinct_update)

text \<open>An active entry stays active.\<close>

lemma touch:
  assumes "reg_inv r" "map_of (lr_entries r) i = Some e0" "re_State e0 \<noteq> LifecycleCompleted"
    "re_State e \<noteq> LifecycleCompleted" "re_RequestID e = i"
  shows "reg_inv (r\<lparr>lr_entries := AList.update i e (lr_entries r)\<rparr>)"
    "reg_abs (r\<lparr>lr_entries := AList.update i e (lr_entries r)\<rparr>) =
       (reg_abs r)\<lparr>sp_active := (sp_active (reg_abs r))(i \<mapsto> (re_State e, re_RetryAt e))\<rparr>"
    "i \<in> unfinishedIDs r"
proof -
  let ?r = "r\<lparr>lr_entries := AList.update i e (lr_entries r)\<rparr>"
  have ids: "unfinishedIDs ?r = unfinishedIDs r" "completedIDs ?r = completedIDs r"
    using assms by (auto simp: reg_ids update_active)
  show "reg_inv ?r" using assms unfolding reg_inv_def ids by (auto simp: update_active)
  show "reg_abs ?r = (reg_abs r)\<lparr>sp_active := (sp_active (reg_abs r))(i \<mapsto> (re_State e, re_RetryAt e))\<rparr>"
    using assms(4) by (auto simp: reg_abs_def update_active)
  show "i \<in> unfinishedIDs r" using assms by (auto simp: reg_ids)
qed

text \<open>A request becomes active: a new one, or a completed one that is registered again.\<close>

lemma activate:
  assumes "reg_inv r" "i \<notin> unfinishedIDs r" "re_State e \<noteq> LifecycleCompleted" "re_RequestID e = i" "i \<noteq> []"
  defines "r' \<equiv> r\<lparr>lr_entries := AList.update i e (lr_entries r), lr_completedOrder := remove1 i (lr_completedOrder r),
    lr_unfinishedCount := lr_unfinishedCount r + 1\<rparr>"
  shows "reg_inv r'"
    "reg_abs r' = (reg_abs r)\<lparr>sp_active := (sp_active (reg_abs r))(i \<mapsto> (re_State e, re_RetryAt e)), sp_done := remove1 i (sp_done (reg_abs r))\<rparr>"
proof -
  have ids: "unfinishedIDs r' = insert i (unfinishedIDs r)" "completedIDs r' = completedIDs r - {i}"
    using assms(3) by (auto simp: reg_ids r'_def update_active)
  have "distinct (lr_completedOrder r') \<and> set (lr_completedOrder r') = completedIDs r'"
    using assms(1) unfolding ids by (simp add: r'_def reg_inv_def)
  moreover have "lr_unfinishedCount r' = int (card (unfinishedIDs r'))"
    using assms(1,2) unfolding ids by (simp add: r'_def reg_inv_def)
  ultimately show "reg_inv r'"
    using assms(1,4,5) unfolding reg_inv_def by (auto simp: r'_def update_active)
  show "reg_abs r' = (reg_abs r)\<lparr>sp_active := (sp_active (reg_abs r))(i \<mapsto> (re_State e, re_RetryAt e)), sp_done := remove1 i (sp_done (reg_abs r))\<rparr>"
    using assms(3) by (auto simp: reg_abs_def r'_def update_active)
qed

lemma finish_entry:
  assumes "reg_inv r" "map_of (lr_entries r) i = Some e0" "re_State e0 \<noteq> LifecycleCompleted"
    "re_State e = LifecycleCompleted" "re_RequestID e = i"
  defines "r' \<equiv> r\<lparr>lr_entries := AList.update i e (lr_entries r),
    lr_unfinishedCount := (if lr_unfinishedCount r - 1 < 0 then 0 else lr_unfinishedCount r - 1),
    lr_completedOrder := lr_completedOrder r @ [i]\<rparr>"
  shows "reg_inv r'"
    "reg_abs r' = (reg_abs r)\<lparr>sp_active := (sp_active (reg_abs r))(i := None), sp_done := sp_done (reg_abs r) @ [i]\<rparr>"
    "i \<in> unfinishedIDs r"
proof -
  show i: "i \<in> unfinishedIDs r" using assms by (auto simp: reg_ids)
  have ids: "unfinishedIDs r' = unfinishedIDs r - {i}" "completedIDs r' = insert i (completedIDs r)"
    using assms(4) by (auto simp: reg_ids r'_def update_active)
  have "i \<notin> completedIDs r" using assms by (auto simp: reg_ids)
  then have "distinct (lr_completedOrder r') \<and> set (lr_completedOrder r') = completedIDs r'"
    using assms(1) unfolding ids by (simp add: r'_def reg_inv_def)
  moreover have "1 \<le> card (unfinishedIDs r)" using i card_gt_0_iff [of "unfinishedIDs r"] by fastforce
  then have "lr_unfinishedCount r' = int (card (unfinishedIDs r'))"
    using assms(1) i unfolding ids by (auto simp: r'_def reg_inv_def of_nat_diff)
  ultimately show "reg_inv r'"
    using assms(1,2,5) unfolding reg_inv_def by (auto simp: r'_def update_active)
  show "reg_abs r' = (reg_abs r)\<lparr>sp_active := (sp_active (reg_abs r))(i := None), sp_done := sp_done (reg_abs r) @ [i]\<rparr>"
    using assms(4) by (auto simp: reg_abs_def r'_def update_active)
qed

section \<open>Refinement\<close>

lemma NewLifecycleRegistry_inv [simp]: "reg_inv (NewLifecycleRegistry c w u)"
  by (simp add: reg_inv_def NewLifecycleRegistry_def reg_ids)

lemma trim_step:
  assumes "reg_inv r"
  shows "apfst (Pair True) (specTrim (reg_abs r)) =
      map_prod id reg_abs (apfst (\<lambda>ev. (True, map re_RequestID ev)) (evictLocked r))"
    "reg_inv (snd (apfst f (evictLocked r)))"
  using trim_simulates [OF assms] by (simp_all add: apfst_def map_prod_def split_beta)

lemma entry_id: "reg_inv r \<Longrightarrow> map_of (lr_entries r) i = Some e \<Longrightarrow> re_RequestID e = i \<and> i \<noteq> []"
  by (simp add: reg_inv_def)

lemma register_new:
  fixes now :: instant and model :: string
  assumes "reg_inv r" "i \<noteq> []" "i \<notin> unfinishedIDs r"
  defines "r' \<equiv> (case map_of (lr_entries r) i of Some existing \<Rightarrow> resetToPendingLocked existing now r
     | None \<Rightarrow> r\<lparr>lr_entries := AList.update i \<lparr>re_RequestID = i, re_State = LifecyclePending, re_RetryAt = None,
         re_EnqueuedAt = now, re_StartedAt = None, re_CompletedAt = None, re_RequestedModel = model,
         re_ResolvedModel = []\<rparr> (lr_entries r), lr_unfinishedCount := lr_unfinishedCount r + 1\<rparr>)"
  shows "reg_inv r'"
    "reg_abs r' = (reg_abs r)\<lparr>sp_active := (sp_active (reg_abs r))(i \<mapsto> (LifecyclePending, None)), sp_done := remove1 i (sp_done (reg_abs r))\<rparr>"
proof -
  define e where "e = (case map_of (lr_entries r) i of
      Some existing \<Rightarrow> existing\<lparr>re_State := LifecyclePending, re_RetryAt := None, re_EnqueuedAt := now\<rparr>
    | None \<Rightarrow> \<lparr>re_RequestID = i, re_State = LifecyclePending, re_RetryAt = None, re_EnqueuedAt = now, re_StartedAt = None,
        re_CompletedAt = None, re_RequestedModel = model, re_ResolvedModel = []\<rparr>)"
  have e: "re_State e = LifecyclePending" "re_RetryAt e = None" "re_RequestID e = i"
    using entry_id [OF assms(1), of i] by (auto simp: e_def split: option.split)
  have "r' = r\<lparr>lr_entries := AList.update i e (lr_entries r), lr_completedOrder := remove1 i (lr_completedOrder r),
    lr_unfinishedCount := lr_unfinishedCount r + 1\<rparr>"
  proof (cases "map_of (lr_entries r) i")
    case None
    then have "i \<notin> set (lr_completedOrder r)" using assms(1) by (auto simp: reg_inv_def completedIDs_def)
    then show ?thesis by (simp add: r'_def e_def None remove1_idem)
  next
    case (Some x)
    have "re_State x = LifecycleCompleted" using assms(3) Some by (auto simp: unfinishedIDs_def)
    then show ?thesis
      using entry_id [OF assms(1) Some] by (simp add: r'_def e_def Some resetToPendingLocked_def removeCompletedLocked_def)
  qed
  then show "reg_inv r'"
    "reg_abs r' = (reg_abs r)\<lparr>sp_active := (sp_active (reg_abs r))(i \<mapsto> (LifecyclePending, None)), sp_done := remove1 i (sp_done (reg_abs r))\<rparr>"
    using activate [OF assms(1,3) _ e(3) assms(2)] e by simp_all
qed

lemma not_unfinished: "i \<notin> unfinishedIDs r \<longleftrightarrow>
    (case map_of (lr_entries r) i of None \<Rightarrow> True | Some e \<Rightarrow> re_State e = LifecycleCompleted)"
  by (auto simp: unfinishedIDs_def split: option.split)

lemma register_simulates:
  assumes "reg_inv r"
  shows "reg_inv (snd (regStep (OpRegister i model now) r))"
    "specStep (OpRegister i model now) (reg_abs r) = map_prod id reg_abs (regStep (OpRegister i model now) r)"
proof -
  consider "i = []" | "i \<noteq> []" "i \<in> unfinishedIDs r" | "i \<noteq> []" "i \<notin> unfinishedIDs r" by blast
  then have "reg_inv (snd (regStep (OpRegister i model now) r)) \<and>
    specStep (OpRegister i model now) (reg_abs r) = map_prod id reg_abs (regStep (OpRegister i model now) r)"
  proof cases
    case 1
    then show ?thesis using assms by (simp add: regStep_def specStep_def RegisterPending_def)
  next
    case 2
    then obtain e where e: "map_of (lr_entries r) i = Some e" "re_State e \<noteq> LifecycleCompleted" by (auto simp: unfinishedIDs_def)
    then have "RegisterPending i model now r = ((True, []), r\<lparr>lr_entries := AList.update i
        (e\<lparr>re_State := LifecyclePending, re_RetryAt := None, re_EnqueuedAt := now\<rparr>) (lr_entries r)\<rparr>)"
      using 2 entry_id [OF assms e(1)] by (simp add: RegisterPending_def Let_def resetToPendingLocked_def)
    then show ?thesis
      using 2 e touch [OF assms e, of "e\<lparr>re_State := LifecyclePending, re_RetryAt := None, re_EnqueuedAt := now\<rparr>"] entry_id [OF assms e(1)]
      by (simp add: regStep_def specStep_def)
  next
    case 3
    let ?refused = "0 < lr_unfinishedLimit r \<and> lr_unfinishedLimit r \<le> lr_unfinishedCount r"
    have count: "lr_unfinishedCount r = int (card (unfinishedIDs r))" using assms by (simp add: reg_inv_def)
    note new = register_new [OF assms 3, of now model]
    let ?r = "case map_of (lr_entries r) i of Some existing \<Rightarrow> resetToPendingLocked existing now r
     | None \<Rightarrow> r\<lparr>lr_entries := AList.update i \<lparr>re_RequestID = i, re_State = LifecyclePending, re_RetryAt = None,
         re_EnqueuedAt = now, re_StartedAt = None, re_CompletedAt = None, re_RequestedModel = model,
         re_ResolvedModel = []\<rparr> (lr_entries r), lr_unfinishedCount := lr_unfinishedCount r + 1\<rparr>"
    have "RegisterPending i model now r = (if ?refused then ((False, []), r) else apfst (Pair True) (evictLocked ?r))"
      using 3 not_unfinished [of i r] unfolding RegisterPending_def Let_def by (cases "map_of (lr_entries r) i") simp_all
    then have step: "regStep (OpRegister i model now) r =
        (if ?refused then ((False, []), r) else apfst (\<lambda>ev. (True, map re_RequestID ev)) (evictLocked ?r))"
      by (simp add: regStep_def apfst_def map_prod_def split_beta)
    have "sp_limit (reg_abs r) = lr_unfinishedLimit r" by (simp add: reg_abs_def)
    then have spec: "specStep (OpRegister i model now) (reg_abs r) =
        (if ?refused then ((False, []), reg_abs r) else apfst (Pair True) (specTrim (reg_abs ?r)))"
      using 3 count by (simp add: specStep_def new(2))
    show ?thesis unfolding step spec using trim_step [OF new(1)] assms by simp
  qed
  then show "reg_inv (snd (regStep (OpRegister i model now) r))"
    "specStep (OpRegister i model now) (reg_abs r) = map_prod id reg_abs (regStep (OpRegister i model now) r)" by blast+
qed

lemma touch_simulates:
  fixes i :: string
  assumes "reg_inv r" and upd: "\<And>e. re_State (f e) \<noteq> LifecycleCompleted \<and> re_RequestID (f e) = re_RequestID e"
    and "\<And>e. (re_State (f e), re_RetryAt (f e)) = v"
  defines "r' \<equiv> (if i = [] then r else case map_of (lr_entries r) i of None \<Rightarrow> r
     | Some e \<Rightarrow> if re_State e = LifecycleCompleted then r else r\<lparr>lr_entries := AList.update i (f e) (lr_entries r)\<rparr>)"
  shows "reg_inv r' \<and> reg_abs r' =
    (if i \<in> dom (sp_active (reg_abs r)) then (reg_abs r)\<lparr>sp_active := (sp_active (reg_abs r))(i \<mapsto> v)\<rparr> else reg_abs r)"
proof (cases "i \<in> unfinishedIDs r")
  case True
  then obtain e where e: "map_of (lr_entries r) i = Some e" "re_State e \<noteq> LifecycleCompleted" by (auto simp: unfinishedIDs_def)
  then have "r' = r\<lparr>lr_entries := AList.update i (f e) (lr_entries r)\<rparr>"
    using entry_id [OF assms(1) e(1)] by (simp add: r'_def)
  then show ?thesis using touch [OF assms(1) e, of "f e"] upd [of e] assms(3) [of e] entry_id [OF assms(1) e(1)] by simp
next
  case False
  then have "r' = r" by (auto simp: r'_def not_unfinished split: option.split)
  then show ?thesis using False assms(1) by simp
qed

lemma inflight_simulates:
  assumes "reg_inv r"
  shows "reg_inv (MarkInFlight i now r) \<and> specStep (OpInFlight i now) (reg_abs r) = ((True, []), reg_abs (MarkInFlight i now r))"
  unfolding MarkInFlight_def specStep_def
  using touch_simulates [OF assms, of "\<lambda>e. e\<lparr>re_State := LifecycleInFlight, re_RetryAt := None,
    re_StartedAt := (if re_StartedAt e = None then Some now else re_StartedAt e)\<rparr>" "(LifecycleInFlight, None)" i] by simp

lemma retry_simulates:
  assumes "reg_inv r"
  shows "reg_inv (MarkRetryScheduled i at' r) \<and> specStep (OpRetry i at') (reg_abs r) = ((True, []), reg_abs (MarkRetryScheduled i at' r))"
  unfolding MarkRetryScheduled_def specStep_def
  using touch_simulates [OF assms, of "\<lambda>e. e\<lparr>re_State := LifecyclePending, re_RetryAt := Some at'\<rparr>" "(LifecyclePending, Some at')" i] by simp

lemma complete_simulates:
  assumes "reg_inv r"
  shows "reg_inv (snd (regStep (OpComplete i now) r)) \<and>
    specStep (OpComplete i now) (reg_abs r) = map_prod id reg_abs (regStep (OpComplete i now) r)"
proof (cases "i \<in> unfinishedIDs r")
  case True
  then obtain e where e: "map_of (lr_entries r) i = Some e" "re_State e \<noteq> LifecycleCompleted" by (auto simp: unfinishedIDs_def)
  let ?e = "e\<lparr>re_State := LifecycleCompleted, re_RetryAt := None, re_CompletedAt := Some now\<rparr>"
  note f = finish_entry [OF assms e, of ?e]
  have step: "regStep (OpComplete i now) r = apfst (\<lambda>ev. (True, map re_RequestID ev)) (evictLocked
      (r\<lparr>lr_entries := AList.update i ?e (lr_entries r),
         lr_unfinishedCount := (if lr_unfinishedCount r - 1 < 0 then 0 else lr_unfinishedCount r - 1),
         lr_completedOrder := lr_completedOrder r @ [i]\<rparr>))"
    using e entry_id [OF assms e(1)] by (simp add: regStep_def MarkCompleted_def)
  show ?thesis
    unfolding step using trim_step [OF f(1)] f(2) True entry_id [OF assms e(1)] by (simp add: specStep_def)
next
  case False
  then have "MarkCompleted i now r = ([], r)" by (auto simp: MarkCompleted_def not_unfinished split: option.split)
  then show ?thesis using False assms by (simp add: regStep_def specStep_def)
qed

lemma limits_simulates:
  assumes "reg_inv r"
  shows "reg_inv (snd (regStep (OpLimits c w u) r)) \<and>
    specStep (OpLimits c w u) (reg_abs r) = map_prod id reg_abs (regStep (OpLimits c w u) r)"
proof -
  let ?r = "r\<lparr>lr_capacity := c, lr_completedWatermark := w, lr_unfinishedLimit := u\<rparr>"
  have "reg_inv ?r" using assms by (simp add: reg_inv_def reg_ids)
  moreover have "reg_abs ?r = (reg_abs r)\<lparr>sp_capacity := c, sp_watermark := w, sp_limit := u\<rparr>" by (simp add: reg_abs_def)
  ultimately show ?thesis using trim_step [of ?r] by (simp add: regStep_def specStep_def UpdateLimits_def)
qed

interpretation registry: simulation reg_inv reg_abs regStep specStep
proof
  fix r x
  assume inv: "reg_inv r"
  show "reg_inv (snd (regStep x r))"
    using register_simulates(1) [OF inv] inflight_simulates [OF inv] complete_simulates [OF inv] retry_simulates [OF inv]
      limits_simulates [OF inv] by (cases x) (simp_all add: regStep_def)
  show "specStep x (reg_abs r) = map_prod id reg_abs (regStep x r)"
    using register_simulates(2) [OF inv] inflight_simulates [OF inv] complete_simulates [OF inv] retry_simulates [OF inv]
      limits_simulates [OF inv] by (cases x) (simp_all add: regStep_def)
qed

text \<open>
  C30.
  Refinement: from a fresh registry, any sequence of registrations, transitions and limit changes
  answers exactly as the specification does, admission verdicts and evicted requests included, and
  ends in a state that abstracts to the specification's: the eviction loops, the counter and the
  order list implement a set of active requests and a queue trimmed by a closed formula.
\<close>

theorem registry_refines:
  "run_ops specStep ops (reg_abs (NewLifecycleRegistry c w u)) =
     map_prod id reg_abs (run_ops regStep ops (NewLifecycleRegistry c w u))"
  by (rule registry.run_refines) simp

lemma countState_split:
  "length (filter (\<lambda>(i, e). re_State e \<noteq> LifecycleCompleted) (lr_entries r)) =
     countState LifecyclePending r + countState LifecycleInFlight r"
proof -
  have "length (filter (\<lambda>(i, e). re_State e \<noteq> LifecycleCompleted) al) =
     length (filter (\<lambda>(i, e). re_State e = LifecyclePending) al) + length (filter (\<lambda>(i, e). re_State e = LifecycleInFlight) al)" for al :: "(string \<times> registryEntry) list"
  proof (induction al)
    case (Cons p al)
    then show ?case by (cases p; cases "re_State (snd p)") simp_all
  qed simp
  then show ?thesis by (simp add: countState_def)
qed

text \<open>
  In every reachable registry the counter and the snapshot agree with the table, the number of
  entries is what is unfinished plus the completed queue, and a registration is refused only at the
  unfinished limit, for a request that is not active.
\<close>

theorem registry_consistent:
  fixes c w u ops
  defines "r \<equiv> snd (run_ops regStep ops (NewLifecycleRegistry c w u))"
  shows "int (rs_Unfinished (Snapshot [] r)) = lr_unfinishedCount r \<and> rs_Completed (Snapshot [] r) = length (lr_completedOrder r) \<and>
    rs_Total (Snapshot [] r) = rs_Unfinished (Snapshot [] r) + rs_Completed (Snapshot [] r) \<and>
    (fst (fst (RegisterPending i model now r)) \<longleftrightarrow>
       i = [] \<or> i \<in> unfinishedIDs r \<or> lr_unfinishedLimit r \<le> 0 \<or> lr_unfinishedCount r < lr_unfinishedLimit r)"
proof -
  have inv: "reg_inv r" unfolding r_def by (rule registry.inv_run) simp
  note filt = length_filter_map_of [of "lr_entries r"]
  have "set (lr_completedOrder r) = completedIDs r" "distinct (lr_completedOrder r)" "lr_unfinishedCount r = int (card (unfinishedIDs r))"
    "distinct (map fst (lr_entries r))"
    using inv by (simp_all add: reg_inv_def)
  then have counts: "countState LifecyclePending r + countState LifecycleInFlight r = card (unfinishedIDs r)"
    "countState LifecycleCompleted r = length (lr_completedOrder r)" "lr_unfinishedCount r = int (card (unfinishedIDs r))"
    using filt [of "\<lambda>e. re_State e \<noteq> LifecycleCompleted"] filt [of "\<lambda>e. re_State e = LifecycleCompleted"]
      countState_split [of r] distinct_card [of "lr_completedOrder r"]
    unfolding countState_def unfinishedIDs_def completedIDs_def by metis+
  have "fst (fst (RegisterPending i model now r)) = fst (fst (regStep (OpRegister i model now) r))"
    by (simp add: regStep_def apfst_def apsnd_def map_prod_def split_beta)
  also have "\<dots> = fst (fst (specStep (OpRegister i model now) (reg_abs r)))"
    by (simp add: register_simulates(2) [OF inv])
  also have "\<dots> \<longleftrightarrow> i = [] \<or> i \<in> unfinishedIDs r \<or> lr_unfinishedLimit r \<le> 0 \<or> lr_unfinishedCount r < lr_unfinishedLimit r"
    by (auto simp: specStep_def counts(3) apfst_def map_prod_def split_beta) (auto simp: reg_abs_def)
  finally show ?thesis
    using counts entries_split [OF inv] by (simp add: Snapshot_def)
qed

section \<open>Bounds\<close>

definition trimmed :: "specRegistry \<Rightarrow> bool" where
  "trimmed s \<longleftrightarrow> (0 \<le> sp_watermark s \<longrightarrow> int (length (sp_done s)) \<le> sp_watermark s) \<and>
     (sp_done s = [] \<or> int (card (dom (sp_active s)) + length (sp_done s)) \<le> sp_capacity s)"

lemma trim_trimmed: "trimmed (snd (specTrim s))"
  by (auto simp: trimmed_def specTrim_def Let_def)

lemma specStep_trimmed: "trimmed s \<Longrightarrow> trimmed (snd (specStep x s))"
proof (cases x)
  case (OpRegister i model now)
  assume "trimmed s"
  then show ?thesis using OpRegister trim_trimmed
    by (auto simp: specStep_def apfst_def map_prod_def split_beta trimmed_def insert_absorb domIff)
next
  case (OpInFlight i now)
  assume "trimmed s"
  then show ?thesis using OpInFlight by (auto simp: specStep_def trimmed_def insert_absorb)
next
  case (OpRetry i t)
  assume "trimmed s"
  then show ?thesis using OpRetry by (auto simp: specStep_def trimmed_def insert_absorb)
qed (use trim_trimmed in \<open>auto simp: specStep_def apfst_def map_prod_def split_beta\<close>)

lemma run_trimmed: "trimmed s \<Longrightarrow> trimmed (snd (run_ops specStep xs s))"
proof (induction xs arbitrary: s)
  case (Cons x xs)
  then show ?case using specStep_trimmed [of s x] by (auto split: prod.splits) (metis snd_conv)
qed simp

text \<open>
  Memory bound: in every reachable registry the completed entries do not exceed the watermark and
  the table does not exceed the larger of its capacity and the number of unfinished requests.
\<close>

theorem registry_bounded:
  fixes c w u ops
  defines "r \<equiv> snd (run_ops regStep ops (NewLifecycleRegistry c w u))"
  shows "int (length (lr_completedOrder r)) \<le>
      (if 0 \<le> lr_completedWatermark r then lr_completedWatermark r else int (length (lr_completedOrder r))) \<and>
    int (length (lr_entries r)) \<le> max (lr_capacity r) (lr_unfinishedCount r)"
proof -
  have inv: "reg_inv r" unfolding r_def by (rule registry.inv_run) simp
  have "trimmed (reg_abs (NewLifecycleRegistry c w u))" by (simp add: trimmed_def reg_abs_def NewLifecycleRegistry_def)
  from run_trimmed [OF this, of ops] have "trimmed (reg_abs r)"
    unfolding r_def by (simp add: registry.run_refines)
  then have "(0 \<le> lr_completedWatermark r \<longrightarrow> int (length (lr_completedOrder r)) \<le> lr_completedWatermark r) \<and>
      (lr_completedOrder r = [] \<or> int (card (unfinishedIDs r) + length (lr_completedOrder r)) \<le> lr_capacity r)"
    unfolding trimmed_def dom_active by (simp add: reg_abs_def)
  then show ?thesis using entries_split [OF inv] inv by (auto simp: reg_inv_def)
qed

end
