(* ===== verification/TotalQueue.thy ===== *)
theory TotalQueue
  imports Prelude
begin

text \<open>
  The Tier-0 waiting room: \<open>total_queue.go\<close>, the cluster admission tokens of
  \<open>queue_admission.go\<close>, and the parts of \<open>pipeline.go\<close> that move a request in and out of it
  (\<open>Submit\<close>, \<open>drainTotalOne\<close>, \<open>drainTotalQueueResidue\<close>, \<open>onScheduledDue\<close>, and \<open>complete\<close> as
  far as it releases tokens). Requests are values of \<open>'q\<close>; a flag or pointer field of the request
  is the set of requests in which it is set. The drainer is one goroutine: its
  program counter \<open>t0_drainer\<close> says which request it holds and whether the release of the slot is
  still to come, so that submissions, cancellations and the due timer interleave with it. The picker of
  the due scheduler is another goroutine: \<open>t0_picker\<close> is the request whose release flag it has re-armed
  and that it has not admitted again yet. The answers of the cluster backend, of the due scheduler and of
  the model lanes are arguments.
\<close>

section \<open>State\<close>

datatype 'q drainer = DIdle | DHolds 'q | DReleases 'q

record 'q tier0 =
  t0_ch :: "'q list"
  t0_capacity :: int
  t0_queued :: int
  t0_totalQueueDone :: "'q set"
  t0_completed :: "'q set"
  t0_clusterActive :: bool
  t0_clusterTotal :: "'q set"
  t0_admitted :: int
  t0_released :: int
  t0_drainer :: "'q drainer"
  t0_parked :: "'q list"
  t0_fired :: "'q set"
  t0_picker :: "'q option"
  t0_late :: bool
  t0_lanes :: "'q list"

definition newTotalExecutionQueue :: "int \<Rightarrow> bool \<Rightarrow> 'q tier0" where
  "newTotalExecutionQueue capacity active =
     \<lparr>t0_ch = [], t0_capacity = (if capacity \<le> 0 then 1000 else capacity), t0_queued = 0, t0_totalQueueDone = {},
      t0_completed = {}, t0_clusterActive = active, t0_clusterTotal = {}, t0_admitted = 0, t0_released = 0,
      t0_drainer = DIdle, t0_parked = [], t0_fired = {}, t0_picker = None, t0_late = False, t0_lanes = []\<rparr>"

section \<open>Operations\<close>

text \<open>The counter is raised first; the channel of the same capacity may still refuse.\<close>

definition tryEnqueue :: "'q \<Rightarrow> 'q tier0 \<Rightarrow> bool \<times> 'q tier0" where
  "tryEnqueue q t =
     (if t0_capacity t \<le> t0_queued t then (False, t)
      else if int (length (t0_ch t)) < t0_capacity t then (True, t\<lparr>t0_queued := t0_queued t + 1, t0_ch := t0_ch t @ [q]\<rparr>)
      else (False, t))"

definition tq_release :: "'q \<Rightarrow> 'q tier0 \<Rightarrow> 'q tier0" where
  "tq_release q t = (if q \<in> t0_totalQueueDone t then t
     else t\<lparr>t0_totalQueueDone := insert q (t0_totalQueueDone t), t0_queued := t0_queued t - 1\<rparr>)"

text \<open>The backend refuses, admits without a token (\<open>adm.Kind\<close> empty) or hands out a token.\<close>

datatype backendAnswer = BackendRefuses | BackendFree | BackendToken

definition admitTotal :: "'q \<Rightarrow> backendAnswer \<Rightarrow> 'q tier0 \<Rightarrow> bool \<times> 'q tier0" where
  "admitTotal q answer t =
     (if \<not> t0_clusterActive t then (True, t)
      else case answer of
        BackendRefuses \<Rightarrow> (False, t)
      | BackendFree \<Rightarrow> (True, t)
      | BackendToken \<Rightarrow> (True, t\<lparr>t0_clusterTotal := insert q (t0_clusterTotal t), t0_admitted := t0_admitted t + 1\<rparr>))"

definition releaseClusterTotal :: "'q \<Rightarrow> 'q tier0 \<Rightarrow> 'q tier0" where
  "releaseClusterTotal q t = (if q \<in> t0_clusterTotal t
     then t\<lparr>t0_clusterTotal := t0_clusterTotal t - {q}, t0_released := t0_released t + 1\<rparr> else t)"

definition releaseTotal :: "'q \<Rightarrow> 'q tier0 \<Rightarrow> 'q tier0" where
  "releaseTotal q t = releaseClusterTotal q (tq_release q t)"

definition t0_complete :: "'q \<Rightarrow> 'q tier0 \<Rightarrow> 'q tier0" where
  "t0_complete q t = (if q \<in> t0_completed t then t
     else releaseClusterTotal q (t\<lparr>t0_completed := insert q (t0_completed t)\<rparr>))"

text \<open>\<open>!p.admitTotal(ctx, qr) || !p.totalQueue.tryEnqueue(qr)\<close>, negated.\<close>

definition enterTotal :: "'q \<Rightarrow> backendAnswer \<Rightarrow> 'q tier0 \<Rightarrow> bool \<times> 'q tier0" where
  "enterTotal q answer t = (case admitTotal q answer t of (ok, t1) \<Rightarrow> if ok then tryEnqueue q t1 else (False, t1))"

definition Submit :: "'q \<Rightarrow> backendAnswer \<Rightarrow> 'q tier0 \<Rightarrow> bool \<times> 'q tier0" where
  "Submit q answer t = (case enterTotal q answer t of (ok, t1) \<Rightarrow> if ok then (True, t1) else (False, t0_complete q t1))"

definition drainRecv :: "'q tier0 \<Rightarrow> 'q tier0" where
  "drainRecv t = (case (t0_drainer t, t0_ch t) of (DIdle, q # rest) \<Rightarrow> t\<lparr>t0_ch := rest, t0_drainer := DHolds q\<rparr> | _ \<Rightarrow> t)"

text \<open>
  What the drainer does with the request it holds: park it until it is due, hand it to its lane, or
  give it up. A request whose due time has fired is not in the future any more and is not parked again.
\<close>

datatype drainChoice = ToDueHeap | ToLane | GiveUp

definition drainTotalOne :: "drainChoice \<Rightarrow> 'q tier0 \<Rightarrow> 'q tier0" where
  "drainTotalOne choice t =
     (case t0_drainer t of
        DHolds q \<Rightarrow>
          (case choice of
             ToDueHeap \<Rightarrow> if q \<in> t0_fired t then t else t\<lparr>t0_parked := t0_parked t @ [q], t0_drainer := DReleases q\<rparr>
           | ToLane \<Rightarrow> t\<lparr>t0_lanes := t0_lanes t @ [q], t0_drainer := DReleases q\<rparr>
           | GiveUp \<Rightarrow> t0_complete q (releaseTotal q (t\<lparr>t0_drainer := DIdle\<rparr>)))
      | _ \<Rightarrow> t)"

text \<open>\<open>t0_late\<close> is no field of the code: it records that this release came while the picker held the request.\<close>

definition drainRelease :: "'q tier0 \<Rightarrow> 'q tier0" where
  "drainRelease t = (case t0_drainer t of DReleases q \<Rightarrow> (releaseTotal q t)\<lparr>t0_drainer := DIdle, t0_late := (t0_late t \<or> t0_picker t = Some q)\<rparr> | _ \<Rightarrow> t)"

text \<open>
  \<open>onScheduledDue\<close> in two steps, since the drainer may run between them: the picker takes the
  request off the due heap and re-arms its release flag, then it admits the request again. The picker
  fires one request at a time.
\<close>

definition onScheduledDue :: "'q \<Rightarrow> bool \<Rightarrow> 'q tier0 \<Rightarrow> 'q tier0" where
  "onScheduledDue q leaving t0 =
     (if q \<notin> set (t0_parked t0) \<or> t0_picker t0 \<noteq> None then t0
      else let t = t0\<lparr>t0_parked := remove1 q (t0_parked t0), t0_fired := insert q (t0_fired t0)\<rparr>
           in if q \<in> t0_completed t then t
              else if leaving then t0_complete q t
              else t\<lparr>t0_totalQueueDone := t0_totalQueueDone t - {q}, t0_picker := Some q, t0_late := False\<rparr>)"

definition dueEnter :: "backendAnswer \<Rightarrow> 'q tier0 \<Rightarrow> 'q tier0" where
  "dueEnter answer t = (case t0_picker t of
     None \<Rightarrow> t
   | Some q \<Rightarrow> (case enterTotal q answer (t\<lparr>t0_picker := None\<rparr>) of
       (True, t1) \<Rightarrow> t1
     | (False, t1) \<Rightarrow> t0_complete q (releaseClusterTotal q
         (t1\<lparr>t0_totalQueueDone := insert q (t0_totalQueueDone t1)\<rparr>))))"

fun drainLoop :: "'q list \<Rightarrow> 'q tier0 \<Rightarrow> 'q tier0" where
  "drainLoop [] t = t"
| "drainLoop (q # rest) t = drainLoop rest (t0_complete q (releaseTotal q (t\<lparr>t0_ch := rest\<rparr>)))"

definition drainTotalQueueResidue :: "'q tier0 \<Rightarrow> 'q tier0" where
  "drainTotalQueueResidue t = drainLoop (t0_ch t) t"

section \<open>Interleavings\<close>

datatype 'q t0Event = ESubmit 'q backendAnswer | EDrainRecv | EDrain drainChoice | EDrainRelease
  | EDue 'q bool | EDueEnter backendAnswer | ECancel 'q | EResidue

definition t0_step :: "'q t0Event \<Rightarrow> 'q tier0 \<Rightarrow> 'q tier0" where
  "t0_step e t = (case e of
     ESubmit q answer \<Rightarrow> snd (Submit q answer t)
   | EDrainRecv \<Rightarrow> drainRecv t
   | EDrain choice \<Rightarrow> drainTotalOne choice t
   | EDrainRelease \<Rightarrow> drainRelease t
   | EDue q leaving \<Rightarrow> onScheduledDue q leaving t
   | EDueEnter answer \<Rightarrow> dueEnter answer t
   | ECancel q \<Rightarrow> t0_complete q t
   | EResidue \<Rightarrow> drainTotalQueueResidue t)"

primrec drainerHolds :: "'q drainer \<Rightarrow> 'q list" where
  "drainerHolds DIdle = []"
| "drainerHolds (DHolds q) = [q]"
| "drainerHolds (DReleases q) = [q]"

definition holders :: "'q tier0 \<Rightarrow> 'q list" where
  "holders t = drainerHolds (t0_drainer t) @ t0_ch t"

text \<open>
  The due timer overtakes the drainer when the request is admitted again although the release that
  follows its parking is still to come, or came only after the picker had taken the request.
\<close>

definition overtakes :: "'q t0Event \<Rightarrow> 'q tier0 \<Rightarrow> bool" where
  "overtakes e t = (case (e, t0_picker t) of
     (EDueEnter answer, Some q) \<Rightarrow> (if t0_late t then fst (enterTotal q answer (t\<lparr>t0_picker := None\<rparr>)) else q \<in> set (holders t))
   | _ \<Rightarrow> False)"

text \<open>
  One step of the room: the requests seen, the number of overtakings so far, and the state. A request is
  submitted once, and cancelled only after it was submitted; everything else may happen at any time.
\<close>

inductive t0_next :: "'q set \<times> nat \<times> 'q tier0 \<Rightarrow> 'q set \<times> nat \<times> 'q tier0 \<Rightarrow> bool" where
  t0_submit: "q \<notin> seen \<Longrightarrow> t0_next (seen, n, t) (insert q seen, n, t0_step (ESubmit q answer) t)"
| t0_cancel: "q \<in> seen \<Longrightarrow> t0_next (seen, n, t) (seen, n, t0_step (ECancel q) t)"
| t0_other: "\<forall>q answer. e \<noteq> ESubmit q answer \<and> e \<noteq> ECancel q \<Longrightarrow>
    t0_next (seen, n, t) (seen, if overtakes e t then Suc n else n, t0_step e t)"

abbreviation t0_reach :: "int \<Rightarrow> bool \<Rightarrow> 'q set \<Rightarrow> nat \<Rightarrow> 'q tier0 \<Rightarrow> bool" where
  "t0_reach capacity active seen n t \<equiv> t0_next\<^sup>*\<^sup>* ({}, 0, newTotalExecutionQueue capacity active) (seen, n, t)"

section \<open>Slots\<close>

text \<open>
  The counter is what the holders still have to give back, plus what overtakings have lost. A request that
  holds two slots at once, or one whose flag says it was given back, has been overtaken.
\<close>

definition slots_ok :: "nat \<Rightarrow> 'q tier0 \<Rightarrow> bool" where
  "slots_ok n t \<longleftrightarrow> t0_queued t = int (card (set (holders t) - t0_totalQueueDone t) + n)
     \<and> int (length (holders t)) \<le> t0_queued t \<and> t0_queued t \<le> t0_capacity t"

definition once_ok :: "'q tier0 \<Rightarrow> bool" where
  "once_ok t \<longleftrightarrow> set (holders t) \<inter> t0_totalQueueDone t \<subseteq> t0_fired t
     \<and> (\<forall>q. 2 \<le> count (mset (holders t)) q \<longrightarrow> q \<in> t0_fired t)
     \<and> (\<forall>q. t0_picker t = Some q \<longrightarrow> q \<in> t0_fired t \<and> (q \<in> set (holders t) \<longrightarrow> q \<notin> t0_totalQueueDone t)
        \<and> (t0_late t \<longleftrightarrow> q \<in> t0_totalQueueDone t))"

definition parked_ok :: "'q tier0 \<Rightarrow> bool" where
  "parked_ok t \<longleftrightarrow> distinct (t0_parked t) \<and> set (t0_parked t) \<inter> set (t0_ch t) = {} \<and> set (t0_parked t) \<inter> t0_fired t = {}
     \<and> (\<forall>q. t0_drainer t = DHolds q \<longrightarrow> q \<notin> set (t0_parked t))
     \<and> (\<forall>q. t0_picker t = Some q \<longrightarrow> q \<notin> set (t0_ch t) \<and> t0_drainer t \<noteq> DHolds q)"

definition tokens_ok :: "nat \<Rightarrow> 'q tier0 \<Rightarrow> bool" where
  "tokens_ok n t \<longleftrightarrow> t0_clusterTotal t \<subseteq> set (holders t)
     \<and> int (card (t0_clusterTotal t)) \<le> t0_admitted t - t0_released t
     \<and> t0_admitted t - t0_released t \<le> int (card (t0_clusterTotal t) + n)"

definition seen_ok :: "'q set \<Rightarrow> 'q tier0 \<Rightarrow> bool" where
  "seen_ok seen t \<longleftrightarrow> set (holders t) \<union> set (t0_parked t) \<union> t0_totalQueueDone t \<union> t0_completed t \<union> t0_fired t \<subseteq> seen"

definition t0_inv :: "'q set \<Rightarrow> nat \<Rightarrow> 'q tier0 \<Rightarrow> bool" where
  "t0_inv seen n t \<longleftrightarrow> slots_ok n t \<and> once_ok t \<and> parked_ok t \<and> tokens_ok n t \<and> seen_ok seen t"

lemmas t0_invs = t0_inv_def slots_ok_def once_ok_def parked_ok_def tokens_ok_def seen_ok_def

text \<open>What a release of cluster tokens leaves alone.\<close>

definition sameRoom :: "'q tier0 \<Rightarrow> 'q tier0 \<Rightarrow> bool" where
  "sameRoom t t' \<longleftrightarrow> t0_ch t' = t0_ch t \<and> t0_drainer t' = t0_drainer t \<and> t0_queued t' = t0_queued t \<and> t0_capacity t' = t0_capacity t
     \<and> t0_totalQueueDone t' = t0_totalQueueDone t \<and> t0_parked t' = t0_parked t \<and> t0_fired t' = t0_fired t \<and> t0_picker t' = t0_picker t \<and> t0_late t' = t0_late t"

lemma sameRoom_holders: "sameRoom t t' \<Longrightarrow> holders t' = holders t"
  by (simp add: sameRoom_def holders_def)

lemma sameRoom_inv:
  assumes "sameRoom t t'" "slots_ok n t \<and> once_ok t \<and> parked_ok t" "tokens_ok n t'" "seen_ok seen t'"
  shows "t0_inv seen n t'"
  using assms sameRoom_holders [OF assms(1)] by (simp add: t0_invs sameRoom_def)

lemma releaseCluster_room: "sameRoom t (releaseClusterTotal q t)" "t0_completed (releaseClusterTotal q t) = t0_completed t"
  "t0_clusterTotal (releaseClusterTotal q t) = t0_clusterTotal t - {q}"
  by (simp_all add: releaseClusterTotal_def sameRoom_def)

lemma tokens_finite: "tokens_ok n t \<Longrightarrow> finite (t0_clusterTotal t)"
  unfolding tokens_ok_def by (meson List.finite_set finite_subset)

lemma tokens_release:
  assumes "finite (t0_clusterTotal t)"
  shows "t0_admitted (releaseClusterTotal q t) - t0_released (releaseClusterTotal q t) - int (card (t0_clusterTotal (releaseClusterTotal q t)))
    = t0_admitted t - t0_released t - int (card (t0_clusterTotal t))"
  using assms card_Suc_Diff1 [of "t0_clusterTotal t" q] by (auto simp: releaseClusterTotal_def)

lemma tokens_ok_release:
  assumes "tokens_ok n t"
  shows "tokens_ok n (releaseClusterTotal q t)"
  using assms tokens_release [OF tokens_finite [OF assms], of q] sameRoom_holders [OF releaseCluster_room(1) [of t q]]
  by (auto simp: tokens_ok_def releaseCluster_room(3))

lemma releaseCluster_inv:
  assumes "t0_inv seen n t"
  shows "t0_inv seen n (releaseClusterTotal q t)"
proof (rule sameRoom_inv [OF releaseCluster_room(1)])
  show "slots_ok n t \<and> once_ok t \<and> parked_ok t" "tokens_ok n (releaseClusterTotal q t)"
    using assms tokens_ok_release by (auto simp: t0_inv_def)
  show "seen_ok seen (releaseClusterTotal q t)"
    using assms sameRoom_holders [OF releaseCluster_room(1) [of t q]] releaseCluster_room(1) [of t q]
    by (simp add: t0_inv_def seen_ok_def releaseCluster_room(2) sameRoom_def)
qed

lemma complete_inv:
  assumes "t0_inv seen n t" "q \<in> seen"
  shows "t0_inv seen n (t0_complete q t)"
proof -
  have "t0_inv seen n (t\<lparr>t0_completed := insert q (t0_completed t)\<rparr>)" using assms by (simp add: t0_invs holders_def)
  then show ?thesis using assms(1) by (simp add: t0_complete_def releaseCluster_inv)
qed

text \<open>The holder \<open>q\<close> leaves and its slot is released: \<open>t'\<close> is the state with one \<open>q\<close> taken off the holders.\<close>

lemma leave_inv:
  assumes inv: "t0_inv seen n t" and h: "mset (holders t) = add_mset q (mset (holders t'))"
    and same: "t0_queued t' = t0_queued t" "t0_capacity t' = t0_capacity t" "t0_totalQueueDone t' = t0_totalQueueDone t"
      "t0_completed t' = t0_completed t" "t0_clusterTotal t' = t0_clusterTotal t" "t0_admitted t' = t0_admitted t"
      "t0_released t' = t0_released t" "t0_parked t' = t0_parked t" "t0_fired t' = t0_fired t" "t0_picker t' = t0_picker t"
    and late: "t0_late t' \<longleftrightarrow> t0_late t \<or> t0_picker t = Some q"
    and parked: "parked_ok t'"
  shows "t0_inv seen n (releaseTotal q t')" "q \<in> seen"
proof -
  let ?D = "t0_totalQueueDone t" and ?r = "tq_release q t'"
  have set: "set (holders t) = insert q (set (holders t'))" and len: "length (holders t) = Suc (length (holders t'))"
    and cnt: "count (mset (holders t)) x = count (mset (holders t')) x + (if x = q then 1 else 0)" for x
    using h by (metis set_mset_add_mset_insert set_mset_mset, metis size_add_mset size_mset, simp)
  show "q \<in> seen" using inv set by (auto simp: t0_inv_def seen_ok_def)
  have r: "t0_totalQueueDone ?r = insert q ?D" "holders ?r = holders t'" "t0_capacity ?r = t0_capacity t" "t0_clusterTotal ?r = t0_clusterTotal t"
    "t0_parked ?r = t0_parked t" "t0_completed ?r = t0_completed t" "t0_admitted ?r = t0_admitted t" "t0_released ?r = t0_released t"
    "t0_fired ?r = t0_fired t" "t0_picker ?r = t0_picker t" "t0_ch ?r = t0_ch t'" "t0_drainer ?r = t0_drainer t'"
    "t0_queued ?r = t0_queued t - (if q \<in> ?D then 0 else 1)" "t0_late ?r \<longleftrightarrow> t0_late t \<or> t0_picker t = Some q"
    using same late by (auto simp: tq_release_def holders_def)
  have still: "q \<in> set (holders t') \<Longrightarrow> q \<in> t0_fired t \<and> t0_picker t \<noteq> Some q"
  proof -
    assume "q \<in> set (holders t')"
    then have c: "2 \<le> count (mset (holders t)) q" using cnt [of q] count_greater_zero_iff [of "mset (holders t')" q] by simp
    moreover have "count (mset (holders t)) q \<le> Suc (count (mset (t0_ch t)) q)" by (cases "t0_drainer t") (simp_all add: holders_def)
    ultimately have "0 < count (mset (t0_ch t)) q" by linarith
    then have "q \<in> set (t0_ch t)" by (metis count_greater_zero_iff set_mset_mset)
    then show ?thesis using inv c by (auto simp: t0_inv_def once_ok_def parked_ok_def)
  qed
  have "set (holders t') - insert q ?D = (set (holders t) - ?D) - {q}" using set by auto
  then have "card (set (holders t') - insert q ?D) = card (set (holders t) - ?D) - (if q \<in> ?D then 0 else 1)"
    using set by (simp add: card_Diff_singleton_if)
  moreover have "q \<notin> ?D \<Longrightarrow> 0 < card (set (holders t) - ?D)" using set by (auto simp: card_gt_0_iff)
  ultimately have "slots_ok n ?r" using inv len r by (auto simp: t0_inv_def slots_ok_def)
  moreover have "once_ok ?r"
    unfolding once_ok_def r
  proof (intro conjI allI impI)
    have c: "set (holders t) \<inter> ?D \<subseteq> t0_fired t" using inv by (simp add: t0_inv_def once_ok_def)
    show "set (holders t') \<inter> insert q ?D \<subseteq> t0_fired t" using c set still by blast
    fix x
    show "x \<in> t0_fired t" if "2 \<le> count (mset (holders t')) x"
    proof -
      have "2 \<le> count (mset (holders t)) x" using that cnt [of x] by simp
      then show ?thesis using inv by (simp add: t0_inv_def once_ok_def)
    qed
    assume x: "t0_picker t = Some x"
    then have k: "x \<in> t0_fired t" "x \<in> set (holders t) \<longrightarrow> x \<notin> ?D" "t0_late t \<longleftrightarrow> x \<in> ?D"
      using inv by (simp_all add: t0_inv_def once_ok_def)
    show "x \<in> t0_fired t" by (rule k)
    show "(t0_late t \<or> t0_picker t = Some q) = (x \<in> insert q ?D)" using k(3) x by auto
    assume "x \<in> set (holders t')"
    then show "x \<notin> insert q ?D" using k(2) set still x by blast
  qed
  moreover have "parked_ok ?r" using parked r same by (simp add: parked_ok_def)
  ultimately have room: "slots_ok n ?r \<and> once_ok ?r \<and> parked_ok ?r" by blast
  have fin: "finite (t0_clusterTotal ?r)" using inv tokens_finite [of n t] r(4) by (simp add: t0_inv_def)
  have "tokens_ok n (releaseClusterTotal q ?r)"
    using inv set r tokens_release [OF fin, of q] sameRoom_holders [OF releaseCluster_room(1) [of ?r q]]
    by (auto simp: t0_inv_def tokens_ok_def releaseCluster_room(3))
  moreover have "seen_ok seen (releaseClusterTotal q ?r)"
    using inv set r sameRoom_holders [OF releaseCluster_room(1) [of ?r q]] releaseCluster_room(1) [of ?r q]
    by (auto simp: t0_inv_def seen_ok_def releaseCluster_room(2) sameRoom_def)
  ultimately show "t0_inv seen n (releaseTotal q t')"
    unfolding releaseTotal_def using sameRoom_inv [OF releaseCluster_room(1) room] by blast
qed

section \<open>Admission\<close>

text \<open>Admission by the cluster: at most one more token, lost when the request already had one.\<close>

lemma admit_room:
  assumes "admitTotal q answer t = (ok, t1)"
  shows "sameRoom t t1" "t0_completed t1 = t0_completed t"
  using assms by (auto simp: admitTotal_def sameRoom_def split: if_splits backendAnswer.splits)

lemma admit_tokens:
  assumes "admitTotal q answer t = (ok, t1)" "tokens_ok n t"
  shows "finite (t0_clusterTotal t1)" "t0_clusterTotal t1 \<subseteq> insert q (t0_clusterTotal t)"
    "int (card (t0_clusterTotal t1)) \<le> t0_admitted t1 - t0_released t1"
    "t0_admitted t1 - t0_released t1 \<le> int (card (t0_clusterTotal t1) + n) + (if q \<in> set (holders t) then 1 else 0)"
  using assms tokens_finite [OF assms(2)]
  by (auto simp: admitTotal_def tokens_ok_def card_insert_if split: if_splits backendAnswer.splits)

text \<open>A request that does not enter gives its token back.\<close>

lemma refused_tokens:
  assumes "admitTotal q answer t = (ok, t1)" "tokens_ok n t"
  shows "tokens_ok (n + (if q \<in> set (holders t) then 1 else 0)) (releaseClusterTotal q t1)"
  using admit_tokens [OF assms] tokens_release [OF admit_tokens(1) [OF assms], of q] assms(2)
    sameRoom_holders [OF releaseCluster_room(1) [of t1 q]] sameRoom_holders [OF admit_room(1) [OF assms(1)]]
  by (auto simp: tokens_ok_def releaseCluster_room(3))

lemma enter_cases:
  assumes "enterTotal q answer t = (ok, t')" "int (length (holders t)) \<le> t0_queued t"
  obtains (entered) t1 where "ok" "admitTotal q answer t = (True, t1)" "t0_queued t1 < t0_capacity t1"
      "t' = t1\<lparr>t0_queued := t0_queued t1 + 1, t0_ch := t0_ch t1 @ [q]\<rparr>"
  | (refused) a where "\<not> ok" "admitTotal q answer t = (a, t')"
proof (cases "admitTotal q answer t")
  case (Pair a t1)
  have "int (length (t0_ch t1)) \<le> t0_queued t1"
    using admit_room(1) [OF Pair] assms(2) by (simp add: sameRoom_def holders_def)
  then show thesis using assms(1) Pair that by (auto simp: enterTotal_def tryEnqueue_def split: if_splits)
qed

text \<open>
  The effect of an admission on the invariant, for a request that was not parked: \<open>lost\<close> says whether
  the slot it takes will never be given back.
\<close>

lemma enter_inv:
  assumes inv: "t0_inv seen n t" and e: "enterTotal q answer t = (True, t')"
    and q: "q \<notin> set (t0_parked t)" "q \<in> seen" "t0_picker t \<noteq> Some q" "q \<in> set (holders t) \<union> t0_totalQueueDone t \<Longrightarrow> q \<in> t0_fired t"
  shows "t0_inv seen (if q \<in> set (holders t) \<union> t0_totalQueueDone t then Suc n else n) t'"
proof -
  let ?D = "t0_totalQueueDone t" and ?H = "set (holders t)"
  have le: "int (length (holders t)) \<le> t0_queued t" using inv by (simp add: t0_inv_def slots_ok_def)
  obtain t1 where a: "admitTotal q answer t = (True, t1)" "t0_queued t1 < t0_capacity t1"
    and t': "t' = t1\<lparr>t0_queued := t0_queued t1 + 1, t0_ch := t0_ch t1 @ [q]\<rparr>"
    using enter_cases [OF e le] by (metis (full_types))
  note room = admit_room [OF a(1)]
  have tok: "tokens_ok n t" using inv by (simp add: t0_inv_def)
  have f: "holders t' = holders t @ [q]" "t0_queued t' = t0_queued t + 1" "t0_capacity t' = t0_capacity t" "t0_totalQueueDone t' = ?D"
    "t0_parked t' = t0_parked t" "t0_fired t' = t0_fired t" "t0_picker t' = t0_picker t" "t0_completed t' = t0_completed t"
    "t0_drainer t' = t0_drainer t" "t0_ch t' = t0_ch t @ [q]" "t0_clusterTotal t' = t0_clusterTotal t1"
    "t0_admitted t' = t0_admitted t1" "t0_released t' = t0_released t1" "t0_late t' = t0_late t"
    using room t' by (simp_all add: sameRoom_def holders_def)
  have "card (insert q ?H - ?D) = card (?H - ?D) + (if q \<in> ?H \<union> ?D then 0 else 1)"
    by (simp add: insert_Diff_if insert_absorb)
  moreover have "t0_queued t < t0_capacity t" using a(2) room(1) by (simp add: sameRoom_def)
  ultimately have "slots_ok (if q \<in> ?H \<union> ?D then Suc n else n) t'"
    using inv f unfolding t0_inv_def slots_ok_def by (simp split: if_splits)
  moreover have "once_ok t'" using inv q(3,4) unfolding t0_inv_def once_ok_def f
    by (auto simp: count_list_0_iff dest: count_eq_zero_iff [THEN iffD2] split: if_splits)
  moreover have "parked_ok t'" using inv q(1,3) unfolding t0_inv_def parked_ok_def f by auto
  moreover have "tokens_ok (if q \<in> ?H \<union> ?D then Suc n else n) t'"
    using admit_tokens [OF a(1) tok] tok unfolding tokens_ok_def f by (auto split: if_splits)
  moreover have "seen_ok seen t'" using inv q(2) unfolding t0_inv_def seen_ok_def f by auto
  ultimately show ?thesis by (simp add: t0_inv_def)
qed

lemma t0_inv_mono: "t0_inv seen n t \<Longrightarrow> seen \<subseteq> seen' \<Longrightarrow> t0_inv seen' n t"
  by (auto simp: t0_inv_def seen_ok_def)

lemma complete_release: "q \<notin> t0_completed t \<Longrightarrow> t0_complete q t = t0_complete q (releaseClusterTotal q t)"
  by (simp add: t0_complete_def releaseClusterTotal_def)

section \<open>Steps\<close>

lemma submit_inv:
  assumes "t0_inv seen n t" "q \<notin> seen"
  shows "t0_inv (insert q seen) n (snd (Submit q answer t))"
proof -
  have inv: "t0_inv (insert q seen) n t" using assms(1) by (rule t0_inv_mono) auto
  have q: "q \<notin> set (holders t)" "q \<notin> t0_totalQueueDone t" "q \<notin> set (t0_parked t)" "q \<notin> t0_completed t" "t0_picker t \<noteq> Some q"
    using assms by (auto simp: t0_inv_def seen_ok_def once_ok_def)
  have le: "int (length (holders t)) \<le> t0_queued t" using inv by (simp add: t0_inv_def slots_ok_def)
  obtain b t' where e: "enterTotal q answer t = (b, t')" by fastforce
  show ?thesis
  proof (cases b)
    case True
    then show ?thesis using enter_inv [OF inv _ q(3) _ q(5)] e q(1,2) by (simp add: Submit_def)
  next
    case False
    from enter_cases [OF e le] False obtain a where a: "admitTotal q answer t = (a, t')" by metis
    note room = admit_room [OF a]
    have "sameRoom t (releaseClusterTotal q t')" using room(1) releaseCluster_room(1) [of t' q] by (simp add: sameRoom_def)
    moreover have "tokens_ok n (releaseClusterTotal q t')" using refused_tokens [OF a, of n] inv q(1) by (simp add: t0_inv_def)
    ultimately have "t0_inv (insert q seen) n (releaseClusterTotal q t')"
      using inv room sameRoom_holders [of t "releaseClusterTotal q t'"] releaseCluster_room(2) [of q t']
      by (intro sameRoom_inv) (auto simp: t0_inv_def seen_ok_def sameRoom_def)
    then show ?thesis using False e complete_inv [of "insert q seen" n _ q] complete_release [of q t'] room(2) q(4) by (simp add: Submit_def)
  qed
qed

lemma recv_inv: "t0_inv seen n t \<Longrightarrow> t0_inv seen n (drainRecv t)"
  by (cases "t0_drainer t"; cases "t0_ch t") (auto simp: drainRecv_def t0_invs holders_def)

lemma drain_inv:
  assumes inv: "t0_inv seen n t" and d: "t0_drainer t = DHolds q \<or> t0_drainer t = DReleases q" and l: "l \<longleftrightarrow> t0_late t \<or> t0_picker t = Some q"
  shows "t0_inv seen n (releaseTotal q (t\<lparr>t0_drainer := DIdle, t0_late := l\<rparr>))" "q \<in> seen"
proof -
  have "parked_ok (t\<lparr>t0_drainer := DIdle, t0_late := l\<rparr>)" using inv by (auto simp: t0_inv_def parked_ok_def)
  then show "t0_inv seen n (releaseTotal q (t\<lparr>t0_drainer := DIdle, t0_late := l\<rparr>))" "q \<in> seen"
    using leave_inv [OF inv, of q "t\<lparr>t0_drainer := DIdle, t0_late := l\<rparr>"] d l by (auto simp: holders_def)
qed

lemma choice_inv:
  assumes inv: "t0_inv seen n t"
  shows "t0_inv seen n (drainTotalOne choice t)"
proof (cases "t0_drainer t")
  case (DHolds q)
  show ?thesis
  proof (cases choice)
    case ToDueHeap
    have "q \<notin> set (t0_ch t)" if "q \<notin> t0_fired t"
      using inv that DHolds count_greater_zero_iff [of "mset (t0_ch t)" q] by (fastforce simp: t0_inv_def once_ok_def holders_def)
    then show ?thesis using inv DHolds ToDueHeap by (auto simp: drainTotalOne_def t0_invs holders_def)
  next
    case ToLane
    then show ?thesis using inv DHolds by (simp add: drainTotalOne_def t0_invs holders_def)
  next
    case GiveUp
    have "t0_picker t \<noteq> Some q" using inv DHolds by (auto simp: t0_inv_def parked_ok_def)
    then show ?thesis using complete_inv [OF drain_inv [OF inv, of q "t0_late t"]] DHolds GiveUp by (simp add: drainTotalOne_def)
  qed
qed (use inv in \<open>simp_all add: drainTotalOne_def\<close>)

lemma releaseTotal_drainer:
  "(releaseTotal q t)\<lparr>t0_drainer := d, t0_late := l\<rparr> = releaseTotal q (t\<lparr>t0_drainer := d, t0_late := l\<rparr>)"
  by (simp add: releaseTotal_def tq_release_def releaseClusterTotal_def)

lemma release_inv: "t0_inv seen n t \<Longrightarrow> t0_inv seen n (drainRelease t)"
  by (cases "t0_drainer t") (auto simp: drainRelease_def releaseTotal_drainer intro: drain_inv(1))

lemma drainLoop_inv:
  assumes "t0_inv seen n t" "t0_ch t = xs"
  shows "t0_inv seen n (drainLoop xs t)"
  using assms
proof (induction xs arbitrary: t)
  case (Cons q rest)
  let ?t = "t\<lparr>t0_ch := rest\<rparr>"
  have "parked_ok ?t" using Cons.prems by (auto simp: t0_inv_def parked_ok_def)
  moreover have "t0_picker t \<noteq> Some q" using Cons.prems by (auto simp: t0_inv_def parked_ok_def)
  ultimately have l: "t0_inv seen n (releaseTotal q ?t)" "q \<in> seen"
    using leave_inv [OF Cons.prems(1), of q ?t] Cons.prems(2) by (simp_all add: holders_def)
  have "t0_ch (t0_complete q (releaseTotal q ?t)) = rest"
    by (simp add: t0_complete_def releaseTotal_def releaseClusterTotal_def tq_release_def)
  then show ?case using Cons.IH complete_inv [OF l] by simp
qed simp

lemma due_inv:
  assumes inv: "t0_inv seen n t"
  shows "t0_inv seen n (onScheduledDue q leaving t)"
proof (cases "q \<in> set (t0_parked t) \<and> t0_picker t = None")
  case True
  let ?t = "t\<lparr>t0_parked := remove1 q (t0_parked t), t0_fired := insert q (t0_fired t)\<rparr>"
  have q: "q \<in> seen" "q \<notin> t0_fired t" using inv True by (auto simp: t0_inv_def seen_ok_def parked_ok_def)
  have t: "t0_inv seen n ?t" using inv True by (auto simp: t0_invs holders_def)
  have nd: "set (holders t) \<inter> t0_totalQueueDone t \<subseteq> t0_totalQueueDone t - {q}"
    using inv q(2) by (auto simp: t0_inv_def once_ok_def)
  have same: "set (holders t) - (t0_totalQueueDone t - {q}) = set (holders t) - t0_totalQueueDone t" using nd by blast
  let ?u = "?t\<lparr>t0_totalQueueDone := t0_totalQueueDone ?t - {q}, t0_picker := Some q, t0_late := False\<rparr>"
  have "holders ?u = holders t" by (simp add: holders_def)
  moreover have "q \<notin> set (t0_ch t)" "t0_drainer t \<noteq> DHolds q" using inv True by (auto simp: t0_inv_def parked_ok_def)
  ultimately have "t0_inv seen n ?u" using t True same nd by (auto simp: t0_invs holders_def)
  then show ?thesis using t complete_inv [OF t q(1)] True by (simp add: onScheduledDue_def Let_def)
qed (use inv in \<open>auto simp: onScheduledDue_def\<close>)

lemma dueEnter_inv:
  assumes inv: "t0_inv seen n t"
  shows "t0_inv seen (if overtakes (EDueEnter answer) t then Suc n else n) (dueEnter answer t)"
proof (cases "t0_picker t")
  case None
  then show ?thesis using inv by (simp add: dueEnter_def overtakes_def)
next
  case (Some q)
  let ?t = "t\<lparr>t0_picker := None\<rparr>" and ?D = "t0_totalQueueDone t" and ?H = "set (holders t)"
  have h: "holders ?t = holders t" by (simp add: holders_def)
  have k: "q \<in> t0_fired t" "q \<in> ?H \<longrightarrow> q \<notin> ?D" "q \<notin> set (t0_parked t)" "q \<in> seen" "t0_late t \<longleftrightarrow> q \<in> ?D"
    using inv Some by (auto simp: t0_invs)
  have t: "t0_inv seen n ?t" using inv by (simp add: t0_invs holders_def)
  have le: "int (length (holders ?t)) \<le> t0_queued ?t" using t by (simp add: t0_inv_def slots_ok_def)
  obtain b t' where e: "enterTotal q answer ?t = (b, t')" by fastforce
  show ?thesis
  proof (cases b)
    case True
    then have "t0_inv seen (if q \<in> ?H \<union> ?D then Suc n else n) t'"
      using enter_inv [OF t, of q answer t'] e k h by simp
    moreover have "overtakes (EDueEnter answer) t \<longleftrightarrow> q \<in> ?H \<union> ?D" using True e Some k(5) by (auto simp: overtakes_def)
    ultimately show ?thesis using True e Some by (simp add: dueEnter_def)
  next
    case False
    from enter_cases [OF e le] False obtain a where a: "admitTotal q answer ?t = (a, t')" by metis
    note room = admit_room [OF a]
    let ?u = "t'\<lparr>t0_totalQueueDone := insert q (t0_totalQueueDone t')\<rparr>" and ?n = "if q \<in> ?H then Suc n else n"
    have u: "holders ?u = holders t" "t0_totalQueueDone ?u = insert q ?D" "t0_queued ?u = t0_queued t" "t0_capacity ?u = t0_capacity t"
      "t0_fired ?u = t0_fired t" "t0_picker ?u = None" "t0_parked ?u = t0_parked t" "t0_ch ?u = t0_ch t" "t0_drainer ?u = t0_drainer t"
      "t0_completed ?u = t0_completed t" "t0_late ?u = t0_late t"
      using room by (simp_all add: sameRoom_def holders_def)
    have "card (?H - insert q ?D) = card (?H - ?D) - (if q \<in> ?H then 1 else 0)"
      using k(2) by (simp add: Diff_insert [of ?H q ?D] card_Diff_singleton_if)
    moreover have "q \<in> ?H \<Longrightarrow> 0 < card (?H - ?D)" using k(2) by (auto simp: card_gt_0_iff)
    ultimately have "slots_ok ?n ?u" using inv unfolding t0_inv_def slots_ok_def u by (simp split: if_splits)
    moreover have "once_ok ?u" "parked_ok ?u" using inv k(1) unfolding t0_inv_def once_ok_def parked_ok_def u by auto
    ultimately have r: "slots_ok ?n ?u \<and> once_ok ?u \<and> parked_ok ?u" by blast
    have swap: "releaseClusterTotal q ?u = (releaseClusterTotal q t')\<lparr>t0_totalQueueDone := insert q (t0_totalQueueDone t')\<rparr>"
      by (simp add: releaseClusterTotal_def)
    have "tokens_ok ?n (releaseClusterTotal q t')" using refused_tokens [OF a, of n] t h by (simp add: t0_inv_def split: if_splits)
    then have "tokens_ok ?n (releaseClusterTotal q ?u)" unfolding swap by (simp add: tokens_ok_def holders_def)
    moreover have "seen_ok seen (releaseClusterTotal q ?u)"
      using inv k(4) u sameRoom_holders [OF releaseCluster_room(1) [of ?u q]] releaseCluster_room(1) [of ?u q]
      by (auto simp: t0_inv_def seen_ok_def releaseCluster_room(2) sameRoom_def)
    ultimately have "t0_inv seen ?n (releaseClusterTotal q ?u)" using sameRoom_inv [OF releaseCluster_room(1) r] by blast
    then show ?thesis using complete_inv [OF _ k(4)] False e Some k(2,5) by (auto simp: dueEnter_def overtakes_def)
  qed
qed

lemma overtakes_other [simp]:
  "\<not> overtakes EDrainRecv t" "\<not> overtakes (EDrain choice) t" "\<not> overtakes EDrainRelease t" "\<not> overtakes (EDue q leaving) t"
  "\<not> overtakes EResidue t" "\<not> overtakes (ESubmit q answer) t" "\<not> overtakes (ECancel q) t"
  by (simp_all add: overtakes_def split: option.split)

lemma t0_next_inv:
  assumes "t0_next (seen, n, t) (seen', n', t')" "t0_inv seen n t"
  shows "t0_inv seen' n' t'"
  using assms(1)
proof cases
  case (t0_submit q answer)
  then show ?thesis using submit_inv [OF assms(2)] by (simp add: t0_step_def)
next
  case (t0_cancel q)
  then show ?thesis using complete_inv [OF assms(2)] by (simp add: t0_step_def)
next
  case (t0_other e)
  show ?thesis
    using t0_other recv_inv [OF assms(2)] choice_inv [OF assms(2)] release_inv [OF assms(2)] due_inv [OF assms(2)]
      dueEnter_inv [OF assms(2)] drainLoop_inv [OF assms(2) refl]
    by (cases e) (simp_all add: t0_step_def drainTotalQueueResidue_def)
qed

lemma t0_reach_inv: "t0_reach capacity active seen n t \<Longrightarrow> t0_inv seen n t"
proof (induction "(seen, n, t)" arbitrary: seen n t rule: rtranclp_induct)
  case base
  show ?case by (simp add: t0_invs newTotalExecutionQueue_def holders_def)
next
  case (step y)
  obtain s1 n1 t1 where y: "y = (s1, n1, t1)" by (cases y)
  show ?case by (rule t0_next_inv [OF step(2) [unfolded y] step(3) [OF y]])
qed

lemma capacity_frame [simp]:
  "t0_capacity (t0_complete q t) = t0_capacity t" "t0_capacity (releaseTotal q t) = t0_capacity t"
  "t0_capacity (releaseClusterTotal q t) = t0_capacity t" "t0_capacity (drainLoop qs t) = t0_capacity t"
proof -
  show *: "t0_capacity (t0_complete q t) = t0_capacity t" "t0_capacity (releaseTotal q t) = t0_capacity t"
    "t0_capacity (releaseClusterTotal q t) = t0_capacity t" for q t
    by (simp_all add: t0_complete_def releaseTotal_def releaseClusterTotal_def tq_release_def)
  show "t0_capacity (drainLoop qs t) = t0_capacity t" by (induction qs t rule: drainLoop.induct) (simp_all add: *)
qed

lemma enter_capacity: "t0_capacity (snd (enterTotal q answer t)) = t0_capacity t"
  by (simp add: enterTotal_def admitTotal_def tryEnqueue_def split: backendAnswer.split)

lemma step_capacity: "t0_capacity (t0_step e t) = t0_capacity t"
proof (cases e)
  case (ESubmit q answer)
  then show ?thesis using enter_capacity [of q answer t] by (simp add: t0_step_def Submit_def split_beta)
next
  case (EDueEnter answer)
  have "t0_capacity t' = t0_capacity t" if "enterTotal q answer (t\<lparr>t0_picker := None\<rparr>) = (ok, t')" for q ok t'
    using enter_capacity [of q answer "t\<lparr>t0_picker := None\<rparr>"] that by simp
  then show ?thesis using EDueEnter by (auto simp: t0_step_def dueEnter_def split: option.split prod.split bool.split)
qed (simp_all add: t0_step_def drainRecv_def drainTotalOne_def drainRelease_def drainTotalQueueResidue_def onScheduledDue_def Let_def
    split: drainer.split list.split drainChoice.split)

lemma t0_run_mono:
  "t0_next\<^sup>*\<^sup>* (seen, n, t) (seen', n', t') \<Longrightarrow> n \<le> n' \<and> t0_capacity t' = t0_capacity t"
proof (induction "(seen', n', t')" arbitrary: seen' n' t' rule: rtranclp_induct)
  case (step y)
  obtain s1 n1 t1 where y: "y = (s1, n1, t1)" by (cases y)
  have "n1 \<le> n' \<and> t0_capacity t' = t0_capacity t1" using step(2) unfolding y by cases (auto simp: step_capacity)
  then show ?case using step(3) [OF y] by simp
qed simp

text \<open>
  C14.
  Tier-0 accounting, over every interleaving of submissions, cancellations, the drainer, the due picker
  and shutdown: the counter is the number of requests in the room whose slot is still to be given back,
  plus one for each time a due timer has overtaken the release that follows the parking. It covers the
  requests in the room, never exceeds the capacity, and a request enters exactly while it is below the
  capacity (the channel send never fails). Cluster admissions minus releases are the tokens held, all by
  requests in the room, up to one token lost per overtaking. Where no timer overtakes the drainer, both
  accounts are exact.
\<close>

theorem tier0_slots_exact:
  assumes "t0_reach capacity active seen n t"
  shows "t0_queued t = int (card (set (holders t) - t0_totalQueueDone t) + n)
    \<and> int (length (holders t)) \<le> t0_queued t \<and> t0_queued t \<le> (if capacity \<le> 0 then 1000 else capacity)
    \<and> (fst (tryEnqueue q t) \<longleftrightarrow> t0_queued t < t0_capacity t)
    \<and> t0_clusterTotal t \<subseteq> set (holders t) \<and> int (card (t0_clusterTotal t)) \<le> t0_admitted t - t0_released t
    \<and> t0_admitted t - t0_released t \<le> int (card (t0_clusterTotal t) + n)
    \<and> (n = 0 \<longrightarrow> t0_queued t = int (length (holders t)) \<and> t0_admitted t - t0_released t = int (card (t0_clusterTotal t)))"
proof -
  note inv = t0_reach_inv [OF assms]
  have cap: "t0_capacity t = (if capacity \<le> 0 then 1000 else capacity)"
    using t0_run_mono [OF assms] by (simp add: newTotalExecutionQueue_def)
  have ch: "length (t0_ch t) \<le> length (holders t)" by (simp add: holders_def)
  have "card (set (holders t) - t0_totalQueueDone t) \<le> length (holders t)"
    by (metis List.finite_set card_length card_mono Diff_subset le_trans)
  then show ?thesis using inv cap ch by (auto simp: t0_inv_def slots_ok_def tokens_ok_def tryEnqueue_def)
qed

lemmas t0_eval = t0_step_def drainRecv_def Submit_def enterTotal_def admitTotal_def tryEnqueue_def newTotalExecutionQueue_def
  drainTotalOne_def onScheduledDue_def dueEnter_def drainRelease_def releaseTotal_def tq_release_def releaseClusterTotal_def
  t0_complete_def holders_def overtakes_def Let_def

lemma t0_run_step:
  assumes "t0_next\<^sup>*\<^sup>* x (seen, n, t)" "\<forall>q answer. e \<noteq> ESubmit q answer \<and> e \<noteq> ECancel q"
    "t' = t0_step e t" "n' = (if overtakes e t then Suc n else n)"
  shows "t0_next\<^sup>*\<^sup>* x (seen, n', t')"
  using rtranclp.rtrancl_into_rtrancl [OF assms(1) t0_other [OF assms(2)]] assms(3,4) by simp

lemma tier0_slots_exact_witness:
  "t0_queued (t0_step EDrainRecv (t0_step (ESubmit (7::nat) BackendToken) (newTotalExecutionQueue 1 True))) = 1"
proof -
  have "t0_reach 1 True {7::nat} 0 (t0_step (ESubmit 7 BackendToken) (newTotalExecutionQueue 1 True))"
    by (rule r_into_rtranclp) (rule t0_submit, simp)
  then have "t0_reach 1 True {7::nat} 0 (t0_step EDrainRecv (t0_step (ESubmit 7 BackendToken) (newTotalExecutionQueue 1 True)))"
    by (rule t0_run_step [where e = EDrainRecv]) simp_all
  from tier0_slots_exact [OF this] show ?thesis by (simp add: t0_eval)
qed

section \<open>Lost slots\<close>

text \<open>The timer of a parked request fires before the drainer has released its slot, and admits it after that.\<close>

lemma overtaken_once:
  fixes q :: nat
  assumes "t0_next\<^sup>*\<^sup>* x (seen, n, t)" "q \<notin> seen" "t0_inv seen n t"
    and t: "t0_ch t = []" "t0_drainer t = DIdle" "t0_parked t = []" "t0_picker t = None" "\<not> t0_clusterActive t" "t0_queued t < t0_capacity t"
  shows "\<exists>t'. t0_next\<^sup>*\<^sup>* x (insert q seen, Suc n, t') \<and> t0_ch t' = [] \<and> t0_drainer t' = DIdle \<and> t0_parked t' = [] \<and> t0_picker t' = None
    \<and> \<not> t0_clusterActive t'"
proof -
  have q: "q \<notin> t0_totalQueueDone t" "q \<notin> t0_fired t" "q \<notin> t0_completed t" "q \<notin> t0_clusterTotal t" and c: "0 < t0_capacity t"
    using assms(2,3) t by (auto simp: t0_invs holders_def)
  let ?S = "insert q seen"
  have 1: "t0_next\<^sup>*\<^sup>* x (?S, n, t0_step (ESubmit q BackendFree) t)"
    using assms(1) t0_submit [OF assms(2)] by (rule rtranclp.rtrancl_into_rtrancl)
  let ?t1 = "t\<lparr>t0_queued := t0_queued t + 1, t0_ch := [q]\<rparr>"
  have s1: "t0_step (ESubmit q BackendFree) t = ?t1" using t c by (simp add: t0_eval)
  have 2: "t0_next\<^sup>*\<^sup>* x (?S, n, ?t1\<lparr>t0_ch := [], t0_drainer := DHolds q\<rparr>)"
    by (rule t0_run_step [OF 1 [unfolded s1], of EDrainRecv]) (use t in \<open>simp_all add: t0_eval\<close>)
  have 3: "t0_next\<^sup>*\<^sup>* x (?S, n, ?t1\<lparr>t0_ch := [], t0_drainer := DReleases q, t0_parked := [q]\<rparr>)"
    by (rule t0_run_step [OF 2, of "EDrain ToDueHeap"]) (use t q in \<open>simp_all add: t0_eval\<close>)
  let ?t4 = "?t1\<lparr>t0_ch := [], t0_drainer := DReleases q, t0_parked := [], t0_fired := insert q (t0_fired t), t0_picker := Some q,
      t0_late := False\<rparr>"
  have 4: "t0_next\<^sup>*\<^sup>* x (?S, n, ?t4)"
    by (rule t0_run_step [OF 3, of "EDue q False"]) (use t q in \<open>simp_all add: t0_eval\<close>)
  let ?t5 = "?t4\<lparr>t0_queued := t0_queued t, t0_drainer := DIdle, t0_totalQueueDone := insert q (t0_totalQueueDone t), t0_late := True\<rparr>"
  have 5: "t0_next\<^sup>*\<^sup>* x (?S, n, ?t5)"
    by (rule t0_run_step [OF 4, of EDrainRelease]) (use t q in \<open>simp_all add: t0_eval\<close>)
  let ?t6 = "?t5\<lparr>t0_picker := None, t0_queued := t0_queued t + 1, t0_ch := [q]\<rparr>"
  have 6: "t0_next\<^sup>*\<^sup>* x (?S, Suc n, ?t6)"
    by (rule t0_run_step [OF 5, of "EDueEnter BackendFree"]) (use t q c in \<open>simp_all add: t0_eval\<close>)
  have 7: "t0_next\<^sup>*\<^sup>* x (?S, Suc n, ?t6\<lparr>t0_ch := [], t0_drainer := DHolds q\<rparr>)"
    by (rule t0_run_step [OF 6, of EDrainRecv]) (use t in \<open>simp_all add: t0_eval\<close>)
  have 8: "t0_next\<^sup>*\<^sup>* x (?S, Suc n, ?t6\<lparr>t0_ch := [], t0_drainer := DReleases q, t0_lanes := t0_lanes t @ [q]\<rparr>)"
    by (rule t0_run_step [OF 7, of "EDrain ToLane"]) (use t in \<open>simp_all add: t0_eval\<close>)
  have 9: "t0_next\<^sup>*\<^sup>* x (?S, Suc n, ?t6\<lparr>t0_ch := [], t0_drainer := DIdle, t0_lanes := t0_lanes t @ [q]\<rparr>)"
    by (rule t0_run_step [OF 8, of EDrainRelease]) (use t q in \<open>simp_all add: t0_eval\<close>)
  show ?thesis by (rule exI, rule conjI [OF 9]) (use t in simp)
qed

text \<open>
  C37.
  Overtakings close the room for good, whatever its capacity: some run of as many scheduled requests as
  the room has slots ends with the room empty, every request handed to its lane, and from then on, however
  the system goes on, every submission is refused.
\<close>

theorem early_due_closes_room:
  fixes capacity :: int
  assumes "0 < capacity"
  shows "\<exists>(seen :: nat set) t. t0_reach capacity False seen (nat capacity) t \<and> holders t = [] \<and> t0_parked t = []
    \<and> (\<forall>seen' n' t' q answer. t0_next\<^sup>*\<^sup>* (seen, nat capacity, t) (seen', n', t') \<longrightarrow> \<not> fst (Submit q answer t'))"
proof -
  have "\<exists>(seen :: nat set) t. finite seen \<and> t0_reach capacity False seen k t \<and> t0_ch t = [] \<and> t0_drainer t = DIdle
      \<and> t0_parked t = [] \<and> t0_picker t = None \<and> \<not> t0_clusterActive t" if "int k \<le> capacity" for k
    using that
  proof (induction k)
    case 0
    show ?case by (intro exI conjI, rule finite.emptyI, rule rtranclp.rtrancl_refl) (simp_all add: newTotalExecutionQueue_def)
  next
    case (Suc k)
    then obtain seen :: "nat set" and t where s: "finite seen" "t0_reach capacity False seen k t" "t0_ch t = []" "t0_drainer t = DIdle"
      "t0_parked t = []" "t0_picker t = None" "\<not> t0_clusterActive t" by auto
    obtain q where q: "q \<notin> seen" using ex_new_if_finite [OF infinite_UNIV_nat s(1)] by blast
    note inv = t0_reach_inv [OF s(2)]
    have "t0_queued t < t0_capacity t"
      using inv s(3,4) Suc.prems assms t0_run_mono [OF s(2)] by (simp add: t0_inv_def slots_ok_def holders_def newTotalExecutionQueue_def)
    then show ?case using overtaken_once [OF s(2) q inv s(3-7)] s(1) by blast
  qed
  from this [of "nat capacity"] assms obtain seen :: "nat set" and t where r: "t0_reach capacity False seen (nat capacity) t"
    and e: "t0_ch t = []" "t0_drainer t = DIdle" "t0_parked t = []" by auto
  have "\<not> fst (Submit q answer t')" if run: "t0_next\<^sup>*\<^sup>* (seen, nat capacity, t) (seen', n', t')" for seen' n' t' q answer
  proof -
    have r': "t0_reach capacity False seen' n' t'" using r run by (rule rtranclp_trans)
    have "capacity \<le> t0_queued t'" "t0_capacity t' = capacity"
      using t0_reach_inv [OF r'] t0_run_mono [OF run] t0_run_mono [OF r'] assms by (auto simp: t0_inv_def slots_ok_def newTotalExecutionQueue_def)
    then show ?thesis by (simp add: Submit_def enterTotal_def admitTotal_def tryEnqueue_def split: backendAnswer.split)
  qed
  then show ?thesis using r e by (intro exI [of _ seen] exI [of _ t]) (auto simp: holders_def)
qed

theorem early_due_closes_room_witness:
  "\<exists>(seen :: nat set) t. t0_reach 1000 False seen 1000 t \<and> holders t = [] \<and> \<not> fst (Submit 0 BackendFree t)"
proof -
  obtain seen :: "nat set" and t where "t0_reach 1000 False seen 1000 t" "holders t = []"
    "\<forall>seen' n' t' q answer. t0_next\<^sup>*\<^sup>* (seen, 1000, t) (seen', n', t') \<longrightarrow> \<not> fst (Submit q answer t')"
    using early_due_closes_room [of 1000] by auto
  then show ?thesis by (meson rtranclp.rtrancl_refl)
qed
end
