(* ===== verification/CredForwarder.thy ===== *)
theory CredForwarder
  imports Prelude
begin

text \<open>
  The Tier-2 queue of one credential: \<open>credForwarder\<close> of \<open>forwarder.go\<close> with \<open>tryReserve\<close>,
  \<open>HasCapacity\<close>, the receive and hand-over of \<open>loop\<close> and \<open>dispatchOne\<close>, \<open>drainAndComplete\<close>,
  \<open>replaceDepth\<close> and \<open>reclaimPendingOld\<close>, and the producer side \<open>tryEnqueueCred\<close> of \<open>pipeline.go\<close>
  with the lane token of \<open>queue_admission.go\<close>. Buffered channels are allocated at increasing
  addresses and never freed; \<open>cf_queue\<close> and \<open>cf_pendingOld\<close> are the two atomic pointers. A producer
  is in \<open>cf_senders\<close> from its reservation to its send, with the channel it has loaded: the pointer
  may be swapped in between. The loops of \<open>replaceDepth\<close> and \<open>reclaimPendingOld\<close> are one step each;
  governor admission is the step \<open>acquired\<close>, with its verdict as the argument. A channel of capacity
  zero never accepts here (a non-blocking send needs a receiver parked at that instant).
\<close>

section \<open>State\<close>

record 'q credForwarder =
  cf_chans :: "(int \<times> 'q list) list"
  cf_queue :: nat
  cf_pendingOld :: "nat option"
  cf_depth :: int
  cf_limit :: int
  cf_senders :: "('q \<times> nat option) list"
  cf_current :: "'q option"
  cf_clusterCred :: "'q set"
  cf_reserved :: int
  cf_returned :: int
  cf_entered :: "'q list"
  cf_forwarded :: "'q list"
  cf_failed :: "'q list"
  cf_refused :: "'q list"

definition newCredForwarder :: "int \<Rightarrow> 'q credForwarder" where
  "newCredForwarder queueDepth = \<lparr>cf_chans = [(queueDepth, [])], cf_queue = 0, cf_pendingOld = None, cf_depth = 0, cf_limit = queueDepth,
     cf_senders = [], cf_current = None, cf_clusterCred = {}, cf_reserved = 0, cf_returned = 0, cf_entered = [],
     cf_forwarded = [], cf_failed = [], cf_refused = []\<rparr>"

abbreviation buffer :: "'q credForwarder \<Rightarrow> nat \<Rightarrow> 'q list" where "buffer cf c \<equiv> snd (cf_chans cf ! c)"

definition setBuffer :: "nat \<Rightarrow> 'q list \<Rightarrow> 'q credForwarder \<Rightarrow> 'q credForwarder" where
  "setBuffer c xs cf = cf\<lparr>cf_chans := (cf_chans cf)[c := (fst (cf_chans cf ! c), xs)]\<rparr>"

definition roomIn :: "'q credForwarder \<Rightarrow> nat \<Rightarrow> bool" where
  "roomIn cf c \<longleftrightarrow> int (length (buffer cf c)) < fst (cf_chans cf ! c)"

section \<open>Operations\<close>

definition tryReserve :: "'q credForwarder \<Rightarrow> bool \<times> 'q credForwarder" where
  "tryReserve cf = (if 0 < cf_limit cf \<and> cf_limit cf \<le> cf_depth cf then (False, cf) else (True, cf\<lparr>cf_depth := cf_depth cf + 1\<rparr>))"

definition HasCapacity :: "'q credForwarder \<Rightarrow> bool" where
  "HasCapacity cf \<longleftrightarrow> cf_limit cf \<le> 0 \<or> cf_depth cf < cf_limit cf"

definition reserveLane :: "'q \<Rightarrow> bool \<Rightarrow> 'q credForwarder \<Rightarrow> 'q credForwarder" where
  "reserveLane q counted cf = (if counted then cf\<lparr>cf_clusterCred := insert q (cf_clusterCred cf), cf_reserved := cf_reserved cf + 1\<rparr> else cf)"

definition releaseLaneAdmission :: "'q \<Rightarrow> 'q credForwarder \<Rightarrow> 'q credForwarder" where
  "releaseLaneAdmission q cf = (if q \<in> cf_clusterCred cf
     then cf\<lparr>cf_clusterCred := cf_clusterCred cf - {q}, cf_returned := cf_returned cf + 1\<rparr> else cf)"

text \<open>
  \<open>tryEnqueueCred\<close> up to the reservation; \<open>lane\<close> is \<open>None\<close> when the cluster lane refuses, otherwise
  whether the backend counts the slot. Then the load of the channel pointer, then the send.
\<close>

definition enqReserve :: "'q \<Rightarrow> bool option \<Rightarrow> 'q credForwarder \<Rightarrow> 'q credForwarder" where
  "enqReserve q lane cf =
     (case lane of None \<Rightarrow> cf
      | Some counted \<Rightarrow>
        (case tryReserve (reserveLane q counted cf) of
           (True, cf1) \<Rightarrow> cf1\<lparr>cf_senders := cf_senders cf1 @ [(q, None)], cf_entered := cf_entered cf1 @ [q]\<rparr>
         | (False, cf1) \<Rightarrow> releaseLaneAdmission q cf1))"

definition enqLoad :: "'q \<Rightarrow> 'q credForwarder \<Rightarrow> 'q credForwarder" where
  "enqLoad q cf = (if map_of (cf_senders cf) q = Some None
     then cf\<lparr>cf_senders := AList.update q (Some (cf_queue cf)) (cf_senders cf)\<rparr> else cf)"

definition enqSend :: "'q \<Rightarrow> 'q credForwarder \<Rightarrow> 'q credForwarder" where
  "enqSend q cf =
     (case map_of (cf_senders cf) q of
        Some (Some c) \<Rightarrow>
          let cf1 = cf\<lparr>cf_senders := AList.delete q (cf_senders cf)\<rparr>
          in if roomIn cf1 c then setBuffer c (buffer cf1 c @ [q]) cf1
             else releaseLaneAdmission q (cf1\<lparr>cf_depth := cf_depth cf1 - 1, cf_refused := cf_refused cf1 @ [q]\<rparr>)
      | _ \<Rightarrow> cf)"

text \<open>The loop of \<open>reclaimPendingOld\<close> over the displaced channel \<open>po\<close>.\<close>

fun reclaimMove :: "nat \<Rightarrow> 'q list \<Rightarrow> 'q credForwarder \<Rightarrow> 'q credForwarder" where
  "reclaimMove po [] cf = cf"
| "reclaimMove po (q # rest) cf =
     (let cf1 = setBuffer po rest cf
      in reclaimMove po rest
        (if roomIn cf1 (cf_queue cf1) then setBuffer (cf_queue cf1) (buffer cf1 (cf_queue cf1) @ [q]) cf1
         else (releaseLaneAdmission q cf1)\<lparr>cf_depth := cf_depth cf1 - 1, cf_failed := cf_failed cf1 @ [q]\<rparr>))"

definition reclaimPendingOld :: "'q credForwarder \<Rightarrow> 'q credForwarder" where
  "reclaimPendingOld cf = (case cf_pendingOld cf of None \<Rightarrow> cf
     | Some po \<Rightarrow> reclaimMove po (buffer cf po) (cf\<lparr>cf_pendingOld := None\<rparr>))"

definition recvOne :: "'q credForwarder \<Rightarrow> 'q credForwarder" where
  "recvOne cf = (case (cf_current cf, buffer cf (cf_queue cf)) of
     (None, q # rest) \<Rightarrow> releaseLaneAdmission q ((setBuffer (cf_queue cf) rest cf)\<lparr>cf_current := Some q\<rparr>) | _ \<Rightarrow> cf)"

definition dispatched :: "bool \<Rightarrow> 'q credForwarder \<Rightarrow> 'q credForwarder" where
  "dispatched acquired cf = (case cf_current cf of None \<Rightarrow> cf
     | Some q \<Rightarrow> let cf1 = cf\<lparr>cf_current := None, cf_depth := cf_depth cf - 1\<rparr>
         in if acquired then cf1\<lparr>cf_forwarded := cf_forwarded cf1 @ [q]\<rparr> else cf1\<lparr>cf_failed := cf_failed cf1 @ [q]\<rparr>)"

fun drainLive :: "'q list \<Rightarrow> 'q credForwarder \<Rightarrow> 'q credForwarder" where
  "drainLive [] cf = cf"
| "drainLive (q # rest) cf = drainLive rest (let cf1 = releaseLaneAdmission q (setBuffer (cf_queue cf) rest cf)
     in cf1\<lparr>cf_depth := cf_depth cf1 - 1, cf_failed := cf_failed cf1 @ [q]\<rparr>)"

definition drainAndComplete :: "'q credForwarder \<Rightarrow> 'q credForwarder" where
  "drainAndComplete cf = (let cf1 = reclaimPendingOld cf in drainLive (buffer cf1 (cf_queue cf1)) cf1)"

definition replaceDepth :: "int \<Rightarrow> 'q credForwarder \<Rightarrow> 'q credForwarder" where
  "replaceDepth newDepth cf =
     (let n = (if newDepth \<le> 0 then 1 else newDepth); old = cf_queue cf
      in if n \<le> fst (cf_chans cf ! old) then cf\<lparr>cf_limit := n\<rparr>
         else (setBuffer old [] cf)\<lparr>cf_chans := cf_chans (setBuffer old [] cf) @ [(n, buffer cf old)], cf_queue := length (cf_chans cf),
                 cf_limit := n, cf_pendingOld := Some old\<rparr>)"

section \<open>Interleavings\<close>

datatype 'q fwEvent = FReserve 'q "bool option" | FLoad 'q | FSend 'q | FReclaim | FRecv | FDispatched bool
  | FReplaceDepth int | FSweep 'q | FShutdown

text \<open>The requests that the forwarder has accepted and not yet let go.\<close>

definition inside :: "'q credForwarder \<Rightarrow> 'q list" where
  "inside cf = map fst (cf_senders cf) @ concat (map snd (cf_chans cf)) @ (case cf_current cf of None \<Rightarrow> [] | Some q \<Rightarrow> [q])"

text \<open>A request waits in one place at a time, so it is not offered again while it is inside. Its completion,
  which may come at any time, sweeps the admission it still holds (\<open>releaseAllClusterAdmissions\<close> in
  \<open>complete\<close>); the request itself stays where it waits.\<close>

definition fw_step :: "'q fwEvent \<Rightarrow> 'q credForwarder \<Rightarrow> 'q credForwarder" where
  "fw_step e cf = (case e of
     FReserve q lane \<Rightarrow> if q \<in> set (inside cf) then cf else enqReserve q lane cf
   | FLoad q \<Rightarrow> enqLoad q cf
   | FSend q \<Rightarrow> enqSend q cf
   | FReclaim \<Rightarrow> reclaimPendingOld cf
   | FRecv \<Rightarrow> recvOne cf
   | FDispatched acquired \<Rightarrow> dispatched acquired cf
   | FReplaceDepth n \<Rightarrow> replaceDepth n cf
   | FSweep q \<Rightarrow> releaseLaneAdmission q cf
   | FShutdown \<Rightarrow> drainAndComplete cf)"

section \<open>Buffers as multisets\<close>

definition bufs :: "'q credForwarder \<Rightarrow> 'q multiset" where
  "bufs cf = mset (concat (map snd (cf_chans cf)))"

lemma concat_upd:
  "c < length chs \<Longrightarrow> mset (concat (map snd (chs[c := (k, xs)]))) + mset (snd (chs ! c)) = mset (concat (map snd chs)) + mset xs"
proof (induction chs arbitrary: c)
  case (Cons ch chs)
  then show ?case by (cases c) (auto simp: union_ac)
qed simp

lemma bufs_push: "c < length (cf_chans cf) \<Longrightarrow> bufs (setBuffer c (buffer cf c @ [q]) cf) = add_mset q (bufs cf)"
  using concat_upd [of c "cf_chans cf" "fst (cf_chans cf ! c)" "buffer cf c @ [q]"] by (simp add: bufs_def setBuffer_def union_ac)

lemma bufs_pop: "c < length (cf_chans cf) \<Longrightarrow> buffer cf c = q # rest \<Longrightarrow> bufs cf = add_mset q (bufs (setBuffer c rest cf))"
  using concat_upd [of c "cf_chans cf" "fst (cf_chans cf ! c)" rest] by (simp add: bufs_def setBuffer_def)

lemma setBuffer_frame [simp]:
  "cf_queue (setBuffer c xs cf) = cf_queue cf" "cf_pendingOld (setBuffer c xs cf) = cf_pendingOld cf"
  "cf_depth (setBuffer c xs cf) = cf_depth cf" "cf_limit (setBuffer c xs cf) = cf_limit cf"
  "cf_senders (setBuffer c xs cf) = cf_senders cf" "cf_current (setBuffer c xs cf) = cf_current cf"
  "cf_clusterCred (setBuffer c xs cf) = cf_clusterCred cf" "cf_reserved (setBuffer c xs cf) = cf_reserved cf"
  "cf_returned (setBuffer c xs cf) = cf_returned cf" "cf_entered (setBuffer c xs cf) = cf_entered cf"
  "cf_forwarded (setBuffer c xs cf) = cf_forwarded cf" "cf_failed (setBuffer c xs cf) = cf_failed cf"
  "cf_refused (setBuffer c xs cf) = cf_refused cf" "length (cf_chans (setBuffer c xs cf)) = length (cf_chans cf)"
  "c < length (cf_chans cf) \<Longrightarrow> cf_chans (setBuffer c xs cf) ! c = (fst (cf_chans cf ! c), xs)"
  "d \<noteq> c \<Longrightarrow> cf_chans (setBuffer c xs cf) ! d = cf_chans cf ! d"
  by (simp_all add: setBuffer_def)

lemma release_frame [simp]:
  "cf_queue (releaseLaneAdmission q cf) = cf_queue cf" "cf_pendingOld (releaseLaneAdmission q cf) = cf_pendingOld cf"
  "cf_depth (releaseLaneAdmission q cf) = cf_depth cf" "cf_limit (releaseLaneAdmission q cf) = cf_limit cf"
  "cf_senders (releaseLaneAdmission q cf) = cf_senders cf" "cf_current (releaseLaneAdmission q cf) = cf_current cf"
  "cf_clusterCred (releaseLaneAdmission q cf) = cf_clusterCred cf - {q}" "cf_entered (releaseLaneAdmission q cf) = cf_entered cf"
  "cf_forwarded (releaseLaneAdmission q cf) = cf_forwarded cf" "cf_failed (releaseLaneAdmission q cf) = cf_failed cf"
  "cf_refused (releaseLaneAdmission q cf) = cf_refused cf" "cf_chans (releaseLaneAdmission q cf) = cf_chans cf"
  "cf_reserved (releaseLaneAdmission q cf) = cf_reserved cf"
  "cf_returned (releaseLaneAdmission q cf) = cf_returned cf + (if q \<in> cf_clusterCred cf then 1 else 0)"
  by (simp_all add: releaseLaneAdmission_def)

section \<open>Invariant\<close>

definition currentM :: "'q credForwarder \<Rightarrow> 'q multiset" where
  "currentM cf = (case cf_current cf of None \<Rightarrow> {#} | Some q \<Rightarrow> {#q#})"

definition waitingM :: "'q credForwarder \<Rightarrow> 'q multiset" where
  "waitingM cf = mset (map fst (cf_senders cf)) + bufs cf"

definition insideM :: "'q credForwarder \<Rightarrow> 'q multiset" where
  "insideM cf = waitingM cf + currentM cf"

definition goneM :: "'q credForwarder \<Rightarrow> 'q multiset" where
  "goneM cf = mset (cf_forwarded cf) + mset (cf_failed cf) + mset (cf_refused cf)"

lemma inside_mset: "mset (inside cf) = insideM cf"
  by (simp add: inside_def insideM_def waitingM_def bufs_def currentM_def split: option.split)

definition fw_balance :: "'q credForwarder \<Rightarrow> bool" where
  "fw_balance cf \<longleftrightarrow> distinct (inside cf) \<and> cf_depth cf = int (size (insideM cf)) \<and> mset (cf_entered cf) = insideM cf + goneM cf"

definition fw_shape :: "'q credForwarder \<Rightarrow> bool" where
  "fw_shape cf \<longleftrightarrow> cf_queue cf < length (cf_chans cf) \<and>
     (\<forall>p. cf_pendingOld cf = Some p \<longrightarrow> p < length (cf_chans cf) \<and> p \<noteq> cf_queue cf) \<and>
     (\<forall>q c. (q, Some c) \<in> set (cf_senders cf) \<longrightarrow> c < length (cf_chans cf)) \<and>
     (\<forall>c < length (cf_chans cf). int (length (buffer cf c)) \<le> fst (cf_chans cf ! c))"

definition fw_tokens :: "'q credForwarder \<Rightarrow> bool" where
  "fw_tokens cf \<longleftrightarrow> cf_clusterCred cf \<subseteq> set_mset (waitingM cf) \<and>
     cf_reserved cf - cf_returned cf = int (card (cf_clusterCred cf))"

definition fw_inv :: "'q credForwarder \<Rightarrow> bool" where
  "fw_inv cf \<longleftrightarrow> fw_balance cf \<and> fw_shape cf \<and> fw_tokens cf"

lemma fw_tokens_finite: "fw_tokens cf \<Longrightarrow> finite (cf_clusterCred cf)"
  unfolding fw_tokens_def by (meson finite_set_mset finite_subset)

text \<open>A step that keeps the requests inside, and a step that lets one of them go.\<close>

lemma keep_balance:
  assumes "fw_balance cf" "insideM cf' = insideM cf" "cf_depth cf' = cf_depth cf" "cf_entered cf' = cf_entered cf" "goneM cf' = goneM cf"
  shows "fw_balance cf'"
  using assms mset_eq_imp_distinct_iff [of "inside cf" "inside cf'"] by (simp add: fw_balance_def inside_mset)

lemma leave_balance:
  assumes "fw_balance cf" "insideM cf = add_mset q (insideM cf')" "cf_depth cf' = cf_depth cf - 1" "cf_entered cf' = cf_entered cf"
    "goneM cf' = add_mset q (goneM cf)"
  shows "fw_balance cf'"
proof -
  have "distinct (inside cf')"
    using assms(1,2) mset_eq_imp_distinct_iff [of "inside cf" "q # inside cf'"] by (simp add: fw_balance_def inside_mset)
  then show ?thesis using assms by (simp add: fw_balance_def)
qed

lemma keep_tokens:
  assumes "fw_tokens cf" "waitingM cf' = waitingM cf" "cf_clusterCred cf' = cf_clusterCred cf" "cf_reserved cf' = cf_reserved cf"
    "cf_returned cf' = cf_returned cf"
  shows "fw_tokens cf'"
  using assms by (simp add: fw_tokens_def)

lemma leave_tokens:
  assumes "fw_tokens cf" "waitingM cf = add_mset q (waitingM cf')" "cf_clusterCred cf' = cf_clusterCred cf - {q}"
    "cf_reserved cf' = cf_reserved cf" "cf_returned cf' = cf_returned cf + (if q \<in> cf_clusterCred cf then 1 else 0)"
  shows "fw_tokens cf'"
proof -
  have "cf_clusterCred cf' \<subseteq> set_mset (waitingM cf')" using assms(1,2,3) by (auto simp: fw_tokens_def)
  moreover have "int (card (cf_clusterCred cf')) = cf_reserved cf' - cf_returned cf'"
    using assms fw_tokens_finite [OF assms(1)] card_Suc_Diff1 [of "cf_clusterCred cf" q] by (auto simp: fw_tokens_def)
  ultimately show ?thesis by (simp add: fw_tokens_def)
qed

lemma distinct_inside: "fw_balance cf \<Longrightarrow> distinct (map fst (cf_senders cf))"
  by (simp add: fw_balance_def inside_def)

section \<open>Every step keeps the invariant\<close>

lemma mset_keys_delete:
  "distinct (map fst al) \<Longrightarrow> map_of al q = Some v \<Longrightarrow> mset (map fst al) = add_mset q (mset (map fst (AList.delete q al)))"
proof (induction al)
  case (Cons p al)
  then show ?case
  proof (cases "fst p = q")
    case True
    then have "q \<notin> fst ` set al" using Cons.prems by auto
    then show ?thesis using True by (simp add: AList.delete_id)
  next
    case False
    then show ?thesis using Cons by (auto simp: AList.delete_eq)
  qed
qed simp

lemma shape_setBuffer:
  assumes "fw_shape cf" "c < length (cf_chans cf)" "int (length xs) \<le> fst (cf_chans cf ! c)"
  shows "fw_shape (setBuffer c xs cf)"
proof -
  have "int (length (buffer (setBuffer c xs cf) d)) \<le> fst (cf_chans (setBuffer c xs cf) ! d)" if "d < length (cf_chans cf)" for d
    using assms that by (cases "d = c") (simp_all add: fw_shape_def)
  then show ?thesis using assms(1) by (simp add: fw_shape_def)
qed

lemma shape_cong:
  assumes "fw_shape cf" "cf_chans cf' = cf_chans cf" "cf_queue cf' = cf_queue cf" "cf_pendingOld cf' = cf_pendingOld cf"
    "set (cf_senders cf') \<subseteq> set (cf_senders cf)"
  shows "fw_shape cf'"
  using assms by (simp add: fw_shape_def) blast

lemma new_inv: "0 \<le> n \<Longrightarrow> fw_inv (newCredForwarder n)"
  by (simp add: fw_inv_def fw_balance_def fw_shape_def fw_tokens_def newCredForwarder_def inside_def insideM_def waitingM_def goneM_def bufs_def currentM_def)

lemma reserve_inv:
  assumes inv: "fw_inv cf" and q: "q \<notin> set (inside cf)"
  shows "fw_inv (enqReserve q lane cf)"
proof (cases lane)
  case (Some counted)
  let ?cf = "reserveLane q counted cf"
  have qM: "q \<notin># insideM cf" using q by (metis inside_mset set_mset_mset)
  have tok: "q \<notin> cf_clusterCred cf" "finite (cf_clusterCred cf)"
    using inv qM fw_tokens_finite [of cf] by (auto simp: fw_inv_def fw_tokens_def insideM_def waitingM_def)
  show ?thesis
  proof (cases "0 < cf_limit ?cf \<and> cf_limit ?cf \<le> cf_depth ?cf")
    case True
    then have "enqReserve q lane cf = releaseLaneAdmission q ?cf" by (simp add: enqReserve_def Some tryReserve_def)
    moreover have "fw_tokens (releaseLaneAdmission q ?cf)"
      using inv tok by (auto simp: fw_inv_def fw_tokens_def waitingM_def reserveLane_def releaseLaneAdmission_def bufs_def insert_absorb)
    ultimately show ?thesis
      using inv by (simp add: fw_inv_def fw_balance_def fw_shape_def inside_def insideM_def waitingM_def goneM_def bufs_def currentM_def reserveLane_def)
  next
    case False
    let ?r = "?cf\<lparr>cf_depth := cf_depth ?cf + 1, cf_senders := cf_senders ?cf @ [(q, None)], cf_entered := cf_entered ?cf @ [q]\<rparr>"
    have r: "enqReserve q lane cf = ?r" using False by (auto simp: enqReserve_def Some tryReserve_def)
    have m: "insideM ?r = add_mset q (insideM cf)" "goneM ?r = goneM cf"
      by (simp_all add: insideM_def waitingM_def bufs_def currentM_def goneM_def reserveLane_def)
    then have "distinct (inside ?r)"
      using inv q mset_eq_imp_distinct_iff [of "inside ?r" "q # inside cf"] by (simp add: fw_inv_def fw_balance_def inside_mset)
    then have "fw_balance ?r" using inv m by (simp add: fw_inv_def fw_balance_def) (simp add: reserveLane_def)
    moreover have "fw_shape ?r" using inv by (auto simp: fw_inv_def fw_shape_def reserveLane_def)
    moreover have "fw_tokens ?r" using inv tok by (auto simp: fw_inv_def fw_tokens_def waitingM_def reserveLane_def bufs_def)
    ultimately show ?thesis unfolding r by (simp add: fw_inv_def)
  qed
qed (use inv in \<open>simp add: enqReserve_def\<close>)

lemma load_inv:
  assumes "fw_inv cf"
  shows "fw_inv (enqLoad q cf)"
proof (cases "map_of (cf_senders cf) q = Some None")
  case True
  then have keys: "map fst (AList.update q (Some (cf_queue cf)) (cf_senders cf)) = map fst (cf_senders cf)"
    by (metis AList.update_keys domI dom_map_of_conv_image_fst list.set_map)
  have "set (AList.update q v al) \<subseteq> insert (q, v) (set al)" for v :: "nat option" and al :: "('a \<times> nat option) list"
    by (induction al) auto
  then have "fw_shape (enqLoad q cf)"
    using assms True by (simp add: fw_inv_def fw_shape_def enqLoad_def) blast
  then show ?thesis using assms True keys
    by (simp add: enqLoad_def fw_inv_def fw_balance_def fw_tokens_def inside_def insideM_def waitingM_def goneM_def bufs_def currentM_def)
qed (use assms in \<open>simp add: enqLoad_def\<close>)

lemma send_inv:
  assumes inv: "fw_inv cf"
  shows "fw_inv (enqSend q cf)"
proof (cases "\<exists>c. map_of (cf_senders cf) q = Some (Some c)")
  case True
  then obtain c where c: "map_of (cf_senders cf) q = Some (Some c)" by blast
  have cl: "c < length (cf_chans cf)" using inv map_of_SomeD [OF c] by (auto simp: fw_inv_def fw_shape_def)
  have keys: "mset (map fst (cf_senders cf)) = add_mset q (mset (map fst (AList.delete q (cf_senders cf))))"
    using inv distinct_inside [of cf] by (intro mset_keys_delete [OF _ c]) (simp add: fw_inv_def)
  let ?cf = "cf\<lparr>cf_senders := AList.delete q (cf_senders cf)\<rparr>"
  have sub: "set (AList.delete q (cf_senders cf)) \<subseteq> set (cf_senders cf)" by (auto simp: AList.delete_eq)
  have b: "bufs ?cf = bufs cf" by (simp add: bufs_def)
  show ?thesis
  proof (cases "roomIn ?cf c")
    case room: True
    let ?r = "setBuffer c (buffer ?cf c @ [q]) ?cf"
    have r: "enqSend q cf = ?r" using c room by (simp add: enqSend_def Let_def)
    have br: "bufs ?r = add_mset q (bufs cf)" using bufs_push [of c ?cf q] cl b by simp
    have h0: "insideM ?r = insideM cf" using keys br by (simp add: insideM_def waitingM_def currentM_def)
    have "fw_balance ?r" by (rule keep_balance [of cf]) (use h0 inv in \<open>simp_all add: fw_inv_def goneM_def\<close>)
    moreover have "fw_shape ?r"
      by (rule shape_setBuffer) (use inv room cl sub shape_cong [of cf ?cf] in \<open>simp_all add: fw_inv_def roomIn_def\<close>)
    moreover have "fw_tokens ?r" by (rule keep_tokens [of cf]) (use inv keys br in \<open>simp_all add: fw_inv_def waitingM_def\<close>)
    ultimately show ?thesis unfolding r by (simp add: fw_inv_def)
  next
    case full: False
    let ?r = "releaseLaneAdmission q (?cf\<lparr>cf_depth := cf_depth ?cf - 1, cf_refused := cf_refused ?cf @ [q]\<rparr>)"
    have r: "enqSend q cf = ?r" using c full by (simp add: enqSend_def Let_def)
    have br: "bufs ?r = bufs cf" by (simp add: bufs_def)
    have "fw_balance ?r"
      by (rule leave_balance [of cf q]) (use inv keys br in \<open>simp_all add: fw_inv_def insideM_def waitingM_def currentM_def goneM_def\<close>)
    moreover have "fw_shape ?r" by (rule shape_cong [of cf]) (use inv sub in \<open>simp_all add: fw_inv_def\<close>)
    moreover have "fw_tokens ?r"
      by (rule leave_tokens [of cf q]) (use inv keys br in \<open>simp_all add: fw_inv_def waitingM_def\<close>)
    ultimately show ?thesis unfolding r by (simp add: fw_inv_def)
  qed
qed (use inv in \<open>auto simp: enqSend_def split: option.split\<close>)

text \<open>Taking the head of a buffer and letting it go.\<close>

lemma pop_leave_inv:
  assumes inv: "fw_inv cf" and c: "c < length (cf_chans cf)" "buffer cf c = q # rest"
  shows "fw_inv ((releaseLaneAdmission q (setBuffer c rest cf))\<lparr>cf_depth := cf_depth cf - 1, cf_failed := cf_failed cf @ [q]\<rparr>)" (is "fw_inv ?r")
proof -
  have br: "bufs cf = add_mset q (bufs ?r)" using bufs_pop [OF c] by (simp add: bufs_def)
  have "fw_balance ?r"
    by (rule leave_balance [of cf q]) (use inv br in \<open>simp_all add: fw_inv_def insideM_def waitingM_def currentM_def goneM_def\<close>)
  moreover have h1: "int (length rest) \<le> fst (cf_chans cf ! c)" using inv c by (force simp: fw_inv_def fw_shape_def)
  have "fw_shape (setBuffer c rest cf)" by (rule shape_setBuffer) (use h1 inv c(1) in \<open>simp_all add: fw_inv_def\<close>)
  then have "fw_shape ?r" by (rule shape_cong) simp_all
  moreover have "fw_tokens ?r"
    by (rule leave_tokens [of cf q]) (use inv br in \<open>simp_all add: fw_inv_def waitingM_def\<close>)
  ultimately show ?thesis by (simp add: fw_inv_def)
qed

lemma pop_push_inv:
  assumes inv: "fw_inv cf" and c: "c < length (cf_chans cf)" "buffer cf c = q # rest"
    and d: "d < length (cf_chans cf)" "d \<noteq> c" "roomIn cf d"
  shows "fw_inv (setBuffer d (buffer cf d @ [q]) (setBuffer c rest cf))" (is "fw_inv ?r")
proof -
  have br: "bufs ?r = bufs cf" using bufs_pop [OF c] bufs_push [of d "setBuffer c rest cf" q] d by simp
  have "fw_balance ?r" by (rule keep_balance [of cf]) (use inv br in \<open>simp_all add: fw_inv_def insideM_def waitingM_def currentM_def goneM_def\<close>)
  moreover have h2: "int (length rest) \<le> fst (cf_chans cf ! c)" using inv c by (force simp: fw_inv_def fw_shape_def)
  have h3: "fw_shape (setBuffer c rest cf)" by (rule shape_setBuffer) (use h2 inv c(1) in \<open>simp_all add: fw_inv_def\<close>)
  have "fw_shape ?r" by (rule shape_setBuffer) (use h3 d in \<open>simp_all add: roomIn_def\<close>)
  moreover have "fw_tokens ?r" by (rule keep_tokens [of cf]) (use inv br in \<open>simp_all add: fw_inv_def waitingM_def\<close>)
  ultimately show ?thesis by (simp add: fw_inv_def)
qed

lemma reclaimMove_inv:
  assumes "fw_inv cf" "po < length (cf_chans cf)" "po \<noteq> cf_queue cf" "buffer cf po = xs"
  shows "fw_inv (reclaimMove po xs cf)"
  using assms
proof (induction xs arbitrary: cf)
  case (Cons q rest)
  let ?cf = "setBuffer po rest cf"
  have live: "cf_queue cf < length (cf_chans cf)" using Cons.prems(1) by (simp add: fw_inv_def fw_shape_def)
  have room: "roomIn ?cf (cf_queue ?cf) \<longleftrightarrow> roomIn cf (cf_queue cf)" "buffer ?cf (cf_queue ?cf) = buffer cf (cf_queue cf)"
    using Cons.prems(3) by (simp_all add: roomIn_def)
  show ?case
  proof (cases "roomIn cf (cf_queue cf)")
    case True
    let ?r = "setBuffer (cf_queue cf) (buffer cf (cf_queue cf) @ [q]) ?cf"
    have "fw_inv ?r" using pop_push_inv [OF Cons.prems(1,2,4) live _ True] Cons.prems(3) by simp
    then have "fw_inv (reclaimMove po rest ?r)" using Cons.prems by (intro Cons.IH) simp_all
    then show ?thesis using True room by (simp add: Let_def)
  next
    case False
    let ?r = "(releaseLaneAdmission q ?cf)\<lparr>cf_depth := cf_depth cf - 1, cf_failed := cf_failed cf @ [q]\<rparr>"
    have "fw_inv (reclaimMove po rest ?r)"
      using pop_leave_inv [OF Cons.prems(1,2,4)] Cons.prems by (intro Cons.IH) simp_all
    then show ?thesis using False room by (simp add: Let_def)
  qed
qed simp

lemma reclaim_inv:
  assumes inv: "fw_inv cf"
  shows "fw_inv (reclaimPendingOld cf)"
proof (cases "cf_pendingOld cf")
  case (Some po)
  let ?cf = "cf\<lparr>cf_pendingOld := None\<rparr>"
  have po: "po < length (cf_chans cf)" "po \<noteq> cf_queue cf" using inv Some by (auto simp: fw_inv_def fw_shape_def)
  have "fw_inv ?cf"
    using inv by (simp add: fw_inv_def fw_balance_def fw_shape_def fw_tokens_def inside_def insideM_def waitingM_def goneM_def bufs_def currentM_def)
  then have "fw_inv (reclaimMove po (buffer cf po) ?cf)" using po by (intro reclaimMove_inv) simp_all
  then show ?thesis by (simp add: reclaimPendingOld_def Some)
qed (use inv in \<open>simp add: reclaimPendingOld_def\<close>)

lemma fw_recv_inv:
  assumes inv: "fw_inv cf"
  shows "fw_inv (recvOne cf)"
proof (cases "cf_current cf = None \<and> buffer cf (cf_queue cf) \<noteq> []")
  case True
  then obtain q rest where b: "buffer cf (cf_queue cf) = q # rest" by (cases "buffer cf (cf_queue cf)") auto
  let ?cf = "(setBuffer (cf_queue cf) rest cf)\<lparr>cf_current := Some q\<rparr>"
  have r: "recvOne cf = releaseLaneAdmission q ?cf" using True b by (simp add: recvOne_def)
  have live: "cf_queue cf < length (cf_chans cf)" using inv by (simp add: fw_inv_def fw_shape_def)
  have br: "bufs cf = add_mset q (bufs (recvOne cf))" using bufs_pop [OF live b] unfolding r by (simp add: bufs_def)
  have "fw_balance (recvOne cf)"
    by (rule keep_balance [of cf]) (use inv True br in \<open>simp_all add: r fw_inv_def insideM_def waitingM_def currentM_def goneM_def\<close>)
  moreover have h4: "int (length rest) \<le> fst (cf_chans cf ! cf_queue cf)" using inv live b by (force simp: fw_inv_def fw_shape_def)
  have "fw_shape (setBuffer (cf_queue cf) rest cf)" by (rule shape_setBuffer) (use h4 inv live in \<open>simp_all add: fw_inv_def\<close>)
  then have "fw_shape (recvOne cf)" unfolding r by (rule shape_cong) simp_all
  moreover have "fw_tokens (recvOne cf)"
    by (rule leave_tokens [of cf q]) (use inv br in \<open>simp_all add: r fw_inv_def waitingM_def\<close>)
  ultimately show ?thesis by (simp add: fw_inv_def)
next
  case False
  then have "recvOne cf = cf" by (auto simp: recvOne_def split: option.split list.split)
  then show ?thesis using inv by simp
qed

lemma dispatched_inv:
  assumes inv: "fw_inv cf"
  shows "fw_inv (dispatched acquired cf)"
proof (cases "cf_current cf")
  case (Some q)
  let ?r = "dispatched acquired cf"
  have f: "cf_chans ?r = cf_chans cf" "cf_senders ?r = cf_senders cf" "cf_current ?r = None" "cf_depth ?r = cf_depth cf - 1"
    "cf_entered ?r = cf_entered cf" "cf_queue ?r = cf_queue cf" "cf_pendingOld ?r = cf_pendingOld cf"
    "cf_clusterCred ?r = cf_clusterCred cf" "cf_reserved ?r = cf_reserved cf" "cf_returned ?r = cf_returned cf"
    "goneM ?r = add_mset q (goneM cf)"
    by (simp_all add: dispatched_def Some Let_def goneM_def)
  have "fw_balance ?r"
    by (rule leave_balance [of cf q]) (use inv f Some in \<open>simp_all add: fw_inv_def insideM_def waitingM_def currentM_def bufs_def\<close>)
  moreover have "fw_shape ?r" by (rule shape_cong [of cf]) (use inv f in \<open>simp_all add: fw_inv_def\<close>)
  moreover have "fw_tokens ?r" by (rule keep_tokens [of cf]) (use inv f in \<open>simp_all add: fw_inv_def waitingM_def bufs_def\<close>)
  ultimately show ?thesis by (simp add: fw_inv_def)
qed (use inv in \<open>simp add: dispatched_def\<close>)

lemma drainLive_inv:
  assumes "fw_inv cf" "buffer cf (cf_queue cf) = xs"
  shows "fw_inv (drainLive xs cf)"
  using assms
proof (induction xs arbitrary: cf)
  case (Cons q rest)
  have live: "cf_queue cf < length (cf_chans cf)" using Cons.prems by (simp add: fw_inv_def fw_shape_def)
  show ?case using pop_leave_inv [OF Cons.prems(1) live Cons.prems(2)] live by (simp add: Let_def Cons.IH)
qed simp

lemma replaceDepth_inv:
  assumes inv: "fw_inv cf"
  shows "fw_inv (replaceDepth n cf)"
proof -
  let ?n = "if n \<le> 0 then 1 else n"
  let ?q = "cf_queue cf"
  have live: "?q < length (cf_chans cf)" using inv by (simp add: fw_inv_def fw_shape_def)
  show ?thesis
  proof (cases "?n \<le> fst (cf_chans cf ! ?q)")
    case True
    then show ?thesis using inv
      by (simp add: replaceDepth_def Let_def fw_inv_def fw_balance_def fw_shape_def fw_tokens_def inside_def insideM_def waitingM_def goneM_def bufs_def currentM_def)
  next
    case False
    let ?r = "replaceDepth n cf"
    have r: "cf_chans ?r = cf_chans (setBuffer ?q [] cf) @ [(?n, buffer cf ?q)]" "cf_queue ?r = length (cf_chans cf)"
      "cf_pendingOld ?r = Some ?q" "cf_senders ?r = cf_senders cf" "cf_current ?r = cf_current cf" "cf_depth ?r = cf_depth cf"
      "cf_entered ?r = cf_entered cf" "goneM ?r = goneM cf" "cf_clusterCred ?r = cf_clusterCred cf"
      "cf_reserved ?r = cf_reserved cf" "cf_returned ?r = cf_returned cf"
      using False by (simp_all add: replaceDepth_def Let_def goneM_def)
    have br: "bufs ?r = bufs cf"
      using concat_upd [OF live, of "fst (cf_chans cf ! ?q)" "[]"] unfolding bufs_def r by (simp add: setBuffer_def)
    have "fw_balance ?r" by (rule keep_balance [of cf]) (use inv r br in \<open>simp_all add: fw_inv_def insideM_def waitingM_def currentM_def\<close>)
    moreover have "fw_tokens ?r" by (rule keep_tokens [of cf]) (use inv r br in \<open>simp_all add: fw_inv_def waitingM_def\<close>)
    moreover have cap: "int (length (buffer cf ?q)) \<le> fst (cf_chans cf ! ?q)" using inv live by (simp add: fw_inv_def fw_shape_def)
    have "fw_shape (setBuffer ?q [] cf)" by (rule shape_setBuffer) (use cap inv live in \<open>simp_all add: fw_inv_def\<close>)
    then have "fw_shape ?r"
      using False cap live unfolding fw_shape_def r by (auto simp: nth_append less_Suc_eq)
    ultimately show ?thesis by (simp add: fw_inv_def)
  qed
qed

lemma sweep_inv: "fw_inv cf \<Longrightarrow> fw_inv (releaseLaneAdmission q cf)"
proof -
  assume inv: "fw_inv cf"
  let ?r = "releaseLaneAdmission q cf"
  have fin: "finite (cf_clusterCred cf)" using inv fw_tokens_finite by (auto simp: fw_inv_def)
  have "int (card (cf_clusterCred cf - {q})) = int (card (cf_clusterCred cf)) - (if q \<in> cf_clusterCred cf then 1 else 0)"
    using fin card_Suc_Diff1 [OF fin, of q] by (cases "q \<in> cf_clusterCred cf") auto
  then have "fw_tokens ?r" using inv by (auto simp: fw_inv_def fw_tokens_def waitingM_def bufs_def)
  moreover have "fw_balance ?r" "fw_shape ?r"
    using inv by (simp_all add: fw_inv_def fw_balance_def fw_shape_def inside_def insideM_def currentM_def waitingM_def bufs_def goneM_def)
  ultimately show ?thesis by (simp add: fw_inv_def)
qed

lemma step_inv: "fw_inv cf \<Longrightarrow> fw_inv (fw_step e cf)"
  by (cases e) (simp_all add: fw_step_def sweep_inv reserve_inv load_inv send_inv reclaim_inv fw_recv_inv dispatched_inv replaceDepth_inv
      drainAndComplete_def Let_def drainLive_inv)

lemma run_inv: "fw_inv cf \<Longrightarrow> fw_inv (fold fw_step es cf)"
  by (induction es arbitrary: cf) (simp_all add: step_inv)

section \<open>Properties\<close>

text \<open>
  C13.
  Nothing is lost from the books of a credential queue: under any interleaving of producers, the
  forwarder loop, depth changes and shutdown, every accepted request is exactly once inside
  (reserved, buffered or being admitted) or has been forwarded, failed or refused; the depth counts
  those inside; no buffer exceeds its capacity; and the cluster lane slots taken minus those
  returned are those of requests still waiting.
\<close>

theorem forwarder_accounting:
  fixes es n
  assumes "0 \<le> n"
  defines "cf \<equiv> fold fw_step es (newCredForwarder n)"
  shows "distinct (inside cf) \<and> cf_depth cf = int (length (inside cf)) \<and>
    mset (cf_entered cf) = mset (inside cf) + mset (cf_forwarded cf) + mset (cf_failed cf) + mset (cf_refused cf) \<and>
    cf_reserved cf - cf_returned cf = int (card (cf_clusterCred cf)) \<and> cf_clusterCred cf \<subseteq> set (inside cf) \<and>
    list_all (\<lambda>(c, xs). int (length xs) \<le> c) (cf_chans cf)"
proof -
  have inv: "fw_inv cf" unfolding cf_def using assms(1) by (intro run_inv new_inv)
  have "set (inside cf) = set_mset (insideM cf)" by (metis inside_mset set_mset_mset)
  moreover have "length (inside cf) = size (insideM cf)" by (metis inside_mset size_mset)
  moreover have "list_all (\<lambda>(c, xs). int (length xs) \<le> c) (cf_chans cf)"
    using inv by (auto simp: fw_inv_def fw_shape_def list_all_length split_beta)
  ultimately show ?thesis
    using inv by (auto simp: fw_inv_def fw_balance_def fw_tokens_def insideM_def goneM_def inside_mset union_assoc)
qed

lemma forwarder_accounting_witness:
  "cf_depth (fold fw_step [FReserve (1::nat) (Some True), FLoad 1, FSend 1, FReplaceDepth 5, FRecv] (newCredForwarder 2)) = 1"
proof -
  let ?cf = "fold fw_step [FReserve (1::nat) (Some True), FLoad 1, FSend 1, FReplaceDepth 5, FRecv] (newCredForwarder 2)"
  have "length (inside ?cf) = 1"
    by (simp add: fw_step_def enqReserve_def reserveLane_def tryReserve_def newCredForwarder_def inside_def enqLoad_def enqSend_def
        roomIn_def setBuffer_def replaceDepth_def recvOne_def releaseLaneAdmission_def Let_def)
  then show ?thesis using forwarder_accounting [of 2 "[FReserve (1::nat) (Some True), FLoad 1, FSend 1, FReplaceDepth 5, FRecv]"] by simp
qed

text \<open>
  A reservation that precedes a send is enough: when the admission limit does not exceed the
  capacity of the live channel and the depth is within the limit, a producer that holds a
  reservation and has loaded the live channel finds room in it.
\<close>

theorem reserved_send_succeeds:
  assumes "0 \<le> n" and cf: "cf = fold fw_step es (newCredForwarder n)"
    and s: "map_of (cf_senders cf) q = Some (Some (cf_queue cf))"
    and lim: "cf_depth cf \<le> cf_limit cf" "cf_limit cf \<le> fst (cf_chans cf ! cf_queue cf)"
  shows "q \<in> set (buffer (enqSend q cf) (cf_queue cf)) \<and> cf_depth (enqSend q cf) = cf_depth cf"
proof -
  have inv: "fw_inv cf" unfolding cf using assms(1) by (intro run_inv new_inv)
  have live: "cf_queue cf < length (cf_chans cf)" using inv by (simp add: fw_inv_def fw_shape_def)
  have "mset (buffer cf (cf_queue cf)) \<subseteq># bufs cf"
    using concat_upd [OF live, of 0 "[]"] unfolding bufs_def by (metis add_0 mset.simps(1) mset_subset_eq_add_right union_commute)
  then have "length (buffer cf (cf_queue cf)) \<le> size (bufs cf)" by (metis size_mset size_mset_mono)
  moreover have "1 \<le> size (mset (map fst (cf_senders cf)))" using map_of_SomeD [OF s] by (cases "cf_senders cf") auto
  ultimately have "int (length (buffer cf (cf_queue cf))) < cf_depth cf"
    using inv by (simp add: fw_inv_def fw_balance_def insideM_def waitingM_def)
  then have "roomIn (cf\<lparr>cf_senders := AList.delete q (cf_senders cf)\<rparr>) (cf_queue cf)" using lim by (simp add: roomIn_def)
  then show ?thesis using s live by (simp add: enqSend_def Let_def)
qed

lemma reserved_send_succeeds_witness:
  "cf_depth (enqSend (1::nat) (fold fw_step [FReserve 1 (Some True), FLoad 1] (newCredForwarder 2))) = 1"
proof -
  let ?cf = "fold fw_step [FReserve (1::nat) (Some True), FLoad 1] (newCredForwarder 2)"
  have cf: "cf_senders ?cf = [(1, Some 0)]" "cf_queue ?cf = 0" "cf_depth ?cf = 1" "cf_limit ?cf = 2" "cf_chans ?cf = [(2, [])]"
    by (simp_all add: fw_step_def enqReserve_def reserveLane_def tryReserve_def newCredForwarder_def inside_def enqLoad_def)
  show ?thesis using reserved_send_succeeds [of 2 ?cf "[FReserve (1::nat) (Some True), FLoad 1]" 1] cf by simp
qed

text \<open>Rounds of the loop in which the governor admits.\<close>

fun serveRounds :: "nat \<Rightarrow> 'q credForwarder \<Rightarrow> 'q credForwarder" where
  "serveRounds 0 cf = cf"
| "serveRounds (Suc n) cf = serveRounds n (dispatched True (recvOne cf))"

lemma drain_fifo:
  assumes "fw_inv cf" "cf_current cf = None" "buffer cf (cf_queue cf) = xs"
  shows "cf_forwarded (serveRounds (length xs) cf) = cf_forwarded cf @ xs"
  using assms
proof (induction xs arbitrary: cf)
  case (Cons q rest)
  let ?cf = "dispatched True (recvOne cf)"
  have live: "cf_queue cf < length (cf_chans cf)" using Cons.prems(1) by (simp add: fw_inv_def fw_shape_def)
  have f: "cf_current ?cf = None" "cf_queue ?cf = cf_queue cf" "buffer ?cf (cf_queue ?cf) = rest" "cf_forwarded ?cf = cf_forwarded cf @ [q]"
    using Cons.prems(2,3) live by (simp_all add: recvOne_def dispatched_def Let_def)
  have "fw_inv ?cf" using Cons.prems(1) by (intro dispatched_inv fw_recv_inv)
  from Cons.IH [OF this f(1,3)] show ?case using f by simp
qed simp

text \<open>
  The loop empties its queue in order: as many receives and successful admissions as the live
  channel holds forward exactly its contents, first in first out.
\<close>

theorem queue_drains_fifo:
  assumes "0 \<le> n" "cf = fold fw_step es (newCredForwarder n)" "cf_current cf = None"
  shows "cf_forwarded (serveRounds (length (buffer cf (cf_queue cf))) cf) = cf_forwarded cf @ buffer cf (cf_queue cf)"
  using drain_fifo [of cf "buffer cf (cf_queue cf)"] assms run_inv [OF new_inv, of n es] by simp

lemma queue_drains_fifo_witness:
  "cf_forwarded (serveRounds 2
     (fold fw_step [FReserve (7::nat) None, FReserve 7 (Some False), FReserve 8 (Some False), FLoad 8, FSend 8, FLoad 7, FSend 7] (newCredForwarder 3))) = [8, 7]"
proof -
  define es where "es = [FReserve (7::nat) None, FReserve 7 (Some False), FReserve 8 (Some False), FLoad 8, FSend 8, FLoad 7, FSend 7]"
  define cf where "cf = fold fw_step es (newCredForwarder 3)"
  have "cf_current cf = None" "cf_queue cf = 0" "buffer cf 0 = [8, 7]" "cf_forwarded cf = []"
    by (simp_all add: cf_def es_def fw_step_def enqReserve_def reserveLane_def tryReserve_def newCredForwarder_def inside_def enqLoad_def
        enqSend_def roomIn_def setBuffer_def Let_def)
  then show ?thesis using queue_drains_fifo [of 3 cf es] unfolding es_def [symmetric] cf_def [symmetric]
    by (simp add: cf_def [symmetric] numeral_2_eq_2)
qed

section \<open>A displaced channel that nobody reads\<close>

definition dead :: "nat \<Rightarrow> 'q credForwarder \<Rightarrow> bool" where
  "dead c cf \<longleftrightarrow> c < length (cf_chans cf) \<and> c \<noteq> cf_queue cf \<and> cf_pendingOld cf \<noteq> Some c \<and> (\<forall>q. (q, Some c) \<notin> set (cf_senders cf))"

lemma reclaimMove_frame:
  "c \<noteq> po \<Longrightarrow> c \<noteq> cf_queue cf \<Longrightarrow> buffer (reclaimMove po xs cf) c = buffer cf c \<and>
     length (cf_chans (reclaimMove po xs cf)) = length (cf_chans cf) \<and> cf_queue (reclaimMove po xs cf) = cf_queue cf \<and>
     cf_pendingOld (reclaimMove po xs cf) = cf_pendingOld cf \<and> cf_senders (reclaimMove po xs cf) = cf_senders cf"
  by (induction po xs cf rule: reclaimMove.induct) (simp_all add: Let_def)

lemma reclaim_dead: "dead c cf \<Longrightarrow> dead c (reclaimPendingOld cf) \<and> buffer (reclaimPendingOld cf) c = buffer cf c"
  using reclaimMove_frame [of c _ "cf\<lparr>cf_pendingOld := None\<rparr>"]
  by (cases "cf_pendingOld cf") (auto simp: dead_def reclaimPendingOld_def)

lemma drainLive_frame:
  "c \<noteq> cf_queue cf \<Longrightarrow> buffer (drainLive xs cf) c = buffer cf c \<and> length (cf_chans (drainLive xs cf)) = length (cf_chans cf) \<and>
     cf_queue (drainLive xs cf) = cf_queue cf \<and> cf_pendingOld (drainLive xs cf) = cf_pendingOld cf \<and> cf_senders (drainLive xs cf) = cf_senders cf"
  by (induction xs cf rule: drainLive.induct) (simp_all add: Let_def)

lemma dead_step:
  assumes "dead c cf"
  shows "dead c (fw_step e cf) \<and> buffer (fw_step e cf) c = buffer cf c"
proof (cases e)
  case (FLoad q)
  have "set (AList.update q v al) \<subseteq> insert (q, v) (set al)" for v :: "nat option" and al :: "('a \<times> nat option) list"
    by (induction al) auto
  then show ?thesis using assms FLoad by (auto simp: fw_step_def enqLoad_def dead_def)
next
  case (FSend q)
  show ?thesis
  proof (cases "map_of (cf_senders cf) q")
    case (Some oc)
    show ?thesis
    proof (cases oc)
      case (Some a)
      then have "c \<noteq> a" using assms map_of_SomeD [OF \<open>map_of (cf_senders cf) q = Some oc\<close>] by (auto simp: dead_def)
      then show ?thesis using assms FSend Some \<open>map_of (cf_senders cf) q = Some oc\<close>
        by (auto simp: fw_step_def enqSend_def dead_def Let_def AList.delete_eq)
    qed (use assms FSend Some in \<open>simp add: fw_step_def enqSend_def\<close>)
  qed (use assms FSend in \<open>simp add: fw_step_def enqSend_def\<close>)
next
  case FShutdown
  then show ?thesis
    using reclaim_dead [OF assms] drainLive_frame [of c "reclaimPendingOld cf"]
    by (simp add: fw_step_def drainAndComplete_def Let_def dead_def)
next
  case (FReserve q lane)
  then show ?thesis using assms
    by (auto simp: fw_step_def enqReserve_def tryReserve_def reserveLane_def dead_def split: option.split)
next
  case (FReplaceDepth n)
  then show ?thesis using assms by (auto simp: fw_step_def replaceDepth_def dead_def Let_def nth_append)
qed (use assms reclaim_dead [OF assms] in
    \<open>auto simp: fw_step_def recvOne_def dispatched_def dead_def Let_def split: option.split list.split\<close>)

lemma dead_run: "dead c cf \<Longrightarrow> dead c (fold fw_step es cf) \<and> buffer (fold fw_step es cf) c = buffer cf c"
proof (induction es arbitrary: cf)
  case (Cons e es)
  then show ?case using dead_step [OF Cons.prems, of e] Cons.IH [of "fw_step e cf"] by simp
qed simp

text \<open>A request inside is not accepted again.\<close>

lemma entered_frame:
  "cf_entered (reclaimMove po xs cf) = cf_entered cf" "cf_entered (drainLive xs cf) = cf_entered cf"
proof -
  show "cf_entered (reclaimMove po xs cf) = cf_entered cf" by (induction po xs cf rule: reclaimMove.induct) (simp_all add: Let_def)
  show "cf_entered (drainLive xs cf) = cf_entered cf" by (induction xs cf rule: drainLive.induct) (simp_all add: Let_def)
qed

lemma entered_step:
  "q \<in> set (inside cf) \<Longrightarrow> count (mset (cf_entered (fw_step e cf))) q = count (mset (cf_entered cf)) q"
  by (cases e) (auto simp: fw_step_def enqReserve_def tryReserve_def reserveLane_def enqLoad_def enqSend_def reclaimPendingOld_def recvOne_def
      dispatched_def replaceDepth_def drainAndComplete_def Let_def entered_frame split: option.split list.split)

lemma stuck_run:
  assumes "dead c cf" "q \<in> set (buffer cf c)"
  shows "count (mset (cf_entered (fold fw_step es cf))) q = count (mset (cf_entered cf)) q"
  using assms
proof (induction es arbitrary: cf)
  case (Cons e es)
  have "cf_chans cf ! c \<in> set (cf_chans cf)" using Cons.prems(1) by (simp add: dead_def)
  then have "q \<in> set (inside cf)" using Cons.prems(2) by (auto simp: inside_def)
  then show ?case using Cons.IH [of "fw_step e cf"] dead_step [OF Cons.prems(1), of e] Cons.prems(2) entered_step [of q cf e] by simp
qed simp

text \<open>
  A request can be lost in a grow. A producer loads the channel pointer; the depth is raised and
  the channel swapped; the woken loop reclaims the displaced channel, finds it empty and forgets
  it; then the producer sends into it. From there on, whatever happens, the request stays in that
  channel: it is never forwarded, failed or refused, shutdown included, and it keeps a unit of depth.
\<close>

theorem raced_grow_strands_request:
  fixes es :: "nat fwEvent list" and counted :: bool
  assumes "0 < n" "n < m"
  defines "cf \<equiv> fold fw_step (FReserve 7 (Some counted) # FLoad 7 # FReplaceDepth m # FReclaim # FSend 7 # es) (newCredForwarder n)"
  shows "buffer cf 0 = [7] \<and> 7 \<notin> set (cf_forwarded cf @ cf_failed cf @ cf_refused cf) \<and> 1 \<le> cf_depth cf"
proof -
  define c1 where "c1 = fw_step (FReserve (7::nat) (Some counted)) (newCredForwarder n)"
  have c1: "cf_chans c1 = [(n, [])]" "cf_queue c1 = 0" "cf_pendingOld c1 = None" "cf_senders c1 = [(7, None)]" "cf_entered c1 = [7]"
    using assms(1) by (simp_all add: c1_def fw_step_def enqReserve_def reserveLane_def tryReserve_def newCredForwarder_def inside_def)
  define c2 where "c2 = fw_step (FReplaceDepth m) (fw_step (FLoad 7) c1)"
  have c2: "cf_chans c2 = [(n, []), (m, [])]" "cf_queue c2 = 1" "cf_pendingOld c2 = Some 0" "cf_senders c2 = [(7, Some 0)]" "cf_entered c2 = [7]"
    using assms(1,2) c1 by (simp_all add: c2_def fw_step_def enqLoad_def replaceDepth_def setBuffer_def Let_def)
  define c3 where "c3 = fw_step (FSend 7) (fw_step FReclaim c2)"
  have cf0: "cf_chans c3 = [(n, [7]), (m, [])]" "cf_queue c3 = 1" "cf_pendingOld c3 = None" "cf_senders c3 = []" "cf_entered c3 = [7]"
    using assms(1) c2 by (simp_all add: c3_def fw_step_def reclaimPendingOld_def enqSend_def roomIn_def setBuffer_def Let_def)
  have cf: "cf = fold fw_step es c3" by (simp add: cf_def c1_def c2_def c3_def)
  have dead: "dead 0 c3" using cf0 by (simp add: dead_def)
  have buf: "buffer cf 0 = [7]" unfolding cf using dead_run [OF dead, of es] cf0(1) by simp
  have len: "0 < length (cf_chans cf)" unfolding cf using dead_run [OF dead, of es] by (simp add: dead_def)
  have inv: "fw_inv cf" unfolding cf_def using assms(1) by (intro run_inv new_inv) simp
  have one: "count (mset (cf_entered cf)) 7 = 1" unfolding cf using stuck_run [OF dead, of 7 es] cf0(1,5) by simp
  have "7 \<in># bufs cf" using buf len by (cases "cf_chans cf") (auto simp: bufs_def)
  then have ins: "7 \<in># insideM cf" by (simp add: insideM_def waitingM_def)
  then have "0 < count (insideM cf) 7" by simp
  moreover have "count (insideM cf) 7 + count (goneM cf) 7 = 1" using inv one by (simp add: fw_inv_def fw_balance_def)
  ultimately have "count (goneM cf) 7 = 0" by linarith
  then have "7 \<notin> set (cf_forwarded cf @ cf_failed cf @ cf_refused cf)" by (simp add: goneM_def)
  moreover have "1 \<le> size (insideM cf)" using ins by (metis One_nat_def Suc_leI empty_iff not_gr_zero set_mset_empty size_eq_0_iff_empty)
  ultimately show ?thesis using buf inv by (simp add: fw_inv_def fw_balance_def)
qed

lemma raced_grow_strands_request_witness:
  "buffer (fold fw_step [FReserve 7 (Some True), FLoad 7, FReplaceDepth 2, FReclaim, FSend 7, FRecv, FShutdown] (newCredForwarder 1)) 0 = [7::nat]"
  using raced_grow_strands_request [of 1 2 True "[FRecv, FShutdown]"] by simp

end
