(* ===== verification/RingBuffer.thy ===== *)
theory RingBuffer
  imports Prelude "HOL-Library.Word" "HOL-Library.Multiset"
begin

text \<open>
  The in-memory fallback buffer for telemetry rows that could not be written to the database,
  \<open>domains/dbdegradation/ring_buffer.go\<close>: a circular array of fixed capacity that overwrites
  its oldest entry when full. \<open>json.Marshal\<close>, the clock and the replay callback are arguments;
  the mutex makes every method one step, except \<open>Replay\<close>, which releases it while the callback
  runs: its two critical sections, \<open>replayTake\<close> and \<open>replayRequeue\<close>, are operations of their own, and any writes,
  clears and sections of other replays may come between them. The session pointers of
  \<open>BackupRecord\<close> are never set by this file and are left out. \<open>ring_refines\<close> shows
  that the index arithmetic implements a bounded queue.
\<close>

section \<open>Data\<close>

record backupRecord =
  br_Type :: string
  br_Timestamp :: instant
  br_RecordKey :: string
  br_Payload :: string

definition emptyRecord :: backupRecord where
  "emptyRecord = \<lparr>br_Type = [], br_Timestamp = 0, br_RecordKey = [], br_Payload = []\<rparr>"

record ringBuffer =
  rb_cap :: nat
  rb_buf :: "backupRecord list"
  rb_head :: nat
  rb_size :: nat
  rb_writes :: "64 word"
  rb_dropped :: "64 word"

record ringBufferStats =
  rst_Capacity :: nat
  rst_Size :: nat
  rst_Writes :: "64 word"
  rst_Dropped :: "64 word"

definition NewRingBuffer :: "int \<Rightarrow> ringBuffer" where
  "NewRingBuffer capacity =
     (let c = nat (if capacity \<le> 0 then 1 else capacity)
      in \<lparr>rb_cap = c, rb_buf = replicate c emptyRecord, rb_head = 0, rb_size = 0, rb_writes = 0, rb_dropped = 0\<rparr>)"

section \<open>Operations\<close>

definition pushLocked :: "backupRecord \<Rightarrow> ringBuffer \<Rightarrow> ringBuffer" where
  "pushLocked rec rb =
     rb\<lparr>rb_dropped := (if rb_size rb = rb_cap rb then rb_dropped rb + 1 else rb_dropped rb),
        rb_buf := (rb_buf rb)[rb_head rb := rec],
        rb_head := (rb_head rb + 1) mod rb_cap rb,
        rb_size := (if rb_size rb < rb_cap rb then rb_size rb + 1 else rb_size rb),
        rb_writes := rb_writes rb + 1\<rparr>"

text \<open>The error branches of \<open>WriteGeneric\<close>: a nil receiver, a cancelled context, an unencodable payload.\<close>

datatype writeError = NotConfigured | CtxErr string | MarshalErr string

definition WriteGeneric :: "('p \<Rightarrow> string + string) \<Rightarrow> string option \<Rightarrow> instant \<Rightarrow> string \<Rightarrow> string \<Rightarrow> 'p
    \<Rightarrow> ringBuffer option \<Rightarrow> writeError option \<times> ringBuffer option" where
  "WriteGeneric marshal ctxErr now recordType key payload rb =
     (case rb of
        None \<Rightarrow> (Some NotConfigured, None)
      | Some b \<Rightarrow>
        (case ctxErr of
           Some e \<Rightarrow> (Some (CtxErr e), Some b)
         | None \<Rightarrow>
           (case marshal payload of
              Inl e \<Rightarrow> (Some (MarshalErr e), Some b)
            | Inr raw \<Rightarrow> (None, Some (pushLocked
                \<lparr>br_Type = recordType, br_Timestamp = now, br_RecordKey = key, br_Payload = raw\<rparr> b)))))"

definition WriteRequestLog :: "('p \<Rightarrow> string + string) \<Rightarrow> string option \<Rightarrow> instant \<Rightarrow> string \<Rightarrow> 'p
    \<Rightarrow> ringBuffer option \<Rightarrow> writeError option \<times> ringBuffer option" where
  "WriteRequestLog marshal ctxErr now key payload = WriteGeneric marshal ctxErr now ''request_log'' key payload"

definition WriteRequestWAL :: "('p \<Rightarrow> string + string) \<Rightarrow> string option \<Rightarrow> instant \<Rightarrow> string \<Rightarrow> 'p
    \<Rightarrow> ringBuffer option \<Rightarrow> writeError option \<times> ringBuffer option" where
  "WriteRequestWAL marshal ctxErr now key payload = WriteGeneric marshal ctxErr now ''request_wal'' key payload"

text \<open>The copy loop of \<open>Dump\<close> and \<open>Replay\<close>: \<open>n\<close> entries from the oldest on.\<close>

definition ring :: "backupRecord list \<Rightarrow> nat \<Rightarrow> nat \<Rightarrow> nat \<Rightarrow> backupRecord list" where
  "ring buf c start n = map (\<lambda>i. buf ! ((start + i) mod c)) [0..<n]"

definition oldest :: "ringBuffer \<Rightarrow> nat" where
  "oldest rb = (rb_head rb + rb_cap rb - rb_size rb) mod rb_cap rb"

definition Dump :: "ringBuffer \<Rightarrow> backupRecord list" where
  "Dump rb = (if rb_size rb = 0 then [] else ring (rb_buf rb) (rb_cap rb) (oldest rb) (rb_size rb))"

definition Stats :: "ringBuffer \<Rightarrow> ringBufferStats" where
  "Stats rb = \<lparr>rst_Capacity = rb_cap rb, rst_Size = rb_size rb, rst_Writes = rb_writes rb, rst_Dropped = rb_dropped rb\<rparr>"

definition Clear :: "ringBuffer \<Rightarrow> ringBuffer" where
  "Clear rb = rb\<lparr>rb_buf := map (\<lambda>_. emptyRecord) (rb_buf rb), rb_head := 0, rb_size := 0\<rparr>"

text \<open>
  The first critical section of \<open>Replay\<close>: copy the prefix to replay and pop it. An empty
  buffer gives the empty snapshot, for which the rest of \<open>Replay\<close> does nothing.
\<close>

definition replayTake :: "int \<Rightarrow> ringBuffer \<Rightarrow> backupRecord list \<times> ringBuffer" where
  "replayTake limit rb =
     (if rb_size rb = 0 then ([], rb)
      else
        let n = (if 0 < limit \<and> limit < int (rb_size rb) then nat limit else rb_size rb);
            snapshot = ring (rb_buf rb) (rb_cap rb) (oldest rb) n
        in if 0 < limit \<and> limit < int (rb_size rb)
           then let newSize = rb_size rb - nat limit;
                    newHead = (rb_head rb + rb_cap rb - rb_size rb + nat limit) mod rb_cap rb
                in (snapshot, rb\<lparr>rb_size := newSize, rb_head := (newHead + newSize) mod rb_cap rb\<rparr>)
           else (snapshot, Clear rb))"

text \<open>
  The callback loop. \<open>ctxErr i\<close> is whether the context is done before the \<open>i\<close>-th
  callback, \<open>fnErr i\<close> whether that callback fails. The result is the number replayed, the number
  failed and the records to requeue.
\<close>

fun replayLoop :: "(nat \<Rightarrow> bool) \<Rightarrow> (nat \<Rightarrow> bool) \<Rightarrow> nat \<Rightarrow> backupRecord list \<Rightarrow> nat \<times> nat \<times> backupRecord list" where
  "replayLoop ctxErr fnErr i [] = (0, 0, [])"
| "replayLoop ctxErr fnErr i (rec # rest) =
     (if ctxErr i then (0, 0, rec # rest)
      else case replayLoop ctxErr fnErr (Suc i) rest of
             (replayed, failed, failedRecords) \<Rightarrow>
               if fnErr i then (replayed, failed + 1, rec # failedRecords) else (replayed + 1, failed, failedRecords))"

text \<open>The second critical section: the records to retry go back, after whatever happened in between.\<close>

definition replayRequeue :: "(nat \<Rightarrow> bool) \<Rightarrow> (nat \<Rightarrow> bool) \<Rightarrow> backupRecord list \<Rightarrow> ringBuffer \<Rightarrow> (nat \<times> nat) \<times> ringBuffer" where
  "replayRequeue ctxErr fnErr snapshot rb = (case replayLoop ctxErr fnErr 0 snapshot of
     (replayed, failed, failedRecords) \<Rightarrow> ((replayed, failed), fold pushLocked failedRecords rb))"

text \<open>A whole replay during which only writes came in.\<close>

definition Replay :: "int \<Rightarrow> (nat \<Rightarrow> bool) \<Rightarrow> (nat \<Rightarrow> bool) \<Rightarrow> backupRecord list \<Rightarrow> ringBuffer \<Rightarrow> (nat \<times> nat) \<times> ringBuffer" where
  "Replay limit ctxErr fnErr meanwhile rb =
     (case replayTake limit rb of
        (snapshot, rb1) \<Rightarrow>
          replayRequeue ctxErr fnErr snapshot (fold pushLocked meanwhile rb1))"

section \<open>Index arithmetic\<close>

definition rb_inv :: "ringBuffer \<Rightarrow> bool" where
  "rb_inv rb \<longleftrightarrow> 0 < rb_cap rb \<and> length (rb_buf rb) = rb_cap rb \<and> rb_head rb < rb_cap rb \<and> rb_size rb \<le> rb_cap rb"

lemma length_ring [simp]: "length (ring buf c start n) = n"
  by (simp add: ring_def)

lemma ring_zero [simp]: "ring buf c start 0 = []"
  by (simp add: ring_def)

lemma take_ring: "k \<le> n \<Longrightarrow> take k (ring buf c start n) = ring buf c start k"
  by (simp add: ring_def take_map)

lemma drop_ring: "drop k (ring buf c start n) = ring buf c ((start + k) mod c) (n - k)"
  by (rule nth_equalityI) (simp_all add: ring_def mod_add_left_eq add.assoc)

lemma mod_offset_neq: "i < n \<Longrightarrow> n < c \<Longrightarrow> (start + i) mod c \<noteq> (start + n) mod (c::nat)"
proof
  assume "i < n" "n < c" and eq: "(start + i) mod c = (start + n) mod c"
  then have "c dvd (start + n) - (start + i)" by (metis add_le_cancel_left less_imp_le_nat mod_eq_dvd_iff_nat)
  then show False using \<open>i < n\<close> \<open>n < c\<close> by (auto dest: dvd_imp_le)
qed

lemma ring_write:
  assumes "n < c" "length buf = c"
  shows "ring (buf[(start + n) mod c := x]) c start (Suc n) = ring buf c start n @ [x]"
proof (rule nth_equalityI)
  fix i assume "i < length (ring (buf[(start + n) mod c := x]) c start (Suc n))"
  then consider "i < n" | "i = n" by fastforce
  then show "ring (buf[(start + n) mod c := x]) c start (Suc n) ! i = (ring buf c start n @ [x]) ! i"
  proof cases
    case 1
    then show ?thesis using mod_offset_neq [of i n c start] assms
      by (simp add: ring_def nth_append del: upt_Suc)
  next
    case 2
    have "(start + n) mod c < length buf" using assms by simp
    then show ?thesis using 2 by (simp add: ring_def nth_append del: upt_Suc)
  qed
qed simp

lemma Dump_ring: "Dump rb = ring (rb_buf rb) (rb_cap rb) (oldest rb) (rb_size rb)"
  by (simp add: Dump_def)

lemma length_Dump [simp]: "length (Dump rb) = rb_size rb"
  by (simp add: Dump_ring)

lemma head_after_oldest:
  assumes "rb_inv rb"
  shows "(oldest rb + rb_size rb) mod rb_cap rb = rb_head rb"
proof -
  have "(oldest rb + rb_size rb) mod rb_cap rb = (rb_head rb + rb_cap rb - rb_size rb + rb_size rb) mod rb_cap rb"
    by (simp add: oldest_def mod_add_left_eq)
  also have "\<dots> = (rb_head rb + rb_cap rb) mod rb_cap rb" using assms by (simp add: rb_inv_def)
  finally show ?thesis using assms by (simp add: rb_inv_def)
qed

lemma oldest_full: "rb_inv rb \<Longrightarrow> rb_size rb = rb_cap rb \<Longrightarrow> oldest rb = rb_head rb"
  by (simp add: oldest_def rb_inv_def)

section \<open>The bounded queue\<close>

text \<open>What the buffer stands for: its capacity, the entries oldest first and the two counters.\<close>

record ringSpec =
  sp_cap :: nat
  sp_entries :: "backupRecord list"
  sp_writes :: "64 word"
  sp_dropped :: "64 word"

definition rb_abs :: "ringBuffer \<Rightarrow> ringSpec" where
  "rb_abs rb = \<lparr>sp_cap = rb_cap rb, sp_entries = Dump rb, sp_writes = rb_writes rb, sp_dropped = rb_dropped rb\<rparr>"

definition specPush :: "backupRecord \<Rightarrow> ringSpec \<Rightarrow> ringSpec" where
  "specPush rec q =
     (if length (sp_entries q) < sp_cap q then q\<lparr>sp_entries := sp_entries q @ [rec], sp_writes := sp_writes q + 1\<rparr>
      else q\<lparr>sp_entries := tl (sp_entries q) @ [rec], sp_writes := sp_writes q + 1, sp_dropped := sp_dropped q + 1\<rparr>)"
lemma pushLocked_inv: "rb_inv rb \<Longrightarrow> rb_inv (pushLocked rec rb)"
  by (auto simp: rb_inv_def pushLocked_def)

lemma Dump_push_room:
  assumes inv: "rb_inv rb" and room: "rb_size rb < rb_cap rb"
  shows "Dump (pushLocked rec rb) = Dump rb @ [rec]"
proof -
  have h: "rb_head rb < rb_cap rb" using inv by (simp add: rb_inv_def)
  have "oldest (pushLocked rec rb) = ((rb_head rb + 1) mod rb_cap rb + (rb_cap rb - Suc (rb_size rb))) mod rb_cap rb"
    using room by (simp add: oldest_def pushLocked_def)
  also have "\<dots> = (rb_head rb + 1 + (rb_cap rb - Suc (rb_size rb))) mod rb_cap rb" by (rule mod_add_left_eq)
  also have "rb_head rb + 1 + (rb_cap rb - Suc (rb_size rb)) = rb_head rb + rb_cap rb - rb_size rb" using room by arith
  also have "\<dots> mod rb_cap rb = oldest rb" by (simp add: oldest_def)
  finally have old: "oldest (pushLocked rec rb) = oldest rb" .
  have "Dump (pushLocked rec rb) = ring ((rb_buf rb)[(oldest rb + rb_size rb) mod rb_cap rb := rec]) (rb_cap rb) (oldest rb) (Suc (rb_size rb))"
    unfolding Dump_ring old head_after_oldest [OF inv] using room by (simp add: pushLocked_def)
  then show ?thesis using inv room by (simp add: ring_write Dump_ring rb_inv_def)
qed

lemma Dump_push_full:
  assumes inv: "rb_inv rb" and full: "rb_size rb = rb_cap rb"
  shows "Dump (pushLocked rec rb) = tl (Dump rb) @ [rec]"
proof -
  let ?c = "rb_cap rb" and ?s = "(rb_head rb + 1) mod rb_cap rb"
  have c: "0 < ?c" and h: "rb_head rb < ?c" and l: "length (rb_buf rb) = ?c" using inv by (simp_all add: rb_inv_def)
  have "(?s + (?c - 1)) mod ?c = (rb_head rb + 1 + (?c - 1)) mod ?c" by (rule mod_add_left_eq)
  also have "rb_head rb + 1 + (?c - 1) = rb_head rb + ?c" using c by arith
  also have "\<dots> mod ?c = rb_head rb" using h by simp
  finally have pos: "(?s + (?c - 1)) mod ?c = rb_head rb" .
  have "Dump (pushLocked rec rb) = ring ((rb_buf rb)[rb_head rb := rec]) ?c ?s (Suc (?c - 1))"
    using full c by (simp add: Dump_ring oldest_def pushLocked_def)
  also have "\<dots> = ring (rb_buf rb) ?c ?s (?c - 1) @ [rec]"
    using ring_write [of "?c - 1" ?c "rb_buf rb" ?s rec] c l unfolding pos by simp
  also have "ring (rb_buf rb) ?c ?s (?c - 1) = tl (Dump rb)"
    using drop_ring [of 1 "rb_buf rb" ?c "oldest rb" ?c] full
    by (simp add: Dump_ring oldest_full [OF inv full] drop_Suc)
  finally show ?thesis .
qed

lemma push_simulates:
  assumes inv: "rb_inv rb"
  shows "rb_abs (pushLocked rec rb) = specPush rec (rb_abs rb)"
proof (cases "rb_size rb < rb_cap rb")
  case True
  then show ?thesis
    by (simp add: rb_abs_def Dump_push_room [OF inv] specPush_def) (simp add: pushLocked_def)
next
  case False
  then have full: "rb_size rb = rb_cap rb" using inv by (simp add: rb_inv_def)
  show ?thesis by (simp add: rb_abs_def Dump_push_full [OF inv full] specPush_def full) (simp add: pushLocked_def full)
qed

lemma Clear_inv [simp]: "rb_inv rb \<Longrightarrow> rb_inv (Clear rb)"
  by (simp add: rb_inv_def Clear_def)

lemma Dump_Clear [simp]: "Dump (Clear rb) = []"
  by (simp add: Dump_def Clear_def)

text \<open>How many entries \<open>Replay\<close> takes.\<close>

definition replayCount :: "int \<Rightarrow> nat \<Rightarrow> nat" where
  "replayCount limit n = (if 0 < limit \<and> limit < int n then nat limit else n)"

lemma replayTake_simulates:
  fixes limit :: int
  assumes inv: "rb_inv rb"
  defines "n \<equiv> replayCount limit (rb_size rb)"
  shows "rb_inv (snd (replayTake limit rb))" (is ?inv)
    and "fst (replayTake limit rb) = take n (Dump rb)" (is ?snap)
    and "rb_abs (snd (replayTake limit rb)) = (rb_abs rb)\<lparr>sp_entries := drop n (Dump rb)\<rparr>" (is ?abs)
proof -
  show ?snap
    by (auto simp: replayTake_def n_def replayCount_def Dump_ring take_ring Let_def)
  show ?inv using inv by (auto simp: replayTake_def rb_inv_def Clear_def Let_def)
  show ?abs
  proof (cases "0 < limit \<and> limit < int (rb_size rb)")
    case False
    then have "snd (replayTake limit rb) = (if rb_size rb = 0 then rb else Clear rb)" and n: "n = rb_size rb"
      by (auto simp: replayTake_def n_def replayCount_def Let_def)
    then show ?thesis by (auto simp: rb_abs_def n Clear_def Dump_def)
  next
    case True
    define k where "k = nat limit"
    have k: "k < rb_size rb" and n: "n = k" using True by (auto simp: k_def n_def replayCount_def)
    have "((rb_head rb + rb_cap rb - rb_size rb + k) mod rb_cap rb + (rb_size rb - k)) mod rb_cap rb
        = (rb_head rb + rb_cap rb - rb_size rb + k + (rb_size rb - k)) mod rb_cap rb" by (rule mod_add_left_eq)
    also have "\<dots> = rb_head rb" using inv k by (simp add: rb_inv_def)
    finally have hd: "((rb_head rb + rb_cap rb - rb_size rb + k) mod rb_cap rb + (rb_size rb - k)) mod rb_cap rb = rb_head rb" .
    have old: "(rb_head rb + rb_cap rb - (rb_size rb - k)) mod rb_cap rb = (oldest rb + k) mod rb_cap rb"
      using inv k by (simp add: oldest_def mod_add_left_eq rb_inv_def)
    have "snd (replayTake limit rb) = rb\<lparr>rb_size := rb_size rb - k, rb_head := rb_head rb\<rparr>"
      using True hd by (simp add: replayTake_def Let_def k_def)
    then show ?thesis
      using old by (simp add: n rb_abs_def Dump_ring drop_ring oldest_def [of "rb\<lparr>rb_size := rb_size rb - k\<rparr>"])
  qed
qed
section \<open>Refinement\<close>

datatype ringOp = ROpPush backupRecord | ROpClear | ROpReplay int "nat \<Rightarrow> bool" "nat \<Rightarrow> bool" "backupRecord list" | ROpDump
  | ROpTake int | ROpRequeue "nat \<Rightarrow> bool" "nat \<Rightarrow> bool" "backupRecord list"

datatype ringOut = RNone | RCounts nat nat | REntries "backupRecord list"

definition ringStep :: "ringOp \<Rightarrow> ringBuffer \<Rightarrow> ringOut \<times> ringBuffer" where
  "ringStep x rb = (case x of
     ROpPush rec \<Rightarrow> (RNone, pushLocked rec rb)
   | ROpClear \<Rightarrow> (RNone, Clear rb)
   | ROpReplay limit ctxErr fnErr meanwhile \<Rightarrow>
       (case Replay limit ctxErr fnErr meanwhile rb of ((replayed, failed), rb') \<Rightarrow> (RCounts replayed failed, rb'))
   | ROpDump \<Rightarrow> (REntries (Dump rb), rb)
   | ROpTake limit \<Rightarrow> (case replayTake limit rb of (snapshot, rb') \<Rightarrow> (REntries snapshot, rb'))
   | ROpRequeue ctxErr fnErr snapshot \<Rightarrow>
       (case replayRequeue ctxErr fnErr snapshot rb of ((replayed, failed), rb') \<Rightarrow> (RCounts replayed failed, rb')))"

text \<open>
  The specification of a replay: take a prefix of the queue, then append what was written meanwhile
  and what has to be retried, under the bound of the queue. The two sections are operations of their
  own, too, so that other replays and clears come between them.
\<close>

definition specReplay :: "int \<Rightarrow> (nat \<Rightarrow> bool) \<Rightarrow> (nat \<Rightarrow> bool) \<Rightarrow> backupRecord list \<Rightarrow> ringSpec \<Rightarrow> (nat \<times> nat) \<times> ringSpec" where
  "specReplay limit ctxErr fnErr meanwhile q =
     (let n = replayCount limit (length (sp_entries q))
      in case replayLoop ctxErr fnErr 0 (take n (sp_entries q)) of
           (replayed, failed, again) \<Rightarrow>
             ((replayed, failed), fold specPush (meanwhile @ again) (q\<lparr>sp_entries := drop n (sp_entries q)\<rparr>)))"

definition specRequeue :: "(nat \<Rightarrow> bool) \<Rightarrow> (nat \<Rightarrow> bool) \<Rightarrow> backupRecord list \<Rightarrow> ringSpec \<Rightarrow> (nat \<times> nat) \<times> ringSpec" where
  "specRequeue ctxErr fnErr snapshot q = (case replayLoop ctxErr fnErr 0 snapshot of
     (replayed, failed, again) \<Rightarrow> ((replayed, failed), fold specPush again q))"

definition ringSpecStep :: "ringOp \<Rightarrow> ringSpec \<Rightarrow> ringOut \<times> ringSpec" where
  "ringSpecStep x q = (case x of
     ROpPush rec \<Rightarrow> (RNone, specPush rec q)
   | ROpClear \<Rightarrow> (RNone, q\<lparr>sp_entries := []\<rparr>)
   | ROpReplay limit ctxErr fnErr meanwhile \<Rightarrow>
       (case specReplay limit ctxErr fnErr meanwhile q of ((replayed, failed), q') \<Rightarrow> (RCounts replayed failed, q'))
   | ROpDump \<Rightarrow> (REntries (sp_entries q), q)
   | ROpTake limit \<Rightarrow> (let n = replayCount limit (length (sp_entries q))
       in (REntries (take n (sp_entries q)), q\<lparr>sp_entries := drop n (sp_entries q)\<rparr>))
   | ROpRequeue ctxErr fnErr snapshot \<Rightarrow>
       (case specRequeue ctxErr fnErr snapshot q of ((replayed, failed), q') \<Rightarrow> (RCounts replayed failed, q')))"

lemma fold_push_simulates:
  "rb_inv rb \<Longrightarrow> rb_inv (fold pushLocked recs rb) \<and> rb_abs (fold pushLocked recs rb) = fold specPush recs (rb_abs rb)"
  by (induction recs arbitrary: rb) (simp_all add: pushLocked_inv push_simulates)

lemma Replay_simulates:
  assumes inv: "rb_inv rb"
  shows "rb_inv (snd (Replay limit ctxErr fnErr meanwhile rb)) \<and>
    specReplay limit ctxErr fnErr meanwhile (rb_abs rb) = map_prod id rb_abs (Replay limit ctxErr fnErr meanwhile rb)"
proof -
  obtain snapshot rb1 where t: "replayTake limit rb = (snapshot, rb1)" by fastforce
  obtain a b c where l: "replayLoop ctxErr fnErr 0 snapshot = (a, b, c)" by (metis prod_cases3)
  let ?n = "replayCount limit (rb_size rb)"
  have inv1: "rb_inv rb1" and snap: "snapshot = take ?n (Dump rb)"
    and abs: "rb_abs rb1 = (rb_abs rb)\<lparr>sp_entries := drop ?n (Dump rb)\<rparr>"
    using replayTake_simulates [OF inv, of limit] unfolding t by simp_all
  have e: "sp_entries (rb_abs rb) = Dump rb" by (simp add: rb_abs_def)
  show ?thesis
    using fold_push_simulates [OF inv1, of "meanwhile @ c"] l unfolding Replay_def replayRequeue_def specReplay_def t e
    by (simp add: snap abs)
qed

lemma replayRequeue_simulates:
  "rb_inv rb \<Longrightarrow> rb_inv (snd (replayRequeue ctxErr fnErr snapshot rb)) \<and>
    specRequeue ctxErr fnErr snapshot (rb_abs rb) = map_prod id rb_abs (replayRequeue ctxErr fnErr snapshot rb)"
  using fold_push_simulates by (simp add: replayRequeue_def specRequeue_def split: prod.split)

interpretation ringbuf: simulation rb_inv rb_abs ringStep ringSpecStep
proof
  fix rb x
  assume inv: "rb_inv rb"
  show "rb_inv (snd (ringStep x rb))"
    using inv Replay_simulates [OF inv, THEN conjunct1] replayTake_simulates(1) [OF inv] replayRequeue_simulates [OF inv, THEN conjunct1]
    by (cases x) (simp_all add: ringStep_def pushLocked_inv split_beta)
  show "ringSpecStep x (rb_abs rb) = map_prod id rb_abs (ringStep x rb)"
  proof (cases x)
    case (ROpReplay limit ctxErr fnErr meanwhile)
    then show ?thesis using Replay_simulates [OF inv, of limit ctxErr fnErr meanwhile]
      by (auto simp: ringStep_def ringSpecStep_def split: prod.splits)
  next
    case (ROpTake limit)
    then show ?thesis using replayTake_simulates(2,3) [OF inv, of limit]
      by (simp add: ringStep_def ringSpecStep_def Let_def rb_abs_def split: prod.split) (metis fst_conv snd_conv)
  next
    case (ROpRequeue ctxErr fnErr snapshot)
    then show ?thesis using replayRequeue_simulates [OF inv, of ctxErr fnErr snapshot]
      by (auto simp: ringStep_def ringSpecStep_def split: prod.splits)
  next
    case ROpClear
    then show ?thesis by (simp add: ringStep_def ringSpecStep_def rb_abs_def) (simp add: Clear_def)
  qed (simp_all add: ringStep_def ringSpecStep_def push_simulates [OF inv], simp add: rb_abs_def)
qed

lemma NewRingBuffer_simps [simp]:
  "rb_inv (NewRingBuffer capacity)" "Dump (NewRingBuffer capacity) = []" "rb_cap (NewRingBuffer capacity) = nat (max 1 capacity)"
  by (simp_all add: rb_inv_def NewRingBuffer_def Let_def Dump_def)

text \<open>
  C31.
  Refinement: from a new buffer, every sequence of writes, clears, replays and dumps, the two critical
  sections of concurrent replays interleaved in any order, has the outputs and the contents of a bounded queue that drops its oldest entry when full, so the circular
  indices, the in-place pop of a partial replay and the requeue are right.
\<close>

theorem ring_refines:
  "run_ops ringSpecStep ops \<lparr>sp_cap = nat (max 1 capacity), sp_entries = [], sp_writes = 0, sp_dropped = 0\<rparr> =
   map_prod id rb_abs (run_ops ringStep ops (NewRingBuffer capacity))"
proof -
  have "rb_abs (NewRingBuffer capacity) = \<lparr>sp_cap = nat (max 1 capacity), sp_entries = [], sp_writes = 0, sp_dropped = 0\<rparr>"
    by (simp add: rb_abs_def NewRingBuffer_def Dump_def Let_def)
  then show ?thesis using ringbuf.run_refines [OF NewRingBuffer_simps(1), of ops capacity] by simp
qed

section \<open>What is kept\<close>

text \<open>The last \<open>k\<close> elements of a list.\<close>

definition lastN :: "nat \<Rightarrow> 'a list \<Rightarrow> 'a list" where
  "lastN k xs = drop (length xs - k) xs"

lemma lastN_short [simp]: "length xs \<le> k \<Longrightarrow> lastN k xs = xs"
  by (simp add: lastN_def)

lemma lastN_push: "0 < k \<Longrightarrow> lastN k (lastN k xs @ [x]) = lastN k (xs @ [x])"
  by (cases "length xs \<le> k") (simp_all add: lastN_def Suc_diff_le)

lemma specPush_lastN:
  "0 < sp_cap q \<Longrightarrow> length (sp_entries q) \<le> sp_cap q \<Longrightarrow> sp_entries (specPush rec q) = lastN (sp_cap q) (sp_entries q @ [rec])"
  by (cases "sp_entries q") (auto simp: specPush_def lastN_def)

lemma specPush_facts [simp]:
  "sp_cap (specPush rec q) = sp_cap q" "sp_writes (specPush rec q) = sp_writes q + 1"
  by (simp_all add: specPush_def)

lemma specPush_length: "length (sp_entries q) \<le> sp_cap q \<Longrightarrow> 0 < sp_cap q \<Longrightarrow> length (sp_entries (specPush rec q)) \<le> sp_cap q"
  by (auto simp: specPush_def)

lemma fold_specPush:
  assumes "0 < sp_cap q" "length (sp_entries q) \<le> sp_cap q"
  shows "sp_entries (fold specPush recs q) = lastN (sp_cap q) (sp_entries q @ recs) \<and>
    sp_dropped (fold specPush recs q) = sp_dropped q + of_nat (length (sp_entries q) + length recs - sp_cap q)"
  using assms
proof (induction recs rule: rev_induct)
  case (snoc rec recs)
  let ?q = "fold specPush recs q"
  have cap: "sp_cap ?q = sp_cap q" by (induction recs rule: rev_induct) simp_all
  have ent: "sp_entries ?q = lastN (sp_cap q) (sp_entries q @ recs)"
    and drp: "sp_dropped ?q = sp_dropped q + of_nat (length (sp_entries q) + length recs - sp_cap q)"
    using snoc by auto
  have len: "length (sp_entries ?q) = min (sp_cap q) (length (sp_entries q) + length recs)"
    using ent by (simp add: lastN_def)
  have "sp_entries (specPush rec ?q) = lastN (sp_cap q) (lastN (sp_cap q) (sp_entries q @ recs) @ [rec])"
    using specPush_lastN [of ?q rec] snoc.prems cap len ent by simp
  moreover have "sp_dropped (specPush rec ?q) = sp_dropped q + of_nat (length (sp_entries q) + Suc (length recs) - sp_cap q)"
    using len drp cap by (auto simp: specPush_def Suc_diff_le not_less)
  ultimately show ?case using lastN_push [of "sp_cap q" "sp_entries q @ recs" rec] snoc.prems by simp
qed simp

text \<open>
  Round trip: after writing a list of records into a new buffer, \<open>Dump\<close> returns the most recent
  ones in the order they were written, as many as fit, and \<open>Stats\<close> counts the writes and the
  overwritten records (modulo 2 to the 64).
\<close>

theorem ring_roundtrip:
  fixes capacity recs
  defines "rb \<equiv> fold pushLocked recs (NewRingBuffer capacity)" and "c \<equiv> nat (max 1 capacity)"
  shows "Dump rb = lastN c recs \<and>
    Stats rb = \<lparr>rst_Capacity = c, rst_Size = min c (length recs), rst_Writes = of_nat (length recs),
      rst_Dropped = of_nat (length recs - c)\<rparr>"
proof -
  let ?q = "\<lparr>sp_cap = c, sp_entries = [], sp_writes = 0, sp_dropped = 0\<rparr>"
  have q: "rb_abs (NewRingBuffer capacity) = ?q"
    by (simp add: rb_abs_def NewRingBuffer_def Dump_def Let_def c_def)
  have sim: "rb_abs rb = fold specPush recs ?q"
    using fold_push_simulates [OF NewRingBuffer_simps(1), of recs capacity] by (simp add: rb_def q)
  have wr: "sp_cap (fold specPush recs q) = sp_cap q \<and> sp_writes (fold specPush recs q) = sp_writes q + of_nat (length recs)" for q
    by (induction recs rule: rev_induct) simp_all
  have f: "sp_entries (rb_abs rb) = lastN c recs" "sp_dropped (rb_abs rb) = of_nat (length recs - c)"
    "sp_cap (rb_abs rb) = c" "sp_writes (rb_abs rb) = of_nat (length recs)"
    using fold_specPush [of ?q recs] wr [of ?q] unfolding sim by (simp_all add: c_def)
  have d: "Dump rb = lastN c recs" using f(1) by (simp add: rb_abs_def)
  then have "rb_size rb = min c (length recs)" using length_Dump [of rb] by (simp add: lastN_def)
  with d f show ?thesis by (simp add: Stats_def rb_abs_def)
qed
text \<open>The records that the callback loop hands back: those it failed on and, once the context is done, all that follow.\<close>

definition unsent :: "(nat \<Rightarrow> bool) \<Rightarrow> (nat \<Rightarrow> bool) \<Rightarrow> nat \<Rightarrow> 'a list \<Rightarrow> 'a list" where
  "unsent ctxErr fnErr i xs = map snd (filter (\<lambda>(j, x). fnErr j \<or> (\<exists>k\<in>{i..j}. ctxErr k)) (enumerate i xs))"

lemma unsent_Nil [simp]: "unsent ctxErr fnErr i [] = []"
  by (simp add: unsent_def)

lemma unsent_stop: "ctxErr i \<Longrightarrow> unsent ctxErr fnErr i xs = xs"
proof -
  assume "ctxErr i"
  then have "filter (\<lambda>(j, x). fnErr j \<or> (\<exists>k\<in>{i..j}. ctxErr k)) (enumerate i xs) = enumerate i xs"
    by (intro filter_True) (auto simp: in_set_enumerate_eq)
  then show ?thesis by (simp add: unsent_def)
qed

lemma unsent_Cons:
  assumes "\<not> ctxErr i"
  shows "unsent ctxErr fnErr i (x # xs) = (if fnErr i then x # unsent ctxErr fnErr (Suc i) xs else unsent ctxErr fnErr (Suc i) xs)"
proof -
  have "k \<in> {i..j} \<longleftrightarrow> k = i \<or> k \<in> {Suc i..j}" if "j \<ge> Suc i" for k j using that by auto
  then have "filter (\<lambda>(j, x). fnErr j \<or> (\<exists>k\<in>{i..j}. ctxErr k)) (enumerate (Suc i) xs)
      = filter (\<lambda>(j, x). fnErr j \<or> (\<exists>k\<in>{Suc i..j}. ctxErr k)) (enumerate (Suc i) xs)"
    using assms by (intro filter_cong refl) (auto simp: in_set_enumerate_eq)
  then show ?thesis using assms by (simp add: unsent_def)
qed

lemma replayLoop_unsent:
  "snd (snd (replayLoop ctxErr fnErr i xs)) = unsent ctxErr fnErr i xs \<and>
   fst (replayLoop ctxErr fnErr i xs) + length (unsent ctxErr fnErr i xs) = length xs"
  by (induction ctxErr fnErr i xs rule: replayLoop.induct)
    (auto simp: unsent_stop unsent_Cons split: prod.splits)

text \<open>
  Nothing is lost by a replay: in every reachable buffer, a replay with any limit, any cancellation and
  any failures, with any writes arriving while the callbacks run, leaves the entries it did not
  take, then the new ones, then every taken entry that was not replayed, in that order, truncated
  at the oldest end only when they exceed the capacity; the reported count is the number of taken
  entries that do not come back.
\<close>

theorem replay_keeps_unsent:
  fixes capacity ops limit ctxErr fnErr meanwhile
  defines "rb \<equiv> snd (run_ops ringStep ops (NewRingBuffer capacity))"
  defines "n \<equiv> replayCount limit (rb_size rb)"
  defines "again \<equiv> unsent ctxErr fnErr 0 (take n (Dump rb))"
  shows "Dump (snd (Replay limit ctxErr fnErr meanwhile rb)) = lastN (rb_cap rb) (drop n (Dump rb) @ meanwhile @ again) \<and>
    fst (fst (Replay limit ctxErr fnErr meanwhile rb)) = n - length again"
proof -
  have inv: "rb_inv rb" unfolding rb_def by (rule ringbuf.inv_run) simp
  let ?q = "(rb_abs rb)\<lparr>sp_entries := drop n (Dump rb)\<rparr>"
  obtain a b c where l: "replayLoop ctxErr fnErr 0 (take n (Dump rb)) = (a, b, c)" by (metis prod_cases3)
  have n: "n \<le> rb_size rb" by (auto simp: n_def replayCount_def)
  have cap: "0 < rb_cap rb" "rb_size rb - n \<le> rb_cap rb" using inv by (auto simp: rb_inv_def)
  have c: "c = again" and a: "a + length again = n"
    using replayLoop_unsent [of ctxErr fnErr 0 "take n (Dump rb)"] n unfolding l again_def by auto
  have "map_prod id rb_abs (Replay limit ctxErr fnErr meanwhile rb) = ((a, b), fold specPush (meanwhile @ c) ?q)"
    using Replay_simulates [OF inv, of limit ctxErr fnErr meanwhile] l
    by (simp add: specReplay_def rb_abs_def n_def)
  then have eq: "fst (fst (Replay limit ctxErr fnErr meanwhile rb)) = a"
    "sp_entries (rb_abs (snd (Replay limit ctxErr fnErr meanwhile rb))) = sp_entries (fold specPush (meanwhile @ c) ?q)"
    by (metis fst_conv fst_map_prod id_apply, metis snd_conv snd_map_prod)
  have "sp_entries (fold specPush (meanwhile @ c) ?q) = lastN (rb_cap rb) (drop n (Dump rb) @ meanwhile @ c)"
    using fold_specPush [of ?q "meanwhile @ c"] cap by (simp add: rb_abs_def)
  then show ?thesis using eq a c by (simp add: rb_abs_def)
qed

end
