(* ===== verification/DBMonitor.thy ===== *)
theory DBMonitor
  imports RingBuffer "HOL-Library.Sublist"
begin

text \<open>
  The database health monitor of \<open>domains/dbdegradation/monitor.go\<close>, the degradation switch of
  \<open>fallback.go\<close> and the fan-out writer of \<open>multi_writer.go\<close>. The result of a ping and the
  clock readings are arguments; listeners run in their own goroutines, so the model returns the event
  they are given. A backup writer is a function on the state it owns, and the fan-out is proved with the
  ring buffer as one of its backends.
\<close>

section \<open>Monitor\<close>

datatype dbStatus = DBStatusUnknown | DBStatusAvailable | DBStatusDegraded

record monitorConfig =
  mc_CheckInterval :: duration
  mc_FailThreshold :: int
  mc_RecoverThreshold :: int

record statusChangeEvent =
  ev_OldStatus :: dbStatus
  ev_NewStatus :: dbStatus
  ev_Timestamp :: instant
  ev_Message :: string

record monitor =
  mon_status :: dbStatus
  mon_config :: monitorConfig
  mon_failCount :: int
  mon_successCount :: int
  mon_lastCheckTime :: "instant option"
  mon_degradedSince :: "instant option"

definition NewMonitor :: "monitorConfig \<Rightarrow> monitor" where
  "NewMonitor config =
     \<lparr>mon_status = DBStatusUnknown,
      mon_config = \<lparr>mc_CheckInterval = (if mc_CheckInterval config \<le> 0 then 10 * go_second else mc_CheckInterval config),
        mc_FailThreshold = (if mc_FailThreshold config \<le> 0 then 3 else mc_FailThreshold config),
        mc_RecoverThreshold = (if mc_RecoverThreshold config \<le> 0 then 3 else mc_RecoverThreshold config)\<rparr>,
      mon_failCount = 0, mon_successCount = 0, mon_lastCheckTime = None, mon_degradedSince = None\<rparr>"

definition GetDegradedDuration :: "instant \<Rightarrow> monitor \<Rightarrow> duration" where
  "GetDegradedDuration now m =
     (case (mon_status m, mon_degradedSince m) of (DBStatusDegraded, Some t) \<Rightarrow> now - t | _ \<Rightarrow> 0)"

definition buildStatusMessage :: "dbStatus \<Rightarrow> string option \<Rightarrow> string" where
  "buildStatusMessage status err =
     (case status of
        DBStatusAvailable \<Rightarrow> ''database is available''
      | DBStatusDegraded \<Rightarrow>
          (case err of Some e \<Rightarrow> ''database is unavailable: '' @ e | None \<Rightarrow> ''database is unavailable'')
      | DBStatusUnknown \<Rightarrow> ''database status unknown'')"

text \<open>\<open>err\<close> is the result of the ping, \<open>started\<close> and \<open>now\<close> are the clock before and after it.\<close>

definition checkHealth :: "instant \<Rightarrow> string option \<Rightarrow> instant \<Rightarrow> monitor \<Rightarrow> statusChangeEvent option \<times> monitor" where
  "checkHealth started err now m0 =
     (let m = m0\<lparr>mon_lastCheckTime := Some started\<rparr>;
          current = mon_status m;
          step = (if err \<noteq> None
            then let m1 = m\<lparr>mon_failCount := mon_failCount m + 1, mon_successCount := 0\<rparr>
                 in if mc_FailThreshold (mon_config m) \<le> mon_failCount m1 \<and> current \<noteq> DBStatusDegraded
                    then (DBStatusDegraded, m1\<lparr>mon_degradedSince := Some now\<rparr>)
                    else (current, m1)
            else let m1 = m\<lparr>mon_successCount := mon_successCount m + 1, mon_failCount := 0\<rparr>
                 in if mc_RecoverThreshold (mon_config m) \<le> mon_successCount m1 \<and> current \<noteq> DBStatusAvailable
                    then (DBStatusAvailable, m1\<lparr>mon_degradedSince := None\<rparr>)
                    else if current = DBStatusUnknown then (DBStatusAvailable, m1)
                    else (current, m1))
      in case step of
           (new, m2) \<Rightarrow>
             if new \<noteq> current
             then (Some \<lparr>ev_OldStatus = current, ev_NewStatus = new, ev_Timestamp = now, ev_Message = buildStatusMessage new err\<rparr>,
                   m2\<lparr>mon_status := new\<rparr>)
             else (None, m2))"

text \<open>The monitor loop: a first check, then one at every tick, each with its clock readings and ping result.\<close>

fun runLoop :: "(instant \<times> string option \<times> instant) list \<Rightarrow> monitor \<Rightarrow> statusChangeEvent list \<times> monitor" where
  "runLoop [] m = ([], m)"
| "runLoop ((started, err, now) # ticks) m =
     (case checkHealth started err now m of
        (ev, m1) \<Rightarrow> case runLoop ticks m1 of (evs, m2) \<Rightarrow> (case_option evs (\<lambda>e. e # evs) ev, m2))"

section \<open>Streaks\<close>

text \<open>
  The status as a function of the history of pings (\<open>True\<close> a success): degraded exactly when the
  history holds \<open>F\<close> failures in a row that no \<open>R\<close> successes in a row follow.
\<close>

definition degradedBy :: "nat \<Rightarrow> nat \<Rightarrow> bool list \<Rightarrow> bool" where
  "degradedBy F R h \<longleftrightarrow> (\<exists>pre mid. h = pre @ replicate F False @ mid \<and> \<not> sublist (replicate R True) mid)"

definition trail :: "bool \<Rightarrow> bool list \<Rightarrow> nat" where
  "trail b h = length (takeWhile (\<lambda>x. x = b) (rev h))"

lemma trail_Nil [simp]: "trail b [] = 0"
  by (simp add: trail_def)

lemma trail_snoc [simp]: "trail b (h @ [x]) = (if x = b then Suc (trail b h) else 0)"
  by (simp add: trail_def)

lemma suffix_replicate_trail: "suffix (replicate k b) h \<longleftrightarrow> k \<le> trail b h"
proof (induction h arbitrary: k rule: rev_induct)
  case (snoc x h)
  have "suffix (replicate (Suc j) b) (h @ [x]) \<longleftrightarrow> x = b \<and> suffix (replicate j b) h" for j
    by (simp flip: replicate_append_same) auto
  then show ?case using snoc.IH by (cases k) auto
qed simp

lemma no_sublist_Nil: "0 < R \<Longrightarrow> \<not> sublist (replicate R b) []"
  by simp

lemma suffix_past: "suffix (replicate R True) (ys @ False # mid) \<Longrightarrow> suffix (replicate R True) mid"
proof -
  assume "suffix (replicate R True) (ys @ False # mid)"
  then consider "suffix (replicate R True) (False # mid)" | xs' where "replicate R True = xs' @ False # mid"
    by (metis suffix_append)
  then show ?thesis
  proof cases
    case 1
    then show ?thesis by (metis in_set_replicate list.set_intros(1) suffix_Cons)
  next
    case 2
    then have "False \<in> set (replicate R True)" by simp
    then show ?thesis by simp
  qed
qed

lemma degradedBy_fail:
  assumes "0 < F" "0 < R"
  shows "degradedBy F R (h @ [False]) \<longleftrightarrow> degradedBy F R h \<or> F \<le> trail False (h @ [False])"
proof
  assume "degradedBy F R (h @ [False])"
  then obtain pre mid where h: "h @ [False] = pre @ replicate F False @ mid" and n: "\<not> sublist (replicate R True) mid"
    by (auto simp: degradedBy_def)
  show "degradedBy F R h \<or> F \<le> trail False (h @ [False])"
  proof (cases mid rule: rev_cases)
    case Nil
    then have "suffix (replicate F False) (h @ [False])" using h by (simp add: suffix_def)
    then show ?thesis by (simp only: suffix_replicate_trail simp_thms)
  next
    case (snoc mid' x)
    then have "h = pre @ replicate F False @ mid'" using h by simp
    moreover have "\<not> sublist (replicate R True) mid'" using n snoc by (simp add: sublist_snoc)
    ultimately show ?thesis by (auto simp: degradedBy_def)
  qed
next
  assume "degradedBy F R h \<or> F \<le> trail False (h @ [False])"
  then show "degradedBy F R (h @ [False])"
  proof
    assume "degradedBy F R h"
    then obtain pre mid where h: "h = pre @ replicate F False @ mid" and n: "\<not> sublist (replicate R True) mid"
      by (auto simp: degradedBy_def)
    have "\<not> suffix (replicate R True) (mid @ [False])" using assms unfolding suffix_replicate_trail by simp
    then have "\<not> sublist (replicate R True) (mid @ [False])" using n by (simp add: sublist_snoc)
    then show ?thesis using h by (auto simp: degradedBy_def)
  next
    assume "F \<le> trail False (h @ [False])"
    then obtain pre where "h @ [False] = pre @ replicate F False" unfolding suffix_replicate_trail [symmetric] suffix_def by blast
    then show ?thesis using no_sublist_Nil [OF assms(2)] unfolding degradedBy_def by (metis append_Nil2)
  qed
qed

lemma degradedBy_ok:
  assumes "0 < F" "0 < R"
  shows "degradedBy F R (h @ [True]) \<longleftrightarrow> degradedBy F R h \<and> trail True (h @ [True]) < R"
proof
  assume "degradedBy F R (h @ [True])"
  then obtain pre mid where h: "h @ [True] = pre @ replicate F False @ mid" and n: "\<not> sublist (replicate R True) mid"
    by (auto simp: degradedBy_def)
  obtain f where F: "replicate F False = replicate f False @ [False]"
    using assms(1) by (metis gr0_implies_Suc replicate_Suc replicate_append_same)
  obtain mid' where mid: "mid = mid' @ [True]"
    using h F by (cases mid rule: rev_cases) (auto simp flip: append_assoc)
  have "\<not> sublist (replicate R True) mid'" using n mid by (simp add: sublist_snoc)
  then have "degradedBy F R h" using h mid by (auto simp: degradedBy_def)
  moreover have "\<not> suffix (replicate R True) (h @ [True])"
    using n suffix_past [of R "pre @ replicate f False" mid] unfolding h F by auto
  ultimately show "degradedBy F R h \<and> trail True (h @ [True]) < R" unfolding suffix_replicate_trail by simp
next
  assume a: "degradedBy F R h \<and> trail True (h @ [True]) < R"
  then obtain pre mid where h: "h = pre @ replicate F False @ mid" and n: "\<not> sublist (replicate R True) mid"
    by (auto simp: degradedBy_def)
  have "\<not> suffix (replicate R True) (h @ [True])" using a unfolding suffix_replicate_trail by simp
  then have "\<not> suffix (replicate R True) (mid @ [True])" using h by (auto simp: suffix_def)
  then have "\<not> sublist (replicate R True) (mid @ [True])" using n by (simp add: sublist_snoc)
  then show "degradedBy F R (h @ [True])" using h by (auto simp: degradedBy_def)
qed
section \<open>The status of the monitor\<close>

definition pings :: "(instant \<times> string option \<times> instant) list \<Rightarrow> bool list" where
  "pings ticks = map (\<lambda>(started, err, now). err = None) ticks"

lemma pings_simps [simp]: "pings [] = []" "pings (ticks @ ticks') = pings ticks @ pings ticks'"
  "pings [(started, err, now)] = [err = None]"
  by (simp_all add: pings_def)

lemma runLoop_append:
  "runLoop (ticks @ ticks') m = (case runLoop ticks m of (evs, m1) \<Rightarrow> apfst ((@) evs) (runLoop ticks' m1))"
  by (induction ticks m rule: runLoop.induct) (auto simp: apfst_def map_prod_def split: prod.splits option.splits)

abbreviation failT :: "monitorConfig \<Rightarrow> nat" where "failT config \<equiv> nat (mc_FailThreshold (mon_config (NewMonitor config)))"
abbreviation recoverT :: "monitorConfig \<Rightarrow> nat" where "recoverT config \<equiv> nat (mc_RecoverThreshold (mon_config (NewMonitor config)))"

definition statusOf :: "nat \<Rightarrow> nat \<Rightarrow> bool list \<Rightarrow> dbStatus" where
  "statusOf F R h = (if degradedBy F R h then DBStatusDegraded else if True \<in> set h then DBStatusAvailable else DBStatusUnknown)"

definition mon_inv :: "monitorConfig \<Rightarrow> bool list \<Rightarrow> monitor \<Rightarrow> bool" where
  "mon_inv config h m \<longleftrightarrow> mon_config m = mon_config (NewMonitor config) \<and>
     mon_failCount m = int (trail False h) \<and> mon_successCount m = int (trail True h) \<and>
     mon_status m = statusOf (failT config) (recoverT config) h \<and>
     (mon_degradedSince m \<noteq> None \<longleftrightarrow> mon_status m = DBStatusDegraded)"

lemma thresholds_pos: "0 < failT config" "0 < recoverT config"
  by (simp_all add: NewMonitor_def)

lemma threshold_iff:
  "mc_FailThreshold (mon_config (NewMonitor config)) \<le> int n \<longleftrightarrow> failT config \<le> n"
  "mc_RecoverThreshold (mon_config (NewMonitor config)) \<le> int n \<longleftrightarrow> recoverT config \<le> n"
  by auto

lemma statusOf_fail:
  "0 < F \<Longrightarrow> 0 < R \<Longrightarrow>
   statusOf F R (h @ [False]) = (if F \<le> Suc (trail False h) then DBStatusDegraded else statusOf F R h)"
  by (simp add: statusOf_def degradedBy_fail)

lemma statusOf_ok:
  "0 < F \<Longrightarrow> 0 < R \<Longrightarrow>
   statusOf F R (h @ [True]) = (if statusOf F R h = DBStatusDegraded \<and> Suc (trail True h) < R then DBStatusDegraded else DBStatusAvailable)"
  by (simp add: statusOf_def degradedBy_ok)

lemmas statusOf_step = statusOf_fail [OF thresholds_pos] statusOf_ok [OF thresholds_pos]

lemma mon_inv_step:
  assumes inv: "mon_inv config h m"
  shows "mon_inv config (h @ [err = None]) (snd (checkHealth started err now m))"
proof (cases err)
  case None
  have "mon_successCount m + 1 = int (Suc (trail True h))" using inv by (simp add: mon_inv_def)
  then show ?thesis using inv None
    by (cases "mon_status m")
      (auto simp: mon_inv_def checkHealth_def Let_def statusOf_step threshold_iff not_le simp del: of_nat_Suc)
next
  case (Some e)
  have "mon_failCount m + 1 = int (Suc (trail False h))" using inv by (simp add: mon_inv_def)
  then show ?thesis using inv Some
    by (cases "mon_status m = DBStatusDegraded")
      (auto simp: mon_inv_def checkHealth_def Let_def statusOf_step threshold_iff simp del: of_nat_Suc)
qed

lemma mon_inv_run: "mon_inv config (pings ticks) (snd (runLoop ticks (NewMonitor config)))"
proof (induction ticks rule: rev_induct)
  case Nil
  show ?case by (simp add: mon_inv_def statusOf_def degradedBy_def NewMonitor_def)
next
  case (snoc t ticks)
  obtain started err now where t: "t = (started, err, now)" by (cases t)
  show ?case using mon_inv_step [OF snoc.IH, of err started now] unfolding t
    by (simp add: runLoop_append split_beta)
qed
text \<open>
  The monitor's status is exactly what its two thresholds mean over the whole history of pings:
  degraded when some streak of at least \<open>FailThreshold\<close> failures has not been followed by a streak of
  \<open>RecoverThreshold\<close> successes, otherwise available once any ping succeeded, otherwise unknown; and
  a degradation start time is recorded exactly while it is degraded.
\<close>

theorem monitor_status_exact:
  fixes config ticks
  defines "m \<equiv> snd (runLoop ticks (NewMonitor config))"
  defines "F \<equiv> nat (mc_FailThreshold (mon_config m))" and "R \<equiv> nat (mc_RecoverThreshold (mon_config m))"
  shows "mon_status m =
      (if \<exists>pre mid. pings ticks = pre @ replicate F False @ mid \<and> \<not> sublist (replicate R True) mid then DBStatusDegraded
       else if True \<in> set (pings ticks) then DBStatusAvailable else DBStatusUnknown) \<and>
    (mon_degradedSince m \<noteq> None \<longleftrightarrow> mon_status m = DBStatusDegraded)"
  using mon_inv_run [of config ticks] unfolding F_def R_def m_def
  by (simp add: mon_inv_def statusOf_def degradedBy_def)

section \<open>Manual and automatic degradation\<close>

record degradationController =
  dg_manual :: bool
  dg_active :: bool

text \<open>
  \<open>call\<close> is the configured callback: \<open>None\<close> when it is nil, otherwise its result on this
  call. The first component of the result is the error.
\<close>

definition ForceEnter :: "string option option \<Rightarrow> degradationController \<Rightarrow> string option \<times> degradationController" where
  "ForceEnter call c =
     (case call of
        None \<Rightarrow> (Some ''degradation controller not configured'', c)
      | Some (Some e) \<Rightarrow> (Some e, c)
      | Some None \<Rightarrow> (None, c\<lparr>dg_manual := True, dg_active := True\<rparr>))"

definition ForceExit :: "string option option \<Rightarrow> degradationController \<Rightarrow> string option \<times> degradationController" where
  "ForceExit call c =
     (case call of
        None \<Rightarrow> (Some ''degradation controller not configured'', c)
      | Some (Some e) \<Rightarrow> (Some e, c)
      | Some None \<Rightarrow> (None, c\<lparr>dg_manual := False, dg_active := False\<rparr>))"

definition SetAutomaticActive :: "bool \<Rightarrow> degradationController \<Rightarrow> degradationController" where
  "SetAutomaticActive active c = c\<lparr>dg_active := active\<rparr>"

section \<open>Fan-out writer\<close>

text \<open>
  A backend writes one record into the state it owns and reports an error. The fan-out tries all of
  them in order; the states are kept in the same order.
\<close>

type_synonym 's backend = "string \<Rightarrow> string \<Rightarrow> 's \<Rightarrow> writeError option \<times> 's"

record 's multiBackupWriter =
  mw_writers :: "('s backend \<times> 's) list"

definition NewMultiBackupWriter :: "('s backend \<times> 's) option list \<Rightarrow> 's multiBackupWriter" where
  "NewMultiBackupWriter writers = \<lparr>mw_writers = List.map_filter id writers\<rparr>"

definition fanOut :: "string \<Rightarrow> string \<Rightarrow> 's multiBackupWriter option \<Rightarrow> writeError list \<times> 's multiBackupWriter option" where
  "fanOut key payload mw =
     (case mw of
        None \<Rightarrow> ([NotConfigured], None)
      | Some m \<Rightarrow>
          if mw_writers m = [] then ([NotConfigured], Some m)
          else (concat (map (\<lambda>(w, s). case fst (w key payload s) of None \<Rightarrow> [] | Some e \<Rightarrow> [e]) (mw_writers m)),
                Some (m\<lparr>mw_writers := map (\<lambda>(w, s). (w, snd (w key payload s))) (mw_writers m)\<rparr>)))"

text \<open>The in-memory buffer as a backend, with a live context and an encoder that succeeds.\<close>

definition ringBackend :: "instant \<Rightarrow> (string \<Rightarrow> string + string) \<Rightarrow> ringBuffer option backend" where
  "ringBackend now marshal key payload s = WriteRequestLog marshal None now key payload s"

text \<open>
  No backend can make another miss a record: whatever the other backends do, a ring buffer among the
  writers ends with the record as its newest entry and its older entries still in order, and the
  fan-out reports an error exactly when some backend failed.
\<close>

theorem fanout_reaches_ring:
  assumes ws: "mw_writers m = before @ (ringBackend now marshal, Some rb) # after"
    and rb: "rb = snd (run_ops ringStep ops (NewRingBuffer capacity))"
    and enc: "marshal payload = Inr raw"
  shows "\<exists>before' after' rb'.
      snd (fanOut key payload (Some m)) = Some (m\<lparr>mw_writers := before' @ (ringBackend now marshal, Some rb') # after'\<rparr>) \<and>
      length before' = length before \<and>
      Dump rb' = lastN (rb_cap rb) (Dump rb @ [\<lparr>br_Type = ''request_log'', br_Timestamp = now, br_RecordKey = key, br_Payload = raw\<rparr>]) \<and>
      (fst (fanOut key payload (Some m)) = [] \<longleftrightarrow> (\<forall>(w, s)\<in>set (mw_writers m). fst (w key payload s) = None))"
proof -
  let ?rec = "\<lparr>br_Type = ''request_log'', br_Timestamp = now, br_RecordKey = key, br_Payload = raw\<rparr>"
  have inv: "rb_inv rb" unfolding rb by (rule ringbuf.inv_run) simp
  have "sp_entries (rb_abs (pushLocked ?rec rb)) = lastN (rb_cap rb) (Dump rb @ [?rec])"
    using inv unfolding push_simulates [OF inv] by (subst specPush_lastN) (auto simp: rb_abs_def rb_inv_def)
  then have d: "Dump (pushLocked ?rec rb) = lastN (rb_cap rb) (Dump rb @ [?rec])" by (simp add: rb_abs_def)
  have w: "ringBackend now marshal key payload (Some rb) = (None, Some (pushLocked ?rec rb))"
    using enc by (simp add: ringBackend_def WriteRequestLog_def WriteGeneric_def)
  let ?f = "map (\<lambda>(w, s). (w, snd (w key payload s)))"
  have ne: "mw_writers m \<noteq> []" using ws by simp
  then have errs: "fst (fanOut key payload (Some m)) = [] \<longleftrightarrow> (\<forall>(w, s)\<in>set (mw_writers m). fst (w key payload s) = None)"
    using ne by (fastforce simp: fanOut_def split_beta option.case_eq_if)
  have "snd (fanOut key payload (Some m)) = Some (m\<lparr>mw_writers := ?f before @ (ringBackend now marshal, Some (pushLocked ?rec rb)) # ?f after\<rparr>)"
    using w by (simp add: fanOut_def ws)
  with d errs show ?thesis by (intro exI [of _ "?f before"] exI [of _ "?f after"] exI [of _ "pushLocked ?rec rb"]) simp
qed

theorem fanout_reaches_ring_witness:
  "\<exists>before' after' rb'.
      snd (fanOut ''k'' ''p'' (Some \<lparr>mw_writers = [(\<lambda>key p s. (Some (MarshalErr p), s), None),
        (ringBackend 5 Inr, Some (NewRingBuffer 2))]\<rparr>))
        = Some \<lparr>mw_writers = before' @ (ringBackend 5 Inr, Some rb') # after'\<rparr> \<and> length before' = 1 \<and>
      Dump rb' = [\<lparr>br_Type = ''request_log'', br_Timestamp = 5, br_RecordKey = ''k'', br_Payload = ''p''\<rparr>]"
  using fanout_reaches_ring [of "\<lparr>mw_writers = [(\<lambda>key p s. (Some (MarshalErr p), s), None), (ringBackend 5 Inr, Some (NewRingBuffer 2))]\<rparr>"
      "[(\<lambda>key p s. (Some (MarshalErr p), s), None)]" 5 Inr "NewRingBuffer 2" "[]" "[]" 2 "''p''" "''p''" "''k''"]
  by simp blast

end
