(* ===== verification/WRR.thy ===== *)
theory WRR
  imports Prelude
begin

text \<open>
  The smooth weighted round-robin scheduler over credentials, \<open>pool/scheduler/wrr.go\<close>. Weights and
  counters are unbounded integers (the code's \<open>int\<close> and \<open>int64\<close> stay far below their width); the
  pointer \<open>best\<close> is the index it points to together with the current weight found there.
  \<open>wrr_cycle_exact\<close> shows the purpose of the algorithm: shares proportional to the quotas.
\<close>

section \<open>Data and operations\<close>

record credential =
  cr_ID :: int
  cr_ProviderID :: int
  cr_APIKey :: string
  cr_Quota :: int

record weightedCredential =
  wc_Credential :: credential
  wc_Weight :: int
  wc_CurrentWeight :: int
  wc_EffectiveWeight :: int

record wrrScheduler =
  ws_credentials :: "weightedCredential list"
  ws_totalSelections :: int
  ws_perCredential :: "int \<rightharpoonup> int"

datatype wrrError = ErrNoAvailableCredential

definition NewWRRScheduler :: "credential list \<Rightarrow> wrrScheduler" where
  "NewWRRScheduler credentials =
     \<lparr>ws_credentials = map (\<lambda>cred. \<lparr>wc_Credential = cred, wc_Weight = cr_Quota cred, wc_CurrentWeight = 0,
        wc_EffectiveWeight = cr_Quota cred\<rparr>) credentials,
      ws_totalSelections = 0, ws_perCredential = Map.empty\<rparr>"

definition bump :: "weightedCredential \<Rightarrow> weightedCredential" where
  "bump cred = cred\<lparr>wc_CurrentWeight := wc_CurrentWeight cred + wc_EffectiveWeight cred\<rparr>"

fun wrrLoop :: "nat \<Rightarrow> (nat \<times> int) option \<Rightarrow> int \<Rightarrow> weightedCredential list \<Rightarrow> weightedCredential list \<times> (nat \<times> int) option \<times> int" where
  "wrrLoop i best sumW [] = ([], best, sumW)"
| "wrrLoop i best sumW (cred # creds) =
     (let cred' = bump cred;
          best' = (case best of
              None \<Rightarrow> Some (i, wc_CurrentWeight cred')
            | Some (j, b) \<Rightarrow> if b < wc_CurrentWeight cred' then Some (i, wc_CurrentWeight cred') else best)
      in case wrrLoop (Suc i) best' (sumW + wc_EffectiveWeight cred) creds of (creds', b, t) \<Rightarrow> (cred' # creds', b, t))"

definition selectBest :: "weightedCredential list \<Rightarrow> nat option \<times> weightedCredential list" where
  "selectBest creds =
     (case wrrLoop 0 None 0 creds of
        (creds', None, sumW) \<Rightarrow> (None, creds')
      | (creds', Some (i, b), sumW) \<Rightarrow>
          (Some i, if 0 < sumW then creds'[i := (creds' ! i)\<lparr>wc_CurrentWeight := wc_CurrentWeight (creds' ! i) - sumW\<rparr>] else creds'))"

definition wrr_Select :: "wrrScheduler \<Rightarrow> (wrrError + credential) \<times> wrrScheduler" where
  "wrr_Select s =
     (if ws_credentials s = [] then (Inl ErrNoAvailableCredential, s)
      else case selectBest (ws_credentials s) of
             (None, creds') \<Rightarrow> (Inl ErrNoAvailableCredential, s\<lparr>ws_credentials := creds'\<rparr>)
           | (Some i, creds') \<Rightarrow>
               let cred = wc_Credential (creds' ! i); n = (case ws_perCredential s (cr_ID cred) of None \<Rightarrow> 0 | Some n \<Rightarrow> n)
               in (Inr cred, s\<lparr>ws_credentials := creds', ws_totalSelections := ws_totalSelections s + 1,
                     ws_perCredential := (ws_perCredential s)(cr_ID cred \<mapsto> n + 1)\<rparr>))"

fun setWeight :: "int \<Rightarrow> int \<Rightarrow> weightedCredential list \<Rightarrow> weightedCredential list" where
  "setWeight credID weight [] = []"
| "setWeight credID weight (cred # creds) =
     (if cr_ID (wc_Credential cred) = credID then cred\<lparr>wc_EffectiveWeight := weight\<rparr> # creds
      else cred # setWeight credID weight creds)"

definition UpdateWeight :: "int \<Rightarrow> int \<Rightarrow> wrrScheduler \<Rightarrow> wrrScheduler" where
  "UpdateWeight credID weight s = s\<lparr>ws_credentials := setWeight credID weight (ws_credentials s)\<rparr>"

text \<open>How often a credential was selected, as \<open>Metrics\<close> reports it (an absent key reads as zero).\<close>

definition selectedTimes :: "wrrScheduler \<Rightarrow> int \<Rightarrow> int" where
  "selectedTimes s credID = (case ws_perCredential s credID of None \<Rightarrow> 0 | Some n \<Rightarrow> n)"

section \<open>One selection\<close>

definition sumWeights :: "weightedCredential list \<Rightarrow> int" where
  "sumWeights creds = sum_list (map wc_EffectiveWeight creds)"

lemma bump_simps [simp]:
  "wc_Credential (bump c) = wc_Credential c" "wc_EffectiveWeight (bump c) = wc_EffectiveWeight c"
  "wc_CurrentWeight (bump c) = wc_CurrentWeight c + wc_EffectiveWeight c"
  by (simp_all add: bump_def)

lemma wrrLoop_list: "fst (wrrLoop i best t creds) = map bump creds"
  by (induction creds arbitrary: i best t) (simp_all add: Let_def split_beta)

lemma wrrLoop_sum: "snd (snd (wrrLoop i best t creds)) = t + sumWeights creds"
  by (induction creds arbitrary: i best t) (simp_all add: Let_def split_beta sumWeights_def)

text \<open>The index kept by the loop carries the largest current weight seen so far, the first of equals.\<close>

definition best_of :: "weightedCredential list \<Rightarrow> (nat \<times> int) option \<Rightarrow> bool" where
  "best_of seen best \<longleftrightarrow> (case best of
     None \<Rightarrow> seen = []
   | Some (k, b) \<Rightarrow> k < length seen \<and> b = wc_CurrentWeight (seen ! k) \<and>
       (\<forall>j<length seen. wc_CurrentWeight (seen ! j) \<le> b) \<and> (\<forall>j<k. wc_CurrentWeight (seen ! j) < b))"

lemma wrrLoop_best:
  "best_of seen best \<Longrightarrow> i = length seen \<Longrightarrow> best_of (seen @ map bump creds) (fst (snd (wrrLoop i best t creds)))"
proof (induction i best t creds arbitrary: seen rule: wrrLoop.induct)
  case (2 i best t cred creds)
  let ?best = "case best of None \<Rightarrow> Some (i, wc_CurrentWeight (bump cred))
    | Some (j, b) \<Rightarrow> if b < wc_CurrentWeight (bump cred) then Some (i, wc_CurrentWeight (bump cred)) else best"
  have "best_of (seen @ [bump cred]) ?best"
    using "2.prems" by (force simp: best_of_def nth_append less_Suc_eq split: option.splits)
  then have "best_of ((seen @ [bump cred]) @ map bump creds) (fst (snd (wrrLoop (Suc i) ?best (t + wc_EffectiveWeight cred) creds)))"
    using "2.prems" by (intro "2.IH") (auto simp: Let_def)
  then show ?case by (simp add: Let_def split_beta)
qed simp

lemma selectBest_cases:
  assumes "creds \<noteq> []"
  obtains k where "k < length creds" "fst (selectBest creds) = Some k"
    "\<And>j. j < length creds \<Longrightarrow> wc_CurrentWeight (bump (creds ! j)) \<le> wc_CurrentWeight (bump (creds ! k))"
    "\<And>j. j < k \<Longrightarrow> wc_CurrentWeight (bump (creds ! j)) < wc_CurrentWeight (bump (creds ! k))"
    "snd (selectBest creds) = (if 0 < sumWeights creds
       then (map bump creds)[k := (bump (creds ! k))\<lparr>wc_CurrentWeight := wc_CurrentWeight (bump (creds ! k)) - sumWeights creds\<rparr>]
       else map bump creds)"
proof -
  obtain cs best t where l: "wrrLoop 0 None 0 creds = (cs, best, t)" by (metis prod_cases3)
  have cs: "cs = map bump creds" and t: "t = sumWeights creds"
    using wrrLoop_list [of 0 None 0 creds] wrrLoop_sum [of 0 None 0 creds] unfolding l by simp_all
  have "best_of cs best" using wrrLoop_best [of "[]" None 0 creds 0] unfolding l cs by (simp add: best_of_def)
  moreover have "cs \<noteq> []" using assms cs by simp
  ultimately obtain k b where best: "best = Some (k, b)" by (auto simp: best_of_def split: option.splits)
  show thesis
  proof (rule that [of k])
    show "k < length creds" using \<open>best_of cs best\<close> by (simp add: best_of_def best cs)
    then show "snd (selectBest creds) = (if 0 < sumWeights creds
       then (map bump creds)[k := (bump (creds ! k))\<lparr>wc_CurrentWeight := wc_CurrentWeight (bump (creds ! k)) - sumWeights creds\<rparr>]
       else map bump creds)" by (simp add: selectBest_def l best cs t)
  qed (use \<open>best_of cs best\<close> in \<open>auto simp: selectBest_def l best_of_def best cs\<close>)
qed
lemma Select_cases:
  assumes "ws_credentials s \<noteq> []" "0 < sumWeights (ws_credentials s)"
  obtains k where "k < length (ws_credentials s)"
    "\<And>j. j < length (ws_credentials s) \<Longrightarrow>
       wc_CurrentWeight (bump (ws_credentials s ! j)) \<le> wc_CurrentWeight (bump (ws_credentials s ! k))"
    "fst (wrr_Select s) = Inr (wc_Credential (ws_credentials s ! k))"
    "snd (wrr_Select s) = s\<lparr>ws_credentials := (map bump (ws_credentials s))[k := (bump (ws_credentials s ! k))
         \<lparr>wc_CurrentWeight := wc_CurrentWeight (bump (ws_credentials s ! k)) - sumWeights (ws_credentials s)\<rparr>],
       ws_totalSelections := ws_totalSelections s + 1,
       ws_perCredential := (ws_perCredential s)(cr_ID (wc_Credential (ws_credentials s ! k)) \<mapsto>
         selectedTimes s (cr_ID (wc_Credential (ws_credentials s ! k))) + 1)\<rparr>"
proof -
  obtain k where k: "k < length (ws_credentials s)" "fst (selectBest (ws_credentials s)) = Some k"
    "\<And>j. j < length (ws_credentials s) \<Longrightarrow>
       wc_CurrentWeight (bump (ws_credentials s ! j)) \<le> wc_CurrentWeight (bump (ws_credentials s ! k))"
    and c: "snd (selectBest (ws_credentials s)) = (map bump (ws_credentials s))[k := (bump (ws_credentials s ! k))
      \<lparr>wc_CurrentWeight := wc_CurrentWeight (bump (ws_credentials s ! k)) - sumWeights (ws_credentials s)\<rparr>]"
    using selectBest_cases [OF assms(1)] assms(2) by metis
  obtain cs where sb: "selectBest (ws_credentials s) = (Some k, cs)" using k(2) by (metis fst_conv surj_pair)
  have cs: "cs = (map bump (ws_credentials s))[k := (bump (ws_credentials s ! k))
      \<lparr>wc_CurrentWeight := wc_CurrentWeight (bump (ws_credentials s ! k)) - sumWeights (ws_credentials s)\<rparr>]"
    using c sb by simp
  have "wc_Credential (cs ! k) = wc_Credential (ws_credentials s ! k)" using k(1) by (simp add: cs)
  with sb assms(1) show thesis
    by (intro that [OF k(1) k(3)]) (simp_all add: wrr_Select_def selectedTimes_def Let_def cs)
qed

section \<open>Shares\<close>

definition selectN :: "nat \<Rightarrow> wrrScheduler \<Rightarrow> wrrScheduler" where
  "selectN t s = ((\<lambda>s. snd (wrr_Select s)) ^^ t) s"

lemma selectN_simps [simp]: "selectN 0 s = s" "selectN (Suc t) s = snd (wrr_Select (selectN t s))"
  by (simp_all add: selectN_def)

definition quotas :: "credential list \<Rightarrow> int" where
  "quotas creds = sum_list (map cr_Quota creds)"

text \<open>
  The account of \<open>t\<close> selections: every current weight is the share due minus the share received,
  and no credential is a full cycle ahead.
\<close>

definition wrr_account :: "credential list \<Rightarrow> nat \<Rightarrow> wrrScheduler \<Rightarrow> bool" where
  "wrr_account creds t s \<longleftrightarrow>
     map wc_Credential (ws_credentials s) = creds \<and>
     (\<forall>c\<in>set (ws_credentials s). wc_EffectiveWeight c = cr_Quota (wc_Credential c) \<and>
        wc_CurrentWeight c = int t * cr_Quota (wc_Credential c) - quotas creds * selectedTimes s (cr_ID (wc_Credential c)) \<and>
        - quotas creds < wc_CurrentWeight c) \<and>
     ws_totalSelections s = int t \<and> (\<Sum>c\<leftarrow>creds. selectedTimes s (cr_ID c)) = int t"

lemma sum_list_pos_ex: "0 < sum_list (map f xs) \<Longrightarrow> \<exists>x\<in>set xs. 0 < (f x :: int)"
proof (rule ccontr)
  assume "0 < sum_list (map f xs)" and "\<not> (\<exists>x\<in>set xs. 0 < f x)"
  then have "sum_list (map f xs) \<le> sum_list (map (\<lambda>x. 0) xs)" by (intro sum_list_mono) (meson not_less)
  with \<open>0 < sum_list (map f xs)\<close> show False by simp
qed

lemma sum_list_bump_one:
  assumes "distinct (map h xs)" "k < length xs"
  shows "(\<Sum>x\<leftarrow>xs. if h x = h (xs ! k) then f (h x) + 1 else f (h x)) = (\<Sum>x\<leftarrow>xs. f (h x)) + (1 :: int)"
  using assms
proof (induction xs arbitrary: k)
  case (Cons x xs)
  show ?case
  proof (cases k)
    case 0
    have "map (\<lambda>y. if h y = h x then f (h y) + 1 else f (h y)) xs = map (\<lambda>y. f (h y)) xs"
      using Cons.prems by (force simp: image_iff)
    then show ?thesis using 0 by (simp del: map_eq_conv)
  next
    case (Suc j)
    then have "h x \<noteq> h (xs ! j)" using Cons.prems by (metis distinct.simps(2) image_eqI length_Cons list.simps(9) list.set_map not_less_eq nth_mem)
    then show ?thesis using Suc Cons.IH [of j] Cons.prems by simp
  qed
qed simp
lemma account_sums:
  assumes "wrr_account creds t s"
  shows "sumWeights (ws_credentials s) = quotas creds" and "(\<Sum>c\<leftarrow>ws_credentials s. wc_CurrentWeight c) = 0"
proof -
  let ?cs = "ws_credentials s"
  have m: "map wc_Credential ?cs = creds" and
    e: "\<And>c. c \<in> set ?cs \<Longrightarrow> wc_EffectiveWeight c = cr_Quota (wc_Credential c)" and
    w: "\<And>c. c \<in> set ?cs \<Longrightarrow> wc_CurrentWeight c =
      int t * cr_Quota (wc_Credential c) - quotas creds * selectedTimes s (cr_ID (wc_Credential c))"
    and n: "(\<Sum>c\<leftarrow>creds. selectedTimes s (cr_ID c)) = int t"
    using assms by (auto simp: wrr_account_def)
  have "map wc_EffectiveWeight ?cs = map cr_Quota creds" unfolding m [symmetric] using e by simp
  then show "sumWeights ?cs = quotas creds" by (simp add: sumWeights_def quotas_def)
  have "map wc_CurrentWeight ?cs = map (\<lambda>c. int t * cr_Quota c - quotas creds * selectedTimes s (cr_ID c)) creds"
  proof -
    have "map wc_CurrentWeight ?cs = map ((\<lambda>c. int t * cr_Quota c - quotas creds * selectedTimes s (cr_ID c)) \<circ> wc_Credential) ?cs"
      using w by simp
    also have "\<dots> = map (\<lambda>c. int t * cr_Quota c - quotas creds * selectedTimes s (cr_ID c)) (map wc_Credential ?cs)"
      by (simp del: map_map add: map_map [symmetric])
    finally show ?thesis unfolding m .
  qed
  then show "(\<Sum>c\<leftarrow>?cs. wc_CurrentWeight c) = 0"
    using n by (simp add: sum_list_subtractf sum_list_const_mult quotas_def)
qed

lemma account_step:
  assumes acc: "wrr_account creds t s" and ids: "distinct (map cr_ID creds)"
    and quota: "\<And>c. c \<in> set creds \<Longrightarrow> 0 \<le> cr_Quota c" and W: "0 < quotas creds"
  shows "wrr_account creds (Suc t) (snd (wrr_Select s))"
proof -
  let ?cs = "ws_credentials s" and ?W = "quotas creds"
  have m: "map wc_Credential ?cs = creds" using acc by (simp add: wrr_account_def)
  have len: "length ?cs = length creds" using m by (metis length_map)
  have ne: "?cs \<noteq> []" using W m by (auto simp: quotas_def)
  note sums = account_sums [OF acc]
  obtain k where k: "k < length ?cs"
    and best: "\<And>j. j < length ?cs \<Longrightarrow> wc_CurrentWeight (bump (?cs ! j)) \<le> wc_CurrentWeight (bump (?cs ! k))"
    and s': "snd (wrr_Select s) = s\<lparr>ws_credentials := (map bump ?cs)[k := (bump (?cs ! k))\<lparr>wc_CurrentWeight := wc_CurrentWeight (bump (?cs ! k)) - ?W\<rparr>],
       ws_totalSelections := ws_totalSelections s + 1,
       ws_perCredential := (ws_perCredential s)(cr_ID (wc_Credential (?cs ! k)) \<mapsto> selectedTimes s (cr_ID (wc_Credential (?cs ! k))) + 1)\<rparr>"
    using Select_cases [OF ne] W unfolding sums(1) by metis
  have "0 < (\<Sum>c\<leftarrow>?cs. wc_CurrentWeight (bump c))"
    using sums W by (simp add: sum_list_addf sumWeights_def)
  then have pos: "0 < wc_CurrentWeight (bump (?cs ! k))"
    using sum_list_pos_ex best by (metis in_set_conv_nth less_le_trans)
  have ck: "wc_Credential (?cs ! k) = creds ! k" using m k by auto
  have sel: "selectedTimes (snd (wrr_Select s)) i = (if i = cr_ID (creds ! k) then selectedTimes s i + 1 else selectedTimes s i)" for i
    unfolding s' by (simp add: selectedTimes_def ck)
  have entry: "wc_EffectiveWeight c = cr_Quota (wc_Credential c) \<and>
      wc_CurrentWeight c = int (Suc t) * cr_Quota (wc_Credential c) - ?W * selectedTimes (snd (wrr_Select s)) (cr_ID (wc_Credential c)) \<and>
      - ?W < wc_CurrentWeight c" if mem: "c \<in> set (ws_credentials (snd (wrr_Select s)))" for c
  proof -
    obtain j where j: "j < length ?cs"
      and c: "c = (if j = k then (bump (?cs ! k))\<lparr>wc_CurrentWeight := wc_CurrentWeight (bump (?cs ! k)) - ?W\<rparr> else bump (?cs ! j))"
    proof -
      obtain j where "j < length ?cs" "c = ws_credentials (snd (wrr_Select s)) ! j"
        using mem by (auto simp: in_set_conv_nth s')
      then show thesis by (intro that [of j]) (auto simp: s' nth_list_update)
    qed
    have cj: "wc_Credential (?cs ! j) = creds ! j" using m j by auto
    have "?cs ! j \<in> set ?cs" using j by simp
    with acc cj have old: "wc_EffectiveWeight (?cs ! j) = cr_Quota (creds ! j)"
      "wc_CurrentWeight (?cs ! j) = int t * cr_Quota (creds ! j) - ?W * selectedTimes s (cr_ID (creds ! j))"
      "- ?W < wc_CurrentWeight (?cs ! j)"
      unfolding wrr_account_def by metis+
    have "cr_ID (creds ! j) = cr_ID (creds ! k) \<longleftrightarrow> j = k"
      using ids j k by (simp add: len distinct_conv_nth) metis
    moreover have "0 \<le> cr_Quota (creds ! j)" using quota j len by simp
    ultimately show ?thesis using old cj pos unfolding c sel by (auto simp: algebra_simps)
  qed
  have "map wc_Credential (ws_credentials (snd (wrr_Select s))) = creds"
    using m k unfolding s' by (auto simp: list_eq_iff_nth_eq nth_list_update)
  moreover have "(\<Sum>c\<leftarrow>creds. selectedTimes (snd (wrr_Select s)) (cr_ID c)) = int (Suc t)"
    using sum_list_bump_one [OF ids, of k "selectedTimes s"] k acc unfolding sel by (simp add: len wrr_account_def)
  moreover have "ws_totalSelections (snd (wrr_Select s)) = int (Suc t)" using acc unfolding s' by (simp add: wrr_account_def)
  ultimately show ?thesis using entry unfolding wrr_account_def by blast
qed

lemma account_run:
  assumes "distinct (map cr_ID creds)" "\<And>c. c \<in> set creds \<Longrightarrow> 0 \<le> cr_Quota c" "0 < quotas creds"
  shows "wrr_account creds t (selectN t (NewWRRScheduler creds))"
proof (induction t)
  case 0
  have "(\<Sum>c\<leftarrow>creds. selectedTimes (NewWRRScheduler creds) (cr_ID c)) = 0"
    by (simp add: selectedTimes_def NewWRRScheduler_def)
  then show ?case using assms by (auto simp: wrr_account_def NewWRRScheduler_def selectedTimes_def comp_def)
next
  case (Suc t)
  then show ?case using account_step [OF Suc assms] by simp
qed
lemma account_entry:
  assumes "wrr_account creds t s" "c \<in> set creds"
  shows "quotas creds * selectedTimes s (cr_ID c) < int t * cr_Quota c + quotas creds"
proof -
  have "c \<in> wc_Credential ` set (ws_credentials s)" using assms by (auto simp: wrr_account_def simp flip: set_map)
  then obtain wc where "wc \<in> set (ws_credentials s)" "wc_Credential wc = c" by auto
  then show ?thesis using assms(1) unfolding wrr_account_def by force
qed

lemma sum_list_eq_pointwise:
  assumes "(\<Sum>x\<leftarrow>xs. f x) = (\<Sum>x\<leftarrow>xs. g x)" "\<And>x. x \<in> set xs \<Longrightarrow> f x \<le> (g x :: int)" "x \<in> set xs"
  shows "f x = g x"
  using assms
proof (induction xs)
  case (Cons y ys)
  have "(\<Sum>x\<leftarrow>ys. f x) \<le> (\<Sum>x\<leftarrow>ys. g x)" using Cons.prems(2) by (intro sum_list_mono) simp
  moreover have "f y \<le> g y" using Cons.prems(2) by simp
  ultimately have "f y = g y" "(\<Sum>x\<leftarrow>ys. f x) = (\<Sum>x\<leftarrow>ys. g x)" using Cons.prems(1) by simp_all
  then show ?case using Cons by auto
qed simp

text \<open>
  C33.
  Proportional shares: over any number of full cycles (a cycle is as many selections as the quotas
  sum to) each credential is selected exactly its quota times the number of cycles.
\<close>

theorem wrr_cycle_exact:
  assumes ids: "distinct (map cr_ID creds)" and quota: "\<forall>c\<in>set creds. 0 \<le> cr_Quota c"
    and W: "0 < sum_list (map cr_Quota creds)" and c: "c \<in> set creds"
  shows "selectedTimes (selectN (n * nat (sum_list (map cr_Quota creds))) (NewWRRScheduler creds)) (cr_ID c) = int n * cr_Quota c"
proof -
  let ?W = "quotas creds"
  let ?s = "selectN (n * nat ?W) (NewWRRScheduler creds)"
  have W': "0 < ?W" using W by (simp add: quotas_def)
  have acc: "wrr_account creds (n * nat ?W) ?s" using account_run [OF ids] quota W' by blast
  have "(\<Sum>c\<leftarrow>creds. selectedTimes ?s (cr_ID c)) = (\<Sum>c\<leftarrow>creds. int n * cr_Quota c)"
    using acc W' by (simp add: wrr_account_def sum_list_const_mult quotas_def)
  moreover have "selectedTimes ?s (cr_ID d) \<le> int n * cr_Quota d" if "d \<in> set creds" for d
  proof -
    have "?W * selectedTimes ?s (cr_ID d) < ?W * (int n * cr_Quota d + 1)"
      using account_entry [OF acc that] W' by (simp add: algebra_simps)
    then show ?thesis using W' by simp
  qed
  ultimately have "selectedTimes ?s (cr_ID c) = int n * cr_Quota c"
    using c by (rule sum_list_eq_pointwise)
  then show ?thesis by (simp add: quotas_def)
qed

abbreviation demoCred :: "int \<Rightarrow> int \<Rightarrow> credential" where
  "demoCred i q \<equiv> \<lparr>cr_ID = i, cr_ProviderID = 7, cr_APIKey = ''k'', cr_Quota = q\<rparr>"

theorem wrr_cycle_exact_witness:
  "selectedTimes (selectN (2 * nat (sum_list (map cr_Quota [demoCred 1 5, demoCred 2 3]))) (NewWRRScheduler [demoCred 1 5, demoCred 2 3]))
     (cr_ID (demoCred 2 3)) = 6"
  using wrr_cycle_exact [of "[demoCred 1 5, demoCred 2 3]" "demoCred 2 3" 2] by simp

text \<open>
  Smoothness: after any number of selections no credential has been selected one full time more than
  its proportional share, and none lags behind by as many selections as there are other credentials.
\<close>

theorem wrr_deviation_bounded:
  assumes ids: "distinct (map cr_ID creds)" and quota: "\<forall>c\<in>set creds. 0 \<le> cr_Quota c"
    and W: "0 < sum_list (map cr_Quota creds)" and i: "i < length creds"
  shows "sum_list (map cr_Quota creds) * (selectedTimes (selectN t (NewWRRScheduler creds)) (cr_ID (creds ! i)) - 1) < int t * cr_Quota (creds ! i) \<and>
    int t * cr_Quota (creds ! i) \<le>
      sum_list (map cr_Quota creds) * (selectedTimes (selectN t (NewWRRScheduler creds)) (cr_ID (creds ! i)) + (int (length creds) - 1))"
proof -
  let ?W = "quotas creds" and ?s = "selectN t (NewWRRScheduler creds)"
  let ?d = "\<lambda>c. int t * cr_Quota c - ?W * selectedTimes ?s (cr_ID c)"
  have acc: "wrr_account creds t ?s" using account_run [OF ids] quota W by (simp add: quotas_def)
  have lo: "- ?W \<le> ?d c" if "c \<in> set creds" for c using account_entry [OF acc that] by simp
  have "(\<Sum>c\<leftarrow>creds. ?d c) = 0"
    using acc by (simp add: wrr_account_def sum_list_subtractf sum_list_const_mult quotas_def)
  then have "?d (creds ! i) = - (\<Sum>c\<leftarrow>take i creds. ?d c) - (\<Sum>c\<leftarrow>drop (Suc i) creds. ?d c)"
    using i by (subst (asm) id_take_nth_drop [OF i]) simp
  moreover have "(\<Sum>c\<leftarrow>xs. - ?W) \<le> (\<Sum>c\<leftarrow>xs. ?d c)" if "set xs \<subseteq> set creds" for xs
    using that lo by (intro sum_list_mono) blast
  from this [of "take i creds"] this [of "drop (Suc i) creds"]
  have "- (int i * ?W) \<le> (\<Sum>c\<leftarrow>take i creds. ?d c)" "- (int (length creds - Suc i) * ?W) \<le> (\<Sum>c\<leftarrow>drop (Suc i) creds. ?d c)"
    using i by (simp_all add: sum_list_triv set_take_subset set_drop_subset)
  ultimately have "?d (creds ! i) \<le> int i * ?W + int (length creds - Suc i) * ?W" by linarith
  also have "\<dots> = (int (length creds) - 1) * ?W" using i by (simp add: algebra_simps of_nat_diff)
  finally show ?thesis using account_entry [OF acc, of "creds ! i"] i by (simp add: quotas_def algebra_simps)
qed

theorem wrr_deviation_bounded_witness:
  "8 * (selectedTimes (selectN 11 (NewWRRScheduler [demoCred 1 5, demoCred 2 3])) 1 - 1) < (55 :: int)"
  using wrr_deviation_bounded [of "[demoCred 1 5, demoCred 2 3]" 0 11] by simp

end
