(* ===== verification/NodeBitmap.thy ===== *)
theory NodeBitmap
  imports Prelude
begin

unbundle bit_operations_syntax

text \<open>
  The bit planes of node states, \<open>domains/nodestatecache/bitmap.go\<close>: for every dense node id one
  bit each for available, to be probed and full, packed in 64-bit words. Ids are the \<open>int32\<close> of the
  code as 32-bit words; an index beyond the plane is Go's panic, \<open>None\<close>. An atomic or and and of
  one word is one step. \<open>bitmap_refines\<close> shows that the planes are three sets of ids, and
  \<open>foreachSet_exact\<close> that the scan with \<open>w &= w - 1\<close> enumerates a set in order.
\<close>

section \<open>Operations\<close>

datatype plane = planeAvail | planeProbe | planeFull

record bitmapTable =
  bt_planes :: "plane \<Rightarrow> 64 word list"

definition uint64Words :: "32 word \<Rightarrow> nat" where
  "uint64Words capacity = unat ((capacity + 1 + 63) div 64)"

definition newBitmapTable :: "32 word \<Rightarrow> bitmapTable" where
  "newBitmapTable capacity = \<lparr>bt_planes = (\<lambda>p. replicate (uint64Words capacity) 0)\<rparr>"

definition wordOf :: "32 word \<Rightarrow> nat \<times> 64 word" where
  "wordOf u = (unat (drop_bit 6 u), push_bit (unat (u AND 63)) 1)"

definition modifyWord :: "(64 word \<Rightarrow> 64 word) \<Rightarrow> plane \<Rightarrow> nat \<Rightarrow> bitmapTable \<Rightarrow> bitmapTable option" where
  "modifyWord f p idx b =
     (if idx < length (bt_planes b p) then Some (b\<lparr>bt_planes := (bt_planes b)(p := (bt_planes b p)[idx := f (bt_planes b p ! idx)])\<rparr>)
      else None)"

definition bm_set :: "plane \<Rightarrow> 32 word \<Rightarrow> bitmapTable \<Rightarrow> bitmapTable option" where
  "bm_set p u b = (case wordOf u of (idx, m) \<Rightarrow> modifyWord (\<lambda>w. w OR m) p idx b)"

definition bm_clear :: "plane \<Rightarrow> 32 word \<Rightarrow> bitmapTable \<Rightarrow> bitmapTable option" where
  "bm_clear p u b = (case wordOf u of (idx, m) \<Rightarrow> modifyWord (\<lambda>w. w AND NOT m) p idx b)"

definition bm_test :: "plane \<Rightarrow> 32 word \<Rightarrow> bitmapTable \<Rightarrow> bool option" where
  "bm_test p u b = (case wordOf u of (idx, m) \<Rightarrow>
     if idx < length (bt_planes b p) then Some (bt_planes b p ! idx AND m \<noteq> 0) else None)"

definition transition :: "bool \<Rightarrow> bool \<Rightarrow> 32 word \<Rightarrow> bitmapTable \<Rightarrow> bitmapTable option" where
  "transition clearAvail setProbe u b =
     Option.bind (if clearAvail then bm_clear planeAvail u b else Some b) (\<lambda>b1. if setProbe then bm_set planeProbe u b1 else Some b1)"

definition MarkAvailable :: "32 word \<Rightarrow> bitmapTable \<Rightarrow> bitmapTable option" where
  "MarkAvailable u b = Option.bind (bm_set planeAvail u b) (bm_clear planeProbe u)"

definition MarkProbing :: "32 word \<Rightarrow> bitmapTable \<Rightarrow> bitmapTable option" where
  "MarkProbing u b = transition True True u b"

text \<open>\<open>bits.TrailingZeros64\<close> and \<open>bits.OnesCount64\<close> of the standard library.\<close>

definition TrailingZeros64 :: "64 word \<Rightarrow> nat" where
  "TrailingZeros64 w = length (takeWhile (\<lambda>i. \<not> bit w i) [0..<64])"

definition OnesCount64 :: "64 word \<Rightarrow> nat" where
  "OnesCount64 w = length (filter (bit w) [0..<64])"

section \<open>Clearing the lowest bit\<close>

lemma TrailingZeros64_props:
  assumes "w \<noteq> 0"
  shows "TrailingZeros64 w < 64" "bit w (TrailingZeros64 w)" "\<And>i. i < TrailingZeros64 w \<Longrightarrow> \<not> bit w i"
proof -
  obtain n where "bit w n" using assms by (metis bit_eqI bit_0_eq bot_apply bot_bool_def)
  then have "n < 64" using bit_imp_le_length [of w n] by simp
  then have ex: "\<exists>i\<in>set [0..<64]. bit w i" using \<open>bit w n\<close> by auto
  let ?k = "TrailingZeros64 w"
  have "?k < length [0..<64]" unfolding TrailingZeros64_def using ex
    by (metis (mono_tags, lifting) le_neq_implies_less length_takeWhile_le takeWhile_eq_all_conv takeWhile_eq_take take_all_iff linorder_not_le)
  then show k: "?k < 64" by simp
  then show "bit w ?k" using nth_length_takeWhile [of "\<lambda>i. \<not> bit w i" "[0..<64]"] by (simp add: TrailingZeros64_def)
  show "\<not> bit w i" if "i < ?k" for i
    using takeWhile_nth [of i "\<lambda>i. \<not> bit w i" "[0..<64]"] nth_mem [of i "takeWhile (\<lambda>i. \<not> bit w i) [0..<64]"] that k
    by (auto simp: TrailingZeros64_def dest: set_takeWhileD)
qed

lemma nat_lowest_bit:
  fixes a :: nat
  assumes low: "\<And>i. i < k \<Longrightarrow> \<not> bit a i" and k: "bit a k"
  shows "bit (a - 1) n \<longleftrightarrow> (if n < k then True else if n = k then False else bit a n)"
proof -
  have "take_bit k a = 0" by (rule bit_eqI) (use low in \<open>auto simp: bit_take_bit_iff\<close>)
  then have "a mod 2 ^ k = 0" by (simp add: take_bit_eq_mod)
  moreover have "odd (a div 2 ^ k)" using k by (simp add: bit_iff_odd)
  ultimately obtain m where a: "a = 2 ^ k * (2 * m + 1)"
    by (metis mult_div_mod_eq add.right_neutral oddE)
  have a1: "a - 1 = push_bit (Suc k) m + mask k"
    by (simp add: a push_bit_eq_mult mask_eq_exp_minus_1 algebra_simps)
  have "bit (a - 1) n = bit (push_bit (Suc k) m OR mask k) n"
    unfolding a1 by (subst disjunctive_add) (auto simp: bit_push_bit_iff bit_mask_iff)
  moreover have "bit a n = bit (push_bit (Suc k) m OR push_bit k 1) n"
  proof -
    have "a = push_bit (Suc k) m + push_bit k 1" by (simp add: a push_bit_eq_mult algebra_simps)
    also have "\<dots> = push_bit (Suc k) m OR push_bit k 1"
      by (rule disjunctive_add) (auto simp: bit_push_bit_iff bit_exp_iff bit_0)
    finally show ?thesis by simp
  qed
  ultimately show ?thesis by (auto simp: bit_or_iff bit_push_bit_iff bit_mask_iff bit_exp_iff bit_0)
qed

lemma lowest_bit_cleared:
  assumes "w \<noteq> (0 :: 64 word)"
  shows "bit (w AND (w - 1)) n \<longleftrightarrow> bit w n \<and> n \<noteq> TrailingZeros64 w"
proof -
  note tz = TrailingZeros64_props [OF assms]
  have "bit (unat (w - 1)) n \<longleftrightarrow> bit (unat w - 1) n" using assms by (simp add: unat_minus_one)
  also have "\<dots> \<longleftrightarrow> (if n < TrailingZeros64 w then True else if n = TrailingZeros64 w then False else bit (unat w) n)"
    by (rule nat_lowest_bit) (use tz in \<open>auto simp: bit_unsigned_iff\<close>)
  finally show ?thesis using tz by (auto simp: bit_and_iff bit_unsigned_iff split: if_splits)
qed
lemma filter_lowest_bit:
  assumes "w \<noteq> (0 :: 64 word)"
  shows "filter (bit w) [0..<64] = TrailingZeros64 w # filter (bit (w AND (w - 1))) [0..<64]"
proof -
  let ?k = "TrailingZeros64 w"
  note tz = TrailingZeros64_props [OF assms]
  have split: "[0..<64] = [0..<?k] @ ?k # [Suc ?k..<64]" using tz(1) upt_add_eq_append [of 0 ?k "64 - ?k"] by (simp add: upt_conv_Cons)
  have "filter (bit w) [0..<?k] = []" "filter (bit (w AND (w - 1))) [0..<?k] = []"
    using tz by (auto simp: filter_empty_conv lowest_bit_cleared [OF assms])
  moreover have "filter (bit (w AND (w - 1))) [Suc ?k..<64] = filter (bit w) [Suc ?k..<64]"
    by (intro filter_cong refl) (auto simp: lowest_bit_cleared [OF assms])
  ultimately show ?thesis unfolding split using tz(2) by (simp add: lowest_bit_cleared [OF assms])
qed

section \<open>Scanning a plane\<close>

text \<open>The inner loop of \<open>foreachSet\<close>; the ids are those passed to the callback.\<close>

function scanWord :: "nat \<Rightarrow> 64 word \<Rightarrow> 32 word list" where
  "scanWord idx w = (if w = 0 then [] else word_of_nat (idx * 64 + TrailingZeros64 w) # scanWord idx (w AND (w - 1)))"
  by pat_completeness auto
termination
proof (relation "measure (\<lambda>(idx, w). OnesCount64 w)", goal_cases)
  case (2 idx w)
  then show ?case using filter_lowest_bit [of w] by (simp add: OnesCount64_def)
qed simp

declare scanWord.simps [simp del]

definition foreachSet :: "plane \<Rightarrow> bitmapTable \<Rightarrow> 32 word list" where
  "foreachSet p b = concat (map (\<lambda>idx. scanWord idx (bt_planes b p ! idx)) [0..<length (bt_planes b p)])"

definition countOnes :: "plane \<Rightarrow> bitmapTable \<Rightarrow> nat" where
  "countOnes p b = sum_list (map OnesCount64 (bt_planes b p))"

lemma scanWord_bits: "scanWord idx w = map (\<lambda>i. word_of_nat (idx * 64 + i)) (filter (bit w) [0..<64])"
proof (induction idx w rule: scanWord.induct)
  case (1 idx w)
  then show ?case
    by (cases "w = 0") (simp_all add: scanWord.simps [of idx w] scanWord.simps [of idx 0] filter_lowest_bit del: upt_rec_numeral)
qed

section \<open>Planes as sets\<close>

text \<open>The ids whose bit is set.\<close>

definition ids :: "64 word list \<Rightarrow> nat set" where
  "ids ws = {n. n div 64 < length ws \<and> bit (ws ! (n div 64)) (n mod 64)}"

lemma wordOf_nat: "wordOf u = (unat u div 64, push_bit (unat u mod 64) 1)"
proof -
  have "u AND 63 = take_bit 6 u" by (simp add: take_bit_eq_mask mask_eq_exp_minus_1)
  then have "unat (u AND 63) = take_bit 6 (unat u)" by (simp only: unsigned_take_bit_eq)
  then have "unat (u AND 63) = unat u mod 64" by (simp add: take_bit_eq_mod)
  moreover have "unat (drop_bit 6 u) = unat u div 64" by (simp add: drop_bit_eq_div unat_div_distrib)
  ultimately show ?thesis by (simp add: wordOf_def)
qed

lemma bit_mask64 [simp]: "bit (2 ^ i :: 64 word) n \<longleftrightarrow> n = i \<and> i < 64"
  by (auto simp: bit_exp_iff possible_bit_def)

lemma ids_update:
  assumes "n div 64 < length ws"
  shows "ids (ws[n div 64 := ws ! (n div 64) OR push_bit (n mod 64) 1]) = insert n (ids ws)"
    and "ids (ws[n div 64 := ws ! (n div 64) AND NOT (push_bit (n mod 64) 1)]) = ids ws - {n}"
proof -
  have eq: "k mod 64 \<noteq> n mod 64" if "k \<noteq> n" "k div 64 = n div 64" for k
    using that by (metis div_mult_mod_eq)
  show "ids (ws[n div 64 := ws ! (n div 64) OR push_bit (n mod 64) 1]) = insert n (ids ws)"
  proof (rule set_eqI)
    fix k
    show "k \<in> ids (ws[n div 64 := ws ! (n div 64) OR push_bit (n mod 64) 1]) \<longleftrightarrow> k \<in> insert n (ids ws)"
      using assms eq [of k] by (cases "k = n"; cases "k div 64 = n div 64") (simp_all add: ids_def bit_or_iff)
  qed
  show "ids (ws[n div 64 := ws ! (n div 64) AND NOT (push_bit (n mod 64) 1)]) = ids ws - {n}"
  proof (rule set_eqI)
    fix k
    show "k \<in> ids (ws[n div 64 := ws ! (n div 64) AND NOT (push_bit (n mod 64) 1)]) \<longleftrightarrow> k \<in> ids ws - {n}"
      using assms eq [of k]
      by (cases "k = n"; cases "k div 64 = n div 64") (simp_all add: ids_def bit_and_iff bit_not_iff possible_bit_def)
  qed
qed

lemma test_ids:
  assumes "n div 64 < length ws"
  shows "ws ! (n div 64) AND push_bit (n mod 64) 1 \<noteq> 0 \<longleftrightarrow> n \<in> ids ws"
proof -
  have "ws ! (n div 64) AND push_bit (n mod 64) 1 = 0 \<longleftrightarrow> \<not> bit (ws ! (n div 64)) (n mod 64)"
  proof
    assume "ws ! (n div 64) AND push_bit (n mod 64) 1 = 0"
    then have "\<not> bit (ws ! (n div 64) AND push_bit (n mod 64) 1) (n mod 64)" by (simp only: bit_0_eq bot_apply bot_bool_def not_False_eq_True)
    then show "\<not> bit (ws ! (n div 64)) (n mod 64)" by (simp add: bit_and_iff)
  qed (auto simp: bit_and_iff intro: bit_word_eqI)
  then show ?thesis using assms by (simp add: ids_def)
qed
lemma set_simulates:
  "bm_set p u b = (if unat u div 64 < length (bt_planes b p)
     then Some (b\<lparr>bt_planes := (bt_planes b)(p := (bt_planes b p)[unat u div 64 := bt_planes b p ! (unat u div 64) OR push_bit (unat u mod 64) 1])\<rparr>)
     else None)"
  by (simp add: bm_set_def wordOf_nat modifyWord_def)

lemma clear_simulates:
  "bm_clear p u b = (if unat u div 64 < length (bt_planes b p)
     then Some (b\<lparr>bt_planes := (bt_planes b)(p := (bt_planes b p)[unat u div 64 := bt_planes b p ! (unat u div 64) AND NOT (push_bit (unat u mod 64) 1)])\<rparr>)
     else None)"
  by (simp add: bm_clear_def wordOf_nat modifyWord_def)

datatype bmOp = BSet plane "32 word" | BClear plane "32 word" | BTest plane "32 word" | BMarkAvailable "32 word" | BMarkProbing "32 word"

text \<open>A panic leaves no table: the rest of the run does nothing.\<close>

definition bmStep :: "bmOp \<Rightarrow> bitmapTable option \<Rightarrow> bool \<times> bitmapTable option" where
  "bmStep x t = (case t of None \<Rightarrow> (False, None) | Some b \<Rightarrow>
     (case x of
        BSet p u \<Rightarrow> (False, bm_set p u b)
      | BClear p u \<Rightarrow> (False, bm_clear p u b)
      | BTest p u \<Rightarrow> (case bm_test p u b of None \<Rightarrow> (False, None) | Some r \<Rightarrow> (r, Some b))
      | BMarkAvailable u \<Rightarrow> (False, MarkAvailable u b)
      | BMarkProbing u \<Rightarrow> (False, MarkProbing u b)))"

text \<open>The specification: a set of ids per plane, over the ids below a bound.\<close>

record idSets =
  is_words :: nat
  is_sets :: "plane \<Rightarrow> nat set"

definition addId :: "plane \<Rightarrow> nat \<Rightarrow> idSets \<Rightarrow> idSets" where
  "addId p n a = a\<lparr>is_sets := (is_sets a)(p := insert n (is_sets a p))\<rparr>"

definition dropId :: "plane \<Rightarrow> nat \<Rightarrow> idSets \<Rightarrow> idSets" where
  "dropId p n a = a\<lparr>is_sets := (is_sets a)(p := is_sets a p - {n})\<rparr>"

primrec opId :: "bmOp \<Rightarrow> 32 word" where
  "opId (BSet p u) = u" | "opId (BClear p u) = u" | "opId (BTest p u) = u" | "opId (BMarkAvailable u) = u" | "opId (BMarkProbing u) = u"

definition bmSpecStep :: "bmOp \<Rightarrow> idSets option \<Rightarrow> bool \<times> idSets option" where
  "bmSpecStep x t = (case t of None \<Rightarrow> (False, None) | Some a \<Rightarrow>
     if 64 * is_words a \<le> unat (opId x) then (False, None)
     else case x of
        BSet p u \<Rightarrow> (False, Some (addId p (unat u) a))
      | BClear p u \<Rightarrow> (False, Some (dropId p (unat u) a))
      | BTest p u \<Rightarrow> (unat u \<in> is_sets a p, Some a)
      | BMarkAvailable u \<Rightarrow> (False, Some (dropId planeProbe (unat u) (addId planeAvail (unat u) a)))
      | BMarkProbing u \<Rightarrow> (False, Some (addId planeProbe (unat u) (dropId planeAvail (unat u) a))))"

definition bm_inv :: "bitmapTable \<Rightarrow> bool" where
  "bm_inv b \<longleftrightarrow> (\<forall>p. length (bt_planes b p) = length (bt_planes b planeAvail))"

definition bm_abs :: "bitmapTable \<Rightarrow> idSets" where
  "bm_abs b = \<lparr>is_words = length (bt_planes b planeAvail), is_sets = (\<lambda>p. ids (bt_planes b p))\<rparr>"

lemma in_range: "bm_inv b \<Longrightarrow> n div 64 < length (bt_planes b p) \<longleftrightarrow> n < 64 * is_words (bm_abs b)"
proof -
  assume "bm_inv b"
  then have "length (bt_planes b p) = is_words (bm_abs b)" by (simp add: bm_inv_def bm_abs_def)
  then show ?thesis by (simp add: div_less_iff_less_mult mult.commute)
qed

lemma set_abs:
  assumes inv: "bm_inv b" and r: "unat u < 64 * is_words (bm_abs b)"
  shows "\<exists>b'. bm_set p u b = Some b' \<and> bm_inv b' \<and> bm_abs b' = addId p (unat u) (bm_abs b)"
proof -
  have "unat u div 64 < length (bt_planes b p)" using in_range [OF inv] r by blast
  then show ?thesis using inv unfolding set_simulates
    by (cases "p = planeAvail") (auto simp add: bm_inv_def bm_abs_def addId_def ids_update fun_eq_iff simp del: push_bit_of_1)
qed

lemma clear_abs:
  assumes inv: "bm_inv b" and r: "unat u < 64 * is_words (bm_abs b)"
  shows "\<exists>b'. bm_clear p u b = Some b' \<and> bm_inv b' \<and> bm_abs b' = dropId p (unat u) (bm_abs b)"
proof -
  have "unat u div 64 < length (bt_planes b p)" using in_range [OF inv] r by blast
  then show ?thesis using inv unfolding clear_simulates
    by (cases "p = planeAvail") (auto simp add: bm_inv_def bm_abs_def dropId_def ids_update fun_eq_iff simp del: push_bit_of_1)
qed

lemma words_frame [simp]: "is_words (addId p n a) = is_words a" "is_words (dropId p n a) = is_words a"
  by (simp_all add: addId_def dropId_def)
lemma bm_out_of_range:
  assumes inv: "bm_inv b" and r: "64 * is_words (bm_abs b) \<le> unat u"
  shows "bm_set p u b = None" "bm_clear p u b = None" "bm_test p u b = None" "MarkAvailable u b = None" "MarkProbing u b = None"
proof -
  have n: "\<not> unat u div 64 < length (bt_planes b p)" for p using in_range [OF inv, of "unat u" p] r by linarith
  then show "bm_set p u b = None" "bm_clear p u b = None" "bm_test p u b = None" "MarkAvailable u b = None" "MarkProbing u b = None"
    by (simp_all add: set_simulates clear_simulates bm_test_def wordOf_nat MarkAvailable_def MarkProbing_def transition_def)
qed

lemma mark_abs:
  assumes inv: "bm_inv b" and r: "unat u < 64 * is_words (bm_abs b)"
  shows "\<exists>b'. MarkAvailable u b = Some b' \<and> bm_inv b' \<and> bm_abs b' = dropId planeProbe (unat u) (addId planeAvail (unat u) (bm_abs b))"
    and "\<exists>b'. MarkProbing u b = Some b' \<and> bm_inv b' \<and> bm_abs b' = addId planeProbe (unat u) (dropId planeAvail (unat u) (bm_abs b))"
proof -
  obtain b1 where b1: "bm_set planeAvail u b = Some b1" "bm_inv b1" "bm_abs b1 = addId planeAvail (unat u) (bm_abs b)"
    using set_abs [OF inv r] by blast
  then show "\<exists>b'. MarkAvailable u b = Some b' \<and> bm_inv b' \<and> bm_abs b' = dropId planeProbe (unat u) (addId planeAvail (unat u) (bm_abs b))"
    using clear_abs [OF b1(2), of u planeProbe] r by (auto simp: MarkAvailable_def)
  obtain b2 where b2: "bm_clear planeAvail u b = Some b2" "bm_inv b2" "bm_abs b2 = dropId planeAvail (unat u) (bm_abs b)"
    using clear_abs [OF inv r] by blast
  then show "\<exists>b'. MarkProbing u b = Some b' \<and> bm_inv b' \<and> bm_abs b' = addId planeProbe (unat u) (dropId planeAvail (unat u) (bm_abs b))"
    using set_abs [OF b2(2), of u planeProbe] r by (auto simp: MarkProbing_def transition_def)
qed

lemma test_abs:
  assumes "bm_inv b" "unat u < 64 * is_words (bm_abs b)"
  shows "bm_test p u b = Some (unat u \<in> is_sets (bm_abs b) p)"
proof -
  have "unat u div 64 < length (bt_planes b p)" using in_range assms by blast
  then show ?thesis using test_ids [of "unat u" "bt_planes b p"]
    by (simp add: bm_test_def wordOf_nat bm_abs_def del: push_bit_of_1)
qed

interpretation nodebits: simulation "pred_option bm_inv" "map_option bm_abs" bmStep bmSpecStep
proof
  fix t x
  assume inv: "pred_option bm_inv t"
  have "pred_option bm_inv (snd (bmStep x t)) \<and> bmSpecStep x (map_option bm_abs t) = map_prod id (map_option bm_abs) (bmStep x t)"
  proof (cases t)
    case (Some b)
    then have b: "bm_inv b" using inv by simp
    show ?thesis
    proof (cases "unat (opId x) < 64 * is_words (bm_abs b)")
      case True
      note facts = set_abs [OF b True] clear_abs [OF b True] mark_abs [OF b True] test_abs [OF b True]
      show ?thesis
      proof (cases x)
        case (BSet p u)
        then show ?thesis using facts(1) [of p] True by (auto simp: Some bmStep_def bmSpecStep_def)
      next
        case (BClear p u)
        then show ?thesis using facts(2) [of p] True by (auto simp: Some bmStep_def bmSpecStep_def)
      next
        case (BTest p u)
        then show ?thesis using facts(5) [of p] True b by (auto simp: Some bmStep_def bmSpecStep_def)
      next
        case (BMarkAvailable u)
        then show ?thesis using facts(3) True by (auto simp: Some bmStep_def bmSpecStep_def)
      next
        case (BMarkProbing u)
        then show ?thesis using facts(4) True by (auto simp: Some bmStep_def bmSpecStep_def)
      qed
    next
      case False
      then have "64 * is_words (bm_abs b) \<le> unat (opId x)" by simp
      from bm_out_of_range [OF b this] show ?thesis using Some False by (cases x) (simp_all add: bmStep_def bmSpecStep_def)
    qed
  qed (simp add: bmStep_def bmSpecStep_def)
  then show "pred_option bm_inv (snd (bmStep x t))" "bmSpecStep x (map_option bm_abs t) = map_prod id (map_option bm_abs) (bmStep x t)"
    by blast+
qed

lemma new_inv_bits [simp]: "bm_inv (newBitmapTable capacity)"
  by (simp add: bm_inv_def newBitmapTable_def)

lemma ids_zero: "ids (replicate n 0) = {}"
  by (auto simp: ids_def)

text \<open>
  C32.
  Refinement: from a new table, every sequence of set, clear, test and compound marks behaves as
  operations on three sets of node ids, with the panic of the code exactly at the ids beyond the
  allocated words; no operation disturbs another id or another plane.
\<close>

theorem bitmap_refines:
  "run_ops bmSpecStep ops (Some \<lparr>is_words = uint64Words capacity, is_sets = (\<lambda>p. {})\<rparr>) =
   map_prod id (map_option bm_abs) (run_ops bmStep ops (Some (newBitmapTable capacity)))"
proof -
  have "bm_abs (newBitmapTable capacity) = \<lparr>is_words = uint64Words capacity, is_sets = (\<lambda>p. {})\<rparr>"
    by (simp add: bm_abs_def newBitmapTable_def ids_zero)
  then show ?thesis using nodebits.run_refines [of "Some (newBitmapTable capacity)" ops] by simp
qed

lemma words_range:
  assumes "0 \<le> sint capacity"
  shows "sint capacity = int (unat capacity)" "unat capacity < 2 ^ 31" "uint64Words capacity = (unat capacity + 64) div 64"
proof -
  have lt: "sint capacity < 2 ^ 31" using sint_lt [of capacity] by simp
  then have "uint capacity = sint capacity" using assms unfolding uint_sint by (simp add: take_bit_eq_mod)
  then show s: "sint capacity = int (unat capacity)" by (metis uint_nat)
  then have "int (unat capacity) < int (2 ^ 31)" using lt by (simp only: of_nat_power of_nat_numeral)
  then show c: "unat capacity < 2 ^ 31" by (simp only: of_nat_less_iff)
  have "unat (capacity + 64) = unat capacity + 64" using c by (subst unat_add_lem [THEN iffD1]) simp_all
  then show "uint64Words capacity = (unat capacity + 64) div 64"
    by (simp add: uint64Words_def unat_div_distrib add.assoc)
qed

text \<open>
  Bounds: for every capacity an \<open>int32\<close> can hold without being negative, the allocated words
  cover all ids from zero to the capacity, although the sum in the allocation may leave the signed range.
\<close>

theorem words_cover_capacity:
  assumes "0 \<le> sint capacity"
  shows "uint64Words capacity = (nat (sint capacity) + 64) div 64 \<and>
    (\<forall>u. unat u \<le> unat capacity \<longrightarrow> fst (wordOf u) < uint64Words capacity)"
  using words_range [OF assms] by (auto simp: wordOf_nat)

theorem words_cover_capacity_witness: "uint64Words 2147483647 = 33554432"
  using words_cover_capacity [of 2147483647] by simp
section \<open>The scan enumerates a plane\<close>

lemma scan_ids:
  "concat (map (\<lambda>idx. map (\<lambda>i. idx * 64 + i) (filter (bit (ws ! idx)) [0..<64])) [0..<m]) =
   filter (\<lambda>n. bit (ws ! (n div 64)) (n mod 64)) [0..<64 * m]"
proof (induction m)
  case (Suc m)
  have "[0..<64 * Suc m] = [0..<64 * m] @ map (\<lambda>i. m * 64 + i) [0..<64]"
    using upt_add_eq_append [of 0 "64 * m" 64] map_add_upt [of "64 * m" 64] by (simp add: add.commute mult.commute)
  moreover have "filter (\<lambda>n. bit (ws ! (n div 64)) (n mod 64)) (map (\<lambda>i. m * 64 + i) [0..<64]) =
      map (\<lambda>i. m * 64 + i) (filter (bit (ws ! m)) [0..<64])"
    unfolding filter_map comp_def by (intro arg_cong [where f = "map _"] filter_cong refl) simp
  ultimately show ?case using Suc by (simp del: upt_rec_numeral)
qed simp

lemma ids_filter: "sorted_list_of_set (ids ws) = filter (\<lambda>n. bit (ws ! (n div 64)) (n mod 64)) [0..<64 * length ws]"
proof -
  have "ids ws = set (filter (\<lambda>n. bit (ws ! (n div 64)) (n mod 64)) [0..<64 * length ws])"
    by (auto simp: ids_def div_less_iff_less_mult mult.commute)
  then show ?thesis by (simp only: sorted_list_of_set.idem_if_sorted_distinct sorted_wrt_filter sorted_upt distinct_filter distinct_upt)
qed

lemma foreachSet_sorted:
  assumes "64 * length (bt_planes b p) \<le> 2 ^ 32"
  shows "map unat (foreachSet p b) = sorted_list_of_set (ids (bt_planes b p))"
proof -
  let ?ws = "bt_planes b p"
  have id: "unat (word_of_nat n :: 32 word) = n" if "n < 64 * length ?ws" for n
    using that assms by (simp add: unat_of_nat)
  have "map unat (foreachSet p b) = map (\<lambda>n. unat (word_of_nat n :: 32 word))
      (concat (map (\<lambda>idx. map (\<lambda>i. idx * 64 + i) (filter (bit (?ws ! idx)) [0..<64])) [0..<length ?ws]))"
    by (simp add: foreachSet_def scanWord_bits map_concat comp_def del: upt_rec_numeral)
  also have "\<dots> = map (\<lambda>n. n) (filter (\<lambda>n. bit (?ws ! (n div 64)) (n mod 64)) [0..<64 * length ?ws])"
    unfolding scan_ids by (rule map_cong) (auto simp: id)
  finally show ?thesis by (simp add: ids_filter)
qed

lemma countOnes_card: "countOnes p b = card (ids (bt_planes b p))"
proof -
  let ?ws = "bt_planes b p"
  have "card (ids ?ws) = length (sorted_list_of_set (ids ?ws))" by simp
  also have "\<dots> = length (concat (map (\<lambda>idx. map (\<lambda>i. idx * 64 + i) (filter (bit (?ws ! idx)) [0..<64])) [0..<length ?ws]))"
    by (simp only: ids_filter scan_ids)
  also have "\<dots> = sum_list (map (\<lambda>idx. OnesCount64 (?ws ! idx)) [0..<length ?ws])"
    by (simp add: length_concat comp_def OnesCount64_def del: upt_rec_numeral)
  also have "\<dots> = countOnes p b"
  proof -
    have "map (\<lambda>idx. OnesCount64 (?ws ! idx)) [0..<length ?ws] = map OnesCount64 ?ws" by (rule nth_equalityI) simp_all
    then show ?thesis by (simp only: countOnes_def)
  qed
  finally show ?thesis ..
qed

lemma run_words:
  "snd (run_ops bmSpecStep ops (Some a)) = Some a' \<Longrightarrow> is_words a' = is_words a"
proof (induction ops arbitrary: a)
  case (Cons x ops)
  obtain r t where s: "bmSpecStep x (Some a) = (r, t)" by fastforce
  have none: "snd (run_ops bmSpecStep xs None) = None" for xs
    by (induction xs) (simp_all add: bmSpecStep_def split_beta)
  show ?case
  proof (cases t)
    case None
    then show ?thesis using Cons.prems s none [of ops] by (simp add: split_beta)
  next
    case (Some a1)
    then have "is_words a1 = is_words a" using s by (auto simp: bmSpecStep_def split: if_splits bmOp.splits)
    then show ?thesis using Cons.IH [of a1] Cons.prems s Some by (simp add: split_beta)
  qed
qed simp

text \<open>
  The scanner's loop: on every reachable table \<open>foreachSet\<close> calls back exactly the ids whose bit
  tests true, once each and in ascending order, and \<open>countOnes\<close> is their number.
\<close>

theorem foreachSet_exact:
  assumes cap: "0 \<le> sint capacity" and run: "snd (run_ops bmStep ops (Some (newBitmapTable capacity))) = Some b"
  shows "map unat (foreachSet p b) = sorted_list_of_set {unat u |u. bm_test p u b = Some True} \<and>
    countOnes p b = length (foreachSet p b)"
proof -
  have "pred_option bm_inv (Some b)" unfolding run [symmetric] by (rule nodebits.inv_run) simp
  then have inv: "bm_inv b" by simp
  have W: "is_words (bm_abs b) = uint64Words capacity"
    using run_words [of ops "bm_abs (newBitmapTable capacity)" "bm_abs b"] nodebits.run_refines [of "Some (newBitmapTable capacity)" ops] run
    by simp (simp add: bm_abs_def newBitmapTable_def)
  then have len: "length (bt_planes b q) = uint64Words capacity" for q using inv by (simp add: bm_inv_def bm_abs_def)
  have "64 * uint64Words capacity \<le> 2 ^ 31 + 64" using words_range [OF cap] by simp
  then have le: "64 * length (bt_planes b q) \<le> 2 ^ 32" for q using len [of q] by simp
  have t: "{unat u |u. bm_test p u b = Some True} = ids (bt_planes b p)"
  proof (intro set_eqI iffI)
    fix n assume n: "n \<in> ids (bt_planes b p)"
    then have r: "n < 64 * length (bt_planes b p)" by (auto simp: ids_def)
    then have "unat (word_of_nat n :: 32 word) = n" using le [of p] by (simp add: unat_of_nat)
    moreover have "unat (word_of_nat n :: 32 word) < 64 * is_words (bm_abs b)" using r calculation by (simp add: W len)
    ultimately show "n \<in> {unat u |u. bm_test p u b = Some True}"
      using n test_abs [OF inv, of "word_of_nat n" p] by (auto simp: bm_abs_def intro!: exI [of _ "word_of_nat n"])
  next
    fix n assume "n \<in> {unat u |u. bm_test p u b = Some True}"
    then obtain u where u: "n = unat u" "bm_test p u b = Some True" by blast
    then have "unat u < 64 * is_words (bm_abs b)" using bm_out_of_range(3) [OF inv, of u p] by fastforce
    then show "n \<in> ids (bt_planes b p)" using test_abs [OF inv, of u p] u by (simp add: bm_abs_def)
  qed
  have s: "map unat (foreachSet p b) = sorted_list_of_set (ids (bt_planes b p))" by (rule foreachSet_sorted [OF le])
  then have "length (foreachSet p b) = card (ids (bt_planes b p))" by (metis length_map length_sorted_list_of_set)
  then show ?thesis using s by (simp add: t countOnes_card)
qed

theorem foreachSet_exact_witness:
  "\<exists>b. snd (run_ops bmStep [BSet planeProbe 70, BMarkProbing 3] (Some (newBitmapTable 100))) = Some b \<and>
     map unat (foreachSet planeProbe b) = sorted_list_of_set {unat u |u. bm_test planeProbe u b = Some True}"
proof -
  obtain b where "snd (run_ops bmStep [BSet planeProbe 70, BMarkProbing 3] (Some (newBitmapTable 100))) = Some b"
    by (simp add: bmStep_def set_simulates clear_simulates MarkProbing_def transition_def newBitmapTable_def uint64Words_def)
  with foreachSet_exact [OF _ this] show ?thesis by simp
qed

end
