(* ===== verification/TaskBus.thy ===== *)
theory TaskBus
  imports Prelude
begin

text \<open>
  The task bus, \<open>internal/taskbus\<close>: tasks with an idempotency key in an in-memory store
  (\<open>store_memory.go\<close>), claimed in batches and routed by type to a registered handler, with
  exponential backoff and a dead-letter state (\<open>dispatcher.go\<close>), and swept after a retention
  window. Handlers, clock readings and the iteration order of Go's maps are arguments. Every store
  method is one critical section; the dispatcher is the single polling loop. The scan counter kept for
  tests and the metrics are left out, and so is the SQL store.
\<close>

section \<open>Data\<close>

datatype taskStatus = StatusPending | StatusFailed | StatusDLQ | StatusSent

record task =
  t_ID :: int
  t_TaskType :: string
  t_Payload :: string
  t_PayloadVersion :: int
  t_IdempotencyKey :: string
  t_Status :: taskStatus
  t_Attempts :: int
  t_NextRetryAt :: "instant option"
  t_LastError :: string
  t_CreatedAt :: instant
  t_CompletedAt :: "instant option"

record memoryStore =
  ms_nextID :: int
  ms_byID :: "(int \<times> task) list"
  ms_byKey :: "(string \<times> int) list"
  ms_claimed :: "int set"
  ms_pending :: "int set"
  ms_Retention :: duration

datatype storeError = ErrKeyRequired | ErrSchemaVersion | ErrNotFound | NilTask

definition DefaultMemoryStoreRetention :: duration where "DefaultMemoryStoreRetention = 10 * go_minute"

definition NewMemoryStore :: memoryStore where
  "NewMemoryStore = \<lparr>ms_nextID = 0, ms_byID = [], ms_byKey = [], ms_claimed = {}, ms_pending = {},
     ms_Retention = DefaultMemoryStoreRetention\<rparr>"

section \<open>Store\<close>

text \<open>The dereference of a key that points to no task would be a nil pointer panic, \<open>NilTask\<close>.\<close>

definition bus_Enqueue :: "string \<Rightarrow> string \<Rightarrow> int \<Rightarrow> string \<Rightarrow> instant \<Rightarrow> memoryStore \<Rightarrow> (storeError + task) \<times> memoryStore" where
  "bus_Enqueue taskType idempotencyKey schemaVersion payload now s =
     (if taskType = [] \<or> idempotencyKey = [] then (Inl ErrKeyRequired, s)
      else if schemaVersion \<le> 0 then (Inl ErrSchemaVersion, s)
      else case map_of (ms_byKey s) idempotencyKey of
             Some i \<Rightarrow> (case map_of (ms_byID s) i of None \<Rightarrow> (Inl NilTask, s) | Some t \<Rightarrow> (Inr t, s))
           | None \<Rightarrow>
               let i = ms_nextID s + 1;
                   t = \<lparr>t_ID = i, t_TaskType = taskType, t_Payload = payload, t_PayloadVersion = schemaVersion,
                        t_IdempotencyKey = idempotencyKey, t_Status = StatusPending, t_Attempts = 0, t_NextRetryAt = None,
                        t_LastError = [], t_CreatedAt = now, t_CompletedAt = None\<rparr>
               in (Inr t, s\<lparr>ms_nextID := i, ms_byID := AList.update i t (ms_byID s),
                    ms_byKey := AList.update idempotencyKey i (ms_byKey s), ms_pending := insert i (ms_pending s)\<rparr>))"

definition claimable :: "instant \<Rightarrow> memoryStore \<Rightarrow> task \<Rightarrow> bool" where
  "claimable now s t \<longleftrightarrow> t_ID t \<notin> ms_claimed s \<and> (t_Status t = StatusPending \<or> t_Status t = StatusFailed) \<and>
     (case t_NextRetryAt t of None \<Rightarrow> True | Some r \<Rightarrow> r \<le> now)"

fun claimLoop :: "int \<Rightarrow> instant \<Rightarrow> int list \<Rightarrow> memoryStore \<Rightarrow> task list \<times> memoryStore" where
  "claimLoop limit now [] s = ([], s)"
| "claimLoop limit now (i # rest) s =
     (case map_of (ms_byID s) i of
        None \<Rightarrow> claimLoop limit now rest (s\<lparr>ms_pending := ms_pending s - {i}\<rparr>)
      | Some t \<Rightarrow>
          if claimable now s t
          then let s1 = s\<lparr>ms_claimed := insert (t_ID t) (ms_claimed s)\<rparr>
               in if limit \<le> 1 then ([t], s1) else (case claimLoop (limit - 1) now rest s1 of (ts, s2) \<Rightarrow> (t # ts, s2))
          else claimLoop limit now rest s)"

text \<open>\<open>order\<close> is the order in which Go iterates over the keys of \<open>pending\<close>.\<close>

definition ClaimBatch :: "int \<Rightarrow> instant \<Rightarrow> int list \<Rightarrow> memoryStore \<Rightarrow> task list \<times> memoryStore" where
  "ClaimBatch limit now order s =
     claimLoop (if limit \<le> 0 then 32 else limit) now (filter (\<lambda>i. i \<in> ms_pending s) (remdups order)) s"

definition MarkSent :: "int \<Rightarrow> instant \<Rightarrow> memoryStore \<Rightarrow> storeError option \<times> memoryStore" where
  "MarkSent i now s =
     (case map_of (ms_byID s) i of
        None \<Rightarrow> (Some ErrNotFound, s)
      | Some t \<Rightarrow> (None, s\<lparr>ms_byID := AList.update i (t\<lparr>t_Status := StatusSent, t_CompletedAt := Some now\<rparr>) (ms_byID s),
          ms_claimed := ms_claimed s - {i}, ms_pending := ms_pending s - {i}\<rparr>))"

definition MarkFailed :: "int \<Rightarrow> int \<Rightarrow> instant \<Rightarrow> string \<Rightarrow> memoryStore \<Rightarrow> storeError option \<times> memoryStore" where
  "MarkFailed i attempts nextRetry lastErr s =
     (case map_of (ms_byID s) i of
        None \<Rightarrow> (Some ErrNotFound, s)
      | Some t \<Rightarrow> (None, s\<lparr>ms_byID := AList.update i (t\<lparr>t_Status := StatusFailed, t_Attempts := attempts,
            t_NextRetryAt := Some nextRetry, t_LastError := lastErr\<rparr>) (ms_byID s),
          ms_claimed := ms_claimed s - {i}, ms_pending := insert i (ms_pending s)\<rparr>))"

definition MarkDLQ :: "int \<Rightarrow> string \<Rightarrow> instant \<Rightarrow> memoryStore \<Rightarrow> storeError option \<times> memoryStore" where
  "MarkDLQ i lastErr now s =
     (case map_of (ms_byID s) i of
        None \<Rightarrow> (Some ErrNotFound, s)
      | Some t \<Rightarrow> (None, s\<lparr>ms_byID := AList.update i (t\<lparr>t_Status := StatusDLQ, t_LastError := lastErr,
            t_CompletedAt := Some now\<rparr>) (ms_byID s),
          ms_claimed := ms_claimed s - {i}, ms_pending := ms_pending s - {i}\<rparr>))"

definition CountByStatus :: "string \<Rightarrow> taskStatus \<Rightarrow> memoryStore \<Rightarrow> nat" where
  "CountByStatus taskType status s =
     length (filter (\<lambda>(i, t). (taskType = [] \<or> t_TaskType t = taskType) \<and> t_Status t = status) (ms_byID s))"

definition expired :: "duration \<Rightarrow> instant \<Rightarrow> task \<Rightarrow> bool" where
  "expired retention now t \<longleftrightarrow> (t_Status t = StatusSent \<or> t_Status t = StatusDLQ) \<and>
     retention \<le> now - (case t_CompletedAt t of None \<Rightarrow> t_CreatedAt t | Some c \<Rightarrow> c)"

definition Sweep :: "instant \<Rightarrow> memoryStore \<Rightarrow> nat \<times> memoryStore" where
  "Sweep now s =
     (let retention = (if ms_Retention s \<le> 0 then DefaultMemoryStoreRetention else ms_Retention s);
          removed = filter (\<lambda>(i, t). expired retention now t) (ms_byID s);
          gone = set (map fst removed)
      in (length removed, s\<lparr>ms_byID := filter (\<lambda>(i, t). \<not> expired retention now t) (ms_byID s),
           ms_claimed := ms_claimed s - gone, ms_pending := ms_pending s - gone,
           ms_byKey := filter (\<lambda>(k, j). \<not> (\<exists>(i, t)\<in>set removed. t_IdempotencyKey t = k \<and> i = j)) (ms_byKey s)\<rparr>))"

section \<open>Dispatcher\<close>

record dispatcher =
  d_store :: memoryStore
  d_maxAttempts :: int
  d_batchSize :: int
  d_sweepEvery :: int
  d_sweepTick :: int

definition NewDispatcher :: "memoryStore \<Rightarrow> int \<Rightarrow> int \<Rightarrow> int \<Rightarrow> dispatcher" where
  "NewDispatcher store maxAtt batch sweepEvery =
     \<lparr>d_store = store, d_maxAttempts = (if maxAtt \<le> 0 then 5 else maxAtt), d_batchSize = (if batch \<le> 0 then 32 else batch),
      d_sweepEvery = (if sweepEvery = 0 then 60 else sweepEvery), d_sweepTick = 0\<rparr>"

text \<open>The delay before the next attempt, \<open>time.Duration(1<<uint(attempts)) * time.Second\<close> in 64-bit arithmetic.\<close>

definition taskBackoff :: "int \<Rightarrow> duration" where
  "taskBackoff attempts = sint (push_bit (nat attempts) 1 * word_of_int go_second :: 64 word)"

text \<open>
  A handler maps a task to its error. \<open>handleOne\<close> returns whether a handler was called. The store
  errors are discarded by the code.
\<close>

type_synonym handlers = "string \<Rightarrow> (task \<Rightarrow> string option) option"

definition handleOne :: "handlers \<Rightarrow> instant \<Rightarrow> task \<Rightarrow> dispatcher \<Rightarrow> bool \<times> dispatcher" where
  "handleOne hs now t d =
     (case hs (t_TaskType t) of
        None \<Rightarrow> (False, d\<lparr>d_store := snd (MarkDLQ (t_ID t) ''no handler registered'' now (d_store d))\<rparr>)
      | Some h \<Rightarrow>
        (case h t of
           None \<Rightarrow> (True, d\<lparr>d_store := snd (MarkSent (t_ID t) now (d_store d))\<rparr>)
         | Some err \<Rightarrow>
             let attempts = t_Attempts t + 1
             in if d_maxAttempts d \<le> attempts then (True, d\<lparr>d_store := snd (MarkDLQ (t_ID t) err now (d_store d))\<rparr>)
                else (True, d\<lparr>d_store := snd (MarkFailed (t_ID t) attempts (now + taskBackoff attempts) err (d_store d))\<rparr>)))"

text \<open>The loop over a batch, each task with its own clock reading; the result lists the ids whose handler ran.\<close>

fun handleAll :: "handlers \<Rightarrow> (nat \<Rightarrow> instant) \<Rightarrow> nat \<Rightarrow> task list \<Rightarrow> dispatcher \<Rightarrow> int list \<times> dispatcher" where
  "handleAll hs clock k [] d = ([], d)"
| "handleAll hs clock k (t # ts) d =
     (case handleOne hs (clock k) t d of
        (called, d1) \<Rightarrow> (case handleAll hs clock (Suc k) ts d1 of (cs, d2) \<Rightarrow> (if called then t_ID t # cs else cs, d2)))"

definition maybeSweep :: "instant \<Rightarrow> dispatcher \<Rightarrow> dispatcher" where
  "maybeSweep now d =
     (if d_sweepEvery d \<le> 0 then d
      else if d_sweepTick d + 1 < d_sweepEvery d then d\<lparr>d_sweepTick := d_sweepTick d + 1\<rparr>
      else d\<lparr>d_sweepTick := 0, d_store := snd (Sweep now (d_store d))\<rparr>)"

definition DispatchOnce :: "handlers \<Rightarrow> int list \<Rightarrow> instant \<Rightarrow> (nat \<Rightarrow> instant) \<Rightarrow> instant \<Rightarrow> dispatcher \<Rightarrow> int list \<times> dispatcher" where
  "DispatchOnce hs order now clock sweepNow d =
     (case ClaimBatch (d_batchSize d) now order (d_store d) of
        (batch, s1) \<Rightarrow>
          (case handleAll hs clock 0 batch (d\<lparr>d_store := s1\<rparr>) of (called, d1) \<Rightarrow> (called, maybeSweep sweepNow d1)))"
section \<open>Invariant\<close>

abbreviation activeTask :: "task \<Rightarrow> bool" where
  "activeTask t \<equiv> t_Status t = StatusPending \<or> t_Status t = StatusFailed"

definition bus_inv :: "int \<Rightarrow> memoryStore \<Rightarrow> bool" where
  "bus_inv maxA s \<longleftrightarrow> distinct (map fst (ms_byID s)) \<and> distinct (map fst (ms_byKey s)) \<and>
     (\<forall>i t. map_of (ms_byID s) i = Some t \<longrightarrow> t_ID t = i \<and> i \<le> ms_nextID s \<and>
        map_of (ms_byKey s) (t_IdempotencyKey t) = Some i \<and> 0 \<le> t_Attempts t \<and> (activeTask t \<longrightarrow> t_Attempts t < maxA)) \<and>
     (\<forall>k i. map_of (ms_byKey s) k = Some i \<longrightarrow> (\<exists>t. map_of (ms_byID s) i = Some t \<and> t_IdempotencyKey t = k)) \<and>
     ms_pending s = {i. \<exists>t. map_of (ms_byID s) i = Some t \<and> activeTask t} \<and>
     ms_claimed s \<subseteq> ms_pending s"

lemma bus_invD:
  assumes "bus_inv maxA s"
  shows "distinct (map fst (ms_byID s))" "distinct (map fst (ms_byKey s))"
    "map_of (ms_byID s) i = Some t \<Longrightarrow> t_ID t = i \<and> i \<le> ms_nextID s \<and>
        map_of (ms_byKey s) (t_IdempotencyKey t) = Some i \<and> 0 \<le> t_Attempts t \<and> (activeTask t \<longrightarrow> t_Attempts t < maxA)"
    "map_of (ms_byKey s) k = Some i \<Longrightarrow> \<exists>t. map_of (ms_byID s) i = Some t \<and> t_IdempotencyKey t = k"
    "ms_pending s = {i. \<exists>t. map_of (ms_byID s) i = Some t \<and> activeTask t}" "ms_claimed s \<subseteq> ms_pending s"
  using assms unfolding bus_inv_def by blast+

text \<open>How many handler calls a task may still have had: all for one that is gone or finished, its attempts while it is active.\<close>

definition callCap :: "int \<Rightarrow> memoryStore \<Rightarrow> int \<Rightarrow> int" where
  "callCap maxA s i = (case map_of (ms_byID s) i of
     None \<Rightarrow> if i \<le> ms_nextID s then maxA else 0
   | Some t \<Rightarrow> if activeTask t then t_Attempts t else maxA)"

text \<open>Replacing an active task by its next version; both flags of \<open>MarkSent\<close>, \<open>MarkFailed\<close> and \<open>MarkDLQ\<close> follow the new status.\<close>

definition settle :: "int \<Rightarrow> task \<Rightarrow> memoryStore \<Rightarrow> memoryStore" where
  "settle i t' s = s\<lparr>ms_byID := AList.update i t' (ms_byID s), ms_claimed := ms_claimed s - {i},
     ms_pending := (if activeTask t' then insert i (ms_pending s) else ms_pending s - {i})\<rparr>"

lemma mark_settle:
  assumes "map_of (ms_byID s) i = Some t"
  shows "snd (MarkSent i now s) = settle i (t\<lparr>t_Status := StatusSent, t_CompletedAt := Some now\<rparr>) s"
    "snd (MarkFailed i a next err s) = settle i (t\<lparr>t_Status := StatusFailed, t_Attempts := a, t_NextRetryAt := Some next, t_LastError := err\<rparr>) s"
    "snd (MarkDLQ i err now s) = settle i (t\<lparr>t_Status := StatusDLQ, t_LastError := err, t_CompletedAt := Some now\<rparr>) s"
  using assms by (simp_all add: MarkSent_def MarkFailed_def MarkDLQ_def settle_def)

lemma settle_simps [simp]:
  "map_of (ms_byID (settle i t' s)) = (map_of (ms_byID s))(i \<mapsto> t')" "ms_nextID (settle i t' s) = ms_nextID s"
  "ms_byKey (settle i t' s) = ms_byKey s" "ms_claimed (settle i t' s) = ms_claimed s - {i}"
  by (simp_all add: settle_def update_conv')

lemma settle_inv:
  assumes inv: "bus_inv maxA s" and t: "map_of (ms_byID s) i = Some t"
    and t': "t_ID t' = t_ID t" "t_IdempotencyKey t' = t_IdempotencyKey t" "0 \<le> t_Attempts t'" "activeTask t' \<Longrightarrow> t_Attempts t' < maxA"
  shows "bus_inv maxA (settle i t' s)"
proof -
  note D = bus_invD [OF inv]
  have p: "ms_pending (settle i t' s) = {j. \<exists>u. map_of (ms_byID (settle i t' s)) j = Some u \<and> activeTask u}"
    unfolding settle_simps by (auto simp: settle_def D(5))
  have dk: "distinct (map fst (ms_byID (settle i t' s)))" using D(1) by (simp add: settle_def distinct_update)
  have entries: "t_ID u = j \<and> j \<le> ms_nextID s \<and> map_of (ms_byKey s) (t_IdempotencyKey u) = Some j \<and> 0 \<le> t_Attempts u \<and>
      (activeTask u \<longrightarrow> t_Attempts u < maxA)" if "((map_of (ms_byID s))(i \<mapsto> t')) j = Some u" for j u
    using that D(3) [of j u] D(3) [OF t] t' by (auto split: if_splits)
  have keys: "\<exists>u. ((map_of (ms_byID s))(i \<mapsto> t')) j = Some u \<and> t_IdempotencyKey u = k" if "map_of (ms_byKey s) k = Some j" for k j
    using D(4) [OF that] t t'(2) by auto
  have cl: "ms_claimed s - {i} \<subseteq> ms_pending (settle i t' s)" using D(6) by (auto simp: settle_def)
  show ?thesis unfolding bus_inv_def settle_simps
    using D(2) p [unfolded settle_simps] dk entries keys cl by blast
qed
lemma new_store_inv: "bus_inv maxA NewMemoryStore"
  by (simp add: bus_inv_def NewMemoryStore_def)

lemma enqueue_cases:
  assumes inv: "bus_inv maxA s" and args: "ty \<noteq> []" "k \<noteq> []" "0 < v"
  obtains (existing) i t where "map_of (ms_byKey s) k = Some i" "map_of (ms_byID s) i = Some t" "bus_Enqueue ty k v p now s = (Inr t, s)"
  | (new) t where "map_of (ms_byKey s) k = None" "t_ID t = ms_nextID s + 1" "t_IdempotencyKey t = k" "t_TaskType t = ty" "t_Status t = StatusPending"
      "t_Attempts t = 0"
      "bus_Enqueue ty k v p now s = (Inr t, s\<lparr>ms_nextID := ms_nextID s + 1, ms_byID := AList.update (ms_nextID s + 1) t (ms_byID s),
         ms_byKey := AList.update k (ms_nextID s + 1) (ms_byKey s), ms_pending := insert (ms_nextID s + 1) (ms_pending s)\<rparr>)"
proof (cases "map_of (ms_byKey s) k")
  case None
  let ?t = "\<lparr>t_ID = ms_nextID s + 1, t_TaskType = ty, t_Payload = p, t_PayloadVersion = v, t_IdempotencyKey = k, t_Status = StatusPending,
    t_Attempts = 0, t_NextRetryAt = None, t_LastError = [], t_CreatedAt = now, t_CompletedAt = None\<rparr>"
  show thesis using args None by (intro new [of ?t]) (auto simp: bus_Enqueue_def Let_def)
next
  case (Some i)
  then obtain t where "map_of (ms_byID s) i = Some t" using bus_invD(4) [OF inv] by blast
  then show thesis using args Some by (intro existing [of i t]) (auto simp: bus_Enqueue_def)
qed

lemma fresh_id: "bus_inv maxA s \<Longrightarrow> ms_nextID s < i \<Longrightarrow> map_of (ms_byID s) i = None"
  using bus_invD(3) [of maxA s i] by (metis not_le option.exhaust)

lemma enqueue_inv:
  assumes inv: "bus_inv maxA s" and maxA: "0 < maxA"
  shows "bus_inv maxA (snd (bus_Enqueue ty k v p now s)) \<and> callCap maxA (snd (bus_Enqueue ty k v p now s)) = callCap maxA s"
proof (cases "ty \<noteq> [] \<and> k \<noteq> [] \<and> 0 < v")
  case False
  then have "snd (bus_Enqueue ty k v p now s) = s" by (auto simp: bus_Enqueue_def)
  then show ?thesis using inv by simp
next
  case True
  then have args: "ty \<noteq> []" "k \<noteq> []" "0 < v" by auto
  from inv args show ?thesis
  proof (cases rule: enqueue_cases [where p = p and now = now])
    case existing
    then show ?thesis using inv by simp
  next
    case (new t)
    let ?n = "ms_nextID s + 1"
    let ?s = "s\<lparr>ms_nextID := ?n, ms_byID := AList.update ?n t (ms_byID s), ms_byKey := AList.update k ?n (ms_byKey s),
      ms_pending := insert ?n (ms_pending s)\<rparr>"
    note D = bus_invD [OF inv]
    have n: "map_of (ms_byID s) ?n = None" using fresh_id [OF inv] by simp
    have m: "map_of (ms_byID ?s) = (map_of (ms_byID s))(?n \<mapsto> t)" "map_of (ms_byKey ?s) = (map_of (ms_byKey s))(k \<mapsto> ?n)"
      by (simp_all add: update_conv')
    have entries: "t_ID u = j \<and> j \<le> ?n \<and> ((map_of (ms_byKey s))(k \<mapsto> ?n)) (t_IdempotencyKey u) = Some j \<and> 0 \<le> t_Attempts u \<and>
        (activeTask u \<longrightarrow> t_Attempts u < maxA)" if "((map_of (ms_byID s))(?n \<mapsto> t)) j = Some u" for j u
      using that D(3) [of j u] new maxA by (auto split: if_splits)
    have keys: "\<exists>u. ((map_of (ms_byID s))(?n \<mapsto> t)) j = Some u \<and> t_IdempotencyKey u = l" if "((map_of (ms_byKey s))(k \<mapsto> ?n)) l = Some j" for l j
      using that D(4) [of l j] n new(3) by (cases "l = k") auto
    have p: "ms_pending ?s = {j. \<exists>u. ((map_of (ms_byID s))(?n \<mapsto> t)) j = Some u \<and> activeTask u}"
      using n new(5) by (auto simp: D(5))
    have c: "ms_claimed ?s \<subseteq> ms_pending ?s" using D(6) by auto
    have d: "distinct (map fst (ms_byID ?s))" "distinct (map fst (ms_byKey ?s))" using D(1,2) by (simp_all add: distinct_update)
    have nx: "ms_nextID ?s = ?n" by simp
    have "bus_inv maxA ?s" unfolding bus_inv_def m nx using p c d entries keys by blast
    moreover have "callCap maxA ?s i = callCap maxA s i" for i
      unfolding callCap_def m using n new(5,6) by (cases "i = ?n") auto
    ultimately show ?thesis unfolding new(7) by auto
  qed
qed

section \<open>Claims\<close>

lemma claimLoop_props:
  assumes "bus_inv maxA s" "distinct is" "claimLoop limit now is s = (ts, s')"
  shows "bus_inv maxA s' \<and> ms_byID s' = ms_byID s \<and> ms_nextID s' = ms_nextID s \<and> distinct (map t_ID ts) \<and>
    ms_claimed s' = ms_claimed s \<union> set (map t_ID ts) \<and>
    (\<forall>t\<in>set ts. map_of (ms_byID s) (t_ID t) = Some t \<and> t_ID t \<in> set is \<and> claimable now s t)"
  using assms
proof (induction limit now "is" s arbitrary: ts s' rule: claimLoop.induct)
  case (2 limit now i rest s)
  note D = bus_invD [OF "2.prems"(1)]
  show ?case
  proof (cases "map_of (ms_byID s) i")
    case None
    then have "i \<notin> ms_pending s" using D(5) by auto
    then have eq: "s\<lparr>ms_pending := ms_pending s - {i}\<rparr> = s" by simp
    have "claimLoop limit now rest s = (ts, s')" using "2.prems"(3) None eq by simp
    then show ?thesis using "2.IH"(1) [OF None, of ts s'] "2.prems"(1,2) unfolding eq by auto
  next
    case (Some t)
    have ti: "t_ID t = i" using D(3) [OF Some] by simp
    show ?thesis
    proof (cases "claimable now s t")
      case False
      then show ?thesis using "2.IH"(3) [OF Some False, of ts s'] "2.prems" Some by auto
    next
      case True
      let ?s1 = "s\<lparr>ms_claimed := insert (t_ID t) (ms_claimed s)\<rparr>"
      have i1: "bus_inv maxA ?s1" using "2.prems"(1) Some True unfolding bus_inv_def claimable_def ti by auto
      show ?thesis
      proof (cases "limit \<le> 1")
        case T: True
        then show ?thesis using "2.prems" Some True i1 ti by auto
      next
        case F: False
        obtain us where us: "claimLoop (limit - 1) now rest ?s1 = (us, s')" "ts = t # us"
          using "2.prems"(3) Some True F by (auto split: prod.splits)
        have "claimable now ?s1 u \<Longrightarrow> claimable now s u \<and> t_ID u \<noteq> t_ID t" for u by (auto simp: claimable_def)
        moreover have "bus_inv maxA s' \<and> ms_byID s' = ms_byID s \<and> ms_nextID s' = ms_nextID s \<and> distinct (map t_ID us) \<and>
            ms_claimed s' = insert (t_ID t) (ms_claimed s) \<union> set (map t_ID us) \<and>
            (\<forall>u\<in>set us. map_of (ms_byID s) (t_ID u) = Some u \<and> t_ID u \<in> set rest \<and> claimable now ?s1 u)"
          using "2.IH"(2) [OF Some True refl F i1 _ us(1)] "2.prems"(2) by simp
        ultimately show ?thesis using Some True ti unfolding us(2) by (simp add: image_iff) blast
      qed
    qed
  qed
qed simp
section \<open>Handling a batch\<close>

text \<open>The tasks of a batch are copies of active, claimed entries.\<close>

definition batch_ok :: "task list \<Rightarrow> memoryStore \<Rightarrow> bool" where
  "batch_ok ts s \<longleftrightarrow> distinct (map t_ID ts) \<and> (\<forall>t\<in>set ts. map_of (ms_byID s) (t_ID t) = Some t \<and> activeTask t)"

lemma batch_ok_settle: "batch_ok (t # ts) s \<Longrightarrow> batch_ok ts (settle (t_ID t) t' s)"
  unfolding batch_ok_def settle_simps by (auto simp: image_iff)

lemma handleOne_settles:
  assumes inv: "bus_inv (d_maxAttempts d) (d_store d)" and t: "map_of (ms_byID (d_store d)) (t_ID t) = Some t" "activeTask t"
  obtains t' where "snd (handleOne hs now t d) = d\<lparr>d_store := settle (t_ID t) t' (d_store d)\<rparr>"
    "bus_inv (d_maxAttempts d) (settle (t_ID t) t' (d_store d))" "t_ID t' = t_ID t"
    "t_Status t' = StatusFailed \<and> t_Attempts t' = t_Attempts t + 1 \<and> t_NextRetryAt t' = Some (now + taskBackoff (t_Attempts t + 1)) \<or>
     (t_Status t' = StatusSent \<or> t_Status t' = StatusDLQ) \<and> t_CompletedAt t' = Some now"
proof -
  let ?i = "t_ID t"
  have a: "0 \<le> t_Attempts t" "t_Attempts t < d_maxAttempts d" using bus_invD(3) [OF inv t(1)] t(2) by auto
  note settle = settle_inv [OF inv t(1)] and mark = mark_settle [OF t(1)]
  show thesis
  proof (cases "hs (t_TaskType t)")
    case None
    then show thesis using a mark(3) [of "''no handler registered''" now]
      by (intro that [of "t\<lparr>t_Status := StatusDLQ, t_LastError := ''no handler registered'', t_CompletedAt := Some now\<rparr>"] settle)
        (simp_all add: handleOne_def)
  next
    case (Some h)
    show thesis
    proof (cases "h t")
      case None
      then show thesis using Some a mark(1) [of now]
        by (intro that [of "t\<lparr>t_Status := StatusSent, t_CompletedAt := Some now\<rparr>"] settle) (simp_all add: handleOne_def)
    next
      case err: (Some err)
      show thesis
      proof (cases "d_maxAttempts d \<le> t_Attempts t + 1")
        case True
        then show thesis using Some err a mark(3) [of err now]
          by (intro that [of "t\<lparr>t_Status := StatusDLQ, t_LastError := err, t_CompletedAt := Some now\<rparr>"] settle) (simp_all add: handleOne_def Let_def)
      next
        case False
        then show thesis using Some err a mark(2) [of "t_Attempts t + 1" "now + taskBackoff (t_Attempts t + 1)" err]
          by (intro that [of "t\<lparr>t_Status := StatusFailed, t_Attempts := t_Attempts t + 1,
                t_NextRetryAt := Some (now + taskBackoff (t_Attempts t + 1)), t_LastError := err\<rparr>"] settle) (simp_all add: handleOne_def Let_def)
      qed
    qed
  qed
qed

lemma callCap_settle:
  assumes inv: "bus_inv maxA s" and t: "map_of (ms_byID s) i = Some t" "activeTask t"
    and t': "activeTask t' \<Longrightarrow> t_Attempts t' = t_Attempts t + 1"
  shows "callCap maxA (settle i t' s) j = (if j = i then (if activeTask t' then t_Attempts t + 1 else maxA) else callCap maxA s j)"
    and "callCap maxA s i + 1 \<le> callCap maxA (settle i t' s) i"
proof -
  show "callCap maxA (settle i t' s) j = (if j = i then (if activeTask t' then t_Attempts t + 1 else maxA) else callCap maxA s j)" for j
    unfolding callCap_def settle_simps using t' by simp
  then show "callCap maxA s i + 1 \<le> callCap maxA (settle i t' s) i"
    using bus_invD(3) [OF inv t(1)] t by (auto simp: callCap_def [of maxA s])
qed

lemma handleAll_props:
  assumes "bus_inv (d_maxAttempts d) (d_store d)" "batch_ok ts (d_store d)" "handleAll hs clock k ts d = (cs, d')"
  shows "bus_inv (d_maxAttempts d) (d_store d') \<and> d_maxAttempts d' = d_maxAttempts d \<and> d_batchSize d' = d_batchSize d \<and>
    ms_claimed (d_store d') = ms_claimed (d_store d) - set (map t_ID ts) \<and>
    (\<forall>i. callCap (d_maxAttempts d) (d_store d) i + int (count_list cs i) \<le> callCap (d_maxAttempts d) (d_store d') i) \<and>
    (\<forall>t\<in>set ts. \<exists>u j. map_of (ms_byID (d_store d')) (t_ID t) = Some u \<and>
       (t_Status u = StatusFailed \<and> t_Attempts u = t_Attempts t + 1 \<and> t_NextRetryAt u = Some (clock j + taskBackoff (t_Attempts t + 1)) \<or>
        (t_Status u = StatusSent \<or> t_Status u = StatusDLQ) \<and> t_CompletedAt u = Some (clock j))) \<and>
    (\<forall>i. i \<notin> set (map t_ID ts) \<longrightarrow> map_of (ms_byID (d_store d')) i = map_of (ms_byID (d_store d)) i)"
  using assms
proof (induction ts arbitrary: k d cs d')
  case (Cons t ts)
  have t: "map_of (ms_byID (d_store d)) (t_ID t) = Some t" "activeTask t" using Cons.prems(2) by (auto simp: batch_ok_def)
  obtain t' where d1: "snd (handleOne hs (clock k) t d) = d\<lparr>d_store := settle (t_ID t) t' (d_store d)\<rparr>" (is "_ = ?d1")
    and i1: "bus_inv (d_maxAttempts d) (settle (t_ID t) t' (d_store d))" and id': "t_ID t' = t_ID t"
    and out: "t_Status t' = StatusFailed \<and> t_Attempts t' = t_Attempts t + 1 \<and> t_NextRetryAt t' = Some (clock k + taskBackoff (t_Attempts t + 1)) \<or>
     (t_Status t' = StatusSent \<or> t_Status t' = StatusDLQ) \<and> t_CompletedAt t' = Some (clock k)"
    using handleOne_settles [OF Cons.prems(1) t, of hs "clock k"] by blast
  obtain cs1 where cs1: "handleAll hs clock (Suc k) ts ?d1 = (cs1, d')"
    and cs: "cs = (if fst (handleOne hs (clock k) t d) then t_ID t # cs1 else cs1)"
    using Cons.prems(3) d1 by (auto split: prod.splits)
  have a: "activeTask t' \<Longrightarrow> t_Attempts t' = t_Attempts t + 1" using out by auto
  note cap = callCap_settle [OF Cons.prems(1) t a]
  have nin: "t_ID t \<notin> set (map t_ID ts)" using Cons.prems(2) by (simp add: batch_ok_def)
  note IH = Cons.IH [of ?d1, OF _ _ cs1]
  have IH': "bus_inv (d_maxAttempts d) (d_store d')" "d_maxAttempts d' = d_maxAttempts d" "d_batchSize d' = d_batchSize d"
    "ms_claimed (d_store d') = ms_claimed (d_store d) - {t_ID t} - set (map t_ID ts)"
    "\<And>i. callCap (d_maxAttempts d) (settle (t_ID t) t' (d_store d)) i + int (count_list cs1 i) \<le> callCap (d_maxAttempts d) (d_store d') i"
    "\<And>i. i \<notin> set (map t_ID ts) \<Longrightarrow> map_of (ms_byID (d_store d')) i = ((map_of (ms_byID (d_store d)))(t_ID t \<mapsto> t')) i"
    and others: "\<forall>t\<in>set ts. \<exists>u j. map_of (ms_byID (d_store d')) (t_ID t) = Some u \<and>
       (t_Status u = StatusFailed \<and> t_Attempts u = t_Attempts t + 1 \<and> t_NextRetryAt u = Some (clock j + taskBackoff (t_Attempts t + 1)) \<or>
        (t_Status u = StatusSent \<or> t_Status u = StatusDLQ) \<and> t_CompletedAt u = Some (clock j))"
    using IH i1 batch_ok_settle [OF Cons.prems(2), of t'] by simp_all
  have counts: "callCap (d_maxAttempts d) (d_store d) i + int (count_list cs i) \<le> callCap (d_maxAttempts d) (d_store d') i" for i
    using IH'(5) [of i] cap(1) [of i] cap(2) unfolding cs by (auto split: if_splits)
  have self: "map_of (ms_byID (d_store d')) (t_ID t) = Some t'" using IH'(6) [OF nin] by simp
  show ?case
  proof (intro conjI allI ballI impI)
    fix u assume "u \<in> set (t # ts)"
    then show "\<exists>v j. map_of (ms_byID (d_store d')) (t_ID u) = Some v \<and>
       (t_Status v = StatusFailed \<and> t_Attempts v = t_Attempts u + 1 \<and> t_NextRetryAt v = Some (clock j + taskBackoff (t_Attempts u + 1)) \<or>
        (t_Status v = StatusSent \<or> t_Status v = StatusDLQ) \<and> t_CompletedAt v = Some (clock j))"
      using self out others by (cases "u = t") auto
  qed (use IH' counts in auto)
qed simp
section \<open>Sweeping\<close>

lemma sweep_props:
  fixes now :: instant
  assumes inv: "bus_inv maxA s"
  defines "s' \<equiv> snd (Sweep now s)"
  defines "r \<equiv> (if ms_Retention s \<le> 0 then DefaultMemoryStoreRetention else ms_Retention s)"
  shows "map_of (ms_byID s') i = (case map_of (ms_byID s) i of None \<Rightarrow> None | Some t \<Rightarrow> if expired r now t then None else Some t)"
    and "bus_inv maxA s'" and "callCap maxA s' = callCap maxA s" and "ms_claimed s' = ms_claimed s"
proof -
  note D = bus_invD [OF inv]
  let ?removed = "filter (\<lambda>(i, t). expired r now t) (ms_byID s)"
  have s': "ms_byID s' = filter (\<lambda>(i, t). \<not> expired r now t) (ms_byID s)" "ms_nextID s' = ms_nextID s"
    "ms_byKey s' = filter (\<lambda>(k, j). \<not> (\<exists>(i, t)\<in>set ?removed. t_IdempotencyKey t = k \<and> i = j)) (ms_byKey s)"
    "ms_claimed s' = ms_claimed s - set (map fst ?removed)" "ms_pending s' = ms_pending s - set (map fst ?removed)"
    unfolding s'_def r_def Sweep_def Let_def snd_conv by (simp_all only: split: if_split) simp_all
  have gone: "set (map fst ?removed) = {i. \<exists>t. map_of (ms_byID s) i = Some t \<and> expired r now t}"
    using D(1) by (auto simp: image_iff)
  have act: "expired r now t \<Longrightarrow> \<not> activeTask t" for t by (auto simp: expired_def)
  show m: "map_of (ms_byID s') i = (case map_of (ms_byID s) i of None \<Rightarrow> None | Some t \<Rightarrow> if expired r now t then None else Some t)" for i
    unfolding s'(1) map_of_filter_distinct [OF D(1)] by (simp split: option.splits)
  have k: "map_of (ms_byKey s') k = (case map_of (ms_byKey s) k of None \<Rightarrow> None
      | Some j \<Rightarrow> if (\<exists>t. map_of (ms_byID s) j = Some t \<and> expired r now t) then None else Some j)" for k
  proof (cases "map_of (ms_byKey s) k")
    case None
    then show ?thesis unfolding s'(3) map_of_filter_distinct [OF D(2)] by simp
  next
    case (Some j)
    obtain t where t: "map_of (ms_byID s) j = Some t" "t_IdempotencyKey t = k" using D(4) [OF Some] by blast
    then have "(\<exists>(i, t)\<in>set ?removed. t_IdempotencyKey t = k \<and> i = j) \<longleftrightarrow> expired r now t"
      using D(1) by (auto dest: eq_key_imp_eq_value)
    then show ?thesis unfolding s'(3) map_of_filter_distinct [OF D(2)] using Some t(1) by auto
  qed
  show cl: "ms_claimed s' = ms_claimed s" unfolding s'(4) gone using D(5,6) act by force
  have p: "ms_pending s' = {i. \<exists>t. map_of (ms_byID s') i = Some t \<and> activeTask t}"
    unfolding s'(5) gone D(5) using act by (auto simp: m split: option.splits if_splits)
  have d: "distinct (map fst (ms_byID s'))" "distinct (map fst (ms_byKey s'))"
    unfolding s' using D(1,2) by (simp_all add: distinct_map_filter)
  have c: "ms_claimed s' \<subseteq> ms_pending s'" unfolding s'(4,5) using D(6) by blast
  have entries: "t_ID t = i \<and> i \<le> ms_nextID s \<and> map_of (ms_byKey s') (t_IdempotencyKey t) = Some i \<and> 0 \<le> t_Attempts t \<and>
      (activeTask t \<longrightarrow> t_Attempts t < maxA)" if "map_of (ms_byID s') i = Some t" for i t
  proof -
    have "map_of (ms_byID s) i = Some t" "\<not> expired r now t" using that by (auto simp: m split: option.splits if_splits)
    then show ?thesis using D(3) [of i t] by (simp add: k)
  qed
  have keys: "\<exists>t. map_of (ms_byID s') j = Some t \<and> t_IdempotencyKey t = l" if "map_of (ms_byKey s') l = Some j" for l j
  proof -
    have "map_of (ms_byKey s) l = Some j" "\<not> (\<exists>t. map_of (ms_byID s) j = Some t \<and> expired r now t)"
      using that by (auto simp: k split: option.splits if_splits)
    then show ?thesis using D(4) [of l j] by (auto simp: m)
  qed
  show "bus_inv maxA s'" unfolding bus_inv_def s'(2) using d entries keys p c by blast
  show "callCap maxA s' = callCap maxA s"
  proof
    fix i
    show "callCap maxA s' i = callCap maxA s i"
      using D(3) [of i] act by (auto simp: callCap_def m s'(2) split: option.splits)
  qed
qed
section \<open>Runs of the bus\<close>

datatype busOp = BEnqueue string string int string instant
  | BDispatch handlers "int list" instant "nat \<Rightarrow> instant" instant

datatype busOut = BTask "storeError + task" | BCalled "int list"

definition busStep :: "busOp \<Rightarrow> dispatcher \<Rightarrow> busOut \<times> dispatcher" where
  "busStep x d = (case x of
     BEnqueue ty k v p now \<Rightarrow> (case bus_Enqueue ty k v p now (d_store d) of (r, s') \<Rightarrow> (BTask r, d\<lparr>d_store := s'\<rparr>))
   | BDispatch hs order now clock sweepNow \<Rightarrow> apfst BCalled (DispatchOnce hs order now clock sweepNow d))"

text \<open>Between two steps nothing is claimed.\<close>

definition disp_inv :: "dispatcher \<Rightarrow> bool" where
  "disp_inv d \<longleftrightarrow> 0 < d_maxAttempts d \<and> 0 < d_batchSize d \<and> bus_inv (d_maxAttempts d) (d_store d) \<and> ms_claimed (d_store d) = {}"

lemma maybeSweep_props:
  assumes inv: "bus_inv maxA (d_store d)"
  shows "bus_inv maxA (d_store (maybeSweep now d)) \<and> callCap maxA (d_store (maybeSweep now d)) = callCap maxA (d_store d) \<and>
    ms_claimed (d_store (maybeSweep now d)) = ms_claimed (d_store d) \<and>
    d_maxAttempts (maybeSweep now d) = d_maxAttempts d \<and> d_batchSize (maybeSweep now d) = d_batchSize d"
  using inv sweep_props(2-4) [OF inv, of now] by (simp add: maybeSweep_def)

lemma claim_props:
  assumes inv: "disp_inv d" and claim: "ClaimBatch (d_batchSize d) now order (d_store d) = (ts, s1)"
  shows "bus_inv (d_maxAttempts d) s1" "batch_ok ts s1" "ms_byID s1 = ms_byID (d_store d)" "ms_nextID s1 = ms_nextID (d_store d)"
    "ms_claimed s1 = set (map t_ID ts)"
proof -
  have "bus_inv (d_maxAttempts d) (d_store d)" and c: "ms_claimed (d_store d) = {}" using inv by (simp_all add: disp_inv_def)
  note p = claimLoop_props [OF this(1) _ claim [unfolded ClaimBatch_def]]
  then show "bus_inv (d_maxAttempts d) s1" "ms_byID s1 = ms_byID (d_store d)" "ms_nextID s1 = ms_nextID (d_store d)"
    "ms_claimed s1 = set (map t_ID ts)" using c by simp_all
  then show "batch_ok ts s1" using p by (auto simp: batch_ok_def claimable_def)
qed

lemma dispatch_props:
  assumes inv: "disp_inv d" and d': "DispatchOnce hs order now clock sweepNow d = (cs, d')"
  shows "disp_inv d' \<and> d_maxAttempts d' = d_maxAttempts d \<and>
    (\<forall>i. callCap (d_maxAttempts d) (d_store d) i + int (count_list cs i) \<le> callCap (d_maxAttempts d) (d_store d') i)"
proof -
  obtain ts s1 where claim: "ClaimBatch (d_batchSize d) now order (d_store d) = (ts, s1)" by fastforce
  obtain d1 where h: "handleAll hs clock 0 ts (d\<lparr>d_store := s1\<rparr>) = (cs, d1)" and e: "d' = maybeSweep sweepNow d1"
    using d' by (auto simp: DispatchOnce_def claim split: prod.splits)
  note c = claim_props [OF inv claim]
  have "callCap (d_maxAttempts d) s1 = callCap (d_maxAttempts d) (d_store d)" by (rule ext) (simp add: callCap_def c(3,4))
  with handleAll_props [of "d\<lparr>d_store := s1\<rparr>", OF _ _ h] c(1,2,5)
  have "bus_inv (d_maxAttempts d) (d_store d1)" "ms_claimed (d_store d1) = {}" "d_maxAttempts d1 = d_maxAttempts d" "d_batchSize d1 = d_batchSize d"
    "\<forall>i. callCap (d_maxAttempts d) (d_store d) i + int (count_list cs i) \<le> callCap (d_maxAttempts d) (d_store d1) i" by simp_all
  then show ?thesis using maybeSweep_props [of "d_maxAttempts d" d1 sweepNow] inv unfolding e by (simp add: disp_inv_def)
qed

definition calls :: "int \<Rightarrow> busOut list \<Rightarrow> nat" where
  "calls i outs = (\<Sum>x\<leftarrow>outs. case x of BCalled cs \<Rightarrow> count_list cs i | BTask r \<Rightarrow> 0)"

lemma busStep_props:
  assumes inv: "disp_inv d"
  shows "disp_inv (snd (busStep x d)) \<and> d_maxAttempts (snd (busStep x d)) = d_maxAttempts d \<and>
    callCap (d_maxAttempts d) (d_store d) i + int (calls i [fst (busStep x d)]) \<le> callCap (d_maxAttempts d) (d_store (snd (busStep x d))) i"
proof (cases x)
  case (BEnqueue ty k v p now)
  have "ms_claimed (snd (bus_Enqueue ty k v p now (d_store d))) = ms_claimed (d_store d)"
    by (auto simp: bus_Enqueue_def Let_def split: option.splits)
  then show ?thesis using BEnqueue inv enqueue_inv [of "d_maxAttempts d" "d_store d" ty k v p now]
    by (simp add: busStep_def split_beta disp_inv_def calls_def)
next
  case (BDispatch hs order now clock sweepNow)
  obtain cs d' where "DispatchOnce hs order now clock sweepNow d = (cs, d')" by fastforce
  then show ?thesis using BDispatch dispatch_props [OF inv] by (simp add: busStep_def calls_def)
qed

lemma bus_run:
  assumes "disp_inv d"
  shows "disp_inv (snd (run_ops busStep ops d)) \<and> d_maxAttempts (snd (run_ops busStep ops d)) = d_maxAttempts d \<and>
    callCap (d_maxAttempts d) (d_store d) i + int (calls i (fst (run_ops busStep ops d))) \<le> callCap (d_maxAttempts d) (d_store (snd (run_ops busStep ops d))) i"
  using assms
proof (induction ops arbitrary: d)
  case (Cons x ops)
  obtain y d1 where s: "busStep x d = (y, d1)" by fastforce
  obtain ys d2 where r: "run_ops busStep ops d1 = (ys, d2)" by fastforce
  have run: "run_ops busStep (x # ops) d = (y # ys, d2)" by (simp add: s r)
  have "calls i (y # ys) = calls i [y] + calls i ys" by (simp add: calls_def)
  then show ?case using busStep_props [OF Cons.prems, of x i] Cons.IH [of d1] unfolding s r run fst_conv snd_conv by auto
qed (simp add: calls_def)

lemma new_disp_inv: "disp_inv (NewDispatcher NewMemoryStore maxAtt batch sweepEvery)"
  by (simp add: disp_inv_def NewDispatcher_def new_store_inv) (simp add: NewMemoryStore_def)
section \<open>Properties of the bus\<close>

text \<open>
  C34.
  Delivery is bounded: over any sequence of enqueues and dispatch rounds, with any handlers, clocks and
  iteration orders, the handler of a task is called at most \<open>MaxAttempts\<close> times, sweeps and key
  reuse included.
\<close>

theorem task_calls_bounded:
  "int (calls i (fst (run_ops busStep ops (NewDispatcher NewMemoryStore maxAtt batch sweepEvery)))) \<le> (if maxAtt \<le> 0 then 5 else maxAtt)"
proof -
  let ?d = "NewDispatcher NewMemoryStore maxAtt batch sweepEvery"
  let ?M = "d_maxAttempts ?d" and ?e = "snd (run_ops busStep ops ?d)"
  note r = bus_run [OF new_disp_inv [of maxAtt batch sweepEvery], where ops = ops and i = i]
  then have "disp_inv ?e" "d_maxAttempts ?e = ?M" by blast+
  then have inv: "bus_inv ?M (d_store ?e)" and "0 < ?M" by (auto simp: disp_inv_def)
  have "0 \<le> callCap ?M (d_store ?d) i" using \<open>0 < ?M\<close> by (simp add: callCap_def NewDispatcher_def NewMemoryStore_def)
  moreover have "callCap ?M (d_store ?e) i \<le> ?M"
    using bus_invD(3) [OF inv, of i] \<open>0 < ?M\<close> by (auto simp: callCap_def split: option.splits)
  ultimately show ?thesis using r by (simp add: NewDispatcher_def)
qed

lemma enqueue_no_nil: "bus_inv maxA s \<Longrightarrow> fst (bus_Enqueue ty k v p now s) \<noteq> Inl NilTask"
  using bus_invD(4) [of maxA s k] by (auto simp: bus_Enqueue_def Let_def split: option.splits)

lemma run_no_nil: "disp_inv d \<Longrightarrow> BTask (Inl NilTask) \<notin> set (fst (run_ops busStep ops d))"
proof (induction ops arbitrary: d)
  case (Cons x ops)
  obtain y d1 where s: "busStep x d = (y, d1)" by fastforce
  have "disp_inv d1" using busStep_props [OF Cons.prems, of x] s by simp
  moreover have "y \<noteq> BTask (Inl NilTask)"
  proof (cases x)
    case (BEnqueue ty k v p now)
    then have "y = BTask (fst (bus_Enqueue ty k v p now (d_store d)))" using s by (auto simp: busStep_def split: prod.splits)
    then show ?thesis using Cons.prems enqueue_no_nil by (auto simp: disp_inv_def)
  next
    case BDispatch
    then show ?thesis using s by (auto simp: busStep_def apfst_def map_prod_def split: prod.splits)
  qed
  ultimately show ?case using Cons.IH [of d1] s by (auto split: prod.splits)
qed simp

text \<open>
  Store consistency: in every run the key index never points to a missing task (the nil dereference in
  \<open>Enqueue\<close> is unreachable), the pending index is exactly the set of tasks still to deliver, keys and
  tasks correspond one to one, and no task stays claimed after its round.
\<close>

theorem store_indices_exact:
  fixes ops maxAtt batch sweepEvery
  defines "d \<equiv> NewDispatcher NewMemoryStore maxAtt batch sweepEvery"
  defines "s \<equiv> d_store (snd (run_ops busStep ops d))"
  shows "BTask (Inl NilTask) \<notin> set (fst (run_ops busStep ops d)) \<and>
    ms_pending s = {i. \<exists>t. map_of (ms_byID s) i = Some t \<and> (t_Status t = StatusPending \<or> t_Status t = StatusFailed)} \<and>
    (\<forall>k i. map_of (ms_byKey s) k = Some i \<longleftrightarrow> (\<exists>t. map_of (ms_byID s) i = Some t \<and> t_IdempotencyKey t = k)) \<and>
    ms_claimed s = {}"
proof -
  have "disp_inv d" unfolding d_def by (rule new_disp_inv)
  then have nil: "BTask (Inl NilTask) \<notin> set (fst (run_ops busStep ops d))" by (rule run_no_nil)
  have "disp_inv (snd (run_ops busStep ops d))" using bus_run [OF \<open>disp_inv d\<close>] by blast
  then have c: "ms_claimed s = {}" and inv: "bus_inv (d_maxAttempts (snd (run_ops busStep ops d))) s"
    by (simp_all add: disp_inv_def s_def)
  note D = bus_invD [OF inv]
  have "map_of (ms_byKey s) k = Some i \<longleftrightarrow> (\<exists>t. map_of (ms_byID s) i = Some t \<and> t_IdempotencyKey t = k)" for k i
    using D(3) D(4) by blast
  then show ?thesis using nil c D(5) by blast
qed

text \<open>
  A key is remembered across task types: once a task was stored under a key, a second enqueue with that
  key returns the first task and stores nothing, even when its type differs, so a task of another type with
  the same key is never delivered.
\<close>

theorem key_reuse_returns_first:
  assumes first: "bus_Enqueue ty k v p now (d_store (snd (run_ops busStep ops (NewDispatcher NewMemoryStore maxAtt batch sweepEvery)))) = (Inr t, s1)"
    and second: "ty' \<noteq> []" "0 < v'"
  shows "bus_Enqueue ty' k v' p' now' s1 = (Inr t, s1)"
proof -
  let ?d = "snd (run_ops busStep ops (NewDispatcher NewMemoryStore maxAtt batch sweepEvery))"
  have inv: "bus_inv (d_maxAttempts ?d) (d_store ?d)"
    using bus_run [OF new_disp_inv, THEN conjunct1] unfolding disp_inv_def by blast
  have args: "ty \<noteq> []" "k \<noteq> []" "0 < v" using first by (auto simp: bus_Enqueue_def split: if_splits)
  from inv args show ?thesis
  proof (cases rule: enqueue_cases [where p = p and now = now])
    case (existing i u)
    then show ?thesis using first second args(2) by (simp add: bus_Enqueue_def)
  next
    case (new u)
    then have "t = u" "map_of (ms_byKey s1) k = Some (t_ID u)" "map_of (ms_byID s1) (t_ID u) = Some u"
      using first by (auto simp: update_conv')
    then show ?thesis using second args(2) by (simp add: bus_Enqueue_def)
  qed
qed

theorem key_reuse_returns_first_witness:
  "\<exists>t s1. bus_Enqueue ''a'' ''k'' 7 ''x'' 5 NewMemoryStore = (Inr t, s1) \<and> t_TaskType t = ''a'' \<and>
     bus_Enqueue ''b'' ''k'' 7 ''y'' 6 s1 = (Inr t, s1)"
proof -
  obtain t s1 where e: "bus_Enqueue ''a'' ''k'' 7 ''x'' 5 NewMemoryStore = (Inr t, s1)" "t_TaskType t = ''a''"
    by (simp add: bus_Enqueue_def NewMemoryStore_def Let_def)
  then have "bus_Enqueue ''b'' ''k'' 7 ''y'' 6 s1 = (Inr t, s1)"
    using key_reuse_returns_first [of "''a''" "''k''" 7 "''x''" 5 "[]" 3 4 8 t s1 "''b''" 7] by (simp add: NewDispatcher_def)
  with e show ?thesis by blast
qed
lemma handleAll_called:
  "fst (handleAll hs clock k ts d) = map t_ID (filter (\<lambda>t. hs (t_TaskType t) \<noteq> None) ts)"
proof (induction ts arbitrary: k d)
  case (Cons t ts)
  have "fst (handleOne hs (clock k) t d) \<longleftrightarrow> hs (t_TaskType t) \<noteq> None"
    by (auto simp: handleOne_def Let_def split: option.splits)
  then show ?case using Cons by (simp add: split_beta)
qed simp

lemma claimLoop_complete:
  assumes "bus_inv maxA s" "distinct is" "int (length is) \<le> limit" "i \<in> set is" "map_of (ms_byID s) i = Some t" "claimable now s t"
  shows "t \<in> set (fst (claimLoop limit now is s))"
  using assms
proof (induction limit now "is" s rule: claimLoop.induct)
  case (2 limit now j rest s)
  note D = bus_invD [OF "2.prems"(1)]
  show ?case
  proof (cases "map_of (ms_byID s) j")
    case None
    then have "j \<notin> ms_pending s" using D(5) by auto
    then have eq: "s\<lparr>ms_pending := ms_pending s - {j}\<rparr> = s" by simp
    have "j \<noteq> i" using None "2.prems"(5) by auto
    then show ?thesis using "2.IH"(1) [OF None] "2.prems" None unfolding eq by (auto simp: eq)
  next
    case (Some u)
    have uj: "t_ID u = j" "t_ID t = i" using D(3) [OF Some] D(3) [OF "2.prems"(5)] by auto
    show ?thesis
    proof (cases "claimable now s u")
      case False
      then have "j \<noteq> i" using Some "2.prems"(5,6) by auto
      then show ?thesis using "2.IH"(3) [OF Some False] "2.prems" Some False by auto
    next
      case True
      show ?thesis
      proof (cases "i = j")
        case eq: True
        then show ?thesis using Some True "2.prems"(5) by (auto simp: Let_def split: prod.splits)
      next
        case neq: False
        let ?s1 = "s\<lparr>ms_claimed := insert (t_ID u) (ms_claimed s)\<rparr>"
        have rest: "i \<in> set rest" using neq "2.prems"(4) by simp
        then have big: "\<not> limit \<le> 1" using "2.prems"(3) by (cases rest) auto
        have i1: "bus_inv maxA ?s1" using "2.prems"(1) Some True unfolding bus_inv_def claimable_def uj by auto
        have "claimable now ?s1 t" using "2.prems"(6) neq uj by (simp add: claimable_def)
        then have "t \<in> set (fst (claimLoop (limit - 1) now rest ?s1))"
          using "2.IH"(2) [OF Some True refl big i1] rest "2.prems"(2,3,5) by simp
        then show ?thesis using Some True big by (simp add: split_beta Let_def)
      qed
    qed
  qed
qed simp

lemma pending_finite: "bus_inv maxA s \<Longrightarrow> finite (ms_pending s)"
  using bus_invD(5) [of maxA s] finite_dom_map_of [of "ms_byID s"] by (auto intro: finite_subset [of _ "dom (map_of (ms_byID s))"])

text \<open>
  Delivery happens: in a reachable bus whose batch covers the pending tasks, a dispatch round calls the
  handler of every active task that is due, exactly once, and leaves the task finished, or failed with one more
  attempt and the backoff after the time of its handling (a finished one may already be swept).
\<close>

theorem due_task_dispatched:
  assumes d: "d = snd (run_ops busStep ops (NewDispatcher NewMemoryStore maxAtt batch sweepEvery))"
    and t: "map_of (ms_byID (d_store d)) i = Some t" "t_Status t = StatusPending \<or> t_Status t = StatusFailed"
    and due: "t_NextRetryAt t = None \<or> the (t_NextRetryAt t) \<le> now"
    and order: "set order = ms_pending (d_store d)" and room: "int (card (ms_pending (d_store d))) \<le> d_batchSize d"
    and h: "hs (t_TaskType t) \<noteq> None"
  shows "count_list (fst (DispatchOnce hs order now clock sweepNow d)) i = 1 \<and>
    (\<forall>u. map_of (ms_byID (d_store (snd (DispatchOnce hs order now clock sweepNow d)))) i = Some u \<longrightarrow>
       (\<exists>j. t_Status u = StatusFailed \<and> t_Attempts u = t_Attempts t + 1 \<and> t_NextRetryAt u = Some (clock j + taskBackoff (t_Attempts t + 1)) \<or>
            (t_Status u = StatusSent \<or> t_Status u = StatusDLQ) \<and> t_CompletedAt u = Some (clock j)))"
proof -
  have inv: "disp_inv d" unfolding d using bus_run [OF new_disp_inv, THEN conjunct1] by blast
  then have b: "bus_inv (d_maxAttempts d) (d_store d)" and c0: "ms_claimed (d_store d) = {}" and bs: "0 < d_batchSize d" by (auto simp: disp_inv_def)
  obtain ts s1 where claim: "ClaimBatch (d_batchSize d) now order (d_store d) = (ts, s1)" by fastforce
  obtain cs d1 where h1: "handleAll hs clock 0 ts (d\<lparr>d_store := s1\<rparr>) = (cs, d1)" by fastforce
  note c = claim_props [OF inv claim]
  have "i \<in> ms_pending (d_store d)" using bus_invD(5) [OF b] t by auto
  moreover have "claimable now (d_store d) t" using t due c0 by (auto simp: claimable_def split: option.splits)
  moreover have "int (length (filter (\<lambda>i. i \<in> ms_pending (d_store d)) (remdups order))) \<le> d_batchSize d"
    using room order by (simp add: length_remdups_card_conv flip: remdups_filter)
  ultimately have "t \<in> set ts"
    using claimLoop_complete [OF b, of "filter (\<lambda>i. i \<in> ms_pending (d_store d)) (remdups order)" "d_batchSize d" i t now] claim bs t(1) order
    by (simp add: ClaimBatch_def)
  have ti: "t_ID t = i" using bus_invD(3) [OF b t(1)] by simp
  have dist: "distinct (map t_ID ts)" using c(2) by (simp add: batch_ok_def)
  have "cs = map t_ID (filter (\<lambda>t. hs (t_TaskType t) \<noteq> None) ts)" using handleAll_called [of hs clock 0 ts] h1 by (metis fst_conv)
  then have "distinct cs" "i \<in> set cs" using dist \<open>t \<in> set ts\<close> h ti by (auto simp: distinct_map_filter)
  then have once: "count_list cs i = 1" by (simp add: count_list_distinct)
  have e: "DispatchOnce hs order now clock sweepNow d = (cs, maybeSweep sweepNow d1)" by (simp add: DispatchOnce_def claim h1)
  have p: "bus_inv (d_maxAttempts d) (d_store d1)" "\<exists>u j. map_of (ms_byID (d_store d1)) i = Some u \<and>
       (t_Status u = StatusFailed \<and> t_Attempts u = t_Attempts t + 1 \<and> t_NextRetryAt u = Some (clock j + taskBackoff (t_Attempts t + 1)) \<or>
        (t_Status u = StatusSent \<or> t_Status u = StatusDLQ) \<and> t_CompletedAt u = Some (clock j))"
    using handleAll_props [of "d\<lparr>d_store := s1\<rparr>", OF _ _ h1] c(1,2) \<open>t \<in> set ts\<close> ti by auto
  have "map_of (ms_byID (d_store (maybeSweep sweepNow d1))) i = Some u \<Longrightarrow> map_of (ms_byID (d_store d1)) i = Some u" for u
    using sweep_props(1) [OF p(1), of sweepNow i] by (auto simp: maybeSweep_def split: option.splits if_splits)
  then show ?thesis using once p(2) unfolding e by fastforce
qed

theorem due_task_dispatched_witness:
  "count_list (fst (DispatchOnce (\<lambda>ty. Some (\<lambda>t. None)) [1] 9 (\<lambda>j. 9) 9
     (snd (run_ops busStep [BEnqueue ''a'' ''k'' 7 ''x'' 5] (NewDispatcher NewMemoryStore 3 4 8))))) 1 = 1"
proof -
  let ?d = "snd (run_ops busStep [BEnqueue ''a'' ''k'' 7 ''x'' 5] (NewDispatcher NewMemoryStore 3 4 8))"
  obtain t where "map_of (ms_byID (d_store ?d)) 1 = Some t" "t_Status t = StatusPending" "t_NextRetryAt t = None" "ms_pending (d_store ?d) = {1}" "d_batchSize ?d = 4"
    by (simp add: busStep_def bus_Enqueue_def NewDispatcher_def NewMemoryStore_def Let_def)
  then show ?thesis using due_task_dispatched [OF refl, of "[BEnqueue ''a'' ''k'' 7 ''x'' 5]" 3 4 8 1 t 9 "[1]" "\<lambda>ty. Some (\<lambda>t. None)" "\<lambda>j. 9" 9]
    by simp
qed

text \<open>
  The backoff doubles from two seconds as long as it fits: up to 33 attempts it is the power of two in
  seconds, at 34 the 64-bit product turns negative and the task is due again at once. The default limit of
  five attempts stays far below.
\<close>

theorem backoff_boundary:
  "(0 \<le> a \<and> a \<le> 33 \<longrightarrow> taskBackoff a = 2 ^ nat a * go_second) \<and> taskBackoff 34 < 0"
proof (intro conjI impI)
  have e: "(push_bit n 1 * word_of_int go_second :: 64 word) = word_of_int (2 ^ n * go_second)" for n
    by (simp add: push_bit_eq_mult)
  assume a: "0 \<le> a \<and> a \<le> 33"
  then have "nat a \<le> 33" by (simp add: nat_le_iff)
  then have "(2 :: int) ^ nat a \<le> 2 ^ 33" by (rule power_increasing) simp
  then have "2 ^ nat a * go_second < 2 ^ 63" by simp
  moreover have "(0 :: int) \<le> 2 ^ nat a * go_second" by simp
  ultimately have "signed_take_bit 63 (2 ^ nat a * go_second) = 2 ^ nat a * go_second"
    by (intro signed_take_bit_int_eq_self) linarith+
  moreover have "sint (word_of_int (2 ^ nat a * go_second) :: 64 word) = signed_take_bit 63 (2 ^ nat a * go_second)"
    by (subst sint_sbintrunc') simp
  ultimately show "taskBackoff a = 2 ^ nat a * go_second" unfolding taskBackoff_def e by (rule trans [rotated])
next
  show "taskBackoff 34 < 0" by (simp add: taskBackoff_def)
qed

theorem backoff_boundary_witness: "taskBackoff 4 = 16 * go_second"
  using backoff_boundary [of 4] by simp

end
