(* ===== verification/CircuitBreaker.thy ===== *)
theory CircuitBreaker
  imports ErrorKinds
begin

text \<open>
  The credential circuit breaker of \<open>domains/credential/breaker.go\<close>: one state machine per
  provider and credential with cooling policies per error kind and a single half-open probe, the
  manager that keys the breakers, and the observer of \<open>state_sync.go\<close> that mirrors the
  transitions into a database row.

  A method that holds \<open>b.mu\<close> throughout is one step and reads the clock once; \<open>Allow\<close>
  has two such sections (the transition to half-open and the claim of the probe) and takes both
  instants. The zero \<open>time.Time\<close> is \<open>None\<close>: every instant is after it. The counters
  keep the 32 bits of \<open>atomic.Int32\<close>. Transitions are reported as a list of
  \<open>stateChange\<close>, empty when no observer is installed; log lines and \<open>Stats\<close> are
  left out. The key \<open>"%d/%d"\<close> of the manager is the pair of its two numbers.
\<close>

section \<open>States and policies\<close>

datatype cbState = StateClosed | StateOpen | StateHalfOpen | StateQuarantined

definition cbState_String :: "cbState \<Rightarrow> string" where
  "cbState_String s = (case s of StateClosed \<Rightarrow> ''closed'' | StateOpen \<Rightarrow> ''open''
     | StateHalfOpen \<Rightarrow> ''half_open'' | StateQuarantined \<Rightarrow> ''quarantined'')"

datatype recoveryType = RecoveryAuto | RecoveryExponential | RecoveryPermanent

record coolingPolicy =
  InitialCooling :: duration
  MaxCooling :: duration
  RecoveryType :: recoveryType

abbreviation policy :: "duration \<Rightarrow> duration \<Rightarrow> recoveryType \<Rightarrow> coolingPolicy" where
  "policy i m r \<equiv> \<lparr>InitialCooling = i, MaxCooling = m, RecoveryType = r\<rparr>"

definition autoRecoveryFailureThreshold :: int where "autoRecoveryFailureThreshold = 2"
definition exponentialRecoveryFailureThreshold :: int where "exponentialRecoveryFailureThreshold = 2"
definition permanentRecoveryFailureThreshold :: int where "permanentRecoveryFailureThreshold = 2"
definition halfOpenProbeTimeout :: duration where "halfOpenProbeTimeout = 5 * go_minute"
definition quotaResetMinCooling :: duration where "quotaResetMinCooling = 30 * go_second"
definition quotaResetMaxCooling :: duration where "quotaResetMaxCooling = 120 * go_minute"

fun defaultPolicies :: "errorKind \<Rightarrow> coolingPolicy option" where
  "defaultPolicies KindTransient = Some (policy (60 * go_second) (60 * go_second) RecoveryAuto)"
| "defaultPolicies KindTimeout = Some (policy (60 * go_second) (60 * go_second) RecoveryAuto)"
| "defaultPolicies KindNetwork = Some (policy (60 * go_second) (60 * go_second) RecoveryAuto)"
| "defaultPolicies KindAuth = Some (policy (5 * go_minute) (1440 * go_minute) RecoveryExponential)"
| "defaultPolicies KindQuota = Some (policy 0 0 RecoveryPermanent)"
| "defaultPolicies KindUpstreamDown = Some (policy (30 * go_second) (1800 * go_second) RecoveryExponential)"
| "defaultPolicies KindUpstreamOverloaded = Some (policy (30 * go_second) (5 * go_minute) RecoveryExponential)"
| "defaultPolicies KindStreamTimeout = Some (policy (30 * go_second) (30 * go_second) RecoveryAuto)"
| "defaultPolicies KindNoAvailableChannel = Some (policy (60 * go_second) (60 * go_second) RecoveryAuto)"
| "defaultPolicies KindConcurrent = Some (policy (2 * go_minute) (2 * go_minute) RecoveryAuto)"
| "defaultPolicies _ = None"

fun freeTierPolicies :: "errorKind \<Rightarrow> coolingPolicy option" where
  "freeTierPolicies KindTransient = Some (policy (15 * go_second) (15 * go_second) RecoveryAuto)"
| "freeTierPolicies KindTimeout = Some (policy (15 * go_second) (15 * go_second) RecoveryAuto)"
| "freeTierPolicies KindNetwork = Some (policy (15 * go_second) (15 * go_second) RecoveryAuto)"
| "freeTierPolicies KindStreamTimeout = Some (policy (15 * go_second) (15 * go_second) RecoveryAuto)"
| "freeTierPolicies KindConcurrent = Some (policy (5 * go_second) (5 * go_second) RecoveryAuto)"
| "freeTierPolicies KindUpstreamDown = Some (policy (15 * go_second) (5 * go_minute) RecoveryExponential)"
| "freeTierPolicies KindUpstreamOverloaded = Some (policy (15 * go_second) (2 * go_minute) RecoveryExponential)"
| "freeTierPolicies KindNoAvailableChannel = Some (policy (15 * go_second) (15 * go_second) RecoveryAuto)"
| "freeTierPolicies _ = None"

definition transientFamily :: "errorKind \<Rightarrow> bool" where
  "transientFamily k \<longleftrightarrow> k \<in> {KindTransient, KindTimeout, KindNetwork, KindStreamTimeout, KindNoAvailableChannel}"

definition IsQuotaExhaustion :: "errorKind \<Rightarrow> bool" where
  "IsQuotaExhaustion k \<longleftrightarrow> k \<in> {KindQuota, KindQuotaPeriodic, KindQuotaBalance, KindQuotaPermanent}"

definition failureConfirmationThreshold :: "coolingPolicy \<Rightarrow> int" where
  "failureConfirmationThreshold p = (case RecoveryType p of
     RecoveryPermanent \<Rightarrow> permanentRecoveryFailureThreshold
   | RecoveryExponential \<Rightarrow> exponentialRecoveryFailureThreshold
   | RecoveryAuto \<Rightarrow> autoRecoveryFailureThreshold)"

text \<open>
  The code multiplies in \<open>float64\<close>. Durations below \<open>2\<^sup>5\<^sup>3\<close> nanoseconds (104 days) and
  their doublings are exact there, and an overflow to infinity compares above every maximum, so the
  integer product decides the same way.
\<close>

definition exponentialCooling :: "duration \<Rightarrow> duration \<Rightarrow> int \<Rightarrow> duration" where
  "exponentialCooling initial mx cycle =
     (let step = (if cycle - 1 < 0 then 0 else cycle - 1);
          v = initial * 2 ^ nat step
      in if v \<le> 0 \<or> mx \<le> v then mx else v)"

section \<open>The breaker\<close>

record breaker =
  providerID :: int
  credentialID :: int
  cb_state :: cbState
  failCount :: int
  consecutive :: int
  halfOpenProbes :: int
  freeTier :: bool
  cb_coolingPolicy :: coolingPolicy
  recoveredAtUnix :: int
  cb_observed :: bool
  lastFailureAt :: "instant option"
  openSince :: "instant option"
  coolingExpires :: "instant option"
  coolingCycle :: int
  nextProbeAt :: "instant option"
  lastErrorKind :: errorKind

record stateChange =
  sc_ProviderID :: int
  sc_CredentialID :: int
  sc_From :: cbState
  sc_To :: cbState
  sc_Kind :: errorKind
  sc_CoolingUntil :: "instant option"

definition int32_add1 :: "int \<Rightarrow> int" where
  "int32_add1 n = (n + 1 + 2 ^ 31) mod 2 ^ 32 - 2 ^ 31"

definition after :: "instant \<Rightarrow> instant option \<Rightarrow> bool" where
  "after now t \<longleftrightarrow> (case t of None \<Rightarrow> True | Some e \<Rightarrow> e < now)"

definition unixSec :: "instant \<Rightarrow> int" where
  "unixSec t = t div go_second"

definition NewWithPolicy :: "int \<Rightarrow> int \<Rightarrow> coolingPolicy \<Rightarrow> breaker" where
  "NewWithPolicy pid cid dp =
     (let p = (if InitialCooling dp = 0 \<and> RecoveryType dp = RecoveryAuto
               then the (defaultPolicies KindTransient) else dp)
      in \<lparr>providerID = pid, credentialID = cid, cb_state = StateClosed, failCount = 0, consecutive = 0,
          halfOpenProbes = 0, freeTier = False, cb_coolingPolicy = p, recoveredAtUnix = 0, cb_observed = False,
          lastFailureAt = None, openSince = None, coolingExpires = None, coolingCycle = 0, nextProbeAt = None,
          lastErrorKind = KindNone\<rparr>)"

definition NewBreaker :: "int \<Rightarrow> int \<Rightarrow> breaker" where
  "NewBreaker pid cid = NewWithPolicy pid cid (policy 0 0 RecoveryAuto)"

definition cb_notify :: "breaker \<Rightarrow> cbState \<Rightarrow> cbState \<Rightarrow> errorKind \<Rightarrow> instant option \<Rightarrow> stateChange list" where
  "cb_notify b frm to k cu =
     (if cb_observed b
      then [\<lparr>sc_ProviderID = providerID b, sc_CredentialID = credentialID b, sc_From = frm, sc_To = to,
             sc_Kind = k, sc_CoolingUntil = cu\<rparr>] else [])"

subsection \<open>Admission and the half-open probe\<close>

definition claimProbe :: "instant \<Rightarrow> breaker \<Rightarrow> bool \<times> breaker" where
  "claimProbe now b =
     (if cb_state b \<noteq> StateHalfOpen then (False, b)
      else if halfOpenProbes b = 0 \<or> after now (nextProbeAt b)
      then (True, b\<lparr>halfOpenProbes := 1, nextProbeAt := Some (now + halfOpenProbeTimeout)\<rparr>)
      else (False, b))"

definition tryTransitionToHalfOpen :: "instant \<Rightarrow> breaker \<Rightarrow> bool \<times> stateChange list \<times> breaker" where
  "tryTransitionToHalfOpen now b =
     (if cb_state b \<noteq> StateOpen then (False, [], b)
      else if after now (coolingExpires b)
      then (True, cb_notify b (cb_state b) StateHalfOpen (lastErrorKind b) None,
            b\<lparr>cb_state := StateHalfOpen, halfOpenProbes := 0, nextProbeAt := Some now\<rparr>)
      else (False, [], b))"

definition Allow :: "instant \<Rightarrow> instant \<Rightarrow> breaker \<Rightarrow> bool \<times> stateChange list \<times> breaker" where
  "Allow now now' b = (case cb_state b of
     StateClosed \<Rightarrow> (True, [], b)
   | StateQuarantined \<Rightarrow> (False, [], b)
   | StateOpen \<Rightarrow> (case tryTransitionToHalfOpen now b of (moved, ns, b') \<Rightarrow>
       if moved then (case claimProbe now' b' of (ok, b'') \<Rightarrow> (ok, ns, b'')) else (False, ns, b'))
   | StateHalfOpen \<Rightarrow> (case claimProbe now' b of (ok, b') \<Rightarrow> (ok, [], b')))"

definition PeekAllowed :: "instant \<Rightarrow> breaker \<Rightarrow> bool" where
  "PeekAllowed now b = (case cb_state b of
     StateClosed \<Rightarrow> True
   | StateQuarantined \<Rightarrow> False
   | StateHalfOpen \<Rightarrow> halfOpenProbes b = 0 \<or> after now (nextProbeAt b)
   | StateOpen \<Rightarrow> after now (coolingExpires b))"

definition ReleaseProbe :: "breaker \<Rightarrow> breaker" where
  "ReleaseProbe b =
     (if cb_state b \<noteq> StateHalfOpen then b
      else if 0 < halfOpenProbes b then b\<lparr>halfOpenProbes := 0, nextProbeAt := None\<rparr> else b)"

definition MarkFreeTier :: "breaker \<Rightarrow> breaker" where
  "MarkFreeTier b = b\<lparr>freeTier := True\<rparr>"

subsection \<open>Recording outcomes\<close>

definition policyFor :: "breaker \<Rightarrow> errorKind \<Rightarrow> coolingPolicy" where
  "policyFor b kind =
     (let p = (case defaultPolicies kind of Some p \<Rightarrow> p | None \<Rightarrow> cb_coolingPolicy b)
      in if freeTier b then (case freeTierPolicies kind of Some fp \<Rightarrow> fp | None \<Rightarrow> p) else p)"

definition incidentWindow :: "coolingPolicy \<Rightarrow> instant \<Rightarrow> breaker \<Rightarrow> duration" where
  "incidentWindow p now b = (case coolingExpires b of
     None \<Rightarrow> InitialCooling p
   | Some e \<Rightarrow> if InitialCooling p < e - now then e - now else InitialCooling p)"

definition sameIncident :: "coolingPolicy \<Rightarrow> instant \<Rightarrow> breaker \<Rightarrow> bool" where
  "sameIncident p now b = (case lastFailureAt b of
     None \<Rightarrow> False | Some t \<Rightarrow> now - t \<le> incidentWindow p now b)"

definition countFailure :: "coolingPolicy \<Rightarrow> errorKind \<Rightarrow> instant \<Rightarrow> breaker \<Rightarrow> breaker" where
  "countFailure p kind now b =
     (let b1 = (if lastErrorKind b \<noteq> KindNone \<and> lastErrorKind b \<noteq> kind
                   \<and> \<not> (transientFamily (lastErrorKind b) \<and> transientFamily kind)
                then b\<lparr>consecutive := (if sameIncident p now b then consecutive b else 0), coolingCycle := 0\<rparr>
                else b)
      in b1\<lparr>lastFailureAt := Some now, lastErrorKind := kind,
            consecutive := int32_add1 (consecutive b1), failCount := int32_add1 (failCount b1)\<rparr>)"

definition escalatedPolicy :: "breaker \<Rightarrow> coolingPolicy" where
  "escalatedPolicy b = (case freeTierPolicies KindUpstreamDown of
     Some fp \<Rightarrow> if freeTier b then fp else the (defaultPolicies KindUpstreamDown)
   | None \<Rightarrow> the (defaultPolicies KindUpstreamDown))"

definition openCircuit :: "coolingPolicy \<Rightarrow> errorKind \<Rightarrow> instant \<Rightarrow> breaker \<Rightarrow> breaker" where
  "openCircuit p kind now b =
     (let b1 = b\<lparr>cb_state := StateOpen, halfOpenProbes := 0, openSince := Some now, recoveredAtUnix := 0\<rparr>;
          climb = (\<lambda>q. b1\<lparr>coolingCycle := coolingCycle b1 + 1,
             coolingExpires := Some (now + exponentialCooling (InitialCooling q) (MaxCooling q) (coolingCycle b1 + 1))\<rparr>)
      in if RecoveryType p = RecoveryExponential then climb p
         else if kind \<in> {KindTransient, KindTimeout, KindNetwork, KindStreamTimeout}
                 \<and> autoRecoveryFailureThreshold \<le> consecutive b1 then climb (escalatedPolicy b1)
         else b1\<lparr>coolingExpires := Some (now + InitialCooling p)\<rparr>)"

definition quarantineCircuit :: "breaker \<Rightarrow> breaker" where
  "quarantineCircuit b = b\<lparr>cb_state := StateQuarantined, coolingCycle := 0, recoveredAtUnix := 0\<rparr>"

definition RecordFailure :: "errorKind \<Rightarrow> instant \<Rightarrow> breaker \<Rightarrow> stateChange list \<times> breaker" where
  "RecordFailure kind now b =
     (if pe_Target (PenaltyOf kind) = PenaltyNone then ([], b)
      else if kind = KindRateLimit then ([], if cb_state b = StateHalfOpen then ReleaseProbe b else b)
      else
        let previous = cb_state b;
            p = policyFor b kind;
            b1 = countFailure p kind now b;
            threshold = (if cb_state b1 = StateHalfOpen then 1 else failureConfirmationThreshold p)
        in if consecutive b1 < threshold then ([], b1)
           else
             let b2 = (if RecoveryType p = RecoveryPermanent then quarantineCircuit b1 else openCircuit p kind now b1);
                 final = cb_state b2
             in (if final \<noteq> previous \<or> final = StateOpen \<or> final = StateQuarantined
                 then cb_notify b2 previous final kind (if final = StateOpen then coolingExpires b2 else None)
                 else [], b2))"

definition openAlignedToQuotaReset :: "errorKind \<Rightarrow> instant \<Rightarrow> instant \<Rightarrow> breaker \<Rightarrow> stateChange list \<times> breaker" where
  "openAlignedToQuotaReset kind resetAt now b =
     (let c0 = resetAt - now;
          c1 = (if c0 < quotaResetMinCooling then quotaResetMinCooling else c0);
          cooling = (if quotaResetMaxCooling < c1 then quotaResetMaxCooling else c1);
          previous = cb_state b;
          b' = b\<lparr>lastFailureAt := Some now, lastErrorKind := kind, consecutive := int32_add1 (consecutive b),
                 failCount := int32_add1 (failCount b), cb_state := StateOpen, halfOpenProbes := 0,
                 openSince := Some now, coolingCycle := 0, coolingExpires := Some (now + cooling),
                 recoveredAtUnix := 0\<rparr>
      in (cb_notify b' previous (cb_state b') kind (coolingExpires b'), b'))"

definition RecordFailureWithReset ::
  "errorKind \<Rightarrow> instant \<Rightarrow> bool \<Rightarrow> instant \<Rightarrow> breaker \<Rightarrow> stateChange list \<times> breaker" where
  "RecordFailureWithReset kind resetAt ok now b =
     (if ok \<and> IsQuotaExhaustion kind \<and> now < resetAt then openAlignedToQuotaReset kind resetAt now b
      else RecordFailure kind now b)"

definition RecordModelScopedFailure :: "breaker \<Rightarrow> breaker" where
  "RecordModelScopedFailure b = (if cb_state b = StateHalfOpen then ReleaseProbe b else b)"

definition cb_RecordSuccess :: "instant \<Rightarrow> breaker \<Rightarrow> stateChange list \<times> breaker" where
  "cb_RecordSuccess now b =
     (let prev = cb_state b;
          b' = b\<lparr>cb_state := StateClosed, consecutive := 0, coolingCycle := 0, halfOpenProbes := 0, lastFailureAt := None\<rparr>
      in if prev \<noteq> StateClosed
         then (cb_notify b' prev StateClosed (lastErrorKind b') None, b'\<lparr>recoveredAtUnix := unixSec now\<rparr>)
         else ([], b'))"

definition cb_Reset :: "instant \<Rightarrow> breaker \<Rightarrow> stateChange list \<times> breaker" where
  "cb_Reset now b =
     (let previous = cb_state b;
          b' = b\<lparr>cb_state := StateClosed, consecutive := 0, failCount := 0, coolingCycle := 0, halfOpenProbes := 0,
                 lastFailureAt := None, recoveredAtUnix := unixSec now, coolingExpires := None, lastErrorKind := KindNone\<rparr>
      in (if previous \<noteq> StateClosed then cb_notify b' previous StateClosed (lastErrorKind b) None else [], b'))"

definition RecoveredAt :: "breaker \<Rightarrow> instant option" where
  "RecoveredAt b = (if recoveredAtUnix b = 0 then None else Some (recoveredAtUnix b * go_second))"

definition CoolingUntil :: "breaker option \<Rightarrow> instant option" where
  "CoolingUntil ob = (case ob of None \<Rightarrow> None | Some b \<Rightarrow> coolingExpires b)"

text \<open>
  The critical sections as events, so that calls of several goroutines interleave. \<open>EvTry\<close> and
  \<open>EvClaim\<close> are the two sections of \<open>Allow\<close>; the answer is that of the claim.
\<close>

datatype cbEvent =
  EvTry instant | EvClaim instant | EvRelease | EvFreeTier
| EvFailure errorKind instant | EvFailureReset errorKind instant bool instant | EvModelFailure
| EvSuccess instant | EvReset instant

definition noReply :: "stateChange list \<times> breaker \<Rightarrow> (bool \<times> stateChange list) \<times> breaker" where
  "noReply r = ((False, fst r), snd r)"

fun cbStep :: "cbEvent \<Rightarrow> breaker \<Rightarrow> (bool \<times> stateChange list) \<times> breaker" where
  "cbStep (EvTry now) b = noReply (snd (tryTransitionToHalfOpen now b))"
| "cbStep (EvClaim now) b = (case claimProbe now b of (ok, b') \<Rightarrow> ((ok, []), b'))"
| "cbStep EvRelease b = noReply ([], ReleaseProbe b)"
| "cbStep EvFreeTier b = noReply ([], MarkFreeTier b)"
| "cbStep (EvFailure k now) b = noReply (RecordFailure k now b)"
| "cbStep (EvFailureReset k r ok now) b = noReply (RecordFailureWithReset k r ok now b)"
| "cbStep EvModelFailure b = noReply ([], RecordModelScopedFailure b)"
| "cbStep (EvSuccess now) b = noReply (cb_RecordSuccess now b)"
| "cbStep (EvReset now) b = noReply (cb_Reset now b)"

section \<open>Admission\<close>

lemmas cb_thresholds = autoRecoveryFailureThreshold_def exponentialRecoveryFailureThreshold_def permanentRecoveryFailureThreshold_def

lemma threshold_is_2 [simp]: "failureConfirmationThreshold p = 2"
  by (simp add: failureConfirmationThreshold_def cb_thresholds split: recoveryType.splits)

lemma int32_add1_small [simp]: "0 \<le> n \<Longrightarrow> n < 2147483647 \<Longrightarrow> int32_add1 n = n + 1"
  by (simp add: int32_add1_def)

lemma after_None [simp]: "after now None" and after_Some [simp]: "after now (Some e) \<longleftrightarrow> e < now"
  by (simp_all add: after_def)

lemma peek_allow: "PeekAllowed now b = fst (Allow now now b)"
  by (auto simp: PeekAllowed_def Allow_def tryTransitionToHalfOpen_def claimProbe_def split: cbState.splits)

text \<open>
The read-only pre-check \<open>PeekAllowed\<close> answers exactly what \<open>Allow\<close> would answer at
that instant, in every state, and a breaker that \<open>Allow\<close> refuses while it cools is left
untouched.
\<close>

theorem peek_agrees_with_allow:
  "PeekAllowed now b = fst (Allow now now b)
   \<and> (cb_state b = StateOpen \<longrightarrow> \<not> PeekAllowed now b \<longrightarrow> Allow now now b = (False, [], b))"
  by (auto simp: PeekAllowed_def Allow_def tryTransitionToHalfOpen_def claimProbe_def split: cbState.splits)

theorem peek_agrees_with_allow_witness:
  "let b = (NewBreaker 1 2)\<lparr>cb_state := StateOpen, coolingExpires := Some 50\<rparr>
   in Allow 40 40 b = (False, [], b) \<and> fst (Allow 60 60 b)"
  using peek_agrees_with_allow [of 40 "(NewBreaker 1 2)\<lparr>cb_state := StateOpen, coolingExpires := Some 50\<rparr>"]
    peek_agrees_with_allow [of 60 "(NewBreaker 1 2)\<lparr>cb_state := StateOpen, coolingExpires := Some 50\<rparr>"]
  by (simp add: Let_def PeekAllowed_def)

section \<open>The cooling ladder\<close>

lemma exponentialCooling_ladder:
  assumes "0 < initial" "initial \<le> mx"
  shows "exponentialCooling initial mx cycle = min mx (initial * 2 ^ nat (cycle - 1))"
proof -
  have "0 < initial * 2 ^ nat (cycle - 1)" using assms by simp
  then show ?thesis by (auto simp: exponentialCooling_def Let_def min_def)
qed

lemma exponentialCooling_bounds:
  assumes "0 < initial" "initial \<le> mx"
  shows "initial \<le> exponentialCooling initial mx cycle" "exponentialCooling initial mx cycle \<le> mx"
proof -
  have "initial * 1 \<le> initial * 2 ^ nat (cycle - 1)" using assms by (intro mult_left_mono) auto
  then show "initial \<le> exponentialCooling initial mx cycle" "exponentialCooling initial mx cycle \<le> mx"
    using assms by (auto simp: exponentialCooling_ladder)
qed

text \<open>
The cooling ladder never wraps: for a positive first step below the cap it is the exact
doubling sequence cut off at the cap, it grows with the cycle, and from the cycle where the doubling
passes the cap on it stays there, however large the cycle gets.
\<close>

theorem cooling_ladder_exact:
  assumes "0 < initial" "initial \<le> mx" "c \<le> c'"
  shows "exponentialCooling initial mx c = min mx (initial * 2 ^ nat (c - 1))
    \<and> exponentialCooling initial mx c \<le> exponentialCooling initial mx c'
    \<and> (mx \<le> initial * 2 ^ nat (c - 1) \<longrightarrow> exponentialCooling initial mx c' = mx)"
proof -
  have "(2::int) ^ nat (c - 1) \<le> 2 ^ nat (c' - 1)" using assms by (intro power_increasing) auto
  then have "initial * 2 ^ nat (c - 1) \<le> initial * 2 ^ nat (c' - 1)" using assms by (intro mult_left_mono) auto
  then show ?thesis unfolding exponentialCooling_ladder [OF assms(1,2)] by linarith
qed

theorem cooling_ladder_exact_witness:
  "exponentialCooling (30 * go_second) (1800 * go_second) 3 = 120 * go_second
   \<and> exponentialCooling (30 * go_second) (1800 * go_second) 7 = 1800 * go_second
   \<and> exponentialCooling (30 * go_second) (1800 * go_second) 1000000 = 1800 * go_second"
  using cooling_ladder_exact [of "30 * go_second" "1800 * go_second" 3 7]
    cooling_ladder_exact [of "30 * go_second" "1800 * go_second" 7 1000000]
  by simp

section \<open>The state invariant\<close>

abbreviation wfPolicy :: "coolingPolicy \<Rightarrow> bool" where
  "wfPolicy p \<equiv> 5 * go_second \<le> InitialCooling p \<and> InitialCooling p \<le> MaxCooling p \<and> MaxCooling p \<le> 1440 * go_minute
     \<and> RecoveryType p \<noteq> RecoveryPermanent"

lemma defaultPolicies_wf: "defaultPolicies k = Some p \<Longrightarrow> k = KindQuota \<or> wfPolicy p"
  by (cases k) auto

lemma freeTierPolicies_wf: "freeTierPolicies k = Some p \<Longrightarrow> wfPolicy p"
  by (cases k) auto

lemma policyFor_wf: "wfPolicy (cb_coolingPolicy b) \<Longrightarrow> k \<noteq> KindQuota \<Longrightarrow> wfPolicy (policyFor b k)"
  using defaultPolicies_wf [of k] freeTierPolicies_wf [of k]
  by (auto simp: policyFor_def Let_def split: option.splits)

lemma policyFor_Quota [simp]: "policyFor b KindQuota = policy 0 0 RecoveryPermanent"
  by (simp add: policyFor_def Let_def)

lemma escalatedPolicy_wf: "wfPolicy (escalatedPolicy b)"
  by (simp add: escalatedPolicy_def)

text \<open>
  What every reachable breaker satisfies: at most one probe is out, an open breaker has a cooling
  deadline between five seconds and a day after it opened, the free-tier and default policies apply,
  and recovery evidence exists only in the closed state.
\<close>

definition cb_inv :: "breaker \<Rightarrow> bool" where
  "cb_inv b \<longleftrightarrow> wfPolicy (cb_coolingPolicy b) \<and> halfOpenProbes b \<in> {0, 1}
     \<and> (cb_state b = StateOpen \<longrightarrow> halfOpenProbes b = 0 \<and>
          (\<exists>t e. openSince b = Some t \<and> coolingExpires b = Some e \<and> t + 5 * go_second \<le> e \<and> e \<le> t + 1440 * go_minute))
     \<and> (recoveredAtUnix b \<noteq> 0 \<longrightarrow> cb_state b = StateClosed)"

lemma cb_inv_New: "cb_inv (NewBreaker pid cid)"
  by (simp add: cb_inv_def NewBreaker_def NewWithPolicy_def)

lemma countFailure_keeps [simp]:
  "cb_state (countFailure p k now b) = cb_state b" "halfOpenProbes (countFailure p k now b) = halfOpenProbes b"
  "openSince (countFailure p k now b) = openSince b" "coolingExpires (countFailure p k now b) = coolingExpires b"
  "recoveredAtUnix (countFailure p k now b) = recoveredAtUnix b" "nextProbeAt (countFailure p k now b) = nextProbeAt b"
  "cb_coolingPolicy (countFailure p k now b) = cb_coolingPolicy b" "freeTier (countFailure p k now b) = freeTier b"
  "cb_observed (countFailure p k now b) = cb_observed b" "lastErrorKind (countFailure p k now b) = k"
  "lastFailureAt (countFailure p k now b) = Some now"
  by (simp_all add: countFailure_def Let_def)

lemma openCircuit_keeps [simp]:
  "cb_state (openCircuit p k now b) = StateOpen" "halfOpenProbes (openCircuit p k now b) = 0"
  "openSince (openCircuit p k now b) = Some now" "recoveredAtUnix (openCircuit p k now b) = 0"
  "cb_coolingPolicy (openCircuit p k now b) = cb_coolingPolicy b" "cb_observed (openCircuit p k now b) = cb_observed b"
  "lastErrorKind (openCircuit p k now b) = lastErrorKind b"
  by (simp_all add: openCircuit_def Let_def)

lemma openCircuit_cooling:
  assumes "wfPolicy p"
  shows "\<exists>e. coolingExpires (openCircuit p k now b) = Some e \<and> now + 5 * go_second \<le> e \<and> e \<le> now + 1440 * go_minute"
proof -
  have *: "5 * go_second \<le> exponentialCooling (InitialCooling q) (MaxCooling q) c"
    "exponentialCooling (InitialCooling q) (MaxCooling q) c \<le> 1440 * go_minute" if "wfPolicy q" for q c
    using exponentialCooling_bounds [of "InitialCooling q" "MaxCooling q" c] that by linarith+
  show ?thesis using * [OF assms] * [OF escalatedPolicy_wf] assms
    by (auto simp: openCircuit_def Let_def)
qed

lemma policyFor_permanent:
  "wfPolicy (cb_coolingPolicy b) \<Longrightarrow> RecoveryType (policyFor b k) = RecoveryPermanent \<longleftrightarrow> k = KindQuota"
  using policyFor_wf [of b k] by auto

text \<open>The result of a failure, one case per branch of the code.\<close>

definition countedKind :: "errorKind \<Rightarrow> bool" where
  "countedKind k \<longleftrightarrow> pe_Target (PenaltyOf k) \<noteq> PenaltyNone \<and> k \<noteq> KindRateLimit"

lemma quarantineCircuit_state [simp]: "cb_state (quarantineCircuit b) = StateQuarantined"
  by (simp add: quarantineCircuit_def)

lemma RecordFailure_counted:
  assumes "countedKind k"
  shows "RecordFailure k now b =
     (let p = policyFor b k; b1 = countFailure (policyFor b k) k now b; b2 = openCircuit p k now b1
      in if consecutive b1 < (if cb_state b = StateHalfOpen then 1 else 2) then ([], b1)
         else if RecoveryType p = RecoveryPermanent
         then (cb_notify (quarantineCircuit b1) (cb_state b) StateQuarantined k None, quarantineCircuit b1)
         else (cb_notify b2 (cb_state b) StateOpen k (coolingExpires b2), b2))"
  using assms by (simp add: RecordFailure_def countedKind_def Let_def)

lemma RecordFailure_cases:
  fixes k now b defines "p \<equiv> policyFor b k" and "b1 \<equiv> countFailure (policyFor b k) k now b"
  obtains (ignored) "\<not> countedKind k" "RecordFailure k now b = ([], b)"
  | (released) "k = KindRateLimit" "RecordFailure k now b = ([], ReleaseProbe b)"
  | (pending) "countedKind k" "consecutive b1 < 2" "RecordFailure k now b = ([], b1)"
  | (quarantined) "countedKind k" "RecoveryType p = RecoveryPermanent"
      "RecordFailure k now b = (cb_notify (quarantineCircuit b1) (cb_state b) StateQuarantined k None, quarantineCircuit b1)"
  | (opened) "countedKind k" "RecoveryType p \<noteq> RecoveryPermanent"
      "RecordFailure k now b = (cb_notify (openCircuit p k now b1) (cb_state b) StateOpen k (coolingExpires (openCircuit p k now b1)),
         openCircuit p k now b1)"
proof -
  have R: "RecordFailure k now b = ([], b)" if "pe_Target (PenaltyOf k) = PenaltyNone"
    using that by (simp add: RecordFailure_def)
  have L: "RecordFailure KindRateLimit now b = ([], ReleaseProbe b) \<or> RecordFailure KindRateLimit now b = ([], b)"
    by (auto simp: RecordFailure_def ReleaseProbe_def)
  show ?thesis
  proof (cases "countedKind k")
    case False
    then show ?thesis using R L ignored released unfolding countedKind_def by blast
  next
    case True
    define c where "c = (consecutive b1 < (if cb_state b = StateHalfOpen then 1 else 2))"
    note E = RecordFailure_counted [OF True, of now b, unfolded Let_def, folded b1_def p_def, folded c_def]
    have "consecutive b1 < 2" if c using that by (auto simp: c_def split: if_splits)
    then show ?thesis using pending [OF True] quarantined [OF True] opened [OF True] E unfolding Let_def by argo
  qed
qed

lemma cb_inv_RecordFailure:
  assumes "cb_inv b" shows "cb_inv (snd (RecordFailure k now b))"
proof (cases rule: RecordFailure_cases [of k now b])
  case opened
  then have "wfPolicy (policyFor b k)" using assms policyFor_wf [of b k] by (cases "k = KindQuota") (auto simp: cb_inv_def)
  from openCircuit_cooling [OF this, of k now] show ?thesis using opened assms by (auto simp: cb_inv_def)
qed (use assms in \<open>auto simp: cb_inv_def quarantineCircuit_def ReleaseProbe_def\<close>)

lemma cb_inv_step: "cb_inv b \<Longrightarrow> cb_inv (snd (cbStep ev b))"
proof (induction ev)
  case (EvFailure k now)
  then show ?case using cb_inv_RecordFailure by (simp add: noReply_def)
next
  case (EvFailureReset k r ok now)
  then show ?case using cb_inv_RecordFailure [of b k now]
    by (auto simp: noReply_def RecordFailureWithReset_def openAlignedToQuotaReset_def Let_def cb_inv_def
          quotaResetMinCooling_def quotaResetMaxCooling_def)
qed (auto simp: noReply_def cb_inv_def tryTransitionToHalfOpen_def claimProbe_def ReleaseProbe_def MarkFreeTier_def
       RecordModelScopedFailure_def cb_RecordSuccess_def cb_Reset_def Let_def)

text \<open>
Over any interleaving of the breaker's critical sections at most one half-open probe is out,
an open breaker has no probe and cools for at least five seconds and at most a day after it opened,
and the recovery timestamp that drives the traffic ramp is set only while the breaker is closed.
\<close>

theorem breaker_invariant:
  "cb_inv (snd (run_ops cbStep es (NewBreaker pid cid)))"
  by (rule inv_run_ops) (auto intro: cb_inv_step cb_inv_New)

section \<open>The breaker is never wedged\<close>

fun evTime :: "cbEvent \<Rightarrow> instant option" where
  "evTime (EvTry t) = Some t" | "evTime (EvClaim t) = Some t" | "evTime (EvFailure k t) = Some t"
| "evTime (EvFailureReset k r ok t) = Some t" | "evTime (EvSuccess t) = Some t" | "evTime (EvReset t) = Some t"
| "evTime _ = None"

abbreviation evBefore :: "instant \<Rightarrow> cbEvent \<Rightarrow> bool" where
  "evBefore T ev \<equiv> (case evTime ev of None \<Rightarrow> True | Some t \<Rightarrow> t \<le> T)"

text \<open>The deadlines a breaker holds lie at most a day, and five minutes, after the last event.\<close>

definition deadlinesBy :: "instant \<Rightarrow> breaker \<Rightarrow> bool" where
  "deadlinesBy T b \<longleftrightarrow> cb_inv b
     \<and> (cb_state b = StateOpen \<longrightarrow> (\<forall>e. coolingExpires b = Some e \<longrightarrow> e \<le> T + 1440 * go_minute))
     \<and> (cb_state b = StateHalfOpen \<longrightarrow> (\<forall>e. nextProbeAt b = Some e \<longrightarrow> e \<le> T + halfOpenProbeTimeout))"

lemma deadlines_RecordFailure:
  assumes "deadlinesBy T b" "now \<le> T" shows "deadlinesBy T (snd (RecordFailure k now b))"
proof -
  have inv: "cb_inv (snd (RecordFailure k now b))" using assms(1) cb_inv_RecordFailure by (auto simp: deadlinesBy_def)
  show ?thesis
  proof (cases rule: RecordFailure_cases [of k now b])
    case opened
    then show ?thesis using inv assms(2) by (auto simp: deadlinesBy_def cb_inv_def)
  qed (use assms inv in \<open>auto simp: deadlinesBy_def quarantineCircuit_def ReleaseProbe_def split: if_splits\<close>)
qed

lemma deadlines_step: "deadlinesBy T b \<Longrightarrow> evBefore T ev \<Longrightarrow> deadlinesBy T (snd (cbStep ev b))"
proof -
  assume D: "deadlinesBy T b" and T: "evBefore T ev"
  have inv: "cb_inv (snd (cbStep ev b))" using D cb_inv_step by (simp add: deadlinesBy_def)
  show ?thesis
  proof (cases ev)
    case (EvFailure k now)
    then show ?thesis using D T deadlines_RecordFailure by (simp add: noReply_def)
  next
    case (EvFailureReset k r ok now)
    then show ?thesis using D T inv deadlines_RecordFailure [of T b now k]
      by (auto simp: noReply_def RecordFailureWithReset_def openAlignedToQuotaReset_def Let_def deadlinesBy_def
            quotaResetMinCooling_def quotaResetMaxCooling_def)
  qed (use D T inv in \<open>auto simp: noReply_def deadlinesBy_def tryTransitionToHalfOpen_def claimProbe_def ReleaseProbe_def
        MarkFreeTier_def RecordModelScopedFailure_def cb_RecordSuccess_def cb_Reset_def Let_def halfOpenProbeTimeout_def split: if_splits\<close>)
qed

lemma deadlines_run:
  "deadlinesBy T b \<Longrightarrow> \<forall>ev \<in> set es. evBefore T ev \<Longrightarrow> deadlinesBy T (snd (run_ops cbStep es b))"
proof (induction es arbitrary: b)
  case (Cons ev es)
  then show ?case using deadlines_step [of T b ev] by (auto split: prod.splits) (metis snd_conv)
qed simp

lemma deadlines_New: "deadlinesBy T (NewBreaker pid cid)"
  using cb_inv_New by (simp add: deadlinesBy_def NewBreaker_def NewWithPolicy_def)

text \<open>
C27.
  Whatever calls interleaved up to an instant, leaked probes included, a day later a breaker that
is not quarantined admits a request again: cooling windows are bounded and a probe slot that was
never given back is reclaimed.
\<close>

theorem breaker_never_wedged:
  assumes "\<forall>ev \<in> set es. evBefore T ev" "T + 1440 * go_minute < now"
    and "b = snd (run_ops cbStep es (NewBreaker pid cid))" "cb_state b \<noteq> StateQuarantined"
  shows "fst (Allow now now b)"
proof -
  have "deadlinesBy T b" unfolding assms(3) by (rule deadlines_run [OF deadlines_New assms(1)])
  then have "PeekAllowed now b" using assms(2,4)
    by (cases "cb_state b"; cases "coolingExpires b"; cases "nextProbeAt b")
      (auto simp: PeekAllowed_def deadlinesBy_def halfOpenProbeTimeout_def)
  then show ?thesis using peek_allow [of now b] by simp
qed

theorem breaker_never_wedged_witness:
  "fst (Allow (1440 * go_minute + 121 * go_second) (1440 * go_minute + 121 * go_second)
     (snd (run_ops cbStep [EvFailure KindTimeout 0, EvFailure KindTimeout go_second,
         EvTry (2 * go_minute), EvClaim (2 * go_minute)] (NewBreaker 1 2))))"
  by (rule breaker_never_wedged [OF _ _ refl, where T = "2 * go_minute"])
    (simp_all add: NewBreaker_def NewWithPolicy_def RecordFailure_def PenaltyOf_def countFailure_def policyFor_def
       Let_def noReply_def openCircuit_def cb_thresholds escalatedPolicy_def exponentialCooling_def
       tryTransitionToHalfOpen_def claimProbe_def cb_notify_def int32_add1_def)

section \<open>One probe at a time\<close>

text \<open>
  A result carries no owner: any counted failure, rate limit, model-scoped failure or success that a
  request reports, whether or not it holds the probe slot, and any release or reset, ends the
  exclusive use of the slot. Admissions, pre-checks, the free-tier mark and failures of a kind the
  penalty matrix assigns to nobody do not.
\<close>

fun endsProbe :: "cbEvent \<Rightarrow> bool" where
  "endsProbe (EvTry t) = False" | "endsProbe (EvClaim t) = False" | "endsProbe EvFreeTier = False"
| "endsProbe (EvFailure k t) = (pe_Target (PenaltyOf k) \<noteq> PenaltyNone)"
| "endsProbe (EvFailureReset k r ok t) = (pe_Target (PenaltyOf k) \<noteq> PenaltyNone)"
| "endsProbe _ = True"

definition probeHeld :: "instant \<Rightarrow> breaker \<Rightarrow> bool" where
  "probeHeld e b \<longleftrightarrow> cb_state b = StateHalfOpen \<and> halfOpenProbes b = 1 \<and> nextProbeAt b = Some e"

lemma ignored_no_quota: "pe_Target (PenaltyOf k) = PenaltyNone \<Longrightarrow> \<not> IsQuotaExhaustion k"
  by (cases k) (simp_all add: PenaltyOf_def IsQuotaExhaustion_def)

lemma probe_held_step:
  assumes "probeHeld e b" "\<not> endsProbe ev" "evBefore e ev"
  shows "fst (cbStep ev b) = (False, []) \<and> probeHeld e (snd (cbStep ev b))"
  using assms by (cases ev) (auto simp: probeHeld_def noReply_def tryTransitionToHalfOpen_def claimProbe_def
      MarkFreeTier_def RecordFailure_def RecordFailureWithReset_def ignored_no_quota)

lemma probe_held_run:
  "probeHeld e b \<Longrightarrow> \<forall>ev \<in> set es. \<not> endsProbe ev \<and> evBefore e ev \<Longrightarrow> probeHeld e (snd (run_ops cbStep es b))"
proof (induction es arbitrary: b)
  case (Cons ev es)
  then show ?case using probe_held_step [of e b ev] by (auto split: prod.splits) (metis snd_conv)
qed simp

lemma claim_holds: "claimProbe t b = (True, b') \<Longrightarrow> probeHeld (t + halfOpenProbeTimeout) b'"
  by (auto simp: claimProbe_def probeHeld_def split: if_splits)

text \<open>
C8.
  Once a half-open breaker has admitted a probe, then in every interleaving of calls with the five
minutes of the probe timeout not yet over, a further admission (a claim of the slot, or a whole
\<open>Allow\<close> at that point) is preceded by a call that ends the probe, and a reported
transition preceded or caused by one: a success, a failure that is not ignored, a model-scoped
failure, a release or a reset. Such a call need not come from the prober: results carry no owner.
\<close>

theorem single_probe:
  assumes "claimProbe t b = (True, b')" "i < length es"
    and "\<forall>ev \<in> set (take (Suc i) es). evBefore (t + halfOpenProbeTimeout) ev"
    and "fst (run_ops cbStep es b') ! i = (admitted, changes)" "now' \<le> t + halfOpenProbeTimeout"
  shows "(admitted \<or> fst (Allow now now' (snd (run_ops cbStep (take i es) b'))) \<longrightarrow> (\<exists>j < i. endsProbe (es ! j)))
       \<and> (changes \<noteq> [] \<longrightarrow> (\<exists>j \<le> i. endsProbe (es ! j)))"
proof -
  let ?e = "t + halfOpenProbeTimeout"
  let ?bi = "snd (run_ops cbStep (take i es) b')"
  have ev: "evBefore ?e (es ! i)" "\<forall>ev \<in> set (take i es). evBefore ?e ev"
    using assms(2,3) by (simp_all add: take_Suc_conv_app_nth)
  have out: "fst (cbStep (es ! i) ?bi) = (admitted, changes)" using assms(2,4) by (simp add: nth_run_ops)
  have quiet: "\<exists>j < i. endsProbe (es ! j)" if "\<not> probeHeld ?e ?bi"
  proof (rule ccontr)
    assume "\<nexists>j. j < i \<and> endsProbe (es ! j)"
    then have "\<forall>ev \<in> set (take i es). \<not> endsProbe ev" using assms(2) by (auto simp: in_set_conv_nth)
    then show False using probe_held_run [OF claim_holds [OF assms(1)], of "take i es"] ev(2) that by blast
  qed
  have "\<not> admitted" if "endsProbe (es ! i)" using out that by (cases "es ! i") (auto simp: noReply_def)
  moreover have "\<not> admitted \<and> changes = []" if "probeHeld ?e ?bi" "\<not> endsProbe (es ! i)"
    using probe_held_step [OF that ev(1)] out by simp
  moreover have "\<exists>j \<le> i. endsProbe (es ! j)" if "endsProbe (es ! i)" using that by auto
  moreover have "\<not> fst (Allow now now' ?bi)" if "probeHeld ?e ?bi"
    using that assms(5) by (simp add: Allow_def probeHeld_def claimProbe_def)
  ultimately show ?thesis using quiet less_imp_le by blast
qed

text \<open>
  The late success of a request admitted before the breaker opened closes it while the probe is out:
  \<open>Allow\<close> refuses before that report and grants after it.
\<close>

theorem single_probe_witness:
  "let es = [EvClaim 10, EvFailure KindClientBug 20, EvSuccess 25, EvTry 30];
       b' = (NewBreaker 1 2)\<lparr>cb_state := StateHalfOpen, halfOpenProbes := 1, nextProbeAt := Some (5 * go_minute)\<rparr>
   in fst (run_ops cbStep es b') ! 0 = (False, []) \<and> \<not> fst (Allow 22 22 (snd (run_ops cbStep (take 2 es) b')))
    \<and> fst (Allow 30 30 (snd (run_ops cbStep (take 3 es) b'))) \<and> (\<exists>j < 3. endsProbe (es ! j))"
proof -
  define es where "es = [EvClaim 10, EvFailure KindClientBug 20, EvSuccess 25, EvTry 30]"
  define b' where "b' = (NewBreaker 1 2)\<lparr>cb_state := StateHalfOpen, halfOpenProbes := 1, nextProbeAt := Some (5 * go_minute)\<rparr>"
  have r: "fst (run_ops cbStep es b') ! 0 = (False, [])" "fst (run_ops cbStep es b') ! 3 = (False, [])"
     "\<not> fst (Allow 22 22 (snd (run_ops cbStep (take 2 es) b')))" "fst (Allow 30 30 (snd (run_ops cbStep (take 3 es) b')))"
    by (simp_all add: es_def b'_def claimProbe_def NewBreaker_def NewWithPolicy_def PenaltyOf_def noReply_def Allow_def
          RecordFailure_def cb_RecordSuccess_def cb_notify_def tryTransitionToHalfOpen_def Let_def)
  have "claimProbe 0 ((NewBreaker 1 2)\<lparr>cb_state := StateHalfOpen\<rparr>) = (True, b')"
    by (simp add: b'_def claimProbe_def NewBreaker_def NewWithPolicy_def halfOpenProbeTimeout_def)
  then have "\<exists>j < 3. endsProbe (es ! j)"
    using single_probe [of 0 _ b' 3 es False "[]" 30 30] r by (simp add: es_def halfOpenProbeTimeout_def)
  then show ?thesis using r unfolding es_def b'_def by simp
qed

section \<open>Tripping\<close>

lemma consecutive_countFailure:
  assumes "0 \<le> consecutive b" "consecutive b < 2147483647"
  shows "consecutive (countFailure p k now b) =
     (if lastErrorKind b = KindNone \<or> lastErrorKind b = k \<or> (transientFamily (lastErrorKind b) \<and> transientFamily k)
         \<or> sameIncident p now b then consecutive b + 1 else 1)"
  using assms by (auto simp: countFailure_def Let_def)

lemma sameIncident_within: "lastFailureAt b = Some t \<Longrightarrow> now - t \<le> InitialCooling p \<Longrightarrow> sameIncident p now b"
  by (auto simp: sameIncident_def incidentWindow_def split: option.splits)

text \<open>
Two counted failures of one incident trip the breaker whatever their kinds: if the second
arrives within the first cooling period of its own policy, the breaker ends up open or, for an
exhausted quota, quarantined, and an ignored kind in between does not help it.
\<close>

theorem two_failures_trip:
  assumes "countedKind k1" "countedKind k2" "\<not> countedKind k" "k \<noteq> KindRateLimit"
    and "0 \<le> consecutive b" "consecutive b < 2147483646"
    and "t2 - t1 \<le> InitialCooling (policyFor b k2)" "wfPolicy (cb_coolingPolicy b)"
    and "b1 = snd (RecordFailure k1 t1 b)" "b' = snd (RecordFailure k t b1)"
  shows "cb_state (snd (RecordFailure k2 t2 b')) = (if k2 = KindQuota then StateQuarantined else StateOpen)"
proof -
  have b': "b' = b1" using assms(3,4,10) by (simp add: RecordFailure_def countedKind_def)
  let ?c = "countFailure (policyFor b k1) k1 t1 b"
  have c: "1 \<le> consecutive ?c" "consecutive ?c < 2147483647"
    using assms(5,6) by (simp_all add: consecutive_countFailure)
  have b1: "lastFailureAt b1 = Some t1" "consecutive b1 = consecutive ?c"
    "cb_coolingPolicy b1 = cb_coolingPolicy b" "freeTier b1 = freeTier b"
    using assms(1,9) by (auto simp: RecordFailure_counted Let_def quarantineCircuit_def openCircuit_def)
  have p: "policyFor b1 k2 = policyFor b k2" unfolding policyFor_def b1(3,4) ..
  have "sameIncident (policyFor b k2) t2 b1" using b1(1) assms(7) by (rule sameIncident_within)
  then have "2 \<le> consecutive (countFailure (policyFor b k2) k2 t2 b1)"
    using c b1(2) by (simp add: consecutive_countFailure)
  then show ?thesis using assms(2,8) policyFor_permanent [of b k2]
    by (auto simp: RecordFailure_counted Let_def p b')
qed

theorem two_failures_trip_witness:
  "cb_state (snd (RecordFailure KindUpstreamDown (10 * go_second)
     (snd (RecordFailure KindContextLength go_second (snd (RecordFailure KindTimeout 0 (NewBreaker 1 2))))))) = StateOpen"
  using two_failures_trip [of KindTimeout KindUpstreamDown KindContextLength "NewBreaker 1 2" "10 * go_second" 0, OF _ _ _ _ _ _ _ _ refl refl]
  by (simp add: countedKind_def PenaltyOf_def NewBreaker_def NewWithPolicy_def policyFor_def
        RecordFailure_def countFailure_def int32_add1_def)

text \<open>
Error kinds that the penalty matrix assigns to nobody, and rate limits, never count: the breaker
keeps its state, its counters, its cooling window and its ladder, and reports no transition; a rate
limit met by the half-open probe gives the probe slot back.
\<close>

theorem uncounted_kinds_leave_no_trace:
  assumes "\<not> countedKind k"
  shows "fst (RecordFailure k now b) = [] \<and>
    snd (RecordFailure k now b) = b\<lparr>halfOpenProbes := halfOpenProbes (snd (RecordFailure k now b)),
                                    nextProbeAt := nextProbeAt (snd (RecordFailure k now b))\<rparr> \<and>
    (k = KindRateLimit \<longrightarrow> cb_state b = StateHalfOpen \<longrightarrow> halfOpenProbes b \<in> {0, 1} \<longrightarrow>
       fst (claimProbe now' (snd (RecordFailure k now b))))"
  using assms by (auto simp: RecordFailure_def countedKind_def ReleaseProbe_def claimProbe_def PenaltyOf_def)

theorem uncounted_kinds_leave_no_trace_witness:
  "\<not> countedKind KindRateLimit \<and> \<not> countedKind KindClientBug
   \<and> fst (claimProbe 0 (snd (RecordFailure KindRateLimit 0
        ((NewBreaker 1 2)\<lparr>cb_state := StateHalfOpen, halfOpenProbes := 1, nextProbeAt := Some 99\<rparr>))))
   \<and> fst (RecordFailure KindClientBug 0 (NewBreaker 1 2)) = []"
  using uncounted_kinds_leave_no_trace [of KindRateLimit 0 "(NewBreaker 1 2)\<lparr>cb_state := StateHalfOpen, halfOpenProbes := 1, nextProbeAt := Some 99\<rparr>" 0]
    uncounted_kinds_leave_no_trace [of KindClientBug 0 "NewBreaker 1 2" 0]
  by (simp add: countedKind_def PenaltyOf_def)

section \<open>Quarantine\<close>

text \<open>
  Quarantine is entered through an exhausted quota only, but it is left without a manual reset: by
  any success, and by a late failure of another kind of the same incident, which replaces it with an
  ordinary cooling window.
\<close>

lemma quarantine_entered_by_quota:
  "wfPolicy (cb_coolingPolicy b) \<Longrightarrow> cb_state b \<noteq> StateQuarantined \<Longrightarrow>
   cb_state (snd (RecordFailure k now b)) = StateQuarantined \<Longrightarrow> k = KindQuota"
  by (cases rule: RecordFailure_cases [of k now b])
    (auto simp: policyFor_permanent ReleaseProbe_def split: if_splits)

text \<open>
Quarantine is not permanent: two quota failures quarantine a fresh breaker, and then either a
single late success closes it, or a single late timeout within a minute turns it into an open
breaker that admits a probe after its cooling, with no manual reset in between.
\<close>

theorem quarantine_escapes:
  assumes "t1 \<le> t2" "t2 \<le> t3" "t3 - t2 \<le> 60 * go_second"
    and "b = snd (RecordFailure KindQuota t2 (snd (RecordFailure KindQuota t1 (NewBreaker pid cid))))"
  shows "cb_state b = StateQuarantined
    \<and> cb_state (snd (cb_RecordSuccess t3 b)) = StateClosed
    \<and> cb_state (snd (RecordFailure KindTimeout t3 b)) = StateOpen
    \<and> fst (Allow (t3 + 61 * go_second) (t3 + 61 * go_second) (snd (RecordFailure KindTimeout t3 b)))"
proof -
  have q: "countedKind KindQuota" "countedKind KindTimeout" by (simp_all add: countedKind_def PenaltyOf_def)
  have b: "cb_state b = StateQuarantined" "consecutive b = 2" "lastFailureAt b = Some t2" "lastErrorKind b = KindQuota"
    "freeTier b = False" "coolingExpires b = None"
    using assms(4) q(1) by (simp_all add: RecordFailure_counted Let_def countFailure_def quarantineCircuit_def
       NewBreaker_def NewWithPolicy_def)
  have "sameIncident (policyFor b KindTimeout) t3 b"
    using b(3,5) assms(3) by (intro sameIncident_within [of _ t2]) (simp_all add: policyFor_def)
  then have f: "snd (RecordFailure KindTimeout t3 b) =
      openCircuit (policyFor b KindTimeout) KindTimeout t3 (countFailure (policyFor b KindTimeout) KindTimeout t3 b)"
    using b q(2) by (simp add: RecordFailure_counted Let_def consecutive_countFailure policyFor_def)
  have "coolingExpires (snd (RecordFailure KindTimeout t3 b)) = Some (t3 + 30 * go_second)"
    unfolding f using b \<open>sameIncident (policyFor b KindTimeout) t3 b\<close>
    by (simp add: openCircuit_def Let_def cb_thresholds consecutive_countFailure escalatedPolicy_def exponentialCooling_def
          policyFor_def countFailure_def transientFamily_def)
  then have "PeekAllowed (t3 + 61 * go_second) (snd (RecordFailure KindTimeout t3 b))"
    using f by (simp add: PeekAllowed_def)
  then show ?thesis using b(1) f by (simp add: cb_RecordSuccess_def Let_def peek_allow)
qed

theorem quarantine_escapes_witness:
  "cb_state (snd (RecordFailure KindTimeout 30 (snd (RecordFailure KindQuota 20 (snd (RecordFailure KindQuota 10 (NewBreaker 1 2))))))) = StateOpen"
  using quarantine_escapes [OF _ _ _ refl, of 10 20 30 1 2] by simp

text \<open>
A failure that reaches an open breaker may bring the end of its cooling forward instead of
extending it: after two authentication failures the credential cools for five minutes, and one late
concurrency failure replaces that by two minutes from its own arrival.
\<close>

theorem late_failure_shortens_cooling:
  assumes "t1 \<le> t2" "t2 - t1 \<le> 5 * go_minute" "t2 \<le> t3" "t3 - t2 \<le> 2 * go_minute"
    and "b = snd (RecordFailure KindAuth t2 (snd (RecordFailure KindAuth t1 (NewBreaker pid cid))))"
  shows "cb_state b = StateOpen \<and> coolingExpires b = Some (t2 + 5 * go_minute)
    \<and> coolingExpires (snd (RecordFailure KindConcurrent t3 b)) = Some (t3 + 2 * go_minute)"
proof -
  have q: "countedKind KindAuth" "countedKind KindConcurrent" by (simp_all add: countedKind_def PenaltyOf_def)
  have b: "cb_state b = StateOpen" "consecutive b = 2" "lastFailureAt b = Some t2" "lastErrorKind b = KindAuth"
    "freeTier b = False" "coolingExpires b = Some (t2 + 5 * go_minute)"
    using assms(5) q(1) by (simp_all add: RecordFailure_counted Let_def countFailure_def openCircuit_def policyFor_def
       NewBreaker_def NewWithPolicy_def exponentialCooling_def)
  have "sameIncident (policyFor b KindConcurrent) t3 b"
    using b(3,5) assms(4) by (intro sameIncident_within [of _ t2]) (simp_all add: policyFor_def)
  then show ?thesis using b q(2)
    by (simp add: RecordFailure_counted Let_def consecutive_countFailure policyFor_def openCircuit_def)
qed

theorem late_failure_shortens_cooling_witness:
  "coolingExpires (snd (RecordFailure KindConcurrent (2 * go_second) (snd (RecordFailure KindAuth go_second
     (snd (RecordFailure KindAuth 0 (NewBreaker 1 2))))))) = Some (122 * go_second)"
  using late_failure_shortens_cooling [OF _ _ _ _ refl, of 0 go_second "2 * go_second" 1 2] by simp

end
