(* ===== verification/BreakerSync.thy ===== *)
theory BreakerSync
  imports CircuitBreaker
begin

text \<open>
  The consumers of the circuit breakers: the manager of \<open>breaker.go\<close> that keys them by
  provider and credential, and the worker of \<open>state_sync.go\<close> that mirrors their transitions
  into the \<open>credentials\<close> rows. The observer's queue is a bounded list; an SQL update is a
  change of the row with that id, which the \<open>ok\<close> flag of a write decides.
\<close>

section \<open>Manager\<close>

record cbManager =
  mg_breakers :: "int \<times> int \<Rightarrow> breaker option"
  mg_onChange :: bool

definition NewManager :: cbManager where
  "NewManager = \<lparr>mg_breakers = (\<lambda>_. None), mg_onChange = False\<rparr>"

definition SetObserver :: "bool \<Rightarrow> cbManager \<Rightarrow> cbManager" where
  "SetObserver fn m = \<lparr>mg_breakers = (\<lambda>k. map_option (\<lambda>b. b\<lparr>cb_observed := fn\<rparr>) (mg_breakers m k)), mg_onChange = fn\<rparr>"

definition GetOrCreate :: "int \<Rightarrow> int \<Rightarrow> cbManager \<Rightarrow> breaker \<times> cbManager" where
  "GetOrCreate pid cid m = (case mg_breakers m (pid, cid) of
     Some b \<Rightarrow> (b, m)
   | None \<Rightarrow> let b = (NewBreaker pid cid)\<lparr>cb_observed := mg_onChange m\<rparr>
             in (b, m\<lparr>mg_breakers := (mg_breakers m)((pid, cid) \<mapsto> b)\<rparr>))"

definition mg_Get :: "int \<Rightarrow> int \<Rightarrow> cbManager \<Rightarrow> breaker option" where
  "mg_Get pid cid m = mg_breakers m (pid, cid)"

definition mg_put :: "int \<Rightarrow> int \<Rightarrow> breaker \<Rightarrow> cbManager \<Rightarrow> cbManager" where
  "mg_put pid cid b m = m\<lparr>mg_breakers := (mg_breakers m)((pid, cid) \<mapsto> b)\<rparr>"

definition mg_ReleaseProbe :: "int \<Rightarrow> int \<Rightarrow> cbManager \<Rightarrow> cbManager" where
  "mg_ReleaseProbe pid cid m = (case mg_Get pid cid m of None \<Rightarrow> m | Some b \<Rightarrow> mg_put pid cid (ReleaseProbe b) m)"

definition mg_PeekAllowed :: "instant \<Rightarrow> int \<Rightarrow> int \<Rightarrow> cbManager \<Rightarrow> bool" where
  "mg_PeekAllowed now pid cid m = (case mg_Get pid cid m of None \<Rightarrow> True | Some b \<Rightarrow> PeekAllowed now b)"

definition ResetAll :: "instant \<Rightarrow> cbManager \<Rightarrow> cbManager" where
  "ResetAll now m = m\<lparr>mg_breakers := (\<lambda>k. map_option (\<lambda>b. snd (cb_Reset now b)) (mg_breakers m k))\<rparr>"

definition mg_Reset :: "instant \<Rightarrow> int \<Rightarrow> int \<Rightarrow> cbManager \<Rightarrow> stateChange list \<times> cbManager" where
  "mg_Reset now pid cid m = (case mg_Get pid cid m of None \<Rightarrow> ([], m)
     | Some b \<Rightarrow> (case cb_Reset now b of (ns, b') \<Rightarrow> (ns, mg_put pid cid b' m)))"

definition mg_update :: "(breaker \<Rightarrow> 'r \<times> breaker) \<Rightarrow> int \<Rightarrow> int \<Rightarrow> cbManager \<Rightarrow> 'r \<times> cbManager" where
  "mg_update f pid cid m = (case GetOrCreate pid cid m of (b, m') \<Rightarrow>
     case f b of (r, b') \<Rightarrow> (r, mg_put pid cid b' m'))"

definition mg_RecordFailure :: "errorKind \<Rightarrow> instant \<Rightarrow> int \<Rightarrow> int \<Rightarrow> cbManager \<Rightarrow> stateChange list \<times> cbManager" where
  "mg_RecordFailure k now = mg_update (RecordFailure k now)"

definition RecordFailureWithBillingMode ::
  "errorKind \<Rightarrow> string \<Rightarrow> instant \<Rightarrow> int \<Rightarrow> int \<Rightarrow> cbManager \<Rightarrow> stateChange list \<times> cbManager" where
  "RecordFailureWithBillingMode k billingMode now = mg_update (\<lambda>b.
     RecordFailure k now (if equalFold (trimSpace billingMode) ''free'' then MarkFreeTier b else b))"

definition mg_RecordFailureWithReset ::
  "errorKind \<Rightarrow> instant \<Rightarrow> bool \<Rightarrow> instant \<Rightarrow> int \<Rightarrow> int \<Rightarrow> cbManager \<Rightarrow> stateChange list \<times> cbManager" where
  "mg_RecordFailureWithReset k resetAt ok now = mg_update (RecordFailureWithReset k resetAt ok now)"

definition mg_RecordModelScopedFailure :: "int \<Rightarrow> int \<Rightarrow> cbManager \<Rightarrow> unit \<times> cbManager" where
  "mg_RecordModelScopedFailure = mg_update (\<lambda>b. ((), RecordModelScopedFailure b))"

definition mg_RecoveredAt :: "int \<Rightarrow> int \<Rightarrow> cbManager \<Rightarrow> instant option" where
  "mg_RecoveredAt pid cid m = (case mg_Get pid cid m of None \<Rightarrow> None | Some b \<Rightarrow> RecoveredAt b)"

definition mg_RecordSuccess :: "instant \<Rightarrow> int \<Rightarrow> int \<Rightarrow> cbManager \<Rightarrow> stateChange list \<times> cbManager" where
  "mg_RecordSuccess now = mg_update (cb_RecordSuccess now)"

definition mg_Allow :: "instant \<Rightarrow> instant \<Rightarrow> int \<Rightarrow> int \<Rightarrow> cbManager \<Rightarrow> (bool \<times> stateChange list) \<times> cbManager" where
  "mg_Allow now now' = mg_update (\<lambda>b. case Allow now now' b of (ok, ns, b') \<Rightarrow> ((ok, ns), b'))"

section \<open>Database mirror\<close>

record dbStateSync =
  sy_db :: bool
  sy_ch :: "stateChange list"
  sy_cap :: nat
  sy_dropped :: int

record circuitRow =
  circuit_state :: string
  circuit_opened_at :: "instant option"
  cooling_until :: "instant option"

type_synonym circuitRows = "int \<Rightarrow> circuitRow option"

definition NewDBStateSync :: "bool \<Rightarrow> int \<Rightarrow> dbStateSync" where
  "NewDBStateSync db queueSize =
     \<lparr>sy_db = db, sy_ch = [], sy_cap = (if queueSize \<le> 0 then 128 else nat queueSize), sy_dropped = 0\<rparr>"

definition sy_Observe :: "stateChange \<Rightarrow> dbStateSync \<Rightarrow> dbStateSync" where
  "sy_Observe sc s =
     (if \<not> sy_db s then s
      else if length (sy_ch s) < sy_cap s then s\<lparr>sy_ch := sy_ch s @ [sc]\<rparr>
      else s\<lparr>sy_dropped := sy_dropped s + 1\<rparr>)"

definition syncOne :: "instant \<Rightarrow> bool \<Rightarrow> stateChange \<Rightarrow> circuitRows \<Rightarrow> circuitRows" where
  "syncOne now ok sc rows =
     (if \<not> ok then rows
      else case rows (sc_CredentialID sc) of
        None \<Rightarrow> rows
      | Some r \<Rightarrow>
          if sc_To sc = StateHalfOpen
          then rows(sc_CredentialID sc \<mapsto> r\<lparr>circuit_state := ''half_open'', cooling_until := None\<rparr>)
          else
            let dbState = (if sc_To sc = StateQuarantined then cbState_String StateOpen else cbState_String (sc_To sc));
                openedAt = (if sc_To sc = StateOpen \<or> sc_To sc = StateQuarantined then Some now else None);
                coolingUntil = (if sc_To sc = StateOpen then sc_CoolingUntil sc else None)
            in rows(sc_CredentialID sc \<mapsto>
                 \<lparr>circuit_state = dbState, circuit_opened_at = openedAt, cooling_until = coolingUntil\<rparr>))"

definition sy_receive :: "instant \<Rightarrow> bool \<Rightarrow> dbStateSync \<Rightarrow> circuitRows \<Rightarrow> dbStateSync \<times> circuitRows" where
  "sy_receive now ok s rows = (case sy_ch s of
     [] \<Rightarrow> (s, rows)
   | sc # rest \<Rightarrow> (s\<lparr>sy_ch := rest\<rparr>, syncOne now ok sc rows))"

text \<open>
  The bounded drain at shutdown: \<open>clock i\<close> is the reading after the \<open>i\<close>-th write,
  \<open>ok i\<close> says whether it succeeded. When the budget is spent the rest counts as dropped.
\<close>

fun sy_drainLoop :: "instant \<Rightarrow> (nat \<Rightarrow> instant) \<Rightarrow> (nat \<Rightarrow> bool) \<Rightarrow> nat \<Rightarrow> stateChange list \<Rightarrow> int \<Rightarrow> circuitRows
    \<Rightarrow> stateChange list \<times> int \<times> circuitRows" where
  "sy_drainLoop deadline clock ok i [] dropped rows = ([], dropped, rows)"
| "sy_drainLoop deadline clock ok i (sc # rest) dropped rows =
     (let rows' = syncOne (clock i) (ok i) sc rows
      in if deadline < clock i then (rest, dropped + int (length rest), rows')
         else sy_drainLoop deadline clock ok (Suc i) rest dropped rows')"

definition sy_drain :: "instant \<Rightarrow> (nat \<Rightarrow> instant) \<Rightarrow> (nat \<Rightarrow> bool) \<Rightarrow> dbStateSync \<Rightarrow> circuitRows \<Rightarrow> dbStateSync \<times> circuitRows" where
  "sy_drain now clock ok s rows =
     (case sy_drainLoop (now + 30 * go_second) clock ok 0 (sy_ch s) (sy_dropped s) rows of
        (rest, d, rows') \<Rightarrow> (s\<lparr>sy_ch := rest, sy_dropped := d\<rparr>, rows'))"

section \<open>Keys do not interfere\<close>

definition mg_inv :: "cbManager \<Rightarrow> bool" where
  "mg_inv m \<longleftrightarrow> (\<forall>pid cid b. mg_breakers m (pid, cid) = Some b \<longrightarrow>
     cb_inv b \<and> providerID b = pid \<and> credentialID b = cid \<and> cb_observed b = mg_onChange m)"

datatype mgOp =
  MgFailure errorKind string instant | MgFailureReset errorKind instant bool instant | MgModelFailure
| MgSuccess instant | MgAllow instant instant | MgRelease | MgReset instant

definition mgNote :: "('a \<Rightarrow> stateChange list) \<Rightarrow> 'a \<times> cbManager \<Rightarrow> stateChange list \<times> cbManager" where
  "mgNote f r = (f (fst r), snd r)"

fun mgStep :: "(int \<times> int) \<times> mgOp \<Rightarrow> cbManager \<Rightarrow> stateChange list \<times> cbManager" where
  "mgStep ((p, c), MgFailure k mode now) m = RecordFailureWithBillingMode k mode now p c m"
| "mgStep ((p, c), MgFailureReset k r ok now) m = mg_RecordFailureWithReset k r ok now p c m"
| "mgStep ((p, c), MgModelFailure) m = mgNote (\<lambda>_. []) (mg_RecordModelScopedFailure p c m)"
| "mgStep ((p, c), MgSuccess now) m = mg_RecordSuccess now p c m"
| "mgStep ((p, c), MgAllow now now') m = mgNote snd (mg_Allow now now' p c m)"
| "mgStep ((p, c), MgRelease) m = ([], mg_ReleaseProbe p c m)"
| "mgStep ((p, c), MgReset now) m = mg_Reset now p c m"

lemma mg_update_other: "k \<noteq> (p, c) \<Longrightarrow> mg_breakers (snd (mg_update f p c m)) k = mg_breakers m k"
  by (auto simp: mg_update_def GetOrCreate_def mg_put_def Let_def split: prod.splits option.splits)

lemmas mg_ops = RecordFailureWithBillingMode_def mg_RecordFailureWithReset_def mg_RecordModelScopedFailure_def
  mg_RecordSuccess_def mg_Allow_def

lemma mgStep_other: "k \<noteq> fst x \<Longrightarrow> mg_breakers (snd (mgStep x m)) k = mg_breakers m k"
  by (cases "(x, m)" rule: mgStep.cases)
    (auto simp: mgNote_def mg_ops mg_update_other mg_ReleaseProbe_def mg_Reset_def mg_put_def split: option.splits prod.splits)

text \<open>A step reads and writes only the breaker of its key and the observer flag.\<close>

lemma mg_update_local:
  assumes "mg_breakers m (p, c) = mg_breakers m' (p, c)" "mg_onChange m = mg_onChange m'"
  shows "fst (mg_update f p c m) = fst (mg_update f p c m')
    \<and> mg_breakers (snd (mg_update f p c m)) (p, c) = mg_breakers (snd (mg_update f p c m')) (p, c)"
  using assms by (auto simp: mg_update_def GetOrCreate_def mg_put_def Let_def split: prod.splits option.splits)

lemma mgStep_local:
  assumes "mg_breakers m (fst x) = mg_breakers m' (fst x)" "mg_onChange m = mg_onChange m'"
  shows "fst (mgStep x m) = fst (mgStep x m') \<and> mg_breakers (snd (mgStep x m)) (fst x) = mg_breakers (snd (mgStep x m')) (fst x)"
proof -
  obtain p c y where x: "x = ((p, c), y)" by (metis surj_pair)
  then have k: "mg_breakers m (p, c) = mg_breakers m' (p, c)" using assms(1) by simp
  note L = mg_update_local [OF k assms(2), THEN conjunct1] mg_update_local [OF k assms(2), THEN conjunct2]
  show ?thesis
    by (cases y) (auto simp: x k mgNote_def mg_ops L mg_ReleaseProbe_def mg_Reset_def mg_put_def mg_Get_def
       split: option.splits prod.splits)
qed

lemma mgStep_onChange [simp]: "mg_onChange (snd (mgStep x m)) = mg_onChange m"
  by (cases "(x, m)" rule: mgStep.cases)
    (auto simp: mgNote_def mg_ops mg_update_def GetOrCreate_def mg_ReleaseProbe_def mg_Reset_def mg_put_def Let_def split: option.splits prod.splits)

lemma run_ops_snd: "snd (run_ops step (x # xs) s) = snd (run_ops step xs (snd (step x s)))"
  by (simp split: prod.splits)

lemma manager_local_run:
  "mg_breakers m k = mg_breakers m' k \<Longrightarrow> mg_onChange m = mg_onChange m' \<Longrightarrow>
   mg_breakers (snd (run_ops mgStep xs m)) k = mg_breakers (snd (run_ops mgStep (filter (\<lambda>x. fst x = k) xs) m')) k"
proof (induction xs arbitrary: m m')
  case (Cons x xs)
  show ?case
  proof (cases "fst x = k")
    case True
    have *: "mg_breakers (snd (mgStep x m)) k = mg_breakers (snd (mgStep x m')) k"
      using mgStep_local [of m x m'] Cons.prems True by simp
    have "mg_onChange (snd (mgStep x m)) = mg_onChange (snd (mgStep x m'))" using Cons.prems by simp
    from Cons.IH [OF * this] show ?thesis using True by (simp add: run_ops_snd del: run_ops.simps)
  next
    case False
    then have *: "mg_breakers (snd (mgStep x m)) k = mg_breakers m' k" using mgStep_other Cons.prems by metis
    have "mg_onChange (snd (mgStep x m)) = mg_onChange m'" using Cons.prems by simp
    from Cons.IH [OF * this] show ?thesis using False by (simp add: run_ops_snd del: run_ops.simps)
  qed
qed simp

text \<open>
The breakers of different credentials do not influence each other: after any run of operations
the breaker of a key is the one that the operations of that key alone produce.
\<close>

theorem manager_keys_isolated:
  "mg_breakers (snd (run_ops mgStep xs m)) k = mg_breakers (snd (run_ops mgStep (filter (\<lambda>x. fst x = k) xs) m)) k"
  by (rule manager_local_run) simp_all

section \<open>The mirror follows the breaker\<close>

definition mirrorCooling :: "breaker \<Rightarrow> instant option" where
  "mirrorCooling b = (if cb_state b = StateOpen then coolingExpires b else None)"

definition dbStateOf :: "cbState \<Rightarrow> string" where
  "dbStateOf s = (if s = StateQuarantined then ''open'' else cbState_String s)"

abbreviation cbIdent :: "breaker \<Rightarrow> int \<times> int \<times> bool" where
  "cbIdent b \<equiv> (providerID b, credentialID b, cb_observed b)"

text \<open>
  A step of an observed breaker reports nothing and keeps the state and the cooling deadline, or it
  reports exactly one change, from the old state to the new one with the new deadline.
\<close>

definition reports :: "breaker \<Rightarrow> stateChange list \<Rightarrow> breaker \<Rightarrow> bool" where
  "reports b ns b' \<longleftrightarrow> cbIdent b' = cbIdent b \<and>
     ((ns = [] \<and> cb_state b' = cb_state b \<and> mirrorCooling b' = mirrorCooling b) \<or>
      (\<exists>k. ns = [\<lparr>sc_ProviderID = providerID b, sc_CredentialID = credentialID b, sc_From = cb_state b, sc_To = cb_state b',
             sc_Kind = k, sc_CoolingUntil = mirrorCooling b'\<rparr>]))"

lemma cb_ident [simp]:
  "providerID (countFailure p k now b) = providerID b" "credentialID (countFailure p k now b) = credentialID b"
  "providerID (openCircuit p k now b) = providerID b" "credentialID (openCircuit p k now b) = credentialID b"
  "providerID (quarantineCircuit b) = providerID b" "credentialID (quarantineCircuit b) = credentialID b"
  "cb_observed (quarantineCircuit b) = cb_observed b"
  by (simp_all add: countFailure_def openCircuit_def quarantineCircuit_def Let_def)

lemma reports_RecordFailure:
  assumes "cb_observed b" shows "reports b (fst (RecordFailure k now b)) (snd (RecordFailure k now b))"
proof (cases rule: RecordFailure_cases [of k now b])
  case quarantined
  then show ?thesis using assms by (simp add: reports_def cb_notify_def mirrorCooling_def)
next
  case opened
  then show ?thesis using assms by (simp add: reports_def cb_notify_def mirrorCooling_def)
next
  case pending
  then show ?thesis by (simp add: reports_def mirrorCooling_def)
qed (auto simp: reports_def mirrorCooling_def ReleaseProbe_def)

lemma reports_step:
  assumes "cb_observed b" shows "reports b (snd (fst (cbStep ev b))) (snd (cbStep ev b))"
proof (cases ev)
  case (EvFailure k now)
  then show ?thesis using reports_RecordFailure [OF assms] by (simp add: noReply_def)
next
  case (EvFailureReset k r ok now)
  then show ?thesis using assms reports_RecordFailure [OF assms, of k now]
    by (auto simp: noReply_def RecordFailureWithReset_def openAlignedToQuotaReset_def Let_def reports_def cb_notify_def mirrorCooling_def)
qed (use assms in \<open>auto simp: noReply_def reports_def cb_notify_def mirrorCooling_def tryTransitionToHalfOpen_def claimProbe_def ReleaseProbe_def
        MarkFreeTier_def RecordModelScopedFailure_def cb_RecordSuccess_def cb_Reset_def Let_def\<close>)

text \<open>The row mirrors a breaker when it shows its state and its cooling deadline.\<close>

definition mirrors :: "circuitRows \<Rightarrow> breaker \<Rightarrow> bool" where
  "mirrors rows b \<longleftrightarrow> (\<exists>r. rows (credentialID b) = Some r \<and> circuit_state r = dbStateOf (cb_state b)
     \<and> cooling_until r = mirrorCooling b)"

definition syncAll :: "(stateChange \<times> instant) list \<Rightarrow> circuitRows \<Rightarrow> circuitRows" where
  "syncAll ps rows = fold (\<lambda>(sc, t). syncOne t True sc) ps rows"

lemma mirrors_step:
  assumes "cb_observed b" "mirrors rows b" "map fst ps = snd (fst (cbStep ev b))"
  shows "mirrors (syncAll ps rows) (snd (cbStep ev b))"
proof -
  have "reports b (map fst ps) (snd (cbStep ev b))" using reports_step [OF assms(1)] assms(3) by simp
  then show ?thesis using assms(2)
    by (auto simp: reports_def mirrors_def syncAll_def syncOne_def Let_def dbStateOf_def cbState_String_def mirrorCooling_def map_eq_Cons_conv
          split: if_splits cbState.splits)
qed

lemma mirrors_run:
  "cb_observed b \<Longrightarrow> mirrors rows b \<Longrightarrow> map fst ps = concat (map snd (fst (run_ops cbStep es b))) \<Longrightarrow>
   mirrors (syncAll ps rows) (snd (run_ops cbStep es b))"
proof (induction es arbitrary: b rows ps)
  case (Cons ev es)
  obtain o1 b' os b'' where s: "cbStep ev b = (o1, b')" "run_ops cbStep es b' = (os, b'')"
    by (metis surj_pair)
  with Cons.prems(3) have "map fst ps = snd o1 @ concat (map snd os)" by simp
  then obtain ps1 ps2 where ps: "ps = ps1 @ ps2" "map fst ps1 = snd o1" "map fst ps2 = concat (map snd os)"
    by (auto simp: map_eq_append_conv)
  have "mirrors (syncAll ps1 rows) b'" using mirrors_step [OF Cons.prems(1,2), of ps1 ev] s(1) ps(2) by simp
  moreover have "cb_observed b'" using reports_step [OF Cons.prems(1), of ev] s(1) Cons.prems(1) by (simp add: reports_def)
  ultimately have "mirrors (syncAll ps2 (syncAll ps1 rows)) b''" using Cons.IH [of b' "syncAll ps1 rows" ps2] s(2) ps(3) by simp
  then show ?case using s ps(1) by (simp add: syncAll_def)
qed (simp add: syncAll_def)

text \<open>
C26.
  When the worker writes every reported transition, the credentials row always ends up showing
the breaker's state (quarantine as open) and the deadline of its current cooling window, whatever
calls interleaved: no transition and no extension of a window goes unreported.
\<close>

theorem row_mirrors_breaker:
  assumes "rows cid = Some r" "circuit_state r = ''closed''" "cooling_until r = None"
    and "run_ops cbStep es ((NewBreaker pid cid)\<lparr>cb_observed := True\<rparr>) = (outs, b)"
    and "map fst ps = concat (map snd outs)"
  shows "\<exists>r'. syncAll ps rows cid = Some r' \<and> circuit_state r' = dbStateOf (cb_state b)
    \<and> cooling_until r' = (if cb_state b = StateOpen then coolingExpires b else None)"
proof -
  let ?b = "(NewBreaker pid cid)\<lparr>cb_observed := True\<rparr>"
  have "mirrors rows ?b" using assms(1-3)
    by (simp add: mirrors_def NewBreaker_def NewWithPolicy_def dbStateOf_def cbState_String_def mirrorCooling_def)
  from mirrors_run [OF _ this, of ps es] have "mirrors (syncAll ps rows) b" using assms(4,5) by simp
  moreover have "credentialID b = cid"
  proof -
    have "cb_observed s \<and> credentialID s = cid \<Longrightarrow> cb_observed (snd (run_ops cbStep es s)) \<and> credentialID (snd (run_ops cbStep es s)) = cid" for s
      by (rule inv_run_ops) (use reports_step in \<open>auto simp: reports_def\<close>)
    from this [of ?b] show ?thesis using assms(4) by (simp add: NewBreaker_def NewWithPolicy_def)
  qed
  ultimately show ?thesis by (simp add: mirrors_def mirrorCooling_def)
qed

theorem row_mirrors_breaker_witness:
  "\<exists>ps r'. syncAll ps (\<lambda>_. Some \<lparr>circuit_state = ''closed'', circuit_opened_at = None, cooling_until = None\<rparr>) 2 = Some r'
     \<and> circuit_state r' = ''open'' \<and> cooling_until r' = Some (31 * go_second)"
proof -
  let ?b = "(NewBreaker 1 2)\<lparr>cb_observed := True\<rparr>" and ?es = "[EvFailure KindTimeout 0, EvFailure KindTimeout go_second]"
  obtain outs b where R: "run_ops cbStep ?es ?b = (outs, b)" by (metis surj_pair)
  have b: "cb_state b = StateOpen" "coolingExpires b = Some (31 * go_second)"
    using R by (auto simp: NewBreaker_def NewWithPolicy_def RecordFailure_def PenaltyOf_def countFailure_def policyFor_def
       Let_def noReply_def openCircuit_def cb_thresholds escalatedPolicy_def exponentialCooling_def cb_notify_def int32_add1_def)
  show ?thesis
    using row_mirrors_breaker [OF _ _ _ R, of "\<lambda>_. Some \<lparr>circuit_state = ''closed'', circuit_opened_at = None, cooling_until = None\<rparr>"
        _ "map (\<lambda>x. (x, 0)) (concat (map snd outs))"] b
    by (auto simp: comp_def dbStateOf_def cbState_String_def)
qed

section \<open>The bounded queue of the mirror\<close>

datatype syOp = SyObserve stateChange | SyReceive instant bool

fun syStep :: "syOp \<Rightarrow> dbStateSync \<times> circuitRows \<Rightarrow> stateChange list \<times> dbStateSync \<times> circuitRows" where
  "syStep (SyObserve sc) (s, rows) = ([], sy_Observe sc s, rows)"
| "syStep (SyReceive now ok) (s, rows) = (List.take 1 (sy_ch s), sy_receive now ok s rows)"

fun observedBy :: "syOp list \<Rightarrow> stateChange list" where
  "observedBy [] = []"
| "observedBy (SyObserve sc # xs) = sc # observedBy xs"
| "observedBy (SyReceive now ok # xs) = observedBy xs"

lemma sy_run:
  assumes "sy_db s" "length (sy_ch s) \<le> sy_cap s" "run_ops syStep xs (s, rows) = (outs, s', rows')"
  shows "sy_db s' \<and> sy_cap s' = sy_cap s \<and> length (sy_ch s') \<le> sy_cap s' \<and> sy_dropped s \<le> sy_dropped s'
    \<and> int (length (concat outs)) + int (length (sy_ch s')) + sy_dropped s'
      = int (length (sy_ch s)) + sy_dropped s + int (length (observedBy xs))
    \<and> (sy_dropped s' = sy_dropped s \<longrightarrow> concat outs @ sy_ch s' = sy_ch s @ observedBy xs)"
  using assms
proof (induction xs arbitrary: s rows outs)
  case (Cons x xs)
  show ?case
  proof (cases x)
    case (SyObserve sc)
    then obtain os where o: "outs = [] # os" "run_ops syStep xs (sy_Observe sc s, rows) = (os, s', rows')"
      using Cons.prems(3) by (auto split: prod.splits)
    have "length (sy_ch (sy_Observe sc s)) \<le> sy_cap (sy_Observe sc s)" "sy_db (sy_Observe sc s)"
      using Cons.prems(1,2) by (auto simp: sy_Observe_def)
    from Cons.IH [OF this(2,1) o(2)] show ?thesis using Cons.prems(1) o(1) SyObserve
      by (auto simp: sy_Observe_def split: if_splits)
  next
    case (SyReceive now ok)
    then obtain os where o: "outs = List.take 1 (sy_ch s) # os" "run_ops syStep xs (sy_receive now ok s rows) = (os, s', rows')"
      using Cons.prems(3) by (auto split: prod.splits)
    obtain s1 r1 where s1: "sy_receive now ok s rows = (s1, r1)" by (metis surj_pair)
    have h: "sy_db s1" "sy_cap s1 = sy_cap s" "sy_dropped s1 = sy_dropped s" "List.take 1 (sy_ch s) @ sy_ch s1 = sy_ch s"
      using s1 Cons.prems(1) by (auto simp: sy_receive_def split: list.splits)
    from arg_cong [where f = length, OF h(4)] have l: "length (List.take 1 (sy_ch s)) + length (sy_ch s1) = length (sy_ch s)" by simp
    then have "length (sy_ch s1) \<le> sy_cap s1" using Cons.prems(2) h(2) by linarith
    from Cons.IH [OF h(1) this, of r1 os] o(2) s1 have
      "sy_db s' \<and> sy_cap s' = sy_cap s1 \<and> length (sy_ch s') \<le> sy_cap s' \<and> sy_dropped s1 \<le> sy_dropped s'
       \<and> int (length (concat os)) + int (length (sy_ch s')) + sy_dropped s' = int (length (sy_ch s1)) + sy_dropped s1 + int (length (observedBy xs))
       \<and> (sy_dropped s' = sy_dropped s1 \<longrightarrow> concat os @ sy_ch s' = sy_ch s1 @ observedBy xs)" by simp
    then show ?thesis using l h o(1) SyReceive by auto
  qed
qed simp

text \<open>
The mirror's queue stays within its capacity and every transition handed to it is written,
still queued or counted as dropped; as long as nothing is dropped the writes happen in the order
the transitions were reported.
\<close>

theorem sync_accounts_for_every_transition:
  assumes "run_ops syStep xs (NewDBStateSync True q, rows) = (outs, s, rows')"
  shows "length (sy_ch s) \<le> (if q \<le> 0 then 128 else nat q)
    \<and> int (length (concat outs)) + int (length (sy_ch s)) + sy_dropped s = int (length (observedBy xs))
    \<and> (sy_dropped s = 0 \<longrightarrow> concat outs @ sy_ch s = observedBy xs)"
  using sy_run [OF _ _ assms] by (simp add: NewDBStateSync_def)

theorem sync_accounts_for_every_transition_witness:
  "\<exists>outs s rows. run_ops syStep [SyReceive 0 True] (NewDBStateSync True 0, \<lambda>_. None) = (outs, s, rows)
     \<and> length (sy_ch s) \<le> 128 \<and> sy_dropped s = 0"
proof -
  obtain outs s rows where R: "run_ops syStep [SyReceive 0 True] (NewDBStateSync True 0, \<lambda>_. None) = (outs, s, rows)"
    by (metis surj_pair)
  then have "sy_dropped s = 0" by (auto simp: NewDBStateSync_def sy_receive_def)
  with R sync_accounts_for_every_transition [OF R] show ?thesis by auto
qed

lemma sy_drainLoop_accounts:
  "sy_drainLoop d clock ok i q dropped rows = (rest, dropped', rows') \<Longrightarrow>
   dropped' = dropped + int (length rest) \<and> (\<exists>k \<le> length q. rest = List.drop k q)
   \<and> ((\<forall>j. clock j \<le> d) \<longrightarrow> rest = [])"
proof (induction d clock ok i q dropped rows rule: sy_drainLoop.induct)
  case (2 d clock ok i sc q dropped rows)
  show ?case
  proof (cases "d < clock i")
    case True
    then show ?thesis using 2(2) by (auto simp: Let_def not_le intro!: exI [of _ 1] dest: spec [of _ i])
  next
    case False
    from 2(1) [OF refl False] 2(2) False show ?thesis by (auto simp: Let_def)
  qed
qed simp

end
