(* ===== verification/StreamBreaker.thy ===== *)
theory StreamBreaker
  imports Prelude
begin

text \<open>
  The stream-conversion breaker of \<open>domains/transformation/circuit_breaker.go\<close>, which makes
  the transport factory fall back to the legacy path: a sliding count of errors while closed, a
  cooldown while open, and one outcome that decides in the half-open state. Every method locks the
  mutex for its whole body; the clock is read once per call. Reading the state moves an open breaker
  whose cooldown is over to half-open, so the read operations return the breaker too.
\<close>

datatype circuitState = CircuitClosed | CircuitOpen | CircuitHalfOpen

record streamCircuitBreaker =
  sb_threshold :: int
  sb_window :: duration
  sb_cooldown :: duration
  sb_state :: circuitState
  errorTimes :: "instant list"
  openedAt :: "instant option"
  totalTrips :: int

definition NewStreamCircuitBreaker :: streamCircuitBreaker where
  "NewStreamCircuitBreaker = \<lparr>sb_threshold = 3, sb_window = go_minute, sb_cooldown = go_minute,
     sb_state = CircuitClosed, errorTimes = [], openedAt = None, totalTrips = 0\<rparr>"

definition currentStateLocked :: "instant \<Rightarrow> streamCircuitBreaker \<Rightarrow> streamCircuitBreaker" where
  "currentStateLocked now cb =
     (if sb_state cb = CircuitOpen \<and> (case openedAt cb of None \<Rightarrow> True | Some t \<Rightarrow> sb_cooldown cb \<le> now - t)
      then cb\<lparr>sb_state := CircuitHalfOpen\<rparr> else cb)"

definition tripLocked :: "instant \<Rightarrow> streamCircuitBreaker \<Rightarrow> streamCircuitBreaker" where
  "tripLocked now cb = cb\<lparr>sb_state := CircuitOpen, openedAt := Some now, errorTimes := [], totalTrips := totalTrips cb + 1\<rparr>"

definition sb_pruneLocked :: "instant \<Rightarrow> streamCircuitBreaker \<Rightarrow> streamCircuitBreaker" where
  "sb_pruneLocked now cb = cb\<lparr>errorTimes := filter (\<lambda>t. now - sb_window cb < t) (errorTimes cb)\<rparr>"

definition sb_State :: "instant \<Rightarrow> streamCircuitBreaker \<Rightarrow> circuitState \<times> streamCircuitBreaker" where
  "sb_State now cb = (let cb' = currentStateLocked now cb in (sb_state cb', cb'))"

definition ShouldFallback :: "instant \<Rightarrow> streamCircuitBreaker \<Rightarrow> bool \<times> streamCircuitBreaker" where
  "ShouldFallback now cb = (let cb' = currentStateLocked now cb in (sb_state cb' = CircuitOpen, cb'))"

definition RecordError :: "instant \<Rightarrow> streamCircuitBreaker \<Rightarrow> streamCircuitBreaker" where
  "RecordError now cb0 =
     (let cb = currentStateLocked now cb0
      in if sb_state cb = CircuitHalfOpen then tripLocked now cb
         else let cb' = sb_pruneLocked now (cb\<lparr>errorTimes := errorTimes cb @ [now]\<rparr>)
              in if sb_threshold cb' \<le> int (length (errorTimes cb')) then tripLocked now cb' else cb')"

definition sb_RecordSuccess :: "instant \<Rightarrow> streamCircuitBreaker \<Rightarrow> streamCircuitBreaker" where
  "sb_RecordSuccess now cb0 =
     (let cb = currentStateLocked now cb0
      in if sb_state cb = CircuitHalfOpen then cb\<lparr>sb_state := CircuitClosed, errorTimes := []\<rparr> else cb)"

definition sb_Reset :: "streamCircuitBreaker \<Rightarrow> streamCircuitBreaker" where
  "sb_Reset cb = cb\<lparr>sb_state := CircuitClosed, errorTimes := [], openedAt := None\<rparr>"

datatype sbOp = SbError instant | SbSuccess instant | SbFallback instant | SbReset

fun sbStep :: "sbOp \<Rightarrow> streamCircuitBreaker \<Rightarrow> bool \<times> streamCircuitBreaker" where
  "sbStep (SbError now) cb = (False, RecordError now cb)"
| "sbStep (SbSuccess now) cb = (False, sb_RecordSuccess now cb)"
| "sbStep (SbFallback now) cb = ShouldFallback now cb"
| "sbStep SbReset cb = (False, sb_Reset cb)"

section \<open>Invariant\<close>

text \<open>
  The constants never change, fewer errors than the threshold are kept, and an open breaker was
  opened by an error among those recorded.
\<close>

definition sb_inv :: "instant set \<Rightarrow> streamCircuitBreaker \<Rightarrow> bool" where
  "sb_inv E cb \<longleftrightarrow> sb_threshold cb = 3 \<and> sb_window cb = go_minute \<and> sb_cooldown cb = go_minute
     \<and> length (errorTimes cb) < 3
     \<and> (sb_state cb = CircuitOpen \<longrightarrow> (\<exists>t \<in> E. openedAt cb = Some t))"

fun errorAt :: "sbOp \<Rightarrow> instant set" where
  "errorAt (SbError now) = {now}" | "errorAt _ = {}"

lemma sb_inv_step: "sb_inv E cb \<Longrightarrow> sb_inv (E \<union> errorAt x) (snd (sbStep x cb))"
  by (cases x) (auto simp: sb_inv_def RecordError_def sb_RecordSuccess_def ShouldFallback_def sb_Reset_def
      currentStateLocked_def tripLocked_def sb_pruneLocked_def Let_def not_le)

lemma sb_inv_run: "sb_inv E cb \<Longrightarrow> sb_inv (E \<union> \<Union> (errorAt ` set xs)) (snd (run_ops sbStep xs cb))"
proof (induction xs arbitrary: E cb)
  case (Cons x xs)
  from Cons.IH [OF sb_inv_step [OF Cons.prems, of x]] show ?case
    by (simp add: Un_assoc split: prod.splits) (metis snd_conv)
qed simp

lemma sb_inv_New: "sb_inv {} NewStreamCircuitBreaker"
  by (simp add: sb_inv_def NewStreamCircuitBreaker_def)

text \<open>
The fallback is bounded and never unprovoked: whatever was recorded before, a request is sent to
the legacy path only if a conversion error was recorded less than a minute ago, and the breaker
never keeps more than two error times.
\<close>

theorem fallback_needs_recent_error:
  assumes "cb = snd (run_ops sbStep xs NewStreamCircuitBreaker)" "fst (ShouldFallback now cb)"
  shows "length (errorTimes cb) \<le> 2 \<and> (\<exists>t. SbError t \<in> set xs \<and> now - t < go_minute)"
proof -
  have i: "sb_inv (\<Union> (errorAt ` set xs)) cb" using sb_inv_run [OF sb_inv_New, of xs] assms(1) by simp
  have "sb_state cb = CircuitOpen" using assms(2)
    by (auto simp: ShouldFallback_def currentStateLocked_def Let_def split: if_splits)
  with i obtain t x where t: "x \<in> set xs" "t \<in> errorAt x" "openedAt cb = Some t" by (auto simp: sb_inv_def)
  have "x = SbError t" using t(2) by (cases x) auto
  then have "SbError t \<in> set xs" using t(1) by simp
  moreover have "now - t < go_minute" using assms(2) i t(3) \<open>sb_state cb = CircuitOpen\<close>
    by (auto simp: ShouldFallback_def currentStateLocked_def Let_def sb_inv_def split: if_splits)
  ultimately show ?thesis using i by (auto simp: sb_inv_def)
qed

section \<open>When the closed breaker trips\<close>

fun recordErrors :: "instant list \<Rightarrow> streamCircuitBreaker \<Rightarrow> streamCircuitBreaker" where
  "recordErrors [] cb = cb"
| "recordErrors (t # ts) cb = recordErrors ts (RecordError t cb)"

definition burst :: "instant list \<Rightarrow> bool" where
  "burst ts \<longleftrightarrow> (\<exists>i. i + 2 < length ts \<and> ts ! (i + 2) - ts ! i < go_minute)"

lemma recordErrors_snoc: "recordErrors (ts @ [t]) cb = RecordError t (recordErrors ts cb)"
  by (induction ts arbitrary: cb) auto

lemma burst_snoc:
  "burst (ts @ [t]) \<longleftrightarrow> burst ts \<or> (2 \<le> length ts \<and> t - ts ! (length ts - 2) < go_minute)" (is "?L \<longleftrightarrow> ?R")
proof
  assume ?L
  then obtain i where i: "i + 2 < Suc (length ts)" "(ts @ [t]) ! (i + 2) - (ts @ [t]) ! i < go_minute"
    by (auto simp: burst_def)
  show ?R
  proof (cases "i + 2 < length ts")
    case True
    then show ?thesis using i(2) by (auto simp: burst_def nth_append)
  next
    case False
    then have "i + 2 = length ts" using i(1) by linarith
    moreover from this have "i = length ts - 2" by simp
    ultimately have "(ts @ [t]) ! (i + 2) = t" "(ts @ [t]) ! i = ts ! (length ts - 2)" "2 \<le> length ts"
      by (auto simp: nth_append)
    then show ?thesis using i(2) by simp
  qed
next
  assume ?R
  then show ?L
  proof
    assume "burst ts"
    then obtain i where "i + 2 < length ts" "ts ! (i + 2) - ts ! i < go_minute" by (auto simp: burst_def)
    then show ?L unfolding burst_def by (intro exI [of _ i]) (simp add: nth_append)
  next
    assume "2 \<le> length ts \<and> t - ts ! (length ts - 2) < go_minute"
    then show ?L unfolding burst_def by (intro exI [of _ "length ts - 2"]) (auto simp: nth_append)
  qed
qed

text \<open>In a sorted list, two or more elements lie above a cut-off when the last but one does.\<close>

lemma two_above:
  assumes "sorted ts"
  shows "2 \<le> length (filter (\<lambda>x. (c::int) < x) ts) \<longleftrightarrow> 2 \<le> length ts \<and> c < ts ! (length ts - 2)"
proof (cases "2 \<le> length ts")
  case False
  then show ?thesis using length_filter_le [of "\<lambda>x. c < x" ts] by linarith
next
  case True
  let ?n = "length ts - 2"
  have n: "?n < length ts" using True by linarith
  have "Suc ?n < length ts" "Suc (Suc ?n) = length ts" using True by linarith+
  then have split: "ts = List.take ?n ts @ [ts ! ?n] @ [ts ! Suc ?n]"
    using id_take_nth_drop [OF n] Cons_nth_drop_Suc [of "Suc ?n" ts] by simp
  have le: "x \<le> ts ! ?n" if "x \<in> set (List.take ?n ts)" for x
    using that n sorted_nth_mono [OF assms, of _ ?n] by (auto simp: in_set_conv_nth)
  have le': "ts ! ?n \<le> ts ! Suc ?n" using True assms by (intro sorted_nth_mono) auto
  have "length (filter (\<lambda>x. c < x) ts) =
      length (filter (\<lambda>x. c < x) (List.take ?n ts)) + length (filter (\<lambda>x. c < x) [ts ! ?n]) + length (filter (\<lambda>x. c < x) [ts ! Suc ?n])"
    by (subst split) (simp only: filter_append length_append add.assoc)
  moreover have "filter (\<lambda>x. c < x) (List.take ?n ts) = []" if "\<not> c < ts ! ?n"
    using le that by (force simp: filter_empty_conv)
  ultimately show ?thesis using True le' by (cases "c < ts ! ?n") auto
qed

lemma closed_step:
  assumes "sb_state cb = CircuitClosed" "sb_window cb = go_minute" "sb_threshold cb = 3"
  shows "RecordError t cb =
     (let es = filter (\<lambda>u. t - go_minute < u) (errorTimes cb)
      in if 2 \<le> length es then (cb\<lparr>sb_state := CircuitOpen, openedAt := Some t, errorTimes := [], totalTrips := totalTrips cb + 1\<rparr>)
         else cb\<lparr>errorTimes := es @ [t]\<rparr>)"
  using assms by (auto simp: RecordError_def currentStateLocked_def sb_pruneLocked_def tripLocked_def Let_def)

lemma closed_run:
  "sorted ts \<Longrightarrow> \<not> burst ts \<Longrightarrow> recordErrors ts NewStreamCircuitBreaker =
     NewStreamCircuitBreaker\<lparr>errorTimes := filter (\<lambda>u. last ts - go_minute < u) ts\<rparr>"
proof (induction ts rule: rev_induct)
  case (snoc t ts)
  let ?cb = "NewStreamCircuitBreaker\<lparr>errorTimes := filter (\<lambda>u. last ts - go_minute < u) ts\<rparr>"
  have s: "sorted ts" "\<And>u. u \<in> set ts \<Longrightarrow> u \<le> t" using snoc.prems(1) by (auto simp: sorted_append)
  have nb: "\<not> burst ts" "\<not> (2 \<le> length ts \<and> t - ts ! (length ts - 2) < go_minute)"
    using snoc.prems(2) by (auto simp: burst_snoc)
  have cb: "recordErrors ts NewStreamCircuitBreaker = ?cb" by (rule snoc.IH [OF s(1) nb(1)])
  have "ts = [] \<or> last ts \<le> t" using s(2) last_in_set by blast
  then have f: "filter (\<lambda>u. t - go_minute < u) (errorTimes ?cb) = filter (\<lambda>u. t - go_minute < u) ts"
    by (auto intro!: filter_cong)
  have "\<not> 2 \<le> length (filter (\<lambda>u. t - go_minute < u) ts)" using two_above [OF s(1), of "t - go_minute"] nb(2) by auto
  then show ?case unfolding recordErrors_snoc cb using f closed_step [of ?cb t]
    by (simp add: NewStreamCircuitBreaker_def Let_def)
qed (simp add: NewStreamCircuitBreaker_def)

text \<open>
A fresh breaker fed conversion errors in time order opens exactly at the first error that ends
a burst: the third of three errors within one minute. Until then it stays closed and sends nothing
to the legacy path.
\<close>

theorem trips_on_first_burst:
  assumes "sorted (ts @ [t])" "\<not> burst ts"
  shows "sb_state (recordErrors (ts @ [t]) NewStreamCircuitBreaker) = (if burst (ts @ [t]) then CircuitOpen else CircuitClosed)"
proof (cases "burst (ts @ [t])")
  case False
  then show ?thesis using closed_run [OF assms(1) False] by (simp add: NewStreamCircuitBreaker_def)
next
  case True
  let ?cb = "NewStreamCircuitBreaker\<lparr>errorTimes := filter (\<lambda>u. last ts - go_minute < u) ts\<rparr>"
  have s: "sorted ts" "\<And>u. u \<in> set ts \<Longrightarrow> u \<le> t" using assms(1) by (auto simp: sorted_append)
  have "2 \<le> length ts" "t - go_minute < ts ! (length ts - 2)" using True assms(2) by (auto simp: burst_snoc)
  then have "2 \<le> length (filter (\<lambda>u. t - go_minute < u) ts)" using two_above [OF s(1), of "t - go_minute"] by auto
  moreover have "ts = [] \<or> last ts \<le> t" using s(2) last_in_set by blast
  then have "filter (\<lambda>u. t - go_minute < u) (errorTimes ?cb) = filter (\<lambda>u. t - go_minute < u) ts"
    by (auto intro!: filter_cong)
  ultimately show ?thesis unfolding recordErrors_snoc closed_run [OF s(1) assms(2)] using True closed_step [of ?cb t]
    by (simp add: NewStreamCircuitBreaker_def Let_def)
qed

theorem trips_on_first_burst_witness:
  "sb_state (recordErrors ([0, 59 * go_second] @ [61 * go_second]) NewStreamCircuitBreaker) = CircuitClosed
   \<and> sb_state (recordErrors ([0, 59 * go_second, 61 * go_second] @ [62 * go_second]) NewStreamCircuitBreaker) = CircuitOpen"
proof -
  have *: "burst xs \<longleftrightarrow> False" if "length xs \<le> 2" for xs using that by (auto simp: burst_def)
  have "\<not> burst ([0, 59 * go_second] @ [61 * go_second])" by (subst burst_snoc) (simp add: *)
  moreover have "burst ([0, 59 * go_second, 61 * go_second] @ [62 * go_second])" by (subst burst_snoc) simp
  ultimately show ?thesis
    using trips_on_first_burst [of "[0, 59 * go_second]" "61 * go_second"]
      trips_on_first_burst [of "[0, 59 * go_second, 61 * go_second]" "62 * go_second"] by (simp add: *)
qed

theorem fallback_needs_recent_error_witness:
  "length (errorTimes (snd (run_ops sbStep [SbError 0, SbError 1, SbError 2] NewStreamCircuitBreaker))) \<le> 2"
  using fallback_needs_recent_error [OF refl, of 3 "[SbError 0, SbError 1, SbError 2]"]
  by (simp add: NewStreamCircuitBreaker_def RecordError_def currentStateLocked_def sb_pruneLocked_def tripLocked_def
        ShouldFallback_def Let_def)

end
