(* ===== verification/CredLimiter.thy ===== *)
theory CredLimiter
  imports Prelude
begin

text \<open>
  The layered concurrency limiter of \<open>domains/credential/limiter.go\<close>: semaphores for the process,
  the provider pool, the credential, the identity and the API key, taken in that order by
  \<open>AcquireAll\<close> and given back by the release function it returns.

  Semaphores are shared by pointer (a release function keeps the semaphores it acquired even when
  the identity table has evicted them), so they live in a heap, a list indexed by address. A request
  is a thread of the model: each attempt at a layer, each cancelled wait and the release is one step,
  and the steps of all requests, of the administrator and of the recovery ticker interleave. The
  atomics are exact integers. Keys built by \<open>Sprintf\<close> are tuples; a Go map that is ranged over
  (pools, credentials, identities) is an association list in its iteration order. The RPM reservation, which may
  live in Redis, is the answer \<open>rpmOk\<close> of the step. \<open>Shrink\<close> multiplies in floating
  point; its factor is the fraction \<open>num / den\<close>, and the ceiling is the same for every
  capacity below \<open>2\<^sup>5\<^sup>0\<close>.
\<close>

section \<open>Semaphores\<close>

record semaphore =
  sm_capacity :: int
  sm_used :: int

definition NewSemaphore :: "int \<Rightarrow> semaphore" where
  "NewSemaphore capacity = \<lparr>sm_capacity = capacity, sm_used = 0\<rparr>"

definition sem_TryAcquire :: "semaphore \<Rightarrow> bool \<times> semaphore" where
  "sem_TryAcquire s = (if sm_capacity s \<le> sm_used s then (False, s) else (True, s\<lparr>sm_used := sm_used s + 1\<rparr>))"

definition sem_Release :: "semaphore \<Rightarrow> semaphore" where
  "sem_Release s = (if sm_used s \<le> 0 then s else s\<lparr>sm_used := sm_used s - 1\<rparr>)"

definition ceilDiv :: "int \<Rightarrow> int \<Rightarrow> int" where
  "ceilDiv a b = - ((- a) div b)"

definition sem_Shrink :: "int \<Rightarrow> int \<Rightarrow> semaphore \<Rightarrow> semaphore" where
  "sem_Shrink num den s = s\<lparr>sm_capacity := max 1 (ceilDiv (sm_capacity s * num) den)\<rparr>"

definition RecoverStep :: "int \<Rightarrow> semaphore \<Rightarrow> semaphore" where
  "RecoverStep target s =
     (if target \<le> sm_capacity s then s
      else let recovery = ceilDiv (target - sm_capacity s) 2;
               recovery' = (if recovery < 1 then 1 else recovery);
               new = sm_capacity s + recovery'
           in s\<lparr>sm_capacity := (if target < new then target else new)\<rparr>)"

section \<open>The limiter\<close>

type_synonym identKey = "int \<times> int \<times> string"

record identityEntry =
  ie_sem :: nat
  ie_lastUsed :: instant

record limiter =
  globalLimit :: int
  poolLimit :: int
  credentialLimit :: int
  identityLimit :: int
  lm_heap :: "semaphore list"
  lm_pools :: "(int \<times> nat) list"
  lm_creds :: "((int \<times> int) \<times> nat) list"
  credHotLimits :: "int \<times> int \<Rightarrow> int option"
  lm_idents :: "(identKey \<times> identityEntry) list"
  lm_keys :: "int \<Rightarrow> nat option"
  identityMaxEntries :: int
  identityIdleTTL :: duration
  identityEvictions :: nat

definition envPositiveInt :: "int option \<Rightarrow> int \<Rightarrow> int" where
  "envPositiveInt v fallback = (case v of None \<Rightarrow> fallback
     | Some value \<Rightarrow> if value \<le> 0 then fallback else if 100000 < value then 100000 else value)"

definition envPositiveDuration :: "duration option \<Rightarrow> duration \<Rightarrow> duration" where
  "envPositiveDuration v fallback = (case v of None \<Rightarrow> fallback
     | Some value \<Rightarrow> if value \<le> 0 then fallback else if 1440 * go_minute < value then 1440 * go_minute else value)"

text \<open>The process semaphore has address 0. The two environment settings come already parsed.\<close>

definition NewWithLimits :: "int option \<Rightarrow> duration option \<Rightarrow> int \<Rightarrow> int \<Rightarrow> int \<Rightarrow> int \<Rightarrow> limiter" where
  "NewWithLimits envMax envTTL global pool credential identity =
     \<lparr>globalLimit = global, poolLimit = pool, credentialLimit = credential, identityLimit = identity,
      lm_heap = [NewSemaphore global], lm_pools = [], lm_creds = [], credHotLimits = (\<lambda>_. None),
      lm_idents = [], lm_keys = (\<lambda>_. None), identityMaxEntries = envPositiveInt envMax 10000,
      identityIdleTTL = envPositiveDuration envTTL (30 * go_minute), identityEvictions = 0\<rparr>"

definition NewLimiter :: "int option \<Rightarrow> duration option \<Rightarrow> limiter" where
  "NewLimiter envMax envTTL = NewWithLimits envMax envTTL 1000 100 50 10"

definition alloc :: "semaphore \<Rightarrow> limiter \<Rightarrow> nat \<times> limiter" where
  "alloc s l = (length (lm_heap l), l\<lparr>lm_heap := lm_heap l @ [s]\<rparr>)"

definition withSem :: "nat \<Rightarrow> (semaphore \<Rightarrow> semaphore) \<Rightarrow> limiter \<Rightarrow> limiter" where
  "withSem a f l = l\<lparr>lm_heap := (lm_heap l)[a := f (lm_heap l ! a)]\<rparr>"

definition lm_Pool :: "int \<Rightarrow> limiter \<Rightarrow> nat \<times> limiter" where
  "lm_Pool pid l = (case map_of (lm_pools l) pid of
     Some a \<Rightarrow> (a, l)
   | None \<Rightarrow> (case alloc (NewSemaphore (poolLimit l)) l of (a, l') \<Rightarrow> (a, l'\<lparr>lm_pools := (pid, a) # lm_pools l'\<rparr>)))"

definition lm_Credential :: "int \<Rightarrow> int \<Rightarrow> limiter \<Rightarrow> nat \<times> limiter" where
  "lm_Credential pid cid l = (case map_of (lm_creds l) (pid, cid) of
     Some a \<Rightarrow> (a, l)
   | None \<Rightarrow> (case alloc (NewSemaphore (credentialLimit l)) l of
       (a, l') \<Rightarrow> (a, l'\<lparr>lm_creds := ((pid, cid), a) # lm_creds l'\<rparr>)))"

text \<open>\<open>SetCredentialCapacity\<close> is three steps: find the semaphore, record the ceiling, store the capacity.\<close>

definition clampCapacity :: "int \<Rightarrow> int" where
  "clampCapacity capacity = (if capacity < 1 then 1 else capacity)"

definition setHotLimit :: "int \<Rightarrow> int \<Rightarrow> int \<Rightarrow> limiter \<Rightarrow> limiter" where
  "setHotLimit pid cid capacity l = l\<lparr>credHotLimits := (credHotLimits l)((pid, cid) \<mapsto> clampCapacity capacity)\<rparr>"

definition storeCapacity :: "int \<Rightarrow> int \<Rightarrow> int \<Rightarrow> limiter \<Rightarrow> limiter" where
  "storeCapacity pid cid capacity l = (case lm_Credential pid cid l of
     (a, l') \<Rightarrow> withSem a (\<lambda>s. s\<lparr>sm_capacity := clampCapacity capacity\<rparr>) l')"

definition SetCredentialCapacity :: "int \<Rightarrow> int \<Rightarrow> int \<Rightarrow> limiter \<Rightarrow> limiter" where
  "SetCredentialCapacity pid cid capacity l =
     storeCapacity pid cid capacity (setHotLimit pid cid capacity (snd (lm_Credential pid cid l)))"

fun cleanupLoop :: "int \<Rightarrow> instant \<Rightarrow> semaphore list \<Rightarrow> nat \<Rightarrow> (identKey \<times> identityEntry) list
    \<Rightarrow> (identKey \<times> identityEntry) list \<times> nat" where
  "cleanupLoop maxEntries cutoff heap len [] = ([], 0)"
| "cleanupLoop maxEntries cutoff heap len ((k, e) # rest) =
     (if (int len \<le> maxEntries \<and> cutoff < ie_lastUsed e) \<or> sm_used (heap ! ie_sem e) \<noteq> 0
      then (case cleanupLoop maxEntries cutoff heap len rest of (kept, n) \<Rightarrow> ((k, e) # kept, n))
      else (case cleanupLoop maxEntries cutoff heap (len - 1) rest of (kept, n) \<Rightarrow> (kept, Suc n)))"

definition cleanupIdentitiesLocked :: "instant \<Rightarrow> limiter \<Rightarrow> limiter" where
  "cleanupIdentitiesLocked now l =
     (case cleanupLoop (identityMaxEntries l) (now - identityIdleTTL l) (lm_heap l) (length (lm_idents l)) (lm_idents l) of
        (kept, n) \<Rightarrow> l\<lparr>lm_idents := kept, identityEvictions := identityEvictions l + n\<rparr>)"

fun oldestUnused :: "semaphore list \<Rightarrow> (identKey \<times> identityEntry) option \<Rightarrow> (identKey \<times> identityEntry) list
    \<Rightarrow> (identKey \<times> identityEntry) option" where
  "oldestUnused heap best [] = best"
| "oldestUnused heap best ((k, e) # rest) =
     (if sm_used (heap ! ie_sem e) \<noteq> 0 then oldestUnused heap best rest
      else case best of
        None \<Rightarrow> oldestUnused heap (Some (k, e)) rest
      | Some b \<Rightarrow> oldestUnused heap (if ie_lastUsed e < ie_lastUsed (snd b) then Some (k, e) else best) rest)"

lemma oldestUnused_member:
  "oldestUnused heap best xs = Some (k, e) \<Longrightarrow> best = Some (k, e) \<or> (k, e) \<in> set xs \<and> sm_used (heap ! ie_sem e) = 0"
  by (induction heap best xs rule: oldestUnused.induct) (auto split: if_splits option.splits)

function makeRoomLoop :: "int \<Rightarrow> semaphore list \<Rightarrow> (identKey \<times> identityEntry) list \<Rightarrow> nat
    \<Rightarrow> bool \<times> (identKey \<times> identityEntry) list \<times> nat" where
  "makeRoomLoop maxEntries heap xs n =
     (if int (length xs) < maxEntries then (True, xs, n)
      else case oldestUnused heap None xs of
        None \<Rightarrow> (False, xs, n)
      | Some (k, _) \<Rightarrow> makeRoomLoop maxEntries heap (filter (\<lambda>(k', _). k' \<noteq> k) xs) (Suc n))"
  by pat_completeness auto
termination
proof (relation "measure (\<lambda>(m, heap, xs, n). length xs)", goal_cases)
  case (2 maxEntries heap xs n x2 k e)
  then have "(k, e) \<in> set xs" using oldestUnused_member [of heap None xs k e] by auto
  then show ?case by (auto intro: length_filter_less)
qed simp

declare makeRoomLoop.simps [simp del]

definition makeIdentityRoomLocked :: "instant \<Rightarrow> limiter \<Rightarrow> bool \<times> limiter" where
  "makeIdentityRoomLocked now l0 =
     (let l = cleanupIdentitiesLocked now l0
      in case makeRoomLoop (identityMaxEntries l) (lm_heap l) (lm_idents l) (identityEvictions l) of
           (ok, xs, n) \<Rightarrow> (ok, l\<lparr>lm_idents := xs, identityEvictions := n\<rparr>))"

text \<open>An identity that finds no room gets a fresh semaphore that the table does not know.\<close>

definition lm_Identity :: "int \<Rightarrow> int \<Rightarrow> string \<Rightarrow> instant \<Rightarrow> limiter \<Rightarrow> nat \<times> limiter" where
  "lm_Identity pid cid ident now l = (case map_of (lm_idents l) (pid, cid, ident) of
     Some e \<Rightarrow> (ie_sem e, 
       l\<lparr>lm_idents := map (\<lambda>(k, e'). if k = (pid, cid, ident) then (k, e'\<lparr>ie_lastUsed := now\<rparr>) else (k, e')) (lm_idents l)\<rparr>)
   | None \<Rightarrow> (case makeIdentityRoomLocked now l of (room, l1) \<Rightarrow>
       case alloc (NewSemaphore (identityLimit l1)) l1 of (a, l2) \<Rightarrow>
       if room then (a, l2\<lparr>lm_idents := ((pid, cid, ident), \<lparr>ie_sem = a, ie_lastUsed = now\<rparr>) # lm_idents l2\<rparr>)
       else (a, l2)))"

definition lm_Key :: "int \<Rightarrow> int \<Rightarrow> limiter \<Rightarrow> nat \<times> limiter" where
  "lm_Key keyID limit l = (case lm_keys l keyID of
     Some a \<Rightarrow> (a, if 0 < limit \<and> sm_capacity (lm_heap l ! a) \<noteq> limit
                   then withSem a (\<lambda>s. s\<lparr>sm_capacity := limit\<rparr>) l else l)
   | None \<Rightarrow> (case alloc (NewSemaphore limit) l of (a, l') \<Rightarrow> (a, l'\<lparr>lm_keys := (lm_keys l')(keyID \<mapsto> a)\<rparr>)))"

definition lm_Shrink :: "int \<Rightarrow> int \<Rightarrow> limiter \<Rightarrow> limiter" where
  "lm_Shrink pid cid l = (case lm_Credential pid cid l of (a, l') \<Rightarrow> withSem a (sem_Shrink 7 10) l')"

text \<open>One tick of the recovery loop; the staged log lines are left out.\<close>

definition recoveryStep :: "instant \<Rightarrow> limiter \<Rightarrow> limiter" where
  "recoveryStep now l0 =
     (let l1 = cleanupIdentitiesLocked now l0;
          l2 = fold (\<lambda>(_, a). withSem a (RecoverStep (poolLimit l1))) (lm_pools l1) l1
      in fold (\<lambda>(k, a). withSem a (RecoverStep
           (case credHotLimits l1 k of Some hot \<Rightarrow> hot | None \<Rightarrow> credentialLimit l1))) (lm_creds l1) l2)"

section \<open>Requests\<close>

text \<open>
  Where a request stands in \<open>AcquireAll\<close> (or, with \<open>rq_credLayer = False\<close>, in
  \<open>AcquireAllNoCredLayer\<close>): waiting for the process, the pool, the credential semaphore, about to
  reserve RPM, to look up and try its identity, to look up and try its API key; running with what it
  holds; refused; released. The local variables \<open>pool\<close>, \<open>cred\<close>, \<open>ident\<close>,
  \<open>identAcquired\<close>, \<open>keySem\<close> and \<open>keyAcquired\<close> are fields of the request;
  \<open>rq_enabled\<close> is the answer of the kill switch. \<open>rq_held\<close> is not a variable of the code: it
  records the tokens the request really holds, an acquisition adds one, a release takes one out.
\<close>

datatype lmPhase = WaitGlobal | WaitPool | WaitCred | ReserveRPM | FindIdent | TryIdent nat | FindKey | TryKey nat
  | Running | Refused string | Released

record lmReq =
  rq_provider :: int
  rq_cred :: int
  rq_ident :: string
  rq_keyID :: int
  rq_keyLimit :: int
  rq_enabled :: bool
  rq_credLayer :: bool
  rq_phase :: lmPhase
  rq_pool :: nat
  rq_credSem :: nat
  rq_identSem :: nat
  rq_identAcq :: bool
  rq_keySem :: nat
  rq_keyAcq :: bool
  rq_held :: "nat list"

definition tryTake :: "nat \<Rightarrow> lmPhase \<Rightarrow> limiter \<Rightarrow> lmReq \<Rightarrow> limiter \<times> lmReq" where
  "tryTake a next l r = (case sem_TryAcquire (lm_heap l ! a) of
     (True, s) \<Rightarrow> (withSem a (\<lambda>_. s) l, r\<lparr>rq_phase := next, rq_held := a # rq_held r\<rparr>)
   | (False, _) \<Rightarrow> (l, r))"

definition softTake :: "nat \<Rightarrow> (bool \<Rightarrow> lmReq \<Rightarrow> lmReq) \<Rightarrow> lmPhase \<Rightarrow> limiter \<Rightarrow> lmReq \<Rightarrow> limiter \<times> lmReq" where
  "softTake a seal next l r = (if fst (sem_TryAcquire (lm_heap l ! a)) then tryTake a next l (seal True r)
     else (l, (seal False r)\<lparr>rq_phase := next\<rparr>))"

text \<open>The releases of one path of the code, in its order.\<close>

definition giveBack :: "nat list \<Rightarrow> lmPhase \<Rightarrow> limiter \<Rightarrow> lmReq \<Rightarrow> limiter \<times> lmReq" where
  "giveBack sems next l r =
     (fold (\<lambda>a. withSem a sem_Release) sems l, r\<lparr>rq_phase := next, rq_held := fold remove1 sems (rq_held r)\<rparr>)"

fun advance :: "instant \<Rightarrow> bool \<Rightarrow> lmPhase \<Rightarrow> limiter \<Rightarrow> lmReq \<Rightarrow> limiter \<times> lmReq" where
  "advance now rpmOk WaitGlobal l r = tryTake 0 WaitPool l r"
| "advance now rpmOk WaitPool l r = (case lm_Pool (rq_provider r) l of
     (a, l') \<Rightarrow> tryTake a (if rq_credLayer r then WaitCred else FindIdent) l' (r\<lparr>rq_pool := a\<rparr>))"
| "advance now rpmOk WaitCred l r = (case lm_Credential (rq_provider r) (rq_cred r) l of
     (a, l') \<Rightarrow> tryTake a ReserveRPM l' (r\<lparr>rq_credSem := a\<rparr>))"
| "advance now rpmOk ReserveRPM l r =
     (if rpmOk then (l, r\<lparr>rq_phase := FindIdent\<rparr>)
      else giveBack [rq_credSem r, rq_pool r, 0] (Refused ''credential rpm limit'') l r)"
| "advance now rpmOk FindIdent l r = (case lm_Identity (rq_provider r) (rq_cred r) (rq_ident r) now l of
     (a, l') \<Rightarrow> (l', r\<lparr>rq_phase := TryIdent a\<rparr>))"
| "advance now rpmOk (TryIdent a) l r = softTake a (\<lambda>ok r. r\<lparr>rq_identSem := a, rq_identAcq := ok\<rparr>)
     (if 0 < rq_keyID r \<and> 0 < rq_keyLimit r then FindKey else Running) l r"
| "advance now rpmOk FindKey l r = (case lm_Key (rq_keyID r) (rq_keyLimit r) l of (a, l') \<Rightarrow> (l', r\<lparr>rq_phase := TryKey a\<rparr>))"
| "advance now rpmOk (TryKey a) l r = softTake a (\<lambda>ok r. r\<lparr>rq_keySem := a, rq_keyAcq := ok\<rparr>) Running l r"
| "advance now rpmOk _ l r = (l, r)"

text \<open>The bounded wait of a blocking layer ends in an error: the layers taken so far are given back.\<close>

fun waitFails :: "lmPhase \<Rightarrow> limiter \<Rightarrow> lmReq \<Rightarrow> limiter \<times> lmReq" where
  "waitFails WaitGlobal l r = giveBack [] (Refused ''global limit'') l r"
| "waitFails WaitPool l r = giveBack [0] (Refused ''pool limit'') l r"
| "waitFails WaitCred l r = giveBack [rq_pool r, 0] (Refused ''credential limit'') l r"
| "waitFails _ l r = (l, r)"

text \<open>The function \<open>AcquireAll\<close> returns, under its \<open>sync.Once\<close>; the no-op one when the switch is off.\<close>

definition releaseFunc :: "limiter \<Rightarrow> lmReq \<Rightarrow> limiter \<times> lmReq" where
  "releaseFunc l r =
     (if rq_phase r \<noteq> Running then (l, r)
      else if \<not> rq_enabled r then giveBack [] Released l r
      else giveBack ((if rq_keyAcq r then [rq_keySem r] else []) @ (if rq_identAcq r then [rq_identSem r] else []) @
             (if rq_credLayer r then [rq_credSem r] else []) @ [rq_pool r, 0]) Released l r)"

record lmState =
  ls_lim :: limiter
  ls_reqs :: "lmReq list"

datatype lmEvent =
  LmStart bool bool int int string int int
| LmAdvance nat instant bool | LmWaitFails nat | LmRelease nat
| LmFindCred int int | LmHot int int int | LmStore int int int | LmShrink int int | LmRecover instant

definition onReq :: "nat \<Rightarrow> (limiter \<Rightarrow> lmReq \<Rightarrow> limiter \<times> lmReq) \<Rightarrow> lmState \<Rightarrow> lmState" where
  "onReq i f s = (if i < length (ls_reqs s)
     then (case f (ls_lim s) (ls_reqs s ! i) of (l, r) \<Rightarrow> \<lparr>ls_lim = l, ls_reqs = (ls_reqs s)[i := r]\<rparr>) else s)"

fun lmStep :: "lmEvent \<Rightarrow> lmState \<Rightarrow> lmState" where
  "lmStep (LmStart enabled credLayer pid cid ident keyID keyLimit) s =
     s\<lparr>ls_reqs := ls_reqs s @ [\<lparr>rq_provider = pid, rq_cred = cid, rq_ident = ident, rq_keyID = keyID,
        rq_keyLimit = keyLimit, rq_enabled = enabled, rq_credLayer = credLayer, rq_phase = (if enabled then WaitGlobal else Running),
        rq_pool = 0, rq_credSem = 0, rq_identSem = 0, rq_identAcq = False, rq_keySem = 0, rq_keyAcq = False, rq_held = []\<rparr>]\<rparr>"
| "lmStep (LmAdvance i now rpmOk) s = onReq i (\<lambda>l r. advance now rpmOk (rq_phase r) l r) s"
| "lmStep (LmWaitFails i) s = onReq i (\<lambda>l r. waitFails (rq_phase r) l r) s"
| "lmStep (LmRelease i) s = onReq i releaseFunc s"
| "lmStep (LmFindCred pid cid) s = s\<lparr>ls_lim := snd (lm_Credential pid cid (ls_lim s))\<rparr>"
| "lmStep (LmHot pid cid c) s = s\<lparr>ls_lim := setHotLimit pid cid c (ls_lim s)\<rparr>"
| "lmStep (LmStore pid cid c) s = s\<lparr>ls_lim := storeCapacity pid cid c (ls_lim s)\<rparr>"
| "lmStep (LmShrink pid cid) s = s\<lparr>ls_lim := lm_Shrink pid cid (ls_lim s)\<rparr>"
| "lmStep (LmRecover now) s = s\<lparr>ls_lim := recoveryStep now (ls_lim s)\<rparr>"

definition lmInit :: "limiter \<Rightarrow> lmState" where
  "lmInit l = \<lparr>ls_lim = l, ls_reqs = []\<rparr>"

definition lmRun :: "lmEvent list \<Rightarrow> lmState \<Rightarrow> lmState" where
  "lmRun es s = fold lmStep es s"

section \<open>Operations that take no token\<close>

text \<open>
  The semaphores of the process and of the pools keep their capacity; the credential and key
  semaphores are other ones. \<open>quiet l l'\<close> says that an operation left every counter alone and
  created only unused semaphores.
\<close>

definition poolAddrs :: "limiter \<Rightarrow> nat set" where
  "poolAddrs l = snd ` set (lm_pools l)"

definition credAddrs :: "limiter \<Rightarrow> nat set" where
  "credAddrs l = snd ` set (lm_creds l)"

definition identAddrs :: "limiter \<Rightarrow> nat set" where
  "identAddrs l = (ie_sem \<circ> snd) ` set (lm_idents l)"

lemma addrs_upd [simp]:
  "poolAddrs (l\<lparr>lm_heap := h\<rparr>) = poolAddrs l" "credAddrs (l\<lparr>lm_heap := h\<rparr>) = credAddrs l" "identAddrs (l\<lparr>lm_heap := h\<rparr>) = identAddrs l"
  "poolAddrs (l\<lparr>lm_keys := ks\<rparr>) = poolAddrs l" "credAddrs (l\<lparr>lm_keys := ks\<rparr>) = credAddrs l" "identAddrs (l\<lparr>lm_keys := ks\<rparr>) = identAddrs l"
  "poolAddrs (l\<lparr>lm_pools := (k, a) # lm_pools l\<rparr>) = insert a (poolAddrs l)" "credAddrs (l\<lparr>lm_pools := ps\<rparr>) = credAddrs l"
  "identAddrs (l\<lparr>lm_pools := ps\<rparr>) = identAddrs l"
  "credAddrs (l\<lparr>lm_creds := (k', a) # lm_creds l\<rparr>) = insert a (credAddrs l)" "poolAddrs (l\<lparr>lm_creds := cs\<rparr>) = poolAddrs l"
  "identAddrs (l\<lparr>lm_creds := cs\<rparr>) = identAddrs l"
  "poolAddrs (l\<lparr>lm_idents := is\<rparr>) = poolAddrs l" "credAddrs (l\<lparr>lm_idents := is\<rparr>) = credAddrs l"
  "poolAddrs (l\<lparr>identityEvictions := n\<rparr>) = poolAddrs l" "credAddrs (l\<lparr>identityEvictions := n\<rparr>) = credAddrs l"
  "identAddrs (l\<lparr>identityEvictions := n\<rparr>) = identAddrs l"
  by (simp_all add: poolAddrs_def credAddrs_def identAddrs_def)

lemma addrs_Cons [simp]:
  "poolAddrs (l\<lparr>lm_heap := h, lm_pools := (k, a) # lm_pools l\<rparr>) = insert a (poolAddrs l)"
  "credAddrs (l\<lparr>lm_heap := h, lm_creds := (k', a) # lm_creds l\<rparr>) = insert a (credAddrs l)"
  "identAddrs (l\<lparr>lm_heap := h, lm_idents := (k'', e) # lm_idents l\<rparr>) = insert (ie_sem e) (identAddrs l)"
  by (simp_all add: poolAddrs_def credAddrs_def identAddrs_def)

definition lim_inv :: "limiter \<Rightarrow> bool" where
  "lim_inv l \<longleftrightarrow> 0 < length (lm_heap l)
     \<and> sm_capacity (lm_heap l ! 0) = globalLimit l
     \<and> (\<forall>a \<in> poolAddrs l. 0 < a \<and> a < length (lm_heap l) \<and> sm_capacity (lm_heap l ! a) = poolLimit l)
     \<and> (\<forall>a \<in> credAddrs l. 0 < a \<and> a < length (lm_heap l) \<and> a \<notin> poolAddrs l)
     \<and> (\<forall>a \<in> ran (lm_keys l). 0 < a \<and> a < length (lm_heap l) \<and> a \<notin> poolAddrs l)
     \<and> (\<forall>a \<in> identAddrs l. a < length (lm_heap l))"

definition quiet :: "limiter \<Rightarrow> limiter \<Rightarrow> bool" where
  "quiet l l' \<longleftrightarrow> lim_inv l' \<and> length (lm_heap l) \<le> length (lm_heap l')
     \<and> (\<forall>a < length (lm_heap l). sm_used (lm_heap l' ! a) = sm_used (lm_heap l ! a))
     \<and> (\<forall>a. length (lm_heap l) \<le> a \<and> a < length (lm_heap l') \<longrightarrow> sm_used (lm_heap l' ! a) = 0)
     \<and> (\<forall>k a. map_of (lm_pools l) k = Some a \<longrightarrow> map_of (lm_pools l') k = Some a)
     \<and> (\<forall>k a. map_of (lm_creds l) k = Some a \<longrightarrow> map_of (lm_creds l') k = Some a)
     \<and> 0 < length (lm_heap l) \<and> (\<forall>a \<in> poolAddrs l'. a \<in> poolAddrs l \<or> length (lm_heap l) \<le> a)
     \<and> globalLimit l' = globalLimit l \<and> poolLimit l' = poolLimit l"

lemma quiet_refl: "lim_inv l \<Longrightarrow> quiet l l"
  by (simp add: quiet_def lim_inv_def)

lemma lim_inv_heap [dest]: "lim_inv l \<Longrightarrow> lm_heap l \<noteq> []"
  by (simp add: lim_inv_def)

lemma quiet_trans: "quiet l l1 \<Longrightarrow> quiet l1 l2 \<Longrightarrow> quiet l l2"
proof -
  assume a: "quiet l l1" and b: "quiet l1 l2"
  have "sm_used (lm_heap l2 ! x) = sm_used (lm_heap l ! x)" if "x < length (lm_heap l)" for x
    using a b that unfolding quiet_def by (metis order_less_le_trans)
  moreover have "sm_used (lm_heap l2 ! x) = 0" if "length (lm_heap l) \<le> x" "x < length (lm_heap l2)" for x
  proof (cases "x < length (lm_heap l1)")
    case True
    then show ?thesis using a b that unfolding quiet_def by metis
  next
    case False
    then show ?thesis using b that unfolding quiet_def by simp
  qed
  moreover have "x \<in> poolAddrs l \<or> length (lm_heap l) \<le> x" if "x \<in> poolAddrs l2" for x
    using a b that unfolding quiet_def by (meson order_trans)
  ultimately show ?thesis using a b unfolding quiet_def by simp
qed

lemma alloc_facts:
  assumes "alloc s l = (a, l')"
  shows "a = length (lm_heap l)" "l' = l\<lparr>lm_heap := lm_heap l @ [s]\<rparr>"
  using assms by (auto simp: alloc_def)

lemma lim_inv_alloc: "lim_inv l \<Longrightarrow> lim_inv (l\<lparr>lm_heap := lm_heap l @ [s]\<rparr>)"
  unfolding lim_inv_def by (auto simp: nth_append less_Suc_eq)

lemma quiet_alloc: "lim_inv l \<Longrightarrow> quiet l (l\<lparr>lm_heap := lm_heap l @ [NewSemaphore c]\<rparr>)"
  using lim_inv_alloc [of l "NewSemaphore c"] by (auto simp: quiet_def nth_append NewSemaphore_def)

lemma quiet_withSem:
  assumes "lim_inv l" "\<And>s. sm_used (f s) = sm_used s"
    and "0 < a \<and> a \<notin> poolAddrs l \<or> sm_capacity (f (lm_heap l ! a)) = sm_capacity (lm_heap l ! a)"
  shows "quiet l (withSem a f l)"
proof -
  have cap: "sm_capacity ((lm_heap l)[a := f (lm_heap l ! a)] ! b) = sm_capacity (lm_heap l ! b)"
    if "b = 0 \<or> b \<in> poolAddrs l" for b
    using that assms(3) by (cases "b = a"; cases "a < length (lm_heap l)") (auto simp: list_update_beyond)
  have "lim_inv (withSem a f l)" using assms(1) cap unfolding lim_inv_def withSem_def
    by (auto simp del: nth_list_update)
  moreover have "sm_used ((lm_heap l)[a := f (lm_heap l ! a)] ! b) = sm_used (lm_heap l ! b)" for b
    using assms(2) by (cases "b = a"; cases "a < length (lm_heap l)") (auto simp: list_update_beyond)
  ultimately show ?thesis using assms(1) by (auto simp: quiet_def withSem_def)
qed

lemma poolAddr_of: "map_of (lm_pools l) k = Some a \<Longrightarrow> a \<in> poolAddrs l"
  by (force simp: poolAddrs_def dest: map_of_SomeD)

lemma quiet_Pool:
  assumes "lim_inv l" "lm_Pool pid l = (a, l')"
  shows "quiet l l' \<and> map_of (lm_pools l') pid = Some a \<and> a < length (lm_heap l')"
proof (cases "map_of (lm_pools l) pid")
  case (Some b)
  then show ?thesis using assms poolAddr_of [OF Some] by (auto simp: lm_Pool_def quiet_refl lim_inv_def)
next
  case None
  have "lim_inv l'" using assms None unfolding lim_inv_def lm_Pool_def alloc_def
    by (auto simp: nth_append NewSemaphore_def less_Suc_eq)
  then show ?thesis using assms None
    by (auto simp: lm_Pool_def alloc_def quiet_def nth_append NewSemaphore_def less_Suc_eq split: if_splits)
qed

lemma quiet_Credential:
  assumes "lim_inv l" "lm_Credential pid cid l = (a, l')"
  shows "quiet l l' \<and> a \<in> credAddrs l' \<and> lm_pools l' = lm_pools l \<and> map_of (lm_creds l') (pid, cid) = Some a"
proof (cases "map_of (lm_creds l) (pid, cid)")
  case (Some b)
  then show ?thesis using assms map_of_SomeD [OF Some] by (force simp: lm_Credential_def quiet_refl credAddrs_def)
next
  case None
  have "lim_inv l'" using assms None unfolding lim_inv_def lm_Credential_def alloc_def
    by (auto simp: nth_append NewSemaphore_def less_Suc_eq)
  then show ?thesis using assms None
    by (auto simp: lm_Credential_def alloc_def quiet_def nth_append NewSemaphore_def less_Suc_eq)
qed

lemma quiet_Key:
  assumes "lim_inv l" "lm_Key keyID limit l = (a, l')"
  shows "quiet l l' \<and> a < length (lm_heap l')"
proof (cases "lm_keys l keyID")
  case (Some b)
  then have b: "0 < b" "b < length (lm_heap l)" "b \<notin> poolAddrs l" using assms(1) unfolding lim_inv_def by (meson ranI)+
  have "quiet l (withSem b (\<lambda>s. s\<lparr>sm_capacity := limit\<rparr>) l)" using assms(1) b by (intro quiet_withSem) auto
  then show ?thesis using assms Some b by (auto simp: lm_Key_def quiet_refl withSem_def)
next
  case None
  have n: "length (lm_heap l) \<notin> poolAddrs l" using assms(1) unfolding lim_inv_def by blast
  have "lim_inv l'" using assms None lim_inv_alloc [OF assms(1), of "NewSemaphore limit"] n
    unfolding lim_inv_def lm_Key_def alloc_def by auto
  then show ?thesis using assms None
    by (auto simp: lm_Key_def alloc_def quiet_def nth_append NewSemaphore_def less_Suc_eq)
qed

lemma cleanupLoop_subset: "cleanupLoop m c heap len xs = (kept, n) \<Longrightarrow> set kept \<subseteq> set xs"
  by (induction m c heap len xs arbitrary: kept n rule: cleanupLoop.induct) (auto split: if_splits prod.splits)

lemma makeRoomLoop_subset: "makeRoomLoop m heap xs n = (ok, ys, n') \<Longrightarrow> set ys \<subseteq> set xs \<and> (ok \<longrightarrow> int (length ys) < m)"
proof (induction m heap xs n rule: makeRoomLoop.induct)
  case (1 m heap xs n)
  show ?case
  proof (cases "int (length xs) < m")
    case True
    then show ?thesis using 1(2) by (simp add: makeRoomLoop.simps)
  next
    case False
    show ?thesis
    proof (cases "oldestUnused heap None xs")
      case None
      then show ?thesis using 1(2) False by (simp add: makeRoomLoop.simps)
    next
      case (Some b)
      then show ?thesis using 1(1) [OF False Some, of "fst b" "snd b"] 1(2) False
        by (cases b) (auto simp: makeRoomLoop.simps [of m heap xs])
    qed
  qed
qed

lemma quiet_idents: "lim_inv l \<Longrightarrow> set xs \<subseteq> set (lm_idents l) \<Longrightarrow> quiet l (l\<lparr>lm_idents := xs, identityEvictions := n\<rparr>)"
  unfolding quiet_def lim_inv_def by (auto simp: identAddrs_def)

lemma quiet_cleanup: "lim_inv l \<Longrightarrow> quiet l (cleanupIdentitiesLocked now l)"
  by (auto simp: cleanupIdentitiesLocked_def dest!: cleanupLoop_subset intro!: quiet_idents split: prod.splits)

lemma quiet_makeRoom:
  assumes "lim_inv l" "makeIdentityRoomLocked now l = (ok, l')" shows "quiet l l'"
proof -
  let ?l = "cleanupIdentitiesLocked now l"
  have q: "quiet l ?l" by (rule quiet_cleanup [OF assms(1)])
  obtain xs n where m: "makeRoomLoop (identityMaxEntries ?l) (lm_heap ?l) (lm_idents ?l) (identityEvictions ?l) = (ok, xs, n)"
    "l' = ?l\<lparr>lm_idents := xs, identityEvictions := n\<rparr>"
    using assms(2) by (auto simp: makeIdentityRoomLocked_def Let_def split: prod.splits)
  have "quiet ?l l'" unfolding m(2) using q makeRoomLoop_subset [OF m(1)] by (intro quiet_idents) (auto simp: quiet_def)
  with q show ?thesis by (rule quiet_trans)
qed

lemma quiet_Identity:
  assumes "lim_inv l" "lm_Identity pid cid ident now l = (a, l')"
  shows "quiet l l' \<and> a < length (lm_heap l')"
proof (cases "map_of (lm_idents l) (pid, cid, ident)")
  case (Some e)
  then have e: "ie_sem e < length (lm_heap l)" using assms(1) map_of_SomeD [OF Some] unfolding lim_inv_def identAddrs_def by force
  have "lim_inv (l\<lparr>lm_idents := map (\<lambda>(k, e'). if k = (pid, cid, ident) then (k, e'\<lparr>ie_lastUsed := now\<rparr>) else (k, e')) (lm_idents l)\<rparr>)"
    using assms(1) unfolding lim_inv_def by (auto simp: identAddrs_def)
  then show ?thesis using assms Some e by (auto simp: lm_Identity_def quiet_def)
next
  case None
  obtain room l1 where m: "makeIdentityRoomLocked now l = (room, l1)" by (metis surj_pair)
  have q1: "quiet l l1" by (rule quiet_makeRoom [OF assms(1) m])
  then have i1: "lim_inv l1" by (simp add: quiet_def)
  let ?l2 = "l1\<lparr>lm_heap := lm_heap l1 @ [NewSemaphore (identityLimit l1)]\<rparr>"
  have q2: "quiet l ?l2" using q1 quiet_alloc [OF i1] by (rule quiet_trans)
  have l': "a = length (lm_heap l1)" "l' = (if room then ?l2\<lparr>lm_idents := ((pid, cid, ident), \<lparr>ie_sem = a, ie_lastUsed = now\<rparr>) # lm_idents ?l2\<rparr> else ?l2)"
    using assms(2) None m by (auto simp: lm_Identity_def alloc_def split: if_splits)
  have "lim_inv l'" using lim_inv_alloc [OF i1, of "NewSemaphore (identityLimit l1)"] l' unfolding lim_inv_def by auto
  then show ?thesis using q2 l' by (auto simp: quiet_def)
qed

lemma withSem_frame [simp]:
  "lm_pools (withSem a f l) = lm_pools l" "lm_creds (withSem a f l) = lm_creds l" "poolLimit (withSem a f l) = poolLimit l"
  "credHotLimits (withSem a f l) = credHotLimits l" "length (lm_heap (withSem a f l)) = length (lm_heap l)"
  "poolAddrs (withSem a f l) = poolAddrs l" "credAddrs (withSem a f l) = credAddrs l" "globalLimit (withSem a f l) = globalLimit l"
  by (simp_all add: withSem_def)

lemma RecoverStep_used [simp]: "sm_used (RecoverStep t s) = sm_used s"
  by (simp add: RecoverStep_def Let_def)

lemma RecoverStep_at_target: "sm_capacity s = t \<Longrightarrow> RecoverStep t s = s"
  by (simp add: RecoverStep_def)

lemma quiet_recover_pools:
  "lim_inv l \<Longrightarrow> snd ` set ps \<subseteq> poolAddrs l \<Longrightarrow> c = poolLimit l \<Longrightarrow>
   quiet l (fold (\<lambda>(_, a). withSem a (RecoverStep c)) ps l) \<and> lm_creds (fold (\<lambda>(_, a). withSem a (RecoverStep c)) ps l) = lm_creds l"
proof (induction ps arbitrary: l)
  case (Cons p ps)
  then have "sm_capacity (lm_heap l ! snd p) = c" by (auto simp: lim_inv_def)
  then have q: "quiet l (withSem (snd p) (RecoverStep c) l)"
    using Cons.prems(1) by (intro quiet_withSem) (auto simp: RecoverStep_at_target)
  then have "lim_inv (withSem (snd p) (RecoverStep c) l)" by (simp add: quiet_def)
  from Cons.IH [OF this] Cons.prems q show ?case by (auto simp: case_prod_beta intro: quiet_trans)
qed (simp add: quiet_refl)

lemma quiet_recover_creds:
  "lim_inv l \<Longrightarrow> snd ` set cs \<subseteq> credAddrs l \<Longrightarrow> quiet l (fold (\<lambda>(k, a). withSem a (RecoverStep (t k))) cs l)"
proof (induction cs arbitrary: l)
  case (Cons p cs)
  then have "0 < snd p \<and> snd p \<notin> poolAddrs l" by (auto simp: lim_inv_def)
  then have q: "quiet l (withSem (snd p) (RecoverStep (t (fst p))) l)"
    using Cons.prems(1) by (intro quiet_withSem) auto
  then have "lim_inv (withSem (snd p) (RecoverStep (t (fst p))) l)" by (simp add: quiet_def)
  from Cons.IH [OF this] Cons.prems q show ?case by (auto simp: case_prod_beta intro: quiet_trans)
qed (simp add: quiet_refl)

lemma quiet_recoveryStep: "lim_inv l \<Longrightarrow> quiet l (recoveryStep now l)"
proof -
  assume "lim_inv l"
  let ?l1 = "cleanupIdentitiesLocked now l"
  have q1: "quiet l ?l1" by (rule quiet_cleanup) fact
  then have i1: "lim_inv ?l1" by (simp add: quiet_def)
  let ?l2 = "fold (\<lambda>(_, a). withSem a (RecoverStep (poolLimit ?l1))) (lm_pools ?l1) ?l1"
  have q2: "quiet ?l1 ?l2" "lm_creds ?l2 = lm_creds ?l1"
    using quiet_recover_pools [OF i1, of "lm_pools ?l1"] by (auto simp: poolAddrs_def)
  then have "quiet ?l2 (recoveryStep now l)" unfolding recoveryStep_def Let_def
    by (intro quiet_recover_creds) (auto simp: quiet_def credAddrs_def)
  then show ?thesis using q1 q2 quiet_trans by blast
qed

lemma quiet_admin:
  assumes "lim_inv l"
  shows "quiet l (snd (lm_Credential pid cid l))" "quiet l (setHotLimit pid cid c l)"
    "quiet l (storeCapacity pid cid c l)" "quiet l (lm_Shrink pid cid l)"
proof -
  obtain a l' where c: "lm_Credential pid cid l = (a, l')" by (metis surj_pair)
  note q = quiet_Credential [OF assms c]
  then have a: "0 < a \<and> a \<notin> poolAddrs l'" "lim_inv l'" by (auto simp: quiet_def lim_inv_def)
  show "quiet l (snd (lm_Credential pid cid l))" using q c by simp
  show "quiet l (setHotLimit pid cid c l)" using assms by (auto simp: setHotLimit_def quiet_def lim_inv_def poolAddrs_def credAddrs_def identAddrs_def)
  show "quiet l (storeCapacity pid cid c l)" "quiet l (lm_Shrink pid cid l)"
    using q a by (auto simp: storeCapacity_def lm_Shrink_def c sem_Shrink_def intro!: quiet_trans [of l l'] quiet_withSem)
qed

section \<open>Every token has a holder\<close>

abbreviation used_at :: "limiter \<Rightarrow> nat \<Rightarrow> int" where
  "used_at l a \<equiv> sm_used (lm_heap l ! a)"

abbreviation count_held :: "lmReq \<Rightarrow> nat \<Rightarrow> int" where
  "count_held r a \<equiv> int (count_list (rq_held r) a)"

text \<open>A request holds the process semaphore, its provider's pool and, on that path, its credential.\<close>

definition outer :: "limiter \<Rightarrow> lmReq \<Rightarrow> bool" where
  "outer l r \<longleftrightarrow> 0 \<in> set (rq_held r) \<and> (\<exists>p. map_of (lm_pools l) (rq_provider r) = Some p \<and> p \<in> set (rq_held r))
     \<and> (rq_credLayer r \<longrightarrow> (\<exists>c. map_of (lm_creds l) (rq_provider r, rq_cred r) = Some c \<and> c \<in> set (rq_held r)))"

text \<open>What a request holds, from where it stands and from its variables.\<close>

definition innerHeld :: "lmReq \<Rightarrow> nat list" where
  "innerHeld r = (if rq_credLayer r then [rq_credSem r] else []) @ [rq_pool r, 0]"

definition identHeld :: "lmReq \<Rightarrow> nat list" where
  "identHeld r = (if rq_identAcq r then [rq_identSem r] else []) @ innerHeld r"

definition heldFor :: "lmReq \<Rightarrow> nat list" where
  "heldFor r = (case rq_phase r of
     WaitGlobal \<Rightarrow> [] | WaitPool \<Rightarrow> [0] | WaitCred \<Rightarrow> [rq_pool r, 0] | ReserveRPM \<Rightarrow> [rq_credSem r, rq_pool r, 0]
   | FindIdent \<Rightarrow> innerHeld r | TryIdent a \<Rightarrow> innerHeld r | FindKey \<Rightarrow> identHeld r | TryKey a \<Rightarrow> identHeld r
   | Running \<Rightarrow> if rq_enabled r then (if rq_keyAcq r then [rq_keySem r] else []) @ identHeld r else []
   | Refused e \<Rightarrow> [] | Released \<Rightarrow> [])"

definition keyed :: "limiter \<Rightarrow> lmReq \<Rightarrow> bool" where
  "keyed l r \<longleftrightarrow> map_of (lm_pools l) (rq_provider r) = Some (rq_pool r)
     \<and> (rq_credLayer r \<and> rq_phase r \<noteq> WaitCred \<longrightarrow> map_of (lm_creds l) (rq_provider r, rq_cred r) = Some (rq_credSem r))"

definition req_inv :: "limiter \<Rightarrow> lmReq \<Rightarrow> bool" where
  "req_inv l r \<longleftrightarrow> (\<forall>a \<in> set (rq_held r). a < length (lm_heap l)) \<and> rq_held r = heldFor r \<and> (case rq_phase r of
     WaitGlobal \<Rightarrow> rq_enabled r \<and> \<not> rq_keyAcq r | WaitPool \<Rightarrow> rq_enabled r \<and> \<not> rq_keyAcq r
   | WaitCred \<Rightarrow> rq_enabled r \<and> \<not> rq_keyAcq r \<and> rq_credLayer r \<and> keyed l r
   | ReserveRPM \<Rightarrow> rq_enabled r \<and> \<not> rq_keyAcq r \<and> rq_credLayer r \<and> keyed l r
   | FindIdent \<Rightarrow> rq_enabled r \<and> \<not> rq_keyAcq r \<and> keyed l r | TryIdent a \<Rightarrow> rq_enabled r \<and> \<not> rq_keyAcq r \<and> keyed l r \<and> a < length (lm_heap l)
   | FindKey \<Rightarrow> rq_enabled r \<and> keyed l r | TryKey a \<Rightarrow> rq_enabled r \<and> keyed l r \<and> a < length (lm_heap l)
   | Running \<Rightarrow> rq_enabled r \<longrightarrow> keyed l r | _ \<Rightarrow> True)"

definition caps_ok :: "limiter \<Rightarrow> bool" where
  "caps_ok l \<longleftrightarrow> used_at l 0 \<le> max 0 (globalLimit l) \<and> (\<forall>a \<in> poolAddrs l. used_at l a \<le> max 0 (poolLimit l))"

definition ls_inv :: "int \<Rightarrow> int \<Rightarrow> lmState \<Rightarrow> bool" where
  "ls_inv G P s \<longleftrightarrow> globalLimit (ls_lim s) = G \<and> poolLimit (ls_lim s) = P \<and> lim_inv (ls_lim s) \<and> caps_ok (ls_lim s)
     \<and> (\<forall>a < length (lm_heap (ls_lim s)). used_at (ls_lim s) a = (\<Sum>r\<leftarrow>ls_reqs s. count_held r a))
     \<and> (\<forall>r \<in> set (ls_reqs s). req_inv (ls_lim s) r)"

text \<open>The part of the state outside one request is untouched.\<close>

definition moved :: "limiter \<Rightarrow> lmReq \<Rightarrow> limiter \<Rightarrow> lmReq \<Rightarrow> bool" where
  "moved l r l' r' \<longleftrightarrow> lim_inv l' \<and> caps_ok l' \<and> req_inv l' r' \<and> length (lm_heap l) \<le> length (lm_heap l')
     \<and> globalLimit l' = globalLimit l \<and> poolLimit l' = poolLimit l
     \<and> (\<forall>k a. map_of (lm_pools l) k = Some a \<longrightarrow> map_of (lm_pools l') k = Some a)
     \<and> (\<forall>k a. map_of (lm_creds l) k = Some a \<longrightarrow> map_of (lm_creds l') k = Some a)
     \<and> (\<forall>a < length (lm_heap l'). used_at l' a - count_held r' a =
          (if a < length (lm_heap l) then used_at l a - count_held r a else 0))"

lemma req_inv_mono:
  assumes "req_inv l r" "length (lm_heap l) \<le> length (lm_heap l')"
    and "\<forall>k a. map_of (lm_pools l) k = Some a \<longrightarrow> map_of (lm_pools l') k = Some a"
    and "\<forall>k a. map_of (lm_creds l) k = Some a \<longrightarrow> map_of (lm_creds l') k = Some a"
  shows "req_inv l' r"
proof -
  have "keyed l r \<Longrightarrow> keyed l' r" using assms(3,4) by (simp add: keyed_def)
  moreover have "\<forall>a \<in> set (rq_held r). a < length (lm_heap l')" using assms(1,2) unfolding req_inv_def by (meson order_less_le_trans)
  ultimately show ?thesis using assms(1,2) unfolding req_inv_def by (simp split: lmPhase.splits)
qed

lemma req_inv_quiet: "req_inv l r \<Longrightarrow> quiet l l' \<Longrightarrow> req_inv l' r"
  using req_inv_mono [of l r l'] by (auto simp: quiet_def)

text \<open>The bounds of the addresses apart, a request is described by its fields.\<close>

lemma req_inv_beyond: "req_inv l r \<Longrightarrow> length (lm_heap l) \<le> a \<Longrightarrow> count_list (rq_held r) a = 0"
  unfolding req_inv_def count_list_0_iff by (meson leD)

lemma req_inv_below: "req_inv l r \<Longrightarrow> a \<in> set (rq_held r) \<Longrightarrow> a < length (lm_heap l)"
  by (simp add: req_inv_def)

lemma sum_list_update_int:
  "i < length xs \<Longrightarrow> sum_list (map f (xs[i := y])) = sum_list (map f xs) - f (xs ! i) + (f y :: int)"
  by (induction xs arbitrary: i) (auto split: nat.splits)

lemma no_holder: "\<forall>r \<in> set rs. req_inv l r \<Longrightarrow> length (lm_heap l) \<le> a \<Longrightarrow> (\<Sum>r\<leftarrow>rs. count_held r a) = 0"
  by (induction rs) (auto simp: req_inv_beyond)

lemma quiet_caps:
  assumes q: "quiet l l'" and c: "caps_ok l" and i: "lim_inv l" shows "caps_ok l'"
  unfolding caps_ok_def
proof (intro conjI ballI)
  show "used_at l' 0 \<le> max 0 (globalLimit l')" using q c by (auto simp: quiet_def caps_ok_def)
  fix a assume a: "a \<in> poolAddrs l'"
  show "used_at l' a \<le> max 0 (poolLimit l')"
  proof (cases "a \<in> poolAddrs l")
    case True
    then show ?thesis using q c i unfolding quiet_def caps_ok_def lim_inv_def by metis
  next
    case False
    then have "length (lm_heap l) \<le> a" "a < length (lm_heap l')" using q a by (auto simp: quiet_def lim_inv_def)
    then show ?thesis using q by (auto simp: quiet_def)
  qed
qed

lemma moved_step:
  assumes "ls_inv G P s" "i < length (ls_reqs s)" "f (ls_lim s) (ls_reqs s ! i) = (l', r')" "moved (ls_lim s) (ls_reqs s ! i) l' r'"
  shows "ls_inv G P (onReq i f s)"
proof -
  let ?l = "ls_lim s" and ?r = "ls_reqs s ! i"
  have rs: "\<forall>r \<in> set (ls_reqs s). req_inv ?l r" using assms(1) by (simp add: ls_inv_def)
  have "\<forall>r \<in> set ((ls_reqs s)[i := r']). req_inv l' r"
    using rs assms(4) req_inv_mono [of ?l _ l'] set_update_subset_insert [of "ls_reqs s" i r'] unfolding moved_def by blast
  moreover have "used_at l' a = (\<Sum>r\<leftarrow>(ls_reqs s)[i := r']. count_held r a)" if a: "a < length (lm_heap l')" for a
  proof (cases "a < length (lm_heap ?l)")
    case True
    have "used_at l' a - count_held r' a = used_at ?l a - count_held ?r a" using assms(4) a True unfolding moved_def by simp
    moreover have "used_at ?l a = (\<Sum>r\<leftarrow>ls_reqs s. count_held r a)" using assms(1) True by (simp add: ls_inv_def)
    ultimately show ?thesis using sum_list_update_int [OF assms(2), of "\<lambda>r. count_held r a" r'] by linarith
  next
    case False
    then have "(\<Sum>r\<leftarrow>ls_reqs s. count_held r a) = 0" "count_held ?r a = 0"
      using no_holder [OF rs, of a] rs assms(2) req_inv_beyond [of ?l ?r a] by auto
    moreover have "used_at l' a - count_held r' a = 0" using assms(4) a False unfolding moved_def by simp
    ultimately show ?thesis using sum_list_update_int [OF assms(2), of "\<lambda>r. count_held r a" r'] by linarith
  qed
  ultimately show ?thesis using assms unfolding onReq_def by (simp add: ls_inv_def moved_def)
qed

lemma quiet_step:
  assumes "ls_inv G P s" "quiet (ls_lim s) l'"
  shows "ls_inv G P (s\<lparr>ls_lim := l'\<rparr>)"
proof -
  let ?l = "ls_lim s"
  have lims: "globalLimit l' = globalLimit ?l" "poolLimit l' = poolLimit ?l" using assms(2) by (auto simp: quiet_def)
  have q: "lim_inv l'" "length (lm_heap ?l) \<le> length (lm_heap l')"
    "\<forall>k a. map_of (lm_pools ?l) k = Some a \<longrightarrow> map_of (lm_pools l') k = Some a"
    "\<forall>k a. map_of (lm_creds ?l) k = Some a \<longrightarrow> map_of (lm_creds l') k = Some a" using assms(2) by (auto simp: quiet_def)
  have rs: "\<forall>r \<in> set (ls_reqs s). req_inv ?l r" using assms(1) by (simp add: ls_inv_def)
  have "used_at l' a = (\<Sum>r\<leftarrow>ls_reqs s. count_held r a)" if "a < length (lm_heap l')" for a
    using assms no_holder [OF rs, of a] that unfolding ls_inv_def quiet_def by (cases "a < length (lm_heap ?l)") auto
  then show ?thesis using assms q quiet_caps [OF assms(2)] req_inv_mono [OF _ q(2-4)] lims by (auto simp: ls_inv_def)
qed

lemma moved_quiet:
  assumes "quiet l l'" "caps_ok l" "req_inv l r" "rq_held r' = rq_held r" "req_inv l' r'" "lim_inv l"
  shows "moved l r l' r'"
proof -
  have "used_at l' a - count_held r' a = (if a < length (lm_heap l) then used_at l a - count_held r a else 0)"
    if "a < length (lm_heap l')" for a
  proof (cases "a < length (lm_heap l)")
    case False
    then have "count_held r a = 0" using req_inv_beyond [OF assms(3), of a] by simp
    then show ?thesis using assms(1,4) that False by (auto simp: quiet_def)
  qed (use assms in \<open>auto simp: quiet_def\<close>)
  then show ?thesis using assms quiet_caps [OF assms(1)] by (auto simp: moved_def quiet_def)
qed

lemma moved_trans_quiet:
  assumes "quiet l l1" "req_inv l r" "moved l1 r l' r'" shows "moved l r l' r'"
proof -
  have "used_at l' a - count_held r' a = (if a < length (lm_heap l) then used_at l a - count_held r a else 0)"
    if a: "a < length (lm_heap l')" for a
  proof (cases "a < length (lm_heap l)")
    case False
    then have "count_held r a = 0" using req_inv_beyond [OF assms(2), of a] by simp
    then show ?thesis using assms(1,3) a False unfolding quiet_def moved_def by (cases "a < length (lm_heap l1)") auto
  next
    case True
    then show ?thesis using assms(1,3) a unfolding quiet_def moved_def by auto
  qed
  then show ?thesis using assms unfolding moved_def quiet_def by auto
qed

lemma moved_refl: "lim_inv l \<Longrightarrow> caps_ok l \<Longrightarrow> req_inv l r \<Longrightarrow> moved l r l r"
  by (rule moved_quiet) (auto intro: quiet_refl)

text \<open>Taking a token: one more use, one more holder.\<close>

lemma moved_take:
  assumes "lim_inv l" "caps_ok l" "a < length (lm_heap l)" "req_inv l r"
    and "tryTake a next l r = (l', r')" "\<And>l'. lm_pools l' = lm_pools l \<Longrightarrow> lm_creds l' = lm_creds l \<Longrightarrow> length (lm_heap l') = length (lm_heap l) \<Longrightarrow>
      req_inv l' (r\<lparr>rq_phase := next, rq_held := a # rq_held r\<rparr>)"
  shows "moved l r l' r'"
proof (cases "sm_capacity (lm_heap l ! a) \<le> sm_used (lm_heap l ! a)")
  case True
  then have "l' = l" "r' = r" using assms(5) by (auto simp: tryTake_def sem_TryAcquire_def)
  then show ?thesis using moved_refl [OF assms(1,2,4)] by simp
next
  case False
  let ?s = "(lm_heap l ! a)\<lparr>sm_used := sm_used (lm_heap l ! a) + 1\<rparr>"
  have l': "l' = withSem a (\<lambda>_. ?s) l" "r' = r\<lparr>rq_phase := next, rq_held := a # rq_held r\<rparr>"
    using assms(5) False by (auto simp: tryTake_def sem_TryAcquire_def)
  have heap: "lm_heap l' = (lm_heap l)[a := ?s]" by (simp add: l' withSem_def)
  have cap: "sm_capacity (lm_heap l' ! b) = sm_capacity (lm_heap l ! b)" for b
    using assms(3) by (cases "b = a") (auto simp: heap)
  have inv: "lim_inv l'" using assms(1) cap unfolding lim_inv_def by (simp add: l' withSem_def identAddrs_def)
  have use: "used_at l' b = used_at l b + (if b = a then 1 else 0)" for b
    using assms(3) by (cases "b = a") (auto simp: heap)
  have "caps_ok l'" unfolding caps_ok_def
  proof (intro conjI ballI)
    show "used_at l' 0 \<le> max 0 (globalLimit l')" using use [of 0] assms(1,2) False by (auto simp: caps_ok_def lim_inv_def l')
    fix b assume "b \<in> poolAddrs l'"
    then have "b \<in> poolAddrs l" by (simp add: l')
    then have "sm_capacity (lm_heap l ! b) = poolLimit l" "used_at l b \<le> max 0 (poolLimit l)"
      using assms(1,2) by (auto simp: lim_inv_def caps_ok_def)
    then show "used_at l' b \<le> max 0 (poolLimit l')" using use [of b] False by (auto simp: l' split: if_splits)
  qed
  moreover have "req_inv l' r'" unfolding l'(2) by (rule assms(6)) (simp_all add: l')
  ultimately show ?thesis using inv use by (auto simp: moved_def l'(2)) (simp_all add: l'(1))
qed

lemma fold_release:
  "\<forall>b \<in> set hs. b < length (lm_heap l) \<Longrightarrow> \<forall>b < length (lm_heap l). int (count_list hs b) \<le> used_at l b \<Longrightarrow>
   length (lm_heap (fold (\<lambda>a. withSem a sem_Release) hs l)) = length (lm_heap l)
   \<and> (\<forall>b < length (lm_heap l). used_at (fold (\<lambda>a. withSem a sem_Release) hs l) b = used_at l b - int (count_list hs b)
        \<and> sm_capacity (lm_heap (fold (\<lambda>a. withSem a sem_Release) hs l) ! b) = sm_capacity (lm_heap l ! b))
   \<and> fold (\<lambda>a. withSem a sem_Release) hs l = l\<lparr>lm_heap := lm_heap (fold (\<lambda>a. withSem a sem_Release) hs l)\<rparr>"
proof (induction hs arbitrary: l)
  case (Cons a hs)
  let ?l = "withSem a sem_Release l"
  have a: "a < length (lm_heap l)" using Cons.prems(1) by simp
  moreover have "1 \<le> used_at l a" using spec [OF Cons.prems(2), of a] a by simp
  ultimately have a: "a < length (lm_heap l)" "1 \<le> used_at l a" by auto
  have use: "used_at ?l b = used_at l b - (if b = a then 1 else 0) \<and> sm_capacity (lm_heap ?l ! b) = sm_capacity (lm_heap l ! b)"
    if "b < length (lm_heap l)" for b
    using a that by (cases "b = a") (auto simp: withSem_def sem_Release_def)
  have "int (count_list hs b) \<le> used_at ?l b" if "b < length (lm_heap l)" for b
    using Cons.prems(2) use [OF that] that by (auto split: if_splits)
  then have IH: "length (lm_heap (fold (\<lambda>a. withSem a sem_Release) hs ?l)) = length (lm_heap l)"
    "\<forall>b < length (lm_heap l). used_at (fold (\<lambda>a. withSem a sem_Release) hs ?l) b = used_at ?l b - int (count_list hs b)
        \<and> sm_capacity (lm_heap (fold (\<lambda>a. withSem a sem_Release) hs ?l) ! b) = sm_capacity (lm_heap ?l ! b)"
    "fold (\<lambda>a. withSem a sem_Release) hs ?l = ?l\<lparr>lm_heap := lm_heap (fold (\<lambda>a. withSem a sem_Release) hs ?l)\<rparr>"
    using Cons.IH [of ?l] Cons.prems(1) by simp_all
  have "?l\<lparr>lm_heap := h\<rparr> = l\<lparr>lm_heap := h\<rparr>" for h by (simp add: withSem_def)
  then show ?case using IH use by auto
qed simp

lemma fold_remove1_self: "fold remove1 xs xs = []"
  by (induction xs) auto

lemma moved_release:
  assumes "lim_inv l" "caps_ok l" "req_inv l r" "\<forall>a < length (lm_heap l). count_held r a \<le> used_at l a"
    and "giveBack sems next l r = (l', r')" "sems = heldFor r" "next = Released \<or> (\<exists>e. next = Refused e)"
  shows "moved l r l' r'"
proof -
  have sems: "sems = rq_held r" using assms(3,6) by (simp add: req_inv_def)
  have l': "l' = fold (\<lambda>a. withSem a sem_Release) (rq_held r) l" "r' = r\<lparr>rq_phase := next, rq_held := []\<rparr>"
    using assms(5) by (auto simp: giveBack_def sems fold_remove1_self)
  have f: "length (lm_heap l') = length (lm_heap l)" "l' = l\<lparr>lm_heap := lm_heap l'\<rparr>"
    "\<forall>b < length (lm_heap l). used_at l' b = used_at l b - count_held r b \<and> sm_capacity (lm_heap l' ! b) = sm_capacity (lm_heap l ! b)"
    using fold_release [of "rq_held r" l] assms(4) req_inv_below [OF assms(3)] unfolding l'(1) by auto
  have frame: "poolAddrs l' = poolAddrs l" "credAddrs l' = credAddrs l" "identAddrs l' = identAddrs l" "lm_keys l' = lm_keys l"
    "poolLimit l' = poolLimit l" "globalLimit l' = globalLimit l" "lm_pools l' = lm_pools l" "lm_creds l' = lm_creds l"
    using arg_cong [OF f(2), of poolAddrs] arg_cong [OF f(2), of credAddrs] arg_cong [OF f(2), of identAddrs] arg_cong [OF f(2), of lm_keys]
      arg_cong [OF f(2), of poolLimit] arg_cong [OF f(2), of globalLimit] arg_cong [OF f(2), of lm_pools] arg_cong [OF f(2), of lm_creds] by simp_all
  have "lim_inv l'" using assms(1) f(1,3) unfolding lim_inv_def frame by auto
  moreover have "caps_ok l'" using assms(1,2) f(3) unfolding caps_ok_def frame lim_inv_def by fastforce
  moreover have "req_inv l' r'" using assms(7) by (auto simp: l'(2) req_inv_def heldFor_def)
  ultimately show ?thesis using f frame by (simp add: moved_def l'(2))
qed

lemma moved_same_held: "moved l r1 l' r' \<Longrightarrow> rq_held r1 = rq_held r \<Longrightarrow> moved l r l' r'"
  by (simp add: moved_def)

text \<open>The soft layers: the request goes on whether or not it got the token, and remembers which.\<close>

lemma moved_softTake:
  assumes "lim_inv l" "caps_ok l" "a < length (lm_heap l)" "req_inv l r"
    and "\<And>ok. rq_held (seal ok r) = rq_held r" "req_inv l (seal True r)" "req_inv l ((seal False r)\<lparr>rq_phase := next\<rparr>)"
    and "\<And>l'. lm_pools l' = lm_pools l \<Longrightarrow> lm_creds l' = lm_creds l \<Longrightarrow> length (lm_heap l') = length (lm_heap l) \<Longrightarrow>
      req_inv l' ((seal True r)\<lparr>rq_phase := next, rq_held := a # rq_held r\<rparr>)"
    and "softTake a seal next l r = (l', r')"
  shows "moved l r l' r'"
proof (cases "fst (sem_TryAcquire (lm_heap l ! a))")
  case True
  then have "tryTake a next l (seal True r) = (l', r')" using assms(9) by (simp add: softTake_def)
  then have "moved l (seal True r) l' r'" using assms(1-3,5,6,8) by (intro moved_take [of l a "seal True r" "next"]) auto
  then show ?thesis by (rule moved_same_held) (rule assms(5))
next
  case False
  then show ?thesis using assms(1,2,4,5,7,9) quiet_refl [OF assms(1)] by (intro moved_quiet) (auto simp: softTake_def)
qed

lemma moved_advance:
  assumes inv: "lim_inv l" "caps_ok l" "req_inv l r" and cnt: "\<forall>a < length (lm_heap l). count_held r a \<le> used_at l a"
    and adv: "advance now rpmOk (rq_phase r) l r = (l', r')"
  shows "moved l r l' r'"
proof (cases "rq_phase r")
  case WaitGlobal
  then show ?thesis using adv inv
    by (intro moved_take [of l 0 r WaitPool]) (auto simp: lim_inv_def req_inv_def heldFor_def)
next
  case WaitPool
  obtain a l1 where p: "lm_Pool (rq_provider r) l = (a, l1)" by (metis surj_pair)
  note q = quiet_Pool [OF inv(1) p]
  let ?n = "if rq_credLayer r then WaitCred else FindIdent" and ?r = "r\<lparr>rq_pool := a\<rparr>"
  have r1: "req_inv l1 r" using req_inv_quiet [OF inv(3)] q by blast
  have "moved l1 ?r l' r'"
  proof (rule moved_take [of l1 a ?r ?n])
    show "tryTake a ?n l1 ?r = (l', r')" using adv WaitPool p by simp
    show "req_inv l1 ?r" using r1 WaitPool by (auto simp: req_inv_def heldFor_def)
    show "req_inv l2 (?r\<lparr>rq_phase := ?n, rq_held := a # rq_held ?r\<rparr>)"
      if "lm_pools l2 = lm_pools l1" "lm_creds l2 = lm_creds l1" "length (lm_heap l2) = length (lm_heap l1)" for l2
      using WaitPool that q r1 by (auto simp: req_inv_def heldFor_def innerHeld_def keyed_def)
  qed (use q quiet_caps [OF _ inv(2,1)] in \<open>auto simp: quiet_def\<close>)
  then have "moved l1 r l' r'" by (rule moved_same_held) simp
  then show ?thesis using q inv(3) moved_trans_quiet by blast
next
  case WaitCred
  obtain a l1 where p: "lm_Credential (rq_provider r) (rq_cred r) l = (a, l1)" by (metis surj_pair)
  note q = quiet_Credential [OF inv(1) p]
  then have a: "a < length (lm_heap l1)" by (auto simp: quiet_def lim_inv_def)
  have r1: "req_inv l1 r" using req_inv_quiet [OF inv(3)] q by blast
  let ?r = "r\<lparr>rq_credSem := a\<rparr>"
  have "moved l1 ?r l' r'"
  proof (rule moved_take [of l1 a ?r ReserveRPM])
    show "tryTake a ReserveRPM l1 ?r = (l', r')" using adv WaitCred p by simp
    show "req_inv l1 ?r" using r1 WaitCred by (auto simp: req_inv_def heldFor_def keyed_def)
    show "req_inv l2 (?r\<lparr>rq_phase := ReserveRPM, rq_held := a # rq_held ?r\<rparr>)"
      if "lm_pools l2 = lm_pools l1" "lm_creds l2 = lm_creds l1" "length (lm_heap l2) = length (lm_heap l1)" for l2
      using WaitCred that a r1 q by (auto simp: req_inv_def heldFor_def keyed_def)
  qed (use q a quiet_caps [OF _ inv(2,1)] in \<open>auto simp: quiet_def\<close>)
  then have "moved l1 r l' r'" by (rule moved_same_held) simp
  then show ?thesis using q inv(3) moved_trans_quiet by blast
next
  case ReserveRPM
  show ?thesis
  proof (cases rpmOk)
    case True
    then show ?thesis using adv ReserveRPM inv quiet_refl [OF inv(1)]
      by (intro moved_quiet) (auto simp: req_inv_def heldFor_def innerHeld_def keyed_def)
  next
    case False
    then show ?thesis using adv ReserveRPM by (intro moved_release [OF inv cnt]) (auto simp: heldFor_def)
  qed
next
  case FindIdent
  obtain a l1 where p: "lm_Identity (rq_provider r) (rq_cred r) (rq_ident r) now l = (a, l1)" by (metis surj_pair)
  note q = quiet_Identity [OF inv(1) p]
  then have "req_inv l1 r" using req_inv_quiet [OF inv(3)] by blast
  then show ?thesis using adv FindIdent p q inv by (intro moved_quiet) (auto simp: req_inv_def heldFor_def innerHeld_def keyed_def)
next
  case (TryIdent a)
  then show ?thesis using adv inv
    by (intro moved_softTake [OF inv(1,2) _ inv(3), where a = a])
      (auto simp: req_inv_def heldFor_def innerHeld_def identHeld_def keyed_def split: if_splits)
next
  case FindKey
  obtain a l1 where p: "lm_Key (rq_keyID r) (rq_keyLimit r) l = (a, l1)" by (metis surj_pair)
  note q = quiet_Key [OF inv(1) p]
  then have "req_inv l1 r" using req_inv_quiet [OF inv(3)] by blast
  then show ?thesis using adv FindKey p q inv by (intro moved_quiet) (auto simp: req_inv_def heldFor_def identHeld_def innerHeld_def keyed_def)
next
  case (TryKey a)
  then show ?thesis using adv inv
    by (intro moved_softTake [OF inv(1,2) _ inv(3), where a = a])
      (auto simp: req_inv_def heldFor_def innerHeld_def identHeld_def keyed_def split: if_splits)
qed (use adv inv quiet_refl [OF inv(1)] in \<open>auto intro!: moved_quiet\<close>)

lemma count_le_total:
  assumes "ls_inv G P s" "i < length (ls_reqs s)" "a < length (lm_heap (ls_lim s))"
  shows "count_held (ls_reqs s ! i) a \<le> used_at (ls_lim s) a"
proof -
  have "count_held (ls_reqs s ! i) a \<le> (\<Sum>r\<leftarrow>ls_reqs s. count_held r a)"
    using assms(2) by (intro member_le_sum_list) auto
  then show ?thesis using assms by (simp add: ls_inv_def)
qed

lemma ls_inv_onReq:
  assumes "ls_inv G P s" "\<And>l r l' r'. lim_inv l \<Longrightarrow> caps_ok l \<Longrightarrow> req_inv l r \<Longrightarrow>
      \<forall>a < length (lm_heap l). count_held r a \<le> used_at l a \<Longrightarrow> f l r = (l', r') \<Longrightarrow> moved l r l' r'"
  shows "ls_inv G P (onReq i f s)"
proof (cases "i < length (ls_reqs s)")
  case True
  obtain l' r' where f: "f (ls_lim s) (ls_reqs s ! i) = (l', r')" by (metis surj_pair)
  have "moved (ls_lim s) (ls_reqs s ! i) l' r'"
    using assms(1) True count_le_total [OF assms(1) True] f by (intro assms(2)) (auto simp: ls_inv_def)
  then show ?thesis using moved_step [where f = f, OF assms(1) True f] by simp
qed (use assms(1) in \<open>simp add: onReq_def\<close>)

lemma moved_waitFails:
  assumes "lim_inv l" "caps_ok l" "req_inv l r" "\<forall>a < length (lm_heap l). count_held r a \<le> used_at l a"
    and "waitFails (rq_phase r) l r = (l', r')"
  shows "moved l r l' r'"
  using assms(5) moved_refl [OF assms(1-3)]
  by (cases "rq_phase r") (auto simp: heldFor_def intro!: moved_release [OF assms(1-4)])

lemma moved_releaseFunc:
  assumes "lim_inv l" "caps_ok l" "req_inv l r" "\<forall>a < length (lm_heap l). count_held r a \<le> used_at l a"
    and "releaseFunc l r = (l', r')"
  shows "moved l r l' r'"
proof (cases "rq_phase r = Running")
  case True
  let ?sems = "if rq_enabled r then (if rq_keyAcq r then [rq_keySem r] else []) @ (if rq_identAcq r then [rq_identSem r] else []) @
    (if rq_credLayer r then [rq_credSem r] else []) @ [rq_pool r, 0] else []"
  have "giveBack ?sems Released l r = (l', r')" using assms(5) True by (simp add: releaseFunc_def split: if_splits)
  from moved_release [OF assms(1-4) this] show ?thesis using True by (simp add: heldFor_def identHeld_def innerHeld_def)
qed (use assms(5) moved_refl [OF assms(1-3)] in \<open>simp add: releaseFunc_def\<close>)

lemma ls_inv_step: "ls_inv G P s \<Longrightarrow> ls_inv G P (lmStep ev s)"
proof (cases ev)
  case (LmStart enabled credLayer pid cid ident keyID keyLimit)
  assume "ls_inv G P s"
  then show ?thesis using LmStart by (auto simp: ls_inv_def req_inv_def heldFor_def)
qed (auto intro!: ls_inv_onReq quiet_step quiet_admin quiet_recoveryStep intro: moved_advance moved_waitFails moved_releaseFunc simp: ls_inv_def [THEN iffD1])

lemma ls_inv_init: "ls_inv g p (lmInit (NewWithLimits envMax envTTL g p c i))"
  by (auto simp: ls_inv_def lmInit_def NewWithLimits_def lim_inv_def caps_ok_def NewSemaphore_def poolAddrs_def credAddrs_def identAddrs_def)

lemma ls_inv_run: "ls_inv G P s \<Longrightarrow> ls_inv G P (lmRun es s)"
  unfolding lmRun_def by (induction es arbitrary: s) (auto intro: ls_inv_step)

text \<open>
C6.
  Under any interleaving of requests, waits that fail, releases, administrative changes and
recovery ticks, the counter of every semaphore is exactly the number of times the live requests hold
it. So no token leaks on any error path, none is given back twice, and when every request has ended
all counters are zero.
\<close>

theorem limiter_tokens_exact:
  assumes "s = lmRun es (lmInit (NewWithLimits envMax envTTL g p c i))" "a < length (lm_heap (ls_lim s))"
  shows "used_at (ls_lim s) a = (\<Sum>r\<leftarrow>ls_reqs s. count_held r a)
    \<and> ((\<forall>r \<in> set (ls_reqs s). rq_phase r = Released \<or> (\<exists>e. rq_phase r = Refused e)) \<longrightarrow> used_at (ls_lim s) a = 0)"
proof -
  have inv: "ls_inv g p s" unfolding assms(1) by (rule ls_inv_run [OF ls_inv_init])
  then have *: "used_at (ls_lim s) a = (\<Sum>r\<leftarrow>ls_reqs s. count_held r a)" using assms(2) by (simp add: ls_inv_def)
  have "(\<Sum>r\<leftarrow>ls_reqs s. count_held r a) = 0" if "\<forall>r \<in> set (ls_reqs s). rq_phase r = Released \<or> (\<exists>e. rq_phase r = Refused e)"
  proof -
    have "count_held r a = 0" if "r \<in> set (ls_reqs s)" for r
      using that inv \<open>\<forall>r \<in> set (ls_reqs s). _\<close> unfolding ls_inv_def req_inv_def heldFor_def by fastforce
    then have "map (\<lambda>r. count_held r a) (ls_reqs s) = map (\<lambda>_. 0) (ls_reqs s)" by simp
    then show ?thesis by (simp only: sum_list_0)
  qed
  with * show ?thesis by simp
qed

lemma count_list_pos: "x \<in> set xs \<Longrightarrow> 1 \<le> int (count_list xs x)"
  by (induction xs) auto

text \<open>
C29.
  The hard caps hold at every moment: the requests that hold the process semaphore are at most the
global limit, those that hold a provider's pool semaphore at most the pool limit, and every request
that the limiter let run while its switch was on holds the process semaphore, the pool semaphore of
its provider and, when it was acquired with the credential layer, that of its credential.
\<close>

theorem limiter_caps_respected:
  assumes "s = lmRun es (lmInit (NewWithLimits envMax envTTL g p c i))" "0 \<le> g" "0 \<le> p"
  shows "int (length (filter (\<lambda>r. 0 \<in> set (rq_held r)) (ls_reqs s))) \<le> g
    \<and> (\<forall>pid a. map_of (lm_pools (ls_lim s)) pid = Some a \<longrightarrow>
         int (length (filter (\<lambda>r. a \<in> set (rq_held r)) (ls_reqs s))) \<le> p)
    \<and> (\<forall>r \<in> set (ls_reqs s). rq_phase r = Running \<longrightarrow> rq_enabled r \<longrightarrow> outer (ls_lim s) r)"
proof -
  have inv: "ls_inv g p s" unfolding assms(1) by (rule ls_inv_run [OF ls_inv_init])
  have lim: "globalLimit (ls_lim s) = g" "poolLimit (ls_lim s) = p" using inv by (simp_all add: ls_inv_def)
  have holders: "int (length (filter (\<lambda>r. a \<in> set (rq_held r)) rs)) \<le> (\<Sum>r\<leftarrow>rs. count_held r a)" for a rs
  proof (induction rs)
    case (Cons r rs)
    show ?case
    proof (cases "a \<in> set (rq_held r)")
      case True
      from count_list_pos [OF True] Cons show ?thesis by simp
    qed (use Cons in simp)
  qed simp
  have "int (length (filter (\<lambda>r. a \<in> set (rq_held r)) (ls_reqs s))) \<le> used_at (ls_lim s) a" if "a < length (lm_heap (ls_lim s))" for a
    using inv that holders [of a "ls_reqs s"] by (simp add: ls_inv_def)
  moreover have "0 < length (lm_heap (ls_lim s))" "used_at (ls_lim s) 0 \<le> g" using inv assms(2) lim by (auto simp: ls_inv_def lim_inv_def caps_ok_def)
  moreover have "a < length (lm_heap (ls_lim s)) \<and> used_at (ls_lim s) a \<le> p" if "map_of (lm_pools (ls_lim s)) pid = Some a" for pid a
    using inv assms(3) lim poolAddr_of [OF that] unfolding ls_inv_def lim_inv_def caps_ok_def by auto
  moreover have "\<forall>r \<in> set (ls_reqs s). rq_phase r = Running \<longrightarrow> rq_enabled r \<longrightarrow> outer (ls_lim s) r"
    using inv by (auto simp: ls_inv_def req_inv_def heldFor_def identHeld_def innerHeld_def keyed_def outer_def)
  ultimately show ?thesis by (meson order_trans)
qed

lemmas lm_eval = lmRun_def lmInit_def NewWithLimits_def onReq_def tryTake_def softTake_def sem_TryAcquire_def
  NewSemaphore_def withSem_def lm_Pool_def alloc_def lm_Credential_def lm_Identity_def makeIdentityRoomLocked_def
  cleanupIdentitiesLocked_def makeRoomLoop.simps envPositiveInt_def envPositiveDuration_def releaseFunc_def giveBack_def
  sem_Release_def Let_def

definition lmDemo :: lmState where
  "lmDemo = lmRun [LmStart True False 1 2 ''u'' 0 0, LmAdvance 0 0 True, LmAdvance 0 0 True, LmAdvance 0 0 True, LmAdvance 0 0 True,
     LmStart True False 1 2 ''u'' 0 0, LmWaitFails 1, LmRelease 0] (lmInit (NewWithLimits None None 1 5 5 5))"

theorem limiter_tokens_exact_witness: "used_at (ls_lim lmDemo) 0 = 0"
proof -
  have "0 < length (lm_heap (ls_lim lmDemo))" "\<forall>r \<in> set (ls_reqs lmDemo). rq_phase r = Released \<or> (\<exists>e. rq_phase r = Refused e)"
    by (simp_all add: lmDemo_def lm_eval)
  then show ?thesis using limiter_tokens_exact [OF lmDemo_def, of 0] by blast
qed

text \<open>One request runs with every layer, a second waits for the process semaphore.\<close>

definition lmBusy :: lmState where
  "lmBusy = lmRun (LmStart True True 1 2 ''u'' 3 4 # replicate 8 (LmAdvance 0 0 True) @
     [LmStart True False 1 2 ''u'' 0 0, LmAdvance 1 0 True]) (lmInit (NewWithLimits None None 1 5 5 5))"

theorem limiter_caps_respected_witness:
  "map rq_phase (ls_reqs lmBusy) = [Running, WaitGlobal] \<and> outer (ls_lim lmBusy) (ls_reqs lmBusy ! 0)
   \<and> int (length (filter (\<lambda>r. 0 \<in> set (rq_held r)) (ls_reqs lmBusy))) \<le> 1"
proof -
  have "map rq_phase (ls_reqs lmBusy) = [Running, WaitGlobal]" "rq_enabled (ls_reqs lmBusy ! 0)"
    by (simp_all add: lmBusy_def lm_eval lm_Key_def numeral_eq_Suc)
  moreover from this have "ls_reqs lmBusy ! 0 \<in> set (ls_reqs lmBusy)" "rq_phase (ls_reqs lmBusy ! 0) = Running"
    by (metis length_greater_0_conv list.map_disc_iff list.simps(3) nth_mem, metis length_greater_0_conv list.map_disc_iff list.simps(3) nth_Cons_0 nth_map)
  ultimately show ?thesis using limiter_caps_respected [OF lmBusy_def] by simp
qed

section \<open>Recovery of a shrunk credential\<close>

lemma ceilDiv_2: "ceilDiv n 2 = n - n div 2"
  by (simp add: ceilDiv_def)

lemma RecoverStep_gap:
  "sm_capacity s \<le> t \<Longrightarrow> sm_capacity (RecoverStep t s) = t - (t - sm_capacity s) div 2"
proof -
  assume le: "sm_capacity s \<le> t"
  let ?g = "t - sm_capacity s"
  have h: "0 \<le> ?g div 2" "?g div 2 \<le> ?g" using le by auto
  have "1 \<le> ?g - ?g div 2" if "\<not> t \<le> sm_capacity s" using that by presburger
  then show ?thesis using le h unfolding RecoverStep_def by (auto simp: Let_def ceilDiv_2)
qed

text \<open>
Recovery halves the gap on every tick: after \<open>n\<close> ticks a shrunk semaphore is short of its
ceiling by the gap divided by \<open>2\<^sup>n\<close>, rounded down; it never overshoots and never loses
capacity. One shrink of the default credential limit, from 50 to 35, takes four ticks (twenty
minutes) to undo.
\<close>

theorem recovery_halves_gap:
  assumes "sm_capacity s \<le> t"
  shows "sm_capacity ((RecoverStep t ^^ n) s) = t - (t - sm_capacity s) div 2 ^ n
    \<and> sm_used ((RecoverStep t ^^ n) s) = sm_used s
    \<and> sm_capacity (sem_Shrink 7 10 (NewSemaphore 50)) = 35
    \<and> sm_capacity ((RecoverStep 50 ^^ 3) (sem_Shrink 7 10 (NewSemaphore 50))) = 49
    \<and> sm_capacity ((RecoverStep 50 ^^ 4) (sem_Shrink 7 10 (NewSemaphore 50))) = 50"
proof -
  have gen: "sm_capacity ((RecoverStep t ^^ n) s) = t - (t - sm_capacity s) div 2 ^ n \<and> sm_used ((RecoverStep t ^^ n) s) = sm_used s"
    if "sm_capacity s \<le> t" for s t n
  proof (induction n)
    case (Suc n)
    have "0 \<le> (t - sm_capacity s) div 2 ^ n" using that by (simp add: pos_imp_zdiv_nonneg_iff)
    then have "sm_capacity ((RecoverStep t ^^ n) s) \<le> t" using Suc by linarith
    then show ?case using Suc by (simp add: RecoverStep_gap zdiv_zmult2_eq power_Suc2 del: power_Suc)
  qed simp
  have s: "sm_capacity (sem_Shrink 7 10 (NewSemaphore 50)) = 35" by (simp add: sem_Shrink_def NewSemaphore_def ceilDiv_def)
  show ?thesis using gen [OF assms, of n] gen [of "sem_Shrink 7 10 (NewSemaphore 50)" 50 3] gen [of "sem_Shrink 7 10 (NewSemaphore 50)" 50 4] s by simp
qed

theorem recovery_halves_gap_witness:
  "sm_capacity ((RecoverStep 8 ^^ 2) (NewSemaphore 3)) = 7"
  using recovery_halves_gap [of "NewSemaphore 3" 8 2] by (simp add: NewSemaphore_def)

section \<open>Identity table\<close>

lemma makeRoomLoop_length: "makeRoomLoop m heap xs n = (ok, ys, n') \<Longrightarrow> length ys \<le> length xs"
proof (induction m heap xs n rule: makeRoomLoop.induct)
  case (1 m heap xs n)
  show ?case
  proof (cases "oldestUnused heap None xs")
    case None
    then show ?thesis using 1(2) by (simp add: makeRoomLoop.simps [of m heap xs] split: if_splits)
  next
    case (Some b)
    from 1(1) [of b "fst b" "snd b"] Some 1(2)
    have "ys = xs \<or> length ys \<le> length (filter (\<lambda>(k', _). k' \<noteq> fst b) xs)"
      by (cases b) (simp add: makeRoomLoop.simps [of m heap xs] split: if_splits)
    then show ?thesis using length_filter_le le_trans by blast
  qed
qed

lemma cleanupLoop_length: "cleanupLoop m c heap len xs = (kept, n) \<Longrightarrow> length kept \<le> length xs"
  by (induction m c heap len xs arbitrary: kept n rule: cleanupLoop.induct) (auto split: if_splits prod.splits)

definition identBound :: "limiter \<Rightarrow> bool" where
  "identBound l \<longleftrightarrow> int (length (lm_idents l)) \<le> identityMaxEntries l"

lemma identBound_cleanup: "identBound l \<Longrightarrow> identBound (cleanupIdentitiesLocked now l)"
  by (auto simp: identBound_def cleanupIdentitiesLocked_def dest!: cleanupLoop_length split: prod.splits)

lemma identBound_Identity:
  assumes "identBound l" shows "identBound (snd (lm_Identity pid cid ident now l))"
proof (cases "map_of (lm_idents l) (pid, cid, ident)")
  case (Some e)
  then show ?thesis using assms by (simp add: lm_Identity_def identBound_def)
next
  case None
  let ?l = "cleanupIdentitiesLocked now l"
  have b: "identBound ?l" by (rule identBound_cleanup [OF assms])
  obtain ok xs n where m: "makeRoomLoop (identityMaxEntries ?l) (lm_heap ?l) (lm_idents ?l) (identityEvictions ?l) = (ok, xs, n)"
    by (metis prod_cases3)
  note s = makeRoomLoop_subset [OF m]
  show ?thesis
  proof (cases ok)
    case True
    then show ?thesis using None m s by (simp add: lm_Identity_def makeIdentityRoomLocked_def Let_def alloc_def identBound_def)
  next
    case False
    then have "length xs \<le> length (lm_idents ?l)" using makeRoomLoop_length [OF m] by simp
    then show ?thesis using None m False b by (simp add: lm_Identity_def makeIdentityRoomLocked_def Let_def alloc_def identBound_def)
  qed
qed

end
