(* ===== verification/KeyRotator.thy ===== *)
theory KeyRotator
  imports ErrorKinds
begin

text \<open>
  Rotation over the API keys of one credential, \<open>domains/credential/keyrotator.go\<close>: per-key
  health with a failure threshold, terminal keys, round-robin resolution with a sticky index, and
  the sweep that revives invalid keys after a cooldown. Every method holds the mutex for its whole
  body. The map of states is an association-free function from the credential id to the slice of
  keys; a missing entry of the cursor map is 0. The sweeper goroutine is \<open>SweepInvalid\<close> on a
  ticker; log lines are left out.
\<close>

section \<open>Operations\<close>

datatype keyStatus = KeyStatusActive | KeyStatusWarning | KeyStatusInvalid | KeyStatusTerminal

definition failureThreshold :: int where "failureThreshold = 2"
definition DefaultInvalidCooldown :: duration where "DefaultInvalidCooldown = 15 * go_minute"

record keyHealth =
  kh_status :: keyStatus
  consecutiveFailures :: int
  totalRequests :: int
  totalFailures :: int
  lastSuccess :: "instant option"
  kh_lastFailure :: "instant option"
  invalidSince :: "instant option"

record keyRotator =
  kr_states :: "int \<Rightarrow> keyHealth list option"
  kr_cursors :: "int \<Rightarrow> nat"

definition NewKeyRotator :: keyRotator where
  "NewKeyRotator = \<lparr>kr_states = (\<lambda>_. None), kr_cursors = (\<lambda>_. 0)\<rparr>"

definition freshKey :: keyHealth where
  "freshKey = \<lparr>kh_status = KeyStatusActive, consecutiveFailures = 0, totalRequests = 0, totalFailures = 0,
     lastSuccess = None, kh_lastFailure = None, invalidSince = None\<rparr>"

definition keysOf :: "int \<Rightarrow> keyRotator \<Rightarrow> keyHealth list" where
  "keysOf cid kr = (case kr_states kr cid of None \<Rightarrow> [] | Some ks \<Rightarrow> ks)"

definition EnsureCred :: "int \<Rightarrow> int \<Rightarrow> keyRotator \<Rightarrow> keyRotator" where
  "EnsureCred cid n kr =
     (if n \<le> 1 then kr
      else let existing = keysOf cid kr
           in if n \<le> int (length existing) then kr
              else kr\<lparr>kr_states := (kr_states kr)(cid \<mapsto> existing @ replicate (nat n - length existing) freshKey)\<rparr>)"

definition isEligible :: "keyStatus \<Rightarrow> bool" where
  "isEligible s \<longleftrightarrow> s = KeyStatusActive \<or> s = KeyStatusWarning"

fun scanKeys :: "keyHealth list \<Rightarrow> nat \<Rightarrow> nat \<Rightarrow> nat \<Rightarrow> nat option" where
  "scanKeys ks start i 0 = None"
| "scanKeys ks start i (Suc left) =
     (let idx = (start + i) mod length ks
      in if isEligible (kh_status (ks ! idx)) then Some idx else scanKeys ks start (Suc i) left)"

definition ResolveKey :: "int \<Rightarrow> int \<Rightarrow> keyRotator \<Rightarrow> int \<times> keyRotator" where
  "ResolveKey cid stickyIdx kr =
     (let ks = keysOf cid kr; n = length ks
      in if n = 0 then (0, kr)
         else if 0 \<le> stickyIdx \<and> stickyIdx < int n \<and> isEligible (kh_status (ks ! nat stickyIdx)) then (stickyIdx, kr)
         else case scanKeys ks (kr_cursors kr cid) 0 n of
                Some idx \<Rightarrow> (int idx, kr\<lparr>kr_cursors := (kr_cursors kr)(cid := (idx + 1) mod n)\<rparr>)
              | None \<Rightarrow> (-1, kr))"

definition onKey :: "int \<Rightarrow> int \<Rightarrow> (keyHealth \<Rightarrow> bool \<times> keyHealth) \<Rightarrow> keyRotator \<Rightarrow> bool \<times> keyRotator" where
  "onKey cid idx f kr = (case kr_states kr cid of
     None \<Rightarrow> (False, kr)
   | Some ks \<Rightarrow> if idx < 0 \<or> int (length ks) \<le> idx then (False, kr)
       else (case f (ks ! nat idx) of (r, k) \<Rightarrow> (r, kr\<lparr>kr_states := (kr_states kr)(cid \<mapsto> ks[nat idx := k])\<rparr>)))"

definition RecordKeySuccess :: "int \<Rightarrow> int \<Rightarrow> instant \<Rightarrow> keyRotator \<Rightarrow> keyRotator" where
  "RecordKeySuccess cid idx now kr = snd (onKey cid idx (\<lambda>k. (False, k\<lparr>consecutiveFailures := 0,
     totalRequests := totalRequests k + 1, kh_status := KeyStatusActive, lastSuccess := Some now\<rparr>)) kr)"

definition isTerminalKind :: "errorKind \<Rightarrow> bool" where
  "isTerminalKind kind \<longleftrightarrow> kind = KindQuotaPermanent \<or> kind = KindQuotaBalance \<or> kind = KindAuthRevoked"

definition failKey :: "errorKind \<Rightarrow> instant \<Rightarrow> keyHealth \<Rightarrow> bool \<times> keyHealth" where
  "failKey kind now k0 =
     (let k = k0\<lparr>totalRequests := totalRequests k0 + 1, totalFailures := totalFailures k0 + 1,
                 consecutiveFailures := consecutiveFailures k0 + 1, kh_lastFailure := Some now\<rparr>
      in if isTerminalKind kind
         then if kh_status k \<noteq> KeyStatusTerminal then (True, k\<lparr>kh_status := KeyStatusTerminal\<rparr>) else (False, k)
         else if failureThreshold \<le> consecutiveFailures k
         then if kh_status k \<noteq> KeyStatusInvalid then (True, k\<lparr>kh_status := KeyStatusInvalid, invalidSince := Some now\<rparr>) else (False, k)
         else if 0 < consecutiveFailures k then (False, k\<lparr>kh_status := KeyStatusWarning\<rparr>)
         else (False, k))"

definition RecordKeyFailure :: "int \<Rightarrow> int \<Rightarrow> errorKind \<Rightarrow> instant \<Rightarrow> keyRotator \<Rightarrow> bool \<times> keyRotator" where
  "RecordKeyFailure cid idx kind now kr = onKey cid idx (failKey kind now) kr"

definition AllKeysInvalid :: "int \<Rightarrow> keyRotator \<Rightarrow> bool" where
  "AllKeysInvalid cid kr = (let ks = keysOf cid kr in ks \<noteq> [] \<and> list_all (\<lambda>k. \<not> isEligible (kh_status k)) ks)"

definition ResetKey :: "int \<Rightarrow> int \<Rightarrow> keyRotator \<Rightarrow> keyRotator" where
  "ResetKey cid idx kr = snd (onKey cid idx (\<lambda>k. (False, k\<lparr>kh_status := KeyStatusActive, consecutiveFailures := 0,
     invalidSince := None\<rparr>)) kr)"

definition ResetCredential :: "int \<Rightarrow> keyRotator \<Rightarrow> keyRotator" where
  "ResetCredential cid kr = \<lparr>kr_states = (kr_states kr)(cid := None), kr_cursors = (kr_cursors kr)(cid := 0)\<rparr>"

definition KeyCount :: "int \<Rightarrow> keyRotator \<Rightarrow> nat" where
  "KeyCount cid kr = length (keysOf cid kr)"

definition sweepKey :: "instant \<Rightarrow> duration \<Rightarrow> keyHealth \<Rightarrow> keyHealth" where
  "sweepKey now cooldown k =
     (if kh_status k \<noteq> KeyStatusInvalid then k
      else case invalidSince k of
        None \<Rightarrow> k\<lparr>invalidSince := Some now\<rparr>
      | Some t \<Rightarrow> if now - t < cooldown then k
                  else k\<lparr>kh_status := KeyStatusActive, consecutiveFailures := 0, invalidSince := None\<rparr>)"

text \<open>The number of recovered keys, which the code returns for the log, is left out.\<close>

definition SweepInvalid :: "instant \<Rightarrow> duration \<Rightarrow> keyRotator \<Rightarrow> keyRotator" where
  "SweepInvalid now cooldown kr =
     (let cd = (if cooldown \<le> 0 then DefaultInvalidCooldown else cooldown)
      in kr\<lparr>kr_states := (\<lambda>cid. map_option (map (sweepKey now cd)) (kr_states kr cid))\<rparr>)"

section \<open>Round robin\<close>

text \<open>
  The keys a credential will hand out next, in order: the eligible indices starting at the cursor.
  Resolving a key takes the head of that queue and moves it to the end.
\<close>

definition eligibleAt :: "keyHealth list \<Rightarrow> nat \<Rightarrow> bool" where
  "eligibleAt ks i \<longleftrightarrow> isEligible (kh_status (ks ! i))"

definition rotation :: "keyHealth list \<Rightarrow> nat \<Rightarrow> nat list" where
  "rotation ks c = filter (eligibleAt ks) ([c..<length ks] @ [0..<c])"

lemma scanKeys_hd:
  assumes "c < length ks" "i + left = length ks"
  shows "scanKeys ks c i left = (case filter (eligibleAt ks) (map (\<lambda>j. (c + j) mod length ks) [i..<length ks]) of
     [] \<Rightarrow> None | x # _ \<Rightarrow> Some x)"
  using assms
proof (induction left arbitrary: i)
  case (Suc left)
  then have "[i..<length ks] = i # [Suc i..<length ks]" by (intro upt_conv_Cons) linarith
  then show ?case using Suc by (simp add: Let_def eligibleAt_def)
qed simp

lemma rotated_upt: "c < n \<Longrightarrow> map (\<lambda>j. (c + j) mod n) [0..<n] = [c..<n] @ [0..<c]"
  by (rule nth_equalityI) (auto simp: nth_append mod_if)

lemma scanKeys_rotation:
  assumes "c < length ks"
  shows "scanKeys ks c 0 (length ks) = (case rotation ks c of [] \<Rightarrow> None | x # _ \<Rightarrow> Some x)"
  using scanKeys_hd [OF assms, of 0 "length ks"] by (simp only: rotated_upt [OF assms] rotation_def add_0)

lemma filter_split_first:
  assumes "filter P xs = x # ys"
  obtains us vs where "xs = us @ x # vs" "filter P us = []" "filter P vs = ys" "P x"
proof -
  from assms obtain us vs where "xs = us @ x # vs" "\<forall>u \<in> set us. \<not> P u" "P x" "ys = filter P vs"
    by (auto simp: filter_eq_Cons_iff)
  then show ?thesis using that by (simp add: filter_empty_conv)
qed

lemma upt_split_at: "[a..<b] = us @ x # vs \<Longrightarrow> us = [a..<x] \<and> vs = [Suc x..<b] \<and> a \<le> x \<and> x < b"
proof -
  assume e: "[a..<b] = us @ x # vs"
  have len: "length us < b - a" using arg_cong [OF e, of length] by simp
  have x: "x = a + length us" using arg_cong [OF e, of "\<lambda>l. l ! length us"] len by (simp add: nth_append)
  have "List.take (length us) [a..<b] = us" "List.drop (Suc (length us)) [a..<b] = vs" using e by simp_all
  then show ?thesis using x len by (auto simp: take_upt drop_upt)
qed

lemma upt_cut: "a \<le> b \<Longrightarrow> b \<le> c \<Longrightarrow> [a..<c] = [a..<b] @ [b..<c]"
  using upt_add_eq_append [of a b "c - b"] by simp

lemma rotation_next:
  assumes "c < length ks" "rotation ks c = x # ys"
  shows "rotation ks ((x + 1) mod length ks) = ys @ [x]" "x < length ks" "eligibleAt ks x"
proof -
  let ?P = "eligibleAt ks" and ?n = "length ks"
  have F: "rotation ks d = filter ?P [d..<?n] @ filter ?P [0..<d]" for d by (simp add: rotation_def)
  have wrap: "rotation ks ((x + 1) mod ?n) = filter ?P [Suc x..<?n] @ filter ?P [0..<Suc x]" if "x < ?n"
    using that by (cases "Suc x = ?n") (simp_all add: F)
  have "rotation ks ((x + 1) mod ?n) = ys @ [x] \<and> x < ?n \<and> ?P x"
  proof (cases "filter ?P [c..<?n]")
    case (Cons z zs)
    then have z: "z = x" "ys = zs @ filter ?P [0..<c]" using assms(2) by (auto simp: F)
    obtain us vs where s: "[c..<?n] = us @ x # vs" "filter ?P us = []" "filter ?P vs = zs" "?P x"
      using filter_split_first [OF Cons] z(1) by blast
    note u = upt_split_at [OF s(1)]
    have "[0..<Suc x] = [0..<c] @ [c..<x] @ [x]" using u upt_cut [of 0 c x] by simp
    then show ?thesis using wrap u s z(2) by simp
  next
    case Nil
    then have y: "filter ?P [0..<c] = x # ys" using assms(2) by (simp add: F)
    obtain us vs where s: "[0..<c] = us @ x # vs" "filter ?P us = []" "filter ?P vs = ys" "?P x"
      using filter_split_first [OF y] by blast
    note u = upt_split_at [OF s(1)]
    have "[Suc x..<?n] = [Suc x..<c] @ [c..<?n]" using u assms(1) by (intro upt_cut) auto
    then show ?thesis using wrap u s Nil assms(1) by simp
  qed
  then show "rotation ks ((x + 1) mod ?n) = ys @ [x]" "x < ?n" "?P x" by simp_all
qed


lemma keysOf_cursors [simp]: "keysOf cid (kr\<lparr>kr_cursors := c\<rparr>) = keysOf cid kr"
  by (simp add: keysOf_def)

fun resolveMany :: "int \<Rightarrow> nat \<Rightarrow> keyRotator \<Rightarrow> int list \<times> keyRotator" where
  "resolveMany cid 0 kr = ([], kr)"
| "resolveMany cid (Suc m) kr = (case ResolveKey cid (-1) kr of (i, kr') \<Rightarrow>
     case resolveMany cid m kr' of (is, kr'') \<Rightarrow> (i # is, kr''))"

lemma ResolveKey_rotation:
  assumes "kr_cursors kr cid < length (keysOf cid kr)" "rotation (keysOf cid kr) (kr_cursors kr cid) = x # ys"
  shows "ResolveKey cid (-1) kr = (int x, kr\<lparr>kr_cursors := (kr_cursors kr)(cid := (x + 1) mod length (keysOf cid kr))\<rparr>)"
  using scanKeys_rotation [OF assms(1)] assms by (auto simp: ResolveKey_def Let_def)

lemma nth_rotated: "((ys @ [x]) ! (j mod length (x # ys)) :: nat) = (x # ys) ! (Suc j mod length (x # ys))"
proof (cases "Suc (j mod length (x # ys)) = length (x # ys)")
  case True
  then show ?thesis by (simp add: mod_Suc nth_append)
next
  case False
  moreover have "j mod length (x # ys) < length (x # ys)" by simp
  ultimately have "j mod length (x # ys) < length ys" by (simp del: mod_less_divisor)
  then show ?thesis by (simp add: mod_Suc nth_append)
qed

lemma resolveMany_cycle:
  "kr_cursors kr cid < length (keysOf cid kr) \<Longrightarrow> q = rotation (keysOf cid kr) (kr_cursors kr cid) \<Longrightarrow> q \<noteq> [] \<Longrightarrow>
   fst (resolveMany cid m kr) = map (\<lambda>j. int (q ! (j mod length q))) [0..<m]"
proof (induction m arbitrary: kr q)
  case (Suc m)
  obtain x ys where q: "q = x # ys" using Suc.prems(3) by (cases q) auto
  let ?n = "length (keysOf cid kr)"
  let ?kr = "kr\<lparr>kr_cursors := (kr_cursors kr)(cid := (x + 1) mod ?n)\<rparr>"
  have r: "ResolveKey cid (-1) kr = (int x, ?kr)" using ResolveKey_rotation [OF Suc.prems(1), of x ys] Suc.prems(2) unfolding q by simp
  have "0 < ?n" using Suc.prems(1) by linarith
  then have "fst (resolveMany cid m ?kr) = map (\<lambda>j. int ((ys @ [x]) ! (j mod length (ys @ [x])))) [0..<m]"
    using rotation_next(1) [of "kr_cursors kr cid" "keysOf cid kr" x ys] Suc.prems q
    by (intro Suc.IH) auto
  moreover have "[0..<Suc m] = 0 # map Suc [0..<m]" by (simp add: map_Suc_upt upt_conv_Cons del: upt_Suc)
  ultimately show ?case using nth_rotated [of ys x] r by (simp add: q comp_def case_prod_beta del: upt_Suc)
qed simp

lemma rotation_set:
  assumes "c \<le> length ks"
  shows "distinct (rotation ks c)" "set (rotation ks c) = {i. i < length ks \<and> eligibleAt ks i}"
  using assms by (auto simp: rotation_def)

section \<open>The cursor stays in range\<close>

definition kr_inv :: "keyRotator \<Rightarrow> bool" where
  "kr_inv kr \<longleftrightarrow> (\<forall>cid. kr_cursors kr cid = 0 \<or> kr_cursors kr cid < length (keysOf cid kr))"

datatype krOp = KrEnsure int int | KrResolve int int | KrSuccess int int instant | KrFailure int int errorKind instant
  | KrReset int int | KrResetCred int | KrSweep instant duration

fun krStep :: "krOp \<Rightarrow> keyRotator \<Rightarrow> int \<times> keyRotator" where
  "krStep (KrEnsure cid n) kr = (0, EnsureCred cid n kr)"
| "krStep (KrResolve cid sticky) kr = ResolveKey cid sticky kr"
| "krStep (KrSuccess cid idx now) kr = (0, RecordKeySuccess cid idx now kr)"
| "krStep (KrFailure cid idx kind now) kr = (case RecordKeyFailure cid idx kind now kr of (b, kr') \<Rightarrow> (if b then 1 else 0, kr'))"
| "krStep (KrReset cid idx) kr = (0, ResetKey cid idx kr)"
| "krStep (KrResetCred cid) kr = (0, ResetCredential cid kr)"
| "krStep (KrSweep now cd) kr = (0, SweepInvalid now cd kr)"

lemma kr_inv_lengths:
  assumes "kr_inv kr" "kr_cursors kr' = kr_cursors kr" "\<And>cid. length (keysOf cid kr) \<le> length (keysOf cid kr')"
  shows "kr_inv kr'"
  unfolding kr_inv_def
proof
  fix cid
  show "kr_cursors kr' cid = 0 \<or> kr_cursors kr' cid < length (keysOf cid kr')"
    using assms(1,2) assms(3) [of cid] by (auto simp: kr_inv_def)
qed

lemma onKey_frame:
  "kr_cursors (snd (onKey cid idx f kr)) = kr_cursors kr" "length (keysOf c (snd (onKey cid idx f kr))) = length (keysOf c kr)"
  by (auto simp: onKey_def keysOf_def split: option.splits prod.splits)

lemma scanKeys_range: "0 < length ks \<Longrightarrow> scanKeys ks start i left = Some idx \<Longrightarrow> idx < length ks \<and> isEligible (kh_status (ks ! idx))"
  by (induction ks start i left rule: scanKeys.induct) (auto simp: Let_def split: if_splits)

lemma kr_inv_Resolve: "kr_inv kr \<Longrightarrow> kr_inv (snd (ResolveKey cid sticky kr))"
  by (auto simp: ResolveKey_def Let_def kr_inv_def keysOf_def split: option.splits)

lemma kr_inv_step: "kr_inv kr \<Longrightarrow> kr_inv (snd (krStep x kr))"
proof (cases x)
  case (KrResetCred cid)
  assume "kr_inv kr"
  then show ?thesis using KrResetCred by (auto simp: kr_inv_def ResetCredential_def keysOf_def)
next
  case (KrResolve cid sticky)
  assume "kr_inv kr"
  then show ?thesis using KrResolve kr_inv_Resolve by simp
qed (auto elim!: kr_inv_lengths simp: EnsureCred_def Let_def keysOf_def RecordKeySuccess_def RecordKeyFailure_def
      ResetKey_def SweepInvalid_def onKey_def case_prod_beta split: option.splits)

lemma kr_inv_run: "kr_inv (snd (run_ops krStep xs NewKeyRotator))"
proof (rule inv_run_ops)
  show "kr_inv NewKeyRotator" by (simp add: kr_inv_def NewKeyRotator_def)
qed (rule kr_inv_step)

text \<open>
Round robin is fair: in every reachable rotator, successive resolutions of a credential with at
least one eligible key return its eligible keys in a fixed cyclic order that contains each exactly
once, so in every cycle each eligible key is used once and no invalid or terminal key is used; with
no eligible key the answer is \<open>-1\<close>.
\<close>

theorem key_rotation_fair:
  assumes "kr = snd (run_ops krStep xs NewKeyRotator)" "keysOf cid kr \<noteq> []"
  shows "\<exists>q. distinct q \<and> set q = {i. i < length (keysOf cid kr) \<and> isEligible (kh_status (keysOf cid kr ! i))}
    \<and> (if q = [] then ResolveKey cid (-1) kr = (-1, kr) \<and> AllKeysInvalid cid kr
       else fst (resolveMany cid m kr) = map (\<lambda>j. int (q ! (j mod length q))) [0..<m])"
proof -
  let ?ks = "keysOf cid kr" and ?c = "kr_cursors kr cid"
  have c: "?c < length ?ks" using kr_inv_run [of xs] assms by (auto simp: kr_inv_def) (metis length_greater_0_conv)
  note r = rotation_set [of ?c ?ks, OF less_imp_le [OF c]]
  have "ResolveKey cid (-1) kr = (-1, kr) \<and> AllKeysInvalid cid kr" if "rotation ?ks ?c = []"
    using that r(2) scanKeys_rotation [OF c] assms(2)
    by (auto simp: ResolveKey_def Let_def AllKeysInvalid_def list_all_length eligibleAt_def)
  then show ?thesis using r resolveMany_cycle [OF c refl]
    by (intro exI [of _ "rotation ?ks ?c"]) (auto simp: eligibleAt_def)
qed

section \<open>Terminal keys\<close>

lemma sweep_keeps_terminal: "kh_status k = KeyStatusTerminal \<Longrightarrow> sweepKey now cd k = k"
  by (simp add: sweepKey_def)

text \<open>
A terminal key does come back: when a request that was already in flight fails on it with an
ordinary error, the key turns from terminal to invalid, and the sweeper reactivates it after the
cooldown although its balance is exhausted and nobody reset it.
\<close>

theorem terminal_key_revived:
  assumes "kr_states kr cid = Some ks" "0 \<le> idx" "idx < int (length ks)" "0 \<le> consecutiveFailures (ks ! nat idx)"
    and "isTerminalKind kind" "\<not> isTerminalKind kind'" "t' + DefaultInvalidCooldown \<le> t''"
    and "kr1 = snd (RecordKeyFailure cid idx kind t kr)" "kr2 = snd (RecordKeyFailure cid idx kind' t' kr1)"
    and "kr3 = SweepInvalid t'' DefaultInvalidCooldown kr2"
  shows "kh_status (keysOf cid kr1 ! nat idx) = KeyStatusTerminal
    \<and> kh_status (keysOf cid kr2 ! nat idx) = KeyStatusInvalid
    \<and> kh_status (keysOf cid kr3 ! nat idx) = KeyStatusActive
    \<and> ResolveKey cid idx kr3 = (idx, kr3)"
proof -
  let ?k1 = "snd (failKey kind t (ks ! nat idx))"
  have l: "nat idx < length ks" using assms(2,3) by linarith
  have k1: "kr_states kr1 cid = Some (ks[nat idx := ?k1])"
    using assms(1-3,8) by (auto simp: RecordKeyFailure_def onKey_def case_prod_beta)
  have s1: "kh_status ?k1 = KeyStatusTerminal" "1 \<le> consecutiveFailures ?k1"
    using assms(4,5) by (auto simp: failKey_def Let_def)
  let ?k2 = "snd (failKey kind' t' ?k1)"
  have k2: "kr_states kr2 cid = Some (ks[nat idx := ?k2])"
    using assms(2,3,9) k1 l by (auto simp: RecordKeyFailure_def onKey_def case_prod_beta)
  have s2: "kh_status ?k2 = KeyStatusInvalid" "invalidSince ?k2 = Some t'"
    using s1 assms(6) by (auto simp: failKey_def [of kind'] Let_def failureThreshold_def)
  have k3: "kr_states kr3 cid = Some (map (sweepKey t'' DefaultInvalidCooldown) (ks[nat idx := ?k2]))"
    using assms(10) k2 by (simp add: SweepInvalid_def Let_def DefaultInvalidCooldown_def)
  have s3: "kh_status (sweepKey t'' DefaultInvalidCooldown ?k2) = KeyStatusActive"
    using s2 assms(7) by (auto simp: sweepKey_def)
  show ?thesis using k1 k2 k3 s1 s2 s3 l assms(2,3) by (auto simp: keysOf_def ResolveKey_def isEligible_def Let_def)
qed

theorem terminal_key_revived_witness:
  "let kr = EnsureCred 7 2 NewKeyRotator;
       kr2 = snd (RecordKeyFailure 7 1 KindTimeout 5 (snd (RecordKeyFailure 7 1 KindQuotaBalance 0 kr)))
   in kh_status (keysOf 7 (SweepInvalid (5 + 15 * go_minute) DefaultInvalidCooldown kr2) ! 1) = KeyStatusActive"
  using terminal_key_revived [of "EnsureCred 7 2 NewKeyRotator" 7 "replicate 2 freshKey" 1 KindQuotaBalance KindTimeout 5 "5 + 15 * go_minute", OF _ _ _ _ _ _ _ refl refl refl]
  by (simp add: EnsureCred_def NewKeyRotator_def keysOf_def freshKey_def isTerminalKind_def DefaultInvalidCooldown_def numeral_2_eq_2 Let_def)

theorem key_rotation_fair_witness:
  "keysOf 7 (snd (run_ops krStep [KrEnsure 7 3] NewKeyRotator)) \<noteq> []
   \<and> (\<exists>q. distinct q \<and> set q = {0, 1, 2} \<and> fst (resolveMany 7 3 (snd (run_ops krStep [KrEnsure 7 3] NewKeyRotator)))
        = map (\<lambda>j. int (q ! (j mod length q))) [0..<3])"
proof -
  let ?kr = "snd (run_ops krStep [KrEnsure 7 3] NewKeyRotator)"
  have ks: "keysOf 7 ?kr = [freshKey, freshKey, freshKey]"
    by (simp add: EnsureCred_def NewKeyRotator_def keysOf_def Let_def numeral_3_eq_3)
  have e: "{i. i < length (keysOf 7 ?kr) \<and> isEligible (kh_status (keysOf 7 ?kr ! i))} = {0, 1, 2}"
    unfolding ks by (auto simp: freshKey_def isEligible_def less_Suc_eq numeral_2_eq_2)
  have ne: "keysOf 7 ?kr \<noteq> []" unfolding ks by simp
  obtain q where q: "distinct q" "set q = {0, 1, 2}" "if q = [] then ResolveKey 7 (-1) ?kr = (-1, ?kr) \<and> AllKeysInvalid 7 ?kr
       else fst (resolveMany 7 3 ?kr) = map (\<lambda>j. int (q ! (j mod length q))) [0..<3]"
    using key_rotation_fair [OF refl ne, of 3] unfolding e by blast
  then have "q \<noteq> []" by auto
  then show ?thesis using q ne by metis
qed

end
