(* ===== verification/RestTrackers.thy ===== *)
theory RestTrackers
  imports Prelude
begin

text \<open>
  The two per-binding trackers of \<open>domains/credential\<close>: the escalating cooldown after rate limits
  (\<open>ratebackoff.go\<close>) and the rest after repeated slow starts (\<open>slowrest.go\<close>). Both keep one
  run per key (credential and model), forget a run whose last event is half an hour old, and prune
  forgotten keys while they observe. The map is an association list; a prune pass visits at most 64
  keys, and which ones it meets first is Go's map order, so each observation carries the list of keys
  it visits. The locale \<open>forgetful_tracker\<close> states what both promise and shows once that
  pruning never changes an answer.
\<close>

section \<open>Observation and pruning\<close>

definition pruneRuns :: "('r \<Rightarrow> instant) \<Rightarrow> duration \<Rightarrow> string list \<Rightarrow> instant \<Rightarrow> (string \<times> 'r) list \<Rightarrow> (string \<times> 'r) list" where
  "pruneRuns runAt forget visited now runs =
     (if length runs < 1024 then runs
      else filter (\<lambda>(k, r). \<not> (k \<in> set (List.take 64 visited) \<and> forget \<le> now - runAt r)) runs)"

definition observeRun :: "('r option \<Rightarrow> instant \<Rightarrow> 'r \<times> 'd) \<Rightarrow> ('r \<Rightarrow> instant) \<Rightarrow> duration
    \<Rightarrow> string \<Rightarrow> instant \<Rightarrow> string list \<Rightarrow> (string \<times> 'r) list \<Rightarrow> 'd \<times> (string \<times> 'r) list" where
  "observeRun step runAt forget key now visited runs =
     (case step (map_of runs key) now of (run, d) \<Rightarrow>
        (d, pruneRuns runAt forget visited now (AList.update key run runs)))"

subsection \<open>Rate limits\<close>

definition RateBackoffBase :: duration where "RateBackoffBase = 3 * go_minute"
definition rateBackoffMaxShift :: int where "rateBackoffMaxShift = 4"
definition RateBackoffMax :: duration where "RateBackoffMax = 30 * go_minute"
definition RateForget :: duration where "RateForget = 30 * go_minute"
definition MaxRateRetryAfter :: duration where "MaxRateRetryAfter = 60 * go_minute"

lemmas rate_consts = RateBackoffBase_def rateBackoffMaxShift_def RateBackoffMax_def RateForget_def MaxRateRetryAfter_def

record rateRun =
  rr_n :: int
  rr_at :: instant

record rateBackoffDecision =
  rd_Duration :: duration
  rd_Count :: int
  rd_Escalated :: bool

definition rateStep :: "rateRun option \<Rightarrow> instant \<Rightarrow> rateRun \<times> rateBackoffDecision" where
  "rateStep prev now =
     (let n = (case prev of None \<Rightarrow> 0 | Some r \<Rightarrow> if RateForget \<le> now - rr_at r then 0 else rr_n r) + 1;
          shift = (if rateBackoffMaxShift < n - 1 then rateBackoffMaxShift else n - 1);
          d = RateBackoffBase * 2 ^ nat shift
      in (\<lparr>rr_n = n, rr_at = now\<rparr>,
          if 1 < n then \<lparr>rd_Duration = (if RateBackoffMax < d then RateBackoffMax else d), rd_Count = n, rd_Escalated = True\<rparr>
          else \<lparr>rd_Duration = RateBackoffBase, rd_Count = n, rd_Escalated = False\<rparr>))"

type_synonym rateBackoffTracker = "(string \<times> rateRun) list"

definition rb_Observe :: "string \<Rightarrow> instant \<Rightarrow> string list \<Rightarrow> rateBackoffTracker \<Rightarrow> rateBackoffDecision \<times> rateBackoffTracker" where
  "rb_Observe key now visited runs = observeRun rateStep rr_at RateForget key now visited runs"

definition rb_Count :: "string \<Rightarrow> rateBackoffTracker \<Rightarrow> int" where
  "rb_Count key runs = (case map_of runs key of None \<Rightarrow> 0 | Some r \<Rightarrow> rr_n r)"

definition rateLimitedCoolingDuration ::
  "duration \<Rightarrow> rateBackoffTracker option \<Rightarrow> string \<Rightarrow> instant \<Rightarrow> string list \<Rightarrow> duration \<times> rateBackoffTracker option" where
  "rateLimitedCoolingDuration retryAfter t key now visited =
     (if 0 < retryAfter then (if MaxRateRetryAfter < retryAfter then MaxRateRetryAfter else retryAfter, t)
      else case t of None \<Rightarrow> (RateBackoffBase, None)
           | Some runs \<Rightarrow> (case rb_Observe key now visited runs of (d, runs') \<Rightarrow> (rd_Duration d, Some runs')))"

subsection \<open>Slow starts\<close>

definition SlowRests :: int where "SlowRests = 2"
definition SlowForget :: duration where "SlowForget = 30 * go_minute"
definition SlowFallbackCooldown :: duration where "SlowFallbackCooldown = go_minute"
definition slowMaxShift :: int where "slowMaxShift = 10"

lemmas slow_consts = SlowRests_def SlowForget_def SlowFallbackCooldown_def slowMaxShift_def

record slowRun =
  sl_n :: int
  sl_at :: instant
  sl_until :: "instant option"

record slowRestDecision =
  sd_Rest :: bool
  sd_Until :: "instant option"
  sd_Count :: int
  sd_By :: string

definition slowStep :: "slowRun option \<Rightarrow> instant \<Rightarrow> slowRun \<times> slowRestDecision" where
  "slowStep prev now =
     (let r0 = (case prev of None \<Rightarrow> \<lparr>sl_n = 0, sl_at = now, sl_until = None\<rparr>
                | Some r \<Rightarrow> if SlowForget \<le> now - sl_at r then r\<lparr>sl_n := 0, sl_until := None\<rparr> else r);
          restingForSlow = (case sl_until r0 of None \<Rightarrow> False | Some u \<Rightarrow> now < u);
          n = (if \<not> restingForSlow \<or> sl_n r0 = 0 then sl_n r0 + 1 else sl_n r0);
          run = r0\<lparr>sl_n := n, sl_at := now\<rparr>
      in if n < SlowRests then (run, \<lparr>sd_Rest = False, sd_Until = None, sd_Count = n, sd_By = []\<rparr>)
         else
           let shift = (if slowMaxShift < n - SlowRests then slowMaxShift else n - SlowRests);
               u = now + SlowFallbackCooldown * 2 ^ nat shift
           in (run\<lparr>sl_until := Some u\<rparr>,
               \<lparr>sd_Rest = True, sd_Until = Some u, sd_Count = n, sd_By = (if SlowRests < n then ''backoff'' else ''cooldown'')\<rparr>))"

record slowRestTracker =
  sl_runs :: "(string \<times> slowRun) list"
  sl_disabled :: bool

definition sl_Observe :: "string \<Rightarrow> instant \<Rightarrow> string list \<Rightarrow> slowRestTracker \<Rightarrow> slowRestDecision \<times> slowRestTracker" where
  "sl_Observe key now visited t =
     (if sl_disabled t then (\<lparr>sd_Rest = False, sd_Until = None, sd_Count = 0, sd_By = []\<rparr>, t)
      else case observeRun slowStep sl_at SlowForget key now visited (sl_runs t) of (d, runs) \<Rightarrow> (d, t\<lparr>sl_runs := runs\<rparr>))"

definition SetDisabled :: "bool \<Rightarrow> slowRestTracker \<Rightarrow> slowRestTracker" where
  "SetDisabled d t = t\<lparr>sl_disabled := d\<rparr>"

definition sl_Count :: "string \<Rightarrow> slowRestTracker \<Rightarrow> int" where
  "sl_Count key t = (case map_of (sl_runs t) key of None \<Rightarrow> 0 | Some r \<Rightarrow> sl_n r)"

section \<open>Pruning is invisible\<close>

text \<open>The reference tracker: one run per key, never pruned.\<close>

definition observeSpec :: "('r option \<Rightarrow> instant \<Rightarrow> 'r \<times> 'd) \<Rightarrow> string \<Rightarrow> instant \<Rightarrow> (string \<Rightarrow> 'r option) \<Rightarrow> 'd \<times> (string \<Rightarrow> 'r option)" where
  "observeSpec step key now m = (case step (m key) now of (run, d) \<Rightarrow> (d, m(key \<mapsto> run)))"

fun observeAll :: "('r option \<Rightarrow> instant \<Rightarrow> 'r \<times> 'd) \<Rightarrow> ('r \<Rightarrow> instant) \<Rightarrow> duration
    \<Rightarrow> (string \<times> instant \<times> string list) list \<Rightarrow> (string \<times> 'r) list \<Rightarrow> 'd list" where
  "observeAll step runAt forget [] runs = []"
| "observeAll step runAt forget ((key, now, visited) # es) runs =
     (case observeRun step runAt forget key now visited runs of (d, runs') \<Rightarrow> d # observeAll step runAt forget es runs')"

fun observeSpecAll :: "('r option \<Rightarrow> instant \<Rightarrow> 'r \<times> 'd) \<Rightarrow> (string \<times> instant \<times> string list) list \<Rightarrow> (string \<Rightarrow> 'r option) \<Rightarrow> 'd list" where
  "observeSpecAll step [] m = []"
| "observeSpecAll step ((key, now, visited) # es) m =
     (case observeSpec step key now m of (d, m') \<Rightarrow> d # observeSpecAll step es m')"

locale forgetful_tracker =
  fixes step :: "'r option \<Rightarrow> instant \<Rightarrow> 'r \<times> 'd" and runAt :: "'r \<Rightarrow> instant" and forget :: duration
  assumes forgets: "forget \<le> now - runAt r \<Longrightarrow> step (Some r) now = step None now"
    and stamped: "runAt (fst (step prev now)) = now"
begin

text \<open>The pruned map agrees with the reference, or has lost a run that is past its forget window.\<close>

definition tracks :: "instant \<Rightarrow> (string \<times> 'r) list \<Rightarrow> (string \<Rightarrow> 'r option) \<Rightarrow> bool" where
  "tracks now runs m \<longleftrightarrow> distinct (map fst runs) \<and> (\<forall>k. map_of runs k = m k \<or>
     (map_of runs k = None \<and> (\<exists>r. m k = Some r \<and> forget \<le> now - runAt r)))"

lemma tracks_later: "tracks now runs m \<Longrightarrow> now \<le> now' \<Longrightarrow> tracks now' runs m"
  unfolding tracks_def by fastforce

lemma tracks_step:
  assumes "tracks now runs m" "observeRun step runAt forget key now visited runs = (d, runs')"
    and "observeSpec step key now m = (d', m')"
  shows "d' = d \<and> tracks now runs' m'"
proof -
  have same: "step (map_of runs key) now = step (m key) now"
    using assms(1) forgets unfolding tracks_def by (metis option.exhaust)
  obtain run where r: "step (m key) now = (run, d)" "runs' = pruneRuns runAt forget visited now (AList.update key run runs)"
    using assms(2) same by (auto simp: observeRun_def split: prod.splits)
  have m': "m' = m(key \<mapsto> run)" "d' = d" using assms(3) r(1) by (auto simp: observeSpec_def)
  let ?u = "AList.update key run runs"
  have dist: "distinct (map fst ?u)" using assms(1) by (simp add: tracks_def distinct_update)
  have look: "map_of ?u k = (if k = key then Some run else map_of runs k)" for k by (simp add: update_conv')
  have t: "tracks now ?u m'" using assms(1) dist unfolding tracks_def m' look by (auto simp: look)
  have "tracks now runs' m'"
  proof (cases "length ?u < 1024")
    case True
    then show ?thesis using t r(2) by (simp add: pruneRuns_def)
  next
    case False
    then have p: "runs' = filter (\<lambda>(k, r). \<not> (k \<in> set (List.take 64 visited) \<and> forget \<le> now - runAt r)) ?u"
      using r(2) by (simp add: pruneRuns_def)
    have "map_of runs' k = m' k \<or> (map_of runs' k = None \<and> (\<exists>r. m' k = Some r \<and> forget \<le> now - runAt r))" for k
    proof (cases "map_of ?u k")
      case None
      then have "map_of runs' k = None" by (simp add: p map_of_filter_distinct [OF dist])
      then show ?thesis using t None unfolding tracks_def by metis
    next
      case (Some r)
      then have "m' k = Some r" using t unfolding tracks_def by (metis option.distinct(1))
      then show ?thesis using Some by (auto simp: p map_of_filter_distinct [OF dist])
    qed
    then show ?thesis using dist unfolding tracks_def p by (auto simp: distinct_map_filter)
  qed
  then show ?thesis using m' by simp
qed

lemma prune_invisible:
  "tracks now runs m \<Longrightarrow> sorted (now # map (\<lambda>(k, t, v). t) es) \<Longrightarrow>
   observeAll step runAt forget es runs = observeSpecAll step es m"
proof (induction es arbitrary: now runs m)
  case (Cons e es)
  obtain key t v where e: "e = (key, t, v)" by (cases e) auto
  have "tracks t runs m" using tracks_later [OF Cons.prems(1)] Cons.prems(2) e by simp
  moreover obtain d runs' d' m' where o: "observeRun step runAt forget key t v runs = (d, runs')" "observeSpec step key t m = (d', m')"
    by (metis surj_pair)
  ultimately have "d' = d" "tracks t runs' m'" using tracks_step by blast+
  then show ?case using Cons.IH [of t runs' m'] Cons.prems(2) o by (simp add: e)
qed simp

end

interpretation rate: forgetful_tracker rateStep rr_at RateForget
  by unfold_locales (auto simp: rateStep_def Let_def)

interpretation slow: forgetful_tracker slowStep sl_at SlowForget
  by unfold_locales (auto simp: slowStep_def Let_def split: option.splits)

text \<open>
C35.
  Pruning is invisible: whatever keys the bounded prune passes happen to visit, both trackers give
exactly the answers of a tracker that never drops a key, as long as the clock does not run
backwards.
\<close>

theorem pruning_invisible:
  assumes "sorted (map (\<lambda>(k, t, v). t) es)"
  shows "observeAll rateStep rr_at RateForget es [] = observeSpecAll rateStep es (\<lambda>_. None)
    \<and> observeAll slowStep sl_at SlowForget es [] = observeSpecAll slowStep es (\<lambda>_. None)"
proof (cases es)
  case (Cons e es')
  let ?t = "fst (snd e)"
  have "sorted (?t # map (\<lambda>(k, t, v). t) es)" using assms Cons by (cases e) auto
  then show ?thesis using rate.prune_invisible [of ?t "[]" "\<lambda>_. None" es] slow.prune_invisible [of ?t "[]" "\<lambda>_. None" es]
    by (simp add: rate.tracks_def slow.tracks_def)
qed simp

theorem pruning_invisible_witness:
  "observeAll rateStep rr_at RateForget [(''a'', 0, []), (''a'', 5, [''a''])] []
   = observeSpecAll rateStep [(''a'', 0, []), (''a'', 5, [''a''])] (\<lambda>_. None)"
  using pruning_invisible [of "[(''a'', 0, []), (''a'', 5, [''a''])]"] by simp

section \<open>The ladder of rate limits\<close>

fun rateRuns :: "rateRun option \<Rightarrow> instant list \<Rightarrow> rateBackoffDecision list" where
  "rateRuns prev [] = []"
| "rateRuns prev (t # ts) = (case rateStep prev t of (r, d) \<Rightarrow> d # rateRuns (Some r) ts)"

fun closeTogether :: "duration \<Rightarrow> instant list \<Rightarrow> bool" where
  "closeTogether w (t # u # ts) = (u - t < w \<and> closeTogether w (u # ts))"
| "closeTogether w _ = True"

definition rateLadder :: "nat \<Rightarrow> duration" where
  "rateLadder i = (if i < 4 then 3 * go_minute * 2 ^ i else 30 * go_minute)"

lemma rateStep_next:
  assumes "case prev of None \<Rightarrow> i = 0 | Some r \<Rightarrow> rr_n r = int i \<and> t - rr_at r < RateForget"
  shows "rateStep prev t = (\<lparr>rr_n = int i + 1, rr_at = t\<rparr>,
     \<lparr>rd_Duration = rateLadder i, rd_Count = int i + 1, rd_Escalated = (0 < i)\<rparr>)"
proof -
  have n: "(case prev of None \<Rightarrow> 0 | Some r \<Rightarrow> if RateForget \<le> t - rr_at r then 0 else rr_n r) = int i"
    using assms by (auto split: option.splits)
  have i: "i = 0 \<or> i = 1 \<or> i = 2 \<or> i = 3 \<or> 4 \<le> i" by linarith
  have big: "nat (if rateBackoffMaxShift < int i then rateBackoffMaxShift else int i) = 4" if "4 \<le> i"
    using that by (simp add: rateBackoffMaxShift_def)
  show ?thesis unfolding rateStep_def Let_def n
    using i big by (elim disjE) (simp_all add: rateLadder_def rate_consts)
qed

lemma rateRuns_ladder:
  "closeTogether RateForget ts \<Longrightarrow> (case prev of None \<Rightarrow> i = 0 | Some r \<Rightarrow> rr_n r = int i \<and> (ts \<noteq> [] \<longrightarrow> hd ts - rr_at r < RateForget)) \<Longrightarrow>
   rateRuns prev ts = map (\<lambda>j. \<lparr>rd_Duration = rateLadder (i + j), rd_Count = int (i + j) + 1, rd_Escalated = (0 < i + j)\<rparr>) [0..<length ts]"
proof (induction ts arbitrary: prev i)
  case (Cons t ts)
  have s: "rateStep prev t = (\<lparr>rr_n = int i + 1, rr_at = t\<rparr>, \<lparr>rd_Duration = rateLadder i, rd_Count = int i + 1, rd_Escalated = (0 < i)\<rparr>)"
    using Cons.prems(2) by (intro rateStep_next) (auto split: option.splits)
  have "closeTogether RateForget ts" "ts \<noteq> [] \<longrightarrow> hd ts - t < RateForget" using Cons.prems(1) by (cases ts; simp)+
  then have "rateRuns (Some \<lparr>rr_n = int i + 1, rr_at = t\<rparr>) ts =
      map (\<lambda>j. \<lparr>rd_Duration = rateLadder (Suc i + j), rd_Count = int (Suc i + j) + 1, rd_Escalated = (0 < Suc i + j)\<rparr>) [0..<length ts]"
    by (intro Cons.IH) auto
  moreover have "[0..<length (t # ts)] = 0 # map Suc [0..<length ts]" by (simp add: map_Suc_upt upt_conv_Cons del: upt_Suc)
  ultimately show ?case using s by (simp add: comp_def del: upt_Suc)
qed simp

text \<open>
Consecutive rate limits on one binding, each less than half an hour after the previous one, cool
it for exactly 3, 6, 12 and 24 minutes and then 30 minutes each time; after half an hour without a
rate limit the ladder starts again at 3 minutes.
\<close>

theorem rate_ladder_exact:
  assumes "closeTogether RateForget ts" "i < length ts"
  shows "rd_Duration (rateRuns None ts ! i) = (if i < 4 then 3 * go_minute * 2 ^ i else 30 * go_minute)
    \<and> rd_Count (rateRuns None ts ! i) = int i + 1
    \<and> (RateForget \<le> now - rr_at r \<longrightarrow> rd_Duration (snd (rateStep (Some r) now)) = 3 * go_minute)"
proof -
  have "rd_Duration (snd (rateStep (Some r) now)) = 3 * go_minute" if "RateForget \<le> now - rr_at r"
    unfolding rate.forgets [OF that] by (simp add: rateStep_def Let_def rate_consts)
  then show ?thesis using rateRuns_ladder [OF assms(1), where prev = None and i = 0] assms(2) by (simp add: rateLadder_def)
qed

theorem rate_ladder_exact_witness:
  "rd_Duration (rateRuns None [0, 10 * go_minute, 20 * go_minute, 30 * go_minute, 40 * go_minute] ! 3) = 24 * go_minute
   \<and> rd_Duration (rateRuns None [0, 10 * go_minute, 20 * go_minute, 30 * go_minute, 40 * go_minute] ! 4) = 30 * go_minute"
  using rate_ladder_exact [of "[0, 10 * go_minute, 20 * go_minute, 30 * go_minute, 40 * go_minute]" 3]
    rate_ladder_exact [of "[0, 10 * go_minute, 20 * go_minute, 30 * go_minute, 40 * go_minute]" 4]
  by (simp add: RateForget_def)

lemma rate_cooling_bounds:
  "0 < fst (rateLimitedCoolingDuration ra t key now visited) \<and> fst (rateLimitedCoolingDuration ra t key now visited) \<le> MaxRateRetryAfter"
proof -
  have step: "0 < rd_Duration (snd (rateStep prev now)) \<and> rd_Duration (snd (rateStep prev now)) \<le> MaxRateRetryAfter" for prev
    by (auto simp: rateStep_def Let_def rate_consts)
  have "0 < rd_Duration (fst (rb_Observe key now visited runs)) \<and> rd_Duration (fst (rb_Observe key now visited runs)) \<le> MaxRateRetryAfter" for runs
    using step [of "map_of runs key"] by (simp add: rb_Observe_def observeRun_def case_prod_beta)
  then show ?thesis by (auto simp: rateLimitedCoolingDuration_def rate_consts case_prod_beta split: option.splits)
qed

section \<open>Slow starts never rest longer than 32 minutes\<close>

definition slow_ok :: "slowRun \<Rightarrow> bool" where
  "slow_ok r \<longleftrightarrow> 1 \<le> sl_n r \<and> sl_n r \<le> 7 \<and> (sl_n r = 1 \<longrightarrow> sl_until r = None)
     \<and> (2 \<le> sl_n r \<longrightarrow> sl_until r = Some (sl_at r + go_minute * 2 ^ nat (sl_n r - 2)))"

definition slow_fine :: "instant \<Rightarrow> slowRestDecision \<Rightarrow> bool" where
  "slow_fine now d \<longleftrightarrow> 1 \<le> sd_Count d \<and> sd_Count d \<le> 7 \<and> sd_Rest d = (2 \<le> sd_Count d)
     \<and> (sd_Rest d \<longrightarrow> sd_Until d = Some (now + go_minute * 2 ^ nat (sd_Count d - 2)))"

lemma slowStep_ok:
  assumes "case prev of None \<Rightarrow> True | Some r \<Rightarrow> slow_ok r" "slowStep prev now = (r', d)"
  shows "slow_ok r' \<and> slow_fine now d"
proof -
  define r0 where "r0 = (case prev of None \<Rightarrow> \<lparr>sl_n = 0, sl_at = now, sl_until = None\<rparr>
                | Some r \<Rightarrow> if SlowForget \<le> now - sl_at r then r\<lparr>sl_n := 0, sl_until := None\<rparr> else r)"
  define n where "n = (if \<not> (case sl_until r0 of None \<Rightarrow> False | Some u \<Rightarrow> now < u) \<or> sl_n r0 = 0 then sl_n r0 + 1 else sl_n r0)"
  have n: "1 \<le> n \<and> n \<le> 7 \<and> (n = 1 \<longrightarrow> sl_until r0 = None)"
  proof (cases "sl_n r0 = 0")
    case True
    then show ?thesis using assms(1) by (auto simp: n_def r0_def slow_ok_def split: option.splits if_splits)
  next
    case False
    then obtain r where r: "prev = Some r" "now - sl_at r < SlowForget" "r0 = r" "slow_ok r"
      using assms(1) by (auto simp: r0_def split: option.splits if_splits)
    show ?thesis
    proof (cases "sl_n r = 7")
      case True
      then have "sl_until r = Some (sl_at r + go_minute * 32)" using r(4) by (simp add: slow_ok_def)
      then show ?thesis using r True by (simp add: n_def SlowForget_def)
    next
      case False
      then show ?thesis using r by (auto simp: n_def slow_ok_def split: option.splits)
    qed
  qed
  have out: "slowStep prev now = (let run = r0\<lparr>sl_n := n, sl_at := now\<rparr>
      in if n < SlowRests then (run, \<lparr>sd_Rest = False, sd_Until = None, sd_Count = n, sd_By = []\<rparr>)
         else let shift = (if slowMaxShift < n - SlowRests then slowMaxShift else n - SlowRests);
               u = now + SlowFallbackCooldown * 2 ^ nat shift
           in (run\<lparr>sl_until := Some u\<rparr>,
               \<lparr>sd_Rest = True, sd_Until = Some u, sd_Count = n, sd_By = (if SlowRests < n then ''backoff'' else ''cooldown'')\<rparr>))"
    unfolding slowStep_def n_def r0_def Let_def ..
  show ?thesis using assms(2) n unfolding out
    by (auto simp: Let_def slow_consts slow_ok_def slow_fine_def split: if_splits)
qed

lemma observeRun_keeps:
  assumes "\<forall>(k, r) \<in> set runs. P r" "observeRun step runAt forget key now visited runs = (d, runs')"
    and "\<And>prev r' d. case prev of None \<Rightarrow> True | Some r \<Rightarrow> P r \<Longrightarrow> step prev now = (r', d) \<Longrightarrow> P r' \<and> Q d"
  shows "(\<forall>(k, r) \<in> set runs'. P r) \<and> Q d"
proof -
  obtain run where s: "step (map_of runs key) now = (run, d)" "runs' = pruneRuns runAt forget visited now (AList.update key run runs)"
    using assms(2) by (auto simp: observeRun_def split: prod.splits)
  have "case map_of runs key of None \<Rightarrow> True | Some r \<Rightarrow> P r"
    using assms(1) by (auto dest: map_of_SomeD split: option.splits)
  from assms(3) [OF this s(1)] have pq: "P run" "Q d" by simp_all
  have upd: "set (AList.update key run xs) \<subseteq> insert (key, run) (set xs)" for xs by (induction xs) auto
  have "\<forall>(k, r) \<in> set (AList.update key run runs). P r" using upd [of runs] assms(1) pq(1) by fastforce
  then show ?thesis using pq(2) s(2) by (auto simp: pruneRuns_def)
qed

datatype slowOp = SlowSee string instant "string list" | SlowSwitch bool

fun slowOpStep :: "slowOp \<Rightarrow> slowRestTracker \<Rightarrow> slowRestDecision option \<times> slowRestTracker" where
  "slowOpStep (SlowSee key now visited) t = (case sl_Observe key now visited t of (d, t') \<Rightarrow> (Some d, t'))"
| "slowOpStep (SlowSwitch b) t = (None, SetDisabled b t)"

lemma slow_tracker_inv:
  assumes "\<forall>(k, r) \<in> set (sl_runs t). slow_ok r"
  shows "(\<forall>(k, r) \<in> set (sl_runs (snd (slowOpStep x t))). slow_ok r)
    \<and> (case x of SlowSwitch b \<Rightarrow> True | SlowSee key now visited \<Rightarrow>
         sl_disabled t \<or> slow_fine now (fst (sl_Observe key now visited t)))"
proof (cases x)
  case (SlowSee key now visited)
  obtain d runs' where o: "observeRun slowStep sl_at SlowForget key now visited (sl_runs t) = (d, runs')" by (metis surj_pair)
  have "(\<forall>(k, r) \<in> set runs'. slow_ok r) \<and> slow_fine now d"
    by (rule observeRun_keeps [OF assms o]) (rule slowStep_ok)
  then show ?thesis using SlowSee assms o by (simp add: sl_Observe_def)
qed (use assms in \<open>simp add: SetDisabled_def\<close>)

lemma slow_tracker_run: "\<forall>(k, r) \<in> set (sl_runs (snd (run_ops slowOpStep xs \<lparr>sl_runs = [], sl_disabled = b\<rparr>))). slow_ok r"
  by (rule inv_run_ops [where I = "\<lambda>t. \<forall>(k, r) \<in> set (sl_runs t). slow_ok r"]) (use slow_tracker_inv in blast, simp)

text \<open>
Slow starts: the first one is never punished, and although the code allows the rest to double up
to ten times (17 hours), the forget window of half an hour cuts the ladder off: over any sequence of
observations, on any keys, with pruning and the kill switch toggled in between, the count never
exceeds seven and no rest is longer than 32 minutes.
\<close>

theorem slow_rest_bounded:
  assumes "t = snd (run_ops slowOpStep xs \<lparr>sl_runs = [], sl_disabled = b\<rparr>)" "\<not> sl_disabled t"
    and "sl_Observe key now visited t = (d, t')"
  shows "1 \<le> sd_Count d \<and> sd_Count d \<le> 7 \<and> (sd_Rest d \<longleftrightarrow> 2 \<le> sd_Count d)
    \<and> (sd_Rest d \<longrightarrow> (\<exists>u. sd_Until d = Some u \<and> now < u \<and> u \<le> now + 32 * go_minute))"
proof -
  have "\<forall>(k, r) \<in> set (sl_runs t). slow_ok r" unfolding assms(1) by (rule slow_tracker_run)
  from slow_tracker_inv [OF this, of "SlowSee key now visited"] have f: "slow_fine now d" using assms(2,3) by simp
  have "(2::int) ^ nat (sd_Count d - 2) \<le> 2 ^ 5" using f by (intro power_increasing) (auto simp: slow_fine_def)
  then show ?thesis using f by (auto simp: slow_fine_def)
qed

theorem slow_rest_bounded_witness:
  "\<not> sd_Rest (fst (sl_Observe ''c/m'' 0 [] \<lparr>sl_runs = [], sl_disabled = False\<rparr>))"
proof -
  obtain d t' where o: "sl_Observe ''c/m'' 0 [] \<lparr>sl_runs = [], sl_disabled = False\<rparr> = (d, t')" by (metis surj_pair)
  have "sd_Count d = 1" using o by (auto simp: sl_Observe_def observeRun_def slowStep_def Let_def slow_consts)
  then show ?thesis using slow_rest_bounded [where xs = "[]" and b = False, OF _ _ o] o by simp
qed

end
