(* ===== verification/ConnPool.thy ===== *)
theory ConnPool
  imports Prelude
begin

text \<open>
  The identity-bound connection pools of \<open>pool/pool.go\<close>: the health state machine of one pool
  (active, degraded, draining, dead), its bounded connection slots, and the manager that creates
  pools on demand and evicts idle and surplus ones. The HTTP transport is not modelled: a probe is
  its outcome. Each method is one step; the counters are exact integers, instants are nanoseconds and
  the two stored timestamps are the milliseconds the code stores, 0 meaning unset. The manager's map
  is an association list in iteration order.
\<close>

section \<open>One pool\<close>

datatype poolState = PoolActive | PoolDraining | PoolDegraded | PoolDead

definition degradedThreshold :: int where "degradedThreshold = 3"
definition deadThreshold :: int where "deadThreshold = 10"
definition successThreshold :: int where "successThreshold = 3"
definition poolIdleTTL :: duration where "poolIdleTTL = 3 * go_minute"
definition poolMaxPools :: nat where "poolMaxPools = 256"
definition poolMaxActiveConns :: nat where "poolMaxActiveConns = 32"
definition defaultGracePeriod :: duration where "defaultGracePeriod = 3 * go_minute"

lemmas pool_consts = degradedThreshold_def deadThreshold_def successThreshold_def poolIdleTTL_def poolMaxPools_def
  poolMaxActiveConns_def defaultGracePeriod_def

record connPool =
  pl_probeURL :: string
  pl_state :: poolState
  pl_failCount :: int
  pl_successCount :: int
  pl_lastUsed :: int
  pl_drainingSince :: int
  pl_closed :: bool
  pl_activeConns :: nat
  pl_gracePeriod :: duration

definition unixMilli :: "instant \<Rightarrow> int" where "unixMilli t = t div go_millisecond"

definition NewPool :: "string \<Rightarrow> connPool" where
  "NewPool probeURL = \<lparr>pl_probeURL = probeURL, pl_state = PoolActive, pl_failCount = 0, pl_successCount = 0,
     pl_lastUsed = 0, pl_drainingSince = 0, pl_closed = False, pl_activeConns = 0, pl_gracePeriod = defaultGracePeriod\<rparr>"

definition pl_touch :: "instant \<Rightarrow> connPool \<Rightarrow> connPool" where
  "pl_touch now p = p\<lparr>pl_lastUsed := unixMilli now\<rparr>"

datatype acquireResult = PoolOk | ErrPoolClosed | PoolCtxErr | PoolWaits

text \<open>
  One pass of \<open>Acquire\<close>. \<open>closes\<close> says that \<open>Close\<close> ran between the first check and
  the send, which the second check catches; a full pool waits until the context ends.
\<close>

definition pl_Acquire :: "instant \<Rightarrow> bool \<Rightarrow> bool \<Rightarrow> connPool \<Rightarrow> acquireResult \<times> connPool" where
  "pl_Acquire now closes ctxDone p =
     (if pl_closed p then (ErrPoolClosed, p)
      else if pl_state p = PoolDead then (ErrPoolClosed, p)
      else if pl_activeConns p < poolMaxActiveConns then
        if closes then (ErrPoolClosed, p\<lparr>pl_closed := True\<rparr>)
        else (PoolOk, pl_touch now (p\<lparr>pl_activeConns := pl_activeConns p + 1\<rparr>))
      else if closes then (ErrPoolClosed, p\<lparr>pl_closed := True\<rparr>)
      else if ctxDone then (PoolCtxErr, p) else (PoolWaits, p))"

definition pl_Release :: "connPool \<Rightarrow> connPool" where
  "pl_Release p = p\<lparr>pl_activeConns := pl_activeConns p - 1\<rparr>"

definition pl_RecordFailure :: "instant \<Rightarrow> connPool \<Rightarrow> connPool" where
  "pl_RecordFailure now p0 =
     (let n = pl_failCount p0 + 1;
          p = p0\<lparr>pl_failCount := n, pl_successCount := 0\<rparr>
      in if deadThreshold \<le> n \<and> pl_state p \<noteq> PoolDraining
         then p\<lparr>pl_state := PoolDraining, pl_drainingSince := unixMilli now, pl_failCount := 0, pl_successCount := 0\<rparr>
         else if degradedThreshold \<le> n \<and> pl_state p = PoolActive then p\<lparr>pl_state := PoolDegraded\<rparr>
         else p)"

definition pl_RecordSuccess :: "connPool \<Rightarrow> connPool" where
  "pl_RecordSuccess p0 =
     (let n = pl_successCount p0 + 1;
          p = p0\<lparr>pl_failCount := 0, pl_successCount := n\<rparr>
      in if pl_state p = PoolDead \<and> successThreshold \<le> n
         then p\<lparr>pl_state := PoolActive, pl_successCount := 0, pl_drainingSince := 0, pl_failCount := 0\<rparr>
         else if (pl_state p = PoolDegraded \<or> pl_state p = PoolDraining) \<and> successThreshold \<le> n
         then p\<lparr>pl_state := PoolActive, pl_successCount := 0, pl_failCount := 0, pl_drainingSince := 0\<rparr>
         else p)"

definition pl_probe :: "instant \<Rightarrow> bool \<Rightarrow> connPool \<Rightarrow> connPool" where
  "pl_probe now healthy p =
     (if pl_probeURL p = [] then p else if healthy then pl_RecordSuccess p else pl_RecordFailure now p)"

definition checkDrainingGracePeriod :: "instant \<Rightarrow> connPool \<Rightarrow> connPool" where
  "checkDrainingGracePeriod now p =
     (if pl_state p \<noteq> PoolDraining then p
      else if pl_drainingSince p = 0 then p
      else if pl_gracePeriod p \<le> now - pl_drainingSince p * go_millisecond then p\<lparr>pl_state := PoolDead\<rparr> else p)"

definition healthTick :: "instant \<Rightarrow> bool \<Rightarrow> connPool \<Rightarrow> connPool" where
  "healthTick now healthy p = checkDrainingGracePeriod now (pl_probe now healthy p)"

definition pl_Close :: "connPool \<Rightarrow> connPool" where
  "pl_Close p = p\<lparr>pl_closed := True\<rparr>"

section \<open>The manager\<close>

record poolKey =
  pk_IdentityHash :: string
  pk_ProviderID :: int
  pk_CredentialID :: int

record poolManager =
  pm_pools :: "(poolKey \<times> connPool) list"
  pm_stopped :: bool

definition NewPoolManager :: poolManager where
  "NewPoolManager = \<lparr>pm_pools = [], pm_stopped = False\<rparr>"

fun oldestPool :: "(poolKey \<times> connPool) option \<Rightarrow> (poolKey \<times> connPool) list \<Rightarrow> (poolKey \<times> connPool) option" where
  "oldestPool best [] = best"
| "oldestPool best ((k, p) # rest) = oldestPool
     (case best of None \<Rightarrow> Some (k, p) | Some b \<Rightarrow> if pl_lastUsed p < pl_lastUsed (snd b) then Some (k, p) else best) rest"

definition evictOldestLocked :: "poolManager \<Rightarrow> connPool option \<times> poolManager" where
  "evictOldestLocked pm = (case oldestPool None (pm_pools pm) of
     None \<Rightarrow> (None, pm)
   | Some (k, p) \<Rightarrow> (Some p, pm\<lparr>pm_pools := filter (\<lambda>(k', _). k' \<noteq> k) (pm_pools pm)\<rparr>))"

text \<open>The evicted pool is handed back: the code closes it after releasing the lock.\<close>

definition pm_GetOrCreate :: "instant \<Rightarrow> poolKey \<Rightarrow> string \<Rightarrow> poolManager \<Rightarrow> connPool option \<times> connPool option \<times> poolManager" where
  "pm_GetOrCreate now key probeURL pm =
     (if pm_stopped pm then (None, None, pm)
      else case map_of (pm_pools pm) key of
        Some p \<Rightarrow> (Some (pl_touch now p), None, pm\<lparr>pm_pools := AList.update key (pl_touch now p) (pm_pools pm)\<rparr>)
      | None \<Rightarrow>
          (case (if poolMaxPools \<le> length (pm_pools pm) then evictOldestLocked pm else (None, pm)) of
             (victim, pm') \<Rightarrow>
               let p = pl_touch now (NewPool probeURL)
               in (Some p, map_option pl_Close victim, pm'\<lparr>pm_pools := (key, p) # pm_pools pm'\<rparr>)))"

definition pm_Get :: "poolKey \<Rightarrow> poolManager \<Rightarrow> connPool option" where
  "pm_Get key pm = map_of (pm_pools pm) key"

definition isIdle :: "instant \<Rightarrow> connPool \<Rightarrow> bool" where
  "isIdle now p \<longleftrightarrow> pl_lastUsed p \<noteq> 0 \<and> poolIdleTTL < now - pl_lastUsed p * go_millisecond"

definition evictIdle :: "instant \<Rightarrow> poolManager \<Rightarrow> connPool list \<times> poolManager" where
  "evictIdle now pm =
     (map (pl_Close \<circ> snd) (filter (\<lambda>(_, p). isIdle now p) (pm_pools pm)),
      pm\<lparr>pm_pools := filter (\<lambda>(_, p). \<not> isIdle now p) (pm_pools pm)\<rparr>)"

definition pm_Stop :: "poolManager \<Rightarrow> poolManager" where
  "pm_Stop pm = pm\<lparr>pm_stopped := True\<rparr>"

definition CloseAll :: "poolManager \<Rightarrow> connPool list \<times> poolManager" where
  "CloseAll pm = (map (pl_Close \<circ> snd) (pm_pools pm), pm\<lparr>pm_pools := []\<rparr>)"

definition pm_on :: "poolKey \<Rightarrow> (connPool \<Rightarrow> connPool) \<Rightarrow> poolManager \<Rightarrow> poolManager" where
  "pm_on key f pm = (case map_of (pm_pools pm) key of None \<Rightarrow> pm
     | Some p \<Rightarrow> pm\<lparr>pm_pools := AList.update key (f p) (pm_pools pm)\<rparr>)"

section \<open>Health of one pool\<close>

definition failTimes :: "instant list \<Rightarrow> connPool \<Rightarrow> connPool" where
  "failTimes ts p = fold pl_RecordFailure ts p"

definition healthAfter :: "nat \<Rightarrow> poolState" where
  "healthAfter n = (if n < 3 then PoolActive else if n < 10 then PoolDegraded else PoolDraining)"

lemma failTimes_state:
  assumes "pl_state p = PoolActive" "pl_failCount p = 0"
  shows "pl_state (failTimes ts p) = healthAfter (length ts)
    \<and> (length ts < 10 \<longrightarrow> pl_failCount (failTimes ts p) = int (length ts))
    \<and> (10 \<le> length ts \<longrightarrow> pl_drainingSince (failTimes ts p) = unixMilli (ts ! 9))"
proof (induction ts rule: rev_induct)
  case Nil
  then show ?case using assms by (simp add: failTimes_def healthAfter_def)
next
  case (snoc t ts)
  have f: "failTimes (ts @ [t]) p = pl_RecordFailure t (failTimes ts p)" by (simp add: failTimes_def)
  consider "length ts < 2" | "length ts = 2" | "2 < length ts" "length ts < 9" | "length ts = 9" | "9 < length ts" by linarith
  then show ?case using snoc.IH unfolding f
    by cases (auto simp: pl_RecordFailure_def Let_def pool_consts healthAfter_def nth_append)
qed

text \<open>
From a healthy pool, consecutive failures walk the health ladder exactly: active below three,
degraded from the third, draining from the tenth; the grace period runs from the tenth failure. And
three consecutive successes make a pool active again from every state, dead included.
\<close>

theorem pool_health_ladder:
  assumes "pl_state p = PoolActive" "pl_failCount p = 0" "0 \<le> pl_successCount q"
  shows "pl_state (failTimes ts p) = (if length ts < 3 then PoolActive else if length ts < 10 then PoolDegraded else PoolDraining)
    \<and> (10 \<le> length ts \<longrightarrow> pl_drainingSince (failTimes ts p) = unixMilli (ts ! 9))
    \<and> pl_state ((pl_RecordSuccess ^^ 3) q) = PoolActive"
proof -
  have "pl_state ((pl_RecordSuccess ^^ 3) q) = PoolActive" using assms(3)
    by (cases "pl_state q") (auto simp: numeral_3_eq_3 pl_RecordSuccess_def Let_def pool_consts)
  then show ?thesis using failTimes_state [OF assms(1,2), of ts] by (simp add: healthAfter_def)
qed

theorem pool_health_ladder_witness:
  "pl_state (failTimes [1, 2, 3] (NewPool [])) = PoolDegraded"
  using pool_health_ladder [of "NewPool []" "NewPool []" "[1, 2, 3]"] by (simp add: NewPool_def)

section \<open>A dead pool without a probe\<close>

text \<open>
  What happens to one pool of the manager: requests that look it up and try to use it (recording
  their outcome only when they got a connection), ticks of its health loop, and ticks of the idle
  eviction. \<open>None\<close> is a pool that was evicted.
\<close>

datatype poolEvent = PoolRequest instant bool | PoolHealth instant bool | PoolEvict instant

fun poolStep :: "poolEvent \<Rightarrow> connPool option \<Rightarrow> acquireResult option \<times> connPool option" where
  "poolStep e None = (None, None)"
| "poolStep (PoolRequest now healthy) (Some p) = (case pl_Acquire now False True (pl_touch now p) of
     (PoolOk, p') \<Rightarrow> (Some PoolOk, Some (pl_Release (if healthy then pl_RecordSuccess p' else pl_RecordFailure now p')))
   | (r, p') \<Rightarrow> (Some r, Some p'))"
| "poolStep (PoolHealth now healthy) (Some p) = (None, Some (healthTick now healthy p))"
| "poolStep (PoolEvict now) (Some p) = (None, if isIdle now p then None else Some p)"

fun busyEnough :: "int \<Rightarrow> poolEvent list \<Rightarrow> bool" where
  "busyEnough lu [] = True"
| "busyEnough lu (PoolRequest now healthy # es) = busyEnough (unixMilli now) es"
| "busyEnough lu (PoolHealth now healthy # es) = busyEnough lu es"
| "busyEnough lu (PoolEvict now # es) = (now - lu * go_millisecond \<le> poolIdleTTL \<and> busyEnough lu es)"

lemma dead_pool_run:
  "pl_state p = PoolDead \<Longrightarrow> pl_probeURL p = [] \<Longrightarrow> busyEnough (pl_lastUsed p) es \<Longrightarrow>
   (\<exists>q. snd (run_ops poolStep es (Some p)) = Some q \<and> pl_state q = PoolDead)
   \<and> set (fst (run_ops poolStep es (Some p))) \<subseteq> {None, Some ErrPoolClosed}"
proof (induction es arbitrary: p)
  case (Cons e es)
  have "\<exists>r q. poolStep e (Some p) = (r, Some q) \<and> r \<in> {None, Some ErrPoolClosed} \<and> pl_state q = PoolDead
      \<and> pl_probeURL q = [] \<and> busyEnough (pl_lastUsed q) es"
    using Cons.prems
    by (cases e) (auto simp: pl_Acquire_def pl_touch_def healthTick_def pl_probe_def checkDrainingGracePeriod_def isIdle_def)
  then obtain r q where q: "poolStep e (Some p) = (r, Some q)" "r \<in> {None, Some ErrPoolClosed}" "pl_state q = PoolDead"
    "pl_probeURL q = []" "busyEnough (pl_lastUsed q) es" by blast
  from Cons.IH [OF q(3-5)] q(1,2) show ?case by (auto split: prod.splits)
qed simp

text \<open>
A dead pool without a probe URL, which is how the executors create every pool, never recovers
while it is in use: as long as requests for it keep arriving within the idle limit, every one of
them is refused, whatever the upstream would answer, because only requests could record the
successes that revive it.
\<close>

theorem dead_pool_never_recovers:
  assumes "pl_state p = PoolDead" "pl_probeURL p = []" "busyEnough (pl_lastUsed p) es"
    and "i < length es" "es ! i = PoolRequest now healthy"
  shows "fst (run_ops poolStep es (Some p)) ! i = Some ErrPoolClosed"
proof -
  have pre: "busyEnough l (xs @ ys) \<Longrightarrow> busyEnough l xs" for l xs ys
    by (induction l xs rule: busyEnough.induct) auto
  have "busyEnough (pl_lastUsed p) (List.take i es)" using assms(3) pre [of _ "List.take i es" "List.drop i es"] by simp
  then obtain q where "snd (run_ops poolStep (List.take i es) (Some p)) = Some q" "pl_state q = PoolDead"
    using dead_pool_run [OF assms(1,2)] by blast
  then show ?thesis using nth_run_ops [OF assms(4), of poolStep "Some p"] assms(5) by (simp add: pl_Acquire_def pl_touch_def)
qed

theorem dead_pool_never_recovers_witness:
  "fst (run_ops poolStep [PoolRequest go_minute True, PoolEvict (2 * go_minute), PoolHealth (3 * go_minute) True, PoolRequest (3 * go_minute) True]
     (Some ((NewPool [])\<lparr>pl_state := PoolDead\<rparr>))) ! 3 = Some ErrPoolClosed"
  by (rule dead_pool_never_recovers [where now = "3 * go_minute" and healthy = True])
    (simp_all add: NewPool_def unixMilli_def poolIdleTTL_def)

section \<open>The manager stays bounded\<close>

lemma oldestPool_some: "xs \<noteq> [] \<or> best \<noteq> None \<Longrightarrow> \<exists>k p. oldestPool best xs = Some (k, p) \<and> (best = Some (k, p) \<or> (k, p) \<in> set xs)"
proof (induction best xs rule: oldestPool.induct)
  case (2 best k p rest)
  let ?b = "case best of None \<Rightarrow> Some (k, p) | Some b \<Rightarrow> if pl_lastUsed p < pl_lastUsed (snd b) then Some (k, p) else best"
  have "?b \<noteq> None" by (simp split: option.splits)
  then obtain k' p' where "oldestPool ?b rest = Some (k', p')" "?b = Some (k', p') \<or> (k', p') \<in> set rest" using 2(1) by blast
  then show ?case by (auto split: option.splits if_splits)
qed auto

lemma oldestPool_least:
  "oldestPool best xs = Some (k, p) \<Longrightarrow> (\<forall>(k', q) \<in> set xs. pl_lastUsed p \<le> pl_lastUsed q)
     \<and> (\<forall>b. best = Some b \<longrightarrow> pl_lastUsed p \<le> pl_lastUsed (snd b))"
proof (induction best xs rule: oldestPool.induct)
  case (2 best k' q rest)
  show ?case
  proof (cases best)
    case None
    then show ?thesis using 2 by auto
  next
    case (Some b)
    then show ?thesis using 2 by (cases "pl_lastUsed q < pl_lastUsed (snd b)") auto
  qed
qed simp

definition pm_inv :: "poolManager \<Rightarrow> bool" where
  "pm_inv pm \<longleftrightarrow> distinct (map fst (pm_pools pm)) \<and> length (pm_pools pm) \<le> poolMaxPools"

lemma evictOldest_frees:
  assumes "pm_inv pm" "pm_pools pm \<noteq> []" "evictOldestLocked pm = (v, pm')"
  shows "\<exists>k p. v = Some p \<and> (k, p) \<in> set (pm_pools pm) \<and> (\<forall>(k', q) \<in> set (pm_pools pm). pl_lastUsed p \<le> pl_lastUsed q)
    \<and> pm_pools pm' = filter (\<lambda>(k', _). k' \<noteq> k) (pm_pools pm) \<and> length (pm_pools pm') < length (pm_pools pm)"
proof -
  obtain k p where o: "oldestPool None (pm_pools pm) = Some (k, p)" "(k, p) \<in> set (pm_pools pm)"
    using oldestPool_some [of "pm_pools pm" None] assms(2) by auto
  have "length (filter (\<lambda>(k', _). k' \<noteq> k) (pm_pools pm)) < length (pm_pools pm)"
    using o(2) by (intro length_filter_less) auto
  then show ?thesis using o oldestPool_least [OF o(1)] assms(3) by (auto simp: evictOldestLocked_def)
qed

lemma length_update: "map_of xs k = Some u \<Longrightarrow> length (AList.update k v xs) = length xs"
  by (induction xs) (auto split: if_splits)

text \<open>
The manager never holds more than 256 pools and never two for a key. Creating a pool when it is
full gives up exactly one other pool, the least recently used, and closes it; the looked-up pool is
always in the table afterwards.
\<close>

theorem pool_manager_bounded:
  assumes "pm_inv pm" "\<not> pm_stopped pm" "pm_GetOrCreate now key url pm = (r, victim, pm')"
  shows "pm_inv pm' \<and> (\<exists>p. r = Some p \<and> map_of (pm_pools pm') key = Some p)
    \<and> (victim = None \<or> (length (pm_pools pm) = poolMaxPools \<and> map_of (pm_pools pm) key = None
         \<and> (\<exists>k p. victim = Some (pl_Close p) \<and> (k, p) \<in> set (pm_pools pm) \<and> map_of (pm_pools pm') k = None
              \<and> (\<forall>(k', q) \<in> set (pm_pools pm). pl_lastUsed p \<le> pl_lastUsed q))))"
proof (cases "map_of (pm_pools pm) key")
  case (Some p)
  then show ?thesis using assms length_update [OF Some]
    by (auto simp: pm_GetOrCreate_def pm_inv_def distinct_update update_conv')
next
  case None
  show ?thesis
  proof (cases "poolMaxPools \<le> length (pm_pools pm)")
    case False
    then show ?thesis using assms None by (auto simp: pm_GetOrCreate_def pm_inv_def Let_def map_of_eq_None_iff)
  next
    case True
    then have full: "length (pm_pools pm) = poolMaxPools" "pm_pools pm \<noteq> []" using assms(1) by (auto simp: pm_inv_def pool_consts)
    obtain v pm1 where e: "evictOldestLocked pm = (v, pm1)" by (metis surj_pair)
    from evictOldest_frees [OF assms(1) full(2) e] obtain k p where v: "v = Some p" "(k, p) \<in> set (pm_pools pm)"
      "\<forall>(k', q) \<in> set (pm_pools pm). pl_lastUsed p \<le> pl_lastUsed q"
      "pm_pools pm1 = filter (\<lambda>(k', _). k' \<noteq> k) (pm_pools pm)" "length (pm_pools pm1) < length (pm_pools pm)" by blast
    let ?p = "pl_touch now (NewPool url)"
    have r: "r = Some ?p" "victim = Some (pl_Close p)" "pm_pools pm' = (key, ?p) # pm_pools pm1"
      using assms(2,3) None True e v(1) by (auto simp: pm_GetOrCreate_def Let_def)
    have kk: "k \<noteq> key" using None v(2) by (force simp: map_of_eq_None_iff)
    have d: "distinct (map fst (pm_pools pm1))" "key \<notin> fst ` set (pm_pools pm1)" "k \<notin> fst ` set (pm_pools pm1)"
      using assms(1) None unfolding v(4) pm_inv_def by (auto simp: distinct_map_filter map_of_eq_None_iff)
    then have "map_of (pm_pools pm') k = None" using kk r(3) by (simp add: map_of_eq_None_iff)
    moreover have "pm_inv pm'" using d v(5) full(1) r(3) by (auto simp: pm_inv_def)
    moreover have "map_of (pm_pools pm') key = Some ?p" using r(3) by simp
    ultimately show ?thesis using r(1,2) v(2,3) full(1) None by blast
  qed
qed

theorem pool_manager_bounded_witness:
  "pm_inv (snd (snd (pm_GetOrCreate 5 \<lparr>pk_IdentityHash = ''u'', pk_ProviderID = 1, pk_CredentialID = 2\<rparr> [] NewPoolManager)))"
proof -
  obtain r v pm' where g: "pm_GetOrCreate 5 \<lparr>pk_IdentityHash = ''u'', pk_ProviderID = 1, pk_CredentialID = 2\<rparr> [] NewPoolManager = (r, v, pm')"
    by (metis prod_cases3)
  show ?thesis using pool_manager_bounded [OF _ _ g] g by (simp add: NewPoolManager_def pm_inv_def)
qed

end
