(* ===== verification/GoText.thy ===== *)
theory GoText
  imports Prelude
begin

text \<open>
  The parts of Go's standard library that the key grammars of the routing state are written in:
  \<open>strings.Split\<close>, \<open>SplitN\<close>, \<open>Join\<close>, \<open>Contains\<close>, \<open>HasPrefix\<close> and \<open>CutPrefix\<close>, the decimal
  rendering \<open>%d\<close> with \<open>strconv.Atoi\<close>, and \<open>base64.RawURLEncoding\<close>. A Go
  string is a list of bytes, which is what a HOL string is. The locale \<open>segment_codec\<close> is the
  contract of one variable component of a delimited key: it round-trips, only canonical text is
  accepted, and the text never contains the delimiter.
\<close>

section \<open>Delimited text\<close>

fun strSplit :: "char \<Rightarrow> string \<Rightarrow> string list" where
  "strSplit d [] = [[]]"
| "strSplit d (c # cs) =
     (if c = d then [] # strSplit d cs
      else case strSplit d cs of [] \<Rightarrow> [[c]] | p # ps \<Rightarrow> (c # p) # ps)"

fun strJoin :: "char \<Rightarrow> string list \<Rightarrow> string" where
  "strJoin d [] = []"
| "strJoin d [p] = p"
| "strJoin d (p # q # ps) = p @ d # strJoin d (q # ps)"

text \<open>\<open>strings.SplitN(s, sep, n)\<close> for positive \<open>n\<close>: at most \<open>n\<close> parts, the last
  one unsplit.\<close>

fun strSplitN :: "char \<Rightarrow> string \<Rightarrow> nat \<Rightarrow> string list" where
  "strSplitN d s 0 = []"
| "strSplitN d s (Suc 0) = [s]"
| "strSplitN d s (Suc (Suc n)) =
     (case strSplit d s of
        p # q # ps \<Rightarrow> p # strSplitN d (strJoin d (q # ps)) (Suc n)
      | ps \<Rightarrow> ps)"

definition cutPrefix :: "string \<Rightarrow> string \<Rightarrow> string option" where
  "cutPrefix s p = (if take (length p) s = p then Some (drop (length p) s) else None)"

definition hasPrefix :: "string \<Rightarrow> string \<Rightarrow> bool" where
  "hasPrefix s p \<longleftrightarrow> take (length p) s = p"

fun strContains :: "string \<Rightarrow> string \<Rightarrow> bool" where
  "strContains [] pat \<longleftrightarrow> pat = []"
| "strContains (c # cs) pat \<longleftrightarrow> take (length pat) (c # cs) = pat \<or> strContains cs pat"

lemma hasPrefix_append [simp]: "hasPrefix (p @ s) p"
  by (simp add: hasPrefix_def)

lemma hasPrefix_drop: "hasPrefix s p \<Longrightarrow> s = p @ drop (length p) s"
  by (metis append_take_drop_id hasPrefix_def)

lemma strSplit_not_Nil [simp]: "strSplit d s \<noteq> []"
  by (cases s) (auto split: list.splits)

lemma strJoin_Cons: "ps \<noteq> [] \<Longrightarrow> strJoin d (p # ps) = p @ d # strJoin d ps"
  by (cases ps) auto

lemma strJoin_Split [simp]: "strJoin d (strSplit d s) = s"
proof (induction s)
  case (Cons c s)
  show ?case
  proof (cases "c = d")
    case True then show ?thesis using Cons by (simp add: strJoin_Cons)
  next
    case False
    obtain p ps where sp: "strSplit d s = p # ps" using strSplit_not_Nil by (cases "strSplit d s") blast+
    then show ?thesis using False Cons by (cases ps) auto
  qed
qed simp

lemma strSplit_plain [simp]: "d \<notin> set s \<Longrightarrow> strSplit d s = [s]"
  by (induction s) auto

lemma strSplit_append [simp]: "d \<notin> set p \<Longrightarrow> strSplit d (p @ d # s) = p # strSplit d s"
  by (induction p) auto

lemma strSplit_parts_plain: "p \<in> set (strSplit d s) \<Longrightarrow> d \<notin> set p"
  by (induction s arbitrary: p) (auto split: if_splits list.splits)

lemma strSplit_Join: "ps \<noteq> [] \<Longrightarrow> \<forall>p\<in>set ps. d \<notin> set p \<Longrightarrow> strSplit d (strJoin d ps) = ps"
  by (induction d ps rule: strJoin.induct) auto

lemma strSplit_eq_iff: "strSplit d s = ps \<longleftrightarrow> ps \<noteq> [] \<and> (\<forall>p\<in>set ps. d \<notin> set p) \<and> s = strJoin d ps"
  using strSplit_Join strSplit_parts_plain strJoin_Split by fastforce

lemma strSplit_length_ge_2: "2 \<le> length (strSplit d s) \<longleftrightarrow> d \<in> set s"
  by (induction s) (auto split: list.splits)

lemma strSplitN_append:
  assumes "d \<notin> set p"
  shows "strSplitN d (p @ d # s) (Suc (Suc n)) = p # strSplitN d s (Suc n)"
proof -
  obtain q qs where q: "strSplit d s = q # qs" using strSplit_not_Nil by (cases "strSplit d s") blast+
  then have "strJoin d (q # qs) = s" using strJoin_Split by metis
  then show ?thesis using assms q by simp
qed

lemma cutPrefix_append [simp]: "cutPrefix (p @ s) p = Some s"
  by (simp add: cutPrefix_def)

lemma cutPrefix_Some_iff: "cutPrefix s p = Some r \<longleftrightarrow> s = p @ r"
  by (metis append_take_drop_id cutPrefix_append cutPrefix_def option.inject option.simps(3))

lemma cutPrefix_None_iff: "cutPrefix s p = None \<longleftrightarrow> (\<nexists>r. s = p @ r)"
  by (metis cutPrefix_Some_iff not_None_eq)

section \<open>Decimal numbers\<close>

definition isDigit :: "char \<Rightarrow> bool" where
  "isDigit c \<longleftrightarrow> (let n = (of_char c :: nat) in 48 \<le> n \<and> n \<le> 57)"

definition digitVal :: "char \<Rightarrow> nat" where
  "digitVal c = of_char c - 48"

definition digitChar :: "nat \<Rightarrow> char" where
  "digitChar n = char_of (48 + n)"

fun natDec :: "nat \<Rightarrow> string" where
  "natDec n = (if n < 10 then [digitChar n] else natDec (n div 10) @ [digitChar (n mod 10)])"

declare natDec.simps [simp del]

text \<open>The verb \<open>%d\<close> of \<open>fmt.Sprintf\<close> and \<open>strconv.Itoa\<close>.\<close>

definition intDec :: "int \<Rightarrow> string" where
  "intDec i = (if i < 0 then CHR ''-'' # natDec (nat (- i)) else natDec (nat i))"

definition digitsVal :: "string \<Rightarrow> nat" where
  "digitsVal s = foldl (\<lambda>n c. 10 * n + digitVal c) 0 s"

definition maxInt :: int where "maxInt = 2 ^ 63 - 1"

text \<open>
  \<open>strconv.Atoi\<close>: an optional sign, at least one digit, nothing else, and a value in the
  range of \<open>int\<close>; leading zeros are accepted.
\<close>

definition Atoi :: "string \<Rightarrow> int option" where
  "Atoi s =
     (let (neg, ds) = (case s of [] \<Rightarrow> (False, [])
                       | c # cs \<Rightarrow> if c = CHR ''-'' then (True, cs)
                                   else if c = CHR ''+'' then (False, cs) else (False, s)) in
      if ds = [] \<or> \<not> list_all isDigit ds then None
      else let v = (if neg then - int (digitsVal ds) else int (digitsVal ds)) in
           if - maxInt - 1 \<le> v \<and> v \<le> maxInt then Some v else None)"

lemma isDigit_digitChar [simp]: "n < 10 \<Longrightarrow> isDigit (digitChar n)"
  by (simp add: isDigit_def digitChar_def)

lemma digitChar_0 [simp]: "digitChar 0 = CHR ''0''"
proof -
  have "of_char (digitChar 0) = (of_char CHR ''0'' :: nat)" by (simp add: digitChar_def)
  then show ?thesis by (simp only: of_char_eq_iff)
qed

lemma digitVal_digitChar [simp]: "n < 10 \<Longrightarrow> digitVal (digitChar n) = n"
  by (simp add: digitVal_def digitChar_def)

lemma digitChar_digitVal [simp]: "isDigit c \<Longrightarrow> digitChar (digitVal c) = c"
  by (simp add: isDigit_def digitVal_def digitChar_def Let_def)

lemma digitVal_less [simp]: "isDigit c \<Longrightarrow> digitVal c < 10"
  by (auto simp: isDigit_def digitVal_def Let_def)

lemma not_isDigit_punct [simp]: "\<not> isDigit CHR ''-''" "\<not> isDigit CHR ''+''" "\<not> isDigit CHR '':''"
    "\<not> isDigit (CHR 0x0A)" "\<not> isDigit CHR ''k''" "\<not> isDigit CHR ''t''"
  by (simp_all add: isDigit_def)

lemma digitsVal_snoc [simp]: "digitsVal (s @ [c]) = 10 * digitsVal s + digitVal c"
  by (simp add: digitsVal_def)

lemma digitsVal_Nil [simp]: "digitsVal [] = 0"
  by (simp add: digitsVal_def)

lemma natDec_digits: "list_all isDigit (natDec n)"
  by (induction n rule: natDec.induct) (subst natDec.simps, simp)

lemma natDec_not_Nil [simp]: "natDec n \<noteq> []"
  by (subst natDec.simps) simp

lemma digitsVal_natDec [simp]: "digitsVal (natDec n) = n"
proof (induction n rule: natDec.induct)
  case (1 n)
  show ?case
  proof (cases "n < 10")
    case True
    then show ?thesis by (subst natDec.simps) (simp add: digitsVal_def)
  next
    case False
    then show ?thesis using 1 by (subst natDec.simps) simp
  qed
qed

lemma digits_no_delim: "list_all isDigit s \<Longrightarrow> \<not> isDigit d \<Longrightarrow> d \<notin> set s"
  by (auto simp: list_all_iff)

lemma Atoi_digits:
  assumes "s \<noteq> []" "list_all isDigit s"
  shows "Atoi s = (if int (digitsVal s) \<le> maxInt then Some (int (digitsVal s)) else None)"
proof -
  obtain c cs where s: "s = c # cs" using assms(1) by (cases s) auto
  have c: "c \<noteq> CHR ''-''" "c \<noteq> CHR ''+''" using assms(2) s not_isDigit_punct by auto
  show ?thesis using assms c unfolding Atoi_def by (simp add: s maxInt_def)
qed

lemma Atoi_max: "Atoi s = Some n \<Longrightarrow> n \<le> maxInt"
  by (auto simp: Atoi_def Let_def split: prod.splits if_splits)

lemma Atoi_natDec: "int n \<le> maxInt \<Longrightarrow> Atoi (natDec n) = Some (int n)"
  using Atoi_digits [OF natDec_not_Nil natDec_digits] by simp

lemma intDec_pos: "0 < i \<Longrightarrow> intDec i = natDec (nat i)"
  by (simp add: intDec_def)

lemma Atoi_intDec_pos: "0 < i \<Longrightarrow> i \<le> maxInt \<Longrightarrow> Atoi (intDec i) = Some i"
  using Atoi_natDec [of "nat i"] by (simp add: intDec_pos)

text \<open>Digits without a leading zero are the rendering of their value.\<close>

lemma natDec_digitsVal:
  assumes "list_all isDigit s" "s \<noteq> []" "hd s \<noteq> CHR ''0'' \<or> length s = 1"
  shows "natDec (digitsVal s) = s"
  using assms
proof (induction s rule: rev_induct)
  case (snoc c s)
  have c: "isDigit c" using snoc.prems by simp
  show ?case
  proof (cases "s = []")
    case True
    then show ?thesis using c by (subst natDec.simps) (simp add: digitsVal_def)
  next
    case False
    then have hd: "hd s \<noteq> CHR ''0''" using snoc.prems by simp
    have IH: "natDec (digitsVal s) = s" using snoc False hd by simp
    have "digitsVal s \<noteq> 0"
    proof
      assume "digitsVal s = 0"
      then have "s = [digitChar 0]" using IH by (subst (asm) natDec.simps) simp
      then show False using hd by simp
    qed
    then have ge: "\<not> 10 * digitsVal s + digitVal c < 10" by simp
    have "(10 * digitsVal s + digitVal c) div 10 = digitsVal s" "(10 * digitsVal s + digitVal c) mod 10 = digitVal c"
      using digitVal_less [OF c] by simp_all
    then show ?thesis using IH c ge by (subst natDec.simps) simp
  qed
qed simp

text \<open>The rendering of a positive number does not start with a zero.\<close>

lemma natDec_leading: "0 < n \<Longrightarrow> natDec n ! 0 \<noteq> CHR ''0''"
proof (induction n rule: natDec.induct)
  case (1 n)
  show ?case
  proof (cases "n < 10")
    case True
    have "digitChar n \<noteq> digitChar 0" using True 1 digitVal_digitChar by (metis digitVal_digitChar gr0_conv_Suc old.nat.distinct(2) zero_less_numeral)
    then show ?thesis using True by (subst natDec.simps) simp
  next
    case False
    then have "natDec (n div 10) ! 0 \<noteq> CHR ''0''" using 1 by simp
    then show ?thesis using False by (subst natDec.simps) (simp add: nth_append)
  qed
qed

section \<open>base64.RawURLEncoding\<close>

text \<open>The URL alphabet, by index, and its inverse.\<close>

definition b64Char :: "nat \<Rightarrow> char" where
  "b64Char n = (if n < 26 then char_of (65 + n) else if n < 52 then char_of (71 + n)
                else if n < 62 then char_of (n - 4) else if n = 62 then CHR ''-'' else CHR ''_'')"

definition b64Index :: "char \<Rightarrow> nat option" where
  "b64Index c =
     (let n = of_char c in
      if 65 \<le> n \<and> n \<le> 90 then Some (n - 65) else if 97 \<le> n \<and> n \<le> 122 then Some (n - 71)
      else if 48 \<le> n \<and> n \<le> 57 then Some (n + 4) else if n = 45 then Some 62
      else if n = 95 then Some 63 else None)"

text \<open>Three bytes become four characters; a rest of one byte gives two, of two bytes three, with
  zero bits filled in and no padding.\<close>

fun b64Sextets :: "nat list \<Rightarrow> nat list" where
  "b64Sextets [] = []"
| "b64Sextets [a] = [a div 4, a mod 4 * 16]"
| "b64Sextets [a, b] = [a div 4, a mod 4 * 16 + b div 16, b mod 16 * 4]"
| "b64Sextets (a # b # c # bs) =
     [a div 4, a mod 4 * 16 + b div 16, b mod 16 * 4 + c div 64, c mod 64] @ b64Sextets bs"

definition b64Encode :: "string \<Rightarrow> string" where
  "b64Encode s = map b64Char (b64Sextets (map of_char s))"

text \<open>The decoder skips line breaks, refuses every other character outside the alphabet and a
  single left-over character, and ignores the unused low bits of the last one.\<close>

fun b64Bytes :: "nat list \<Rightarrow> nat list option" where
  "b64Bytes [] = Some []"
| "b64Bytes [p] = None"
| "b64Bytes [p, q] = Some [p * 4 + q div 16]"
| "b64Bytes [p, q, r] = Some [p * 4 + q div 16, q mod 16 * 16 + r div 4]"
| "b64Bytes (p # q # r # t # ps) =
     map_option (\<lambda>bs. [p * 4 + q div 16, q mod 16 * 16 + r div 4, r mod 4 * 64 + t] @ bs) (b64Bytes ps)"

definition b64Decode :: "string \<Rightarrow> string option" where
  "b64Decode s =
     (case those (map b64Index (filter (\<lambda>c. c \<noteq> CHR 0x0A \<and> c \<noteq> CHR 0x0D) s)) of
        None \<Rightarrow> None
      | Some ps \<Rightarrow> map_option (map char_of) (b64Bytes ps))"

lemma b64Index_Char [simp]: "n < 64 \<Longrightarrow> b64Index (b64Char n) = Some n"
  by (auto simp: b64Index_def b64Char_def Let_def)

lemma b64Char_plain:
  assumes "n < 64"
  shows "b64Char n \<noteq> CHR '':''" "b64Char n \<noteq> CHR 0x0A" "b64Char n \<noteq> CHR 0x0D"
proof -
  have "b64Index CHR '':'' = None" "b64Index (CHR 0x0A) = None" "b64Index (CHR 0x0D) = None"
    by (simp_all add: b64Index_def)
  then show "b64Char n \<noteq> CHR '':''" "b64Char n \<noteq> CHR 0x0A" "b64Char n \<noteq> CHR 0x0D"
    using b64Index_Char [OF assms] by (metis option.distinct(1))+
qed

lemma b64Sextets_less: "\<forall>b\<in>set bs. b < 256 \<Longrightarrow> p \<in> set (b64Sextets bs) \<Longrightarrow> p < 64"
proof (induction bs rule: b64Sextets.induct)
  case (4 a b c bs)
  then have "a < 256" "b < 256" "c < 256" by auto
  then show ?case using 4 by auto
qed auto

lemma b64Bytes_Sextets: "\<forall>b\<in>set bs. b < 256 \<Longrightarrow> b64Bytes (b64Sextets bs) = Some bs"
  by (induction bs rule: b64Sextets.induct) (auto simp: div_mult2_eq)

lemma those_map_Some: "\<forall>x\<in>set xs. f x = Some (g x) \<Longrightarrow> those (map f xs) = Some (map g xs)"
  by (induction xs) auto

lemma b64Encode_set: "c \<in> set (b64Encode s) \<Longrightarrow> \<exists>n<64. c = b64Char n"
  using b64Sextets_less [of "map of_char s"] by (auto simp: b64Encode_def)

lemma b64Encode_plain: "CHR '':'' \<notin> set (b64Encode s)"
  by (metis b64Encode_set b64Char_plain(1))

lemma b64Encode_Nil_iff [simp]: "b64Encode s = [] \<longleftrightarrow> s = []"
  unfolding b64Encode_def by (cases "map of_char s :: nat list" rule: b64Sextets.cases) auto

lemma b64Decode_Encode [simp]: "b64Decode (b64Encode s) = Some s"
proof -
  let ?bs = "map of_char s :: nat list"
  have less: "\<forall>b\<in>set ?bs. b < 256" by auto
  have "\<forall>c\<in>set (b64Encode s). c \<noteq> CHR 0x0A \<and> c \<noteq> CHR 0x0D"
    by (metis b64Encode_set b64Char_plain(2,3))
  then have "filter (\<lambda>c. c \<noteq> CHR 0x0A \<and> c \<noteq> CHR 0x0D) (b64Encode s) = b64Encode s"
    by (intro filter_True) blast
  moreover have "those (map b64Index (b64Encode s)) = Some (b64Sextets ?bs)"
    using those_map_Some [of "b64Sextets ?bs" "b64Index \<circ> b64Char" id] b64Sextets_less [OF less]
    by (simp add: b64Encode_def)
  moreover have "map char_of ?bs = s" by (simp add: comp_def)
  ultimately show ?thesis using b64Bytes_Sextets [OF less] by (simp add: b64Decode_def)
qed

section \<open>The contract of a key segment\<close>

locale segment_codec =
  fixes enc :: "'a \<Rightarrow> string" and dec :: "string \<Rightarrow> 'a option" and ok :: "'a \<Rightarrow> bool" and delim :: char
  assumes dec_enc: "ok x \<Longrightarrow> dec (enc x) = Some x"
    and enc_dec: "dec s = Some x \<Longrightarrow> ok x \<and> enc x = s"
    and no_delim: "ok x \<Longrightarrow> delim \<notin> set (enc x)"
begin

lemma dec_eq_iff: "dec s = Some x \<longleftrightarrow> ok x \<and> s = enc x"
  using dec_enc enc_dec by blast

lemma enc_inj: "ok x \<Longrightarrow> ok y \<Longrightarrow> enc x = enc y \<Longrightarrow> x = y"
  using dec_enc by (metis option.inject)

lemma split_enc: "ok x \<Longrightarrow> strSplit delim (enc x) = [enc x]"
    "ok x \<Longrightarrow> strSplit delim (enc x @ delim # s) = enc x # strSplit delim s"
  using no_delim by simp_all

end

end
