(* ===== verification/NodeKeys.thy ===== *)
theory NodeKeys
  imports GoText
begin

text \<open>
  The Redis key grammars of the routing state store (\<open>domains/ursm/v2/store/keys.go\<close> and
  \<open>keys_k2.go\<close>). A node is a tuple of tenant, credential and raw model. The legacy grammar
  joins the three by colons; the canonical grammar \<open>k2\<close> encodes the text components first.
  The theory states what each parser recovers of what each constructor wrote: the canonical grammar
  is a bijection between valid tuples and accepted keys, the legacy one loses exactly the tuples
  characterised here, and two tenants can share a legacy key.
\<close>

section \<open>The legacy grammar (keys.go)\<close>

record parsedNodeKey =
  pk_TenantID :: string
  pk_CredentialID :: int
  pk_RawModel :: string

definition isNumericTenant :: "string \<Rightarrow> bool" where
  "isNumericTenant tenant \<longleftrightarrow> tenant \<noteq> [] \<and> list_all isDigit tenant"

definition tenantKeyPart :: "string \<Rightarrow> string" where
  "tenantKeyPart tenant = tenant"

definition NodeKey :: "string \<Rightarrow> int \<Rightarrow> string \<Rightarrow> string" where
  "NodeKey prefix cid raw = prefix @ ''node:'' @ intDec cid @ '':'' @ raw"

definition NodeKeyForTenant :: "string \<Rightarrow> string \<Rightarrow> int \<Rightarrow> string \<Rightarrow> string" where
  "NodeKeyForTenant prefix tenant cid raw =
     (if tenant = [] then NodeKey prefix cid raw
      else if \<not> isNumericTenant tenant
      then prefix @ ''node:'' @ tenantKeyPart tenant @ '':'' @ intDec cid @ '':'' @ raw
      else prefix @ ''node:t:'' @ tenantKeyPart tenant @ '':'' @ intDec cid @ '':'' @ raw)"

definition WindowKey :: "string \<Rightarrow> int \<Rightarrow> string \<Rightarrow> string \<Rightarrow> string" where
  "WindowKey prefix cid raw bucket = prefix @ ''win:'' @ bucket @ '':'' @ intDec cid @ '':'' @ raw"

definition WindowKeyForTenant :: "string \<Rightarrow> string \<Rightarrow> int \<Rightarrow> string \<Rightarrow> string \<Rightarrow> string" where
  "WindowKeyForTenant prefix tenant cid raw bucket =
     (if tenant = [] then WindowKey prefix cid raw bucket
      else if \<not> isNumericTenant tenant
      then prefix @ ''win:'' @ bucket @ '':'' @ tenantKeyPart tenant @ '':'' @ intDec cid @ '':'' @ raw
      else prefix @ ''win:'' @ bucket @ '':t:'' @ tenantKeyPart tenant @ '':'' @ intDec cid @ '':'' @ raw)"

record nodeKeySet =
  ks_Prefix :: string
  ks_Node :: string
  ks_Win1m :: string
  ks_Win5m :: string
  ks_Win30m :: string
  ks_TenantID :: string
  ks_CredentialID :: int
  ks_RawModel :: string

definition NodeKeySetForTenant :: "string \<Rightarrow> string \<Rightarrow> int \<Rightarrow> string \<Rightarrow> nodeKeySet" where
  "NodeKeySetForTenant prefix tenant cid raw =
     \<lparr>ks_Prefix = prefix, ks_Node = NodeKeyForTenant prefix tenant cid raw,
      ks_Win1m = WindowKeyForTenant prefix tenant cid raw ''1m'',
      ks_Win5m = WindowKeyForTenant prefix tenant cid raw ''5m'',
      ks_Win30m = WindowKeyForTenant prefix tenant cid raw ''30m'',
      ks_TenantID = tenant, ks_CredentialID = cid, ks_RawModel = raw\<rparr>"

text \<open>The three parses end alike: a positive credential and a non-empty model are required.\<close>

definition nodeTuple :: "string \<Rightarrow> string \<Rightarrow> string list \<Rightarrow> parsedNodeKey option" where
  "nodeTuple tenant cidText rest =
     (case Atoi cidText of
        None \<Rightarrow> None
      | Some credentialID \<Rightarrow>
          if credentialID \<le> 0 then None
          else let raw = strJoin CHR '':'' rest in
               if raw = [] then None
               else Some \<lparr>pk_TenantID = tenant, pk_CredentialID = credentialID, pk_RawModel = raw\<rparr>)"

definition ParseNodeKey :: "string \<Rightarrow> string \<Rightarrow> parsedNodeKey option" where
  "ParseNodeKey prefix key =
     (case cutPrefix key (prefix @ ''node:'') of
        None \<Rightarrow> None
      | Some rest \<Rightarrow>
          let parts = strSplit CHR '':'' rest in
          if length parts < 2 then None
          else if parts ! 0 = ''k2'' then None
          else if parts ! 0 = ''t'' \<and> 4 \<le> length parts \<and> isNumericTenant (parts ! 1)
          then nodeTuple (parts ! 1) (parts ! 2) (drop 3 parts)
          else if (case Atoi (parts ! 0) of Some cid \<Rightarrow> 0 < cid | None \<Rightarrow> False)
          then nodeTuple [] (parts ! 0) (drop 1 parts)
          else if length parts < 3 \<or> parts ! 0 = [] then None
          else nodeTuple (parts ! 0) (parts ! 1) (drop 2 parts))"

definition BindingKey :: "string \<Rightarrow> int \<Rightarrow> string \<Rightarrow> string" where
  "BindingKey prefix cid raw = prefix @ ''binding:'' @ intDec cid @ '':'' @ raw"

definition CredentialKey :: "string \<Rightarrow> int \<Rightarrow> string" where
  "CredentialKey prefix cid = prefix @ ''credential:'' @ intDec cid"

definition ProviderKey :: "string \<Rightarrow> int \<Rightarrow> string" where
  "ProviderKey prefix pid = prefix @ ''provider:'' @ intDec pid"

definition CandidateIndexKey :: "string \<Rightarrow> string \<Rightarrow> string \<Rightarrow> string \<Rightarrow> string \<Rightarrow> string" where
  "CandidateIndexKey prefix tenant canonical profile modality =
     prefix @ ''idx:model:'' @ tenant @ '':'' @ canonical @ '':'' @ profile @ '':'' @ modality"

definition ReadyKey :: "string \<Rightarrow> string" where "ReadyKey prefix = prefix @ ''meta:ready''"
definition EpochKey :: "string \<Rightarrow> string" where "EpochKey prefix = prefix @ ''meta:epoch''"
definition CoverageKey :: "string \<Rightarrow> string" where "CoverageKey prefix = prefix @ ''meta:coverage''"
definition CoveragePendingKey :: "string \<Rightarrow> string" where
  "CoveragePendingKey prefix = prefix @ ''meta:coverage:pending''"
definition RecoveryDebounceKey :: "string \<Rightarrow> string" where
  "RecoveryDebounceKey prefix = prefix @ ''meta:recovery_debounce''"
definition NodeInvalidationChannel :: "string \<Rightarrow> string" where
  "NodeInvalidationChannel prefix = prefix @ ''meta:node_invalidation''"

text \<open>The payload of the invalidation channel: three lines.\<close>

definition NodeInvalidation_String :: "parsedNodeKey \<Rightarrow> string" where
  "NodeInvalidation_String p =
     pk_TenantID p @ [CHR 0x0A] @ intDec (pk_CredentialID p) @ [CHR 0x0A] @ pk_RawModel p"

definition ParseNodeInvalidation :: "string \<Rightarrow> parsedNodeKey option" where
  "ParseNodeInvalidation payload =
     (let parts = strSplitN (CHR 0x0A) payload 3 in
      if length parts \<noteq> 3 then None
      else case Atoi (parts ! 1) of
        None \<Rightarrow> None
      | Some credentialID \<Rightarrow>
          if credentialID \<le> 0 \<or> parts ! 2 = [] then None
          else Some \<lparr>pk_TenantID = parts ! 0, pk_CredentialID = credentialID, pk_RawModel = parts ! 2\<rparr>)"

section \<open>The canonical grammar (keys_k2.go)\<close>

datatype keySchema = KeySchemaLegacy | KeySchemaK2

primrec keySchema_String :: "keySchema \<Rightarrow> string" where
  "keySchema_String KeySchemaK2 = ''k2''"
| "keySchema_String KeySchemaLegacy = ''legacy''"

definition ParseKeySchema :: "string \<Rightarrow> keySchema" where
  "ParseKeySchema s = (if s = ''k2'' then KeySchemaK2 else KeySchemaLegacy)"

datatype keyError = EmptyTenant | BadCredential int | EmptyRawModel | BadBucket string | EmptyComponent string

definition k2EncodeSegment :: "string \<Rightarrow> string" where
  "k2EncodeSegment s = b64Encode s"

definition k2ValidateNodeTuple :: "string \<Rightarrow> int \<Rightarrow> string \<Rightarrow> keyError option" where
  "k2ValidateNodeTuple tenant cid raw =
     (if tenant = [] then Some EmptyTenant else if cid \<le> 0 then Some (BadCredential cid)
      else if raw = [] then Some EmptyRawModel else None)"

definition k2ValidateBucket :: "string \<Rightarrow> keyError option" where
  "k2ValidateBucket bucket =
     (if bucket = ''1m'' \<or> bucket = ''5m'' \<or> bucket = ''30m'' then None else Some (BadBucket bucket))"

definition K2NodeKeyForTenant :: "string \<Rightarrow> string \<Rightarrow> int \<Rightarrow> string \<Rightarrow> keyError + string" where
  "K2NodeKeyForTenant prefix tenant cid raw =
     (case k2ValidateNodeTuple tenant cid raw of
        Some err \<Rightarrow> Inl err
      | None \<Rightarrow> Inr (prefix @ ''node:k2:'' @ k2EncodeSegment tenant @ '':'' @ intDec cid @ '':'' @ k2EncodeSegment raw))"

definition K2WindowKeyForTenant :: "string \<Rightarrow> string \<Rightarrow> int \<Rightarrow> string \<Rightarrow> string \<Rightarrow> keyError + string" where
  "K2WindowKeyForTenant prefix tenant cid raw bucket =
     (case k2ValidateBucket bucket of
        Some err \<Rightarrow> Inl err
      | None \<Rightarrow>
         (case k2ValidateNodeTuple tenant cid raw of
            Some err \<Rightarrow> Inl err
          | None \<Rightarrow> Inr (prefix @ ''win:k2:'' @ bucket @ '':'' @ k2EncodeSegment tenant @ '':'' @ intDec cid
                         @ '':'' @ k2EncodeSegment raw)))"

definition K2CandidateIndexKey :: "string \<Rightarrow> string \<Rightarrow> string \<Rightarrow> string \<Rightarrow> string \<Rightarrow> keyError + string" where
  "K2CandidateIndexKey prefix tenant canonical profile modality =
     (case filter (\<lambda>(name, part). part = []) [(''tenant'', tenant), (''canonical model'', canonical),
             (''profile'', profile), (''modality'', modality)] of
        (name, part) # others \<Rightarrow> Inl (EmptyComponent name)
      | [] \<Rightarrow> Inr (prefix @ ''idx:model:k2:'' @ k2EncodeSegment tenant @ '':'' @ k2EncodeSegment canonical
                 @ '':'' @ k2EncodeSegment profile @ '':'' @ k2EncodeSegment modality))"

record k2KeySet =
  k2_Node :: string
  k2_Win1m :: string
  k2_Win5m :: string
  k2_Win30m :: string

definition K2KeySetForTenant :: "string \<Rightarrow> string \<Rightarrow> int \<Rightarrow> string \<Rightarrow> keyError + k2KeySet" where
  "K2KeySetForTenant prefix tenant cid raw =
     (case k2ValidateNodeTuple tenant cid raw of
        Some err \<Rightarrow> Inl err
      | None \<Rightarrow>
        (case K2NodeKeyForTenant prefix tenant cid raw of Inl err \<Rightarrow> Inl err | Inr node \<Rightarrow>
        (case K2WindowKeyForTenant prefix tenant cid raw ''1m'' of Inl err \<Rightarrow> Inl err | Inr w1 \<Rightarrow>
        (case K2WindowKeyForTenant prefix tenant cid raw ''5m'' of Inl err \<Rightarrow> Inl err | Inr w5 \<Rightarrow>
        (case K2WindowKeyForTenant prefix tenant cid raw ''30m'' of Inl err \<Rightarrow> Inl err | Inr w30 \<Rightarrow>
           Inr \<lparr>k2_Node = node, k2_Win1m = w1, k2_Win5m = w5, k2_Win30m = w30\<rparr>)))))"

definition k2DecodeSegment :: "string \<Rightarrow> string option" where
  "k2DecodeSegment seg =
     (if seg = [] then None
      else case b64Decode seg of
        None \<Rightarrow> None
      | Some b \<Rightarrow> if b64Encode b \<noteq> seg then None else Some b)"

definition isCanonicalDecimalCID :: "string \<Rightarrow> bool" where
  "isCanonicalDecimalCID s \<longleftrightarrow> \<not> (s = [] \<or> (1 < length s \<and> s ! 0 = CHR ''0'')) \<and> list_all isDigit s"

text \<open>The strict decimal segment, as all three canonical parsers read it.\<close>

definition parseCID :: "string \<Rightarrow> int option" where
  "parseCID seg =
     (if \<not> isCanonicalDecimalCID seg then None
      else case Atoi seg of None \<Rightarrow> None | Some cid \<Rightarrow> if cid \<le> 0 then None else Some cid)"

definition parseNodeKeyK2 :: "string \<Rightarrow> string \<Rightarrow> parsedNodeKey option" where
  "parseNodeKeyK2 prefix key =
     (case cutPrefix key (prefix @ ''node:k2:'') of
        None \<Rightarrow> None
      | Some rest \<Rightarrow>
          let parts = strSplit CHR '':'' rest in
          if length parts \<noteq> 3 then None
          else (case k2DecodeSegment (parts ! 0) of None \<Rightarrow> None | Some tenant \<Rightarrow>
               if tenant = [] then None
               else (case parseCID (parts ! 1) of None \<Rightarrow> None | Some credentialID \<Rightarrow>
               (case k2DecodeSegment (parts ! 2) of None \<Rightarrow> None | Some raw \<Rightarrow>
                if raw = [] then None
                else Some \<lparr>pk_TenantID = tenant, pk_CredentialID = credentialID, pk_RawModel = raw\<rparr>))))"

definition ParseNodeKeyAny :: "string \<Rightarrow> string \<Rightarrow> (keySchema \<times> parsedNodeKey) option" where
  "ParseNodeKeyAny prefix key =
     (case cutPrefix key (prefix @ ''node:k2:'') of
        Some rest \<Rightarrow>
          let parts = strSplit CHR '':'' rest in
          if length parts \<noteq> 3 then None
          else (case k2DecodeSegment (parts ! 0) of None \<Rightarrow> None | Some tenant \<Rightarrow>
               if tenant = [] then None
               else (case parseCID (parts ! 1) of None \<Rightarrow> None | Some cid \<Rightarrow>
               (case k2DecodeSegment (parts ! 2) of None \<Rightarrow> None | Some raw \<Rightarrow>
                if raw = [] then None
                else Some (KeySchemaK2, \<lparr>pk_TenantID = tenant, pk_CredentialID = cid, pk_RawModel = raw\<rparr>))))
      | None \<Rightarrow>
          (case ParseNodeKey prefix key of
             None \<Rightarrow> None
           | Some parsed \<Rightarrow> Some (KeySchemaLegacy, parsed)))"

definition ParseNodeKeyCanonical :: "string \<Rightarrow> string \<Rightarrow> (parsedNodeKey \<times> string) option" where
  "ParseNodeKeyCanonical prefix key =
     (if cutPrefix key (prefix @ ''node:k2:'') \<noteq> None
      then (case parseNodeKeyK2 prefix key of None \<Rightarrow> None | Some parsed \<Rightarrow> Some (parsed, ''k2''))
      else (case ParseNodeKey prefix key of None \<Rightarrow> None | Some parsed \<Rightarrow> Some (parsed, ''legacy'')))"

record parsedWindowKey =
  pw_Bucket :: string
  pw_TenantID :: string
  pw_CredentialID :: int
  pw_RawModel :: string

definition ParseWindowKeyAny :: "string \<Rightarrow> string \<Rightarrow> parsedWindowKey option" where
  "ParseWindowKeyAny prefix key =
     (case cutPrefix key (prefix @ ''win:k2:'') of
        None \<Rightarrow> None
      | Some rest \<Rightarrow>
          let parts = strSplit CHR '':'' rest in
          if length parts \<noteq> 4 then None
          else if parts ! 0 \<notin> {''1m'', ''5m'', ''30m''} then None
          else (case k2DecodeSegment (parts ! 1) of None \<Rightarrow> None | Some tenant \<Rightarrow>
               (case parseCID (parts ! 2) of None \<Rightarrow> None | Some credentialID \<Rightarrow>
               (case k2DecodeSegment (parts ! 3) of None \<Rightarrow> None | Some raw \<Rightarrow>
                if raw = [] then None
                else Some \<lparr>pw_Bucket = parts ! 0, pw_TenantID = tenant, pw_CredentialID = credentialID,
                           pw_RawModel = raw\<rparr>))))"

record parsedCandidateIndexKey =
  pi_TenantID :: string
  pi_CanonicalModel :: string
  pi_Profile :: string
  pi_Modality :: string

definition ParseCandidateIndexKeyAny :: "string \<Rightarrow> string \<Rightarrow> parsedCandidateIndexKey option" where
  "ParseCandidateIndexKeyAny prefix key =
     (case cutPrefix key (prefix @ ''idx:model:k2:'') of
        None \<Rightarrow> None
      | Some rest \<Rightarrow>
          let parts = strSplit CHR '':'' rest in
          if length parts \<noteq> 4 then None
          else (case k2DecodeSegment (parts ! 0) of None \<Rightarrow> None | Some tenant \<Rightarrow> if tenant = [] then None else
               (case k2DecodeSegment (parts ! 1) of None \<Rightarrow> None | Some canonical \<Rightarrow> if canonical = [] then None else
               (case k2DecodeSegment (parts ! 2) of None \<Rightarrow> None | Some profile \<Rightarrow> if profile = [] then None else
               (case k2DecodeSegment (parts ! 3) of None \<Rightarrow> None | Some modality \<Rightarrow> if modality = [] then None else
                Some \<lparr>pi_TenantID = tenant, pi_CanonicalModel = canonical, pi_Profile = profile,
                      pi_Modality = modality\<rparr>)))))"

definition NodeKeyCanonical :: "string \<Rightarrow> string \<Rightarrow> int \<Rightarrow> string \<Rightarrow> string" where
  "NodeKeyCanonical prefix tenant cid raw =
     (case K2NodeKeyForTenant prefix tenant cid raw of Inl err \<Rightarrow> [] | Inr k \<Rightarrow> k)"

definition WindowKeyCanonical :: "string \<Rightarrow> string \<Rightarrow> int \<Rightarrow> string \<Rightarrow> string \<Rightarrow> string" where
  "WindowKeyCanonical prefix tenant cid raw bucket =
     (case K2WindowKeyForTenant prefix tenant cid raw bucket of Inl err \<Rightarrow> [] | Inr k \<Rightarrow> k)"

definition CandidateIndexKeyCanonical :: "string \<Rightarrow> string \<Rightarrow> string \<Rightarrow> string \<Rightarrow> string \<Rightarrow> string" where
  "CandidateIndexKeyCanonical prefix tenant canonical profile modality =
     (case K2CandidateIndexKey prefix tenant canonical profile modality of Inl err \<Rightarrow> [] | Inr k \<Rightarrow> k)"

section \<open>The segments of a canonical key\<close>

lemma isDigit_colon [simp]: "isDigit CHR '':'' = False"
  by simp

lemma parseCID_Some_iff: "parseCID s = Some i \<longleftrightarrow> (0 < i \<and> i \<le> maxInt) \<and> s = intDec i"
proof
  assume p: "parseCID s = Some i"
  then have can: "isCanonicalDecimalCID s" and at: "Atoi s = Some i" and pos: "0 < i"
    by (auto simp: parseCID_def split: if_splits option.splits)
  have s: "s \<noteq> []" "list_all isDigit s" "hd s \<noteq> CHR ''0'' \<or> length s = 1"
    using can by (cases s; auto simp: isCanonicalDecimalCID_def)+
  have i: "i = int (digitsVal s)" "i \<le> maxInt" using at Atoi_digits [OF s(1,2)] by (auto split: if_splits)
  then show "(0 < i \<and> i \<le> maxInt) \<and> s = intDec i"
    using pos natDec_digitsVal [OF s(2,1,3)] by (simp add: intDec_pos)
next
  assume a: "(0 < i \<and> i \<le> maxInt) \<and> s = intDec i"
  have dig: "list_all isDigit s" "s \<noteq> []" using a by (simp_all add: intDec_pos natDec_digits)
  have "s ! 0 \<noteq> CHR ''0''" using a natDec_leading by (simp add: intDec_pos)
  then show "parseCID s = Some i"
    using a dig Atoi_intDec_pos by (simp add: parseCID_def isCanonicalDecimalCID_def)
qed

interpretation cid: segment_codec intDec parseCID "\<lambda>i. 0 < i \<and> i \<le> maxInt" "CHR '':''"
proof
  show "CHR '':'' \<notin> set (intDec i)" if "0 < i \<and> i \<le> maxInt" for i
    using that digits_no_delim [OF natDec_digits] by (simp add: intDec_pos)
qed (auto simp: parseCID_Some_iff)

interpretation seg: segment_codec k2EncodeSegment k2DecodeSegment "\<lambda>s. s \<noteq> []" "CHR '':''"
  by unfold_locales
    (auto simp: k2DecodeSegment_def k2EncodeSegment_def b64Encode_plain split: if_splits option.splits)

section \<open>The canonical grammar is exact\<close>

definition validTuple :: "parsedNodeKey \<Rightarrow> bool" where
  "validTuple pk \<longleftrightarrow> pk_TenantID pk \<noteq> [] \<and> 0 < pk_CredentialID pk \<and> pk_CredentialID pk \<le> maxInt \<and> pk_RawModel pk \<noteq> []"

lemma strSplit_3: "length (strSplit d s) = 3 \<longleftrightarrow> (\<exists>a b c. strSplit d s = [a, b, c])"
  by (auto simp: numeral_eq_Suc length_Suc_conv)

lemma strSplit_4: "length (strSplit d s) = 4 \<longleftrightarrow> (\<exists>a b c e. strSplit d s = [a, b, c, e])"
  by (auto simp: numeral_eq_Suc length_Suc_conv)

lemma parseNodeKeyK2_iff:
  "parseNodeKeyK2 prefix key = Some pk \<longleftrightarrow> validTuple pk \<and>
     key = prefix @ ''node:k2:'' @ k2EncodeSegment (pk_TenantID pk) @ '':'' @ intDec (pk_CredentialID pk) @ '':''
           @ k2EncodeSegment (pk_RawModel pk)" (is "?l \<longleftrightarrow> ?r")
proof
  assume ?l
  then obtain rest a b c where key: "key = prefix @ ''node:k2:'' @ rest"
    and sp: "strSplit CHR '':'' rest = [a, b, c]"
    and a: "k2DecodeSegment a = Some (pk_TenantID pk)" and b: "parseCID b = Some (pk_CredentialID pk)"
    and c: "k2DecodeSegment c = Some (pk_RawModel pk)"
    by (auto simp: parseNodeKeyK2_def Let_def cutPrefix_Some_iff strSplit_3 split: option.splits if_splits)
  have "rest = a @ '':'' @ b @ '':'' @ c" using sp by (simp add: strSplit_eq_iff)
  then show ?r using key a b c by (simp add: seg.dec_eq_iff cid.dec_eq_iff validTuple_def)
next
  assume r: ?r
  then have v: "pk_TenantID pk \<noteq> []" "0 < pk_CredentialID pk \<and> pk_CredentialID pk \<le> maxInt" "pk_RawModel pk \<noteq> []"
    by (simp_all add: validTuple_def)
  show ?l using r v
    by (simp add: parseNodeKeyK2_def cutPrefix_def seg.split_enc cid.split_enc seg.dec_enc cid.dec_enc)
qed

lemma ParseNodeKeyAny_alt:
  "ParseNodeKeyAny prefix key =
     (if cutPrefix key (prefix @ ''node:k2:'') = None then map_option (Pair KeySchemaLegacy) (ParseNodeKey prefix key)
      else map_option (Pair KeySchemaK2) (parseNodeKeyK2 prefix key))"
  by (auto simp: ParseNodeKeyAny_def parseNodeKeyK2_def Let_def split: option.splits if_splits)

lemma K2NodeKey_Inr_iff:
  "K2NodeKeyForTenant prefix tenant cid raw = Inr key \<longleftrightarrow> tenant \<noteq> [] \<and> 0 < cid \<and> raw \<noteq> [] \<and>
     key = prefix @ ''node:k2:'' @ k2EncodeSegment tenant @ '':'' @ intDec cid @ '':'' @ k2EncodeSegment raw"
  by (auto simp: K2NodeKeyForTenant_def k2ValidateNodeTuple_def)

text \<open>C18.
  The canonical node grammar is exact: a key is read as a \<open>k2\<close> key of a tuple if and
  only if it is the key that the constructor builds for this tuple. So every tuple the constructor
  accepts is read back, whatever delimiters its tenant and model contain, no two keys denote the same
  tuple, and no tuple has two keys.\<close>

theorem k2_grammar_exact:
  "ParseNodeKeyAny prefix key = Some (KeySchemaK2, pk) \<longleftrightarrow>
     pk_CredentialID pk \<le> maxInt \<and>
     K2NodeKeyForTenant prefix (pk_TenantID pk) (pk_CredentialID pk) (pk_RawModel pk) = Inr key"
proof -
  have "ParseNodeKeyAny prefix key = Some (KeySchemaK2, pk) \<longleftrightarrow> parseNodeKeyK2 prefix key = Some pk"
  proof (cases "cutPrefix key (prefix @ ''node:k2:'')")
    case None
    then have "parseNodeKeyK2 prefix key = None" by (simp add: parseNodeKeyK2_def)
    then show ?thesis using None by (auto simp: ParseNodeKeyAny_alt)
  qed (auto simp: ParseNodeKeyAny_alt)
  then show ?thesis by (auto simp: parseNodeKeyK2_iff K2NodeKey_Inr_iff validTuple_def)
qed

text \<open>The two entry points that read both grammars, the one of the store and the one of the
  migration, accept the same keys and give the same tuple with the same schema.\<close>

theorem canonical_parser_agrees:
  "ParseNodeKeyCanonical prefix key =
     map_option (\<lambda>(schema, pk). (pk, keySchema_String schema)) (ParseNodeKeyAny prefix key)"
  by (auto simp: ParseNodeKeyAny_alt ParseNodeKeyCanonical_def split: option.splits)

lemma ParseWindowKeyAny_iff:
  "ParseWindowKeyAny prefix key = Some pw \<longleftrightarrow> pw_CredentialID pw \<le> maxInt \<and>
     K2WindowKeyForTenant prefix (pw_TenantID pw) (pw_CredentialID pw) (pw_RawModel pw) (pw_Bucket pw) = Inr key"
  (is "?l \<longleftrightarrow> ?r")
proof
  assume ?l
  then obtain rest a b c e where key: "key = prefix @ ''win:k2:'' @ rest"
    and sp: "strSplit CHR '':'' rest = [a, b, c, e]" and a: "a \<in> {''1m'', ''5m'', ''30m''}" "pw_Bucket pw = a"
    and b: "k2DecodeSegment b = Some (pw_TenantID pw)" and c: "parseCID c = Some (pw_CredentialID pw)"
    and e: "k2DecodeSegment e = Some (pw_RawModel pw)"
    by (auto simp: ParseWindowKeyAny_def Let_def cutPrefix_Some_iff strSplit_4 split: option.splits if_splits)
  have "rest = a @ '':'' @ b @ '':'' @ c @ '':'' @ e" using sp by (simp add: strSplit_eq_iff)
  then show ?r using key a b c e
    by (auto simp: seg.dec_eq_iff cid.dec_eq_iff K2WindowKeyForTenant_def k2ValidateBucket_def k2ValidateNodeTuple_def)
next
  assume ?r
  then have v: "pw_TenantID pw \<noteq> []" "0 < pw_CredentialID pw \<and> pw_CredentialID pw \<le> maxInt" "pw_RawModel pw \<noteq> []"
    "pw_Bucket pw \<in> {''1m'', ''5m'', ''30m''}"
    and key: "key = prefix @ ''win:k2:'' @ pw_Bucket pw @ '':'' @ k2EncodeSegment (pw_TenantID pw) @ '':''
      @ intDec (pw_CredentialID pw) @ '':'' @ k2EncodeSegment (pw_RawModel pw)"
    by (auto simp: K2WindowKeyForTenant_def k2ValidateBucket_def k2ValidateNodeTuple_def split: option.splits if_splits)
  have bk: "CHR '':'' \<notin> set (pw_Bucket pw)" using v(4) by auto
  show ?l using v bk
    by (simp add: key ParseWindowKeyAny_def cutPrefix_def seg.split_enc cid.split_enc seg.dec_enc cid.dec_enc)
qed

lemma ParseCandidateIndexKeyAny_iff:
  "ParseCandidateIndexKeyAny prefix key = Some ci \<longleftrightarrow>
     K2CandidateIndexKey prefix (pi_TenantID ci) (pi_CanonicalModel ci) (pi_Profile ci) (pi_Modality ci) = Inr key"
  (is "?l \<longleftrightarrow> ?r")
proof
  assume ?l
  then obtain rest a b c e where key: "key = prefix @ ''idx:model:k2:'' @ rest"
    and sp: "strSplit CHR '':'' rest = [a, b, c, e]"
    and "k2DecodeSegment a = Some (pi_TenantID ci)" "k2DecodeSegment b = Some (pi_CanonicalModel ci)"
        "k2DecodeSegment c = Some (pi_Profile ci)" "k2DecodeSegment e = Some (pi_Modality ci)"
    by (auto simp: ParseCandidateIndexKeyAny_def Let_def cutPrefix_Some_iff strSplit_4 split: option.splits if_splits)
  moreover have "rest = a @ '':'' @ b @ '':'' @ c @ '':'' @ e" using sp by (simp add: strSplit_eq_iff)
  ultimately show ?r by (simp add: seg.dec_eq_iff K2CandidateIndexKey_def)
next
  assume ?r
  then have v: "pi_TenantID ci \<noteq> []" "pi_CanonicalModel ci \<noteq> []" "pi_Profile ci \<noteq> []" "pi_Modality ci \<noteq> []"
    and key: "key = prefix @ ''idx:model:k2:'' @ k2EncodeSegment (pi_TenantID ci) @ '':''
      @ k2EncodeSegment (pi_CanonicalModel ci) @ '':'' @ k2EncodeSegment (pi_Profile ci) @ '':''
      @ k2EncodeSegment (pi_Modality ci)"
    by (auto simp: K2CandidateIndexKey_def split: if_splits)
  show ?l using v
    by (simp add: key ParseCandidateIndexKeyAny_def cutPrefix_def seg.split_enc seg.dec_enc)
qed

definition k2Keys :: "k2KeySet \<Rightarrow> string list" where
  "k2Keys ks = [k2_Node ks, k2_Win1m ks, k2_Win5m ks, k2_Win30m ks]"

lemma K2KeySet_Inr_iff:
  "K2KeySetForTenant prefix tenant cid raw = Inr ks \<longleftrightarrow>
     K2NodeKeyForTenant prefix tenant cid raw = Inr (k2_Node ks) \<and>
     K2WindowKeyForTenant prefix tenant cid raw ''1m'' = Inr (k2_Win1m ks) \<and>
     K2WindowKeyForTenant prefix tenant cid raw ''5m'' = Inr (k2_Win5m ks) \<and>
     K2WindowKeyForTenant prefix tenant cid raw ''30m'' = Inr (k2_Win30m ks)"
  by (cases "k2ValidateNodeTuple tenant cid raw")
    (auto simp: K2KeySetForTenant_def K2NodeKeyForTenant_def K2WindowKeyForTenant_def k2ValidateBucket_def)

lemma K2Window_not_Node:
  "K2WindowKeyForTenant prefix t c r b = Inr w \<Longrightarrow> K2NodeKeyForTenant prefix t' c' r' = Inr n \<Longrightarrow> w \<noteq> n"
  by (auto simp: K2NodeKey_Inr_iff K2WindowKeyForTenant_def split: option.splits)

lemma K2NodeKey_inj:
  assumes "K2NodeKeyForTenant prefix t c r = Inr key" "K2NodeKeyForTenant prefix t' c' r' = Inr key"
    "c \<le> maxInt" "c' \<le> maxInt"
  shows "(t, c, r) = (t', c', r')"
proof -
  have "parseNodeKeyK2 prefix key = Some \<lparr>pk_TenantID = t, pk_CredentialID = c, pk_RawModel = r\<rparr>"
    using assms(1,3) by (simp add: parseNodeKeyK2_iff K2NodeKey_Inr_iff validTuple_def)
  moreover have "parseNodeKeyK2 prefix key = Some \<lparr>pk_TenantID = t', pk_CredentialID = c', pk_RawModel = r'\<rparr>"
    using assms(2,4) by (simp add: parseNodeKeyK2_iff K2NodeKey_Inr_iff validTuple_def)
  ultimately show ?thesis by simp
qed

lemma K2WindowKey_inj:
  assumes "K2WindowKeyForTenant prefix t c r b = Inr key" "K2WindowKeyForTenant prefix t' c' r' b' = Inr key"
    "c \<le> maxInt" "c' \<le> maxInt"
  shows "(t, c, r, b) = (t', c', r', b')"
proof -
  have "ParseWindowKeyAny prefix key = Some \<lparr>pw_Bucket = b, pw_TenantID = t, pw_CredentialID = c, pw_RawModel = r\<rparr>"
    using assms(1,3) by (simp add: ParseWindowKeyAny_iff)
  moreover have "ParseWindowKeyAny prefix key = Some \<lparr>pw_Bucket = b', pw_TenantID = t', pw_CredentialID = c', pw_RawModel = r'\<rparr>"
    using assms(2,4) by (simp add: ParseWindowKeyAny_iff)
  ultimately show ?thesis by simp
qed

lemma k2Keys_cases:
  assumes "K2KeySetForTenant prefix t c r = Inr ks" "x \<in> set (k2Keys ks)"
  shows "K2NodeKeyForTenant prefix t c r = Inr x \<or>
         (\<exists>b \<in> {''1m'', ''5m'', ''30m''}. K2WindowKeyForTenant prefix t c r b = Inr x)"
  using assms by (auto simp: K2KeySet_Inr_iff k2Keys_def)

text \<open>The canonical key sets separate nodes: the four keys of a node are different, and the key
  sets of two different nodes have no key in common, whatever their tenants and models contain.\<close>

theorem k2_keysets_separate_nodes:
  assumes "K2KeySetForTenant prefix t c r = Inr ks" "K2KeySetForTenant prefix t' c' r' = Inr ks'"
    and "c \<le> maxInt" "c' \<le> maxInt"
  shows "distinct (k2Keys ks) \<and> ((t, c, r) \<noteq> (t', c', r') \<longrightarrow> set (k2Keys ks) \<inter> set (k2Keys ks') = {})"
proof (intro conjI impI)
  have ks: "K2NodeKeyForTenant prefix t c r = Inr (k2_Node ks)"
    "K2WindowKeyForTenant prefix t c r ''1m'' = Inr (k2_Win1m ks)"
    "K2WindowKeyForTenant prefix t c r ''5m'' = Inr (k2_Win5m ks)"
    "K2WindowKeyForTenant prefix t c r ''30m'' = Inr (k2_Win30m ks)"
    using assms(1) by (simp_all add: K2KeySet_Inr_iff)
  have "w \<noteq> w'" if "K2WindowKeyForTenant prefix t c r b = Inr w" "K2WindowKeyForTenant prefix t c r b' = Inr w'" "b \<noteq> b'"
    for b b' w w'
    using that K2WindowKey_inj [OF _ _ assms(3) assms(3)] by blast
  from this [OF ks(2,3)] this [OF ks(2,4)] this [OF ks(3,4)]
  have "k2_Win1m ks \<noteq> k2_Win5m ks" "k2_Win1m ks \<noteq> k2_Win30m ks" "k2_Win5m ks \<noteq> k2_Win30m ks" by simp_all
  moreover have "k2_Node ks \<notin> {k2_Win1m ks, k2_Win5m ks, k2_Win30m ks}"
    using K2Window_not_Node [OF ks(2) ks(1)] K2Window_not_Node [OF ks(3) ks(1)] K2Window_not_Node [OF ks(4) ks(1)] by auto
  ultimately show "distinct (k2Keys ks)" by (simp add: k2Keys_def)
next
  assume ne: "(t, c, r) \<noteq> (t', c', r')"
  have False if x: "x \<in> set (k2Keys ks)" and x': "x \<in> set (k2Keys ks')" for x
    using k2Keys_cases [OF assms(1) x] k2Keys_cases [OF assms(2) x']
  proof (elim disjE bexE)
    assume "K2NodeKeyForTenant prefix t c r = Inr x" "K2NodeKeyForTenant prefix t' c' r' = Inr x"
    from K2NodeKey_inj [OF this assms(3,4)] ne show False by blast
  next
    fix b b' assume "K2WindowKeyForTenant prefix t c r b = Inr x" "K2WindowKeyForTenant prefix t' c' r' b' = Inr x"
    from K2WindowKey_inj [OF this assms(3,4)] ne show False by blast
  qed (use K2Window_not_Node in blast)+
  then show "set (k2Keys ks) \<inter> set (k2Keys ks') = {}" by blast
qed

theorem k2_keysets_separate_nodes_witness:
  "\<exists>ks ks'. K2KeySetForTenant ''p:'' ''t'' 7 ''9:m'' = Inr ks \<and> K2KeySetForTenant ''p:'' ''7'' 9 ''m'' = Inr ks' \<and>
     set (k2Keys ks) \<inter> set (k2Keys ks') = {}"
proof -
  obtain ks where ks: "K2KeySetForTenant ''p:'' ''t'' 7 ''9:m'' = Inr ks"
    by (simp add: K2KeySetForTenant_def K2NodeKeyForTenant_def K2WindowKeyForTenant_def k2ValidateBucket_def k2ValidateNodeTuple_def)
  obtain ks' where ks': "K2KeySetForTenant ''p:'' ''7'' 9 ''m'' = Inr ks'"
    by (simp add: K2KeySetForTenant_def K2NodeKeyForTenant_def K2WindowKeyForTenant_def k2ValidateBucket_def k2ValidateNodeTuple_def)
  show ?thesis using k2_keysets_separate_nodes [OF ks ks'] ks ks' by (simp add: maxInt_def)
qed

section \<open>What the legacy grammar loses\<close>

text \<open>The tuples the legacy key brings back: an empty or numeric tenant always; a text tenant when it
  has no delimiter, is not the marker of the canonical grammar, does not read as a credential number,
  and is not the tag \<open>t\<close> in front of a model with a delimiter.\<close>

definition legacyReadable :: "string \<Rightarrow> string \<Rightarrow> bool" where
  "legacyReadable tenant raw \<longleftrightarrow> tenant = [] \<or> isNumericTenant tenant \<or>
     (CHR '':'' \<notin> set tenant \<and> tenant \<noteq> ''k2'' \<and> (case Atoi tenant of Some i \<Rightarrow> i \<le> 0 | None \<Rightarrow> True) \<and>
      \<not> (tenant = ''t'' \<and> CHR '':'' \<in> set raw))"

lemma isNumericTenant_no_colon: "isNumericTenant tenant \<Longrightarrow> CHR '':'' \<notin> set tenant"
  by (simp add: isNumericTenant_def digits_no_delim)

lemma isNumeric_intDec: "0 < cid \<Longrightarrow> isNumericTenant (intDec cid)"
  by (simp add: isNumericTenant_def intDec_pos natDec_digits)

lemma nodeTuple_intDec:
  "0 < cid \<Longrightarrow> cid \<le> maxInt \<Longrightarrow> raw \<noteq> [] \<Longrightarrow>
   nodeTuple tenant (intDec cid) (strSplit CHR '':'' raw) =
     Some \<lparr>pk_TenantID = tenant, pk_CredentialID = cid, pk_RawModel = raw\<rparr>"
  by (simp add: nodeTuple_def Atoi_intDec_pos)

lemma nodeTuple_tenant: "nodeTuple tenant c rest = Some pk \<Longrightarrow> pk_TenantID pk = tenant"
  by (auto simp: nodeTuple_def Let_def split: option.splits if_splits)

lemma nonempty_parts: "1 \<le> length (strSplit d s)"
  using strSplit_not_Nil by (metis One_nat_def Suc_leI length_greater_0_conv)

lemma legacy_reads_numeric:
  assumes "isNumericTenant tenant" "0 < cid" "cid \<le> maxInt" "raw \<noteq> []"
  shows "ParseNodeKey prefix (NodeKeyForTenant prefix tenant cid raw) =
           Some \<lparr>pk_TenantID = tenant, pk_CredentialID = cid, pk_RawModel = raw\<rparr>"
proof -
  have key: "NodeKeyForTenant prefix tenant cid raw =
      (prefix @ ''node:'') @ ''t'' @ CHR '':'' # tenant @ CHR '':'' # intDec cid @ CHR '':'' # raw"
    using assms(1) by (auto simp: NodeKeyForTenant_def tenantKeyPart_def isNumericTenant_def)
  have parts: "strSplit CHR '':'' (''t'' @ CHR '':'' # tenant @ CHR '':'' # intDec cid @ CHR '':'' # raw) =
      ''t'' # tenant # intDec cid # strSplit CHR '':'' raw"
    using isNumericTenant_no_colon [OF assms(1)] cid.no_delim assms(2,3) by simp
  show ?thesis unfolding ParseNodeKey_def key cutPrefix_append option.case Let_def parts
    using assms nodeTuple_intDec nonempty_parts [of "CHR '':''" raw] by (simp add: Suc_le_eq)
qed

lemma legacy_reads_tenantless:
  assumes "0 < cid" "cid \<le> maxInt" "raw \<noteq> []"
  shows "ParseNodeKey prefix (NodeKeyForTenant prefix [] cid raw) =
           Some \<lparr>pk_TenantID = [], pk_CredentialID = cid, pk_RawModel = raw\<rparr>"
proof -
  have key: "NodeKeyForTenant prefix [] cid raw = (prefix @ ''node:'') @ intDec cid @ CHR '':'' # raw"
    by (simp add: NodeKeyForTenant_def NodeKey_def)
  have parts: "strSplit CHR '':'' (intDec cid @ CHR '':'' # raw) = intDec cid # strSplit CHR '':'' raw"
    using cid.no_delim assms by simp
  have "list_all isDigit (intDec cid)" using isNumeric_intDec [OF assms(1)] by (simp add: isNumericTenant_def)
  then have "intDec cid \<noteq> ''k2''" "intDec cid \<noteq> ''t''" by auto
  then show ?thesis unfolding ParseNodeKey_def key cutPrefix_append option.case Let_def parts
    using assms nodeTuple_intDec nonempty_parts [of "CHR '':''" raw] by (simp add: Suc_le_eq Atoi_intDec_pos)
qed

lemma legacy_parts_text:
  assumes "tenant \<noteq> []" "\<not> isNumericTenant tenant" "CHR '':'' \<notin> set tenant" "0 < cid" "cid \<le> maxInt"
  shows "\<exists>rest. cutPrefix (NodeKeyForTenant prefix tenant cid raw) (prefix @ ''node:'') = Some rest \<and>
     strSplit CHR '':'' rest = tenant # intDec cid # strSplit CHR '':'' raw"
proof -
  have "NodeKeyForTenant prefix tenant cid raw = (prefix @ ''node:'') @ tenant @ CHR '':'' # intDec cid @ CHR '':'' # raw"
    using assms by (simp add: NodeKeyForTenant_def tenantKeyPart_def)
  moreover have "strSplit CHR '':'' (tenant @ CHR '':'' # intDec cid @ CHR '':'' # raw) =
      tenant # intDec cid # strSplit CHR '':'' raw" using cid.no_delim assms by simp
  ultimately show ?thesis by (metis cutPrefix_append)
qed

lemma ParseNodeKey_tenant_plain:
  assumes "ParseNodeKey prefix key = Some pk"
  shows "CHR '':'' \<notin> set (pk_TenantID pk)"
proof -
  obtain rest where r: "cutPrefix key (prefix @ ''node:'') = Some rest"
    using assms by (auto simp: ParseNodeKey_def split: option.splits)
  let ?parts = "strSplit CHR '':'' rest"
  have plain: "i < length ?parts \<Longrightarrow> CHR '':'' \<notin> set (?parts ! i)" for i
    using strSplit_parts_plain nth_mem by blast
  have "pk_TenantID pk \<in> {[], ?parts ! 0, ?parts ! 1}" and "2 \<le> length ?parts"
    using assms r by (auto simp: ParseNodeKey_def Let_def dest: nodeTuple_tenant split: if_splits)
  then show ?thesis using plain [of 0] plain [of 1] by auto
qed

lemma legacy_reads_text_iff:
  assumes t: "tenant \<noteq> []" "\<not> isNumericTenant tenant" "CHR '':'' \<notin> set tenant"
    and c: "0 < cid" "cid \<le> maxInt" and raw: "raw \<noteq> []"
  shows "ParseNodeKey prefix (NodeKeyForTenant prefix tenant cid raw) =
           Some \<lparr>pk_TenantID = tenant, pk_CredentialID = cid, pk_RawModel = raw\<rparr> \<longleftrightarrow> legacyReadable tenant raw"
proof -
  let ?pk = "\<lparr>pk_TenantID = tenant, pk_CredentialID = cid, pk_RawModel = raw\<rparr>"
  let ?sp = "strSplit CHR '':'' raw"
  obtain rest where r: "cutPrefix (NodeKeyForTenant prefix tenant cid raw) (prefix @ ''node:'') = Some rest"
    "strSplit CHR '':'' rest = tenant # intDec cid # ?sp" using legacy_parts_text [OF t c] by blast
  have len: "2 \<le> length ?sp \<longleftrightarrow> CHR '':'' \<in> set raw" by (rule strSplit_length_ge_2)
  have parse: "ParseNodeKey prefix (NodeKeyForTenant prefix tenant cid raw) =
      (if tenant = ''k2'' then None
       else if tenant = ''t'' \<and> CHR '':'' \<in> set raw then nodeTuple (intDec cid) (?sp ! 0) (drop 1 ?sp)
       else if (case Atoi tenant of Some i \<Rightarrow> 0 < i | None \<Rightarrow> False) then nodeTuple [] tenant (intDec cid # ?sp)
       else Some ?pk)"
    using r t isNumeric_intDec [OF c(1)] nodeTuple_intDec [OF c raw]
    unfolding ParseNodeKey_def r option.case Let_def by (auto simp: Suc_le_eq numeral_eq_Suc simp flip: len)
  have "intDec cid \<noteq> ''t''" using isNumeric_intDec [OF c(1)] by (auto simp: isNumericTenant_def)
  then have nt: "tenant = ''t'' \<Longrightarrow> nodeTuple (intDec cid) a b \<noteq> Some ?pk" for a b using nodeTuple_tenant by fastforce
  have ne: "nodeTuple [] a b \<noteq> Some ?pk" for a b using nodeTuple_tenant t(1) by fastforce
  show ?thesis using t nt ne unfolding parse legacyReadable_def by (auto split: option.splits)
qed

lemma legacy_exact:
  assumes "0 < cid" "cid \<le> maxInt" "raw \<noteq> []"
  shows "ParseNodeKey prefix (NodeKeyForTenant prefix tenant cid raw) =
           Some \<lparr>pk_TenantID = tenant, pk_CredentialID = cid, pk_RawModel = raw\<rparr> \<longleftrightarrow> legacyReadable tenant raw"
proof (cases "tenant = [] \<or> isNumericTenant tenant")
  case True
  then show ?thesis using legacy_reads_numeric [OF _ assms] legacy_reads_tenantless [OF assms]
    by (auto simp: legacyReadable_def)
next
  case False
  show ?thesis
  proof (cases "CHR '':'' \<in> set tenant")
    case True
    then have "\<not> legacyReadable tenant raw" using False by (simp add: legacyReadable_def)
    moreover have "ParseNodeKey prefix key \<noteq> Some \<lparr>pk_TenantID = tenant, pk_CredentialID = cid, pk_RawModel = raw\<rparr>" for key
      using ParseNodeKey_tenant_plain True by fastforce
    ultimately show ?thesis by simp
  next
    case plain: False
    then show ?thesis using legacy_reads_text_iff False assms by blast
  qed
qed

text \<open>What the legacy grammar brings back, exactly: for a positive credential and a non-empty
  model, the tuple is read back from its own key if and only if it is \<open>legacyReadable\<close>.\<close>

theorem legacy_roundtrip_iff:
  assumes "0 < cid" "cid \<le> maxInt" "raw \<noteq> []"
  shows "ParseNodeKey prefix (NodeKeyForTenant prefix tenant cid raw) =
           Some \<lparr>pk_TenantID = tenant, pk_CredentialID = cid, pk_RawModel = raw\<rparr> \<longleftrightarrow> legacyReadable tenant raw"
  by (rule legacy_exact [OF assms])

theorem legacy_roundtrip_iff_witness:
  "ParseNodeKey ''p:'' (NodeKeyForTenant ''p:'' ''acme'' 7 ''a:b'') =
     Some \<lparr>pk_TenantID = ''acme'', pk_CredentialID = 7, pk_RawModel = ''a:b''\<rparr> \<and>
   ParseNodeKey ''p:'' (NodeKeyForTenant ''p:'' ''+5'' 7 ''m'') \<noteq>
     Some \<lparr>pk_TenantID = ''+5'', pk_CredentialID = 7, pk_RawModel = ''m''\<rparr>"
proof -
  have "legacyReadable ''acme'' ''a:b''" "\<not> legacyReadable ''+5'' ''m''"
    by (simp_all add: legacyReadable_def isNumericTenant_def isDigit_def Atoi_def digitsVal_def digitVal_def maxInt_def)
  then show ?thesis
    using legacy_roundtrip_iff [of 7 "''a:b''" "''p:''" "''acme''"] legacy_roundtrip_iff [of 7 "''m''" "''p:''" "''+5''"]
    by (simp add: maxInt_def)
qed

text \<open>Two tenants can share one legacy key: the key of the tenant named \<open>t\<close> for a model
  that starts with a number and a colon is the key of a numeric tenant. For every pair of positive
  numbers \<open>c\<close> and \<open>d\<close> and every model, tenant \<open>t\<close> with credential \<open>c\<close> and model
  \<open>d:raw\<close> has the node key and the window keys of tenant \<open>c\<close> with credential
  \<open>d\<close> and model \<open>raw\<close>, and both read back as the numeric tenant.\<close>

theorem legacy_tenants_collide:
  assumes "0 < c" "0 < d" "d \<le> maxInt" "raw \<noteq> []"
  shows "NodeKeyForTenant prefix ''t'' c (intDec d @ '':'' @ raw) = NodeKeyForTenant prefix (intDec c) d raw \<and>
         WindowKeyForTenant prefix ''t'' c (intDec d @ '':'' @ raw) bucket = WindowKeyForTenant prefix (intDec c) d raw bucket \<and>
         ParseNodeKey prefix (NodeKeyForTenant prefix ''t'' c (intDec d @ '':'' @ raw)) =
           Some \<lparr>pk_TenantID = intDec c, pk_CredentialID = d, pk_RawModel = raw\<rparr>"
proof -
  have num: "isNumericTenant (intDec c)" "\<not> isNumericTenant ''t''" "intDec c \<noteq> []"
    using isNumeric_intDec [OF assms(1)] by (auto simp: isNumericTenant_def)
  then have eq: "NodeKeyForTenant prefix ''t'' c (intDec d @ '':'' @ raw) = NodeKeyForTenant prefix (intDec c) d raw"
    by (simp add: NodeKeyForTenant_def tenantKeyPart_def)
  show ?thesis unfolding eq using legacy_reads_numeric [OF num(1) assms(2-4)] num
    by (simp add: WindowKeyForTenant_def tenantKeyPart_def)
qed

theorem legacy_tenants_collide_witness:
  "NodeKeyForTenant ''p:'' ''t'' 7 (intDec 9 @ '':'' @ ''m'') = NodeKeyForTenant ''p:'' (intDec 7) 9 ''m''"
  using legacy_tenants_collide [of 7 9 "''m''" "''p:''"] by (simp add: maxInt_def)

text \<open>The invalidation message round-trips for every node whose tenant has no line break; a model
  with line breaks survives because only the first two breaks separate.\<close>

theorem invalidation_roundtrip:
  assumes "CHR 0x0A \<notin> set (pk_TenantID p)" "0 < pk_CredentialID p" "pk_CredentialID p \<le> maxInt" "pk_RawModel p \<noteq> []"
  shows "ParseNodeInvalidation (NodeInvalidation_String p) = Some p"
proof -
  have cid: "CHR 0x0A \<notin> set (intDec (pk_CredentialID p))"
    using assms(2) digits_no_delim [OF natDec_digits] by (simp add: intDec_pos)
  have "strSplitN (CHR 0x0A) (NodeInvalidation_String p) 3 = [pk_TenantID p, intDec (pk_CredentialID p), pk_RawModel p]"
    using strSplitN_append [OF assms(1)] strSplitN_append [OF cid] by (simp add: NodeInvalidation_String_def numeral_3_eq_3)
  then show ?thesis using assms by (simp add: ParseNodeInvalidation_def Atoi_intDec_pos)
qed

theorem invalidation_roundtrip_witness:
  "ParseNodeInvalidation (NodeInvalidation_String \<lparr>pk_TenantID = ''a'', pk_CredentialID = 12, pk_RawModel = [CHR ''x'', CHR 0x0A]\<rparr>) =
     Some \<lparr>pk_TenantID = ''a'', pk_CredentialID = 12, pk_RawModel = [CHR ''x'', CHR 0x0A]\<rparr>"
  using invalidation_roundtrip [of "\<lparr>pk_TenantID = ''a'', pk_CredentialID = 12, pk_RawModel = [CHR ''x'', CHR 0x0A]\<rparr>"]
  by (simp add: maxInt_def)

end
