(* ===== verification/LRUCache.thy ===== *)
theory LRUCache
  imports Prelude
begin

text \<open>
  The generic LRU of the routing state cache (\<open>domains/ursm/v2/cache/lru.go\<close>): a map from keys
  to the elements of a doubly linked \<open>container/list\<close>, front first. The elements are kept in an
  explicit store, as the map and the list share them by pointer. The theory shows that the pair of
  map and linked list implements a bounded association list in order of recency, and what the
  eviction keeps.
\<close>

section \<open>State and operations\<close>

text \<open>\<open>lru_elems\<close> is the store of list elements, \<open>lru_order\<close> the linked list of their
  addresses, \<open>lru_fresh\<close> the next address of the allocator.\<close>

record ('k, 'v) lru =
  lru_cap :: int
  lru_idx :: "'k \<rightharpoonup> nat"
  lru_order :: "nat list"
  lru_elems :: "nat \<rightharpoonup> 'k \<times> 'v"
  lru_fresh :: nat

text \<open>\<open>NewLRU\<close> panics on a capacity that is not positive.\<close>

definition NewLRU :: "int \<Rightarrow> ('k, 'v) lru option" where
  "NewLRU c = (if c \<le> 0 then None
     else Some \<lparr>lru_cap = c, lru_idx = Map.empty, lru_order = [], lru_elems = Map.empty, lru_fresh = 0\<rparr>)"

definition MoveToFront :: "nat \<Rightarrow> nat list \<Rightarrow> nat list" where
  "MoveToFront el order = (if el \<in> set order then el # remove1 el order else order)"

definition lru_Get :: "'k \<Rightarrow> ('k, 'v) lru \<Rightarrow> 'v option \<times> ('k, 'v) lru" where
  "lru_Get key l =
     (case lru_idx l key of
        None \<Rightarrow> (None, l)
      | Some el \<Rightarrow> (map_option snd (lru_elems l el), l\<lparr>lru_order := MoveToFront el (lru_order l)\<rparr>))"

definition putLocked :: "'k \<Rightarrow> 'v \<Rightarrow> ('k, 'v) lru \<Rightarrow> 'k option \<times> ('k, 'v) lru" where
  "putLocked key val l =
     (case lru_idx l key of
        Some el \<Rightarrow> (None, l\<lparr>lru_elems := (lru_elems l)(el \<mapsto> (key, val)),
                           lru_order := MoveToFront el (lru_order l)\<rparr>)
      | None \<Rightarrow>
          let el = lru_fresh l;
              l1 = l\<lparr>lru_elems := (lru_elems l)(el \<mapsto> (key, val)), lru_order := el # lru_order l,
                     lru_fresh := el + 1, lru_idx := (lru_idx l)(key \<mapsto> el)\<rparr>
          in if lru_cap l1 < int (length (lru_order l1))
             then let tail_el = last (lru_order l1) in
                  (case lru_elems l1 tail_el of
                     None \<Rightarrow> (None, l1)
                   | Some (k, v) \<Rightarrow> (Some k, l1\<lparr>lru_order := remove1 tail_el (lru_order l1),
                                               lru_idx := (lru_idx l1)(k := None)\<rparr>))
             else (None, l1))"

definition lru_Put :: "'k \<Rightarrow> 'v \<Rightarrow> ('k, 'v) lru \<Rightarrow> 'k option \<times> ('k, 'v) lru" where
  "lru_Put key val l = putLocked key val l"

definition lru_Peek :: "'k \<Rightarrow> ('k, 'v) lru \<Rightarrow> 'v option" where
  "lru_Peek key l =
     (case lru_idx l key of None \<Rightarrow> None | Some el \<Rightarrow> map_option snd (lru_elems l el))"

text \<open>The callback of \<open>Update\<close> gets the old value, if there is one, and answers with the new value
  when it wants it written.\<close>

definition lru_Update :: "'k \<Rightarrow> ('v option \<Rightarrow> 'v option) \<Rightarrow> ('k, 'v) lru \<Rightarrow> ('k, 'v) lru" where
  "lru_Update key fn l =
     (case fn (lru_Peek key l) of None \<Rightarrow> l | Some newVal \<Rightarrow> snd (putLocked key newVal l))"

definition lru_DeleteIf :: "'k \<Rightarrow> ('v \<Rightarrow> bool) \<Rightarrow> ('k, 'v) lru \<Rightarrow> bool \<times> ('k, 'v) lru" where
  "lru_DeleteIf key predicate l =
     (case lru_idx l key of
        None \<Rightarrow> (False, l)
      | Some el \<Rightarrow>
          (case lru_elems l el of
             None \<Rightarrow> (False, l)
           | Some (k, v) \<Rightarrow>
               if predicate v
               then (True, l\<lparr>lru_order := remove1 el (lru_order l), lru_idx := (lru_idx l)(key := None)\<rparr>)
               else (False, l)))"

definition lru_Delete :: "'k \<Rightarrow> ('k, 'v) lru \<Rightarrow> bool \<times> ('k, 'v) lru" where
  "lru_Delete key l =
     (case lru_idx l key of
        None \<Rightarrow> (False, l)
      | Some el \<Rightarrow> (True, l\<lparr>lru_order := remove1 el (lru_order l), lru_idx := (lru_idx l)(key := None)\<rparr>))"

definition lru_Len :: "('k, 'v) lru \<Rightarrow> int" where
  "lru_Len l = int (length (lru_order l))"

section \<open>The specification: a bounded list in order of recency\<close>

type_synonym ('k, 'v) recency = "('k \<times> 'v) list"

definition touch :: "'k \<Rightarrow> 'v \<Rightarrow> ('k, 'v) recency \<Rightarrow> ('k, 'v) recency" where
  "touch k v al = (k, v) # filter (\<lambda>p. fst p \<noteq> k) al"

definition spec_get :: "'k \<Rightarrow> ('k, 'v) recency \<Rightarrow> 'v option \<times> ('k, 'v) recency" where
  "spec_get k al = (case map_of al k of None \<Rightarrow> (None, al) | Some v \<Rightarrow> (Some v, touch k v al))"

definition spec_put :: "int \<Rightarrow> 'k \<Rightarrow> 'v \<Rightarrow> ('k, 'v) recency \<Rightarrow> 'k option \<times> ('k, 'v) recency" where
  "spec_put c k v al =
     (let al' = touch k v al in
      if c < int (length al') then (Some (fst (last al')), butlast al') else (None, al'))"

definition spec_delete :: "'k \<Rightarrow> ('v \<Rightarrow> bool) \<Rightarrow> ('k, 'v) recency \<Rightarrow> bool \<times> ('k, 'v) recency" where
  "spec_delete k P al =
     (case map_of al k of
        None \<Rightarrow> (False, al)
      | Some v \<Rightarrow> if P v then (True, filter (\<lambda>p. fst p \<noteq> k) al) else (False, al))"

datatype ('k, 'v) lruOp = OpGet 'k | OpPut 'k 'v | OpPeek 'k | OpUpdate 'k "'v option \<Rightarrow> 'v option"
  | OpDeleteIf 'k "'v \<Rightarrow> bool" | OpDelete 'k | OpLen

datatype ('k, 'v) lruOut = OutVal "'v option" | OutEvicted "'k option" | OutUnit | OutBool bool | OutLen int

fun lruStep :: "('k, 'v) lruOp \<Rightarrow> ('k, 'v) lru \<Rightarrow> ('k, 'v) lruOut \<times> ('k, 'v) lru" where
  "lruStep (OpGet k) l = map_prod OutVal id (lru_Get k l)"
| "lruStep (OpPut k v) l = map_prod OutEvicted id (lru_Put k v l)"
| "lruStep (OpPeek k) l = (OutVal (lru_Peek k l), l)"
| "lruStep (OpUpdate k fn) l = (OutUnit, lru_Update k fn l)"
| "lruStep (OpDeleteIf k P) l = map_prod OutBool id (lru_DeleteIf k P l)"
| "lruStep (OpDelete k) l = map_prod OutBool id (lru_Delete k l)"
| "lruStep OpLen l = (OutLen (lru_Len l), l)"

fun lruSpecStep :: "int \<Rightarrow> ('k, 'v) lruOp \<Rightarrow> ('k, 'v) recency \<Rightarrow> ('k, 'v) lruOut \<times> ('k, 'v) recency" where
  "lruSpecStep c (OpGet k) al = map_prod OutVal id (spec_get k al)"
| "lruSpecStep c (OpPut k v) al = map_prod OutEvicted id (spec_put c k v al)"
| "lruSpecStep c (OpPeek k) al = (OutVal (map_of al k), al)"
| "lruSpecStep c (OpUpdate k fn) al =
     (OutUnit, case fn (map_of al k) of None \<Rightarrow> al | Some v \<Rightarrow> snd (spec_put c k v al))"
| "lruSpecStep c (OpDeleteIf k P) al = map_prod OutBool id (spec_delete k P al)"
| "lruSpecStep c (OpDelete k) al = map_prod OutBool id (spec_delete k (\<lambda>v. True) al)"
| "lruSpecStep c OpLen al = (OutLen (int (length al)), al)"

section \<open>The linked list and the map agree\<close>

definition lru_abs :: "('k, 'v) lru \<Rightarrow> ('k, 'v) recency" where
  "lru_abs l = map (\<lambda>e. the (lru_elems l e)) (lru_order l)"

definition lru_wf :: "('k, 'v) lru \<Rightarrow> bool" where
  "lru_wf l \<longleftrightarrow> distinct (lru_order l) \<and>
     (\<forall>e\<in>set (lru_order l). e < lru_fresh l \<and> lru_elems l e \<noteq> None) \<and>
     (\<forall>k e. lru_idx l k = Some e \<longleftrightarrow> e \<in> set (lru_order l) \<and> map_option fst (lru_elems l e) = Some k)"

definition lru_inv :: "int \<Rightarrow> ('k, 'v) lru \<Rightarrow> bool" where
  "lru_inv c l \<longleftrightarrow> lru_wf l \<and> lru_cap l = c \<and> 0 < c \<and> int (length (lru_order l)) \<le> c"

lemma lru_wf_elem:
  "lru_wf l \<Longrightarrow> e \<in> set (lru_order l) \<Longrightarrow>
   \<exists>k v. lru_elems l e = Some (k, v) \<and> lru_idx l k = Some e"
  unfolding lru_wf_def by fastforce

lemma lru_idx_elem:
  assumes "lru_wf l" "lru_idx l k = Some e"
  shows "e \<in> set (lru_order l)" "\<exists>v. lru_elems l e = Some (k, v)"
  using assms unfolding lru_wf_def by auto

lemma fst_elem_iff:
  assumes "lru_wf l" "lru_idx l k = Some e" "e' \<in> set (lru_order l)"
  shows "fst (the (lru_elems l e')) = k \<longleftrightarrow> e' = e"
proof -
  obtain k' v' where "lru_elems l e' = Some (k', v')" "lru_idx l k' = Some e'" using lru_wf_elem [OF assms(1,3)] by blast
  then show ?thesis using assms(2) lru_idx_elem(2) [OF assms(1,2)] by auto
qed

lemma map_of_lru_abs:
  assumes "lru_wf l"
  shows "map_of (lru_abs l) k = (case lru_idx l k of None \<Rightarrow> None | Some e \<Rightarrow> map_option snd (lru_elems l e))"
proof (cases "lru_idx l k")
  case None
  then have "k \<notin> fst ` set (lru_abs l)" using lru_wf_elem [OF assms] by (force simp: lru_abs_def)
  then show ?thesis using None by (simp add: map_of_eq_None_iff)
next
  case (Some e)
  obtain v where v: "lru_elems l e = Some (k, v)" using lru_idx_elem(2) [OF assms Some] by blast
  have "map_of (map (\<lambda>e. the (lru_elems l e)) xs) k = Some v" if "e \<in> set xs" "set xs \<subseteq> set (lru_order l)" for xs
    using that
  proof (induction xs)
    case (Cons x xs)
    then show ?case using fst_elem_iff [OF assms Some, of x] v
      by (cases "x = e"; cases "the (lru_elems l x)") auto
  qed simp
  from this [OF lru_idx_elem(1) [OF assms Some]] show ?thesis using Some v by (simp add: lru_abs_def)
qed

lemma lru_abs_without:
  assumes "lru_wf l" "lru_idx l k = Some e"
  shows "map (\<lambda>e. the (lru_elems l e)) (remove1 e (lru_order l)) = filter (\<lambda>p. fst p \<noteq> k) (lru_abs l)"
proof -
  have "remove1 e (lru_order l) = filter (\<lambda>x. x \<noteq> e) (lru_order l)"
    using assms(1) by (simp add: lru_wf_def distinct_remove1_removeAll removeAll_filter_not_eq eq_commute)
  moreover have "filter (\<lambda>x. x \<noteq> e) (lru_order l) = filter (\<lambda>x. fst (the (lru_elems l x)) \<noteq> k) (lru_order l)"
    using fst_elem_iff [OF assms] by (intro filter_cong) auto
  ultimately show ?thesis by (simp add: lru_abs_def filter_map comp_def)
qed

text \<open>The three pointer manipulations: rewriting an element and moving it to the front, pushing a
  fresh element, and unlinking one.\<close>

lemma wf_remove:
  assumes "lru_wf l" "lru_idx l k = Some e"
  shows "lru_wf (l\<lparr>lru_order := remove1 e (lru_order l), lru_idx := (lru_idx l)(k := None)\<rparr>)"
proof -
  have keep: "set (remove1 e (lru_order l)) = set (lru_order l) - {e}" "distinct (remove1 e (lru_order l))"
    using assms(1) by (simp_all add: lru_wf_def)
  have "((lru_idx l)(k := None)) k' = Some e' \<longleftrightarrow>
      e' \<in> set (lru_order l) - {e} \<and> map_option fst (lru_elems l e') = Some k'" for k' e'
    using assms unfolding lru_wf_def by (cases "k' = k") (metis DiffE fun_upd_same insertI1 option.distinct(1) option.inject, auto)
  then show ?thesis using assms(1) keep unfolding lru_wf_def by simp
qed

lemma wf_move:
  fixes v :: 'v and l :: "('k, 'v) lru"
  assumes "lru_wf l" "lru_idx l k = Some e"
  defines "l' \<equiv> l\<lparr>lru_elems := (lru_elems l)(e \<mapsto> (k, v)), lru_order := MoveToFront e (lru_order l)\<rparr>"
  shows "lru_wf l'" "lru_abs l' = touch k v (lru_abs l)" "length (lru_order l') = length (lru_order l)"
proof -
  have e: "e \<in> set (lru_order l)" "map_option fst (lru_elems l e) = Some k"
    using lru_idx_elem [OF assms(1,2)] by auto
  have d: "distinct (lru_order l)" using assms(1) by (simp add: lru_wf_def)
  have order: "lru_order l' = e # remove1 e (lru_order l)" using e by (simp add: l'_def MoveToFront_def)
  have setorder: "set (lru_order l') = set (lru_order l)" "distinct (lru_order l')" using order d e by auto
  have fsts: "map_option fst (lru_elems l' x) = map_option fst (lru_elems l x)" for x using e(2) by (auto simp add: l'_def)
  have "lru_elems l' x \<noteq> None" if "x \<in> set (lru_order l)" for x using that assms(1) by (simp add: l'_def lru_wf_def)
  then show "lru_wf l'" using assms(1) setorder fsts unfolding lru_wf_def by (simp add: l'_def)
  have "map (\<lambda>e. the (lru_elems l' e)) (remove1 e (lru_order l)) = map (\<lambda>e. the (lru_elems l e)) (remove1 e (lru_order l))"
    using d by (intro map_cong) (auto simp: l'_def)
  then show "lru_abs l' = touch k v (lru_abs l)"
    using lru_abs_without [OF assms(1,2)] order by (simp add: lru_abs_def [of l'] touch_def) (simp add: l'_def)
  show "length (lru_order l') = length (lru_order l)" using order e by (simp add: length_remove1) (metis One_nat_def Suc_pred length_pos_if_in_set)
qed

lemma wf_push:
  fixes v :: 'v and l :: "('k, 'v) lru"
  assumes "lru_wf l" "lru_idx l k = None"
  defines "e \<equiv> lru_fresh l"
  defines "l' \<equiv> l\<lparr>lru_elems := (lru_elems l)(e \<mapsto> (k, v)), lru_order := e # lru_order l, lru_fresh := e + 1,
                  lru_idx := (lru_idx l)(k \<mapsto> e)\<rparr>"
  shows "lru_wf l'" "lru_abs l' = touch k v (lru_abs l)"
proof -
  have fresh: "e \<notin> set (lru_order l)" using assms(1) by (auto simp: lru_wf_def e_def)
  have nokey: "map_option fst (lru_elems l x) \<noteq> Some k" if "x \<in> set (lru_order l)" for x
    using assms(1,2) that unfolding lru_wf_def by (metis option.distinct(1))
  have other: "lru_elems l' x = lru_elems l x" if "x \<in> set (lru_order l)" for x using that fresh by (auto simp: l'_def)
  have "lru_idx l' k' = Some e' \<longleftrightarrow> e' \<in> set (lru_order l') \<and> map_option fst (lru_elems l' e') = Some k'" for k' e'
  proof (cases "e' = e")
    case True
    have "lru_idx l k' \<noteq> Some e" using assms(1) fresh unfolding lru_wf_def by blast
    then show ?thesis using True by (auto simp: l'_def)
  next
    case False
    then show ?thesis using assms(1) nokey unfolding lru_wf_def by (auto simp: l'_def)
  qed
  moreover have "\<forall>x\<in>set (lru_order l'). x < lru_fresh l' \<and> lru_elems l' x \<noteq> None"
    using assms(1) by (auto simp: l'_def lru_wf_def e_def)
  ultimately show "lru_wf l'" using assms(1) fresh unfolding lru_wf_def by (simp add: l'_def)
  have "filter (\<lambda>p. fst p \<noteq> k) (lru_abs l) = lru_abs l"
  proof (rule filter_True, intro ballI notI)
    fix p assume p: "p \<in> set (lru_abs l)" "fst p = k"
    then obtain x where x: "x \<in> set (lru_order l)" "the (lru_elems l x) = p" by (auto simp: lru_abs_def)
    moreover have "lru_elems l x \<noteq> None" using x(1) assms(1) by (simp add: lru_wf_def)
    ultimately show False using nokey p(2) by (metis option.collapse option.map(2))
  qed
  moreover have "map (\<lambda>e. the (lru_elems l' e)) (lru_order l) = lru_abs l"
    unfolding lru_abs_def using other by (intro map_cong) auto
  ultimately show "lru_abs l' = touch k v (lru_abs l)" by (simp add: lru_abs_def [of l'] touch_def) (simp add: l'_def)
qed

lemma remove1_last: "distinct xs \<Longrightarrow> xs \<noteq> [] \<Longrightarrow> remove1 (last xs) xs = butlast xs"
  by (induction xs rule: rev_induct) (auto simp: remove1_append)

lemma length_touch: "map_of al k = None \<Longrightarrow> length (touch k v al) = Suc (length al)"
  unfolding touch_def by (subst filter_True) (auto simp: map_of_eq_None_iff)

lemma putLocked_refines:
  fixes l :: "('k, 'v) lru"
  assumes inv: "lru_inv c l"
  shows "lru_inv c (snd (putLocked k v l)) \<and> map_prod id lru_abs (putLocked k v l) = spec_put c k v (lru_abs l)"
proof -
  have wf: "lru_wf l" and cap: "lru_cap l = c" "0 < c" "int (length (lru_order l)) \<le> c" using inv by (simp_all add: lru_inv_def)
  have len: "length (lru_abs x) = length (lru_order x)" for x :: "('k, 'v) lru" by (simp add: lru_abs_def)
  show ?thesis
  proof (cases "lru_idx l k")
    case (Some e)
    note m = wf_move [OF wf Some, of v]
    have "int (length (touch k v (lru_abs l))) \<le> c" using m(2,3) cap(3) len by metis
    then show ?thesis using m cap Some by (simp add: putLocked_def spec_put_def Let_def lru_inv_def)
  next
    case None
    define e where "e = lru_fresh l"
    define l1 where "l1 = l\<lparr>lru_elems := (lru_elems l)(e \<mapsto> (k, v)), lru_order := e # lru_order l, lru_fresh := e + 1,
                  lru_idx := (lru_idx l)(k \<mapsto> e)\<rparr>"
    have wf1: "lru_wf l1" and abs1: "lru_abs l1 = touch k v (lru_abs l)"
      using wf_push [OF wf None, of v] by (simp_all add: l1_def e_def)
    have cap1: "lru_cap l1 = c" "length (lru_order l1) = Suc (length (lru_order l))" by (simp_all add: l1_def cap)
    show ?thesis
    proof (cases "c < int (length (lru_order l1))")
      case False
      then have "putLocked k v l = (None, l1)" using None by (simp add: putLocked_def Let_def l1_def e_def cap)
      then show ?thesis using False wf1 cap cap1 abs1 len [of l1] by (simp add: spec_put_def Let_def lru_inv_def)
    next
      case True
      let ?b = "last (lru_order l1)"
      have "?b \<in> set (lru_order l1)" by (simp add: l1_def)
      then obtain k' v' where b: "lru_elems l1 ?b = Some (k', v')" "lru_idx l1 k' = Some ?b" using lru_wf_elem [OF wf1] by blast
      define l2 where "l2 = l1\<lparr>lru_order := remove1 ?b (lru_order l1), lru_idx := (lru_idx l1)(k' := None)\<rparr>"
      have put: "putLocked k v l = (Some k', l2)"
        using None True b unfolding putLocked_def l2_def by (simp add: Let_def l1_def e_def cap)
      have order2: "lru_order l2 = butlast (lru_order l1)"
        using remove1_last wf1 by (auto simp: l2_def lru_wf_def l1_def)
      have abs2: "lru_abs l2 = butlast (lru_abs l1)" by (simp add: lru_abs_def order2 map_butlast) (simp add: l2_def)
      have ne: "lru_order l1 \<noteq> []" by (simp add: l1_def)
      have "last (lru_abs l1) = (k', v')" using b(1) unfolding lru_abs_def last_map [OF ne] by simp
      then have "fst (last (lru_abs l1)) = k'" by simp
      then have "map_prod id lru_abs (Some k', l2) = spec_put c k v (lru_abs l)"
        using True abs2 abs1 len [of l1] by (simp add: spec_put_def Let_def)
      moreover have "lru_inv c l2" using wf_remove [OF wf1 b(2)] cap cap1 order2 by (simp add: lru_inv_def l2_def)
      ultimately show ?thesis by (simp add: put)
    qed
  qed
qed

lemma lru_Peek_refines: "lru_inv c l \<Longrightarrow> lru_Peek k l = map_of (lru_abs l) k"
  by (simp add: lru_Peek_def map_of_lru_abs lru_inv_def split: option.splits)

lemma lru_Get_value: "lru_inv c l \<Longrightarrow> fst (lru_Get k l) = map_of (lru_abs l) k"
  by (simp add: lru_Get_def map_of_lru_abs lru_inv_def split: option.splits)

lemma lru_Get_refines:
  assumes inv: "lru_inv c l"
  shows "lru_inv c (snd (lru_Get k l)) \<and> map_prod id lru_abs (lru_Get k l) = spec_get k (lru_abs l)"
proof (cases "lru_idx l k")
  case None
  then show ?thesis using inv by (simp add: lru_Get_def spec_get_def map_of_lru_abs lru_inv_def)
next
  case (Some e)
  have wf: "lru_wf l" using inv by (simp add: lru_inv_def)
  obtain v where v: "lru_elems l e = Some (k, v)" using lru_idx_elem(2) [OF wf Some] by blast
  then have same: "(lru_elems l)(e \<mapsto> (k, v)) = lru_elems l" by auto
  note m = wf_move [OF wf Some, of v, unfolded same]
  have "map_of (lru_abs l) k = Some v" using Some v map_of_lru_abs [OF wf] by simp
  then show ?thesis using m inv Some v by (simp add: lru_Get_def spec_get_def lru_inv_def)
qed

lemma lru_DeleteIf_refines:
  assumes inv: "lru_inv c l"
  shows "lru_inv c (snd (lru_DeleteIf k P l)) \<and> map_prod id lru_abs (lru_DeleteIf k P l) = spec_delete k P (lru_abs l)"
proof (cases "lru_idx l k")
  case None
  then show ?thesis using inv by (simp add: lru_DeleteIf_def spec_delete_def map_of_lru_abs lru_inv_def)
next
  case (Some e)
  have wf: "lru_wf l" using inv by (simp add: lru_inv_def)
  obtain v where v: "lru_elems l e = Some (k, v)" "e \<in> set (lru_order l)" using lru_idx_elem [OF wf Some] by blast
  have "map_of (lru_abs l) k = Some v" using Some v map_of_lru_abs [OF wf] by simp
  moreover have "int (length (remove1 e (lru_order l))) \<le> c" using inv by (auto simp: lru_inv_def length_remove1)
  moreover have "lru_abs (l\<lparr>lru_order := remove1 e (lru_order l), lru_idx := (lru_idx l)(k := None)\<rparr>) =
      filter (\<lambda>p. fst p \<noteq> k) (lru_abs l)"
    using lru_abs_without [OF wf Some] by (simp add: lru_abs_def [of "_ \<lparr>lru_order := _\<rparr>"] lru_abs_def [of "lru_idx_update _ _"])
  ultimately show ?thesis using wf_remove [OF wf Some] inv Some v
    by (simp add: lru_DeleteIf_def spec_delete_def lru_inv_def)
qed

lemma lru_Delete_alt: "lru_inv c l \<Longrightarrow> lru_Delete k l = lru_DeleteIf k (\<lambda>v. True) l"
  using lru_idx_elem [of l k] by (auto simp: lru_Delete_def lru_DeleteIf_def lru_inv_def split: option.splits)

lemma lift_out: "map_prod id g p = q \<Longrightarrow> map_prod f id q = map_prod id g (map_prod f id p)"
  by (cases p) auto

lemma lruStep_refines:
  assumes inv: "lru_inv c l"
  shows "lru_inv c (snd (lruStep x l)) \<and> lruSpecStep c x (lru_abs l) = map_prod id lru_abs (lruStep x l)"
proof -
  have len: "length (lru_abs l) = length (lru_order l)" by (simp add: lru_abs_def)
  show ?thesis
  proof (cases x)
    case (OpGet k)
    then show ?thesis using lru_Get_refines [OF inv, of k] by (auto intro: lift_out)
  next
    case (OpPut k v)
    then show ?thesis using putLocked_refines [OF inv, of k v] by (auto simp: lru_Put_def intro: lift_out)
  next
    case (OpUpdate k fn)
    show ?thesis
    proof (cases "fn (map_of (lru_abs l) k)")
      case None
      then show ?thesis using OpUpdate inv lru_Peek_refines [OF inv] by (simp add: lru_Update_def)
    next
      case (Some v)
      have "snd (spec_put c k v (lru_abs l)) = lru_abs (snd (putLocked k v l))"
        using putLocked_refines [OF inv, of k v] by (metis snd_map_prod)
      then show ?thesis using OpUpdate Some putLocked_refines [OF inv, of k v] lru_Peek_refines [OF inv]
        by (simp add: lru_Update_def)
    qed
  next
    case (OpDeleteIf k P)
    then show ?thesis using lru_DeleteIf_refines [OF inv, of k P] by (auto intro: lift_out)
  next
    case (OpDelete k)
    then show ?thesis using lru_DeleteIf_refines [OF inv, of k "\<lambda>v. True"] lru_Delete_alt [OF inv] by (auto intro: lift_out)
  qed (use inv lru_Peek_refines [OF inv] len in \<open>simp_all add: lru_Len_def\<close>)
qed

interpretation lru: simulation "lru_inv c" lru_abs lruStep "lruSpecStep c" for c
  by unfold_locales (use lruStep_refines in blast)+

lemma NewLRU_inv: "NewLRU c = Some l \<Longrightarrow> lru_inv c l \<and> lru_abs l = []"
  by (auto simp: NewLRU_def lru_inv_def lru_wf_def lru_abs_def split: if_splits)

text \<open>C20.
  The map with the linked list implements the bounded recency list: for every sequence of
  operations on a new cache, what they return, evicted keys included, is what the specification
  returns, the entries front to back are its list, and the cache never holds more than its
  capacity.\<close>

theorem lru_implements_recency_list:
  assumes "NewLRU c = Some l"
  shows "run_ops (lruSpecStep c) ops [] = map_prod id lru_abs (run_ops lruStep ops l) \<and>
         lru_Len (snd (run_ops lruStep ops l)) \<le> c"
  using lru.run_refines [of c l ops] lru.inv_run [of c l ops] NewLRU_inv [OF assms]
  by (simp add: lru_inv_def lru_Len_def)

theorem lru_implements_recency_list_witness:
  "\<exists>l :: (nat, nat) lru. NewLRU 2 = Some l \<and>
     run_ops (lruSpecStep 2) [OpPut 1 10, OpPut 2 20, OpGet 1, OpPut 3 30] [] =
       map_prod id lru_abs (run_ops lruStep [OpPut 1 10, OpPut 2 20, OpGet 1, OpPut 3 30] l)"
proof -
  obtain l :: "(nat, nat) lru" where "NewLRU 2 = Some l" by (simp add: NewLRU_def)
  from this lru_implements_recency_list [OF this] show ?thesis by blast
qed

section \<open>What eviction keeps\<close>

text \<open>The key an operation can move to the front, and the operations that may change the value of a
  key.\<close>

fun usesKey :: "('k, 'v) lruOp \<Rightarrow> 'k option" where
  "usesKey (OpGet k) = Some k"
| "usesKey (OpPut k v) = Some k"
| "usesKey (OpUpdate k fn) = Some k"
| "usesKey _ = None"

fun changesKey :: "'k \<Rightarrow> ('k, 'v) lruOp \<Rightarrow> bool" where
  "changesKey k (OpPut k' v) \<longleftrightarrow> k' = k"
| "changesKey k (OpUpdate k' fn) \<longleftrightarrow> k' = k"
| "changesKey k (OpDeleteIf k' P) \<longleftrightarrow> k' = k"
| "changesKey k (OpDelete k') \<longleftrightarrow> k' = k"
| "changesKey k _ \<longleftrightarrow> False"

definition aheadKeys :: "'k \<Rightarrow> ('k, 'v) recency \<Rightarrow> 'k set" where
  "aheadKeys k al = fst ` set (takeWhile (\<lambda>p. fst p \<noteq> k) al)"

definition keeps :: "'k \<Rightarrow> 'v \<Rightarrow> 'k set \<Rightarrow> ('k, 'v) recency \<Rightarrow> bool" where
  "keeps k v S al \<longleftrightarrow> map_of al k = Some v \<and> distinct (map fst al) \<and> aheadKeys k al \<subseteq> S"

lemma aheadKeys_simps [simp]: "aheadKeys k [] = {}"
    "aheadKeys k (p # al) = (if fst p = k then {} else insert (fst p) (aheadKeys k al))"
  by (auto simp: aheadKeys_def)

lemma aheadKeys_filter: "aheadKeys k (filter Q al) \<subseteq> aheadKeys k al" if "\<forall>p. fst p = k \<longrightarrow> Q p"
  using that by (induction al) auto

lemma map_of_filter_other: "k' \<noteq> k \<Longrightarrow> map_of (filter (\<lambda>p. fst p \<noteq> k') al) k = map_of al k"
  by (induction al) auto

lemma keeps_touch: "keeps k v S al \<Longrightarrow> k' \<noteq> k \<Longrightarrow> k' \<in> S \<Longrightarrow> keeps k v S (touch k' v' al)"
  using aheadKeys_filter [of k "\<lambda>p. fst p \<noteq> k'" al]
  by (auto simp: keeps_def touch_def map_of_filter_other distinct_map_filter)

lemma keeps_delete: "keeps k v S al \<Longrightarrow> k' \<noteq> k \<Longrightarrow> keeps k v S (filter (\<lambda>p. fst p \<noteq> k') al)"
  using aheadKeys_filter [of k "\<lambda>p. fst p \<noteq> k'" al] by (auto simp: keeps_def map_of_filter_other distinct_map_filter)

lemma ahead_of_last:
  assumes "distinct (map fst (al @ [p]))" "fst p = k"
  shows "aheadKeys k (al @ [p]) = fst ` set al"
  using assms by (induction al) (auto simp: rev_image_eqI)

lemma keeps_butlast:
  assumes "keeps k v S al" "finite S" "card S < length al - 1" "k \<notin> S"
  shows "keeps k v S (butlast al)"
proof -
  obtain bl p where al: "al = bl @ [p]" using assms(3) by (cases al rule: rev_cases) auto
  have d: "distinct (map fst al)" using assms(1) by (simp add: keeps_def)
  have "fst p \<noteq> k"
  proof
    assume "fst p = k"
    then have "fst ` set bl \<subseteq> S" using ahead_of_last [of bl p k] d al assms(1) by (simp add: keeps_def)
    then have "card (fst ` set bl) \<le> card S" using assms(2) by (rule card_mono [rotated])
    moreover have "card (fst ` set bl) = length bl" using d al by (metis distinct_append distinct_card length_map list.set_map map_append)
    ultimately show False using assms(3) al by simp
  qed
  then have "map_of bl k = Some v" using assms(1) al by (auto simp: keeps_def map_add_def map_of_append split: option.splits)
  moreover have "aheadKeys k bl \<subseteq> aheadKeys k (bl @ [p])" by (induction bl) auto
  ultimately show ?thesis using assms(1) al by (auto simp: keeps_def)
qed

lemma length_touch_le: "length (touch k v al) \<le> Suc (length al)"
  by (simp add: touch_def)

lemma keeps_put:
  assumes "keeps k v S al" "k' \<noteq> k" "k' \<in> S" "finite S" "int (card S) < c" "k \<notin> S" 
  shows "keeps k v S (snd (spec_put c k' v' al))"
proof (cases "c < int (length (touch k' v' al))")
  case True
  then have "keeps k v S (butlast (touch k' v' al))"
    using keeps_butlast [OF keeps_touch [OF assms(1-3)] assms(4) _ assms(6)] assms(5) by simp
  then show ?thesis using True by (simp add: spec_put_def Let_def)
qed (use keeps_touch [OF assms(1-3)] in \<open>simp add: spec_put_def Let_def\<close>)

lemma keeps_step:
  assumes keep: "keeps k v S al" and S: "finite S" "int (card S) < c" "k \<notin> S"
    and op: "\<not> changesKey k x" "\<forall>k'. usesKey x = Some k' \<longrightarrow> k' \<noteq> k \<longrightarrow> k' \<in> S"
  shows "keeps k v S (snd (lruSpecStep c x al))"
proof (cases x)
  case (OpGet k')
  then show ?thesis
  proof (cases "k' = k")
    case True
    have "map_of al k = Some v" "distinct (map fst al)" using keep by (simp_all add: keeps_def)
    then show ?thesis using True OpGet by (auto simp: spec_get_def keeps_def touch_def distinct_map_filter)
  next
    case False
    then show ?thesis using OpGet op keep keeps_touch [OF keep False]
      by (simp add: spec_get_def split: option.split)
  qed
next
  case (OpPut k' v')
  then show ?thesis using op keeps_put [OF keep _ _ S] by simp
next
  case (OpUpdate k' fn)
  then show ?thesis using op keep keeps_put [OF keep _ _ S] by (simp split: option.split)
next
  case (OpDeleteIf k' P)
  then show ?thesis using op keep keeps_delete [OF keep] by (simp add: spec_delete_def split: option.split)
next
  case (OpDelete k')
  then show ?thesis using op keep keeps_delete [OF keep] by (simp add: spec_delete_def split: option.split)
qed (use keep in simp_all)

lemma keeps_run:
  assumes S: "finite S" "int (card S) < c" "k \<notin> S"
  shows "keeps k v S al \<Longrightarrow> \<forall>x\<in>set ops. \<not> changesKey k x \<and> (\<forall>k'. usesKey x = Some k' \<longrightarrow> k' \<noteq> k \<longrightarrow> k' \<in> S) \<Longrightarrow>
    keeps k v S (snd (run_ops (lruSpecStep c) ops al))"
proof (induction ops arbitrary: al)
  case (Cons x ops)
  then show ?case using keeps_step [OF Cons.prems(1) S, of x] by (auto simp: case_prod_beta)
qed simp

text \<open>The other keys a sequence of operations puts, gets or updates.\<close>

definition otherKeys :: "'k \<Rightarrow> ('k, 'v) lruOp list \<Rightarrow> 'k set" where
  "otherKeys k ops = {k'. k' \<noteq> k \<and> Some k' \<in> usesKey ` set ops}"

lemma finite_otherKeys: "finite (otherKeys k ops)"
proof -
  have "otherKeys k ops \<subseteq> the ` (usesKey ` set ops)"
  proof
    fix k' assume "k' \<in> otherKeys k ops"
    then have "Some k' \<in> usesKey ` set ops" by (simp add: otherKeys_def)
    then show "k' \<in> the ` (usesKey ` set ops)" by (metis imageI option.sel)
  qed
  then show ?thesis by (rule finite_subset) simp
qed

lemma lru_abs_distinct: "lru_inv c l \<Longrightarrow> distinct (map fst (lru_abs l))"
proof -
  assume inv: "lru_inv c l"
  have "inj_on (\<lambda>e. fst (the (lru_elems l e))) (set (lru_order l))"
  proof (rule inj_onI)
    fix x y assume xy: "x \<in> set (lru_order l)" "y \<in> set (lru_order l)" "fst (the (lru_elems l x)) = fst (the (lru_elems l y))"
    obtain k v where "lru_elems l x = Some (k, v)" "lru_idx l k = Some x" using lru_wf_elem inv xy(1) unfolding lru_inv_def by blast
    moreover obtain k' v' where "lru_elems l y = Some (k', v')" "lru_idx l k' = Some y" using lru_wf_elem inv xy(2) unfolding lru_inv_def by blast
    ultimately show "x = y" using xy(3) by simp
  qed
  then show ?thesis using inv by (simp add: lru_inv_def lru_wf_def lru_abs_def distinct_map comp_def)
qed

text \<open>Eviction only forgets what was not used recently: a value written at any time is still there
  after any further operations that do not overwrite or delete its key, as long as they use fewer
  other keys than the capacity.\<close>

theorem lru_keeps_recent:
  assumes new: "NewLRU c = Some l0"
    and keep: "list_all (\<lambda>x. \<not> changesKey k x) ops" and few: "int (card (otherKeys k ops)) < c"
  shows "lru_Peek k (snd (run_ops lruStep ops (snd (lru_Put k v (snd (run_ops lruStep before l0)))))) = Some v"
proof -
  let ?l = "snd (run_ops lruStep before l0)"
  let ?l1 = "snd (lru_Put k v ?l)"
  have c: "0 < c" using new by (auto simp: NewLRU_def split: if_splits)
  have inv: "lru_inv c ?l" using lru.inv_run NewLRU_inv [OF new] by blast
  have put: "lru_inv c ?l1" "lru_abs ?l1 = snd (spec_put c k v (lru_abs ?l))"
    using putLocked_refines [OF inv, of k v] by (simp_all add: lru_Put_def) (metis snd_map_prod)
  have front: "lru_abs ?l1 \<noteq> [] \<and> hd (lru_abs ?l1) = (k, v)"
    using c by (auto simp: put(2) spec_put_def Let_def touch_def)
  then have kp: "keeps k v (otherKeys k ops) (lru_abs ?l1)"
    using lru_abs_distinct [OF put(1)] by (cases "lru_abs ?l1") (auto simp: keeps_def)
  have out: "k \<notin> otherKeys k ops" by (simp add: otherKeys_def)
  have ops: "\<forall>x\<in>set ops. \<not> changesKey k x \<and> (\<forall>k'. usesKey x = Some k' \<longrightarrow> k' \<noteq> k \<longrightarrow> k' \<in> otherKeys k ops)"
    using keep by (auto simp: list_all_iff otherKeys_def intro: rev_image_eqI)
  have "keeps k v (otherKeys k ops) (snd (run_ops (lruSpecStep c) ops (lru_abs ?l1)))"
    by (rule keeps_run [OF finite_otherKeys few out kp ops])
  moreover have "snd (run_ops (lruSpecStep c) ops (lru_abs ?l1)) = lru_abs (snd (run_ops lruStep ops ?l1))"
    using lru.run_refines [OF put(1), of ops] by simp
  ultimately show ?thesis using lru_Peek_refines [OF lru.inv_run [OF put(1)], of k ops] by (simp add: keeps_def)
qed

theorem lru_keeps_recent_witness:
  "\<exists>l0 :: (nat, nat) lru. NewLRU 2 = Some l0 \<and>
     lru_Peek 1 (snd (run_ops lruStep [OpPut 2 20, OpGet 2, OpPeek 1] (snd (lru_Put 1 10 (snd (run_ops lruStep [] l0)))))) = Some 10"
proof -
  obtain l0 :: "(nat, nat) lru" where l0: "NewLRU 2 = Some l0" by (simp add: NewLRU_def)
  have "otherKeys 1 [OpPut 2 20, OpGet 2, OpPeek (1 :: nat) :: (nat, nat) lruOp] = {2}" by (auto simp: otherKeys_def)
  then show ?thesis using lru_keeps_recent [OF l0, of 1 "[OpPut 2 20, OpGet 2, OpPeek 1]" 10 "[]"] l0 by simp
qed

end
