(* ===== verification/NodeMirror.thy ===== *)
theory NodeMirror
  imports LRUCache NodeKeys
begin

unbundle bit_operations_syntax

text \<open>
  The in-process mirror of node states (\<open>domains/ursm/v2/cache/nodemirror.go\<close>): sixteen
  LRU shards chosen by a 64-bit FNV-1a hash of the legacy node key, written under the
  generation order and read with a soft expiry. The theory composes the LRU with the key
  grammar: what a lookup of one tenant can return, that generations never go back, how old a served
  entry can be, and how many entries there are. \<open>now\<close> arguments are the answers of
  \<open>time.Now()\<close>.
\<close>

section \<open>State and operations\<close>

record nodeView =
  nv_TenantID :: string
  nv_CredentialID :: int
  nv_RawModel :: string
  nv_Available :: bool
  nv_Reason :: string
  nv_Generation :: int
  nv_SourcePriority :: int
  nv_FailStreak :: int
  nv_CoolUntil :: "instant option"
  nv_LatEWMA :: int
  nv_SR5m :: real
  nv_Samples5m :: int
  nv_HealthStatus :: string
  nv_CachedAt :: "instant option"
  nv_softExpireAt :: "instant option"

definition NodeMirrorShards :: nat where "NodeMirrorShards = 16"

record nodeMirror =
  nm_shards :: "(string, nodeView) lru list"
  nm_softTTL :: duration
  nm_prefix :: string

definition NewNodeMirrorWithPrefix :: "int \<Rightarrow> duration \<Rightarrow> string \<Rightarrow> nodeMirror option" where
  "NewNodeMirrorWithPrefix capacity softTTL prefix =
     (let capacity1 = (if capacity \<le> 0 then 1 else capacity);
          prefix1 = (if prefix = [] then ''ursm:v2:'' else prefix);
          per = (capacity1 + int NodeMirrorShards - 1) div int NodeMirrorShards;
          per1 = (if per < 1 then 1 else per)
      in case NewLRU per1 of
           None \<Rightarrow> None
         | Some shard \<Rightarrow> Some \<lparr>nm_shards = replicate NodeMirrorShards shard, nm_softTTL = softTTL, nm_prefix = prefix1\<rparr>)"

definition NewNodeMirror :: "int \<Rightarrow> duration \<Rightarrow> nodeMirror option" where
  "NewNodeMirror capacity softTTL = NewNodeMirrorWithPrefix capacity softTTL ''ursm:v2:''"

definition fnvStep :: "64 word \<Rightarrow> char \<Rightarrow> 64 word" where
  "fnvStep h c = (h XOR word_of_nat (of_char c)) * 1099511628211"

definition shardOf :: "string \<Rightarrow> nat" where
  "shardOf key = unat (foldl fnvStep 14695981039346656037 key) mod NodeMirrorShards"

definition nodeMirrorKeyForTenantWithPrefix :: "string \<Rightarrow> string \<Rightarrow> int \<Rightarrow> string \<Rightarrow> string" where
  "nodeMirrorKeyForTenantWithPrefix prefix tenant credID raw = NodeKeyForTenant prefix tenant credID raw"

abbreviation mirrorKey :: "nodeMirror \<Rightarrow> string \<Rightarrow> int \<Rightarrow> string \<Rightarrow> string" where
  "mirrorKey m \<equiv> nodeMirrorKeyForTenantWithPrefix (nm_prefix m)"

definition shard :: "nodeMirror \<Rightarrow> string \<Rightarrow> (string, nodeView) lru" where
  "shard m key = nm_shards m ! shardOf key"

definition setShard :: "nodeMirror \<Rightarrow> string \<Rightarrow> (string, nodeView) lru \<Rightarrow> nodeMirror" where
  "setShard m key l = m\<lparr>nm_shards := (nm_shards m)[shardOf key := l]\<rparr>"

text \<open>The callback of \<open>applyToLRU\<close>: refuse an older generation, and a lower priority within the
  same generation.\<close>

definition acceptNewer :: "nodeView \<Rightarrow> nodeView option \<Rightarrow> nodeView option" where
  "acceptNewer v old =
     (case old of
        None \<Rightarrow> Some v
      | Some w \<Rightarrow>
          if nv_Generation v < nv_Generation w then None
          else if nv_Generation v = nv_Generation w \<and> nv_SourcePriority v < nv_SourcePriority w then None
          else Some v)"

definition applyToLRU :: "nodeView \<Rightarrow> instant \<Rightarrow> nodeMirror \<Rightarrow> nodeMirror" where
  "applyToLRU v now m =
     (let key = mirrorKey m (nv_TenantID v) (nv_CredentialID v) (nv_RawModel v);
          v1 = v\<lparr>nv_softExpireAt := Some (now + nm_softTTL m)\<rparr>
      in setShard m key (lru_Update key (acceptNewer v1) (shard m key)))"

text \<open>\<open>ApplyFromAPI\<close> stamps \<open>CachedAt\<close> with a first reading of the clock; the second one
  is that of \<open>applyToLRU\<close>. The argument holds the copied fields of \<open>api.NodeView\<close>.\<close>

definition ApplyFromAPI :: "nodeView \<Rightarrow> instant \<Rightarrow> instant \<Rightarrow> nodeMirror \<Rightarrow> nodeMirror" where
  "ApplyFromAPI v cachedNow now m = applyToLRU (v\<lparr>nv_CachedAt := Some cachedNow, nv_softExpireAt := None\<rparr>) now m"

definition GetForTenant :: "string \<Rightarrow> int \<Rightarrow> string \<Rightarrow> instant \<Rightarrow> nodeMirror \<Rightarrow> nodeView option \<times> nodeMirror" where
  "GetForTenant tenant credID raw now m =
     (let key = mirrorKey m tenant credID raw in
      case lru_Get key (shard m key) of
        (res, l) \<Rightarrow>
          (case res of
             None \<Rightarrow> None
           | Some v \<Rightarrow> if (case nv_softExpireAt v of Some t \<Rightarrow> t < now | None \<Rightarrow> True) then None else Some v,
           setShard m key l))"

definition PeekForTenant :: "string \<Rightarrow> int \<Rightarrow> string \<Rightarrow> nodeMirror \<Rightarrow> nodeView option" where
  "PeekForTenant tenant credID raw m =
     (let key = mirrorKey m tenant credID raw in lru_Peek key (shard m key))"

definition GetForTenantWithinOutageWindow ::
  "string \<Rightarrow> int \<Rightarrow> string \<Rightarrow> duration \<Rightarrow> instant \<Rightarrow> nodeMirror \<Rightarrow> nodeView option" where
  "GetForTenantWithinOutageWindow tenant credID raw maxAge now m =
     (if maxAge \<le> 0 then None
      else case PeekForTenant tenant credID raw m of
        None \<Rightarrow> None
      | Some v \<Rightarrow> (case nv_CachedAt v of
            None \<Rightarrow> None
          | Some t \<Rightarrow> if now - t > maxAge then None else Some v))"

definition InvalidateForTenant :: "string \<Rightarrow> int \<Rightarrow> string \<Rightarrow> nodeMirror \<Rightarrow> bool \<times> nodeMirror" where
  "InvalidateForTenant tenant credID raw m =
     (let key = mirrorKey m tenant credID raw in
      case lru_Delete key (shard m key) of (hit, l) \<Rightarrow> (hit, setShard m key l))"

definition Get_legacy :: "int \<Rightarrow> string \<Rightarrow> instant \<Rightarrow> nodeMirror \<Rightarrow> nodeView option \<times> nodeMirror" where
  "Get_legacy credID raw now m = GetForTenant [] credID raw now m"

definition Peek_legacy :: "int \<Rightarrow> string \<Rightarrow> nodeMirror \<Rightarrow> nodeView option" where
  "Peek_legacy credID raw m = PeekForTenant [] credID raw m"

definition Invalidate_legacy :: "int \<Rightarrow> string \<Rightarrow> nodeMirror \<Rightarrow> bool \<times> nodeMirror" where
  "Invalidate_legacy credID raw m = InvalidateForTenant [] credID raw m"

text \<open>A history of the mirror: any interleaving of the operations that change a shard; each of them
  holds the mutex of one shard.\<close>

datatype mirrorOp = MApply nodeView instant instant | MGet string int string instant | MInvalidate string int string

fun mirrorStep :: "mirrorOp \<Rightarrow> nodeMirror \<Rightarrow> nodeView option \<times> nodeMirror" where
  "mirrorStep (MApply v cachedNow now) m = (None, ApplyFromAPI v cachedNow now m)"
| "mirrorStep (MGet tenant credID raw now) m = GetForTenant tenant credID raw now m"
| "mirrorStep (MInvalidate tenant credID raw) m = (None, snd (InvalidateForTenant tenant credID raw m))"

section \<open>The entries of a shard\<close>

lemma shardOf_less: "shardOf key < 16"
  by (simp add: shardOf_def NodeMirrorShards_def)

text \<open>An invariant of the values, by key, is kept by a shard when what is written satisfies it.\<close>

lemma spec_put_set: "set (snd (spec_put c k v al)) \<subseteq> insert (k, v) (set al)"
  by (auto simp: spec_put_def Let_def touch_def dest: in_set_butlastD split: if_splits)

lemma lruStep_abs: "lru_inv c l \<Longrightarrow> lru_abs (snd (lruStep x l)) = snd (lruSpecStep c x (lru_abs l))"
  using lruStep_refines [of c l x] by (metis snd_map_prod)

lemma Update_set:
  assumes "lru_inv c l"
  shows "set (lru_abs (lru_Update k fn l)) \<subseteq> set (lru_abs l) \<union> {(k, v) | v. fn (map_of (lru_abs l) k) = Some v}"
  using lruStep_abs [OF assms, of "OpUpdate k fn"] spec_put_set [of c k _ "lru_abs l"]
  by (fastforce split: option.splits)

lemma Get_set:
  assumes "lru_inv c l"
  shows "set (lru_abs (snd (lru_Get k l))) \<subseteq> set (lru_abs l)"
proof -
  have "set (snd (spec_get k al)) \<subseteq> set al" for al :: "('a, 'b) recency"
    by (auto simp: spec_get_def touch_def split: option.splits dest: map_of_SomeD)
  then show ?thesis using lruStep_abs [OF assms, of "OpGet k"] by (metis lruStep.simps(1) snd_map_prod lruSpecStep.simps(1) id_apply)
qed

lemma Delete_set:
  assumes "lru_inv c l"
  shows "set (lru_abs (snd (lru_Delete k l))) \<subseteq> set (lru_abs l)"
proof -
  have "set (snd (spec_delete k P al)) \<subseteq> set al" for P and al :: "('a, 'b) recency"
    by (auto simp: spec_delete_def split: option.splits)
  then show ?thesis using lruStep_abs [OF assms, of "OpDelete k"] by (metis lruStep.simps(6) snd_map_prod lruSpecStep.simps(6) id_apply)
qed

lemma shard_ops_inv:
  assumes "lru_inv c l"
  shows "lru_inv c (lru_Update k fn l)" "lru_inv c (snd (lru_Get k l))" "lru_inv c (snd (lru_Delete k l))"
  using lruStep_refines [OF assms, of "OpUpdate k fn"] lruStep_refines [OF assms, of "OpGet k"]
    lruStep_refines [OF assms, of "OpDelete k"] by simp_all

section \<open>Invariants of the mirror\<close>

definition mirror_inv :: "int \<Rightarrow> (string \<Rightarrow> nodeView \<Rightarrow> bool) \<Rightarrow> nodeMirror \<Rightarrow> bool" where
  "mirror_inv c Q m \<longleftrightarrow> length (nm_shards m) = 16 \<and>
     (\<forall>i<16. lru_inv c (nm_shards m ! i) \<and> (\<forall>(k, v)\<in>set (lru_abs (nm_shards m ! i)). Q k v))"

abbreviation stamped :: "nodeView \<Rightarrow> instant \<Rightarrow> instant \<Rightarrow> duration \<Rightarrow> nodeView" where
  "stamped v cachedNow now ttl \<equiv> v\<lparr>nv_CachedAt := Some cachedNow, nv_softExpireAt := Some (now + ttl)\<rparr>"

definition viewKey :: "string \<Rightarrow> nodeView \<Rightarrow> string" where
  "viewKey prefix v = nodeMirrorKeyForTenantWithPrefix prefix (nv_TenantID v) (nv_CredentialID v) (nv_RawModel v)"

lemma viewKey_stamped [simp]: "viewKey prefix (v\<lparr>nv_CachedAt := a, nv_softExpireAt := b\<rparr>) = viewKey prefix v"
  by (simp add: viewKey_def)

lemma ApplyFromAPI_alt:
  "ApplyFromAPI v t1 t2 m =
     setShard m (viewKey (nm_prefix m) v)
       (lru_Update (viewKey (nm_prefix m) v) (acceptNewer (stamped v t1 t2 (nm_softTTL m))) (shard m (viewKey (nm_prefix m) v)))"
  by (simp add: ApplyFromAPI_def applyToLRU_def viewKey_def Let_def)

lemma acceptNewer_Some: "acceptNewer v old = Some w \<Longrightarrow> w = v"
  by (auto simp: acceptNewer_def split: option.splits if_splits)

lemma mirror_inv_shard: "mirror_inv c Q m \<Longrightarrow> lru_inv c (shard m key) \<and> (\<forall>(k, v)\<in>set (lru_abs (shard m key)). Q k v)"
  unfolding mirror_inv_def shard_def using shardOf_less by blast

lemma mirror_inv_setShard:
  assumes "mirror_inv c Q m" "lru_inv c l" "\<forall>(k, v)\<in>set (lru_abs l). Q k v"
  shows "mirror_inv c Q (setShard m key l)"
  using assms shardOf_less unfolding mirror_inv_def setShard_def by (simp add: nth_list_update)

lemma setShard_simps [simp]: "nm_prefix (setShard m key l) = nm_prefix m" "nm_softTTL (setShard m key l) = nm_softTTL m"
  by (simp_all add: setShard_def)

lemma mirrorStep_simps [simp]: "nm_prefix (snd (mirrorStep x m)) = nm_prefix m" "nm_softTTL (snd (mirrorStep x m)) = nm_softTTL m"
  by (cases x; simp add: ApplyFromAPI_alt GetForTenant_def InvalidateForTenant_def Let_def split: prod.splits)+

text \<open>An invariant of the entries holds as long as every written view satisfies it.\<close>

lemma mirror_inv_step:
  assumes inv: "mirror_inv c Q m"
    and wr: "\<And>v t1 t2. x = MApply v t1 t2 \<Longrightarrow> Q (viewKey (nm_prefix m) v) (stamped v t1 t2 (nm_softTTL m))"
  shows "mirror_inv c Q (snd (mirrorStep x m))"
proof (cases x)
  case (MApply v t1 t2)
  let ?k = "viewKey (nm_prefix m) v"
  let ?fn = "acceptNewer (stamped v t1 t2 (nm_softTTL m))"
  have sh: "lru_inv c (shard m ?k)" "\<forall>(k, v)\<in>set (lru_abs (shard m ?k)). Q k v" using mirror_inv_shard [OF inv] by blast+
  have "\<forall>(k, v)\<in>set (lru_abs (lru_Update ?k ?fn (shard m ?k))). Q k v"
    using Update_set [OF sh(1), of ?k ?fn] sh(2) wr [OF MApply] by (fastforce dest: acceptNewer_Some)
  then show ?thesis using MApply mirror_inv_setShard [OF inv shard_ops_inv(1) [OF sh(1)]] by (simp add: ApplyFromAPI_alt)
next
  case (MGet tenant credID raw now)
  let ?k = "mirrorKey m tenant credID raw"
  have sh: "lru_inv c (shard m ?k)" "\<forall>(k, v)\<in>set (lru_abs (shard m ?k)). Q k v" using mirror_inv_shard [OF inv] by blast+
  have "\<forall>(k, v)\<in>set (lru_abs (snd (lru_Get ?k (shard m ?k)))). Q k v" using Get_set [OF sh(1), of ?k] sh(2) by blast
  then show ?thesis using MGet mirror_inv_setShard [OF inv shard_ops_inv(2) [OF sh(1)]]
    by (simp add: GetForTenant_def Let_def case_prod_beta)
next
  case (MInvalidate tenant credID raw)
  let ?k = "mirrorKey m tenant credID raw"
  have sh: "lru_inv c (shard m ?k)" "\<forall>(k, v)\<in>set (lru_abs (shard m ?k)). Q k v" using mirror_inv_shard [OF inv] by blast+
  have "\<forall>(k, v)\<in>set (lru_abs (snd (lru_Delete ?k (shard m ?k)))). Q k v" using Delete_set [OF sh(1), of ?k] sh(2) by blast
  then show ?thesis using MInvalidate mirror_inv_setShard [OF inv shard_ops_inv(3) [OF sh(1)]]
    by (simp add: InvalidateForTenant_def Let_def case_prod_beta)
qed

text \<open>Where an entry comes from: a view applied earlier, under the key of that view.\<close>

definition applied :: "string \<Rightarrow> duration \<Rightarrow> mirrorOp list \<Rightarrow> string \<Rightarrow> nodeView \<Rightarrow> bool" where
  "applied prefix ttl ops k w \<longleftrightarrow>
     (\<exists>v t1 t2. MApply v t1 t2 \<in> set ops \<and> k = viewKey prefix v \<and> w = stamped v t1 t2 ttl)"

lemma mirror_inv_run:
  assumes "mirror_inv c (applied (nm_prefix m) (nm_softTTL m) before) m"
  shows "mirror_inv c (applied (nm_prefix m) (nm_softTTL m) (before @ ops)) (snd (run_ops mirrorStep ops m))"
  using assms
proof (induction ops arbitrary: m before)
  case (Cons x ops)
  let ?m = "snd (mirrorStep x m)"
  have mono: "applied p t before k w \<Longrightarrow> applied p t (before @ [x]) k w" for p t k w by (auto simp: applied_def)
  have "mirror_inv c (applied (nm_prefix m) (nm_softTTL m) (before @ [x])) m"
    using Cons.prems mono unfolding mirror_inv_def by fast
  then have "mirror_inv c (applied (nm_prefix m) (nm_softTTL m) (before @ [x])) ?m"
    by (rule mirror_inv_step) (auto simp: applied_def)
  then show ?case using Cons.IH [of ?m "before @ [x]"] by (simp add: case_prod_beta)
qed simp

lemma NewNodeMirror_inv:
  assumes "NewNodeMirrorWithPrefix capacity ttl prefix = Some m"
  shows "\<exists>c. c * 16 < max 1 capacity + 16 \<and> mirror_inv c Q m"
proof -
  define cap where "cap = (if capacity \<le> 0 then 1 else capacity)"
  define c where "c = (15 + cap) div 16"
  have cap: "1 \<le> cap" "cap = max 1 capacity" by (auto simp: cap_def)
  have c: "1 \<le> c" "c * 16 < max 1 capacity + 16" using cap unfolding c_def by linarith+
  obtain l where l: "NewLRU c = Some l" "nm_shards m = replicate 16 l"
    using assms c by (auto simp: NewNodeMirrorWithPrefix_def Let_def NodeMirrorShards_def c_def cap_def split: option.splits if_splits)
  then have "mirror_inv c Q m" using NewLRU_inv [OF l(1)] by (simp add: mirror_inv_def)
  then show ?thesis using c by blast
qed

lemma GetForTenant_result:
  assumes inv: "mirror_inv c Q m" and get: "fst (GetForTenant tenant cid raw now m) = Some v"
  shows "Q (mirrorKey m tenant cid raw) v \<and> (\<exists>t. nv_softExpireAt v = Some t \<and> now \<le> t)"
proof -
  let ?k = "mirrorKey m tenant cid raw"
  have sh: "lru_inv c (shard m ?k)" "\<forall>(k, v)\<in>set (lru_abs (shard m ?k)). Q k v" using mirror_inv_shard [OF inv] by blast+
  have "fst (lru_Get ?k (shard m ?k)) = map_of (lru_abs (shard m ?k)) ?k" by (rule lru_Get_value [OF sh(1)])
  then have "map_of (lru_abs (shard m ?k)) ?k = Some v" "\<exists>t. nv_softExpireAt v = Some t \<and> \<not> t < now"
    using get by (auto simp: GetForTenant_def Let_def case_prod_beta split: option.splits if_splits)
  then show ?thesis using sh(2) map_of_SomeD by fastforce
qed

definition viewTuple :: "nodeView \<Rightarrow> string \<times> int \<times> string" where
  "viewTuple v = (nv_TenantID v, nv_CredentialID v, nv_RawModel v)"

definition readableTuple :: "string \<times> int \<times> string \<Rightarrow> bool" where
  "readableTuple = (\<lambda>(tenant, cid, raw). 0 < cid \<and> cid \<le> maxInt \<and> raw \<noteq> [] \<and> legacyReadable tenant raw)"

lemma readable_key_inj:
  assumes "readableTuple (t, c, r)" "readableTuple (t', c', r')" "NodeKeyForTenant p t c r = NodeKeyForTenant p t' c' r'"
  shows "(t, c, r) = (t', c', r')"
proof -
  have a: "ParseNodeKey p (NodeKeyForTenant p t c r) = Some \<lparr>pk_TenantID = t, pk_CredentialID = c, pk_RawModel = r\<rparr>"
    using assms(1) unfolding readableTuple_def by (auto simp: legacy_exact)
  have b: "ParseNodeKey p (NodeKeyForTenant p t' c' r') = Some \<lparr>pk_TenantID = t', pk_CredentialID = c', pk_RawModel = r'\<rparr>"
    using assms(2) unfolding readableTuple_def by (auto simp: legacy_exact)
  show ?thesis using trans [OF sym [OF a [unfolded assms(3)]] b] by simp
qed

text \<open>What a tenant-scoped lookup serves: when the applied views and the asked node have
  tuples that the legacy key represents, a hit is a view of exactly the asked tenant, credential and
  model, applied earlier and within the soft time to live.\<close>

theorem mirror_lookup_sound:
  assumes new: "NewNodeMirrorWithPrefix capacity ttl prefix = Some m0"
    and views: "\<forall>v t1 t2. MApply v t1 t2 \<in> set ops \<longrightarrow> readableTuple (viewTuple v)"
    and asked: "readableTuple (tenant, cid, raw)"
    and hit: "fst (GetForTenant tenant cid raw now (snd (run_ops mirrorStep ops m0))) = Some w"
  shows "\<exists>v t1 t2. MApply v t1 t2 \<in> set ops \<and> w = stamped v t1 t2 ttl \<and> viewTuple v = (tenant, cid, raw) \<and> now \<le> t2 + ttl"
proof -
  let ?m = "snd (run_ops mirrorStep ops m0)"
  obtain c where "mirror_inv c (applied (nm_prefix m0) (nm_softTTL m0) []) m0" using NewNodeMirror_inv [OF new] by blast
  then have inv: "mirror_inv c (applied (nm_prefix m0) (nm_softTTL m0) ops) ?m" using mirror_inv_run by fastforce
  have keep: "nm_prefix ?m = nm_prefix m0"
    by (rule inv_run_ops [where I = "\<lambda>m. nm_prefix m = nm_prefix m0"]) simp_all
  have ttl: "nm_softTTL m0 = ttl" using new by (auto simp: NewNodeMirrorWithPrefix_def Let_def split: option.splits)
  obtain v t1 t2 where v: "MApply v t1 t2 \<in> set ops" "mirrorKey ?m tenant cid raw = viewKey (nm_prefix m0) v" "w = stamped v t1 t2 ttl"
    and fresh: "now \<le> t2 + ttl"
    using GetForTenant_result [OF inv hit] ttl by (auto simp: applied_def)
  have "NodeKeyForTenant (nm_prefix m0) tenant cid raw = NodeKeyForTenant (nm_prefix m0) (nv_TenantID v) (nv_CredentialID v) (nv_RawModel v)"
    using v(2) by (simp add: keep viewKey_def nodeMirrorKeyForTenantWithPrefix_def)
  moreover have "readableTuple (nv_TenantID v, nv_CredentialID v, nv_RawModel v)" using views v(1) by (auto simp: viewTuple_def)
  ultimately have "viewTuple v = (tenant, cid, raw)" using readable_key_inj [OF asked] by (metis viewTuple_def)
  then show ?thesis using v fresh by blast
qed

lemma shard_setShard_same: "length (nm_shards m) = 16 \<Longrightarrow> shard (setShard m key l) key = l"
  using shardOf_less [of key] by (simp add: shard_def setShard_def)

lemma Update_lookup:
  assumes "lru_inv c l" "fn (map_of (lru_abs l) k) = Some v"
  shows "map_of (lru_abs (lru_Update k fn l)) k = Some v"
proof -
  have "lru_abs (lru_Update k fn l) = snd (spec_put c k v (lru_abs l))"
    using lruStep_abs [OF assms(1), of "OpUpdate k fn"] assms(2) by simp
  moreover have "0 < c" using assms(1) by (simp add: lru_inv_def)
  ultimately show ?thesis by (auto simp: spec_put_def Let_def touch_def)
qed

text \<open>A view that is not older than the resident one is served to every lookup with its key.\<close>

lemma applied_view_served:
  assumes inv: "mirror_inv c Q m" and key: "mirrorKey m tenant cid raw = viewKey (nm_prefix m) v"
    and newer: "acceptNewer (stamped v t1 t2 (nm_softTTL m)) (PeekForTenant tenant cid raw m) \<noteq> None"
    and fresh: "now \<le> t2 + nm_softTTL m"
  shows "fst (GetForTenant tenant cid raw now (ApplyFromAPI v t1 t2 m)) = Some (stamped v t1 t2 (nm_softTTL m))"
proof -
  let ?k = "viewKey (nm_prefix m) v"
  let ?w = "stamped v t1 t2 (nm_softTTL m)"
  have sh: "lru_inv c (shard m ?k)" using mirror_inv_shard [OF inv] by blast
  have "PeekForTenant tenant cid raw m = map_of (lru_abs (shard m ?k)) ?k"
    using key lru_Peek_refines [OF sh] by (simp add: PeekForTenant_def Let_def)
  then have "acceptNewer ?w (map_of (lru_abs (shard m ?k)) ?k) = Some ?w"
    using newer by (auto dest: acceptNewer_Some)
  then have val: "map_of (lru_abs (lru_Update ?k (acceptNewer ?w) (shard m ?k))) ?k = Some ?w"
    by (rule Update_lookup [OF sh])
  have "length (nm_shards m) = 16" using inv by (simp add: mirror_inv_def)
  then have "fst (lru_Get ?k (shard (ApplyFromAPI v t1 t2 m) ?k)) = Some ?w"
    using lru_Get_value [OF shard_ops_inv(1) [OF sh]] val by (simp add: ApplyFromAPI_alt shard_setShard_same)
  moreover have "mirrorKey (ApplyFromAPI v t1 t2 m) tenant cid raw = ?k" using key by (simp add: ApplyFromAPI_alt)
  ultimately show ?thesis using fresh by (auto simp: GetForTenant_def Let_def case_prod_beta)
qed

lemma new_mirror_empty:
  assumes "NewNodeMirrorWithPrefix capacity ttl prefix = Some m"
  shows "PeekForTenant tenant cid raw m = None"
proof -
  obtain c where inv: "mirror_inv c (\<lambda>k v. False) m" using NewNodeMirror_inv [OF assms] by blast
  let ?k = "mirrorKey m tenant cid raw"
  have sh: "lru_inv c (shard m ?k)" "\<forall>(k, v)\<in>set (lru_abs (shard m ?k)). False" using mirror_inv_shard [OF inv] by blast+
  have "lru_abs (shard m ?k) = []" using sh(2) by (cases "lru_abs (shard m ?k)") auto
  then show ?thesis using lru_Peek_refines [OF sh(1)] by (simp add: PeekForTenant_def Let_def)
qed

definition sampleView :: "string \<Rightarrow> int \<Rightarrow> string \<Rightarrow> int \<Rightarrow> nodeView" where
  "sampleView tenant cid raw gen =
     \<lparr>nv_TenantID = tenant, nv_CredentialID = cid, nv_RawModel = raw, nv_Available = True, nv_Reason = [],
      nv_Generation = gen, nv_SourcePriority = 0, nv_FailStreak = 0, nv_CoolUntil = None, nv_LatEWMA = 0, nv_SR5m = 1,
      nv_Samples5m = 0, nv_HealthStatus = [], nv_CachedAt = None, nv_softExpireAt = None\<rparr>"

lemma new_mirror_ttl_prefix:
  "NewNodeMirrorWithPrefix capacity ttl prefix = Some m \<Longrightarrow> nm_softTTL m = ttl \<and> (prefix \<noteq> [] \<longrightarrow> nm_prefix m = prefix)"
  by (auto simp: NewNodeMirrorWithPrefix_def Let_def split: option.splits)

theorem mirror_lookup_sound_witness:
  "\<exists>m0 w. NewNodeMirrorWithPrefix 100 30 ''p:'' = Some m0 \<and>
     fst (GetForTenant ''acme'' 7 ''m'' 20 (snd (run_ops mirrorStep [MApply (sampleView ''acme'' 7 ''m'' 1) 1 2] m0))) = Some w \<and>
     w = stamped (sampleView ''acme'' 7 ''m'' 1) 1 2 30"
proof -
  obtain m0 where m0: "NewNodeMirrorWithPrefix 100 30 ''p:'' = Some m0"
    by (simp add: NewNodeMirrorWithPrefix_def NewLRU_def NodeMirrorShards_def)
  obtain c where inv: "mirror_inv c (\<lambda>k v. False) m0" using NewNodeMirror_inv [OF m0] by blast
  let ?v = "sampleView ''acme'' 7 ''m'' 1"
  have "mirrorKey m0 ''acme'' 7 ''m'' = viewKey (nm_prefix m0) ?v" by (simp add: viewKey_def sampleView_def)
  from applied_view_served [OF inv this, where ?t1.0 = 1 and ?t2.0 = 2 and now = 20]
  have hit: "fst (GetForTenant ''acme'' 7 ''m'' 20 (snd (run_ops mirrorStep [MApply ?v 1 2] m0))) = Some (stamped ?v 1 2 30)"
    using new_mirror_empty [OF m0] new_mirror_ttl_prefix [OF m0] by (simp add: acceptNewer_def)
  have ok: "readableTuple (''acme'', 7, ''m'')"
    by (simp add: readableTuple_def legacyReadable_def maxInt_def Atoi_def isDigit_def)
  have "viewTuple ?v = (''acme'', 7, ''m'')" by (simp add: viewTuple_def sampleView_def)
  then have "\<forall>v t1 t2. MApply v t1 t2 \<in> set [MApply ?v 1 2] \<longrightarrow> readableTuple (viewTuple v)" using ok by simp
  from mirror_lookup_sound [OF m0 this ok hit] show ?thesis using m0 hit by auto
qed

text \<open>A lookup can cross tenants: the mirror is addressed by the legacy key, so a view of a numeric
  tenant is served to the tenant named \<open>t\<close> when it asks for the model that continues with the
  credential number.\<close>

theorem mirror_crosses_tenants:
  assumes new: "NewNodeMirrorWithPrefix capacity ttl prefix = Some m"
    and "0 < c" "0 < d" "d \<le> maxInt" "raw \<noteq> []" "now \<le> t2 + ttl"
  shows "fst (GetForTenant ''t'' c (intDec d @ '':'' @ raw) now (ApplyFromAPI (sampleView (intDec c) d raw gen) t1 t2 m)) =
           Some (stamped (sampleView (intDec c) d raw gen) t1 t2 ttl)"
proof -
  let ?v = "sampleView (intDec c) d raw gen"
  obtain cap where inv: "mirror_inv cap (\<lambda>k v. False) m" using NewNodeMirror_inv [OF new] by blast
  have "isNumericTenant (intDec c)" "\<not> isNumericTenant ''t''" "intDec c \<noteq> []"
    using isNumeric_intDec [OF assms(2)] by (auto simp: isNumericTenant_def)
  then have "mirrorKey m ''t'' c (intDec d @ '':'' @ raw) = viewKey (nm_prefix m) ?v"
    by (simp add: viewKey_def sampleView_def nodeMirrorKeyForTenantWithPrefix_def NodeKeyForTenant_def tenantKeyPart_def)
  from applied_view_served [OF inv this] show ?thesis
    using new_mirror_empty [OF new] new_mirror_ttl_prefix [OF new] assms(6) by (simp add: acceptNewer_def)
qed

theorem mirror_crosses_tenants_witness:
  "\<exists>m. NewNodeMirrorWithPrefix 100 30 ''p:'' = Some m \<and>
     fst (GetForTenant ''t'' 7 (intDec 9 @ '':'' @ ''m'') 5 (ApplyFromAPI (sampleView (intDec 7) 9 ''m'' 1) 1 2 m)) =
       Some (stamped (sampleView (intDec 7) 9 ''m'' 1) 1 2 30)"
proof -
  obtain m where m: "NewNodeMirrorWithPrefix 100 30 ''p:'' = Some m"
    by (simp add: NewNodeMirrorWithPrefix_def NewLRU_def NodeMirrorShards_def)
  have "(5 :: int) \<le> 2 + 30" "(0 :: int) < 7" "(0 :: int) < 9" "(9 :: int) \<le> maxInt" "''m'' \<noteq> []" by (simp_all add: maxInt_def)
  then show ?thesis using mirror_crosses_tenants [OF m, of 7 9 "''m''" 5 2 1 1] m by blast
qed

section \<open>Order and size\<close>

definition rankLeq :: "nodeView \<Rightarrow> nodeView \<Rightarrow> bool" where
  "rankLeq v w \<longleftrightarrow> nv_Generation v < nv_Generation w \<or>
     (nv_Generation v = nv_Generation w \<and> nv_SourcePriority v \<le> nv_SourcePriority w)"

lemma acceptNewer_rank: "acceptNewer v (Some old) = Some w \<Longrightarrow> rankLeq old w"
  by (auto simp: acceptNewer_def rankLeq_def split: if_splits)

lemma touch_lookup: "map_of (touch k' v' al) k = (if k = k' then Some v' else map_of al k)"
  by (simp add: touch_def map_of_filter_other)

lemma map_of_butlast_Some: "distinct (map fst al) \<Longrightarrow> map_of (butlast al) k = Some v \<Longrightarrow> map_of al k = Some v"
  by (metis in_set_butlastD map_of_SomeD map_of_is_SomeI)

lemma distinct_touch: "distinct (map fst al) \<Longrightarrow> distinct (map fst (touch k v al))"
  by (auto simp: touch_def distinct_map_filter)

lemma spec_put_lookup_other:
  "distinct (map fst al) \<Longrightarrow> map_of (snd (spec_put c k' v' al)) k = Some new \<Longrightarrow> k \<noteq> k' \<Longrightarrow> map_of al k = Some new"
  using map_of_butlast_Some [OF distinct_touch, of al k' v' k new] touch_lookup [of k' v' al k]
  by (auto simp: spec_put_def Let_def split: if_splits)

text \<open>What a key reads after an operation of its shard: the old value, or what the callback wrote.\<close>

lemma Update_lookup_cases:
  assumes inv: "lru_inv c l" and old: "map_of (lru_abs l) k = Some old"
    and new: "map_of (lru_abs (lru_Update k' fn l)) k = Some new"
  shows "new = old \<or> (k = k' \<and> fn (Some old) = Some new)"
proof (cases "fn (map_of (lru_abs l) k')")
  case None
  then have "lru_Update k' fn l = l" using lru_Peek_refines [OF inv] by (simp add: lru_Update_def)
  then show ?thesis using old new by simp
next
  case (Some v)
  have abs: "lru_abs (lru_Update k' fn l) = snd (spec_put c k' v (lru_abs l))"
    using lruStep_abs [OF inv, of "OpUpdate k' fn"] Some by simp
  show ?thesis
  proof (cases "k = k'")
    case True
    then show ?thesis using Update_lookup [of c l fn k' v, OF inv Some] new old Some by simp
  next
    case False
    then show ?thesis using spec_put_lookup_other [OF lru_abs_distinct [OF inv]] new old by (simp add: abs)
  qed
qed

lemma Get_lookup: "lru_inv c l \<Longrightarrow> map_of (lru_abs (snd (lru_Get k' l))) k = map_of (lru_abs l) k"
  using lruStep_abs [of c l "OpGet k'"] by (auto simp: spec_get_def touch_lookup split: option.splits)

lemma Delete_lookup: "lru_inv c l \<Longrightarrow> map_of (lru_abs (snd (lru_Delete k' l))) k = Some new \<Longrightarrow> map_of (lru_abs l) k = Some new"
  using lruStep_abs [of c l "OpDelete k'"]
  by (cases "k = k'") (auto simp: spec_delete_def map_of_filter_other map_of_eq_None_iff split: option.splits dest: map_of_SomeD)

lemma shard_setShard: "length (nm_shards m) = 16 \<Longrightarrow>
    shard (setShard m key l) k = (if shardOf k = shardOf key then l else shard m k)"
  using shardOf_less [of key] by (simp add: shard_def setShard_def)

lemma mirror_step_rank:
  assumes inv: "mirror_inv c Q m" and old: "PeekForTenant tenant cid raw m = Some old"
    and new: "PeekForTenant tenant cid raw (snd (mirrorStep x m)) = Some new"
  shows "rankLeq old new"
proof -
  let ?k = "mirrorKey m tenant cid raw"
  have len: "length (nm_shards m) = 16" using inv by (simp add: mirror_inv_def)
  have sh: "lru_inv c (shard m key)" for key using mirror_inv_shard [OF inv] by blast
  have "mirror_inv c (\<lambda>k v. True) m" using inv by (simp add: mirror_inv_def)
  then have inv': "mirror_inv c (\<lambda>k v. True) (snd (mirrorStep x m))" by (rule mirror_inv_step) simp
  have sh': "lru_inv c (shard (snd (mirrorStep x m)) key)" for key using mirror_inv_shard [OF inv'] by blast
  have peek: "PeekForTenant tenant cid raw m = map_of (lru_abs (shard m ?k)) ?k"
    "PeekForTenant tenant cid raw (snd (mirrorStep x m)) = map_of (lru_abs (shard (snd (mirrorStep x m)) ?k)) ?k"
    using lru_Peek_refines [OF sh] lru_Peek_refines [OF sh'] by (simp_all add: PeekForTenant_def Let_def)
  have refl: "rankLeq old old" by (simp add: rankLeq_def)
  show ?thesis
  proof (cases x)
    case (MApply v t1 t2)
    let ?key = "viewKey (nm_prefix m) v"
    show ?thesis
    proof (cases "shardOf ?k = shardOf ?key")
      case True
      let ?fn = "acceptNewer (stamped v t1 t2 (nm_softTTL m))"
      have o: "map_of (lru_abs (shard m ?key)) ?k = Some old" using old peek(1) True by (simp add: shard_def)
      have n: "map_of (lru_abs (lru_Update ?key ?fn (shard m ?key))) ?k = Some new"
        using new peek(2) True MApply len by (simp add: ApplyFromAPI_alt shard_setShard)
      have "new = old \<or> (?k = ?key \<and> ?fn (Some old) = Some new)" by (rule Update_lookup_cases [OF sh o n])
      then show ?thesis using refl acceptNewer_rank by blast
    next
      case False
      then show ?thesis using old new peek MApply len refl by (simp add: ApplyFromAPI_alt shard_setShard)
    qed
  next
    case (MGet tenant' cid' raw' now)
    let ?key = "mirrorKey m tenant' cid' raw'"
    have st: "shard (snd (mirrorStep x m)) ?k = (if shardOf ?k = shardOf ?key then snd (lru_Get ?key (shard m ?k)) else shard m ?k)"
      using MGet len by (simp add: GetForTenant_def Let_def case_prod_beta setShard_def shard_def shardOf_less nth_list_update)
    have "new = old" using old new unfolding peek st by (simp add: Get_lookup [OF sh] split: if_splits)
    then show ?thesis using refl by simp
  next
    case (MInvalidate tenant' cid' raw')
    let ?key = "mirrorKey m tenant' cid' raw'"
    have st: "shard (snd (mirrorStep x m)) ?k = (if shardOf ?k = shardOf ?key then snd (lru_Delete ?key (shard m ?k)) else shard m ?k)"
      using MInvalidate len by (simp add: InvalidateForTenant_def Let_def case_prod_beta setShard_def shard_def shardOf_less nth_list_update)
    have "new = old" using old new unfolding peek st by (auto split: if_splits dest: Delete_lookup [OF sh])
    then show ?thesis using refl by simp
  qed
qed

text \<open>C19.
  The mirror never goes back: whatever operation comes next, on whatever node, an entry that is
  resident before and after it has a generation at least as high, and within one generation a source
  priority at least as high. A late read of an older state cannot overwrite a newer entry.\<close>

theorem mirror_never_regresses:
  assumes "NewNodeMirrorWithPrefix capacity ttl prefix = Some m0"
    and "PeekForTenant tenant cid raw (snd (run_ops mirrorStep ops m0)) = Some old"
    and "PeekForTenant tenant cid raw (snd (mirrorStep x (snd (run_ops mirrorStep ops m0)))) = Some new"
  shows "rankLeq old new"
proof -
  obtain c where "mirror_inv c (applied (nm_prefix m0) (nm_softTTL m0) []) m0" using NewNodeMirror_inv [OF assms(1)] by blast
  then have "mirror_inv c (applied (nm_prefix m0) (nm_softTTL m0) ([] @ ops)) (snd (run_ops mirrorStep ops m0))"
    by (rule mirror_inv_run)
  from mirror_step_rank [OF this assms(2,3)] show ?thesis .
qed

theorem mirror_never_regresses_witness:
  "\<exists>m0 old. NewNodeMirrorWithPrefix 100 30 ''p:'' = Some m0 \<and>
     PeekForTenant ''acme'' 7 ''m'' (snd (run_ops mirrorStep [MApply (sampleView ''acme'' 7 ''m'' 5) 1 2] m0)) = Some old \<and>
     (\<forall>new. PeekForTenant ''acme'' 7 ''m'' (snd (mirrorStep (MApply (sampleView ''acme'' 7 ''m'' 3) 3 4)
         (snd (run_ops mirrorStep [MApply (sampleView ''acme'' 7 ''m'' 5) 1 2] m0)))) = Some new \<longrightarrow> rankLeq old new)"
proof -
  obtain m0 where m0: "NewNodeMirrorWithPrefix 100 30 ''p:'' = Some m0"
    by (simp add: NewNodeMirrorWithPrefix_def NewLRU_def NodeMirrorShards_def)
  obtain c where inv: "mirror_inv c (\<lambda>k v. True) m0" using NewNodeMirror_inv [OF m0] by blast
  let ?x = "MApply (sampleView ''acme'' 7 ''m'' 5) 1 2"
  let ?k = "viewKey (nm_prefix m0) (sampleView ''acme'' 7 ''m'' 5)"
  have k: "mirrorKey m0 ''acme'' 7 ''m'' = ?k" by (simp add: viewKey_def sampleView_def)
  have sh: "lru_inv c (shard m0 ?k)" and len: "length (nm_shards m0) = 16"
    using mirror_inv_shard [OF inv] inv by (auto simp: mirror_inv_def)
  have "PeekForTenant ''acme'' 7 ''m'' (snd (run_ops mirrorStep [?x] m0)) =
      lru_Peek ?k (lru_Update ?k (acceptNewer (stamped (sampleView ''acme'' 7 ''m'' 5) 1 2 (nm_softTTL m0))) (shard m0 ?k))"
    using len k by (simp add: PeekForTenant_def Let_def ApplyFromAPI_alt shard_setShard)
  moreover have "map_of (lru_abs (shard m0 ?k)) ?k = None"
    using new_mirror_empty [OF m0, of "''acme''" 7 "''m''"] lru_Peek_refines [OF sh] k by (simp add: PeekForTenant_def Let_def)
  ultimately have "\<exists>old. PeekForTenant ''acme'' 7 ''m'' (snd (run_ops mirrorStep [?x] m0)) = Some old"
    using lru_Peek_refines [OF shard_ops_inv(1) [OF sh]] Update_lookup [OF sh] by (simp add: acceptNewer_def)
  then obtain old where old: "PeekForTenant ''acme'' 7 ''m'' (snd (run_ops mirrorStep [?x] m0)) = Some old" by blast
  show ?thesis using mirror_never_regresses [OF m0 old] old m0 by blast
qed

text \<open>The size of the mirror: over all shards it never holds more entries than the requested
  capacity plus fifteen, the rounding of the sixteen shards.\<close>

theorem mirror_bounded:
  assumes "NewNodeMirrorWithPrefix capacity ttl prefix = Some m0"
  shows "sum_list (map lru_Len (nm_shards (snd (run_ops mirrorStep ops m0)))) \<le> max 1 capacity + 15"
proof -
  let ?m = "snd (run_ops mirrorStep ops m0)"
  obtain c where c: "c * 16 < max 1 capacity + 16" and "mirror_inv c (applied (nm_prefix m0) (nm_softTTL m0) []) m0"
    using NewNodeMirror_inv [OF assms] by blast
  from mirror_inv_run [OF this(2), of ops] have inv: "length (nm_shards ?m) = 16" "\<forall>l\<in>set (nm_shards ?m). lru_Len l \<le> c"
    by (auto simp: mirror_inv_def lru_inv_def lru_Len_def in_set_conv_nth)
  have "sum_list (map lru_Len ls) \<le> c * int (length ls)" if "\<forall>l\<in>set ls. lru_Len l \<le> c" for ls :: "(string, nodeView) lru list"
    using that by (induction ls) (auto simp: algebra_simps)
  from this [OF inv(2)] show ?thesis using inv(1) c by simp
qed

theorem mirror_bounded_witness:
  "\<exists>m0. NewNodeMirrorWithPrefix 100 30 ''p:'' = Some m0 \<and>
     sum_list (map lru_Len (nm_shards (snd (run_ops mirrorStep [MApply (sampleView ''acme'' 7 ''m'' 5) 1 2] m0)))) \<le> 115"
proof -
  obtain m0 where m0: "NewNodeMirrorWithPrefix 100 30 ''p:'' = Some m0"
    by (simp add: NewNodeMirrorWithPrefix_def NewLRU_def NodeMirrorShards_def)
  from mirror_bounded [OF this, of "[MApply (sampleView ''acme'' 7 ''m'' 5) 1 2]"] m0 show ?thesis by (intro exI [of _ m0]) simp
qed

end
