(* ===== verification/SessionState.thy ===== *)
theory SessionState
  imports Prelude
begin

text \<open>
  The session state machine (\<open>domains/sessionstate/types.go\<close> and
  \<open>state_machine.go\<close>). A transition takes the lock twice: once to find its rule, and again,
  after the callbacks of the rule ran without the lock, to commit. The model has the two critical
  sections as separate operations, so any number of transitions can be between them; condition and
  action are functions of the rule. Values of type \<open>any\<close> in metadata are a type parameter.
  \<open>SessionState\<close>, \<open>SessionPhase\<close> and \<open>TransitionEvent\<close> are string types in Go; the datatypes have the declared constants,
  which are the only values the code builds. A value outside them would match no rule.
\<close>

section \<open>Data (types.go)\<close>

datatype sessionState = StateInitialized | StateActive | StatePending | StateToolExecuting | StateSuspended
  | StateTerminating | StateCompleted | StateAborted | StateError

definition state_IsTerminal :: "sessionState \<Rightarrow> bool" where
  "state_IsTerminal s \<longleftrightarrow> s = StateCompleted \<or> s = StateAborted"

datatype sessionPhase = PhasePreKnowledge | PhaseQA | PhaseUnknown | PhaseException

datatype transitionEvent = EventAuthenticated | EventCacheMiss | EventCacheHit | EventToolRequired | EventToolCompleted
  | EventToolFailed | EventHighRiskDetected | EventApprovalGranted | EventApprovalRejected | EventCompleted
  | EventError | EventRecovered | EventCanceled | EventTimeout

record 'a sessionStateChange =
  sc_From :: sessionState
  sc_To :: sessionState
  sc_Event :: transitionEvent
  sc_Reason :: string
  sc_Timestamp :: instant
  sc_Metadata :: "string \<rightharpoonup> 'a"

record 'a transitionContext =
  tc_SessionID :: string
  tc_TenantID :: string
  tc_From :: sessionState
  tc_To :: sessionState
  tc_Event :: transitionEvent
  tc_Metadata :: "string \<rightharpoonup> 'a"
  tc_Timestamp :: instant
  tc_StateMeta :: "string \<rightharpoonup> 'a"

text \<open>A condition answers yes or no, an action fails with a message or succeeds; both are optional.\<close>

record 'a sessionTransition =
  st_From :: sessionState
  st_To :: sessionState
  st_Event :: transitionEvent
  st_Condition :: "('a transitionContext \<Rightarrow> bool) option"
  st_Action :: "('a transitionContext \<Rightarrow> string option) option"

record sessionMetrics =
  me_StateEnterTime :: "sessionState \<rightharpoonup> instant"
  me_StateDurations :: "sessionState \<Rightarrow> duration"
  me_TransitionCount :: int
  me_ErrorCount :: int

definition NewSessionMetrics :: sessionMetrics where
  "NewSessionMetrics = \<lparr>me_StateEnterTime = Map.empty, me_StateDurations = (\<lambda>s. 0), me_TransitionCount = 0, me_ErrorCount = 0\<rparr>"

section \<open>The machine (state_machine.go)\<close>

record 'a sessionStateMachine =
  sm_sessionID :: string
  sm_tenantID :: string
  sm_currentState :: sessionState
  sm_currentPhase :: sessionPhase
  sm_transitions :: "sessionState \<rightharpoonup> 'a sessionTransition list"
  sm_history :: "'a sessionStateChange list"
  sm_metadata :: "string \<rightharpoonup> 'a"
  sm_metrics :: sessionMetrics
  sm_createdAt :: instant

text \<open>A rule for the same event replaces the earlier one in its place.\<close>

fun replaceRule :: "'a sessionTransition \<Rightarrow> 'a sessionTransition list \<Rightarrow> 'a sessionTransition list option" where
  "replaceRule t [] = None"
| "replaceRule t (r # rs) = (if st_Event r = st_Event t then Some (t # rs) else map_option (Cons r) (replaceRule t rs))"

definition RegisterTransition :: "'a sessionTransition \<Rightarrow> 'a sessionStateMachine \<Rightarrow> 'a sessionStateMachine" where
  "RegisterTransition t sm =
     (let rules = (case sm_transitions sm (st_From t) of None \<Rightarrow> [] | Some rs \<Rightarrow> rs);
          rules1 = (case replaceRule t rules of Some rs \<Rightarrow> rs | None \<Rightarrow> rules @ [t])
      in sm\<lparr>sm_transitions := (sm_transitions sm)(st_From t \<mapsto> rules1)\<rparr>)"

definition rule :: "sessionState \<Rightarrow> sessionState \<Rightarrow> transitionEvent \<Rightarrow> 'a sessionTransition" where
  "rule src dst ev = \<lparr>st_From = src, st_To = dst, st_Event = ev, st_Condition = None, st_Action = None\<rparr>"

definition allStates :: "sessionState list" where
  "allStates = [StateInitialized, StateActive, StatePending, StateToolExecuting, StateSuspended, StateTerminating, StateError]"

definition defaultTransitions :: "'a sessionTransition list" where
  "defaultTransitions =
     [rule StateInitialized StateActive EventAuthenticated,
      rule StateActive StatePending EventCacheMiss,
      rule StatePending StateActive EventCacheHit,
      rule StatePending StateToolExecuting EventToolRequired,
      rule StateToolExecuting StatePending EventToolCompleted,
      rule StateToolExecuting StateActive EventToolCompleted,
      rule StateToolExecuting StateError EventToolFailed,
      rule StatePending StateCompleted EventCompleted,
      rule StateActive StateSuspended EventHighRiskDetected,
      rule StateSuspended StateActive EventApprovalGranted,
      rule StateSuspended StateAborted EventApprovalRejected,
      rule StateActive StateCompleted EventCompleted,
      rule StateActive StateError EventError,
      rule StateError StateActive EventRecovered]
     @ concat (map (\<lambda>s. [rule s StateAborted EventCanceled, rule s StateAborted EventTimeout]) allStates)
     @ map (\<lambda>s. rule s StateTerminating EventCanceled) (filter (\<lambda>s. \<not> state_IsTerminal s) allStates)
     @ [rule StateTerminating StateAborted EventCompleted]"

definition registerDefaultTransitions :: "'a sessionStateMachine \<Rightarrow> 'a sessionStateMachine" where
  "registerDefaultTransitions sm = fold RegisterTransition defaultTransitions sm"

text \<open>The two readings of the clock of the constructor: the creation stamp and the entry of the first
  state.\<close>

definition NewSessionStateMachine :: "string \<Rightarrow> string \<Rightarrow> instant \<Rightarrow> instant \<Rightarrow> 'a sessionStateMachine" where
  "NewSessionStateMachine sessionID tenantID now1 now2 =
     (let sm = registerDefaultTransitions
          \<lparr>sm_sessionID = sessionID, sm_tenantID = tenantID, sm_currentState = StateInitialized, sm_currentPhase = PhaseUnknown,
           sm_transitions = Map.empty, sm_history = [], sm_metadata = Map.empty, sm_metrics = NewSessionMetrics,
           sm_createdAt = now1\<rparr>
      in sm\<lparr>sm_metrics := (sm_metrics sm)\<lparr>me_StateEnterTime := (me_StateEnterTime (sm_metrics sm))(StateInitialized \<mapsto> now2)\<rparr>\<rparr>)"

datatype transitionError = FromTerminal sessionState | NoTransitions sessionState | NoTransitionForEvent transitionEvent sessionState
  | ConditionNotSatisfied sessionState sessionState transitionEvent | ActionFailed string
  | ConcurrentChange sessionState sessionState

text \<open>The first critical section: find the rule and build the context of its callbacks.\<close>

definition beginTransition ::
  "transitionEvent \<Rightarrow> (string \<rightharpoonup> 'a) \<Rightarrow> instant \<Rightarrow> 'a sessionStateMachine \<Rightarrow>
   transitionError + ('a sessionTransition \<times> 'a transitionContext)" where
  "beginTransition event metadata now sm =
     (let cur = sm_currentState sm in
      if state_IsTerminal cur then Inl (FromTerminal cur)
      else case sm_transitions sm cur of
        None \<Rightarrow> Inl (NoTransitions cur)
      | Some rules \<Rightarrow>
          (case find (\<lambda>r. st_Event r = event) rules of
             None \<Rightarrow> Inl (NoTransitionForEvent event cur)
           | Some t \<Rightarrow> Inr (t, \<lparr>tc_SessionID = sm_sessionID sm, tc_TenantID = sm_tenantID sm, tc_From = cur, tc_To = st_To t,
                                tc_Event = event, tc_Metadata = metadata, tc_Timestamp = now, tc_StateMeta = sm_metadata sm\<rparr>)))"

text \<open>The callbacks, outside the lock.\<close>

definition runCallbacks :: "'a sessionTransition \<Rightarrow> 'a transitionContext \<Rightarrow> transitionError option" where
  "runCallbacks t ctx =
     (if (case st_Condition t of Some cond \<Rightarrow> \<not> cond ctx | None \<Rightarrow> False)
      then Some (ConditionNotSatisfied (tc_From ctx) (st_To t) (tc_Event ctx))
      else case st_Action t of
        None \<Rightarrow> None
      | Some act \<Rightarrow> (case act ctx of None \<Rightarrow> None | Some err \<Rightarrow> Some (ActionFailed err)))"

definition updatePhase :: "sessionState \<Rightarrow> 'a sessionStateMachine \<Rightarrow> 'a sessionStateMachine" where
  "updatePhase s sm =
     (case s of
        StateInitialized \<Rightarrow> sm\<lparr>sm_currentPhase := PhasePreKnowledge\<rparr>
      | StateError \<Rightarrow> sm\<lparr>sm_currentPhase := PhaseException\<rparr>
      | _ \<Rightarrow> if s \<in> {StateActive, StatePending, StateToolExecuting} \<and> sm_currentPhase sm \<in> {PhaseUnknown, PhasePreKnowledge}
             then sm\<lparr>sm_currentPhase := PhaseQA\<rparr> else sm)"

text \<open>The second critical section.\<close>

definition commitTransition ::
  "'a sessionTransition \<Rightarrow> 'a transitionContext \<Rightarrow> string \<Rightarrow> instant \<Rightarrow> 'a sessionStateMachine \<Rightarrow>
   transitionError option \<times> 'a sessionStateMachine" where
  "commitTransition t ctx reason now sm =
     (let cur = tc_From ctx; dst = st_To t in
      if sm_currentState sm \<noteq> cur then (Some (ConcurrentChange cur (sm_currentState sm)), sm)
      else let me = sm_metrics sm;
               me1 = (case me_StateEnterTime me cur of
                        None \<Rightarrow> me
                      | Some enterTime \<Rightarrow> me\<lparr>me_StateDurations := (me_StateDurations me)(cur := me_StateDurations me cur + (now - enterTime))\<rparr>);
               me2 = me1\<lparr>me_StateEnterTime := (me_StateEnterTime me1)(dst \<mapsto> now), me_TransitionCount := me_TransitionCount me1 + 1\<rparr>;
               me3 = (if dst = StateError then me2\<lparr>me_ErrorCount := me_ErrorCount me2 + 1\<rparr> else me2);
               change = \<lparr>sc_From = cur, sc_To = dst, sc_Event = tc_Event ctx, sc_Reason = reason, sc_Timestamp = now,
                         sc_Metadata = tc_Metadata ctx\<rparr>
           in (None, updatePhase dst (sm\<lparr>sm_metrics := me3, sm_history := sm_history sm @ [change], sm_currentState := dst\<rparr>)))"

text \<open>\<open>Transition\<close> as one caller runs it, with nothing in between.\<close>

definition Transition ::
  "transitionEvent \<Rightarrow> string \<Rightarrow> (string \<rightharpoonup> 'a) \<Rightarrow> instant \<Rightarrow> instant \<Rightarrow> 'a sessionStateMachine \<Rightarrow>
   transitionError option \<times> 'a sessionStateMachine" where
  "Transition event reason metadata now1 now2 sm =
     (case beginTransition event metadata now1 sm of
        Inl err \<Rightarrow> (Some err, sm)
      | Inr (t, ctx) \<Rightarrow>
          (case runCallbacks t ctx of
             Some err \<Rightarrow> (Some err, sm)
           | None \<Rightarrow> commitTransition t ctx reason now2 sm))"

definition SetPhase :: "sessionPhase \<Rightarrow> 'a sessionStateMachine \<Rightarrow> 'a sessionStateMachine" where
  "SetPhase phase sm = sm\<lparr>sm_currentPhase := phase\<rparr>"

definition SetMetadata :: "string \<Rightarrow> 'a \<Rightarrow> 'a sessionStateMachine \<Rightarrow> 'a sessionStateMachine" where
  "SetMetadata key val sm = sm\<lparr>sm_metadata := (sm_metadata sm)(key \<mapsto> val)\<rparr>"

definition GetMetadata :: "string \<Rightarrow> 'a sessionStateMachine \<Rightarrow> 'a option" where
  "GetMetadata key sm = sm_metadata sm key"

definition sm_IsTerminal :: "'a sessionStateMachine \<Rightarrow> bool" where
  "sm_IsTerminal sm = state_IsTerminal (sm_currentState sm)"

section \<open>Interleaved transitions\<close>

text \<open>A configuration is the machine with the transitions that are between their two critical
  sections. Rules may be registered, phases and metadata set, at any time.\<close>

type_synonym 'a sessionConfig = "'a sessionStateMachine \<times> ('a sessionTransition \<times> 'a transitionContext \<times> string) list"

inductive session_step :: "'a sessionConfig \<Rightarrow> 'a sessionConfig \<Rightarrow> bool" where
  step_begin: "beginTransition event metadata now sm = Inr (t, ctx) \<Longrightarrow> session_step (sm, P) (sm, (t, ctx, reason) # P)"
| step_refused: "(t, ctx, reason) \<in> set P \<Longrightarrow> runCallbacks t ctx = Some err \<Longrightarrow>
    session_step (sm, P) (sm, remove1 (t, ctx, reason) P)"
| step_commit: "(t, ctx, reason) \<in> set P \<Longrightarrow> runCallbacks t ctx = None \<Longrightarrow> commitTransition t ctx reason now sm = (res, sm') \<Longrightarrow>
    session_step (sm, P) (sm', remove1 (t, ctx, reason) P)"
| step_register: "session_step (sm, P) (RegisterTransition t sm, P)"
| step_phase: "session_step (sm, P) (SetPhase ph sm, P)"
| step_metadata: "session_step (sm, P) (SetMetadata key val sm, P)"

inductive session_reach :: "'a sessionConfig \<Rightarrow> 'a sessionConfig \<Rightarrow> bool" for s where
  reach_refl: "session_reach s s"
| reach_step: "session_reach s s' \<Longrightarrow> session_step s' s'' \<Longrightarrow> session_reach s s''"

inductive_cases session_stepE: "session_step (sm, P) s'"

text \<open>The history as a path: it starts in the first state, each change starts where the one before
  ended, none leaves a terminal state, and it ends in the current state.\<close>

fun historyPath :: "sessionState \<Rightarrow> 'a sessionStateChange list \<Rightarrow> sessionState \<Rightarrow> bool" where
  "historyPath s [] e \<longleftrightarrow> s = e"
| "historyPath s (c # cs) e \<longleftrightarrow> sc_From c = s \<and> \<not> state_IsTerminal s \<and> historyPath (sc_To c) cs e"

definition everyState :: "sessionState list" where
  "everyState = [StateInitialized, StateActive, StatePending, StateToolExecuting, StateSuspended, StateTerminating,
     StateCompleted, StateAborted, StateError]"

definition timeSpent :: "sessionMetrics \<Rightarrow> duration" where
  "timeSpent me = sum_list (map (me_StateDurations me) everyState)"

definition session_inv :: "instant \<Rightarrow> 'a sessionConfig \<Rightarrow> bool" where
  "session_inv t0 = (\<lambda>(sm, P).
     historyPath StateInitialized (sm_history sm) (sm_currentState sm) \<and>
     me_TransitionCount (sm_metrics sm) = int (length (sm_history sm)) \<and>
     me_ErrorCount (sm_metrics sm) = int (length (filter (\<lambda>c. sc_To c = StateError) (sm_history sm))) \<and>
     (\<exists>te. me_StateEnterTime (sm_metrics sm) (sm_currentState sm) = Some te \<and> timeSpent (sm_metrics sm) = te - t0) \<and>
     (\<forall>(t, ctx, reason)\<in>set P. \<not> state_IsTerminal (tc_From ctx)))"

lemma everyState_all: "s \<in> set everyState" "distinct everyState"
  by (cases s; simp add: everyState_def) (simp add: everyState_def)

lemma sum_list_upd:
  fixes f :: "'b \<Rightarrow> int"
  shows "distinct xs \<Longrightarrow> x \<in> set xs \<Longrightarrow> sum_list (map (f(x := f x + d)) xs) = sum_list (map f xs) + d"
proof (induction xs)
  case (Cons y ys)
  show ?case
  proof (cases "y = x")
    case True
    then have "map (f(x := f x + d)) ys = map f ys" using Cons.prems by (intro map_cong) auto
    then show ?thesis using True by (simp only: list.map sum_list.Cons) simp
  qed (use Cons in simp)
qed simp

lemma timeSpent_upd: "timeSpent (me\<lparr>me_StateDurations := (me_StateDurations me)(s := me_StateDurations me s + d)\<rparr>) = timeSpent me + d"
  using sum_list_upd [OF everyState_all(2) everyState_all(1)] by (simp add: timeSpent_def)

lemma timeSpent_more [simp]:
  "timeSpent (me\<lparr>me_StateEnterTime := a, me_TransitionCount := b\<rparr>) = timeSpent me"
  "timeSpent (me\<lparr>me_StateEnterTime := a, me_TransitionCount := b, me_ErrorCount := e\<rparr>) = timeSpent me"
  by (simp_all add: timeSpent_def)

lemma updatePhase_simps [simp]:
  "sm_currentState (updatePhase s sm) = sm_currentState sm" "sm_history (updatePhase s sm) = sm_history sm"
  "sm_metrics (updatePhase s sm) = sm_metrics sm" "sm_transitions (updatePhase s sm) = sm_transitions sm"
  by (cases s; simp add: updatePhase_def)+

lemma historyPath_snoc:
  "historyPath s (cs @ [c]) e \<longleftrightarrow> historyPath s cs (sc_From c) \<and> \<not> state_IsTerminal (sc_From c) \<and> sc_To c = e"
  by (induction cs arbitrary: s) auto

lemma commit_inv:
  assumes inv: "session_inv t0 (sm, P)" and nt: "\<not> state_IsTerminal (tc_From ctx)"
    and com: "commitTransition t ctx reason now sm = (res, sm')"
  shows "session_inv t0 (sm', P)"
proof (cases "sm_currentState sm = tc_From ctx")
  case False
  then show ?thesis using com inv by (auto simp: commitTransition_def Let_def)
next
  case True
  let ?me = "sm_metrics sm"
  let ?cur = "tc_From ctx"
  obtain te where te: "me_StateEnterTime ?me ?cur = Some te" "timeSpent ?me = te - t0" using inv True by (auto simp: session_inv_def)
  define me1 where "me1 = ?me\<lparr>me_StateDurations := (me_StateDurations ?me)(?cur := me_StateDurations ?me ?cur + (now - te))\<rparr>"
  have spent: "timeSpent me1 = now - t0" using timeSpent_upd [of ?me ?cur "now - te"] te by (simp add: me1_def)
  define me2 where "me2 = me1\<lparr>me_StateEnterTime := (me_StateEnterTime me1)(st_To t \<mapsto> now), me_TransitionCount := me_TransitionCount me1 + 1\<rparr>"
  define me3 where "me3 = (if st_To t = StateError then me2\<lparr>me_ErrorCount := me_ErrorCount me2 + 1\<rparr> else me2)"
  have sm': "sm_metrics sm' = me3" "sm_currentState sm' = st_To t"
    "sm_history sm' = sm_history sm @ [\<lparr>sc_From = ?cur, sc_To = st_To t, sc_Event = tc_Event ctx, sc_Reason = reason,
        sc_Timestamp = now, sc_Metadata = tc_Metadata ctx\<rparr>]"
    using com True te(1) by (auto simp: commitTransition_def Let_def me1_def me2_def me3_def)
  have m3: "timeSpent me3 = now - t0" "me_StateEnterTime me3 (st_To t) = Some now"
    "me_TransitionCount me3 = me_TransitionCount ?me + 1"
    "me_ErrorCount me3 = me_ErrorCount ?me + (if st_To t = StateError then 1 else 0)"
    using spent by (auto simp: me3_def me2_def me1_def timeSpent_def)
  show ?thesis using inv m3 nt True unfolding session_inv_def prod.case sm' by (auto simp: historyPath_snoc)
qed

lemma beginTransition_from:
  "beginTransition event metadata now sm = Inr (t, ctx) \<Longrightarrow> tc_From ctx = sm_currentState sm \<and> \<not> state_IsTerminal (sm_currentState sm)"
  by (auto simp: beginTransition_def Let_def split: if_splits option.splits)

lemma session_inv_step: "session_step (sm, P) s' \<Longrightarrow> session_inv t0 (sm, P) \<Longrightarrow> session_inv t0 s'"
proof (erule session_stepE)
  fix t ctx reason now res sm'
  assume s': "s' = (sm', remove1 (t, ctx, reason) P)" and mem: "(t, ctx, reason) \<in> set P"
    and com: "commitTransition t ctx reason now sm = (res, sm')" and inv: "session_inv t0 (sm, P)"
  have "session_inv t0 (sm', P)" using commit_inv [OF inv _ com] inv mem by (auto simp: session_inv_def)
  then show "session_inv t0 s'" using s' set_remove1_subset [of "(t, ctx, reason)" P] by (auto simp: session_inv_def)
qed (auto simp: session_inv_def RegisterTransition_def SetPhase_def SetMetadata_def Let_def
    dest: beginTransition_from dest!: set_remove1_subset [THEN subsetD])

lemma fold_Register_simps:
  "sm_currentState (fold RegisterTransition ts sm) = sm_currentState sm" "sm_history (fold RegisterTransition ts sm) = sm_history sm"
  "sm_metrics (fold RegisterTransition ts sm) = sm_metrics sm"
  by (induction ts arbitrary: sm) (simp_all add: RegisterTransition_def Let_def)

lemma new_session_inv: "session_inv now2 (NewSessionStateMachine sid tid now1 now2, [])"
  by (simp add: session_inv_def NewSessionStateMachine_def registerDefaultTransitions_def fold_Register_simps Let_def
      NewSessionMetrics_def timeSpent_def everyState_def)

lemma session_inv_reach: "session_reach s s' \<Longrightarrow> session_inv t0 s \<Longrightarrow> session_inv t0 s'"
proof (induction rule: session_reach.induct)
  case (reach_step s' s'')
  then show ?case using session_inv_step [of "fst s'" "snd s'" s'' t0] by simp
qed

text \<open>C21.
  The audit trail is exact, under any interleaving of transitions, callbacks and rule
  registrations: the history is a path from the initial state to the current one that never leaves a
  terminal state, the counters count it, and the times recorded for the states add up to the time
  between creation and the last change.\<close>

theorem session_history_exact:
  assumes "session_reach (NewSessionStateMachine sid tid now1 now2, []) (sm, P)"
  shows "historyPath StateInitialized (sm_history sm) (sm_currentState sm) \<and>
     me_TransitionCount (sm_metrics sm) = int (length (sm_history sm)) \<and>
     me_ErrorCount (sm_metrics sm) = int (length (filter (\<lambda>c. sc_To c = StateError) (sm_history sm))) \<and>
     (\<exists>te. me_StateEnterTime (sm_metrics sm) (sm_currentState sm) = Some te \<and> timeSpent (sm_metrics sm) = te - now2)"
  using session_inv_reach [OF assms new_session_inv] by (simp add: session_inv_def)

text \<open>A terminal state is final: whatever transitions are still in flight and whatever rules are
  registered, the state and the history no longer change.\<close>

theorem session_terminal_final:
  assumes reach: "session_reach (NewSessionStateMachine sid tid now1 now2, []) (sm, P)"
    and term_sm: "state_IsTerminal (sm_currentState sm)" and more: "session_reach (sm, P) (sm', P')"
  shows "sm_currentState sm' = sm_currentState sm \<and> sm_history sm' = sm_history sm"
proof -
  have "session_inv now2 (sm, P)" using session_inv_reach [OF reach new_session_inv] .
  have "session_reach (sm, P) s \<Longrightarrow> session_inv now2 s \<and> sm_currentState (fst s) = sm_currentState sm \<and> sm_history (fst s) = sm_history sm" for s
  proof (induction rule: session_reach.induct)
    case (reach_step s s2)
    obtain sm1 P1 where s: "s = (sm1, P1)" by (cases s)
    have IH: "session_inv now2 (sm1, P1)" "sm_currentState sm1 = sm_currentState sm" "sm_history sm1 = sm_history sm"
      using reach_step.IH s by simp_all
    have "sm_currentState (fst s2) = sm_currentState sm1 \<and> sm_history (fst s2) = sm_history sm1"
      using reach_step.hyps(2)
    proof (cases rule: session_step.cases)
      case (step_commit t ctx reason P2 now sm2 res sm3)
      have "\<not> state_IsTerminal (tc_From ctx)" using IH(1) step_commit s by (auto simp: session_inv_def)
      then have "sm_currentState sm1 \<noteq> tc_From ctx" using term_sm IH(2) by auto
      then show ?thesis using step_commit s by (auto simp: commitTransition_def Let_def)
    qed (use s in \<open>auto simp: RegisterTransition_def SetPhase_def SetMetadata_def Let_def\<close>)
    then show ?case using session_inv_step reach_step.hyps(2) IH s by metis
  qed (use \<open>session_inv now2 (sm, P)\<close> in simp)
  from this [OF more] show ?thesis by simp
qed

section \<open>The default rules\<close>

definition ruleFor :: "'a sessionStateMachine \<Rightarrow> sessionState \<Rightarrow> transitionEvent \<Rightarrow> 'a sessionTransition option" where
  "ruleFor sm s ev = (case sm_transitions sm s of None \<Rightarrow> None | Some rs \<Rightarrow> find (\<lambda>r. st_Event r = ev) rs)"

lemma find_snoc: "find Q (xs @ [x]) = (case find Q xs of None \<Rightarrow> if Q x then Some x else None | Some y \<Rightarrow> Some y)"
  by (induction xs) auto

lemma find_replaceRule:
  "replaceRule t rs = Some rs' \<Longrightarrow> find (\<lambda>r. st_Event r = ev) rs' = (if ev = st_Event t then Some t else find (\<lambda>r. st_Event r = ev) rs)"
  by (induction rs arbitrary: rs') (auto split: if_splits)

lemma replaceRule_None: "replaceRule t rs = None \<Longrightarrow> find (\<lambda>r. st_Event r = st_Event t) rs = None"
  by (induction rs) (auto split: if_splits)

lemma ruleFor_Register:
  "ruleFor (RegisterTransition t sm) s ev = (if s = st_From t \<and> ev = st_Event t then Some t else ruleFor sm s ev)"
proof (cases "s = st_From t")
  case True
  define rs where "rs = (case sm_transitions sm (st_From t) of None \<Rightarrow> [] | Some rs \<Rightarrow> rs)"
  have old: "ruleFor sm s ev = find (\<lambda>r. st_Event r = ev) rs" using True by (simp add: ruleFor_def rs_def split: option.splits)
  show ?thesis
  proof (cases "replaceRule t rs")
    case None
    then have "sm_transitions (RegisterTransition t sm) s = Some (rs @ [t])" using True by (simp add: RegisterTransition_def Let_def rs_def)
    then show ?thesis using replaceRule_None [OF None] old True by (auto simp: ruleFor_def find_snoc split: option.splits)
  next
    case (Some rs')
    then have "sm_transitions (RegisterTransition t sm) s = Some rs'" using True by (simp add: RegisterTransition_def Let_def rs_def)
    then show ?thesis using find_replaceRule [OF Some] old True by (auto simp: ruleFor_def)
  qed
qed (simp add: RegisterTransition_def Let_def ruleFor_def)

text \<open>Of several rules for the same state and event the last registered one is in force.\<close>

lemma ruleFor_fold:
  "ruleFor (fold RegisterTransition ts sm) s ev =
     (case find (\<lambda>t. st_From t = s \<and> st_Event t = ev) (rev ts) of None \<Rightarrow> ruleFor sm s ev | Some t \<Rightarrow> Some t)"
  by (induction ts rule: rev_induct) (auto simp: ruleFor_Register split: option.splits)

definition defaultTarget :: "sessionState \<Rightarrow> transitionEvent \<Rightarrow> sessionState option" where
  "defaultTarget s ev =
     (if state_IsTerminal s then None
      else case ev of
        EventCanceled \<Rightarrow> Some StateTerminating
      | EventTimeout \<Rightarrow> Some StateAborted
      | EventAuthenticated \<Rightarrow> if s = StateInitialized then Some StateActive else None
      | EventCacheMiss \<Rightarrow> if s = StateActive then Some StatePending else None
      | EventCacheHit \<Rightarrow> if s = StatePending then Some StateActive else None
      | EventToolRequired \<Rightarrow> if s = StatePending then Some StateToolExecuting else None
      | EventToolCompleted \<Rightarrow> if s = StateToolExecuting then Some StateActive else None
      | EventToolFailed \<Rightarrow> if s = StateToolExecuting then Some StateError else None
      | EventHighRiskDetected \<Rightarrow> if s = StateActive then Some StateSuspended else None
      | EventApprovalGranted \<Rightarrow> if s = StateSuspended then Some StateActive else None
      | EventApprovalRejected \<Rightarrow> if s = StateSuspended then Some StateAborted else None
      | EventCompleted \<Rightarrow> if s \<in> {StateActive, StatePending} then Some StateCompleted
                         else if s = StateTerminating then Some StateAborted else None
      | EventError \<Rightarrow> if s = StateActive then Some StateError else None
      | EventRecovered \<Rightarrow> if s = StateError then Some StateActive else None)"

lemma ruleFor_metrics [simp]: "ruleFor (sm\<lparr>sm_metrics := me\<rparr>) = ruleFor sm"
  by (simp add: ruleFor_def fun_eq_iff)

lemma ruleFor_empty: "sm_transitions sm = Map.empty \<Longrightarrow> ruleFor sm s ev = None"
  by (simp add: ruleFor_def)

lemma ruleFor_New: "ruleFor (NewSessionStateMachine sid tid now1 now2) s ev =
    find (\<lambda>t. st_From t = s \<and> st_Event t = ev) (rev defaultTransitions)"
  by (simp add: NewSessionStateMachine_def registerDefaultTransitions_def Let_def ruleFor_fold ruleFor_empty split: option.split)

lemma default_rules:
  "\<not> state_IsTerminal s \<Longrightarrow> map_option st_To (find (\<lambda>t. st_From t = s \<and> st_Event t = ev) (rev defaultTransitions)) = defaultTarget s ev"
  by (cases s; cases ev) (simp_all add: defaultTransitions_def rule_def allStates_def state_IsTerminal_def defaultTarget_def)

lemma default_rules_plain:
  fixes t :: "'a sessionTransition"
  assumes "find (\<lambda>t. st_From t = s \<and> st_Event t = ev) (rev defaultTransitions) = Some t"
  shows "st_Condition t = None \<and> st_Action t = None"
proof -
  have "\<forall>t\<in>set (defaultTransitions :: 'a sessionTransition list). st_Condition t = None \<and> st_Action t = None"
    by (auto simp: defaultTransitions_def rule_def)
  moreover have "t \<in> set (rev defaultTransitions)" using assms find_Some_iff [of _ "rev defaultTransitions" t] nth_mem by metis
  ultimately show ?thesis by simp
qed

lemma Transition_default:
  fixes sm :: "'a sessionStateMachine"
  assumes "ruleFor sm = ruleFor (NewSessionStateMachine sid tid n1 n2)"
  shows "case defaultTarget (sm_currentState sm) ev of
       None \<Rightarrow> \<exists>err. Transition ev reason md now1 now2 sm = (Some err, sm)
     | Some dst \<Rightarrow> \<exists>sm'. Transition ev reason md now1 now2 sm = (None, sm') \<and> sm_currentState sm' = dst"
proof (cases "state_IsTerminal (sm_currentState sm)")
  case True
  then show ?thesis by (simp add: Transition_def beginTransition_def Let_def defaultTarget_def)
next
  case False
  let ?s = "sm_currentState sm"
  let ?find = "find (\<lambda>t :: 'a sessionTransition. st_From t = ?s \<and> st_Event t = ev) (rev defaultTransitions)"
  have rule: "ruleFor sm ?s ev = ?find" using assms ruleFor_New by metis
  show ?thesis
  proof (cases ?find)
    case None
    then have "defaultTarget ?s ev = None" using default_rules [OF False, of ev, where 'a = 'a] by simp
    moreover have "\<exists>err. beginTransition ev md now1 sm = Inl err"
      using None rule False by (auto simp: beginTransition_def Let_def ruleFor_def split: option.splits)
    ultimately show ?thesis by (auto simp: Transition_def)
  next
    case (Some t)
    then have dst: "defaultTarget ?s ev = Some (st_To t)" using default_rules [OF False, of ev, where 'a = 'a] by simp
    obtain ctx where beg: "beginTransition ev md now1 sm = Inr (t, ctx)" "tc_From ctx = ?s"
      using Some rule False by (auto simp: beginTransition_def Let_def ruleFor_def split: option.splits)
    have "runCallbacks t ctx = None" using default_rules_plain [OF Some] by (simp add: runCallbacks_def)
    then have tr: "Transition ev reason md now1 now2 sm = commitTransition t ctx reason now2 sm" using beg by (simp add: Transition_def)
    have "fst (commitTransition t ctx reason now2 sm) = None" "sm_currentState (snd (commitTransition t ctx reason now2 sm)) = st_To t"
      using beg(2) by (simp_all add: commitTransition_def Let_def)
    then show ?thesis using dst tr by (cases "commitTransition t ctx reason now2 sm") simp
  qed
qed

text \<open>The default machine is the table \<open>defaultTarget\<close>: for every state and event a
  transition goes to the state of the table, and is refused without any change where the table has
  none.\<close>

theorem session_default_table:
  assumes "ruleFor sm = ruleFor (NewSessionStateMachine sid tid n1 n2)"
  shows "case defaultTarget (sm_currentState sm) ev of
       None \<Rightarrow> \<exists>err. Transition ev reason md now1 now2 sm = (Some err, sm)
     | Some dst \<Rightarrow> \<exists>sm'. Transition ev reason md now1 now2 sm = (None, sm') \<and> sm_currentState sm' = dst"
  by (rule Transition_default [OF assms])

theorem session_default_table_witness:
  "\<exists>sm'. Transition EventAuthenticated [] Map.empty 1 2 (NewSessionStateMachine ''s'' ''t'' 0 0 :: nat sessionStateMachine) = (None, sm') \<and>
     sm_currentState sm' = StateActive"
  using session_default_table [of "NewSessionStateMachine ''s'' ''t'' 0 0 :: nat sessionStateMachine" "''s''" "''t''" 0 0 EventAuthenticated "[]" Map.empty 1 2]
  by (simp add: defaultTarget_def state_IsTerminal_def NewSessionStateMachine_def registerDefaultTransitions_def Let_def fold_Register_simps)

lemma Transition_rules: "ruleFor (snd (Transition ev reason md now1 now2 sm)) = ruleFor sm"
  by (auto simp: Transition_def commitTransition_def Let_def ruleFor_def fun_eq_iff split: sum.splits option.splits)

text \<open>One caller sending events one after another.\<close>

definition sendEvents :: "transitionEvent list \<Rightarrow> 'a sessionStateMachine \<Rightarrow> 'a sessionStateMachine" where
  "sendEvents evs sm = fold (\<lambda>ev sm. snd (Transition ev [] Map.empty 0 0 sm)) evs sm"

text \<open>Cancelling a session does not abort it: the rules that lead from a cancellation to the aborted
  state are replaced by the later ones to the terminating state. A session that only receives
  cancellations stays in the terminating state for ever; it needs a time-out or a completion.\<close>

theorem session_cancel_never_aborts:
  "sm_currentState (sendEvents (replicate (Suc n) EventCanceled) (NewSessionStateMachine sid tid n1 n2)) = StateTerminating"
proof -
  have step: "sm_currentState (snd (Transition EventCanceled [] Map.empty 0 0 sm)) = StateTerminating"
    if "ruleFor sm = ruleFor (NewSessionStateMachine sid tid n1 n2)" "\<not> state_IsTerminal (sm_currentState sm)" for sm :: "'a sessionStateMachine"
    using Transition_default [OF that(1), of EventCanceled "[]" Map.empty 0 0] that(2) by (auto simp: defaultTarget_def)
  have run: "ruleFor (sendEvents (replicate k EventCanceled) sm) = ruleFor (NewSessionStateMachine sid tid n1 n2) \<and>
      sm_currentState (sendEvents (replicate k EventCanceled) sm) = StateTerminating"
    if "ruleFor sm = ruleFor (NewSessionStateMachine sid tid n1 n2)" "sm_currentState sm = StateTerminating" for k and sm :: "'a sessionStateMachine"
    using that by (induction k arbitrary: sm) (auto simp: sendEvents_def Transition_rules step state_IsTerminal_def)
  let ?new = "NewSessionStateMachine sid tid n1 n2 :: 'a sessionStateMachine"
  have "sm_currentState ?new = StateInitialized"
    by (simp add: NewSessionStateMachine_def registerDefaultTransitions_def Let_def fold_Register_simps)
  then show ?thesis using run [of "snd (Transition EventCanceled [] Map.empty 0 0 ?new)" n] step [of ?new]
    by (simp add: sendEvents_def Transition_rules state_IsTerminal_def)
qed

text \<open>A transition whose start state was left and entered again while its callbacks ran still commits:
  the check of the second critical section compares states only.\<close>

lemma session_stale_commit:
  assumes "ruleFor sm = ruleFor (NewSessionStateMachine sid tid n1 n2)" "sm_currentState sm = StateActive"
    and beg: "beginTransition EventCompleted md now sm = Inr (t, ctx)"
  shows "\<exists>sm'. commitTransition t ctx reason now' (sendEvents [EventCacheMiss, EventCacheHit] sm) = (None, sm')"
proof -
  let ?sm1 = "snd (Transition EventCacheMiss [] Map.empty 0 0 sm)"
  have "sm_currentState ?sm1 = StatePending"
    using Transition_default [OF assms(1), of EventCacheMiss "[]" Map.empty 0 0] assms(2) by (auto simp: defaultTarget_def state_IsTerminal_def)
  moreover have "ruleFor ?sm1 = ruleFor (NewSessionStateMachine sid tid n1 n2)" using assms(1) by (simp add: Transition_rules)
  ultimately have "sm_currentState (snd (Transition EventCacheHit [] Map.empty 0 0 ?sm1)) = StateActive"
    using Transition_default [of ?sm1 sid tid n1 n2 EventCacheHit "[]" Map.empty 0 0] by (auto simp: defaultTarget_def state_IsTerminal_def)
  then show ?thesis using beginTransition_from [OF beg] assms(2) by (simp add: sendEvents_def commitTransition_def Let_def)
qed

section \<open>The lock of GetSnapshot\<close>

text \<open>\<open>GetSnapshot\<close> takes the read lock and calls \<open>GetMetrics\<close>, which takes it again. A
  \<open>sync.RWMutex\<close> lets no new reader in once a writer waits, and lets the writer in when no
  reader is left. The steps of one snapshot and one writer (any method that takes the write lock):\<close>

datatype snapshotPC = SnapStart | SnapOuterHeld | SnapInnerHeld | SnapInnerReleased | SnapDone
datatype writerPC = WriterStart | WriterWaiting | WriterHolding | WriterDone

record snapshotLock =
  sl_readers :: nat
  sl_snap :: snapshotPC
  sl_writer :: writerPC

definition readersBlocked :: "snapshotLock \<Rightarrow> bool" where
  "readersBlocked s \<longleftrightarrow> sl_writer s = WriterWaiting \<or> sl_writer s = WriterHolding"

inductive snapshot_step :: "snapshotLock \<Rightarrow> snapshotLock \<Rightarrow> bool" where
  snap_outer: "sl_snap s = SnapStart \<Longrightarrow> \<not> readersBlocked s \<Longrightarrow>
     snapshot_step s (s\<lparr>sl_snap := SnapOuterHeld, sl_readers := sl_readers s + 1\<rparr>)"
| snap_inner: "sl_snap s = SnapOuterHeld \<Longrightarrow> \<not> readersBlocked s \<Longrightarrow>
     snapshot_step s (s\<lparr>sl_snap := SnapInnerHeld, sl_readers := sl_readers s + 1\<rparr>)"
| snap_inner_release: "sl_snap s = SnapInnerHeld \<Longrightarrow> snapshot_step s (s\<lparr>sl_snap := SnapInnerReleased, sl_readers := sl_readers s - 1\<rparr>)"
| snap_outer_release: "sl_snap s = SnapInnerReleased \<Longrightarrow> snapshot_step s (s\<lparr>sl_snap := SnapDone, sl_readers := sl_readers s - 1\<rparr>)"
| writer_request: "sl_writer s = WriterStart \<Longrightarrow> snapshot_step s (s\<lparr>sl_writer := WriterWaiting\<rparr>)"
| writer_acquire: "sl_writer s = WriterWaiting \<Longrightarrow> sl_readers s = 0 \<Longrightarrow> snapshot_step s (s\<lparr>sl_writer := WriterHolding\<rparr>)"
| writer_release: "sl_writer s = WriterHolding \<Longrightarrow> snapshot_step s (s\<lparr>sl_writer := WriterDone\<rparr>)"

inductive_simps snapshot_step_iff: "snapshot_step s s'"

definition snapshotStart :: snapshotLock where
  "snapshotStart = \<lparr>sl_readers = 0, sl_snap = SnapStart, sl_writer = WriterStart\<rparr>"

text \<open>A snapshot and a writer can block each other for ever: when the writer asks for the lock between
  the two read locks of the snapshot, neither of them can take another step, and neither has
  finished.\<close>

theorem snapshot_deadlock:
  "\<exists>s. snapshot_step\<^sup>*\<^sup>* snapshotStart s \<and> (\<nexists>s'. snapshot_step s s') \<and> sl_snap s \<noteq> SnapDone \<and> sl_writer s \<noteq> WriterDone"
proof -
  let ?s1 = "\<lparr>sl_readers = 1, sl_snap = SnapOuterHeld, sl_writer = WriterStart\<rparr>"
  let ?s2 = "\<lparr>sl_readers = 1, sl_snap = SnapOuterHeld, sl_writer = WriterWaiting\<rparr>"
  have "snapshot_step snapshotStart ?s1" by (simp add: snapshot_step_iff snapshotStart_def readersBlocked_def)
  moreover have "snapshot_step ?s1 ?s2" by (simp add: snapshot_step_iff)
  ultimately have "snapshot_step\<^sup>*\<^sup>* snapshotStart ?s2" by (meson rtranclp.rtrancl_into_rtrancl rtranclp.rtrancl_refl)
  moreover have "\<nexists>s'. snapshot_step ?s2 s'" by (simp add: snapshot_step_iff readersBlocked_def)
  ultimately show ?thesis by (intro exI [of _ ?s2]) simp
qed

lemma session_reach_2: "session_step s s1 \<Longrightarrow> session_step s1 s2 \<Longrightarrow> session_reach s s2"
  by (meson reach_refl reach_step)

lemma sample_session:
  "\<exists>sm. session_reach (NewSessionStateMachine ''s'' ''t'' 0 (0 :: int) :: nat sessionStateMachine, []) (sm, []) \<and> sm_currentState sm = StateAborted"
proof -
  let ?new = "NewSessionStateMachine ''s'' ''t'' 0 0 :: nat sessionStateMachine"
  have st: "sm_currentState ?new = StateInitialized"
    by (simp add: NewSessionStateMachine_def registerDefaultTransitions_def Let_def fold_Register_simps)
  then obtain sm' where tr: "Transition EventTimeout [] Map.empty 1 2 ?new = (None, sm')" "sm_currentState sm' = StateAborted"
    using Transition_default [of ?new "''s''" "''t''" 0 0 EventTimeout "[]" Map.empty 1 2] by (auto simp: defaultTarget_def state_IsTerminal_def)
  then obtain t ctx where beg: "beginTransition EventTimeout Map.empty 1 ?new = Inr (t, ctx)" "runCallbacks t ctx = None"
    "commitTransition t ctx [] 2 ?new = (None, sm')" by (auto simp: Transition_def split: sum.splits option.splits)
  have "session_step (?new, []) (?new, [(t, ctx, [])])" using beg(1) by (rule step_begin)
  moreover have "session_step (?new, [(t, ctx, [])]) (sm', [])" using step_commit [OF _ beg(2,3), of "[(t, ctx, [])]"] by simp
  ultimately show ?thesis using tr(2) session_reach_2 by blast
qed

theorem session_history_exact_witness:
  "\<exists>sm :: nat sessionStateMachine. sm_currentState sm = StateAborted \<and>
     historyPath StateInitialized (sm_history sm) StateAborted \<and> me_TransitionCount (sm_metrics sm) = int (length (sm_history sm))"
proof -
  obtain sm where sm: "session_reach (NewSessionStateMachine ''s'' ''t'' 0 0 :: nat sessionStateMachine, []) (sm, [])" "sm_currentState sm = StateAborted"
    using sample_session by blast
  from session_history_exact [OF sm(1)] sm(2) show ?thesis by (intro exI [of _ sm]) simp
qed

theorem session_terminal_final_witness:
  "\<exists>sm :: nat sessionStateMachine. sm_currentState sm = StateAborted \<and>
     (\<forall>sm' P'. session_reach (sm, []) (sm', P') \<longrightarrow> sm_currentState sm' = StateAborted)"
proof -
  obtain sm where sm: "session_reach (NewSessionStateMachine ''s'' ''t'' 0 0 :: nat sessionStateMachine, []) (sm, [])" "sm_currentState sm = StateAborted"
    using sample_session by blast
  have "state_IsTerminal (sm_currentState sm)" using sm(2) by (simp add: state_IsTerminal_def)
  from session_terminal_final [OF sm(1) this] sm(2) show ?thesis by (intro exI [of _ sm]) simp
qed

end
