(* ===== verification/KeyMigration.thy ===== *)
theory KeyMigration
  imports NodeKeys "HOL-Library.List_Lexorder" "HOL-Library.Char_ord"
begin

text \<open>
  The classification and promotion logic of the key migration
  (\<open>domains/ursm/v2/migration/classify.go\<close>, \<open>preflight.go\<close>,
  \<open>state_machine.go\<close>): which scanned keys may be moved from the legacy to the canonical
  grammar, the deterministic preflight pass, and the checkpoints of a run. SHA-256 is a parameter of
  the checksum; the scanned pages, the ledger file and the approver are arguments.
\<close>

section \<open>Vocabulary (ledger.go, metadata.go)\<close>

datatype classification = ClassificationMigratable | ClassificationCanonicalPresent | ClassificationAmbiguous
  | ClassificationExcludedNonAuthoritative | ClassificationConflict

datatype itemStatus = StatusDiscovered | StatusClassified | StatusCopied | StatusVerified | StatusObserved | StatusCleaned
  | StatusExcluded | StatusAmbiguous | StatusConflict | StatusRolledBack | StatusExpired | StatusFenced

record scannedKey =
  sk_SourceKey :: string
  sk_KeyType :: string
  sk_PTTLMs :: int
  sk_Fields :: "(string \<times> string) list"
  sk_Generation :: int

record item =
  it_SourceKey :: string
  it_KeyType :: string
  it_CanonicalKey :: string
  it_SchemaSource :: string
  it_Classification :: "classification option"
  it_Reason :: string
  it_PTTLMs :: int
  it_FieldChecksum :: string
  it_Generation :: int
  it_ScanRunID :: string
  it_Status :: itemStatus

section \<open>The classifier of the ledger pass (classify.go)\<close>

text \<open>The serialised fields, sorted by name, each as name, zero byte, value. \<open>sk_Fields\<close> lists
  the entries of the Go map.\<close>

definition fieldBytes :: "(string \<times> string) list \<Rightarrow> string" where
  "fieldBytes fs = concat (map (\<lambda>k. k @ [CHR 0x00] @ (case map_of fs k of Some v \<Rightarrow> v | None \<Rightarrow> [])) (sort (map fst fs)))"

definition fieldChecksum :: "(string \<Rightarrow> string) \<Rightarrow> (string \<times> string) list \<Rightarrow> string" where
  "fieldChecksum sha256 fs = (if fs = [] then [] else sha256 (fieldBytes fs))"

definition legacyNodeKeyForTenant :: "string \<Rightarrow> string \<Rightarrow> int \<Rightarrow> string \<Rightarrow> string" where
  "legacyNodeKeyForTenant prefix tenant cid raw =
     (if tenant = [] then prefix @ ''node:'' @ intDec cid @ '':'' @ raw
      else let numeric = (if tenant = [] then False else list_all isDigit tenant) in
           if \<not> numeric then prefix @ ''node:'' @ tenant @ '':'' @ intDec cid @ '':'' @ raw
           else prefix @ ''node:t:'' @ tenant @ '':'' @ intDec cid @ '':'' @ raw)"

definition isExcludedNamespace :: "string \<Rightarrow> string \<Rightarrow> bool" where
  "isExcludedNamespace prefix key \<longleftrightarrow>
     list_ex (hasPrefix key) [prefix @ ''binding:'', prefix @ ''credential:'', prefix @ ''provider:'', prefix @ ''meta:''] \<or>
     strContains key '':request_dedup:''"

definition parseAnyNodeKey :: "string \<Rightarrow> string \<Rightarrow> (parsedNodeKey \<times> string) option" where
  "parseAnyNodeKey prefix key = ParseNodeKeyCanonical prefix key"

definition classifyOne :: "(string \<Rightarrow> string) \<Rightarrow> string \<Rightarrow> scannedKey \<Rightarrow> string \<Rightarrow> item" where
  "classifyOne sha256 prefix sk runID =
     (let it = \<lparr>it_SourceKey = sk_SourceKey sk, it_KeyType = sk_KeyType sk, it_CanonicalKey = [], it_SchemaSource = [],
                it_Classification = None, it_Reason = [], it_PTTLMs = sk_PTTLMs sk,
                it_FieldChecksum = fieldChecksum sha256 (sk_Fields sk), it_Generation = sk_Generation sk,
                it_ScanRunID = runID, it_Status = StatusDiscovered\<rparr>
      in if isExcludedNamespace prefix (sk_SourceKey sk)
         then it\<lparr>it_Classification := Some ClassificationExcludedNonAuthoritative, it_Reason := ''non-authoritative namespace'',
                 it_Status := StatusExcluded\<rparr>
         else if sk_KeyType sk = []
         then it\<lparr>it_Classification := Some ClassificationAmbiguous, it_Reason := ''empty key type'', it_Status := StatusAmbiguous\<rparr>
         else (case parseAnyNodeKey prefix (sk_SourceKey sk) of
             Some (parsed, schema) \<Rightarrow>
               let it1 = it\<lparr>it_SchemaSource := schema\<rparr> in
               if schema = ''k2''
               then it1\<lparr>it_Classification := Some ClassificationCanonicalPresent, it_CanonicalKey := sk_SourceKey sk,
                        it_Status := StatusClassified\<rparr>
               else if pk_CredentialID parsed \<le> 0 \<or> pk_RawModel parsed = []
               then it1\<lparr>it_Classification := Some ClassificationAmbiguous, it_Reason := ''round-trip mismatch'',
                        it_Status := StatusAmbiguous\<rparr>
               else if legacyNodeKeyForTenant prefix (pk_TenantID parsed) (pk_CredentialID parsed) (pk_RawModel parsed) \<noteq> sk_SourceKey sk
               then it1\<lparr>it_Classification := Some ClassificationAmbiguous, it_Reason := ''round-trip mismatch'',
                        it_Status := StatusAmbiguous\<rparr>
               else it1\<lparr>it_CanonicalKey := NodeKeyCanonical prefix (pk_TenantID parsed) (pk_CredentialID parsed) (pk_RawModel parsed),
                        it_Classification := Some ClassificationMigratable, it_Status := StatusClassified\<rparr>
           | None \<Rightarrow>
               if hasPrefix (sk_SourceKey sk) (prefix @ ''win:'') \<or> hasPrefix (sk_SourceKey sk) (prefix @ ''idx:model:'')
               then it\<lparr>it_Classification := Some ClassificationExcludedNonAuthoritative,
                       it_Reason := ''schema-aware classification pending URSM owner slice 9'', it_Status := StatusExcluded\<rparr>
               else it\<lparr>it_Classification := Some ClassificationAmbiguous, it_Reason := ''unparseable source key'',
                       it_Status := StatusAmbiguous\<rparr>))"

record preflightSummary =
  ps_TotalKeys :: int
  ps_Migratable :: int
  ps_CanonicalPresent :: int
  ps_Ambiguous :: int
  ps_Excluded :: int
  ps_Conflicts :: int

definition ps_bump :: "item \<Rightarrow> preflightSummary \<Rightarrow> preflightSummary" where
  "ps_bump it s =
     (let s1 = (case it_Classification it of
                  Some ClassificationMigratable \<Rightarrow> s\<lparr>ps_Migratable := ps_Migratable s + 1\<rparr>
                | Some ClassificationCanonicalPresent \<Rightarrow> s\<lparr>ps_CanonicalPresent := ps_CanonicalPresent s + 1\<rparr>
                | Some ClassificationAmbiguous \<Rightarrow> s\<lparr>ps_Ambiguous := ps_Ambiguous s + 1\<rparr>
                | Some ClassificationExcludedNonAuthoritative \<Rightarrow> s\<lparr>ps_Excluded := ps_Excluded s + 1\<rparr>
                | _ \<Rightarrow> s)
      in if it_Status it = StatusConflict then s1\<lparr>ps_Conflicts := ps_Conflicts s1 + 1\<rparr> else s1)"

text \<open>The loop over the sorted keys; \<open>appendFails\<close> tells for which item the ledger cannot be
  written, which ends the pass with what was appended so far.\<close>

fun preflightLoop :: "(string \<Rightarrow> item) \<Rightarrow> (item \<Rightarrow> bool) \<Rightarrow> string list \<Rightarrow> preflightSummary \<times> item list \<Rightarrow> bool \<times> preflightSummary \<times> item list" where
  "preflightLoop cls appendFails [] (s, ledger) = (True, s, ledger)"
| "preflightLoop cls appendFails (k # ks) (s, ledger) =
     (let it = cls k; s1 = ps_bump it s in
      if it_SourceKey it = [] \<or> appendFails it then (False, s1, ledger)
      else preflightLoop cls appendFails ks (s1, ledger @ [it]))"

text \<open>\<open>Preflight\<close> on the concatenated pages of the three scans: a key scanned again overwrites the
  earlier result.\<close>

definition scanMap :: "scannedKey list \<Rightarrow> string \<rightharpoonup> scannedKey" where
  "scanMap scanned = map_of (rev (map (\<lambda>sk. (sk_SourceKey sk, sk)) scanned))"

definition Preflight :: "(string \<Rightarrow> string) \<Rightarrow> string \<Rightarrow> scannedKey list \<Rightarrow> string \<Rightarrow> (item \<Rightarrow> bool) \<Rightarrow> item list \<Rightarrow>
    bool \<times> preflightSummary \<times> item list" where
  "Preflight sha256 prefix scanned runID appendFails ledger =
     (let keys = sort (remdups (map sk_SourceKey scanned));
          cls = (\<lambda>k. classifyOne sha256 prefix (the (scanMap scanned k)) runID)
      in preflightLoop cls appendFails keys
           (\<lparr>ps_TotalKeys = int (length keys), ps_Migratable = 0, ps_CanonicalPresent = 0, ps_Ambiguous = 0, ps_Excluded = 0,
             ps_Conflicts = 0\<rparr>, ledger))"

section \<open>The strict classifier (preflight.go)\<close>

record classifiedKey =
  ck_SourceKey :: string
  ck_Class :: classification
  ck_Reason :: string
  ck_Schema :: keySchema
  ck_Tuple :: "parsedNodeKey option"

definition excludedK2 :: "string \<Rightarrow> string \<Rightarrow> classifiedKey" where
  "excludedK2 key reason = \<lparr>ck_SourceKey = key, ck_Class = ClassificationExcludedNonAuthoritative, ck_Reason = reason,
     ck_Schema = KeySchemaLegacy, ck_Tuple = None\<rparr>"

definition ambiguousK2 :: "string \<Rightarrow> string \<Rightarrow> classifiedKey" where
  "ambiguousK2 key reason = \<lparr>ck_SourceKey = key, ck_Class = ClassificationAmbiguous, ck_Reason = reason,
     ck_Schema = KeySchemaLegacy, ck_Tuple = None\<rparr>"

definition isAllDigitsK2 :: "string \<Rightarrow> bool" where
  "isAllDigitsK2 s \<longleftrightarrow> s \<noteq> [] \<and> list_all isDigit s"

definition parsePositiveDecimalK2 :: "string \<Rightarrow> int" where
  "parsePositiveDecimalK2 s =
     (if \<not> isAllDigitsK2 s \<or> (1 < length s \<and> s ! 0 = CHR ''0'') then -1
      else case Atoi s of None \<Rightarrow> -1 | Some n \<Rightarrow> if n \<le> 0 then -1 else n)"

text \<open>The forms of a legacy tail: tagged numeric tenant, text tenant, and, for node keys only, no
  tenant.\<close>

definition legacyTail :: "bool \<Rightarrow> string list \<Rightarrow> (string \<times> string \<times> string) option" where
  "legacyTail tenantless parts =
     (if length parts = 4 \<and> parts ! 0 = ''t'' \<and> isAllDigitsK2 (parts ! 1) \<and> parts ! 1 \<noteq> [] then Some (parts ! 1, parts ! 2, parts ! 3)
      else if length parts = 3 \<and> parts ! 0 \<noteq> [] \<and> parts ! 0 \<noteq> ''t'' \<and> \<not> isAllDigitsK2 (parts ! 0) then Some (parts ! 0, parts ! 1, parts ! 2)
      else if tenantless \<and> length parts = 2 then Some ([], parts ! 0, parts ! 1)
      else None)"

definition classifyNodeKeyK2 :: "string \<Rightarrow> string \<Rightarrow> classifiedKey" where
  "classifyNodeKeyK2 prefix key =
     (if hasPrefix key (prefix @ ''node:k2:'')
      then (case ParseNodeKeyAny prefix key of
              Some (KeySchemaK2, t) \<Rightarrow> \<lparr>ck_SourceKey = key, ck_Class = ClassificationCanonicalPresent,
                  ck_Reason = ''canonical node key'', ck_Schema = KeySchemaK2, ck_Tuple = Some t\<rparr>
            | _ \<Rightarrow> ambiguousK2 key ''malformed canonical node key'')
      else (case legacyTail True (strSplit CHR '':'' (drop (length (prefix @ ''node:'')) key)) of
          None \<Rightarrow> ambiguousK2 key ''segment count matches no legacy grammar form exactly''
        | Some (tenant, cidStr, raw) \<Rightarrow>
            if parsePositiveDecimalK2 cidStr \<le> 0 then ambiguousK2 key ''credential segment is not a positive decimal''
            else if tenant = [] then ambiguousK2 key ''empty tenant has no canonical representation (operator mapping required)''
            else let cid = (case Atoi cidStr of Some n \<Rightarrow> n | None \<Rightarrow> 0) in
                 if NodeKeyForTenant prefix tenant cid raw \<noteq> key then ambiguousK2 key ''tuple does not round-trip to the exact source bytes''
                 else \<lparr>ck_SourceKey = key, ck_Class = ClassificationMigratable,
                       ck_Reason = ''unique tuple, strict segments, exact round-trip'', ck_Schema = KeySchemaLegacy,
                       ck_Tuple = Some \<lparr>pk_TenantID = tenant, pk_CredentialID = cid, pk_RawModel = raw\<rparr>\<rparr>))"

definition classifyWindowKeyK2 :: "string \<Rightarrow> string \<Rightarrow> classifiedKey" where
  "classifyWindowKeyK2 prefix key =
     (if hasPrefix key (prefix @ ''win:k2:'')
      then \<lparr>ck_SourceKey = key, ck_Class = ClassificationCanonicalPresent, ck_Reason = ''canonical window key'',
            ck_Schema = KeySchemaK2, ck_Tuple = None\<rparr>
      else let rest = drop (length (prefix @ ''win:'')) key in
           (case strSplit CHR '':'' rest of
              bucket # p # ps \<Rightarrow>
                if bucket \<notin> {''1m'', ''5m'', ''30m''} then ambiguousK2 key ''window bucket is not one of 1m/5m/30m''
                else (case legacyTail False (p # ps) of
                    None \<Rightarrow> ambiguousK2 key ''window segment count matches no legacy grammar form exactly''
                  | Some (tenant, cidStr, raw) \<Rightarrow>
                      if parsePositiveDecimalK2 cidStr \<le> 0 then ambiguousK2 key ''window credential segment is not a positive decimal''
                      else if tenant = [] then ambiguousK2 key ''window key has empty tenant (operator mapping required)''
                      else let cid = (case Atoi cidStr of Some n \<Rightarrow> n | None \<Rightarrow> 0) in
                           if WindowKeyForTenant prefix tenant cid raw bucket \<noteq> key
                           then ambiguousK2 key ''window tuple does not round-trip to the exact source bytes''
                           else \<lparr>ck_SourceKey = key, ck_Class = ClassificationMigratable,
                                 ck_Reason = ''unique window tuple, strict segments, exact round-trip'', ck_Schema = KeySchemaLegacy,
                                 ck_Tuple = Some \<lparr>pk_TenantID = tenant, pk_CredentialID = cid, pk_RawModel = raw\<rparr>\<rparr>)
            | _ \<Rightarrow> ambiguousK2 key ''window key has no bucket segment''))"

definition ClassifyKeyK2 :: "string \<Rightarrow> string \<Rightarrow> classifiedKey" where
  "ClassifyKeyK2 prefix key =
     (if strContains key '':request_dedup:'' then excludedK2 key ''derived request dedup marker''
      else case find (\<lambda>ns. hasPrefix key (prefix @ ns)) [''binding:'', ''credential:'', ''provider:'', ''meta:''] of
        Some ns \<Rightarrow> excludedK2 key (''non-target namespace '' @ ns)
      | None \<Rightarrow>
          if hasPrefix key (prefix @ ''node:'') then classifyNodeKeyK2 prefix key
          else if hasPrefix key (prefix @ ''win:'') then classifyWindowKeyK2 prefix key
          else if hasPrefix key (prefix @ ''idx:model:'') then excludedK2 key ''candidate index is rebuilt, not copied''
          else excludedK2 key ''non-target key'')"

section \<open>Checkpoints of a run (state_machine.go)\<close>

datatype migrationMode = ModeLegacy | ModeDual | ModeCanonical

datatype checkpoint = CheckpointPreflight | CheckpointCopy | CheckpointCoverage | CheckpointDual | CheckpointObserve
  | CheckpointCleanup | CheckpointDone | CheckpointRollback

record promotionRequest =
  pr_LedgerID :: string
  pr_Owner :: string
  pr_ExpectedCheckpoint :: checkpoint
  pr_ExpectedEpoch :: int
  pr_Checkpoint :: checkpoint
  pr_Mode :: migrationMode
  pr_Actor :: string
  pr_ApprovedBy :: string
  pr_EvidenceSHA256 :: string
  pr_EvidenceRef :: string

definition legalCheckpointEdge :: "checkpoint \<Rightarrow> checkpoint \<Rightarrow> bool" where
  "legalCheckpointEdge src dst \<longleftrightarrow>
     (dst = CheckpointRollback \<and> src \<in> {CheckpointPreflight, CheckpointCopy, CheckpointCoverage, CheckpointObserve, CheckpointCleanup}) \<or>
     (case src of
        CheckpointPreflight \<Rightarrow> dst = CheckpointCopy
      | CheckpointCopy \<Rightarrow> dst = CheckpointCoverage
      | CheckpointCoverage \<Rightarrow> dst = CheckpointDual
      | CheckpointDual \<Rightarrow> dst = CheckpointObserve
      | CheckpointObserve \<Rightarrow> dst = CheckpointCleanup
      | CheckpointCleanup \<Rightarrow> dst = CheckpointDone
      | _ \<Rightarrow> False)"

definition isLowerHex :: "char \<Rightarrow> bool" where
  "isLowerHex c \<longleftrightarrow> isDigit c \<or> (97 \<le> (of_char c :: nat) \<and> (of_char c :: nat) \<le> 102)"

datatype promotionError = PromMissingField | PromInvalidEpoch | PromBadEvidence | PromIllegalEdge checkpoint checkpoint
  | PromDualNeedsDualMode | PromObserveNeedsDualMode | PromCleanupNeedsCanonical | PromRollbackNeedsLegacy

text \<open>Mode and checkpoint are closed types here, so their \<open>Valid\<close> checks hold; decoding hex and
  comparing with the lower case accepts exactly lower-case hex of length 64.\<close>

definition validPromotion :: "promotionRequest \<Rightarrow> promotionError option" where
  "validPromotion r =
     (if pr_LedgerID r = [] \<or> pr_Owner r = [] \<or> pr_Actor r = [] \<or> pr_ApprovedBy r = [] \<or> pr_EvidenceRef r = [] then Some PromMissingField
      else if pr_ExpectedEpoch r < 0 then Some PromInvalidEpoch
      else if length (pr_EvidenceSHA256 r) \<noteq> 64 \<or> \<not> list_all isLowerHex (pr_EvidenceSHA256 r) then Some PromBadEvidence
      else if \<not> legalCheckpointEdge (pr_ExpectedCheckpoint r) (pr_Checkpoint r)
      then Some (PromIllegalEdge (pr_ExpectedCheckpoint r) (pr_Checkpoint r))
      else if pr_Checkpoint r = CheckpointDual \<and> pr_Mode r \<noteq> ModeDual then Some PromDualNeedsDualMode
      else if pr_ExpectedCheckpoint r = CheckpointDual \<and> pr_Checkpoint r = CheckpointObserve \<and> pr_Mode r \<noteq> ModeDual
      then Some PromObserveNeedsDualMode
      else if pr_Checkpoint r = CheckpointCleanup \<and> pr_Mode r \<noteq> ModeCanonical then Some PromCleanupNeedsCanonical
      else if pr_Checkpoint r = CheckpointRollback \<and> pr_Mode r \<noteq> ModeLegacy then Some PromRollbackNeedsLegacy
      else None)"

section \<open>Properties\<close>

lemma hasPrefix_two: "hasPrefix key (p @ q) \<Longrightarrow> hasPrefix key (p @ q') \<Longrightarrow> length q = length q' \<Longrightarrow> q = q'"
  by (auto simp: hasPrefix_def)

text \<open>The copy of the legacy constructor that the migration keeps agrees with the constructor of the
  store on every tuple.\<close>

theorem legacy_builder_copy_exact:
  "legacyNodeKeyForTenant prefix tenant cid raw = NodeKeyForTenant prefix tenant cid raw"
  by (simp add: legacyNodeKeyForTenant_def NodeKeyForTenant_def NodeKey_def isNumericTenant_def tenantKeyPart_def Let_def)

lemma parsePositive_pos: "0 < parsePositiveDecimalK2 s \<Longrightarrow> 0 < (case Atoi s of Some n \<Rightarrow> n | None \<Rightarrow> 0) \<and> (case Atoi s of Some n \<Rightarrow> n | None \<Rightarrow> 0) \<le> maxInt"
  using Atoi_max by (auto simp: parsePositiveDecimalK2_def split: if_splits option.splits)

lemma legacyTail_cases:
  assumes "legacyTail b (strSplit d s) = Some (t, c, r)" "t \<noteq> []"
  shows "(strSplit d s = [''t'', t, c, r] \<and> isAllDigitsK2 t) \<or> (strSplit d s = [t, c, r] \<and> t \<noteq> ''t'' \<and> \<not> isAllDigitsK2 t)"
proof -
  let ?ps = "strSplit d s"
  have four: "length ?ps = 4 \<Longrightarrow> ?ps = [?ps ! 0, ?ps ! 1, ?ps ! 2, ?ps ! 3]"
    using strSplit_4 [of d s] by auto
  have three: "length ?ps = 3 \<Longrightarrow> ?ps = [?ps ! 0, ?ps ! 1, ?ps ! 2]"
    using strSplit_3 [of d s] by auto
  show ?thesis using assms four three by (auto simp: legacyTail_def split: if_splits)
qed

text \<open>What a migratable verdict on a node key guarantees.\<close>

lemma classifyNode_migratable:
  assumes "ck_Class (classifyNodeKeyK2 prefix key) = ClassificationMigratable"
  shows "\<exists>t c r. ck_Tuple (classifyNodeKeyK2 prefix key) = Some \<lparr>pk_TenantID = t, pk_CredentialID = c, pk_RawModel = r\<rparr> \<and>
     NodeKeyForTenant prefix t c r = key \<and> t \<noteq> [] \<and> 0 < c \<and> c \<le> maxInt \<and> CHR '':'' \<notin> set t \<and> CHR '':'' \<notin> set r \<and>
     \<not> hasPrefix key (prefix @ ''node:k2:'')"
proof -
  have nk2: "\<not> hasPrefix key (prefix @ ''node:k2:'')"
    using assms by (auto simp: classifyNodeKeyK2_def ambiguousK2_def split: option.splits prod.splits keySchema.splits)
  let ?sp = "strSplit CHR '':'' (drop (length (prefix @ ''node:'')) key)"
  obtain t cs r where tail: "legacyTail True ?sp = Some (t, cs, r)"
    using assms nk2 by (auto simp: classifyNodeKeyK2_def ambiguousK2_def split: option.splits)
  let ?c = "case Atoi cs of Some n \<Rightarrow> n | None \<Rightarrow> 0"
  have ok: "0 < parsePositiveDecimalK2 cs" "t \<noteq> []" "NodeKeyForTenant prefix t ?c r = key"
    and tup: "ck_Tuple (classifyNodeKeyK2 prefix key) = Some \<lparr>pk_TenantID = t, pk_CredentialID = ?c, pk_RawModel = r\<rparr>"
    using assms nk2 tail by (auto simp: classifyNodeKeyK2_def ambiguousK2_def Let_def split: if_splits)
  have "t \<in> set ?sp" "r \<in> set ?sp" using legacyTail_cases [OF tail ok(2)] by auto
  then have "CHR '':'' \<notin> set t" "CHR '':'' \<notin> set r" using strSplit_parts_plain by blast+
  then show ?thesis using tup ok parsePositive_pos [OF ok(1)] nk2 by blast
qed

lemma ClassifyKeyK2_node:
  assumes "ck_Class (ClassifyKeyK2 prefix key) = ClassificationMigratable" "hasPrefix key (prefix @ ''node:'')"
  shows "ClassifyKeyK2 prefix key = classifyNodeKeyK2 prefix key"
  using assms by (auto simp: ClassifyKeyK2_def excludedK2_def split: option.splits if_splits)

text \<open>The moves of a migration do not collide: two different node keys that the strict classifier
  accepts, when their tuples have canonical keys at all, are sent to different canonical keys, and a
  canonical key is never one of the legacy source keys.\<close>

theorem migration_targets_distinct:
  assumes cls: "ck_Class (ClassifyKeyK2 prefix k1) = ClassificationMigratable" "ck_Class (ClassifyKeyK2 prefix k2) = ClassificationMigratable"
    and node: "hasPrefix k1 (prefix @ ''node:'')" "hasPrefix k2 (prefix @ ''node:'')" and ne: "k1 \<noteq> k2"
    and tup: "ck_Tuple (ClassifyKeyK2 prefix k1) = Some p1" "ck_Tuple (ClassifyKeyK2 prefix k2) = Some p2"
    and tgt: "K2NodeKeyForTenant prefix (pk_TenantID p1) (pk_CredentialID p1) (pk_RawModel p1) = Inr x1"
             "K2NodeKeyForTenant prefix (pk_TenantID p2) (pk_CredentialID p2) (pk_RawModel p2) = Inr x2"
  shows "x1 \<noteq> x2 \<and> x1 \<noteq> k1 \<and> x1 \<noteq> k2"
proof -
  note c1 = ClassifyKeyK2_node [OF cls(1) node(1)] and c2 = ClassifyKeyK2_node [OF cls(2) node(2)]
  obtain t1 i1 r1 where 1: "p1 = \<lparr>pk_TenantID = t1, pk_CredentialID = i1, pk_RawModel = r1\<rparr>"
    "NodeKeyForTenant prefix t1 i1 r1 = k1" "i1 \<le> maxInt" "\<not> hasPrefix k1 (prefix @ ''node:k2:'')"
    using classifyNode_migratable [of prefix k1] cls(1) tup(1) c1 by auto
  obtain t2 i2 r2 where 2: "p2 = \<lparr>pk_TenantID = t2, pk_CredentialID = i2, pk_RawModel = r2\<rparr>"
    "NodeKeyForTenant prefix t2 i2 r2 = k2" "i2 \<le> maxInt" "\<not> hasPrefix k2 (prefix @ ''node:k2:'')"
    using classifyNode_migratable [of prefix k2] cls(2) tup(2) c2 by auto
  have "x1 \<noteq> x2"
  proof
    assume "x1 = x2"
    then have "(t1, i1, r1) = (t2, i2, r2)" using K2NodeKey_inj [of prefix t1 i1 r1 x1 t2 i2 r2] tgt 1 2 by simp
    then show False using 1 2 ne by simp
  qed
  moreover have "hasPrefix x1 (prefix @ ''node:k2:'')" using tgt(1) by (auto simp: K2NodeKey_Inr_iff hasPrefix_def)
  ultimately show ?thesis using 1(4) 2(4) by auto
qed

text \<open>A legacy node without a tenant has no canonical key, and the two classifiers treat it
  differently: the ledger pass marks it as migratable with an empty target, the strict classifier never
  marks it as migratable.\<close>

theorem tenantless_nodes_have_no_target:
  assumes "0 < cid" "cid \<le> maxInt" "raw \<noteq> []" and key: "key = NodeKeyForTenant prefix [] cid raw"
    and sk: "sk_SourceKey sk = key" "sk_KeyType sk \<noteq> []" "\<not> isExcludedNamespace prefix key"
  shows "it_Classification (classifyOne sha256 prefix sk runID) = Some ClassificationMigratable \<and>
         it_CanonicalKey (classifyOne sha256 prefix sk runID) = [] \<and>
         ck_Class (classifyNodeKeyK2 prefix key) \<noteq> ClassificationMigratable"
proof -
  have dig: "list_all isDigit (intDec cid)" "intDec cid \<noteq> []" using isNumeric_intDec [OF assms(1)] by (auto simp: isNumericTenant_def)
  then obtain c cs where ic: "intDec cid = c # cs" "isDigit c" by (cases "intDec cid") auto
  have k: "key = prefix @ ''node:'' @ intDec cid @ '':'' @ raw" by (simp add: key NodeKeyForTenant_def NodeKey_def)
  have "c \<noteq> CHR ''k''" using ic(2) by auto
  then have "cutPrefix key (prefix @ ''node:k2:'') = None" using ic by (simp add: cutPrefix_def k)
  then have parse: "parseAnyNodeKey prefix key = Some (\<lparr>pk_TenantID = [], pk_CredentialID = cid, pk_RawModel = raw\<rparr>, ''legacy'')"
    using legacy_reads_tenantless [OF assms(1-3), of prefix] by (simp add: parseAnyNodeKey_def ParseNodeKeyCanonical_def key)
  have built: "legacyNodeKeyForTenant prefix [] cid raw = key" by (simp add: legacyNodeKeyForTenant_def k)
  have "NodeKeyCanonical prefix [] cid raw = []" by (simp add: NodeKeyCanonical_def K2NodeKeyForTenant_def k2ValidateNodeTuple_def)
  then have one: "it_Classification (classifyOne sha256 prefix sk runID) = Some ClassificationMigratable \<and>
      it_CanonicalKey (classifyOne sha256 prefix sk runID) = []"
    using sk parse built assms by (simp add: classifyOne_def Let_def)
  have "ck_Class (classifyNodeKeyK2 prefix key) \<noteq> ClassificationMigratable"
  proof
    assume "ck_Class (classifyNodeKeyK2 prefix key) = ClassificationMigratable"
    from classifyNode_migratable [OF this] obtain t i r where t: "NodeKeyForTenant prefix t i r = key" "t \<noteq> []" "CHR '':'' \<notin> set t" "0 < i" "i \<le> maxInt" by blast
    show False
    proof (cases "isNumericTenant t")
      case True
      then have "key = prefix @ ''node:t:'' @ t @ '':'' @ intDec i @ '':'' @ r" using t(1,2) by (simp add: NodeKeyForTenant_def tenantKeyPart_def)
      then have "c = CHR ''t''" using k ic by simp
      then show False using ic(2) by simp
    next
      case False
      then have "key = prefix @ ''node:'' @ t @ '':'' @ intDec i @ '':'' @ r" using t(1,2) by (simp add: NodeKeyForTenant_def tenantKeyPart_def)
      then have "intDec cid @ CHR '':'' # raw = t @ CHR '':'' # (intDec i @ '':'' @ r)" using k by simp
      from arg_cong [OF this, of "strSplit CHR '':''"] have "intDec cid = t"
        using t(3) cid.no_delim assms(1,2) by simp
      then show False using False isNumeric_intDec [OF assms(1)] by simp
    qed
  qed
  with one show ?thesis by blast
qed

text \<open>The field checksum does not determine the fields: the value is not terminated, so two fields
  have the checksum of a single field whose value swallows the second one, whatever the hash.\<close>

theorem field_checksum_ambiguous:
  assumes "a < c"
  shows "fieldChecksum sha256 [(a, b), (c, d)] = fieldChecksum sha256 [(a, b @ c @ [CHR 0x00] @ d)]"
  using assms by (auto simp: fieldChecksum_def fieldBytes_def)

theorem field_checksum_ambiguous_witness:
  "fieldChecksum id [(''generation'', ''1''), (''reason'', ''x'')] = fieldChecksum id [(''generation'', ''1'' @ ''reason'' @ [CHR 0x00] @ ''x'')]"
  using field_checksum_ambiguous [of "''generation''" "''reason''" id "''1''" "''x''"] by (simp add: less_list_code less_char_def)

text \<open>The preflight is deterministic: two scans that found the same keys with the same contents, in
  whatever order and with whatever repetitions, give the same summary and the same ledger.\<close>

theorem preflight_deterministic:
  assumes "scanMap scan1 = scanMap scan2"
  shows "Preflight sha256 prefix scan1 runID appendFails ledger = Preflight sha256 prefix scan2 runID appendFails ledger"
proof -
  have "set (map sk_SourceKey s) = dom (scanMap s)" for s by (simp add: scanMap_def dom_map_of_conv_image_fst image_image)
  then have "set (map sk_SourceKey scan1) = set (map sk_SourceKey scan2)" using assms by simp
  then have "sort (remdups (map sk_SourceKey scan1)) = sort (remdups (map sk_SourceKey scan2))"
    by (simp only: sorted_list_of_set_sort_remdups [symmetric])
  then show ?thesis using assms by (simp add: Preflight_def)
qed

theorem preflight_deterministic_witness:
  "let a = \<lparr>sk_SourceKey = ''p:node:7:m'', sk_KeyType = ''hash'', sk_PTTLMs = -1, sk_Fields = [], sk_Generation = 1\<rparr>;
       b = \<lparr>sk_SourceKey = ''p:win:x'', sk_KeyType = ''zset'', sk_PTTLMs = -1, sk_Fields = [], sk_Generation = 0\<rparr>
   in Preflight id ''p:'' [a, b, a] ''r'' (\<lambda>it. False) [] = Preflight id ''p:'' [b, a] ''r'' (\<lambda>it. False) []"
proof -
  let ?a = "\<lparr>sk_SourceKey = ''p:node:7:m'', sk_KeyType = ''hash'', sk_PTTLMs = -1, sk_Fields = [], sk_Generation = 1\<rparr>"
  let ?b = "\<lparr>sk_SourceKey = ''p:win:x'', sk_KeyType = ''zset'', sk_PTTLMs = -1, sk_Fields = [], sk_Generation = 0\<rparr>"
  have "scanMap [?a, ?b, ?a] = scanMap [?b, ?a]" by (auto simp: scanMap_def fun_eq_iff)
  from preflight_deterministic [OF this] show ?thesis unfolding Let_def .
qed

lemma node_key_7: "intDec 7 = ''7''" "intDec 8 = ''8''"
  by (simp_all add: intDec_def natDec.simps digitChar_def) (simp_all flip: of_char_eq_iff [where 'a = nat])

theorem tenantless_nodes_have_no_target_witness:
  "let sk = \<lparr>sk_SourceKey = NodeKeyForTenant ''p:'' [] 7 ''m'', sk_KeyType = ''hash'', sk_PTTLMs = -1, sk_Fields = [], sk_Generation = 1\<rparr>
   in it_Classification (classifyOne id ''p:'' sk ''r'') = Some ClassificationMigratable \<and> it_CanonicalKey (classifyOne id ''p:'' sk ''r'') = []"
proof -
  have "\<not> isExcludedNamespace ''p:'' (NodeKeyForTenant ''p:'' [] 7 ''m'')"
    by (simp add: isExcludedNamespace_def NodeKeyForTenant_def NodeKey_def hasPrefix_def node_key_7)
  then show ?thesis
    using tenantless_nodes_have_no_target [of 7 "''m''" "NodeKeyForTenant ''p:'' [] 7 ''m''" "''p:''"
      "\<lparr>sk_SourceKey = NodeKeyForTenant ''p:'' [] 7 ''m'', sk_KeyType = ''hash'', sk_PTTLMs = -1, sk_Fields = [], sk_Generation = 1\<rparr>" id "''r''"]
    by (simp add: maxInt_def Let_def)
qed

lemma sample_classified:
  "ck_Class (ClassifyKeyK2 ''p:'' ''p:node:a:7:m'') = ClassificationMigratable"
  "ck_Tuple (ClassifyKeyK2 ''p:'' ''p:node:a:7:m'') = Some \<lparr>pk_TenantID = ''a'', pk_CredentialID = 7, pk_RawModel = ''m''\<rparr>"
  "ck_Class (ClassifyKeyK2 ''p:'' ''p:node:a:8:m'') = ClassificationMigratable"
  "ck_Tuple (ClassifyKeyK2 ''p:'' ''p:node:a:8:m'') = Some \<lparr>pk_TenantID = ''a'', pk_CredentialID = 8, pk_RawModel = ''m''\<rparr>"
  by (simp_all add: ClassifyKeyK2_def classifyNodeKeyK2_def hasPrefix_def legacyTail_def isAllDigitsK2_def isDigit_def
      parsePositiveDecimalK2_def Atoi_def digitsVal_def digitVal_def maxInt_def NodeKeyForTenant_def isNumericTenant_def
      tenantKeyPart_def node_key_7 Let_def)

theorem migration_targets_distinct_witness:
  "\<exists>x1 x2. K2NodeKeyForTenant ''p:'' ''a'' 7 ''m'' = Inr x1 \<and> K2NodeKeyForTenant ''p:'' ''a'' 8 ''m'' = Inr x2 \<and>
     x1 \<noteq> x2 \<and> x1 \<noteq> ''p:node:a:7:m'' \<and> x1 \<noteq> ''p:node:a:8:m''"
proof -
  obtain x1 where x1: "K2NodeKeyForTenant ''p:'' ''a'' 7 ''m'' = Inr x1" by (simp add: K2NodeKeyForTenant_def k2ValidateNodeTuple_def)
  obtain x2 where x2: "K2NodeKeyForTenant ''p:'' ''a'' 8 ''m'' = Inr x2" by (simp add: K2NodeKeyForTenant_def k2ValidateNodeTuple_def)
  have "hasPrefix ''p:node:a:7:m'' (''p:'' @ ''node:'')" "hasPrefix ''p:node:a:8:m'' (''p:'' @ ''node:'')" by (simp_all add: hasPrefix_def)
  from migration_targets_distinct [OF sample_classified(1,3) this _ sample_classified(2,4)] x1 x2
  have "x1 \<noteq> x2 \<and> x1 \<noteq> ''p:node:a:7:m'' \<and> x1 \<noteq> ''p:node:a:8:m''" by simp
  then show ?thesis using x1 x2 by blast
qed

text \<open>A key with an empty model passes the strict classifier although the canonical grammar refuses
  it.\<close>

lemma empty_model_migratable:
  "ck_Class (ClassifyKeyK2 ''p:'' ''p:node:a:7:'') = ClassificationMigratable" "K2NodeKeyForTenant ''p:'' ''a'' 7 [] = Inl EmptyRawModel"
  by (simp_all add: ClassifyKeyK2_def classifyNodeKeyK2_def hasPrefix_def legacyTail_def isAllDigitsK2_def isDigit_def
      parsePositiveDecimalK2_def Atoi_def digitsVal_def digitVal_def maxInt_def NodeKeyForTenant_def isNumericTenant_def
      tenantKeyPart_def node_key_7 Let_def K2NodeKeyForTenant_def k2ValidateNodeTuple_def)

text \<open>A run is a sequence of valid promotions, each from the checkpoint the one before reached.\<close>

fun promotionRun :: "checkpoint \<Rightarrow> promotionRequest list \<Rightarrow> bool" where
  "promotionRun cp [] \<longleftrightarrow> True"
| "promotionRun cp (r # rs) \<longleftrightarrow> pr_ExpectedCheckpoint r = cp \<and> validPromotion r = None \<and> promotionRun (pr_Checkpoint r) rs"

lemma validPromotion_edge: "validPromotion r = None \<Longrightarrow> legalCheckpointEdge (pr_ExpectedCheckpoint r) (pr_Checkpoint r)"
  by (auto simp: validPromotion_def split: if_splits)

lemma run_after_end: "cp = CheckpointDone \<or> cp = CheckpointRollback \<Longrightarrow> promotionRun cp rs \<Longrightarrow> rs = []"
  by (cases rs) (auto dest!: validPromotion_edge simp: legalCheckpointEdge_def)

definition promotionChain :: "checkpoint list" where
  "promotionChain = [CheckpointPreflight, CheckpointCopy, CheckpointCoverage, CheckpointDual, CheckpointObserve, CheckpointCleanup, CheckpointDone]"

lemma legal_edge_iff:
  "legalCheckpointEdge src dst \<longleftrightarrow>
     (src, dst) \<in> set (zip promotionChain (tl promotionChain)) \<or>
     (dst = CheckpointRollback \<and> src \<in> set promotionChain - {CheckpointDual, CheckpointDone})"
  by (cases src; cases dst) (simp_all add: legalCheckpointEdge_def promotionChain_def)

lemma run_prefix:
  assumes "promotionRun (promotionChain ! i) rs" "i < 7"
  shows "\<exists>n. (map pr_Checkpoint rs = List.take n (drop (Suc i) promotionChain)) \<or>
     (map pr_Checkpoint rs = List.take n (drop (Suc i) promotionChain) @ [CheckpointRollback])"
  using assms
proof (induction rs arbitrary: i)
  case (Cons r rs)
  have e: "legalCheckpointEdge (promotionChain ! i) (pr_Checkpoint r)" "promotionRun (pr_Checkpoint r) rs"
    using Cons.prems validPromotion_edge [of r] by auto
  show ?case
  proof (cases "pr_Checkpoint r = CheckpointRollback")
    case True
    then show ?thesis using e(2) run_after_end by (intro exI [of _ 0]) auto
  next
    case False
    then have i: "i < 6" "pr_Checkpoint r = promotionChain ! Suc i"
      using e(1) Cons.prems(2) by (auto simp: less_Suc_eq numeral_eq_Suc promotionChain_def legalCheckpointEdge_def)
    have len: "Suc i < length promotionChain" using i(1) by (simp add: promotionChain_def)
    obtain n where "map pr_Checkpoint rs = List.take n (drop (Suc (Suc i)) promotionChain) \<or>
        map pr_Checkpoint rs = List.take n (drop (Suc (Suc i)) promotionChain) @ [CheckpointRollback]"
      using Cons.IH [of "Suc i"] e(2) i by auto
    then show ?thesis using i(2) Cons_nth_drop_Suc [OF len, symmetric] by (intro exI [of _ "Suc n"]) auto
  qed
qed (auto intro: exI [of _ 0])

text \<open>A run visits the checkpoints in order and skips none: whatever promotions are accepted, the
  sequence of checkpoints is a prefix of copy, coverage, dual, observe, cleanup, done, possibly ended by
  one roll-back. Cleanup is never reached without the steps before it.\<close>

theorem promotion_order:
  assumes "promotionRun CheckpointPreflight rs"
  shows "\<exists>n. map pr_Checkpoint rs = List.take n (tl promotionChain) \<or>
             map pr_Checkpoint rs = List.take n (tl promotionChain) @ [CheckpointRollback]"
  using run_prefix [of 0 rs] assms by (simp add: promotionChain_def)

text \<open>The dual checkpoint cannot be rolled back: no accepted promotion leads from it to the
  roll-back.\<close>

theorem dual_cannot_roll_back:
  "pr_ExpectedCheckpoint r = CheckpointDual \<Longrightarrow> pr_Checkpoint r = CheckpointRollback \<Longrightarrow> validPromotion r \<noteq> None"
  using validPromotion_edge [of r] by (auto simp: legalCheckpointEdge_def)

definition sampleRequest :: "checkpoint \<Rightarrow> checkpoint \<Rightarrow> migrationMode \<Rightarrow> promotionRequest" where
  "sampleRequest src dst mode = \<lparr>pr_LedgerID = ''l'', pr_Owner = ''o'', pr_ExpectedCheckpoint = src, pr_ExpectedEpoch = 0, pr_Checkpoint = dst,
     pr_Mode = mode, pr_Actor = ''a'', pr_ApprovedBy = ''b'', pr_EvidenceSHA256 = replicate 64 CHR ''0'', pr_EvidenceRef = ''r''\<rparr>"

theorem promotion_order_witness:
  "\<exists>n. map pr_Checkpoint [sampleRequest CheckpointPreflight CheckpointCopy ModeLegacy, sampleRequest CheckpointCopy CheckpointRollback ModeLegacy] =
         List.take n (tl promotionChain) @ [CheckpointRollback]"
proof -
  let ?rs = "[sampleRequest CheckpointPreflight CheckpointCopy ModeLegacy, sampleRequest CheckpointCopy CheckpointRollback ModeLegacy]"
  have "promotionRun CheckpointPreflight ?rs"
    by (simp add: sampleRequest_def validPromotion_def legalCheckpointEdge_def isLowerHex_def isDigit_def list_all_iff)
  from promotion_order [OF this] obtain n where n: "map pr_Checkpoint ?rs = List.take n (tl promotionChain) \<or>
      map pr_Checkpoint ?rs = List.take n (tl promotionChain) @ [CheckpointRollback]" ..
  have "CheckpointRollback \<notin> set (tl promotionChain)" by (simp add: promotionChain_def)
  moreover have "CheckpointRollback \<in> set (map pr_Checkpoint ?rs)" by (simp add: sampleRequest_def)
  ultimately have "map pr_Checkpoint ?rs \<noteq> List.take n (tl promotionChain)" using in_set_takeD by metis
  then show ?thesis using n by blast
qed

theorem dual_cannot_roll_back_witness: "validPromotion (sampleRequest CheckpointDual CheckpointRollback ModeLegacy) \<noteq> None"
  using dual_cannot_roll_back [of "sampleRequest CheckpointDual CheckpointRollback ModeLegacy"] by (simp add: sampleRequest_def)

end
