(* ===== verification/StreamRetry.thy ===== *)
theory StreamRetry
  imports Prelude
begin

text \<open>
  The retry wrapper of the streaming endpoints (\<open>internal/streamretry/retry.go\<close> and
  \<open>wrapper.go\<close>): error classification, backoff, the retry loop, and the recorder through which
  a wrapped HTTP handler reports its outcome. The handler is the list of the calls it makes on its
  response writer; what the writer and the clock answer are arguments. Logging, the journey observer
  and the keep-alive text are not modelled.
\<close>

section \<open>Errors and their classification (retry.go)\<close>

record srConfig =
  sr_MaxRetries :: int
  sr_BaseDelayMs :: int
  sr_MaxDelayMs :: int
  sr_KeepaliveInterval :: duration
  sr_Enabled :: bool

definition DefaultConfig :: srConfig where
  "DefaultConfig = \<lparr>sr_MaxRetries = 3, sr_BaseDelayMs = 200, sr_MaxDelayMs = 5000, sr_KeepaliveInterval = 10 * go_second, sr_Enabled = True\<rparr>"

text \<open>
  The error values the code tells apart. \<open>HTTPError\<close> wraps another error, which
  \<open>errors.Is\<close> and \<open>errors.As\<close> look into; \<open>retryBlockedError\<close> has no
  \<open>Unwrap\<close> and hides what it holds. \<open>NetError\<close> is any other \<open>net.Error\<close>, with its
  \<open>Timeout()\<close>; the \<open>syscall.Errno\<close> values and \<open>context.DeadlineExceeded\<close> are
  \<open>net.Error\<close>s too.
\<close>

datatype goError = CtxCanceled | CtxDeadlineExceeded | NetError bool | IoEOF | IoUnexpectedEOF | ErrnoConnRefused | ErrnoConnReset
  | HTTPError int goError string | RetryBlocked goError | PlainError string

fun errChain :: "goError \<Rightarrow> goError list" where
  "errChain (HTTPError sc err ra) = HTTPError sc err ra # errChain err"
| "errChain err = [err]"

definition errIs :: "goError \<Rightarrow> goError \<Rightarrow> bool" where
  "errIs err target \<longleftrightarrow> target \<in> set (errChain err)"

fun netErrorTimeout :: "goError \<Rightarrow> bool option" where
  "netErrorTimeout (NetError t) = Some t"
| "netErrorTimeout CtxDeadlineExceeded = Some True"
| "netErrorTimeout ErrnoConnRefused = Some False"
| "netErrorTimeout ErrnoConnReset = Some False"
| "netErrorTimeout _ = None"

fun firstSome :: "('a \<Rightarrow> 'b option) \<Rightarrow> 'a list \<Rightarrow> 'b option" where
  "firstSome f [] = None"
| "firstSome f (x # xs) = (case f x of Some y \<Rightarrow> Some y | None \<Rightarrow> firstSome f xs)"

fun asHTTPError :: "goError \<Rightarrow> int option" where
  "asHTTPError (HTTPError sc err ra) = Some sc"
| "asHTTPError _ = None"

datatype reason = ReasonNone | ContextCanceled | NetworkTimeout | NetworkError | PrematureEOF | ConnRefusedOrReset
  | Http408 | Http425 | Http429 | HttpServerError int | HttpClientError int | HttpUnexpected int | UnknownErrorType

definition classifyHTTPError :: "int \<Rightarrow> bool \<times> reason" where
  "classifyHTTPError statusCode =
     (if statusCode = 408 then (True, Http408) else if statusCode = 425 then (True, Http425)
      else if statusCode = 429 then (True, Http429)
      else if 500 \<le> statusCode \<and> statusCode \<le> 599 then (True, HttpServerError statusCode)
      else if 400 \<le> statusCode \<and> statusCode \<le> 499 then (False, HttpClientError statusCode)
      else (False, HttpUnexpected statusCode))"

definition ClassifyHTTPError :: "int \<Rightarrow> bool \<times> reason" where
  "ClassifyHTTPError statusCode = classifyHTTPError statusCode"

definition ClassifyError :: "goError option \<Rightarrow> bool \<times> reason" where
  "ClassifyError e =
     (case e of
        None \<Rightarrow> (False, ReasonNone)
      | Some err \<Rightarrow>
          if errIs err CtxCanceled \<or> errIs err CtxDeadlineExceeded then (False, ContextCanceled)
          else (case firstSome netErrorTimeout (errChain err) of
              Some timeout \<Rightarrow> if timeout then (True, NetworkTimeout) else (True, NetworkError)
            | None \<Rightarrow>
                if errIs err IoEOF \<or> errIs err IoUnexpectedEOF then (True, PrematureEOF)
                else if errIs err ErrnoConnRefused \<or> errIs err ErrnoConnReset then (True, ConnRefusedOrReset)
                else (case firstSome asHTTPError (errChain err) of
                    Some sc \<Rightarrow> classifyHTTPError sc
                  | None \<Rightarrow> (False, UnknownErrorType))))"

definition IsRetriable :: "goError option \<Rightarrow> bool" where
  "IsRetriable e = fst (ClassifyError e)"

text \<open>The delay in milliseconds; \<open>rnd\<close> is the answer of \<open>rand.Float64()\<close>, in \<open>[0, 1)\<close>.
  The product wraps at 64 bits, the conversion of a float to \<open>int\<close> truncates towards zero.\<close>

definition int64 :: "int \<Rightarrow> int" where
  "int64 n = (n + 2 ^ 63) mod 2 ^ 64 - 2 ^ 63"

definition truncReal :: "real \<Rightarrow> int" where
  "truncReal r = (if 0 \<le> r then \<lfloor>r\<rfloor> else \<lceil>r\<rceil>)"

definition CalculateRetryDelay :: "nat \<Rightarrow> int \<Rightarrow> int \<Rightarrow> real \<Rightarrow> int" where
  "CalculateRetryDelay attempt baseDelayMs maxDelayMs rnd =
     (let base = (if baseDelayMs \<le> 0 then 200 else baseDelayMs);
          maxd = (if maxDelayMs \<le> 0 then 5000 else maxDelayMs);
          shift = min attempt 30;
          d0 = int64 (base * 2 ^ shift);
          d1 = (if d0 > maxd then maxd else d0);
          d2 = d1 + truncReal (real_of_int d1 * 0.2 * (2 * rnd - 1))
      in if d2 < 0 then base else d2)"

section \<open>The retry loop (wrapper.go)\<close>

record wrapperMetrics =
  wm_TotalAttempts :: int
  wm_SuccessAttempt :: int
  wm_TotalRetries :: int
  wm_LastError :: "goError option"

definition ShouldRetry :: "srConfig \<Rightarrow> int \<Rightarrow> goError \<Rightarrow> bool" where
  "ShouldRetry cfg attempt err =
     (if \<not> sr_Enabled cfg then False
      else if sr_MaxRetries cfg \<le> attempt then False
      else case err of RetryBlocked e \<Rightarrow> False | _ \<Rightarrow> fst (ClassifyError (Some err)))"

text \<open>\<open>stream i\<close> is the outcome of the \<open>i\<close>-th execution of the stream function,
  \<open>sleep i\<close> that of the backoff after it.\<close>

function retryLoop :: "srConfig \<Rightarrow> (nat \<Rightarrow> goError option) \<Rightarrow> (nat \<Rightarrow> goError option) \<Rightarrow> nat \<Rightarrow> wrapperMetrics \<Rightarrow>
    wrapperMetrics \<times> goError option" where
  "retryLoop cfg stream sleep attempt m =
     (let m1 = m\<lparr>wm_TotalAttempts := wm_TotalAttempts m + 1\<rparr> in
      case stream attempt of
        None \<Rightarrow> (m1\<lparr>wm_SuccessAttempt := int attempt, wm_TotalRetries := int attempt\<rparr>, None)
      | Some err \<Rightarrow>
          let m2 = m1\<lparr>wm_LastError := Some err\<rparr> in
          if \<not> ShouldRetry cfg (int attempt) err then (m2\<lparr>wm_TotalRetries := int attempt\<rparr>, Some err)
          else (case sleep attempt of
              Some serr \<Rightarrow> (m2\<lparr>wm_TotalRetries := int attempt\<rparr>, Some serr)
            | None \<Rightarrow> retryLoop cfg stream sleep (attempt + 1) m2))"
  by pat_completeness auto
termination
  by (relation "measure (\<lambda>(cfg, stream, sleep, attempt, m). nat (sr_MaxRetries cfg - int attempt))")
    (auto simp: ShouldRetry_def split: if_splits)

declare retryLoop.simps [simp del]

definition newMetrics :: wrapperMetrics where
  "newMetrics = \<lparr>wm_TotalAttempts = 0, wm_SuccessAttempt = -1, wm_TotalRetries = 0, wm_LastError = None\<rparr>"

text \<open>One execution with the metrics of a single attempt, as the paths without retry do it.\<close>

definition executeOnce :: "goError option \<Rightarrow> wrapperMetrics \<times> goError option" where
  "executeOnce res =
     (let m = newMetrics\<lparr>wm_TotalAttempts := 1\<rparr> in
      case res of
        None \<Rightarrow> (m\<lparr>wm_SuccessAttempt := 0\<rparr>, None)
      | Some err \<Rightarrow> (m\<lparr>wm_LastError := Some err\<rparr>, Some err))"

definition ExecuteWithMetrics ::
  "srConfig \<Rightarrow> (nat \<Rightarrow> goError option) \<Rightarrow> (nat \<Rightarrow> goError option) \<Rightarrow> wrapperMetrics \<times> goError option" where
  "ExecuteWithMetrics cfg stream sleep =
     (if \<not> sr_Enabled cfg then executeOnce (stream 0) else retryLoop cfg stream sleep 0 newMetrics)"

section \<open>The recorder and the HTTP wrapper\<close>

record errorRecorder =
  er_err :: "goError option"
  er_committed :: bool

text \<open>What a handler can do to its \<open>http.ResponseWriter\<close>: \<open>Write\<close> carries what the
  underlying writer answers, \<open>WriteHeader\<close> the value of the \<open>Retry-After\<close> header.\<close>

datatype responseCall = CallWriteHeader int string | CallWrite "goError option" | CallFlush

definition rec_WriteHeader :: "int \<Rightarrow> string \<Rightarrow> errorRecorder \<Rightarrow> errorRecorder" where
  "rec_WriteHeader statusCode retryAfter r =
     (let r1 = r\<lparr>er_committed := True\<rparr> in
      if 400 \<le> statusCode then r1\<lparr>er_err := Some (HTTPError statusCode (PlainError ''HTTP'') retryAfter)\<rparr> else r1)"

definition rec_Write :: "goError option \<Rightarrow> errorRecorder \<Rightarrow> errorRecorder" where
  "rec_Write werr r =
     (let r1 = r\<lparr>er_committed := True\<rparr> in
      case werr of
        None \<Rightarrow> r1
      | Some err \<Rightarrow> if er_err r1 = None \<and> (err = IoEOF \<or> err = IoUnexpectedEOF) then r1\<lparr>er_err := Some err\<rparr> else r1)"

fun recCall :: "responseCall \<Rightarrow> errorRecorder \<Rightarrow> errorRecorder" where
  "recCall (CallWriteHeader sc ra) r = rec_WriteHeader sc ra r"
| "recCall (CallWrite werr) r = rec_Write werr r"
| "recCall CallFlush r = r"

definition runHandler :: "responseCall list \<Rightarrow> errorRecorder" where
  "runHandler calls = fold recCall calls \<lparr>er_err = None, er_committed = False\<rparr>"

definition streamResult :: "errorRecorder \<Rightarrow> goError option" where
  "streamResult r = (case er_err r of
     None \<Rightarrow> None
   | Some err \<Rightarrow> if er_committed r then Some (RetryBlocked err) else Some err)"

datatype retryOwner = OwnerLegacy | OwnerSurvival

text \<open>What \<open>snapshotRequestBody\<close> sees of a request: no body, an unreadable one, or the bytes with
  the answer of the JSON decoder for the member \<open>stream\<close>.\<close>

datatype requestBody = NoBody | UnreadableBody | Body string "bool option"

fun snapshotStreaming :: "requestBody \<Rightarrow> bool" where
  "snapshotStreaming NoBody = True"
| "snapshotStreaming UnreadableBody = False"
| "snapshotStreaming (Body bytes decoded) = (if bytes = [] then True else case decoded of None \<Rightarrow> False | Some b \<Rightarrow> b)"

text \<open>\<open>handler i\<close> are the calls of the \<open>i\<close>-th run of the wrapped handler.\<close>

definition ExecuteStreamWithMetrics ::
  "srConfig \<Rightarrow> retryOwner \<Rightarrow> requestBody \<Rightarrow> (nat \<Rightarrow> responseCall list) \<Rightarrow> (nat \<Rightarrow> goError option) \<Rightarrow> wrapperMetrics \<times> goError option" where
  "ExecuteStreamWithMetrics cfg owner body handler sleep =
     (if \<not> snapshotStreaming body then executeOnce (er_err (runHandler (handler 0)))
      else if owner = OwnerSurvival then executeOnce (streamResult (runHandler (handler 0)))
      else ExecuteWithMetrics cfg (\<lambda>i. streamResult (runHandler (handler i))) sleep)"

section \<open>Properties of the loop\<close>

lemma ShouldRetry_bound: "ShouldRetry cfg attempt err \<Longrightarrow> attempt < sr_MaxRetries cfg \<and> fst (ClassifyError (Some err)) \<and> (\<nexists>e. err = RetryBlocked e)"
  by (auto simp: ShouldRetry_def split: if_splits goError.splits)

text \<open>The attempts that are followed by another one, and the attempt the loop ends with.\<close>

definition retried :: "srConfig \<Rightarrow> (nat \<Rightarrow> goError option) \<Rightarrow> (nat \<Rightarrow> goError option) \<Rightarrow> nat \<Rightarrow> bool" where
  "retried cfg stream sleep i \<longleftrightarrow> (\<exists>err. stream i = Some err \<and> ShouldRetry cfg (int i) err) \<and> sleep i = None"

lemma retryLoop_exact:
  assumes "\<forall>i. attempt \<le> i \<and> i < n \<longrightarrow> retried cfg stream sleep i" "attempt \<le> n" "\<not> retried cfg stream sleep n"
  shows "wm_TotalAttempts (fst (retryLoop cfg stream sleep attempt m)) = wm_TotalAttempts m + int (n - attempt) + 1 \<and>
     snd (retryLoop cfg stream sleep attempt m) =
       (case stream n of None \<Rightarrow> None | Some err \<Rightarrow> if ShouldRetry cfg (int n) err then sleep n else Some err)"
  using assms
proof (induction "n - attempt" arbitrary: attempt m)
  case 0
  then have "attempt = n" by simp
  then show ?case using 0(4) by (subst (1 2) retryLoop.simps) (auto simp: retried_def Let_def split: option.splits)
next
  case (Suc k)
  then have lt: "attempt < n" by simp
  then obtain err where err: "stream attempt = Some err" "ShouldRetry cfg (int attempt) err" "sleep attempt = None"
    using Suc.prems(1) by (auto simp: retried_def)
  define m2 where "m2 = m\<lparr>wm_TotalAttempts := wm_TotalAttempts m + 1, wm_LastError := Some err\<rparr>"
  have step: "retryLoop cfg stream sleep attempt m = retryLoop cfg stream sleep (attempt + 1) m2"
    using err by (subst retryLoop.simps) (simp add: Let_def m2_def)
  have IH: "wm_TotalAttempts (fst (retryLoop cfg stream sleep (attempt + 1) m2)) = wm_TotalAttempts m2 + int (n - (attempt + 1)) + 1 \<and>
     snd (retryLoop cfg stream sleep (attempt + 1) m2) =
       (case stream n of None \<Rightarrow> None | Some err \<Rightarrow> if ShouldRetry cfg (int n) err then sleep n else Some err)"
    using Suc.hyps(1) [of "attempt + 1" m2] Suc.hyps(2) Suc.prems lt by simp
  have "int (n - attempt) = int (n - (attempt + 1)) + 1" using lt by simp
  then show ?case using IH unfolding step by (simp add: m2_def)
qed

lemma retried_bound: "retried cfg stream sleep i \<Longrightarrow> int i < sr_MaxRetries cfg"
  using ShouldRetry_bound by (auto simp: retried_def)

text \<open>C28.
  The retry loop always ends, and exactly where it should: it runs the stream function up to and
  including the first attempt that succeeds, fails in a way that is not retried, or whose backoff is
  interrupted; it returns the outcome of that attempt; and it makes at most one attempt more than the
  configured retries.\<close>

theorem retry_loop_exact:
  assumes "sr_Enabled cfg" "0 \<le> sr_MaxRetries cfg"
  shows "\<exists>n. (\<forall>i<n. retried cfg stream sleep i) \<and> \<not> retried cfg stream sleep n \<and> int n \<le> sr_MaxRetries cfg \<and>
     wm_TotalAttempts (fst (ExecuteWithMetrics cfg stream sleep)) = int n + 1 \<and>
     snd (ExecuteWithMetrics cfg stream sleep) =
       (case stream n of None \<Rightarrow> None | Some err \<Rightarrow> if ShouldRetry cfg (int n) err then sleep n else Some err)"
proof -
  define n where "n = (LEAST i. \<not> retried cfg stream sleep i)"
  have ex: "\<not> retried cfg stream sleep (nat (sr_MaxRetries cfg))" using retried_bound [of cfg stream sleep "nat (sr_MaxRetries cfg)"] assms(2) by auto
  then have n: "\<not> retried cfg stream sleep n" "\<forall>i<n. retried cfg stream sleep i" "n \<le> nat (sr_MaxRetries cfg)"
    unfolding n_def using LeastI [of "\<lambda>i. \<not> retried cfg stream sleep i", OF ex] Least_le [of "\<lambda>i. \<not> retried cfg stream sleep i", OF ex]
      not_less_Least [of _ "\<lambda>i. \<not> retried cfg stream sleep i"] by blast+
  then show ?thesis using retryLoop_exact [of 0 n cfg stream sleep newMetrics] assms
    by (intro exI [of _ n]) (simp add: ExecuteWithMetrics_def newMetrics_def)
qed

theorem retry_loop_exact_witness:
  "\<exists>n. int n \<le> 3 \<and> wm_TotalAttempts (fst (ExecuteWithMetrics DefaultConfig (\<lambda>i. Some IoEOF) (\<lambda>i. None))) = int n + 1"
  using retry_loop_exact [of DefaultConfig "\<lambda>i. Some IoEOF" "\<lambda>i. None"] by (auto simp: DefaultConfig_def)

section \<open>What the HTTP wrapper does with it\<close>

lemma recCall_committed: "(er_err r \<noteq> None \<longrightarrow> er_committed r) \<Longrightarrow> er_err (recCall c r) \<noteq> None \<longrightarrow> er_committed (recCall c r)"
  by (cases c) (auto simp: rec_WriteHeader_def rec_Write_def Let_def split: option.splits)

lemma runHandler_committed: "er_err (runHandler calls) \<noteq> None \<Longrightarrow> er_committed (runHandler calls)"
proof -
  have "(er_err r \<noteq> None \<longrightarrow> er_committed r) \<Longrightarrow> er_err (fold recCall calls r) \<noteq> None \<longrightarrow> er_committed (fold recCall calls r)" for r
    by (induction calls arbitrary: r) (simp, metis fold_simps(2) recCall_committed)
  from this [of "\<lparr>er_err = None, er_committed = False\<rparr>"] show "er_err (runHandler calls) \<noteq> None \<Longrightarrow> er_committed (runHandler calls)"
    by (simp add: runHandler_def)
qed

lemma streamResult_blocked: "streamResult (runHandler calls) = Some err \<Longrightarrow> \<exists>e. err = RetryBlocked e"
  using runHandler_committed [of calls] by (auto simp: streamResult_def split: option.splits if_splits)

text \<open>A wrapped handler is never retried: whatever it writes, status codes 429 and 5xx before any body
  byte included, and whatever the configuration, the wrapper runs it exactly once. The recorder marks
  every status as committed, so each recorded error is a blocked one.\<close>

theorem wrapped_handler_runs_once:
  "wm_TotalAttempts (fst (ExecuteStreamWithMetrics cfg owner body handler sleep)) = 1"
proof -
  have "\<not> ShouldRetry cfg a err" if "streamResult (runHandler calls) = Some err" for a err calls
    using streamResult_blocked [OF that] by (auto simp: ShouldRetry_def)
  then have "wm_TotalAttempts (fst (retryLoop cfg (\<lambda>i. streamResult (runHandler (handler i))) sleep 0 newMetrics)) = 1"
    by (subst retryLoop.simps) (auto simp: Let_def newMetrics_def split: option.splits)
  then show ?thesis
    by (auto simp: ExecuteStreamWithMetrics_def ExecuteWithMetrics_def executeOnce_def newMetrics_def Let_def split: option.splits)
qed

text \<open>The same statuses reported by a plain stream function are retriable.\<close>

lemma http_retriable: "IsRetriable (Some (HTTPError sc (PlainError s) ra)) \<longleftrightarrow> sc \<in> {408, 425, 429} \<or> (500 \<le> sc \<and> sc \<le> 599)"
  by (auto simp: IsRetriable_def ClassifyError_def classifyHTTPError_def errIs_def)

text \<open>The branch for refused and reset connections is not reached: these errors are \<open>net.Error\<close>s
  and are classified before.\<close>

lemma conn_reason_unreachable: "snd (ClassifyError e) \<noteq> ConnRefusedOrReset"
proof -
  have some: "x \<in> set xs \<Longrightarrow> f x \<noteq> None \<Longrightarrow> firstSome f xs \<noteq> None" for f :: "goError \<Rightarrow> bool option" and x xs
    by (induction xs) (auto split: option.splits)
  then have none: "firstSome netErrorTimeout (errChain err) = None \<Longrightarrow> \<not> errIs err ErrnoConnRefused \<and> \<not> errIs err ErrnoConnReset" for err
    using some [of ErrnoConnRefused "errChain err" netErrorTimeout] some [of ErrnoConnReset "errChain err" netErrorTimeout]
    by (auto simp: errIs_def)
  have "snd (classifyHTTPError sc) \<noteq> ConnRefusedOrReset" for sc by (simp add: classifyHTTPError_def)
  then show ?thesis by (auto simp: ClassifyError_def none split: option.splits)
qed

section \<open>Backoff\<close>

lemma int64_small: "- (2 ^ 63) \<le> n \<Longrightarrow> n < 2 ^ 63 \<Longrightarrow> int64 n = n"
  by (simp add: int64_def)

lemma truncReal_bounds:
  fixes d :: int
  assumes "0 \<le> d" "0 \<le> rnd" "rnd < 1"
  shows "- real_of_int d / 5 \<le> real_of_int (truncReal (real_of_int d * 0.2 * (2 * rnd - 1)))"
    and "real_of_int (truncReal (real_of_int d * 0.2 * (2 * rnd - 1))) \<le> real_of_int d / 5"
proof -
  let ?x = "real_of_int d * 0.2 * (2 * rnd - 1)"
  have "\<bar>2 * rnd - 1\<bar> \<le> 1" using assms(2,3) by auto
  then have "real_of_int d * \<bar>2 * rnd - 1\<bar> \<le> real_of_int d * 1" using assms(1) by (intro mult_left_mono) auto
  then have x: "\<bar>?x\<bar> \<le> real_of_int d / 5" using assms(1) by (simp add: abs_mult)
  have "\<bar>real_of_int (truncReal ?x)\<bar> \<le> \<bar>?x\<bar>" unfolding truncReal_def by (auto simp: ceiling_def) linarith+
  then show "- real_of_int d / 5 \<le> real_of_int (truncReal ?x)" "real_of_int (truncReal ?x) \<le> real_of_int d / 5" using x by linarith+
qed

definition cappedDelay :: "nat \<Rightarrow> int \<Rightarrow> int \<Rightarrow> int" where
  "cappedDelay attempt base maxd = min (base * 2 ^ min attempt 30) maxd"

text \<open>The backoff before attempt \<open>n + 1\<close> is the base doubled \<open>n\<close> times, at most thirty
  times and at most the maximum, plus or minus a fifth: it is never negative and never more than one
  fifth above the maximum.\<close>

theorem retry_delay_bounds:
  assumes "0 < base" "base < 2 ^ 33" "0 < maxd" "0 \<le> rnd" "rnd < 1"
  shows "4 * cappedDelay attempt base maxd \<le> 5 * CalculateRetryDelay attempt base maxd rnd \<and>
         5 * CalculateRetryDelay attempt base maxd rnd \<le> 6 * cappedDelay attempt base maxd \<and>
         0 \<le> CalculateRetryDelay attempt base maxd rnd"
proof -
  define d where "d = cappedDelay attempt base maxd"
  have "(2 :: int) ^ min attempt 30 \<le> 2 ^ 30" by (intro power_increasing) auto
  then have "base * 2 ^ min attempt 30 \<le> base * 2 ^ 30" using assms(1) by (intro mult_left_mono) auto
  also have "\<dots> < 2 ^ 63" using assms(2) by simp
  finally have wrap: "int64 (base * 2 ^ min attempt 30) = base * 2 ^ min attempt 30"
    using assms(1) by (intro int64_small) (auto intro: order_trans [of _ 0])
  have d0: "0 \<le> d" using assms by (auto simp: d_def cappedDelay_def)
  let ?t = "truncReal (real_of_int d * 0.2 * (2 * rnd - 1))"
  have t: "- real_of_int d \<le> 5 * real_of_int ?t" "5 * real_of_int ?t \<le> real_of_int d"
    using truncReal_bounds [OF d0 assms(4,5)] by linarith+
  then have t': "- d \<le> 5 * ?t" "5 * ?t \<le> d" by linarith+
  have "CalculateRetryDelay attempt base maxd rnd = (if d + ?t < 0 then base else d + ?t)"
    using assms(1,3) wrap by (simp add: CalculateRetryDelay_def Let_def d_def cappedDelay_def min_def)
  moreover have "\<not> d + ?t < 0" using t' d0 by linarith
  ultimately show ?thesis using t' d0 unfolding d_def [symmetric] by auto
qed

theorem retry_delay_bounds_witness:
  "4 * 5000 \<le> 5 * CalculateRetryDelay 7 200 5000 (1/2) \<and> 5 * CalculateRetryDelay 7 200 5000 (1/2) \<le> 6 * 5000"
  using retry_delay_bounds [of 200 5000 "1/2" 7] by (simp add: cappedDelay_def)

end
