(* ===== verification/StreamFrames.thy ===== *)
theory StreamFrames
  imports GoText
begin

text \<open>
  The frames of the client-facing event streams: their classification
  (\<open>domains/streaming/stream_frame_classifier.go\<close>), the assembly of frames from written bytes
  (\<open>gate_writer.go\<close>: \<open>frameBoundary\<close> and the loop of \<open>Write\<close>), the payload checks of
  \<open>sse_frame_validator.go\<close> and the normalised semantic bytes of a frame
  (\<open>l2SemanticObservation\<close> of \<open>attempt_commit_gate.go\<close>). Bytes are characters. The decoder of
  \<open>encoding/json\<close> is an argument: a record of the views that the classifier decodes.
\<close>

section \<open>Lines and white space\<close>

abbreviation NL :: char where "NL \<equiv> CHR 0x0A"
abbreviation CR :: char where "CR \<equiv> CHR 0x0D"

text \<open>The UTF-8 encodings of the code points for which \<open>unicode.IsSpace\<close> holds.\<close>

definition spaceSeqs :: "string list" where
  "spaceSeqs = [[CHR 0x09], [CHR 0x0A], [CHR 0x0B], [CHR 0x0C], [CHR 0x0D], [CHR 0x20],
     [CHR 0xC2, CHR 0x85], [CHR 0xC2, CHR 0xA0], [CHR 0xE1, CHR 0x9A, CHR 0x80]] @
     map (\<lambda>c. [CHR 0xE2, CHR 0x80, c])
       [CHR 0x80, CHR 0x81, CHR 0x82, CHR 0x83, CHR 0x84, CHR 0x85, CHR 0x86, CHR 0x87, CHR 0x88, CHR 0x89, CHR 0x8A,
        CHR 0xA8, CHR 0xA9, CHR 0xAF] @
     [[CHR 0xE2, CHR 0x81, CHR 0x9F], [CHR 0xE3, CHR 0x80, CHR 0x80]]"

function trimSeqs :: "string list \<Rightarrow> string \<Rightarrow> string" where
  "trimSeqs qs s = (case find (\<lambda>q. q \<noteq> [] \<and> take (length q) s = q) qs of
     None \<Rightarrow> s
   | Some q \<Rightarrow> trimSeqs qs (drop (length q) s))"
  by pat_completeness auto
termination
proof (relation "measure (length \<circ> snd)")
  fix qs s q
  assume "find (\<lambda>q. q \<noteq> [] \<and> take (length q) s = q) qs = Some q"
  then have "q \<noteq> []" "take (length q) s = q" by (auto simp: find_Some_iff)
  then show "((qs, drop (length q) s), qs, s) \<in> measure (length \<circ> snd)" by (cases s) auto
qed simp

declare trimSeqs.simps [simp del]

definition TrimSpace :: "string \<Rightarrow> string" where
  "TrimSpace s = rev (trimSeqs (map rev spaceSeqs) (rev (trimSeqs spaceSeqs s)))"

definition trimRightCR :: "string \<Rightarrow> string" where
  "trimRightCR s = rev (dropWhile (\<lambda>c. c = CR) (rev s))"

definition sseLines :: "string \<Rightarrow> string list" where
  "sseLines frame = map trimRightCR (strSplit NL frame)"

section \<open>Frame classes\<close>

datatype clientProtocol = ProtocolOpenAIChat | ProtocolOpenAIResponses | ProtocolAnthropic

datatype frameClass = FrameClassUnknown | FrameClassKeepalive | FrameClassConnectionMetadata
  | FrameClassAttemptMetadata | FrameClassContent | FrameClassToolCall | FrameClassTerminal | FrameClassError

record chatDelta =
  cd_Content :: string
  cd_Reasoning :: string
  cd_ToolCalls :: string
  cd_Audio :: string
  cd_FunctionCall :: string

record chatPayload =
  cp_Error :: bool
  cp_Choices :: "chatDelta list"
  cp_Usage :: string

text \<open>What \<open>json.Unmarshal\<close> answers for the structures the code decodes: \<open>None\<close> is an error. Raw
  messages are their bytes, empty when the field is absent.\<close>

record jsonDec =
  jd_chat :: "string \<Rightarrow> chatPayload option"
  jd_string :: "string \<Rightarrow> string option"
  jd_itemType :: "string \<Rightarrow> string option"
  jd_blockType :: "string \<Rightarrow> string option"
  jd_deltaType :: "string \<Rightarrow> string option"
  jd_valid :: "string \<Rightarrow> bool"

definition firstSSELine :: "string \<Rightarrow> string" where
  "firstSSELine frame = (case find (\<lambda>l. l \<noteq> []) (strSplit NL frame) of None \<Rightarrow> [] | Some l \<Rightarrow> l)"

definition sseField :: "string \<Rightarrow> string \<Rightarrow> string option" where
  "sseField name frame = map_option (\<lambda>l. TrimSpace (drop (length name) l)) (find (\<lambda>l. hasPrefix l name) (sseLines frame))"

definition sseDataPayload :: "string \<Rightarrow> string option" where
  "sseDataPayload frame = sseField ''data:'' frame"

definition sseEventName :: "string \<Rightarrow> string option" where
  "sseEventName frame = sseField ''event:'' frame"

definition classifyCommonSSEFrame :: "string \<Rightarrow> frameClass option" where
  "classifyCommonSSEFrame frame =
     (if \<not> hasPrefix (firstSSELine frame) '':'' then None
      else if \<exists>l \<in> set (sseLines frame). hasPrefix l ''data:'' \<or> hasPrefix l ''event:'' then None
      else Some FrameClassKeepalive)"

definition nonEmptyJSONString :: "jsonDec \<Rightarrow> string \<Rightarrow> bool" where
  "nonEmptyJSONString dec raw =
     (if raw = [] \<or> raw = ''null'' then False
      else case jd_string dec raw of None \<Rightarrow> True | Some s \<Rightarrow> s \<noteq> [])"

definition classifyChatDataPayload :: "jsonDec \<Rightarrow> string \<Rightarrow> frameClass" where
  "classifyChatDataPayload dec payload =
     (case jd_chat dec payload of
        None \<Rightarrow> FrameClassUnknown
      | Some f \<Rightarrow>
          if cp_Error f then FrameClassError
          else case cp_Choices f of
            [] \<Rightarrow> if cp_Usage f \<noteq> [] then FrameClassTerminal else FrameClassUnknown
          | d # _ \<Rightarrow>
              let hasToolCalls = cd_ToolCalls d \<noteq> [] \<and> cd_ToolCalls d \<noteq> ''null'' \<and> cd_ToolCalls d \<noteq> ''[]''
              in if hasToolCalls \<or> cd_Audio d \<noteq> [] \<or> cd_FunctionCall d \<noteq> [] then FrameClassToolCall
                 else if nonEmptyJSONString dec (cd_Content d) \<or> nonEmptyJSONString dec (cd_Reasoning d) then FrameClassContent
                 else FrameClassAttemptMetadata)"

definition classifyChatFrame :: "jsonDec \<Rightarrow> string \<Rightarrow> frameClass" where
  "classifyChatFrame dec frame =
     (case classifyCommonSSEFrame frame of
        Some c \<Rightarrow> c
      | None \<Rightarrow> (case sseDataPayload frame of
          None \<Rightarrow> FrameClassUnknown
        | Some payload \<Rightarrow> if payload = ''[DONE]'' then FrameClassTerminal else classifyChatDataPayload dec payload))"

definition classifyResponsesItemAdded :: "jsonDec \<Rightarrow> string \<Rightarrow> frameClass" where
  "classifyResponsesItemAdded dec frame =
     (case Option.bind (sseDataPayload frame) (jd_itemType dec) of
        None \<Rightarrow> FrameClassUnknown
      | Some t \<Rightarrow> if t \<in> {''function_call'', ''custom_tool_call'', ''local_shell_call''} then FrameClassToolCall
                  else FrameClassAttemptMetadata)"

definition classifyResponsesFrame :: "jsonDec \<Rightarrow> string \<Rightarrow> frameClass" where
  "classifyResponsesFrame dec frame =
     (case classifyCommonSSEFrame frame of
        Some c \<Rightarrow> c
      | None \<Rightarrow> (case sseEventName frame of
          None \<Rightarrow> FrameClassUnknown
        | Some name \<Rightarrow>
            if name \<in> {''response.output_text.delta'', ''response.reasoning_text.delta'',
                ''response.reasoning_summary_text.delta'', ''response.refusal.delta'',
                ''response.audio.delta'', ''response.audio_transcript.delta''} then FrameClassContent
            else if name = ''response.function_call_arguments.delta'' then FrameClassToolCall
            else if name \<in> {''response.created'', ''response.in_progress'', ''response.content_part.added'',
                ''response.output_text.annotation.added'', ''response.reasoning_summary_part.added'',
                ''response.reasoning_summary_part.done'', ''response.reasoning_item.added''} then FrameClassAttemptMetadata
            else if name = ''response.output_item.added'' then classifyResponsesItemAdded dec frame
            else if name \<in> {''response.output_text.done'', ''response.reasoning_text.done'',
                ''response.reasoning_summary_text.done'', ''response.refusal.done'', ''response.audio.done'',
                ''response.audio_transcript.done'', ''response.function_call_arguments.done'',
                ''response.output_item.done'', ''response.content_part.done'', ''response.reasoning_item.done'',
                ''response.completed'', ''response.incomplete'', ''response.failed''} then FrameClassTerminal
            else if name = ''error'' then FrameClassError
            else FrameClassUnknown))"

definition classifyAnthropicContentBlockStart :: "jsonDec \<Rightarrow> string \<Rightarrow> frameClass" where
  "classifyAnthropicContentBlockStart dec frame =
     (case Option.bind (sseDataPayload frame) (jd_blockType dec) of
        None \<Rightarrow> FrameClassUnknown
      | Some t \<Rightarrow> if t \<in> {''text'', ''thinking''} then FrameClassAttemptMetadata
                  else if t \<in> {''tool_use'', ''server_tool_use'', ''web_search_tool_result''} then FrameClassToolCall
                  else FrameClassUnknown)"

definition classifyAnthropicContentBlockDelta :: "jsonDec \<Rightarrow> string \<Rightarrow> frameClass" where
  "classifyAnthropicContentBlockDelta dec frame =
     (case Option.bind (sseDataPayload frame) (jd_deltaType dec) of
        None \<Rightarrow> FrameClassUnknown
      | Some t \<Rightarrow> if t \<in> {''text_delta'', ''thinking_delta''} then FrameClassContent
                  else if t \<in> {''input_json_delta'', ''signature_delta''} then FrameClassToolCall
                  else FrameClassUnknown)"

definition classifyAnthropicFrame :: "jsonDec \<Rightarrow> string \<Rightarrow> frameClass" where
  "classifyAnthropicFrame dec frame =
     (case classifyCommonSSEFrame frame of
        Some c \<Rightarrow> c
      | None \<Rightarrow> (case sseEventName frame of
          None \<Rightarrow> FrameClassUnknown
        | Some name \<Rightarrow>
            if name = ''ping'' then FrameClassKeepalive
            else if name \<in> {''message_start'', ''content_block_stop''} then FrameClassAttemptMetadata
            else if name = ''content_block_start'' then classifyAnthropicContentBlockStart dec frame
            else if name = ''content_block_delta'' then classifyAnthropicContentBlockDelta dec frame
            else if name \<in> {''message_delta'', ''message_stop''} then FrameClassTerminal
            else if name = ''error'' then FrameClassError
            else FrameClassUnknown))"

fun ClassifyClientFrame :: "jsonDec \<Rightarrow> clientProtocol \<Rightarrow> string \<Rightarrow> frameClass" where
  "ClassifyClientFrame dec ProtocolOpenAIChat frame = classifyChatFrame dec frame"
| "ClassifyClientFrame dec ProtocolOpenAIResponses frame = classifyResponsesFrame dec frame"
| "ClassifyClientFrame dec ProtocolAnthropic frame = classifyAnthropicFrame dec frame"

definition isSemanticClass :: "frameClass \<Rightarrow> bool" where
  "isSemanticClass class \<longleftrightarrow> class \<in> {FrameClassContent, FrameClassToolCall, FrameClassTerminal, FrameClassUnknown}"

text \<open>The normalised semantic bytes of one frame.\<close>

definition l2SemanticObservation :: "frameClass \<Rightarrow> string \<Rightarrow> string" where
  "l2SemanticObservation class frame =
     (if \<not> isSemanticClass class then []
      else concat (map (\<lambda>l. if hasPrefix l ''data:'' then TrimSpace (drop 5 l) @ [NL] else []) (sseLines frame)))"

definition extractPayload :: "string \<Rightarrow> string" where
  "extractPayload line = (if hasPrefix line ''data:'' then TrimSpace (drop 5 line) else [])"

definition validateSSEDataFrame :: "jsonDec \<Rightarrow> string \<Rightarrow> bool" where
  "validateSSEDataFrame dec line =
     (let payload = extractPayload line
      in if payload = [] \<or> payload = ''[DONE]'' then True else jd_valid dec payload)"

definition isRecoverableInvalidFrame :: "jsonDec \<Rightarrow> string \<Rightarrow> bool" where
  "isRecoverableInvalidFrame dec line =
     (let payload = extractPayload line
      in if payload = [] \<or> payload = ''[DONE]'' then False
         else if length (TrimSpace payload) \<le> 2 then True
         else \<not> jd_valid dec payload)"

section \<open>Frame assembly\<close>

fun frameBoundary :: "string \<Rightarrow> nat option" where
  "frameBoundary (a # b # cs) =
     (if a = NL \<and> b = NL then Some 2
      else if a = NL \<and> b = CR \<and> take 1 cs = [NL] then Some 3
      else map_option Suc (frameBoundary (b # cs)))"
| "frameBoundary _ = None"

lemma frameBoundary_bounds: "frameBoundary s = Some n \<Longrightarrow> 2 \<le> n \<and> n \<le> length s"
proof (induction s arbitrary: n rule: frameBoundary.induct)
  case (1 a b cs)
  show ?case
  proof (cases "a = NL \<and> (b = NL \<or> b = CR \<and> take 1 cs = [NL])")
    case True
    then show ?thesis using 1(2) by (cases cs) (auto split: if_splits)
  next
    case False
    then show ?thesis using 1 by auto
  qed
qed simp_all

function cutFrames :: "string \<Rightarrow> string list \<times> string" where
  "cutFrames buf = (case frameBoundary buf of
     None \<Rightarrow> ([], buf)
   | Some n \<Rightarrow> (case cutFrames (drop n buf) of (fs, rest) \<Rightarrow> (take n buf # fs, rest)))"
  by pat_completeness auto
termination
  by (relation "measure length") (auto dest: frameBoundary_bounds)

declare cutFrames.simps [simp del]

text \<open>A boundary found in the bytes so far is the first one whatever bytes follow.\<close>

lemma frameBoundary_append: "frameBoundary s = Some n \<Longrightarrow> frameBoundary (s @ t) = Some n"
proof (induction s arbitrary: n rule: frameBoundary.induct)
  case (1 a b cs)
  show ?case
  proof (cases "a = NL \<and> (b = NL \<or> b = CR \<and> take 1 cs = [NL])")
    case True
    then show ?thesis using 1(2) by (cases cs) (auto split: if_splits)
  next
    case False
    then obtain m where m: "frameBoundary (b # cs) = Some m" "n = Suc m" using 1(2) by auto
    then obtain c ds where "cs = c # ds" using frameBoundary_bounds [OF m(1)] by (cases cs) auto
    then show ?thesis using False 1(1) [OF _ _ m(1)] m by auto
  qed
qed simp_all

lemma cutFrames_None: "frameBoundary s = None \<Longrightarrow> cutFrames s = ([], s)"
  by (simp add: cutFrames.simps [of s])

lemma cutFrames_Some:
  "frameBoundary s = Some n \<Longrightarrow> cutFrames s = (take n s # fst (cutFrames (drop n s)), snd (cutFrames (drop n s)))"
  by (simp add: cutFrames.simps [of s] case_prod_beta)

lemma cutFrames_append:
  "cutFrames (s @ t) = (fst (cutFrames s) @ fst (cutFrames (snd (cutFrames s) @ t)), snd (cutFrames (snd (cutFrames s) @ t)))"
proof (induction s rule: cutFrames.induct)
  case (1 s)
  show ?case
  proof (cases "frameBoundary s")
    case None
    then show ?thesis by (simp add: cutFrames_None)
  next
    case (Some n)
    then have "n \<le> length s" using frameBoundary_bounds by blast
    then show ?thesis using 1 [OF Some] cutFrames_Some [OF Some] cutFrames_Some [OF frameBoundary_append [OF Some, of t]] by simp
  qed
qed

lemma cutFrames_concat: "concat (fst (cutFrames s)) @ snd (cutFrames s) = s"
proof (induction s rule: cutFrames.induct)
  case (1 s)
  show ?case
  proof (cases "frameBoundary s")
    case (Some n)
    then show ?thesis using 1 [OF Some] by (simp add: cutFrames_Some)
  qed (simp add: cutFrames_None)
qed

lemma cutFrames_rest: "frameBoundary (snd (cutFrames s)) = None"
proof (induction s rule: cutFrames.induct)
  case (1 s)
  show ?case
  proof (cases "frameBoundary s")
    case (Some n)
    then show ?thesis using 1 [OF Some] by (simp add: cutFrames_Some)
  qed (simp add: cutFrames_None)
qed

end
