(* ===== verification/StreamRecovery.thy ===== *)
theory StreamRecovery
  imports ErrorKinds GoText
begin

text \<open>
  Recovery of an interrupted stream (\<open>domains/streaming/stream_recovery.go\<close> and
  \<open>stream_recovery_config.go\<close>): the configuration with its environment switches, the ladder
  \<open>NextRecoveryAction\<close>, the L1 window tracker, the cache of committed prefixes and the aligner that
  compares a replay with what the client already has. The text of an error, whether it wraps the
  cancellation or the unexpected end of file, and its kind by \<open>errorsx.ClassifyError\<close> are the
  record \<open>streamErr\<close>. Log lines and counters are left out.
\<close>

section \<open>Configuration\<close>

definition DefaultStreamRecoveryMaxAttempts :: int where "DefaultStreamRecoveryMaxAttempts = 3"
definition DefaultSameNodeStreamRetries :: int where "DefaultSameNodeStreamRetries = 2"
definition DefaultHoldbackWindowMS :: int where "DefaultHoldbackWindowMS = 5000"
definition DefaultHoldbackMaxChunks :: int where "DefaultHoldbackMaxChunks = 20"
definition DefaultAlignmentThresholdBP :: nat where "DefaultAlignmentThresholdBP = 9000"
definition DefaultCommittedPrefixWindowBytes :: int where "DefaultCommittedPrefixWindowBytes = 64 * 1024"
definition DefaultCommittedPrefixCacheCapacity :: int where "DefaultCommittedPrefixCacheCapacity = 1024"

record streamRecoveryConfig =
  rc_MaxRecoveryAttempts :: int
  rc_SameNodeStreamRetries :: int
  rc_HoldbackWindowMS :: int
  rc_HoldbackMaxChunks :: int
  rc_AlignmentThresholdBP :: nat
  rc_CommittedPrefixWindowBytes :: int
  rc_CommittedPrefixCacheCapacity :: int
  rc_ContinuationEnabled :: bool
  rc_ContinuationTaskTypes :: "string list"
  rc_ContinuationModels :: "string list"
  rc_AllowVisibleRestart :: bool
  rc_ClientStreamUndo :: bool

definition rc_withDefaults :: "streamRecoveryConfig \<Rightarrow> streamRecoveryConfig" where
  "rc_withDefaults c = c\<lparr>
     rc_MaxRecoveryAttempts := (if rc_MaxRecoveryAttempts c \<le> 0 then DefaultStreamRecoveryMaxAttempts else rc_MaxRecoveryAttempts c),
     rc_SameNodeStreamRetries := (if rc_SameNodeStreamRetries c \<le> 0 then DefaultSameNodeStreamRetries else rc_SameNodeStreamRetries c),
     rc_HoldbackWindowMS := (if rc_HoldbackWindowMS c \<le> 0 then DefaultHoldbackWindowMS else rc_HoldbackWindowMS c),
     rc_HoldbackMaxChunks := (if rc_HoldbackMaxChunks c \<le> 0 then DefaultHoldbackMaxChunks else rc_HoldbackMaxChunks c),
     rc_AlignmentThresholdBP := (if rc_AlignmentThresholdBP c = 0 then DefaultAlignmentThresholdBP else rc_AlignmentThresholdBP c),
     rc_CommittedPrefixWindowBytes := (if rc_CommittedPrefixWindowBytes c \<le> 0 then DefaultCommittedPrefixWindowBytes else rc_CommittedPrefixWindowBytes c),
     rc_CommittedPrefixCacheCapacity := (if rc_CommittedPrefixCacheCapacity c \<le> 0 then DefaultCommittedPrefixCacheCapacity else rc_CommittedPrefixCacheCapacity c)\<rparr>"

definition DefaultStreamRecoveryConfig :: streamRecoveryConfig where
  "DefaultStreamRecoveryConfig = rc_withDefaults \<lparr>rc_MaxRecoveryAttempts = 0, rc_SameNodeStreamRetries = 0, rc_HoldbackWindowMS = 0,
     rc_HoldbackMaxChunks = 0, rc_AlignmentThresholdBP = 0, rc_CommittedPrefixWindowBytes = 0, rc_CommittedPrefixCacheCapacity = 0,
     rc_ContinuationEnabled = False, rc_ContinuationTaskTypes = [], rc_ContinuationModels = [], rc_AllowVisibleRestart = False,
     rc_ClientStreamUndo = False\<rparr>"

text \<open>The environment: \<open>os.Getenv\<close> gives the empty string for an unset variable.\<close>

type_synonym environment = "string \<Rightarrow> string option"

definition Getenv :: "environment \<Rightarrow> string \<Rightarrow> string" where
  "Getenv env key = (case env key of None \<Rightarrow> [] | Some v \<Rightarrow> v)"

definition envInt64 :: "environment \<Rightarrow> string \<Rightarrow> int \<Rightarrow> int" where
  "envInt64 env key d = (if Getenv env key = [] then d else case Atoi (Getenv env key) of None \<Rightarrow> d | Some n \<Rightarrow> n)"

definition maxRecoveryHoldbackWindowMS :: int where
  "maxRecoveryHoldbackWindowMS = maxInt div go_millisecond"

definition holdbackChunks :: "environment \<Rightarrow> string \<Rightarrow> int" where
  "holdbackChunks env key = (let n = envInt64 env key DefaultHoldbackMaxChunks in if n \<le> 0 then DefaultHoldbackMaxChunks else n)"

definition RecoveryHoldbackFromEnv :: "environment \<Rightarrow> duration \<times> int" where
  "RecoveryHoldbackFromEnv env =
     (if Getenv env ''LLM_GATEWAY_RECOVERY_HOLDBACK_WINDOW_MS'' = [] then (0, 0)
      else let windowMS = envInt64 env ''LLM_GATEWAY_RECOVERY_HOLDBACK_WINDOW_MS'' 0
           in if windowMS \<le> 0 \<or> maxRecoveryHoldbackWindowMS < windowMS then (0, 0)
              else (windowMS * go_millisecond, holdbackChunks env ''LLM_GATEWAY_RECOVERY_HOLDBACK_MAX_CHUNKS''))"

definition toEnvKey :: "string \<Rightarrow> string" where
  "toEnvKey model = map (\<lambda>c. if c = CHR ''-'' \<or> c = CHR ''.'' then CHR ''_''
     else let n = (of_char c :: nat) in if 97 \<le> n \<and> n \<le> 122 then char_of (n - 32) else c) model"

definition isUnstableModel :: "string \<Rightarrow> bool" where
  "isUnstableModel model =
     (let m = last (strSplit (CHR ''/'') (map asciiLower (trimSpace model)))
      in m = ''glm-5.2'' \<or> hasPrefix m ''glm-5.2-'' \<or> m = ''minimax-m3'' \<or> hasPrefix m ''minimax-m3-'' \<or> m = ''minimax-text-01'')"

definition RecoveryHoldbackForModel :: "environment \<Rightarrow> string \<Rightarrow> duration \<times> int" where
  "RecoveryHoldbackForModel env model =
     (let key = ''LLM_GATEWAY_RECOVERY_HOLDBACK_WINDOW_MS_'' @ toEnvKey model; windowMS = envInt64 env key 0
      in if Getenv env key \<noteq> [] \<and> 0 < windowMS \<and> windowMS \<le> maxRecoveryHoldbackWindowMS
         then (windowMS * go_millisecond, holdbackChunks env (''LLM_GATEWAY_RECOVERY_HOLDBACK_MAX_CHUNKS_'' @ toEnvKey model))
         else if isUnstableModel model then (10 * go_second, 50)
         else RecoveryHoldbackFromEnv env)"

datatype recoveryL2Mode = RecoveryL2ModeOff | RecoveryL2ModeShadow | RecoveryL2ModeEnforce

definition RecoveryL2EnabledFromEnv :: "environment \<Rightarrow> bool" where
  "RecoveryL2EnabledFromEnv env \<longleftrightarrow>
     map asciiLower (trimSpace (Getenv env ''LLM_GATEWAY_RECOVERY_L2_ENABLED'')) \<in> {''1'', ''true'', ''yes'', ''on''}"

definition RecoveryL2ModeFromEnv :: "environment \<Rightarrow> recoveryL2Mode" where
  "RecoveryL2ModeFromEnv env =
     (case env ''LLM_GATEWAY_RECOVERY_L2_MODE'' of
        Some raw \<Rightarrow> let m = map asciiLower (trimSpace raw)
          in if m = ''shadow'' then RecoveryL2ModeShadow else if m = ''enforce'' then RecoveryL2ModeEnforce else RecoveryL2ModeOff
      | None \<Rightarrow> if RecoveryL2EnabledFromEnv env then RecoveryL2ModeEnforce else RecoveryL2ModeOff)"

section \<open>Interruptions and the ladder\<close>

datatype streamInterruptClass = InterruptConnectionReset | InterruptUnexpectedEOF | InterruptEOFWithoutDone
  | InterruptStreamTimeout | InterruptChunkTimeout | InterruptSlowDripDead | InterruptUpstreamClose

record streamErr =
  se_canceled :: bool
  se_unexpectedEOF :: bool
  se_msg :: string
  se_kind :: errorKind

definition ClassifyStreamError :: "streamErr option \<Rightarrow> streamInterruptClass option" where
  "ClassifyStreamError err = (case err of
     None \<Rightarrow> None
   | Some e \<Rightarrow>
       if se_canceled e then None
       else let msg = map asciiLower (se_msg e); has = strContains msg
       in if has ''slow_drip'' then Some InterruptSlowDripDead
          else if has ''eof_without_done'' \<or> has ''eof without'' \<or> has ''stream closed before'' then Some InterruptEOFWithoutDone
          else if se_unexpectedEOF e \<or> has ''unexpected eof'' then Some InterruptUnexpectedEOF
          else if has ''connection reset'' \<or> has ''broken pipe'' \<or> has ''connection refused'' \<or> has ''connection aborted''
            then Some InterruptConnectionReset
          else if has ''stream_chunk_timeout'' \<or> has ''chunk_timeout'' then Some InterruptChunkTimeout
          else if has ''stream_timeout'' then Some InterruptStreamTimeout
          else if has ''upstream_close'' \<or> has ''upstream closed'' then Some InterruptUpstreamClose
          else case se_kind e of
              KindStreamTimeout \<Rightarrow> Some InterruptStreamTimeout
            | KindTimeout \<Rightarrow> Some InterruptStreamTimeout
            | KindNetwork \<Rightarrow> Some InterruptConnectionReset
            | KindUpstreamDown \<Rightarrow> Some InterruptUpstreamClose
            | _ \<Rightarrow> None)"

datatype recoveryMode = RecoveryModeNone | RecoveryModeSameNode | RecoveryModeDiscardReplay | RecoveryModeAligned
  | RecoveryModeContinuation | RecoveryModeRestart | RecoveryModeError

record streamRecoveryState =
  rs_RecoveryNo :: nat
  rs_SameNodeRetries :: nat
  rs_CommittedChunks :: nat
  rs_CommittedBytes :: nat
  rs_HoldbackChunks :: nat
  rs_HoldbackDeadlineMS :: int
  rs_AlignmentScoreBP :: nat
  rs_RecoveryMode :: recoveryMode

datatype nodeSelectionPolicy = NodePolicyOriginal | NodePolicyOtherSameModel | NodePolicySameQualityModel

datatype recoveryActionKind = RecoveryActionRetrySameNode | RecoveryActionDiscardAndReplay | RecoveryActionAlignedContinuation
  | RecoveryActionContinuationPrompt | RecoveryActionVisibleRestart | RecoveryActionErrorEnvelope

record streamRecoveryAction =
  ra_Kind :: recoveryActionKind
  ra_Mode :: recoveryMode
  ra_NodeOrder :: "nodeSelectionPolicy list"
  ra_Interrupt :: "streamInterruptClass option"
  ra_VisibleRestart :: bool

definition fullReplayLadder :: "nodeSelectionPolicy list" where
  "fullReplayLadder = [NodePolicyOriginal, NodePolicyOtherSameModel, NodePolicySameQualityModel]"

definition l4Decision :: "streamRecoveryConfig \<Rightarrow> streamInterruptClass \<Rightarrow> streamRecoveryAction" where
  "l4Decision cfg class =
     (if rc_ClientStreamUndo cfg \<or> rc_AllowVisibleRestart cfg
      then \<lparr>ra_Kind = RecoveryActionVisibleRestart, ra_Mode = RecoveryModeRestart,
            ra_NodeOrder = [NodePolicyOriginal, NodePolicyOtherSameModel, NodePolicySameQualityModel],
            ra_Interrupt = Some class, ra_VisibleRestart = True\<rparr>
      else \<lparr>ra_Kind = RecoveryActionErrorEnvelope, ra_Mode = RecoveryModeError, ra_NodeOrder = [],
            ra_Interrupt = Some class, ra_VisibleRestart = False\<rparr>)"

definition CrossCredentialUnlockAllowed :: "streamRecoveryState \<Rightarrow> streamRecoveryConfig \<Rightarrow> bool" where
  "CrossCredentialUnlockAllowed st cfg =
     (let c = rc_withDefaults cfg
      in (rs_CommittedChunks st = 0 \<and> (0 < rs_HoldbackChunks st \<or> 0 < rs_HoldbackDeadlineMS st))
         \<or> rc_AlignmentThresholdBP c \<le> rs_AlignmentScoreBP st
         \<or> rc_ClientStreamUndo cfg \<or> rc_AllowVisibleRestart cfg)"

definition NextRecoveryAction :: "streamRecoveryState option \<Rightarrow> streamRecoveryConfig \<Rightarrow> streamErr option \<Rightarrow> streamRecoveryAction" where
  "NextRecoveryAction state cfg err =
     (let c = rc_withDefaults cfg;
          envelope = (\<lambda>cl. \<lparr>ra_Kind = RecoveryActionErrorEnvelope, ra_Mode = RecoveryModeError, ra_NodeOrder = [],
                            ra_Interrupt = cl, ra_VisibleRestart = False\<rparr>)
      in case ClassifyStreamError err of
        None \<Rightarrow> envelope None
      | Some class \<Rightarrow> (case state of
          None \<Rightarrow> envelope (Some class)
        | Some st \<Rightarrow>
            if rc_MaxRecoveryAttempts c \<le> int (rs_RecoveryNo st) then l4Decision c class
            else if int (rs_SameNodeRetries st) < rc_SameNodeStreamRetries c
            then \<lparr>ra_Kind = RecoveryActionRetrySameNode, ra_Mode = RecoveryModeSameNode, ra_NodeOrder = [NodePolicyOriginal],
                  ra_Interrupt = Some class, ra_VisibleRestart = False\<rparr>
            else
              let unlocked = CrossCredentialUnlockAllowed st c;
                  ladder = (if 0 < rs_CommittedChunks st \<and> \<not> unlocked then [NodePolicyOriginal] else fullReplayLadder)
              in if rs_CommittedChunks st = 0
                 then \<lparr>ra_Kind = RecoveryActionDiscardAndReplay, ra_Mode = RecoveryModeDiscardReplay, ra_NodeOrder = ladder,
                       ra_Interrupt = Some class, ra_VisibleRestart = False\<rparr>
                 else if rs_RecoveryMode st = RecoveryModeAligned \<and> rs_AlignmentScoreBP st < rc_AlignmentThresholdBP c
                 then (if rc_ContinuationEnabled c
                       then \<lparr>ra_Kind = RecoveryActionContinuationPrompt, ra_Mode = RecoveryModeContinuation, ra_NodeOrder = ladder,
                             ra_Interrupt = Some class, ra_VisibleRestart = False\<rparr>
                       else l4Decision c class)
                 else \<lparr>ra_Kind = RecoveryActionAlignedContinuation, ra_Mode = RecoveryModeAligned, ra_NodeOrder = ladder,
                       ra_Interrupt = Some class, ra_VisibleRestart = False\<rparr>))"

definition ContinuationAllowed :: "streamRecoveryConfig \<Rightarrow> string \<Rightarrow> string \<Rightarrow> bool" where
  "ContinuationAllowed cfg taskType model =
     (if \<not> rc_ContinuationEnabled cfg then False
      else (taskType \<noteq> [] \<and> taskType \<in> set (rc_ContinuationTaskTypes cfg))
         \<or> (model \<noteq> [] \<and> model \<in> set (rc_ContinuationModels cfg)))"

section \<open>The L1 window\<close>

record holdbackTracker =
  ht_opened :: bool
  ht_openAt :: instant
  ht_chunks :: nat

definition ht_Open :: "instant \<Rightarrow> holdbackTracker \<Rightarrow> holdbackTracker" where
  "ht_Open now t = (if ht_opened t then t else t\<lparr>ht_opened := True, ht_openAt := now\<rparr>)"

definition ht_ShouldHold :: "instant \<Rightarrow> streamRecoveryConfig \<Rightarrow> holdbackTracker \<Rightarrow> bool" where
  "ht_ShouldHold now cfg t =
     (if \<not> ht_opened t then False
      else let c = rc_withDefaults cfg
           in if rc_HoldbackMaxChunks c \<le> int (ht_chunks t) then False
              else now - ht_openAt t < rc_HoldbackWindowMS c * go_millisecond)"

definition ht_RecordChunk :: "holdbackTracker \<Rightarrow> holdbackTracker" where
  "ht_RecordChunk t = t\<lparr>ht_chunks := (ht_chunks t + 1) mod 65536\<rparr>"

definition ht_Deadline :: "streamRecoveryConfig \<Rightarrow> holdbackTracker \<Rightarrow> instant option" where
  "ht_Deadline cfg t = (if \<not> ht_opened t then None
     else Some (ht_openAt t + rc_HoldbackWindowMS (rc_withDefaults cfg) * go_millisecond))"

definition ht_Stamp :: "streamRecoveryConfig \<Rightarrow> holdbackTracker \<Rightarrow> streamRecoveryState \<Rightarrow> streamRecoveryState" where
  "ht_Stamp cfg t st = (let st1 = st\<lparr>rs_HoldbackChunks := ht_chunks t\<rparr>
     in case ht_Deadline cfg t of None \<Rightarrow> st1 | Some d \<Rightarrow> st1\<lparr>rs_HoldbackDeadlineMS := d div go_millisecond\<rparr>)"

section \<open>Committed prefixes and alignment\<close>

unbundle bit_operations_syntax

definition fnv64aUpdate :: "64 word \<Rightarrow> string \<Rightarrow> 64 word" where
  "fnv64aUpdate h data = foldl (\<lambda>h b. (h XOR word_of_nat (of_char b)) * 1099511628211) h data"

definition fnv64a :: "string \<Rightarrow> 64 word" where
  "fnv64a data = fnv64aUpdate 14695981039346656037 data"

record committedPrefix =
  px_Hash :: "64 word"
  px_TotalBytes :: nat
  px_Head :: string

record committedPrefixCache =
  pc_capacity :: int
  pc_windowBytes :: int
  pc_entries :: "(string \<times> committedPrefix) list"
  pc_dropped :: nat

definition NewCommittedPrefixCache :: "int \<Rightarrow> int \<Rightarrow> committedPrefixCache" where
  "NewCommittedPrefixCache capacity windowBytes =
     \<lparr>pc_capacity = (if capacity \<le> 0 then rc_CommittedPrefixCacheCapacity DefaultStreamRecoveryConfig else capacity),
      pc_windowBytes = (if windowBytes \<le> 0 then rc_CommittedPrefixWindowBytes DefaultStreamRecoveryConfig else windowBytes),
      pc_entries = [], pc_dropped = 0\<rparr>"

definition px_fold :: "int \<Rightarrow> string \<Rightarrow> committedPrefix \<Rightarrow> committedPrefix" where
  "px_fold window data p =
     p\<lparr>px_Hash := fnv64aUpdate (px_Hash p) data, px_TotalBytes := px_TotalBytes p + length data,
       px_Head := (if int (length (px_Head p)) < window
                   then px_Head p @ take (nat (window - int (length (px_Head p)))) data else px_Head p)\<rparr>"

definition px_Observe :: "string \<Rightarrow> string \<Rightarrow> committedPrefixCache \<Rightarrow> committedPrefixCache" where
  "px_Observe requestID data c =
     (if requestID = [] \<or> data = [] then c
      else case map_of (pc_entries c) requestID of
        Some p \<Rightarrow> c\<lparr>pc_entries := AList.update requestID (px_fold (pc_windowBytes c) data p) (pc_entries c)\<rparr>
      | None \<Rightarrow>
          if pc_capacity c \<le> int (length (pc_entries c)) then c\<lparr>pc_dropped := pc_dropped c + 1\<rparr>
          else c\<lparr>pc_entries := AList.update requestID
                   (px_fold (pc_windowBytes c) data \<lparr>px_Hash = 14695981039346656037, px_TotalBytes = 0, px_Head = []\<rparr>) (pc_entries c)\<rparr>)"

definition px_Snapshot :: "string \<Rightarrow> committedPrefixCache \<Rightarrow> committedPrefix option" where
  "px_Snapshot requestID c = map_of (pc_entries c) requestID"

definition px_Remove :: "string \<Rightarrow> committedPrefixCache \<Rightarrow> committedPrefixCache" where
  "px_Remove requestID c = c\<lparr>pc_entries := AList.delete requestID (pc_entries c)\<rparr>"

record prefixAlignment =
  al_ScoreBP :: nat
  al_CommonBytes :: nat
  al_SuffixOffset :: nat
  al_Suffix :: string
  al_Aligned :: bool
  al_HashOnly :: bool

definition noAlignment :: prefixAlignment where
  "noAlignment = \<lparr>al_ScoreBP = 0, al_CommonBytes = 0, al_SuffixOffset = 0, al_Suffix = [], al_Aligned = False, al_HashOnly = False\<rparr>"

definition NewPrefixAligner :: "nat \<Rightarrow> nat" where
  "NewPrefixAligner thresholdBP = (if thresholdBP = 0 then DefaultAlignmentThresholdBP else thresholdBP)"

fun commonPrefixLen :: "string \<Rightarrow> string \<Rightarrow> nat" where
  "commonPrefixLen (a # as) (b # bs) = (if a \<noteq> b then 0 else Suc (commonPrefixLen as bs))"
| "commonPrefixLen _ _ = 0"

text \<open>\<open>Align\<close>; the aligner is its threshold. The score is a 16-bit number that never exceeds 10000.\<close>

definition Align :: "nat \<Rightarrow> committedPrefix \<Rightarrow> string \<Rightarrow> prefixAlignment" where
  "Align threshold committed fresh =
     (if px_TotalBytes committed = 0 \<or> px_Head committed = [] \<or> fresh = [] then noAlignment
      else let common = commonPrefixLen (px_Head committed) fresh;
               headScore = (if 0 < common then common * 10000 div length (px_Head committed) else 0)
           in if px_TotalBytes committed \<le> length (px_Head committed)
              then let aligned = threshold \<le> headScore
                   in \<lparr>al_ScoreBP = headScore, al_CommonBytes = common, al_SuffixOffset = common,
                       al_Suffix = (if aligned then drop common fresh else []), al_Aligned = aligned, al_HashOnly = False\<rparr>
              else if common = length (px_Head committed) \<and> px_TotalBytes committed \<le> length fresh
                  \<and> fnv64a (take (px_TotalBytes committed) fresh) = px_Hash committed
              then \<lparr>al_ScoreBP = 10000, al_CommonBytes = common, al_SuffixOffset = px_TotalBytes committed,
                    al_Suffix = drop (px_TotalBytes committed) fresh, al_Aligned = True, al_HashOnly = True\<rparr>
              else \<lparr>al_ScoreBP = headScore, al_CommonBytes = common, al_SuffixOffset = 0, al_Suffix = [],
                    al_Aligned = False, al_HashOnly = True\<rparr>)"
section \<open>The ladder\<close>

lemma withDefaults_idem [simp]: "rc_withDefaults (rc_withDefaults c) = rc_withDefaults c"
  by (simp add: rc_withDefaults_def DefaultStreamRecoveryMaxAttempts_def DefaultSameNodeStreamRetries_def DefaultHoldbackWindowMS_def
      DefaultHoldbackMaxChunks_def DefaultAlignmentThresholdBP_def DefaultCommittedPrefixWindowBytes_def
      DefaultCommittedPrefixCacheCapacity_def)

lemma withDefaults_flags [simp]:
  "rc_ClientStreamUndo (rc_withDefaults c) = rc_ClientStreamUndo c"
  "rc_AllowVisibleRestart (rc_withDefaults c) = rc_AllowVisibleRestart c"
  "rc_ContinuationEnabled (rc_withDefaults c) = rc_ContinuationEnabled c"
  by (simp_all add: rc_withDefaults_def)

lemma unlock_withDefaults [simp]: "CrossCredentialUnlockAllowed st (rc_withDefaults cfg) = CrossCredentialUnlockAllowed st cfg"
  by (simp add: CrossCredentialUnlockAllowed_def)

text \<open>Once content reached the client, no rung of the ladder leaves the node and credential that
  produced it unless one of the four unlock conditions holds: whatever the error, the budget and the
  history, the action names at most the original node and does not restart visibly.\<close>

theorem cross_credential_locked:
  assumes "0 < rs_CommittedChunks st" "\<not> CrossCredentialUnlockAllowed st cfg"
  shows "set (ra_NodeOrder (NextRecoveryAction (Some st) cfg err)) \<subseteq> {NodePolicyOriginal}
    \<and> \<not> ra_VisibleRestart (NextRecoveryAction (Some st) cfg err)"
proof -
  have "\<not> rc_ClientStreamUndo cfg" "\<not> rc_AllowVisibleRestart cfg"
    using assms(2) by (auto simp: CrossCredentialUnlockAllowed_def)
  then show ?thesis using assms
    by (auto simp: NextRecoveryAction_def l4Decision_def Let_def split: option.splits)
qed

definition demoErr :: streamErr where
  "demoErr = \<lparr>se_canceled = False, se_unexpectedEOF = True, se_msg = [], se_kind = KindNetwork\<rparr>"

definition demoState :: streamRecoveryState where
  "demoState = \<lparr>rs_RecoveryNo = 0, rs_SameNodeRetries = 2, rs_CommittedChunks = 1, rs_CommittedBytes = 10, rs_HoldbackChunks = 0,
     rs_HoldbackDeadlineMS = 0, rs_AlignmentScoreBP = 0, rs_RecoveryMode = RecoveryModeNone\<rparr>"

theorem cross_credential_locked_witness:
  "\<not> CrossCredentialUnlockAllowed demoState DefaultStreamRecoveryConfig
   \<and> set (ra_NodeOrder (NextRecoveryAction (Some demoState) DefaultStreamRecoveryConfig (Some demoErr))) \<subseteq> {NodePolicyOriginal}"
proof -
  have "\<not> CrossCredentialUnlockAllowed demoState DefaultStreamRecoveryConfig" by code_simp
  then show ?thesis using cross_credential_locked [of demoState DefaultStreamRecoveryConfig "Some demoErr"]
    by (simp add: demoState_def)
qed

text \<open>The window of the environment is switched off or positive, and never overflows a duration.\<close>

lemma holdbackChunks_pos: "0 < holdbackChunks env key"
  by (simp add: holdbackChunks_def Let_def DefaultHoldbackMaxChunks_def)

lemma holdback_window_sound:
  assumes "RecoveryHoldbackForModel env model = (w, n)"
  shows "(w = 0 \<and> n = 0) \<or> (0 < w \<and> w \<le> maxInt \<and> 0 < n)"
proof -
  have "m * go_millisecond \<le> maxInt" if "m \<le> maxRecoveryHoldbackWindowMS" for m
    using that by (simp add: maxRecoveryHoldbackWindowMS_def maxInt_def)
  then show ?thesis using assms holdbackChunks_pos
    by (auto simp: RecoveryHoldbackForModel_def RecoveryHoldbackFromEnv_def Let_def maxInt_def split: if_splits)
qed

section \<open>What the cache records\<close>

definition prefixRecord :: "nat \<Rightarrow> string \<Rightarrow> committedPrefix" where
  "prefixRecord w bytes = \<lparr>px_Hash = fnv64a bytes, px_TotalBytes = length bytes, px_Head = take w bytes\<rparr>"

lemma fnv64aUpdate_append: "fnv64aUpdate (fnv64aUpdate h xs) ys = fnv64aUpdate h (xs @ ys)"
  by (simp add: fnv64aUpdate_def)

lemma px_fold_record: "px_fold (int w) data (prefixRecord w bytes) = prefixRecord w (bytes @ data)"
  by (auto simp: px_fold_def prefixRecord_def fnv64a_def fnv64aUpdate_append min_def nat_diff_distrib')

lemma px_fold_fresh: "px_fold (int w) data \<lparr>px_Hash = 14695981039346656037, px_TotalBytes = 0, px_Head = []\<rparr> = prefixRecord w data"
  using px_fold_record [of w data "[]"] by (simp add: prefixRecord_def fnv64a_def fnv64aUpdate_def)

datatype prefixOp = PObserve string string | PRemove string

fun prefixStep :: "prefixOp \<Rightarrow> committedPrefixCache \<Rightarrow> committedPrefixCache" where
  "prefixStep (PObserve rid data) c = px_Observe rid data c"
| "prefixStep (PRemove rid) c = px_Remove rid c"

text \<open>The bytes committed for a request since its record was last removed.\<close>

fun committedBytes :: "string \<Rightarrow> prefixOp list \<Rightarrow> string" where
  "committedBytes rid ops = foldl (\<lambda>acc x. case x of
      PObserve r data \<Rightarrow> if r = rid then acc @ data else acc
    | PRemove r \<Rightarrow> if r = rid then [] else acc) [] ops"

definition recordOf :: "nat \<Rightarrow> string \<Rightarrow> committedPrefix option" where
  "recordOf w bytes = (if bytes = [] then None else Some (prefixRecord w bytes))"

lemma committedBytes_snoc [simp]:
  "committedBytes rid (ops @ [PObserve r data]) = committedBytes rid ops @ (if r = rid then data else [])"
  "committedBytes rid (ops @ [PRemove r]) = (if r = rid then [] else committedBytes rid ops)"
  by simp_all

declare committedBytes.simps [simp del]

lemma dropped_mono: "pc_dropped c \<le> pc_dropped (prefixStep x c)"
  by (cases x) (auto simp: px_Observe_def px_Remove_def split: option.splits)

lemma length_AList_update:
  "distinct (map fst al) \<Longrightarrow> length (AList.update k v al) = (if map_of al k = None then Suc (length al) else length al)"
  by (induction al) (auto simp: map_of_eq_None_iff rev_image_eqI split: if_splits)

lemma length_AList_delete: "length (AList.delete k al) \<le> length al"
  by (simp add: AList.delete_eq)

lemma prefix_frame: "pc_capacity (prefixStep x c) = pc_capacity c" "pc_windowBytes (prefixStep x c) = pc_windowBytes c"
  by (cases x; auto simp: px_Observe_def px_Remove_def split: option.splits)+

definition prefix_inv :: "committedPrefixCache \<Rightarrow> bool" where
  "prefix_inv c \<longleftrightarrow> distinct (map fst (pc_entries c)) \<and> int (length (pc_entries c)) \<le> pc_capacity c"

lemma prefix_inv_step: "prefix_inv c \<Longrightarrow> prefix_inv (prefixStep x c)"
proof (cases x)
  case (PRemove rid)
  assume "prefix_inv c"
  then show ?thesis using PRemove length_AList_delete [of rid "pc_entries c"]
    by (auto simp: prefix_inv_def px_Remove_def distinct_delete)
qed (auto simp: prefix_inv_def px_Observe_def length_AList_update distinct_update split: option.splits)

abbreviation prefixRun :: "prefixOp list \<Rightarrow> committedPrefixCache \<Rightarrow> committedPrefixCache" where
  "prefixRun ops c \<equiv> foldl (\<lambda>c x. prefixStep x c) c ops"

lemma prefixRun_inv: "prefix_inv c \<Longrightarrow> prefix_inv (prefixRun ops c)"
  by (induction ops rule: rev_induct) (auto intro: prefix_inv_step)

lemma prefixRun_frame: "pc_capacity (prefixRun ops c) = pc_capacity c" "pc_windowBytes (prefixRun ops c) = pc_windowBytes c"
  by (induction ops rule: rev_induct) (simp_all add: prefix_frame)

text \<open>One operation: the record stays one of a suffix of the committed bytes, of all of them unless
  the cache refuses this observation.\<close>

definition observedBy :: "string \<Rightarrow> prefixOp \<Rightarrow> string \<Rightarrow> string" where
  "observedBy rid x bytes = (case x of PObserve r data \<Rightarrow> if r = rid then bytes @ data else bytes
     | PRemove r \<Rightarrow> if r = rid then [] else bytes)"

lemma committedBytes_step: "committedBytes rid (ops @ [x]) = observedBy rid x (committedBytes rid ops)"
  by (cases x) (simp_all add: observedBy_def)

lemma prefix_step_record:
  assumes "px_Snapshot rid c = recordOf w (drop n bytes)" "n \<le> length bytes" "pc_windowBytes c = int w" "rid \<noteq> []"
  shows "\<exists>m \<le> length (observedBy rid x bytes). px_Snapshot rid (prefixStep x c) = recordOf w (drop m (observedBy rid x bytes))
    \<and> (pc_dropped (prefixStep x c) = pc_dropped c \<longrightarrow> n = 0 \<longrightarrow> m = 0)"
proof -
  have keep: ?thesis if "px_Snapshot rid (prefixStep x c) = recordOf w (observedBy rid x (drop n bytes))" "x \<noteq> PRemove rid"
    using that assms(2) by (intro exI [of _ n]) (auto simp: observedBy_def split: prefixOp.splits)
  show ?thesis
  proof (cases x)
    case (PObserve r data)
    show ?thesis
    proof (cases "r = rid \<and> data \<noteq> [] \<and> pc_dropped (prefixStep x c) \<noteq> pc_dropped c")
      case True
      then have "map_of (pc_entries c) rid = None" "prefixStep x c = c\<lparr>pc_dropped := pc_dropped (prefixStep x c)\<rparr>"
        using PObserve by (auto simp: px_Observe_def split: option.splits if_splits)
      then have "px_Snapshot rid (prefixStep x c) = None" by (metis committedPrefixCache.select_convs(3) committedPrefixCache.surjective committedPrefixCache.update_convs(4) px_Snapshot_def)
      then show ?thesis using True by (intro exI [of _ "length (observedBy rid x bytes)"]) (simp add: recordOf_def)
    next
      case False
      then show ?thesis using PObserve assms(1,3,4)
        by (intro keep) (auto simp: observedBy_def px_Snapshot_def px_Observe_def recordOf_def px_fold_record px_fold_fresh
            update_conv' split: option.splits if_splits)
    qed
  next
    case (PRemove r)
    then show ?thesis
    proof (cases "r = rid")
      case True
      then show ?thesis using PRemove assms(4)
        by (intro exI [of _ 0]) (auto simp: observedBy_def px_Snapshot_def px_Remove_def recordOf_def delete_conv')
    next
      case False
      then show ?thesis using PRemove assms(1,3,4)
        by (intro keep) (auto simp: observedBy_def px_Snapshot_def px_Remove_def recordOf_def delete_conv')
    qed
  qed
qed

text \<open>C25.
  The committed-prefix cache records a suffix of what the client has: under any interleaving of
  observations and removals of any requests, the snapshot of a request is the hash, the number and the
  first window of the bytes committed since its record was last removed, less a number of bytes at
  their start, and that number is zero as long as the cache refused no observation for lack of room;
  and the cache never holds more requests than its capacity.\<close>

theorem prefix_record_exact:
  assumes "0 < cap" "0 < w" "rid \<noteq> []"
    and c: "c = prefixRun ops (NewCommittedPrefixCache (int cap) (int w))"
  shows "(\<exists>n \<le> length (committedBytes rid ops). px_Snapshot rid c = recordOf w (drop n (committedBytes rid ops))
      \<and> (pc_dropped c = 0 \<longrightarrow> n = 0)) \<and> length (pc_entries c) \<le> cap"
proof -
  let ?new = "NewCommittedPrefixCache (int cap) (int w)"
  have new: "pc_capacity ?new = int cap" "pc_windowBytes ?new = int w" "prefix_inv ?new" "px_Snapshot rid ?new = None"
    using assms(1,2) by (simp_all add: NewCommittedPrefixCache_def prefix_inv_def px_Snapshot_def)
  have "\<exists>n \<le> length (committedBytes rid ops). px_Snapshot rid c = recordOf w (drop n (committedBytes rid ops))
      \<and> (pc_dropped c = 0 \<longrightarrow> n = 0)"
    unfolding c
  proof (induction ops rule: rev_induct)
    case Nil
    then show ?case using new by (simp add: recordOf_def committedBytes.simps)
  next
    case (snoc x ops)
    let ?c = "prefixRun ops ?new"
    obtain n where n: "n \<le> length (committedBytes rid ops)" "px_Snapshot rid ?c = recordOf w (drop n (committedBytes rid ops))"
        "pc_dropped ?c = 0 \<longrightarrow> n = 0" using snoc.IH by (elim exE conjE)
    have "pc_windowBytes ?c = int w" using new by (simp add: prefixRun_frame)
    from prefix_step_record [OF n(2,1) this assms(3), of x] obtain m
      where m: "m \<le> length (observedBy rid x (committedBytes rid ops))"
        "px_Snapshot rid (prefixStep x ?c) = recordOf w (drop m (observedBy rid x (committedBytes rid ops)))"
        "pc_dropped (prefixStep x ?c) = pc_dropped ?c \<longrightarrow> n = 0 \<longrightarrow> m = 0" by (elim exE conjE)
    moreover have "m = 0" if "pc_dropped (prefixStep x ?c) = 0"
      using that n(3) m(3) dropped_mono [of ?c x] by simp
    ultimately have "m \<le> length (observedBy rid x (committedBytes rid ops))
      \<and> px_Snapshot rid (prefixStep x ?c) = recordOf w (drop m (observedBy rid x (committedBytes rid ops)))
      \<and> (pc_dropped (prefixStep x ?c) = 0 \<longrightarrow> m = 0)" by simp
    then show ?case unfolding committedBytes_step by (intro exI [of _ m]) simp
  qed
  moreover have "prefix_inv c" unfolding c using prefixRun_inv new by blast
  moreover have "pc_capacity c = int cap" unfolding c using new by (simp add: prefixRun_frame)
  ultimately show ?thesis by (simp add: prefix_inv_def)
qed

text \<open>At the witness the cache of one request is full when the first bytes of the second arrive; its
  record starts after the other one was removed.\<close>

theorem prefix_record_exact_witness:
  "px_Snapshot ''r'' (prefixRun [PObserve ''r'' ''ab'', PObserve ''s'' ''xyz'', PObserve ''r'' ''cd'']
     (NewCommittedPrefixCache (int 2) (int 3))) = Some (prefixRecord 3 ''abcd'')
   \<and> (let ops = [PObserve ''s'' ''xyz'', PObserve ''r'' ''ab'', PRemove ''s'', PObserve ''r'' ''cd''];
          c = prefixRun ops (NewCommittedPrefixCache (int 1) (int 3))
      in px_Snapshot ''r'' c = Some (prefixRecord 3 ''cd'') \<and> (\<exists>n. px_Snapshot ''r'' c = recordOf 3 (drop n ''abcd'')))"
proof -
  let ?ops = "[PObserve ''r'' ''ab'', PObserve ''s'' ''xyz'', PObserve ''r'' ''cd'']"
  let ?late = "[PObserve ''s'' ''xyz'', PObserve ''r'' ''ab'', PRemove ''s'', PObserve ''r'' ''cd'']"
  have "pc_dropped (prefixRun ?ops (NewCommittedPrefixCache (int 2) (int 3))) = 0"
    by (simp add: px_Observe_def NewCommittedPrefixCache_def)
  then have 1: "px_Snapshot ''r'' (prefixRun ?ops (NewCommittedPrefixCache (int 2) (int 3))) = Some (prefixRecord 3 ''abcd'')"
    using prefix_record_exact [of 2 3 "''r''" _ ?ops] by (auto simp: recordOf_def committedBytes.simps)
  have "committedBytes ''r'' ?late = ''abcd''" by (simp add: committedBytes.simps)
  then have 2: "\<exists>n. px_Snapshot ''r'' (prefixRun ?late (NewCommittedPrefixCache (int 1) (int 3))) = recordOf 3 (drop n ''abcd'')"
    using prefix_record_exact [of 1 3 "''r''" _ ?late, OF _ _ _ refl] by auto
  have 3: "px_Snapshot ''r'' (prefixRun ?late (NewCommittedPrefixCache (int 1) (int 3))) = Some (prefixRecord 3 ''cd'')"
    using px_fold_fresh [of 3 "''cd''"]
    by (simp add: px_Observe_def px_Remove_def px_Snapshot_def NewCommittedPrefixCache_def)
  from 1 2 3 show ?thesis unfolding Let_def by blast
qed

section \<open>What the aligner proves\<close>

lemma commonPrefixLen_take: "take (commonPrefixLen xs ys) xs = take (commonPrefixLen xs ys) ys"
  by (induction xs ys rule: commonPrefixLen.induct) auto

lemma commonPrefixLen_le: "commonPrefixLen xs ys \<le> length xs"
  by (induction xs ys rule: commonPrefixLen.induct) auto

lemma commonPrefixLen_append: "commonPrefixLen (us @ xs) (us @ ys) = length us + commonPrefixLen xs ys"
  by (induction us) auto

lemma commonPrefixLen_self: "commonPrefixLen us (us @ ys) = length us"
  using commonPrefixLen_append [of us "[]" ys] by simp

lemma common_full: "commonPrefixLen xs ys = length xs \<Longrightarrow> take (length xs) ys = xs"
  using commonPrefixLen_take [of xs ys] by simp

lemma align_replay:
  assumes "0 < w" "bytes \<noteq> []" "t \<le> 10000"
  shows "al_Aligned (Align t (prefixRecord w bytes) (bytes @ x)) \<and> al_Suffix (Align t (prefixRecord w bytes) (bytes @ x)) = x
    \<and> (al_Aligned (Align 10000 (prefixRecord w bytes) fresh) \<longrightarrow>
         (if length bytes \<le> w then fresh = bytes @ al_Suffix (Align 10000 (prefixRecord w bytes) fresh)
          else take w fresh = take w bytes \<and> fnv64a (take (length bytes) fresh) = fnv64a bytes
             \<and> al_Suffix (Align 10000 (prefixRecord w bytes) fresh) = drop (length bytes) fresh))"
proof (cases "length bytes \<le> w")
  case True
  let ?n = "length bytes"
  have c: "commonPrefixLen bytes (bytes @ x) = ?n" by (rule commonPrefixLen_self)
  have "fresh = bytes @ drop (commonPrefixLen bytes fresh) fresh"
    if "10000 \<le> commonPrefixLen bytes fresh * 10000 div ?n"
  proof -
    have "?n * 10000 \<le> commonPrefixLen bytes fresh * 10000"
      using that assms(2) by (simp add: less_eq_div_iff_mult_less_eq)
    then have "commonPrefixLen bytes fresh = ?n" using commonPrefixLen_le [of bytes fresh] by simp
    then show ?thesis using common_full [of bytes fresh] by (metis append_take_drop_id)
  qed
  then show ?thesis using True assms c by (auto simp: Align_def prefixRecord_def noAlignment_def Let_def)
next
  case False
  have c: "commonPrefixLen (take w bytes) (bytes @ x) = w"
    using commonPrefixLen_self [of "take w bytes" "drop w bytes @ x"] False
    by (simp only: append_assoc [symmetric] append_take_drop_id) simp
  have d: "take w fresh = take w bytes" if "commonPrefixLen (take w bytes) fresh = w"
    using that common_full [of "take w bytes" fresh] False by simp
  have m: "min (length bytes) w = w" "min w (length bytes) = w" using False by auto
  show ?thesis using False assms c d by (auto simp: Align_def prefixRecord_def noAlignment_def Let_def m)
qed

text \<open>A faithful replay is always recognised, and at the full score nothing else is: a replay that
  repeats all committed bytes is aligned and its suffix is exactly what follows them. With the
  threshold at 10000 an aligned replay repeats the committed bytes when the window holds them all, and
  otherwise repeats the window and has the hash of the committed bytes.\<close>

theorem align_recognises_replay:
  assumes "0 < w" "bytes \<noteq> []" "t \<le> 10000"
  shows "al_Aligned (Align t (prefixRecord w bytes) (bytes @ x)) \<and> al_Suffix (Align t (prefixRecord w bytes) (bytes @ x)) = x
    \<and> (al_Aligned (Align 10000 (prefixRecord w bytes) fresh) \<longrightarrow>
         (if length bytes \<le> w then fresh = bytes @ al_Suffix (Align 10000 (prefixRecord w bytes) fresh)
          else take w fresh = take w bytes \<and> fnv64a (take (length bytes) fresh) = fnv64a bytes
             \<and> al_Suffix (Align 10000 (prefixRecord w bytes) fresh) = drop (length bytes) fresh))"
  using align_replay [OF assms] by blast

theorem align_recognises_replay_witness:
  "al_Suffix (Align 9000 (prefixRecord 4 ''hello'') (''hello'' @ '' world'')) = '' world''"
  using align_recognises_replay [of 4 "''hello''" 9000] by simp

text \<open>At the default threshold an aligned replay need not continue what the client has: a replay that
  leaves the committed text within its last tenth is still aligned.\<close>

lemma align_tail_tolerance:
  assumes "v \<noteq> []" "v' \<noteq> []" "hd v \<noteq> hd v'" "10 * length v \<le> length (u @ v)" "length (u @ v) \<le> w"
  shows "al_Aligned (Align DefaultAlignmentThresholdBP (prefixRecord w (u @ v)) (u @ v'))
    \<and> al_Suffix (Align DefaultAlignmentThresholdBP (prefixRecord w (u @ v)) (u @ v')) = v'
    \<and> al_SuffixOffset (Align DefaultAlignmentThresholdBP (prefixRecord w (u @ v)) (u @ v')) = length u"
proof -
  have "commonPrefixLen v v' = 0" using assms(1-3) by (cases v; cases v') auto
  then have c: "commonPrefixLen (u @ v) (u @ v') = length u" by (simp add: commonPrefixLen_append)
  have u: "0 < length u" using assms(1,4) by (cases v) auto
  have "9000 * (length u + length v) \<le> length u * 10000" using assms(4) by simp
  then have "9000 \<le> length u * 10000 div (length u + length v)"
    using u by (simp add: less_eq_div_iff_mult_less_eq)
  then show ?thesis using assms u c
    by (simp add: Align_def prefixRecord_def Let_def DefaultAlignmentThresholdBP_def)
qed

text \<open>A request refused for lack of room may be tracked from the middle: after another request left,
  its next bytes open a record that does not know the first ones. When they repeat, a faithful replay
  is aligned too early and sends bytes that the client already has.\<close>

theorem late_tracking_repeats:
  assumes "d \<noteq> []" "length d \<le> w" "rid \<noteq> []" "other \<noteq> []" "rid \<noteq> other" "e \<noteq> []" "t \<le> 10000"
    and c: "c = prefixRun [PObserve other e, PObserve rid d, PRemove other, PObserve rid d] (NewCommittedPrefixCache 1 (int w))"
  shows "committedBytes rid [PObserve other e, PObserve rid d, PRemove other, PObserve rid d] = d @ d
    \<and> px_Snapshot rid c = Some (prefixRecord w d)
    \<and> al_Aligned (Align t (prefixRecord w d) (d @ d @ x)) \<and> al_Suffix (Align t (prefixRecord w d) (d @ d @ x)) = d @ x"
proof -
  have w: "0 < w" using assms(1,2) by (cases d) auto
  then have "px_Snapshot rid c = Some (prefixRecord w d)"
    unfolding c using assms(1-6)
    by (simp add: px_Observe_def px_Remove_def px_Snapshot_def NewCommittedPrefixCache_def px_fold_fresh)
  moreover have "committedBytes rid [PObserve other e, PObserve rid d, PRemove other, PObserve rid d] = d @ d"
    using assms(5) by (simp add: committedBytes.simps)
  ultimately show ?thesis using align_replay [OF w assms(1,7), of "d @ x"] by simp
qed

theorem late_tracking_repeats_witness:
  "al_Suffix (Align 9000 (prefixRecord 8 ''na '') (''na '' @ ''na '' @ ''batman'')) = ''na '' @ ''batman''"
  using late_tracking_repeats [of "''na ''" 8 "''r''" "''s''" "''x''" 9000 _ "''batman''"] by simp

end
