(* ===== verification/CommitGate.thy ===== *)
theory CommitGate
  imports StreamFrames StreamRecovery
begin

text \<open>
  The commit gate of one streaming attempt: the serialised client writer
  (\<open>domains/streaming/serialized_stream_writer.go\<close>), \<open>AttemptCommitGate\<close> with the L1 holdback,
  the L2 replay alignment and the shadow observer (\<open>attempt_commit_gate.go\<close>), and the byte-oriented
  \<open>GateWriter\<close> in front of it (\<open>gate_writer.go\<close>).

  \<open>writeMu\<close> makes \<open>WriteFrame\<close>, \<open>Commit\<close>, \<open>FinishAttempt\<close> and \<open>FlushHoldback\<close> exclude each
  other; \<open>Discard\<close> takes only \<open>mu\<close> and can run in the windows where such a call has given \<open>mu\<close> up:
  during the checkpoint hook and during a write to the connection. The environment of a call says whether
  it does (\<open>ge_discard1\<close>, \<open>ge_discard2\<close>), what the hook answers for a state, and what the clock
  shows. The connection is the list of bytes it has taken and the answers it will give; the calls of the
  prefix observer are the list \<open>g_observed\<close>. Log lines and metrics are left out.
\<close>

section \<open>The serialised writer\<close>

datatype gateErr = ErrAttemptAlreadyCommitted | ErrAttemptMetadataBufferExceeded | ErrAttemptDiscarded
  | ErrAttemptCheckpointFailed | ErrL2AlignmentMiss | ErrWire

datatype ioAnswer = IoOk | IoErr nat | IoShort nat
datatype flushKind = FlushWithError | FlushPlain | FlushNone

record streamWriter =
  sw_out :: string
  sw_answers :: "ioAnswer list"
  sw_flusher :: flushKind
  sw_detached :: bool
  sw_detachErr :: bool
  sw_capture :: string
  sw_captureLimit :: int
  sw_captureOverflow :: bool

definition NewSerializedStreamWriter :: "ioAnswer list \<Rightarrow> flushKind \<Rightarrow> streamWriter" where
  "NewSerializedStreamWriter answers fk = \<lparr>sw_out = [], sw_answers = answers, sw_flusher = fk, sw_detached = False,
     sw_detachErr = False, sw_capture = [], sw_captureLimit = 0, sw_captureOverflow = False\<rparr>"

definition sw_next :: "streamWriter \<Rightarrow> ioAnswer \<times> streamWriter" where
  "sw_next s = (case sw_answers s of [] \<Rightarrow> (IoOk, s) | a # as \<Rightarrow> (a, s\<lparr>sw_answers := as\<rparr>))"

definition sw_detachWith :: "streamWriter \<Rightarrow> streamWriter" where
  "sw_detachWith s = s\<lparr>sw_detached := True, sw_detachErr := True\<rparr>"

definition sw_captureBytes :: "string \<Rightarrow> streamWriter \<Rightarrow> streamWriter" where
  "sw_captureBytes p s =
     (if 0 < sw_captureLimit s \<and> \<not> sw_captureOverflow s
      then if sw_captureLimit s < int (length (sw_capture s) + length p) then s\<lparr>sw_captureOverflow := True, sw_capture := []\<rparr>
           else s\<lparr>sw_capture := sw_capture s @ p\<rparr>
      else s)"

definition sw_write :: "string \<Rightarrow> bool \<Rightarrow> streamWriter \<Rightarrow> gateErr option \<times> streamWriter" where
  "sw_write p capture s =
     (if sw_detached s then (None, s)
      else case sw_next s of (a, s1) \<Rightarrow>
        let short = (\<lambda>n. (Some ErrWire, sw_detachWith (s1\<lparr>sw_out := sw_out s1 @ take n p\<rparr>)));
            full = (let s2 = s1\<lparr>sw_out := sw_out s1 @ p\<rparr> in (None, if capture then sw_captureBytes p s2 else s2))
        in case a of
             IoErr n \<Rightarrow> short n
           | IoShort n \<Rightarrow> if n < length p then short n else full
           | IoOk \<Rightarrow> full)"

definition sw_Write :: "string \<Rightarrow> streamWriter \<Rightarrow> gateErr option \<times> streamWriter" where
  "sw_Write p s = sw_write p True s"

definition WriteTransportFrame :: "string \<Rightarrow> streamWriter \<Rightarrow> gateErr option \<times> streamWriter" where
  "WriteTransportFrame p s = sw_write p False s"

definition sw_FlushError :: "streamWriter \<Rightarrow> gateErr option \<times> streamWriter" where
  "sw_FlushError s =
     (if sw_detached s then (if sw_detachErr s then Some ErrWire else None, s)
      else if sw_flusher s = FlushNone then (None, s)
      else case sw_next s of (IoOk, s1) \<Rightarrow> (None, s1) | (_, s1) \<Rightarrow> (Some ErrWire, sw_detachWith s1))"

definition EnableCapture :: "int \<Rightarrow> streamWriter \<Rightarrow> streamWriter" where
  "EnableCapture limit s = (if 0 < limit then s\<lparr>sw_captureLimit := limit\<rparr> else s)"

definition Captured :: "streamWriter \<Rightarrow> string option" where
  "Captured s = (if sw_captureOverflow s then None else Some (sw_capture s))"

definition sw_Detach :: "streamWriter \<Rightarrow> streamWriter" where
  "sw_Detach s = s\<lparr>sw_detached := True\<rparr>"

definition writeFlush :: "string \<Rightarrow> streamWriter \<Rightarrow> gateErr option \<times> streamWriter" where
  "writeFlush p w = (case sw_Write p w of (Some e, w1) \<Rightarrow> (Some e, w1) | (None, w1) \<Rightarrow> sw_FlushError w1)"

section \<open>The state of a gate\<close>

datatype commitState = CommitStateNone | CommitStateMetadata | CommitStateContent | CommitStateToolCall | CommitStateTerminal

fun commitStateRank :: "commitState \<Rightarrow> nat" where
  "commitStateRank CommitStateNone = 0"
| "commitStateRank CommitStateMetadata = 1"
| "commitStateRank CommitStateContent = 2"
| "commitStateRank CommitStateToolCall = 3"
| "commitStateRank CommitStateTerminal = 4"

lemma commitStateRank_inject [simp]: "commitStateRank a = commitStateRank b \<longleftrightarrow> a = b"
  by (cases a; cases b) simp_all

instantiation commitState :: linorder
begin

definition less_eq_commitState :: "commitState \<Rightarrow> commitState \<Rightarrow> bool" where
  "less_eq_commitState a b \<longleftrightarrow> commitStateRank a \<le> commitStateRank b"

definition less_commitState :: "commitState \<Rightarrow> commitState \<Rightarrow> bool" where
  "less_commitState a b \<longleftrightarrow> commitStateRank a < commitStateRank b"

instance
  by standard (auto simp: less_eq_commitState_def less_commitState_def)

end

datatype gateMode = GateModeImmediate | GateModeBuffered

record replayBufferedFrame =
  rf_raw :: string
  rf_normStart :: nat
  rf_normEnd :: nat

record replayAlignmentState =
  rl_aligner :: nat
  rl_committed :: committedPrefix
  rl_needBytes :: nat
  rl_maxRaw :: nat
  rl_frames :: "replayBufferedFrame list"
  rl_norm :: string
  rl_rawLen :: nat
  rl_decided :: bool
  rl_aligned :: bool
  rl_missed :: bool
  rl_result :: prefixAlignment

record shadowAlignmentState =
  sh_aligner :: nat
  sh_committed :: committedPrefix
  sh_norm :: string
  sh_rawLen :: nat
  sh_maxRaw :: nat
  sh_overflow :: bool
  sh_result :: prefixAlignment
  sh_decided :: bool
  sh_reported :: bool

record gateOptions =
  go_Mode :: gateMode
  go_MaxMetadataBufferBytes :: int
  go_BeforeSemanticCommit :: bool
  go_FirstSemanticByte :: bool
  go_MaxMetadataBufferAge :: duration
  go_HoldbackWindow :: duration
  go_HoldbackMaxChunks :: int
  go_PrefixObserve :: bool
  go_ReplayAlignment :: "(committedPrefix \<times> nat option) option"
  go_ShadowAlignment :: "(committedPrefix \<times> nat option) option"

record attemptCommitGate =
  g_protocol :: clientProtocol
  g_mode :: gateMode
  g_maxMetadata :: int
  g_maxMetadataAge :: duration
  g_checkpointHook :: bool
  g_firstSemanticByte :: bool
  g_firstSemanticSeen :: bool
  g_holdbackWindow :: duration
  g_holdbackMaxChunks :: int
  g_holdbackOpened :: bool
  g_holdbackOpenAt :: instant
  g_holdbackHeld :: int
  g_prefixObserve :: bool
  g_observed :: "string list"
  g_align :: "replayAlignmentState option"
  g_shadow :: "shadowAlignmentState option"
  g_state :: commitState
  g_committed :: bool
  g_discarded :: bool
  g_terminalRendered :: bool
  g_checkpointedState :: commitState
  g_checkpointBlocked :: bool
  g_buffer :: string
  g_bufferLen :: nat
  g_firstMetaAt :: "instant option"

record gateEnv =
  ge_hook :: "commitState \<Rightarrow> bool"
  ge_tHold :: instant
  ge_tBuf :: instant
  ge_discard1 :: bool
  ge_discard2 :: bool

definition DefaultMaxMetadataBufferBytes :: int where "DefaultMaxMetadataBufferBytes = 64 * 1024"
definition DefaultMaxMetadataBufferAge :: duration where "DefaultMaxMetadataBufferAge = 30 * go_second"

definition newReplayAlignment :: "committedPrefix \<times> nat option \<Rightarrow> replayAlignmentState" where
  "newReplayAlignment opts = (case opts of (committed, aligner) \<Rightarrow>
     \<lparr>rl_aligner = (case aligner of None \<Rightarrow> NewPrefixAligner 0 | Some a \<Rightarrow> a), rl_committed = committed,
      rl_needBytes = px_TotalBytes committed, rl_maxRaw = px_TotalBytes committed * 2 + nat DefaultMaxMetadataBufferBytes,
      rl_frames = [], rl_norm = [], rl_rawLen = 0, rl_decided = False, rl_aligned = False, rl_missed = False,
      rl_result = noAlignment\<rparr>)"

definition newShadowAlignment :: "committedPrefix \<times> nat option \<Rightarrow> shadowAlignmentState" where
  "newShadowAlignment opts = (case opts of (committed, aligner) \<Rightarrow>
     \<lparr>sh_aligner = (case aligner of None \<Rightarrow> NewPrefixAligner 0 | Some a \<Rightarrow> a), sh_committed = committed, sh_norm = [],
      sh_rawLen = 0, sh_maxRaw = px_TotalBytes committed * 2 + nat DefaultMaxMetadataBufferBytes, sh_overflow = False,
      sh_result = noAlignment, sh_decided = (px_TotalBytes committed = 0), sh_reported = False\<rparr>)"

definition NewAttemptCommitGate :: "clientProtocol \<Rightarrow> gateOptions \<Rightarrow> attemptCommitGate" where
  "NewAttemptCommitGate protocol opts =
     \<lparr>g_protocol = protocol, g_mode = go_Mode opts,
      g_maxMetadata = (if go_MaxMetadataBufferBytes opts \<le> 0 then DefaultMaxMetadataBufferBytes else go_MaxMetadataBufferBytes opts),
      g_maxMetadataAge = (if go_MaxMetadataBufferAge opts \<le> 0 then DefaultMaxMetadataBufferAge else go_MaxMetadataBufferAge opts),
      g_checkpointHook = go_BeforeSemanticCommit opts, g_firstSemanticByte = go_FirstSemanticByte opts, g_firstSemanticSeen = False,
      g_holdbackWindow = go_HoldbackWindow opts,
      g_holdbackMaxChunks = (if 0 < go_HoldbackWindow opts \<and> go_HoldbackMaxChunks opts \<le> 0 then DefaultHoldbackMaxChunks
                             else go_HoldbackMaxChunks opts),
      g_holdbackOpened = False, g_holdbackOpenAt = 0, g_holdbackHeld = 0, g_prefixObserve = go_PrefixObserve opts, g_observed = [],
      g_align = map_option newReplayAlignment (go_ReplayAlignment opts),
      g_shadow = map_option newShadowAlignment (go_ShadowAlignment opts), g_state = CommitStateNone, g_committed = False,
      g_discarded = False, g_terminalRendered = False, g_checkpointedState = CommitStateNone, g_checkpointBlocked = False,
      g_buffer = [], g_bufferLen = 0, g_firstMetaAt = None\<rparr>"

section \<open>Operations\<close>

definition MayWriteTerminal :: "attemptCommitGate option \<Rightarrow> bool" where
  "MayWriteTerminal g = (case g of None \<Rightarrow> True | Some g \<Rightarrow> g_committed g \<or> g_mode g = GateModeImmediate)"

definition MarkTerminalRendered :: "attemptCommitGate \<Rightarrow> attemptCommitGate" where
  "MarkTerminalRendered g = g\<lparr>g_terminalRendered := True\<rparr>"

definition SetFirstSemanticByteCallback :: "attemptCommitGate \<Rightarrow> attemptCommitGate" where
  "SetFirstSemanticByteCallback g = (if g_firstSemanticSeen g then g else g\<lparr>g_firstSemanticByte := True\<rparr>)"

definition attemptHasClientSemanticOutput :: "attemptCommitGate option \<Rightarrow> int \<Rightarrow> bool" where
  "attemptHasClientSemanticOutput g chunkCount = (case g of
     None \<Rightarrow> 0 < chunkCount
   | Some g \<Rightarrow> CommitStateContent \<le> g_state g \<and> (g_committed g \<or> g_mode g = GateModeImmediate))"

definition Discard :: "attemptCommitGate \<Rightarrow> gateErr option \<times> attemptCommitGate" where
  "Discard g =
     (if g_committed g \<or> CommitStateContent \<le> g_state g then (Some ErrAttemptAlreadyCommitted, g)
      else (None, g\<lparr>g_buffer := [], g_bufferLen := 0, g_firstMetaAt := None, g_state := CommitStateNone, g_discarded := True,
                    g_checkpointBlocked := False\<rparr>))"

definition discardIf :: "bool \<Rightarrow> attemptCommitGate \<Rightarrow> attemptCommitGate" where
  "discardIf d g = (if d then snd (Discard g) else g)"

fun stateOfClass :: "frameClass \<Rightarrow> commitState option" where
  "stateOfClass FrameClassKeepalive = None"
| "stateOfClass FrameClassConnectionMetadata = Some CommitStateMetadata"
| "stateOfClass FrameClassAttemptMetadata = Some CommitStateMetadata"
| "stateOfClass FrameClassContent = Some CommitStateContent"
| "stateOfClass FrameClassUnknown = Some CommitStateContent"
| "stateOfClass FrameClassToolCall = Some CommitStateToolCall"
| "stateOfClass FrameClassTerminal = Some CommitStateTerminal"
| "stateOfClass FrameClassError = None"

definition advanceStateLocked :: "frameClass \<Rightarrow> attemptCommitGate \<Rightarrow> bool \<times> attemptCommitGate" where
  "advanceStateLocked class g = (case stateOfClass class of
     None \<Rightarrow> (False, g)
   | Some next \<Rightarrow> if g_state g < next then (True, g\<lparr>g_state := next\<rparr>) else (False, g))"

definition blockCheckpointLocked :: "attemptCommitGate \<Rightarrow> attemptCommitGate" where
  "blockCheckpointLocked g = g\<lparr>g_checkpointBlocked := True\<rparr>"

definition checkpointStateAdvance :: "gateEnv \<Rightarrow> frameClass \<Rightarrow> attemptCommitGate \<Rightarrow> gateErr option \<times> attemptCommitGate" where
  "checkpointStateAdvance env class g = (case advanceStateLocked class g of (advanced, g1) \<Rightarrow>
     if \<not> advanced \<or> \<not> g_checkpointHook g1 \<or> (g_mode g1 \<noteq> GateModeImmediate \<and> \<not> g_committed g1 \<and> \<not> isSemanticClass class)
     then (None, g1)
     else let st = g_state g1; g2 = discardIf (ge_discard1 env) g1
          in if \<not> ge_hook env st then (Some ErrAttemptCheckpointFailed, blockCheckpointLocked g2)
             else (None, if g_checkpointedState g2 < st then g2\<lparr>g_checkpointedState := st\<rparr> else g2))"

definition appendBufferedLocked :: "gateEnv \<Rightarrow> string \<Rightarrow> attemptCommitGate \<Rightarrow> gateErr option \<times> attemptCommitGate" where
  "appendBufferedLocked env frame g =
     (let add = (\<lambda>g. if g_maxMetadata g < int (g_bufferLen g + length frame) then (Some ErrAttemptMetadataBufferExceeded, g)
                     else (None, g\<lparr>g_buffer := g_buffer g @ frame, g_bufferLen := g_bufferLen g + length frame\<rparr>))
      in case g_firstMetaAt g of
           None \<Rightarrow> add (g\<lparr>g_firstMetaAt := Some (ge_tBuf env)\<rparr>)
         | Some t \<Rightarrow> if g_maxMetadataAge g < ge_tBuf env - t then (Some ErrAttemptMetadataBufferExceeded, g) else add g)"

definition holdbackTryHoldLocked :: "gateEnv \<Rightarrow> string \<Rightarrow> attemptCommitGate \<Rightarrow> bool \<times> gateErr option \<times> attemptCommitGate" where
  "holdbackTryHoldLocked env frame g =
     (if g_holdbackWindow g \<le> 0 then (False, None, g)
      else let now = ge_tHold env;
               g1 = (if g_holdbackOpened g then g else g\<lparr>g_holdbackOpened := True, g_holdbackOpenAt := now\<rparr>)
           in if g_holdbackMaxChunks g1 \<le> g_holdbackHeld g1 \<or> g_holdbackWindow g1 \<le> now - g_holdbackOpenAt g1 then (False, None, g1)
              else case appendBufferedLocked env frame g1 of
                (Some e, g2) \<Rightarrow> (False, Some e, g2)
              | (None, g2) \<Rightarrow> (True, None, g2\<lparr>g_holdbackHeld := g_holdbackHeld g2 + 1\<rparr>))"

definition HoldbackWindowOpen :: "instant \<Rightarrow> attemptCommitGate \<Rightarrow> bool" where
  "HoldbackWindowOpen now g =
     (if g_holdbackWindow g \<le> 0 \<or> g_discarded g \<or> g_committed g \<or> \<not> g_holdbackOpened g then False
      else g_holdbackHeld g < g_holdbackMaxChunks g \<and> now - g_holdbackOpenAt g < g_holdbackWindow g)"

definition markFirstSemanticByteLocked :: "frameClass \<Rightarrow> attemptCommitGate \<Rightarrow> attemptCommitGate" where
  "markFirstSemanticByteLocked class g =
     (if g_firstSemanticSeen g \<or> \<not> g_firstSemanticByte g then g
      else if class \<in> {FrameClassContent, FrameClassToolCall, FrameClassUnknown} then g\<lparr>g_firstSemanticSeen := True\<rparr> else g)"

definition observeShadowState :: "frameClass \<Rightarrow> string \<Rightarrow> shadowAlignmentState \<Rightarrow> shadowAlignmentState" where
  "observeShadowState class frame sh =
     (let obs = l2SemanticObservation class frame
      in if sh_decided sh \<or> sh_overflow sh \<or> obs = [] then sh
         else if sh_maxRaw sh < sh_rawLen sh + length frame then sh\<lparr>sh_overflow := True\<rparr>
         else let sh1 = sh\<lparr>sh_norm := sh_norm sh @ obs, sh_rawLen := sh_rawLen sh + length frame\<rparr>
              in if px_TotalBytes (sh_committed sh1) \<le> length (sh_norm sh1)
                 then sh1\<lparr>sh_result := Align (sh_aligner sh1) (sh_committed sh1) (sh_norm sh1), sh_decided := True\<rparr>
                 else sh1)"

definition observeFrameLocked :: "frameClass \<Rightarrow> string \<Rightarrow> attemptCommitGate \<Rightarrow> attemptCommitGate" where
  "observeFrameLocked class frame g =
     (let g1 = g\<lparr>g_shadow := map_option (observeShadowState class frame) (g_shadow g)\<rparr>;
          obs = l2SemanticObservation class frame
      in if g_prefixObserve g1 \<and> obs \<noteq> [] then g1\<lparr>g_observed := g_observed g1 @ [obs]\<rparr> else g1)"

definition wireFrames :: "string \<Rightarrow> string list" where
  "wireFrames buf = (case cutFrames buf of (fs, rest) \<Rightarrow> if rest = [] then fs else fs @ [rest])"

definition observeWrittenBytesLocked :: "jsonDec \<Rightarrow> string \<Rightarrow> attemptCommitGate \<Rightarrow> attemptCommitGate" where
  "observeWrittenBytesLocked dec buf g =
     foldl (\<lambda>g frame. observeFrameLocked (ClassifyClientFrame dec (g_protocol g) frame) frame g) g (wireFrames buf)"

definition commitLocked :: "jsonDec \<Rightarrow> attemptCommitGate \<Rightarrow> streamWriter \<Rightarrow> gateErr option \<times> attemptCommitGate \<times> streamWriter" where
  "commitLocked dec g w =
     (if g_buffer g \<noteq> []
      then let buf = g_buffer g; g1 = g\<lparr>g_buffer := [], g_bufferLen := 0, g_committed := True\<rparr>
           in case sw_Write buf w of
                (Some e, w1) \<Rightarrow> (Some e, g1, w1)
              | (None, w1) \<Rightarrow> (None, observeWrittenBytesLocked dec buf g1, w1)
      else (None, g\<lparr>g_committed := True\<rparr>, w))"

definition commitFlush :: "jsonDec \<Rightarrow> attemptCommitGate \<Rightarrow> streamWriter \<Rightarrow> gateErr option \<times> attemptCommitGate \<times> streamWriter" where
  "commitFlush dec g w = (case commitLocked dec g w of
     (Some e, g1, w1) \<Rightarrow> (Some e, g1, w1)
   | (None, g1, w1) \<Rightarrow> (case sw_FlushError w1 of (e, w2) \<Rightarrow> (e, g1, w2)))"

definition flushHoldbackLocked ::
  "jsonDec \<Rightarrow> gateEnv \<Rightarrow> attemptCommitGate \<Rightarrow> streamWriter \<Rightarrow> gateErr option \<times> attemptCommitGate \<times> streamWriter" where
  "flushHoldbackLocked dec env g w =
     (if g_checkpointBlocked g then (Some ErrAttemptCheckpointFailed, g, w)
      else if g_discarded g \<or> g_committed g \<or> g_holdbackWindow g \<le> 0 \<or> \<not> g_holdbackOpened g \<or> g_bufferLen g = 0 then (None, g, w)
      else case checkpointStateAdvance env FrameClassContent g of
        (Some e, g1) \<Rightarrow> (Some e, g1, w)
      | (None, g1) \<Rightarrow> commitFlush dec g1 w)"

definition gate_Commit ::
  "jsonDec \<Rightarrow> gateEnv \<Rightarrow> attemptCommitGate \<Rightarrow> streamWriter \<Rightarrow> gateErr option \<times> attemptCommitGate \<times> streamWriter" where
  "gate_Commit dec env g w =
     (if g_checkpointBlocked g then (Some ErrAttemptCheckpointFailed, g, w)
      else if g_discarded g then (Some ErrAttemptAlreadyCommitted, g, w)
      else if g_checkpointHook g \<and> g_checkpointedState g < g_state g
      then let st = g_state g; g1 = discardIf (ge_discard1 env) g
           in if g_discarded g1 then (Some ErrAttemptDiscarded, g1, w)
              else if \<not> ge_hook env st then (Some ErrAttemptCheckpointFailed, blockCheckpointLocked g1, w)
              else commitFlush dec (g1\<lparr>g_checkpointedState := st\<rparr>) w
      else commitFlush dec g w)"
section \<open>The L2 replay gate\<close>

definition bufferReplayFrame :: "frameClass \<Rightarrow> string \<Rightarrow> replayAlignmentState \<Rightarrow> replayAlignmentState option" where
  "bufferReplayFrame class frame st =
     (if rl_maxRaw st < rl_rawLen st + length frame then None
      else let obs = l2SemanticObservation class frame
           in Some (st\<lparr>rl_frames := rl_frames st @ [\<lparr>rf_raw = frame, rf_normStart = length (rl_norm st),
                                                   rf_normEnd = length (rl_norm st) + length obs\<rparr>],
                       rl_norm := rl_norm st @ obs, rl_rawLen := rl_rawLen st + length frame\<rparr>))"

definition missReplay :: "replayAlignmentState \<Rightarrow> replayAlignmentState" where
  "missReplay st = st\<lparr>rl_decided := True, rl_missed := True\<rparr>"

definition setAlign :: "replayAlignmentState \<Rightarrow> attemptCommitGate \<Rightarrow> attemptCommitGate" where
  "setAlign st g = g\<lparr>g_align := Some st\<rparr>"

fun forwardFrames :: "jsonDec \<Rightarrow> gateEnv \<Rightarrow> string list \<Rightarrow> attemptCommitGate \<Rightarrow> streamWriter \<Rightarrow>
    gateErr option \<times> attemptCommitGate \<times> streamWriter" where
  "forwardFrames dec env [] g w = (None, g, w)"
| "forwardFrames dec env (raw # raws) g w =
     (let cls = ClassifyClientFrame dec (g_protocol g) raw
      in case checkpointStateAdvance env cls g of
           (Some e, g1) \<Rightarrow> (Some e, g1, w)
         | (None, g1) \<Rightarrow> (case sw_Write raw w of
             (Some e, w1) \<Rightarrow> (Some e, g1, w1)
           | (None, w1) \<Rightarrow> forwardFrames dec env raws (markFirstSemanticByteLocked cls (observeFrameLocked cls raw g1)) w1))"

definition replaySuffix :: "nat \<Rightarrow> replayBufferedFrame list \<Rightarrow> replayBufferedFrame list" where
  "replaySuffix off fs = dropWhile (\<lambda>f. \<not> (rf_normStart f < rf_normEnd f \<and> off \<le> rf_normStart f)) fs"

definition forwardReplaySuffixLocked :: "jsonDec \<Rightarrow> gateEnv \<Rightarrow> prefixAlignment \<Rightarrow> replayAlignmentState \<Rightarrow> attemptCommitGate \<Rightarrow>
    streamWriter \<Rightarrow> gateErr option \<times> attemptCommitGate \<times> streamWriter" where
  "forwardReplaySuffixLocked dec env res st g w =
     (let suffix = map rf_raw (replaySuffix (al_SuffixOffset res) (rl_frames st));
          g1 = setAlign (st\<lparr>rl_frames := [], rl_norm := [], rl_rawLen := 0\<rparr>) g
      in if suffix = [] then (None, g1, w)
         else case forwardFrames dec env suffix (g1\<lparr>g_committed := True\<rparr>) w of
                (Some e, g2, w1) \<Rightarrow> (Some e, g2, w1)
              | (None, g2, w1) \<Rightarrow> (case sw_FlushError w1 of (e, w2) \<Rightarrow> (e, g2, w2)))"

definition decideReplayAlignmentLocked :: "jsonDec \<Rightarrow> gateEnv \<Rightarrow> replayAlignmentState \<Rightarrow> attemptCommitGate \<Rightarrow> streamWriter \<Rightarrow>
    gateErr option \<times> attemptCommitGate \<times> streamWriter" where
  "decideReplayAlignmentLocked dec env st g w =
     (let res = Align (rl_aligner st) (rl_committed st) (rl_norm st); st1 = st\<lparr>rl_decided := True, rl_result := res\<rparr>
      in if \<not> al_Aligned res then (Some ErrL2AlignmentMiss, setAlign (st1\<lparr>rl_missed := True\<rparr>) g, w)
         else let st2 = st1\<lparr>rl_aligned := True\<rparr>
              in case checkpointStateAdvance env FrameClassContent (setAlign st2 g) of
                   (Some e, g1) \<Rightarrow> (Some e, g1, w)
                 | (None, g1) \<Rightarrow> forwardReplaySuffixLocked dec env res st2 g1 w)"

definition forwardReplayPassthroughLocked :: "gateEnv \<Rightarrow> frameClass \<Rightarrow> string \<Rightarrow> attemptCommitGate \<Rightarrow> streamWriter \<Rightarrow>
    gateErr option \<times> attemptCommitGate \<times> streamWriter" where
  "forwardReplayPassthroughLocked env class frame g w =
     (case checkpointStateAdvance env class g of
        (Some e, g1) \<Rightarrow> (Some e, g1, w)
      | (None, g1) \<Rightarrow> (let g2 = g1\<lparr>g_committed := True\<rparr> in case writeFlush frame w of
          (Some e, w1) \<Rightarrow> (Some e, g2, w1)
        | (None, w1) \<Rightarrow> (None, markFirstSemanticByteLocked class (observeFrameLocked class frame g2), w1)))"

definition writeFrameReplayAlignedLocked :: "jsonDec \<Rightarrow> gateEnv \<Rightarrow> frameClass \<Rightarrow> string \<Rightarrow> replayAlignmentState \<Rightarrow>
    attemptCommitGate \<Rightarrow> streamWriter \<Rightarrow> gateErr option \<times> attemptCommitGate \<times> streamWriter" where
  "writeFrameReplayAlignedLocked dec env class frame st g w =
     (if rl_decided st
      then if \<not> rl_aligned st then (Some ErrL2AlignmentMiss, g, w) else forwardReplayPassthroughLocked env class frame g w
      else case bufferReplayFrame class frame st of
        None \<Rightarrow> (Some ErrL2AlignmentMiss, setAlign (missReplay st) g, w)
      | Some st1 \<Rightarrow> if rl_needBytes st1 \<le> length (rl_norm st1) then decideReplayAlignmentLocked dec env st1 (setAlign st1 g) w
                   else (None, setAlign st1 g, w))"

definition finishReplayAttemptLocked :: "jsonDec \<Rightarrow> gateEnv \<Rightarrow> string \<Rightarrow> replayAlignmentState \<Rightarrow> attemptCommitGate \<Rightarrow>
    streamWriter \<Rightarrow> gateErr option \<times> attemptCommitGate \<times> streamWriter" where
  "finishReplayAttemptLocked dec env partial st g w =
     (let class = ClassifyClientFrame dec (g_protocol g) partial
      in if rl_missed st then (Some ErrL2AlignmentMiss, g, w)
         else if \<not> rl_decided st
         then (case (if partial \<noteq> [] then bufferReplayFrame class partial st else Some st) of
                 None \<Rightarrow> (Some ErrL2AlignmentMiss, setAlign (missReplay st) g, w)
               | Some st1 \<Rightarrow>
                   if rl_norm st1 = [] then (Some ErrL2AlignmentMiss, setAlign (missReplay st1) g, w)
                   else case decideReplayAlignmentLocked dec env st1 (setAlign st1 g) w of
                     (Some e, g1, w1) \<Rightarrow> (Some e, g1, w1)
                   | (None, g1, w1) \<Rightarrow> (case sw_FlushError w1 of (e, w2) \<Rightarrow> (e, g1, w2)))
         else if \<not> rl_aligned st then (Some ErrL2AlignmentMiss, g, w)
         else if partial = [] then (case sw_FlushError w of (e, w1) \<Rightarrow> (e, g, w1))
         else forwardReplayPassthroughLocked env class partial g w)"

definition AlignmentOutcome :: "attemptCommitGate \<Rightarrow> bool \<times> prefixAlignment" where
  "AlignmentOutcome g = (case g_align g of None \<Rightarrow> (False, noAlignment) | Some st \<Rightarrow> (rl_decided st, rl_result st))"

datatype shadowVerdict = ShadowOverflow | ShadowUnavailable | ShadowUndecided | ShadowAligned | ShadowMiss

definition finishShadow :: "attemptCommitGate \<Rightarrow> shadowVerdict option \<times> attemptCommitGate" where
  "finishShadow g = (case g_shadow g of
     None \<Rightarrow> (None, g)
   | Some st \<Rightarrow>
       if sh_reported st then (None, g)
       else let st1 = (if \<not> sh_decided st \<and> \<not> sh_overflow st
                       then if sh_norm st = [] then st\<lparr>sh_decided := True\<rparr>
                            else if px_TotalBytes (sh_committed st) \<le> length (sh_norm st)
                            then st\<lparr>sh_result := Align (sh_aligner st) (sh_committed st) (sh_norm st), sh_decided := True\<rparr>
                            else st
                       else st)
            in (Some (if sh_overflow st1 then ShadowOverflow else if sh_norm st1 = [] then ShadowUnavailable
                      else if \<not> sh_decided st1 then ShadowUndecided
                      else if al_Aligned (sh_result st1) then ShadowAligned else ShadowMiss),
                g\<lparr>g_shadow := Some (st1\<lparr>sh_reported := True\<rparr>)\<rparr>))"

section \<open>Writing frames and finishing\<close>

definition WriteFrame ::
  "jsonDec \<Rightarrow> gateEnv \<Rightarrow> string \<Rightarrow> attemptCommitGate \<Rightarrow> streamWriter \<Rightarrow> gateErr option \<times> attemptCommitGate \<times> streamWriter" where
  "WriteFrame dec env frame g w =
     (let class = ClassifyClientFrame dec (g_protocol g) frame
      in if g_checkpointBlocked g then (Some ErrAttemptCheckpointFailed, g, w)
         else if g_discarded g then (Some ErrAttemptDiscarded, g, w)
         else if class = FrameClassKeepalive
         then if g_mode g = GateModeBuffered \<and> \<not> g_committed g \<and> 0 < g_bufferLen g
              then (case appendBufferedLocked env frame g of (e, g1) \<Rightarrow> (e, g1, w))
              else (case writeFlush frame w of (e, w1) \<Rightarrow> (e, discardIf (ge_discard1 env) g, w1))
         else case g_align g of
           Some st \<Rightarrow> writeFrameReplayAlignedLocked dec env class frame st g w
         | None \<Rightarrow>
             (case (if g_mode g = GateModeBuffered \<and> \<not> g_committed g \<and> isSemanticClass class
                    then holdbackTryHoldLocked env frame g else (False, None, g)) of
                (held, e, g1) \<Rightarrow>
                  if held \<or> e \<noteq> None then (e, g1, w)
                  else case checkpointStateAdvance env class g1 of
                    (Some e, g2) \<Rightarrow> (Some e, g2, w)
                  | (None, g2) \<Rightarrow>
                      if g_mode g2 = GateModeImmediate \<or> g_committed g2
                      then (let g3 = discardIf (ge_discard2 env) g2 in case writeFlush frame w of
                              (Some e, w1) \<Rightarrow> (Some e, g3, w1)
                            | (None, w1) \<Rightarrow> (None, observeFrameLocked class frame (markFirstSemanticByteLocked class g3), w1))
                      else if isSemanticClass class
                      then (let buffer = g_buffer g2; g3 = g2\<lparr>g_buffer := [], g_bufferLen := 0, g_committed := True\<rparr>
                            in case (if buffer \<noteq> [] then sw_Write buffer w else (None, w)) of
                                 (Some e, w1) \<Rightarrow> (Some e, g3, w1)
                               | (None, w1) \<Rightarrow> (case writeFlush frame w1 of
                                   (Some e, w2) \<Rightarrow> (Some e, g3, w2)
                                 | (None, w2) \<Rightarrow> (None, observeFrameLocked class frame
                                     (observeWrittenBytesLocked dec buffer (markFirstSemanticByteLocked class g3)), w2)))
                      else (case appendBufferedLocked env frame g2 of (e, g3) \<Rightarrow> (e, g3, w))))"

definition isPartialTerminalFrame :: "clientProtocol \<Rightarrow> string \<Rightarrow> bool" where
  "isPartialTerminalFrame protocol partial =
     (let trimmed = TrimSpace partial
      in case protocol of
           ProtocolOpenAIChat \<Rightarrow> trimmed = ''data: [DONE]''
         | ProtocolOpenAIResponses \<Rightarrow> strContains trimmed ''event: response.completed''
             \<or> strContains trimmed (CHR 0x22 # ''type'' @ [CHR 0x22, CHR '':'', CHR 0x22] @ ''response.completed'' @ [CHR 0x22])
         | ProtocolAnthropic \<Rightarrow> strContains trimmed ''event: message_stop''
             \<or> strContains trimmed (CHR 0x22 # ''type'' @ [CHR 0x22, CHR '':'', CHR 0x22] @ ''message_stop'' @ [CHR 0x22]))"

definition FinishAttempt ::
  "jsonDec \<Rightarrow> gateEnv \<Rightarrow> string \<Rightarrow> attemptCommitGate \<Rightarrow> streamWriter \<Rightarrow> gateErr option \<times> attemptCommitGate \<times> streamWriter" where
  "FinishAttempt dec env partial g w =
     (if g_checkpointBlocked g then (Some ErrAttemptCheckpointFailed, g, w)
      else if g_discarded g then (Some ErrAttemptDiscarded, g, w)
      else case g_align g of
        Some st \<Rightarrow> finishReplayAttemptLocked dec env partial st g w
      | None \<Rightarrow>
          if partial = []
          then if g_mode g = GateModeImmediate \<or> g_committed g then (case sw_FlushError w of (e, w1) \<Rightarrow> (e, g, w1))
               else flushHoldbackLocked dec env g w
          else let class = ClassifyClientFrame dec (g_protocol g) partial; terminal = isPartialTerminalFrame (g_protocol g) partial
               in case (if terminal then checkpointStateAdvance env class g else (None, g)) of
                    (Some e, g1) \<Rightarrow> (Some e, g1, w)
                  | (None, g1) \<Rightarrow>
                      if g_mode g1 = GateModeImmediate \<or> g_committed g1
                      then (case writeFlush partial w of
                              (Some e, w1) \<Rightarrow> (Some e, g1, w1)
                            | (None, w1) \<Rightarrow>
                                let g2 = (if g_mode g1 = GateModeImmediate then g1\<lparr>g_committed := True\<rparr> else g1)
                                in (None, observeFrameLocked class partial (markFirstSemanticByteLocked class g2), w1))
                      else if \<not> terminal then (case appendBufferedLocked env partial g1 of (e, g2) \<Rightarrow> (e, g2, w))
                      else (case commitLocked dec g1 w of
                              (Some e, g2, w1) \<Rightarrow> (Some e, g2, w1)
                            | (None, g2, w1) \<Rightarrow> (case sw_Write partial w1 of
                                (Some e, w2) \<Rightarrow> (Some e, g2, w2)
                              | (None, w2) \<Rightarrow> (case sw_FlushError w2 of
                                  (e, w3) \<Rightarrow> (e, observeFrameLocked class partial (markFirstSemanticByteLocked class g2), w3)))))"

section \<open>The byte-oriented writer\<close>

record gateWriter =
  gw_gate :: attemptCommitGate
  gw_pending :: string

text \<open>The loop of \<open>Write\<close>; the environment of the \<open>k\<close>-th call of \<open>WriteFrame\<close> is \<open>envs k\<close>.\<close>

function gw_loop :: "jsonDec \<Rightarrow> (nat \<Rightarrow> gateEnv) \<Rightarrow> nat \<Rightarrow> gateWriter \<Rightarrow> streamWriter \<Rightarrow> gateErr option \<times> gateWriter \<times> streamWriter" where
  "gw_loop dec envs k gw w = (case frameBoundary (gw_pending gw) of
     None \<Rightarrow> (None, gw, w)
   | Some n \<Rightarrow> (case WriteFrame dec (envs k) (take n (gw_pending gw)) (gw_gate gw) w of
       (e, g1, w1) \<Rightarrow> (let gw1 = gw\<lparr>gw_gate := g1, gw_pending := drop n (gw_pending gw)\<rparr>
         in case e of Some err \<Rightarrow> (Some err, gw1, w1) | None \<Rightarrow> gw_loop dec envs (Suc k) gw1 w1)))"
  by pat_completeness auto
termination
  by (relation "measure (\<lambda>(dec, envs, k, gw, w). length (gw_pending gw))") (auto dest: frameBoundary_bounds)

declare gw_loop.simps [simp del]

definition gw_Write :: "jsonDec \<Rightarrow> (nat \<Rightarrow> gateEnv) \<Rightarrow> string \<Rightarrow> gateWriter \<Rightarrow> streamWriter \<Rightarrow> gateErr option \<times> gateWriter \<times> streamWriter" where
  "gw_Write dec envs p gw w = gw_loop dec envs 0 (gw\<lparr>gw_pending := gw_pending gw @ p\<rparr>) w"

definition gw_Finish :: "jsonDec \<Rightarrow> gateEnv \<Rightarrow> gateWriter \<Rightarrow> streamWriter \<Rightarrow> gateErr option \<times> gateWriter \<times> streamWriter" where
  "gw_Finish dec env gw w = (case FinishAttempt dec env (gw_pending gw) (gw_gate gw) w of
     (e, g, w1) \<Rightarrow> (e, gw\<lparr>gw_gate := g, gw_pending := []\<rparr>, w1))"

definition gw_DrainPending :: "jsonDec \<Rightarrow> gateEnv \<Rightarrow> gateWriter \<Rightarrow> streamWriter \<Rightarrow> gateErr option \<times> gateWriter \<times> streamWriter" where
  "gw_DrainPending dec env gw w =
     (let pending = gw_pending gw
      in if pending = [] \<or> \<not> (g_committed (gw_gate gw) \<or> g_mode (gw_gate gw) = GateModeImmediate) then (None, gw, w)
         else if extractPayload pending = [] \<or> \<not> validateSSEDataFrame dec pending then (None, gw\<lparr>gw_pending := []\<rparr>, w)
         else (case WriteFrame dec env ((if last pending = NL then pending else pending @ [NL]) @ [NL]) (gw_gate gw) w of
                 (e, g, w1) \<Rightarrow> (e, gw\<lparr>gw_gate := g, gw_pending := []\<rparr>, w1)))"

end
