(* ===== verification/GateSafety.thy ===== *)
theory GateSafety
  imports CommitGate
begin

text \<open>
  What the commit gate guarantees, for every sequence of calls and every interleaved \<open>Discard\<close>: it
  keeps the order of the frames and loses none, a discarded attempt leaves no trace but keepalives,
  semantic bytes are checkpointed before they are written, the metadata buffer is bounded, and the
  shadow observer changes nothing. Two races and the understated state of held tool calls show where the
  comments promise more.
\<close>

section \<open>The writer while the connection answers well\<close>

text \<open>
  No write or flush fails and the client is not detached. The theory \<open>ConnectionCut\<close> reduces the other runs
  to these: on a failing connection the client has a prefix of the bytes a healthy one takes from the same calls.
\<close>

definition healthy :: "streamWriter \<Rightarrow> bool" where
  "healthy w \<longleftrightarrow> \<not> sw_detached w \<and> sw_answers w = []"

definition sw_put :: "string \<Rightarrow> streamWriter \<Rightarrow> streamWriter" where
  "sw_put p w = sw_captureBytes p (w\<lparr>sw_out := sw_out w @ p\<rparr>)"

lemma sw_put_simps [simp]: "healthy (sw_put p w) = healthy w" "sw_out (sw_put p w) = sw_out w @ p"
  by (simp_all add: sw_put_def healthy_def sw_captureBytes_def)

lemma healthy_Write [simp]: "healthy w \<Longrightarrow> sw_Write p w = (None, sw_put p w)"
  by (simp add: sw_Write_def sw_write_def sw_next_def healthy_def sw_put_def Let_def)

lemma healthy_Flush [simp]: "healthy w \<Longrightarrow> sw_FlushError w = (None, w)"
  by (simp add: sw_FlushError_def sw_next_def healthy_def)

lemma healthy_writeFlush [simp]: "healthy w \<Longrightarrow> writeFlush p w = (None, sw_put p w)"
  by (simp add: writeFlush_def)

section \<open>What the parts of an operation change\<close>

text \<open>The fields that the buffers and the observers leave alone.\<close>

definition sameGate :: "attemptCommitGate \<Rightarrow> attemptCommitGate \<Rightarrow> bool" where
  "sameGate g g' \<longleftrightarrow> g_mode g' = g_mode g \<and> g_protocol g' = g_protocol g \<and> g_committed g' = g_committed g
     \<and> g_discarded g' = g_discarded g \<and> g_align g' = g_align g \<and> g_state g' = g_state g
     \<and> g_checkpointedState g' = g_checkpointedState g \<and> g_checkpointBlocked g' = g_checkpointBlocked g
     \<and> g_checkpointHook g' = g_checkpointHook g \<and> g_holdbackWindow g' = g_holdbackWindow g \<and> g_maxMetadata g' = g_maxMetadata g"

lemma sameGate_refl [simp]: "sameGate g g"
  by (simp add: sameGate_def)

lemma sameGate_trans: "sameGate g g1 \<Longrightarrow> sameGate g1 g2 \<Longrightarrow> sameGate g g2"
  by (simp add: sameGate_def)

lemma sameGate_fields:
  assumes "sameGate g g'"
  shows "g_mode g' = g_mode g" "g_protocol g' = g_protocol g" "g_committed g' = g_committed g" "g_discarded g' = g_discarded g"
    "g_align g' = g_align g" "g_state g' = g_state g" "g_checkpointedState g' = g_checkpointedState g"
    "g_checkpointBlocked g' = g_checkpointBlocked g" "g_checkpointHook g' = g_checkpointHook g"
    "g_holdbackWindow g' = g_holdbackWindow g" "g_maxMetadata g' = g_maxMetadata g"
  using assms by (auto simp: sameGate_def)

definition sameBuffer :: "attemptCommitGate \<Rightarrow> attemptCommitGate \<Rightarrow> bool" where
  "sameBuffer g g' \<longleftrightarrow> sameGate g g' \<and> g_buffer g' = g_buffer g \<and> g_bufferLen g' = g_bufferLen g
     \<and> g_holdbackOpened g' = g_holdbackOpened g"

lemma sameBuffer_mark: "sameBuffer g (markFirstSemanticByteLocked c g)"
  by (simp add: sameBuffer_def sameGate_def markFirstSemanticByteLocked_def)

lemma sameBuffer_observe: "sameBuffer g (observeFrameLocked c f g)"
  by (simp add: sameBuffer_def sameGate_def observeFrameLocked_def Let_def)

lemma sameBuffer_trans: "sameBuffer g g1 \<Longrightarrow> sameBuffer g1 g2 \<Longrightarrow> sameBuffer g g2"
  by (auto simp: sameBuffer_def intro: sameGate_trans)

lemma sameBuffer_written: "sameBuffer g (observeWrittenBytesLocked dec buf g)"
proof -
  have "sameBuffer g (foldl (\<lambda>g frame. observeFrameLocked (ClassifyClientFrame dec (g_protocol g) frame) frame g) g fs)" for fs
  proof (induction fs rule: rev_induct)
    case (snoc f fs)
    then show ?case by (auto intro: sameBuffer_trans sameBuffer_observe)
  qed (simp add: sameBuffer_def)
  then show ?thesis by (simp add: observeWrittenBytesLocked_def)
qed

lemma sameBuffer_fields:
  assumes "sameBuffer g g'"
  shows "g_mode g' = g_mode g" "g_protocol g' = g_protocol g" "g_committed g' = g_committed g" "g_discarded g' = g_discarded g"
    "g_align g' = g_align g" "g_state g' = g_state g" "g_checkpointedState g' = g_checkpointedState g"
    "g_checkpointBlocked g' = g_checkpointBlocked g" "g_checkpointHook g' = g_checkpointHook g"
    "g_holdbackWindow g' = g_holdbackWindow g" "g_maxMetadata g' = g_maxMetadata g" "g_buffer g' = g_buffer g"
    "g_bufferLen g' = g_bufferLen g" "g_holdbackOpened g' = g_holdbackOpened g"
  using assms by (auto simp: sameBuffer_def sameGate_def)

lemmas mark_fields [simp] = sameBuffer_fields [OF sameBuffer_mark]
lemmas observe_fields [simp] = sameBuffer_fields [OF sameBuffer_observe]
lemmas written_fields [simp] = sameBuffer_fields [OF sameBuffer_written]

lemma discardIf_fields [simp]:
  "g_mode (discardIf d g) = g_mode g" "g_protocol (discardIf d g) = g_protocol g" "g_committed (discardIf d g) = g_committed g"
  "g_align (discardIf d g) = g_align g" "g_checkpointedState (discardIf d g) = g_checkpointedState g"
  "g_checkpointHook (discardIf d g) = g_checkpointHook g" "g_holdbackWindow (discardIf d g) = g_holdbackWindow g"
  "g_maxMetadata (discardIf d g) = g_maxMetadata g"
  by (simp_all add: discardIf_def Discard_def)

lemma discardIf_refused: "g_committed g \<or> CommitStateContent \<le> g_state g \<Longrightarrow> discardIf d g = g"
  by (simp add: discardIf_def Discard_def)

lemma discardIf_cases:
  "discardIf d g = g \<or> (\<not> g_committed g \<and> g_discarded (discardIf d g) \<and> g_buffer (discardIf d g) = [] \<and> g_bufferLen (discardIf d g) = 0
     \<and> g_state (discardIf d g) = CommitStateNone)"
  by (simp add: discardIf_def Discard_def)

lemma append_effect:
  assumes "appendBufferedLocked env frame g = (e, g')"
  shows "sameGate g g' \<and> g_holdbackOpened g' = g_holdbackOpened g \<and>
    (if e = None then g_buffer g' = g_buffer g @ frame \<and> g_bufferLen g' = g_bufferLen g + length frame
         \<and> int (g_bufferLen g') \<le> g_maxMetadata g
     else g_buffer g' = g_buffer g \<and> g_bufferLen g' = g_bufferLen g)"
  using assms by (auto simp: appendBufferedLocked_def Let_def not_less sameGate_def split: option.splits if_splits)

lemma hold_effect:
  assumes "holdbackTryHoldLocked env frame g = (held, e, g')"
  shows "sameGate g g' \<and> (held \<longrightarrow> e = None \<and> g_holdbackOpened g') \<and> (held \<or> e \<noteq> None \<longrightarrow> 0 < g_holdbackWindow g) \<and>
    (if held then g_buffer g' = g_buffer g @ frame \<and> g_bufferLen g' = g_bufferLen g + length frame
         \<and> int (g_bufferLen g') \<le> g_maxMetadata g
     else g_buffer g' = g_buffer g \<and> g_bufferLen g' = g_bufferLen g)"
proof (cases "g_holdbackWindow g \<le> 0")
  case True
  then have "\<not> held" "e = None" "g' = g" using assms by (simp_all add: holdbackTryHoldLocked_def)
  then show ?thesis by simp
next
  case False
  define g1 where "g1 = (if g_holdbackOpened g then g else g\<lparr>g_holdbackOpened := True, g_holdbackOpenAt := ge_tHold env\<rparr>)"
  have g1: "sameGate g g1" "g_holdbackOpened g1" "g_buffer g1 = g_buffer g" "g_bufferLen g1 = g_bufferLen g"
    by (simp_all add: g1_def sameGate_def)
  note h = assms [unfolded holdbackTryHoldLocked_def Let_def, folded g1_def, unfolded if_not_P [OF False]]
  show ?thesis
  proof (cases "g_holdbackMaxChunks g1 \<le> g_holdbackHeld g1 \<or> g_holdbackWindow g1 \<le> ge_tHold env - g_holdbackOpenAt g1")
    case True
    then have "\<not> held" "e = None" "g' = g1" using h by simp_all
    then show ?thesis using g1 by simp
  next
    case nf: False
    obtain e2 g2 where a: "appendBufferedLocked env frame g1 = (e2, g2)" by (metis surj_pair)
    note ae = append_effect [OF a]
    show ?thesis
    proof (cases e2)
      case None
      then have "held" "e = None" and g': "g' = g2\<lparr>g_holdbackHeld := g_holdbackHeld g2 + 1\<rparr>" using h nf a by simp_all
      moreover have "sameGate g2 g'" "g_buffer g' = g_buffer g2" "g_bufferLen g' = g_bufferLen g2" "g_holdbackOpened g' = g_holdbackOpened g2"
        by (simp_all add: g' sameGate_def)
      moreover have "sameGate g g'" using \<open>sameGate g2 g'\<close> ae g1(1) sameGate_trans by blast
      ultimately show ?thesis using ae g1 None False by (simp add: sameGate_def)
    next
      case (Some x)
      then have "\<not> held" "e = Some x" "g' = g2" using h nf a by simp_all
      moreover have "sameGate g g'" using \<open>g' = g2\<close> ae g1(1) sameGate_trans by blast
      ultimately show ?thesis using ae g1 Some False by simp
    qed
  qed
qed

lemma semantic_state: "isSemanticClass class \<Longrightarrow> \<exists>n. stateOfClass class = Some n \<and> CommitStateContent \<le> n"
  by (cases "class") (simp_all add: isSemanticClass_def less_eq_commitState_def)

lemma advance_cases:
  assumes "advanceStateLocked class g = (adv, g1)"
  obtains (same) "\<not> adv" "g1 = g"
  | (up) n where "adv" "stateOfClass class = Some n" "g_state g < n" "g1 = g\<lparr>g_state := n\<rparr>"
  using assms by (cases "stateOfClass class") (auto simp: advanceStateLocked_def split: if_splits)

text \<open>The gate after the state has been advanced for a class.\<close>

abbreviation advanced :: "frameClass \<Rightarrow> attemptCommitGate \<Rightarrow> attemptCommitGate" where
  "advanced c g \<equiv> snd (advanceStateLocked c g)"

lemma advanced_fields [simp]:
  "g_mode (advanced c g) = g_mode g" "g_protocol (advanced c g) = g_protocol g" "g_committed (advanced c g) = g_committed g"
  "g_align (advanced c g) = g_align g" "g_discarded (advanced c g) = g_discarded g"
  "g_checkpointHook (advanced c g) = g_checkpointHook g" "g_holdbackWindow (advanced c g) = g_holdbackWindow g"
  "g_maxMetadata (advanced c g) = g_maxMetadata g" "g_buffer (advanced c g) = g_buffer g" "g_bufferLen (advanced c g) = g_bufferLen g"
  "g_checkpointedState (advanced c g) = g_checkpointedState g" "g_checkpointBlocked (advanced c g) = g_checkpointBlocked g"
  by (simp_all add: advanceStateLocked_def split: option.splits)

lemma advanced_state:
  "g_state (advanced c g) = (case stateOfClass c of None \<Rightarrow> g_state g | Some n \<Rightarrow> max (g_state g) n)"
  "fst (advanceStateLocked c g) \<longleftrightarrow> (\<exists>n. stateOfClass c = Some n \<and> g_state g < n)"
  by (auto simp: advanceStateLocked_def max_def split: option.splits)

lemma advanced_semantic: "isSemanticClass c \<Longrightarrow> CommitStateContent \<le> g_state (advanced c g)"
  using semantic_state [of c] by (auto simp: advanced_state le_max_iff_disj)

text \<open>The states in which a concurrent \<open>Discard\<close> is refused.\<close>

definition locked :: "frameClass \<Rightarrow> attemptCommitGate \<Rightarrow> bool" where
  "locked c g \<longleftrightarrow> g_mode g = GateModeBuffered \<or> isSemanticClass c \<or> g_committed g"

lemma keep_checkpointed: "g_checkpointedState x = v \<Longrightarrow> x\<lparr>g_checkpointedState := v\<rparr> = x" for x :: attemptCommitGate
  by simp

lemma checkpoint_cases:
  assumes "checkpointStateAdvance env c g = (e, g')"
  obtains (quiet) "e = None" "g' = advanced c g"
      "\<not> fst (advanceStateLocked c g) \<or> \<not> g_checkpointHook g \<or> (g_mode g \<noteq> GateModeImmediate \<and> \<not> g_committed g \<and> \<not> isSemanticClass c)"
  | (failed) "e = Some ErrAttemptCheckpointFailed" "g' = blockCheckpointLocked (discardIf (ge_discard1 env) (advanced c g))"
      "fst (advanceStateLocked c g)" "locked c g \<longrightarrow> g' = blockCheckpointLocked (advanced c g)"
  | (saved) "e = None" "fst (advanceStateLocked c g)"
      "g' = (discardIf (ge_discard1 env) (advanced c g))\<lparr>g_checkpointedState := max (g_checkpointedState g) (g_state (advanced c g))\<rparr>"
      "locked c g \<longrightarrow> g' = (advanced c g)\<lparr>g_checkpointedState := max (g_checkpointedState g) (g_state (advanced c g))\<rparr>"
proof (cases "\<not> fst (advanceStateLocked c g) \<or> \<not> g_checkpointHook g \<or> (g_mode g \<noteq> GateModeImmediate \<and> \<not> g_committed g \<and> \<not> isSemanticClass c)")
  case True
  then have "e = None" "g' = advanced c g" using assms by (auto simp: checkpointStateAdvance_def case_prod_beta)
  then show thesis using True quiet by blast
next
  case False
  let ?g2 = "discardIf (ge_discard1 env) (advanced c g)"
  have l: "?g2 = advanced c g" if "locked c g"
    using that False advanced_semantic [of c g] by (intro discardIf_refused) (auto simp: locked_def)
  have r: "(e, g') = (if \<not> ge_hook env (g_state (advanced c g)) then (Some ErrAttemptCheckpointFailed, blockCheckpointLocked ?g2)
      else (None, if g_checkpointedState ?g2 < g_state (advanced c g) then ?g2\<lparr>g_checkpointedState := g_state (advanced c g)\<rparr> else ?g2))"
    using assms False by (auto simp: checkpointStateAdvance_def case_prod_beta Let_def split: if_splits)
  show thesis
  proof (cases "ge_hook env (g_state (advanced c g))")
    case True
    have "g' = ?g2\<lparr>g_checkpointedState := max (g_checkpointedState g) (g_state (advanced c g))\<rparr>"
    proof (cases "g_checkpointedState g < g_state (advanced c g)")
      case True
      then show ?thesis using r \<open>ge_hook env _\<close> by (simp add: max_def)
    next
      case False
      then have "g' = ?g2" using r True by simp
      moreover have "?g2\<lparr>g_checkpointedState := g_checkpointedState g\<rparr> = ?g2" by (rule keep_checkpointed) simp
      moreover have "max (g_checkpointedState g) (g_state (advanced c g)) = g_checkpointedState g" using False by (simp add: max_def not_less)
      ultimately show ?thesis by simp
    qed
    then show thesis using r True False l saved by auto
  next
    case nh: False
    then show thesis using r False l failed by auto
  qed
qed
section \<open>Every way a call can end\<close>

text \<open>\<open>WriteFrame\<close> on a gate without replay alignment, while the connection answers well.\<close>

lemma WriteFrame_cases:
  assumes "WriteFrame dec env frame g w = (e, g', w')" "g_align g = None" "healthy w"
  defines "c \<equiv> ClassifyClientFrame dec (g_protocol g) frame"
  obtains (refused) x where "e = Some x" "g' = g" "w' = w" "g_checkpointBlocked g \<or> g_discarded g"
  | (queued) "\<not> g_checkpointBlocked g" "\<not> g_discarded g" "c = FrameClassKeepalive" "g_mode g = GateModeBuffered" "\<not> g_committed g"
      "appendBufferedLocked env frame g = (e, g')" "w' = w" "0 < g_bufferLen g"
  | (alive) "\<not> g_checkpointBlocked g" "\<not> g_discarded g" "c = FrameClassKeepalive" "e = None" "g' = discardIf (ge_discard1 env) g"
      "w' = sw_put frame w" "g_mode g = GateModeBuffered \<longrightarrow> g_committed g \<or> g_bufferLen g = 0"
  | (held) h where "\<not> g_checkpointBlocked g" "\<not> g_discarded g" "isSemanticClass c" "g_mode g = GateModeBuffered" "\<not> g_committed g"
      "holdbackTryHoldLocked env frame g = (h, e, g')" "h \<or> e \<noteq> None" "w' = w"
  | (failed) g1 x where "\<not> g_checkpointBlocked g" "\<not> g_discarded g" "c \<noteq> FrameClassKeepalive" "sameGate g g1"
      "g_buffer g1 = g_buffer g" "g_bufferLen g1 = g_bufferLen g" "e = Some x" "checkpointStateAdvance env c g1 = (e, g')" "w' = w"
  | (through) g1 g2 where "\<not> g_checkpointBlocked g" "\<not> g_discarded g" "c \<noteq> FrameClassKeepalive" "sameGate g g1"
      "g_buffer g1 = g_buffer g" "g_bufferLen g1 = g_bufferLen g" "checkpointStateAdvance env c g1 = (None, g2)"
      "g_mode g = GateModeImmediate \<or> g_committed g" "e = None" "sameBuffer (discardIf (ge_discard2 env) g2) g'" "w' = sw_put frame w"
  | (committing) g1 g2 where "\<not> g_checkpointBlocked g" "\<not> g_discarded g" "isSemanticClass c" "sameGate g g1"
      "g_buffer g1 = g_buffer g" "g_bufferLen g1 = g_bufferLen g" "checkpointStateAdvance env c g1 = (None, g2)"
      "g_mode g = GateModeBuffered" "\<not> g_committed g" "e = None"
      "sameBuffer (g2\<lparr>g_buffer := [], g_bufferLen := 0, g_committed := True\<rparr>) g'"
      "healthy w'" "sw_out w' = sw_out w @ g_buffer g2 @ frame"
  | (metadata) g1 where "\<not> g_checkpointBlocked g" "\<not> g_discarded g" "c \<noteq> FrameClassKeepalive" "\<not> isSemanticClass c"
      "checkpointStateAdvance env c g = (None, g1)" "g_mode g = GateModeBuffered" "\<not> g_committed g"
      "appendBufferedLocked env frame g1 = (e, g')" "w' = w"
proof -
  note W = assms(1) [unfolded WriteFrame_def Let_def, folded c_def]
  show thesis
  proof (cases "g_checkpointBlocked g \<or> g_discarded g")
    case True
    then have "\<exists>x. e = Some x" "g' = g" "w' = w" using W by (auto split: if_splits)
    then obtain x where "e = Some x" "g' = g" "w' = w" by blast
    then show thesis using True by (intro refused [of x])
  next
    case ok: False
    show thesis
    proof (cases "c = FrameClassKeepalive")
      case ka: True
      show thesis
      proof (cases "g_mode g = GateModeBuffered \<and> \<not> g_committed g \<and> 0 < g_bufferLen g")
        case True
        then have "appendBufferedLocked env frame g = (e, g')" "w' = w" using W ok ka by (auto split: prod.splits)
        then show thesis using True ok ka by (intro queued) simp_all
      next
        case False
        then have "e = None" "g' = discardIf (ge_discard1 env) g" "w' = sw_put frame w" using W ok ka assms(3) by auto
        then show thesis using False ok ka by (intro alive) auto
      qed
    next
      case nk: False
      obtain h e0 g1 where h: "(if g_mode g = GateModeBuffered \<and> \<not> g_committed g \<and> isSemanticClass c
          then holdbackTryHoldLocked env frame g else (False, None, g)) = (h, e0, g1)" by (metis surj_pair)
      show thesis
      proof (cases "h \<or> e0 \<noteq> None")
        case True
        then have "g_mode g = GateModeBuffered \<and> \<not> g_committed g \<and> isSemanticClass c" using h by (auto split: if_splits)
        moreover have "e = e0" "g' = g1" "w' = w" using W ok nk assms(2) h True by auto
        ultimately show thesis using ok nk h True by (intro held [of h]) simp_all
      next
        case pass: False
        have g1: "sameGate g g1" "g_buffer g1 = g_buffer g" "g_bufferLen g1 = g_bufferLen g"
          "\<not> (g_mode g = GateModeBuffered \<and> \<not> g_committed g \<and> isSemanticClass c) \<longrightarrow> g1 = g"
          using h pass hold_effect [of env frame g h e0 g1] by (auto split: if_splits)
        obtain e2 g2 where cp: "checkpointStateAdvance env c g1 = (e2, g2)" by (metis surj_pair)
        have m2: "g_mode g2 = g_mode g" "g_committed g2 = g_committed g"
          using cp g1(1) by (cases rule: checkpoint_cases; auto simp: sameGate_def blockCheckpointLocked_def)+
        note W2 = W [unfolded h prod.case, simplified, unfolded cp, simplified]
        show thesis
        proof (cases e2)
          case (Some x)
          then have "e = Some x" "g' = g2" "w' = w" using W ok nk assms(2) h pass cp by auto
          then show thesis using ok nk g1 cp Some by (intro failed [of g1 x]) simp_all
        next
          case None
          show thesis
          proof (cases "g_mode g = GateModeImmediate \<or> g_committed g")
            case True
            then have r: "e = None" "g' = observeFrameLocked c frame (markFirstSemanticByteLocked c (discardIf (ge_discard2 env) g2))"
              "w' = sw_put frame w"
              using W ok nk assms(2,3) h pass cp None m2 by (auto simp: Let_def)
            moreover have "sameBuffer (discardIf (ge_discard2 env) g2) g'"
              unfolding r(2) using sameBuffer_mark sameBuffer_observe sameBuffer_trans by blast
            ultimately show thesis using ok nk g1 cp None True by (intro through [of g1 g2]) simp_all
          next
            case buf: False
            then have mode: "g_mode g = GateModeBuffered" by (cases "g_mode g") auto
            show thesis
            proof (cases "isSemanticClass c")
              case True
              let ?g3 = "g2\<lparr>g_buffer := [], g_bufferLen := 0, g_committed := True\<rparr>"
              have r: "e = None" "g' = observeFrameLocked c frame (observeWrittenBytesLocked dec (g_buffer g2) (markFirstSemanticByteLocked c ?g3))"
                "w' = sw_put frame (if g_buffer g2 \<noteq> [] then sw_put (g_buffer g2) w else w)"
                using W ok nk assms(2,3) h pass cp None m2 buf True by (auto simp: Let_def split: if_splits)
              moreover have "sameBuffer ?g3 g'"
                unfolding r(2) using sameBuffer_mark sameBuffer_observe sameBuffer_written sameBuffer_trans by meson
              moreover have "healthy w'" "sw_out w' = sw_out w @ g_buffer g2 @ frame" unfolding r(3) using assms(3) by auto
              ultimately show thesis using ok g1 cp None mode buf True by (intro committing [of g1 g2]) simp_all
            next
              case False
              then have "appendBufferedLocked env frame g2 = (e, g')" "w' = w"
                using W ok nk assms(2) h pass cp None m2 buf by (auto split: prod.splits)
              then show thesis using ok nk g1 cp None mode buf False by (intro metadata [of g2]) auto
            qed
          qed
        qed
      qed
    qed
  qed
qed

text \<open>Releasing the buffer, as \<open>Commit\<close>, \<open>FlushHoldback\<close> and a terminal tail do.\<close>

lemma commit_effect:
  assumes "commitLocked dec g w = (e, g', w')" "healthy w"
  shows "e = None" "healthy w'" "sw_out w' = sw_out w @ g_buffer g"
    "sameBuffer (g\<lparr>g_buffer := [], g_bufferLen := (if g_buffer g = [] then g_bufferLen g else 0), g_committed := True\<rparr>) g'"
  using assms by (auto simp: commitLocked_def Let_def sameBuffer_def sameGate_def split: if_splits)

lemma commitFlush_effect:
  assumes "commitFlush dec g w = (e, g', w')" "healthy w"
  shows "e = None" "healthy w'" "sw_out w' = sw_out w @ g_buffer g"
    "sameBuffer (g\<lparr>g_buffer := [], g_bufferLen := (if g_buffer g = [] then g_bufferLen g else 0), g_committed := True\<rparr>) g'"
proof -
  obtain e1 g1 w1 where c: "commitLocked dec g w = (e1, g1, w1)" by (metis prod_cases3)
  note ce = commit_effect [OF c assms(2)]
  have r: "(e, g', w') = (None, g1, w1)" using assms(1) ce(1,2) by (simp add: commitFlush_def c)
  show "e = None" "healthy w'" "sw_out w' = sw_out w @ g_buffer g"
    "sameBuffer (g\<lparr>g_buffer := [], g_bufferLen := (if g_buffer g = [] then g_bufferLen g else 0), g_committed := True\<rparr>) g'"
    using r ce by simp_all
qed

section \<open>Calls and the bytes they accept\<close>

datatype gateOp = GWrite gateEnv string | GFinish gateEnv string | GFlush gateEnv | GCommit gateEnv | GDiscard

fun gateStep :: "jsonDec \<Rightarrow> gateOp \<Rightarrow> attemptCommitGate \<Rightarrow> streamWriter \<Rightarrow> gateErr option \<times> attemptCommitGate \<times> streamWriter" where
  "gateStep dec (GWrite env frame) g w = WriteFrame dec env frame g w"
| "gateStep dec (GFinish env partial) g w = FinishAttempt dec env partial g w"
| "gateStep dec (GFlush env) g w = flushHoldbackLocked dec env g w"
| "gateStep dec (GCommit env) g w = gate_Commit dec env g w"
| "gateStep dec GDiscard g w = (case Discard g of (e, g1) \<Rightarrow> (e, g1, w))"

fun opBytes :: "gateOp \<Rightarrow> string list" where
  "opBytes (GWrite env frame) = [frame]"
| "opBytes (GFinish env partial) = (if partial = [] then [] else [partial])"
| "opBytes (GFlush env) = []"
| "opBytes (GCommit env) = []"
| "opBytes GDiscard = []"

text \<open>A run of calls: the frames whose call returned no error, in order, the gate and the wire.\<close>

fun gateRun :: "jsonDec \<Rightarrow> gateOp list \<Rightarrow> string list \<Rightarrow> attemptCommitGate \<Rightarrow> streamWriter \<Rightarrow>
    string list \<times> attemptCommitGate \<times> streamWriter" where
  "gateRun dec [] acc g w = (acc, g, w)"
| "gateRun dec (x # xs) acc g w = (case gateStep dec x g w of
     (e, g1, w1) \<Rightarrow> gateRun dec xs (if e = None then acc @ opBytes x else acc) g1 w1)"

lemma gateRun_append:
  "gateRun dec (xs @ ys) acc g w = (case gateRun dec xs acc g w of (acc1, g1, w1) \<Rightarrow> gateRun dec ys acc1 g1 w1)"
  by (induction xs arbitrary: acc g w) (auto split: prod.split)

text \<open>Runs keep what every call keeps.\<close>

lemma gateRun_invariant:
  assumes "\<And>x acc g w e g' w'. P acc g w \<Longrightarrow> x \<in> set ops \<Longrightarrow> gateStep dec x g w = (e, g', w') \<Longrightarrow>
      P (if e = None then acc @ opBytes x else acc) g' w'"
    "P acc g w" "gateRun dec ops acc g w = (acc', g', w')"
  shows "P acc' g' w'"
  using assms
proof (induction ops arbitrary: acc g w)
  case (Cons x xs)
  obtain e g1 w1 where s: "gateStep dec x g w = (e, g1, w1)" by (metis prod_cases3)
  have "P (if e = None then acc @ opBytes x else acc) g1 w1" by (rule Cons.prems(1) [OF Cons.prems(2) _ s]) simp
  moreover have "gateRun dec xs (if e = None then acc @ opBytes x else acc) g1 w1 = (acc', g', w')" using Cons.prems(3) s by simp
  ultimately show ?case using Cons.IH Cons.prems(1) by (metis list.set_intros(2))
qed simp

text \<open>What holds between the calls of a gate without replay alignment.\<close>

definition gateInv :: "attemptCommitGate \<Rightarrow> streamWriter \<Rightarrow> bool" where
  "gateInv g w \<longleftrightarrow> g_align g = None \<and> healthy w \<and> g_bufferLen g = length (g_buffer g) \<and> int (g_bufferLen g) \<le> g_maxMetadata g
     \<and> (g_mode g = GateModeImmediate \<or> g_committed g \<or> g_discarded g \<longrightarrow> g_buffer g = [])
     \<and> (g_mode g = GateModeBuffered \<longrightarrow> \<not> (g_committed g \<and> g_discarded g))"

text \<open>The bytes a call hands on: the change of the wire and of the buffer, while the attempt lives.\<close>

definition conserves :: "string \<Rightarrow> attemptCommitGate \<Rightarrow> streamWriter \<Rightarrow> attemptCommitGate \<Rightarrow> streamWriter \<Rightarrow> bool" where
  "conserves bs g w g' w' \<longleftrightarrow> (\<not> g_discarded g' \<longrightarrow> \<not> g_discarded g \<and> sw_out w' @ g_buffer g' = sw_out w @ g_buffer g @ bs)"

lemma gateInv_new:
  assumes "go_ReplayAlignment opts = None" "healthy w"
  shows "gateInv (NewAttemptCommitGate p opts) w"
  using assms by (simp add: gateInv_def NewAttemptCommitGate_def DefaultMaxMetadataBufferBytes_def)

lemma checkpoint_effect:
  assumes "checkpointStateAdvance env c g = (e, g')" "locked c g"
  shows "g_mode g' = g_mode g" "g_protocol g' = g_protocol g" "g_committed g' = g_committed g" "g_discarded g' = g_discarded g"
    "g_align g' = g_align g" "g_maxMetadata g' = g_maxMetadata g" "g_buffer g' = g_buffer g" "g_bufferLen g' = g_bufferLen g"
    "g_holdbackWindow g' = g_holdbackWindow g" "g_checkpointHook g' = g_checkpointHook g" "g_state g' = g_state (advanced c g)"
proof -
  have "g' = advanced c g \<or> g' = blockCheckpointLocked (advanced c g) \<or> (\<exists>v. g' = (advanced c g)\<lparr>g_checkpointedState := v\<rparr>)"
    using assms(1) by (cases rule: checkpoint_cases) (use assms(2) in blast)+
  then show "g_mode g' = g_mode g" "g_protocol g' = g_protocol g" "g_committed g' = g_committed g" "g_discarded g' = g_discarded g"
    "g_align g' = g_align g" "g_maxMetadata g' = g_maxMetadata g" "g_buffer g' = g_buffer g" "g_bufferLen g' = g_bufferLen g"
    "g_holdbackWindow g' = g_holdbackWindow g" "g_checkpointHook g' = g_checkpointHook g" "g_state g' = g_state (advanced c g)"
    by (elim disjE exE; simp add: blockCheckpointLocked_def)+
qed

text \<open>The same when a \<open>Discard\<close> may come in between: the buffer is either kept or emptied with the attempt.\<close>

definition mayDiscard :: "attemptCommitGate \<Rightarrow> attemptCommitGate \<Rightarrow> bool" where
  "mayDiscard g g' \<longleftrightarrow> g_mode g' = g_mode g \<and> g_protocol g' = g_protocol g \<and> g_committed g' = g_committed g \<and> g_align g' = g_align g
     \<and> g_maxMetadata g' = g_maxMetadata g
     \<and> (g_discarded g' = g_discarded g \<and> g_buffer g' = g_buffer g \<and> g_bufferLen g' = g_bufferLen g
        \<or> \<not> g_committed g \<and> g_discarded g' \<and> g_buffer g' = [] \<and> g_bufferLen g' = 0)"

lemma mayDiscard_trans: "mayDiscard g g1 \<Longrightarrow> mayDiscard g1 g2 \<Longrightarrow> mayDiscard g g2"
  unfolding mayDiscard_def by (elim conjE disjE) simp_all

lemma mayDiscard_discardIf: "mayDiscard g (discardIf d g)"
  using discardIf_cases [of d g] by (auto simp: mayDiscard_def)

lemma mayDiscard_sameBuffer: "sameBuffer g g' \<Longrightarrow> mayDiscard g g'"
  by (simp add: mayDiscard_def sameBuffer_fields)

lemma mayDiscard_checkpoint:
  assumes "checkpointStateAdvance env c g = (e, g')"
  shows "mayDiscard g g'"
proof -
  have a: "mayDiscard g (advanced c g)" by (simp add: mayDiscard_def)
  have b: "mayDiscard x (blockCheckpointLocked x)" "mayDiscard x (x\<lparr>g_checkpointedState := v\<rparr>)" for x v
    by (simp_all add: mayDiscard_def blockCheckpointLocked_def)
  show ?thesis
    using assms by (cases rule: checkpoint_cases) (use a b mayDiscard_discardIf mayDiscard_trans in metis)+
qed

lemma mayDiscard_inv: "gateInv g w \<Longrightarrow> mayDiscard g g' \<Longrightarrow> healthy w' \<Longrightarrow> gateInv g' w'"
  unfolding gateInv_def mayDiscard_def by (elim conjE disjE) simp_all

lemma mayDiscard_forwards:
  assumes "mayDiscard g g'" "gateInv g w" "g_mode g = GateModeImmediate \<or> g_committed g" "sw_out w' = sw_out w @ bs" "\<not> g_discarded g"
  shows "conserves bs g w g' w'"
proof -
  have "g_buffer g = []" using assms(2,3) by (auto simp: gateInv_def)
  moreover have "g_buffer g' = []" using assms(1) calculation by (auto simp: mayDiscard_def)
  ultimately show ?thesis using assms(4,5) by (simp add: conserves_def)
qed

text \<open>An uncommitted attempt of a buffered gate puts nothing but keepalives on the wire.\<close>

definition silent :: "string list \<Rightarrow> attemptCommitGate \<Rightarrow> streamWriter \<Rightarrow> attemptCommitGate \<Rightarrow> streamWriter \<Rightarrow> bool" where
  "silent ks g w g' w' \<longleftrightarrow> g_mode g' = g_mode g \<and> g_protocol g' = g_protocol g
     \<and> (g_mode g = GateModeBuffered \<and> \<not> g_committed g' \<longrightarrow> \<not> g_committed g \<and> sw_out w' = sw_out w @ concat ks)"

lemma WriteFrame_step:
  assumes "WriteFrame dec env frame g w = (e, g', w')" "gateInv g w"
  shows "gateInv g' w' \<and> conserves (if e = None then frame else []) g w g' w'
    \<and> (\<exists>ks. silent ks g w g' w' \<and> (\<forall>k\<in>set ks. k = frame \<and> e = None \<and> ClassifyClientFrame dec (g_protocol g) k = FrameClassKeepalive))"
proof -
  have al: "g_align g = None" "healthy w" using assms(2) by (auto simp: gateInv_def)
  show ?thesis
    using assms(1) al
  proof (cases rule: WriteFrame_cases)
    case (refused x)
    then show ?thesis using assms(2) by (auto simp: conserves_def silent_def intro: exI [of _ "[]"])
  next
    case queued
    then show ?thesis using append_effect [OF queued(6)] assms(2)
      by (auto simp: gateInv_def conserves_def silent_def sameGate_def intro!: exI [of _ "[]"] split: if_splits)
  next
    case alive
    have "gateInv g' w'" using alive(5,6) assms(2) al(2) by (simp add: mayDiscard_inv [OF _ mayDiscard_discardIf])
    moreover have "conserves frame g w g' w'"
      using alive discardIf_cases [of "ge_discard1 env" g] assms(2) by (cases "g_mode g") (auto simp: conserves_def gateInv_def)
    moreover have "silent [frame] g w g' w'" using alive(5,6) by (simp add: silent_def)
    ultimately show ?thesis using alive(3,4) by (auto intro!: exI [of _ "[frame]"])
  next
    case (held h)
    then show ?thesis using hold_effect [OF held(6)] assms(2)
      by (auto simp: gateInv_def conserves_def silent_def sameGate_def intro!: exI [of _ "[]"] split: if_splits)
  next
    case (failed g1 x)
    have m: "mayDiscard g g'" using failed(4-6) mayDiscard_checkpoint [OF failed(8)] by (auto simp: mayDiscard_def sameGate_def)
    have "gateInv g' w'" using mayDiscard_inv [OF assms(2) m] failed(9) al(2) by simp
    then show ?thesis using failed(7,9) m assms(2)
      by (auto simp: conserves_def silent_def mayDiscard_def gateInv_def intro!: exI [of _ "[]"])
  next
    case (through g1 g2)
    have m1: "mayDiscard g g2" using through(4-6) mayDiscard_checkpoint [OF through(7)] by (auto simp: mayDiscard_def sameGate_def)
    have m: "mayDiscard g g'"
      by (rule mayDiscard_trans [OF mayDiscard_trans [OF m1 mayDiscard_discardIf] mayDiscard_sameBuffer [OF through(10)]])
    have "gateInv g' w'" using mayDiscard_inv [OF assms(2) m] through(11) al(2) by simp
    moreover have "conserves frame g w g' w'"
      using mayDiscard_forwards [OF m assms(2) through(8)] through(2,11) by simp
    moreover have "silent [] g w g' w'" using through(8) m by (auto simp: silent_def mayDiscard_def)
    ultimately show ?thesis using through(9) by (auto intro!: exI [of _ "[]"])
  next
    case (committing g1 g2)
    have "locked (ClassifyClientFrame dec (g_protocol g) frame) g1" using committing(3) by (simp add: locked_def)
    note c = checkpoint_effect [OF committing(7) this]
    show ?thesis
      using committing assms(2) c sameBuffer_fields [OF committing(11)]
      by (auto simp: gateInv_def conserves_def silent_def sameGate_def intro!: exI [of _ "[]"])
  next
    case (metadata g1)
    have "locked (ClassifyClientFrame dec (g_protocol g) frame) g" using metadata(6) by (simp add: locked_def)
    note c = checkpoint_effect [OF metadata(5) this]
    show ?thesis
      using metadata assms(2) c append_effect [OF metadata(8)]
      by (auto simp: gateInv_def conserves_def silent_def sameGate_def intro!: exI [of _ "[]"] split: if_splits)
  qed
qed

text \<open>Nothing is ever taken back from the wire.\<close>

definition extends :: "streamWriter \<Rightarrow> streamWriter \<Rightarrow> bool" where
  "extends w w' \<longleftrightarrow> (\<exists>x. sw_out w' = sw_out w @ x)"

lemma extends_refl [simp]: "extends w w"
  by (simp add: extends_def)

lemma extends_trans: "extends w w1 \<Longrightarrow> extends w1 w2 \<Longrightarrow> extends w w2"
  by (auto simp: extends_def)

lemma extends_put [simp]: "extends w (sw_put p w)"
  by (simp add: extends_def)

lemma WriteFrame_extends:
  assumes "WriteFrame dec env frame g w = (e, g', w')" "gateInv g w"
  shows "extends w w'"
proof -
  have al: "g_align g = None" "healthy w" using assms(2) by (auto simp: gateInv_def)
  show ?thesis using assms(1) al by (cases rule: WriteFrame_cases) (simp_all add: extends_def)
qed

text \<open>A call after which the invariant holds, that hands on \<open>bs\<close> and stays silent until it commits.\<close>

definition soundStep :: "string \<Rightarrow> attemptCommitGate \<Rightarrow> streamWriter \<Rightarrow> attemptCommitGate \<Rightarrow> streamWriter \<Rightarrow> bool" where
  "soundStep bs g w g' w' \<longleftrightarrow> gateInv g' w' \<and> conserves bs g w g' w' \<and> silent [] g w g' w' \<and> extends w w'"

lemma soundStep_refl: "gateInv g w \<Longrightarrow> soundStep [] g w g w"
  by (simp add: soundStep_def conserves_def silent_def)

lemma soundStep_kept:
  assumes "gateInv g w" "mayDiscard g g'"
  shows "soundStep [] g w g' w"
proof -
  have "healthy w" using assms(1) by (simp add: gateInv_def)
  moreover have "conserves [] g w g' w" using assms by (auto simp: conserves_def mayDiscard_def gateInv_def)
  moreover have "silent [] g w g' w" using assms(2) by (simp add: silent_def mayDiscard_def)
  ultimately show ?thesis using mayDiscard_inv [OF assms] by (simp add: soundStep_def)
qed

text \<open>Committing: the buffer goes to the wire, then the bytes \<open>bs\<close>.\<close>

lemma soundStep_commit:
  assumes inv: "gateInv g w" and same: "g_mode g1 = g_mode g" "g_protocol g1 = g_protocol g" "g_align g1 = g_align g"
      "g_maxMetadata g1 = g_maxMetadata g" "g_buffer g1 = g_buffer g" "g_bufferLen g1 = g_bufferLen g"
      "\<not> g_discarded g1" "\<not> g_discarded g"
    and sb: "sameBuffer (g1\<lparr>g_buffer := [], g_bufferLen := (if g_buffer g1 = [] then g_bufferLen g1 else 0), g_committed := True\<rparr>) g'"
    and w: "healthy w'" "sw_out w' = sw_out w @ g_buffer g1 @ bs"
  shows "soundStep bs g w g' w'"
proof -
  note f = sameBuffer_fields [OF sb, simplified]
  have "gateInv g' w'" using inv same w(1) f by (simp add: gateInv_def)
  moreover have "conserves bs g w g' w'" using same w f by (simp add: conserves_def)
  moreover have "silent [] g w g' w'" using same f by (simp add: silent_def)
  moreover have "extends w w'" using w(2) by (simp add: extends_def)
  ultimately show ?thesis by (simp add: soundStep_def)
qed

lemma soundStep_commitFlush:
  assumes "commitFlush dec g1 w = (e, g', w')" "gateInv g w" "g_mode g1 = g_mode g" "g_protocol g1 = g_protocol g" "g_align g1 = g_align g"
      "g_maxMetadata g1 = g_maxMetadata g" "g_buffer g1 = g_buffer g" "g_bufferLen g1 = g_bufferLen g"
      "\<not> g_discarded g1" "\<not> g_discarded g"
  shows "soundStep [] g w g' w'"
proof -
  have "healthy w" using assms(2) by (simp add: gateInv_def)
  note c = commitFlush_effect [OF assms(1) this]
  show ?thesis by (rule soundStep_commit [OF assms(2-10) c(4,2)]) (simp add: c(3))
qed

lemma Flush_step:
  assumes "flushHoldbackLocked dec env g w = (e, g', w')" "gateInv g w"
  shows "soundStep [] g w g' w'"
proof (cases "g_checkpointBlocked g \<or> g_discarded g \<or> g_committed g \<or> g_holdbackWindow g \<le> 0 \<or> \<not> g_holdbackOpened g \<or> g_bufferLen g = 0")
  case True
  then have "g' = g" "w' = w" using assms(1) by (auto simp: flushHoldbackLocked_def split: if_splits)
  then show ?thesis using assms(2) by (simp add: soundStep_refl)
next
  case False
  obtain e1 g1 where c: "checkpointStateAdvance env FrameClassContent g = (e1, g1)" by (metis surj_pair)
  have "locked FrameClassContent g" by (simp add: locked_def isSemanticClass_def)
  note ce = checkpoint_effect [OF c this]
  show ?thesis
  proof (cases e1)
    case None
    then have "commitFlush dec g1 w = (e, g', w')" using assms(1) False c by (simp add: flushHoldbackLocked_def)
    then show ?thesis by (rule soundStep_commitFlush [OF _ assms(2)]) (use ce False in simp_all)
  next
    case (Some x)
    then have "g' = g1" "w' = w" using assms(1) False c by (simp_all add: flushHoldbackLocked_def)
    then show ?thesis using soundStep_kept [OF assms(2) mayDiscard_checkpoint [OF c]] by simp
  qed
qed

lemma Commit_step:
  assumes "gate_Commit dec env g w = (e, g', w')" "gateInv g w"
  shows "soundStep [] g w g' w'"
proof -
  let ?d = "discardIf (ge_discard1 env) g"
  have b: "mayDiscard ?d (blockCheckpointLocked ?d)" by (simp add: mayDiscard_def blockCheckpointLocked_def)
  consider (refused) "g' = g" "w' = w" | (lost) "g' = ?d" "w' = w" | (failed) "g' = blockCheckpointLocked ?d" "w' = w"
    | (plain) "\<not> g_discarded g" "commitFlush dec g w = (e, g', w')"
    | (hooked) "\<not> g_discarded g" "\<not> g_discarded ?d" "commitFlush dec (?d\<lparr>g_checkpointedState := g_state g\<rparr>) w = (e, g', w')"
    using assms(1) by (auto simp: gate_Commit_def Let_def split: if_splits)
  then show ?thesis
  proof cases
    case refused
    then show ?thesis using assms(2) by (simp add: soundStep_refl)
  next
    case lost
    then show ?thesis using soundStep_kept [OF assms(2) mayDiscard_discardIf] by simp
  next
    case failed
    then show ?thesis using soundStep_kept [OF assms(2) mayDiscard_trans [OF mayDiscard_discardIf b]] by simp
  next
    case plain
    then show ?thesis by (intro soundStep_commitFlush [OF _ assms(2)]) auto
  next
    case hooked
    then have "?d = g" using discardIf_cases [of "ge_discard1 env" g] by blast
    then show ?thesis using hooked by (intro soundStep_commitFlush [OF hooked(3) assms(2)]) simp_all
  qed
qed

lemma Discard_step: "gateInv g w \<Longrightarrow> soundStep [] g w (snd (Discard g)) w"
  using soundStep_kept [OF _ mayDiscard_discardIf [of g True]] by (simp add: discardIf_def)

lemma FinishAttempt_step:
  assumes "FinishAttempt dec env partial g w = (e, g', w')" "gateInv g w"
  shows "soundStep (if e = None then partial else []) g w g' w'"
proof -
  have al: "g_align g = None" and hw: "healthy w" using assms(2) by (auto simp: gateInv_def)
  note F = assms(1) [unfolded FinishAttempt_def Let_def al option.case]
  let ?c = "ClassifyClientFrame dec (g_protocol g) partial"
  let ?t = "isPartialTerminalFrame (g_protocol g) partial"
  obtain e1 g1 where c: "(if ?t then checkpointStateAdvance env ?c g else (None, g)) = (e1, g1)" by (metis surj_pair)
  have m1: "mayDiscard g g1"
    using c mayDiscard_checkpoint [of env ?c g e1 g1] by (auto simp: mayDiscard_def split: if_splits)
  show ?thesis
  proof (cases "g_checkpointBlocked g \<or> g_discarded g")
    case True
    then have "e \<noteq> None" "g' = g" "w' = w" using F by (auto split: if_splits)
    then show ?thesis using assms(2) by (auto simp: soundStep_refl)
  next
    case ok: False
    show ?thesis
    proof (cases "partial = []")
      case True
      show ?thesis
      proof (cases "g_mode g = GateModeImmediate \<or> g_committed g")
        case True
        then have "g' = g" "w' = w" using F ok \<open>partial = []\<close> hw by auto
        then show ?thesis using assms(2) \<open>partial = []\<close> by (simp add: soundStep_refl)
      next
        case False
        then have "flushHoldbackLocked dec env g w = (e, g', w')" using F ok \<open>partial = []\<close> by simp
        then show ?thesis using Flush_step [OF _ assms(2)] \<open>partial = []\<close> by simp
      qed
    next
      case ne: False
      show ?thesis
      proof (cases e1)
        case (Some x)
        then have "e = Some x" "g' = g1" "w' = w" using F ok ne c by simp_all
        then show ?thesis using soundStep_kept [OF assms(2) m1] by simp
      next
        case None
        note F2 = F [unfolded c None, simplified if_not_P [OF ne]]
        show ?thesis
        proof (cases "g_mode g = GateModeImmediate \<or> g_committed g")
          case True
          define g2 where "g2 = (if g_mode g1 = GateModeImmediate then g1\<lparr>g_committed := True\<rparr> else g1)"
          have m: "g_mode g1 = g_mode g" "g_committed g1 = g_committed g" using m1 by (auto simp: mayDiscard_def)
          then have r: "e = None" "g' = observeFrameLocked ?c partial (markFirstSemanticByteLocked ?c g2)" "w' = sw_put partial w"
            using F2 ok True hw by (auto simp: g2_def)
          have gi: "gateInv g1 w'" using mayDiscard_inv [OF assms(2) m1] r(3) hw by simp
          have "gateInv g' w'" "silent [] g w g' w'"
            using gi m True m1 unfolding r(2) by (auto simp: gateInv_def g2_def silent_def mayDiscard_def)
          moreover have "conserves partial g w g1 w'" using mayDiscard_forwards [OF m1 assms(2) True] ok r(3) by simp
          then have "conserves partial g w g' w'" unfolding r(2) by (simp add: conserves_def g2_def)
          ultimately show ?thesis using r(1,3) by (simp add: soundStep_def)
        next
          case buf: False
          then have mode: "g_mode g = GateModeBuffered" by (cases "g_mode g") auto
          show ?thesis
          proof (cases ?t)
            case False
            then have "g1 = g" using c by simp
            then have "appendBufferedLocked env partial g = (e, g')" "w' = w" using F2 ok buf False by (auto split: prod.splits)
            then show ?thesis using append_effect [of env partial g e g'] assms(2) ok mode buf
              by (auto simp: soundStep_def gateInv_def conserves_def silent_def sameGate_def split: if_splits)
          next
            case True
            have "locked ?c g" using mode by (simp add: locked_def)
            then have ce: "g_mode g1 = g_mode g" "g_protocol g1 = g_protocol g" "g_committed g1 = g_committed g" "g_discarded g1 = g_discarded g"
              "g_align g1 = g_align g" "g_maxMetadata g1 = g_maxMetadata g" "g_buffer g1 = g_buffer g" "g_bufferLen g1 = g_bufferLen g"
              using checkpoint_effect [of env ?c g e1 g1] c True by simp_all
            obtain e2 g2 w2 where cl: "commitLocked dec g1 w = (e2, g2, w2)" by (metis prod_cases3)
            note cf = commit_effect [OF cl hw]
            have r: "e = None" "g' = observeFrameLocked ?c partial (markFirstSemanticByteLocked ?c g2)" "w' = sw_put partial w2"
              using F2 ok buf True ce cl cf(1,2) by auto
            have "sameBuffer g2 g'" unfolding r(2) using sameBuffer_mark sameBuffer_observe sameBuffer_trans by blast
            note sb = sameBuffer_trans [OF cf(4) this]
            have "soundStep partial g w g' w'"
              by (rule soundStep_commit [OF assms(2) ce(1,2,5-8) _ _ sb]) (use r(3) cf ok ce in auto)
            then show ?thesis using r(1) by simp
          qed
        qed
      qed
    qed
  qed
qed

section \<open>A sample stream\<close>

text \<open>A decoder, frames and runs on which the theorems are instantiated.\<close>

definition demoDec :: jsonDec where
  "demoDec = \<lparr>jd_chat = (\<lambda>s. Some \<lparr>cp_Error = False, cp_Choices = [\<lparr>cd_Content = (if s = ''role'' \<or> s = ''call'' then [] else s), cd_Reasoning = [],
       cd_ToolCalls = (if s = ''call'' then s else []), cd_Audio = [], cd_FunctionCall = []\<rparr>], cp_Usage = []\<rparr>),
     jd_string = Some, jd_itemType = (\<lambda>s. None), jd_blockType = (\<lambda>s. None), jd_deltaType = (\<lambda>s. None), jd_valid = (\<lambda>s. True)\<rparr>"

definition dataFrame :: "string \<Rightarrow> string" where
  "dataFrame s = ''data: '' @ s @ [NL, NL]"

definition calm :: gateEnv where
  "calm = \<lparr>ge_hook = (\<lambda>s. True), ge_tHold = 0, ge_tBuf = 0, ge_discard1 = False, ge_discard2 = False\<rparr>"

definition demoOpts :: "gateMode \<Rightarrow> duration \<Rightarrow> gateOptions" where
  "demoOpts m hold = \<lparr>go_Mode = m, go_MaxMetadataBufferBytes = 0, go_BeforeSemanticCommit = True, go_FirstSemanticByte = False,
     go_MaxMetadataBufferAge = 0, go_HoldbackWindow = hold, go_HoldbackMaxChunks = 0, go_PrefixObserve = False,
     go_ReplayAlignment = None, go_ShadowAlignment = None\<rparr>"

definition demoRun :: "gateMode \<Rightarrow> duration \<Rightarrow> gateOp list \<Rightarrow> string list \<times> attemptCommitGate \<times> streamWriter" where
  "demoRun m hold ops = gateRun demoDec ops [] (NewAttemptCommitGate ProtocolOpenAIChat (demoOpts m hold)) (NewSerializedStreamWriter [] FlushPlain)"

lemma demo_sample [simp]:
  "healthy (NewSerializedStreamWriter [] fk)" "sw_out (NewSerializedStreamWriter [] fk) = []"
  "go_ReplayAlignment (demoOpts m hold) = None" "go_Mode (demoOpts m hold) = m" "go_HoldbackWindow (demoOpts m hold) = hold"
  "go_BeforeSemanticCommit (demoOpts m hold)"
  by (simp_all add: healthy_def NewSerializedStreamWriter_def demoOpts_def)

lemma demoRun_run:
  "gateRun demoDec ops [] (NewAttemptCommitGate ProtocolOpenAIChat (demoOpts m hold)) (NewSerializedStreamWriter [] FlushPlain) =
     (fst (demoRun m hold ops), fst (snd (demoRun m hold ops)), snd (snd (demoRun m hold ops)))"
  by (simp add: demoRun_def)

section \<open>Runs of calls\<close>

lemma gateStep_sound:
  assumes "gateStep dec x g w = (e, g', w')" "gateInv g w"
  shows "gateInv g' w' \<and> conserves (if e = None then concat (opBytes x) else []) g w g' w'
    \<and> (\<exists>ks. silent ks g w g' w' \<and> (\<forall>k\<in>set ks. k \<in> set (opBytes x) \<and> e = None \<and> ClassifyClientFrame dec (g_protocol g) k = FrameClassKeepalive))"
proof (cases x)
  case (GWrite env frame)
  then show ?thesis using WriteFrame_step [of dec env frame g w e g' w'] assms by (cases e) simp_all
next
  case (GFinish env partial)
  then show ?thesis using FinishAttempt_step [of dec env partial g w e g' w'] assms by (auto simp: soundStep_def intro!: exI [of _ "[]"])
next
  case (GFlush env)
  then show ?thesis using Flush_step [of dec env g w e g' w'] assms by (auto simp: soundStep_def intro!: exI [of _ "[]"])
next
  case (GCommit env)
  then show ?thesis using Commit_step [of dec env g w e g' w'] assms by (auto simp: soundStep_def intro!: exI [of _ "[]"])
next
  case GDiscard
  then show ?thesis using Discard_step [OF assms(2)] assms(1) by (auto simp: soundStep_def split: prod.splits intro!: exI [of _ "[]"])
qed

text \<open>C5.
  For every sequence of \<open>WriteFrame\<close>, \<open>FinishAttempt\<close>, \<open>FlushHoldback\<close>, \<open>Commit\<close> and \<open>Discard\<close> calls on a
  fresh gate without a replay alignment, over a connection that takes every write, with any answers of the
  checkpoint hook and any \<open>Discard\<close> arriving during a hook or a write: as long as the attempt is not discarded, the bytes on the wire followed by the bytes still held are exactly
  the frames of the calls that succeeded, in the order of the calls. Nothing is lost, repeated or reordered,
  whatever mixture of metadata buffering, holdback and commit the calls take.
\<close>

theorem gate_conserves_order:
  assumes "go_ReplayAlignment opts = None" "healthy w" "sw_out w = []"
    "gateRun dec ops [] (NewAttemptCommitGate p opts) w = (acc, g, w')" "\<not> g_discarded g"
  shows "sw_out w' @ g_buffer g = concat acc"
proof -
  define P where "P acc g w = (gateInv g w \<and> (\<not> g_discarded g \<longrightarrow> sw_out w @ g_buffer g = concat acc))" for acc g w
  have "P acc g w'"
  proof (rule gateRun_invariant [OF _ _ assms(4)])
    show "P [] (NewAttemptCommitGate p opts) w"
      using gateInv_new [OF assms(1,2), of p] assms(3) by (simp add: P_def NewAttemptCommitGate_def)
    fix x acc g w e g' w'
    assume "P acc g w" "gateStep dec x g w = (e, g', w')"
    then show "P (if e = None then acc @ opBytes x else acc) g' w'"
      using gateStep_sound [of dec x g w e g' w'] by (simp add: P_def conserves_def)
  qed
  then show ?thesis using assms(5) by (simp add: P_def)
qed

theorem gate_conserves_order_witness:
  "let (acc, g, w) = demoRun GateModeBuffered 0 [GWrite calm (CHR '':'' # [NL, NL]), GWrite calm (dataFrame ''role''), GWrite calm (dataFrame ''hi'')]
   in sw_out w @ g_buffer g = concat acc"
proof -
  let ?ops = "[GWrite calm (CHR '':'' # [NL, NL]), GWrite calm (dataFrame ''role''), GWrite calm (dataFrame ''hi'')]"
  have "\<not> g_discarded (fst (snd (demoRun GateModeBuffered 0 ?ops)))" by code_simp
  then show ?thesis using gate_conserves_order [OF _ _ _ demoRun_run [of ?ops GateModeBuffered 0]] by (simp add: case_prod_beta)
qed

text \<open>C10.
  An attempt of a buffered gate that has been discarded has left nothing on the client's connection but
  keepalive frames, all of which calls had succeeded: a transparent retry on another credential starts from
  a stream on which no metadata and no content of the dead attempt can be seen.
\<close>

theorem discarded_attempt_invisible:
  assumes "go_ReplayAlignment opts = None" "go_Mode opts = GateModeBuffered" "healthy w" "sw_out w = []"
    "gateRun dec ops [] (NewAttemptCommitGate p opts) w = (acc, g, w')" "g_discarded g"
  shows "\<exists>ks. sw_out w' = concat ks \<and> set ks \<subseteq> {k \<in> set acc. ClassifyClientFrame dec p k = FrameClassKeepalive}"
proof -
  define P where "P acc g w = (gateInv g w \<and> g_mode g = GateModeBuffered \<and> g_protocol g = p \<and> (\<not> g_committed g \<longrightarrow>
    (\<exists>ks. sw_out w = concat ks \<and> set ks \<subseteq> {k \<in> set acc. ClassifyClientFrame dec p k = FrameClassKeepalive})))" for acc g w
  have "P acc g w'"
  proof (rule gateRun_invariant [OF _ _ assms(5)])
    show "P [] (NewAttemptCommitGate p opts) w"
      using gateInv_new [OF assms(1,3), of p] assms(2,4) by (simp add: P_def NewAttemptCommitGate_def)
    fix x acc g w e g' w'
    assume prev: "P acc g w" and s: "gateStep dec x g w = (e, g', w')"
    obtain ks where ks: "gateInv g' w'" "silent ks g w g' w'"
      "\<forall>k\<in>set ks. k \<in> set (opBytes x) \<and> e = None \<and> ClassifyClientFrame dec (g_protocol g) k = FrameClassKeepalive"
      using gateStep_sound [OF s] prev by (auto simp: P_def)
    have "\<exists>ks'. sw_out w' = concat ks' \<and> set ks' \<subseteq> {k \<in> set (if e = None then acc @ opBytes x else acc).
        ClassifyClientFrame dec p k = FrameClassKeepalive}" if nc: "\<not> g_committed g'"
    proof -
      obtain ks0 where "sw_out w = concat ks0" "set ks0 \<subseteq> {k \<in> set acc. ClassifyClientFrame dec p k = FrameClassKeepalive}"
        using prev ks(2) nc by (auto simp: P_def silent_def)
      then show ?thesis using ks prev nc by (intro exI [of _ "ks0 @ ks"]) (auto simp: P_def silent_def)
    qed
    then show "P (if e = None then acc @ opBytes x else acc) g' w'" using ks(1,2) prev by (auto simp: P_def silent_def)
  qed
  then show ?thesis using assms(6) by (auto simp: P_def gateInv_def)
qed

theorem discarded_attempt_invisible_witness:
  "\<exists>ks. sw_out (snd (snd (demoRun GateModeBuffered 0 [GWrite calm (dataFrame ''role''), GDiscard]))) = concat ks \<and>
     set ks \<subseteq> {k \<in> set (fst (demoRun GateModeBuffered 0 [GWrite calm (dataFrame ''role''), GDiscard])).
       ClassifyClientFrame demoDec ProtocolOpenAIChat k = FrameClassKeepalive}"
proof -
  have "g_discarded (fst (snd (demoRun GateModeBuffered 0 [GWrite calm (dataFrame ''role''), GDiscard])))" by code_simp
  then show ?thesis using discarded_attempt_invisible [OF _ _ _ _ demoRun_run] by simp
qed

section \<open>Write-ahead checkpoints\<close>

definition aheadInv :: "attemptCommitGate \<Rightarrow> bool" where
  "aheadInv g \<longleftrightarrow> g_checkpointHook g \<and> g_holdbackWindow g \<le> 0
     \<and> (\<not> g_checkpointBlocked g \<and> CommitStateContent \<le> g_state g \<longrightarrow> g_state g \<le> g_checkpointedState g)"

text \<open>The checkpoint of a gate covers the class of a frame.\<close>

definition covers :: "attemptCommitGate \<Rightarrow> frameClass \<Rightarrow> bool" where
  "covers g c \<longleftrightarrow> (isSemanticClass c \<longrightarrow> (case stateOfClass c of None \<Rightarrow> True | Some n \<Rightarrow> n \<le> g_checkpointedState g))"

definition aheadStep :: "attemptCommitGate \<Rightarrow> attemptCommitGate \<Rightarrow> bool" where
  "aheadStep g g' \<longleftrightarrow> aheadInv g' \<and> g_protocol g' = g_protocol g \<and> g_checkpointedState g \<le> g_checkpointedState g'"

lemma none_least [simp]: "CommitStateNone \<le> s" "CommitStateContent \<le> CommitStateNone \<longleftrightarrow> False"
  by (simp_all add: less_eq_commitState_def)

lemma aheadStep_trans: "aheadStep g g1 \<Longrightarrow> aheadStep g1 g2 \<Longrightarrow> aheadStep g g2"
  by (auto simp: aheadStep_def)

lemma covers_mono: "covers g c \<Longrightarrow> aheadStep g g' \<Longrightarrow> covers g' c"
  by (auto simp: covers_def aheadStep_def split: option.splits)

lemma aheadStep_sameGate: "sameGate g g' \<Longrightarrow> aheadInv g \<Longrightarrow> aheadStep g g'"
  by (simp add: aheadStep_def aheadInv_def sameGate_fields)

lemma aheadStep_discardIf: "aheadInv g \<Longrightarrow> aheadStep g (discardIf d g)"
  unfolding discardIf_def Discard_def by (simp add: aheadStep_def aheadInv_def)

lemma not_advanced: "\<not> fst (advanceStateLocked c g) \<Longrightarrow> advanced c g = g"
  by (rule advance_cases [OF prod.collapse [symmetric], of c g]) simp_all

lemma advanced_nonsemantic:
  assumes "\<not> isSemanticClass c"
  shows "CommitStateContent \<le> g_state (advanced c g) \<Longrightarrow> g_state (advanced c g) = g_state g"
  using assms by (cases c; cases "g_state g") (simp_all add: isSemanticClass_def advanceStateLocked_def less_commitState_def less_eq_commitState_def)

lemma checkpoint_ahead:
  assumes "checkpointStateAdvance env c g = (e, g')" "aheadInv g" "\<not> g_checkpointBlocked g"
  shows "aheadStep g g' \<and> (e = None \<longrightarrow> covers g' c)"
  using assms(1)
proof (cases rule: checkpoint_cases)
  case quiet
  show ?thesis
  proof (cases "isSemanticClass c")
    case True
    then have na: "\<not> fst (advanceStateLocked c g)" using quiet(3) assms(2) by (auto simp: aheadInv_def)
    obtain n where n: "stateOfClass c = Some n" "CommitStateContent \<le> n" using semantic_state [OF True] by blast
    have "g' = g" using not_advanced [OF na] quiet(2) by simp
    moreover have "n \<le> g_state g" using na n(1) advanced_state(2) [of c g] by (simp add: not_less)
    ultimately show ?thesis using n assms(2,3) by (auto simp: aheadStep_def aheadInv_def covers_def)
  next
    case False
    then show ?thesis using advanced_nonsemantic [OF False, of g] assms(2,3) quiet
      by (auto simp: aheadStep_def aheadInv_def covers_def)
  qed
next
  case failed
  then show ?thesis using assms(2) by (simp add: aheadStep_def aheadInv_def blockCheckpointLocked_def)
next
  case saved
  let ?s = "g_state (advanced c g)"
  have f: "g_checkpointedState g' = max (g_checkpointedState g) ?s" "g_checkpointHook g'" "g_holdbackWindow g' \<le> 0"
      "g_protocol g' = g_protocol g" "g_state g' = ?s \<or> g_state g' = CommitStateNone"
    unfolding saved(3) using assms(2) by (simp_all add: aheadInv_def) (simp add: discardIf_def Discard_def)
  moreover have "covers g' c"
    using f(1) by (auto simp: covers_def advanced_state le_max_iff_disj split: option.splits)
  ultimately show ?thesis by (auto simp: aheadStep_def aheadInv_def le_max_iff_disj)
qed

lemma WriteFrame_ahead:
  assumes "WriteFrame dec env frame g w = (e, g', w')" "gateInv g w" "aheadInv g"
  shows "aheadStep g g' \<and> (e = None \<longrightarrow> covers g' (ClassifyClientFrame dec (g_protocol g) frame))"
proof -
  let ?c = "ClassifyClientFrame dec (g_protocol g) frame"
  have al: "g_align g = None" "healthy w" using assms(2) by (auto simp: gateInv_def)
  have refl: "aheadStep g g" using assms(3) by (simp add: aheadStep_def)
  have nc: "covers x c" if "\<not> isSemanticClass c" for x c using that by (simp add: covers_def)
  have ka: "\<not> isSemanticClass FrameClassKeepalive" by (simp add: isSemanticClass_def)
  show ?thesis
    using assms(1) al
  proof (cases rule: WriteFrame_cases)
    case refused
    then show ?thesis using refl by simp
  next
    case queued
    then show ?thesis using append_effect [OF queued(6)] aheadStep_sameGate [OF _ assms(3)] nc [OF ka] by simp
  next
    case alive
    then show ?thesis using aheadStep_discardIf [OF assms(3)] nc [OF ka] by simp
  next
    case (held h)
    then show ?thesis using hold_effect [OF held(6)] assms(3) by (auto simp: aheadInv_def)
  next
    case (failed g1 x)
    have "aheadStep g g1" by (rule aheadStep_sameGate [OF failed(4) assms(3)])
    moreover have "aheadStep g1 g'"
      using checkpoint_ahead [OF failed(8)] calculation failed(1,4) by (simp add: aheadStep_def sameGate_fields)
    ultimately show ?thesis using failed(7) aheadStep_trans by blast
  next
    case (through g1 g2)
    have a: "aheadStep g g1" by (rule aheadStep_sameGate [OF through(4) assms(3)])
    then have c: "aheadStep g1 g2" "covers g2 ?c"
      using checkpoint_ahead [OF through(7)] through(1,4) by (simp_all add: aheadStep_def sameGate_fields)
    have d: "aheadStep g2 (discardIf (ge_discard2 env) g2)" using c(1) by (simp add: aheadStep_def [of g1] aheadStep_discardIf)
    moreover have "aheadStep (discardIf (ge_discard2 env) g2) g'"
      using through(10) d by (intro aheadStep_sameGate) (simp_all add: sameBuffer_def aheadStep_def)
    ultimately have "aheadStep g2 g'" by (rule aheadStep_trans)
    then show ?thesis using a c aheadStep_trans covers_mono by blast
  next
    case (committing g1 g2)
    have a: "aheadStep g g1" by (rule aheadStep_sameGate [OF committing(4) assms(3)])
    then have c: "aheadStep g1 g2" "covers g2 ?c"
      using checkpoint_ahead [OF committing(7)] committing(1,4) by (simp_all add: aheadStep_def sameGate_fields)
    have "aheadStep g2 g'" using c(1) sameBuffer_fields [OF committing(11)] by (simp add: aheadStep_def aheadInv_def)
    then show ?thesis using a c aheadStep_trans covers_mono by blast
  next
    case (metadata g1)
    have c: "aheadStep g g1" using checkpoint_ahead [OF metadata(5) assms(3) metadata(1)] by simp
    then have "aheadStep g1 g'" using append_effect [OF metadata(8)] by (intro aheadStep_sameGate) (simp_all add: aheadStep_def)
    then show ?thesis using c aheadStep_trans nc [OF metadata(4)] by blast
  qed
qed

lemma Commit_ahead:
  assumes "gate_Commit dec env g w = (e, g', w')" "gateInv g w" "aheadInv g"
  shows "aheadStep g g'"
proof -
  have hw: "healthy w" using assms(2) by (simp add: gateInv_def)
  let ?d = "discardIf (ge_discard1 env) g"
  have flush: "aheadStep x g'" if "commitFlush dec x w = (e, g', w')" "aheadInv x" for x
    using sameBuffer_fields [OF commitFlush_effect(4) [OF that(1) hw]] that(2) by (simp add: aheadStep_def aheadInv_def)
  have d: "aheadStep g ?d" by (rule aheadStep_discardIf [OF assms(3)])
  consider (kept) "g' = g \<or> g' = ?d \<or> g' = blockCheckpointLocked ?d" | (plain) "commitFlush dec g w = (e, g', w')"
    | (hooked) "\<not> g_discarded ?d" "\<not> g_discarded g" "g_checkpointedState g < g_state g"
        "commitFlush dec (?d\<lparr>g_checkpointedState := g_state g\<rparr>) w = (e, g', w')"
    using assms(1) by (auto simp: gate_Commit_def Let_def split: if_splits)
  then show ?thesis
  proof cases
    case kept
    then show ?thesis using d assms(3) by (auto simp: aheadStep_def aheadInv_def blockCheckpointLocked_def)
  next
    case plain
    then show ?thesis using flush assms(3) by simp
  next
    case hooked
    then have "?d = g" using discardIf_cases [of "ge_discard1 env" g] by blast
    then have "aheadStep (g\<lparr>g_checkpointedState := g_state g\<rparr>) g'"
      using flush [OF hooked(4)] assms(3) by (simp add: aheadInv_def)
    moreover have "aheadStep g (g\<lparr>g_checkpointedState := g_state g\<rparr>)" using hooked(3) assms(3) by (simp add: aheadStep_def aheadInv_def)
    ultimately show ?thesis using aheadStep_trans by blast
  qed
qed

lemma Flush_idle: "aheadInv g \<Longrightarrow> flushHoldbackLocked dec env g w = (e, g', w') \<Longrightarrow> g' = g"
  by (simp add: aheadInv_def flushHoldbackLocked_def split: if_splits)

text \<open>The end of an attempt on a gate without a window: a tail that is a terminal frame is checkpointed
  like one, any other tail follows the state of the attempt with no checkpoint of its own.\<close>

lemma FinishAttempt_cases:
  assumes "FinishAttempt dec env partial g w = (e, g', w')" "g_align g = None" "healthy w" "g_holdbackWindow g \<le> 0"
  defines "c \<equiv> ClassifyClientFrame dec (g_protocol g) partial" and "t \<equiv> isPartialTerminalFrame (g_protocol g) partial"
  obtains (idle) "g' = g" "e \<noteq> None \<or> partial = []"
  | (failed) x where "\<not> g_checkpointBlocked g" "t" "e = Some x" "checkpointStateAdvance env c g = (Some x, g')"
  | (through) g1 where "\<not> g_checkpointBlocked g" "(if t then checkpointStateAdvance env c g else (None, g)) = (None, g1)"
      "e = None" "g_mode g1 = GateModeImmediate \<or> g_committed g1"
      "sameBuffer (g1\<lparr>g_committed := g_committed g1 \<or> g_mode g1 = GateModeImmediate\<rparr>) g'"
  | (buffered) "\<not> t" "appendBufferedLocked env partial g = (e, g')"
  | (committing) g1 where "\<not> g_checkpointBlocked g" "t" "checkpointStateAdvance env c g = (None, g1)" "e = None"
      "sameBuffer (g1\<lparr>g_buffer := [], g_bufferLen := (if g_buffer g1 = [] then g_bufferLen g1 else 0), g_committed := True\<rparr>) g'"
proof -
  note F = assms(1) [unfolded FinishAttempt_def Let_def assms(2) option.case, folded c_def t_def]
  obtain e1 g1 where ck: "(if t then checkpointStateAdvance env c g else (None, g)) = (e1, g1)" by (metis surj_pair)
  have flush: "flushHoldbackLocked dec env g w = (if g_checkpointBlocked g then (Some ErrAttemptCheckpointFailed, g, w) else (None, g, w))"
    using assms(4) by (simp add: flushHoldbackLocked_def)
  show thesis
  proof (cases "g_checkpointBlocked g \<or> g_discarded g \<or> partial = []")
    case True
    then show thesis using F flush assms(3) idle by (auto split: if_splits)
  next
    case ok: False
    show thesis
    proof (cases e1)
      case (Some x)
      then have "t" "e = Some x" "g' = g1" using F ok ck by (auto split: if_splits)
      then show thesis using failed ck Some ok by simp
    next
      case None
      note ck = ck [unfolded None]
      have sb: "sameBuffer x (observeFrameLocked c partial (markFirstSemanticByteLocked c x))" for x
        using sameBuffer_mark sameBuffer_observe sameBuffer_trans by blast
      consider (thr) "g_mode g1 = GateModeImmediate \<or> g_committed g1" | (app) "\<not> (g_mode g1 = GateModeImmediate \<or> g_committed g1)" "\<not> t"
        | (com) "\<not> (g_mode g1 = GateModeImmediate \<or> g_committed g1)" "t" by blast
      then show thesis
      proof cases
        case thr
        then have "e = None" "g' = observeFrameLocked c partial (markFirstSemanticByteLocked c
            (if g_mode g1 = GateModeImmediate then g1\<lparr>g_committed := True\<rparr> else g1))"
          using F ok ck assms(3) by auto
        moreover have "(if g_mode g1 = GateModeImmediate then g1\<lparr>g_committed := True\<rparr> else g1) =
            g1\<lparr>g_committed := g_committed g1 \<or> g_mode g1 = GateModeImmediate\<rparr>" using thr by auto
        ultimately show thesis using through [OF _ ck _ thr] sb ok by simp
      next
        case app
        then show thesis using buffered F ok ck by (auto split: prod.splits)
      next
        case com
        obtain e2 g2 w2 where cl: "commitLocked dec g1 w = (e2, g2, w2)" by (metis prod_cases3)
        note cf = commit_effect [OF cl assms(3)]
        have "e = None" "g' = observeFrameLocked c partial (markFirstSemanticByteLocked c g2)"
          using F ok com ck cl cf(1,2) by auto
        then show thesis using committing [of g1] com ck sameBuffer_trans [OF cf(4) sb] ok by simp
      qed
    qed
  qed
qed

text \<open>A tail handed over at the end of the attempt that is not a terminal frame.\<close>

fun bareTail :: "clientProtocol \<Rightarrow> gateOp \<Rightarrow> bool" where
  "bareTail p (GFinish env partial) \<longleftrightarrow> \<not> isPartialTerminalFrame p partial"
| "bareTail p x \<longleftrightarrow> False"

lemma FinishAttempt_ahead:
  assumes "FinishAttempt dec env partial g w = (e, g', w')" "gateInv g w" "aheadInv g"
  shows "aheadStep g g' \<and> (e = None \<and> partial \<noteq> [] \<and> isPartialTerminalFrame (g_protocol g) partial \<longrightarrow>
     covers g' (ClassifyClientFrame dec (g_protocol g) partial))"
proof -
  have al: "g_align g = None" "healthy w" "g_holdbackWindow g \<le> 0" using assms(2,3) by (auto simp: gateInv_def aheadInv_def)
  have refl: "aheadStep g g" using assms(3) by (simp add: aheadStep_def)
  show ?thesis
    using assms(1) al
  proof (cases rule: FinishAttempt_cases)
    case idle
    then show ?thesis using refl by auto
  next
    case (failed x)
    then show ?thesis using checkpoint_ahead [OF failed(4) assms(3) failed(1)] by simp
  next
    case (through g1)
    have a: "aheadStep g g1 \<and> (isPartialTerminalFrame (g_protocol g) partial \<longrightarrow> covers g1 (ClassifyClientFrame dec (g_protocol g) partial))"
      using through(2) checkpoint_ahead [OF _ assms(3) through(1)] refl by (auto split: if_splits)
    moreover have "aheadStep g1 g'" using a sameBuffer_fields [OF through(5)] by (simp add: aheadStep_def aheadInv_def)
    ultimately show ?thesis using aheadStep_trans covers_mono by blast
  next
    case buffered
    then show ?thesis using append_effect [OF buffered(2)] aheadStep_sameGate [OF _ assms(3)] by simp
  next
    case (committing g1)
    have a: "aheadStep g g1" "covers g1 (ClassifyClientFrame dec (g_protocol g) partial)"
      using checkpoint_ahead [OF committing(3) assms(3) committing(1)] by simp_all
    moreover have "aheadStep g1 g'" using a sameBuffer_fields [OF committing(5)] by (simp add: aheadStep_def aheadInv_def)
    ultimately show ?thesis using aheadStep_trans covers_mono by blast
  qed
qed

lemma gateStep_ahead:
  assumes "gateStep dec x g w = (e, g', w')" "gateInv g w" "aheadInv g"
  shows "aheadStep g g' \<and> (e = None \<and> \<not> bareTail (g_protocol g) x \<longrightarrow> (\<forall>f\<in>set (opBytes x). covers g' (ClassifyClientFrame dec (g_protocol g) f)))"
proof -
  have refl: "aheadStep g g" using assms(3) by (simp add: aheadStep_def)
  show ?thesis
  proof (cases x)
    case (GWrite env frame)
    then show ?thesis using WriteFrame_ahead [OF _ assms(2,3), of dec env frame e g' w'] assms(1) by simp
  next
    case (GFinish env partial)
    then show ?thesis using FinishAttempt_ahead [OF _ assms(2,3), of dec env partial e g' w'] assms(1) by auto
  next
    case (GFlush env)
    then have "g' = g" using Flush_idle [OF assms(3), of dec env w e g' w'] assms(1) by simp
    then show ?thesis using refl GFlush by simp
  next
    case (GCommit env)
    then show ?thesis using Commit_ahead [OF _ assms(2,3), of dec env e g' w'] assms(1) by simp
  next
    case GDiscard
    then have "g' = discardIf True g" using assms(1) by (simp add: discardIf_def case_prod_beta)
    then show ?thesis using aheadStep_discardIf [OF assms(3)] GDiscard by simp
  qed
qed

text \<open>C11.
  The write-ahead rule: on a gate with a checkpoint hook, without a holdback window and without a replay
  alignment, over a connection that takes every write, after any run of calls and concurrent discards the
  hook has answered well for a state at least as high as that of every semantic frame that was accepted,
  unterminated terminal frames at the end of the attempt included: no such content, tool call or terminal
  frame is on the wire of an attempt whose durable record does not yet say so. The one exception are other
  unterminated tails handed to \<open>FinishAttempt\<close>, which the gate writes without a checkpoint.
\<close>

theorem write_ahead:
  assumes "go_ReplayAlignment opts = None" "go_BeforeSemanticCommit opts" "go_HoldbackWindow opts \<le> 0" "healthy w"
    "\<forall>env. GFinish env f \<in> set ops \<longrightarrow> isPartialTerminalFrame p f" "gateRun dec ops [] (NewAttemptCommitGate p opts) w = (acc, g, w')"
    "f \<in> set acc" "isSemanticClass (ClassifyClientFrame dec p f)" "stateOfClass (ClassifyClientFrame dec p f) = Some n"
  shows "n \<le> g_checkpointedState g"
proof -
  define P where "P acc g w = (gateInv g w \<and> aheadInv g \<and> g_protocol g = p
    \<and> (f \<in> set acc \<longrightarrow> covers g (ClassifyClientFrame dec p f)))" for acc g w
  have "P acc g w'"
  proof (rule gateRun_invariant [OF _ _ assms(6)])
    show "P [] (NewAttemptCommitGate p opts) w"
      using gateInv_new [OF assms(1,4), of p] assms(2,3) by (simp add: P_def aheadInv_def NewAttemptCommitGate_def)
    fix x acc g w e g' w'
    assume prev: "P acc g w" and x: "x \<in> set ops" and s: "gateStep dec x g w = (e, g', w')"
    have a: "aheadStep g g'" "e = None \<and> \<not> bareTail p x \<longrightarrow> (\<forall>f\<in>set (opBytes x). covers g' (ClassifyClientFrame dec p f))" "gateInv g' w'"
      using gateStep_ahead [OF s] gateStep_sound [OF s] prev by (simp_all add: P_def)
    have "\<not> bareTail p x" if "f \<in> set (opBytes x)" using that x assms(5) by (cases x) (auto split: if_splits)
    moreover have "f \<in> set acc \<longrightarrow> covers g' (ClassifyClientFrame dec p f)" using prev covers_mono [OF _ a(1)] by (simp add: P_def)
    ultimately show "P (if e = None then acc @ opBytes x else acc) g' w'"
      using a prev by (auto simp: P_def aheadStep_def)
  qed
  then show ?thesis using assms(7-9) by (auto simp: P_def covers_def)
qed

theorem write_ahead_witness:
  "CommitStateToolCall \<le> g_checkpointedState
     (fst (snd (demoRun GateModeBuffered 0 [GWrite calm (dataFrame ''role''), GWrite calm (dataFrame ''call''), GFinish calm ''data: tail''])))"
proof -
  let ?ops = "[GWrite calm (dataFrame ''role''), GWrite calm (dataFrame ''call''), GFinish calm ''data: tail'']"
  have c: "ClassifyClientFrame demoDec ProtocolOpenAIChat (dataFrame ''call'') = FrameClassToolCall" by code_simp
  have "dataFrame ''call'' \<in> set (fst (demoRun GateModeBuffered 0 ?ops))" by code_simp
  then show ?thesis
    using write_ahead [OF _ _ _ _ _ demoRun_run [of ?ops GateModeBuffered 0], of "dataFrame ''call''" CommitStateToolCall] c
    by (simp add: isSemanticClass_def dataFrame_def)
qed

section \<open>Where the comments promise more\<close>

lemma first_content_checkpoint:
  assumes "g_state g = CommitStateNone" "g_checkpointedState g = CommitStateNone" "g_checkpointHook g" "ge_hook env CommitStateContent"
  shows "checkpointStateAdvance env FrameClassContent g = (None, g\<lparr>g_state := CommitStateContent, g_checkpointedState := CommitStateContent\<rparr>)"
proof -
  have "advanceStateLocked FrameClassContent g = (True, g\<lparr>g_state := CommitStateContent\<rparr>)"
    using assms(1) by (simp add: advanceStateLocked_def less_commitState_def)
  moreover have "discardIf d (g\<lparr>g_state := CommitStateContent\<rparr>) = g\<lparr>g_state := CommitStateContent\<rparr>" for d
    by (rule discardIf_refused) simp
  ultimately show ?thesis
    using assms(2-4) by (simp add: checkpointStateAdvance_def isSemanticClass_def less_commitState_def)
qed

lemma first_frame_held:
  assumes "isSemanticClass (ClassifyClientFrame dec p f)" "go_Mode opts = GateModeBuffered" "go_ReplayAlignment opts = None"
    "0 < go_HoldbackWindow opts" "int (length f) \<le> g_maxMetadata (NewAttemptCommitGate p opts)"
  obtains g1 where "WriteFrame dec env f (NewAttemptCommitGate p opts) w = (None, g1, w)" "sameGate (NewAttemptCommitGate p opts) g1"
    "g_buffer g1 = f" "g_bufferLen g1 = length f" "g_holdbackOpened g1"
proof -
  let ?g = "NewAttemptCommitGate p opts"
  have f: "g_protocol ?g = p" "g_mode ?g = GateModeBuffered" "g_align ?g = None" "\<not> g_committed ?g" "\<not> g_discarded ?g"
      "\<not> g_checkpointBlocked ?g" "g_buffer ?g = []" "g_bufferLen ?g = 0" "g_holdbackWindow ?g = go_HoldbackWindow opts"
      "\<not> g_holdbackOpened ?g" "g_holdbackHeld ?g = 0" "0 < g_holdbackMaxChunks ?g" "g_firstMetaAt ?g = None"
    using assms(2-4) by (auto simp: NewAttemptCommitGate_def DefaultHoldbackMaxChunks_def)
  obtain h e g1 where h: "holdbackTryHoldLocked env f ?g = (h, e, g1)" by (metis prod_cases3)
  then have he: "h" "e = None" using f assms(4,5) by (auto simp: holdbackTryHoldLocked_def appendBufferedLocked_def Let_def)
  have ka: "ClassifyClientFrame dec p f \<noteq> FrameClassKeepalive" using assms(1) by (auto simp: isSemanticClass_def)
  have "WriteFrame dec env f ?g w = (None, g1, w)" using f h he ka assms(1) by (simp add: WriteFrame_def)
  then show thesis using that hold_effect [OF h] he f by simp
qed

text \<open>C38.
  With a holdback window a held tool call is released as content: when the stream ends, the frame goes to
  the wire while the gate's state and its checkpoint say \<open>content\<close>, although the frame's own state is
  \<open>tool_call\<close>; a recovery that consults the record takes the attempt for one without tool effects.
\<close>

theorem held_tool_call_understated:
  assumes "ClassifyClientFrame dec p f = FrameClassToolCall" "f \<noteq> []" "healthy w" "go_Mode opts = GateModeBuffered"
    "go_ReplayAlignment opts = None" "go_BeforeSemanticCommit opts" "0 < go_HoldbackWindow opts"
    "int (length f) \<le> g_maxMetadata (NewAttemptCommitGate p opts)" "ge_hook env2 CommitStateContent"
    "gateRun dec [GWrite env1 f, GFinish env2 []] [] (NewAttemptCommitGate p opts) w = (acc, g, w')"
  shows "sw_out w' = sw_out w @ f \<and> acc = [f] \<and> g_state g = CommitStateContent \<and> g_checkpointedState g = CommitStateContent
    \<and> stateOfClass (ClassifyClientFrame dec p f) = Some CommitStateToolCall"
proof -
  let ?g = "NewAttemptCommitGate p opts"
  obtain g1 where g1: "WriteFrame dec env1 f ?g w = (None, g1, w)" "sameGate ?g g1" "g_buffer g1 = f" "g_bufferLen g1 = length f" "g_holdbackOpened g1"
    using first_frame_held [OF _ assms(4,5,7,8), of dec env1 w] assms(1) by (auto simp: isSemanticClass_def)
  have f: "g_mode g1 = GateModeBuffered" "g_align g1 = None" "\<not> g_committed g1" "\<not> g_discarded g1" "\<not> g_checkpointBlocked g1"
      "0 < g_holdbackWindow g1" "g_state g1 = CommitStateNone" "g_checkpointedState g1 = CommitStateNone" "g_checkpointHook g1"
    using assms(4-7) sameGate_fields [OF g1(2)] by (simp_all add: NewAttemptCommitGate_def)
  let ?g2 = "g1\<lparr>g_state := CommitStateContent, g_checkpointedState := CommitStateContent\<rparr>"
  obtain e g3 w3 where c: "commitFlush dec ?g2 w = (e, g3, w3)" by (metis prod_cases3)
  note ce = commitFlush_effect [OF c assms(3)]
  have "FinishAttempt dec env2 [] g1 w = (e, g3, w3)"
    using f g1 assms(2) first_content_checkpoint [OF f(7-9) assms(9)] c by (simp add: FinishAttempt_def flushHoldbackLocked_def)
  then have "acc = [f]" "g = g3" "w' = w3" using assms(10) g1(1) ce(1) by simp_all
  then show ?thesis using ce g1(3) sameBuffer_fields [OF ce(4)] assms(1) by simp
qed

theorem held_tool_call_understated_witness:
  "g_checkpointedState (fst (snd (demoRun GateModeBuffered 500 [GWrite calm (dataFrame ''call''), GFinish calm []]))) = CommitStateContent"
proof -
  have c: "ClassifyClientFrame demoDec ProtocolOpenAIChat (dataFrame ''call'') = FrameClassToolCall" by code_simp
  have "int (length (dataFrame ''call'')) \<le> g_maxMetadata (NewAttemptCommitGate ProtocolOpenAIChat (demoOpts GateModeBuffered 500))"
    by code_simp
  then show ?thesis
    using held_tool_call_understated [OF c _ _ _ _ _ _ _ _ demoRun_run [of "[GWrite calm (dataFrame ''call''), GFinish calm []]" GateModeBuffered 500]]
    by (simp add: dataFrame_def calm_def)
qed

section \<open>The resumable verdict\<close>

abbreviation seen :: "attemptCommitGate \<Rightarrow> bool" where
  "seen g \<equiv> attemptHasClientSemanticOutput (Some g) 0"

lemma seen_iff: "attemptHasClientSemanticOutput (Some g) n \<longleftrightarrow> CommitStateContent \<le> g_state g \<and> (g_committed g \<or> g_mode g = GateModeImmediate)"
  by (simp add: attemptHasClientSemanticOutput_def)

text \<open>A call keeps the verdict, and reaches it when it accepts a semantic frame.\<close>

definition seenStep :: "attemptCommitGate \<Rightarrow> attemptCommitGate \<Rightarrow> bool" where
  "seenStep g g' \<longleftrightarrow> (g_holdbackWindow g' = g_holdbackWindow g \<and> g_protocol g' = g_protocol g) \<and> (seen g \<longrightarrow> seen g')"

lemma seenStep_trans: "seenStep g g1 \<Longrightarrow> seenStep g1 g2 \<Longrightarrow> seenStep g g2"
  by (auto simp: seenStep_def)

lemma seenStep_sameGate: "sameGate g g' \<Longrightarrow> seenStep g g'"
  by (simp add: seenStep_def seen_iff sameGate_fields)

lemma seenStep_discardIf: "seenStep g (discardIf d g)"
  unfolding discardIf_def Discard_def by (auto simp: seenStep_def seen_iff)

lemma seenStep_block: "seenStep g (blockCheckpointLocked g)"
  by (simp add: seenStep_def seen_iff blockCheckpointLocked_def)

lemma advanced_mono: "g_state g \<le> g_state (advanced c g)"
  by (simp add: advanced_state split: option.splits)

lemma seenStep_advanced: "seenStep g (advanced c g)"
  using order_trans [OF _ advanced_mono [of g c]] by (auto simp: seenStep_def seen_iff)

lemma seenStep_checkpoint:
  assumes "checkpointStateAdvance env c g = (e, g')"
  shows "seenStep g g' \<and> (isSemanticClass c \<longrightarrow> CommitStateContent \<le> g_state g')"
proof
  have k: "seenStep x (x\<lparr>g_checkpointedState := v\<rparr>)" for x v by (simp add: seenStep_def seen_iff)
  show "seenStep g g'"
    using assms
    by (cases rule: checkpoint_cases)
      (use seenStep_advanced seenStep_trans [OF seenStep_advanced seenStep_discardIf] seenStep_trans [OF _ seenStep_block]
        seenStep_trans [OF _ k] in metis)+
  show "isSemanticClass c \<longrightarrow> CommitStateContent \<le> g_state g'"
    using checkpoint_effect(11) [OF assms] advanced_semantic by (simp add: locked_def)
qed

lemma WriteFrame_seen:
  assumes "WriteFrame dec env frame g w = (e, g', w')" "gateInv g w" "g_holdbackWindow g \<le> 0"
  shows "seenStep g g' \<and> (e = None \<and> isSemanticClass (ClassifyClientFrame dec (g_protocol g) frame) \<longrightarrow> seen g')"
proof -
  let ?c = "ClassifyClientFrame dec (g_protocol g) frame"
  have al: "g_align g = None" "healthy w" using assms(2) by (auto simp: gateInv_def)
  have refl: "seenStep g g" by (simp add: seenStep_def)
  have ka: "\<not> isSemanticClass FrameClassKeepalive" by (simp add: isSemanticClass_def)
  show ?thesis
    using assms(1) al
  proof (cases rule: WriteFrame_cases)
    case refused
    then show ?thesis using refl by simp
  next
    case queued
    then show ?thesis using append_effect [OF queued(6)] seenStep_sameGate ka by simp
  next
    case alive
    then show ?thesis using seenStep_discardIf ka by simp
  next
    case (held h)
    then show ?thesis using hold_effect [OF held(6)] assms(3) by auto
  next
    case (failed g1 x)
    then show ?thesis using seenStep_trans [OF seenStep_sameGate [OF failed(4)]] seenStep_checkpoint [OF failed(8)] by simp
  next
    case (through g1 g2)
    have a: "seenStep g g2" using seenStep_trans [OF seenStep_sameGate [OF through(4)]] seenStep_checkpoint [OF through(7)] by simp
    have "seenStep g2 g'"
      using through(10) by (intro seenStep_trans [OF seenStep_discardIf [of _ "ge_discard2 env"] seenStep_sameGate]) (simp add: sameBuffer_def)
    moreover have "isSemanticClass ?c \<longrightarrow> seen g2"
      using seenStep_checkpoint [OF through(7)] through(8) mayDiscard_checkpoint [OF through(7)] sameGate_fields [OF through(4)]
      by (auto simp: seen_iff mayDiscard_def)
    ultimately show ?thesis using seenStep_trans [OF a] by (auto simp: seenStep_def)
  next
    case (committing g1 g2)
    have "seenStep g g2" using seenStep_trans [OF seenStep_sameGate [OF committing(4)]] seenStep_checkpoint [OF committing(7)] by simp
    moreover have "CommitStateContent \<le> g_state g2" using seenStep_checkpoint [OF committing(7)] committing(3) by simp
    ultimately show ?thesis using sameBuffer_fields [OF committing(11)] by (simp add: seenStep_def seen_iff)
  next
    case (metadata g1)
    then show ?thesis using seenStep_trans [OF _ seenStep_sameGate] seenStep_checkpoint [OF metadata(5)] append_effect [OF metadata(8)] by blast
  qed
qed

lemma Commit_seen:
  assumes "gate_Commit dec env g w = (e, g', w')" "gateInv g w"
  shows "seenStep g g'"
proof -
  have hw: "healthy w" using assms(2) by (simp add: gateInv_def)
  have flush: "seenStep x g'" if "commitFlush dec x w = (e, g', w')" for x
    using sameBuffer_fields [OF commitFlush_effect(4) [OF that(1) hw]] by (simp add: seenStep_def seen_iff)
  let ?d = "discardIf (ge_discard1 env) g"
  have d: "seenStep g ?d" by (rule seenStep_discardIf)
  have k: "seenStep ?d (?d\<lparr>g_checkpointedState := v\<rparr>)" for v by (simp add: seenStep_def seen_iff)
  consider (kept) "g' = g \<or> g' = ?d \<or> g' = blockCheckpointLocked ?d" | (plain) "commitFlush dec g w = (e, g', w')"
    | (hooked) "commitFlush dec (?d\<lparr>g_checkpointedState := g_state g\<rparr>) w = (e, g', w')"
    using assms(1) by (auto simp: gate_Commit_def Let_def split: if_splits)
  then show ?thesis
  proof cases
    case kept
    then show ?thesis using d seenStep_trans [OF d seenStep_block] by (auto simp: seenStep_def [of g g])
  next
    case plain
    then show ?thesis by (rule flush)
  next
    case hooked
    then show ?thesis using seenStep_trans [OF seenStep_trans [OF d k] flush] by simp
  qed
qed

lemma FinishAttempt_seen:
  assumes "FinishAttempt dec env partial g w = (e, g', w')" "gateInv g w" "g_holdbackWindow g \<le> 0"
  shows "seenStep g g' \<and> (e = None \<and> partial \<noteq> [] \<and> isPartialTerminalFrame (g_protocol g) partial
     \<and> isSemanticClass (ClassifyClientFrame dec (g_protocol g) partial) \<longrightarrow> seen g')"
proof -
  have al: "g_align g = None" "healthy w" using assms(2) by (auto simp: gateInv_def)
  have refl: "seenStep g g" by (simp add: seenStep_def)
  show ?thesis
    using assms(1) al assms(3)
  proof (cases rule: FinishAttempt_cases)
    case idle
    then show ?thesis using refl by auto
  next
    case (failed x)
    then show ?thesis using seenStep_checkpoint [OF failed(4)] by simp
  next
    case (through g1)
    have a: "seenStep g g1 \<and> (isPartialTerminalFrame (g_protocol g) partial \<and> isSemanticClass (ClassifyClientFrame dec (g_protocol g) partial)
        \<longrightarrow> CommitStateContent \<le> g_state g1)"
      using through(2) seenStep_checkpoint refl by (auto split: if_splits)
    moreover have "seenStep g1 g'" using sameBuffer_fields [OF through(5)] by (auto simp: seenStep_def seen_iff)
    moreover have "CommitStateContent \<le> g_state g1 \<longrightarrow> seen g'"
      using through(4) sameBuffer_fields [OF through(5)] by (auto simp: seen_iff)
    ultimately show ?thesis using seenStep_trans by blast
  next
    case buffered
    then show ?thesis using append_effect [OF buffered(2)] seenStep_sameGate by simp
  next
    case (committing g1)
    have "seenStep g g1" "isSemanticClass (ClassifyClientFrame dec (g_protocol g) partial) \<longrightarrow> CommitStateContent \<le> g_state g1"
      using seenStep_checkpoint [OF committing(3)] by simp_all
    then show ?thesis using sameBuffer_fields [OF committing(5)] by (auto simp: seenStep_def seen_iff)
  qed
qed

lemma gateStep_seen:
  assumes "gateStep dec x g w = (e, g', w')" "gateInv g w" "g_holdbackWindow g \<le> 0"
  shows "seenStep g g' \<and> (\<forall>f\<in>set (opBytes x). e = None \<and> \<not> bareTail (g_protocol g) x
     \<and> isSemanticClass (ClassifyClientFrame dec (g_protocol g) f) \<longrightarrow> seen g')"
proof -
  have refl: "seenStep g g" by (simp add: seenStep_def)
  have idle: "g' = g" if "flushHoldbackLocked dec env g w = (e, g', w')" for env
    using that assms(3) by (simp add: flushHoldbackLocked_def split: if_splits)
  show ?thesis
  proof (cases x)
    case (GWrite env frame)
    then show ?thesis using WriteFrame_seen [OF _ assms(2,3), of dec env frame e g' w'] assms(1) by simp
  next
    case (GFinish env partial)
    then show ?thesis using FinishAttempt_seen [OF _ assms(2,3), of dec env partial e g' w'] assms(1) by auto
  next
    case (GFlush env)
    then show ?thesis using idle [of env] refl assms(1) by simp
  next
    case (GCommit env)
    then show ?thesis using Commit_seen [OF _ assms(2), of dec env e g' w'] assms(1) by simp
  next
    case GDiscard
    then have "g' = discardIf True g" using assms(1) by (simp add: discardIf_def case_prod_beta)
    then show ?thesis using seenStep_discardIf GDiscard by simp
  qed
qed

text \<open>C23.
  The verdict behind every \<open>Resumable\<close>: on a gate without a holdback window and without a replay
  alignment, over a connection that takes every write, after any run of calls, in both modes and with any
  concurrent \<open>Discard\<close>, the gate reports no client-visible semantic output only if it accepted no
  semantic frame, unterminated terminal frames included; the only semantic bytes it may have accepted are an
  unterminated tail handed to \<open>FinishAttempt\<close> that is not a terminal frame. Apart from such a tail a stream
  that is replayed as resumable has shown the client nothing that the replay could repeat.
\<close>

theorem resumable_means_unseen:
  assumes "go_ReplayAlignment opts = None" "go_HoldbackWindow opts \<le> 0" "healthy w" "\<forall>env. GFinish env f \<in> set ops \<longrightarrow> isPartialTerminalFrame p f"
    "gateRun dec ops [] (NewAttemptCommitGate p opts) w = (acc, g, w')" "\<not> attemptHasClientSemanticOutput (Some g) n" "f \<in> set acc"
  shows "\<not> isSemanticClass (ClassifyClientFrame dec p f)"
proof -
  define P where "P acc g w = (gateInv g w \<and> g_holdbackWindow g \<le> 0 \<and> g_protocol g = p
    \<and> (f \<in> set acc \<and> isSemanticClass (ClassifyClientFrame dec p f) \<longrightarrow> seen g))" for acc g w
  have "P acc g w'"
  proof (rule gateRun_invariant [OF _ _ assms(5)])
    show "P [] (NewAttemptCommitGate p opts) w"
      using gateInv_new [OF assms(1,3), of p] assms(2) by (simp add: P_def NewAttemptCommitGate_def)
    fix x acc g w e g' w'
    assume prev: "P acc g w" and x: "x \<in> set ops" and s: "gateStep dec x g w = (e, g', w')"
    have "seenStep g g'" "\<forall>f\<in>set (opBytes x). e = None \<and> \<not> bareTail p x \<and> isSemanticClass (ClassifyClientFrame dec p f) \<longrightarrow> seen g'" "gateInv g' w'"
      using gateStep_seen [OF s] gateStep_sound [OF s] prev by (simp_all add: P_def)
    moreover have "\<not> bareTail p x" if "f \<in> set (opBytes x)" using that x assms(4) by (cases x) (auto split: if_splits)
    ultimately show "P (if e = None then acc @ opBytes x else acc) g' w'"
      using prev by (auto simp: P_def seenStep_def)
  qed
  then show ?thesis using assms(6,7) by (auto simp: P_def seen_iff)
qed

theorem resumable_means_unseen_witness:
  "\<not> isSemanticClass (ClassifyClientFrame demoDec ProtocolOpenAIChat (dataFrame ''role''))"
proof -
  let ?ops = "[GWrite calm (dataFrame ''role'')]"
  have "\<not> attemptHasClientSemanticOutput (Some (fst (snd (demoRun GateModeImmediate 0 ?ops)))) 0"
    "dataFrame ''role'' \<in> set (fst (demoRun GateModeImmediate 0 ?ops))" by code_simp+
  then show ?thesis using resumable_means_unseen [OF _ _ _ _ demoRun_run [of ?ops GateModeImmediate 0]] by simp
qed

end
