(* ===== verification/ConnectionCut.thy ===== *)
theory ConnectionCut
  imports GateSafety "HOL-Library.Sublist"
begin

text \<open>
  What the client sees of an attempt when its connection fails. The gate theorems of \<open>GateSafety\<close> and
  \<open>GateReplay\<close> are about a connection that takes every write (\<open>healthy\<close>). Here the same calls run
  against an arbitrary connection, one that fails or cuts short any write or flush, or is detached at any
  point: the client then sees a prefix of what the healthy connection would have shown, for every gate, with
  or without buffering, holdback and replay alignment. The proof is compositional: the writer's primitives
  track the healthy connection, and sequencing, case distinctions and loops keep that.
\<close>

section \<open>Tracking the healthy connection\<close>

text \<open>The results of the same computation on a connection and on the healthy one.\<close>

definition agree :: "'r \<times> streamWriter \<Rightarrow> 'r \<times> streamWriter \<Rightarrow> bool" where
  "agree x y \<longleftrightarrow> (if sw_detached (snd x) then prefix (sw_out (snd x)) (sw_out (snd y))
     else fst x = fst y \<and> sw_out (snd x) = sw_out (snd y))"

definition tracks :: "(streamWriter \<Rightarrow> 'r \<times> streamWriter) \<Rightarrow> bool" where
  "tracks F \<longleftrightarrow>
     (\<forall>w. sw_detached w \<longrightarrow> sw_detached (snd (F w)) \<and> sw_out (snd (F w)) = sw_out w)
   \<and> (\<forall>w0. healthy w0 \<longrightarrow> healthy (snd (F w0)) \<and> prefix (sw_out w0) (sw_out (snd (F w0))))
   \<and> (\<forall>w w0. \<not> sw_detached w \<and> healthy w0 \<and> sw_out w = sw_out w0 \<longrightarrow> agree (F w) (F w0))"

lemma tracks_cut: "tracks F \<Longrightarrow> sw_detached w \<Longrightarrow> sw_detached (snd (F w)) \<and> sw_out (snd (F w)) = sw_out w"
  and tracks_healthy: "tracks F \<Longrightarrow> healthy w0 \<Longrightarrow> healthy (snd (F w0)) \<and> prefix (sw_out w0) (sw_out (snd (F w0)))"
  and tracks_agree: "tracks F \<Longrightarrow> \<not> sw_detached w \<Longrightarrow> healthy w0 \<Longrightarrow> sw_out w = sw_out w0 \<Longrightarrow> agree (F w) (F w0)"
  unfolding tracks_def by blast+

lemma tracks_ret: "tracks (\<lambda>w. (r, w))"
  by (simp add: tracks_def agree_def)

lemma tracks_bind:
  assumes F: "tracks F" and G: "\<And>r. tracks (G r)"
  shows "tracks (\<lambda>w. case F w of (r, w1) \<Rightarrow> G r w1)"
  unfolding tracks_def case_prod_beta
proof (intro conjI allI impI)
  fix w :: streamWriter assume "sw_detached w"
  then show "sw_detached (snd (G (fst (F w)) (snd (F w))))" "sw_out (snd (G (fst (F w)) (snd (F w)))) = sw_out w"
    using tracks_cut [OF F] tracks_cut [OF G] by metis+
next
  fix w0 :: streamWriter assume "healthy w0"
  then show "healthy (snd (G (fst (F w0)) (snd (F w0))))" "prefix (sw_out w0) (sw_out (snd (G (fst (F w0)) (snd (F w0)))))"
    using tracks_healthy [OF F] tracks_healthy [OF G] by (blast intro: prefix_order.trans)+
next
  fix w w0 :: streamWriter assume A: "\<not> sw_detached w \<and> healthy w0 \<and> sw_out w = sw_out w0"
  then have h: "healthy (snd (F w0))" and a: "agree (F w) (F w0)" using tracks_healthy [OF F] tracks_agree [OF F] by auto
  show "agree (G (fst (F w)) (snd (F w))) (G (fst (F w0)) (snd (F w0)))"
  proof (cases "sw_detached (snd (F w))")
    case True
    have "prefix (sw_out (snd (F w))) (sw_out (snd (G (fst (F w0)) (snd (F w0)))))"
      using a True tracks_healthy [OF G h] by (auto simp: agree_def intro: prefix_order.trans)
    then show ?thesis using tracks_cut [OF G True] by (simp add: agree_def)
  next
    case False
    then show ?thesis using a h tracks_agree [OF G False h] by (simp add: agree_def)
  qed
qed

text \<open>Calls return the error, the gate and the writer.\<close>

definition paired :: "'e \<times> 'g \<times> streamWriter \<Rightarrow> ('e \<times> 'g) \<times> streamWriter" where
  "paired x = ((fst x, fst (snd x)), snd (snd x))"

definition tracks3 :: "(streamWriter \<Rightarrow> 'e \<times> 'g \<times> streamWriter) \<Rightarrow> bool" where
  "tracks3 F \<longleftrightarrow> tracks (\<lambda>w. paired (F w))"

lemma tracks3_ret: "tracks3 (\<lambda>w. (e, g, w))"
  by (simp add: tracks3_def paired_def tracks_ret)

lemma tracks3_lift: "tracks F \<Longrightarrow> (\<And>e. tracks3 (G e)) \<Longrightarrow> tracks3 (\<lambda>w. case F w of (e, w1) \<Rightarrow> G e w1)"
  using tracks_bind [of F "\<lambda>e w. paired (G e w)"] by (simp add: tracks3_def case_prod_beta)

lemma tracks3_bind:
  "tracks3 F \<Longrightarrow> (\<And>e g. tracks3 (G e g)) \<Longrightarrow> tracks3 (\<lambda>w. case F w of (e, g, w1) \<Rightarrow> G e g w1)"
  using tracks_bind [of "\<lambda>w. paired (F w)" "\<lambda>(e, g) w. paired (G e g w)"]
  by (simp add: tracks3_def case_prod_beta paired_def)

text \<open>Decisions that do not look at the writer.\<close>

lemma tracks_if: "(c \<Longrightarrow> tracks F) \<Longrightarrow> (\<not> c \<Longrightarrow> tracks G) \<Longrightarrow> tracks (\<lambda>w. if c then F w else G w)"
  by (cases c) simp_all

lemma tracks3_if: "(c \<Longrightarrow> tracks3 F) \<Longrightarrow> (\<not> c \<Longrightarrow> tracks3 G) \<Longrightarrow> tracks3 (\<lambda>w. if c then F w else G w)"
  by (cases c) simp_all

lemma tracks_option: "tracks N \<Longrightarrow> (\<And>x. tracks (S x)) \<Longrightarrow> tracks (\<lambda>w. case z of None \<Rightarrow> N w | Some x \<Rightarrow> S x w)"
  by (cases z) simp_all

lemma tracks3_option: "tracks3 N \<Longrightarrow> (\<And>x. tracks3 (S x)) \<Longrightarrow> tracks3 (\<lambda>w. case z of None \<Rightarrow> N w | Some x \<Rightarrow> S x w)"
  by (cases z) simp_all

lemma tracks3_prod: "(\<And>a b. tracks3 (P a b)) \<Longrightarrow> tracks3 (\<lambda>w. case q of (a, b) \<Rightarrow> P a b w)"
  by (cases q) simp

lemma tracks3_try:
  assumes "tracks3 F" "\<And>g. tracks3 (N g)" "\<And>x g. tracks3 (S x g)"
  shows "tracks3 (\<lambda>w. case F w of (e, b) \<Rightarrow> (case e of None \<Rightarrow> (case b of (g, w1) \<Rightarrow> N g w1) | Some x \<Rightarrow> (case b of (g, w1) \<Rightarrow> S x g w1)))"
proof -
  have "tracks3 (\<lambda>w. case F w of (e, g, w1) \<Rightarrow> (case e of None \<Rightarrow> N g w1 | Some x \<Rightarrow> S x g w1))"
    by (rule tracks3_bind [OF assms(1)], rule tracks3_option) (rule assms(2,3))+
  moreover have "(\<lambda>w. case F w of (e, g, w1) \<Rightarrow> (case e of None \<Rightarrow> N g w1 | Some x \<Rightarrow> S x g w1)) =
      (\<lambda>w. case F w of (e, b) \<Rightarrow> (case e of None \<Rightarrow> (case b of (g, w1) \<Rightarrow> N g w1) | Some x \<Rightarrow> (case b of (g, w1) \<Rightarrow> S x g w1)))"
    by (auto simp: fun_eq_iff split: prod.split option.split)
  ultimately show ?thesis by simp
qed

section \<open>The writer and the gate\<close>

lemma tracks_sw_Write: "tracks (sw_Write p)"
  unfolding tracks_def
proof (intro conjI allI impI)
  fix w w0 :: streamWriter assume A: "\<not> sw_detached w \<and> healthy w0 \<and> sw_out w = sw_out w0"
  have "take n p \<noteq> p \<longrightarrow> prefix (take n p) p" for n by (simp add: take_is_prefix)
  then show "agree (sw_Write p w) (sw_Write p w0)" using A
    by (cases "sw_answers w"; cases "hd (sw_answers w)")
      (auto simp: agree_def sw_Write_def sw_write_def sw_next_def sw_detachWith_def sw_captureBytes_def healthy_def Let_def take_is_prefix)
qed (auto simp: sw_Write_def sw_write_def sw_next_def sw_captureBytes_def healthy_def Let_def)

lemma tracks_sw_FlushError: "tracks sw_FlushError"
  unfolding tracks_def
proof (intro conjI allI impI)
  fix w w0 :: streamWriter assume A: "\<not> sw_detached w \<and> healthy w0 \<and> sw_out w = sw_out w0"
  then show "agree (sw_FlushError w) (sw_FlushError w0)"
    by (cases "sw_answers w"; cases "hd (sw_answers w)")
      (auto simp: agree_def sw_FlushError_def sw_next_def sw_detachWith_def healthy_def)
qed (auto simp: sw_FlushError_def sw_next_def healthy_def)

lemmas tracks_primitive = tracks_sw_Write tracks_sw_FlushError tracks_ret tracks3_ret

text \<open>One layer of a call: an operation of the writer, a call already known to track, a decision or a result.\<close>

lemmas tracks_layer = tracks_primitive tracks_option tracks3_option tracks_if tracks3_if tracks3_try tracks3_lift tracks3_bind tracks3_prod

lemma tracks_writeFlush: "tracks (writeFlush p)"
  using tracks_bind [OF tracks_sw_Write [of p], of "\<lambda>e w1. case e of None \<Rightarrow> sw_FlushError w1 | Some x \<Rightarrow> (Some x, w1)"]
  by (simp add: writeFlush_def [abs_def] tracks_option tracks_primitive)

lemma tracks3_commitLocked: "tracks3 (commitLocked dec g)"
  unfolding commitLocked_def [abs_def] Let_def by (intro tracks_layer)

lemma tracks3_commitFlush: "tracks3 (commitFlush dec g)"
  unfolding commitFlush_def [abs_def] by (intro tracks_layer tracks3_commitLocked)

lemma tracks3_flushHoldback: "tracks3 (flushHoldbackLocked dec env g)"
  unfolding flushHoldbackLocked_def [abs_def] by (intro tracks_layer tracks3_commitFlush)

lemma tracks3_Commit: "tracks3 (gate_Commit dec env g)"
  unfolding gate_Commit_def [abs_def] Let_def by (intro tracks_layer tracks3_commitFlush)

lemma tracks3_forwardFrames: "tracks3 (forwardFrames dec env raws g)"
proof (induction raws arbitrary: g)
  case (Cons raw raws)
  then show ?case unfolding forwardFrames.simps [abs_def] Let_def by (intro tracks_layer)
qed (unfold forwardFrames.simps [abs_def], rule tracks3_ret)

lemma tracks3_forwardSuffix: "tracks3 (forwardReplaySuffixLocked dec env res st g)"
  unfolding forwardReplaySuffixLocked_def [abs_def] Let_def by (intro tracks_layer tracks3_forwardFrames)

lemma tracks3_decide: "tracks3 (decideReplayAlignmentLocked dec env st g)"
  unfolding decideReplayAlignmentLocked_def [abs_def] Let_def by (intro tracks_layer tracks3_forwardSuffix)

lemma tracks3_passthrough: "tracks3 (forwardReplayPassthroughLocked env c frame g)"
  unfolding forwardReplayPassthroughLocked_def [abs_def] Let_def by (intro tracks_layer tracks_writeFlush)

lemma tracks3_writeReplay: "tracks3 (writeFrameReplayAlignedLocked dec env c frame st g)"
  unfolding writeFrameReplayAlignedLocked_def [abs_def] by (intro tracks_layer tracks3_passthrough tracks3_decide)

lemma tracks3_finishReplay: "tracks3 (finishReplayAttemptLocked dec env partial st g)"
  unfolding finishReplayAttemptLocked_def [abs_def] Let_def by (intro tracks_layer tracks3_passthrough tracks3_decide)

lemma tracks3_WriteFrame: "tracks3 (WriteFrame dec env frame g)"
  unfolding WriteFrame_def [abs_def] Let_def by (intro tracks_layer tracks_writeFlush tracks3_writeReplay)

lemma tracks3_FinishAttempt: "tracks3 (FinishAttempt dec env partial g)"
  unfolding FinishAttempt_def [abs_def] Let_def
  by (intro tracks_layer tracks_writeFlush tracks3_finishReplay tracks3_flushHoldback tracks3_commitLocked)

lemma tracks3_gateStep: "tracks3 (gateStep dec x g)"
proof (cases x)
  case GDiscard
  then show ?thesis unfolding GDiscard gateStep.simps [abs_def] by (intro tracks3_prod tracks3_ret)
qed (auto simp: gateStep.simps [abs_def] tracks3_WriteFrame tracks3_FinishAttempt tracks3_flushHoldback tracks3_Commit)

lemma tracks3_gateRun: "tracks3 (gateRun dec ops acc g)"
proof (induction ops arbitrary: acc g)
  case (Cons x ops)
  then show ?case unfolding gateRun.simps [abs_def] by (intro tracks3_bind tracks3_gateStep)
qed (unfold gateRun.simps [abs_def], rule tracks3_ret)

section \<open>A connection that fails\<close>

lemma gateRun_cut: "sw_detached w \<Longrightarrow> gateRun dec ops acc g w = (acc', g', w') \<Longrightarrow> sw_detached w' \<and> sw_out w' = sw_out w"
  using tracks_cut [OF tracks3_gateRun [unfolded tracks3_def], of w dec ops acc g] by (simp add: paired_def)

lemma gateRun_healthy: "healthy w \<Longrightarrow> gateRun dec ops acc g w = (acc', g', w') \<Longrightarrow> healthy w' \<and> prefix (sw_out w) (sw_out w')"
  using tracks_healthy [OF tracks3_gateRun [unfolded tracks3_def], of w dec ops acc g] by (simp add: paired_def)

lemma gateRun_agree:
  assumes "gateRun dec ops acc g w = (acc1, g1, w1)" "gateRun dec ops acc g w0 = (acc0, g0, w01)" "healthy w0" "sw_out w = sw_out w0"
  shows "prefix (sw_out w1) (sw_out w01) \<and> (\<not> sw_detached w1 \<longrightarrow> acc1 = acc0 \<and> g1 = g0 \<and> sw_out w1 = sw_out w01)"
proof (cases "sw_detached w")
  case True
  then show ?thesis using gateRun_cut [OF _ assms(1)] gateRun_healthy [OF assms(3,2)] assms(4) by simp
next
  case False
  then show ?thesis using tracks_agree [OF tracks3_gateRun [unfolded tracks3_def] False assms(3,4), of dec ops acc g] assms(1,2)
    by (auto simp: agree_def paired_def split: if_splits)
qed

text \<open>C36.
  A failing connection shows the client a prefix. Take any gate, in any mode and state, with or without
  holdback or replay alignment, any calls with any answers of the checkpoint hook and any concurrent discards,
  and a connection that may fail or cut short any write or flush and may be detached between any two calls.
  The client receives a prefix of what a connection that takes every write would have received from the same
  calls, and as long as the connection is not cut, the same bytes, with the same calls accepted and the same
  gate: after the first failure nothing more is sent, and nothing is sent out of order before it.
\<close>

theorem cut_connection_prefix:
  assumes "gateRun dec ops1 [] g w = (acc1, g1, w1)" "gateRun dec ops2 acc1 g1 (if detach then sw_Detach w1 else w1) = (acc2, g2, w2)"
    and "gateRun dec (ops1 @ ops2) [] g w0 = (acc0, g0, w0')" "healthy w0" "sw_out w = sw_out w0"
  shows "prefix (sw_out w2) (sw_out w0') \<and> (\<not> sw_detached w2 \<longrightarrow> acc2 = acc0 \<and> g2 = g0 \<and> sw_out w2 = sw_out w0')"
proof (cases detach)
  case True
  obtain acc01 g01 w01 where r: "gateRun dec ops1 [] g w0 = (acc01, g01, w01)" "gateRun dec ops2 acc01 g01 w01 = (acc0, g0, w0')"
    using assms(3) by (auto simp: gateRun_append split: prod.splits)
  have "prefix (sw_out w1) (sw_out w01)" using gateRun_agree [OF assms(1) r(1) assms(4,5)] by blast
  moreover have "prefix (sw_out w01) (sw_out w0')" using gateRun_healthy [OF _ r(2)] gateRun_healthy [OF assms(4) r(1)] by blast
  moreover have "sw_detached w2" "sw_out w2 = sw_out w1"
    using gateRun_cut [OF _ assms(2)] True by (simp_all add: sw_Detach_def)
  ultimately show ?thesis by (metis prefix_order.trans)
next
  case False
  then have "gateRun dec (ops1 @ ops2) [] g w = (acc2, g2, w2)" using assms(1,2) by (simp add: gateRun_append)
  then show ?thesis using gateRun_agree [OF _ assms(3-5)] by blast
qed

text \<open>The connection takes the first frame and its flush and fails on the second after four bytes.\<close>

definition demoCut :: streamWriter where
  "demoCut = snd (snd (gateRun demoDec [GWrite calm (dataFrame ''hi''), GWrite calm (dataFrame ''you'')] []
     (NewAttemptCommitGate ProtocolOpenAIChat (demoOpts GateModeImmediate 0)) (NewSerializedStreamWriter [IoOk, IoOk, IoErr 4] FlushPlain)))"

theorem cut_connection_prefix_witness:
  "sw_out demoCut = dataFrame ''hi'' @ ''data''
   \<and> prefix (sw_out demoCut) (sw_out (snd (snd (demoRun GateModeImmediate 0 [GWrite calm (dataFrame ''hi''), GWrite calm (dataFrame ''you'')]))))"
proof -
  let ?ops = "[GWrite calm (dataFrame ''hi''), GWrite calm (dataFrame ''you'')]"
  let ?g = "NewAttemptCommitGate ProtocolOpenAIChat (demoOpts GateModeImmediate 0)"
  let ?w = "NewSerializedStreamWriter [IoOk, IoOk, IoErr 4] FlushPlain"
  obtain acc g w where r: "gateRun demoDec ?ops [] ?g ?w = (acc, g, w)" by (metis prod_cases3)
  have "sw_out demoCut = dataFrame ''hi'' @ ''data''" by code_simp
  moreover have "prefix (sw_out w) (sw_out (snd (snd (demoRun GateModeImmediate 0 ?ops))))"
    using cut_connection_prefix [OF r, of "[]" False acc g w, unfolded append_Nil2, OF _ demoRun_run]
    by (simp add: NewSerializedStreamWriter_def healthy_def)
  ultimately show ?thesis using r by (simp add: demoCut_def)
qed

end
