(* ===== verification/GateReplay.thy ===== *)
theory GateReplay
  imports GateSafety
begin

text \<open>
  The byte side of the commit gate and its replays: a \<open>GateWriter\<close> does not depend on how the bytes were
  cut into writes and hands on every byte; a replay of an interrupted stream stays silent until it is
  aligned, and a faithful one shows the client exactly what it has not seen. Two theorems show what the
  comments of \<open>Discard\<close> and \<open>FinishAttempt\<close> leave out.
\<close>

section \<open>Chunks\<close>

lemma gw_loop_shift: "gw_loop dec (\<lambda>i. envs (n + i)) k gw w = gw_loop dec envs (n + k) gw w"
proof (induction dec "\<lambda>i. envs (n + i)" k gw w rule: gw_loop.induct)
  case (1 dec k gw w)
  then show ?case
    by (subst (1 2) gw_loop.simps) (simp split: option.split prod.split add: Let_def)
qed

text \<open>The loop on more bytes goes on where the loop on the first bytes stopped.\<close>

lemma gw_loop_append:
  assumes "gw_loop dec envs k gw w = (None, gw1, w1)"
  shows "gw_loop dec envs k (gw\<lparr>gw_pending := gw_pending gw @ q\<rparr>) w =
    gw_loop dec envs (k + length (fst (cutFrames (gw_pending gw)))) (gw1\<lparr>gw_pending := gw_pending gw1 @ q\<rparr>) w1"
  using assms
proof (induction dec envs k gw w rule: gw_loop.induct)
  case (1 dec envs k gw w)
  show ?case
  proof (cases "frameBoundary (gw_pending gw)")
    case None
    then have "gw1 = gw" "w1 = w" using 1(2) by (simp_all add: gw_loop.simps [of dec envs k gw])
    then show ?thesis using None by (simp add: cutFrames_None)
  next
    case (Some n)
    have n: "n \<le> length (gw_pending gw)" using frameBoundary_bounds [OF Some] by simp
    obtain e g2 w2 where wf: "WriteFrame dec (envs k) (take n (gw_pending gw)) (gw_gate gw) w = (e, g2, w2)" by (metis prod_cases3)
    let ?gw = "gw\<lparr>gw_gate := g2, gw_pending := drop n (gw_pending gw)\<rparr>"
    have e: "e = None" "gw_loop dec envs (Suc k) ?gw w2 = (None, gw1, w1)"
      using 1(2) Some wf by (auto simp: gw_loop.simps [of dec envs k gw] Let_def split: option.splits)
    have "gw_loop dec envs k (gw\<lparr>gw_pending := gw_pending gw @ q\<rparr>) w = gw_loop dec envs (Suc k) (?gw\<lparr>gw_pending := gw_pending ?gw @ q\<rparr>) w2"
      using frameBoundary_append [OF Some, of q] wf e(1) n
      by (simp add: gw_loop.simps [of dec envs k "gw\<lparr>gw_pending := gw_pending gw @ q\<rparr>"])
    also have "\<dots> = gw_loop dec envs (Suc k + length (fst (cutFrames (gw_pending ?gw)))) (gw1\<lparr>gw_pending := gw_pending gw1 @ q\<rparr>) w1"
      using 1(1) [OF Some wf [symmetric] refl refl] e by simp
    finally show ?thesis using cutFrames_Some [OF Some] by simp
  qed
qed

definition demoWriter :: "gateMode \<Rightarrow> gateWriter" where
  "demoWriter m = \<lparr>gw_gate = NewAttemptCommitGate ProtocolOpenAIChat (demoOpts m 0), gw_pending = []\<rparr>"

text \<open>C24.
  How the bytes of a stream are cut into \<open>Write\<close> calls makes no difference: two writes, the first of which
  succeeded, leave the gate, the pending bytes, the connection and the result exactly as one write of
  their concatenation does, with the same environment for each frame. A frame boundary may fall anywhere,
  inside a line ending too.
\<close>

theorem chunking_invisible:
  assumes "gw_Write dec envs p gw w = (None, gw1, w1)"
  shows "gw_Write dec (\<lambda>i. envs (length (fst (cutFrames (gw_pending gw @ p))) + i)) q gw1 w1 = gw_Write dec envs (p @ q) gw w"
  using gw_loop_append [OF assms [unfolded gw_Write_def], of q]
    gw_loop_shift [of dec envs "length (fst (cutFrames (gw_pending gw @ p)))" 0]
  by (simp add: gw_Write_def)

theorem chunking_invisible_witness:
  "let (_, gw1, w1) = gw_Write demoDec (\<lambda>i. calm) (''data: hi'' @ [NL]) (demoWriter GateModeImmediate) (NewSerializedStreamWriter [] FlushPlain)
   in gw_Write demoDec (\<lambda>i. calm) [NL] gw1 w1 =
      gw_Write demoDec (\<lambda>i. calm) ((''data: hi'' @ [NL]) @ [NL]) (demoWriter GateModeImmediate) (NewSerializedStreamWriter [] FlushPlain)"
proof -
  let ?r = "gw_Write demoDec (\<lambda>i. calm) (''data: hi'' @ [NL]) (demoWriter GateModeImmediate) (NewSerializedStreamWriter [] FlushPlain)"
  have "fst ?r = None" by code_simp
  then have "?r = (None, fst (snd ?r), snd (snd ?r))" by (metis prod.collapse)
  from chunking_invisible [OF this, of "[NL]"] show ?thesis by (simp add: case_prod_beta)
qed

section \<open>Every byte of a stream\<close>

text \<open>The writes of an attempt, up to the first that fails; the environments are numbered by write and frame.\<close>

fun gw_feed :: "jsonDec \<Rightarrow> (nat \<Rightarrow> nat \<Rightarrow> gateEnv) \<Rightarrow> string list \<Rightarrow> gateWriter \<Rightarrow> streamWriter \<Rightarrow>
    gateErr option \<times> gateWriter \<times> streamWriter" where
  "gw_feed dec envs [] gw w = (None, gw, w)"
| "gw_feed dec envs (p # ps) gw w = (case gw_Write dec (envs (length ps)) p gw w of
     (Some e, gw1, w1) \<Rightarrow> (Some e, gw1, w1)
   | (None, gw1, w1) \<Rightarrow> gw_feed dec envs ps gw1 w1)"

text \<open>What a sink of frames owes its writer: an assertion about the bytes accepted so far, the gate and the
  wire that every \<open>WriteFrame\<close> keeps. The writer's loop then keeps it too, and the bytes accepted with the
  pending ones are the bytes it was given, as long as no frame is refused.\<close>

locale frame_sink =
  fixes dec :: jsonDec
    and accepted :: "string \<Rightarrow> attemptCommitGate \<Rightarrow> streamWriter \<Rightarrow> bool"
  assumes frame_kept: "WriteFrame dec env f g w = (e, g', w') \<Longrightarrow> accepted bs g w \<Longrightarrow> accepted (if e = None then bs @ f else bs) g' w'"
begin

lemma loop_kept:
  assumes "gw_loop dec envs k gw w = (e, gw', w')" "accepted bs (gw_gate gw) w"
  shows "\<exists>bs'. accepted bs' (gw_gate gw') w' \<and> (e = None \<longrightarrow> bs' @ gw_pending gw' = bs @ gw_pending gw)"
  using assms
proof (induction "length (gw_pending gw)" arbitrary: k gw w bs rule: less_induct)
  case (less gw k w bs)
  show ?case
  proof (cases "frameBoundary (gw_pending gw)")
    case None
    then show ?thesis using less.prems by (auto simp: gw_loop.simps [of dec envs k gw])
  next
    case (Some n)
    obtain e1 g1 w1 where wf: "WriteFrame dec (envs k) (take n (gw_pending gw)) (gw_gate gw) w = (e1, g1, w1)" by (metis prod_cases3)
    let ?gw = "gw\<lparr>gw_gate := g1, gw_pending := drop n (gw_pending gw)\<rparr>"
    have kept: "accepted (if e1 = None then bs @ take n (gw_pending gw) else bs) (gw_gate ?gw) w1" using frame_kept [OF wf less.prems(2)] by simp
    show ?thesis
    proof (cases e1)
      case None
      then have "gw_loop dec envs (Suc k) ?gw w1 = (e, gw', w')" using less.prems(1) Some wf by (simp add: gw_loop.simps [of dec envs k gw])
      moreover have "length (gw_pending ?gw) < length (gw_pending gw)" using frameBoundary_bounds [OF Some] by auto
      ultimately obtain bs' where "accepted bs' (gw_gate gw') w'" "e = None \<longrightarrow> bs' @ gw_pending gw' = (bs @ take n (gw_pending gw)) @ gw_pending ?gw"
        using less.hyps [of ?gw "Suc k" w1 "bs @ take n (gw_pending gw)"] kept None by auto
      then show ?thesis by auto
    next
      case err: (Some x)
      then have "gw' = ?gw" "w' = w1" "e = Some x" using less.prems(1) Some wf by (simp_all add: gw_loop.simps [of dec envs k gw])
      then show ?thesis using kept by auto
    qed
  qed
qed

lemma write_kept:
  assumes "gw_Write dec envs p gw w = (e, gw', w')" "accepted bs (gw_gate gw) w"
  shows "\<exists>bs'. accepted bs' (gw_gate gw') w' \<and> (e = None \<longrightarrow> bs' @ gw_pending gw' = bs @ gw_pending gw @ p)"
  using loop_kept [OF assms(1) [unfolded gw_Write_def]] assms(2) by simp

end

definition heldAll :: "string \<Rightarrow> gateWriter \<Rightarrow> streamWriter \<Rightarrow> bool" where
  "heldAll bs gw w \<longleftrightarrow> gateInv (gw_gate gw) w
     \<and> (\<not> g_discarded (gw_gate gw) \<longrightarrow> sw_out w @ g_buffer (gw_gate gw) @ gw_pending gw = bs)"

text \<open>The gate keeps the bytes it accepts on the wire and in its buffer, unless it was (\<open>dead\<close>) or is discarded.\<close>

interpretation held: frame_sink dec "\<lambda>bs g w. gateInv g w \<and> (\<not> g_discarded g \<longrightarrow> \<not> dead \<and> sw_out w @ g_buffer g = bs)" for dec dead
  by unfold_locales (auto dest!: WriteFrame_step simp: conserves_def)

lemma gw_Write_heldAll:
  assumes "gw_Write dec envs p gw w = (None, gw1, w1)" "heldAll bs gw w"
  shows "heldAll (bs @ p) gw1 w1"
  using held.write_kept [OF assms(1), of "g_discarded (gw_gate gw)" "sw_out w @ g_buffer (gw_gate gw)"] assms(2)
  by (auto simp: heldAll_def)

lemma gw_feed_heldAll:
  assumes "gw_feed dec envs ps gw w = (None, gw1, w1)" "heldAll bs gw w"
  shows "heldAll (bs @ concat ps) gw1 w1"
  using assms
proof (induction ps arbitrary: bs gw w)
  case (Cons p ps)
  obtain e gw2 w2 where s: "gw_Write dec (envs (length ps)) p gw w = (e, gw2, w2)" by (metis prod_cases3)
  then have e: "e = None" "gw_feed dec envs ps gw2 w2 = (None, gw1, w1)" using Cons.prems(1) by (auto split: option.splits)
  have "heldAll (bs @ p) gw2 w2" using gw_Write_heldAll [OF _ Cons.prems(2)] s e(1) by simp
  then show ?case using Cons.IH [OF e(2), of "bs @ p"] by simp
qed simp

text \<open>C7.
  End to end, from the bytes the upstream handler writes to the client's connection, on a gate without a replay
  alignment and over a connection that takes every write: when all writes of an
  attempt and its \<open>Finish\<close> succeed and the attempt is not discarded, the connection followed by the
  attempt's buffer holds exactly the bytes written, whatever their chunks; once the attempt has committed,
  or in immediate mode, the client has received every byte, the unterminated tail included.
\<close>

theorem stream_bytes_exact:
  assumes "go_ReplayAlignment opts = None" "healthy w" "sw_out w = []"
    "gw_feed dec envs ps \<lparr>gw_gate = NewAttemptCommitGate p opts, gw_pending = []\<rparr> w = (None, gw1, w1)"
    "gw_Finish dec env gw1 w1 = (None, gw2, w2)" "\<not> g_discarded (gw_gate gw2)"
  shows "sw_out w2 @ g_buffer (gw_gate gw2) = concat ps \<and> gw_pending gw2 = []
    \<and> (g_committed (gw_gate gw2) \<or> g_mode (gw_gate gw2) = GateModeImmediate \<longrightarrow> sw_out w2 = concat ps)"
proof -
  have "heldAll [] \<lparr>gw_gate = NewAttemptCommitGate p opts, gw_pending = []\<rparr> w"
    using gateInv_new [OF assms(1,2), of p] assms(3) by (simp add: heldAll_def NewAttemptCommitGate_def)
  then have h: "heldAll (concat ps) gw1 w1" using gw_feed_heldAll [OF assms(4), of "[]"] by simp
  obtain e g3 where f: "FinishAttempt dec env (gw_pending gw1) (gw_gate gw1) w1 = (e, g3, w2)"
    and gw2: "e = None" "gw2 = gw1\<lparr>gw_gate := g3, gw_pending := []\<rparr>"
    using assms(5) by (auto simp: gw_Finish_def split: prod.splits)
  have "gateInv g3 w2" "conserves (gw_pending gw1) (gw_gate gw1) w1 g3 w2"
    using FinishAttempt_step [OF f] h gw2(1) by (simp_all add: heldAll_def soundStep_def)
  moreover then have "sw_out w2 @ g_buffer g3 = concat ps" using h assms(6) gw2(2) by (auto simp: heldAll_def conserves_def)
  ultimately show ?thesis using gw2(2) by (auto simp: gateInv_def)
qed

theorem stream_bytes_exact_witness:
  "let (_, gw1, w1) = gw_feed demoDec (\<lambda>j i. calm) [''data: ro'', ''le'' @ [NL, NL] @ ''data: h'', ''i''] (demoWriter GateModeImmediate)
         (NewSerializedStreamWriter [] FlushPlain)
   in sw_out (snd (snd (gw_Finish demoDec calm gw1 w1))) = concat [''data: ro'', ''le'' @ [NL, NL] @ ''data: h'', ''i'']"
proof -
  let ?ps = "[''data: ro'', ''le'' @ [NL, NL] @ ''data: h'', ''i'']"
  let ?f = "gw_feed demoDec (\<lambda>j i. calm) ?ps (demoWriter GateModeImmediate) (NewSerializedStreamWriter [] FlushPlain)"
  let ?r = "gw_Finish demoDec calm (fst (snd ?f)) (snd (snd ?f))"
  have "fst ?f = None" "fst ?r = None" by code_simp+
  then have f: "?f = (None, fst (snd ?f), snd (snd ?f))" "?r = (None, fst (snd ?r), snd (snd ?r))" by (metis prod.collapse)+
  have "\<not> g_discarded (gw_gate (fst (snd ?r)))" "g_mode (gw_gate (fst (snd ?r))) = GateModeImmediate" by code_simp+
  then show ?thesis
    using stream_bytes_exact [OF _ _ _ f(1) [unfolded demoWriter_def [of GateModeImmediate]] f(2) [unfolded demoWriter_def [of GateModeImmediate]]]
    by (simp add: case_prod_beta demoWriter_def)
qed

section \<open>What the comments leave out\<close>

text \<open>The comment of \<open>Discard\<close> says that no interleaving emits frames after a \<open>Discard\<close>. In immediate mode one
  does: \<open>WriteFrame\<close> gives up the lock before it writes, a \<open>Discard\<close> that comes then succeeds because the
  state is still \<open>metadata\<close>, and the frame is written afterwards by a call that reports success.
\<close>

theorem discard_then_emit:
  assumes "go_Mode opts = GateModeImmediate" "go_ReplayAlignment opts = None" "\<not> go_BeforeSemanticCommit opts" "healthy w"
    "ClassifyClientFrame dec p f = FrameClassAttemptMetadata" "ge_discard2 env"
    "WriteFrame dec env f (NewAttemptCommitGate p opts) w = (e, g, w')"
  shows "e = None \<and> g_discarded g \<and> sw_out w' = sw_out w @ f
    \<and> fst (Discard (snd (checkpointStateAdvance env FrameClassAttemptMetadata (NewAttemptCommitGate p opts)))) = None"
proof -
  let ?g = "NewAttemptCommitGate p opts"
  have f: "g_protocol ?g = p" "g_mode ?g = GateModeImmediate" "g_align ?g = None" "\<not> g_discarded ?g" "\<not> g_checkpointBlocked ?g"
      "\<not> g_checkpointHook ?g" "g_state ?g = CommitStateNone" "\<not> g_committed ?g"
    using assms(1-3) by (simp_all add: NewAttemptCommitGate_def)
  have a: "advanced FrameClassAttemptMetadata ?g = ?g\<lparr>g_state := CommitStateMetadata\<rparr>"
    using f(7) by (simp add: advanceStateLocked_def less_commitState_def)
  have c: "checkpointStateAdvance env FrameClassAttemptMetadata ?g = (None, ?g\<lparr>g_state := CommitStateMetadata\<rparr>)"
    using f(6,8) a by (simp add: checkpointStateAdvance_def case_prod_beta)
  have d: "fst (Discard (?g\<lparr>g_state := CommitStateMetadata\<rparr>)) = None"
      "g_discarded (discardIf True (?g\<lparr>g_state := CommitStateMetadata\<rparr>))"
    using f(8) by (simp_all add: Discard_def discardIf_def less_eq_commitState_def)
  show ?thesis
    using assms(4-7) f c d by (auto simp: WriteFrame_def isSemanticClass_def Let_def)
qed

theorem discard_then_emit_witness:
  "let (e, g, w) = WriteFrame demoDec (calm\<lparr>ge_discard2 := True\<rparr>) (dataFrame ''role'')
         (NewAttemptCommitGate ProtocolOpenAIChat ((demoOpts GateModeImmediate 0)\<lparr>go_BeforeSemanticCommit := False\<rparr>))
         (NewSerializedStreamWriter [] FlushPlain)
   in g_discarded g \<and> sw_out w = dataFrame ''role''"
proof -
  let ?o = "(demoOpts GateModeImmediate 0)\<lparr>go_BeforeSemanticCommit := False\<rparr>"
  let ?r = "WriteFrame demoDec (calm\<lparr>ge_discard2 := True\<rparr>) (dataFrame ''role'') (NewAttemptCommitGate ProtocolOpenAIChat ?o)
    (NewSerializedStreamWriter [] FlushPlain)"
  have r: "?r = (fst ?r, fst (snd ?r), snd (snd ?r))" by simp
  have "ClassifyClientFrame demoDec ProtocolOpenAIChat (dataFrame ''role'') = FrameClassAttemptMetadata" by code_simp
  then show ?thesis using discard_then_emit [OF _ _ _ _ _ _ r] by (simp add: case_prod_beta)
qed

text \<open>The tail of an immediate stream is not recorded. When the last frame of a stream lacks its blank line, the
  bytes reach the client through \<open>FinishAttempt\<close> without a checkpoint and without a change of state; a
  content frame that is the first one is on the client's screen while the gate still reports that the
  attempt has no client-visible output, so that the stream counts as resumable.
\<close>

theorem partial_tail_unrecorded:
  assumes "go_Mode opts = GateModeImmediate" "go_ReplayAlignment opts = None" "healthy w" "partial \<noteq> []"
    "\<not> isPartialTerminalFrame p partial" "FinishAttempt dec env partial (NewAttemptCommitGate p opts) w = (e, g, w')"
  shows "e = None \<and> sw_out w' = sw_out w @ partial \<and> g_state g = CommitStateNone \<and> g_checkpointedState g = CommitStateNone
    \<and> \<not> attemptHasClientSemanticOutput (Some g) n"
proof -
  let ?g = "NewAttemptCommitGate p opts"
  have f: "g_protocol ?g = p" "g_mode ?g = GateModeImmediate" "g_align ?g = None" "\<not> g_discarded ?g" "\<not> g_checkpointBlocked ?g"
      "g_state ?g = CommitStateNone" "g_checkpointedState ?g = CommitStateNone"
    using assms(1,2) by (simp_all add: NewAttemptCommitGate_def)
  let ?c = "ClassifyClientFrame dec p partial"
  have "e = None" "w' = sw_put partial w" "g = observeFrameLocked ?c partial (markFirstSemanticByteLocked ?c (?g\<lparr>g_committed := True\<rparr>))"
    using assms(3-6) f by (simp_all add: FinishAttempt_def Let_def)
  then show ?thesis using f by (simp add: seen_iff less_eq_commitState_def)
qed

theorem partial_tail_unrecorded_witness:
  "let (e, g, w) = FinishAttempt demoDec calm ''data: hi'' (NewAttemptCommitGate ProtocolOpenAIChat (demoOpts GateModeImmediate 0))
         (NewSerializedStreamWriter [] FlushPlain)
   in sw_out w = ''data: hi'' \<and> \<not> attemptHasClientSemanticOutput (Some g) 0"
proof -
  let ?r = "FinishAttempt demoDec calm ''data: hi'' (NewAttemptCommitGate ProtocolOpenAIChat (demoOpts GateModeImmediate 0))
    (NewSerializedStreamWriter [] FlushPlain)"
  have r: "?r = (fst ?r, fst (snd ?r), snd (snd ?r))" by simp
  have "\<not> isPartialTerminalFrame ProtocolOpenAIChat ''data: hi''" by code_simp
  then show ?thesis using partial_tail_unrecorded [OF _ _ _ _ _ r] by (simp add: case_prod_beta)
qed

section \<open>Replays\<close>

text \<open>A replay gate never uses the metadata buffer.\<close>

definition replayGate :: "clientProtocol \<Rightarrow> replayAlignmentState \<Rightarrow> attemptCommitGate \<Rightarrow> bool" where
  "replayGate p st g \<longleftrightarrow> g_protocol g = p \<and> g_align g = Some st \<and> g_buffer g = [] \<and> g_bufferLen g = 0"

lemma replayGate_mayDiscard: "replayGate p st g \<Longrightarrow> mayDiscard g g' \<Longrightarrow> replayGate p st g'"
  unfolding replayGate_def mayDiscard_def by (elim conjE disjE) simp_all

lemma replayGate_simps [simp]:
  "replayGate p st (g\<lparr>g_committed := b\<rparr>) = replayGate p st g"
  "replayGate p st (observeFrameLocked c f g) = replayGate p st g"
  "replayGate p st (markFirstSemanticByteLocked c g) = replayGate p st g"
  "replayGate p st (blockCheckpointLocked g) = replayGate p st g"
  by (simp_all add: replayGate_def blockCheckpointLocked_def)

lemma replayGate_setAlign [simp]: "replayGate p st g \<Longrightarrow> replayGate p st1 (setAlign st1 g)"
  by (simp add: replayGate_def setAlign_def)

lemma forwardFrames_gate:
  assumes "forwardFrames dec env raws g w = (e, g', w')" "replayGate p st g" "healthy w"
  shows "replayGate p st g' \<and> healthy w'"
  using assms
proof (induction raws arbitrary: g w)
  case (Cons raw raws)
  let ?c = "ClassifyClientFrame dec (g_protocol g) raw"
  obtain e1 g1 where c: "checkpointStateAdvance env ?c g = (e1, g1)" by (metis surj_pair)
  have g1: "replayGate p st g1" by (rule replayGate_mayDiscard [OF Cons.prems(2) mayDiscard_checkpoint [OF c]])
  show ?case
  proof (cases e1)
    case None
    then have "forwardFrames dec env raws (markFirstSemanticByteLocked ?c (observeFrameLocked ?c raw g1)) (sw_put raw w) = (e, g', w')"
      using Cons.prems(1,3) c by (simp add: Let_def)
    then show ?thesis using Cons.IH Cons.prems(3) g1 by simp
  next
    case (Some x)
    then show ?thesis using Cons.prems(1,3) c g1 by (simp add: Let_def)
  qed
qed simp

text \<open>What a call does to a replay gate: either no alignment was found and the wire is as before, or the
  stream is aligned.\<close>

definition replayQuiet :: "clientProtocol \<Rightarrow> replayAlignmentState \<Rightarrow> attemptCommitGate \<Rightarrow> streamWriter \<Rightarrow> streamWriter \<Rightarrow> bool" where
  "replayQuiet p st g' w w' \<longleftrightarrow>
     healthy w' \<and> (\<exists>st'. replayGate p st' g' \<and> (rl_aligned st \<longrightarrow> rl_aligned st') \<and> (rl_aligned st' \<or> w' = w))"

lemma replayQuiet_keep: "replayGate p st1 g \<Longrightarrow> healthy w \<Longrightarrow> rl_aligned st1 = rl_aligned st \<Longrightarrow> replayQuiet p st g w w"
  by (auto simp: replayQuiet_def)

lemma decide_quiet:
  assumes "decideReplayAlignmentLocked dec env st g w = (e, g', w')" "replayGate p st g" "healthy w"
  shows "replayQuiet p st g' w w'"
proof -
  let ?res = "Align (rl_aligner st) (rl_committed st) (rl_norm st)"
  let ?st2 = "st\<lparr>rl_decided := True, rl_result := ?res, rl_aligned := True\<rparr>"
  show ?thesis
  proof (cases "al_Aligned ?res")
    case False
    then have "g' = setAlign (st\<lparr>rl_decided := True, rl_result := ?res, rl_missed := True\<rparr>) g" "w' = w"
      using assms(1) by (simp_all add: decideReplayAlignmentLocked_def Let_def)
    then show ?thesis using replayQuiet_keep [OF replayGate_setAlign [OF assms(2)] assms(3)] by (simp add: missReplay_def)
  next
    case True
    obtain e1 g1 where c: "checkpointStateAdvance env FrameClassContent (setAlign ?st2 g) = (e1, g1)" by (metis surj_pair)
    have g1: "replayGate p ?st2 g1"
      by (rule replayGate_mayDiscard [OF replayGate_setAlign [OF assms(2)] mayDiscard_checkpoint [OF c]])
    show ?thesis
    proof (cases e1)
      case (Some x)
      then have "g' = g1" "w' = w" using assms(1) True c by (simp_all add: decideReplayAlignmentLocked_def Let_def)
      then show ?thesis using g1 assms(3) by (auto simp: replayQuiet_def)
    next
      case None
      let ?st3 = "?st2\<lparr>rl_frames := [], rl_norm := [], rl_rawLen := 0\<rparr>"
      let ?suffix = "map rf_raw (replaySuffix (al_SuffixOffset ?res) (rl_frames ?st2))"
      have fwd: "forwardReplaySuffixLocked dec env ?res ?st2 g1 w = (e, g', w')"
        using assms(1) True c None by (simp add: decideReplayAlignmentLocked_def Let_def)
      obtain e2 g2 w2 where ff: "forwardFrames dec env ?suffix ((setAlign ?st3 g1)\<lparr>g_committed := True\<rparr>) w = (e2, g2, w2)"
        by (metis prod_cases3)
      have s3: "replayGate p ?st3 (setAlign ?st3 g1)" by (rule replayGate_setAlign [OF g1])
      then have g2: "replayGate p ?st3 g2" "healthy w2" using forwardFrames_gate [OF ff _ assms(3)] by simp_all
      have "replayGate p ?st3 g' \<and> healthy w'"
      proof (cases "?suffix = []")
        case True
        then have "g' = setAlign ?st3 g1" "w' = w" using fwd by (simp_all add: forwardReplaySuffixLocked_def Let_def)
        then show ?thesis using s3 assms(3) by simp
      next
        case False
        then have "g' = g2" "w' = w2" using fwd ff g2(2) by (auto simp: forwardReplaySuffixLocked_def Let_def split: option.splits)
        then show ?thesis using g2 by simp
      qed
      then show ?thesis by (auto simp: replayQuiet_def)
    qed
  qed
qed

lemma passthrough_quiet:
  assumes "forwardReplayPassthroughLocked env c frame g w = (e, g', w')" "replayGate p st g" "healthy w" "rl_aligned st"
  shows "replayQuiet p st g' w w'"
proof -
  obtain e1 g1 where c: "checkpointStateAdvance env c g = (e1, g1)" by (metis surj_pair)
  have g1: "replayGate p st g1" by (rule replayGate_mayDiscard [OF assms(2) mayDiscard_checkpoint [OF c]])
  have "replayGate p st g' \<and> healthy w'"
    using assms(1,3) c g1 by (auto simp: forwardReplayPassthroughLocked_def Let_def split: option.splits)
  then show ?thesis using assms(4) by (auto simp: replayQuiet_def)
qed

lemma buffered_flags: "bufferReplayFrame c f st = Some st1 \<Longrightarrow> rl_aligned st1 = rl_aligned st"
  by (auto simp: bufferReplayFrame_def Let_def split: if_splits)

lemma writeReplay_quiet:
  assumes "writeFrameReplayAlignedLocked dec env c frame st g w = (e, g', w')" "replayGate p st g" "healthy w"
  shows "replayQuiet p st g' w w'"
proof (cases "rl_decided st")
  case True
  then show ?thesis using assms passthrough_quiet [of env c frame g w e g' w'] replayQuiet_keep [OF assms(2,3) refl]
    by (auto simp: writeFrameReplayAlignedLocked_def split: if_splits)
next
  case False
  show ?thesis
  proof (cases "bufferReplayFrame c frame st")
    case None
    then have "g' = setAlign (missReplay st) g" "w' = w" using assms(1) False by (simp_all add: writeFrameReplayAlignedLocked_def)
    then show ?thesis using replayQuiet_keep [OF replayGate_setAlign [OF assms(2)] assms(3)] by (simp add: missReplay_def)
  next
    case (Some st1)
    note s1 = replayGate_setAlign [OF assms(2), of st1]
    show ?thesis
    proof (cases "rl_needBytes st1 \<le> length (rl_norm st1)")
      case True
      then have "decideReplayAlignmentLocked dec env st1 (setAlign st1 g) w = (e, g', w')"
        using assms(1) False Some by (simp add: writeFrameReplayAlignedLocked_def)
      then show ?thesis using decide_quiet [OF _ s1 assms(3)] buffered_flags [OF Some] by (simp add: replayQuiet_def)
    next
      case False
      then have "g' = setAlign st1 g" "w' = w" using assms(1) \<open>\<not> rl_decided st\<close> Some by (simp_all add: writeFrameReplayAlignedLocked_def)
      then show ?thesis using replayQuiet_keep [OF s1 assms(3) buffered_flags [OF Some]] by simp
    qed
  qed
qed

lemma finishReplay_quiet:
  assumes "finishReplayAttemptLocked dec env partial st g w = (e, g', w')" "replayGate p st g" "healthy w"
  shows "replayQuiet p st g' w w'"
proof -
  let ?c = "ClassifyClientFrame dec (g_protocol g) partial"
  note F = assms(1) [unfolded finishReplayAttemptLocked_def Let_def]
  note keep = replayQuiet_keep [OF assms(2,3) refl]
  have miss: "replayQuiet p st (setAlign (missReplay s) g) w w" if "rl_aligned s = rl_aligned st" for s
    using replayQuiet_keep [OF replayGate_setAlign [OF assms(2)] assms(3)] that by (simp add: missReplay_def)
  show ?thesis
  proof (cases "rl_missed st \<or> rl_decided st")
    case True
    then show ?thesis
      using F keep assms(3) passthrough_quiet [OF _ assms(2,3), of env ?c partial e g' w'] by (auto split: if_splits)
  next
    case und: False
    show ?thesis
    proof (cases "if partial \<noteq> [] then bufferReplayFrame ?c partial st else Some st")
      case None
      then have "g' = setAlign (missReplay st) g" "w' = w" using F und by auto
      then show ?thesis using miss by simp
    next
      case (Some st1)
      have al: "rl_aligned st1 = rl_aligned st" using Some buffered_flags by (auto split: if_splits)
      show ?thesis
      proof (cases "rl_norm st1 = []")
        case True
        then have "g' = setAlign (missReplay st1) g" "w' = w" using F und Some by auto
        then show ?thesis using miss al by simp
      next
        case False
        obtain e1 g1 w1 where d: "decideReplayAlignmentLocked dec env st1 (setAlign st1 g) w = (e1, g1, w1)" by (metis prod_cases3)
        have q: "replayQuiet p st1 g1 w w1" by (rule decide_quiet [OF d replayGate_setAlign [OF assms(2)] assms(3)])
        then have "healthy w1" by (simp add: replayQuiet_def)
        then have "g' = g1" "w' = w1" using F und Some False d by (auto split: option.splits)
        then show ?thesis using q al by (simp add: replayQuiet_def)
      qed
    qed
  qed
qed

lemma gateStep_replay:
  assumes "gateStep dec x g w = (e, g', w')" "replayGate p st g" "healthy w"
  shows "replayQuiet p st g' w w' \<or>
    (replayGate p st g' \<and> e = None \<and> healthy w'
      \<and> (\<exists>k. opBytes x = [k] \<and> ClassifyClientFrame dec p k = FrameClassKeepalive \<and> sw_out w' = sw_out w @ k))"
proof -
  have f: "g_protocol g = p" "g_align g = Some st" "g_buffer g = []" "g_bufferLen g = 0" using assms(2) by (simp_all add: replayGate_def)
  have keep: "replayQuiet p st g w w" by (rule replayQuiet_keep [OF assms(2,3) refl])
  have lost: "replayQuiet p st (discardIf d g) w w" for d
    by (rule replayQuiet_keep [OF replayGate_mayDiscard [OF assms(2) mayDiscard_discardIf] assms(3) refl])
  show ?thesis
  proof (cases x)
    case (GWrite env frame)
    show ?thesis
    proof (cases "g_checkpointBlocked g \<or> g_discarded g")
      case True
      then have "g' = g" "w' = w" using assms(1) GWrite by (auto simp: WriteFrame_def Let_def split: if_splits)
      then show ?thesis using keep by simp
    next
      case ok: False
      show ?thesis
      proof (cases "ClassifyClientFrame dec p frame = FrameClassKeepalive")
        case True
        then have "e = None" "g' = discardIf (ge_discard1 env) g" "w' = sw_put frame w"
          using assms(1,3) GWrite ok f by (auto simp: WriteFrame_def)
        moreover have "replayGate p st (discardIf (ge_discard1 env) g)" by (rule replayGate_mayDiscard [OF assms(2) mayDiscard_discardIf])
        ultimately show ?thesis using GWrite True assms(3) by simp
      next
        case False
        then have "writeFrameReplayAlignedLocked dec env (ClassifyClientFrame dec p frame) frame st g w = (e, g', w')"
          using assms(1) GWrite ok f by (simp add: WriteFrame_def Let_def)
        then show ?thesis using writeReplay_quiet [OF _ assms(2,3)] by blast
      qed
    qed
  next
    case (GFinish env partial)
    then show ?thesis using assms(1) keep f finishReplay_quiet [OF _ assms(2,3), of dec env partial e g' w']
      by (auto simp: FinishAttempt_def split: if_splits)
  next
    case (GFlush env)
    then show ?thesis using assms(1) keep f by (auto simp: flushHoldbackLocked_def split: if_splits)
  next
    case (GCommit env)
    let ?d = "discardIf (ge_discard1 env) g"
    have flush: "replayQuiet p st g' w w'" if "commitFlush dec y w = (e, g', w')" "replayGate p st y" for y
    proof -
      have "g' = y\<lparr>g_committed := True\<rparr>" "w' = w"
        using that assms(3) by (auto simp: commitFlush_def commitLocked_def replayGate_def)
      then show ?thesis using replayQuiet_keep [of p st "y\<lparr>g_committed := True\<rparr>" w st] that(2) assms(3) by simp
    qed
    have d: "replayGate p st ?d" by (rule replayGate_mayDiscard [OF assms(2) mayDiscard_discardIf])
    consider (kept) "g' = g \<or> g' = ?d \<or> g' = blockCheckpointLocked ?d" "w' = w" | (plain) "commitFlush dec g w = (e, g', w')"
      | (hooked) "commitFlush dec (?d\<lparr>g_checkpointedState := g_state g\<rparr>) w = (e, g', w')"
      using assms(1) GCommit by (auto simp: gate_Commit_def Let_def split: if_splits)
    then show ?thesis
    proof cases
      case kept
      then show ?thesis using keep lost replayQuiet_keep [of p st "blockCheckpointLocked ?d" w st] d assms(3) by auto
    next
      case plain
      then show ?thesis using flush assms(2) by blast
    next
      case hooked
      then show ?thesis using flush d by (simp add: replayGate_def)
    qed
  next
    case GDiscard
    then have "g' = discardIf True g" "w' = w" using assms(1) by (simp_all add: discardIf_def case_prod_beta)
    then show ?thesis using lost by simp
  qed
qed

definition demoReplay :: "gateOp list \<Rightarrow> string list \<times> attemptCommitGate \<times> streamWriter" where
  "demoReplay ops = gateRun demoDec ops [] (NewAttemptCommitGate ProtocolOpenAIChat ((demoOpts GateModeBuffered 0)\<lparr>go_ReplayAlignment :=
     Some (prefixRecord 99 (''hi'' @ [NL]), Some 9000)\<rparr>)) (NewSerializedStreamWriter [] FlushPlain)"

lemma demoReplay_run:
  "gateRun demoDec ops [] (NewAttemptCommitGate ProtocolOpenAIChat ((demoOpts GateModeBuffered 0)\<lparr>go_ReplayAlignment :=
     Some (prefixRecord 99 (''hi'' @ [NL]), Some 9000)\<rparr>)) (NewSerializedStreamWriter [] FlushPlain) =
     (fst (demoReplay ops), fst (snd (demoReplay ops)), snd (snd (demoReplay ops)))"
  by (simp add: demoReplay_def)

text \<open>C22.
  A replay of an interrupted stream is suppressed until it is aligned: whatever calls are made on the gate,
  as long as the aligner has not accepted the replay, including when it missed, ran over its buffer or ended
  early, nothing but keepalives has gone to the client.
\<close>

theorem replay_suppressed_until_aligned:
  assumes "go_ReplayAlignment opts = Some r" "healthy w" "sw_out w = []"
    "gateRun dec ops [] (NewAttemptCommitGate p opts) w = (acc, g, w')" "g_align g = Some st" "\<not> rl_aligned st"
  shows "\<exists>ks. sw_out w' = concat ks \<and> set ks \<subseteq> {k \<in> set acc. ClassifyClientFrame dec p k = FrameClassKeepalive}"
proof -
  define K where "K acc w = (\<exists>ks. sw_out w = concat ks \<and> set ks \<subseteq> {k \<in> set acc. ClassifyClientFrame dec p k = FrameClassKeepalive})" for acc and w :: streamWriter
  define P where "P acc g w = (healthy w \<and> (\<exists>st. replayGate p st g \<and> (rl_aligned st \<or> K acc w)))" for acc g w
  have mono: "K (acc @ xs) w" if "K acc w" for acc xs w using that by (auto simp: K_def)
  have "P acc g w'"
  proof (rule gateRun_invariant [OF _ _ assms(4)])
    show "P [] (NewAttemptCommitGate p opts) w"
      using assms(1-3) by (simp add: P_def K_def replayGate_def NewAttemptCommitGate_def)
    fix x acc g w e g' w'
    assume "P acc g w" and s: "gateStep dec x g w = (e, g', w')"
    then obtain st0 where st0: "replayGate p st0 g" "rl_aligned st0 \<or> K acc w" "healthy w" by (auto simp: P_def)
    consider (quiet) "replayQuiet p st0 g' w w'"
      | (alive) k where "replayGate p st0 g'" "e = None" "healthy w'" "opBytes x = [k]" "ClassifyClientFrame dec p k = FrameClassKeepalive"
          "sw_out w' = sw_out w @ k"
      using gateStep_replay [OF s st0(1,3)] by blast
    then show "P (if e = None then acc @ opBytes x else acc) g' w'"
    proof cases
      case quiet
      then show ?thesis using st0(2) mono by (auto simp: P_def replayQuiet_def)
    next
      case alive
      have "K (acc @ [k]) w'" if ka: "K acc w"
      proof -
        obtain ks where "sw_out w = concat ks" "set ks \<subseteq> {k \<in> set acc. ClassifyClientFrame dec p k = FrameClassKeepalive}"
          using ka by (auto simp: K_def)
        then show ?thesis using alive(5,6) unfolding K_def by (intro exI [of _ "ks @ [k]"]) auto
      qed
      then show ?thesis using alive st0(2) by (auto simp: P_def)
    qed
  qed
  then show ?thesis using assms(5,6) by (auto simp: P_def K_def replayGate_def)
qed

theorem replay_suppressed_until_aligned_witness:
  "\<exists>ks. sw_out (snd (snd (demoReplay [GWrite calm (CHR '':'' # [NL, NL])]))) = concat ks \<and>
     set ks \<subseteq> {k \<in> set (fst (demoReplay [GWrite calm (CHR '':'' # [NL, NL])])).
       ClassifyClientFrame demoDec ProtocolOpenAIChat k = FrameClassKeepalive}"
proof -
  let ?ops = "[GWrite calm (CHR '':'' # [NL, NL])]"
  have c: "ClassifyClientFrame demoDec ProtocolOpenAIChat (CHR '':'' # [NL, NL]) = FrameClassKeepalive" by code_simp
  have "g_align (fst (snd (demoReplay ?ops))) = Some (newReplayAlignment (prefixRecord 99 (''hi'' @ [NL]), Some 9000))"
    using c by (simp add: demoReplay_def WriteFrame_def NewAttemptCommitGate_def calm_def discardIf_def)
  moreover have "\<not> rl_aligned (newReplayAlignment (prefixRecord 99 (''hi'' @ [NL]), Some 9000))" by (simp add: newReplayAlignment_def)
  ultimately show ?thesis using replay_suppressed_until_aligned [OF _ _ _ demoReplay_run] by simp
qed

section \<open>What an aligned replay forwards\<close>

text \<open>The normalised bytes that a list of frames contributes, and the frames of a replay as the gate
  buffers them, with the positions of their contributions.\<close>

definition observedOf :: "jsonDec \<Rightarrow> clientProtocol \<Rightarrow> string list \<Rightarrow> string" where
  "observedOf dec p fs = concat (map (\<lambda>f. l2SemanticObservation (ClassifyClientFrame dec p f) f) fs)"

lemma observedOf_simps [simp]:
  "observedOf dec p [] = []" "observedOf dec p (fs @ fs') = observedOf dec p fs @ observedOf dec p fs'"
  by (simp_all add: observedOf_def)

fun bufferedAt :: "jsonDec \<Rightarrow> clientProtocol \<Rightarrow> nat \<Rightarrow> string list \<Rightarrow> replayBufferedFrame list" where
  "bufferedAt dec p n [] = []"
| "bufferedAt dec p n (f # fs) =
     \<lparr>rf_raw = f, rf_normStart = n, rf_normEnd = n + length (observedOf dec p [f])\<rparr> # bufferedAt dec p (n + length (observedOf dec p [f])) fs"

lemma bufferedAt_append: "bufferedAt dec p n (fs @ fs') = bufferedAt dec p n fs @ bufferedAt dec p (n + length (observedOf dec p fs)) fs'"
  by (induction fs arbitrary: n) (simp_all add: observedOf_def add.assoc)

lemma bufferedAt_raw [simp]: "map rf_raw (bufferedAt dec p n fs) = fs"
  by (induction fs arbitrary: n) auto

text \<open>Frames that start before the offset, or contribute nothing, are suppressed; from the first
  contributing frame at or behind it everything is forwarded.\<close>

lemma replaySuffix_before:
  "n + length (observedOf dec p fs) \<le> off \<Longrightarrow> replaySuffix off (bufferedAt dec p n fs @ rest) = replaySuffix off rest"
proof (induction fs arbitrary: n)
  case (Cons f fs)
  have "observedOf dec p (f # fs) = observedOf dec p [f] @ observedOf dec p fs" by (simp add: observedOf_def)
  moreover from this have "\<not> (observedOf dec p [f] \<noteq> [] \<and> off \<le> n)" using Cons.prems by (cases "observedOf dec p [f]") auto
  ultimately show ?case using Cons by (auto simp: replaySuffix_def)
qed simp

lemma replaySuffix_straddle:
  "n < off \<Longrightarrow> replaySuffix off (bufferedAt dec p n [f] @ rest) = replaySuffix off rest"
  by (simp add: replaySuffix_def)

lemma replaySuffix_from:
  "off \<le> n \<Longrightarrow> observedOf dec p [f] \<noteq> [] \<Longrightarrow> replaySuffix off (bufferedAt dec p n (f # fs)) = bufferedAt dec p n (f # fs)"
  by (simp add: replaySuffix_def)

lemma checkpoint_ok: "\<forall>s. ge_hook env s \<Longrightarrow> fst (checkpointStateAdvance env c g) = None"
  by (simp add: checkpointStateAdvance_def Let_def split: prod.split)

lemma align_offset:
  assumes "0 < wd" "bytes \<noteq> []" "t \<le> 10000"
  shows "al_Aligned (Align t (prefixRecord wd bytes) (bytes @ x))" "al_SuffixOffset (Align t (prefixRecord wd bytes) (bytes @ x)) = length bytes"
proof -
  show "al_Aligned (Align t (prefixRecord wd bytes) (bytes @ x))" using align_replay [OF assms, of x] by simp
  have "commonPrefixLen (take wd bytes) (bytes @ x) = length (take wd bytes)"
    using commonPrefixLen_self [of "take wd bytes" "drop wd bytes @ x"] by (simp only: append_assoc [symmetric] append_take_drop_id)
  then show "al_SuffixOffset (Align t (prefixRecord wd bytes) (bytes @ x)) = length bytes"
    using assms by (auto simp: Align_def prefixRecord_def Let_def min_def fnv64a_def)
qed

text \<open>A gate that has buffered the replayed frames \<open>fs\<close> and not yet decided, and one that is aligned.\<close>

definition replaying :: "jsonDec \<Rightarrow> nat \<Rightarrow> committedPrefix \<Rightarrow> string list \<Rightarrow> attemptCommitGate \<Rightarrow> bool" where
  "replaying dec t cp fs g \<longleftrightarrow> \<not> g_checkpointBlocked g \<and> \<not> g_discarded g \<and> (\<exists>st. g_align g = Some st \<and> \<not> rl_decided st \<and> rl_aligner st = t
     \<and> rl_committed st = cp \<and> rl_needBytes st = px_TotalBytes cp \<and> rl_norm st = observedOf dec (g_protocol g) fs \<and> rl_rawLen st = length (concat fs)
     \<and> rl_maxRaw st = px_TotalBytes cp * 2 + 65536 \<and> rl_frames st = bufferedAt dec (g_protocol g) 0 fs)"

definition passing :: "attemptCommitGate \<Rightarrow> bool" where
  "passing g \<longleftrightarrow> \<not> g_checkpointBlocked g \<and> \<not> g_discarded g \<and> CommitStateContent \<le> g_state g
     \<and> (\<exists>st. g_align g = Some st \<and> rl_decided st \<and> rl_aligned st)"

lemma passing_simps [simp]:
  "passing (g\<lparr>g_committed := b\<rparr>) = passing g"
  "passing (markFirstSemanticByteLocked c g) = passing g" "passing (observeFrameLocked c f g) = passing g"
  by (simp_all add: passing_def)

lemma passing_checkpoint:
  assumes "passing g" "\<forall>s. ge_hook env s" "checkpointStateAdvance env c g = (e, g1)"
  shows "e = None \<and> passing g1 \<and> g_protocol g1 = g_protocol g"
proof -
  have e: "e = None" using checkpoint_ok [OF assms(2), of c g] assms(3) by simp
  have st: "CommitStateContent \<le> g_state (advanced c g)" using assms(1) advanced_mono [of g c] by (auto simp: passing_def)
  have d: "discardIf b (advanced c g) = advanced c g" for b using st by (intro discardIf_refused) simp
  show ?thesis
    using assms(3)
  proof (cases rule: checkpoint_cases)
    case quiet
    then show ?thesis using assms(1) st e by (simp add: passing_def)
  next
    case failed
    then show ?thesis using e by simp
  next
    case saved
    then show ?thesis using assms(1) st e by (simp add: passing_def d)
  qed
qed

lemma forwardFrames_all:
  assumes "passing g" "\<forall>s. ge_hook env s" "healthy w" "forwardFrames dec env fs g w = (e, g', w')"
  shows "e = None \<and> passing g' \<and> g_protocol g' = g_protocol g \<and> healthy w' \<and> sw_out w' = sw_out w @ concat fs"
  using assms
proof (induction fs arbitrary: g w)
  case (Cons f fs)
  let ?c = "ClassifyClientFrame dec (g_protocol g) f"
  obtain e1 g1 where c: "checkpointStateAdvance env ?c g = (e1, g1)" by (metis surj_pair)
  have g1: "e1 = None" "passing g1" "g_protocol g1 = g_protocol g" using passing_checkpoint [OF Cons.prems(1,2) c] by auto
  then have "forwardFrames dec env fs (markFirstSemanticByteLocked ?c (observeFrameLocked ?c f g1)) (sw_put f w) = (e, g', w')"
    using Cons.prems(3,4) c by (simp add: Let_def)
  from Cons.IH [OF _ Cons.prems(2) _ this] g1 Cons.prems(3) show ?case by simp
qed simp

lemma replay_buffers:
  assumes "replaying dec t cp fs g" "ClassifyClientFrame dec (g_protocol g) f \<noteq> FrameClassKeepalive"
    "length (observedOf dec (g_protocol g) (fs @ [f])) < px_TotalBytes cp" "length (concat (fs @ [f])) \<le> px_TotalBytes cp * 2 + 65536"
    "WriteFrame dec env f g w = (e, g', w')"
  shows "e = None \<and> w' = w \<and> g_protocol g' = g_protocol g \<and> replaying dec t cp (fs @ [f]) g'"
  using assms
  by (auto simp: replaying_def WriteFrame_def Let_def writeFrameReplayAlignedLocked_def bufferReplayFrame_def setAlign_def
      bufferedAt_append observedOf_def)

text \<open>The deciding frame: when the aligner accepts, the frames behind its offset go out.\<close>

lemma replay_decides:
  assumes "replaying dec t cp fs g" "ClassifyClientFrame dec (g_protocol g) f \<noteq> FrameClassKeepalive"
    "px_TotalBytes cp \<le> length (observedOf dec (g_protocol g) (fs @ [f]))" "length (concat (fs @ [f])) \<le> px_TotalBytes cp * 2 + 65536"
    and res: "res = Align t cp (observedOf dec (g_protocol g) (fs @ [f]))" "al_Aligned res"
    and "\<forall>s. ge_hook env s" "healthy w" "WriteFrame dec env f g w = (e, g', w')"
  shows "e = None \<and> healthy w' \<and> g_protocol g' = g_protocol g \<and> passing g'
    \<and> sw_out w' = sw_out w @ concat (map rf_raw (replaySuffix (al_SuffixOffset res) (bufferedAt dec (g_protocol g) 0 (fs @ [f]))))"
proof -
  let ?p = "g_protocol g"
  let ?c = "ClassifyClientFrame dec ?p f"
  let ?all = "observedOf dec ?p (fs @ [f])"
  obtain st where st: "g_align g = Some st" "\<not> rl_decided st" "rl_aligner st = t" "rl_committed st = cp"
      "rl_needBytes st = px_TotalBytes cp" "rl_norm st = observedOf dec ?p fs" "rl_rawLen st = length (concat fs)"
      "rl_maxRaw st = px_TotalBytes cp * 2 + 65536" "rl_frames st = bufferedAt dec ?p 0 fs" "\<not> g_checkpointBlocked g" "\<not> g_discarded g"
    using assms(1) by (auto simp: replaying_def)
  obtain st1 where b: "bufferReplayFrame ?c f st = Some st1" and st1: "rl_norm st1 = ?all" "rl_aligner st1 = t" "rl_committed st1 = cp"
      "rl_needBytes st1 = px_TotalBytes cp" "rl_frames st1 = bufferedAt dec ?p 0 (fs @ [f])"
    using st assms(4) by (auto simp: bufferReplayFrame_def Let_def observedOf_def bufferedAt_append)
  let ?st2 = "st1\<lparr>rl_decided := True, rl_result := res, rl_aligned := True\<rparr>"
  let ?g1 = "setAlign ?st2 (setAlign st1 g)" and ?st3 = "?st2\<lparr>rl_frames := [], rl_norm := [], rl_rawLen := 0\<rparr>"
  let ?out = "map rf_raw (replaySuffix (al_SuffixOffset res) (bufferedAt dec ?p 0 (fs @ [f])))"
  obtain g2 where c: "checkpointStateAdvance env FrameClassContent ?g1 = (None, g2)"
    using checkpoint_ok [OF assms(7), of FrameClassContent ?g1] by (metis prod.collapse)
  have lk: "locked FrameClassContent ?g1" by (simp add: locked_def isSemanticClass_def)
  note ce = checkpoint_effect [OF c lk]
  have nb: "\<not> g_checkpointBlocked g2"
    using c
  proof (cases rule: checkpoint_cases)
    case quiet
    then show ?thesis using st(10) by (simp add: setAlign_def)
  next
    case saved
    then show ?thesis using lk st(10) by (simp add: setAlign_def)
  qed simp
  have "CommitStateContent \<le> g_state g2" using ce(11) advanced_semantic [of FrameClassContent ?g1] by (simp add: isSemanticClass_def)
  then have pg: "passing (setAlign ?st3 g2)" "g_protocol (setAlign ?st3 g2) = ?p"
    using nb ce(2,4) st(11) by (simp_all add: passing_def setAlign_def)
  have run: "WriteFrame dec env f g w = forwardReplaySuffixLocked dec env res ?st2 g2 w"
    using st assms(2,3) b st1 res c
    by (simp add: WriteFrame_def Let_def writeFrameReplayAlignedLocked_def decideReplayAlignmentLocked_def)
  show ?thesis
  proof (cases "?out = []")
    case True
    then have "forwardReplaySuffixLocked dec env res ?st2 g2 w = (None, setAlign ?st3 g2, w)"
      using st1(5) by (simp add: forwardReplaySuffixLocked_def Let_def)
    then show ?thesis using run assms(8,9) pg True by simp
  next
    case False
    obtain e3 g3 w3 where ff: "forwardFrames dec env ?out ((setAlign ?st3 g2)\<lparr>g_committed := True\<rparr>) w = (e3, g3, w3)" by (metis prod_cases3)
    have r: "e3 = None" "passing g3" "g_protocol g3 = ?p" "healthy w3" "sw_out w3 = sw_out w @ concat ?out"
      using forwardFrames_all [OF _ assms(7,8) ff] pg by auto
    have "forwardReplaySuffixLocked dec env res ?st2 g2 w = (case sw_FlushError w3 of (e, w4) \<Rightarrow> (e, g3, w4))"
      using st1(5) False ff r(1) by (simp add: forwardReplaySuffixLocked_def Let_def)
    then show ?thesis using run assms(9) r by simp
  qed
qed

lemma replay_passes:
  assumes "passing g" "ClassifyClientFrame dec (g_protocol g) f \<noteq> FrameClassKeepalive" "\<forall>s. ge_hook env s" "healthy w"
    "WriteFrame dec env f g w = (e, g', w')"
  shows "e = None \<and> healthy w' \<and> sw_out w' = sw_out w @ f \<and> g_protocol g' = g_protocol g \<and> passing g'"
proof -
  let ?c = "ClassifyClientFrame dec (g_protocol g) f"
  obtain e1 g1 where c: "checkpointStateAdvance env ?c g = (e1, g1)" by (metis surj_pair)
  note g1 = passing_checkpoint [OF assms(1,3) c]
  moreover have "e = None" "w' = sw_put f w" "g' = markFirstSemanticByteLocked ?c (observeFrameLocked ?c f (g1\<lparr>g_committed := True\<rparr>))"
    using assms(1,2,4,5) c g1
    by (auto simp: passing_def WriteFrame_def Let_def writeFrameReplayAlignedLocked_def forwardReplayPassthroughLocked_def)
  ultimately show ?thesis using assms(4) by simp
qed

lemma replay_prefix_run:
  assumes "replaying dec t cp fs0 g" "\<forall>f\<in>set fs. ClassifyClientFrame dec (g_protocol g) f \<noteq> FrameClassKeepalive"
    "length (observedOf dec (g_protocol g) (fs0 @ fs)) < px_TotalBytes cp" "length (concat (fs0 @ fs)) \<le> px_TotalBytes cp * 2 + 65536"
    "gateRun dec (map (GWrite env) fs) acc g w = (acc', g', w')"
  shows "acc' = acc @ fs \<and> w' = w \<and> g_protocol g' = g_protocol g \<and> replaying dec t cp (fs0 @ fs) g'"
  using assms
proof (induction fs arbitrary: acc g fs0)
  case (Cons f fs)
  obtain e g1 w1 where s: "WriteFrame dec env f g w = (e, g1, w1)" by (metis prod_cases3)
  have o: "observedOf dec (g_protocol g) (f # fs) = observedOf dec (g_protocol g) [f] @ observedOf dec (g_protocol g) fs"
    by (simp add: observedOf_def)
  have b: "e = None" "w1 = w" "g_protocol g1 = g_protocol g" "replaying dec t cp (fs0 @ [f]) g1"
    using replay_buffers [OF Cons.prems(1) _ _ _ s] Cons.prems(2-4) o by auto
  have "gateRun dec (map (GWrite env) fs) (acc @ [f]) g1 w = (acc', g', w')" using Cons.prems(5) s b by simp
  then show ?case using Cons.IH [OF b(4), of "acc @ [f]"] Cons.prems(2-4) b(3) by simp
qed simp

lemma replay_suffix_run:
  assumes "passing g" "\<forall>f\<in>set fs. ClassifyClientFrame dec (g_protocol g) f \<noteq> FrameClassKeepalive" "\<forall>s. ge_hook env s" "healthy w"
    "gateRun dec (map (GWrite env) fs) acc g w = (acc', g', w')"
  shows "acc' = acc @ fs \<and> sw_out w' = sw_out w @ concat fs"
  using assms
proof (induction fs arbitrary: acc g w)
  case (Cons f fs)
  obtain e g1 w1 where s: "WriteFrame dec env f g w = (e, g1, w1)" by (metis prod_cases3)
  have b: "e = None" "healthy w1" "sw_out w1 = sw_out w @ f" "g_protocol g1 = g_protocol g" "passing g1"
    using replay_passes [OF Cons.prems(1) _ Cons.prems(3,4) s] Cons.prems(2) by auto
  have "gateRun dec (map (GWrite env) fs) (acc @ [f]) g1 w1 = (acc', g', w')" using Cons.prems(5) s b by simp
  then show ?case using Cons.IH [OF b(5) _ Cons.prems(3) b(2), of "acc @ [f]"] Cons.prems(2) b(3,4) by simp
qed simp

text \<open>A replay armed with a record: the frames up to the deciding one \<open>f\<close> are buffered, those behind
  the aligner's offset then go out, and after them every further frame.\<close>

lemma replay_run:
  assumes arm: "go_ReplayAlignment opts = Some (cp, Some t)" and "healthy w" "\<forall>s. ge_hook env s"
    and cls: "\<forall>x\<in>set (pre @ [f] @ post). ClassifyClientFrame dec p x \<noteq> FrameClassKeepalive"
    and dec: "length (observedOf dec p pre) < px_TotalBytes cp" "px_TotalBytes cp \<le> length (observedOf dec p (pre @ [f]))"
      "length (concat (pre @ [f])) \<le> 2 * px_TotalBytes cp + 65536"
    and res: "res = Align t cp (observedOf dec p (pre @ [f]))" "al_Aligned res"
    and run: "gateRun dec (map (GWrite env) (pre @ [f] @ post)) [] (NewAttemptCommitGate p opts) w = (acc, g, w')"
  shows "acc = pre @ [f] @ post
    \<and> sw_out w' = sw_out w @ concat (map rf_raw (replaySuffix (al_SuffixOffset res) (bufferedAt dec p 0 (pre @ [f])))) @ concat post"
proof -
  let ?g = "NewAttemptCommitGate p opts"
  have p: "g_protocol ?g = p" by (simp add: NewAttemptCommitGate_def)
  have start: "replaying dec t cp [] ?g"
    using arm by (simp add: replaying_def NewAttemptCommitGate_def newReplayAlignment_def DefaultMaxMetadataBufferBytes_def)
  obtain acc1 g1 w1 where r1: "gateRun dec (map (GWrite env) pre) [] ?g w = (acc1, g1, w1)" by (metis prod_cases3)
  have a: "acc1 = pre" "w1 = w" "g_protocol g1 = p" "replaying dec t cp pre g1"
    using replay_prefix_run [OF start _ _ _ r1] cls dec p by auto
  obtain e g2 w2 where r2: "WriteFrame dec env f g1 w = (e, g2, w2)" by (metis prod_cases3)
  have b: "e = None" "healthy w2" "g_protocol g2 = p" "passing g2"
      "sw_out w2 = sw_out w @ concat (map rf_raw (replaySuffix (al_SuffixOffset res) (bufferedAt dec p 0 (pre @ [f]))))"
    using replay_decides [OF a(4) _ _ _ _ res(2) assms(3,2) r2] cls dec a(3) res(1) by (auto simp: mult.commute)
  obtain acc3 g3 w3 where r3: "gateRun dec (map (GWrite env) post) (pre @ [f]) g2 w2 = (acc3, g3, w3)" by (metis prod_cases3)
  have c: "acc3 = (pre @ [f]) @ post" "sw_out w3 = sw_out w2 @ concat post"
    using replay_suffix_run [OF b(4) _ assms(3) b(2) r3] cls b(3) by auto
  have "gateRun dec (map (GWrite env) (pre @ [f] @ post)) [] ?g w = (acc3, g3, w3)"
    using r1 a(1,2) r2 b(1) r3 by (simp add: gateRun_append)
  then show ?thesis using run c b(5) by simp
qed

text \<open>C15.
  The splice after an interruption. Let the record be the one the prefix cache keeps of the normalised content
  \<open>bytes\<close> that the client has, for any window and any threshold, and let a replay send frames whose content
  starts with \<open>bytes\<close>, these ending with or inside the frame \<open>f\<close>, within the raw buffer of the gate (twice
  the committed bytes plus 64 KiB), with checkpoint hooks that succeed and a connection that takes every write.
  Then every call succeeds and the client receives exactly the frames \<open>post\<close> behind \<open>f\<close>, byte for byte:
  nothing it has seen is sent again, and when \<open>bytes\<close> ends inside \<open>f\<close> that frame is dropped whole, the
  content it has beyond \<open>bytes\<close> included.
\<close>

theorem replay_splice_exact:
  assumes "go_ReplayAlignment opts = Some (prefixRecord wd bytes, Some t)" "0 < wd" "t \<le> 10000" "healthy w" "\<forall>s. ge_hook env s"
    "\<forall>x\<in>set (pre @ [f] @ post). ClassifyClientFrame dec p x \<noteq> FrameClassKeepalive"
    "observedOf dec p (pre @ [f]) = bytes @ beyond" "length (observedOf dec p pre) < length bytes"
    "length (concat (pre @ [f])) \<le> 2 * length bytes + 65536"
    "gateRun dec (map (GWrite env) (pre @ [f] @ post)) [] (NewAttemptCommitGate p opts) w = (acc, g, w')"
  shows "acc = pre @ [f] @ post \<and> sw_out w' = sw_out w @ concat post"
proof -
  let ?cp = "prefixRecord wd bytes"
  have total: "px_TotalBytes ?cp = length bytes" by (simp add: prefixRecord_def)
  have ne: "bytes \<noteq> []" using assms(8) by auto
  note al = align_offset [OF assms(2) ne assms(3), of beyond]
  have "replaySuffix (length bytes) (bufferedAt dec p 0 (pre @ [f])) = []"
    using replaySuffix_before [of 0 dec p pre "length bytes"] replaySuffix_straddle [of "length (observedOf dec p pre)" "length bytes" dec p f "[]"] assms(8)
    by (simp add: bufferedAt_append replaySuffix_def)
  moreover have "length bytes \<le> length (observedOf dec p (pre @ [f]))" unfolding assms(7) by simp
  ultimately show ?thesis
    using replay_run [OF assms(1,4,5,6) _ _ _ refl _ assms(10)] assms(8,9) al total unfolding assms(7) by simp
qed

text \<open>At the witness the client has \<open>hi\<close> and a line feed, the replay sends them in one frame and continues.\<close>

theorem replay_splice_exact_witness:
  "sw_out (snd (snd (demoReplay (map (GWrite calm) ([dataFrame ''role''] @ [dataFrame ''hi''] @ [dataFrame ''you'']))))) = dataFrame ''you''"
proof -
  let ?fs = "[dataFrame ''role''] @ [dataFrame ''hi''] @ [dataFrame ''you'']"
  have "\<forall>x\<in>set ?fs. ClassifyClientFrame demoDec ProtocolOpenAIChat x \<noteq> FrameClassKeepalive" by code_simp
  moreover have "observedOf demoDec ProtocolOpenAIChat ([dataFrame ''role''] @ [dataFrame ''hi'']) = (''hi'' @ [NL]) @ []"
    "length (observedOf demoDec ProtocolOpenAIChat [dataFrame ''role'']) < length (''hi'' @ [NL])" by code_simp+
  moreover have "length (concat ([dataFrame ''role''] @ [dataFrame ''hi''])) \<le> 2 * length (''hi'' @ [NL]) + 65536"
    by (simp add: dataFrame_def)
  ultimately show ?thesis
    using replay_splice_exact [OF _ _ _ _ _ _ _ _ _ demoReplay_run [of "map (GWrite calm) ?fs"], of 99 "''hi'' @ [NL]" 9000]
    by (simp add: calm_def)
qed

text \<open>C39.
  At the default threshold a splice may contradict what the client has. Let the client have the normalised content
  \<open>u @ v\<close>, wholly within the record's window, and let a replay send frames \<open>pre\<close> with content \<open>u\<close> and
  then frames \<open>mid @ [f]\<close> with content \<open>v'\<close> whose first byte differs from that of \<open>v\<close>, the first
  of them contributing and the last completing as many bytes as the client has. If \<open>v\<close> is at most a tenth of
  the committed content the replay counts as aligned, every call succeeds, and \<open>mid @ [f]\<close> and all frames after
  it are written behind \<open>u @ v\<close>: the client reads \<open>u\<close>, then \<open>v\<close>, then the other ending
  \<open>v'\<close>.
\<close>

theorem aligned_splice_diverges:
  assumes "go_ReplayAlignment opts = Some (prefixRecord wd (u @ v), Some DefaultAlignmentThresholdBP)" "healthy w" "\<forall>s. ge_hook env s"
    "\<forall>x\<in>set (pre @ mid @ [f] @ post). ClassifyClientFrame dec p x \<noteq> FrameClassKeepalive"
    "observedOf dec p pre = u" "observedOf dec p (mid @ [f]) = v'" "observedOf dec p [hd (mid @ [f])] \<noteq> []"
    "v \<noteq> []" "hd v \<noteq> hd v'" "10 * length v \<le> length (u @ v)" "length (u @ v) \<le> wd"
    "length (observedOf dec p mid) < length v" "length v \<le> length v'"
    "length (concat (pre @ mid @ [f])) \<le> 2 * length (u @ v) + 65536"
    "gateRun dec (map (GWrite env) (pre @ mid @ [f] @ post)) [] (NewAttemptCommitGate p opts) w = (acc, g, w')"
  shows "acc = pre @ mid @ [f] @ post \<and> sw_out w' = sw_out w @ concat (mid @ [f]) @ concat post"
proof -
  let ?cp = "prefixRecord wd (u @ v)"
  have total: "px_TotalBytes ?cp = length (u @ v)" by (simp add: prefixRecord_def)
  have v': "v' \<noteq> []" using assms(8,13) by auto
  note al = align_tail_tolerance [OF assms(8) v' assms(9,10,11)]
  have o: "observedOf dec p ((pre @ mid) @ [f]) = u @ v'" using assms(5,6) by simp
  obtain x xs where mf: "mid @ [f] = x # xs" "observedOf dec p [x] \<noteq> []" using assms(7) by (cases "mid @ [f]") auto
  have "replaySuffix (length u) (bufferedAt dec p 0 ((pre @ mid) @ [f])) = bufferedAt dec p (length u) (mid @ [f])"
    using replaySuffix_before [of 0 dec p pre "length u" "bufferedAt dec p (length u) (mid @ [f])"]
      replaySuffix_from [of "length u" "length u" dec p x xs] mf assms(5) bufferedAt_append [of dec p 0 pre "mid @ [f]"] by simp
  moreover have "length (u @ v) \<le> length (observedOf dec p ((pre @ mid) @ [f]))" unfolding o using assms(13) by simp
  ultimately show ?thesis
    using replay_run [OF assms(1-3), of "pre @ mid" f post dec p "Align DefaultAlignmentThresholdBP ?cp (u @ v')" acc g w']
      assms(4,5,12,14,15) al total unfolding o by simp
qed

text \<open>The client has the text of a total, the replay the same text with another last digit.\<close>

definition demoDivergence :: "string list \<times> attemptCommitGate \<times> streamWriter" where
  "demoDivergence = gateRun demoDec (map (GWrite calm) ([dataFrame ''the total is 10''] @ [] @ [dataFrame ''5''] @ [dataFrame ''EUR''])) []
     (NewAttemptCommitGate ProtocolOpenAIChat ((demoOpts GateModeBuffered 0)\<lparr>go_ReplayAlignment :=
        Some (prefixRecord 99 ((''the total is 10'' @ [NL]) @ ''0''), Some DefaultAlignmentThresholdBP)\<rparr>)) (NewSerializedStreamWriter [] FlushPlain)"

theorem aligned_splice_diverges_witness:
  "sw_out (snd (snd demoDivergence)) = dataFrame ''5'' @ dataFrame ''EUR''"
proof -
  let ?pre = "[dataFrame ''the total is 10'']"
  have "\<forall>x\<in>set (?pre @ [] @ [dataFrame ''5''] @ [dataFrame ''EUR'']). ClassifyClientFrame demoDec ProtocolOpenAIChat x \<noteq> FrameClassKeepalive" by code_simp
  moreover have "observedOf demoDec ProtocolOpenAIChat ?pre = ''the total is 10'' @ [NL]"
    "observedOf demoDec ProtocolOpenAIChat [dataFrame ''5''] = ''5'' @ [NL]" by code_simp+
  moreover have "length (concat (?pre @ [] @ [dataFrame ''5''])) \<le> 2 * length ((''the total is 10'' @ [NL]) @ ''0'') + 65536"
    by (simp add: dataFrame_def)
  moreover obtain acc g w' where run: "demoDivergence = (acc, g, w')" by (metis prod_cases3)
  ultimately have "sw_out w' = dataFrame ''5'' @ dataFrame ''EUR''"
    using aligned_splice_diverges [of _ 99 "''the total is 10'' @ [NL]" "''0''" "NewSerializedStreamWriter [] FlushPlain" calm ?pre "[]"
        "dataFrame ''5''" "[dataFrame ''EUR'']" demoDec ProtocolOpenAIChat "''5'' @ [NL]" acc g w', OF _ _ _ _ _ _ _ _ _ _ _ _ _ _ demoDivergence_def [symmetric, THEN trans]]
    by (simp add: calm_def)
  then show ?thesis unfolding run by simp
qed

end
