(* ===== verification/TaskOutcome.thy ===== *)
theory TaskOutcome
  imports ActionPolicy GoText CommitGate
begin

text \<open>
  The outcome of one attempt and the decision about the task: \<open>domains/streaming/attempt_outcome.go\<close>
  (the task table, the fold of the candidates' outcomes with and without history, the history of a request),
  the fold of the executor's error into candidate outcomes (\<open>execute_attempt.go\<close>) and the request-wide
  budget of upstream calls (\<open>executors/attempt_budget.go\<close>). The central policy is
  \<open>DecideNextAction\<close> of \<open>ActionPolicy\<close>. Log lines and the display-only fields of an outcome
  (supplier, latency, stage, \<open>Detail\<close>) are left out.
\<close>

section \<open>Outcomes and decisions\<close>

record candidateOutcome =
  co_CandidateID :: string
  co_CredentialID :: string
  co_ProviderID :: int
  co_Kind :: errorKind
  co_RetryAfter :: duration

record attemptResult =
  ar_Success :: bool
  ar_CandidateOutcomes :: "candidateOutcome list"
  ar_CommitState :: commitState
  ar_FinalError :: "streamErr option"
  ar_SafeRetry :: bool

datatype taskAction = TaskActionSucceed | TaskActionRetryNow | TaskActionWaitRecovery | TaskActionResumeBlocked
  | TaskActionFailTerminal | TaskActionFailClosed

record taskDecision =
  td_Action :: taskAction
  td_Reason :: string
  td_NextRetryAfter :: duration

abbreviation decide :: "taskAction \<Rightarrow> string \<Rightarrow> taskDecision" where
  "decide act reason \<equiv> \<lparr>td_Action = act, td_Reason = reason, td_NextRetryAfter = 0\<rparr>"

definition LastKind :: "attemptResult \<Rightarrow> errorKind" where
  "LastKind r = (if ar_CandidateOutcomes r = [] then KindNone else co_Kind (last (ar_CandidateOutcomes r)))"

definition taskActionForKind :: "errorKind \<Rightarrow> taskAction option" where
  "taskActionForKind kind =
     (if kind \<in> {KindTransient, KindTimeout, KindNetwork, KindConcurrent, KindUpstreamOverloaded, KindEmptyResponse,
          KindAuth, KindStreamTimeout, KindRequestRejected, KindModelUnavailable} then Some TaskActionRetryNow
      else if kind \<in> {KindRateLimit, KindQuota, KindQuotaPeriodic, KindQuotaBalance, KindUpstreamDown, KindNoAvailableChannel}
      then Some TaskActionWaitRecovery
      else if kind \<in> {KindAuthRevoked, KindQuotaPermanent, KindModelNotFound, KindModelDeprecated, KindContextLength,
          KindUnsupportedFeature, KindContentFilter, KindConversion, KindUpstreamContextLoss, KindToolCallIdMismatch,
          KindCanceled, KindClientBug} then Some TaskActionFailTerminal
      else None)"

definition commitStateCentral :: "bool \<Rightarrow> actionCommitState" where
  "commitStateCentral com = (if com then ActionCommitContent else ActionCommitNone)"

definition emptyHistory :: decisionHistory where
  "emptyHistory = \<lparr>dh_PriorAttempts = [], dh_TriedNodes = [], dh_TriedModels = [], dh_Terminal = False, dh_LastSeq = 0\<rparr>"

text \<open>The context both projections hand to the central policy; every other field has its zero value.\<close>

definition taskContext :: "errorKind \<Rightarrow> bool \<Rightarrow> duration \<Rightarrow> decisionHistory \<Rightarrow> decisionContext" where
  "taskContext kind com retryAfter history = \<lparr>dc_RequestID = [], dc_TenantID = [], dc_SessionID = [], dc_ClientProtocol = [],
     dc_Phase = ActionPhaseOther [], dc_AttemptNo = 0, dc_SameNodeRetryCount = 0, dc_MaxSameNodeRetries = 0, dc_RemainingAttempts = 1,
     dc_ProviderID = 0, dc_CredentialID = 0, dc_ResolvedModel = [], dc_HasAlternateNode = True, dc_AllowProviderChange = False,
     dc_AllowModelChange = False, dc_History = history, dc_CommitState = commitStateCentral com, dc_SemanticOutputVisible = False,
     dc_ClientDisconnected = False, dc_Kind = kind, dc_HTTPStatus = 0, dc_RetryAfter = retryAfter\<rparr>"

text \<open>The lookup in the task table at the end of both projections.\<close>

definition tableDecision :: "errorKind \<Rightarrow> duration \<Rightarrow> taskDecision" where
  "tableDecision kind retryAfter = (case taskActionForKind kind of
     None \<Rightarrow> decide TaskActionFailClosed (''unmapped_kind:'' @ kindString kind)
   | Some act \<Rightarrow> if act \<in> {TaskActionRetryNow, TaskActionWaitRecovery}
       then \<lparr>td_Action = act, td_Reason = kindString kind, td_NextRetryAfter = retryAfter\<rparr>
       else decide act (kindString kind))"

definition centralActionForTask :: "errorKind \<Rightarrow> bool \<Rightarrow> duration \<Rightarrow> taskDecision" where
  "centralActionForTask kind com retryAfter =
     (let central = DecideNextAction (taskContext kind com retryAfter emptyHistory)
      in if com \<and> ad_Action central = ActionResumeBlocked then decide TaskActionResumeBlocked ''committed_output''
         else if ad_Action central = ActionClientCanceled then decide TaskActionFailTerminal (ad_ReasonCode central)
         else if ad_Action central = ActionFailClosed then decide TaskActionFailClosed (ad_ReasonCode central)
         else tableDecision kind retryAfter)"

definition centralActionForTaskWithHistory :: "errorKind \<Rightarrow> bool \<Rightarrow> duration \<Rightarrow> decisionHistory \<Rightarrow> taskDecision" where
  "centralActionForTaskWithHistory kind com retryAfter history =
     (let central = DecideNextAction (taskContext kind com retryAfter history)
      in if ad_Action central = ActionResumeBlocked then decide TaskActionResumeBlocked (ad_ReasonCode central)
         else if ad_Action central = ActionClientCanceled then decide TaskActionFailTerminal (ad_ReasonCode central)
         else if ad_Action central = ActionFailClosed \<and> com then decide TaskActionResumeBlocked ''committed_output''
         else if ad_Action central = ActionFailTerminal then decide TaskActionFailTerminal (ad_ReasonCode central)
         else tableDecision kind retryAfter)"

definition waitReasonCode :: "errorKind list \<Rightarrow> string" where
  "waitReasonCode kinds = (case kinds of
     [] \<Rightarrow> ''wait_recovery_window''
   | first # rest \<Rightarrow> if \<exists>k\<in>set rest. k \<noteq> first then ''wait_recovery_window'' else ''wait_recovery_window:'' @ kindString first)"

definition maxRetryAfter :: "candidateOutcome list \<Rightarrow> duration" where
  "maxRetryAfter cs = foldl (\<lambda>m co. if m < co_RetryAfter co then co_RetryAfter co else m) 0 cs"

text \<open>The first non-empty kind among the candidates whose verdict is to fail closed.\<close>

definition unknownKind :: "(candidateOutcome \<Rightarrow> taskAction) \<Rightarrow> candidateOutcome list \<Rightarrow> errorKind" where
  "unknownKind verdict cs = foldl (\<lambda>k co. if verdict co = TaskActionFailClosed \<and> kindString k = [] then co_Kind co else k) KindNone cs"

definition AggregateTaskOutcomeWithHistory :: "attemptResult option \<Rightarrow> decisionHistory \<Rightarrow> taskDecision" where
  "AggregateTaskOutcomeWithHistory r history = (case r of
     None \<Rightarrow> decide TaskActionFailClosed ''nil_attempt_result''
   | Some r \<Rightarrow>
       if ar_Success r then decide TaskActionSucceed ''success''
       else let com = CommitStateContent \<le> ar_CommitState r;
                cs = ar_CandidateOutcomes r;
                verdict = (\<lambda>co. td_Action (centralActionForTaskWithHistory (co_Kind co) com (co_RetryAfter co) history));
                has = (\<lambda>act. \<exists>co\<in>set cs. verdict co = act);
                waitKinds = map co_Kind (filter (\<lambda>co. verdict co = TaskActionWaitRecovery \<and> kindString (co_Kind co) \<noteq> []) cs)
            in if has TaskActionFailClosed then decide TaskActionFailClosed (''unmapped_kind:'' @ kindString (unknownKind verdict cs))
               else if has TaskActionFailTerminal then decide TaskActionFailTerminal ''terminal_candidate''
               else if has TaskActionResumeBlocked then decide TaskActionResumeBlocked ''committed_output''
               else if com \<and> (has TaskActionRetryNow \<or> has TaskActionWaitRecovery) then decide TaskActionResumeBlocked ''committed_output''
               else if has TaskActionRetryNow
               then \<lparr>td_Action = TaskActionRetryNow, td_Reason = ''recoverable_candidate'', td_NextRetryAfter = maxRetryAfter cs\<rparr>
               else if has TaskActionWaitRecovery
               then \<lparr>td_Action = TaskActionWaitRecovery, td_Reason = waitReasonCode waitKinds, td_NextRetryAfter = maxRetryAfter cs\<rparr>
               else decide TaskActionFailClosed ''no_candidate_outcomes'')"

definition AggregateTaskOutcome :: "attemptResult option \<Rightarrow> taskDecision" where
  "AggregateTaskOutcome r = (case r of
     None \<Rightarrow> decide TaskActionFailClosed ''nil_attempt_result''
   | Some r \<Rightarrow>
       if ar_Success r then decide TaskActionSucceed ''success''
       else let com = CommitStateContent \<le> ar_CommitState r;
                cs = ar_CandidateOutcomes r;
                verdict = (\<lambda>co. td_Action (centralActionForTask (co_Kind co) False (co_RetryAfter co)));
                has = (\<lambda>act. \<exists>co\<in>set cs. verdict co = act)
            in if has TaskActionFailClosed then decide TaskActionFailClosed (''unmapped_kind:'' @ kindString (unknownKind verdict cs))
               else if has TaskActionFailTerminal then decide TaskActionFailTerminal ''terminal_candidate''
               else if com \<and> (has TaskActionRetryNow \<or> has TaskActionWaitRecovery) then decide TaskActionResumeBlocked ''committed_output''
               else if has TaskActionRetryNow
               then \<lparr>td_Action = TaskActionRetryNow, td_Reason = ''recoverable_candidate'', td_NextRetryAfter = maxRetryAfter cs\<rparr>
               else if has TaskActionWaitRecovery
               then \<lparr>td_Action = TaskActionWaitRecovery, td_Reason = ''wait_recovery_window'', td_NextRetryAfter = maxRetryAfter cs\<rparr>
               else decide TaskActionFailClosed ''no_candidate_outcomes'')"

section \<open>The history of a request\<close>

definition candidateModel :: "string \<Rightarrow> string" where
  "candidateModel s = (case find (\<lambda>i. hasPrefix (drop i s) ''/model:'') [0..<Suc (length s)] of
     None \<Rightarrow> s | Some i \<Rightarrow> drop (i + 7) s)"

definition candidateCredential :: "string \<Rightarrow> int" where
  "candidateCredential s = (case Atoi s of None \<Rightarrow> 0 | Some n \<Rightarrow> n)"

fun taskActionToCentral :: "taskAction \<Rightarrow> nextAction" where
  "taskActionToCentral TaskActionRetryNow = ActionRetrySameNode"
| "taskActionToCentral TaskActionWaitRecovery = ActionWaitRecovery"
| "taskActionToCentral TaskActionResumeBlocked = ActionResumeBlocked"
| "taskActionToCentral TaskActionFailTerminal = ActionFailTerminal"
| "taskActionToCentral TaskActionSucceed = ActionEmpty"
| "taskActionToCentral TaskActionFailClosed = ActionEmpty"

definition survivalEntry :: "attemptResult \<Rightarrow> int \<Rightarrow> taskDecision \<Rightarrow> decisionHistory \<Rightarrow> candidateOutcome \<Rightarrow> decisionHistory" where
  "survivalEntry result attemptNo decision h co =
     (if kindString (co_Kind co) = [] \<or> co_CandidateID co = [] then h
      else let n = dh_LastSeq h + 1
           in h\<lparr>dh_LastSeq := n, dh_PriorAttempts := dh_PriorAttempts h @ [\<lparr>pa_Seq = n, pa_AttemptNo = attemptNo,
                pa_Model = candidateModel (co_CandidateID co), pa_ProviderID = co_ProviderID co,
                pa_CredentialID = candidateCredential (co_CredentialID co), pa_Kind = co_Kind co,
                pa_Action = taskActionToCentral (td_Action decision), pa_RetryAfter = co_RetryAfter co,
                pa_Committed = (CommitStateContent \<le> ar_CommitState result), pa_ClientDisconnected = False\<rparr>]\<rparr>)"

definition appendSurvivalHistory :: "decisionHistory \<Rightarrow> attemptResult option \<Rightarrow> int \<Rightarrow> taskDecision \<Rightarrow> decisionHistory" where
  "appendSurvivalHistory history result attemptNo decision = (case result of
     None \<Rightarrow> history
   | Some r \<Rightarrow> let h = foldl (survivalEntry r attemptNo decision) history (ar_CandidateOutcomes r); n = length (dh_PriorAttempts h)
       in if 128 < n then h\<lparr>dh_PriorAttempts := drop (n - 128) (dh_PriorAttempts h)\<rparr> else h)"

section \<open>The fold of the executor's error\<close>

definition retryAfterDuration :: "int \<Rightarrow> duration" where
  "retryAfterDuration seconds = (if seconds \<le> 0 then 0 else seconds * go_second)"

record routingAttempt =
  rg_Result :: string
  rg_HTTPStatus :: int
  rg_ErrorKind :: errorKind
  rg_ProviderID :: int
  rg_CredentialID :: int
  rg_RawModel :: string
  rg_RetryAfterSeconds :: int

record execAttempt =
  ea_ProviderID :: int
  ea_CredentialID :: int
  ea_RawModel :: string
  ea_Kind :: errorKind

record executeError =
  ee_Attempts :: "execAttempt list"
  ee_LastKind :: errorKind
  ee_RetryAfterSeconds :: int

definition classifyRoutingAttemptKind :: "routingAttempt \<Rightarrow> errorKind" where
  "classifyRoutingAttemptKind a =
     (if rg_Result a = ''timeout'' then KindTimeout
      else if rg_Result a = ''canceled'' then KindCanceled
      else if rg_Result a = ''rate_limit'' then KindRateLimit
      else if rg_Result a = ''unauthorized'' then KindAuth
      else if rg_Result a = ''model_not_found'' then KindModelNotFound
      else if 500 \<le> rg_HTTPStatus a then KindUpstreamOverloaded
      else KindTransient)"

definition candidateID :: "int \<Rightarrow> string \<Rightarrow> string" where
  "candidateID provider rawModel = ''provider:'' @ intDec provider @ ''/model:'' @ rawModel"

definition candidateOfAttempt :: "executeError \<Rightarrow> execAttempt \<Rightarrow> candidateOutcome" where
  "candidateOfAttempt e a = \<lparr>co_CandidateID = candidateID (ea_ProviderID a) (ea_RawModel a), co_CredentialID = intDec (ea_CredentialID a),
     co_ProviderID = ea_ProviderID a, co_Kind = ea_Kind a, co_RetryAfter = retryAfterDuration (ee_RetryAfterSeconds e)\<rparr>"

definition candidateOfTrace :: "routingAttempt \<Rightarrow> candidateOutcome" where
  "candidateOfTrace fa = \<lparr>co_CandidateID = candidateID (rg_ProviderID fa) (rg_RawModel fa), co_CredentialID = intDec (rg_CredentialID fa),
     co_ProviderID = rg_ProviderID fa,
     co_Kind = (if kindString (rg_ErrorKind fa) = [] then classifyRoutingAttemptKind fa else rg_ErrorKind fa),
     co_RetryAfter = retryAfterDuration (rg_RetryAfterSeconds fa)\<rparr>"

text \<open>An error is an \<open>ExecuteError\<close>, or any other error together with the kind that
  \<open>errorsx.ClassifyError\<close> gives it; \<open>failed\<close> are the failed attempts of the routing tracker.\<close>

definition foldCandidateOutcomes :: "executeError + errorKind \<Rightarrow> routingAttempt list \<Rightarrow> candidateOutcome list" where
  "foldCandidateOutcomes err failed =
     (let synthesized = (\<lambda>kind ra. [\<lparr>co_CandidateID = [], co_CredentialID = [], co_ProviderID = 0, co_Kind = kind, co_RetryAfter = ra\<rparr>])
      in case err of
        Inr kind \<Rightarrow> synthesized kind 0
      | Inl e \<Rightarrow>
          if ee_Attempts e \<noteq> [] then map (candidateOfAttempt e) (ee_Attempts e)
          else if failed \<noteq> [] then map candidateOfTrace failed
          else synthesized (if kindString (ee_LastKind e) = [] then KindNoAvailableChannel else ee_LastKind e)
                 (retryAfterDuration (ee_RetryAfterSeconds e)))"

section \<open>The budget of upstream calls\<close>

definition DefaultUpstreamAttemptLimit :: int where "DefaultUpstreamAttemptLimit = 100"
definition MaxUpstreamAttemptLimit :: int where "MaxUpstreamAttemptLimit = 601"

record upstreamAttemptBudget =
  ub_limit :: int
  ub_used :: int

definition NewUpstreamAttemptBudget :: "int \<Rightarrow> upstreamAttemptBudget" where
  "NewUpstreamAttemptBudget limit = \<lparr>ub_limit = (if limit \<le> 0 \<or> MaxUpstreamAttemptLimit < limit then DefaultUpstreamAttemptLimit else limit),
     ub_used = 0\<rparr>"

definition RequestAttemptLimit :: "int \<Rightarrow> int" where
  "RequestAttemptLimit survivalAttemptBudget = (if 0 < survivalAttemptBudget then survivalAttemptBudget else DefaultUpstreamAttemptLimit)"

definition budget_Consume :: "upstreamAttemptBudget \<Rightarrow> (int \<times> bool) \<times> upstreamAttemptBudget" where
  "budget_Consume b = (if ub_limit b \<le> ub_used b then ((0, False), b) else ((ub_used b + 1, True), b\<lparr>ub_used := ub_used b + 1\<rparr>))"

definition budget_Exhausted :: "upstreamAttemptBudget option \<Rightarrow> bool" where
  "budget_Exhausted b = (case b of None \<Rightarrow> False | Some b \<Rightarrow> ub_limit b \<le> ub_used b)"

definition consumeUpstreamAttempt :: "upstreamAttemptBudget option \<Rightarrow> int \<Rightarrow> int option \<times> upstreamAttemptBudget option \<times> int" where
  "consumeUpstreamAttempt b attemptNo = (case b of
     None \<Rightarrow> (Some (attemptNo + 1), None, attemptNo + 1)
   | Some b \<Rightarrow> (case budget_Consume b of ((n, ok), b1) \<Rightarrow> (if ok then Some n else None, Some b1, attemptNo)))"

section \<open>The verdict on a candidate\<close>

text \<open>What the two tables make of a kind when nothing has been committed.\<close>

definition taskVerdict :: "errorKind \<Rightarrow> taskAction" where
  "taskVerdict k = (if k = KindCanceled \<or> terminalActionKind k then TaskActionFailTerminal
     else case taskActionForKind k of None \<Rightarrow> TaskActionFailClosed | Some act \<Rightarrow> act)"

definition goodHistory :: "decisionHistory \<Rightarrow> bool" where
  "goodHistory h \<longleftrightarrow> validateDecisionHistory h = [] \<and> \<not> dh_Terminal h"

lemma taskContext_simps [simp]:
  "dc_History (taskContext k com ra h) = h" "dc_Kind (taskContext k com ra h) = k" "\<not> dc_ClientDisconnected (taskContext k com ra h)"
  "dc_HasAlternateNode (taskContext k com ra h)" "dc_RemainingAttempts (taskContext k com ra h) = 1"
  by (simp_all add: taskContext_def)

lemma committed_taskContext [simp]: "committed (taskContext k com ra h) = com"
  by (simp add: committed_def taskContext_def commitStateCentral_def less_eq_actionCommitState_def)

lemma tableDecision_action:
  "td_Action (tableDecision k ra) = (case taskActionForKind k of None \<Rightarrow> TaskActionFailClosed | Some act \<Rightarrow> act)"
  by (simp add: tableDecision_def split: option.split)

lemma central_action:
  assumes "goodHistory h" "com \<or> \<not> retryableActionKind k"
  shows "actionTable (taskContext k com ra h) =
    (if k = KindCanceled then ActionClientCanceled
     else if k = KindNone \<or> k = KindOther [] then ActionFailClosed
     else if com \<and> (retryableActionKind k \<or> k = KindRateLimit) then ActionResumeBlocked
     else if terminalActionKind k then ActionFailTerminal
     else if k = KindRequestRejected \<or> k = KindModelUnavailable \<or> k = KindAuth then ActionSwitchNode
     else if k \<in> {KindQuota, KindQuotaPeriodic, KindQuotaBalance, KindRateLimit, KindNoAvailableChannel} then ActionWaitRecovery
     else ActionFailClosed)"
proof -
  have "terminalActionKind KindRateLimit = False" by (simp add: terminalActionKind_def)
  then show ?thesis using assms
    by (cases "retryableActionKind k"; cases "terminalActionKind k"; cases com) (simp_all add: actionTable_def goodHistory_def Let_def)
qed

lemma central_retryable:
  assumes "goodHistory h" "retryableActionKind k" "\<not> com"
  shows "actionTable (taskContext k com ra h) \<in> {ActionRetrySameNode, ActionSwitchNode}"
  using assms by (auto simp: actionTable_def goodHistory_def Let_def kind_sets)

lemma uncommitted_verdict:
  assumes "goodHistory h"
  shows "td_Action (centralActionForTaskWithHistory k False ra h) = taskVerdict k"
proof (cases "retryableActionKind k")
  case True
  then have "\<not> terminalActionKind k" "k \<noteq> KindCanceled" by (auto simp: kind_sets)
  then show ?thesis using central_retryable [OF assms True, of False ra]
    by (auto simp: centralActionForTaskWithHistory_def Let_def Decide_action tableDecision_action taskVerdict_def)
next
  case False
  then have "actionTable (taskContext k False ra h) = (if k = KindCanceled then ActionClientCanceled
     else if k = KindNone \<or> k = KindOther [] then ActionFailClosed else if terminalActionKind k then ActionFailTerminal
     else if k = KindRequestRejected \<or> k = KindModelUnavailable \<or> k = KindAuth then ActionSwitchNode
     else if k \<in> {KindQuota, KindQuotaPeriodic, KindQuotaBalance, KindRateLimit, KindNoAvailableChannel} then ActionWaitRecovery
     else ActionFailClosed)"
    using central_action [OF assms, of False k ra] by simp
  then show ?thesis
    by (cases "k = KindCanceled \<or> terminalActionKind k")
      (auto simp: centralActionForTaskWithHistory_def Let_def Decide_action tableDecision_action taskVerdict_def terminalActionKind_def
        simp del: insert_iff)
qed

lemma committed_verdict:
  assumes "goodHistory h"
  shows "td_Action (centralActionForTaskWithHistory k True ra h) \<in> (if k = KindCanceled \<or> terminalActionKind k then {TaskActionFailTerminal}
    else {TaskActionResumeBlocked, TaskActionRetryNow, TaskActionWaitRecovery})"
proof -
  have c: "actionTable (taskContext k True ra h) = (if k = KindCanceled then ActionClientCanceled
     else if k = KindNone \<or> k = KindOther [] then ActionFailClosed
     else if retryableActionKind k \<or> k = KindRateLimit then ActionResumeBlocked
     else if terminalActionKind k then ActionFailTerminal
     else if k = KindRequestRejected \<or> k = KindModelUnavailable \<or> k = KindAuth then ActionSwitchNode
     else if k \<in> {KindQuota, KindQuotaPeriodic, KindQuotaBalance, KindRateLimit, KindNoAvailableChannel} then ActionWaitRecovery
     else ActionFailClosed)" (is "_ = ?t")
    using central_action [OF assms, of True k ra] by simp
  show ?thesis
    unfolding centralActionForTaskWithHistory_def Let_def Decide_action c
    by (cases k) (simp_all add: tableDecision_action taskActionForKind_def kind_sets)
qed

text \<open>C17.
  The decision after a failed attempt is exactly this. When the client has seen semantic output, nothing is
  retried: the task fails terminally when a candidate's failure is terminal, and is otherwise blocked from
  resuming. When it has not, one kind that no table knows fails the task closed, else one terminal candidate
  fails it, else one candidate that can be retried at once makes it retry, else it waits for recovery. An
  attempt without outcomes fails closed.
\<close>

theorem aggregate_exact:
  assumes "goodHistory h" "\<not> ar_Success r"
  shows "td_Action (AggregateTaskOutcomeWithHistory (Some r) h) =
    (let kinds = co_Kind ` set (ar_CandidateOutcomes r)
     in if kinds = {} then TaskActionFailClosed
        else if CommitStateContent \<le> ar_CommitState r
        then if \<exists>k\<in>kinds. k = KindCanceled \<or> terminalActionKind k then TaskActionFailTerminal else TaskActionResumeBlocked
        else if TaskActionFailClosed \<in> taskVerdict ` kinds then TaskActionFailClosed
        else if TaskActionFailTerminal \<in> taskVerdict ` kinds then TaskActionFailTerminal
        else if TaskActionRetryNow \<in> taskVerdict ` kinds then TaskActionRetryNow
        else TaskActionWaitRecovery)"
proof -
  let ?cs = "ar_CandidateOutcomes r"
  have tv: "taskVerdict k \<noteq> TaskActionSucceed \<and> taskVerdict k \<noteq> TaskActionResumeBlocked" for k
    by (auto simp: taskVerdict_def taskActionForKind_def)
  show ?thesis
  proof (cases "CommitStateContent \<le> ar_CommitState r")
    case False
    have nw: "taskVerdict k = TaskActionWaitRecovery"
      if "taskVerdict k \<noteq> TaskActionFailClosed" "taskVerdict k \<noteq> TaskActionFailTerminal" "taskVerdict k \<noteq> TaskActionRetryNow" for k
      using that tv [of k] by (cases "taskVerdict k") auto
    show ?thesis
      using False assms(2) tv nw
      by (auto simp: AggregateTaskOutcomeWithHistory_def Let_def uncommitted_verdict [OF assms(1)] image_iff)
  next
    case True
    let ?v = "\<lambda>co. td_Action (centralActionForTaskWithHistory (co_Kind co) True (co_RetryAfter co) h)"
    have v: "?v co \<in> (if co_Kind co = KindCanceled \<or> terminalActionKind (co_Kind co) then {TaskActionFailTerminal}
        else {TaskActionResumeBlocked, TaskActionRetryNow, TaskActionWaitRecovery})" for co
      using committed_verdict [OF assms(1)] by blast
    have nc: "?v co \<noteq> TaskActionFailClosed" for co using v [of co] by (auto split: if_splits)
    have tm: "?v co = TaskActionFailTerminal \<longleftrightarrow> co_Kind co = KindCanceled \<or> terminalActionKind (co_Kind co)" for co
      using v [of co] by (auto split: if_splits)
    have "td_Action (AggregateTaskOutcomeWithHistory (Some r) h) =
      (if ?cs = [] then TaskActionFailClosed
       else if \<exists>co\<in>set ?cs. co_Kind co = KindCanceled \<or> terminalActionKind (co_Kind co) then TaskActionFailTerminal
       else TaskActionResumeBlocked)"
    proof (cases "\<exists>co\<in>set ?cs. co_Kind co = KindCanceled \<or> terminalActionKind (co_Kind co)")
      case ex: True
      then show ?thesis using assms(2) \<open>CommitStateContent \<le> _\<close>
        by (auto simp: AggregateTaskOutcomeWithHistory_def Let_def nc tm)
    next
      case nex: False
      show ?thesis
      proof (cases "?cs = []")
        case True
        then show ?thesis using assms(2) by (simp add: AggregateTaskOutcomeWithHistory_def Let_def)
      next
        case False
        then obtain co where co: "co \<in> set ?cs" by (cases ?cs) auto
        have "?v co = TaskActionResumeBlocked \<or> ?v co = TaskActionRetryNow \<or> ?v co = TaskActionWaitRecovery"
          using v [of co] nex co by auto
        then show ?thesis using assms(2) \<open>CommitStateContent \<le> _\<close> nex False co
          by (auto simp: AggregateTaskOutcomeWithHistory_def Let_def nc tm)
      qed
    qed
    then show ?thesis using True by (auto simp: Let_def)
  qed
qed

definition demoCandidate :: "errorKind \<Rightarrow> candidateOutcome" where
  "demoCandidate k = \<lparr>co_CandidateID = ''provider:1/model:m'', co_CredentialID = ''7'', co_ProviderID = 1, co_Kind = k, co_RetryAfter = 0\<rparr>"

definition demoResult :: "commitState \<Rightarrow> errorKind list \<Rightarrow> attemptResult" where
  "demoResult st ks = \<lparr>ar_Success = False, ar_CandidateOutcomes = map demoCandidate ks, ar_CommitState = st, ar_FinalError = None,
     ar_SafeRetry = False\<rparr>"

lemma goodHistory_empty [simp]: "goodHistory emptyHistory"
  by (simp add: goodHistory_def emptyHistory_def validateDecisionHistory_def)

theorem aggregate_exact_witness:
  "td_Action (AggregateTaskOutcomeWithHistory (Some (demoResult CommitStateMetadata [KindRateLimit, KindTimeout])) emptyHistory) = TaskActionRetryNow
   \<and> td_Action (AggregateTaskOutcomeWithHistory (Some (demoResult CommitStateContent [KindRateLimit, KindTimeout])) emptyHistory) = TaskActionResumeBlocked"
  using aggregate_exact [OF goodHistory_empty, of "demoResult CommitStateMetadata [KindRateLimit, KindTimeout]"]
    aggregate_exact [OF goodHistory_empty, of "demoResult CommitStateContent [KindRateLimit, KindTimeout]"]
  by (simp add: demoResult_def demoCandidate_def taskVerdict_def taskActionForKind_def terminalActionKind_def less_eq_commitState_def)

lemma retry_uncommitted:
  assumes "td_Action (AggregateTaskOutcomeWithHistory r h) \<in> {TaskActionRetryNow, TaskActionWaitRecovery}"
  shows "\<exists>a. r = Some a \<and> \<not> ar_Success a \<and> \<not> CommitStateContent \<le> ar_CommitState a"
  using assms by (auto simp: AggregateTaskOutcomeWithHistory_def Let_def split: option.splits if_splits)

text \<open>C40.
  A first-byte timeout ends the request although nothing has reached the client: the kind that the stream
  handlers report when the upstream stays silent is in neither table, so that one such candidate makes the
  whole attempt fail closed, with any other outcomes and any history, while the same candidate timing out
  later, as a stream timeout, is retried.
\<close>

theorem first_byte_timeout_fails_closed:
  assumes "goodHistory h" "\<not> ar_Success r" "\<not> CommitStateContent \<le> ar_CommitState r"
    "KindFirstByteTimeout \<in> co_Kind ` set (ar_CandidateOutcomes r)"
  shows "td_Action (AggregateTaskOutcomeWithHistory (Some r) h) = TaskActionFailClosed
    \<and> taskVerdict KindStreamTimeout = TaskActionRetryNow"
proof -
  have v: "taskVerdict KindFirstByteTimeout = TaskActionFailClosed" "taskVerdict KindStreamTimeout = TaskActionRetryNow"
    by (simp_all add: taskVerdict_def taskActionForKind_def terminalActionKind_def)
  obtain co where "co \<in> set (ar_CandidateOutcomes r)" "co_Kind co = KindFirstByteTimeout" using assms(4) by auto
  then have "\<exists>co\<in>set (ar_CandidateOutcomes r). taskVerdict (co_Kind co) = TaskActionFailClosed" using v(1) by (metis)
  then show ?thesis using assms(2,3) v(2)
    by (simp add: AggregateTaskOutcomeWithHistory_def Let_def uncommitted_verdict [OF assms(1)])
qed

theorem first_byte_timeout_fails_closed_witness:
  "td_Action (AggregateTaskOutcomeWithHistory (Some (demoResult CommitStateNone [KindFirstByteTimeout, KindTimeout])) emptyHistory) = TaskActionFailClosed"
  using first_byte_timeout_fails_closed [OF goodHistory_empty, of "demoResult CommitStateNone [KindFirstByteTimeout, KindTimeout]"]
  by (simp add: demoResult_def demoCandidate_def less_eq_commitState_def)

section \<open>The history stays valid\<close>

definition survivalHistory :: "decisionHistory \<Rightarrow> bool" where
  "survivalHistory h \<longleftrightarrow> 0 \<le> dh_LastSeq h \<and> dh_TriedNodes h = [] \<and> \<not> dh_Terminal h \<and> sorted_wrt (<) (map pa_Seq (dh_PriorAttempts h))
     \<and> (\<forall>p\<in>set (dh_PriorAttempts h). 0 < pa_Seq p \<and> pa_Seq p \<le> dh_LastSeq h)"

lemma seqMonotonic_sorted:
  assumes "sorted_wrt (<) (map pa_Seq es)" "\<forall>p\<in>set es. 0 < pa_Seq p \<and> prev < pa_Seq p"
  shows "seqMonotonic prev es"
  using assms by (induction prev es rule: seqMonotonic.induct) auto

lemma survivalHistory_good: "survivalHistory h \<Longrightarrow> goodHistory h"
  by (auto simp: survivalHistory_def goodHistory_def validateDecisionHistory_def intro!: seqMonotonic_sorted)

lemma survivalHistory_empty [simp]: "survivalHistory emptyHistory"
  by (simp add: survivalHistory_def emptyHistory_def)

lemma survivalHistory_entry: "survivalHistory h \<Longrightarrow> survivalHistory (survivalEntry r n d h co)"
  by (auto simp: survivalHistory_def survivalEntry_def Let_def sorted_wrt_append)

lemma survivalHistory_entries: "survivalHistory h \<Longrightarrow> survivalHistory (foldl (survivalEntry r n d) h cs)"
  by (induction cs arbitrary: h) (auto intro: survivalHistory_entry)

lemma survivalHistory_drop: "survivalHistory h \<Longrightarrow> survivalHistory (h\<lparr>dh_PriorAttempts := drop m (dh_PriorAttempts h)\<rparr>)"
  by (auto simp: survivalHistory_def drop_map [symmetric] intro: sorted_wrt_drop dest: in_set_dropD)

lemma survivalHistory_append:
  assumes "survivalHistory h"
  shows "survivalHistory (appendSurvivalHistory h r n d)"
proof (cases r)
  case (Some a)
  then show ?thesis
    using survivalHistory_entries [OF assms, of a n d "ar_CandidateOutcomes a"] survivalHistory_drop
    by (auto simp: appendSurvivalHistory_def Let_def)
qed (simp add: appendSurvivalHistory_def assms)

lemma history_bounded: "r \<noteq> None \<Longrightarrow> length (dh_PriorAttempts (appendSurvivalHistory h r n d)) \<le> 128"
  by (auto simp: appendSurvivalHistory_def Let_def)

lemma fold_nonempty: "foldCandidateOutcomes err failed \<noteq> []"
  by (simp add: foldCandidateOutcomes_def Let_def split: sum.split)

end
