(* ===== verification/Survival.thy ===== *)
theory Survival
  imports TaskOutcome GateReplay RetrySchedule
begin

text \<open>
  The survival coordinator, \<open>domains/streaming/survival_coordinator.go\<close>: the loop that runs one bounded
  attempt after another behind a fresh commit gate, decides with \<open>AggregateTaskOutcomeWithHistory\<close>,
  discards and waits, or ends the request with one terminal frame, and with L2 recovery replays an
  interrupted stream behind an aligned gate.

  What an attempt does to its writer is a list of calls (\<open>attemptOp\<close>); whatever else the loop reads from
  outside, the clock, the context, the executor's error, the body compressor, is in the environment of a
  pass (\<open>passEnv\<close>), one field for each reading. The calls of the \<open>Terminal\<close> seam are the list
  \<open>sv_terminals\<close>; log lines, metrics and the audit capture are left out.
\<close>

section \<open>Options\<close>

record survivalOptions =
  so_Deadline :: duration
  so_RetryBase :: duration
  so_RetryMax :: duration
  so_MaxRetries :: int
  so_KeepaliveInterval :: duration
  so_RetryInterval :: duration
  so_NightMaxRetries :: int
  so_NightStartHour :: int
  so_NightLocation :: "(instant \<Rightarrow> int) option"

text \<open>A location is the function from an instant to the local hour; the default is eight hours ahead.\<close>

definition shanghaiHour :: "instant \<Rightarrow> int" where
  "shanghaiHour t = ((t + 8 * 60 * go_minute) div (60 * go_minute)) mod 24"

text \<open>\<open>withDefaults\<close> in three parts: the pacing, the retry limits, and the night and the keepalive.\<close>

definition so_pacing :: "survivalOptions \<Rightarrow> survivalOptions" where
  "so_pacing opts =
     (let o1 = (if so_Deadline opts \<le> 0 then opts\<lparr>so_Deadline := 4 * go_minute\<rparr> else opts);
          o2 = (if so_RetryBase o1 \<le> 0 then o1\<lparr>so_RetryBase := 30 * go_second, so_RetryInterval := 30 * go_second\<rparr> else o1);
          o3 = (if so_RetryMax o2 \<le> 0 \<or> 2 * go_minute < so_RetryMax o2 then o2\<lparr>so_RetryMax := 2 * go_minute\<rparr> else o2);
          o4 = (if so_RetryMax o3 < so_RetryBase o3 \<and> so_RetryInterval o3 \<le> 0 then o3\<lparr>so_RetryBase := so_RetryMax o3\<rparr> else o3)
      in if so_RetryInterval o4 < 0 then o4\<lparr>so_RetryInterval := 0\<rparr> else o4)"

definition so_limits :: "survivalOptions \<Rightarrow> survivalOptions" where
  "so_limits opts =
     (let o6 = (if so_MaxRetries opts \<le> 0 \<or> MaxUpstreamAttemptLimit - 1 < so_MaxRetries opts
                then opts\<lparr>so_MaxRetries := DefaultUpstreamAttemptLimit\<rparr> else opts)
      in if so_NightMaxRetries o6 \<le> 0 \<or> MaxUpstreamAttemptLimit - 1 < so_NightMaxRetries o6
         then o6\<lparr>so_NightMaxRetries := 600\<rparr> else o6)"

definition so_night :: "survivalOptions \<Rightarrow> survivalOptions" where
  "so_night opts =
     (let o8 = (if so_NightStartHour opts < 0 \<or> 23 < so_NightStartHour opts then opts\<lparr>so_NightStartHour := 20\<rparr> else opts);
          o9 = (if so_NightLocation o8 = None then o8\<lparr>so_NightLocation := Some shanghaiHour\<rparr> else o8)
      in if so_KeepaliveInterval o9 \<le> 0 then o9\<lparr>so_KeepaliveInterval := 15 * go_second\<rparr> else o9)"

definition so_withDefaults :: "survivalOptions \<Rightarrow> survivalOptions" where
  "so_withDefaults opts = so_night (so_limits (so_pacing opts))"

definition retriesFor :: "survivalOptions \<Rightarrow> instant \<Rightarrow> int" where
  "retriesFor opts now =
     (if so_NightMaxRetries opts \<le> 0 then so_MaxRetries opts
      else case so_NightLocation opts of
        None \<Rightarrow> so_MaxRetries opts
      | Some hour \<Rightarrow> if so_NightStartHour opts \<le> hour now then so_NightMaxRetries opts else so_MaxRetries opts)"

definition recoveryWait :: "survivalOptions \<Rightarrow> taskDecision \<Rightarrow> duration \<Rightarrow> real \<Rightarrow> duration" where
  "recoveryWait opts decision backoff r =
     (if 0 < td_NextRetryAfter decision then td_NextRetryAfter decision
      else if 0 < so_RetryInterval opts then so_RetryInterval opts
      else ApplyRetryJitterAlways backoff r)"

datatype ctxErr = CtxCanceled | CtxDeadline | CtxOther

definition survivalCancellationDecision :: "ctxErr \<Rightarrow> taskDecision" where
  "survivalCancellationDecision err =
     decide TaskActionFailClosed (if err = CtxDeadline then ''deadline_exceeded'' else ''client_disconnected'')"

definition deadlineExceededDecision :: taskDecision where
  "deadlineExceededDecision = decide TaskActionFailClosed ''deadline_exceeded''"

definition survivalAttemptHasKind :: "attemptResult option \<Rightarrow> errorKind \<Rightarrow> bool" where
  "survivalAttemptHasKind r kind = (case r of None \<Rightarrow> False | Some r \<Rightarrow> \<exists>co\<in>set (ar_CandidateOutcomes r). co_Kind co = kind)"

definition survivalCompressBodyForRetry :: "(string \<Rightarrow> nat \<Rightarrow> string) \<Rightarrow> string \<Rightarrow> string option" where
  "survivalCompressBodyForRetry compressor body =
     (let trimmed = compressor body (length body div 4)
      in if trimmed = [] \<or> length body \<le> length trimmed then None else Some trimmed)"

section \<open>One attempt\<close>

datatype attemptOp = AWrite "nat \<Rightarrow> gateEnv" string | AFlush gateEnv | ADrain gateEnv | AMark

fun attemptStep :: "jsonDec \<Rightarrow> attemptOp \<Rightarrow> gateWriter \<times> streamWriter \<Rightarrow> gateWriter \<times> streamWriter" where
  "attemptStep dec (AWrite envs p) (gw, w) = snd (gw_Write dec envs p gw w)"
| "attemptStep dec (AFlush env) (gw, w) =
     (case flushHoldbackLocked dec env (gw_gate gw) w of (e, g, w1) \<Rightarrow> (gw\<lparr>gw_gate := g\<rparr>, w1))"
| "attemptStep dec (ADrain env) (gw, w) = snd (gw_DrainPending dec env gw w)"
| "attemptStep dec AMark (gw, w) = (gw\<lparr>gw_gate := MarkTerminalRendered (gw_gate gw)\<rparr>, w)"

definition attemptRun :: "jsonDec \<Rightarrow> attemptOp list \<Rightarrow> gateWriter \<Rightarrow> streamWriter \<Rightarrow> gateWriter \<times> streamWriter" where
  "attemptRun dec ops gw w = foldl (\<lambda>s x. attemptStep dec x s) (gw, w) ops"

text \<open>The result of the executor: no error, or its error with the folded outcomes of the candidates.\<close>

definition ExecuteAttempt :: "(streamErr \<times> candidateOutcome list) option \<Rightarrow> attemptCommitGate \<Rightarrow> attemptResult" where
  "ExecuteAttempt err gate = (case err of
     None \<Rightarrow> \<lparr>ar_Success = True, ar_CandidateOutcomes = [], ar_CommitState = g_state gate, ar_FinalError = None, ar_SafeRetry = False\<rparr>
   | Some (e, cs) \<Rightarrow> \<lparr>ar_Success = False, ar_CandidateOutcomes = cs, ar_CommitState = g_state gate, ar_FinalError = Some e,
       ar_SafeRetry = (\<not> g_committed gate \<and> g_state gate < CommitStateContent)\<rparr>)"

record passEnv =
  pe_ctxTop :: "ctxErr option"
  pe_nowTop :: instant
  pe_ctxLate :: "ctxErr option"
  pe_nowGate :: instant
  pe_parentRemaining :: "duration option"
  pe_ops :: "attemptOp list"
  pe_calls :: nat
  pe_error :: "(streamErr \<times> candidateOutcome list) option"
  pe_parentErr :: "ctxErr option"
  pe_budgetExpired :: bool
  pe_parentPast :: bool
  pe_ctxAfter :: "ctxErr option"
  pe_nowAfter :: instant
  pe_finish :: gateEnv
  pe_commit :: gateEnv
  pe_nowRetry :: instant
  pe_nowWait :: instant
  pe_random :: real
  pe_rescheduled :: bool
  pe_ctxWait :: "ctxErr option"
  pe_beats :: nat
  pe_slept :: "ctxErr option"
  pe_ctxWaited :: "ctxErr option"
  pe_nowWaited :: instant
  pe_nowPlan :: instant

record survivalState =
  sv_wire :: streamWriter
  sv_attempts :: int
  sv_decision :: taskDecision
  sv_final :: "attemptResult option"
  sv_history :: decisionHistory
  sv_backoff :: duration
  sv_budget :: upstreamAttemptBudget
  sv_replay :: "(committedPrefix \<times> nat option) option"
  sv_recoveryNo :: nat
  sv_lastScore :: nat
  sv_l2Used :: bool
  sv_compressed :: bool
  sv_body :: string
  sv_cache :: committedPrefixCache
  sv_terminals :: "(taskDecision \<times> bool) list"
  sv_succeed :: bool
  sv_mark :: nat

text \<open>The coordinator of one request: its seams and what it has read before the loop. \<open>sc_heartbeat\<close> are the
  bytes of a supplied heartbeat, \<open>sc_notice\<close> those of the retry notice; \<open>sv_mark\<close> is the length of the
  wire when the last attempt began.\<close>

record survivalCoordinator =
  sc_dec :: jsonDec
  sc_compressor :: "string \<Rightarrow> nat \<Rightarrow> string"
  sc_Protocol :: clientProtocol
  sc_RequestID :: string
  sc_opts :: survivalOptions
  sc_maxRetries :: int
  sc_deadline :: instant
  sc_holdback :: "duration \<times> int"
  sc_l2mode :: recoveryL2Mode
  sc_l2cfg :: streamRecoveryConfig
  sc_heartbeat :: "string option"
  sc_notice :: "int \<Rightarrow> taskDecision \<Rightarrow> duration \<Rightarrow> string"
  sc_Terminal :: bool

definition defaultKeepalive :: "clientProtocol \<Rightarrow> string" where
  "defaultKeepalive p =
     (if p = ProtocolAnthropic
      then ''event: ping'' @ [NL] @ ''data: {'' @ [CHR 0x22] @ ''type'' @ [CHR 0x22, CHR '':'', CHR 0x22] @ ''ping'' @ [CHR 0x22] @ ''}'' @ [NL, NL]
      else '': gw-survival-keepalive'' @ [NL, NL])"

definition keepalive :: "survivalCoordinator \<Rightarrow> streamWriter \<Rightarrow> gateErr option \<times> streamWriter" where
  "keepalive c w = (case sc_heartbeat c of
     Some f \<Rightarrow> (case WriteTransportFrame f w of (Some e, w1) \<Rightarrow> (Some e, w1) | (None, w1) \<Rightarrow> sw_FlushError w1)
   | None \<Rightarrow> writeFlush (defaultKeepalive (sc_Protocol c)) w)"

fun keepalives :: "survivalCoordinator \<Rightarrow> nat \<Rightarrow> streamWriter \<Rightarrow> gateErr option \<times> streamWriter" where
  "keepalives c 0 w = (None, w)"
| "keepalives c (Suc n) w = (case keepalive c w of (Some e, w1) \<Rightarrow> (Some e, w1) | (None, w1) \<Rightarrow> keepalives c n w1)"

definition waitWithKeepalive :: "survivalCoordinator \<Rightarrow> passEnv \<Rightarrow> streamWriter \<Rightarrow> ctxErr option \<times> streamWriter" where
  "waitWithKeepalive c pe w = (case pe_ctxWait pe of
     Some e \<Rightarrow> (Some e, w)
   | None \<Rightarrow> (case keepalives c (Suc (pe_beats pe)) w of (Some _, w1) \<Rightarrow> (Some CtxOther, w1) | (None, w1) \<Rightarrow> (pe_slept pe, w1)))"

definition notifyRetry :: "survivalCoordinator \<Rightarrow> int \<Rightarrow> taskDecision \<Rightarrow> duration \<Rightarrow> streamWriter \<Rightarrow> streamWriter" where
  "notifyRetry c attempt decision wait w =
     (let f = sc_notice c attempt decision wait in if f = [] then w else snd (WriteTransportFrame f w))"

definition finishGateWriter :: "jsonDec \<Rightarrow> gateEnv \<Rightarrow> gateWriter \<Rightarrow> streamWriter \<Rightarrow> gateErr option \<times> gateWriter \<times> streamWriter" where
  "finishGateWriter dec env gw w = (if g_committed (gw_gate gw) then gw_Finish dec env gw w else (None, gw, w))"

definition renderTerminal :: "survivalCoordinator \<Rightarrow> taskDecision \<Rightarrow> attemptCommitGate option \<Rightarrow> bool \<Rightarrow> survivalState \<Rightarrow> survivalState" where
  "renderTerminal c decision gate clientCommitted s =
     (if \<not> sc_Terminal c then s
      else if (case gate of None \<Rightarrow> False | Some g \<Rightarrow> g_terminalRendered g) then s
      else s\<lparr>sv_terminals := sv_terminals s @ [(decision, clientCommitted \<or> (case gate of None \<Rightarrow> False | Some g \<Rightarrow> g_committed g))]\<rparr>)"

definition gateOptsFor :: "survivalCoordinator \<Rightarrow> survivalState \<Rightarrow> gateOptions" where
  "gateOptsFor c s =
     (let aligner = NewPrefixAligner (rc_AlignmentThresholdBP (sc_l2cfg c));
          base = \<lparr>go_Mode = GateModeBuffered, go_MaxMetadataBufferBytes = 0, go_BeforeSemanticCommit = True, go_FirstSemanticByte = False,
            go_MaxMetadataBufferAge = 0, go_HoldbackWindow = fst (sc_holdback c), go_HoldbackMaxChunks = snd (sc_holdback c),
            go_PrefixObserve = (sc_l2mode c \<noteq> RecoveryL2ModeOff), go_ReplayAlignment = None,
            go_ShadowAlignment = (if sc_l2mode c = RecoveryL2ModeShadow \<and> 0 < sv_attempts s
              then map_option (\<lambda>cp. (cp, Some aligner)) (px_Snapshot (sc_RequestID c) (sv_cache s)) else None)\<rparr>
      in case sv_replay s of
           None \<Rightarrow> base
         | Some r \<Rightarrow> base\<lparr>go_HoldbackWindow := 0, go_HoldbackMaxChunks := 0, go_ReplayAlignment := Some r\<rparr>)"

text \<open>The observations of a gate beyond the first \<open>n\<close> reach the prefix cache.\<close>

definition syncCache :: "survivalCoordinator \<Rightarrow> nat \<Rightarrow> attemptCommitGate \<Rightarrow> committedPrefixCache \<Rightarrow> committedPrefixCache" where
  "syncCache c n g cache = foldl (\<lambda>k obs. px_Observe (sc_RequestID c) obs k) cache (drop n (g_observed g))"

definition consumeCalls :: "nat \<Rightarrow> upstreamAttemptBudget \<Rightarrow> upstreamAttemptBudget" where
  "consumeCalls n b = ((\<lambda>b. snd (budget_Consume b)) ^^ n) b"

section \<open>The branches of a pass\<close>

text \<open>Every branch says whether the loop goes on.\<close>

definition endWith :: "taskDecision \<Rightarrow> survivalState \<Rightarrow> bool \<times> survivalState" where
  "endWith d s = (False, s\<lparr>sv_decision := d\<rparr>)"

definition endRendered :: "survivalCoordinator \<Rightarrow> taskDecision \<Rightarrow> attemptCommitGate option \<Rightarrow> survivalState \<Rightarrow> bool \<times> survivalState" where
  "endRendered c d gate s = (False, renderTerminal c d gate False (s\<lparr>sv_decision := d\<rparr>))"

definition succeedBranch :: "survivalCoordinator \<Rightarrow> passEnv \<Rightarrow> gateWriter \<Rightarrow> survivalState \<Rightarrow> bool \<times> survivalState" where
  "succeedBranch c pe gw s =
     (let lost = decide TaskActionFailClosed ''client_disconnected''
      in case gw_Finish (sc_dec c) (pe_finish pe) gw (sv_wire s) of
           (Some e, gw1, w1) \<Rightarrow> endWith lost (s\<lparr>sv_wire := w1\<rparr>)
         | (None, gw1, w1) \<Rightarrow> (case gate_Commit (sc_dec c) (pe_commit pe) (gw_gate gw1) w1 of
             (Some e, g2, w2) \<Rightarrow> endWith lost (s\<lparr>sv_wire := w2\<rparr>)
           | (None, g2, w2) \<Rightarrow> (False, s\<lparr>sv_wire := w2, sv_succeed := True\<rparr>)))"

definition retryBranch :: "survivalCoordinator \<Rightarrow> passEnv \<Rightarrow> attemptCommitGate \<Rightarrow> survivalState \<Rightarrow> bool \<times> survivalState" where
  "retryBranch c pe g s =
     (if budget_Exhausted (Some (sv_budget s)) then endRendered c (decide TaskActionFailClosed ''attempt_limit_exceeded'') (Some g) s
      else if sc_maxRetries c \<le> sv_attempts s - 1 then endRendered c (decide TaskActionFailClosed ''retry_limit_exceeded'') (Some g) s
      else case Discard g of
        (Some e, g1) \<Rightarrow> endRendered c (decide TaskActionFailClosed ''discard_refused'') (Some g1) s
      | (None, g1) \<Rightarrow>
          if \<not> pe_nowRetry pe < sc_deadline c then endRendered c deadlineExceededDecision (Some g1) s
          else let wait0 = recoveryWait (sc_opts c) (sv_decision s) (sv_backoff s) (pe_random pe);
                   remaining = sc_deadline c - pe_nowWait pe;
                   wait = (if remaining < wait0 then remaining else wait0)
               in if wait \<le> 0 then endRendered c deadlineExceededDecision (Some g1) s
                  else let s1 = s\<lparr>sv_wire := notifyRetry c (sv_attempts s) (sv_decision s) wait (sv_wire s)\<rparr>
                       in if \<not> pe_rescheduled pe then endRendered c (decide TaskActionFailClosed ''durable_reschedule_failed'') (Some g1) s1
                          else case waitWithKeepalive c pe (sv_wire s1) of
                            (Some e, w2) \<Rightarrow> endWith (survivalCancellationDecision e) (s1\<lparr>sv_wire := w2\<rparr>)
                          | (None, w2) \<Rightarrow> (let s2 = s1\<lparr>sv_wire := w2\<rparr> in case pe_ctxWaited pe of
                              Some e \<Rightarrow> endWith (survivalCancellationDecision e) s2
                            | None \<Rightarrow>
                                if \<not> pe_nowWaited pe < sc_deadline c then endRendered c deadlineExceededDecision (Some g1) s2
                                else (True, if so_RetryInterval (sc_opts c) \<le> 0
                                            then s2\<lparr>sv_backoff := min (sv_backoff s2 * 2) (so_RetryMax (sc_opts c))\<rparr> else s2)))"

definition maxL2ReplayCommittedBytes :: nat where "maxL2ReplayCommittedBytes = 8 * 1024 * 1024"

definition l2AlignedReplayPlan :: "survivalCoordinator \<Rightarrow> passEnv \<Rightarrow> survivalState \<Rightarrow> (committedPrefix \<times> nat option) option" where
  "l2AlignedReplayPlan c pe s =
     (case Option.bind (sv_final s) ar_FinalError of
        None \<Rightarrow> None
      | Some err \<Rightarrow>
          if budget_Exhausted (Some (sv_budget s)) \<or> sc_maxRetries c \<le> sv_attempts s - 1 \<or> \<not> pe_nowPlan pe < sc_deadline c then None
          else case px_Snapshot (sc_RequestID c) (sv_cache s) of
            None \<Rightarrow> None
          | Some prefix \<Rightarrow>
              if px_TotalBytes prefix = 0 \<or> maxL2ReplayCommittedBytes < px_TotalBytes prefix then None
              else let state = \<lparr>rs_RecoveryNo = sv_recoveryNo s mod 65536,
                         rs_SameNodeRetries = nat (max 1 (rc_SameNodeStreamRetries (sc_l2cfg c))) mod 256, rs_CommittedChunks = 1,
                         rs_CommittedBytes = px_TotalBytes prefix mod 4294967296, rs_HoldbackChunks = 0, rs_HoldbackDeadlineMS = 0,
                         rs_AlignmentScoreBP = sv_lastScore s,
                         rs_RecoveryMode = (if 0 < sv_recoveryNo s then RecoveryModeAligned else RecoveryModeNone)\<rparr>
                   in if ra_Kind (NextRecoveryAction (Some state) (sc_l2cfg c) (Some err)) = RecoveryActionAlignedContinuation
                      then Some (prefix, Some (NewPrefixAligner (rc_AlignmentThresholdBP (sc_l2cfg c)))) else None)"

definition finishInto :: "survivalCoordinator \<Rightarrow> passEnv \<Rightarrow> gateWriter \<Rightarrow> survivalState \<Rightarrow> gateWriter \<times> survivalState" where
  "finishInto c pe gw s = (case finishGateWriter (sc_dec c) (pe_finish pe) gw (sv_wire s) of
     (_, gw1, w1) \<Rightarrow> (gw1, s\<lparr>sv_wire := w1, sv_cache := syncCache c (length (g_observed (gw_gate gw))) (gw_gate gw1) (sv_cache s)\<rparr>))"

definition stopBranch :: "survivalCoordinator \<Rightarrow> passEnv \<Rightarrow> gateWriter \<Rightarrow> survivalState \<Rightarrow> bool \<times> survivalState" where
  "stopBranch c pe gw s =
     (let blocked = (td_Action (sv_decision s) = TaskActionResumeBlocked);
          miss = (td_Reason (sv_decision s) = ''l2_alignment_miss'');
          plan = (if sc_l2mode c = RecoveryL2ModeEnforce \<and> blocked \<and> \<not> miss then l2AlignedReplayPlan c pe s else None)
      in case finishInto c pe gw s of (gw1, s1) \<Rightarrow> (case plan of
           Some r \<Rightarrow> (True, s1\<lparr>sv_replay := Some r, sv_recoveryNo := sv_recoveryNo s1 + 1\<rparr>)
         | None \<Rightarrow>
             let w = (if blocked then notifyRetry c (sv_attempts s1) (decide TaskActionResumeBlocked ''partial_answer_delivered_stop'') 0 (sv_wire s1)
                      else sv_wire s1)
             in (False, renderTerminal c (sv_decision s1) (Some (gw_gate gw1)) miss (s1\<lparr>sv_wire := w\<rparr>))))"

section \<open>A pass of the loop\<close>

text \<open>The attempt itself, up to the count.\<close>

definition passAttempt :: "survivalCoordinator \<Rightarrow> passEnv \<Rightarrow> survivalState \<Rightarrow> gateWriter \<times> survivalState" where
  "passAttempt c pe s =
     (let gate = NewAttemptCommitGate (sc_Protocol c) (gateOptsFor c s)
      in case attemptRun (sc_dec c) (pe_ops pe) \<lparr>gw_gate = gate, gw_pending = []\<rparr> (sv_wire s) of
           (gw, w) \<Rightarrow> let gw1 = gw\<lparr>gw_gate := (if sc_l2mode c = RecoveryL2ModeShadow then snd (finishShadow (gw_gate gw)) else gw_gate gw)\<rparr>
             in (gw1, s\<lparr>sv_replay := None, sv_wire := w, sv_mark := length (sw_out (sv_wire s)),
                 sv_final := Some (ExecuteAttempt (pe_error pe) (gw_gate gw)), sv_attempts := sv_attempts s + 1,
                 sv_budget := consumeCalls (pe_calls pe) (sv_budget s), sv_cache := syncCache c 0 (gw_gate gw) (sv_cache s)\<rparr>))"

text \<open>The exits between the attempt and its verdict.\<close>

definition passInterrupted :: "survivalCoordinator \<Rightarrow> passEnv \<Rightarrow> attemptCommitGate \<Rightarrow> survivalState \<Rightarrow> (bool \<times> survivalState) option" where
  "passInterrupted c pe g s =
     (let g1 = (if g_state g < CommitStateContent then snd (Discard g) else g);
          parentEarlier = (case pe_parentRemaining pe of None \<Rightarrow> False | Some r \<Rightarrow> r < sc_deadline c - pe_nowGate pe)
      in case pe_parentErr pe of
        Some e \<Rightarrow> Some (endWith (survivalCancellationDecision e) s)
      | None \<Rightarrow>
          if pe_budgetExpired pe
          then Some (if parentEarlier \<or> pe_parentPast pe then endWith (survivalCancellationDecision CtxDeadline) s
                     else endRendered c deadlineExceededDecision (Some g1) s)
          else case pe_ctxAfter pe of
            Some e \<Rightarrow> Some (endWith (survivalCancellationDecision e) s)
          | None \<Rightarrow> if \<not> pe_nowAfter pe < sc_deadline c then Some (endRendered c deadlineExceededDecision (Some g1) s) else None)"

text \<open>The verdict: \<open>None\<close> when the body cannot be compressed and the task ends there.\<close>

definition passVerdict :: "survivalCoordinator \<Rightarrow> bool \<Rightarrow> attemptCommitGate \<Rightarrow> survivalState \<Rightarrow> survivalState option" where
  "passVerdict c replayed g s =
     (let d = AggregateTaskOutcomeWithHistory (sv_final s) (sv_history s);
          due = (\<not> sv_compressed s \<and> sv_body s \<noteq> [] \<and> survivalAttemptHasKind (sv_final s) KindContextLength
                 \<and> (case sv_final s of None \<Rightarrow> True | Some r \<Rightarrow> ar_CommitState r < CommitStateContent)
                 \<and> td_Action d = TaskActionFailTerminal)
      in case (if due then survivalCompressBodyForRetry (sc_compressor c) (sv_body s) else Some (sv_body s)) of
           None \<Rightarrow> None
         | Some body \<Rightarrow>
             let d1 = (if due then decide TaskActionRetryNow ''context_length_uncommitted_compress_retry'' else d);
                 s1 = s\<lparr>sv_compressed := sv_compressed s \<or> due, sv_body := body,
                   sv_history := appendSurvivalHistory (sv_history s) (sv_final s) (sv_attempts s) d1, sv_decision := d1\<rparr>
             in Some (if replayed
                      then case AlignmentOutcome g of (decided, al) \<Rightarrow>
                        (let s2 = s1\<lparr>sv_lastScore := al_ScoreBP al\<rparr>
                         in if decided \<and> al_Aligned al then s2\<lparr>sv_l2Used := True\<rparr>
                            else s2\<lparr>sv_decision := decide TaskActionResumeBlocked ''l2_alignment_miss''\<rparr>)
                      else s1))"

definition survivalPass :: "survivalCoordinator \<Rightarrow> passEnv \<Rightarrow> survivalState \<Rightarrow> bool \<times> survivalState" where
  "survivalPass c pe s = (case pe_ctxTop pe of
     Some e \<Rightarrow> endWith (survivalCancellationDecision e) s
   | None \<Rightarrow>
       if \<not> pe_nowTop pe < sc_deadline c
       then (case pe_ctxLate pe of
               Some e \<Rightarrow> endWith (survivalCancellationDecision e) s
             | None \<Rightarrow> endRendered c deadlineExceededDecision None s)
       else if (case pe_parentRemaining pe of None \<Rightarrow> False | Some r \<Rightarrow> r \<le> 0)
       then endWith (survivalCancellationDecision CtxDeadline) (s\<lparr>sv_replay := None\<rparr>)
       else if sc_deadline c - pe_nowGate pe \<le> 0 then endRendered c deadlineExceededDecision None (s\<lparr>sv_replay := None\<rparr>)
       else case passAttempt c pe s of
         (gw, s1) \<Rightarrow> (case passInterrupted c pe (gw_gate gw) s1 of
           Some r \<Rightarrow> r
         | None \<Rightarrow> (case passVerdict c (sv_replay s \<noteq> None) (gw_gate gw) s1 of
             None \<Rightarrow> endRendered c (decide TaskActionFailTerminal ''context_length_compress_retry_failed'') (Some (gw_gate gw))
                       (s1\<lparr>sv_compressed := True\<rparr>)
           | Some s2 \<Rightarrow> (case td_Action (sv_decision s2) of
               TaskActionSucceed \<Rightarrow> succeedBranch c pe gw s2
             | TaskActionRetryNow \<Rightarrow> retryBranch c pe (gw_gate gw) s2
             | TaskActionWaitRecovery \<Rightarrow> retryBranch c pe (gw_gate gw) s2
             | _ \<Rightarrow> stopBranch c pe gw s2))))"

section \<open>The loop\<close>

lemma renderTerminal_simps [simp]:
  "sv_attempts (renderTerminal c d g b s) = sv_attempts s" "sv_wire (renderTerminal c d g b s) = sv_wire s"
  "sv_mark (renderTerminal c d g b s) = sv_mark s" "sv_succeed (renderTerminal c d g b s) = sv_succeed s"
  "sv_budget (renderTerminal c d g b s) = sv_budget s" "sv_history (renderTerminal c d g b s) = sv_history s"
  by (simp_all add: renderTerminal_def)

lemma endings [simp]: "fst (endWith d s) = False" "fst (endRendered c d g s) = False"
  by (simp_all add: endWith_def endRendered_def)

lemma finishInto_fields:
  assumes "finishInto c pe gw s = (gw1, s1)"
  shows "sv_attempts s1 = sv_attempts s" "sv_decision s1 = sv_decision s" "sv_mark s1 = sv_mark s" "sv_succeed s1 = sv_succeed s"
    "sv_budget s1 = sv_budget s" "sv_history s1 = sv_history s" "sv_terminals s1 = sv_terminals s"
  using assms by (auto simp: finishInto_def split: prod.splits)

lemma passAttempt_fields:
  assumes "passAttempt c pe s = (gw, s1)"
  shows "sv_attempts s1 = sv_attempts s + 1" "sv_mark s1 = length (sw_out (sv_wire s))" "sv_succeed s1 = sv_succeed s"
    "sv_history s1 = sv_history s" "sv_terminals s1 = sv_terminals s" "sv_budget s1 = consumeCalls (pe_calls pe) (sv_budget s)"
  using assms by (auto simp: passAttempt_def Let_def split: prod.splits)

lemma passVerdict_fields:
  assumes "passVerdict c b g s = Some s1"
  shows "sv_attempts s1 = sv_attempts s" "sv_wire s1 = sv_wire s" "sv_mark s1 = sv_mark s" "sv_succeed s1 = sv_succeed s"
    "sv_budget s1 = sv_budget s" "sv_terminals s1 = sv_terminals s" "sv_final s1 = sv_final s" "sv_replay s1 = sv_replay s"
proof -
  define d where "d = AggregateTaskOutcomeWithHistory (sv_final s) (sv_history s)"
  define due where "due = (\<not> sv_compressed s \<and> sv_body s \<noteq> [] \<and> survivalAttemptHasKind (sv_final s) KindContextLength
     \<and> (case sv_final s of None \<Rightarrow> True | Some r \<Rightarrow> ar_CommitState r < CommitStateContent) \<and> td_Action d = TaskActionFailTerminal)"
  note v = assms [unfolded passVerdict_def Let_def, folded d_def, folded due_def]
  obtain body where b: "(if due then survivalCompressBodyForRetry (sc_compressor c) (sv_body s) else Some (sv_body s)) = Some body"
    using v by (cases "if due then survivalCompressBodyForRetry (sc_compressor c) (sv_body s) else Some (sv_body s)") simp_all
  show "sv_attempts s1 = sv_attempts s" "sv_wire s1 = sv_wire s" "sv_mark s1 = sv_mark s" "sv_succeed s1 = sv_succeed s"
    "sv_budget s1 = sv_budget s" "sv_terminals s1 = sv_terminals s" "sv_final s1 = sv_final s" "sv_replay s1 = sv_replay s"
    using v [unfolded b option.case option.inject, symmetric] by (simp_all add: case_prod_beta)
qed

lemma retryBranch_continue:
  assumes "retryBranch c pe g s = (True, s')"
  shows "sv_attempts s' = sv_attempts s" "sv_attempts s \<le> sc_maxRetries c" "fst (Discard g) = None"
  using assms by (auto simp: retryBranch_def Let_def endRendered_def endWith_def split: if_splits option.splits prod.splits)

lemma plan_bounded: "l2AlignedReplayPlan c pe s = Some r \<Longrightarrow> sv_attempts s \<le> sc_maxRetries c"
  by (auto simp: l2AlignedReplayPlan_def split: option.splits if_splits)

lemma stopBranch_continue:
  assumes "stopBranch c pe gw s = (True, s')"
  shows "sv_attempts s' = sv_attempts s" "sv_attempts s \<le> sc_maxRetries c" "sc_l2mode c = RecoveryL2ModeEnforce"
proof -
  obtain gw1 s1 where f: "finishInto c pe gw s = (gw1, s1)" by (metis surj_pair)
  have "sc_l2mode c = RecoveryL2ModeEnforce \<and> (\<exists>r. l2AlignedReplayPlan c pe s = Some r) \<and> sv_attempts s' = sv_attempts s1"
    using assms f by (auto simp: stopBranch_def Let_def split: option.splits if_splits)
  then show "sv_attempts s' = sv_attempts s" "sv_attempts s \<le> sc_maxRetries c" "sc_l2mode c = RecoveryL2ModeEnforce"
    using plan_bounded finishInto_fields(1) [OF f] by auto
qed

text \<open>How a pass goes on: the attempt was not interrupted, and it was discarded or is to be replayed.\<close>

lemma survivalPass_continue:
  assumes "survivalPass c pe s = (True, s')"
  obtains gw s1 s2 where "passAttempt c pe s = (gw, s1)" "passVerdict c (sv_replay s \<noteq> None) (gw_gate gw) s1 = Some s2"
    "retryBranch c pe (gw_gate gw) s2 = (True, s') \<or> stopBranch c pe gw s2 = (True, s')"
proof -
  obtain gw s1 where a: "passAttempt c pe s = (gw, s1)" by (metis surj_pair)
  have e: "endWith d x \<noteq> (True, s')" "endRendered c d g x \<noteq> (True, s')" for d g x by (auto simp: endWith_def endRendered_def)
  have i: "passInterrupted c pe (gw_gate gw) s1 = None"
  proof (rule ccontr)
    assume "passInterrupted c pe (gw_gate gw) s1 \<noteq> None"
    then obtain r where r: "passInterrupted c pe (gw_gate gw) s1 = Some r" by blast
    then have "\<not> fst r" by (auto simp: passInterrupted_def Let_def split: option.splits if_splits)
    then show False using assms r a e by (auto simp: survivalPass_def split: option.splits if_splits)
  qed
  then obtain s2 where v: "passVerdict c (sv_replay s \<noteq> None) (gw_gate gw) s1 = Some s2"
    using assms a e by (auto simp: survivalPass_def split: option.splits if_splits)
  have "succeedBranch c pe gw s2 \<noteq> (True, s')"
    using e by (auto simp: succeedBranch_def Let_def split: option.splits prod.splits)
  then have "retryBranch c pe (gw_gate gw) s2 = (True, s') \<or> stopBranch c pe gw s2 = (True, s')"
    using assms a i v e by (auto simp: survivalPass_def split: option.splits if_splits taskAction.splits)
  then show thesis using that a v by blast
qed

lemma survivalPass_counts:
  assumes "survivalPass c pe s = (True, s')"
  shows "sv_attempts s' = sv_attempts s + 1 \<and> sv_attempts s' \<le> sc_maxRetries c"
  using assms
proof (cases rule: survivalPass_continue)
  case (1 gw s1 s2)
  then show ?thesis
    using passAttempt_fields(1) [OF 1(1)] passVerdict_fields(1) [OF 1(2)] retryBranch_continue stopBranch_continue by metis
qed

function survivalLoop :: "survivalCoordinator \<Rightarrow> (int \<Rightarrow> passEnv) \<Rightarrow> survivalState \<Rightarrow> survivalState" where
  "survivalLoop c envs s = (case survivalPass c (envs (sv_attempts s)) s of
     (True, s1) \<Rightarrow> survivalLoop c envs s1
   | (False, s1) \<Rightarrow> s1)"
  by pat_completeness auto
termination
  by (relation "measure (\<lambda>(c, envs, s). nat (sc_maxRetries c + 1 - sv_attempts s))")
    (auto dest!: survivalPass_counts [OF sym] split: prod.splits)

declare survivalLoop.simps [simp del]

text \<open>\<open>Run\<close> itself: the options, the deadline with the override of the settings, the retry limit of the hour, the
  budget unless the caller has one, the holdback of the model and the L2 mode of the environment, then the
  loop; on the way out the prefix of the request is forgotten. The context is examined before anything
  else.\<close>

record survivalParams =
  sp_Model :: string
  sp_RequestID :: string
  sp_Body :: string
  sp_Budget :: "upstreamAttemptBudget option"

definition survivalSetup :: "survivalCoordinator \<Rightarrow> environment \<Rightarrow> duration \<Rightarrow> survivalOptions \<Rightarrow> instant \<Rightarrow> survivalParams \<Rightarrow> survivalCoordinator" where
  "survivalSetup c env override opts0 startedAt params =
     (let opts1 = so_withDefaults opts0; opts = (if 0 < override then opts1\<lparr>so_Deadline := override\<rparr> else opts1)
      in c\<lparr>sc_RequestID := sp_RequestID params, sc_opts := opts, sc_maxRetries := retriesFor opts startedAt,
           sc_deadline := startedAt + so_Deadline opts, sc_holdback := RecoveryHoldbackForModel env (sp_Model params),
           sc_l2mode := RecoveryL2ModeFromEnv env, sc_l2cfg := DefaultStreamRecoveryConfig\<rparr>)"

definition survivalStart :: "survivalCoordinator \<Rightarrow> survivalParams \<Rightarrow> committedPrefixCache \<Rightarrow> streamWriter \<Rightarrow> survivalState" where
  "survivalStart c params cache w =
     \<lparr>sv_wire = w, sv_attempts = 0, sv_decision = decide TaskActionSucceed [], sv_final = None, sv_history = emptyHistory,
      sv_backoff = so_RetryBase (sc_opts c),
      sv_budget = (case sp_Budget params of None \<Rightarrow> NewUpstreamAttemptBudget (sc_maxRetries c + 1) | Some b \<Rightarrow> b), sv_replay = None,
      sv_recoveryNo = 0, sv_lastScore = 0, sv_l2Used = False, sv_compressed = False, sv_body = sp_Body params, sv_cache = cache,
      sv_terminals = [], sv_succeed = False, sv_mark = length (sw_out w)\<rparr>"

definition survivalRun :: "survivalCoordinator \<Rightarrow> environment \<Rightarrow> duration \<Rightarrow> survivalOptions \<Rightarrow> instant \<Rightarrow> survivalParams \<Rightarrow>
    committedPrefixCache \<Rightarrow> ctxErr option \<Rightarrow> (int \<Rightarrow> passEnv) \<Rightarrow> streamWriter \<Rightarrow> survivalState" where
  "survivalRun c0 env override opts0 startedAt params cache ctx envs w =
     (let c = survivalSetup c0 env override opts0 startedAt params; s0 = survivalStart c params cache w
      in case ctx of
           Some e \<Rightarrow> s0\<lparr>sv_decision := survivalCancellationDecision e\<rparr>
         | None \<Rightarrow> let s = survivalLoop c envs s0
             in if sc_l2mode c \<noteq> RecoveryL2ModeOff then s\<lparr>sv_cache := px_Remove (sc_RequestID c) (sv_cache s)\<rparr> else s)"

section \<open>What an attempt puts on the wire\<close>

definition keepaliveOnly :: "survivalCoordinator \<Rightarrow> string \<Rightarrow> string \<Rightarrow> bool" where
  "keepaliveOnly c a b \<longleftrightarrow> (\<exists>ks. b = a @ concat ks \<and> (\<forall>k\<in>set ks. ClassifyClientFrame (sc_dec c) (sc_Protocol c) k = FrameClassKeepalive))"

lemma keepaliveOnly_refl [simp]: "keepaliveOnly c a a"
  unfolding keepaliveOnly_def by (rule exI [of _ "[]"]) simp

lemma keepaliveOnly_trans: "keepaliveOnly c a b \<Longrightarrow> keepaliveOnly c b d \<Longrightarrow> keepaliveOnly c a d"
  unfolding keepaliveOnly_def
proof (elim exE conjE)
  fix ks ks' assume "b = a @ concat ks" "d = b @ concat ks'"
    "\<forall>k\<in>set ks. ClassifyClientFrame (sc_dec c) (sc_Protocol c) k = FrameClassKeepalive"
    "\<forall>k\<in>set ks'. ClassifyClientFrame (sc_dec c) (sc_Protocol c) k = FrameClassKeepalive"
  then show "\<exists>ks. d = a @ concat ks \<and> (\<forall>k\<in>set ks. ClassifyClientFrame (sc_dec c) (sc_Protocol c) k = FrameClassKeepalive)"
    by (intro exI [of _ "ks @ ks'"]) auto
qed

lemma keepaliveOnly_frame:
  "ClassifyClientFrame (sc_dec c) (sc_Protocol c) f = FrameClassKeepalive \<Longrightarrow> keepaliveOnly c a (a @ f)"
  unfolding keepaliveOnly_def by (rule exI [of _ "[f]"]) simp

text \<open>Between the calls of an attempt behind a buffered gate that started on the wire \<open>w0\<close>.\<close>

definition attemptInv :: "survivalCoordinator \<Rightarrow> streamWriter \<Rightarrow> gateWriter \<Rightarrow> streamWriter \<Rightarrow> bool" where
  "attemptInv c w0 gw w \<longleftrightarrow> gateInv (gw_gate gw) w \<and> g_mode (gw_gate gw) = GateModeBuffered \<and> g_protocol (gw_gate gw) = sc_Protocol c
     \<and> extends w0 w \<and> (\<not> g_committed (gw_gate gw) \<longrightarrow> keepaliveOnly c (sw_out w0) (sw_out w))"

lemma attemptInv_frame:
  assumes "WriteFrame (sc_dec c) env frame (gw_gate gw) w = (e, g', w')" "attemptInv c w0 gw w" "gw_gate gw' = g'"
  shows "attemptInv c w0 gw' w'"
proof -
  have inv: "gateInv (gw_gate gw) w" using assms(2) by (simp add: attemptInv_def)
  obtain ks where ks: "gateInv g' w'" "silent ks (gw_gate gw) w g' w'"
    "\<forall>k\<in>set ks. k = frame \<and> e = None \<and> ClassifyClientFrame (sc_dec c) (g_protocol (gw_gate gw)) k = FrameClassKeepalive"
    using WriteFrame_step [OF assms(1) inv] by blast
  have x: "extends w0 w'" using extends_trans [OF _ WriteFrame_extends [OF assms(1) inv]] assms(2) by (simp add: attemptInv_def)
  have "keepaliveOnly c (sw_out w0) (sw_out w')" if "\<not> g_committed g'"
  proof -
    have "keepaliveOnly c (sw_out w0) (sw_out w)" "sw_out w' = sw_out w @ concat ks"
      using that ks(2) assms(2) by (auto simp: silent_def attemptInv_def)
    moreover have "keepaliveOnly c (sw_out w) (sw_out w @ concat ks)"
      using ks(3) assms(2) unfolding keepaliveOnly_def attemptInv_def by (intro exI [of _ ks]) auto
    ultimately show ?thesis using keepaliveOnly_trans by simp
  qed
  then show ?thesis using ks(1,2) x assms(2,3) by (auto simp: attemptInv_def silent_def)
qed

lemma attemptInv_gate: "attemptInv c w0 gw w \<Longrightarrow> gw_gate gw' = gw_gate gw \<Longrightarrow> attemptInv c w0 gw' w"
  by (simp add: attemptInv_def)

text \<open>The coordinator's view of the gate is kept by every frame, and so by every write.\<close>

interpretation attempt: frame_sink "sc_dec c" "\<lambda>_ g w. attemptInv c w0 \<lparr>gw_gate = g, gw_pending = []\<rparr> w" for c w0
proof
  fix env f g w e g' w' and bs :: string
  assume "WriteFrame (sc_dec c) env f g w = (e, g', w')" "attemptInv c w0 \<lparr>gw_gate = g, gw_pending = []\<rparr> w"
  then show "attemptInv c w0 \<lparr>gw_gate = g', gw_pending = []\<rparr> w'"
    using attemptInv_frame [of c env f "\<lparr>gw_gate = g, gw_pending = []\<rparr>"] by simp
qed

lemma attemptInv_write:
  assumes "attemptInv c w0 gw w" "gw_Write (sc_dec c) envs p gw w = (e, gw', w')"
  shows "attemptInv c w0 gw' w'"
proof -
  have "attemptInv c w0 \<lparr>gw_gate = gw_gate gw', gw_pending = []\<rparr> w'"
    using attempt.write_kept [OF assms(2)] attemptInv_gate [OF assms(1)] by simp
  then show ?thesis by (rule attemptInv_gate) simp
qed

lemma attemptInv_flush:
  assumes "attemptInv c w0 gw w" "flushHoldbackLocked (sc_dec c) env (gw_gate gw) w = (e, g, w1)"
  shows "attemptInv c w0 (gw\<lparr>gw_gate := g\<rparr>) w1"
proof -
  have "soundStep [] (gw_gate gw) w g w1" using Flush_step [OF assms(2)] assms(1) by (simp add: attemptInv_def)
  then have s: "gateInv g w1" "silent [] (gw_gate gw) w g w1" "extends w w1" by (simp_all add: soundStep_def)
  then show ?thesis using assms(1) extends_trans by (auto simp: attemptInv_def silent_def)
qed

lemma attemptInv_step:
  assumes "attemptInv c w0 gw w"
  shows "attemptInv c w0 (fst (attemptStep (sc_dec c) x (gw, w))) (snd (attemptStep (sc_dec c) x (gw, w)))"
proof (cases x)
  case (AWrite envs p)
  obtain e gw1 w1 where "gw_Write (sc_dec c) envs p gw w = (e, gw1, w1)" by (metis prod_cases3)
  then show ?thesis using attemptInv_write [OF assms] AWrite by simp
next
  case (AFlush env)
  obtain e g1 w1 where "flushHoldbackLocked (sc_dec c) env (gw_gate gw) w = (e, g1, w1)" by (metis prod_cases3)
  then show ?thesis using attemptInv_flush [OF assms] AFlush by simp
next
  case (ADrain env)
  obtain e g1 w1 where wf: "WriteFrame (sc_dec c) env ((if last (gw_pending gw) = NL then gw_pending gw else gw_pending gw @ [NL]) @ [NL])
      (gw_gate gw) w = (e, g1, w1)" by (metis prod_cases3)
  have "attemptInv c w0 (gw\<lparr>gw_gate := g1, gw_pending := []\<rparr>) w1" by (rule attemptInv_frame [OF wf assms]) simp
  then show ?thesis
    using ADrain assms wf attemptInv_gate [OF assms, of "gw\<lparr>gw_pending := []\<rparr>"] by (simp add: gw_DrainPending_def Let_def del: append_assoc)
next
  case AMark
  then show ?thesis using assms by (simp add: attemptInv_def MarkTerminalRendered_def gateInv_def)
qed

lemma attemptInv_run:
  assumes "attemptInv c w0 gw w" "attemptRun (sc_dec c) ops gw w = (gw', w')"
  shows "attemptInv c w0 gw' w'"
  using assms
proof (induction ops arbitrary: gw w)
  case (Cons x xs)
  obtain gw1 w1 where s: "attemptStep (sc_dec c) x (gw, w) = (gw1, w1)" by (metis surj_pair)
  have "attemptInv c w0 gw1 w1" using attemptInv_step [OF Cons.prems(1), of x] s by simp
  then show ?case using Cons.IH Cons.prems(2) s by (simp add: attemptRun_def)
qed (simp add: attemptRun_def)

lemma finishShadow_fields [simp]:
  "g_mode (snd (finishShadow g)) = g_mode g" "g_protocol (snd (finishShadow g)) = g_protocol g" "g_committed (snd (finishShadow g)) = g_committed g"
  "g_discarded (snd (finishShadow g)) = g_discarded g" "g_align (snd (finishShadow g)) = g_align g" "g_buffer (snd (finishShadow g)) = g_buffer g"
  "g_bufferLen (snd (finishShadow g)) = g_bufferLen g" "g_maxMetadata (snd (finishShadow g)) = g_maxMetadata g"
  "g_state (snd (finishShadow g)) = g_state g"
  by (simp_all add: finishShadow_def Let_def split: option.splits)

lemma gateOptsFor_plain: "sv_replay s = None \<Longrightarrow> go_ReplayAlignment (gateOptsFor c s) = None \<and> go_Mode (gateOptsFor c s) = GateModeBuffered"
  by (simp add: gateOptsFor_def Let_def)

lemma passAttempt_inv:
  assumes "passAttempt c pe s = (gw, s1)" "sv_replay s = None" "healthy (sv_wire s)"
  shows "attemptInv c (sv_wire s) gw (sv_wire s1) \<and> sv_replay s1 = None"
proof -
  let ?g = "NewAttemptCommitGate (sc_Protocol c) (gateOptsFor c s)"
  let ?gw0 = "\<lparr>gw_gate = ?g, gw_pending = []\<rparr>"
  have "gateInv ?g (sv_wire s)" using gateInv_new gateOptsFor_plain [OF assms(2)] assms(3) by blast
  then have i: "attemptInv c (sv_wire s) ?gw0 (sv_wire s)"
    using gateOptsFor_plain [OF assms(2), of c] by (simp add: attemptInv_def NewAttemptCommitGate_def)
  obtain gw1 w1 where r: "attemptRun (sc_dec c) (pe_ops pe) ?gw0 (sv_wire s) = (gw1, w1)" by (metis surj_pair)
  have "attemptInv c (sv_wire s) gw1 w1" by (rule attemptInv_run [OF i r])
  then have "attemptInv c (sv_wire s) (gw1\<lparr>gw_gate := snd (finishShadow (gw_gate gw1))\<rparr>) w1" "attemptInv c (sv_wire s) (gw1\<lparr>gw_gate := gw_gate gw1\<rparr>) w1"
    by (simp_all add: attemptInv_def gateInv_def)
  then show ?thesis using assms(1) r by (auto simp: passAttempt_def Let_def)
qed

section \<open>What a pass puts on the wire\<close>

text \<open>The frames that the seams send while no attempt runs are transport frames.\<close>

definition transportSeams :: "survivalCoordinator \<Rightarrow> bool" where
  "transportSeams c \<longleftrightarrow> (\<forall>f. sc_heartbeat c = Some f \<longrightarrow> ClassifyClientFrame (sc_dec c) (sc_Protocol c) f = FrameClassKeepalive)
     \<and> (\<forall>n d t. sc_notice c n d t \<noteq> [] \<longrightarrow> ClassifyClientFrame (sc_dec c) (sc_Protocol c) (sc_notice c n d t) = FrameClassKeepalive)"

lemma defaultKeepalive_class: "ClassifyClientFrame dec p (defaultKeepalive p) = FrameClassKeepalive"
proof -
  have a: "classifyCommonSSEFrame ('': gw-survival-keepalive'' @ [NL, NL]) = Some FrameClassKeepalive" by code_simp
  have b: "classifyCommonSSEFrame (defaultKeepalive ProtocolAnthropic) = None" "sseEventName (defaultKeepalive ProtocolAnthropic) = Some ''ping''"
    by code_simp+
  show ?thesis
  proof (cases p)
    case ProtocolAnthropic
    then show ?thesis using b by (simp add: classifyAnthropicFrame_def)
  qed (use a in \<open>simp_all add: defaultKeepalive_def classifyChatFrame_def classifyResponsesFrame_def\<close>)
qed

lemma healthy_Transport [simp]: "healthy w \<Longrightarrow> WriteTransportFrame f w = (None, w\<lparr>sw_out := sw_out w @ f\<rparr>)"
  by (simp add: WriteTransportFrame_def sw_write_def sw_next_def healthy_def Let_def)

lemma healthy_out [simp]: "healthy (w\<lparr>sw_out := x\<rparr>) = healthy w"
  by (simp add: healthy_def)

lemma keepalives_wire:
  assumes "transportSeams c" "healthy w" "keepalives c n w = (e, w')"
  shows "e = None \<and> healthy w' \<and> keepaliveOnly c (sw_out w) (sw_out w')"
  using assms(2,3)
proof (induction n arbitrary: w)
  case (Suc n)
  obtain w1 where k: "keepalive c w = (None, w1)" "healthy w1" "keepaliveOnly c (sw_out w) (sw_out w1)"
  proof (cases "sc_heartbeat c")
    case None
    then have "keepalive c w = (None, sw_put (defaultKeepalive (sc_Protocol c)) w)" using Suc.prems(1) by (simp add: keepalive_def)
    then show thesis using that Suc.prems(1) by (simp add: keepaliveOnly_frame [OF defaultKeepalive_class])
  next
    case (Some f)
    then have "keepalive c w = (None, w\<lparr>sw_out := sw_out w @ f\<rparr>)" using Suc.prems(1) by (simp add: keepalive_def)
    moreover have "ClassifyClientFrame (sc_dec c) (sc_Protocol c) f = FrameClassKeepalive" using assms(1) Some by (simp add: transportSeams_def)
    ultimately show thesis using that Suc.prems(1) by (simp add: keepaliveOnly_frame)
  qed
  then have "e = None \<and> healthy w' \<and> keepaliveOnly c (sw_out w1) (sw_out w')" using Suc.IH [OF k(2)] Suc.prems(2) by simp
  then show ?case using keepaliveOnly_trans [OF k(3)] by blast
qed simp

lemma notify_wire:
  assumes "transportSeams c" "healthy w"
  shows "healthy (notifyRetry c n d t w) \<and> keepaliveOnly c (sw_out w) (sw_out (notifyRetry c n d t w))"
  using assms by (auto simp: notifyRetry_def Let_def transportSeams_def intro: keepaliveOnly_frame)

lemma waitWithKeepalive_wire:
  assumes "transportSeams c" "healthy w" "waitWithKeepalive c pe w = (e, w')"
  shows "healthy w' \<and> keepaliveOnly c (sw_out w) (sw_out w')"
proof (cases "pe_ctxWait pe")
  case None
  obtain e1 w1 where k: "keepalives c (Suc (pe_beats pe)) w = (e1, w1)" by (metis surj_pair)
  note kw = keepalives_wire [OF assms(1,2) k]
  then have "w' = w1" using assms(3) None k by (simp add: waitWithKeepalive_def del: keepalives.simps)
  then show ?thesis using kw by simp
qed (use assms in \<open>simp add: waitWithKeepalive_def\<close>)

lemma keepaliveOnly_extends: "keepaliveOnly c (sw_out w) (sw_out w') \<Longrightarrow> extends w w'"
  by (auto simp: keepaliveOnly_def extends_def)

text \<open>Waiting for the next attempt.\<close>

lemma retryBranch_wire:
  assumes "transportSeams c" "healthy (sv_wire s)" "retryBranch c pe g s = (b, s')"
  shows "healthy (sv_wire s') \<and> keepaliveOnly c (sw_out (sv_wire s)) (sw_out (sv_wire s')) \<and> sv_mark s' = sv_mark s \<and> sv_replay s' = sv_replay s"
proof -
  let ?w1 = "\<lambda>t. notifyRetry c (sv_attempts s) (sv_decision s) t (sv_wire s)"
  have n: "healthy (?w1 t) \<and> keepaliveOnly c (sw_out (sv_wire s)) (sw_out (?w1 t))" for t by (rule notify_wire [OF assms(1,2)])
  have wk: "healthy w2 \<and> keepaliveOnly c (sw_out (sv_wire s)) (sw_out w2)" if "waitWithKeepalive c pe (?w1 t) = (e, w2)" for t e w2
    using waitWithKeepalive_wire [OF assms(1) _ that] n [of t] keepaliveOnly_trans by blast
  have same: "sv_wire (renderTerminal c d gt x y) = sv_wire y \<and> sv_mark (renderTerminal c d gt x y) = sv_mark y \<and>
      sv_replay (renderTerminal c d gt x y) = sv_replay y" for d gt x y by (simp add: renderTerminal_def)
  show ?thesis
    using assms(2,3)
    by (auto simp: retryBranch_def Let_def endRendered_def endWith_def same n dest!: wk split: if_splits option.splits prod.splits)
qed

text \<open>Ending the task.\<close>

lemma gw_Finish_step:
  assumes "gw_Finish dec env gw w = (e, gw', w')" "gateInv (gw_gate gw) w"
  shows "soundStep (if e = None then gw_pending gw else []) (gw_gate gw) w (gw_gate gw') w' \<and> gw_pending gw' = []"
  using assms FinishAttempt_step [of dec env "gw_pending gw" "gw_gate gw" w e "gw_gate gw'" w'] by (auto simp: gw_Finish_def split: prod.splits)

lemma succeedBranch_wire:
  assumes "succeedBranch c pe gw s = (b, s')" "gateInv (gw_gate gw) (sv_wire s)"
  shows "extends (sv_wire s) (sv_wire s') \<and> sv_mark s' = sv_mark s"
proof -
  obtain e gw1 w1 where f: "gw_Finish (sc_dec c) (pe_finish pe) gw (sv_wire s) = (e, gw1, w1)" by (metis prod_cases3)
  have 1: "gateInv (gw_gate gw1) w1" "extends (sv_wire s) w1" using gw_Finish_step [OF f assms(2)] by (simp_all add: soundStep_def)
  obtain e2 g2 w2 where g: "gate_Commit (sc_dec c) (pe_commit pe) (gw_gate gw1) w1 = (e2, g2, w2)" by (metis prod_cases3)
  have 2: "extends (sv_wire s) w2" using extends_trans [OF 1(2)] Commit_step [OF g 1(1)] by (simp add: soundStep_def)
  show ?thesis using assms(1) f g 1(2) 2 by (auto simp: succeedBranch_def Let_def endWith_def split: option.splits)
qed

lemma finishInto_wire:
  assumes "finishInto c pe gw s = (gw1, s1)" "gateInv (gw_gate gw) (sv_wire s)"
  shows "extends (sv_wire s) (sv_wire s1) \<and> healthy (sv_wire s1)"
proof -
  obtain e g2 w2 where f: "finishGateWriter (sc_dec c) (pe_finish pe) gw (sv_wire s) = (e, g2, w2)" by (metis prod_cases3)
  have "extends (sv_wire s) w2 \<and> healthy w2"
  proof (cases "g_committed (gw_gate gw)")
    case True
    then have "gw_Finish (sc_dec c) (pe_finish pe) gw (sv_wire s) = (e, g2, w2)" using f by (simp add: finishGateWriter_def)
    then show ?thesis using gw_Finish_step [OF _ assms(2)] by (auto simp: soundStep_def gateInv_def)
  next
    case False
    then show ?thesis using f assms(2) by (simp add: finishGateWriter_def gateInv_def)
  qed
  then show ?thesis using assms(1) f by (auto simp: finishInto_def)
qed

lemma stopBranch_wire:
  assumes "stopBranch c pe gw s = (b, s')" "gateInv (gw_gate gw) (sv_wire s)" "transportSeams c"
  shows "extends (sv_wire s) (sv_wire s') \<and> sv_mark s' = sv_mark s"
proof -
  obtain gw1 s1 where f: "finishInto c pe gw s = (gw1, s1)" by (metis surj_pair)
  note fw = finishInto_wire [OF f assms(2)]
  have n: "extends (sv_wire s) (notifyRetry c m d t (sv_wire s1))" for m d t
    using notify_wire [OF assms(3), of "sv_wire s1"] fw keepaliveOnly_extends extends_trans by blast
  show ?thesis using assms(1) f fw n finishInto_fields(3) [OF f]
    by (auto simp: stopBranch_def Let_def split: option.splits if_splits)
qed

lemma passInterrupted_wire:
  assumes "passInterrupted c pe g s = Some r"
  shows "sv_wire (snd r) = sv_wire s \<and> sv_mark (snd r) = sv_mark s"
  using assms by (auto simp: passInterrupted_def Let_def endWith_def endRendered_def split: option.splits if_splits)

lemma survivalPass_wire:
  assumes "survivalPass c pe s = (b, s')" "sv_replay s = None" "healthy (sv_wire s)" "transportSeams c" "sc_l2mode c \<noteq> RecoveryL2ModeEnforce"
  shows "(b \<longrightarrow> healthy (sv_wire s') \<and> keepaliveOnly c (sw_out (sv_wire s)) (sw_out (sv_wire s')) \<and> sv_replay s' = None)
    \<and> extends (sv_wire s) (sv_wire s') \<and> (sv_wire s' = sv_wire s \<or> sv_mark s' = length (sw_out (sv_wire s)))"
proof -
  obtain gw s1 where a: "passAttempt c pe s = (gw, s1)" by (metis surj_pair)
  have i: "attemptInv c (sv_wire s) gw (sv_wire s1)" "sv_replay s1 = None" using passAttempt_inv [OF a assms(2,3)] by auto
  have gi: "gateInv (gw_gate gw) (sv_wire s1)" "extends (sv_wire s) (sv_wire s1)" "healthy (sv_wire s1)" using i(1) by (auto simp: attemptInv_def gateInv_def)
  have m1: "sv_mark s1 = length (sw_out (sv_wire s))" by (rule passAttempt_fields(2) [OF a])
  have step: "extends (sv_wire s) (sv_wire s') \<and> sv_mark s' = length (sw_out (sv_wire s))"
    if "extends (sv_wire s1) (sv_wire s')" "sv_mark s' = sv_mark s1"
    using that extends_trans [OF gi(2)] m1 by simp
  show ?thesis
  proof (cases b)
    case True
    then have "survivalPass c pe s = (True, s')" using assms(1) by simp
    then show ?thesis
    proof (cases rule: survivalPass_continue)
      case (1 gw' s1' s2)
      then have e: "gw' = gw" "s1' = s1" using a by simp_all
      have v: "sv_wire s2 = sv_wire s1" "sv_mark s2 = sv_mark s1" using passVerdict_fields [OF 1(2)] e by simp_all
      have vr: "sv_replay s2 = None"
        using passVerdict_fields(8) [OF 1(2)] e i(2) by simp
      have rb: "retryBranch c pe (gw_gate gw) s2 = (True, s')" using 1(3) e stopBranch_continue(3) assms(5) by blast
      have "\<not> g_committed (gw_gate gw)" using retryBranch_continue(3) [OF rb] by (auto simp: Discard_def split: if_splits)
      then have k: "keepaliveOnly c (sw_out (sv_wire s)) (sw_out (sv_wire s1))" using i(1) by (simp add: attemptInv_def)
      have "healthy (sv_wire s2)" using v gi(3) by simp
      note rw = retryBranch_wire [OF assms(4) this rb]
      have "keepaliveOnly c (sw_out (sv_wire s)) (sw_out (sv_wire s'))" using rw v(1) keepaliveOnly_trans [OF k] by simp
      then show ?thesis using rw vr True v(2) m1 keepaliveOnly_extends by auto
    qed
  next
    case False
    let ?none = "sv_wire s' = sv_wire s"
    let ?good = "extends (sv_wire s1) (sv_wire s') \<and> sv_mark s' = sv_mark s1"
    have "?none \<or> ?good"
    proof (cases "passInterrupted c pe (gw_gate gw) s1")
      case (Some r)
      then show ?thesis using assms(1) a passInterrupted_wire [OF Some]
        by (auto simp: survivalPass_def endWith_def endRendered_def split: option.splits if_splits)
    next
      case None
      show ?thesis
      proof (cases "passVerdict c (sv_replay s \<noteq> None) (gw_gate gw) s1")
        case None
        then show ?thesis using assms(1) a \<open>passInterrupted _ _ _ _ = None\<close>
          by (auto simp: survivalPass_def endWith_def endRendered_def split: option.splits if_splits)
      next
        case (Some s2)
        note v = passVerdict_fields [OF Some]
        have h2: "healthy (sv_wire s2)" "gateInv (gw_gate gw) (sv_wire s2)" using v(2) gi by simp_all
        have "?none \<or> succeedBranch c pe gw s2 = (b, s') \<or> retryBranch c pe (gw_gate gw) s2 = (b, s') \<or> stopBranch c pe gw s2 = (b, s')"
          using assms(1) a \<open>passInterrupted _ _ _ _ = None\<close> Some
          by (auto simp: survivalPass_def endWith_def endRendered_def split: option.splits if_splits taskAction.splits)
        then show ?thesis
          using v(2,3) succeedBranch_wire [OF _ h2(2), of c pe b s'] stopBranch_wire [OF _ h2(2) assms(4), of pe b s']
            retryBranch_wire [OF assms(4) h2(1), of pe "gw_gate gw" b s'] keepaliveOnly_extends by auto
      qed
    qed
    then show ?thesis using step False by auto
  qed
qed

lemma loop_visible:
  assumes "sc_l2mode c \<noteq> RecoveryL2ModeEnforce" "transportSeams c" "healthy (sv_wire s)" "sv_replay s = None"
  shows "\<exists>pre fin. sw_out (sv_wire (survivalLoop c envs s)) = pre @ fin \<and> keepaliveOnly c (sw_out (sv_wire s)) pre
    \<and> (fin = [] \<or> length pre = sv_mark (survivalLoop c envs s))"
  using assms
proof (induction c envs s rule: survivalLoop.induct)
  case (1 c envs s)
  obtain b s1 where p: "survivalPass c (envs (sv_attempts s)) s = (b, s1)" by (metis surj_pair)
  note w = survivalPass_wire [OF p 1(5,4,3,2)]
  show ?case
  proof (cases b)
    case True
    have l: "survivalLoop c envs s = survivalLoop c envs s1" using p True by (simp add: survivalLoop.simps [of c envs s])
    have k: "healthy (sv_wire s1)" "keepaliveOnly c (sw_out (sv_wire s)) (sw_out (sv_wire s1))" "sv_replay s1 = None" using w True by auto
    have "\<exists>pre fin. sw_out (sv_wire (survivalLoop c envs s1)) = pre @ fin \<and> keepaliveOnly c (sw_out (sv_wire s1)) pre
      \<and> (fin = [] \<or> length pre = sv_mark (survivalLoop c envs s1))"
      using 1(1) [OF p [symmetric] eqTrueI [OF True] 1(2,3) k(1,3)] by simp
    then show ?thesis using l keepaliveOnly_trans [OF k(2)] by metis
  next
    case False
    then have l: "survivalLoop c envs s = s1" using p by (simp add: survivalLoop.simps [of c envs s])
    obtain x where x: "sw_out (sv_wire s1) = sw_out (sv_wire s) @ x" using w by (auto simp: extends_def)
    then show ?thesis using l w
      by (intro exI [of _ "sw_out (sv_wire s)"] exI [of _ x]) auto
  qed
qed

lemma setup_seams [simp]:
  "sc_dec (survivalSetup c env ov opts t params) = sc_dec c" "sc_Protocol (survivalSetup c env ov opts t params) = sc_Protocol c"
  "transportSeams (survivalSetup c env ov opts t params) = transportSeams c"
  "keepaliveOnly (survivalSetup c env ov opts t params) a b = keepaliveOnly c a b"
  "sc_l2mode (survivalSetup c env ov opts t params) = RecoveryL2ModeFromEnv env"
  by (simp_all add: survivalSetup_def Let_def transportSeams_def keepaliveOnly_def)

lemma run_wire:
  "sv_wire (survivalRun c env ov opts t params cache ctx envs w) = (case ctx of Some e \<Rightarrow> w
     | None \<Rightarrow> sv_wire (survivalLoop (survivalSetup c env ov opts t params) envs (survivalStart (survivalSetup c env ov opts t params) params cache w)))"
  "sv_mark (survivalRun c env ov opts t params cache ctx envs w) = (case ctx of Some e \<Rightarrow> length (sw_out w)
     | None \<Rightarrow> sv_mark (survivalLoop (survivalSetup c env ov opts t params) envs (survivalStart (survivalSetup c env ov opts t params) params cache w)))"
  by (simp_all add: survivalRun_def Let_def survivalStart_def split: option.split)

definition demoCoord :: survivalCoordinator where
  "demoCoord = \<lparr>sc_dec = demoDec, sc_compressor = (\<lambda>b n. []), sc_Protocol = ProtocolOpenAIChat, sc_RequestID = ''r'',
     sc_opts = \<lparr>so_Deadline = 100, so_RetryBase = 1, so_RetryMax = 1, so_MaxRetries = 3, so_KeepaliveInterval = 1, so_RetryInterval = 1,
       so_NightMaxRetries = 3, so_NightStartHour = 20, so_NightLocation = None\<rparr>,
     sc_maxRetries = 3, sc_deadline = 100, sc_holdback = (500, 4), sc_l2mode = RecoveryL2ModeOff, sc_l2cfg = DefaultStreamRecoveryConfig,
     sc_heartbeat = None, sc_notice = (\<lambda>n d t. []), sc_Terminal = True\<rparr>"

definition demoPass :: passEnv where
  "demoPass = \<lparr>pe_ctxTop = None, pe_nowTop = 0, pe_ctxLate = None, pe_nowGate = 0, pe_parentRemaining = None,
     pe_ops = [AWrite (\<lambda>i. calm) (dataFrame ''hi'')], pe_calls = 1, pe_error = None, pe_parentErr = None,
     pe_budgetExpired = False, pe_parentPast = False, pe_ctxAfter = None, pe_nowAfter = 0, pe_finish = calm, pe_commit = calm,
     pe_nowRetry = 0, pe_nowWait = 0, pe_random = 0, pe_rescheduled = True, pe_ctxWait = None, pe_beats = 0, pe_slept = None,
     pe_ctxWaited = None, pe_nowWaited = 0, pe_nowPlan = 0\<rparr>"

definition demoParams :: survivalParams where
  "demoParams = \<lparr>sp_Model = ''m'', sp_RequestID = ''r'', sp_Body = [], sp_Budget = None\<rparr>"

definition demoStart :: survivalState where
  "demoStart = survivalStart demoCoord demoParams (NewCommittedPrefixCache 1 1) (NewSerializedStreamWriter [] FlushPlain)"

text \<open>C1.
  Without L2 replays, at most one attempt of a request is ever seen by the client. However many attempts the
  coordinator runs, with any executor behaviour, any race of \<open>Discard\<close>, any clock and any cancellation, the
  client's stream is what it was, then transport frames and nothing else, then the output of the last
  attempt alone: every attempt before it was discarded without a trace.
\<close>

theorem one_attempt_visible:
  assumes "RecoveryL2ModeFromEnv env \<noteq> RecoveryL2ModeEnforce" "transportSeams c" "healthy w"
  shows "\<exists>pre fin. sw_out (sv_wire (survivalRun c env ov opts t params cache ctx envs w)) = pre @ fin \<and> keepaliveOnly c (sw_out w) pre
    \<and> (fin = [] \<or> length pre = sv_mark (survivalRun c env ov opts t params cache ctx envs w))"
proof (cases ctx)
  case None
  let ?c = "survivalSetup c env ov opts t params"
  have "sv_wire (survivalStart ?c params cache w) = w" "sv_replay (survivalStart ?c params cache w) = None" by (simp_all add: survivalStart_def)
  then show ?thesis using loop_visible [of ?c "survivalStart ?c params cache w" envs] assms None by (simp add: run_wire)
next
  case (Some e)
  then show ?thesis by (intro exI [of _ "sw_out w"] exI [of _ "[]"]) (simp add: run_wire)
qed

theorem one_attempt_visible_witness:
  "\<exists>pre fin. sw_out (sv_wire (survivalRun demoCoord (\<lambda>k. None) 0 (sc_opts demoCoord) 0 demoParams (NewCommittedPrefixCache 1 1) None
       (\<lambda>n. demoPass) (NewSerializedStreamWriter [] FlushPlain))) = pre @ fin \<and> keepaliveOnly demoCoord [] pre"
proof -
  have "RecoveryL2ModeFromEnv (\<lambda>k. None) \<noteq> RecoveryL2ModeEnforce" by code_simp
  moreover have "transportSeams demoCoord" by (simp add: transportSeams_def demoCoord_def)
  ultimately show ?thesis
    using one_attempt_visible [of "\<lambda>k. None" demoCoord "NewSerializedStreamWriter [] FlushPlain" 0 "sc_opts demoCoord" 0 demoParams
        "NewCommittedPrefixCache 1 1" None "\<lambda>n. demoPass"] by auto
qed

section \<open>Bounds and the terminal frame\<close>

definition oneTerminal :: "survivalState \<Rightarrow> survivalState \<Rightarrow> bool" where
  "oneTerminal s s' \<longleftrightarrow> (\<exists>t. sv_terminals s' = sv_terminals s @ t \<and> length t \<le> 1)"

lemma render_one: "sv_terminals x = sv_terminals s \<Longrightarrow> oneTerminal s (renderTerminal c d g b x)"
  by (simp add: oneTerminal_def renderTerminal_def)

lemma oneTerminal_same: "sv_terminals s' = sv_terminals s \<Longrightarrow> oneTerminal s s'"
  by (simp add: oneTerminal_def)

lemma endings_one: "sv_terminals x = sv_terminals s \<Longrightarrow> oneTerminal s (snd (endWith d x))"
  "sv_terminals x = sv_terminals s \<Longrightarrow> oneTerminal s (snd (endRendered c d g x))"
  by (simp_all add: endWith_def endRendered_def render_one oneTerminal_same)

lemma retryBranch_result:
  assumes "retryBranch c pe g s = (b, s')"
  shows "oneTerminal s s' \<and> (b \<longrightarrow> sv_terminals s' = sv_terminals s) \<and> sv_attempts s' = sv_attempts s \<and> sv_succeed s' = sv_succeed s"
proof -
  have same: "oneTerminal s (x\<lparr>sv_wire := w, sv_backoff := bo\<rparr>)" "oneTerminal s (x\<lparr>sv_wire := w, sv_decision := d\<rparr>)"
      "oneTerminal s (x\<lparr>sv_wire := w\<rparr>)" if "sv_terminals x = sv_terminals s" for x w d bo
    using that by (simp_all add: oneTerminal_def)
  show ?thesis
    using assms
    by (auto simp: retryBranch_def Let_def endRendered_def endWith_def same render_one split: if_splits option.splits prod.splits)
qed

lemmas retryBranch_one = retryBranch_result [OF prod.collapse [symmetric]]

lemma stopBranch_one:
  "oneTerminal s (snd (stopBranch c pe gw s)) \<and> (fst (stopBranch c pe gw s) \<longrightarrow> sv_terminals (snd (stopBranch c pe gw s)) = sv_terminals s)
   \<and> sv_attempts (snd (stopBranch c pe gw s)) = sv_attempts s"
proof -
  obtain gw1 s1 where f: "finishInto c pe gw s = (gw1, s1)" by (metis surj_pair)
  show ?thesis using finishInto_fields(1,7) [OF f]
    by (auto simp: stopBranch_def Let_def f oneTerminal_same render_one split: option.split)
qed

lemma succeedBranch_one: "oneTerminal s (snd (succeedBranch c pe gw s)) \<and> sv_attempts (snd (succeedBranch c pe gw s)) = sv_attempts s"
  by (auto simp: succeedBranch_def Let_def endWith_def oneTerminal_same split: option.split prod.split)

lemma survivalPass_one:
  "oneTerminal s (snd (survivalPass c pe s)) \<and> (fst (survivalPass c pe s) \<longrightarrow> sv_terminals (snd (survivalPass c pe s)) = sv_terminals s)
   \<and> sv_attempts (snd (survivalPass c pe s)) \<le> sv_attempts s + 1"
proof -
  obtain gw s1 where a: "passAttempt c pe s = (gw, s1)" by (metis surj_pair)
  note af = passAttempt_fields(1,5) [OF a]
  have i: "oneTerminal s (snd r) \<and> \<not> fst r \<and> sv_attempts (snd r) = sv_attempts s1" if "passInterrupted c pe (gw_gate gw) s1 = Some r" for r
    using that af(2) by (auto simp: passInterrupted_def Let_def endWith_def endRendered_def oneTerminal_same render_one
        split: option.splits if_splits)
  show ?thesis
  proof (cases "passInterrupted c pe (gw_gate gw) s1")
    case (Some r)
    then show ?thesis using i [OF Some] a af
      by (auto simp: survivalPass_def endings_one endWith_def endRendered_def render_one oneTerminal_same split: option.split)
  next
    case None
    show ?thesis
    proof (cases "passVerdict c (sv_replay s \<noteq> None) (gw_gate gw) s1")
      case None
      then show ?thesis using \<open>passInterrupted _ _ _ _ = None\<close> a af
        by (auto simp: survivalPass_def endWith_def endRendered_def render_one oneTerminal_same split: option.split)
    next
      case (Some s2)
      note v = passVerdict_fields(1,6) [OF Some]
      have o: "oneTerminal s2 x \<Longrightarrow> oneTerminal s x" for x using v(2) af(2) by (simp add: oneTerminal_def)
      show ?thesis using \<open>passInterrupted _ _ _ _ = None\<close> Some a af v
          retryBranch_one [of s2 c pe "gw_gate gw"] stopBranch_one [of s2 c pe gw] succeedBranch_one [of s2 c pe gw] o
          succeedBranch_def [of c pe gw s2]
        by (auto simp: survivalPass_def endWith_def endRendered_def render_one oneTerminal_same Let_def
            split: option.split taskAction.split prod.split)
    qed
  qed
qed

lemma loop_bounded:
  assumes "sv_attempts s = 0" "0 \<le> sc_maxRetries c"
  shows "sv_attempts (survivalLoop c envs s) \<le> sc_maxRetries c + 1 \<and> oneTerminal s (survivalLoop c envs s)"
proof -
  have "sv_attempts s \<le> sc_maxRetries c \<Longrightarrow> sv_attempts (survivalLoop c envs s) \<le> sc_maxRetries c + 1 \<and> oneTerminal s (survivalLoop c envs s)" for s
  proof (induction c envs s rule: survivalLoop.induct)
    case (1 c envs s)
    obtain b s1 where p: "survivalPass c (envs (sv_attempts s)) s = (b, s1)" by (metis surj_pair)
    note o = survivalPass_one [of s c "envs (sv_attempts s)", unfolded p, simplified]
    show ?case
    proof (cases b)
      case True
      then have l: "survivalLoop c envs s = survivalLoop c envs s1" using p by (simp add: survivalLoop.simps [of c envs s])
      have "sv_attempts s1 \<le> sc_maxRetries c" using survivalPass_counts [of c "envs (sv_attempts s)" s s1] p True by simp
      then show ?thesis using 1(1) [OF p [symmetric] eqTrueI [OF True]] l o True by (simp add: oneTerminal_def)
    next
      case False
      then have "survivalLoop c envs s = s1" using p by (simp add: survivalLoop.simps [of c envs s])
      then show ?thesis using o 1(2) by simp
    qed
  qed
  then show ?thesis using assms by simp
qed

lemma retries_bounded: "0 \<le> retriesFor (so_withDefaults opts) t \<and> retriesFor (so_withDefaults opts) t \<le> 600"
proof -
  have "0 < so_MaxRetries (so_withDefaults opts) \<and> so_MaxRetries (so_withDefaults opts) \<le> 600"
    "0 < so_NightMaxRetries (so_withDefaults opts) \<and> so_NightMaxRetries (so_withDefaults opts) \<le> 600"
    by (simp_all add: so_withDefaults_def so_night_def so_limits_def Let_def DefaultUpstreamAttemptLimit_def MaxUpstreamAttemptLimit_def)
  then show ?thesis by (auto simp: retriesFor_def split: option.split)
qed

text \<open>C2.
  The coordinator always comes to an end: for every configuration, executor, clock and environment \<open>Run\<close>
  returns after at most 601 attempts, L2 replays included, and hands the client at most one terminal
  frame.
\<close>

theorem survival_terminates:
  "sv_attempts (survivalRun c env ov opts t params cache ctx envs w) \<le> 601
   \<and> length (sv_terminals (survivalRun c env ov opts t params cache ctx envs w)) \<le> 1"
proof (cases ctx)
  case None
  let ?c = "survivalSetup c env ov opts t params"
  let ?s = "survivalStart ?c params cache w"
  have o: "so_MaxRetries (x\<lparr>so_Deadline := d\<rparr>) = so_MaxRetries x" "retriesFor (x\<lparr>so_Deadline := d\<rparr>) t = retriesFor x t" for x d
    by (simp_all add: retriesFor_def split: option.split)
  have m: "0 \<le> sc_maxRetries ?c" "sc_maxRetries ?c \<le> 600" using retries_bounded [of opts t] by (simp_all add: survivalSetup_def Let_def o)
  have "sv_attempts (survivalLoop ?c envs ?s) \<le> sc_maxRetries ?c + 1 \<and> oneTerminal ?s (survivalLoop ?c envs ?s)"
    by (rule loop_bounded) (simp_all add: survivalStart_def m)
  then have "sv_attempts (survivalLoop ?c envs ?s) \<le> 601" "length (sv_terminals (survivalLoop ?c envs ?s)) \<le> 1"
    using m by (auto simp: oneTerminal_def survivalStart_def)
  then show ?thesis using None by (simp add: survivalRun_def Let_def)
next
  case (Some e)
  then show ?thesis by (simp add: survivalRun_def survivalStart_def Let_def)
qed

section \<open>Success\<close>

text \<open>The bytes an attempt hands over, all of its writes being accepted: those it wrote, but the drain that
  every bridge defers closes an unterminated last frame with line feeds, or takes it back when it has no
  payload or is not well-formed; before the attempt is committed the drain leaves it alone.\<close>

definition drainedBytes :: "jsonDec \<Rightarrow> gateWriter \<Rightarrow> string \<Rightarrow> string" where
  "drainedBytes dec gw acc =
     (let p = gw_pending gw
      in if p = [] \<or> \<not> (g_committed (gw_gate gw) \<or> g_mode (gw_gate gw) = GateModeImmediate) then acc
         else if extractPayload p = [] \<or> \<not> validateSSEDataFrame dec p then take (length acc - length p) acc
         else acc @ (if last p = NL then [NL] else [NL, NL]))"

fun acceptedBytes :: "jsonDec \<Rightarrow> attemptOp list \<Rightarrow> string \<Rightarrow> gateWriter \<Rightarrow> streamWriter \<Rightarrow> string option" where
  "acceptedBytes dec [] acc gw w = Some acc"
| "acceptedBytes dec (x # xs) acc gw w = (case attemptStep dec x (gw, w) of (gw1, w1) \<Rightarrow>
     (case x of
        AWrite envs p \<Rightarrow> if fst (gw_Write dec envs p gw w) \<noteq> None then None else acceptedBytes dec xs (acc @ p) gw1 w1
      | ADrain env \<Rightarrow> if fst (gw_DrainPending dec env gw w) \<noteq> None then None else acceptedBytes dec xs (drainedBytes dec gw acc) gw1 w1
      | _ \<Rightarrow> acceptedBytes dec xs acc gw1 w1))"

lemma gw_loop_pending: "gw_loop dec envs k gw w = (e, gw', w') \<Longrightarrow> length (gw_pending gw') \<le> length (gw_pending gw)"
proof (induction "length (gw_pending gw)" arbitrary: k gw w rule: less_induct)
  case (less gw k w)
  show ?case
  proof (cases "frameBoundary (gw_pending gw)")
    case None
    then show ?thesis using less.prems by (simp add: gw_loop.simps [of dec envs k gw])
  next
    case (Some n)
    obtain e1 g1 w1 where wf: "WriteFrame dec (envs k) (take n (gw_pending gw)) (gw_gate gw) w = (e1, g1, w1)" by (metis prod_cases3)
    let ?gw = "gw\<lparr>gw_gate := g1, gw_pending := drop n (gw_pending gw)\<rparr>"
    have "length (gw_pending ?gw) < length (gw_pending gw)" using frameBoundary_bounds [OF Some] by auto
    then show ?thesis using less.prems less.hyps [of ?gw "Suc k" w1] Some wf
      by (cases e1) (auto simp: gw_loop.simps [of dec envs k gw])
  qed
qed

lemma gw_Write_pending: "gw_Write dec envs p gw w = (e, gw', w') \<Longrightarrow> length (gw_pending gw') \<le> length (gw_pending gw) + length p"
  using gw_loop_pending [of dec envs 0 "gw\<lparr>gw_pending := gw_pending gw @ p\<rparr>"] by (simp add: gw_Write_def)

text \<open>Between the calls: what was accepted is on the wire, in the buffer and in the pending bytes.\<close>

definition heldBytes :: "string \<Rightarrow> string \<Rightarrow> gateWriter \<Rightarrow> streamWriter \<Rightarrow> bool" where
  "heldBytes b0 acc gw w \<longleftrightarrow> heldAll (b0 @ acc) gw w \<and> length (gw_pending gw) \<le> length acc"

lemma drain_heldBytes:
  assumes "gw_DrainPending dec env gw w = (None, gw1, w1)" "heldBytes b0 acc gw w"
  shows "heldBytes b0 (drainedBytes dec gw acc) gw1 w1"
proof -
  let ?p = "gw_pending gw" and ?g = "gw_gate gw"
  let ?nls = "if last ?p = NL then [NL] else [NL, NL]"
  have inv: "gateInv ?g w" and held: "\<not> g_discarded ?g \<longrightarrow> sw_out w @ g_buffer ?g @ ?p = b0 @ acc" and le: "length ?p \<le> length acc"
    using assms(2) by (auto simp: heldBytes_def heldAll_def)
  consider (idle) "?p = [] \<or> \<not> (g_committed ?g \<or> g_mode ?g = GateModeImmediate)"
    | (dropped) "\<not> (?p = [] \<or> \<not> (g_committed ?g \<or> g_mode ?g = GateModeImmediate))" "extractPayload ?p = [] \<or> \<not> validateSSEDataFrame dec ?p"
    | (closed) "\<not> (?p = [] \<or> \<not> (g_committed ?g \<or> g_mode ?g = GateModeImmediate))" "\<not> (extractPayload ?p = [] \<or> \<not> validateSSEDataFrame dec ?p)"
    by blast
  then show ?thesis
  proof cases
    case idle
    then show ?thesis using assms by (auto simp: gw_DrainPending_def drainedBytes_def Let_def)
  next
    case dropped
    have "sw_out w @ g_buffer ?g = b0 @ take (length acc - length ?p) acc" if "\<not> g_discarded ?g"
    proof -
      have "(sw_out w @ g_buffer ?g) @ ?p = (b0 @ take (length acc - length ?p) acc) @ drop (length acc - length ?p) acc" using held that by simp
      then show ?thesis using le by (subst (asm) append_eq_append_conv) auto
    qed
    then show ?thesis using dropped assms(1) inv
      by (auto simp: gw_DrainPending_def drainedBytes_def Let_def heldBytes_def heldAll_def)
  next
    case closed
    obtain e g2 w2 where wf: "WriteFrame dec env ((if last ?p = NL then ?p else ?p @ [NL]) @ [NL]) ?g w = (e, g2, w2)" by (metis prod_cases3)
    have r: "e = None" "gw1 = gw\<lparr>gw_gate := g2, gw_pending := []\<rparr>" "w1 = w2"
      using assms(1) closed wf by (auto simp: gw_DrainPending_def Let_def)
    have fr: "(if last ?p = NL then ?p else ?p @ [NL]) @ [NL] = ?p @ ?nls" by simp
    have "gateInv g2 w2" "conserves (?p @ ?nls) ?g w g2 w2"
      using WriteFrame_step [OF wf inv] r(1) unfolding fr by auto
    then show ?thesis using closed held r
      by (auto simp: drainedBytes_def Let_def heldBytes_def heldAll_def conserves_def)
  qed
qed

lemma acceptedBytes_heldBytes:
  assumes "acceptedBytes dec ops acc gw w = Some bs" "heldBytes b0 acc gw w" "attemptRun dec ops gw w = (gw', w')"
  shows "heldBytes b0 bs gw' w'"
  using assms
proof (induction ops arbitrary: acc gw w)
  case (Cons x xs)
  obtain gw1 w1 where s: "attemptStep dec x (gw, w) = (gw1, w1)" by (metis surj_pair)
  have run: "attemptRun dec xs gw1 w1 = (gw', w')" using Cons.prems(3) s by (simp add: attemptRun_def)
  have "\<exists>acc1. acceptedBytes dec xs acc1 gw1 w1 = Some bs \<and> heldBytes b0 acc1 gw1 w1"
  proof (cases x)
    case (AWrite envs p)
    then obtain e where g: "gw_Write dec envs p gw w = (e, gw1, w1)" using s by (metis attemptStep.simps(1) prod.collapse)
    then have "e = None" "acceptedBytes dec xs (acc @ p) gw1 w1 = Some bs" using Cons.prems(1) s AWrite by (auto split: if_splits)
    then show ?thesis using gw_Write_heldAll [of dec envs p gw w gw1 w1 "b0 @ acc"] gw_Write_pending [OF g] g Cons.prems(2)
      by (intro exI [of _ "acc @ p"]) (auto simp: heldBytes_def)
  next
    case (AFlush env)
    obtain e g1 where f: "flushHoldbackLocked dec env (gw_gate gw) w = (e, g1, w1)" "gw1 = gw\<lparr>gw_gate := g1\<rparr>"
      using s AFlush by (auto split: prod.splits)
    have "gateInv (gw_gate gw) w" using Cons.prems(2) by (simp add: heldBytes_def heldAll_def)
    from Flush_step [OF f(1) this] have "heldBytes b0 acc gw1 w1" using Cons.prems(2) f(2)
      by (auto simp: soundStep_def conserves_def heldBytes_def heldAll_def) (metis append_assoc)
    then show ?thesis using Cons.prems(1) s AFlush by auto
  next
    case (ADrain env)
    then obtain e where g: "gw_DrainPending dec env gw w = (e, gw1, w1)" using s by (metis attemptStep.simps(3) prod.collapse)
    then have "e = None" "acceptedBytes dec xs (drainedBytes dec gw acc) gw1 w1 = Some bs" using Cons.prems(1) s ADrain by (auto split: if_splits)
    then show ?thesis using drain_heldBytes [OF _ Cons.prems(2)] g by blast
  next
    case AMark
    then have "heldBytes b0 acc gw1 w1" using Cons.prems(2) s
      by (auto simp: heldBytes_def heldAll_def MarkTerminalRendered_def gateInv_def)
    then show ?thesis using Cons.prems(1) s AMark by auto
  qed
  then show ?case using Cons.IH run by blast
qed (simp add: attemptRun_def)

lemma Commit_ok:
  assumes "gate_Commit dec env g w = (None, g', w')" "healthy w"
  shows "\<not> g_discarded g' \<and> g_committed g'"
proof -
  obtain y where y: "commitFlush dec y w = (None, g', w')" "\<not> g_discarded y"
    using assms(1) by (auto simp: gate_Commit_def Let_def split: if_splits)
  show ?thesis using sameBuffer_fields [OF commitFlush_effect(4) [OF y(1) assms(2)]] y(2) by simp
qed

lemma survivalPass_succeeds:
  assumes "survivalPass c pe s = (b, s')" "sv_succeed s'" "\<not> sv_succeed s"
  obtains gw s1 s2 where "passAttempt c pe s = (gw, s1)" "passVerdict c (sv_replay s \<noteq> None) (gw_gate gw) s1 = Some s2"
    "succeedBranch c pe gw s2 = (b, s')"
proof -
  obtain gw s1 where a: "passAttempt c pe s = (gw, s1)" by (metis surj_pair)
  have e: "\<not> sv_succeed x \<Longrightarrow> endWith d x \<noteq> (b, s')" "\<not> sv_succeed x \<Longrightarrow> endRendered c d g x \<noteq> (b, s')" for d g x
    using assms(2) by (auto simp: endWith_def endRendered_def)
  have n1: "\<not> sv_succeed s1" using passAttempt_fields(3) [OF a] assms(3) by simp
  have i: "passInterrupted c pe (gw_gate gw) s1 \<noteq> Some (b, s')"
    using n1 e by (auto simp: passInterrupted_def Let_def split: option.splits)
  have i2: "passInterrupted c pe (gw_gate gw) s1 = None"
    using assms(1,3) i a e by (auto simp: survivalPass_def split: option.splits if_splits)
  obtain s2 where v: "passVerdict c (sv_replay s \<noteq> None) (gw_gate gw) s1 = Some s2"
    using assms(1,3) i2 a e n1 by (auto simp: survivalPass_def split: option.splits if_splits)
  have n2: "\<not> sv_succeed s2" using passVerdict_fields(4) [OF v] n1 by simp
  have rb: "retryBranch c pe (gw_gate gw) s2 \<noteq> (b, s')"
    using n2 assms(2) retryBranch_result [of c pe "gw_gate gw" s2 b s'] by auto
  have sb: "stopBranch c pe gw s2 \<noteq> (b, s')"
  proof
    assume st: "stopBranch c pe gw s2 = (b, s')"
    obtain gw1 s3 where f: "finishInto c pe gw s2 = (gw1, s3)" by (metis surj_pair)
    then show False using st n2 assms(2) finishInto_fields(4) [OF f]
      by (auto simp: stopBranch_def Let_def split: option.splits if_splits)
  qed
  have "succeedBranch c pe gw s2 = (b, s')"
    using assms(1,3) a i2 v rb sb e by (auto simp: survivalPass_def split: option.splits if_splits taskAction.splits)
  then show thesis using that a v by blast
qed

text \<open>C12.
  Success means delivery: when a pass without an armed replay ends with success over a connection that takes
  every write, and the gate accepted all writes and drains of its attempt, the client's connection has received
  exactly the bytes the attempt handed over, in order and to the last byte, behind what was there before,
  whether they were held back, buffered as metadata or left without a final blank line. Those bytes are the ones
  written, except that a drain closes an unterminated last frame with line feeds or takes a malformed one back.
\<close>

theorem success_delivers:
  assumes "survivalPass c pe s = (b, s')" "sv_succeed s'" "\<not> sv_succeed s" "sv_replay s = None" "healthy (sv_wire s)"
    "acceptedBytes (sc_dec c) (pe_ops pe) [] \<lparr>gw_gate = NewAttemptCommitGate (sc_Protocol c) (gateOptsFor c s), gw_pending = []\<rparr> (sv_wire s) = Some bs"
  shows "sw_out (sv_wire s') = sw_out (sv_wire s) @ bs"
  using assms(1-3)
proof (cases rule: survivalPass_succeeds)
  case (1 gw s1 s2)
  let ?g = "NewAttemptCommitGate (sc_Protocol c) (gateOptsFor c s)"
  let ?gw0 = "\<lparr>gw_gate = ?g, gw_pending = []\<rparr>"
  have h0: "heldAll (sw_out (sv_wire s)) ?gw0 (sv_wire s)"
    using gateInv_new [of "gateOptsFor c s" "sv_wire s" "sc_Protocol c"] gateOptsFor_plain [OF assms(4), of c] assms(5)
    by (simp add: heldAll_def) (simp add: NewAttemptCommitGate_def)
  obtain gw1 w1 where r: "attemptRun (sc_dec c) (pe_ops pe) ?gw0 (sv_wire s) = (gw1, w1)" by (metis surj_pair)
  have h1: "heldAll (sw_out (sv_wire s) @ bs) gw1 w1"
    using acceptedBytes_heldBytes [OF assms(6) _ r, of "sw_out (sv_wire s)"] h0 by (simp add: heldBytes_def)
  have gw: "gw = gw1\<lparr>gw_gate := (if sc_l2mode c = RecoveryL2ModeShadow then snd (finishShadow (gw_gate gw1)) else gw_gate gw1)\<rparr>" "sv_wire s1 = w1"
    using 1(1) r by (auto simp: passAttempt_def Let_def)
  have h2: "heldAll (sw_out (sv_wire s) @ bs) gw (sv_wire s2)"
    using h1 passVerdict_fields(2) [OF 1(2)] gw by (auto simp: heldAll_def gateInv_def)
  obtain e gw3 w3 where f: "gw_Finish (sc_dec c) (pe_finish pe) gw (sv_wire s2) = (e, gw3, w3)" by (metis prod_cases3)
  obtain e4 g4 w4 where k: "gate_Commit (sc_dec c) (pe_commit pe) (gw_gate gw3) w3 = (e4, g4, w4)" by (metis prod_cases3)
  have n2: "\<not> sv_succeed s2" using passVerdict_fields(4) [OF 1(2)] passAttempt_fields(3) [OF 1(1)] assms(3) by simp
  have ok: "e = None" "e4 = None" "sv_wire s' = w4"
    using 1(3) f k n2 assms(2) by (auto simp: succeedBranch_def Let_def endWith_def split: option.splits)
  have s3: "soundStep (gw_pending gw) (gw_gate gw) (sv_wire s2) (gw_gate gw3) w3"
    using gw_Finish_step [OF f] h2 ok(1) by (simp add: heldAll_def)
  then have i3: "gateInv (gw_gate gw3) w3" "healthy w3" by (auto simp: soundStep_def gateInv_def)
  have s4: "soundStep [] (gw_gate gw3) w3 g4 w4" by (rule Commit_step [OF k i3(1)])
  have g4: "\<not> g_discarded g4" "g_committed g4" using Commit_ok [of "sc_dec c" "pe_commit pe" "gw_gate gw3" w3 g4 w4] k ok(2) i3(2) by auto
  then have d3: "\<not> g_discarded (gw_gate gw3)" "sw_out w4 @ g_buffer g4 = sw_out w3 @ g_buffer (gw_gate gw3)"
    using s4 by (simp_all add: soundStep_def conserves_def)
  have "g_buffer g4 = []" using s4 g4(2) by (simp add: soundStep_def gateInv_def)
  moreover have "sw_out w3 @ g_buffer (gw_gate gw3) = sw_out (sv_wire s) @ bs"
    using s3 d3(1) h2 by (simp add: soundStep_def conserves_def heldAll_def)
  ultimately show ?thesis using d3(2) ok(3) by simp
qed

text \<open>At the witness the bridge flushes the window and drains an unterminated last frame, which is closed.\<close>

definition demoDrain :: passEnv where
  "demoDrain = demoPass\<lparr>pe_ops := [AWrite (\<lambda>i. calm) (dataFrame ''hi'' @ ''data: you''), AFlush calm, ADrain calm]\<rparr>"

theorem success_delivers_witness:
  "sw_out (sv_wire (snd (survivalPass demoCoord demoDrain demoStart))) = dataFrame ''hi'' @ dataFrame ''you''"
proof -
  let ?r = "survivalPass demoCoord demoDrain demoStart"
  let ?a = "passAttempt demoCoord demoDrain demoStart"
  let ?f = "gw_Finish demoDec calm (fst ?a) (sv_wire (snd ?a))"
  have r: "?r = (fst ?r, snd ?r)" by simp
  have "(case ?a of (gw, s1) \<Rightarrow> case gw_Finish demoDec calm gw (sv_wire s1) of (e, gw1, w1) \<Rightarrow>
      case gate_Commit demoDec calm (gw_gate gw1) w1 of (e2, g2, w2) \<Rightarrow> (e, e2)) = (None, None)" by code_simp
  then obtain gw1 w1 g2 w2 where f: "?f = (None, gw1, w1)" "gate_Commit demoDec calm (gw_gate gw1) w1 = (None, g2, w2)"
    by (auto split: prod.splits)
  obtain gw s1 where a: "?a = (gw, s1)" by (metis surj_pair)
  have fin: "ar_Success (the (sv_final s1))" "sv_final s1 \<noteq> None"
    using a by (auto simp: passAttempt_def Let_def demoDrain_def demoPass_def ExecuteAttempt_def split: prod.splits)
  have i: "passInterrupted demoCoord demoDrain (gw_gate gw) s1 = None" by (simp add: passInterrupted_def demoDrain_def demoPass_def demoCoord_def)
  have d: "AggregateTaskOutcomeWithHistory (sv_final s1) h = decide TaskActionSucceed ''success''" for h
    using fin by (auto simp: AggregateTaskOutcomeWithHistory_def)
  obtain s2 where v: "passVerdict demoCoord False (gw_gate gw) s1 = Some s2" "td_Action (sv_decision s2) = TaskActionSucceed"
    by (simp add: passVerdict_def d Let_def)
  have "survivalPass demoCoord demoDrain demoStart = succeedBranch demoCoord demoDrain gw s2"
    using a i v by (simp add: survivalPass_def demoDrain_def demoPass_def demoCoord_def demoStart_def survivalStart_def)
  then have "sv_succeed (snd ?r)"
    using f a passVerdict_fields(2) [OF v(1)] by (simp add: succeedBranch_def demoCoord_def demoDrain_def demoPass_def)
  moreover have "acceptedBytes (sc_dec demoCoord) (pe_ops demoDrain) [] \<lparr>gw_gate = NewAttemptCommitGate (sc_Protocol demoCoord) (gateOptsFor demoCoord demoStart),
      gw_pending = []\<rparr> (sv_wire demoStart) = Some (dataFrame ''hi'' @ dataFrame ''you'')" by code_simp
  ultimately show ?thesis using success_delivers [OF r] by (simp add: demoStart_def survivalStart_def)
qed

end
