(* ===== verification/Spec2Isabelle.thy ===== *)
theory Spec2Isabelle
  imports SlidingWindow MinuteBucket RetrySchedule NodeHealth ErrorKinds ActionPolicy Planner Failover Governor
    Registry TotalQueue CredForwarder RingBuffer DBMonitor WRR NodeBitmap TaskBus
    CircuitBreaker BreakerSync StreamBreaker CredLimiter KeyRotator RestTrackers ConnPool
    GoText NodeKeys LRUCache NodeMirror SessionState KeyMigration StreamRetry
    StreamFrames StreamRecovery CommitGate GateSafety ConnectionCut GateReplay TaskOutcome Survival
begin

text \<open>
  The AI Native Gateway forwards chat requests to upstream providers. This development models the parts
  of it that carry state and decide: how a request is admitted, queued, sent, retried and moved to
  another credential; how the stream of an answer reaches the client although attempts fail; how
  credentials, keys, nodes and connections are judged healthy; and how the routing state is named,
  mirrored and migrated. Paths below are relative to \<open>src/\<close>.

  \<^bold>\<open>How the parts interact.\<close> A request enters the Tier-0 waiting room (TotalQueue) after the rate
  limits (SlidingWindow, MinuteBucket). The drainer hands it to the dispatcher (Failover), which asks the
  planner (Planner) for a model and credential and enqueues it in the queue of that credential
  (CredForwarder), subject to the governor of the credential (Governor) and, in the executors, to the
  layered limiter (CredLimiter), the circuit breaker (CircuitBreaker), the key rotation (KeyRotator) and
  the connection pool (ConnPool). A failure is turned into an error kind (ErrorKinds), the action policy
  (ActionPolicy) decides whether to retry, switch or stop, the mover (Failover) carries the decision out,
  and a delayed retry waits in the heap of the retry scheduler (RetrySchedule). The outcome also goes to
  the node-health reducer (NodeHealth), to the breaker and its database mirror (BreakerSync) and to the
  rest trackers (RestTrackers). A streaming request is driven by the survival coordinator (Survival): every
  attempt writes its bytes into a gate writer, which cuts them into frames (StreamFrames) and hands them to
  the commit gate (CommitGate); the gate classifies each frame, holds it back, buffers it or commits it to
  the one serialized connection, and writes a checkpoint ahead of what becomes visible. When the attempt
  ends, its failures are folded into a task decision (TaskOutcome, over ActionPolicy), and the coordinator
  delivers, discards and retries within a shared budget of upstream calls, or stops with one terminal; after
  visible output the recovery ladder (StreamRecovery) may replay the stream against the recorded prefix of
  what the client has seen. The registry (Registry) shows where each request is. The state of the nodes
  lives in Redis under the keys of NodeKeys, is mirrored in the process (NodeMirror over LRUCache), and is
  moved to a new key schema by the migration (KeyMigration). Rows that the database does not take go to
  the ring buffer (RingBuffer) while the monitor (DBMonitor) reports it down.

  \<^bold>\<open>Conventions.\<close> A Go struct is a record, an enumeration a datatype, a method a function
  from the old state to its results and the new state. Instants and durations are integers of
  nanoseconds (Prelude); the clock, random numbers and the answers of services are arguments. Counters
  that the code keeps in 32 or 64 bits are words, or integers with the wrap-around written out where it
  can be reached. A Go map is a HOL map, or an association list where the code ranges over it or
  counts it. A method that holds one mutex from beginning to end is one step; a method that releases
  the mutex in between is one step per critical section, and the theorems quantify over every
  interleaving of the steps (event lists run by \<open>run_ops\<close>, or \<open>inductive\<close> step relations).
  Log lines, metrics export and copies made for observers are left out.

  \<^bold>\<open>Shared theories.\<close> Prelude has the time types, \<open>run_ops\<close>, the locale
  \<open>simulation\<close> for functional refinements and the collections of simplification rules. GoHeap is
  \<open>container/heap\<close> with the locale \<open>heap_order\<close>. GoText has the functions of
  \<open>strings\<close>, \<open>strconv\<close> and \<open>encoding/base64\<close> that the key grammars use, with the locale
  \<open>segment_codec\<close> for encoders of key segments, and the prefix and search functions of the streaming theories.

  \<^bold>\<open>Admission and dispatch\<close> (\<open>domains/dispatch\<close>, \<open>ratelimit\<close>).
  \<^item> SlidingWindow (\<open>sliding.go\<close>, \<open>gate.go\<close>): no window admits more than its limit.
  \<^item> MinuteBucket (\<open>minute_bucket.go\<close>): the bucket bound, first-in first-out release of waiters, cancellation.
  \<^item> RetrySchedule (\<open>retry_schedule.go\<close>): the delay ladder; the scheduler fires exactly the due items in order
    and none is lost on close.
  \<^item> Planner (\<open>queued_request.go\<close>, \<open>journal.go\<close>, \<open>planner.go\<close>, \<open>capacity_aware_sort.go\<close>): the journal is gapless; what each plan depends on.
  \<^item> Failover (\<open>dispatcher.go\<close>, \<open>failover.go\<close>): over any life of a request (failed, refused and delivered forwards, the
    mover, the retry timer) at most \<open>maxAttempts\<close> forwards; no operation loses it or completes it twice.
  \<^item> Governor (\<open>governor.go\<close>, \<open>local_backend.go\<close>): token buckets with the locale \<open>token_bucket\<close>, interpreted for
    requests and for tokens; the concurrency cap.
  \<^item> Registry (\<open>registry.go\<close>): refinement of the active requests plus a queue of completed ones.
  \<^item> TotalQueue (\<open>total_queue.go\<close>, \<open>queue_admission.go\<close>, \<open>pipeline.go\<close>): submissions, the drainer (receive, decide, release)
    and the picker of the due scheduler (take and re-arm, admit again) are steps of their own and interleave freely. The theorem
    on slots counts how often the picker overtook the drainer's release: every overtaking costs one slot for good, and with as
    many of them as the room has slots it refuses every submission from then on.
  \<^item> CredForwarder (\<open>forwarder.go\<close>): depth and cluster-token accounting of a credential's queue under every interleaving of producers,
    receiver, live resize, shutdown and the token sweep of \<open>complete\<close>, and the request that a race strands. The loops that move
    or complete a whole queue are one step each.

  \<^bold>\<open>Streaming\<close> (\<open>domains/streaming\<close>, \<open>domains/streaming/executors\<close>).
  \<^item> StreamFrames (\<open>stream_frame_classifier.go\<close>, \<open>sse_frame_validator.go\<close>, the cutter of \<open>gate_writer.go\<close>): classes of frames in the three
    client protocols; cutting and joining frames is lossless. The JSON decoder is the record \<open>jsonDec\<close> of the answers
    the classifiers ask of it.
  \<^item> StreamRecovery (\<open>stream_recovery.go\<close>, \<open>stream_recovery_config.go\<close>): the ladder and its credential lock, the prefix cache as
    an exact record of what was observed since tracking began, the aligner on faithful and on diverging replays.
  \<^item> CommitGate (\<open>serialized_stream_writer.go\<close>, \<open>attempt_commit_gate.go\<close>, \<open>gate_writer.go\<close>): the writers and the gate, method by method.
    A method that releases the lock around a hook or a write takes, in its environment \<open>gateEnv\<close>, whether a
    \<open>Discard\<close> runs in that window (\<open>ge_discard1\<close>, \<open>ge_discard2\<close>), the answer of the hook and the clock.
  \<^item> GateSafety: for all sequences of calls and all environments, order and bytes are conserved, a discarded attempt is
    invisible, checkpoints run ahead of the wire, and what the gate reports about visible output. The theorems are about a connection
    that takes its writes (\<open>healthy\<close>) and, where they speak of all accepted frames, about gates without replay alignment and attempts
    that are not discarded; write-ahead and the report of visible output need in addition that an attempt is not finished with an
    unterminated tail that is more than a partial terminal, which is written unrecorded (\<open>partial_tail_unrecorded\<close>).
  \<^item> ConnectionCut: the connection may fail, be cut short or be detached at any write or flush; the client then has a prefix of what
    the same calls would have sent on a connection that takes everything, and nothing is sent after the first failure.
  \<^item> GateReplay: the locale \<open>frame_sink\<close> (what the gate owes the gate writer), interpreted for the bytes of a stream and, in
    Survival, for the coordinator's invariant; chunking makes no difference; every byte arrives; replays are silent until aligned
    and then spliced at the first whole frame behind the committed bytes; a replay that leaves the committed text is spliced all the same.
  \<^item> TaskOutcome (\<open>attempt_outcome.go\<close>, \<open>execute_attempt.go\<close>, \<open>attempt_budget.go\<close>): the decision as an explicit priority over the set of kinds.
  \<^item> Survival (\<open>survival_coordinator.go\<close>): one pass and the loop. \<open>passEnv\<close> holds what a pass reads from outside (contexts,
    clock, executor operations, hooks); an executor writes, flushes the holdback, marks failures and drains its pending bytes. Run returns
    within 601 attempts with at most one terminal, the client sees one attempt only, and success delivers every byte the attempt
    handed over, less the last frame where the final drain takes it back.

  \<^bold>\<open>Judging failures\<close> (\<open>errorsx\<close>, \<open>domains/nodehealth\<close>, \<open>domains/credential\<close>, \<open>pool\<close>).
  \<^item> ErrorKinds (\<open>classify.go\<close>, \<open>penalty.go\<close>, \<open>failover_policy.go\<close>, \<open>recovery_projection.go\<close>, \<open>automatic_probe_policy.go\<close>): the
    closed set of kinds and the tables on it.
  \<^item> ActionPolicy (\<open>action_policy.go\<close>): nothing is retried once output reached the client; same-node retries end exactly at the budget.
  \<^item> NodeHealth (\<open>reducer.go\<close>): the production path \<open>ReduceAndApply\<close> with its forgetting of an outcome that could not be applied;
    an outcome still in the bounded history is not applied again; recovery needs evidence.
  \<^item> CircuitBreaker (\<open>breaker.go\<close>): the invariant of the state machine, exclusive probes (until a recorded result of any request, a
    release, a reset or the timeout), the cooling ladder, that a breaker is never wedged. BreakerSync (\<open>breaker.go\<close>, \<open>state_sync.go\<close>): isolation of keys, and the database row as a mirror of the breaker.
  \<^item> CredLimiter (\<open>limiter.go\<close>): the releases of every path of \<open>AcquireAll\<close> are written out one by one; every semaphore
    counts its holders exactly, the caps hold, a running request holds its layers, recovery halves the gap.
  \<^item> KeyRotator (\<open>keyrotator.go\<close>), RestTrackers (\<open>rate_backoff.go\<close>, \<open>slow_rest.go\<close>, locale \<open>forgetful_tracker\<close>), ConnPool (\<open>pool.go\<close>), StreamBreaker
    (\<open>domains/transformation/circuit_breaker.go\<close>): fairness, ladders, bounded tables, health ladders.
  \<^item> StreamRetry (\<open>internal/streamretry\<close>): the loop ends where it should; a wrapped handler runs once.

  \<^bold>\<open>Routing and session state\<close> (\<open>domains/ursm/v2\<close>, \<open>domains/sessionstate\<close>, \<open>domains/nodestatecache\<close>, \<open>pool/scheduler\<close>).
  \<^item> NodeKeys (\<open>store/keys.go\<close>, \<open>store/keys_k2.go\<close>): the k2 grammar is a bijection between tuples and keys; which tuples the legacy
    grammar brings back, and where two tenants collide.
  \<^item> LRUCache (\<open>cache/lru.go\<close>): refinement of a bounded recency list. NodeMirror (\<open>cache/nodemirror.go\<close>): lookups are sound, entries never
    go back in generation, memory is bounded.
  \<^item> KeyMigration (\<open>migration\<close>): the preflight is deterministic, targets are distinct, promotions follow the checkpoints in order.
  \<^item> SessionState (\<open>types.go\<close>, \<open>state_machine.go\<close>): the history is a path, terminal states are final, the table, the snapshot deadlock.
    States and events are the declared constants of the code's string types.
  \<^item> NodeBitmap (\<open>bitmap.go\<close>): refinement of three sets. WRR (\<open>wrr.go\<close>): exact shares over full cycles.

  \<^bold>\<open>Background work\<close> (\<open>domains/dbdegradation\<close>, \<open>internal/taskbus\<close>).
  \<^item> RingBuffer: refinement of a bounded queue; the two critical sections of a replay interleave with every other operation.
    DBMonitor: the status as a reading of the ping history.
  \<^item> TaskBus: handler calls are bounded, the indices of the store are exact, due tasks are dispatched.

  \<^bold>\<open>Bounds and termination.\<close> No definition uses fuel. Loops that are not structural are \<open>function\<close>s with a
  \<open>termination\<close> proof: the heap loops by index, the eviction and reclaim loops by the length of the
  queue, the switch loop by the candidates not yet tried, the scan of a word by the word itself, the
  retry loop by the attempts left, frame cutting by the bytes left, the survival loop by the attempts left
  under its retry limit. Loops that wait for other goroutines are step relations, and what they
  promise is stated over sequences of steps. Go's \<open>int\<close> is unbounded where the code only compares it
  with configured limits; it is bounded by \<open>maxInt\<close> where a parser reads it.

  \<^bold>\<open>Not modelled.\<close> The streaming handlers, SSE bridges and executors, \<open>cmd/gateway\<close>, the administration API, the
  database layer, probes and hooks are transport, wiring and SQL around the components above; of an executor the
  coordinator's model has the operations it performs on the gate. Rendering of restart, signal and terminal frames is text.
  The scripts that run inside Redis and the stores behind them are other programs' state. Error classification by regular
  expressions, protocol conversion (\<open>internal/ir\<close>), licensing, the installer and the frontend are large
  tables or I/O without the state that makes the components hard.
\<close>

end
